(* ===== verification/Prelude.thy ===== *)
theory Prelude
  imports Main "HOL-Library.Word" "HOL-Library.Monad_Syntax"
begin

unbundle bit_operations_syntax

text \<open>
  Shared vocabulary of the development: the fixed-width integers of
  \<^verbatim>\<open>kernel/lib/types.h\<close>, its alignment macros, the page arithmetic of
  \<^verbatim>\<open>kernel/mm/pmm.h\<close>, the compiler builtin \<^verbatim>\<open>__builtin_ctz\<close>, and counted loops
  \<^verbatim>\<open>for (i = a; i < b; i++)\<close> over unsigned 32-bit counters, as the list of the values
  the counter takes.  The lemmas here are about words, bits and lists only; every
  component theory imports this one.
\<close>

section \<open>Collections\<close>

named_theorems u32_simps \<open>rewriting unsigned 32-bit arithmetic into nat\<close>
named_theorems bitmap_simps \<open>reading and writing single bits of a word\<close>

section \<open>Machine integers\<close>

type_synonym u8 = "8 word"
type_synonym u16 = "16 word"
type_synonym u32 = "32 word"
type_synonym u64 = "64 word"

abbreviation UINT32_MAX :: u32 where
  "UINT32_MAX \<equiv> 0xFFFFFFFF"

definition PAGE_SIZE :: u32 where
  "PAGE_SIZE = 4096"

definition ALIGN_UP :: "u32 \<Rightarrow> u32 \<Rightarrow> u32" where
  "ALIGN_UP val algn = (val + algn - 1) AND NOT (algn - 1)"

definition ALIGN_DOWN :: "u32 \<Rightarrow> u32 \<Rightarrow> u32" where
  "ALIGN_DOWN val algn = val AND NOT (algn - 1)"

definition ADDR_TO_FRAME :: "u32 \<Rightarrow> u32" where
  "ADDR_TO_FRAME a = drop_bit 12 a"

definition FRAME_TO_ADDR :: "u32 \<Rightarrow> u32" where
  "FRAME_TO_ADDR f = push_bit 12 f"

text \<open>
  \<^verbatim>\<open>__builtin_ctz\<close>: the number of trailing zero bits.  The builtin is undefined at 0
  and the sources never call it there; the model answers 32.
\<close>

definition ctz :: "u32 \<Rightarrow> nat" where
  "ctz w = (case filter (bit w) [0..<32] of [] \<Rightarrow> 32 | n # _ \<Rightarrow> n)"

text \<open>
  The values an unsigned counter takes in \<^verbatim>\<open>for (i = a; i < b; i++)\<close>.  While
  \<^verbatim>\<open>i < b\<close> the increment cannot wrap, which \<open>words_from_unfold\<close> below states.
\<close>

definition words_from :: "u32 \<Rightarrow> u32 \<Rightarrow> u32 list" where
  "words_from a b = map of_nat [unat a ..< unat b]"

section \<open>Words as natural numbers\<close>

lemma unat_lt_u32 [simp]: "unat (w :: u32) < 4294967296"
  using unsigned_less [of w] by simp

lemma less_unat_u32: "n < unat (w :: u32) \<Longrightarrow> n < 4294967295"
  using unat_lt_u32 [of w] by linarith

lemma unat_of_nat_u32 [u32_simps]: "n < 4294967296 \<Longrightarrow> unat (of_nat n :: u32) = n"
  by (simp add: unat_of_nat)

lemma unat_add_u32 [u32_simps]:
  "unat (a :: u32) + unat b < 4294967296 \<Longrightarrow> unat (a + b) = unat a + unat b"
  by (simp add: unat_word_ariths)

lemma unat_add_no_wrap:
  fixes a b :: u32
  assumes "\<not> a + b < a"
  shows "unat (a + b) = unat a + unat b"
proof (cases "unat a + unat b < 4294967296")
  case False
  then have "unat (a + b) = unat a + unat b - 4294967296" by (simp add: unat_plus_if_size word_size)
  then have "unat (a + b) < unat a" using False unat_lt_u32 [of b] by linarith
  with assms show ?thesis by (simp add: word_less_nat_alt)
qed (rule unat_add_u32)

lemma unat_mult_u32 [u32_simps]:
  "unat (a :: u32) * unat b < 4294967296 \<Longrightarrow> unat (a * b) = unat a * unat b"
  by (simp add: unat_word_ariths)

lemma unat_Suc_u32:
  fixes a b :: u32
  assumes "a < b"
  shows "unat (a + 1) = Suc (unat a)"
proof -
  have "unat a < unat b" using assms by (simp add: word_less_nat_alt)
  with unat_lt_u32 [of b] have "unat a + 1 < 4294967296" by linarith
  then show ?thesis by (simp add: unat_word_ariths)
qed

lemma unat_sub_u32 [u32_simps]:
  "(b :: u32) \<le> a \<Longrightarrow> unat (a - b) = unat a - unat b"
  by (rule unat_sub)

lemma unat_div_32 [u32_simps]: "unat ((a :: u32) div 32) = unat a div 32"
  by (simp add: unat_div)

lemma unat_mod_32 [u32_simps]: "unat ((a :: u32) mod 32) = unat a mod 32"
  by (simp add: unat_mod)

lemma unat_mod_32_less [simp]: "unat ((a :: u32) mod 32) < 32"
  by (simp add: unat_mod)

lemma unat_div_mod_32_eq:
  fixes a b :: u32
  assumes "unat a div 32 = unat b div 32" and "unat a mod 32 = unat b mod 32"
  shows "a = b"
proof -
  have "unat a = unat b" by (metis assms div_mult_mod_eq)
  then show ?thesis by (simp add: word_unat_eq_iff)
qed

lemma div_less_ceil_32: "(a :: nat) < b \<Longrightarrow> a div 32 < (b + 31) div 32"
  by linarith

lemma unat_eq_iff_u32: "(a :: u32) = b \<longleftrightarrow> unat a = unat b"
  by (rule word_unat_eq_iff)

subsection \<open>Counted loops\<close>

lemma words_from_unfold:
  "words_from a b = (if a < b then a # words_from (a + 1) b else [])"
  by (simp add: words_from_def word_less_nat_alt unat_Suc_u32 upt_conv_Cons)

lemma words_from_Nil [simp]: "b \<le> a \<Longrightarrow> words_from a b = []"
  by (simp add: words_from_def word_le_nat_alt)

lemma length_words_from: "length (words_from a b) = unat b - unat a"
  by (simp add: words_from_def)

lemma nth_words_from:
  "i < unat b - unat a \<Longrightarrow> words_from a b ! i = a + of_nat i"
  by (simp add: words_from_def)

lemma set_words_from [simp]: "set (words_from a b) = {w. a \<le> w \<and> w < b}"
proof -
  have "w \<in> of_nat ` {unat a ..< unat b} \<longleftrightarrow> a \<le> w \<and> w < b" for w :: u32
  proof
    assume "w \<in> of_nat ` {unat a ..< unat b}"
    then obtain n where n: "w = of_nat n" "unat a \<le> n" "n < unat b" by auto
    moreover have "n < 4294967296" using n(3) unat_lt_u32 [of b] by linarith
    ultimately show "a \<le> w \<and> w < b"
      by (simp add: word_le_nat_alt word_less_nat_alt unat_of_nat_u32)
  next
    assume "a \<le> w \<and> w < b"
    then have "w = of_nat (unat w)" "unat a \<le> unat w" "unat w < unat b"
      by (simp_all add: word_le_nat_alt word_less_nat_alt)
    then show "w \<in> of_nat ` {unat a ..< unat b}" by (metis atLeastLessThan_iff imageI)
  qed
  then show ?thesis by (auto simp: words_from_def)
qed

lemma distinct_words_from [simp]: "distinct (words_from a b)"
proof -
  have "inj_on (of_nat :: nat \<Rightarrow> u32) {unat a ..< unat b}"
  proof (rule inj_onI)
    fix x y assume xy: "x \<in> {unat a ..< unat b}" "y \<in> {unat a ..< unat b}"
      and eq: "(of_nat x :: u32) = of_nat y"
    have "x < unat b" "y < unat b" using xy by simp_all
    then have "x < 4294967296" "y < 4294967296" using unat_lt_u32 [of b] by linarith+
    with eq show "x = y" by (metis unat_of_nat_u32)
  qed
  then show ?thesis by (simp add: words_from_def distinct_map)
qed

subsection \<open>Alignment\<close>

lemma bit_PAGE_SIZE_mask: "bit (PAGE_SIZE - 1) n \<longleftrightarrow> n < 12"
proof -
  have "(PAGE_SIZE - 1 :: u32) = mask 12"
    by (simp add: PAGE_SIZE_def mask_eq_exp_minus_1)
  then show ?thesis by (auto simp: bit_mask_iff)
qed

lemma align_down_shift: "ALIGN_DOWN a PAGE_SIZE = push_bit 12 (drop_bit 12 a)"
  by (rule bit_word_eqI)
    (auto simp: ALIGN_DOWN_def bit_and_iff bit_not_iff bit_PAGE_SIZE_mask
      bit_push_bit_iff bit_drop_bit_eq)

lemma unat_align_down: "unat (ALIGN_DOWN a PAGE_SIZE) = unat a div 4096 * 4096"
proof -
  have "unat (drop_bit 12 a) = unat a div 4096"
    by (simp add: unat_drop_bit_eq drop_bit_eq_div unat_div)
  moreover have "unat a div 4096 * 4096 < 4294967296"
    using unat_lt_u32 [of a] by linarith
  ultimately show ?thesis
    by (simp add: align_down_shift push_bit_eq_mult unat_word_ariths)
qed

lemma align_up_as_down: "ALIGN_UP a PAGE_SIZE = ALIGN_DOWN (a + (PAGE_SIZE - 1)) PAGE_SIZE"
  by (simp add: ALIGN_UP_def ALIGN_DOWN_def add_diff_eq)

lemma unat_align_up:
  assumes "unat a \<le> 4294963200"
  shows "unat (ALIGN_UP a PAGE_SIZE) = (unat a + 4095) div 4096 * 4096"
proof -
  have "unat (a + (PAGE_SIZE - 1)) = unat a + 4095"
    using assms by (simp add: PAGE_SIZE_def unat_add_u32)
  then show ?thesis by (simp add: align_up_as_down unat_align_down)
qed

lemma unat_addr_to_frame: "unat (ADDR_TO_FRAME a) = unat a div 4096"
  by (simp add: ADDR_TO_FRAME_def unat_drop_bit_eq drop_bit_eq_div unat_div)

lemma addr_to_frame_bound: "unat (ADDR_TO_FRAME a) < 1048576"
  using unat_lt_u32 [of a] unfolding unat_addr_to_frame by (intro less_mult_imp_div_less) simp

lemma unat_frame_to_addr:
  "unat f < 1048576 \<Longrightarrow> unat (FRAME_TO_ADDR f) = unat f * 4096"
  by (simp add: FRAME_TO_ADDR_def push_bit_eq_mult unat_word_ariths)

lemma addr_to_frame_to_addr [simp]:
  "unat f < 1048576 \<Longrightarrow> ADDR_TO_FRAME (FRAME_TO_ADDR f) = f"
  by (simp add: word_unat_eq_iff unat_addr_to_frame unat_frame_to_addr)

lemma frame_to_addr_aligned: "FRAME_TO_ADDR f AND (PAGE_SIZE - 1) = 0"
  by (rule bit_word_eqI)
    (auto simp: FRAME_TO_ADDR_def bit_and_iff bit_PAGE_SIZE_mask bit_push_bit_iff)

subsection \<open>Trailing zeros and clearing the lowest set bit\<close>

lemma bit_u32_less: "bit (w :: u32) n \<Longrightarrow> n < 32"
  by (drule bit_imp_le_length) simp

lemma ctz_props:
  assumes "w \<noteq> 0"
  shows ctz_less: "ctz w < 32" and bit_ctz: "bit w (ctz w)"
    and ctz_least: "\<And>n. bit w n \<Longrightarrow> ctz w \<le> n"
proof -
  obtain m where "bit w m" using assms bit_word_eqI [of w 0] by auto
  then have "m \<in> set (filter (bit w) [0..<32])" using bit_u32_less by auto
  then obtain k ks where ks: "filter (bit w) [0..<32] = k # ks"
    by (cases "filter (bit w) [0..<32]") auto
  have sorted: "sorted (k # ks)" by (metis ks sorted_upt sorted_filter map_ident)
  have k: "ctz w = k" by (simp add: ctz_def ks)
  have mem: "n \<in> set (k # ks) \<longleftrightarrow> bit w n" for n
    unfolding ks [symmetric] using bit_u32_less by auto
  show "bit w (ctz w)" using mem k by auto
  then show "ctz w < 32" by (rule bit_u32_less)
  show "ctz w \<le> n" if "bit w n" for n using mem [of n] that sorted k by auto
qed

lemma clear_lowest:
  assumes "w \<noteq> 0"
  shows "w AND (w - 1) = unset_bit (ctz w) w"
proof -
  let ?k = "ctz w"
  let ?u = "unset_bit ?k w"
  have low: "\<not> bit w n" if "n < ?k" for n using ctz_least [OF assms, of n] that by auto
  have "w = ?u + 2 ^ ?k" using assms by (simp add: unset_bit_eq bit_ctz)
  then have "w - 1 = ?u + (2 ^ ?k - 1)" by (simp add: algebra_simps)
  also have "\<dots> = ?u + mask ?k" by (simp add: mask_eq_exp_minus_1)
  also have "\<dots> = ?u OR mask ?k"
    using low by (intro disjunctive_add) (auto simp: bit_simps)
  finally have w1: "w - 1 = ?u OR mask ?k" .
  show ?thesis
    using low by (intro bit_word_eqI) (auto simp: w1 bit_simps)
qed

lemma clear_lowest_less:
  assumes "w \<noteq> 0"
  shows "unat (w AND (w - 1)) < unat w"
proof -
  have "w AND (w - 1) \<le> w - 1" by (rule word_and_le1)
  also have "w - 1 < w" using assms by (simp add: word_less_nat_alt unat_minus_one unat_gt_0)
  finally show ?thesis by (simp add: word_less_nat_alt)
qed

lemma bit_not_u32: "bit (NOT w :: u32) n \<longleftrightarrow> n < 32 \<and> \<not> bit w n"
  by (simp add: bit_not_iff)

lemma ctz_not_props:
  assumes "NOT w \<noteq> (0 :: u32)"
  shows "ctz (NOT w) < 32" and "\<not> bit w (ctz (NOT w))" and "\<And>k. k < ctz (NOT w) \<Longrightarrow> bit w k"
proof -
  show less: "ctz (NOT w) < 32" by (rule ctz_less [OF assms])
  show "\<not> bit w (ctz (NOT w))" using bit_ctz [OF assms] by (simp add: bit_not_u32)
  show "bit w k" if "k < ctz (NOT w)" for k
    using ctz_least [OF assms, of k] that less by (auto simp: bit_not_u32)
qed

text \<open>
  The C idioms \<^verbatim>\<open>w | (1u << n)\<close>, \<^verbatim>\<open>w & ~(1u << n)\<close> and \<^verbatim>\<open>(w & (1u << n)) != 0\<close>;
  the simplifier writes \<open>push_bit n 1\<close> as \<open>2 ^ n\<close>.
\<close>

lemma or_exp_bit [bitmap_simps]:
  "n < 32 \<Longrightarrow> bit (w OR 2 ^ n :: u32) m \<longleftrightarrow> m = n \<or> bit w m"
  by (auto simp: bit_simps)

lemma and_not_exp_bit [bitmap_simps]:
  "bit (w AND NOT (2 ^ n) :: u32) m \<longleftrightarrow> m \<noteq> n \<and> bit w m"
  by (auto simp: bit_simps dest: bit_u32_less)

lemma and_exp_test [bitmap_simps]:
  assumes "n < 32"
  shows "(w :: u32) AND 2 ^ n = 0 \<longleftrightarrow> \<not> bit w n"
  using assms by (simp add: and_exp_eq_0_iff_not_bit)

lemma shift_and_1 [bitmap_simps]:
  "drop_bit n (w :: u32) AND 1 \<noteq> 0 \<longleftrightarrow> bit w n"
  by (simp add: and_one_eq odd_iff_mod_2_eq_one [symmetric] bit_iff_odd_drop_bit)

section \<open>Options\<close>

lemma option_eqI: "(\<And>y. x = Some y \<longleftrightarrow> x' = Some y) \<Longrightarrow> x = x'"
  by (cases x; cases x') auto

section \<open>Lists\<close>

lemma case_SomeD: "(case x of None \<Rightarrow> False | Some y \<Rightarrow> P y) \<Longrightarrow> \<exists>y. x = Some y \<and> P y"
  by (cases x) simp_all

lemma not_None_the: "x \<noteq> None \<Longrightarrow> x = Some (the x)"
  by (cases x) simp_all

lemma fold_invariant_pred:
  assumes "P s" and "\<And>x s. x \<in> set xs \<Longrightarrow> P s \<Longrightarrow> P (f x s)"
  shows "P (fold f xs s)"
  using assms by (induction xs arbitrary: s) auto

lemma list_update_take_drop:
  "i < length xs \<Longrightarrow> xs[i := y] = take i xs @ y # drop (Suc i) xs"
  by (rule upd_conv_take_nth_drop)

lemma sum_list_update_u32:
  fixes f :: "'a \<Rightarrow> u32"
  assumes "i < length xs"
  shows "sum_list (map f (xs[i := y])) = sum_list (map f xs) - f (xs ! i) + f y"
proof -
  have "sum_list (map f xs) = sum_list (map f (take i xs @ xs ! i # drop (Suc i) xs))"
    using assms by (simp only: id_take_nth_drop [symmetric])
  then show ?thesis by (simp add: list_update_take_drop [OF assms])
qed

text \<open>A loop whose body may stop the kernel (panic or fault), which is \<open>None\<close>.\<close>

fun fold_option :: "('a \<Rightarrow> 's \<Rightarrow> 's option) \<Rightarrow> 'a list \<Rightarrow> 's \<Rightarrow> 's option" where
  "fold_option f [] s = Some s"
| "fold_option f (x # xs) s = Option.bind (f x s) (fold_option f xs)"

lemma fold_option_append:
  "fold_option f (xs @ ys) s = Option.bind (fold_option f xs s) (fold_option f ys)"
  by (induction xs arbitrary: s) (simp_all split: bind_splits)

lemma fold_option_invariant:
  assumes "P s" and "\<And>x s. x \<in> set xs \<Longrightarrow> P s \<Longrightarrow> \<exists>s'. f x s = Some s' \<and> P s'"
  shows "\<exists>s'. fold_option f xs s = Some s' \<and> P s'"
  using assms
proof (induction xs arbitrary: s)
  case (Cons x xs)
  then obtain s1 where "f x s = Some s1" "P s1" by (metis list.set_intros(1))
  with Cons show ?case by simp
qed simp

section \<open>Batches\<close>

text \<open>
  A pass over a list that detaches at most \<open>cap\<close> records with a property into a batch, \<open>n\<close> being
  already there: the code shared by the kernel's collect-then-wake loops, which repeat the pass
  until a batch is not full.
\<close>

fun collect_records :: "('a \<Rightarrow> bool) \<Rightarrow> nat \<Rightarrow> nat \<Rightarrow> 'a list \<Rightarrow> 'a list \<times> 'a list" where
  "collect_records P cap n [] = ([], [])"
| "collect_records P cap n (p # ps) =
     (if n \<ge> cap then ([], p # ps)
      else if P p then (case collect_records P cap (Suc n) ps of (b, rest) \<Rightarrow> (p # b, rest))
      else (case collect_records P cap n ps of (b, rest) \<Rightarrow> (b, p # rest)))"

lemma collect_records_filter:
  "filter P xs = fst (collect_records P cap n xs) @ filter P (snd (collect_records P cap n xs))"
  by (induction xs arbitrary: n) (simp_all add: case_prod_beta)

lemma collect_records_others:
  "filter (\<lambda>x. \<not> P x) (snd (collect_records P cap n xs)) = filter (\<lambda>x. \<not> P x) xs"
  by (induction xs arbitrary: n) (simp_all add: case_prod_beta)

lemma collect_records_bound: "n \<le> cap \<Longrightarrow> n + length (fst (collect_records P cap n xs)) \<le> cap"
proof (induction xs arbitrary: n)
  case (Cons x xs)
  then show ?case using Cons.IH [of "Suc n"] by (simp add: case_prod_beta)
qed simp

lemma collect_records_dry:
  "n + length (fst (collect_records P cap n xs)) < cap \<Longrightarrow>
   snd (collect_records P cap n xs) = filter (\<lambda>x. \<not> P x) xs"
  by (induction xs arbitrary: n) (simp_all add: case_prod_beta split: if_splits)

lemma collect_records_subset: "set (snd (collect_records P cap n xs)) \<subseteq> set xs"
proof (induction xs arbitrary: n)
  case (Cons x xs)
  then show ?case using Cons.IH [of "Suc n"] Cons.IH [of n] by (auto simp: case_prod_beta)
qed simp

lemma collect_records_facts:
  assumes "collect_records P cap 0 xs = (b, rest)" and "0 < cap"
  shows collect_filter: "filter P xs = b @ filter P rest"
    and collect_others: "filter (\<lambda>x. \<not> P x) rest = filter (\<lambda>x. \<not> P x) xs"
    and collect_dry: "length b < cap \<Longrightarrow> b = filter P xs \<and> rest = filter (\<lambda>x. \<not> P x) xs"
    and collect_length: "length rest + length b = length xs"
    and collect_rest_subset: "set rest \<subseteq> set xs"
proof -
  show f: "filter P xs = b @ filter P rest"
    using collect_records_filter [of P xs cap 0] assms by simp
  show o: "filter (\<lambda>x. \<not> P x) rest = filter (\<lambda>x. \<not> P x) xs"
    using collect_records_others [of P cap 0 xs] assms by simp
  show "b = filter P xs \<and> rest = filter (\<lambda>x. \<not> P x) xs" if "length b < cap"
    using collect_records_dry [of 0 P cap xs] that assms f by simp
  have "length (filter P xs) = length b + length (filter P rest)" by (simp add: f)
  moreover have "length (filter (\<lambda>x. \<not> P x) rest) = length (filter (\<lambda>x. \<not> P x) xs)" by (simp only: o)
  ultimately show "length rest + length b = length xs"
    using sum_length_filter_compl [of P rest] sum_length_filter_compl [of P xs] by linarith
  show "set rest \<subseteq> set xs" using collect_records_subset [of P cap 0 xs] assms by simp
qed

lemma full_batch_less:
  assumes "collect_records P cap 0 xs = (b, rest)" and "\<not> length b < cap" and "0 < cap"
  shows "length rest < length xs"
  using collect_length [OF assms(1,3)] assms(2,3) by linarith

section \<open>First-fit search for a run\<close>

text \<open>
  The reference for the two first-fit loops of the kernel (slot bitmap and frame
  allocator): scan the positions of a list and answer the start of the first \<open>n\<close>
  consecutive positions that satisfy \<open>F\<close>; \<open>r\<close> counts the run that ends just before.
\<close>

fun run_scan :: "(nat \<Rightarrow> bool) \<Rightarrow> nat \<Rightarrow> nat \<Rightarrow> nat list \<Rightarrow> nat option" where
  "run_scan F n r [] = None"
| "run_scan F n r (i # is) =
     (if F i then if Suc r = n then Some (Suc i - n) else run_scan F n (Suc r) is
      else run_scan F n 0 is)"

definition is_run :: "(nat \<Rightarrow> bool) \<Rightarrow> nat \<Rightarrow> nat \<Rightarrow> bool" where
  "is_run F n s \<longleftrightarrow> (\<forall>j. s \<le> j \<and> j < s + n \<longrightarrow> F j)"

lemma run_scan_sound:
  assumes "run_scan F n r [i..<hi] = Some s" and "r < n" and "r \<le> i"
    and "\<And>j. i - r \<le> j \<Longrightarrow> j < i \<Longrightarrow> F j"
  shows "is_run F n s \<and> i - r \<le> s \<and> s + n \<le> hi"
  using assms
proof (induction "hi - i" arbitrary: i r)
  case 0
  then show ?case by simp
next
  case (Suc d)
  then have upt: "[i..<hi] = i # [Suc i..<hi]" by (simp add: upt_conv_Cons)
  show ?case
  proof (cases "F i")
    case True
    show ?thesis
    proof (cases "Suc r = n")
      case True
      with Suc.prems upt \<open>F i\<close> have "s = i - r" by simp
      then show ?thesis
        using Suc.prems Suc.hyps \<open>F i\<close> True by (auto simp: is_run_def less_Suc_eq)
    next
      case False
      have "is_run F n s \<and> Suc i - Suc r \<le> s \<and> s + n \<le> hi"
        by (rule Suc.hyps) (use Suc.prems Suc.hyps(2) upt \<open>F i\<close> False in \<open>auto simp: less_Suc_eq\<close>)
      then show ?thesis by simp
    qed
  next
    case False
    have "is_run F n s \<and> Suc i - 0 \<le> s \<and> s + n \<le> hi"
      by (rule Suc.hyps) (use Suc.prems Suc.hyps(2) upt False in auto)
    then show ?thesis by auto
  qed
qed

lemma run_scan_first:
  assumes "is_run F n t" and "i - r \<le> t" and "t + n \<le> hi" and "r < n" and "r \<le> i"
  shows "\<exists>s \<le> t. run_scan F n r [i..<hi] = Some s"
  using assms
proof (induction "hi - i" arbitrary: i r)
  case 0
  then show ?case by simp
next
  case (Suc d)
  then have upt: "[i..<hi] = i # [Suc i..<hi]" by (simp add: upt_conv_Cons)
  show ?case
  proof (cases "F i")
    case True
    show ?thesis
    proof (cases "Suc r = n")
      case True
      with upt \<open>F i\<close> Suc.prems show ?thesis by (auto simp: le_diff_conv)
    next
      case False
      have "\<exists>s \<le> t. run_scan F n (Suc r) [Suc i..<hi] = Some s"
        by (rule Suc.hyps) (use Suc.prems Suc.hyps(2) False in auto)
      then show ?thesis using upt \<open>F i\<close> False by simp
    qed
  next
    case False
    have "Suc i \<le> t"
    proof (rule ccontr)
      assume "\<not> Suc i \<le> t"
      then have "t \<le> i" "i < t + n" using Suc.prems by auto
      then show False using Suc.prems(1) False by (auto simp: is_run_def)
    qed
    then have "\<exists>s \<le> t. run_scan F n 0 [Suc i..<hi] = Some s"
      by (intro Suc.hyps) (use Suc.prems Suc.hyps(2) in auto)
    then show ?thesis using upt False by simp
  qed
qed

lemma run_scan_cases:
  assumes "0 < n" and "lo \<le> hi"
  obtains (found) s where "run_scan F n 0 [lo..<hi] = Some s" "is_run F n s" "lo \<le> s" "s + n \<le> hi"
    "\<And>t. lo \<le> t \<Longrightarrow> t < s \<Longrightarrow> \<not> is_run F n t"
  | (none) "run_scan F n 0 [lo..<hi] = None"
    "\<And>t. lo \<le> t \<Longrightarrow> t + n \<le> hi \<Longrightarrow> \<not> is_run F n t"
proof (cases "run_scan F n 0 [lo..<hi]")
  case None
  have "\<not> is_run F n t" if "lo \<le> t" "t + n \<le> hi" for t
    using run_scan_first [of F n t lo 0 hi] that assms None by auto
  with None show thesis by (rule none)
next
  case (Some s)
  with run_scan_sound [OF Some] assms have s: "is_run F n s" "lo \<le> s" "s + n \<le> hi" by auto
  have "\<not> is_run F n t" if "lo \<le> t" "t < s" for t
    using run_scan_first [of F n t lo 0 hi] that assms Some s by auto
  with Some s show thesis by (intro found)
qed

end
