(* ===== verification/Bitmap.thy ===== *)
theory Bitmap
  imports Prelude
begin

text \<open>
  \<^verbatim>\<open>kernel/lib/bitmap.c\<close>: the slot bitmap used by the kernel's tables, over a buffer of
  32-bit words supplied by the caller.  The buffer is a list of words; an index outside it
  would be a stray memory access in C, so the well-formedness condition \<open>bitmap_wf\<close> asks
  for the words the size needs, and the operations are proved to keep it.  The abstraction
  \<open>bitmap_bits\<close> is the set of indices whose bit is set.
\<close>

section \<open>Model\<close>

record bitmap_t =
  bm_data :: "u32 list"
  bm_size :: u32

definition BITS_PER_ENTRY :: u32 where
  [simp]: "BITS_PER_ENTRY = 32"

definition bitmap_words :: "u32 \<Rightarrow> u32" where
  "bitmap_words num_bits = (num_bits + BITS_PER_ENTRY - 1) div BITS_PER_ENTRY"

text \<open>\<^verbatim>\<open>memset(buffer, 0, bytes)\<close> clears the first \<^verbatim>\<open>bytes / 4\<close> words of the buffer.\<close>

definition bitmap_init :: "u32 list \<Rightarrow> u32 \<Rightarrow> bitmap_t" where
  "bitmap_init buffer num_bits =
     (let bytes = bitmap_words num_bits * 4; n = unat (bytes div 4)
      in \<lparr>bm_data = replicate n 0 @ drop n buffer, bm_size = num_bits\<rparr>)"

definition bitmap_set :: "bitmap_t \<Rightarrow> u32 \<Rightarrow> bitmap_t" where
  "bitmap_set bm index =
     (if index < bm_size bm
      then let i = unat (index div BITS_PER_ENTRY)
           in bm\<lparr>bm_data := (bm_data bm)
                  [i := bm_data bm ! i OR push_bit (unat (index mod BITS_PER_ENTRY)) 1]\<rparr>
      else bm)"

definition bitmap_clear :: "bitmap_t \<Rightarrow> u32 \<Rightarrow> bitmap_t" where
  "bitmap_clear bm index =
     (if index < bm_size bm
      then let i = unat (index div BITS_PER_ENTRY)
           in bm\<lparr>bm_data := (bm_data bm)
                  [i := bm_data bm ! i AND NOT (push_bit (unat (index mod BITS_PER_ENTRY)) 1)]\<rparr>
      else bm)"

definition bitmap_test :: "bitmap_t \<Rightarrow> u32 \<Rightarrow> bool" where
  "bitmap_test bm index =
     (if index \<ge> bm_size bm then True
      else bm_data bm ! unat (index div BITS_PER_ENTRY)
             AND push_bit (unat (index mod BITS_PER_ENTRY)) 1 \<noteq> 0)"

fun find_zero_word :: "bitmap_t \<Rightarrow> u32 list \<Rightarrow> u32" where
  "find_zero_word bm [] = UINT32_MAX"
| "find_zero_word bm (i # is) =
     (if bm_data bm ! unat i = 0xFFFFFFFF then find_zero_word bm is
      else let index = i * BITS_PER_ENTRY + of_nat (ctz (NOT (bm_data bm ! unat i)))
           in if index < bm_size bm then index else UINT32_MAX)"

definition bitmap_find_first_zero :: "bitmap_t \<Rightarrow> u32" where
  "bitmap_find_first_zero bm = find_zero_word bm (words_from 0 (bitmap_words (bm_size bm)))"

fun find_zero_run :: "bitmap_t \<Rightarrow> u32 \<Rightarrow> u32 \<Rightarrow> u32 \<Rightarrow> u32 list \<Rightarrow> u32" where
  "find_zero_run bm count run_start run_len [] = UINT32_MAX"
| "find_zero_run bm count run_start run_len (i # is) =
     (if \<not> bitmap_test bm i
      then let run_start' = (if run_len = 0 then i else run_start);
               run_len' = run_len + 1
           in if run_len' = count then run_start'
              else find_zero_run bm count run_start' run_len' is
      else find_zero_run bm count run_start 0 is)"

definition bitmap_find_contiguous_zeros :: "bitmap_t \<Rightarrow> u32 \<Rightarrow> u32" where
  "bitmap_find_contiguous_zeros bm count =
     (if count = 0 then UINT32_MAX
      else if count = 1 then bitmap_find_first_zero bm
      else find_zero_run bm count 0 0 (words_from 0 (bm_size bm)))"

definition bitmap_set_range :: "bitmap_t \<Rightarrow> u32 \<Rightarrow> u32 \<Rightarrow> bitmap_t" where
  "bitmap_set_range bm start count =
     fold (\<lambda>i bm. bitmap_set bm (start + i)) (words_from 0 count) bm"

definition bitmap_clear_range :: "bitmap_t \<Rightarrow> u32 \<Rightarrow> u32 \<Rightarrow> bitmap_t" where
  "bitmap_clear_range bm start count =
     fold (\<lambda>i bm. bitmap_clear bm (start + i)) (words_from 0 count) bm"

section \<open>Well-formedness and abstraction\<close>

text \<open>
  The size keeps clear of \<^verbatim>\<open>UINT32_MAX - 31\<close>, where the rounding in
  \<^verbatim>\<open>(size + 31) / 32\<close> would wrap, and the buffer holds the words the size needs.
\<close>

definition bitmap_wf :: "bitmap_t \<Rightarrow> bool" where
  "bitmap_wf bm \<longleftrightarrow>
     unat (bm_size bm) \<le> 4294967264 \<and> (unat (bm_size bm) + 31) div 32 \<le> length (bm_data bm)"

definition bitmap_bits :: "bitmap_t \<Rightarrow> u32 set" where
  "bitmap_bits bm =
     {i. i < bm_size bm \<and> bit (bm_data bm ! unat (i div 32)) (unat (i mod 32))}"

lemma unat_bitmap_words:
  "unat n \<le> 4294967264 \<Longrightarrow> unat (bitmap_words n) = (unat n + 31) div 32"
  by (simp add: bitmap_words_def unat_div unat_add_u32)

lemma bitmap_index_less:
  assumes "bitmap_wf bm" and "i < bm_size bm"
  shows "unat (i div 32) < length (bm_data bm)"
proof -
  have "unat i < unat (bm_size bm)" using assms(2) by (simp add: word_less_nat_alt)
  then have "unat i div 32 < (unat (bm_size bm) + 31) div 32" by (rule div_less_ceil_32)
  also have "\<dots> \<le> length (bm_data bm)" using assms(1) by (simp add: bitmap_wf_def)
  finally show ?thesis by (simp add: unat_div_32)
qed

lemma bitmap_test_iff:
  "bitmap_test bm i \<longleftrightarrow> bm_size bm \<le> i \<or> i \<in> bitmap_bits bm"
  by (auto simp: bitmap_test_def bitmap_bits_def bitmap_simps not_le)

lemma bitmap_set_size [simp]: "bm_size (bitmap_set bm i) = bm_size bm"
  by (simp add: bitmap_set_def Let_def)

lemma bitmap_clear_size [simp]: "bm_size (bitmap_clear bm i) = bm_size bm"
  by (simp add: bitmap_clear_def Let_def)

lemma bitmap_set_wf [simp]: "bitmap_wf (bitmap_set bm i) \<longleftrightarrow> bitmap_wf bm"
  by (simp add: bitmap_set_def bitmap_wf_def Let_def)

lemma bitmap_clear_wf [simp]: "bitmap_wf (bitmap_clear bm i) \<longleftrightarrow> bitmap_wf bm"
  by (simp add: bitmap_clear_def bitmap_wf_def Let_def)

lemma bitmap_bits_set:
  assumes "bitmap_wf bm"
  shows "bitmap_bits (bitmap_set bm i) =
    (if i < bm_size bm then insert i (bitmap_bits bm) else bitmap_bits bm)"
proof (cases "i < bm_size bm")
  case True
  note len = bitmap_index_less [OF assms True]
  have "j \<in> bitmap_bits (bitmap_set bm i) \<longleftrightarrow> j = i \<or> j \<in> bitmap_bits bm" for j
    using True len unat_div_mod_32_eq [of j i]
    by (cases "unat j div 32 = unat i div 32")
      (auto simp: bitmap_bits_def bitmap_set_def Let_def
        nth_list_update bitmap_simps u32_simps)
  then show ?thesis using True by auto
qed (simp add: bitmap_set_def)

lemma bitmap_bits_clear:
  assumes "bitmap_wf bm"
  shows "bitmap_bits (bitmap_clear bm i) = bitmap_bits bm - {i}"
proof (cases "i < bm_size bm")
  case True
  note len = bitmap_index_less [OF assms True]
  have "j \<in> bitmap_bits (bitmap_clear bm i) \<longleftrightarrow> j \<noteq> i \<and> j \<in> bitmap_bits bm" for j
    using True len unat_div_mod_32_eq [of j i]
    by (cases "unat j div 32 = unat i div 32")
      (auto simp: bitmap_bits_def bitmap_clear_def Let_def
        nth_list_update bitmap_simps u32_simps)
  then show ?thesis by auto
next
  case False
  then show ?thesis by (auto simp: bitmap_clear_def bitmap_bits_def)
qed

section \<open>Searches\<close>

lemma find_zero_word_spec:
  assumes "bitmap_wf bm" and "i \<le> (unat (bm_size bm) + 31) div 32"
    and "\<And>j. unat j < i * 32 \<Longrightarrow> j < bm_size bm \<Longrightarrow> j \<in> bitmap_bits bm"
  shows "let r = find_zero_word bm (map of_nat [i ..< (unat (bm_size bm) + 31) div 32])
    in (r = UINT32_MAX \<and> (\<forall>j < bm_size bm. j \<in> bitmap_bits bm)) \<or>
       (r < bm_size bm \<and> r \<notin> bitmap_bits bm \<and> (\<forall>j < r. j \<in> bitmap_bits bm))"
  using assms(2,3)
proof (induction "(unat (bm_size bm) + 31) div 32 - i" arbitrary: i)
  case 0
  have "unat j < i * 32" if "j < bm_size bm" for j
    using 0 that by (simp add: word_less_nat_alt)
  with 0 show ?case by (simp add: Let_def)
next
  case (Suc d)
  let ?n = "(unat (bm_size bm) + 31) div 32"
  let ?w = "bm_data bm ! i"
  have i: "i < ?n" using Suc.hyps(2) by simp
  then have upt: "[i..<?n] = i # [Suc i..<?n]" by (simp add: upt_conv_Cons)
  have size: "unat (bm_size bm) \<le> 4294967264" using assms(1) by (simp add: bitmap_wf_def)
  have unat_i: "unat (of_nat i :: u32) = i" using i size by (intro unat_of_nat_u32) linarith
  have word: "j \<in> bitmap_bits bm \<longleftrightarrow> j < bm_size bm \<and> bit ?w (unat j mod 32)"
    if "unat j div 32 = i" for j
    using that by (auto simp: bitmap_bits_def u32_simps)
  show ?case
  proof (cases "?w = 0xFFFFFFFF")
    case True
    then have "?w = NOT 0" by simp
    then have full: "bit ?w k" if "k < 32" for k using that by (simp only: bit_not_u32) simp
    have "j \<in> bitmap_bits bm" if "unat j < Suc i * 32" "j < bm_size bm" for j
    proof (cases "unat j < i * 32")
      case False
      then have "unat j div 32 = i" using that(1) by (intro div_nat_eqI) auto
      with full that(2) show ?thesis by (simp add: word)
    qed (use Suc.prems that in blast)
    then show ?thesis
      using Suc.hyps(1) [of "Suc i"] Suc.hyps(2) i True unat_i by (simp add: upt)
  next
    case False
    have nz: "NOT ?w \<noteq> 0"
    proof
      assume "NOT ?w = 0"
      then have "NOT (NOT ?w) = NOT 0" by simp
      with False show False by simp
    qed
    define b where "b = ctz (NOT ?w)"
    have b: "b < 32" "\<not> bit ?w b" "\<And>k. k < b \<Longrightarrow> bit ?w k"
      unfolding b_def by (fact ctz_not_props [OF nz])+
    define index :: u32 where "index = of_nat i * 32 + of_nat b"
    have unat_index: "unat index = i * 32 + b"
    proof -
      have "i * 32 + b < 4294967296" using i size b(1) by linarith
      then have "unat (of_nat (i * 32 + b) :: u32) = i * 32 + b" by (rule unat_of_nat_u32)
      then show ?thesis by (simp add: index_def)
    qed
    have idx: "unat index div 32 = i" "unat index mod 32 = b" using b(1) by (simp_all add: unat_index)
    have below: "j \<in> bitmap_bits bm" if "j < index" "j < bm_size bm" for j
    proof (cases "unat j < i * 32")
      case False
      with that(1) have j: "i * 32 \<le> unat j" "unat j < i * 32 + b"
        by (simp_all add: word_less_nat_alt unat_index)
      then have "unat j div 32 = i" using b(1) by (intro div_nat_eqI) auto
      moreover from this j have "unat j mod 32 < b"
        using div_mult_mod_eq [of "unat j" 32] by linarith
      ultimately show ?thesis using b(3) that(2) by (simp add: word)
    qed (use Suc.prems that in blast)
    have found: "find_zero_word bm (map of_nat [i..<?n]) =
        (if index < bm_size bm then index else UINT32_MAX)"
      using False by (simp add: upt unat_i index_def b_def Let_def)
    show ?thesis
    proof (cases "index < bm_size bm")
      case True
      have "index \<notin> bitmap_bits bm" using b(2) idx by (simp add: word)
      moreover have "\<forall>j < index. j \<in> bitmap_bits bm" using below True by auto
      ultimately show ?thesis unfolding found using True by (simp add: Let_def)
    next
      case False
      then have "\<forall>j < bm_size bm. j \<in> bitmap_bits bm" using below by auto
      then show ?thesis unfolding found using False by (simp add: Let_def)
    qed
  qed
qed

lemma bitmap_find_first_zero_cases:
  assumes "bitmap_wf bm"
  obtains (full) "bitmap_find_first_zero bm = UINT32_MAX" "\<And>j. j < bm_size bm \<Longrightarrow> j \<in> bitmap_bits bm"
  | (found) "bitmap_find_first_zero bm < bm_size bm" "bitmap_find_first_zero bm \<notin> bitmap_bits bm"
      "\<And>j. j < bitmap_find_first_zero bm \<Longrightarrow> j \<in> bitmap_bits bm"
proof -
  have "bitmap_find_first_zero bm =
      find_zero_word bm (map of_nat [0 ..< (unat (bm_size bm) + 31) div 32])"
    using assms by (simp add: bitmap_find_first_zero_def words_from_def unat_bitmap_words bitmap_wf_def)
  with find_zero_word_spec [OF assms, of 0] show thesis
    using full found by (auto simp: Let_def)
qed

text \<open>The run search is the reference scan on natural numbers.\<close>

definition bitmap_free :: "bitmap_t \<Rightarrow> nat \<Rightarrow> bool" where
  "bitmap_free bm j \<longleftrightarrow> \<not> bitmap_test bm (of_nat j)"

lemma find_zero_run_scan:
  assumes "hi < 4294967296" and "unat run_len < unat count"
    and "run_len \<noteq> 0 \<Longrightarrow> unat run_len \<le> i \<and> run_start = of_nat (i - unat run_len)"
  shows "find_zero_run bm count run_start run_len (map of_nat [i..<hi]) =
    (case run_scan (bitmap_free bm) (unat count) (unat run_len) [i..<hi] of
       None \<Rightarrow> UINT32_MAX | Some s \<Rightarrow> of_nat s)"
  using assms(2,3)
proof (induction "hi - i" arbitrary: i run_start run_len)
  case 0
  then show ?case by simp
next
  case (Suc d)
  then have upt: "[i..<hi] = i # [Suc i..<hi]" by (simp add: upt_conv_Cons)
  define run_start' where "run_start' = (if run_len = 0 then of_nat i else run_start)"
  have less: "run_len < count" using Suc.prems(1) by (simp add: word_less_nat_alt)
  have unat_len: "unat (run_len + 1) = Suc (unat run_len)" by (rule unat_Suc_u32 [OF less])
  have start: "Suc (unat run_len) \<le> Suc i \<and> run_start' = of_nat (Suc i - Suc (unat run_len))"
    using Suc.prems(2) by (auto simp: run_start'_def)
  show ?case
  proof (cases "bitmap_free bm i")
    case True
    show ?thesis
    proof (cases "run_len + 1 = count")
      case eq: True
      then have n: "Suc (unat run_len) = unat count" using unat_len by simp
      then have "run_start' = of_nat (Suc i - unat count)" using start by simp
      then show ?thesis
        using True eq n by (simp add: upt bitmap_free_def Let_def run_start'_def)
    next
      case neq: False
      then have n: "Suc (unat run_len) \<noteq> unat count"
        using unat_len by (metis word_unat_eq_iff)
      have "find_zero_run bm count run_start' (run_len + 1) (map of_nat [Suc i..<hi]) =
          (case run_scan (bitmap_free bm) (unat count) (unat (run_len + 1)) [Suc i..<hi] of
             None \<Rightarrow> UINT32_MAX | Some s \<Rightarrow> of_nat s)"
        using Suc.prems(1) n start unat_len Suc.hyps(2) by (intro Suc.hyps(1)) auto
      then show ?thesis
        using True neq n unat_len by (simp add: upt bitmap_free_def Let_def run_start'_def)
    qed
  next
    case False
    have "find_zero_run bm count run_start 0 (map of_nat [Suc i..<hi]) =
        (case run_scan (bitmap_free bm) (unat count) (unat (0 :: u32)) [Suc i..<hi] of
           None \<Rightarrow> UINT32_MAX | Some s \<Rightarrow> of_nat s)"
      using Suc.prems(1) Suc.hyps(2) by (intro Suc.hyps(1)) auto
    then show ?thesis using False by (simp add: upt bitmap_free_def)
  qed
qed

lemma is_run_1: "is_run F (Suc 0) t \<longleftrightarrow> F t"
  by (auto simp: is_run_def less_Suc_eq)

lemma bitmap_free_iff:
  "bitmap_free bm j \<longleftrightarrow> of_nat j < bm_size bm \<and> of_nat j \<notin> bitmap_bits bm"
  by (auto simp: bitmap_free_def bitmap_test_iff)

lemma first_zero_scan:
  assumes "bitmap_wf bm"
  shows "bitmap_find_first_zero bm =
    (case run_scan (bitmap_free bm) 1 0 [0..<unat (bm_size bm)] of
       None \<Rightarrow> UINT32_MAX | Some s \<Rightarrow> of_nat s)"
  using zero_less_one le0
proof (cases rule: run_scan_cases [where n = 1 and lo = 0 and hi = "unat (bm_size bm)" and F = "bitmap_free bm"])
  case (found s)
  then have s: "of_nat s < bm_size bm" "of_nat s \<notin> bitmap_bits bm"
    by (simp_all add: is_run_1 bitmap_free_iff)
  from assms show ?thesis
  proof (cases rule: bitmap_find_first_zero_cases)
    case full
    then show ?thesis using s by auto
  next
    case first: found
    let ?z = "bitmap_find_first_zero bm"
    have "\<not> unat ?z < s" using found(5) [of "unat ?z"] first by (auto simp: is_run_1 bitmap_free_iff)
    moreover have "\<not> of_nat s < ?z" using first(3) s(2) by auto
    moreover have "s < 4294967296" using found(4) unat_lt_u32 [of "bm_size bm"] by linarith
    ultimately have "?z = of_nat s"
      by (simp add: word_unat_eq_iff word_less_nat_alt unat_of_nat_u32)
    then show ?thesis using found(1) by simp
  qed
next
  case none
  have "\<not> (j < bm_size bm \<and> j \<notin> bitmap_bits bm)" for j
    using none(2) [of "unat j"] by (auto simp: is_run_1 bitmap_free_iff word_less_nat_alt Suc_le_eq)
  then show ?thesis
    using bitmap_find_first_zero_cases [OF assms] none(1) by (metis option.case(1))
qed

lemma find_contiguous_scan:
  assumes "bitmap_wf bm" and "0 < count"
  shows "bitmap_find_contiguous_zeros bm count =
    (case run_scan (bitmap_free bm) (unat count) 0 [0..<unat (bm_size bm)] of
       None \<Rightarrow> UINT32_MAX | Some s \<Rightarrow> of_nat s)"
proof (cases "count = 1")
  case True
  then show ?thesis
    using first_zero_scan [OF assms(1)] by (simp add: bitmap_find_contiguous_zeros_def)
next
  case False
  have "0 < unat count" using assms(2) by (simp add: word_less_nat_alt)
  then show ?thesis
    using False assms(2) find_zero_run_scan [of "unat (bm_size bm)" 0 count 0 0 bm]
    by (simp add: bitmap_find_contiguous_zeros_def words_from_def)
qed

text \<open>
  C31: the contiguous-slot search of \<^verbatim>\<open>bitmap_find_contiguous_zeros\<close> is exact.  A result other
  than \<^verbatim>\<open>UINT32_MAX\<close> is the lowest index at which \<^verbatim>\<open>count\<close> consecutive bits, all inside the
  map, are clear; \<^verbatim>\<open>UINT32_MAX\<close> means that there is no such index.  The word-at-a-time
  search for a single bit and the bit-at-a-time search for longer runs meet the same contract.
\<close>

theorem bitmap_find_contiguous_zeros_exact:
  assumes "bitmap_wf bm" and "0 < count"
  shows "(bitmap_find_contiguous_zeros bm count \<noteq> UINT32_MAX \<longrightarrow>
      unat (bitmap_find_contiguous_zeros bm count) + unat count \<le> unat (bm_size bm) \<and>
      is_run (bitmap_free bm) (unat count) (unat (bitmap_find_contiguous_zeros bm count)) \<and>
      (\<forall>t < unat (bitmap_find_contiguous_zeros bm count). \<not> is_run (bitmap_free bm) (unat count) t)) \<and>
    (bitmap_find_contiguous_zeros bm count = UINT32_MAX \<longrightarrow>
      (\<forall>t. t + unat count \<le> unat (bm_size bm) \<longrightarrow> \<not> is_run (bitmap_free bm) (unat count) t))"
proof -
  have size: "unat (bm_size bm) \<le> 4294967264" using assms(1) by (simp add: bitmap_wf_def)
  have pos: "0 < unat count" using assms(2) by (simp add: word_less_nat_alt)
  note eq = find_contiguous_scan [OF assms]
  from pos le0 show ?thesis
  proof (cases rule: run_scan_cases [where n = "unat count" and lo = 0 and hi = "unat (bm_size bm)" and F = "bitmap_free bm"])
    case (found s)
    have "s < 4294967264" using found(4) pos size by linarith
    then have "unat (of_nat s :: u32) = s" by (intro unat_of_nat_u32) linarith
    moreover from this \<open>s < 4294967264\<close> have "(of_nat s :: u32) \<noteq> UINT32_MAX" by auto
    ultimately show ?thesis using found by (simp add: eq)
  next
    case none
    then show ?thesis by (simp add: eq)
  qed
qed

theorem bitmap_find_contiguous_zeros_exact_witness:
  "bitmap_find_contiguous_zeros \<lparr>bm_data = [0x35], bm_size = 32\<rparr> 2 = 6 \<and>
   is_run (bitmap_free \<lparr>bm_data = [0x35], bm_size = 32\<rparr>) 2 6"
proof -
  let ?bm = "\<lparr>bm_data = [0x35], bm_size = 32\<rparr> :: bitmap_t"
  have r: "bitmap_find_contiguous_zeros ?bm 2 = 6" by code_simp
  have "bitmap_wf ?bm" by (simp add: bitmap_wf_def)
  from bitmap_find_contiguous_zeros_exact [OF this, of 2] r show ?thesis by simp
qed

end
