(* ===== verification/Pmm.thy ===== *)
theory Pmm
  imports Prelude
begin

text \<open>
  \<^verbatim>\<open>kernel/mm/pmm.c\<close>: the physical frame allocator.  A bitmap over the 4 GB of frames
  (bit set = frame used), two zones (below 16 MB and above), a search hint per zone, and
  counters.  Every public operation takes the allocator's one spinlock for its whole body,
  so each is one function on the record \<open>pmm\<close> of the file's static variables.  The static
  array \<^verbatim>\<open>s_bitmap\<close> is a function of the word index; \<open>frame_word_in_range\<close> shows that
  every frame number below \<^verbatim>\<open>MAX_FRAMES\<close> stays inside the array.
\<close>

section \<open>State\<close>

definition MAX_FRAMES :: u32 where
  "MAX_FRAMES = 1048576"

definition PMM_ZONE_ANY :: u32 where "PMM_ZONE_ANY = 0"
definition PMM_ZONE_DMA :: u32 where "PMM_ZONE_DMA = 1"
definition PMM_ZONE_PREFER_LOW :: u32 where "PMM_ZONE_PREFER_LOW = 2"
definition PMM_DMA_LIMIT :: u32 where "PMM_DMA_LIMIT = 0x01000000"

record pmm =
  s_bitmap :: "nat \<Rightarrow> u32"
  s_total_frames :: u32
  s_alloc_ceiling_frame :: u32
  s_dma_limit_frame :: u32
  s_free_frames :: u32
  s_dma_free :: u32
  s_hint_dma :: u32
  s_hint_normal :: u32
  s_double_free_caught :: u32

record boot_mmap_entry =
  mm_base :: u64
  mm_length :: u64
  mm_type :: u32

record boot_module =
  phys_start :: u32
  phys_end :: u32

record boot_info =
  bi_mmap :: "boot_mmap_entry list"
  bi_modules :: "boot_module list"

record pmm_stats =
  total_frames :: u32
  free_frames :: u32
  dma_free :: u32
  double_free_caught :: u32
  pressure :: u32

section \<open>Bitmap verbs\<close>

definition frame_is_used :: "pmm \<Rightarrow> u32 \<Rightarrow> bool" where
  "frame_is_used s f \<longleftrightarrow>
     drop_bit (unat (f mod 32)) (s_bitmap s (unat (f div 32))) AND 1 \<noteq> 0"

definition frame_set_used :: "u32 \<Rightarrow> pmm \<Rightarrow> pmm" where
  "frame_set_used f s =
     (let w = unat (f div 32);
          s1 = s\<lparr>s_bitmap := (s_bitmap s)(w := s_bitmap s w OR push_bit (unat (f mod 32)) 1),
                 s_free_frames := s_free_frames s - 1\<rparr>
      in if f < s_dma_limit_frame s then s1\<lparr>s_dma_free := s_dma_free s - 1\<rparr> else s1)"

definition frame_set_free :: "u32 \<Rightarrow> pmm \<Rightarrow> pmm" where
  "frame_set_free f s =
     (let w = unat (f div 32);
          s1 = s\<lparr>s_bitmap := (s_bitmap s)(w := s_bitmap s w AND NOT (push_bit (unat (f mod 32)) 1)),
                 s_free_frames := s_free_frames s + 1\<rparr>
      in if f < s_dma_limit_frame s
         then let s2 = s1\<lparr>s_dma_free := s_dma_free s + 1\<rparr>
              in if f < s_hint_dma s then s2\<lparr>s_hint_dma := f\<rparr> else s2
         else if f < s_hint_normal s then s1\<lparr>s_hint_normal := f\<rparr> else s1)"

text \<open>
  \<^verbatim>\<open>zone_find_free\<close>: two passes over the words of the zone, from the hint to the end and
  from the start to the hint; inside a word the inner \<^verbatim>\<open>while\<close> peels candidate bits off
  from the lowest.
\<close>

function scan_candidates :: "u32 \<Rightarrow> u32 \<Rightarrow> u32 \<Rightarrow> u32 \<Rightarrow> u32 option" where
  "scan_candidates start stop w candidates =
     (if candidates = 0 then None
      else let f = w * 32 + of_nat (ctz candidates)
           in if start \<le> f \<and> f < stop then Some f
              else scan_candidates start stop w (candidates AND (candidates - 1)))"
  by pat_completeness auto
termination
  by (relation "measure (\<lambda>(start, stop, w, candidates). unat candidates)")
    (auto intro: clear_lowest_less)

declare scan_candidates.simps [simp del]

fun scan_words :: "pmm \<Rightarrow> u32 \<Rightarrow> u32 \<Rightarrow> u32 list \<Rightarrow> u32 option" where
  "scan_words s start stop [] = None"
| "scan_words s start stop (w # ws) =
     (case scan_candidates start stop w (NOT (s_bitmap s (unat w))) of
        Some f \<Rightarrow> Some f
      | None \<Rightarrow> scan_words s start stop ws)"

definition zone_find_free :: "pmm \<Rightarrow> u32 \<Rightarrow> u32 \<Rightarrow> u32 \<Rightarrow> u32" where
  "zone_find_free s start stop hint =
     (let from = (if start \<le> hint \<and> hint < stop then hint else start)
      in case scan_words s start stop (words_from (from div 32) ((stop + 31) div 32)) of
           Some f \<Rightarrow> f
         | None \<Rightarrow>
             (case scan_words s start stop (words_from (start div 32) ((from + 31) div 32)) of
                Some f \<Rightarrow> f
              | None \<Rightarrow> UINT32_MAX))"

fun find_contiguous_from :: "pmm \<Rightarrow> u32 \<Rightarrow> u32 \<Rightarrow> u32 \<Rightarrow> u32 list \<Rightarrow> u32" where
  "find_contiguous_from s n run begn [] = UINT32_MAX"
| "find_contiguous_from s n run begn (f # fs) =
     (if frame_is_used s f then find_contiguous_from s n 0 (f + 1) fs
      else if run + 1 = n then begn
      else find_contiguous_from s n (run + 1) begn fs)"

definition zone_find_contiguous :: "pmm \<Rightarrow> u32 \<Rightarrow> u32 \<Rightarrow> u32 \<Rightarrow> u32" where
  "zone_find_contiguous s start stop n = find_contiguous_from s n 0 start (words_from start stop)"

section \<open>Allocation and release\<close>

text \<open>\<^verbatim>\<open>take_frame\<close> works on the hint behind its pointer argument; the model returns it.\<close>

definition take_frame :: "pmm \<Rightarrow> u32 \<Rightarrow> u32 \<Rightarrow> u32 \<Rightarrow> pmm \<times> u32 \<times> u32" where
  "take_frame s start stop hint =
     (let f = zone_find_free s start stop hint
      in if f = UINT32_MAX then (s, hint, 0)
         else (frame_set_used f s, f + 1, FRAME_TO_ADDR f))"

definition take_dma :: "pmm \<Rightarrow> pmm \<times> u32" where
  "take_dma s =
     (case take_frame s 1 (s_dma_limit_frame s) (s_hint_dma s) of
        (s', h, pa) \<Rightarrow> (s'\<lparr>s_hint_dma := h\<rparr>, pa))"

definition take_normal :: "pmm \<Rightarrow> pmm \<times> u32" where
  "take_normal s =
     (case take_frame s (s_dma_limit_frame s) (s_alloc_ceiling_frame s) (s_hint_normal s) of
        (s', h, pa) \<Rightarrow> (s'\<lparr>s_hint_normal := h\<rparr>, pa))"

definition pmm_alloc_frame :: "u32 \<Rightarrow> pmm \<Rightarrow> pmm \<times> u32" where
  "pmm_alloc_frame zone_flags s =
     (if zone_flags AND PMM_ZONE_DMA \<noteq> 0 then take_dma s
      else if zone_flags AND PMM_ZONE_PREFER_LOW \<noteq> 0
      then (case take_dma s of (s1, pa) \<Rightarrow> if pa = 0 then take_normal s1 else (s1, pa))
      else (case take_normal s of (s1, pa) \<Rightarrow> if pa = 0 then take_dma s1 else (s1, pa)))"

definition release_frame_checked :: "u32 \<Rightarrow> pmm \<Rightarrow> pmm \<times> bool" where
  "release_frame_checked f s =
     (if f = 0 \<or> s_alloc_ceiling_frame s \<le> f then (s, False)
      else if \<not> frame_is_used s f
      then (s\<lparr>s_double_free_caught := s_double_free_caught s + 1\<rparr>, False)
      else (frame_set_free f s, True))"

definition pmm_free_frame :: "u32 \<Rightarrow> pmm \<Rightarrow> pmm" where
  "pmm_free_frame phys_addr s =
     (if phys_addr AND (PAGE_SIZE - 1) \<noteq> 0 then s
      else fst (release_frame_checked (ADDR_TO_FRAME phys_addr) s))"

definition pmm_alloc_contiguous :: "u32 \<Rightarrow> u32 \<Rightarrow> pmm \<Rightarrow> pmm \<times> u32" where
  "pmm_alloc_contiguous count zone_flags s =
     (if count = 0 then (s, 0)
      else
        let low = zone_find_contiguous s 1 (s_dma_limit_frame s) count;
            high = zone_find_contiguous s (s_dma_limit_frame s) (s_alloc_ceiling_frame s) count;
            base = (if zone_flags AND PMM_ZONE_DMA \<noteq> 0 then low
                    else if zone_flags AND PMM_ZONE_PREFER_LOW \<noteq> 0
                    then if low = UINT32_MAX then high else low
                    else if high = UINT32_MAX then low else high)
        in if base = UINT32_MAX then (s, 0)
           else (fold (\<lambda>i. frame_set_used (base + i)) (words_from 0 count) s, FRAME_TO_ADDR base))"

definition pmm_free_contiguous :: "u32 \<Rightarrow> u32 \<Rightarrow> pmm \<Rightarrow> pmm" where
  "pmm_free_contiguous phys_addr count s =
     (if phys_addr AND (PAGE_SIZE - 1) \<noteq> 0 then s
      else let base = ADDR_TO_FRAME phys_addr
           in fold (\<lambda>i s. fst (release_frame_checked (base + i) s)) (words_from 0 count) s)"

definition pmm_mark_used :: "u32 \<Rightarrow> u32 \<Rightarrow> pmm \<Rightarrow> pmm" where
  "pmm_mark_used phys_addr sz s =
     (let fs = ADDR_TO_FRAME (ALIGN_DOWN phys_addr PAGE_SIZE);
          fe = ADDR_TO_FRAME (ALIGN_UP (phys_addr + sz) PAGE_SIZE)
      in fold (\<lambda>f s. if \<not> frame_is_used s f then frame_set_used f s else s)
           (words_from fs (min fe (s_total_frames s))) s)"

section \<open>Initialisation\<close>

definition usable_entry :: "boot_mmap_entry \<Rightarrow> bool" where
  "usable_entry e \<longleftrightarrow> \<not> (mm_type e \<noteq> 1 \<or> mm_base e > 0xFFFFFFFF)"

definition mmap_usable_top :: "boot_info \<Rightarrow> u32" where
  "mmap_usable_top bi =
     fold (\<lambda>e max_addr.
         if \<not> usable_entry e then max_addr
         else let stop = ucast (mm_base e + mm_length e) in if stop > max_addr then stop else max_addr)
       (bi_mmap bi) 0"

text \<open>
  The two limits derived from the raw RAM top and from the direct-map limit of paging
  (\<^verbatim>\<open>paging_direct_map_limit()\<close>, an argument).  With \<open>strict\<close> the build flag
  \<^verbatim>\<open>MAINDOB_STRICT_RAM_CEILING\<close> is on and RAM above the direct map is a panic (\<open>None\<close>).
\<close>

definition measure_usable_ram :: "bool \<Rightarrow> u32 \<Rightarrow> boot_info \<Rightarrow> pmm \<Rightarrow> pmm option" where
  "measure_usable_ram strict direct_map_limit bi s =
     (let raw = ADDR_TO_FRAME (mmap_usable_top bi);
          total = (if raw > MAX_FRAMES then MAX_FRAMES else raw);
          dma = ADDR_TO_FRAME PMM_DMA_LIMIT;
          dma_limit = (if dma > total then total else dma);
          dm_top = ADDR_TO_FRAME direct_map_limit;
          ceiling = (if total < dm_top then total else dm_top)
      in if total > ceiling \<and> strict then None
         else Some (s\<lparr>s_total_frames := total, s_dma_limit_frame := dma_limit,
                      s_alloc_ceiling_frame := ceiling\<rparr>))"

definition entry_frames :: "boot_mmap_entry \<Rightarrow> u32 \<Rightarrow> u32 list" where
  "entry_frames e ceiling =
     (if \<not> usable_entry e then []
      else let fs = ADDR_TO_FRAME (ALIGN_UP (ucast (mm_base e)) PAGE_SIZE);
               fe = ADDR_TO_FRAME (ALIGN_DOWN (ucast (mm_base e + mm_length e)) PAGE_SIZE)
           in words_from fs (min fe ceiling))"

definition release_available_regions :: "boot_info \<Rightarrow> pmm \<Rightarrow> pmm" where
  "release_available_regions bi s =
     (let s0 = s\<lparr>s_bitmap := (\<lambda>_. 0xFFFFFFFF), s_free_frames := 0, s_dma_free := 0\<rparr>
      in fold (\<lambda>e s. fold frame_set_free (entry_frames e (s_alloc_ceiling_frame s)) s)
           (bi_mmap bi) s0)"

definition reserve_critical_regions :: "u32 \<Rightarrow> boot_info \<Rightarrow> pmm \<Rightarrow> pmm" where
  "reserve_critical_regions kernel_phys_end bi s =
     fold (\<lambda>m. pmm_mark_used (phys_start m) (phys_end m - phys_start m)) (bi_modules bi)
       (pmm_mark_used 0x100000 (kernel_phys_end - 0x100000) (pmm_mark_used 0 0x100000 s))"

definition pmm_init :: "bool \<Rightarrow> u32 \<Rightarrow> u32 \<Rightarrow> boot_info \<Rightarrow> pmm \<Rightarrow> pmm option" where
  "pmm_init strict direct_map_limit kernel_phys_end bi s =
     (case measure_usable_ram strict direct_map_limit bi s of
        None \<Rightarrow> None
      | Some s1 \<Rightarrow>
          let s2 = reserve_critical_regions kernel_phys_end bi (release_available_regions bi s1);
              s3 = s2\<lparr>s_hint_dma := 1, s_hint_normal := s_dma_limit_frame s2\<rparr>
          in if s_alloc_ceiling_frame s3 > ADDR_TO_FRAME direct_map_limit then None else Some s3)"

section \<open>Queries and self-test\<close>

definition pmm_get_stats :: "pmm \<Rightarrow> pmm_stats" where
  "pmm_get_stats s =
     \<lparr>total_frames = s_alloc_ceiling_frame s, free_frames = s_free_frames s,
      dma_free = s_dma_free s, double_free_caught = s_double_free_caught s,
      pressure = (if s_alloc_ceiling_frame s \<noteq> 0
                  then ((s_alloc_ceiling_frame s - s_free_frames s) * 100) div s_alloc_ceiling_frame s
                  else 100)\<rparr>"

definition pmm_is_frame_allocated :: "pmm \<Rightarrow> u32 \<Rightarrow> bool" where
  "pmm_is_frame_allocated s phys_addr =
     (let f = ADDR_TO_FRAME phys_addr in if s_total_frames s \<le> f then False else frame_is_used s f)"

definition pmm_get_ram_top :: "pmm \<Rightarrow> u32" where
  "pmm_get_ram_top s = FRAME_TO_ADDR (s_total_frames s)"

definition pmm_selftest :: "pmm \<Rightarrow> pmm \<times> bool" where
  "pmm_selftest s0 =
     (case pmm_alloc_frame PMM_ZONE_ANY s0 of (s1, a) \<Rightarrow>
        (case pmm_alloc_frame PMM_ZONE_ANY s1 of (s2, b) \<Rightarrow>
           if a = 0 \<or> b = 0 \<or> a = b then (s2, False)
           else
             let s3 = pmm_free_frame a s2;
                 caught_before = s_double_free_caught s3;
                 s4 = pmm_free_frame a s3;
                 caught = (s_double_free_caught s4 = caught_before + 1)
             in (case pmm_alloc_frame PMM_ZONE_ANY s4 of (s5, c) \<Rightarrow>
                   let reused = (c = a)
                   in (pmm_free_frame c (pmm_free_frame b s5), caught \<and> reused))))"

section \<open>Frames as bits\<close>

definition frame_free :: "pmm \<Rightarrow> u32 \<Rightarrow> bool" where
  "frame_free s f \<longleftrightarrow> \<not> bit (s_bitmap s (unat f div 32)) (unat f mod 32)"

lemma frame_is_used_iff: "frame_is_used s f \<longleftrightarrow> \<not> frame_free s f"
  by (simp add: frame_is_used_def frame_free_def shift_and_1 u32_simps)

lemma frame_word_in_range: "f < MAX_FRAMES \<Longrightarrow> unat (f div 32) < 32768"
  by (simp add: MAX_FRAMES_def word_less_nat_alt u32_simps less_mult_imp_div_less)

lemma frame_free_set_used:
  "frame_free (frame_set_used f s) g \<longleftrightarrow> g \<noteq> f \<and> frame_free s g"
  using unat_div_mod_32_eq [of g f]
  by (cases "unat g div 32 = unat f div 32")
    (auto simp: frame_free_def frame_set_used_def Let_def u32_simps bitmap_simps)

lemma frame_free_set_free:
  "frame_free (frame_set_free f s) g \<longleftrightarrow> g = f \<or> frame_free s g"
  using unat_div_mod_32_eq [of g f]
  by (cases "unat g div 32 = unat f div 32")
    (auto simp: frame_free_def frame_set_free_def Let_def u32_simps bitmap_simps)

lemma frame_free_cong: "s_bitmap s = s_bitmap t \<Longrightarrow> frame_free s = frame_free t"
  by (simp add: frame_free_def fun_eq_iff)

lemma frame_set_used_fields [simp]:
  "s_total_frames (frame_set_used f s) = s_total_frames s"
  "s_alloc_ceiling_frame (frame_set_used f s) = s_alloc_ceiling_frame s"
  "s_dma_limit_frame (frame_set_used f s) = s_dma_limit_frame s"
  "s_hint_dma (frame_set_used f s) = s_hint_dma s"
  "s_hint_normal (frame_set_used f s) = s_hint_normal s"
  "s_double_free_caught (frame_set_used f s) = s_double_free_caught s"
  "s_free_frames (frame_set_used f s) = s_free_frames s - 1"
  "s_dma_free (frame_set_used f s) =
     (if f < s_dma_limit_frame s then s_dma_free s - 1 else s_dma_free s)"
  by (simp_all add: frame_set_used_def Let_def)

lemma frame_set_free_fields [simp]:
  "s_total_frames (frame_set_free f s) = s_total_frames s"
  "s_alloc_ceiling_frame (frame_set_free f s) = s_alloc_ceiling_frame s"
  "s_dma_limit_frame (frame_set_free f s) = s_dma_limit_frame s"
  "s_double_free_caught (frame_set_free f s) = s_double_free_caught s"
  "s_free_frames (frame_set_free f s) = s_free_frames s + 1"
  "s_dma_free (frame_set_free f s) =
     (if f < s_dma_limit_frame s then s_dma_free s + 1 else s_dma_free s)"
  "s_hint_dma (frame_set_free f s) =
     (if f < s_dma_limit_frame s then min f (s_hint_dma s) else s_hint_dma s)"
  "s_hint_normal (frame_set_free f s) =
     (if f < s_dma_limit_frame s then s_hint_normal s else min f (s_hint_normal s))"
  by (auto simp: frame_set_free_def Let_def min_def)

section \<open>The search for a free frame\<close>

lemma scan_candidates_None:
  "scan_candidates start stop w c = None \<longleftrightarrow>
     (\<forall>n. bit c n \<longrightarrow> \<not> (start \<le> w * 32 + of_nat n \<and> w * 32 + of_nat n < stop))"
proof (induction start stop w c rule: scan_candidates.induct)
  case (1 start stop w c)
  show ?case
  proof (cases "c = 0")
    case False
    have "bit (c AND (c - 1)) n \<longleftrightarrow> bit c n \<and> n \<noteq> ctz c" for n
      using False by (auto simp: clear_lowest bit_unset_bit_iff)
    with 1 False bit_ctz [OF False] show ?thesis
      by (subst scan_candidates.simps) (auto simp: Let_def)
  qed (simp add: scan_candidates.simps)
qed

lemma scan_candidates_Some:
  "scan_candidates start stop w c = Some f \<Longrightarrow>
     \<exists>n. bit c n \<and> f = w * 32 + of_nat n \<and> start \<le> f \<and> f < stop"
proof (induction start stop w c rule: scan_candidates.induct)
  case (1 start stop w c)
  then have nz: "c \<noteq> 0" by (auto simp: scan_candidates.simps)
  have sub: "bit c n" if "bit (c AND (c - 1)) n" for n using that by (simp add: bit_and_iff)
  show ?case
  proof (cases "start \<le> w * 32 + of_nat (ctz c) \<and> w * 32 + of_nat (ctz c) < stop")
    case True
    with 1(2) nz have "f = w * 32 + of_nat (ctz c)"
      by (subst (asm) scan_candidates.simps) (simp add: Let_def)
    with True bit_ctz [OF nz] show ?thesis by blast
  next
    case False
    with 1(2) nz have "scan_candidates start stop w (c AND (c - 1)) = Some f"
      by (subst (asm) scan_candidates.simps) (auto simp: Let_def split: if_splits)
    with 1(1) [OF nz refl False] sub show ?thesis by blast
  qed
qed

text \<open>A frame of the bitmap is bit \<open>unat f mod 32\<close> of word \<open>unat f div 32\<close>.\<close>

lemma frame_of_word_bit:
  fixes w :: u32
  assumes "unat w < 134217728" and "n < 32"
  shows "unat (w * 32 + of_nat n) = unat w * 32 + n"
proof -
  have "unat w * 32 + n < 4294967296" using assms by linarith
  moreover have "w * 32 + of_nat n = of_nat (unat w * 32 + n)" by simp
  ultimately show ?thesis by (metis unat_of_nat_u32)
qed

lemma frame_word_bit_split:
  fixes f :: u32
  shows "(f div 32) * 32 + of_nat (unat f mod 32) = f"
proof -
  have "of_nat (unat f mod 32) = f mod 32"
    by (simp add: word_unat_eq_iff unat_of_nat_u32 unat_mod)
  then show ?thesis by (metis div_mult_mod_eq)
qed

lemma scan_words_range:
  "scan_words s start stop ws = Some f \<Longrightarrow> start \<le> f \<and> f < stop"
  by (induction ws) (auto split: option.splits dest: scan_candidates_Some)

lemma scan_words_Some:
  assumes "scan_words s start stop ws = Some f" and "\<forall>w \<in> set ws. unat w < 134217728"
  shows "start \<le> f \<and> f < stop \<and> frame_free s f"
  using assms
proof (induction ws)
  case (Cons w ws)
  show ?case
  proof (cases "scan_candidates start stop w (NOT (s_bitmap s (unat w)))")
    case (Some g)
    with Cons.prems have "g = f" by simp
    with scan_candidates_Some [OF Some] obtain n where
      n: "bit (NOT (s_bitmap s (unat w))) n" "f = w * 32 + of_nat n" "start \<le> f" "f < stop" by auto
    then have "n < 32" "\<not> bit (s_bitmap s (unat w)) n" by (simp_all add: bit_not_u32)
    moreover from this n(2) Cons.prems(2) have "unat f = unat w * 32 + n"
      by (simp add: frame_of_word_bit)
    ultimately show ?thesis using n by (simp add: frame_free_def)
  qed (use Cons in simp)
qed simp

lemma scan_words_None:
  assumes "scan_words s start stop ws = None" and "f div 32 \<in> set ws" and "start \<le> f" "f < stop"
  shows "\<not> frame_free s f"
proof
  assume free: "frame_free s f"
  have "scan_candidates start stop (f div 32) (NOT (s_bitmap s (unat (f div 32)))) = None"
    using assms(1,2) by (induction ws) (auto split: option.splits)
  moreover have "bit (NOT (s_bitmap s (unat (f div 32)))) (unat f mod 32)"
    using free by (simp add: bit_not_u32 frame_free_def u32_simps)
  ultimately show False
    using assms(3,4) frame_word_bit_split [of f] by (auto simp: scan_candidates_None)
qed

lemma unat_ceil_div_32:
  fixes n :: u32
  assumes "unat n \<le> 1048576"
  shows "unat ((n + 31) div 32) = (unat n + 31) div 32"
  using assms by (simp add: unat_div unat_add_u32)

lemma word_in_pass:
  fixes f lo hi :: u32
  assumes "lo \<le> f" and "f < hi" and "unat hi \<le> 1048576"
  shows "f div 32 \<in> set (words_from (lo div 32) ((hi + 31) div 32))"
proof -
  have "unat lo div 32 \<le> unat f div 32" using assms(1) by (simp add: word_le_nat_alt div_le_mono)
  moreover have "unat f div 32 < (unat hi + 31) div 32"
    using assms(2) by (intro div_less_ceil_32) (simp add: word_less_nat_alt)
  ultimately show ?thesis
    using assms(3) by (simp add: word_le_nat_alt word_less_nat_alt unat_ceil_div_32 u32_simps)
qed

lemma pass_words_bound:
  fixes w lo hi :: u32
  assumes "w \<in> set (words_from (lo div 32) ((hi + 31) div 32))" and "unat hi \<le> 1048576"
  shows "unat w < 134217728"
proof -
  have "unat w < (unat hi + 31) div 32"
    using assms by (simp add: word_less_nat_alt unat_ceil_div_32)
  then show ?thesis using assms(2) by linarith
qed

lemma zone_find_free_cases:
  assumes "unat stop \<le> 1048576"
  obtains (none) "zone_find_free s start stop hint = UINT32_MAX"
      "\<And>f. start \<le> f \<Longrightarrow> f < stop \<Longrightarrow> \<not> frame_free s f"
  | (found) f where "zone_find_free s start stop hint = f" "f \<noteq> UINT32_MAX"
      "start \<le> f" "f < stop" "frame_free s f"
proof -
  define fr where "fr = (if start \<le> hint \<and> hint < stop then hint else start)"
  let ?p1 = "scan_words s start stop (words_from (fr div 32) ((stop + 31) div 32))"
  let ?p2 = "scan_words s start stop (words_from (start div 32) ((fr + 31) div 32))"
  have eq: "zone_find_free s start stop hint =
      (case ?p1 of Some f \<Rightarrow> f | None \<Rightarrow> (case ?p2 of Some f \<Rightarrow> f | None \<Rightarrow> UINT32_MAX))"
    unfolding zone_find_free_def Let_def fr_def [symmetric] by (rule refl)
  have ok: thesis if "zone_find_free s start stop hint = f"
    "scan_words s start stop ws = Some f" "\<forall>w \<in> set ws. unat w < 134217728" for f ws
  proof -
    have f: "start \<le> f \<and> f < stop \<and> frame_free s f" by (rule scan_words_Some [OF that(2,3)])
    then have "f \<noteq> UINT32_MAX" using assms by (auto simp: word_less_nat_alt)
    with that(1) f show thesis by (intro found) auto
  qed
  show thesis
  proof (cases "start < stop")
    case False
    then have "?p1 = None" "?p2 = None"
      by (meson False not_None_eq order.strict_trans1 scan_words_range)+
    then show thesis using False by (intro none) (auto simp: eq)
  next
    case True
    have fr: "unat fr \<le> 1048576" "start \<le> fr" "fr < stop"
      using True assms by (auto simp: fr_def word_less_nat_alt)
    show thesis
    proof (cases ?p1)
      case (Some f)
      then show thesis using pass_words_bound assms by (intro ok [OF _ Some]) (auto simp: eq)
    next
      case p1: None
      show thesis
      proof (cases ?p2)
        case (Some f)
        then show thesis using pass_words_bound fr(1) p1 by (intro ok [OF _ Some]) (auto simp: eq)
      next
        case p2: None
        have "\<not> frame_free s f" if "start \<le> f" "f < stop" for f
        proof (cases "fr \<le> f")
          case True
          then show ?thesis using scan_words_None [OF p1] word_in_pass that assms by blast
        next
          case False
          then show ?thesis
            using scan_words_None [OF p2] word_in_pass that fr(1) by (meson not_le)
        qed
        then show thesis using p1 p2 by (intro none) (auto simp: eq)
      qed
    qed
  qed
qed

section \<open>The invariant\<close>

text \<open>
  The frames the allocator may hand out (\<open>free_set\<close>), and what every operation keeps: the
  limits are ordered and fit the bitmap, frame 0 and the frames above the ceiling are never
  free, and the two counters count the free frames exactly.
\<close>

definition free_set :: "pmm \<Rightarrow> u32 set" where
  "free_set s = {f. f < MAX_FRAMES \<and> frame_free s f}"

definition dma_set :: "pmm \<Rightarrow> u32 set" where
  "dma_set s = {f \<in> free_set s. f < s_dma_limit_frame s}"

definition pmm_limits :: "pmm \<Rightarrow> bool" where
  "pmm_limits s \<longleftrightarrow>
     s_dma_limit_frame s \<le> s_total_frames s \<and>
     s_alloc_ceiling_frame s \<le> s_total_frames s \<and>
     s_total_frames s \<le> MAX_FRAMES \<and>
     (s_dma_limit_frame s = 0 \<longrightarrow> s_total_frames s = 0)"

definition pmm_counts :: "pmm \<Rightarrow> bool" where
  "pmm_counts s \<longleftrightarrow>
     pmm_limits s \<and>
     (\<forall>f \<in> free_set s. f < s_alloc_ceiling_frame s) \<and>
     unat (s_free_frames s) = card (free_set s) \<and>
     unat (s_dma_free s) = card (dma_set s)"

definition pmm_inv :: "pmm \<Rightarrow> bool" where
  "pmm_inv s \<longleftrightarrow> pmm_counts s \<and> 0 \<notin> free_set s"

lemma finite_free_set [simp]: "finite (free_set s)" "finite (dma_set s)"
  by (simp_all add: free_set_def dma_set_def)

lemma card_free_set: "card (free_set s) \<le> 1048576"
proof -
  have "card (unat ` free_set s) \<le> card {..<(1048576 :: nat)}"
    by (intro card_mono) (auto simp: free_set_def MAX_FRAMES_def word_less_nat_alt)
  moreover have "card (unat ` free_set s) = card (free_set s)"
    by (intro card_image inj_onI) (simp add: word_unat_eq_iff)
  ultimately show ?thesis by simp
qed

lemma card_dma_set: "card (dma_set s) \<le> 1048576"
proof -
  have "card (dma_set s) \<le> card (free_set s)" by (intro card_mono) (auto simp: dma_set_def)
  then show ?thesis using card_free_set [of s] by linarith
qed

lemma free_set_set_used: "free_set (frame_set_used f s) = free_set s - {f}"
  by (auto simp: free_set_def frame_free_set_used)

lemma free_set_set_free: "f < MAX_FRAMES \<Longrightarrow> free_set (frame_set_free f s) = insert f (free_set s)"
  by (auto simp: free_set_def frame_free_set_free)

lemma dma_set_set_used: "dma_set (frame_set_used f s) = dma_set s - {f}"
  by (auto simp: dma_set_def free_set_set_used)

lemma dma_set_set_free:
  "f < MAX_FRAMES \<Longrightarrow> dma_set (frame_set_free f s) =
     (if f < s_dma_limit_frame s then insert f (dma_set s) else dma_set s)"
  by (auto simp: dma_set_def free_set_set_free)

lemma free_set_update [simp]:
  "free_set (s\<lparr>s_hint_dma := h\<rparr>) = free_set s" "free_set (s\<lparr>s_hint_normal := h\<rparr>) = free_set s"
  "free_set (s\<lparr>s_double_free_caught := d\<rparr>) = free_set s"
  "dma_set (s\<lparr>s_hint_dma := h\<rparr>) = dma_set s" "dma_set (s\<lparr>s_hint_normal := h\<rparr>) = dma_set s"
  "dma_set (s\<lparr>s_double_free_caught := d\<rparr>) = dma_set s"
  by (simp_all add: free_set_def dma_set_def frame_free_def)

lemma pmm_counts_update [simp]:
  "pmm_counts (s\<lparr>s_hint_dma := h\<rparr>) \<longleftrightarrow> pmm_counts s"
  "pmm_counts (s\<lparr>s_hint_normal := h\<rparr>) \<longleftrightarrow> pmm_counts s"
  "pmm_counts (s\<lparr>s_double_free_caught := d\<rparr>) \<longleftrightarrow> pmm_counts s"
  by (simp_all add: pmm_counts_def pmm_limits_def)

lemma pmm_inv_update [simp]:
  "pmm_inv (s\<lparr>s_hint_dma := h\<rparr>) \<longleftrightarrow> pmm_inv s" "pmm_inv (s\<lparr>s_hint_normal := h\<rparr>) \<longleftrightarrow> pmm_inv s"
  "pmm_inv (s\<lparr>s_double_free_caught := d\<rparr>) \<longleftrightarrow> pmm_inv s"
  by (simp_all add: pmm_inv_def)

lemma pmm_inv_free:
  assumes "pmm_inv s" and "f \<in> free_set s"
  shows "0 < f" and "f < s_alloc_ceiling_frame s"
  using assms by (auto simp: pmm_inv_def pmm_counts_def word_gt_0)

lemma pmm_inv_limits: "pmm_inv s \<Longrightarrow> pmm_limits s"
  by (simp add: pmm_inv_def pmm_counts_def)

lemma unat_minus_1_card:
  fixes n :: u32
  assumes "unat n = card A" and "f \<in> A" and "finite A"
  shows "unat (n - 1) = card (A - {f})"
proof -
  have "card A \<noteq> 0" using assms(2,3) by auto
  then have "n \<noteq> 0" using assms(1) by auto
  then show ?thesis using assms by (simp add: unat_minus_one card_Diff_singleton)
qed

lemma unat_plus_1_card:
  fixes n :: u32
  assumes "unat n = card A" and "f \<notin> A" and "finite A" and "card A \<le> 1048576"
  shows "unat (n + 1) = card (insert f A)"
  using assms by (simp add: unat_add_u32)

lemma frame_set_used_counts:
  assumes "pmm_counts s" and "f \<in> free_set s"
  shows "pmm_counts (frame_set_used f s)"
proof -
  have "unat (s_free_frames s - 1) = card (free_set s - {f})"
    using assms by (intro unat_minus_1_card) (auto simp: pmm_counts_def)
  moreover have "unat (s_dma_free s - 1) = card (dma_set s - {f})" if "f < s_dma_limit_frame s"
    using assms that by (intro unat_minus_1_card) (auto simp: pmm_counts_def dma_set_def)
  moreover have "dma_set s - {f} = dma_set s" if "\<not> f < s_dma_limit_frame s"
    using that by (auto simp: dma_set_def)
  ultimately show ?thesis
    using assms by (auto simp: pmm_counts_def pmm_limits_def free_set_set_used dma_set_set_used)
qed

lemma frame_set_free_counts:
  assumes "pmm_counts s" and "f \<notin> free_set s" and "f < s_alloc_ceiling_frame s"
  shows "pmm_counts (frame_set_free f s)"
proof -
  have f: "f < MAX_FRAMES" using assms by (auto simp: pmm_counts_def pmm_limits_def)
  have "unat (s_free_frames s + 1) = card (insert f (free_set s))"
    using assms card_free_set by (intro unat_plus_1_card) (auto simp: pmm_counts_def)
  moreover have "unat (s_dma_free s + 1) = card (insert f (dma_set s))"
    using assms card_dma_set by (intro unat_plus_1_card) (auto simp: pmm_counts_def dma_set_def)
  ultimately show ?thesis
    using assms f by (auto simp: pmm_counts_def pmm_limits_def free_set_set_free dma_set_set_free)
qed

lemma frame_set_used_inv:
  "pmm_inv s \<Longrightarrow> f \<in> free_set s \<Longrightarrow> pmm_inv (frame_set_used f s)"
  by (simp add: pmm_inv_def frame_set_used_counts free_set_set_used)

lemma frame_set_free_inv:
  assumes "pmm_inv s" and "f \<notin> free_set s" and "0 < f" and "f < s_alloc_ceiling_frame s"
  shows "pmm_inv (frame_set_free f s)"
proof -
  have "f < MAX_FRAMES" using assms(4) pmm_inv_limits [OF assms(1)] by (auto simp: pmm_limits_def)
  then show ?thesis
    using assms by (auto simp: pmm_inv_def frame_set_free_counts free_set_set_free)
qed

section \<open>Single frames\<close>

lemma pmm_limits_bounds:
  assumes "pmm_limits s"
  shows "unat (s_dma_limit_frame s) \<le> 1048576" and "unat (s_alloc_ceiling_frame s) \<le> 1048576"
  using assms by (auto simp: pmm_limits_def MAX_FRAMES_def word_le_nat_alt)

text \<open>\<open>took s f s'\<close>: the step from \<open>s\<close> to \<open>s'\<close> takes exactly the free frame \<open>f\<close>.\<close>

definition took :: "pmm \<Rightarrow> u32 \<Rightarrow> pmm \<Rightarrow> bool" where
  "took s f s' \<longleftrightarrow> pmm_inv s' \<and> f \<in> free_set s \<and> free_set s' = free_set s - {f} \<and>
     s_alloc_ceiling_frame s' = s_alloc_ceiling_frame s \<and>
     s_dma_limit_frame s' = s_dma_limit_frame s"

lemma take_frame_cases:
  assumes "pmm_inv s" and "unat stop \<le> 1048576"
  obtains (none) "take_frame s start stop hint = (s, hint, 0)"
      "\<And>f. f \<in> free_set s \<Longrightarrow> \<not> (start \<le> f \<and> f < stop)"
  | (found) f where "take_frame s start stop hint = (frame_set_used f s, f + 1, FRAME_TO_ADDR f)"
      "start \<le> f" "f < stop" "f \<in> free_set s" "took s f (frame_set_used f s)"
  using assms(2)
proof (cases rule: zone_find_free_cases [where s = s and start = start and hint = hint])
  case none
  then show thesis by (intro that(1)) (auto simp: take_frame_def Let_def free_set_def)
next
  case (found f)
  then have f: "f \<in> free_set s"
    using assms(2) by (auto simp: free_set_def MAX_FRAMES_def word_less_nat_alt)
  show thesis
  proof (rule that(2) [of f])
    show "took s f (frame_set_used f s)"
      using frame_set_used_inv [OF assms(1) f] f by (simp add: took_def free_set_set_used)
  qed (use found f in \<open>auto simp: take_frame_def Let_def\<close>)
qed

lemma frame_addr_nonzero:
  assumes "pmm_inv s" and "f \<in> free_set s"
  shows "FRAME_TO_ADDR f \<noteq> 0" and "ADDR_TO_FRAME (FRAME_TO_ADDR f) = f"
proof -
  have f: "0 < unat f" "unat f < 1048576"
    using pmm_inv_free(1) [OF assms] assms(2) by (auto simp: free_set_def MAX_FRAMES_def word_less_nat_alt)
  then show "ADDR_TO_FRAME (FRAME_TO_ADDR f) = f" by simp
  have "unat (FRAME_TO_ADDR f) = unat f * 4096" using f by (intro unat_frame_to_addr)
  then show "FRAME_TO_ADDR f \<noteq> 0" using f(1) by auto
qed

lemma took_hint [simp]:
  "took s f (s'\<lparr>s_hint_dma := h\<rparr>) \<longleftrightarrow> took s f s'"
  "took s f (s'\<lparr>s_hint_normal := h\<rparr>) \<longleftrightarrow> took s f s'"
  by (simp_all add: took_def)

lemma free_not_zero: "pmm_inv s \<Longrightarrow> f \<in> free_set s \<Longrightarrow> 1 \<le> f"
  using pmm_inv_free(1) [of s f] by (simp add: word_le_nat_alt word_less_nat_alt)

lemma take_dma_cases:
  assumes "pmm_inv s"
  obtains (none) "take_dma s = (s, 0)" "dma_set s = {}"
  | (found) f s' where "take_dma s = (s', FRAME_TO_ADDR f)" "f \<in> dma_set s" "took s f s'"
proof -
  have stop: "unat (s_dma_limit_frame s) \<le> 1048576"
    using assms by (intro pmm_limits_bounds pmm_inv_limits)
  from assms stop show thesis
  proof (cases rule: take_frame_cases [where start = 1 and hint = "s_hint_dma s"])
    case none
    then show thesis
      using free_not_zero [OF assms] by (intro that(1)) (auto simp: take_dma_def dma_set_def)
  next
    case (found f)
    then show thesis
      by (intro that(2) [of "(frame_set_used f s)\<lparr>s_hint_dma := f + 1\<rparr>" f])
        (auto simp: take_dma_def dma_set_def)
  qed
qed

lemma take_normal_cases:
  assumes "pmm_inv s"
  obtains (none) "take_normal s = (s, 0)" "free_set s = dma_set s"
  | (found) f s' where "take_normal s = (s', FRAME_TO_ADDR f)" "f \<in> free_set s" "took s f s'"
proof -
  have stop: "unat (s_alloc_ceiling_frame s) \<le> 1048576"
    using assms by (intro pmm_limits_bounds pmm_inv_limits)
  from assms stop show thesis
  proof (cases rule: take_frame_cases [where start = "s_dma_limit_frame s" and hint = "s_hint_normal s"])
    case none
    then have "f < s_dma_limit_frame s" if "f \<in> free_set s" for f
      using pmm_inv_free(2) [OF assms that] none(2) that by (meson not_le)
    with none show thesis by (intro that(1)) (auto simp: take_normal_def dma_set_def)
  next
    case (found f)
    then show thesis
      by (intro that(2) [of "(frame_set_used f s)\<lparr>s_hint_normal := f + 1\<rparr>" f])
        (auto simp: take_normal_def)
  qed
qed

text \<open>The frames a request with \<open>zone_flags\<close> may be served from.\<close>

definition zone_set :: "u32 \<Rightarrow> pmm \<Rightarrow> u32 set" where
  "zone_set zone_flags s = (if zone_flags AND PMM_ZONE_DMA \<noteq> 0 then dma_set s else free_set s)"

lemma pmm_alloc_frame_cases:
  assumes "pmm_inv s"
  obtains (none) "pmm_alloc_frame z s = (s, 0)" "zone_set z s = {}"
  | (found) f s' where "pmm_alloc_frame z s = (s', FRAME_TO_ADDR f)" "FRAME_TO_ADDR f \<noteq> 0"
      "f \<in> zone_set z s" "took s f s'"
proof -
  have sub: "dma_set s \<subseteq> free_set s" by (auto simp: dma_set_def)
  have nz: "FRAME_TO_ADDR f \<noteq> 0" if "f \<in> free_set s" for f
    using assms that by (rule frame_addr_nonzero)
  from assms show thesis
  proof (cases rule: take_dma_cases)
    case dma: none
    from assms show thesis
    proof (cases rule: take_normal_cases)
      case none
      with dma show thesis by (intro that(1)) (auto simp: pmm_alloc_frame_def zone_set_def)
    next
      case (found f s')
      show thesis
      proof (cases "z AND PMM_ZONE_DMA \<noteq> 0")
        case True
        with dma show thesis by (intro that(1)) (auto simp: pmm_alloc_frame_def zone_set_def)
      next
        case False
        with dma found nz show thesis
          by (intro that(2) [of s' f]) (auto simp: pmm_alloc_frame_def zone_set_def)
      qed
    qed
  next
    case dma: (found g t)
    then have g: "FRAME_TO_ADDR g \<noteq> 0" "g \<in> free_set s" using nz sub by auto
    from assms show thesis
    proof (cases rule: take_normal_cases)
      case none
      with dma g show thesis
        by (intro that(2) [of t g]) (auto simp: pmm_alloc_frame_def zone_set_def)
    next
      case (found f s')
      show thesis
      proof (cases "z AND PMM_ZONE_DMA \<noteq> 0 \<or> z AND PMM_ZONE_PREFER_LOW \<noteq> 0")
        case True
        with dma g show thesis
          by (intro that(2) [of t g]) (auto simp: pmm_alloc_frame_def zone_set_def)
      next
        case False
        with found nz show thesis
          by (intro that(2) [of s' f]) (auto simp: pmm_alloc_frame_def zone_set_def)
      qed
    qed
  qed
qed

lemma release_frame_checked_cases:
  assumes "pmm_inv s"
  obtains (outside) "release_frame_checked f s = (s, False)" "f = 0 \<or> s_alloc_ceiling_frame s \<le> f"
      "f \<notin> free_set s"
  | (double) "release_frame_checked f s =
        (s\<lparr>s_double_free_caught := s_double_free_caught s + 1\<rparr>, False)" "f \<in> free_set s"
  | (freed) "release_frame_checked f s = (frame_set_free f s, True)" "f \<notin> free_set s"
      "0 < f" "f < s_alloc_ceiling_frame s" "pmm_inv (frame_set_free f s)"
      "free_set (frame_set_free f s) = insert f (free_set s)"
proof (cases "f = 0 \<or> s_alloc_ceiling_frame s \<le> f")
  case True
  then have "f \<notin> free_set s" using pmm_inv_free [OF assms, of f] by auto
  with True show thesis by (intro outside) (auto simp: release_frame_checked_def)
next
  case False
  then have f: "0 < f" "f < s_alloc_ceiling_frame s" by (auto simp: word_gt_0)
  then have max: "f < MAX_FRAMES" using pmm_inv_limits [OF assms] by (auto simp: pmm_limits_def)
  show thesis
  proof (cases "f \<in> free_set s")
    case True
    then show thesis
      using False by (intro double) (auto simp: release_frame_checked_def frame_is_used_iff free_set_def)
  next
    case nf: False
    then have "frame_is_used s f" using max by (simp add: frame_is_used_iff free_set_def)
    with False nf show thesis
      using frame_set_free_inv [OF assms nf f] free_set_set_free [OF max]
      by (intro freed f) (simp_all add: release_frame_checked_def)
  qed
qed

lemma release_frame_checked_inv:
  assumes "pmm_inv s"
  shows "pmm_inv (fst (release_frame_checked f s)) \<and>
    free_set (fst (release_frame_checked f s)) =
      (if 0 < f \<and> f < s_alloc_ceiling_frame s then insert f (free_set s) else free_set s) \<and>
    s_alloc_ceiling_frame (fst (release_frame_checked f s)) = s_alloc_ceiling_frame s"
  using assms
proof (cases rule: release_frame_checked_cases [where f = f])
  case outside
  then show ?thesis using assms by auto
next
  case double
  then show ?thesis using assms pmm_inv_free [OF assms double(2)] by auto
next
  case freed
  then show ?thesis by auto
qed

lemma free_frame_reuse:
  assumes "pmm_inv s" and "took s f s'"
  shows "free_set (pmm_free_frame (FRAME_TO_ADDR f) s') = free_set s"
proof -
  have f: "f \<in> free_set s" "pmm_inv s'" "free_set s' = free_set s - {f}"
    "s_alloc_ceiling_frame s' = s_alloc_ceiling_frame s"
    using assms by (auto simp: took_def)
  have "free_set (fst (release_frame_checked f s')) = insert f (free_set s')"
    using release_frame_checked_inv [OF f(2), of f] pmm_inv_free [OF assms(1) f(1)] f(4) by simp
  then show ?thesis
    using frame_addr_nonzero(2) [OF assms(1) f(1)] f(1,3)
    by (auto simp: pmm_free_frame_def frame_to_addr_aligned)
qed

text \<open>
  C4: a single-frame allocation keeps the allocator's invariant and is exact.  It fails (address
  0, nothing changed) only when the requested zone holds no free frame, and on success the
  page-aligned address it returns names a frame that was free, lies in the requested zone, is
  below the direct-map ceiling, and is now the one frame fewer in the free set.
\<close>

theorem pmm_alloc_frame_exact:
  assumes "pmm_inv s" and "pmm_alloc_frame zone_flags s = (s', pa)"
  shows "pmm_inv s' \<and>
    (pa = 0 \<longrightarrow> s' = s \<and> zone_set zone_flags s = {}) \<and>
    (pa \<noteq> 0 \<longrightarrow> pa AND (PAGE_SIZE - 1) = 0 \<and> ADDR_TO_FRAME pa \<in> zone_set zone_flags s \<and>
       ADDR_TO_FRAME pa < s_alloc_ceiling_frame s \<and>
       free_set s' = free_set s - {ADDR_TO_FRAME pa} \<and>
       pmm_free_frame pa s' \<noteq> s' \<and> free_set (pmm_free_frame pa s') = free_set s)"
  using assms(1)
proof (cases rule: pmm_alloc_frame_cases [where z = zone_flags])
  case none
  then have "s' = s" "pa = 0" using assms(2) by simp_all
  then show ?thesis using assms(1) none(2) by simp
next
  case (found f t)
  then have eq: "s' = t" "pa = FRAME_TO_ADDR f" using assms(2) by simp_all
  have t: "pmm_inv t" "f \<in> free_set s" "free_set t = free_set s - {f}"
    using found(4) by (simp_all add: took_def)
  have reuse: "free_set (pmm_free_frame pa s') = free_set s"
    unfolding eq by (rule free_frame_reuse [OF assms(1) found(4)])
  have "f \<notin> free_set s'" unfolding eq(1) t(3) by simp
  moreover have "f \<in> free_set (pmm_free_frame pa s')" unfolding reuse by (rule t(2))
  ultimately have "pmm_free_frame pa s' \<noteq> s'" by metis
  then show ?thesis
    using reuse t(1,3) found(2,3) frame_addr_nonzero(2) [OF assms(1) t(2)]
      pmm_inv_free(2) [OF assms(1) t(2)] frame_to_addr_aligned [of f]
    unfolding eq by simp
qed

text \<open>
  C5: freeing is checked.  For every address, \<^verbatim>\<open>pmm_free_frame\<close> keeps the invariant; a
  misaligned address, frame 0, or a frame at or above the allocation ceiling changes nothing,
  freeing a frame that is already free is caught (only the double-free counter moves), and any
  other release makes exactly that frame available again.
\<close>

theorem pmm_free_frame_checked:
  assumes "pmm_inv s"
  shows "pmm_inv (pmm_free_frame pa s) \<and>
    (if pa AND (PAGE_SIZE - 1) \<noteq> 0 \<or> ADDR_TO_FRAME pa = 0 \<or>
        s_alloc_ceiling_frame s \<le> ADDR_TO_FRAME pa
     then pmm_free_frame pa s = s
     else if ADDR_TO_FRAME pa \<in> free_set s
     then pmm_free_frame pa s = s\<lparr>s_double_free_caught := s_double_free_caught s + 1\<rparr>
     else free_set (pmm_free_frame pa s) = insert (ADDR_TO_FRAME pa) (free_set s) \<and>
          s_double_free_caught (pmm_free_frame pa s) = s_double_free_caught s)"
proof (cases "pa AND (PAGE_SIZE - 1) \<noteq> 0")
  case True
  then show ?thesis using assms by (simp add: pmm_free_frame_def)
next
  case False
  then have eq: "pmm_free_frame pa s = fst (release_frame_checked (ADDR_TO_FRAME pa) s)"
    by (simp add: pmm_free_frame_def)
  from assms show ?thesis
  proof (cases rule: release_frame_checked_cases [where f = "ADDR_TO_FRAME pa"])
    case double
    then show ?thesis
      using assms pmm_inv_free [OF assms double(2)] False by (auto simp: eq)
  qed (use False assms in \<open>auto simp: eq\<close>)
qed

section \<open>Runs of frames\<close>

lemma find_contiguous_run_scan:
  assumes "hi < 4294967296" and "unat run < unat n" and "unat run \<le> i" and "begn = of_nat (i - unat run)"
  shows "find_contiguous_from s n run begn (map of_nat [i..<hi]) =
    (case run_scan (\<lambda>j. frame_free s (of_nat j)) (unat n) (unat run) [i..<hi] of
       None \<Rightarrow> UINT32_MAX | Some b \<Rightarrow> of_nat b)"
  using assms(2-)
proof (induction "hi - i" arbitrary: i run begn)
  case 0
  then show ?case by simp
next
  case (Suc d)
  then have upt: "[i..<hi] = i # [Suc i..<hi]" by (simp add: upt_conv_Cons)
  have less: "run < n" using Suc.prems(1) by (simp add: word_less_nat_alt)
  have unat_run: "unat (run + 1) = Suc (unat run)" by (rule unat_Suc_u32 [OF less])
  show ?case
  proof (cases "frame_free s (of_nat i)")
    case True
    show ?thesis
    proof (cases "run + 1 = n")
      case eq: True
      then have n: "unat n = Suc (unat run)" using unat_run by simp
      then have "begn = of_nat (Suc i - unat n)" using Suc.prems(3) by simp
      with n show ?thesis using True eq by (simp add: upt frame_is_used_iff)
    next
      case neq: False
      then have n: "Suc (unat run) \<noteq> unat n" using unat_run by (metis word_unat_eq_iff)
      have "find_contiguous_from s n (run + 1) begn (map of_nat [Suc i..<hi]) =
          (case run_scan (\<lambda>j. frame_free s (of_nat j)) (unat n) (unat (run + 1)) [Suc i..<hi] of
             None \<Rightarrow> UINT32_MAX | Some b \<Rightarrow> of_nat b)"
        using Suc.prems n unat_run Suc.hyps(2) by (intro Suc.hyps(1)) auto
      then show ?thesis using True neq n unat_run by (simp add: upt frame_is_used_iff)
    qed
  next
    case False
    have "find_contiguous_from s n 0 (of_nat i + 1) (map of_nat [Suc i..<hi]) =
        (case run_scan (\<lambda>j. frame_free s (of_nat j)) (unat n) (unat (0 :: u32)) [Suc i..<hi] of
           None \<Rightarrow> UINT32_MAX | Some b \<Rightarrow> of_nat b)"
      using Suc.prems(1) Suc.hyps(2) by (intro Suc.hyps(1)) auto
    then show ?thesis using False by (simp add: upt frame_is_used_iff)
  qed
qed

definition free_run :: "pmm \<Rightarrow> u32 \<Rightarrow> nat \<Rightarrow> bool" where
  "free_run s n b \<longleftrightarrow> is_run (\<lambda>j. frame_free s (of_nat j)) (unat n) b"

lemma zone_find_contiguous_cases:
  assumes "unat stop \<le> 1048576" and "n \<noteq> 0"
  obtains (none) "zone_find_contiguous s start stop n = UINT32_MAX"
      "\<And>b. unat start \<le> b \<Longrightarrow> b + unat n \<le> unat stop \<Longrightarrow> \<not> free_run s n b"
  | (found) b where "zone_find_contiguous s start stop n = of_nat b"
      "(of_nat b :: u32) \<noteq> UINT32_MAX" "free_run s n b" "b + unat n \<le> unat stop"
proof (cases "unat start \<le> unat stop")
  case False
  then have "zone_find_contiguous s start stop n = UINT32_MAX"
    by (simp add: zone_find_contiguous_def word_le_nat_alt)
  then show thesis using False by (intro that(1)) auto
next
  case True
  have eq: "zone_find_contiguous s start stop n =
      (case run_scan (\<lambda>j. frame_free s (of_nat j)) (unat n) 0 [unat start..<unat stop] of
         None \<Rightarrow> UINT32_MAX | Some b \<Rightarrow> of_nat b)"
    using find_contiguous_run_scan [of "unat stop" 0 n "unat start" start s] assms(2)
    by (simp add: zone_find_contiguous_def words_from_def unat_gt_0)
  have n: "0 < unat n" using assms(2) by (simp add: unat_gt_0)
  from n True show thesis
  proof (cases rule: run_scan_cases [where F = "\<lambda>j. frame_free s (of_nat j)"])
    case (found b)
    have b: "b < 1048576" using found(4) n assms(1) by linarith
    then have "unat (of_nat b :: u32) = b" by (intro unat_of_nat_u32) linarith
    with b have "(of_nat b :: u32) \<noteq> UINT32_MAX" by auto
    with found show thesis by (intro that(2) [of b]) (auto simp: eq free_run_def)
  next
    case none
    then show thesis by (intro that(1)) (auto simp: eq free_run_def)
  qed
qed

lemma fold_set_used:
  assumes "pmm_inv s" and "distinct fs" and "set fs \<subseteq> free_set s"
  shows "pmm_inv (fold frame_set_used fs s) \<and>
    free_set (fold frame_set_used fs s) = free_set s - set fs \<and>
    s_alloc_ceiling_frame (fold frame_set_used fs s) = s_alloc_ceiling_frame s"
  using assms
proof (induction fs arbitrary: s)
  case (Cons f fs)
  then have "pmm_inv (frame_set_used f s)" "free_set (frame_set_used f s) = free_set s - {f}"
    by (auto simp: frame_set_used_inv free_set_set_used)
  with Cons.IH [of "frame_set_used f s"] Cons.prems show ?case by auto
qed simp

lemma fold_release:
  assumes "pmm_inv s"
  shows "pmm_inv (fold (\<lambda>f s. fst (release_frame_checked f s)) fs s) \<and>
    free_set (fold (\<lambda>f s. fst (release_frame_checked f s)) fs s) =
      free_set s \<union> {f \<in> set fs. 0 < f \<and> f < s_alloc_ceiling_frame s}"
  using assms
proof (induction fs arbitrary: s)
  case (Cons f fs)
  then show ?case using release_frame_checked_inv [OF Cons.prems, of f] by auto
qed simp

text \<open>The frames \<open>base, base + 1, \<dots>\<close> of a run of \<open>n\<close>.\<close>

definition run_frames :: "u32 \<Rightarrow> u32 \<Rightarrow> u32 list" where
  "run_frames base n = map ((+) base) (words_from 0 n)"

lemma run_frames_free:
  assumes "pmm_inv s" and "free_run s n b" and "b + unat n \<le> 1048576"
  shows "distinct (run_frames (of_nat b) n)" and "set (run_frames (of_nat b) n) \<subseteq> free_set s"
proof -
  show "distinct (run_frames (of_nat b) n)"
    by (simp add: run_frames_def distinct_map)
  show "set (run_frames (of_nat b) n) \<subseteq> free_set s"
  proof
    fix f assume "f \<in> set (run_frames (of_nat b) n)"
    then obtain i where "f = of_nat b + i" "i < n" by (auto simp: run_frames_def)
    then have f: "f = of_nat (b + unat i)" "b + unat i < b + unat n"
      by (simp_all add: word_less_nat_alt)
    with assms(3) have "b + unat i < 4294967296" by linarith
    then have "unat f = b + unat i" unfolding f(1) by (rule unat_of_nat_u32)
    then have "f < MAX_FRAMES" using f(2) assms(3) by (simp add: MAX_FRAMES_def word_less_nat_alt)
    moreover have "frame_free s f"
      unfolding f(1) using assms(2) f(2) unfolding free_run_def is_run_def by (meson le_add1)
    ultimately show "f \<in> free_set s" by (simp add: free_set_def)
  qed
qed

lemma run_frames_below:
  assumes "b + unat n \<le> unat (lim :: u32)" and "f \<in> set (run_frames (of_nat b) n)"
  shows "f < lim"
proof -
  from assms(2) obtain i where i: "f = of_nat (b + unat i)" "i < n" by (auto simp: run_frames_def)
  then have less: "b + unat i < unat lim" using assms(1) by (simp add: word_less_nat_alt)
  then have "b + unat i < 4294967296" using unat_lt_u32 [of lim] by linarith
  then have "unat f = b + unat i" unfolding i(1) by (rule unat_of_nat_u32)
  with less show ?thesis by (simp add: word_less_nat_alt)
qed

lemma pmm_alloc_contiguous_cases:
  assumes "pmm_inv s" and "n \<noteq> 0"
  obtains (none) "pmm_alloc_contiguous n z s = (s, 0)"
      "\<And>b. 1 \<le> b \<Longrightarrow> b + unat n \<le> unat (s_dma_limit_frame s) \<Longrightarrow> \<not> free_run s n b"
      "\<And>b. z AND PMM_ZONE_DMA = 0 \<Longrightarrow> unat (s_dma_limit_frame s) \<le> b \<Longrightarrow>
         b + unat n \<le> unat (s_alloc_ceiling_frame s) \<Longrightarrow> \<not> free_run s n b"
  | (found) b where "pmm_alloc_contiguous n z s =
        (fold frame_set_used (run_frames (of_nat b) n) s, FRAME_TO_ADDR (of_nat b))"
      "free_run s n b" "b + unat n \<le> 1048576"
      "z AND PMM_ZONE_DMA \<noteq> 0 \<Longrightarrow> b + unat n \<le> unat (s_dma_limit_frame s)"
proof -
  have dma: "unat (s_dma_limit_frame s) \<le> 1048576" and ceil: "unat (s_alloc_ceiling_frame s) \<le> 1048576"
    using pmm_limits_bounds [OF pmm_inv_limits [OF assms(1)]] .
  have fold: "fold (\<lambda>i. frame_set_used (b + i)) (words_from 0 n) s = fold frame_set_used (run_frames b n) s"
    for b by (simp add: run_frames_def fold_map comp_def)
  note defs = pmm_alloc_contiguous_def Let_def fold
  from dma assms(2) show thesis
  proof (cases rule: zone_find_contiguous_cases [where s = s and start = 1])
    case low: none
    from ceil assms(2) show thesis
    proof (cases rule: zone_find_contiguous_cases [where s = s and start = "s_dma_limit_frame s"])
      case none
      with low assms(2) show thesis by (intro that(1)) (auto simp: defs)
    next
      case (found b)
      with low assms(2) ceil show thesis
        by (cases "z AND PMM_ZONE_DMA = 0") (auto simp: defs intro: that)
    qed
  next
    case low: (found b)
    show thesis
    proof (cases "z AND PMM_ZONE_DMA \<noteq> 0 \<or> z AND PMM_ZONE_PREFER_LOW \<noteq> 0")
      case True
      with low assms(2) dma show thesis by (intro that(2) [of b]) (auto simp: defs)
    next
      case False
      from ceil assms(2) show thesis
      proof (cases rule: zone_find_contiguous_cases [where s = s and start = "s_dma_limit_frame s"])
        case none
        with low False assms(2) dma show thesis by (intro that(2) [of b]) (auto simp: defs)
      next
        case (found c)
        with False assms(2) ceil show thesis by (intro that(2) [of c]) (auto simp: defs)
      qed
    qed
  qed
qed

text \<open>
  The contiguous allocator returns the address of a run of \<^verbatim>\<open>count\<close> free frames, inside one
  zone, and takes exactly these; it fails only when neither zone it may use holds such a run.
  Handing the run back with \<^verbatim>\<open>pmm_free_contiguous\<close> restores the set of free frames.
\<close>

theorem pmm_contiguous_roundtrip:
  assumes "pmm_inv s" and "count \<noteq> 0" and "pmm_alloc_contiguous count zone_flags s = (s', pa)"
  shows "pmm_inv s' \<and>
    (pa = 0 \<longrightarrow> s' = s \<and>
       (\<forall>b \<ge> 1. b + unat count \<le> unat (s_dma_limit_frame s) \<longrightarrow> \<not> free_run s count b) \<and>
       (zone_flags AND PMM_ZONE_DMA = 0 \<longrightarrow> (\<forall>b \<ge> unat (s_dma_limit_frame s).
          b + unat count \<le> unat (s_alloc_ceiling_frame s) \<longrightarrow> \<not> free_run s count b))) \<and>
    (pa \<noteq> 0 \<longrightarrow> set (run_frames (ADDR_TO_FRAME pa) count) \<subseteq> free_set s \<and>
       (zone_flags AND PMM_ZONE_DMA \<noteq> 0 \<longrightarrow>
          set (run_frames (ADDR_TO_FRAME pa) count) \<subseteq> dma_set s) \<and>
       free_set s' = free_set s - set (run_frames (ADDR_TO_FRAME pa) count) \<and>
       pmm_inv (pmm_free_contiguous pa count s') \<and>
       free_set (pmm_free_contiguous pa count s') = free_set s)"
  using assms(1,2)
proof (cases rule: pmm_alloc_contiguous_cases [where z = zone_flags])
  case none
  then have "s' = s" "pa = 0" using assms(3) by simp_all
  then show ?thesis using assms(1) none(2,3) by auto
next
  case (found b)
  let ?fs = "run_frames (of_nat b) count"
  have eq: "s' = fold frame_set_used ?fs s" "pa = FRAME_TO_ADDR (of_nat b)"
    using found(1) assms(3) by simp_all
  have fs: "distinct ?fs" "set ?fs \<subseteq> free_set s" by (rule run_frames_free [OF assms(1) found(2,3)])+
  note took = fold_set_used [OF assms(1) fs, folded eq(1)]
  have b: "unat (of_nat b :: u32) = b" using found(3) by (intro unat_of_nat_u32) linarith
  have "0 < unat count" using assms(2) by (simp add: unat_gt_0)
  then have bl: "b < 1048576" using found(3) by linarith
  then have pa: "ADDR_TO_FRAME pa = of_nat b" using b by (simp add: eq)
  have dma: "set ?fs \<subseteq> dma_set s" if "zone_flags AND PMM_ZONE_DMA \<noteq> 0"
    using fs(2) run_frames_below [OF found(4) [OF that]] by (auto simp: dma_set_def)
  have "pmm_free_contiguous pa count s' = fold (\<lambda>f s. fst (release_frame_checked f s)) ?fs s'"
    using pa frame_to_addr_aligned [of "of_nat b"]
    by (simp add: pmm_free_contiguous_def eq(2) run_frames_def fold_map comp_def Let_def)
  then have "pmm_inv (pmm_free_contiguous pa count s') \<and> free_set (pmm_free_contiguous pa count s') =
      free_set s' \<union> {f \<in> set ?fs. 0 < f \<and> f < s_alloc_ceiling_frame s'}"
    using fold_release took by simp
  moreover have "{f \<in> set ?fs. 0 < f \<and> f < s_alloc_ceiling_frame s'} = set ?fs"
    using fs(2) pmm_inv_free [OF assms(1)] took by auto
  moreover have "of_nat b \<in> set ?fs" using assms(2) by (auto simp: run_frames_def word_gt_0)
  then have "pa \<noteq> 0" using frame_addr_nonzero(1) [OF assms(1)] fs(2) by (auto simp: eq(2))
  ultimately show ?thesis
    using took fs dma unfolding pa by auto
qed

section \<open>Initialisation\<close>

lemma bit_all_ones: "bit (0xFFFFFFFF :: u32) n \<longleftrightarrow> n < 32"
proof -
  have "(0xFFFFFFFF :: u32) = NOT 0" by simp
  then show ?thesis by (simp only: bit_not_u32) simp
qed

lemma free_set_all_used:
  assumes "s_bitmap s = (\<lambda>_. 0xFFFFFFFF)"
  shows "free_set s = {}"
proof -
  have "\<not> frame_free s f" for f unfolding frame_free_def assms bit_all_ones by simp
  then show ?thesis by (simp add: free_set_def)
qed

lemma fold_set_free_fields [simp]:
  "s_alloc_ceiling_frame (fold frame_set_free fs s) = s_alloc_ceiling_frame s"
  "s_dma_limit_frame (fold frame_set_free fs s) = s_dma_limit_frame s"
  "s_total_frames (fold frame_set_free fs s) = s_total_frames s"
  by (induction fs arbitrary: s) auto

lemma fold_set_free:
  assumes "pmm_counts s" and "distinct fs" and "set fs \<inter> free_set s = {}"
    and "\<forall>f \<in> set fs. f < s_alloc_ceiling_frame s"
  shows "pmm_counts (fold frame_set_free fs s) \<and>
    free_set (fold frame_set_free fs s) = free_set s \<union> set fs"
  using assms
proof (induction fs arbitrary: s)
  case (Cons f fs)
  have "f < MAX_FRAMES"
    using Cons.prems(1,4) by (auto simp: pmm_counts_def pmm_limits_def)
  then have f: "free_set (frame_set_free f s) = insert f (free_set s)" by (rule free_set_set_free)
  moreover have "pmm_counts (frame_set_free f s)"
    using Cons.prems by (intro frame_set_free_counts) auto
  ultimately show ?case using Cons.IH [of "frame_set_free f s"] Cons.prems by auto
qed simp

definition usable_frames :: "boot_info \<Rightarrow> u32 \<Rightarrow> u32 list" where
  "usable_frames bi ceiling = concat (map (\<lambda>e. entry_frames e ceiling) (bi_mmap bi))"

lemma release_available_fold:
  "fold (\<lambda>e s. fold frame_set_free (entry_frames e (s_alloc_ceiling_frame s)) s) es s =
   fold frame_set_free (concat (map (\<lambda>e. entry_frames e (s_alloc_ceiling_frame s)) es)) s"
  by (induction es arbitrary: s) simp_all

lemma release_available_regions_free:
  assumes "pmm_limits s" and "distinct (usable_frames bi (s_alloc_ceiling_frame s))"
  shows "pmm_counts (release_available_regions bi s) \<and>
    free_set (release_available_regions bi s) = set (usable_frames bi (s_alloc_ceiling_frame s))"
proof -
  let ?s = "s\<lparr>s_bitmap := (\<lambda>_. 0xFFFFFFFF), s_free_frames := 0, s_dma_free := 0\<rparr>"
  have none: "free_set ?s = {}" by (rule free_set_all_used) simp
  moreover have "pmm_counts ?s"
    using assms(1) none by (simp add: pmm_counts_def pmm_limits_def dma_set_def)
  moreover have "\<forall>f \<in> set (usable_frames bi (s_alloc_ceiling_frame s)). f < s_alloc_ceiling_frame s"
    by (auto simp: usable_frames_def entry_frames_def Let_def split: if_splits)
  ultimately have "pmm_counts (fold frame_set_free (usable_frames bi (s_alloc_ceiling_frame s)) ?s) \<and>
      free_set (fold frame_set_free (usable_frames bi (s_alloc_ceiling_frame s)) ?s) =
      free_set ?s \<union> set (usable_frames bi (s_alloc_ceiling_frame s))"
    using assms(2) by (intro fold_set_free) auto
  then show ?thesis
    by (simp add: release_available_regions_def release_available_fold usable_frames_def none)
qed

text \<open>The frames that \<^verbatim>\<open>pmm_mark_used(addr, size)\<close> reserves.\<close>

definition marked :: "u32 \<Rightarrow> u32 \<Rightarrow> u32 set" where
  "marked addr sz = {f. ADDR_TO_FRAME (ALIGN_DOWN addr PAGE_SIZE) \<le> f \<and>
     f < ADDR_TO_FRAME (ALIGN_UP (addr + sz) PAGE_SIZE)}"

lemma marked_covers:
  assumes "unat addr + unat sz \<le> 4294963200" and "addr \<le> a" and "unat a < unat addr + unat sz"
  shows "ADDR_TO_FRAME a \<in> marked addr sz"
proof -
  have sum: "unat (addr + sz) = unat addr + unat sz" using assms(1) by (intro unat_add_u32) linarith
  have "unat addr div 4096 \<le> unat a div 4096"
    using assms(2) by (simp add: word_le_nat_alt div_le_mono)
  moreover have "unat a div 4096 < (unat addr + unat sz + 4095) div 4096" using assms(3) by linarith
  ultimately show ?thesis
    using assms(1) by (simp add: marked_def word_le_nat_alt word_less_nat_alt unat_addr_to_frame
        unat_align_down unat_align_up sum)
qed

lemma fold_mark:
  assumes "pmm_counts s" and "\<forall>f \<in> set fs. f < MAX_FRAMES"
  shows "pmm_counts (fold (\<lambda>f s. if \<not> frame_is_used s f then frame_set_used f s else s) fs s) \<and>
    free_set (fold (\<lambda>f s. if \<not> frame_is_used s f then frame_set_used f s else s) fs s) =
      free_set s - set fs \<and>
    s_total_frames (fold (\<lambda>f s. if \<not> frame_is_used s f then frame_set_used f s else s) fs s) =
      s_total_frames s"
  using assms
proof (induction fs arbitrary: s)
  case (Cons f fs)
  let ?s = "if \<not> frame_is_used s f then frame_set_used f s else s"
  have "free_set ?s = free_set s - {f}" "s_total_frames ?s = s_total_frames s"
    by (auto simp: frame_is_used_iff free_set_set_used) (simp add: free_set_def)
  moreover have "f \<in> free_set s" if "\<not> frame_is_used s f"
    using that Cons.prems(2) by (simp add: free_set_def frame_is_used_iff)
  then have "pmm_counts ?s" using Cons.prems(1) frame_set_used_counts by auto
  ultimately show ?case using Cons.IH [of ?s] Cons.prems(2) by auto
qed simp

lemma pmm_mark_used_free:
  assumes "pmm_counts s"
  shows "pmm_counts (pmm_mark_used addr sz s) \<and>
    free_set (pmm_mark_used addr sz s) = free_set s - marked addr sz"
proof -
  have tot: "s_total_frames s \<le> MAX_FRAMES" using assms by (simp add: pmm_counts_def pmm_limits_def)
  have free: "f < s_total_frames s" if "f \<in> free_set s" for f
    using assms that by (auto simp: pmm_counts_def pmm_limits_def)
  let ?fs = "words_from (ADDR_TO_FRAME (ALIGN_DOWN addr PAGE_SIZE))
    (min (ADDR_TO_FRAME (ALIGN_UP (addr + sz) PAGE_SIZE)) (s_total_frames s))"
  have "\<forall>f \<in> set ?fs. f < MAX_FRAMES" using tot by (auto intro: less_le_trans)
  from fold_mark [OF assms this] show ?thesis
    using free by (auto simp: pmm_mark_used_def marked_def Let_def)
qed

definition boot_reserved :: "u32 \<Rightarrow> boot_info \<Rightarrow> u32 set" where
  "boot_reserved kernel_phys_end bi =
     marked 0 0x100000 \<union> marked 0x100000 (kernel_phys_end - 0x100000) \<union>
     (\<Union>m \<in> set (bi_modules bi). marked (phys_start m) (phys_end m - phys_start m))"

lemma mark_modules:
  assumes "pmm_counts s"
  shows "pmm_counts (fold (\<lambda>m. pmm_mark_used (phys_start m) (phys_end m - phys_start m)) ms s) \<and>
    free_set (fold (\<lambda>m. pmm_mark_used (phys_start m) (phys_end m - phys_start m)) ms s) =
      free_set s - (\<Union>m \<in> set ms. marked (phys_start m) (phys_end m - phys_start m))"
  using assms
proof (induction ms arbitrary: s)
  case (Cons m ms)
  then show ?case
    using pmm_mark_used_free [OF Cons.prems, of "phys_start m" "phys_end m - phys_start m"] by auto
qed simp

lemma reserve_critical_regions_free:
  assumes "pmm_counts s"
  shows "pmm_counts (reserve_critical_regions kend bi s) \<and>
    free_set (reserve_critical_regions kend bi s) = free_set s - boot_reserved kend bi"
proof -
  note m = pmm_mark_used_free
  have "pmm_counts (pmm_mark_used 0x100000 (kend - 0x100000) (pmm_mark_used 0 0x100000 s))"
    using m assms by blast
  from mark_modules [OF this, of "bi_modules bi"] show ?thesis
    using m [OF assms] m [OF m [OF assms, THEN conjunct1]]
    by (auto simp: reserve_critical_regions_def boot_reserved_def)
qed

lemma init_ceiling_kept [simp]:
  "s_alloc_ceiling_frame (pmm_mark_used a n s) = s_alloc_ceiling_frame s"
  "s_alloc_ceiling_frame (release_available_regions bi s) = s_alloc_ceiling_frame s"
  "s_alloc_ceiling_frame (reserve_critical_regions kend bi s) = s_alloc_ceiling_frame s"
proof -
  have mark: "s_alloc_ceiling_frame (pmm_mark_used a n s) = s_alloc_ceiling_frame s" for a n s
    unfolding pmm_mark_used_def Let_def by (rule fold_invariant_pred) auto
  then show "s_alloc_ceiling_frame (pmm_mark_used a n s) = s_alloc_ceiling_frame s" .
  show "s_alloc_ceiling_frame (release_available_regions bi s) = s_alloc_ceiling_frame s"
    by (simp add: release_available_regions_def release_available_fold)
  show "s_alloc_ceiling_frame (reserve_critical_regions kend bi s) = s_alloc_ceiling_frame s"
    unfolding reserve_critical_regions_def by (rule fold_invariant_pred) (simp_all add: mark)
qed

definition init_ceiling :: "u32 \<Rightarrow> boot_info \<Rightarrow> u32" where
  "init_ceiling direct_map_limit bi =
     min (ADDR_TO_FRAME (mmap_usable_top bi)) (ADDR_TO_FRAME direct_map_limit)"

lemma measure_usable_ram_False:
  obtains t where "measure_usable_ram False dml bi s = Some t" "pmm_limits t"
    "s_alloc_ceiling_frame t = init_ceiling dml bi"
proof -
  let ?raw = "ADDR_TO_FRAME (mmap_usable_top bi)"
  have raw: "?raw \<le> MAX_FRAMES"
    using addr_to_frame_bound [of "mmap_usable_top bi"] by (simp add: MAX_FRAMES_def word_le_nat_alt)
  have "ADDR_TO_FRAME PMM_DMA_LIMIT \<noteq> 0"
    by (simp add: PMM_DMA_LIMIT_def unat_eq_iff_u32 unat_addr_to_frame)
  with raw show thesis
    by (intro that [of "s\<lparr>s_total_frames := ?raw,
        s_dma_limit_frame := min (ADDR_TO_FRAME PMM_DMA_LIMIT) ?raw,
        s_alloc_ceiling_frame := init_ceiling dml bi\<rparr>"])
      (auto simp: measure_usable_ram_def Let_def init_ceiling_def min_def pmm_limits_def)
qed

lemma frame_0_marked: "0 \<in> boot_reserved kend bi"
  by (simp add: boot_reserved_def marked_def word_le_nat_alt word_less_nat_alt unat_addr_to_frame
      unat_align_down unat_align_up)

lemma boot_reserved_covers:
  assumes "0x100000 \<le> kend" and "kend \<le> 0xFFFFF000" and "a < kend"
  shows "ADDR_TO_FRAME a \<in> boot_reserved kend bi"
proof (cases "a < 0x100000")
  case True
  then have "ADDR_TO_FRAME a \<in> marked 0 0x100000"
    by (intro marked_covers) (simp_all add: word_less_nat_alt)
  then show ?thesis by (simp add: boot_reserved_def)
next
  case False
  have "ADDR_TO_FRAME a \<in> marked 0x100000 (kend - 0x100000)"
    using assms False
    by (intro marked_covers) (simp_all add: word_less_nat_alt word_le_nat_alt unat_sub_u32)
  then show ?thesis by (simp add: boot_reserved_def)
qed

lemma boot_reserved_module:
  assumes "m \<in> set (bi_modules bi)" and "phys_end m \<le> 0xFFFFF000" and "phys_start m \<le> a" and "a < phys_end m"
  shows "ADDR_TO_FRAME a \<in> boot_reserved kend bi"
proof -
  have "ADDR_TO_FRAME a \<in> marked (phys_start m) (phys_end m - phys_start m)"
    using assms(2-)
    by (intro marked_covers) (simp_all add: word_less_nat_alt word_le_nat_alt unat_sub_u32)
  with assms(1) show ?thesis by (auto simp: boot_reserved_def)
qed

text \<open>
  C32: when the AVAILABLE regions of the boot memory map do not overlap (and the kernel image
  and modules end below the last page of the address space), initialisation does not panic in
  the default build and establishes the allocator's invariant.  The free frames are then
  exactly those of the usable regions below the direct map that are not reserved; in
  particular no byte of low memory, of the kernel image or of a boot module is in a free frame.
\<close>

theorem pmm_init_reserves:
  assumes "distinct (usable_frames bi (init_ceiling direct_map_limit bi))"
    and "0x100000 \<le> kernel_phys_end" and "kernel_phys_end \<le> 0xFFFFF000"
    and "\<forall>m \<in> set (bi_modules bi). phys_end m \<le> 0xFFFFF000"
  shows "\<exists>s'. pmm_init False direct_map_limit kernel_phys_end bi s = Some s' \<and> pmm_inv s' \<and>
    free_set s' = set (usable_frames bi (init_ceiling direct_map_limit bi)) -
      boot_reserved kernel_phys_end bi \<and>
    (\<forall>a. a < kernel_phys_end \<or> (\<exists>m \<in> set (bi_modules bi). phys_start m \<le> a \<and> a < phys_end m) \<longrightarrow>
       ADDR_TO_FRAME a \<notin> free_set s')"
proof -
  obtain t where t: "measure_usable_ram False direct_map_limit bi s = Some t" "pmm_limits t"
    "s_alloc_ceiling_frame t = init_ceiling direct_map_limit bi"
    by (rule measure_usable_ram_False)
  let ?r = "release_available_regions bi t"
  let ?s = "reserve_critical_regions kernel_phys_end bi ?r"
  let ?s' = "?s\<lparr>s_hint_dma := 1, s_hint_normal := s_dma_limit_frame ?s\<rparr>"
  have r: "pmm_counts ?r" "free_set ?r = set (usable_frames bi (init_ceiling direct_map_limit bi))"
    using release_available_regions_free [OF t(2)] assms(1) t(3) by auto
  have s: "pmm_counts ?s" "free_set ?s = free_set ?r - boot_reserved kernel_phys_end bi"
    using reserve_critical_regions_free [OF r(1)] by auto
  have inv: "pmm_inv ?s'" using s frame_0_marked by (simp add: pmm_inv_def)
  have "s_alloc_ceiling_frame ?s = init_ceiling direct_map_limit bi" by (simp add: t(3))
  then have init: "pmm_init False direct_map_limit kernel_phys_end bi s = Some ?s'"
    using t(1) by (simp add: pmm_init_def Let_def init_ceiling_def)
  have "ADDR_TO_FRAME a \<in> boot_reserved kernel_phys_end bi"
    if "a < kernel_phys_end \<or> (\<exists>m \<in> set (bi_modules bi). phys_start m \<le> a \<and> a < phys_end m)" for a
    using that boot_reserved_covers [OF assms(2,3)] boot_reserved_module assms(4) by blast
  with init inv s(2) r(2) show ?thesis by auto
qed

section \<open>A concrete machine\<close>

text \<open>
  Witnesses run on a machine of 64 frames whose DMA zone is the first 32, with three free
  frames (40, 41 and 20), and on the memory map of a small PC: 640 KB of low memory and the
  15 MB above 1 MB.
\<close>

definition blank_pmm :: pmm where
  "blank_pmm = \<lparr>s_bitmap = (\<lambda>_. 0xFFFFFFFF), s_total_frames = 64, s_alloc_ceiling_frame = 64,
     s_dma_limit_frame = 32, s_free_frames = 0, s_dma_free = 0, s_hint_dma = 1,
     s_hint_normal = 32, s_double_free_caught = 0\<rparr>"

definition sample_pmm :: pmm where
  "sample_pmm = fold frame_set_free [40, 41, 20] blank_pmm"

definition sample_boot :: boot_info where
  "sample_boot = \<lparr>bi_mmap =
      [\<lparr>mm_base = 0, mm_length = 0xA0000, mm_type = 1\<rparr>,
       \<lparr>mm_base = 0xF0000, mm_length = 0x10000, mm_type = 2\<rparr>,
       \<lparr>mm_base = 0x100000, mm_length = 0xF00000, mm_type = 1\<rparr>],
     bi_modules = [\<lparr>phys_start = 0x300000, phys_end = 0x345678\<rparr>]\<rparr>"

lemma sample_pmm_inv: "pmm_inv sample_pmm" and sample_pmm_free: "free_set sample_pmm = {40, 41, 20}"
proof -
  have none: "free_set blank_pmm = {}" by (rule free_set_all_used) (simp add: blank_pmm_def)
  have "pmm_counts blank_pmm"
    using none by (simp add: pmm_counts_def pmm_limits_def dma_set_def)
      (simp add: blank_pmm_def MAX_FRAMES_def)
  then have "pmm_counts sample_pmm \<and> free_set sample_pmm = free_set blank_pmm \<union> set [40, 41, 20]"
    unfolding sample_pmm_def using none by (intro fold_set_free) (auto simp: blank_pmm_def)
  then show "pmm_inv sample_pmm" "free_set sample_pmm = {40, 41, 20}"
    by (simp_all add: none pmm_inv_def)
qed

theorem pmm_alloc_frame_exact_witness:
  "snd (pmm_alloc_frame PMM_ZONE_ANY sample_pmm) = 0x28000 \<and>
   free_set (fst (pmm_alloc_frame PMM_ZONE_ANY sample_pmm)) = {41, 20}"
proof -
  have r: "snd (pmm_alloc_frame PMM_ZONE_ANY sample_pmm) = 0x28000" by code_simp
  have f: "ADDR_TO_FRAME 0x28000 = 40" by code_simp
  from pmm_alloc_frame_exact [OF sample_pmm_inv, of PMM_ZONE_ANY] r f show ?thesis
    by (cases "pmm_alloc_frame PMM_ZONE_ANY sample_pmm") (auto simp: sample_pmm_free)
qed

theorem pmm_free_frame_checked_witness:
  "free_set (pmm_free_frame 0x2A000 sample_pmm) = {40, 41, 42, 20} \<and>
   s_double_free_caught (pmm_free_frame 0x28000 sample_pmm) = 1"
proof -
  have a: "(0x2A000 :: u32) AND (PAGE_SIZE - 1) = 0" "ADDR_TO_FRAME 0x2A000 = 42"
    "(0x28000 :: u32) AND (PAGE_SIZE - 1) = 0" "ADDR_TO_FRAME 0x28000 = 40"
    "s_alloc_ceiling_frame sample_pmm = 64" "s_double_free_caught sample_pmm = 0"
    by code_simp+
  from pmm_free_frame_checked [OF sample_pmm_inv, of "0x2A000"]
    pmm_free_frame_checked [OF sample_pmm_inv, of "0x28000"]
  show ?thesis by (auto simp: a sample_pmm_free)
qed

theorem pmm_contiguous_roundtrip_witness:
  "snd (pmm_alloc_contiguous 2 PMM_ZONE_ANY sample_pmm) = 0x28000 \<and>
   free_set (pmm_free_contiguous 0x28000 2 (fst (pmm_alloc_contiguous 2 PMM_ZONE_ANY sample_pmm))) =
     {40, 41, 20}"
proof -
  have r: "snd (pmm_alloc_contiguous 2 PMM_ZONE_ANY sample_pmm) = 0x28000" by code_simp
  from pmm_contiguous_roundtrip [OF sample_pmm_inv, of 2 PMM_ZONE_ANY] r show ?thesis
    by (cases "pmm_alloc_contiguous 2 PMM_ZONE_ANY sample_pmm") (auto simp: sample_pmm_free)
qed

lemma sample_boot_distinct:
  "distinct (usable_frames sample_boot (init_ceiling 0x38000000 sample_boot))"
proof -
  have c: "init_ceiling 0x38000000 sample_boot = 4096" by code_simp
  have a: "ADDR_TO_FRAME (ALIGN_UP 0 PAGE_SIZE) = 0" "ADDR_TO_FRAME (ALIGN_DOWN 0xA0000 PAGE_SIZE) = 160"
    "ADDR_TO_FRAME (ALIGN_UP 0x100000 PAGE_SIZE) = 256"
    "ADDR_TO_FRAME (ALIGN_DOWN 0x1000000 PAGE_SIZE) = 4096"
    by code_simp+
  show ?thesis
    unfolding c
    by (auto simp: usable_frames_def sample_boot_def entry_frames_def usable_entry_def a
        word_less_nat_alt word_le_nat_alt)
qed

theorem pmm_init_reserves_witness:
  "\<exists>s'. pmm_init False 0x38000000 0x234567 sample_boot blank_pmm = Some s' \<and> pmm_inv s' \<and>
     ADDR_TO_FRAME 0x234566 \<notin> free_set s' \<and> ADDR_TO_FRAME 0x345677 \<notin> free_set s'"
proof -
  have d: "distinct (usable_frames sample_boot (init_ceiling 0x38000000 sample_boot))"
    by (rule sample_boot_distinct)
  have m: "\<forall>m \<in> set (bi_modules sample_boot). phys_end m \<le> 0xFFFFF000"
    by (simp add: sample_boot_def)
  obtain s' where s': "pmm_init False 0x38000000 0x234567 sample_boot blank_pmm = Some s'" "pmm_inv s'"
    "\<forall>a. a < 0x234567 \<or> (\<exists>m \<in> set (bi_modules sample_boot). phys_start m \<le> a \<and> a < phys_end m) \<longrightarrow>
       ADDR_TO_FRAME a \<notin> free_set s'"
    using pmm_init_reserves [OF d _ _ m, of "0x234567" blank_pmm] by auto
  from s'(3) [rule_format, of "0x234566"] s'(3) [rule_format, of "0x345677"] s'(1,2) show ?thesis
    by (auto simp: sample_boot_def)
qed

end
