(* ===== verification/Paging.thy ===== *)
theory Paging
  imports Pmm
begin

text \<open>
  \<^verbatim>\<open>kernel/mm/paging.c\<close>: two-level page tables with a recursive entry.  The state is the
  contents of physical memory as page-table entries (\<open>mem f i\<close> is the \<open>i\<close>-th word of the frame
  at physical address \<open>f\<close>), the register CR3, the frame allocator, and the kernel directory.
  \<open>walk\<close> is the processor's own translation; the C code reaches tables only through virtual
  addresses (\<^verbatim>\<open>live_pd\<close>, \<^verbatim>\<open>live_pt\<close>, the temporary slots), and so does the model: an access to
  an unmapped address is a fault in the kernel and, like a panic, is \<open>None\<close>.  The TLB is not
  modelled: \<^verbatim>\<open>cpu_invlpg\<close> after every change keeps it coherent, so it is the identity here.
\<close>

section \<open>State and translation\<close>

definition PTE_PRESENT :: u32 where "PTE_PRESENT = 1"
definition PTE_WRITABLE :: u32 where "PTE_WRITABLE = 2"
definition PTE_USER :: u32 where "PTE_USER = 4"
definition PTE_GLOBAL :: u32 where "PTE_GLOBAL = 0x100"
definition KERNEL_PD_INDEX :: u32 where "KERNEL_PD_INDEX = 768"
definition RECURSIVE_PD_INDEX :: u32 where "RECURSIVE_PD_INDEX = 1023"
definition KERNEL_VMA :: u32 where "KERNEL_VMA = 0xC0000000"
definition BOOT_DIRECT_MAP_MB :: u32 where "BOOT_DIRECT_MAP_MB = 16"
definition RECURSIVE_PD_VADDR :: u32 where "RECURSIVE_PD_VADDR = 0xFFFFF000"
definition DIRECT_MAP_LIMIT :: u32 where "DIRECT_MAP_LIMIT = 0x10000000"
definition PD_TEMP_A :: u32 where "PD_TEMP_A = 0xFF800000"
definition PD_TEMP_B :: u32 where "PD_TEMP_B = 0xFF801000"

definition PAGE_DIR_INDEX :: "u32 \<Rightarrow> u32" where
  "PAGE_DIR_INDEX v = drop_bit 22 v"

definition PAGE_TABLE_INDEX :: "u32 \<Rightarrow> u32" where
  "PAGE_TABLE_INDEX v = drop_bit 12 v AND 0x3FF"

definition PTE_FRAME :: "u32 \<Rightarrow> u32" where
  "PTE_FRAME e = e AND 0xFFFFF000"

definition RECURSIVE_PT_VADDR :: "u32 \<Rightarrow> u32" where
  "RECURSIVE_PT_VADDR i = 0xFFC00000 + push_bit 12 i"

record machine =
  mem :: "u32 \<Rightarrow> u32 \<Rightarrow> u32"
  cr3 :: u32
  frames :: pmm
  s_kernel_pd_phys :: u32

definition present :: "u32 \<Rightarrow> bool" where
  "present e \<longleftrightarrow> e AND PTE_PRESENT \<noteq> 0"

definition paging_direct_map_limit :: u32 where
  "paging_direct_map_limit = DIRECT_MAP_LIMIT"

definition paging_current_directory :: "machine \<Rightarrow> u32" where
  "paging_current_directory s = cr3 s AND 0xFFFFF000"

definition paging_switch_directory :: "u32 \<Rightarrow> machine \<Rightarrow> machine" where
  "paging_switch_directory pd_phys s = s\<lparr>cr3 := pd_phys\<rparr>"

definition paging_kernel_directory :: "machine \<Rightarrow> u32" where
  "paging_kernel_directory s = s_kernel_pd_phys s"

text \<open>The processor's page walk: the frame that holds virtual address \<open>v\<close>.\<close>

definition walk_entry :: "machine \<Rightarrow> u32 \<Rightarrow> u32 option" where
  "walk_entry s v =
     (let pde = mem s (paging_current_directory s) (PAGE_DIR_INDEX v)
      in if \<not> present pde then None
         else let pte = mem s (PTE_FRAME pde) (PAGE_TABLE_INDEX v)
              in if present pte then Some pte else None)"

definition walk :: "machine \<Rightarrow> u32 \<Rightarrow> u32 option" where
  "walk s v = map_option PTE_FRAME (walk_entry s v)"

definition live_pd :: "machine \<Rightarrow> u32 option" where
  "live_pd s = walk s RECURSIVE_PD_VADDR"

definition live_pt :: "machine \<Rightarrow> u32 \<Rightarrow> u32 option" where
  "live_pt s i = walk s (RECURSIVE_PT_VADDR i)"

definition poke :: "u32 \<Rightarrow> u32 \<Rightarrow> u32 \<Rightarrow> machine \<Rightarrow> machine" where
  "poke f i w s = s\<lparr>mem := (mem s)(f := (mem s f)(i := w))\<rparr>"

definition zero_frame :: "u32 \<Rightarrow> machine \<Rightarrow> machine" where
  "zero_frame f s = s\<lparr>mem := (mem s)(f := (\<lambda>_. 0))\<rparr>"

definition grab_frame :: "u32 \<Rightarrow> machine \<Rightarrow> machine \<times> u32" where
  "grab_frame zone s = (case pmm_alloc_frame zone (frames s) of (p, pa) \<Rightarrow> (s\<lparr>frames := p\<rparr>, pa))"

definition drop_frame :: "u32 \<Rightarrow> machine \<Rightarrow> machine" where
  "drop_frame pa s = s\<lparr>frames := pmm_free_frame pa (frames s)\<rparr>"

section \<open>Tables\<close>

definition alloc_table_via_directmap :: "machine \<Rightarrow> (machine \<times> u32) option" where
  "alloc_table_via_directmap s =
     (case grab_frame PMM_ZONE_DMA s of (s1, pa) \<Rightarrow>
        if pa = 0 then None else Some (zero_frame pa s1, pa))"

definition alloc_table_frame :: "machine \<Rightarrow> (machine \<times> u32) option" where
  "alloc_table_frame s =
     (case grab_frame PMM_ZONE_PREFER_LOW s of (s1, pa) \<Rightarrow> if pa = 0 then None else Some (s1, pa))"

definition map_boot_block :: "u32 \<Rightarrow> u32 \<Rightarrow> machine \<Rightarrow> machine option" where
  "map_boot_block pd block s = do {
     (s1, pt_phys) \<leftarrow> alloc_table_via_directmap s;
     let s2 = fold (\<lambda>i. poke pt_phys i
        ((block * 0x400000 + i * PAGE_SIZE) OR PTE_PRESENT OR PTE_WRITABLE OR PTE_GLOBAL))
        (words_from 0 1024) s1;
     Some (poke pd (KERNEL_PD_INDEX + block) (pt_phys OR PTE_PRESENT OR PTE_WRITABLE) s2) }"

definition map_boot_direct_window :: "u32 \<Rightarrow> machine \<Rightarrow> machine option" where
  "map_boot_direct_window pd = fold_option (map_boot_block pd) (words_from 0 (BOOT_DIRECT_MAP_MB div 4))"

definition install_recursive_entry :: "u32 \<Rightarrow> u32 \<Rightarrow> machine \<Rightarrow> machine" where
  "install_recursive_entry pd pd_phys = poke pd RECURSIVE_PD_INDEX (pd_phys OR PTE_PRESENT OR PTE_WRITABLE)"

definition ensure_page_table :: "u32 \<Rightarrow> u32 \<Rightarrow> machine \<Rightarrow> machine option" where
  "ensure_page_table pd_index fl s = do {
     pd \<leftarrow> live_pd s;
     let e = mem s pd pd_index;
     if present e
     then Some (if fl AND PTE_USER \<noteq> 0 \<and> e AND PTE_USER = 0 then poke pd pd_index (e OR PTE_USER) s else s)
     else do {
       (s1, pt_phys) \<leftarrow> alloc_table_frame s;
       let s2 = poke pd pd_index (pt_phys OR PTE_PRESENT OR PTE_WRITABLE OR (fl AND PTE_USER)) s1;
       pt \<leftarrow> live_pt s2 pd_index;
       Some (zero_frame pt s2) } }"

definition map_page_locked :: "u32 \<Rightarrow> u32 \<Rightarrow> u32 \<Rightarrow> machine \<Rightarrow> machine option" where
  "map_page_locked virt phys fl s = do {
     s1 \<leftarrow> ensure_page_table (PAGE_DIR_INDEX virt) fl s;
     pt \<leftarrow> live_pt s1 (PAGE_DIR_INDEX virt);
     Some (poke pt (PAGE_TABLE_INDEX virt)
       ((phys AND 0xFFFFF000) OR (fl AND 0xFFF) OR PTE_PRESENT) s1) }"

definition unmap_page_locked :: "u32 \<Rightarrow> machine \<Rightarrow> machine option" where
  "unmap_page_locked virt s = do {
     pd \<leftarrow> live_pd s;
     if \<not> present (mem s pd (PAGE_DIR_INDEX virt)) then Some s
     else do {
       pt \<leftarrow> live_pt s (PAGE_DIR_INDEX virt);
       Some (poke pt (PAGE_TABLE_INDEX virt) 0 s) } }"

definition paging_map_page :: "u32 \<Rightarrow> u32 \<Rightarrow> u32 \<Rightarrow> machine \<Rightarrow> machine option" where
  "paging_map_page virt phys fl s = map_page_locked virt phys fl s"

definition paging_unmap_page :: "u32 \<Rightarrow> machine \<Rightarrow> machine option" where
  "paging_unmap_page virt s = unmap_page_locked virt s"

text \<open>\<^verbatim>\<open>paging_get_physical\<close> returns the physical address and, through its pointer, the flags.\<close>

definition paging_get_physical :: "u32 \<Rightarrow> machine \<Rightarrow> (u32 \<times> u32 option) option" where
  "paging_get_physical virt s = do {
     pd \<leftarrow> live_pd s;
     if \<not> present (mem s pd (PAGE_DIR_INDEX virt)) then Some (0, None)
     else do {
       pt \<leftarrow> live_pt s (PAGE_DIR_INDEX virt);
       let entry = mem s pt (PAGE_TABLE_INDEX virt);
       if \<not> present entry then Some (0, None)
       else Some (PTE_FRAME entry OR (virt AND 0xFFF), Some (entry AND 0xFFF)) } }"

definition release_empty_table :: "u32 \<Rightarrow> machine \<times> u32 \<Rightarrow> (machine \<times> u32) option" where
  "release_empty_table idx = (\<lambda>(s, freed). do {
     pd \<leftarrow> live_pd s;
     let e = mem s pd idx;
     if \<not> present e \<or> e AND PTE_USER = 0 then Some (s, freed)
     else do {
       pt \<leftarrow> live_pt s idx;
       if \<not> list_all (\<lambda>k. mem s pt k = 0) (words_from 0 1024) then Some (s, freed)
       else Some (drop_frame (e AND 0xFFFFF000) (poke pd idx 0 s), freed + PAGE_SIZE) } })"

definition paging_release_empty_user_tables :: "u32 \<Rightarrow> u32 \<Rightarrow> machine \<Rightarrow> (machine \<times> u32) option" where
  "paging_release_empty_user_tables start stop s =
     (if stop \<le> start then Some (s, 0)
      else fold_option release_empty_table
             (words_from (PAGE_DIR_INDEX start) (PAGE_DIR_INDEX (stop - 1) + 1)) (s, 0))"

section \<open>Direct map, initialisation, self-test\<close>

definition direct_map_steps :: "u32 \<Rightarrow> u32 list" where
  "direct_map_steps phys_stop =
     (let mapped_end = BOOT_DIRECT_MAP_MB * 1024 * 1024
      in if phys_stop \<le> mapped_end then []
         else map (\<lambda>i. mapped_end + i * PAGE_SIZE)
                (words_from 0 ((phys_stop - mapped_end + PAGE_SIZE - 1) div PAGE_SIZE)))"

definition paging_ensure_direct_map :: "u32 \<Rightarrow> machine \<Rightarrow> (machine \<times> bool) option" where
  "paging_ensure_direct_map phys_stop s =
     (if phys_stop > DIRECT_MAP_LIMIT then Some (s, False)
      else map_option (\<lambda>s. (s, True))
        (fold_option (\<lambda>phys s. do {
           (old, _) \<leftarrow> paging_get_physical (phys + KERNEL_VMA) s;
           if old \<noteq> 0 then Some s
           else paging_map_page (phys + KERNEL_VMA) phys (PTE_PRESENT OR PTE_WRITABLE OR PTE_GLOBAL) s })
         (direct_map_steps phys_stop) s))"

definition paging_init :: "machine \<Rightarrow> machine option" where
  "paging_init s = (case grab_frame PMM_ZONE_DMA s of (s0, pd) \<Rightarrow>
     if pd = 0 then None
     else do {
       s1 \<leftarrow> map_boot_direct_window pd (zero_frame pd (s0\<lparr>s_kernel_pd_phys := pd\<rparr>));
       let s2 = paging_switch_directory pd (install_recursive_entry pd pd s1);
       s3 \<leftarrow> fold_option (\<lambda>idx. ensure_page_table idx 0)
              (words_from (PAGE_DIR_INDEX 0xD0000000) (PAGE_DIR_INDEX 0xE0000000)) s2;
       s4 \<leftarrow> ensure_page_table (PAGE_DIR_INDEX 0xFF800000) 0 s3;
       let ram_top = pmm_get_ram_top (frames s4);
       let map_top = (if ram_top > DIRECT_MAP_LIMIT then DIRECT_MAP_LIMIT else ram_top);
       (s5, _) \<leftarrow> paging_ensure_direct_map map_top s4;
       Some s5 })"

definition paging_selftest :: "machine \<Rightarrow> (machine \<times> bool) option" where
  "paging_selftest s = (case grab_frame PMM_ZONE_ANY s of (s0, frame) \<Rightarrow>
     if frame = 0 then Some (s0, False)
     else do {
       let test_va = 0xE0000000;
       s1 \<leftarrow> paging_map_page test_va frame PTE_WRITABLE s0;
       page \<leftarrow> walk s1 test_va;
       let s2 = poke page 0 0xD0B00011 s1;
       back \<leftarrow> walk s2 test_va;
       let wrote = (mem s2 back 0 = 0xD0B00011);
       (phys, _) \<leftarrow> paging_get_physical test_va s2;
       s3 \<leftarrow> paging_unmap_page test_va s2;
       (phys', _) \<leftarrow> paging_get_physical test_va s3;
       Some (drop_frame frame s3, wrote \<and> phys = frame \<and> phys' = 0) })"

section \<open>Address spaces\<close>

definition fill_directory :: "u32 \<Rightarrow> u32 \<Rightarrow> u32 \<Rightarrow> machine \<Rightarrow> machine" where
  "fill_directory dst cur new_pd s =
     (let s1 = s\<lparr>mem := (mem s)(dst := (\<lambda>i. if i < KERNEL_PD_INDEX then 0 else mem s dst i))\<rparr>;
          s2 = fold (\<lambda>i s. poke dst i (mem s cur i) s) (words_from KERNEL_PD_INDEX RECURSIVE_PD_INDEX) s1
      in poke dst RECURSIVE_PD_INDEX (new_pd OR PTE_PRESENT OR PTE_WRITABLE) s2)"

definition paging_create_directory :: "machine \<Rightarrow> (machine \<times> u32) option" where
  "paging_create_directory s = (case grab_frame PMM_ZONE_ANY s of (s0, new_pd) \<Rightarrow>
     if new_pd = 0 then Some (s0, 0)
     else do {
       s1 \<leftarrow> paging_map_page PD_TEMP_A new_pd PTE_WRITABLE s0;
       dst \<leftarrow> walk s1 PD_TEMP_A;
       cur \<leftarrow> live_pd s1;
       s2 \<leftarrow> paging_unmap_page PD_TEMP_A (fill_directory dst cur new_pd s1);
       Some (s2, new_pd) })"

definition destroy_entry :: "u32 \<Rightarrow> machine \<Rightarrow> machine option" where
  "destroy_entry i s = do {
     pd \<leftarrow> walk s PD_TEMP_A;
     let e = mem s pd i;
     if \<not> present e then Some s
     else do {
       s1 \<leftarrow> paging_map_page PD_TEMP_B (PTE_FRAME e) PTE_WRITABLE s;
       pt \<leftarrow> walk s1 PD_TEMP_B;
       let s2 = fold (\<lambda>j s. if present (mem s pt j) then drop_frame (PTE_FRAME (mem s pt j)) s else s)
                  (words_from 0 1024) s1;
       Some (drop_frame (PTE_FRAME e) s2) } }"

definition paging_destroy_directory :: "u32 \<Rightarrow> machine \<Rightarrow> machine option" where
  "paging_destroy_directory pd_phys s = do {
     s1 \<leftarrow> paging_map_page PD_TEMP_A pd_phys PTE_WRITABLE s;
     s2 \<leftarrow> fold_option destroy_entry (words_from 0 KERNEL_PD_INDEX) s1;
     s3 \<leftarrow> paging_unmap_page PD_TEMP_A s2;
     s4 \<leftarrow> paging_unmap_page PD_TEMP_B s3;
     Some (drop_frame pd_phys s4) }"

text \<open>Operations on a directory that may not be the active one: CR3 is switched around them.\<close>

definition paging_unmap_in :: "u32 \<Rightarrow> u32 \<Rightarrow> machine \<Rightarrow> machine option" where
  "paging_unmap_in pd_phys virt s =
     (let old = paging_current_directory s
      in if pd_phys \<noteq> old
         then map_option (\<lambda>s. s\<lparr>cr3 := old\<rparr>) (unmap_page_locked virt (s\<lparr>cr3 := pd_phys\<rparr>))
         else unmap_page_locked virt s)"

definition paging_get_physical_in :: "u32 \<Rightarrow> u32 \<Rightarrow> machine \<Rightarrow> u32 option" where
  "paging_get_physical_in pd_phys virt s =
     (let old = paging_current_directory s
      in map_option fst (paging_get_physical virt
           (if pd_phys \<noteq> old then s\<lparr>cr3 := pd_phys\<rparr> else s)))"

definition paging_map_in :: "u32 \<Rightarrow> u32 \<Rightarrow> u32 \<Rightarrow> u32 \<Rightarrow> machine \<Rightarrow> machine option" where
  "paging_map_in pd_phys virt phys fl s =
     (let old = paging_current_directory s
      in if pd_phys \<noteq> old
         then map_option (\<lambda>s. s\<lparr>cr3 := old\<rparr>) (map_page_locked virt phys fl (s\<lparr>cr3 := pd_phys\<rparr>))
         else map_page_locked virt phys fl s)"

section \<open>Index and entry arithmetic\<close>

lemma unat_page_dir_index: "unat (PAGE_DIR_INDEX v) = unat v div 4194304"
  by (simp add: PAGE_DIR_INDEX_def unat_drop_bit_eq drop_bit_eq_div unat_div)

lemma unat_page_table_index: "unat (PAGE_TABLE_INDEX v) = unat v div 4096 mod 1024"
proof -
  have "PAGE_TABLE_INDEX v = take_bit 10 (drop_bit 12 v)"
    by (simp add: PAGE_TABLE_INDEX_def take_bit_eq_mask mask_eq_exp_minus_1)
  then show ?thesis by (simp add: drop_bit_eq_div take_bit_eq_mod unat_div unat_mod)
qed

lemma page_dir_index_less: "PAGE_DIR_INDEX v < 1024"
  using unat_lt_u32 [of v]
  by (simp add: word_less_nat_alt unat_page_dir_index less_mult_imp_div_less del: unat_lt_u32)

lemma page_table_index_less: "PAGE_TABLE_INDEX v < 1024"
  by (simp add: word_less_nat_alt unat_page_table_index)

text \<open>Two addresses are in the same page iff both indices agree.\<close>

lemma same_page:
  "ADDR_TO_FRAME v = ADDR_TO_FRAME w \<longleftrightarrow>
   PAGE_DIR_INDEX v = PAGE_DIR_INDEX w \<and> PAGE_TABLE_INDEX v = PAGE_TABLE_INDEX w"
proof -
  have "unat v div 4194304 = unat v div 4096 div 1024" for v :: u32 by (simp add: div_mult2_eq [symmetric])
  then show ?thesis
    unfolding unat_eq_iff_u32 unat_addr_to_frame unat_page_dir_index unat_page_table_index
    by (metis div_mult_mod_eq)
qed

lemma recursive_pd_indices:
  "PAGE_DIR_INDEX RECURSIVE_PD_VADDR = 1023" "PAGE_TABLE_INDEX RECURSIVE_PD_VADDR = 1023"
  by (simp_all add: RECURSIVE_PD_VADDR_def unat_eq_iff_u32 unat_page_dir_index unat_page_table_index)

lemma recursive_pt_indices:
  assumes "i < 1024"
  shows "PAGE_DIR_INDEX (RECURSIVE_PT_VADDR i) = 1023" "PAGE_TABLE_INDEX (RECURSIVE_PT_VADDR i) = i"
proof -
  have i: "unat i < 1024" using assms by (simp add: word_less_nat_alt)
  then have "unat (push_bit 12 i) = unat i * 4096"
    by (simp add: push_bit_eq_mult unat_word_ariths)
  then have "unat (RECURSIVE_PT_VADDR i) = 4290772992 + unat i * 4096"
    using i by (simp add: RECURSIVE_PT_VADDR_def unat_add_u32)
  moreover have "(1047552 + unat i) mod 1024 = unat i"
    using i mod_mult_self1 [of "unat i" 1023 1024] by (simp add: add.commute)
  ultimately show "PAGE_DIR_INDEX (RECURSIVE_PT_VADDR i) = 1023" "PAGE_TABLE_INDEX (RECURSIVE_PT_VADDR i) = i"
    using i by (simp_all add: unat_eq_iff_u32 unat_page_dir_index unat_page_table_index)
qed

lemma bit_frame_mask: "bit (0xFFFFF000 :: u32) n \<longleftrightarrow> 12 \<le> n \<and> n < 32"
proof -
  have "(0xFFFFF000 :: u32) = push_bit 12 (mask 20)" by (simp add: mask_eq_exp_minus_1)
  then show ?thesis by (simp only: bit_push_bit_iff bit_mask_iff) auto
qed

lemma bit_PTE_FRAME: "bit (PTE_FRAME e) n \<longleftrightarrow> 12 \<le> n \<and> bit e n"
  unfolding PTE_FRAME_def bit_and_iff bit_frame_mask using bit_u32_less [of e n] by auto

lemma PTE_FRAME_idem [simp]: "PTE_FRAME (PTE_FRAME e) = PTE_FRAME e"
  by (rule bit_word_eqI) (auto simp: bit_PTE_FRAME)

lemma PTE_FRAME_or: "PTE_FRAME (a OR b) = PTE_FRAME a OR PTE_FRAME b"
  by (rule bit_word_eqI) (auto simp: bit_PTE_FRAME bit_or_iff)

lemma PTE_FRAME_flag [simp]:
  "PTE_FRAME PTE_PRESENT = 0" "PTE_FRAME PTE_WRITABLE = 0" "PTE_FRAME PTE_USER = 0"
  by (simp_all add: PTE_FRAME_def PTE_PRESENT_def PTE_WRITABLE_def PTE_USER_def)

lemma PTE_FRAME_and_user [simp]: "PTE_FRAME (fl AND PTE_USER) = 0"
proof -
  have u: "PTE_USER = push_bit 2 1" by (simp add: PTE_USER_def)
  have "bit PTE_USER n \<longleftrightarrow> n = 2" for n by (simp only: u bit_push_bit_iff) (auto simp: bit_1_iff)
  then show ?thesis by (intro bit_word_eqI) (auto simp: bit_PTE_FRAME bit_and_iff)
qed

lemma present_bit: "present e \<longleftrightarrow> bit e 0"
  by (simp add: present_def PTE_PRESENT_def and_one_eq bit_0 odd_iff_mod_2_eq_one)

lemma present_or [simp]: "present (a OR b) \<longleftrightarrow> present a \<or> present b"
  by (simp add: present_bit bit_or_iff)

lemma present_flag [simp]: "present PTE_PRESENT" "\<not> present 0"
  by (simp_all add: present_bit PTE_PRESENT_def)

lemma PTE_FRAME_aligned: "pa AND (PAGE_SIZE - 1) = 0 \<Longrightarrow> PTE_FRAME pa = pa"
proof -
  assume a: "pa AND (PAGE_SIZE - 1) = 0"
  have "\<not> bit pa n" if "n < 12" for n
  proof -
    have "\<not> bit (pa AND (PAGE_SIZE - 1)) n" by (simp only: a) simp
    then show ?thesis using that by (simp add: bit_and_iff bit_PAGE_SIZE_mask)
  qed
  then show "PTE_FRAME pa = pa" by (intro bit_word_eqI) (metis bit_PTE_FRAME not_le)
qed

lemma PTE_FRAME_shift: "PTE_FRAME e = FRAME_TO_ADDR (ADDR_TO_FRAME e)"
  by (rule bit_word_eqI) (auto simp: bit_PTE_FRAME FRAME_TO_ADDR_def ADDR_TO_FRAME_def bit_push_bit_iff bit_drop_bit_eq)

section \<open>Address spaces and their invariant\<close>

text \<open>
  \<open>xlate s pd v\<close> is the entry the processor finds for \<open>v\<close> when directory \<open>pd\<close> is loaded;
  \<open>tables s pd\<close> are the frames of the directory and of its page tables.
\<close>

definition xlate :: "machine \<Rightarrow> u32 \<Rightarrow> u32 \<Rightarrow> u32 option" where
  "xlate s pd v = walk_entry (s\<lparr>cr3 := pd\<rparr>) v"

definition tables :: "machine \<Rightarrow> u32 \<Rightarrow> u32 set" where
  "tables s pd = insert pd {PTE_FRAME (mem s pd i) | i. i < 1023 \<and> present (mem s pd i)}"

definition pd_ok :: "machine \<Rightarrow> u32 \<Rightarrow> bool" where
  "pd_ok s pd \<longleftrightarrow> PTE_FRAME pd = pd \<and> present (mem s pd 1023) \<and> PTE_FRAME (mem s pd 1023) = pd \<and>
     (\<forall>i < 1023. present (mem s pd i) \<longrightarrow> PTE_FRAME (mem s pd i) \<noteq> pd) \<and>
     (\<forall>i < 1023. \<forall>j < 1023. present (mem s pd i) \<longrightarrow> present (mem s pd j) \<longrightarrow> i \<noteq> j \<longrightarrow>
        PTE_FRAME (mem s pd i) \<noteq> PTE_FRAME (mem s pd j))"

definition unfree :: "machine \<Rightarrow> u32 \<Rightarrow> bool" where
  "unfree s pd \<longleftrightarrow> (\<forall>t \<in> tables s pd. ADDR_TO_FRAME t \<notin> free_set (frames s))"

definition apart :: "machine \<Rightarrow> u32 \<Rightarrow> u32 \<Rightarrow> bool" where
  "apart s pd pd' \<longleftrightarrow> pd \<notin> tables s pd' \<and>
     (\<forall>i < KERNEL_PD_INDEX. present (mem s pd i) \<longrightarrow> PTE_FRAME (mem s pd i) \<notin> tables s pd')"

text \<open>
  A set \<open>D\<close> of address spaces is in order when each directory has its recursive entry and its
  own distinct tables, no table frame is free, and no space holds the directory or a user table
  of another (kernel tables are shared on purpose).
\<close>

definition spaces_inv :: "u32 set \<Rightarrow> machine \<Rightarrow> bool" where
  "spaces_inv D s \<longleftrightarrow> pmm_inv (frames s) \<and> (\<forall>pd \<in> D. pd_ok s pd \<and> unfree s pd) \<and>
     (\<forall>pd \<in> D. \<forall>pd' \<in> D. pd \<noteq> pd' \<longrightarrow> apart s pd pd')"

lemma xlate_alt:
  "PTE_FRAME pd = pd \<Longrightarrow> xlate s pd v =
     (if present (mem s pd (PAGE_DIR_INDEX v))
      then let pte = mem s (PTE_FRAME (mem s pd (PAGE_DIR_INDEX v))) (PAGE_TABLE_INDEX v)
           in if present pte then Some pte else None
      else None)"
  by (simp add: xlate_def walk_entry_def paging_current_directory_def PTE_FRAME_def Let_def)

lemma walk_xlate: "cr3 s = pd \<Longrightarrow> walk s v = map_option PTE_FRAME (xlate s pd v)"
  by (simp add: walk_def xlate_def) (metis machine.surjective machine.update_convs(2))

lemma live_pd_ok:
  assumes "pd_ok s pd" and "cr3 s = pd"
  shows "live_pd s = Some pd"
  using assms
  by (simp add: live_pd_def walk_xlate xlate_alt pd_ok_def recursive_pd_indices Let_def)

lemma live_pt_ok:
  assumes "pd_ok s pd" and "cr3 s = pd" and "i < 1024"
  shows "live_pt s i = (if present (mem s pd i) then Some (PTE_FRAME (mem s pd i)) else None)"
  using assms(1,2)
  by (simp add: live_pt_def walk_xlate xlate_alt pd_ok_def recursive_pt_indices [OF assms(3)] Let_def)

lemma tables_mem: "i < 1023 \<Longrightarrow> present (mem s pd i) \<Longrightarrow> PTE_FRAME (mem s pd i) \<in> tables s pd"
  by (auto simp: tables_def)

lemma tables_self [simp]: "pd \<in> tables s pd"
  by (simp add: tables_def)

text \<open>The invariant reads only the directories and the frame allocator.\<close>

lemma tables_cong: "mem s' pd = mem s pd \<Longrightarrow> tables s' pd = tables s pd"
  by (simp add: tables_def)

lemma spaces_inv_cong:
  assumes "spaces_inv D s" and "\<And>pd. pd \<in> D \<Longrightarrow> mem s' pd = mem s pd" and "frames s' = frames s"
  shows "spaces_inv D s'"
proof -
  have "pd_ok s' pd" "unfree s' pd" if "pd \<in> D" for pd
  proof -
    have ok: "pd_ok s pd" "unfree s pd" using assms(1) that by (simp_all add: spaces_inv_def)
    have m: "mem s' pd = mem s pd" by (rule assms(2) [OF that])
    show "pd_ok s' pd" using ok(1) unfolding pd_ok_def m .
    show "unfree s' pd" using ok(2) unfolding unfree_def tables_cong [OF m] assms(3) .
  qed
  moreover have "apart s' pd pd'" if "pd \<in> D" "pd' \<in> D" "pd \<noteq> pd'" for pd pd'
  proof -
    have "apart s pd pd'" using assms(1) that by (simp add: spaces_inv_def)
    then show ?thesis unfolding apart_def tables_cong [OF assms(2) [OF that(2)]] assms(2) [OF that(1)] .
  qed
  moreover have "pmm_inv (frames s')" using assms(1,3) by (simp add: spaces_inv_def)
  ultimately show ?thesis unfolding spaces_inv_def by blast
qed

lemma xlate_cong:
  assumes "PTE_FRAME pd = pd" and "mem s' pd = mem s pd"
    and "PAGE_DIR_INDEX v < 1023" and "\<And>t. t \<in> tables s pd \<Longrightarrow> t \<noteq> pd \<Longrightarrow> mem s' t = mem s t"
  shows "xlate s' pd v = xlate s pd v"
proof (cases "present (mem s pd (PAGE_DIR_INDEX v))")
  case True
  then have "mem s' (PTE_FRAME (mem s pd (PAGE_DIR_INDEX v))) = mem s (PTE_FRAME (mem s pd (PAGE_DIR_INDEX v)))"
    using assms(2,4) tables_mem [OF assms(3) True] by metis
  with assms(1,2) show ?thesis by (simp add: xlate_alt)
qed (simp add: xlate_alt assms(1,2))

lemma poke_mem [simp]:
  "mem (poke f i w s) = (mem s)(f := (mem s f)(i := w))" "cr3 (poke f i w s) = cr3 s"
  "frames (poke f i w s) = frames s" "s_kernel_pd_phys (poke f i w s) = s_kernel_pd_phys s"
  by (simp_all add: poke_def)

lemma zero_frame_mem [simp]:
  "mem (zero_frame f s) = (mem s)(f := (\<lambda>_. 0))" "cr3 (zero_frame f s) = cr3 s"
  "frames (zero_frame f s) = frames s" "s_kernel_pd_phys (zero_frame f s) = s_kernel_pd_phys s"
  by (simp_all add: zero_frame_def)

section \<open>Mapping and unmapping\<close>

text \<open>What one directory entry change leaves alone.\<close>

definition same_maps :: "u32 set \<Rightarrow> machine \<Rightarrow> machine \<Rightarrow> bool" where
  "same_maps D s s' \<longleftrightarrow> (\<forall>pd \<in> D. \<forall>v. PAGE_DIR_INDEX v < 1023 \<longrightarrow> xlate s' pd v = xlate s pd v)"

lemma set_user_bit:
  assumes inv: "spaces_inv D s" and pd: "pd \<in> D" and i: "i < 1023" "present (mem s pd i)"
  defines "s' \<equiv> poke pd i (mem s pd i OR PTE_USER) s"
  shows "spaces_inv D s'" and "same_maps D s s'"
proof -
  have e: "present (mem s' p j) = present (mem s p j)" "PTE_FRAME (mem s' p j) = PTE_FRAME (mem s p j)" for p j
    using i(2) by (auto simp: s'_def PTE_FRAME_or)
  then have t: "tables s' p = tables s p" for p by (simp add: tables_def)
  show "spaces_inv D s'"
    using inv unfolding spaces_inv_def pd_ok_def unfree_def apart_def by (simp add: e t) (simp add: s'_def)
  show "same_maps D s s'" unfolding same_maps_def
  proof (intro ballI allI impI)
    fix p v assume p: "p \<in> D" and v: "PAGE_DIR_INDEX v < 1023"
    have ok: "PTE_FRAME p = p" "pd_ok s p" using inv p by (simp_all add: spaces_inv_def pd_ok_def)
    show "xlate s' p v = xlate s p v"
    proof (cases "present (mem s p (PAGE_DIR_INDEX v))")
      case True
      have "PTE_FRAME (mem s p (PAGE_DIR_INDEX v)) \<noteq> pd"
      proof (cases "p = pd")
        case True
        then show ?thesis using ok v \<open>present (mem s p (PAGE_DIR_INDEX v))\<close> by (simp add: pd_ok_def)
      next
        case False
        then have "apart s pd p" using inv p pd by (simp add: spaces_inv_def)
        then show ?thesis using tables_mem [OF v True] by (auto simp: apart_def)
      qed
      then have "mem s' (PTE_FRAME (mem s p (PAGE_DIR_INDEX v))) = mem s (PTE_FRAME (mem s p (PAGE_DIR_INDEX v)))"
        by (simp add: s'_def)
      then show ?thesis by (simp add: xlate_alt ok(1) e)
    qed (simp add: xlate_alt ok(1) e)
  qed
qed

lemma grab_frame_fresh:
  assumes inv: "spaces_inv D s" and free: "free_set (frames s) \<noteq> {}" and zone: "zone AND PMM_ZONE_DMA = 0"
  obtains s1 pa where "grab_frame zone s = (s1, pa)" "pa \<noteq> 0" "PTE_FRAME pa = pa"
    "s1 = s\<lparr>frames := frames s1\<rparr>" "spaces_inv D s1" "ADDR_TO_FRAME pa \<in> free_set (frames s)"
    "free_set (frames s1) = free_set (frames s) - {ADDR_TO_FRAME pa}"
    "\<And>pd. pd \<in> D \<Longrightarrow> pa \<notin> tables s pd"
proof -
  have pinv: "pmm_inv (frames s)" using inv by (simp add: spaces_inv_def)
  from pinv show thesis
  proof (cases rule: pmm_alloc_frame_cases [where z = zone])
    case none
    then show thesis using free zone by (simp add: zone_set_def)
  next
    case (found f p)
    let ?s1 = "s\<lparr>frames := p\<rparr>"
    have f: "ADDR_TO_FRAME (FRAME_TO_ADDR f) = f" "f \<in> free_set (frames s)" "pmm_inv p"
      "free_set p = free_set (frames s) - {f}"
      using found(4) frame_addr_nonzero(2) [OF pinv] by (auto simp: took_def)
    have "spaces_inv D ?s1"
      using inv f(3,4) unfolding spaces_inv_def pd_ok_def unfree_def apart_def tables_def by auto
    moreover have "FRAME_TO_ADDR f \<notin> tables s pd" if "pd \<in> D" for pd
      using inv that f(1,2) unfolding spaces_inv_def unfree_def by metis
    ultimately show thesis
      using found(1,2) f PTE_FRAME_aligned [OF frame_to_addr_aligned]
      by (intro that [of ?s1 "FRAME_TO_ADDR f"]) (simp_all add: grab_frame_def)
  qed
qed

lemma install_table:
  assumes inv: "spaces_inv D s" and pd: "pd \<in> D" and i: "i < 1023" "\<not> present (mem s pd i)"
    and pa: "PTE_FRAME pa = pa" "ADDR_TO_FRAME pa \<notin> free_set (frames s)" "\<And>p. p \<in> D \<Longrightarrow> pa \<notin> tables s p"
    and e: "PTE_FRAME e = pa" "present e"
  defines "s' \<equiv> zero_frame pa (poke pd i e s)"
  shows "spaces_inv D s'" and "same_maps D s s'" and "mem s' pd i = e" and "tables s' pd = insert pa (tables s pd)"
proof -
  have npd: "pa \<noteq> p" if "p \<in> D" for p using pa(3) [OF that] by auto
  have m: "mem s' p = (if p = pd then (mem s pd)(i := e) else mem s p)" if "p \<in> D" for p
    using npd [OF that] by (auto simp: s'_def)
  show ei: "mem s' pd i = e" using m [OF pd] by simp
  have tpd: "tables s' pd = insert pa (tables s pd)"
    using i e by (auto simp: tables_def m [OF pd])
  then show "tables s' pd = insert pa (tables s pd)" .
  have tp: "tables s' p = tables s p" if "p \<in> D" "p \<noteq> pd" for p
    using m that by (intro tables_cong) simp
  have ok: "pd_ok s p" "unfree s p" if "p \<in> D" for p using inv that by (simp_all add: spaces_inv_def)
  have ap: "apart s p q" if "p \<in> D" "q \<in> D" "p \<noteq> q" for p q using inv that by (simp add: spaces_inv_def)
  have new: "PTE_FRAME (mem s pd j) \<noteq> pa" if "j < 1023" "present (mem s pd j)" for j
    using pa(3) [OF pd] tables_mem [OF that] by auto
  have "pd_ok s' p" if "p \<in> D" for p
  proof (cases "p = pd")
    case True
    then show ?thesis
      using ok(1) [OF pd] i new e npd [OF pd] unfolding pd_ok_def m [OF that] by auto blast
  next
    case False
    then show ?thesis using ok(1) [OF that] m [OF that] unfolding pd_ok_def by simp
  qed
  moreover have fr: "frames s' = frames s" by (simp add: s'_def)
  have "unfree s' p" if "p \<in> D" for p
    using ok(2) [OF that] pa(2) tpd tp [OF that] fr unfolding unfree_def by (cases "p = pd") auto
  moreover have "apart s' p q" if pq: "p \<in> D" "q \<in> D" "p \<noteq> q" for p q
  proof -
    have "p \<noteq> pa" "\<And>j. j < KERNEL_PD_INDEX \<Longrightarrow> present (mem s p j) \<Longrightarrow> PTE_FRAME (mem s p j) \<noteq> pa"
      using npd [OF pq(1)] pa(3) [OF pq(1)] tables_mem [of _ s p]
      by (auto simp: KERNEL_PD_INDEX_def word_less_nat_alt)
    then show ?thesis
      using ap [OF pq] ap [OF pq(2,1) pq(3) [symmetric]] pq m [OF pq(1)] tpd tp [OF pq(2)] pa(3) [OF pq(2)] e
      unfolding apart_def by (cases "q = pd"; cases "p = pd") auto
  qed
  ultimately show "spaces_inv D s'"
    using inv fr unfolding spaces_inv_def by auto
  show "same_maps D s s'" unfolding same_maps_def
  proof (intro ballI allI impI)
    fix p v assume p: "p \<in> D" and v: "PAGE_DIR_INDEX v < 1023"
    have al: "PTE_FRAME p = p" using ok(1) [OF p] by (simp add: pd_ok_def)
    have keep: "mem s' t = mem s t" if "t \<in> tables s p" "t \<noteq> pd" for t
      using that pa(3) [OF p] by (auto simp: s'_def)
    show "xlate s' p v = xlate s p v"
    proof (cases "p = pd")
      case False
      then have "pd \<notin> tables s p" using ap [OF pd p] by (auto simp: apart_def)
      then show ?thesis using keep m [OF p] False by (intro xlate_cong [OF al _ v]) auto
    next
      case pdp: True
      show ?thesis
      proof (cases "PAGE_DIR_INDEX v = i")
        case True
        have "mem s' pa = (\<lambda>_. 0)" by (simp add: s'_def)
        then show ?thesis using True i(2) e ei unfolding xlate_alt [OF al] by (simp add: pdp Let_def)
      next
        case False
        then have "mem s' p (PAGE_DIR_INDEX v) = mem s p (PAGE_DIR_INDEX v)" using m [OF p] pdp by simp
        moreover have "PTE_FRAME (mem s p (PAGE_DIR_INDEX v)) \<noteq> pd" if "present (mem s p (PAGE_DIR_INDEX v))"
          using ok(1) [OF p] pdp v that by (simp add: pd_ok_def)
        ultimately show ?thesis
          using keep tables_mem [OF v] by (simp add: xlate_alt [OF al] Let_def)
      qed
    qed
  qed
qed

text \<open>The tables that only one of the spaces in \<open>D\<close> may hold: its user tables, or all of them
  when \<open>D\<close> has no other space.\<close>

definition own_table :: "u32 set \<Rightarrow> u32 \<Rightarrow> u32 \<Rightarrow> bool" where
  "own_table D pd i \<longleftrightarrow> i < KERNEL_PD_INDEX \<or> (i < 1023 \<and> D = {pd})"

lemma own_table_less: "own_table D pd i \<Longrightarrow> i < 1023"
  by (auto simp: own_table_def KERNEL_PD_INDEX_def word_less_nat_alt)

lemma same_maps_trans: "same_maps D s t \<Longrightarrow> same_maps D t u \<Longrightarrow> same_maps D s u"
  by (simp add: same_maps_def)

lemma spaces_inv_frames_taken:
  assumes "spaces_inv D s" and "s1 = s\<lparr>frames := frames s1\<rparr>"
  shows "mem s1 = mem s" "cr3 s1 = cr3 s" "tables s1 = tables s" "same_maps D s s1"
proof -
  show m: "mem s1 = mem s" "cr3 s1 = cr3 s" using assms(2) by (metis machine.select_convs(1)
      machine.surjective machine.update_convs(3), metis machine.select_convs(2)
      machine.surjective machine.update_convs(3))
  show "tables s1 = tables s" by (simp add: tables_def fun_eq_iff m)
  show "same_maps D s s1"
    using m by (simp add: same_maps_def xlate_def walk_entry_def paging_current_directory_def Let_def)
qed

lemma ensure_page_table_ok:
  assumes inv: "spaces_inv D s" and pd: "pd \<in> D" "cr3 s = pd" and i: "i < 1023"
    and room: "present (mem s pd i) \<or> free_set (frames s) \<noteq> {}"
  obtains s' where "ensure_page_table i fl s = Some s'" "spaces_inv D s'" "cr3 s' = pd"
    "present (mem s' pd i)" "same_maps D s s'"
proof -
  have ok: "pd_ok s pd" using inv pd by (simp add: spaces_inv_def)
  have al: "PTE_FRAME pd = pd" using ok by (simp add: pd_ok_def)
  note live = live_pd_ok [OF ok pd(2)]
  show thesis
  proof (cases "present (mem s pd i)")
    case True
    let ?s = "poke pd i (mem s pd i OR PTE_USER) s"
    show thesis
    proof (cases "fl AND PTE_USER \<noteq> 0 \<and> mem s pd i AND PTE_USER = 0")
      case user: True
      show thesis
        using set_user_bit [OF inv pd(1) i True] live True user pd(2)
        by (intro that [of ?s]) (simp_all add: ensure_page_table_def Let_def)
    next
      case False
      then show thesis using inv live True pd(2)
        by (intro that [of s]) (auto simp: ensure_page_table_def same_maps_def)
    qed
  next
    case False
    have z: "PMM_ZONE_PREFER_LOW AND PMM_ZONE_DMA = 0" by (simp add: PMM_ZONE_PREFER_LOW_def PMM_ZONE_DMA_def)
    from inv room False z obtain s1 pa where g: "grab_frame PMM_ZONE_PREFER_LOW s = (s1, pa)" "pa \<noteq> 0"
      "PTE_FRAME pa = pa" "s1 = s\<lparr>frames := frames s1\<rparr>" "spaces_inv D s1"
      "free_set (frames s1) = free_set (frames s) - {ADDR_TO_FRAME pa}" "\<And>p. p \<in> D \<Longrightarrow> pa \<notin> tables s p"
      by (auto elim: grab_frame_fresh)
    note s1 = spaces_inv_frames_taken [OF inv g(4)]
    let ?e = "pa OR PTE_PRESENT OR PTE_WRITABLE OR (fl AND PTE_USER)"
    let ?s2 = "poke pd i ?e s1"
    have e: "PTE_FRAME ?e = pa" "present ?e" using g(3) by (simp_all add: PTE_FRAME_or)
    have np: "\<not> present (mem s1 pd i)" using False s1(1) by simp
    note inst = install_table [OF g(5) pd(1) i np g(3) _ _ e, unfolded s1(3)]
    have inst': "spaces_inv D (zero_frame pa ?s2)" "same_maps D s1 (zero_frame pa ?s2)"
      "mem (zero_frame pa ?s2) pd i = ?e"
      using inst g(6,7) by auto
    have npd: "pa \<noteq> pd" using g(7) [OF pd(1)] by auto
    have "live_pt ?s2 i = Some pa"
    proof -
      have rec: "PAGE_DIR_INDEX (RECURSIVE_PT_VADDR i) = 1023" "PAGE_TABLE_INDEX (RECURSIVE_PT_VADDR i) = i"
        using recursive_pt_indices [of i] i by (auto simp: word_less_nat_alt)
      have "cr3 ?s2 = pd" "mem ?s2 pd i = ?e" "mem ?s2 pd 1023 = mem s pd 1023"
        using i s1 pd(2) by auto
      then show ?thesis
        using ok e al unfolding live_pt_def walk_xlate [of ?s2 pd, OF \<open>cr3 ?s2 = pd\<close>]
        by (simp add: xlate_alt rec pd_ok_def Let_def)
    qed
    then have "ensure_page_table i fl s = Some (zero_frame pa ?s2)"
      using live False g(1,2) by (simp add: ensure_page_table_def alloc_table_frame_def Let_def)
    then show thesis
      using inst' e(2) same_maps_trans [OF s1(4) inst'(2)] s1(2) pd(2)
      by (intro that [of "zero_frame pa ?s2"]) auto
  qed
qed

text \<open>\<open>sets_entry D s pd v r s'\<close>: the step to \<open>s'\<close> makes \<open>r\<close> the entry of \<open>v\<close>'s page in \<open>pd\<close> and
  changes no other translation of any space in \<open>D\<close>.\<close>

definition sets_entry :: "u32 set \<Rightarrow> machine \<Rightarrow> u32 \<Rightarrow> u32 \<Rightarrow> u32 option \<Rightarrow> machine \<Rightarrow> bool" where
  "sets_entry D s pd v r s' \<longleftrightarrow> xlate s' pd v = r \<and>
     (\<forall>p \<in> D. \<forall>w. PAGE_DIR_INDEX w < 1023 \<longrightarrow> p \<noteq> pd \<or> ADDR_TO_FRAME w \<noteq> ADDR_TO_FRAME v \<longrightarrow>
        xlate s' p w = xlate s p w)"

lemma sets_entry_after: "same_maps D s t \<Longrightarrow> sets_entry D t pd v r u \<Longrightarrow> sets_entry D s pd v r u"
  by (simp add: sets_entry_def same_maps_def)

lemma poke_entry:
  assumes inv: "spaces_inv D s" and pd: "pd \<in> D" and v: "own_table D pd (PAGE_DIR_INDEX v)"
    and p: "present (mem s pd (PAGE_DIR_INDEX v))"
  defines "t \<equiv> PTE_FRAME (mem s pd (PAGE_DIR_INDEX v))"
  shows "spaces_inv D (poke t (PAGE_TABLE_INDEX v) e s)"
    and "sets_entry D s pd v (if present e then Some e else None) (poke t (PAGE_TABLE_INDEX v) e s)"
proof -
  let ?s = "poke t (PAGE_TABLE_INDEX v) e s"
  have i: "PAGE_DIR_INDEX v < 1023" by (rule own_table_less [OF v])
  have tin: "t \<in> tables s pd" unfolding t_def by (rule tables_mem [OF i p])
  have ok: "pd_ok s q" if "q \<in> D" for q using inv that by (simp add: spaces_inv_def)
  have other: "t \<notin> tables s q" if "q \<in> D" "q \<noteq> pd" for q
    using inv pd v p that unfolding t_def by (auto simp: own_table_def spaces_inv_def apart_def)
  have notpd: "t \<noteq> q" if "q \<in> D" for q
  proof (cases "q = pd")
    case True
    then show ?thesis using ok [OF pd] i p unfolding t_def by (simp add: pd_ok_def)
  next
    case False
    then show ?thesis using other [OF that] by auto
  qed
  show "spaces_inv D ?s" using notpd by (intro spaces_inv_cong [OF inv]) auto
  have al: "PTE_FRAME pd = pd" using ok [OF pd] by (simp add: pd_ok_def)
  have m: "mem ?s pd = mem s pd" using notpd [OF pd] by auto
  have "xlate ?s pd v = (if present e then Some e else None)"
    using p unfolding xlate_alt [OF al] m by (simp add: t_def Let_def)
  moreover have "xlate ?s q w = xlate s q w"
    if q: "q \<in> D" and w: "PAGE_DIR_INDEX w < 1023" and diff: "q \<noteq> pd \<or> ADDR_TO_FRAME w \<noteq> ADDR_TO_FRAME v" for q w
  proof -
    have alq: "PTE_FRAME q = q" and mq: "mem ?s q = mem s q" using ok [OF q] notpd [OF q] by (auto simp: pd_ok_def)
    let ?tw = "PTE_FRAME (mem s q (PAGE_DIR_INDEX w))"
    have "mem ?s ?tw (PAGE_TABLE_INDEX w) = mem s ?tw (PAGE_TABLE_INDEX w)"
      if pw: "present (mem s q (PAGE_DIR_INDEX w))"
    proof (cases "?tw = t")
      case True
      then have "q = pd" using other [OF q] tables_mem [OF w pw] by auto
      with True have "PAGE_DIR_INDEX w = PAGE_DIR_INDEX v"
        using ok [OF pd] i p w pw unfolding t_def pd_ok_def by auto
      then have "PAGE_TABLE_INDEX w \<noteq> PAGE_TABLE_INDEX v" using diff \<open>q = pd\<close> same_page by auto
      then show ?thesis by simp
    qed simp
    then show ?thesis unfolding xlate_alt [OF alq] mq by (simp add: Let_def)
  qed
  ultimately show "sets_entry D s pd v (if present e then Some e else None) ?s"
    by (simp add: sets_entry_def)
qed

lemma map_page_locked_ok:
  assumes inv: "spaces_inv D s" and pd: "pd \<in> D" "cr3 s = pd" and v: "own_table D pd (PAGE_DIR_INDEX v)"
    and room: "present (mem s pd (PAGE_DIR_INDEX v)) \<or> free_set (frames s) \<noteq> {}"
  obtains s' where "map_page_locked v phys fl s = Some s'" "spaces_inv D s'" "cr3 s' = pd"
    "sets_entry D s pd v (Some ((phys AND 0xFFFFF000) OR (fl AND 0xFFF) OR PTE_PRESENT)) s'"
proof -
  let ?e = "(phys AND 0xFFFFF000) OR (fl AND 0xFFF) OR PTE_PRESENT"
  have i: "PAGE_DIR_INDEX v < 1023" by (rule own_table_less [OF v])
  obtain s1 where s1: "ensure_page_table (PAGE_DIR_INDEX v) fl s = Some s1" "spaces_inv D s1" "cr3 s1 = pd"
    "present (mem s1 pd (PAGE_DIR_INDEX v))" "same_maps D s s1"
    by (rule ensure_page_table_ok [OF inv pd i room])
  have "pd_ok s1 pd" using s1(2) pd(1) by (simp add: spaces_inv_def)
  from live_pt_ok [OF this s1(3), of "PAGE_DIR_INDEX v"] s1(4) page_dir_index_less [of v]
  have live: "live_pt s1 (PAGE_DIR_INDEX v) = Some (PTE_FRAME (mem s1 pd (PAGE_DIR_INDEX v)))" by simp
  note e = poke_entry [OF s1(2) pd(1) v s1(4), of ?e]
  show thesis
    using s1 live e sets_entry_after [OF s1(5) e(2)]
    by (intro that [of "poke (PTE_FRAME (mem s1 pd (PAGE_DIR_INDEX v))) (PAGE_TABLE_INDEX v) ?e s1"])
      (simp_all add: map_page_locked_def)
qed

lemma unmap_page_locked_ok:
  assumes inv: "spaces_inv D s" and pd: "pd \<in> D" "cr3 s = pd" and v: "own_table D pd (PAGE_DIR_INDEX v)"
  obtains s' where "unmap_page_locked v s = Some s'" "spaces_inv D s'" "cr3 s' = pd" "sets_entry D s pd v None s'"
    "frames s' = frames s"
proof -
  have ok: "pd_ok s pd" using inv pd(1) by (simp add: spaces_inv_def)
  then have al: "PTE_FRAME pd = pd" by (simp add: pd_ok_def)
  note live = live_pd_ok [OF ok pd(2)]
  show thesis
  proof (cases "present (mem s pd (PAGE_DIR_INDEX v))")
    case False
    then have "sets_entry D s pd v None s" by (simp add: sets_entry_def xlate_alt [OF al])
    then show thesis using inv live False pd(2) by (intro that [of s]) (simp_all add: unmap_page_locked_def)
  next
    case True
    have "live_pt s (PAGE_DIR_INDEX v) = Some (PTE_FRAME (mem s pd (PAGE_DIR_INDEX v)))"
      using live_pt_ok [OF ok pd(2), of "PAGE_DIR_INDEX v"] True page_dir_index_less [of v] by simp
    then show thesis
      using live True pd(2) poke_entry [OF inv pd(1) v True, of 0]
      by (intro that [of "poke (PTE_FRAME (mem s pd (PAGE_DIR_INDEX v))) (PAGE_TABLE_INDEX v) 0 s"])
        (simp_all add: unmap_page_locked_def)
  qed
qed

section \<open>Working on any address space\<close>

lemma cr3_irrelevant [simp]:
  "xlate (s\<lparr>cr3 := x\<rparr>) = xlate s" "tables (s\<lparr>cr3 := x\<rparr>) = tables s" "pd_ok (s\<lparr>cr3 := x\<rparr>) = pd_ok s"
  "spaces_inv D (s\<lparr>cr3 := x\<rparr>) = spaces_inv D s"
proof -
  show x: "xlate (s\<lparr>cr3 := x\<rparr>) = xlate s" by (simp add: xlate_def fun_eq_iff)
  show t: "tables (s\<lparr>cr3 := x\<rparr>) = tables s" by (simp add: tables_def fun_eq_iff)
  show p: "pd_ok (s\<lparr>cr3 := x\<rparr>) = pd_ok s" by (simp add: pd_ok_def fun_eq_iff)
  show "spaces_inv D (s\<lparr>cr3 := x\<rparr>) = spaces_inv D s"
    by (simp add: spaces_inv_def p unfree_def apart_def t)
qed

lemma sets_entry_cr3 [simp]:
  "sets_entry D (s\<lparr>cr3 := x\<rparr>) pd v r s' = sets_entry D s pd v r s'"
  "sets_entry D s pd v r (s'\<lparr>cr3 := x\<rparr>) = sets_entry D s pd v r s'"
  by (simp_all add: sets_entry_def)

lemma directory_index_trivial: "PAGE_DIR_INDEX v < KERNEL_PD_INDEX \<Longrightarrow> own_table D pd (PAGE_DIR_INDEX v)"
  by (simp add: own_table_def)

lemma paging_map_in_ok:
  assumes inv: "spaces_inv D s" and pd: "pd \<in> D" and cr3: "PTE_FRAME (cr3 s) = cr3 s"
    and v: "own_table D pd (PAGE_DIR_INDEX v)"
    and room: "present (mem s pd (PAGE_DIR_INDEX v)) \<or> free_set (frames s) \<noteq> {}"
  obtains s' where "paging_map_in pd v phys fl s = Some s'" "spaces_inv D s'" "cr3 s' = cr3 s"
    "sets_entry D s pd v (Some ((phys AND 0xFFFFF000) OR (fl AND 0xFFF) OR PTE_PRESENT)) s'"
proof -
  have old: "paging_current_directory s = cr3 s"
    using cr3 by (simp add: paging_current_directory_def PTE_FRAME_def)
  have "spaces_inv D (s\<lparr>cr3 := pd\<rparr>)" "cr3 (s\<lparr>cr3 := pd\<rparr>) = pd" using inv by simp_all
  moreover have "present (mem (s\<lparr>cr3 := pd\<rparr>) pd (PAGE_DIR_INDEX v)) \<or> free_set (frames (s\<lparr>cr3 := pd\<rparr>)) \<noteq> {}"
    using room by simp
  ultimately obtain t where t: "map_page_locked v phys fl (s\<lparr>cr3 := pd\<rparr>) = Some t" "spaces_inv D t" "cr3 t = pd"
    "sets_entry D (s\<lparr>cr3 := pd\<rparr>) pd v (Some ((phys AND 0xFFFFF000) OR (fl AND 0xFFF) OR PTE_PRESENT)) t"
    by (rule map_page_locked_ok [OF _ pd _ v])
  show thesis
  proof (cases "pd = cr3 s")
    case True
    then have "s\<lparr>cr3 := pd\<rparr> = s" by simp
    then show thesis using t True old by (intro that [of t]) (simp_all add: paging_map_in_def)
  next
    case False
    then show thesis using t old by (intro that [of "t\<lparr>cr3 := cr3 s\<rparr>"]) (simp_all add: paging_map_in_def)
  qed
qed

lemma paging_unmap_in_ok:
  assumes inv: "spaces_inv D s" and pd: "pd \<in> D" and cr3: "PTE_FRAME (cr3 s) = cr3 s"
    and v: "own_table D pd (PAGE_DIR_INDEX v)"
  obtains s' where "paging_unmap_in pd v s = Some s'" "spaces_inv D s'" "cr3 s' = cr3 s" "sets_entry D s pd v None s'"
proof -
  have old: "paging_current_directory s = cr3 s"
    using cr3 by (simp add: paging_current_directory_def PTE_FRAME_def)
  have "spaces_inv D (s\<lparr>cr3 := pd\<rparr>)" "cr3 (s\<lparr>cr3 := pd\<rparr>) = pd" using inv by simp_all
  then obtain t where t: "unmap_page_locked v (s\<lparr>cr3 := pd\<rparr>) = Some t" "spaces_inv D t" "cr3 t = pd"
    "sets_entry D (s\<lparr>cr3 := pd\<rparr>) pd v None t"
    by (rule unmap_page_locked_ok [OF _ pd _ v])
  show thesis
  proof (cases "pd = cr3 s")
    case True
    then have "s\<lparr>cr3 := pd\<rparr> = s" by simp
    then show thesis using t True old by (intro that [of t]) (simp_all add: paging_unmap_in_def)
  next
    case False
    then show thesis using t old by (intro that [of "t\<lparr>cr3 := cr3 s\<rparr>"]) (simp_all add: paging_unmap_in_def)
  qed
qed

lemma paging_get_physical_in_xlate:
  assumes "pd_ok s pd" and "PTE_FRAME (cr3 s) = cr3 s"
  shows "paging_get_physical_in pd v s = Some (case xlate s pd v of
    None \<Rightarrow> 0 | Some e \<Rightarrow> PTE_FRAME e OR (v AND 0xFFF))"
proof -
  have old: "paging_current_directory s = cr3 s"
    using assms(2) by (simp add: paging_current_directory_def PTE_FRAME_def)
  let ?s = "s\<lparr>cr3 := pd\<rparr>"
  have s: "(if pd \<noteq> cr3 s then ?s else s) = ?s" by auto
  have ok: "pd_ok ?s pd" "cr3 ?s = pd" using assms(1) by simp_all
  have al: "PTE_FRAME pd = pd" using assms(1) by (simp add: pd_ok_def)
  show ?thesis
    unfolding paging_get_physical_in_def Let_def old s paging_get_physical_def live_pd_ok [OF ok]
    using live_pt_ok [OF ok page_dir_index_less [of v]]
    by (simp add: xlate_alt [OF al] Let_def)
qed

text \<open>
  C3: address spaces are isolated.  Mapping a user page into one directory of a set of well-formed
  address spaces, active or not, does not fault or panic as long as a frame is free for a missing
  page table; the page then translates to the given frame with the given flags, CR3 is back to
  its value, every space is still well formed, and no other translation changes, neither in that
  space nor in any other.  The recursive window is reached through the processor's own page walk.
\<close>

theorem paging_map_in_isolated:
  assumes "spaces_inv D s" and "pd \<in> D" and "PTE_FRAME (cr3 s) = cr3 s"
    and "PAGE_DIR_INDEX virt < KERNEL_PD_INDEX" and "free_set (frames s) \<noteq> {}"
  shows "\<exists>s'. paging_map_in pd virt phys fl s = Some s' \<and> spaces_inv D s' \<and> cr3 s' = cr3 s \<and>
    xlate s' pd virt = Some ((phys AND 0xFFFFF000) OR (fl AND 0xFFF) OR PTE_PRESENT) \<and>
    (\<forall>p \<in> D. \<forall>w. PAGE_DIR_INDEX w < 1023 \<longrightarrow> p \<noteq> pd \<or> ADDR_TO_FRAME w \<noteq> ADDR_TO_FRAME virt \<longrightarrow>
       xlate s' p w = xlate s p w)"
proof -
  obtain s' where "paging_map_in pd virt phys fl s = Some s'" "spaces_inv D s'" "cr3 s' = cr3 s"
    "sets_entry D s pd virt (Some ((phys AND 0xFFFFF000) OR (fl AND 0xFFF) OR PTE_PRESENT)) s'"
    using assms(5) by (elim paging_map_in_ok [OF assms(1-3) directory_index_trivial [OF assms(4)] disjI2])
  then show ?thesis by (auto simp: sets_entry_def)
qed

text \<open>
  C33: mapping, looking up and unmapping agree.  After a user page is mapped, the lookup in its space
  returns the frame with the offset of the address; after it is unmapped again, the lookup
  returns 0 and every translation of every space is what it was before, but for that page.
\<close>

theorem paging_map_unmap_roundtrip:
  assumes "spaces_inv D s" and "pd \<in> D" and "PTE_FRAME (cr3 s) = cr3 s"
    and "PAGE_DIR_INDEX virt < KERNEL_PD_INDEX" and "free_set (frames s) \<noteq> {}" and "PTE_FRAME phys = phys"
  shows "\<exists>s1 s2. paging_map_in pd virt phys fl s = Some s1 \<and>
    paging_get_physical_in pd virt s1 = Some (phys OR (virt AND 0xFFF)) \<and>
    paging_unmap_in pd virt s1 = Some s2 \<and> spaces_inv D s2 \<and>
    paging_get_physical_in pd virt s2 = Some 0 \<and>
    (\<forall>p \<in> D. \<forall>w. PAGE_DIR_INDEX w < 1023 \<longrightarrow> p \<noteq> pd \<or> ADDR_TO_FRAME w \<noteq> ADDR_TO_FRAME virt \<longrightarrow>
       xlate s2 p w = xlate s p w)"
proof -
  note own = directory_index_trivial [OF assms(4)]
  let ?e = "(phys AND 0xFFFFF000) OR (fl AND 0xFFF) OR PTE_PRESENT"
  have low: "bit (fl AND 0xFFF) n \<Longrightarrow> n < 12" for n
  proof -
    have "(0xFFF :: u32) = mask 12" by (simp add: mask_eq_exp_minus_1)
    then show "bit (fl AND 0xFFF) n \<Longrightarrow> n < 12" by (simp only: bit_and_iff bit_mask_iff)
  qed
  have "PTE_FRAME (fl AND 0xFFF) = 0" by (intro bit_word_eqI) (auto simp: bit_PTE_FRAME dest!: low)
  moreover have "phys AND 0xFFFFF000 = phys" using assms(6) by (simp add: PTE_FRAME_def)
  ultimately have e: "PTE_FRAME ?e = phys" using assms(6) by (simp add: PTE_FRAME_or)
  obtain s1 where s1: "paging_map_in pd virt phys fl s = Some s1" "spaces_inv D s1" "cr3 s1 = cr3 s"
    "sets_entry D s pd virt (Some ?e) s1"
    using assms(5) by (elim paging_map_in_ok [OF assms(1-3) own disjI2])
  have c1: "PTE_FRAME (cr3 s1) = cr3 s1" using s1(3) assms(3) by simp
  obtain s2 where s2: "paging_unmap_in pd virt s1 = Some s2" "spaces_inv D s2" "cr3 s2 = cr3 s1"
    "sets_entry D s1 pd virt None s2"
    by (rule paging_unmap_in_ok [OF s1(2) assms(2) c1 own])
  have "pd_ok s1 pd" "pd_ok s2 pd" using s1(2) s2(2) assms(2) by (simp_all add: spaces_inv_def)
  then have "paging_get_physical_in pd virt s1 = Some (phys OR (virt AND 0xFFF))"
    "paging_get_physical_in pd virt s2 = Some 0"
    using s1(4) s2(3,4) c1 e by (simp_all add: paging_get_physical_in_xlate sets_entry_def)
  with s1 s2 show ?thesis by (auto simp: sets_entry_def)
qed

section \<open>Releasing empty tables\<close>

lemma remove_table:
  assumes inv: "spaces_inv D s" and pd: "pd \<in> D" and i: "own_table D pd i" "present (mem s pd i)"
  defines "t \<equiv> PTE_FRAME (mem s pd i)"
  assumes zero: "\<And>k. k < 1024 \<Longrightarrow> mem s t k = 0"
  defines "s' \<equiv> drop_frame t (poke pd i 0 s)"
  shows "spaces_inv D s'" and "same_maps D s s'"
proof -
  have i': "i < 1023" by (rule own_table_less [OF i(1)])
  have tin: "t \<in> tables s pd" unfolding t_def by (rule tables_mem [OF i' i(2)])
  have ok: "pd_ok s q" "unfree s q" "PTE_FRAME q = q" if "q \<in> D" for q
    using inv that by (simp_all add: spaces_inv_def pd_ok_def)
  have ap: "apart s p q" if "p \<in> D" "q \<in> D" "p \<noteq> q" for p q using inv that by (simp add: spaces_inv_def)
  have mem': "mem s' = mem (poke pd i 0 s)" by (simp add: s'_def drop_frame_def)
  have m: "mem s' q = (if q = pd then (mem s pd)(i := 0) else mem s q)" for q
    unfolding mem' by simp
  have tq: "tables s' q \<subseteq> tables s q - {t}" if "q \<in> D" for q
  proof (cases "q = pd")
    case True
    have "t \<noteq> pd" using ok(1) [OF pd] i' i(2) by (simp add: pd_ok_def t_def)
    moreover have "PTE_FRAME (mem s pd j) \<noteq> t" if "j < 1023" "present (mem s pd j)" "j \<noteq> i" for j
      using ok(1) [OF pd] i' i(2) that unfolding t_def pd_ok_def by auto
    ultimately show ?thesis using True by (auto simp: tables_def m)
  next
    case False
    then have "tables s' q = tables s q" by (simp add: tables_def m)
    moreover have "t \<notin> tables s q"
      using ap [OF pd that] False i unfolding t_def apart_def own_table_def using that by auto
    ultimately show ?thesis by blast
  qed
  have free: "free_set (frames s') \<subseteq> insert (ADDR_TO_FRAME t) (free_set (frames s))" and pinv: "pmm_inv (frames s')"
    using inv release_frame_checked_inv [of "frames s" "ADDR_TO_FRAME t"]
    by (auto simp: s'_def drop_frame_def pmm_free_frame_def spaces_inv_def split: if_splits)
  have pdok: "pd_ok s' q" if "q \<in> D" for q
    using ok(1) [OF that] i' unfolding pd_ok_def m by auto
  have "ADDR_TO_FRAME u \<noteq> ADDR_TO_FRAME t" if "q \<in> D" "u \<in> tables s q - {t}" for q u
  proof -
    have al: "PTE_FRAME u = u" using that ok(3) by (auto simp: tables_def)
    have "PTE_FRAME t = t" by (simp add: t_def)
    with al that(2) show ?thesis by (metis Diff_iff PTE_FRAME_shift insertI1)
  qed
  then have "unfree s' q" if "q \<in> D" for q
    using ok(2) [OF that] tq [OF that] free that unfolding unfree_def by blast
  moreover have "apart s' p q" if "p \<in> D" "q \<in> D" "p \<noteq> q" for p q
    using ap [OF that] tq [OF that(2)] unfolding apart_def m by auto
  ultimately show "spaces_inv D s'" using pdok pinv by (simp add: spaces_inv_def)
  show "same_maps D s s'" unfolding same_maps_def
  proof (intro ballI allI impI)
    fix q v assume q: "q \<in> D" and v: "PAGE_DIR_INDEX v < 1023"
    have keep: "mem s' (PTE_FRAME (mem s q (PAGE_DIR_INDEX v))) = mem s (PTE_FRAME (mem s q (PAGE_DIR_INDEX v)))"
      if "present (mem s q (PAGE_DIR_INDEX v))"
    proof -
      have "PTE_FRAME (mem s q (PAGE_DIR_INDEX v)) \<noteq> pd"
      proof (cases "q = pd")
        case True
        then show ?thesis using ok(1) [OF pd] v that by (simp add: pd_ok_def)
      next
        case False
        then show ?thesis using ap [OF pd q] tables_mem [OF v that] by (auto simp: apart_def)
      qed
      then show ?thesis by (simp add: m)
    qed
    show "xlate s' q v = xlate s q v"
    proof (cases "q = pd \<and> PAGE_DIR_INDEX v = i")
      case True
      then show ?thesis
        using zero [OF page_table_index_less] i(2) unfolding xlate_alt [OF ok(3) [OF q]] m by (simp add: t_def)
    next
      case False
      then have "mem s' q (PAGE_DIR_INDEX v) = mem s q (PAGE_DIR_INDEX v)" by (auto simp: m)
      then show ?thesis using keep by (simp add: xlate_alt [OF ok(3) [OF q]])
    qed
  qed
qed

lemma release_empty_table_ok:
  assumes inv: "spaces_inv D s" and pd: "pd \<in> D" "cr3 s = pd" and i: "i < KERNEL_PD_INDEX"
  shows "\<exists>s' n. release_empty_table i (s, freed) = Some (s', n) \<and> spaces_inv D s' \<and> cr3 s' = pd \<and>
    same_maps D s s'"
proof -
  have ok: "pd_ok s pd" using inv pd(1) by (simp add: spaces_inv_def)
  have own: "own_table D pd i" using i by (simp add: own_table_def)
  have i': "i < 1024" using own_table_less [OF own] by (simp add: word_less_nat_alt)
  note live = live_pd_ok [OF ok pd(2)] live_pt_ok [OF ok pd(2) i']
  let ?e = "mem s pd i"
  have triv: "spaces_inv D s \<and> cr3 s = pd \<and> same_maps D s s" using inv pd(2) by (simp add: same_maps_def)
  show ?thesis
  proof (cases "present ?e \<and> ?e AND PTE_USER \<noteq> 0 \<and>
      list_all (\<lambda>k. mem s (PTE_FRAME ?e) k = 0) (words_from 0 1024)")
    case True
    then have "mem s (PTE_FRAME ?e) k = 0" if "k < 1024" for k
      using that by (simp add: list_all_iff)
    note rem = remove_table [OF inv pd(1) own conjunct1 [OF True] this]
    moreover have "release_empty_table i (s, freed) =
        Some (drop_frame (PTE_FRAME ?e) (poke pd i 0 s), freed + PAGE_SIZE)"
      using True live by (simp add: release_empty_table_def Let_def PTE_FRAME_def)
    ultimately show ?thesis using pd(2) by (simp add: drop_frame_def)
  next
    case False
    then have "release_empty_table i (s, freed) = Some (s, freed)"
      using live by (auto simp: release_empty_table_def Let_def)
    then show ?thesis using triv by blast
  qed
qed

text \<open>
  Giving back empty page tables is invisible.  Over any range of user addresses, releasing the
  page tables with no entry left keeps every address space well formed and changes no
  translation, so the released frames were not in use by any of them.
\<close>

theorem paging_release_empty_invisible:
  assumes "spaces_inv D s" and "cr3 s \<in> D" and "PAGE_DIR_INDEX (stop - 1) < KERNEL_PD_INDEX"
  shows "\<exists>s' freed. paging_release_empty_user_tables start stop s = Some (s', freed) \<and>
    spaces_inv D s' \<and> cr3 s' = cr3 s \<and>
    (\<forall>pd \<in> D. \<forall>v. PAGE_DIR_INDEX v < 1023 \<longrightarrow> xlate s' pd v = xlate s pd v)"
proof (cases "stop \<le> start")
  case True
  then show ?thesis using assms by (simp add: paging_release_empty_user_tables_def)
next
  case False
  let ?l = "PAGE_DIR_INDEX (stop - 1)"
  let ?P = "\<lambda>(t, n :: u32). spaces_inv D t \<and> cr3 t = cr3 s \<and> same_maps D s t"
  have "unat (?l + 1) = Suc (unat ?l)" by (rule unat_Suc_u32 [OF assms(3)])
  then have user: "i < KERNEL_PD_INDEX" if "i \<in> set (words_from (PAGE_DIR_INDEX start) (?l + 1))" for i
    using that assms(3) by (simp add: word_less_nat_alt)
  have "\<exists>x'. fold_option release_empty_table (words_from (PAGE_DIR_INDEX start) (?l + 1)) (s, 0) = Some x' \<and> ?P x'"
  proof (rule fold_option_invariant)
    show "?P (s, 0)" using assms(1) by (simp add: same_maps_def)
    fix i x assume i: "i \<in> set (words_from (PAGE_DIR_INDEX start) (?l + 1))" and x: "?P x"
    obtain t n where t: "x = (t, n)" "spaces_inv D t" "cr3 t = cr3 s" "same_maps D s t" using x by auto
    from release_empty_table_ok [OF t(2) assms(2) t(3) user [OF i], of n]
    show "\<exists>x'. release_empty_table i x = Some x' \<and> ?P x'"
      using same_maps_trans [OF t(4)] by (auto simp: t(1))
  qed
  then show ?thesis
    using False by (auto simp: paging_release_empty_user_tables_def same_maps_def)
qed

section \<open>A machine with two address spaces\<close>

definition sample_machine :: machine where
  "sample_machine = \<lparr>mem = (\<lambda>f i.
       if f = 0x5000 \<and> i = 1023 then 0x5003 else if f = 0x6000 \<and> i = 1023 then 0x6003
       else if f = 0x6000 \<and> i = 1 then 0x7007 else 0),
     cr3 = 0x5000, frames = sample_pmm, s_kernel_pd_phys = 0x5000\<rparr>"

lemma sample_machine_inv: "spaces_inv {0x5000, 0x6000} sample_machine"
proof -
  have b: "PTE_FRAME 0x5003 = 0x5000" "PTE_FRAME 0x6003 = 0x6000" "PTE_FRAME 0x7007 = 0x7000"
    "PTE_FRAME 0x5000 = 0x5000" "PTE_FRAME 0x6000 = 0x6000" "present 0x5003" "present 0x6003" "present 0x7007"
    "ADDR_TO_FRAME 0x5000 = 5" "ADDR_TO_FRAME 0x6000 = 6" "ADDR_TO_FRAME 0x7000 = 7"
    by code_simp+
  have t: "tables sample_machine 0x5000 = {0x5000}" "tables sample_machine 0x6000 = {0x6000, 0x7000}"
    using b by (auto simp: tables_def sample_machine_def)
  have "pd_ok sample_machine 0x5000" "pd_ok sample_machine 0x6000"
    using b by (auto simp: pd_ok_def sample_machine_def split: if_splits)
  moreover have "unfree sample_machine 0x5000" "unfree sample_machine 0x6000"
    using b by (auto simp: unfree_def t) (simp_all add: sample_machine_def sample_pmm_free)
  moreover have "apart sample_machine 0x5000 0x6000" "apart sample_machine 0x6000 0x5000"
    using b by (auto simp: apart_def t) (auto simp: sample_machine_def KERNEL_PD_INDEX_def split: if_splits)
  ultimately show ?thesis using sample_pmm_inv by (simp add: spaces_inv_def) (simp add: sample_machine_def)
qed

lemma sample_machine_facts:
  "PTE_FRAME (cr3 sample_machine) = cr3 sample_machine" "free_set (frames sample_machine) \<noteq> {}"
  "PAGE_DIR_INDEX 0x400123 < KERNEL_PD_INDEX" "cr3 sample_machine \<in> {0x5000, 0x6000}"
  by (simp_all add: sample_machine_def sample_pmm_free PTE_FRAME_def KERNEL_PD_INDEX_def word_less_nat_alt
      unat_page_dir_index)

theorem paging_map_in_isolated_witness:
  "\<exists>s'. paging_map_in 0x6000 0x400123 0x9000 PTE_USER sample_machine = Some s' \<and>
     xlate s' 0x6000 0x400123 = Some 0x9005 \<and> xlate s' 0x5000 0x400123 = xlate sample_machine 0x5000 0x400123"
proof -
  have e: "(0x9000 :: u32) OR (PTE_USER AND 0xFFF) OR PTE_PRESENT = 0x9005" by code_simp
  have "PAGE_DIR_INDEX 0x400123 < 1023" by (simp add: word_less_nat_alt unat_page_dir_index)
  then show ?thesis
    using paging_map_in_isolated [OF sample_machine_inv _ sample_machine_facts(1,3,2), of "0x6000" "0x9000" PTE_USER]
    by (auto simp: e)
qed

theorem paging_map_unmap_roundtrip_witness:
  "\<exists>s1 s2. paging_map_in 0x5000 0x400123 0x9000 PTE_USER sample_machine = Some s1 \<and>
     paging_get_physical_in 0x5000 0x400123 s1 = Some 0x9123 \<and>
     paging_unmap_in 0x5000 0x400123 s1 = Some s2 \<and> paging_get_physical_in 0x5000 0x400123 s2 = Some 0"
proof -
  have e: "(0x9000 :: u32) OR (0x400123 AND 0xFFF) = 0x9123" "PTE_FRAME 0x9000 = 0x9000" by code_simp+
  show ?thesis
    using paging_map_unmap_roundtrip [OF sample_machine_inv _ sample_machine_facts(1,3,2) e(2), of "0x5000" PTE_USER]
    by (auto simp: e(1))
qed

theorem paging_release_empty_invisible_witness:
  "\<exists>s' freed. paging_release_empty_user_tables 0x400000 0x800000 sample_machine = Some (s', freed) \<and>
     spaces_inv {0x5000, 0x6000} s'"
proof -
  have "PAGE_DIR_INDEX (0x800000 - 1) < KERNEL_PD_INDEX"
    by (simp add: KERNEL_PD_INDEX_def word_less_nat_alt unat_page_dir_index)
  from paging_release_empty_invisible [OF sample_machine_inv sample_machine_facts(4) this] show ?thesis by blast
qed

end
