(* ===== verification/Refcount.thy ===== *)
theory Refcount
  imports Prelude
begin

text \<open>
  \<^verbatim>\<open>kernel/krt/refcount.h\<close>: the saturating reference count shared by IPC ports and shared
  memory.  The compare-and-swap loops retry only when another processor changed the count
  in between; one successful round is one atomic step, which is what the functions model.
\<close>

type_synonym refcount_t = u32

definition REFCOUNT_SATURATED :: u32 where
  "REFCOUNT_SATURATED = 0xC0000000"

definition refcount_init :: "u32 \<Rightarrow> refcount_t" where
  "refcount_init initial = initial"

definition refcount_inc :: "refcount_t \<Rightarrow> refcount_t" where
  "refcount_inc cur = (if cur \<ge> REFCOUNT_SATURATED then cur else cur + 1)"

definition refcount_dec :: "refcount_t \<Rightarrow> refcount_t \<times> bool" where
  "refcount_dec cur =
     (if cur \<ge> REFCOUNT_SATURATED then (cur, False)
      else if cur = 0 then (cur, False)
      else (cur - 1, cur = 1))"

definition refcount_read :: "refcount_t \<Rightarrow> u32" where
  "refcount_read rc = rc"

text \<open>A schedule of atomic operations on one count, and whether a decrement reported zero.\<close>

datatype rc_op = Inc | Dec

fun rc_run :: "rc_op list \<Rightarrow> refcount_t \<Rightarrow> refcount_t \<times> nat" where
  "rc_run [] rc = (rc, 0)"
| "rc_run (Inc # ops) rc = rc_run ops (refcount_inc rc)"
| "rc_run (Dec # ops) rc =
     (case refcount_dec rc of (rc', z) \<Rightarrow>
        (case rc_run ops rc' of (rc'', n) \<Rightarrow> (rc'', (if z then 1 else 0) + n)))"

lemma unat_saturated: "unat REFCOUNT_SATURATED = 3221225472"
  by (simp add: REFCOUNT_SATURATED_def)

lemma unat_refcount_inc:
  "unat (refcount_inc rc) = (if unat rc \<ge> 3221225472 then unat rc else Suc (unat rc))"
  by (simp add: refcount_inc_def word_le_nat_alt unat_saturated unat_add_u32)

lemma unat_refcount_dec:
  "unat (fst (refcount_dec rc)) =
     (if unat rc \<ge> 3221225472 then unat rc else unat rc - 1)"
  by (auto simp: refcount_dec_def word_le_nat_alt unat_saturated unat_minus_one)

lemma refcount_dec_zero:
  "snd (refcount_dec rc) \<longleftrightarrow> unat rc = 1"
  by (auto simp: refcount_dec_def word_le_nat_alt unat_saturated word_unat_eq_iff)

text \<open>
  The references a schedule leaves when it starts with \<open>n\<close> of them and never drops the last
  one (\<open>None\<close> if it does).
\<close>

fun remaining :: "rc_op list \<Rightarrow> nat \<Rightarrow> nat option" where
  "remaining [] n = Some n"
| "remaining (Inc # ops) n = remaining ops (Suc n)"
| "remaining (Dec # ops) n = (if n \<le> 1 then None else remaining ops (n - 1))"

lemma rc_run_never_early:
  assumes "remaining ops n = Some m" and "min n 3221225472 \<le> unat rc"
  shows "snd (rc_run ops rc) = 0 \<and> min m 3221225472 \<le> unat (fst (rc_run ops rc))"
  using assms
proof (induction ops n arbitrary: rc rule: remaining.induct)
  case (2 ops n)
  from 2(3) have "min (Suc n) 3221225472 \<le> unat (refcount_inc rc)"
    by (auto simp: unat_refcount_inc min_def split: if_splits)
  then show ?case using 2(1) [of "refcount_inc rc"] 2(2) by simp
next
  case (3 ops n)
  then have n: "1 < n" "remaining ops (n - 1) = Some m" by (auto split: if_splits)
  have "\<not> snd (refcount_dec rc)" using 3(3) n(1) by (auto simp: refcount_dec_zero)
  moreover have "min (n - 1) 3221225472 \<le> unat (fst (refcount_dec rc))"
    using 3(3) by (auto simp: unat_refcount_dec)
  ultimately show ?case
    using 3(1) [of "fst (refcount_dec rc)"] n by (auto split: prod.splits)
qed simp

lemma rc_run_exact:
  assumes "remaining ops (unat rc) = Some m"
    and "unat rc + length (filter ((=) Inc) ops) < 3221225472"
  shows "unat (fst (rc_run ops rc)) = m"
  using assms
proof (induction ops arbitrary: rc)
  case (Cons op ops)
  show ?case
  proof (cases op)
    case Inc
    with Cons.prems Cons.IH [of "refcount_inc rc"] show ?thesis by (simp add: unat_refcount_inc)
  next
    case Dec
    with Cons.prems Cons.IH [of "fst (refcount_dec rc)"] show ?thesis
      by (auto simp: unat_refcount_dec split: prod.splits if_splits)
  qed
qed simp

lemma rc_run_append_Dec:
  "snd (rc_run (ops @ [Dec]) rc) =
     snd (rc_run ops rc) + (if snd (refcount_dec (fst (rc_run ops rc))) then 1 else 0)"
  by (induction ops rc rule: rc_run.induct) (auto split: prod.splits)

text \<open>
  Whatever the interleaving of increments and decrements on a shared count, no decrement
  reports zero while a reference is outstanding, even past the saturation point; and as long as
  the count cannot have saturated, dropping the last reference reports zero (the one teardown).
\<close>

theorem refcount_teardown_once:
  assumes "remaining ops (unat rc) = Some m"
  shows "snd (rc_run ops rc) = 0 \<and>
    (m \<noteq> 1 \<longrightarrow> 0 < m \<longrightarrow> snd (rc_run (ops @ [Dec]) rc) = 0) \<and>
    (unat rc + length (filter ((=) Inc) ops) < unat REFCOUNT_SATURATED \<and> m = 1 \<longrightarrow>
       snd (rc_run (ops @ [Dec]) rc) = 1)"
proof -
  have run: "snd (rc_run ops rc) = 0" "min m 3221225472 \<le> unat (fst (rc_run ops rc))"
    using rc_run_never_early [OF assms] by simp_all
  then show ?thesis
    using rc_run_exact [OF assms] by (auto simp: rc_run_append_Dec refcount_dec_zero unat_saturated)
qed

theorem refcount_teardown_once_witness:
  "snd (rc_run [Inc, Inc, Dec, Dec] 1) = 0 \<and> snd (rc_run ([Inc, Inc, Dec, Dec] @ [Dec]) 1) = 1"
  using refcount_teardown_once [of "[Inc, Inc, Dec, Dec]" 1 1] by (simp add: unat_saturated)

end
