(* ===== verification/Handle_Table.thy ===== *)
theory Handle_Table
  imports Prelude
begin

text \<open>
  \<^verbatim>\<open>kernel/krt/handle_table.c\<close>: the generic slot table behind processes, ports, threads,
  shared memory and event groups.  A slot holds an object or NULL (\<open>None\<close>), carries a
  generation that is bumped on every insertion, and free ids are recycled by one of three
  policies: a stack (LIFO), a ring (FIFO), or a rotating cursor (MONOTONIC).  Every operation
  runs under the table's lock and is one function on the record.
\<close>

section \<open>Model\<close>

datatype ht_reuse_t = HT_REUSE_LIFO | HT_REUSE_FIFO | HT_REUSE_MONOTONIC

record 'a handle_table_t =
  slots :: "'a option list"
  generation :: "u32 list"
  freelist :: "u32 list"
  free_head :: u32
  free_tail :: u32
  free_count :: u32
  next_scan :: u32
  capacity :: u32
  reuse :: ht_reuse_t

record handle_ref_t =
  ref_id :: u32
  ref_gen :: u32

definition in_range :: "'a handle_table_t \<Rightarrow> u32 \<Rightarrow> bool" where
  "in_range t i \<longleftrightarrow> i > 0 \<and> i < capacity t"

definition handle_table_destroy :: "'a handle_table_t \<Rightarrow> 'a handle_table_t" where
  "handle_table_destroy t =
     t\<lparr>slots := [], generation := [], freelist := [], capacity := 0,
       free_head := 0, free_tail := 0, free_count := 0\<rparr>"

text \<open>
  The outcome of the three \<^verbatim>\<open>kcalloc\<close> calls is the argument \<open>mem_ok\<close> (all three succeeded);
  \<^verbatim>\<open>kcalloc\<close> of 0 elements never succeeds.
\<close>

definition handle_table_init ::
  "bool \<Rightarrow> u32 \<Rightarrow> ht_reuse_t \<Rightarrow> 'a handle_table_t \<Rightarrow> 'a handle_table_t \<times> bool" where
  "handle_table_init mem_ok cap policy t0 =
     (if \<not> mem_ok then (handle_table_destroy (t0\<lparr>reuse := policy\<rparr>), False)
      else
        let zero = replicate (unat cap) 0;
            fl = (case policy of
                    HT_REUSE_FIFO \<Rightarrow> fold (\<lambda>i fl. fl[unat (i - 1) := i]) (words_from 1 cap) zero
                  | HT_REUSE_LIFO \<Rightarrow> fold (\<lambda>i fl. fl[unat (i - 1) := cap - i]) (words_from 1 cap) zero
                  | HT_REUSE_MONOTONIC \<Rightarrow> zero)
        in (t0\<lparr>slots := replicate (unat cap) None, generation := zero, freelist := fl,
               free_head := 0, free_tail := cap - 1, free_count := cap - 1, next_scan := 1,
               capacity := cap, reuse := policy\<rparr>, True))"

definition id_take_fifo :: "'a handle_table_t \<Rightarrow> 'a handle_table_t \<times> u32" where
  "id_take_fifo t =
     (t\<lparr>free_head := (free_head t + 1) mod capacity t\<rparr>, freelist t ! unat (free_head t))"

definition id_take_lifo :: "'a handle_table_t \<Rightarrow> 'a handle_table_t \<times> u32" where
  "id_take_lifo t = (t, freelist t ! unat (free_count t - 1))"

definition wrap_next :: "'a handle_table_t \<Rightarrow> u32 \<Rightarrow> u32" where
  "wrap_next t i = (if i + 1 \<ge> capacity t then 1 else i + 1)"

text \<open>The cursor loop of \<^verbatim>\<open>id_take_monotonic\<close>; the last argument counts the rounds left.\<close>

fun mono_scan :: "'a handle_table_t \<Rightarrow> u32 \<Rightarrow> nat \<Rightarrow> 'a handle_table_t \<times> u32" where
  "mono_scan t i 0 = (t, 0)"
| "mono_scan t i (Suc n) =
     (let j = (if i = 0 then 1 else i)
      in if slots t ! unat j = None then (t\<lparr>next_scan := wrap_next t j\<rparr>, j)
         else mono_scan t (wrap_next t j) n)"

definition id_take_monotonic :: "'a handle_table_t \<Rightarrow> 'a handle_table_t \<times> u32" where
  "id_take_monotonic t = mono_scan t (next_scan t) (length (words_from 1 (capacity t)))"

definition id_return_fifo :: "'a handle_table_t \<Rightarrow> u32 \<Rightarrow> 'a handle_table_t" where
  "id_return_fifo t i =
     t\<lparr>freelist := (freelist t)[unat (free_tail t) := i],
       free_tail := (free_tail t + 1) mod capacity t\<rparr>"

definition id_return_lifo :: "'a handle_table_t \<Rightarrow> u32 \<Rightarrow> 'a handle_table_t" where
  "id_return_lifo t i = t\<lparr>freelist := (freelist t)[unat (free_count t) := i]\<rparr>"

definition slot_publish :: "'a handle_table_t \<Rightarrow> u32 \<Rightarrow> 'a option \<Rightarrow> 'a handle_table_t" where
  "slot_publish t i obj =
     t\<lparr>slots := (slots t)[unat i := obj],
       generation := (generation t)[unat i := generation t ! unat i + 1]\<rparr>"

definition id_take :: "'a handle_table_t \<Rightarrow> 'a handle_table_t \<times> u32" where
  "id_take t =
     (if reuse t = HT_REUSE_MONOTONIC then id_take_monotonic t
      else if reuse t = HT_REUSE_FIFO then id_take_fifo t
      else id_take_lifo t)"

definition handle_table_insert ::
  "'a handle_table_t \<Rightarrow> 'a option \<Rightarrow> 'a handle_table_t \<times> handle_ref_t" where
  "handle_table_insert t obj =
     (if free_count t = 0 then (t, \<lparr>ref_id = 0, ref_gen = 0\<rparr>)
      else (case id_take t of (t1, i) \<Rightarrow>
        let t2 = t1\<lparr>free_count := free_count t1 - 1\<rparr>;
            t3 = slot_publish t2 i obj
        in (t3, \<lparr>ref_id = i, ref_gen = generation t3 ! unat i\<rparr>)))"

definition handle_table_remove :: "'a handle_table_t \<Rightarrow> u32 \<Rightarrow> 'a handle_table_t \<times> 'a option" where
  "handle_table_remove t i =
     (if \<not> in_range t i \<or> slots t ! unat i = None then (t, None)
      else
        let obj = slots t ! unat i;
            t1 = t\<lparr>slots := (slots t)[unat i := None]\<rparr>;
            t2 = (if reuse t = HT_REUSE_FIFO then id_return_fifo t1 i
                  else if reuse t = HT_REUSE_LIFO then id_return_lifo t1 i
                  else t1)
        in (t2\<lparr>free_count := free_count t2 + 1\<rparr>, obj))"

definition handle_table_get :: "'a handle_table_t \<Rightarrow> u32 \<Rightarrow> 'a option" where
  "handle_table_get t i = (if in_range t i then slots t ! unat i else None)"

definition handle_table_get_checked :: "'a handle_table_t \<Rightarrow> handle_ref_t \<Rightarrow> 'a option" where
  "handle_table_get_checked t ref =
     (if in_range t (ref_id ref) \<and> generation t ! unat (ref_id ref) = ref_gen ref
      then slots t ! unat (ref_id ref) else None)"

definition handle_table_generation :: "'a handle_table_t \<Rightarrow> u32 \<Rightarrow> u32" where
  "handle_table_generation t i = (if in_range t i then generation t ! unat i else 0)"

section \<open>Free ids in the order they are handed out\<close>

definition ring_ids :: "'a handle_table_t \<Rightarrow> u32 list" where
  "ring_ids t = map (\<lambda>k. freelist t ! ((unat (free_head t) + k) mod unat (capacity t)))
     [0..<unat (free_count t)]"

definition stack_ids :: "'a handle_table_t \<Rightarrow> u32 list" where
  "stack_ids t = rev (take (unat (free_count t)) (freelist t))"

definition rotation :: "nat \<Rightarrow> nat \<Rightarrow> nat list" where
  "rotation c i = [i..<c] @ [1..<i]"

definition scan_ids :: "'a handle_table_t \<Rightarrow> u32 list" where
  "scan_ids t = filter (\<lambda>i. slots t ! unat i = None)
     (map of_nat (rotation (unat (capacity t)) (unat (next_scan t))))"

definition free_ids :: "'a handle_table_t \<Rightarrow> u32 list" where
  "free_ids t = (case reuse t of
     HT_REUSE_FIFO \<Rightarrow> ring_ids t | HT_REUSE_LIFO \<Rightarrow> stack_ids t | HT_REUSE_MONOTONIC \<Rightarrow> scan_ids t)"

text \<open>
  The invariant: the three arrays have \<^verbatim>\<open>capacity\<close> cells, the free ids are the empty slots
  other than slot 0, each once, the counter counts them, and the policy's cursors are in range.
\<close>

definition ht_policy :: "'a handle_table_t \<Rightarrow> bool" where
  "ht_policy t \<longleftrightarrow> (reuse t = HT_REUSE_FIFO \<longrightarrow>
     unat (free_tail t) = (unat (free_head t) + unat (free_count t)) mod unat (capacity t))"

definition ht_inv :: "'a handle_table_t \<Rightarrow> bool" where
  "ht_inv t \<longleftrightarrow> 0 < capacity t \<and> length (slots t) = unat (capacity t) \<and>
     length (generation t) = unat (capacity t) \<and> length (freelist t) = unat (capacity t) \<and>
     free_head t < capacity t \<and> ht_policy t \<and>
     0 < next_scan t \<and> (next_scan t < capacity t \<or> next_scan t = 1) \<and>
     distinct (free_ids t) \<and> set (free_ids t) = {i. in_range t i \<and> slots t ! unat i = None} \<and>
     length (free_ids t) = unat (free_count t)"

lemma in_range_count: "card {i. 0 < i \<and> i < (c :: u32)} = unat c - 1"
proof -
  have "card {i. 0 < i \<and> i < c} = card {1 ..< unat c}"
  proof (rule bij_betw_same_card)
    show "bij_betw unat {i. 0 < i \<and> i < c} {1 ..< unat c}"
    proof (rule bij_betw_byWitness [where f' = of_nat])
      have "unat (of_nat n :: u32) = n" if "n < unat c" for n
        using that unat_lt_u32 [of c] by (intro unat_of_nat_u32) linarith
      then show "\<forall>n \<in> {1 ..< unat c}. unat (of_nat n :: u32) = n"
        "(of_nat ` {1 ..< unat c}) \<subseteq> {i. 0 < i \<and> i < c}"
        by (auto simp: word_less_nat_alt)
    qed (auto simp: word_less_nat_alt)
  qed
  then show ?thesis by simp
qed

lemma free_count_bound:
  assumes "ht_inv t"
  shows "unat (free_count t) < unat (capacity t)"
    and "in_range t i \<Longrightarrow> slots t ! unat i \<noteq> None \<Longrightarrow> Suc (unat (free_count t)) < unat (capacity t)"
proof -
  have c: "0 < unat (capacity t)" using assms by (simp add: ht_inv_def word_less_nat_alt)
  have card: "card A \<le> unat (capacity t) - 1" if "A \<subseteq> {i. 0 < i \<and> i < capacity t}" for A
    using card_mono [OF _ that] by (simp add: in_range_count)
  have len: "unat (free_count t) = card (set (free_ids t))"
    using assms unfolding ht_inv_def by (metis distinct_card)
  have "set (free_ids t) \<subseteq> {i. 0 < i \<and> i < capacity t}"
    using assms by (auto simp: ht_inv_def in_range_def)
  from card [OF this] len c show "unat (free_count t) < unat (capacity t)" by linarith
  assume i: "in_range t i" "slots t ! unat i \<noteq> None"
  then have "insert i (set (free_ids t)) \<subseteq> {i. 0 < i \<and> i < capacity t}" "i \<notin> set (free_ids t)"
    using assms by (auto simp: ht_inv_def in_range_def)
  with card [OF this(1)] len c show "Suc (unat (free_count t)) < unat (capacity t)" by simp
qed

section \<open>Taking an id\<close>

lemma unat_Suc_mod:
  fixes h c :: u32
  assumes "h < c"
  shows "unat ((h + 1) mod c) = Suc (unat h) mod unat c"
  by (simp add: unat_mod unat_Suc_u32 [OF assms])

lemma ring_ids_take:
  assumes "free_head t < capacity t" and "free_count t \<noteq> 0"
  shows "ring_ids t = freelist t ! unat (free_head t) #
    ring_ids (t\<lparr>free_head := (free_head t + 1) mod capacity t, free_count := free_count t - 1\<rparr>)"
proof -
  let ?c = "unat (capacity t)" and ?h = "unat (free_head t)"
  have c: "?h < ?c" using assms(1) by (simp add: word_less_nat_alt)
  have n: "unat (free_count t) = Suc (unat (free_count t - 1))"
    using assms(2) by (simp add: unat_minus_one unat_gt_0)
  have "(Suc ?h mod ?c + k) mod ?c = (?h + Suc k) mod ?c" for k
    by (simp add: mod_add_left_eq)
  then show ?thesis
    using c by (simp add: ring_ids_def n unat_Suc_mod [OF assms(1)] map_upt_Suc del: upt_Suc)
qed

lemma stack_ids_take:
  assumes "unat (free_count t) \<le> length (freelist t)" and "free_count t \<noteq> 0"
  shows "stack_ids t = freelist t ! unat (free_count t - 1) # stack_ids (t\<lparr>free_count := free_count t - 1\<rparr>)"
proof -
  have n: "unat (free_count t) = Suc (unat (free_count t - 1))"
    using assms(2) by (simp add: unat_minus_one unat_gt_0)
  then show ?thesis
    using assms(1) by (simp add: stack_ids_def take_Suc_conv_app_nth)
qed

text \<open>The rotating cursor visits \<open>rotation\<close>, and moving it past an id rotates the order.\<close>

fun visits :: "nat \<Rightarrow> nat \<Rightarrow> nat \<Rightarrow> nat list" where
  "visits c i 0 = []"
| "visits c i (Suc n) = i # visits c (if c \<le> Suc i then 1 else Suc i) n"

lemma visits_upt: "i + n \<le> c \<Longrightarrow> visits c i n = [i..<i + n]"
proof (induction n arbitrary: i)
  case (Suc n)
  then show ?case by (cases n) (simp_all add: upt_conv_Cons)
qed simp

lemma visits_wrap:
  assumes "i < c"
  shows "visits c i (c - i + n) = [i..<c] @ visits c 1 n"
  using assms
proof (induction "c - Suc i" arbitrary: i)
  case 0
  then have "c = Suc i" by simp
  then show ?case by simp
next
  case (Suc d)
  then have "visits c (Suc i) (c - Suc i + n) = [Suc i..<c] @ visits c 1 n" by simp
  moreover have "c - i + n = Suc (c - Suc i + n)" using Suc.prems by simp
  ultimately show ?case using Suc by (simp add: upt_conv_Cons)
qed

lemma visits_rotation:
  assumes "0 < i" and "i < c \<or> i = 1"
  shows "visits c i (c - 1) = rotation c i"
proof (cases "i < c")
  case True
  have "visits c i (c - i + (i - 1)) = [i..<c] @ visits c 1 (i - 1)" by (rule visits_wrap [OF True])
  then show ?thesis using assms(1) True by (simp add: visits_upt rotation_def)
next
  case False
  then show ?thesis using assms by (auto simp: rotation_def)
qed

lemma rotation_rotate:
  assumes "0 < i" and "i < c \<or> i = 1"
  shows "rotation c i = rotate (i - 1) [1..<c]"
  using assms by (auto simp: rotation_def rotate_drop_take take_upt)

lemma rotation_step:
  assumes "0 < i" and "i < c" and "rotation c i = us @ x # vs"
  shows "rotation c (if c \<le> Suc x then 1 else Suc x) = vs @ us @ [x]"
proof -
  let ?L = "[1..<c]" and ?k = "length us"
  let ?j = "if c \<le> Suc x then 1 else Suc x"
  have rot: "rotate (i - 1) ?L = us @ x # vs" using assms rotation_rotate [of i c] by simp
  then have len: "?k < c - 1" by (metis add_Suc_right length_append length_rotate length_upt
        less_add_Suc1 list.size(4) One_nat_def add.right_neutral)
  define m where "m = (i - 1 + ?k) mod (c - 1)"
  have m: "m < c - 1" unfolding m_def using len by (intro mod_less_divisor) simp
  have "x = ?L ! m"
    using rot len nth_rotate [of ?k ?L "i - 1"] by (simp add: m_def)
  then have x: "x = Suc m" using m by simp
  then have x_less: "x < c" using m by simp
  have "?j - 1 = x mod (c - 1)"
  proof (cases "c \<le> Suc x")
    case True
    then have "x = c - 1" using x_less by simp
    then show ?thesis using True by simp
  qed (use x_less in simp)
  also have "\<dots> = (i + ?k) mod (c - 1)"
    using assms(1) by (simp add: x m_def mod_Suc_eq)
  finally have "rotate (?j - 1) ?L = rotate (i + ?k) ?L"
    by (metis length_upt rotate_conv_mod)
  also have "i + ?k = Suc ?k + (i - 1)" using assms(1) by simp
  also have "rotate (Suc ?k + (i - 1)) ?L = rotate (Suc ?k) (us @ x # vs)"
    by (simp only: rotate_rotate [symmetric] rot)
  also have "\<dots> = rotate (length (us @ [x])) ((us @ [x]) @ vs)" by simp
  also have "\<dots> = vs @ us @ [x]" by (subst rotate_append) simp
  finally show ?thesis using rotation_rotate [of ?j c] x_less by auto
qed

lemma mono_scan_visits:
  assumes "0 < i" and "i < unat (capacity t) \<or> i = 1"
  shows "mono_scan t (of_nat i) n =
    (case filter (\<lambda>j. slots t ! j = None) (visits (unat (capacity t)) i n) of
       [] \<Rightarrow> (t, 0)
     | j # _ \<Rightarrow> (t\<lparr>next_scan := wrap_next t (of_nat j)\<rparr>, of_nat j))"
  using assms
proof (induction n arbitrary: i)
  case (Suc n)
  let ?c = "unat (capacity t)"
  let ?j = "if ?c \<le> Suc i then 1 else Suc i"
  have small: "i < 4294967295"
    using Suc.prems by (auto dest: less_unat_u32)
  have u: "unat (of_nat i :: u32) = i" using small by (intro unat_of_nat_u32) simp
  have nz: "(of_nat i :: u32) \<noteq> 0" using u Suc.prems(1) by auto
  have "unat (of_nat i + 1 :: u32) = Suc i" using small u by (simp add: unat_add_u32)
  then have next_eq: "wrap_next t (of_nat i) = of_nat ?j"
    by (simp add: wrap_next_def word_le_nat_alt)
  have "mono_scan t (of_nat ?j) n =
    (case filter (\<lambda>j. slots t ! j = None) (visits ?c ?j n) of
       [] \<Rightarrow> (t, 0)
     | j # _ \<Rightarrow> (t\<lparr>next_scan := wrap_next t (of_nat j)\<rparr>, of_nat j))"
    by (rule Suc.IH) auto
  moreover have "mono_scan t (of_nat i) (Suc n) =
      (if slots t ! i = None then (t\<lparr>next_scan := wrap_next t (of_nat i)\<rparr>, of_nat i)
       else mono_scan t (of_nat ?j) n)"
    by (simp only: mono_scan.simps Let_def nz if_False u next_eq)
  ultimately show ?case by simp
qed simp

lemma map_of_nat_filter:
  assumes "\<forall>j \<in> set js. j < 4294967296"
  shows "filter (\<lambda>i. P (unat i)) (map of_nat js :: u32 list) = map of_nat (filter P js)"
  using assms by (induction js) (simp_all add: unat_of_nat_u32)

lemma rotation_bound: "j \<in> set (rotation c i) \<Longrightarrow> i < c \<or> i = 1 \<Longrightarrow> 0 < i \<Longrightarrow> 0 < j \<and> j < c"
  by (auto simp: rotation_def)

lemma scan_ids_nat:
  assumes "0 < next_scan t" and "next_scan t < capacity t \<or> next_scan t = 1"
  shows "scan_ids t = map of_nat
    (filter (\<lambda>j. slots t ! j = None) (rotation (unat (capacity t)) (unat (next_scan t))))"
proof -
  have "j < 4294967296" if "j \<in> set (rotation (unat (capacity t)) (unat (next_scan t)))" for j
  proof -
    have "unat (next_scan t) < unat (capacity t) \<or> unat (next_scan t) = 1" "0 < unat (next_scan t)"
      using assms by (auto simp: word_less_nat_alt)
    from rotation_bound [OF that this] have "j < unat (capacity t)" by simp
    from less_unat_u32 [OF this] show ?thesis by simp
  qed
  then show ?thesis unfolding scan_ids_def by (intro map_of_nat_filter) auto
qed

lemma scan_ids_take:
  assumes "0 < next_scan t" and "next_scan t < capacity t \<or> next_scan t = 1"
    and "scan_ids t = i # is" and "length (slots t) = unat (capacity t)"
  obtains n where "id_take_monotonic t = (t\<lparr>next_scan := n\<rparr>, i)" "0 < n" "n < capacity t \<or> n = 1"
    "\<And>obj. obj \<noteq> None \<Longrightarrow> scan_ids (t\<lparr>next_scan := n, slots := (slots t)[unat i := obj]\<rparr>) = is"
proof -
  let ?c = "unat (capacity t)" and ?s = "unat (next_scan t)"
  let ?free = "\<lambda>j. slots t ! j = None"
  have s: "0 < ?s" "?s < ?c \<or> ?s = 1" using assms(1,2) by (auto simp: word_less_nat_alt)
  obtain j js where j: "filter ?free (rotation ?c ?s) = j # js" "i = of_nat j" "is = map of_nat js"
    using assms(3) scan_ids_nat [OF assms(1,2)] by (auto simp: map_eq_Cons_conv)
  obtain us vs where rot: "rotation ?c ?s = us @ j # vs" "\<forall>u \<in> set us. \<not> ?free u" "js = filter ?free vs"
    using j(1) by (auto simp: filter_eq_Cons_iff)
  have jb: "0 < j" "j < ?c" using rotation_bound [of j ?c ?s] s rot(1) by auto
  have sc: "?s < ?c" using s jb by auto
  have uj: "unat i = j" unfolding j(2) by (rule unat_of_nat_u32) (use jb less_unat_u32 in fastforce)
  define n where "n = wrap_next t i"
  have "unat (i + 1) = Suc j"
    using less_unat_u32 [OF jb(2)] by (simp add: unat_add_u32 uj)
  then have n: "unat n = (if ?c \<le> Suc j then 1 else Suc j)"
    by (simp add: n_def wrap_next_def word_le_nat_alt)
  have take: "id_take_monotonic t = (t\<lparr>next_scan := n\<rparr>, i)"
    using mono_scan_visits [OF s, of "?c - 1"] visits_rotation [OF s] j(1,2)
    by (simp add: id_take_monotonic_def length_words_from n_def)
  have nb: "0 < n" "n < capacity t \<or> n = 1"
    using n jb by (auto simp: word_less_nat_alt word_unat_eq_iff)
  have rot': "rotation ?c (unat n) = vs @ us @ [j]"
    unfolding n by (rule rotation_step [OF s(1) sc rot(1)])
  have dist: "distinct (us @ j # vs)" using rot(1) by (metis distinct_rotate distinct_upt rotation_rotate [OF s])
  have "scan_ids (t\<lparr>next_scan := n, slots := (slots t)[unat i := obj]\<rparr>) = is" if "obj \<noteq> None" for obj
  proof -
    let ?t = "t\<lparr>next_scan := n, slots := (slots t)[unat i := obj]\<rparr>"
    have "scan_ids ?t = map of_nat (filter (\<lambda>k. (slots t)[j := obj] ! k = None) (vs @ us @ [j]))"
      using nb scan_ids_nat [of ?t] by (simp add: rot' uj)
    also have "filter (\<lambda>k. (slots t)[j := obj] ! k = None) (vs @ us @ [j]) = filter ?free vs"
      using rot(2) dist that jb(2) assms(4) by (auto simp: filter_empty_conv nth_list_update intro!: filter_cong)
    finally show ?thesis by (simp add: j(3) rot(3))
  qed
  with take nb show thesis by (rule that)
qed

section \<open>Insertion\<close>

lemma ht_inv_capacity: "ht_inv t \<Longrightarrow> 0 < unat (capacity t)"
  by (simp add: ht_inv_def word_less_nat_alt)

lemma free_ids_mem:
  assumes "ht_inv t"
  shows "i \<in> set (free_ids t) \<longleftrightarrow> in_range t i \<and> slots t ! unat i = None"
  using assms by (simp add: ht_inv_def)

lemma free_ids_empty: "ht_inv t \<Longrightarrow> free_count t = 0 \<longleftrightarrow> free_ids t = []"
  by (auto simp: ht_inv_def unat_eq_0)

lemma ht_inv_publish:
  assumes inv: "ht_inv t" "free_ids t = i # is"
    and slots: "slots t' = (slots t)[unat i := Some obj]"
    and same: "capacity t' = capacity t" "length (generation t') = length (generation t)"
      "length (freelist t') = length (freelist t)" "free_count t' = free_count t - 1"
    and cursors: "free_head t' < capacity t" "ht_policy t'"
      "0 < next_scan t'" "next_scan t' < capacity t \<or> next_scan t' = 1"
    and ids: "free_ids t' = is"
  shows "ht_inv t'"
proof -
  have t: "length (slots t) = unat (capacity t)" "distinct (i # is)" "length (i # is) = unat (free_count t)"
    "set (i # is) = {j. in_range t j \<and> slots t ! unat j = None}"
    using inv by (simp_all add: ht_inv_def)
  have i: "unat i < length (slots t)" using t(1,4) by (auto simp: in_range_def word_less_nat_alt)
  have "free_count t \<noteq> 0" using t(3) by auto
  then have "length is = unat (free_count t - 1)" using t(3) by (simp add: unat_minus_one)
  moreover have "j \<in> set is \<longleftrightarrow> in_range t' j \<and> slots t' ! unat j = None" for j
  proof (cases "j = i")
    case True
    then show ?thesis using t(2) i by (simp add: slots)
  next
    case False
    then have "unat j \<noteq> unat i" by (simp add: word_unat_eq_iff)
    moreover have "j \<in> set is \<longleftrightarrow> j \<in> set (i # is)" using False by simp
    ultimately show ?thesis unfolding t(4) by (simp add: slots in_range_def same(1))
  qed
  then have "set is = {j. in_range t' j \<and> slots t' ! unat j = None}" by blast
  ultimately show ?thesis
    using inv(1) same cursors t(2) unfolding ht_inv_def ids by (simp add: slots)
qed

text \<open>What a successful insertion at \<open>i\<close> does.\<close>

definition inserted :: "'a handle_table_t \<Rightarrow> u32 \<Rightarrow> 'a \<Rightarrow> 'a handle_table_t \<Rightarrow> bool" where
  "inserted t i obj t' \<longleftrightarrow> ht_inv t' \<and> free_ids t = i # free_ids t' \<and>
     slots t' = (slots t)[unat i := Some obj] \<and>
     generation t' = (generation t)[unat i := generation t ! unat i + 1] \<and>
     capacity t' = capacity t \<and> reuse t' = reuse t"

lemma ht_policy_fifo_take:
  assumes "ht_policy t" and "free_head t < capacity t" and "free_count t \<noteq> 0"
  shows "ht_policy (t\<lparr>free_head := (free_head t + 1) mod capacity t, free_count := free_count t - 1\<rparr>)"
proof -
  have n: "unat (free_count t) = Suc (unat (free_count t - 1))"
    using assms(3) by (simp add: unat_minus_one unat_gt_0)
  show ?thesis
    using assms(1) unfolding ht_policy_def n
    by (simp add: unat_Suc_mod [OF assms(2)] mod_add_left_eq)
qed

lemma slot_publish_fields [simp]:
  "slots (slot_publish t i obj) = (slots t)[unat i := obj]"
  "generation (slot_publish t i obj) = (generation t)[unat i := generation t ! unat i + 1]"
  "freelist (slot_publish t i obj) = freelist t" "free_head (slot_publish t i obj) = free_head t"
  "free_tail (slot_publish t i obj) = free_tail t" "free_count (slot_publish t i obj) = free_count t"
  "next_scan (slot_publish t i obj) = next_scan t" "capacity (slot_publish t i obj) = capacity t"
  "reuse (slot_publish t i obj) = reuse t"
  by (simp_all add: slot_publish_def)

lemma id_take_ids:
  assumes inv: "ht_inv t" and ids: "free_ids t = i # is"
  obtains h n where "id_take t = (t\<lparr>free_head := h, next_scan := n\<rparr>, i)"
    "h < capacity t" "0 < n" "n < capacity t \<or> n = 1"
    "ht_policy (t\<lparr>free_head := h, next_scan := n, free_count := free_count t - 1\<rparr>)"
    "\<And>obj. free_ids (slot_publish (t\<lparr>free_head := h, next_scan := n,
       free_count := free_count t - 1\<rparr>) i (Some obj)) = is"
proof -
  have t: "free_head t < capacity t" "0 < next_scan t" "next_scan t < capacity t \<or> next_scan t = 1"
    "ht_policy t" "length (slots t) = unat (capacity t)" "length (freelist t) = unat (capacity t)"
    using inv by (simp_all add: ht_inv_def)
  have count: "free_count t \<noteq> 0" using free_ids_empty [OF inv] ids by simp
  show thesis
  proof (cases "reuse t")
    case HT_REUSE_FIFO
    let ?h = "(free_head t + 1) mod capacity t"
    have "ring_ids t = i # is" using ids HT_REUSE_FIFO by (simp add: free_ids_def)
    then have "id_take t = (t\<lparr>free_head := ?h\<rparr>, i)"
      "ring_ids (t\<lparr>free_head := ?h, free_count := free_count t - 1\<rparr>) = is"
      using ring_ids_take [OF t(1) count] HT_REUSE_FIFO by (simp_all add: id_take_def id_take_fifo_def)
    moreover have "?h < capacity t" using t(1) by (simp add: word_less_nat_alt unat_mod)
    moreover note ht_policy_fifo_take [OF t(4,1) count]
    ultimately show thesis
      using t(2,3) HT_REUSE_FIFO
      by (intro that [where h = ?h and n = "next_scan t"]) (simp_all add: free_ids_def ring_ids_def ht_policy_def)
  next
    case HT_REUSE_LIFO
    have "unat (free_count t) \<le> length (freelist t)" using free_count_bound(1) [OF inv] t(6) by simp
    from stack_ids_take [OF this count] ids HT_REUSE_LIFO
    have "id_take t = (t, i)" "stack_ids (t\<lparr>free_count := free_count t - 1\<rparr>) = is"
      by (simp_all add: free_ids_def id_take_def id_take_lifo_def)
    then show thesis
      using t(1,2,3) HT_REUSE_LIFO
      by (intro that [where h = "free_head t" and n = "next_scan t"]) (simp_all add: free_ids_def stack_ids_def ht_policy_def)
  next
    case HT_REUSE_MONOTONIC
    have "scan_ids t = i # is" using ids HT_REUSE_MONOTONIC by (simp add: free_ids_def)
    from t(2,3) this t(5) obtain n where n: "id_take_monotonic t = (t\<lparr>next_scan := n\<rparr>, i)" "0 < n"
      "n < capacity t \<or> n = 1"
      "\<And>obj. obj \<noteq> None \<Longrightarrow> scan_ids (t\<lparr>next_scan := n, slots := (slots t)[unat i := obj]\<rparr>) = is"
      by (rule scan_ids_take) blast
    have "id_take t = (t\<lparr>next_scan := n\<rparr>, i)" using n(1) HT_REUSE_MONOTONIC by (simp add: id_take_def)
    then show thesis
      using t(1) n(2,3) n(4) [of "Some _"] HT_REUSE_MONOTONIC
      by (intro that [where h = "free_head t" and n = n]) (simp_all add: free_ids_def scan_ids_def ht_policy_def)
  qed
qed

lemma handle_table_insert_cases:
  assumes "ht_inv t"
  obtains (full) "free_ids t = []" "handle_table_insert t (Some obj) = (t, \<lparr>ref_id = 0, ref_gen = 0\<rparr>)"
  | (ok) i t' where "handle_table_insert t (Some obj) =
        (t', \<lparr>ref_id = i, ref_gen = generation t ! unat i + 1\<rparr>)"
      "inserted t i obj t'" "in_range t i" "slots t ! unat i = None"
proof (cases "free_ids t")
  case Nil
  then show thesis using free_ids_empty [OF assms] by (intro full) (simp_all add: handle_table_insert_def)
next
  case (Cons i "is")
  have i: "in_range t i" "slots t ! unat i = None" using free_ids_mem [OF assms, of i] Cons by auto
  then have len: "unat i < length (generation t)"
    using assms by (simp add: ht_inv_def in_range_def word_less_nat_alt)
  have count: "free_count t \<noteq> 0" using free_ids_empty [OF assms] Cons by simp
  from assms Cons obtain h n where take: "id_take t = (t\<lparr>free_head := h, next_scan := n\<rparr>, i)"
    "h < capacity t" "0 < n" "n < capacity t \<or> n = 1"
    "ht_policy (t\<lparr>free_head := h, next_scan := n, free_count := free_count t - 1\<rparr>)"
    "free_ids (slot_publish (t\<lparr>free_head := h, next_scan := n,
       free_count := free_count t - 1\<rparr>) i (Some obj)) = is"
    by (rule id_take_ids) blast
  define t' where "t' = slot_publish (t\<lparr>free_head := h, next_scan := n,
       free_count := free_count t - 1\<rparr>) i (Some obj)"
  have "ht_inv t'"
    using assms Cons
    by (rule ht_inv_publish [where obj = obj])
      (use take in \<open>simp_all add: t'_def ht_policy_def\<close>)
  then have "inserted t i obj t'" using Cons take(6) by (simp add: inserted_def t'_def)
  moreover have "handle_table_insert t (Some obj) =
      (t', \<lparr>ref_id = i, ref_gen = generation t ! unat i + 1\<rparr>)"
    using count take(1) len by (simp add: handle_table_insert_def t'_def Let_def)
  ultimately show thesis using i by (intro ok)
qed

section \<open>Removal\<close>

lemma ring_ids_return:
  assumes "unat (free_tail t) = (unat (free_head t) + unat (free_count t)) mod unat (capacity t)"
    and "Suc (unat (free_count t)) < unat (capacity t)" and "length (freelist t) = unat (capacity t)"
  shows "ring_ids (t\<lparr>freelist := (freelist t)[unat (free_tail t) := i], free_count := free_count t + 1\<rparr>) =
    ring_ids t @ [i]"
proof -
  let ?c = "unat (capacity t)" and ?h = "unat (free_head t)" and ?n = "unat (free_count t)"
  have n: "unat (free_count t + 1) = Suc ?n"
    using assms(2) less_unat_u32 [of "Suc ?n" "capacity t"] by (simp add: unat_add_u32)
  have "(?h + k) mod ?c \<noteq> (?h + ?n) mod ?c" if "k < ?n" for k
  proof
    assume "(?h + k) mod ?c = (?h + ?n) mod ?c"
    then have "?c dvd ?n - k" using that mod_eq_dvd_iff_nat [of "?h + k" "?h + ?n" ?c] by auto
    then show False using that assms(2) by (auto dest: dvd_imp_le)
  qed
  then have "\<forall>k < ?n. (freelist t)[(?h + ?n) mod ?c := i] ! ((?h + k) mod ?c) = freelist t ! ((?h + k) mod ?c)"
    by (metis nth_list_update_neq)
  moreover have "(?h + ?n) mod ?c < ?c" using assms(2) by (intro mod_less_divisor) simp
  ultimately show ?thesis using assms(1,3) by (simp add: ring_ids_def n)
qed

lemma stack_ids_return:
  assumes "Suc (unat (free_count t)) < unat (capacity t)" and "length (freelist t) = unat (capacity t)"
  shows "stack_ids (t\<lparr>freelist := (freelist t)[unat (free_count t) := i], free_count := free_count t + 1\<rparr>) =
    i # stack_ids t"
proof -
  have "unat (free_count t + 1) = Suc (unat (free_count t))"
    using assms(1) less_unat_u32 [of "Suc (unat (free_count t))" "capacity t"] by (simp add: unat_add_u32)
  then show ?thesis using assms by (simp add: stack_ids_def take_Suc_conv_app_nth)
qed

text \<open>What a successful removal of \<open>i\<close> does; where the id goes depends on the policy.\<close>

definition removed :: "'a handle_table_t \<Rightarrow> u32 \<Rightarrow> 'a handle_table_t \<Rightarrow> bool" where
  "removed t i t' \<longleftrightarrow> ht_inv t' \<and> set (free_ids t') = insert i (set (free_ids t)) \<and>
     (reuse t = HT_REUSE_FIFO \<longrightarrow> free_ids t' = free_ids t @ [i]) \<and>
     (reuse t = HT_REUSE_LIFO \<longrightarrow> free_ids t' = i # free_ids t) \<and>
     slots t' = (slots t)[unat i := None] \<and> generation t' = generation t \<and>
     capacity t' = capacity t \<and> reuse t' = reuse t"

lemma ht_inv_release:
  assumes inv: "ht_inv t" "in_range t i" "slots t ! unat i \<noteq> None"
    and slots: "slots t' = (slots t)[unat i := None]"
    and same: "capacity t' = capacity t" "generation t' = generation t"
      "length (freelist t') = length (freelist t)" "free_count t' = free_count t + 1"
      "free_head t' = free_head t" "next_scan t' = next_scan t" "ht_policy t'"
    and ids: "distinct (free_ids t')" "set (free_ids t') = insert i (set (free_ids t))"
  shows "ht_inv t'"
proof -
  have i: "unat i < length (slots t)"
    using inv(1,2) by (simp add: ht_inv_def in_range_def word_less_nat_alt)
  have "Suc (unat (free_count t)) < unat (capacity t)" by (rule free_count_bound(2) [OF inv])
  then have n: "unat (free_count t + 1) = Suc (unat (free_count t))"
    using less_unat_u32 [of "Suc (unat (free_count t))" "capacity t"] by (simp add: unat_add_u32)
  have "i \<notin> set (free_ids t)" using free_ids_mem [OF inv(1)] inv(3) by simp
  then have "card (set (free_ids t')) = Suc (card (set (free_ids t)))" by (simp add: ids(2))
  then have len: "length (free_ids t') = unat (free_count t')"
    using inv(1) ids(1) n same(4) by (metis distinct_card ht_inv_def)
  have "j \<in> set (free_ids t') \<longleftrightarrow> in_range t' j \<and> slots t' ! unat j = None" for j
  proof (cases "j = i")
    case True
    then show ?thesis using i inv(2) by (simp add: ids(2) slots in_range_def same(1))
  next
    case False
    then have "unat j \<noteq> unat i" by (simp add: word_unat_eq_iff)
    with False show ?thesis
      by (simp add: ids(2) slots in_range_def same(1) free_ids_mem [OF inv(1)])
  qed
  then have "set (free_ids t') = {j. in_range t' j \<and> slots t' ! unat j = None}" by blast
  with inv(1) same ids(1) len show ?thesis by (simp add: ht_inv_def slots)
qed

lemma set_rotation: "0 < i \<Longrightarrow> i < c \<or> i = 1 \<Longrightarrow> set (rotation c i) = {1..<c}"
  by (auto simp: rotation_def)

lemma scan_ids_set:
  assumes "0 < next_scan t" and "next_scan t < capacity t \<or> next_scan t = 1"
  shows "distinct (scan_ids t)" and "set (scan_ids t) = {i. in_range t i \<and> slots t ! unat i = None}"
proof -
  let ?r = "rotation (unat (capacity t)) (unat (next_scan t))"
  have s: "0 < unat (next_scan t)" "unat (next_scan t) < unat (capacity t) \<or> unat (next_scan t) = 1"
    using assms by (auto simp: word_less_nat_alt)
  have set: "set ?r = {1..<unat (capacity t)}" by (rule set_rotation [OF s])
  have u: "unat (of_nat j :: u32) = j" if "j < unat (capacity t)" for j
    using less_unat_u32 [OF that] by (intro unat_of_nat_u32) simp
  have "distinct ?r" by (simp add: rotation_rotate [OF s])
  moreover have "inj_on (of_nat :: nat \<Rightarrow> u32) (set ?r)"
    unfolding set by (rule inj_onI) (metis u atLeastLessThan_iff)
  ultimately show "distinct (scan_ids t)" by (simp add: scan_ids_def distinct_map)
  have "of_nat ` set ?r = {i. in_range t i}"
  proof (intro equalityI subsetI)
    fix x :: u32 assume "x \<in> of_nat ` set ?r"
    then show "x \<in> {i. in_range t i}" using u by (auto simp: set in_range_def word_less_nat_alt)
  next
    fix x :: u32 assume "x \<in> {i. in_range t i}"
    then have "unat x \<in> set ?r" "x = of_nat (unat x)" by (auto simp: set in_range_def word_less_nat_alt)
    then show "x \<in> of_nat ` set ?r" by blast
  qed
  then show "set (scan_ids t) = {i. in_range t i \<and> slots t ! unat i = None}"
    by (auto simp: scan_ids_def)
qed

lemma handle_table_remove_ids:
  assumes inv: "ht_inv t" and i: "in_range t i" "slots t ! unat i \<noteq> None"
  defines "t' \<equiv> fst (handle_table_remove t i)"
  shows "ht_policy t' \<and> distinct (free_ids t') \<and> set (free_ids t') = insert i (set (free_ids t)) \<and>
    (reuse t = HT_REUSE_FIFO \<longrightarrow> free_ids t' = free_ids t @ [i]) \<and>
    (reuse t = HT_REUSE_LIFO \<longrightarrow> free_ids t' = i # free_ids t)"
proof -
  note bound = free_count_bound(2) [OF inv i]
  have n: "unat (free_count t + 1) = Suc (unat (free_count t))"
    using bound less_unat_u32 [OF bound] by (simp add: unat_add_u32)
  have t: "0 < next_scan t" "next_scan t < capacity t \<or> next_scan t = 1"
    "ht_policy t" "length (freelist t) = unat (capacity t)" "distinct (free_ids t)" "i \<notin> set (free_ids t)"
    using inv free_ids_mem [OF inv] i by (simp_all add: ht_inv_def)
  show ?thesis
  proof (cases "reuse t")
    case HT_REUSE_FIFO
    then have tail: "unat (free_tail t) = (unat (free_head t) + unat (free_count t)) mod unat (capacity t)"
      using t(3) by (simp add: ht_policy_def)
    then have "free_tail t < capacity t" using bound by (simp add: word_less_nat_alt)
    then have "ht_policy t'"
      using HT_REUSE_FIFO i tail n unat_Suc_mod [of "free_tail t" "capacity t"]
      by (simp add: t'_def ht_policy_def handle_table_remove_def Let_def id_return_fifo_def mod_Suc_eq)
    moreover have "free_ids t' = free_ids t @ [i]"
      using ring_ids_return [OF tail bound t(4), of i] HT_REUSE_FIFO i
      by (simp add: t'_def free_ids_def ring_ids_def handle_table_remove_def Let_def id_return_fifo_def)
    ultimately show ?thesis using t(5,6) HT_REUSE_FIFO by simp
  next
    case HT_REUSE_LIFO
    have "free_ids t' = i # free_ids t"
      using stack_ids_return [OF bound t(4), of i] HT_REUSE_LIFO i
      by (simp add: t'_def free_ids_def stack_ids_def handle_table_remove_def Let_def id_return_lifo_def)
    moreover have "ht_policy t'"
      using HT_REUSE_LIFO i by (simp add: t'_def ht_policy_def handle_table_remove_def Let_def id_return_lifo_def)
    ultimately show ?thesis using t(5,6) HT_REUSE_LIFO by simp
  next
    case HT_REUSE_MONOTONIC
    then have eq: "t' = t\<lparr>slots := (slots t)[unat i := None], free_count := free_count t + 1\<rparr>"
      using i by (auto simp: t'_def handle_table_remove_def Let_def)
    have len: "unat i < length (slots t)"
      using inv i(1) by (simp add: ht_inv_def in_range_def word_less_nat_alt)
    have "distinct (scan_ids t')" "set (scan_ids t') = {j. in_range t' j \<and> slots t' ! unat j = None}"
      using scan_ids_set [of t'] t(1,2) by (simp_all add: eq)
    moreover have "{j. in_range t' j \<and> slots t' ! unat j = None} =
        insert i {j. in_range t j \<and> slots t ! unat j = None}"
      using i(1) len by (auto simp: eq in_range_def nth_list_update unat_eq_iff_u32 [symmetric])
    moreover have "set (free_ids t) = {j. in_range t j \<and> slots t ! unat j = None}"
      using inv by (simp add: ht_inv_def)
    ultimately show ?thesis
      using HT_REUSE_MONOTONIC by (simp add: eq free_ids_def ht_policy_def)
  qed
qed

lemma handle_table_remove_cases:
  assumes "ht_inv t"
  obtains (absent) "handle_table_remove t i = (t, None)" "handle_table_get t i = None"
  | (ok) obj t' where "handle_table_remove t i = (t', Some obj)" "in_range t i"
      "slots t ! unat i = Some obj" "removed t i t'"
proof (cases "in_range t i \<and> slots t ! unat i \<noteq> None")
  case False
  then show thesis by (intro absent) (auto simp: handle_table_remove_def handle_table_get_def)
next
  case True
  then obtain obj where obj: "slots t ! unat i = Some obj" by auto
  define t' where "t' = fst (handle_table_remove t i)"
  have eq: "handle_table_remove t i = (t', Some obj)"
    using True obj by (simp add: t'_def handle_table_remove_def Let_def)
  note ids = handle_table_remove_ids [OF assms conjunct1 [OF True] conjunct2 [OF True], folded t'_def]
  have f: "slots t' = (slots t)[unat i := None]" "capacity t' = capacity t" "generation t' = generation t"
    "length (freelist t') = length (freelist t)" "free_count t' = free_count t + 1"
    "free_head t' = free_head t" "next_scan t' = next_scan t" "reuse t' = reuse t"
    using True obj by (simp_all add: t'_def handle_table_remove_def Let_def id_return_fifo_def id_return_lifo_def)
  have "ht_inv t'"
    by (rule ht_inv_release [OF assms conjunct1 [OF True] conjunct2 [OF True]])
      (use f ids in simp_all)
  then have "removed t i t'" using ids f by (simp add: removed_def)
  with eq True obj show thesis by (intro ok) simp_all
qed

section \<open>Initial table\<close>

lemma fold_upd_upt:
  assumes "\<And>i. 0 < i \<Longrightarrow> i \<le> n \<Longrightarrow> pos i = i - 1" and "n \<le> length xs"
  shows "fold (\<lambda>i xs. xs[pos i := f i]) [1..<Suc n] xs = map f [1..<Suc n] @ drop n xs"
  using assms
proof (induction n)
  case (Suc n)
  then have "fold (\<lambda>i xs. xs[pos i := f i]) [1..<Suc n] xs = map f [1..<Suc n] @ drop n xs" by simp
  moreover have "drop n xs = xs ! n # drop (Suc n) xs" using Suc.prems(2) by (simp add: Cons_nth_drop_Suc)
  ultimately show ?case using Suc.prems(1) [of "Suc n"] by (simp add: list_update_append)
qed simp

lemma init_freelist:
  fixes f :: "u32 \<Rightarrow> u32"
  assumes "0 < cap"
  shows "fold (\<lambda>i fl. fl[unat (i - 1) := f i]) (words_from 1 cap) (replicate (unat cap) 0) =
    map (f \<circ> of_nat) [1..<unat cap] @ [0]"
proof -
  have c: "unat cap = Suc (unat cap - 1)" using assms by (simp add: word_less_nat_alt)
  have pos: "unat (of_nat i - 1 :: u32) = i - 1" if "0 < i" "i \<le> unat cap - 1" for i
  proof -
    have "i < 4294967296" using that less_unat_u32 [of i cap] c by linarith
    then have "unat (of_nat i :: u32) = i" by (rule unat_of_nat_u32)
    with that(1) show ?thesis by (simp add: unat_minus_one unat_gt_0 [symmetric])
  qed
  have "fold (\<lambda>i fl. fl[unat (i - 1) := f i]) (words_from 1 cap) (replicate (unat cap) 0) =
      fold (\<lambda>i fl. fl[unat (of_nat i - 1 :: u32) := (f \<circ> of_nat) i]) [1..<Suc (unat cap - 1)]
        (replicate (unat cap) 0)"
    using c by (simp add: words_from_def fold_map comp_def)
  also have "\<dots> = map (f \<circ> of_nat) [1..<Suc (unat cap - 1)] @ drop (unat cap - 1) (replicate (unat cap) 0)"
    using pos by (intro fold_upd_upt) auto
  also have "drop (unat cap - 1) (replicate (unat cap) (0 :: u32)) = [0]"
  proof -
    have "unat cap - (unat cap - 1) = 1" using c by simp
    then show ?thesis by (simp only: drop_replicate) simp
  qed
  finally show ?thesis using c by simp
qed

lemma init_fields:
  fixes t0 :: "'a handle_table_t" and cap policy
  defines "t \<equiv> fst (handle_table_init True cap policy t0)"
  shows "slots t = replicate (unat cap) None" "generation t = replicate (unat cap) 0" "free_head t = 0"
    "free_tail t = cap - 1" "free_count t = cap - 1" "next_scan t = 1" "capacity t = cap" "reuse t = policy"
  by (simp_all add: t_def handle_table_init_def Let_def)

lemma init_free_ids:
  assumes "0 < cap"
  shows "free_ids (fst (handle_table_init True cap policy t0)) = words_from 1 cap"
proof -
  let ?t = "fst (handle_table_init True cap policy t0)"
  note f = init_fields [of cap policy t0]
  have c: "unat (cap - 1) = unat cap - 1" "0 < unat cap"
    using assms by (simp_all add: unat_minus_one word_less_nat_alt unat_gt_0)
  have low: "map of_nat [1..<unat cap] ! k = (of_nat (Suc k) :: u32)" if "k < unat cap - 1" for k
    using that by (subst nth_map) simp_all
  show ?thesis
  proof (cases policy)
    case HT_REUSE_FIFO
    then have fl: "freelist ?t = map of_nat [1..<unat cap] @ [0]"
      using init_freelist [OF assms, of "\<lambda>i. i"] by (simp add: handle_table_init_def comp_def)
    have "ring_ids ?t = map (\<lambda>k. (map of_nat [1..<unat cap] @ [0]) ! k) [0..<unat cap - 1]"
      using c by (simp add: ring_ids_def f fl)
    also have "\<dots> = map of_nat [1..<unat cap]"
      using c(2) by (intro nth_equalityI) (simp_all add: nth_append)
    finally show ?thesis using HT_REUSE_FIFO f(8) by (simp add: free_ids_def words_from_def)
  next
    case HT_REUSE_LIFO
    then have fl: "freelist ?t = map ((\<lambda>i. cap - i) \<circ> of_nat) [1..<unat cap] @ [0]"
      using init_freelist [OF assms, of "\<lambda>i. cap - i"] by (simp add: handle_table_init_def comp_def)
    have "stack_ids ?t = rev (map ((\<lambda>i. cap - i) \<circ> of_nat) [1..<unat cap])"
      by (simp add: stack_ids_def f fl c)
    also have "\<dots> = map of_nat [1..<unat cap]"
    proof (rule nth_equalityI)
      fix k assume "k < length (rev (map ((\<lambda>i. cap - i) \<circ> of_nat) [1..<unat cap]))"
      then have k: "k < unat cap - 1" by simp
      then have "cap - of_nat (unat cap - Suc k) = (of_nat (Suc k) :: u32)"
        by (simp add: of_nat_diff)
      then show "rev (map ((\<lambda>i. cap - i) \<circ> of_nat) [1..<unat cap]) ! k = map of_nat [1..<unat cap] ! k"
        using k by (simp add: rev_nth Suc_diff_Suc)
    qed simp
    finally show ?thesis using HT_REUSE_LIFO f(8) by (simp add: free_ids_def words_from_def)
  next
    case HT_REUSE_MONOTONIC
    have "scan_ids ?t = map of_nat (filter (\<lambda>j. slots ?t ! j = None) [1..<unat cap])"
      using scan_ids_nat [of ?t] by (simp add: f rotation_def)
    also have "filter (\<lambda>j. slots ?t ! j = None) [1..<unat cap] = [1..<unat cap]"
      by (simp add: f filter_id_conv)
    finally show ?thesis using HT_REUSE_MONOTONIC f(8) by (simp add: free_ids_def words_from_def)
  qed
qed

lemma handle_table_init_inv:
  assumes "0 < cap"
  shows "ht_inv (fst (handle_table_init True cap policy t0))"
proof -
  let ?t = "fst (handle_table_init True cap policy t0)"
  note f = init_fields [of cap policy t0] and ids = init_free_ids [OF assms, of policy t0]
  have c: "unat (cap - 1) = unat cap - 1" "0 < unat cap"
    using assms by (simp_all add: unat_minus_one word_less_nat_alt unat_gt_0)
  have "length (freelist ?t) = unat cap"
    using init_freelist [OF assms, of "\<lambda>i. i"] init_freelist [OF assms, of "\<lambda>i. cap - i"] c
    by (cases policy) (simp_all add: handle_table_init_def comp_def Let_def)
  moreover have "set (words_from 1 cap) = {i. in_range ?t i \<and> slots ?t ! unat i = None}"
    by (auto simp: in_range_def f word_less_nat_alt word_le_nat_alt)
  ultimately show ?thesis
    unfolding ht_inv_def ids
    using c assms by (simp add: init_fields ht_policy_def length_words_from)
qed

section \<open>The contract of a slot table\<close>

text \<open>
  What the subsystems that keep their objects in a table rely on: an insertion either leaves
  the table alone (id 0) or adds one object under a fresh id, a removal returns what was there.
\<close>

locale slot_table =
  fixes inv :: "'t \<Rightarrow> bool" and get :: "'t \<Rightarrow> u32 \<Rightarrow> 'a option"
    and ins :: "'t \<Rightarrow> 'a \<Rightarrow> 't \<times> u32" and del :: "'t \<Rightarrow> u32 \<Rightarrow> 't \<times> 'a option"
  assumes get_0: "inv t \<Longrightarrow> get t 0 = None"
    and ins_full: "inv t \<Longrightarrow> ins t x = (t', 0) \<Longrightarrow> t' = t"
    and ins_ok: "inv t \<Longrightarrow> ins t x = (t', i) \<Longrightarrow> i \<noteq> 0 \<Longrightarrow>
      inv t' \<and> get t i = None \<and> get t' = (get t)(i \<mapsto> x)"
    and del_ok: "inv t \<Longrightarrow> del t i = (t', r) \<Longrightarrow> inv t' \<and> r = get t i \<and> get t' = (get t)(i := None)"
begin

lemma ins_inv: "inv t \<Longrightarrow> ins t x = (t', i) \<Longrightarrow> inv t'"
  by (cases "i = 0") (use ins_full ins_ok in blast)+

lemma ins_del:
  assumes "inv t" and "ins t x = (t', i)" and "i \<noteq> 0"
  shows "snd (del t' i) = Some x" and "get (fst (del t' i)) = get t" and "inv (fst (del t' i))"
proof -
  obtain t'' r where d: "del t' i = (t'', r)" by (cases "del t' i")
  have t': "inv t'" "get t i = None" "get t' = (get t)(i \<mapsto> x)" using ins_ok assms by auto
  from del_ok [OF t'(1) d] have "inv t''" "r = Some x" "get t'' = (get t)(i := None)"
    by (simp_all add: t'(3))
  then show "snd (del t' i) = Some x" "get (fst (del t' i)) = get t" "inv (fst (del t' i))"
    using t'(2) d by (simp_all add: fun_upd_idem)
qed

lemma del_twice: "inv t \<Longrightarrow> snd (del (fst (del t i)) i) = None"
  using del_ok by (metis fun_upd_same prod.collapse)

end

abbreviation table_put :: "'a handle_table_t \<Rightarrow> 'a \<Rightarrow> 'a handle_table_t \<times> u32" where
  "table_put t x \<equiv> map_prod id ref_id (handle_table_insert t (Some x))"

lemma inserted_get:
  assumes "ht_inv t" and "inserted t i obj t'"
  shows "handle_table_get t' = (handle_table_get t)(i \<mapsto> obj)"
    and "handle_table_get t i = None" and "i \<noteq> 0" and "in_range t i" and "in_range t' i"
proof -
  have i: "in_range t i" "slots t ! unat i = None"
    using free_ids_mem [OF assms(1), of i] assms(2) by (auto simp: inserted_def)
  then have len: "unat i < length (slots t)"
    using assms(1) by (simp add: ht_inv_def in_range_def word_less_nat_alt)
  show "handle_table_get t i = None" "i \<noteq> 0" "in_range t i" "in_range t' i"
    using i assms(2) by (auto simp: handle_table_get_def in_range_def inserted_def)
  show "handle_table_get t' = (handle_table_get t)(i \<mapsto> obj)"
    using i len assms(2)
    by (auto simp: fun_eq_iff handle_table_get_def in_range_def inserted_def nth_list_update
        unat_eq_iff_u32 [symmetric])
qed

lemma removed_get:
  assumes "ht_inv t" and "in_range t i" and "removed t i t'"
  shows "handle_table_get t' = (handle_table_get t)(i := None)"
proof -
  have "unat i < length (slots t)"
    using assms(1,2) by (simp add: ht_inv_def in_range_def word_less_nat_alt)
  then show ?thesis
    using assms(2,3)
    by (auto simp: fun_eq_iff handle_table_get_def in_range_def removed_def nth_list_update
        unat_eq_iff_u32 [symmetric])
qed

interpretation ht: slot_table ht_inv handle_table_get table_put handle_table_remove
proof unfold_locales
  fix t :: "'a handle_table_t"
  show "handle_table_get t 0 = None" by (simp add: handle_table_get_def in_range_def)
next
  fix t t' :: "'a handle_table_t" and x
  assume "ht_inv t" "table_put t x = (t', 0)"
  then show "t' = t"
    by (cases rule: handle_table_insert_cases [where obj = x]) (auto simp: in_range_def)
next
  fix t t' :: "'a handle_table_t" and x i
  assume inv: "ht_inv t" and put: "table_put t x = (t', i)" and "i \<noteq> 0"
  from inv show "ht_inv t' \<and> handle_table_get t i = None \<and> handle_table_get t' = (handle_table_get t)(i \<mapsto> x)"
  proof (cases rule: handle_table_insert_cases [where obj = x])
    case full
    then show ?thesis using put \<open>i \<noteq> 0\<close> by auto
  next
    case (ok j u)
    then show ?thesis using put inserted_get [OF inv ok(2)] by (auto simp: inserted_def)
  qed
next
  fix t t' :: "'a handle_table_t" and i r
  assume inv: "ht_inv t" and del: "handle_table_remove t i = (t', r)"
  from inv show "ht_inv t' \<and> r = handle_table_get t i \<and> handle_table_get t' = (handle_table_get t)(i := None)"
  proof (cases rule: handle_table_remove_cases [where i = i])
    case absent
    then show ?thesis using del inv by (auto simp: fun_upd_idem)
  next
    case (ok obj u)
    then show ?thesis
      using del removed_get [OF inv ok(2,4)] by (auto simp: removed_def handle_table_get_def)
  qed
qed

section \<open>Properties\<close>

text \<open>
  The table is a correct allocator of ids under each of the three policies.  Insertion
  fails (id 0) exactly when no id is free; otherwise it stores the object under the next id of
  the policy's order, which was free, changes no other entry, and the returned reference
  resolves to the object.  Removal returns what was stored and recycles the id: last in line
  under FIFO, next in line under LIFO.
\<close>

theorem handle_table_policy:
  assumes "ht_inv t" and "handle_table_insert t (Some obj) = (t', ref)"
    and "handle_table_remove t i = (u, r)"
  shows "ht_inv t' \<and> ht_inv u \<and>
    (free_ids t = [] \<longrightarrow> t' = t \<and> ref_id ref = 0) \<and>
    (free_ids t \<noteq> [] \<longrightarrow> ref_id ref \<noteq> 0 \<and> free_ids t = ref_id ref # free_ids t' \<and>
       handle_table_get t (ref_id ref) = None \<and>
       handle_table_get t' = (handle_table_get t)(ref_id ref \<mapsto> obj) \<and>
       handle_table_get_checked t' ref = Some obj) \<and>
    r = handle_table_get t i \<and> handle_table_get u = (handle_table_get t)(i := None) \<and>
    (r \<noteq> None \<longrightarrow> reuse t = HT_REUSE_FIFO \<longrightarrow> free_ids u = free_ids t @ [i]) \<and>
    (r \<noteq> None \<longrightarrow> reuse t = HT_REUSE_LIFO \<longrightarrow> free_ids u = i # free_ids t)"
proof -
  have del: "ht_inv u \<and> r = handle_table_get t i \<and> handle_table_get u = (handle_table_get t)(i := None)"
    by (rule ht.del_ok [OF assms(1,3)])
  have order: "r \<noteq> None \<longrightarrow> (reuse t = HT_REUSE_FIFO \<longrightarrow> free_ids u = free_ids t @ [i]) \<and>
      (reuse t = HT_REUSE_LIFO \<longrightarrow> free_ids u = i # free_ids t)"
    using assms(1)
    by (cases rule: handle_table_remove_cases [where i = i]) (use assms(3) in \<open>auto simp: removed_def\<close>)
  from assms(1) show ?thesis
  proof (cases rule: handle_table_insert_cases [where obj = obj])
    case full
    then show ?thesis using assms(1,2) del order by auto
  next
    case (ok j v)
    then have eq: "t' = v" "ref = \<lparr>ref_id = j, ref_gen = generation t ! unat j + 1\<rparr>"
      using assms(2) by simp_all
    note get = inserted_get [OF assms(1) ok(2)]
    have "unat j < length (generation t)" "unat j < length (slots t)"
      using assms(1) ok(3) by (simp_all add: ht_inv_def in_range_def word_less_nat_alt)
    then have "handle_table_get_checked v ref = Some obj"
      using ok(2) get(5) by (simp add: handle_table_get_checked_def eq(2) inserted_def)
    then show ?thesis using del order ok(2) get unfolding eq(1) by (simp add: eq(2) inserted_def)
  qed
qed

datatype 'a ht_op = Put 'a | Drop u32

fun ht_step :: "'a ht_op \<Rightarrow> 'a handle_table_t \<Rightarrow> 'a handle_table_t" where
  "ht_step (Put x) t = fst (handle_table_insert t (Some x))"
| "ht_step (Drop i) t = fst (handle_table_remove t i)"

lemma ht_step_inv: "ht_inv t \<Longrightarrow> ht_inv (ht_step op t)"
proof (cases op)
  case (Put x)
  obtain t' ref where "handle_table_insert t (Some x) = (t', ref)" by (cases "handle_table_insert t (Some x)")
  then show "ht_inv t \<Longrightarrow> ht_inv (ht_step op t)" using ht.ins_inv [of t x t' "ref_id ref"] Put by simp
next
  case (Drop i)
  obtain t' r where "handle_table_remove t i = (t', r)" by (cases "handle_table_remove t i")
  then show "ht_inv t \<Longrightarrow> ht_inv (ht_step op t)" using ht.del_ok [of t i t' r] Drop by simp
qed

text \<open>
  A slot that was emptied at generation \<open>g\<close> is still empty at \<open>g\<close>, or has since been reused
  \<open>k\<close> times, which moved its generation \<open>k\<close> steps on.
\<close>

definition stale :: "'a handle_table_t \<Rightarrow> u32 \<Rightarrow> u32 \<Rightarrow> nat \<Rightarrow> bool" where
  "stale t i g k \<longleftrightarrow> (generation t ! unat i = g \<and> slots t ! unat i = None) \<or>
     (\<exists>m. 0 < m \<and> m \<le> k \<and> generation t ! unat i = g + of_nat m)"

lemma stale_mono: "stale t i g k \<Longrightarrow> stale t i g (Suc k)"
  unfolding stale_def by (elim disjE exE conjE) (auto intro: le_SucI)

lemma stale_reuse:
  assumes "stale t i g k" and "generation u ! unat i = generation t ! unat i + 1"
  shows "stale u i g (Suc k)"
proof -
  have "\<exists>m \<le> k. generation t ! unat i = g + of_nat m"
    using assms(1) unfolding stale_def by (elim disjE) (rule exI [of _ 0], simp, blast)
  then obtain m where m: "m \<le> k" "generation t ! unat i = g + of_nat m" by blast
  then have "generation u ! unat i = g + of_nat (Suc m)" using assms(2) by simp
  then show ?thesis unfolding stale_def using m(1) by (intro disjI2 exI [of _ "Suc m"]) simp
qed

lemma stale_other:
  "stale t i g k \<Longrightarrow> slots u ! unat i = slots t ! unat i \<or> slots u ! unat i = None \<Longrightarrow>
   generation u ! unat i = generation t ! unat i \<Longrightarrow> stale u i g k"
  unfolding stale_def by auto

lemma stale_step:
  assumes "ht_inv t" and "in_range t i" and "stale t i g k"
  shows "in_range (ht_step op t) i \<and> stale (ht_step op t) i g (Suc k)"
proof -
  have len: "unat i < length (generation t)"
    using assms(1,2) by (simp add: ht_inv_def in_range_def word_less_nat_alt)
  show ?thesis
  proof (cases op)
    case (Put x)
    from assms(1) show ?thesis
    proof (cases rule: handle_table_insert_cases [where obj = x])
      case full
      then show ?thesis using assms(2) stale_mono [OF assms(3)] Put by simp
    next
      case (ok j u)
      then have u: "slots u = (slots t)[unat j := Some x]" "capacity u = capacity t"
        "generation u = (generation t)[unat j := generation t ! unat j + 1]" by (simp_all add: inserted_def)
      have "stale u i g (Suc k)"
      proof (cases "j = i")
        case True
        then show ?thesis using len by (intro stale_reuse [OF assms(3)]) (simp add: u)
      next
        case False
        then have "unat j \<noteq> unat i" by (simp add: unat_eq_iff_u32)
        then show ?thesis by (intro stale_mono stale_other [OF assms(3)]) (simp_all add: u)
      qed
      then show ?thesis using assms(2) Put ok(1) u(2) by (simp add: in_range_def)
    qed
  next
    case (Drop j)
    from assms(1) show ?thesis
    proof (cases rule: handle_table_remove_cases [where i = j])
      case absent
      then show ?thesis using assms(2) stale_mono [OF assms(3)] Drop by simp
    next
      case (ok obj u)
      then have u: "slots u = (slots t)[unat j := None]" "capacity u = capacity t"
        "generation u = generation t" by (simp_all add: removed_def)
      have "slots u ! unat i = slots t ! unat i \<or> slots u ! unat i = None"
        unfolding u(1) by (metis nth_list_update_eq nth_list_update_neq list_update_beyond not_le)
      then have "stale u i g (Suc k)" by (intro stale_mono stale_other [OF assms(3)]) (simp_all add: u)
      then show ?thesis using assms(2) Drop ok(1) u(2) by (simp add: in_range_def)
    qed
  qed
qed

lemma stale_run:
  assumes "ht_inv t" and "in_range t i" and "stale t i g k"
  shows "in_range (fold ht_step ops t) i \<and> stale (fold ht_step ops t) i g (k + length ops)"
  using assms
proof (induction ops arbitrary: t k)
  case (Cons op ops)
  have "in_range (ht_step op t) i" "stale (ht_step op t) i g (Suc k)"
    using stale_step [OF Cons.prems] by auto
  from Cons.IH [OF ht_step_inv [OF Cons.prems(1)] this] show ?case by simp
qed simp

lemma stale_rejected:
  assumes "stale t i g k" and "k < 4294967296"
  shows "handle_table_get_checked t \<lparr>ref_id = i, ref_gen = g\<rparr> = None"
proof -
  have "(of_nat m :: u32) \<noteq> 0" if "0 < m" "m \<le> k" for m
    using that assms(2) unat_of_nat_u32 [of m] by auto
  then show ?thesis using assms(1) by (auto simp: stale_def handle_table_get_checked_def)
qed

text \<open>While an object keeps its slot, the slot and its generation are as the insertion left them.\<close>

lemma held_step:
  assumes "ht_inv t" and "in_range t i" and "slots t ! unat i = Some obj" and "op \<noteq> Drop i"
  shows "in_range (ht_step op t) i \<and> slots (ht_step op t) ! unat i = Some obj \<and>
    generation (ht_step op t) ! unat i = generation t ! unat i"
proof -
  have ne: "unat j \<noteq> unat i" if "handle_table_get t j = None \<or> j \<noteq> i" for j
  proof
    assume "unat j = unat i"
    then have "j = i" by (simp add: unat_eq_iff_u32)
    then show False using that assms(2,3) by (simp add: handle_table_get_def)
  qed
  show ?thesis
  proof (cases op)
    case (Put x)
    from assms(1) show ?thesis
    proof (cases rule: handle_table_insert_cases [where obj = x])
      case (ok j u)
      then have "unat j \<noteq> unat i" using ne inserted_get(2) [OF assms(1) ok(2)] by blast
      then show ?thesis using Put ok assms(2,3) by (simp add: inserted_def in_range_def)
    qed (use Put assms in simp)
  next
    case (Drop j)
    then have "unat j \<noteq> unat i" using ne assms(4) by blast
    from assms(1) show ?thesis
    proof (cases rule: handle_table_remove_cases [where i = j])
      case (ok x u)
      then show ?thesis using Drop \<open>unat j \<noteq> unat i\<close> assms(2,3) by (simp add: removed_def in_range_def)
    qed (use Drop assms in simp)
  qed
qed

lemma held_run:
  assumes "ht_inv t" and "in_range t i" and "slots t ! unat i = Some obj" and "Drop i \<notin> set ops"
  shows "handle_table_get_checked (fold ht_step ops t) \<lparr>ref_id = i, ref_gen = generation t ! unat i\<rparr> = Some obj"
  using assms
proof (induction ops arbitrary: t)
  case Nil
  then show ?case by (simp add: handle_table_get_checked_def handle_table_get_def)
next
  case (Cons op ops)
  have "op \<noteq> Drop i" using Cons.prems(4) by auto
  from held_step [OF Cons.prems(1-3) this] show ?case
    using Cons.IH [OF ht_step_inv [OF Cons.prems(1)], of op] Cons.prems(4) by simp
qed

text \<open>After \<open>k\<close> operations the generation of a slot has moved on by at most \<open>k\<close>.\<close>

definition moved :: "'a handle_table_t \<Rightarrow> u32 \<Rightarrow> u32 \<Rightarrow> nat \<Rightarrow> bool" where
  "moved t i g k \<longleftrightarrow> (\<exists>m \<le> k. generation t ! unat i = g + of_nat m)"

lemma moved_stale: "moved t i g k \<longleftrightarrow> generation t ! unat i = g \<or> stale t i g k"
proof
  assume "moved t i g k"
  then obtain m where "m \<le> k" "generation t ! unat i = g + of_nat m" unfolding moved_def by blast
  then show "generation t ! unat i = g \<or> stale t i g k" unfolding stale_def by (cases m) auto
next
  assume "generation t ! unat i = g \<or> stale t i g k"
  then have "generation t ! unat i = g + of_nat 0 \<or> (\<exists>m \<le> k. generation t ! unat i = g + of_nat m)"
    unfolding stale_def by auto
  then show "moved t i g k" unfolding moved_def by blast
qed

lemma moved_step:
  assumes "ht_inv t" and "in_range t i" and "moved t i g k"
  shows "in_range (ht_step op t) i \<and> moved (ht_step op t) i g (Suc k)"
proof (cases "generation t ! unat i = g \<and> slots t ! unat i \<noteq> None")
  case True
  then obtain obj where obj: "slots t ! unat i = Some obj" "generation t ! unat i = g" by blast
  show ?thesis
  proof (cases "op = Drop i")
    case False
    then show ?thesis using held_step [OF assms(1,2) obj(1)] obj(2) by (simp add: moved_stale)
  next
    case True
    from assms(1) show ?thesis
      by (cases rule: handle_table_remove_cases [where i = i])
        (use True assms(2) obj in \<open>auto simp: removed_def in_range_def moved_stale\<close>)
  qed
next
  case False
  then have "stale t i g k" using assms(3) by (auto simp: moved_stale stale_def)
  from stale_step [OF assms(1,2) this] show ?thesis by (simp add: moved_stale)
qed

lemma moved_run:
  assumes "ht_inv t" and "in_range t i" and "moved t i g k"
  shows "ht_inv (fold ht_step ops t) \<and> in_range (fold ht_step ops t) i \<and> moved (fold ht_step ops t) i g (k + length ops)"
  using assms
proof (induction ops arbitrary: t k)
  case (Cons op ops)
  from Cons.IH [OF ht_step_inv [OF Cons.prems(1)], of op "Suc k"] moved_step [OF Cons.prems] show ?case by simp
qed simp

lemma removed_stale:
  assumes "ht_inv t" and "in_range t i" and "moved t i g k"
  shows "ht_inv (fst (handle_table_remove t i)) \<and> in_range (fst (handle_table_remove t i)) i \<and>
    stale (fst (handle_table_remove t i)) i g k"
proof -
  have len: "unat i < length (slots t)" using assms(1,2) by (simp add: ht_inv_def in_range_def word_less_nat_alt)
  show ?thesis
    using assms(1)
  proof (cases rule: handle_table_remove_cases [where i = i])
    case absent
    then show ?thesis using assms len by (auto simp: moved_stale stale_def handle_table_get_def)
  next
    case (ok x u)
    then show ?thesis using assms len by (auto simp: moved_stale stale_def removed_def in_range_def)
  qed
qed

text \<open>
  C6: no ABA.  The reference of an inserted object resolves to that object as long as its id is not removed, whatever other insertions
  and removals happen; once its id has been removed, at any later time, the reference never resolves
  again, whatever insertions and removals follow, as long as fewer than 2^32 operations have passed since the insertion
  (the generation is a 32-bit counter): a recycled slot is not mistaken for the old object.
\<close>

theorem handle_table_no_aba:
  assumes "ht_inv t" and "handle_table_insert t (Some obj) = (t1, ref)" and "ref_id ref \<noteq> 0"
    and "length before + length after < 4294967296"
  shows "(Drop (ref_id ref) \<notin> set before \<longrightarrow> handle_table_get_checked (fold ht_step before t1) ref = Some obj) \<and>
    handle_table_get_checked
      (fold ht_step after (fst (handle_table_remove (fold ht_step before t1) (ref_id ref)))) ref = None"
  using assms(1)
proof (cases rule: handle_table_insert_cases [where obj = obj])
  case full
  then show ?thesis using assms(2,3) by auto
next
  case (ok i u)
  have eq: "t1 = u" "ref = \<lparr>ref_id = i, ref_gen = generation t ! unat i + 1\<rparr>" using ok(1) assms(2) by simp_all
  note get = inserted_get [OF assms(1) ok(2)]
  have u: "ht_inv u" using ok(2) by (simp add: inserted_def)
  have len: "unat i < length (generation t)" "unat i < length (slots t)"
    using assms(1) get(4) by (simp_all add: ht_inv_def in_range_def word_less_nat_alt)
  have new: "slots u ! unat i = Some obj" "generation u ! unat i = ref_gen ref"
    using ok(2) len by (simp_all add: inserted_def eq(2))
  have alive: "Drop i \<notin> set before \<Longrightarrow> handle_table_get_checked (fold ht_step before u) ref = Some obj"
    using held_run [OF u get(5) new(1)] new(2) by (simp add: eq(2))
  have "moved u i (ref_gen ref) 0" using new(2) by (simp add: moved_def)
  note b = moved_run [OF u get(5) this, of before]
  let ?v = "fst (handle_table_remove (fold ht_step before u) i)"
  have v: "ht_inv ?v" "in_range ?v i" "stale ?v i (ref_gen ref) (length before)"
    using removed_stale [of "fold ht_step before u" i "ref_gen ref" "length before"] b by simp_all
  from stale_run [OF v, of after] have "stale (fold ht_step after ?v) i (ref_gen ref) (length before + length after)" by simp
  from stale_rejected [OF this assms(4)] alive show ?thesis by (simp add: eq)
qed

text \<open>
  Reuse is immediate when the table is full, under every policy.  If no id is free, removing
  an object and inserting another hands the same id out at once; in particular the rotating
  cursor of MONOTONIC gives no reuse delay then, although its description promises about
  \<^verbatim>\<open>capacity\<close> allocations however few slots are free.  Only the generation tells the two apart.
\<close>

theorem handle_table_full_reuse:
  assumes "ht_inv t" and "free_ids t = []" and "handle_table_get t i = Some old"
  shows "snd (handle_table_insert (fst (handle_table_remove t i)) (Some new)) =
    \<lparr>ref_id = i, ref_gen = handle_table_generation t i + 1\<rparr>"
  using assms(1)
proof (cases rule: handle_table_remove_cases [where i = i])
  case absent
  then show ?thesis using assms(3) by simp
next
  case (ok obj u)
  then have u: "ht_inv u" "set (free_ids u) = {i}" "generation u = generation t"
    using assms(2) by (simp_all add: removed_def)
  then have "distinct (free_ids u)" by (simp add: ht_inv_def)
  then have ids: "free_ids u = [i]"
    using u(2) by (cases "free_ids u") (auto simp: subset_singleton_iff)
  from u(1) show ?thesis
  proof (cases rule: handle_table_insert_cases [where obj = new])
    case full
    then show ?thesis using ids by simp
  next
    case ins: (ok j v)
    then have "j = i" using ids by (simp add: inserted_def)
    then show ?thesis using ins(1) ok(1,2) u(3) by (simp add: handle_table_generation_def)
  qed
qed

subsection \<open>A concrete table\<close>

definition sample_table :: "ht_reuse_t \<Rightarrow> nat handle_table_t" where
  "sample_table policy = fst (handle_table_init True 4 policy
     \<lparr>slots = [], generation = [], freelist = [], free_head = 0, free_tail = 0, free_count = 0,
      next_scan = 0, capacity = 0, reuse = HT_REUSE_LIFO\<rparr>)"

lemma sample_table_inv: "ht_inv (sample_table policy)"
  unfolding sample_table_def by (rule handle_table_init_inv) simp

theorem handle_table_policy_witness:
  "free_ids (sample_table HT_REUSE_FIFO) = [1, 2, 3] \<and>
   free_ids (fst (handle_table_insert (sample_table HT_REUSE_FIFO) (Some 7))) = [2, 3] \<and>
   ref_id (snd (handle_table_insert (sample_table HT_REUSE_FIFO) (Some 7))) = 1"
proof -
  have ids: "free_ids (sample_table HT_REUSE_FIFO) = [1, 2, 3]" by code_simp
  obtain t' ref where ins: "handle_table_insert (sample_table HT_REUSE_FIFO) (Some 7) = (t', ref)"
    by (cases "handle_table_insert (sample_table HT_REUSE_FIFO) (Some 7)")
  obtain u r where del: "handle_table_remove (sample_table HT_REUSE_FIFO) 1 = (u, r)"
    by (cases "handle_table_remove (sample_table HT_REUSE_FIFO) 1")
  from handle_table_policy [OF sample_table_inv ins del] ids ins show ?thesis by auto
qed

theorem handle_table_no_aba_witness:
  "\<exists>t1. handle_table_insert (sample_table HT_REUSE_LIFO) (Some 7) = (t1, \<lparr>ref_id = 1, ref_gen = 1\<rparr>) \<and>
     handle_table_get_checked (fold ht_step [Put 5, Drop 2] t1) \<lparr>ref_id = 1, ref_gen = 1\<rparr> = Some 7 \<and>
     handle_table_get_checked
       (fold ht_step [Put 8, Drop 1, Put 9] (fst (handle_table_remove (fold ht_step [Put 5, Drop 2] t1) 1)))
       \<lparr>ref_id = 1, ref_gen = 1\<rparr> = None"
proof -
  have ref: "snd (handle_table_insert (sample_table HT_REUSE_LIFO) (Some 7)) = \<lparr>ref_id = 1, ref_gen = 1\<rparr>"
    by code_simp
  obtain t1 where ins: "handle_table_insert (sample_table HT_REUSE_LIFO) (Some 7) =
      (t1, \<lparr>ref_id = 1, ref_gen = 1\<rparr>)"
    using ref by (cases "handle_table_insert (sample_table HT_REUSE_LIFO) (Some 7)") simp
  from handle_table_no_aba [OF sample_table_inv ins, where before = "[Put 5, Drop 2]" and after = "[Put 8, Drop 1, Put 9]"] ins
  show ?thesis by (simp del: fold_simps(2) fold.simps)
qed

theorem handle_table_full_reuse_witness:
  "snd (handle_table_insert (fst (handle_table_remove
      (fold ht_step [Put 5, Put 6, Put 7] (sample_table HT_REUSE_MONOTONIC)) 2)) (Some 8)) =
    \<lparr>ref_id = 2, ref_gen = 2\<rparr>"
proof -
  let ?t = "fold ht_step [Put 5, Put 6, Put 7] (sample_table HT_REUSE_MONOTONIC)"
  have inv: "ht_inv ?t" by (simp add: ht_step_inv sample_table_inv del: ht_step.simps)
  have f: "free_ids ?t = []" "handle_table_get ?t 2 = Some 6" "handle_table_generation ?t 2 + 1 = 2"
    by code_simp+
  from handle_table_full_reuse [OF inv f(1,2), of 8] show ?thesis by (simp only: f(3))
qed

end
