(* ===== verification/Vregion.thy ===== *)
theory Vregion
  imports Prelude
begin

text \<open>
  \<^verbatim>\<open>kernel/mm/vregion.c\<close>: the per-process list of virtual regions, sorted by base address,
  with running totals.  The doubly linked list from \<^verbatim>\<open>head\<close> to \<^verbatim>\<open>tail\<close> is the list \<open>regions\<close>;
  a position in it stands for the pair \<^verbatim>\<open>prev\<close>/\<^verbatim>\<open>cur\<close> of the search loops.  The outcome of the
  one \<^verbatim>\<open>kcalloc\<close> of \<^verbatim>\<open>make_node\<close> is the argument \<open>mem_ok\<close>.  Address arithmetic is kept at
  32 bits, wrap-around included.
\<close>

section \<open>Model\<close>

definition VREG_READ :: u32 where "VREG_READ = 1"
definition VREG_WRITE :: u32 where "VREG_WRITE = 2"
definition VREG_USER :: u32 where "VREG_USER = 8"
definition VREG_SHARED :: u32 where "VREG_SHARED = 0x2000"
definition VREG_DEVICE :: u32 where "VREG_DEVICE = 0x8000"
definition VREG_USER_RW :: u32 where "VREG_USER_RW = VREG_READ OR VREG_WRITE OR VREG_USER"

record vregion_t =
  base :: u32
  pages :: u32
  flags :: u32
  backing_id :: "32 word"
  committed :: u32

record vregion_list_t =
  regions :: "vregion_t list"
  count :: u32
  total_pages :: u32
  device_pages :: u32

definition region_end :: "vregion_t \<Rightarrow> u32" where
  "region_end r = base r + pages r * PAGE_SIZE"

definition is_device :: "vregion_t \<Rightarrow> bool" where
  "is_device r \<longleftrightarrow> flags r AND VREG_DEVICE \<noteq> 0"

definition link_between :: "nat \<Rightarrow> vregion_t \<Rightarrow> vregion_list_t \<Rightarrow> vregion_list_t" where
  "link_between k n vl =
     vl\<lparr>regions := take k (regions vl) @ n # drop k (regions vl),
        count := count vl + 1,
        total_pages := total_pages vl + pages n,
        device_pages := (if is_device n then device_pages vl + pages n else device_pages vl)\<rparr>"

definition unlink_node :: "nat \<Rightarrow> vregion_list_t \<Rightarrow> vregion_list_t" where
  "unlink_node k vl =
     (let n = regions vl ! k
      in vl\<lparr>regions := take k (regions vl) @ drop (Suc k) (regions vl),
            total_pages := total_pages vl - pages n,
            device_pages := (if is_device n then device_pages vl - pages n else device_pages vl),
            count := count vl - 1\<rparr>)"

definition make_node :: "u32 \<Rightarrow> u32 \<Rightarrow> u32 \<Rightarrow> 32 word \<Rightarrow> vregion_t" where
  "make_node b n fl bid = \<lparr>base = b, pages = n, flags = fl, backing_id = bid, committed = 0\<rparr>"

definition vregion_init :: vregion_list_t where
  "vregion_init = \<lparr>regions = [], count = 0, total_pages = 0, device_pages = 0\<rparr>"

definition vregion_destroy :: "vregion_list_t \<Rightarrow> vregion_list_t" where
  "vregion_destroy vl = vregion_init"

text \<open>The search loop of \<^verbatim>\<open>vregion_alloc\<close>: the candidate and the position it stops at.\<close>

fun alloc_scan :: "u32 \<Rightarrow> u32 \<Rightarrow> u32 \<Rightarrow> vregion_t list \<Rightarrow> u32 \<times> nat" where
  "alloc_scan sz max_addr cand [] = (cand, 0)"
| "alloc_scan sz max_addr cand (cur # rest) =
     (let cur_end = region_end cur
      in if cur_end \<le> cand then apsnd Suc (alloc_scan sz max_addr cand rest)
         else if cand + sz \<le> base cur \<and> cand + sz \<le> max_addr then (cand, 0)
         else apsnd Suc (alloc_scan sz max_addr (ALIGN_UP cur_end PAGE_SIZE) rest))"

definition vregion_alloc ::
  "bool \<Rightarrow> u32 \<Rightarrow> u32 \<Rightarrow> u32 \<Rightarrow> u32 \<Rightarrow> 32 word \<Rightarrow> vregion_list_t \<Rightarrow> vregion_list_t \<times> u32" where
  "vregion_alloc mem_ok n min_addr max_addr fl bid vl =
     (if n = 0 then (vl, 0)
      else
        let sz = n * PAGE_SIZE;
            (cand, k) = alloc_scan sz max_addr (ALIGN_UP min_addr PAGE_SIZE) (regions vl)
        in if cand + sz > max_addr \<or> cand + sz < cand then (vl, 0)
           else if \<not> mem_ok then (vl, 0)
           else (link_between k (make_node cand n fl bid) vl, cand))"

text \<open>The search loop of \<^verbatim>\<open>vregion_insert\<close>: \<open>None\<close> is the overlap exit.\<close>

fun insert_scan :: "u32 \<Rightarrow> u32 \<Rightarrow> vregion_t list \<Rightarrow> nat option" where
  "insert_scan b stop [] = Some 0"
| "insert_scan b stop (cur # rest) =
     (if \<not> base cur < stop then Some 0
      else if b < region_end cur \<and> stop > base cur then None
      else map_option Suc (insert_scan b stop rest))"

definition vregion_insert ::
  "bool \<Rightarrow> u32 \<Rightarrow> u32 \<Rightarrow> u32 \<Rightarrow> vregion_list_t \<Rightarrow> vregion_list_t \<times> vregion_t option" where
  "vregion_insert mem_ok base0 n fl vl =
     (let b = ALIGN_DOWN base0 PAGE_SIZE; stop = b + n * PAGE_SIZE
      in if stop < b then (vl, None)
         else case insert_scan b stop (regions vl) of
                None \<Rightarrow> (vl, None)
              | Some k \<Rightarrow>
                  if \<not> mem_ok then (vl, None)
                  else let r = make_node b n fl (-1) in (link_between k r vl, Some r))"

fun find_exact_scan :: "u32 \<Rightarrow> vregion_t list \<Rightarrow> nat option" where
  "find_exact_scan b [] = None"
| "find_exact_scan b (c # rest) =
     (if base c = b then Some 0
      else if base c > b then None
      else map_option Suc (find_exact_scan b rest))"

definition vregion_find_exact :: "vregion_list_t \<Rightarrow> u32 \<Rightarrow> nat option" where
  "vregion_find_exact vl b = find_exact_scan b (regions vl)"

definition vregion_free :: "vregion_list_t \<Rightarrow> u32 \<Rightarrow> vregion_list_t \<times> u32" where
  "vregion_free vl b =
     (case vregion_find_exact vl b of
        None \<Rightarrow> (vl, 0)
      | Some k \<Rightarrow> (unlink_node k vl, pages (regions vl ! k)))"

definition vregion_resize :: "vregion_list_t \<Rightarrow> u32 \<Rightarrow> u32 \<Rightarrow> vregion_list_t \<times> bool" where
  "vregion_resize vl b new_pages =
     (case vregion_find_exact vl b of
        None \<Rightarrow> (vl, False)
      | Some k \<Rightarrow>
          let n = regions vl ! k
          in if new_pages = 0 then (vl, False)
             else if new_pages > (UINT32_MAX - b) div PAGE_SIZE then (vl, False)
             else if new_pages > pages n \<and> Suc k < length (regions vl) \<and>
                     b + new_pages * PAGE_SIZE > base (regions vl ! Suc k) then (vl, False)
             else
               let n1 = (if new_pages < committed n then n\<lparr>committed := new_pages\<rparr> else n)
               in (vl\<lparr>regions := (regions vl)[k := n1\<lparr>pages := new_pages\<rparr>],
                      total_pages := total_pages vl + (new_pages - pages n),
                      device_pages := (if is_device n then device_pages vl + (new_pages - pages n)
                                       else device_pages vl)\<rparr>, True))"

fun find_scan :: "u32 \<Rightarrow> vregion_t list \<Rightarrow> vregion_t option" where
  "find_scan addr [] = None"
| "find_scan addr (c # rest) =
     (if base c > addr then None
      else if addr < region_end c then Some c
      else find_scan addr rest)"

definition vregion_find :: "vregion_list_t \<Rightarrow> u32 \<Rightarrow> vregion_t option" where
  "vregion_find vl addr = find_scan addr (regions vl)"

definition vregion_total_committed :: "vregion_list_t \<Rightarrow> u32" where
  "vregion_total_committed vl = fold (\<lambda>c total. total + committed c) (regions vl) 0"

section \<open>Invariant\<close>

text \<open>
  Bases are page aligned, no region reaches the end of the address space, the list is sorted and
  neighbours do not overlap (a region may have 0 pages: the heap starts like that), and the
  three counters are the number of regions and the sums of their pages.
\<close>

definition rend :: "vregion_t \<Rightarrow> nat" where
  "rend r = unat (base r) + unat (pages r) * 4096"

definition region_ok :: "vregion_t \<Rightarrow> bool" where
  "region_ok r \<longleftrightarrow> unat (base r) mod 4096 = 0 \<and> rend r < 4294967296"

definition before :: "vregion_t \<Rightarrow> vregion_t \<Rightarrow> bool" where
  "before r s \<longleftrightarrow> rend r \<le> unat (base s)"

definition vl_sorted :: "vregion_t list \<Rightarrow> bool" where
  "vl_sorted rs \<longleftrightarrow> (\<forall>r \<in> set rs. region_ok r) \<and> sorted_wrt before rs"

definition vl_inv :: "vregion_list_t \<Rightarrow> bool" where
  "vl_inv vl \<longleftrightarrow> vl_sorted (regions vl) \<and> count vl = of_nat (length (regions vl)) \<and>
     total_pages vl = sum_list (map pages (regions vl)) \<and>
     device_pages vl = sum_list (map pages (filter is_device (regions vl)))"

lemma unat_pages_bytes:
  assumes "unat n < 1048576"
  shows "unat (n * PAGE_SIZE) = unat n * 4096"
proof -
  have "unat n * unat PAGE_SIZE < 4294967296" using assms by (simp add: PAGE_SIZE_def)
  then show ?thesis by (simp add: unat_mult_u32) (simp add: PAGE_SIZE_def)
qed

lemma region_end_rend:
  assumes "region_ok r"
  shows "unat (region_end r) = rend r"
proof -
  have b: "unat (base r) + unat (pages r) * 4096 < 4294967296" using assms by (simp add: region_ok_def rend_def)
  then have "unat (pages r * PAGE_SIZE) = unat (pages r) * 4096" by (intro unat_pages_bytes) linarith
  then show ?thesis using b by (simp add: region_end_def rend_def unat_add_u32)
qed



lemma base_le_rend: "unat (base r) \<le> rend r"
  by (simp add: rend_def)

lemma link_between_inv:
  assumes "vl_inv vl" and "region_ok n"
    and "\<forall>r \<in> set (take k (regions vl)). before r n" and "\<forall>r \<in> set (drop k (regions vl)). before n r"
  shows "vl_inv (link_between k n vl)"
proof -
  define xs ys where "xs = take k (regions vl)" and "ys = drop k (regions vl)"
  have rs: "regions vl = xs @ ys" by (simp add: xs_def ys_def)
  have xn: "\<forall>r \<in> set xs. before r n" and ny: "\<forall>r \<in> set ys. before n r"
    using assms(3,4) by (simp_all add: xs_def ys_def)
  then have "before r s" if "r \<in> set xs" "s \<in> set ys" for r s
    using that base_le_rend [of n] by (fastforce simp: before_def)
  then have "vl_sorted (xs @ n # ys)"
    using assms(1,2) xn ny unfolding vl_inv_def rs vl_sorted_def by (auto simp: sorted_wrt_append)
  then show ?thesis
    using assms(1) unfolding vl_inv_def link_between_def xs_def [symmetric] ys_def [symmetric]
    by (simp add: rs algebra_simps)
qed

lemma unlink_node_inv:
  assumes "vl_inv vl" and "k < length (regions vl)"
  shows "vl_inv (unlink_node k vl)"
proof -
  define xs n ys where "xs = take k (regions vl)" and "n = regions vl ! k" and "ys = drop (Suc k) (regions vl)"
  have rs: "regions vl = xs @ n # ys"
    unfolding xs_def n_def ys_def by (rule id_take_nth_drop [OF assms(2)])
  have "vl_sorted (xs @ ys)"
    using assms(1) unfolding vl_inv_def rs vl_sorted_def by (auto simp: sorted_wrt_append)
  then show ?thesis
    using assms(1) unfolding vl_inv_def unlink_node_def Let_def xs_def [symmetric] n_def [symmetric] ys_def [symmetric]
    by (simp add: rs algebra_simps)
qed

section \<open>Allocation is first fit\<close>

text \<open>\<open>clear rs b n\<close>: a region of \<open>n\<close> bytes at \<open>b\<close> fits between the regions of \<open>rs\<close>.\<close>

definition clear :: "vregion_t list \<Rightarrow> nat \<Rightarrow> nat \<Rightarrow> bool" where
  "clear rs b n \<longleftrightarrow> (\<forall>r \<in> set rs. b + n \<le> unat (base r) \<or> rend r \<le> b)"




lemma clear_region:
  assumes "vl_inv vl" and "\<forall>r \<in> set (take k (regions vl)). rend r \<le> unat (base n)"
    and "\<forall>r \<in> set (drop k (regions vl)). rend n \<le> unat (base r)"
    and "region_ok n"
  shows "vl_inv (link_between k n vl)" and "clear (regions vl) (unat (base n)) (unat (pages n) * 4096)"
    and "set (regions (link_between k n vl)) = insert n (set (regions vl))"
proof -
  show "vl_inv (link_between k n vl)" using assms by (intro link_between_inv) (auto simp: before_def)
  have split: "set (regions vl) = set (take k (regions vl)) \<union> set (drop k (regions vl))"
    by (metis append_take_drop_id set_append)
  show "clear (regions vl) (unat (base n)) (unat (pages n) * 4096)"
    using assms(2,3) unfolding clear_def split rend_def by auto
  show "set (regions (link_between k n vl)) = insert n (set (regions vl))"
    unfolding split by (auto simp: link_between_def)
qed


section \<open>Fixed insertion\<close>

text \<open>\<open>overlaps rs b e\<close>: some region of \<open>rs\<close> meets the byte range from \<open>b\<close> up to \<open>e\<close>.\<close>

definition overlaps :: "vregion_t list \<Rightarrow> nat \<Rightarrow> nat \<Rightarrow> bool" where
  "overlaps rs b e \<longleftrightarrow> (\<exists>r \<in> set rs. b < rend r \<and> unat (base r) < e)"

lemma insert_scan_spec:
  assumes "vl_sorted rs"
  shows "case insert_scan b stop rs of
      None \<Rightarrow> overlaps rs (unat b) (unat stop)
    | Some k \<Rightarrow> \<not> overlaps rs (unat b) (unat stop) \<and> (\<forall>r \<in> set (take k rs). rend r \<le> unat b) \<and>
        (\<forall>r \<in> set (drop k rs). unat stop \<le> unat (base r))"
  using assms
proof (induction rs)
  case (Cons r rs)
  have r: "region_ok r" "vl_sorted rs" "\<forall>s \<in> set rs. rend r \<le> unat (base s)"
    using Cons.prems by (auto simp: vl_sorted_def before_def)
  note e = region_end_rend [OF r(1)]
  show ?case
  proof (cases "base r < stop")
    case False
    then have "unat stop \<le> unat (base s)" if "s \<in> set (r # rs)" for s
      using that r(3) base_le_rend [of r] by (fastforce simp: word_less_nat_alt)
    moreover from this have "\<not> overlaps (r # rs) (unat b) (unat stop)"
      unfolding overlaps_def by (meson not_le)
    ultimately show ?thesis using False by simp
  next
    case True
    with Cons.IH [OF r(2)] e show ?thesis
      by (auto simp: word_less_nat_alt overlaps_def split: option.splits)
  qed
qed (simp add: overlaps_def)

text \<open>
  Insertion at a fixed address.  For fewer than 2^20 pages, \<^verbatim>\<open>vregion_insert\<close> keeps the list
  well formed, refuses exactly the ranges that wrap around or overlap an existing region, and
  otherwise records the region at the address rounded down to a page.
\<close>

theorem vregion_insert_exact:
  assumes "vl_inv vl" and "unat n < 1048576" and "vregion_insert True a n fl vl = (vl', r)"
  defines "b \<equiv> unat a div 4096 * 4096"
  shows "vl_inv vl' \<and>
    (r = None \<longleftrightarrow> b + unat n * 4096 \<ge> 4294967296 \<or> overlaps (regions vl) b (b + unat n * 4096)) \<and>
    (r = None \<longrightarrow> vl' = vl) \<and>
    (r \<noteq> None \<longrightarrow> set (regions vl') =
       insert (make_node (ALIGN_DOWN a PAGE_SIZE) n fl (-1)) (set (regions vl)))"
proof -
  let ?b = "ALIGN_DOWN a PAGE_SIZE"
  let ?stop = "?b + n * PAGE_SIZE"
  have b: "unat ?b = b" by (simp add: unat_align_down b_def)
  have sz: "unat (n * PAGE_SIZE) = unat n * 4096" by (rule unat_pages_bytes [OF assms(2)])
  show ?thesis
  proof (cases "?stop < ?b")
    case True
    then have "vl' = vl" "r = None" using assms(3) by (simp_all add: vregion_insert_def Let_def)
    moreover have "b + unat n * 4096 \<ge> 4294967296"
    proof (rule ccontr)
      assume "\<not> b + unat n * 4096 \<ge> 4294967296"
      then have "unat ?stop = b + unat n * 4096" using unat_add_u32 [of ?b "n * PAGE_SIZE"] by (simp add: b sz)
      with True show False by (simp add: word_less_nat_alt b)
    qed
    ultimately show ?thesis using assms(1) by simp
  next
    case False
    then have stop: "unat ?stop = b + unat n * 4096" using unat_add_no_wrap by (simp add: b sz)
    then have small: "b + unat n * 4096 < 4294967296" using unat_lt_u32 [of ?stop] by simp
    have "vl_sorted (regions vl)" using assms(1) by (simp add: vl_inv_def)
    note scan = insert_scan_spec [OF this, of ?b ?stop]
    show ?thesis
    proof (cases "insert_scan ?b ?stop (regions vl)")
      case None
      then have "vl' = vl" "r = None" using assms(3) False by (simp_all add: vregion_insert_def Let_def)
      then show ?thesis using scan None assms(1) by (simp add: b stop)
    next
      case (Some k)
      let ?n = "make_node ?b n fl (-1)"
      have eq: "vl' = link_between k ?n vl" "r = Some ?n"
        using assms(3) False Some by (simp_all add: vregion_insert_def Let_def)
      have ok: "region_ok ?n" "rend ?n = unat ?stop"
        using small by (simp_all add: region_ok_def rend_def make_node_def b stop) (simp add: b_def)
      have "vl_inv vl'" "set (regions vl') = insert ?n (set (regions vl))"
        using clear_region [OF assms(1) _ _ ok(1), of k] scan Some ok(2)
        by (simp_all add: eq make_node_def b)
      then show ?thesis using eq scan Some small by (simp add: b stop)
    qed
  qed
qed

section \<open>Lookup, release and resize\<close>

lemma find_scan_spec:
  assumes "vl_sorted rs"
  shows "find_scan addr rs = Some r \<longleftrightarrow> r \<in> set rs \<and> unat (base r) \<le> unat addr \<and> unat addr < rend r"
  using assms
proof (induction rs)
  case (Cons c rs)
  have c: "region_ok c" "vl_sorted rs" "\<forall>s \<in> set rs. rend c \<le> unat (base s)"
    using Cons.prems by (auto simp: vl_sorted_def before_def)
  note e = region_end_rend [OF c(1)]
  show ?case
  proof (cases "base c > addr")
    case True
    then have "\<not> unat (base s) \<le> unat addr" if "s \<in> set (c # rs)" for s
      using that c(3) base_le_rend [of c] by (fastforce simp: word_less_nat_alt)
    then show ?thesis using True by auto
  next
    case False
    show ?thesis
    proof (cases "unat addr < rend c")
      case True
      then have "\<not> unat (base s) \<le> unat addr" if "s \<in> set rs" for s
        using that c(3) by (meson not_le order_less_le_trans)
      then show ?thesis using True False e by (auto simp: word_less_nat_alt)
    next
      case beyond: False
      then show ?thesis using False e Cons.IH [OF c(2)] by (auto simp: word_less_nat_alt)
    qed
  qed
qed simp

text \<open>
  The page-fault lookup is exact.  \<^verbatim>\<open>vregion_find\<close> answers a region if and only if that region
  is in the list and contains the address; the early exit on a larger base loses nothing.
\<close>

theorem vregion_find_exact_iff:
  assumes "vl_inv vl"
  shows "vregion_find vl addr = Some r \<longleftrightarrow>
    r \<in> set (regions vl) \<and> unat (base r) \<le> unat addr \<and> unat addr < unat (base r) + unat (pages r) * 4096"
  using assms find_scan_spec [of "regions vl" addr r]
  by (simp add: vregion_find_def vl_inv_def rend_def)

lemma find_exact_scan_Some:
  "find_exact_scan b rs = Some k \<Longrightarrow> k < length rs \<and> base (rs ! k) = b"
  by (induction rs arbitrary: k) (auto split: if_splits)

lemma find_exact_scan_None:
  assumes "find_exact_scan b rs = None" and "vl_sorted rs"
  shows "\<forall>r \<in> set rs. base r \<noteq> b"
  using assms
proof (induction rs)
  case (Cons c rs)
  have c: "vl_sorted rs" "\<forall>s \<in> set rs. rend c \<le> unat (base s)"
    using Cons.prems(2) by (auto simp: vl_sorted_def before_def)
  show ?case
  proof (cases "base c > b")
    case True
    then have "b < base s" if "s \<in> set rs" for s
      using that c(2) base_le_rend [of c] by (fastforce simp: word_less_nat_alt)
    then show ?thesis using True by auto
  next
    case False
    with Cons c(1) show ?thesis by (auto split: if_splits)
  qed
qed simp

lemma resize_bound:
  "(UINT32_MAX - b) div PAGE_SIZE < n \<longleftrightarrow> unat b + unat n * 4096 \<ge> 4294967296"
proof -
  have "unat b \<le> 4294967295" using unat_lt_u32 [of b] by linarith
  then have "unat (UINT32_MAX - b) = 4294967295 - unat b"
    by (subst unat_sub_u32) (simp_all add: word_le_nat_alt)
  then have "(UINT32_MAX - b) div PAGE_SIZE < n \<longleftrightarrow> (4294967295 - unat b) div 4096 < unat n"
    by (simp add: word_less_nat_alt unat_div PAGE_SIZE_def)
  also have "\<dots> \<longleftrightarrow> 4294967295 - unat b < unat n * 4096" by (simp add: div_less_iff_less_mult)
  finally show ?thesis using \<open>unat b \<le> 4294967295\<close> by auto
qed

lemma vl_sorted_update:
  assumes "vl_sorted rs" and "k < length rs" and "base n = base (rs ! k)" and "region_ok n"
    and "Suc k < length rs \<Longrightarrow> rend n \<le> unat (base (rs ! Suc k))"
  shows "vl_sorted (rs[k := n])"
proof -
  let ?xs = "take k rs" and ?ys = "drop (Suc k) rs"
  have rs: "rs = ?xs @ rs ! k # ?ys" by (rule id_take_nth_drop [OF assms(2)])
  have srt: "vl_sorted (?xs @ rs ! k # ?ys)" using assms(1) rs by simp
  have "before n s" if "s \<in> set ?ys" for s
  proof -
    obtain y ys where y: "?ys = y # ys" using \<open>s \<in> set ?ys\<close> by (cases ?ys) auto
    then have len: "Suc k < length rs" by (metis drop_all list.distinct(1) not_le)
    then have "y = rs ! Suc k" using y by (metis nth_via_drop)
    then have "rend n \<le> unat (base y)" using assms(5) [OF len] by simp
    moreover have "s = y \<or> before y s" using srt that y by (auto simp: vl_sorted_def sorted_wrt_append)
    ultimately show ?thesis using base_le_rend [of y] by (auto simp: before_def)
  qed
  moreover have "before r n" if "r \<in> set ?xs" for r
    using srt that assms(3) by (auto simp: vl_sorted_def sorted_wrt_append before_def)
  ultimately show ?thesis
    using srt assms(2,4) by (auto simp: list_update_take_drop vl_sorted_def sorted_wrt_append)
qed

lemma sum_pages_update:
  assumes "k < length rs" and "is_device n = is_device (rs ! k)"
  shows "sum_list (map pages (rs[k := n])) = sum_list (map pages rs) + (pages n - pages (rs ! k))"
    and "sum_list (map pages (filter is_device (rs[k := n]))) =
      sum_list (map pages (filter is_device rs)) + (if is_device n then pages n - pages (rs ! k) else 0)"
proof -
  let ?xs = "take k rs" and ?ys = "drop (Suc k) rs"
  have rs: "rs = ?xs @ rs ! k # ?ys" by (rule id_take_nth_drop [OF assms(1)])
  have "sum_list (map pages rs) = sum_list (map pages (?xs @ rs ! k # ?ys))"
    "sum_list (map pages (filter is_device rs)) = sum_list (map pages (filter is_device (?xs @ rs ! k # ?ys)))"
    using rs by simp_all
  then show "sum_list (map pages (rs[k := n])) = sum_list (map pages rs) + (pages n - pages (rs ! k))"
    "sum_list (map pages (filter is_device (rs[k := n]))) =
      sum_list (map pages (filter is_device rs)) + (if is_device n then pages n - pages (rs ! k) else 0)"
    using assms(2) by (simp_all add: list_update_take_drop [OF assms(1)])
qed

lemma vregion_free_inv:
  assumes "vl_inv vl"
  shows "vl_inv (fst (vregion_free vl b))"
proof (cases "vregion_find_exact vl b")
  case (Some k)
  then have "k < length (regions vl)" using find_exact_scan_Some by (simp add: vregion_find_exact_def)
  from unlink_node_inv [OF assms this] Some show ?thesis by (simp add: vregion_free_def)
qed (simp add: vregion_free_def assms)

text \<open>The guard under which \<^verbatim>\<open>vregion_resize\<close> goes ahead on the region at position \<open>k\<close>.\<close>

definition resize_ok :: "vregion_list_t \<Rightarrow> nat \<Rightarrow> u32 \<Rightarrow> bool" where
  "resize_ok vl k new_pages \<longleftrightarrow> new_pages \<noteq> 0 \<and>
     unat (base (regions vl ! k)) + unat new_pages * 4096 < 4294967296 \<and>
     (Suc k < length (regions vl) \<longrightarrow>
        unat (base (regions vl ! k)) + unat new_pages * 4096 \<le> unat (base (regions vl ! Suc k)))"

lemma vregion_resize_cases:
  assumes "vl_inv vl"
  obtains (refused) "vregion_resize vl b new_pages = (vl, False)"
      "\<And>k. vregion_find_exact vl b = Some k \<Longrightarrow> \<not> resize_ok vl k new_pages"
  | (resized) k n where "vregion_find_exact vl b = Some k" "k < length (regions vl)" "resize_ok vl k new_pages"
      "vregion_resize vl b new_pages = (vl\<lparr>regions := (regions vl)[k := n],
         total_pages := total_pages vl + (new_pages - pages (regions vl ! k)),
         device_pages := (if is_device n then device_pages vl + (new_pages - pages (regions vl ! k))
           else device_pages vl)\<rparr>, True)"
      "base n = base (regions vl ! k)" "pages n = new_pages" "is_device n = is_device (regions vl ! k)"
proof (cases "vregion_find_exact vl b")
  case None
  then show thesis by (intro refused) (simp_all add: vregion_resize_def)
next
  case (Some k)
  then have k: "k < length (regions vl)" "base (regions vl ! k) = b"
    using find_exact_scan_Some by (auto simp: vregion_find_exact_def)
  have srt: "vl_sorted (regions vl)" using assms by (simp add: vl_inv_def)
  have small: "rend (regions vl ! k) \<le> unat (base (regions vl ! Suc k))" if "Suc k < length (regions vl)"
    using srt that by (simp add: vl_sorted_def before_def sorted_wrt_iff_nth_less)
  let ?stop = "b + new_pages * PAGE_SIZE"
  let ?grow = "new_pages > pages (regions vl ! k) \<and> Suc k < length (regions vl) \<and>
    ?stop > base (regions vl ! Suc k)"
  have guard: "new_pages = 0 \<or> new_pages > (UINT32_MAX - b) div PAGE_SIZE \<or> ?grow \<longleftrightarrow>
      \<not> resize_ok vl k new_pages"
  proof (cases "unat b + unat new_pages * 4096 < 4294967296")
    case True
    then have "unat new_pages < 1048576" by linarith
    then have stop: "unat ?stop = unat b + unat new_pages * 4096"
      using True by (simp add: unat_add_u32 unat_pages_bytes)
    have "\<not> (UINT32_MAX - b) div PAGE_SIZE < new_pages" using True by (simp add: resize_bound)
    then show ?thesis
      using True small by (auto simp: resize_ok_def k(2) word_less_nat_alt stop rend_def)
  next
    case False
    then show ?thesis by (simp add: resize_ok_def k(2) resize_bound)
  qed
  show thesis
  proof (cases "resize_ok vl k new_pages")
    case False
    then show thesis using Some guard by (intro refused) (auto simp: vregion_resize_def Let_def)
  next
    case True
    let ?old = "regions vl ! k"
    let ?n = "(if new_pages < committed ?old then ?old\<lparr>committed := new_pages\<rparr> else ?old)\<lparr>pages := new_pages\<rparr>"
    have "is_device ?n = is_device ?old" by (simp add: is_device_def)
    then show thesis
      using Some guard True k(1) by (intro resized [of k ?n]) (auto simp: vregion_resize_def Let_def)
  qed
qed

text \<open>
  Releasing and resizing keep the list well formed with exact page totals, whatever the
  arguments.  A resize succeeds exactly when a region starts at the address, the new size is
  not 0, and the resized region ends within the address space and before its successor.
\<close>

theorem vregion_free_resize_inv:
  assumes "vl_inv vl"
  shows "vl_inv (fst (vregion_free vl b)) \<and> vl_inv (fst (vregion_resize vl b new_pages)) \<and>
    (snd (vregion_resize vl b new_pages) \<longleftrightarrow>
       (\<exists>k. vregion_find_exact vl b = Some k \<and> resize_ok vl k new_pages))"
  using assms
proof (cases rule: vregion_resize_cases [where b = b and ?new_pages = new_pages])
  case refused
  then show ?thesis using assms vregion_free_inv [OF assms] by auto
next
  case (resized k n)
  have srt: "vl_sorted (regions vl)" using assms by (simp add: vl_inv_def)
  then have "unat (base (regions vl ! k)) mod 4096 = 0"
    using resized(2) by (simp add: vl_sorted_def region_ok_def)
  then have "vl_sorted ((regions vl)[k := n])"
    using resized by (intro vl_sorted_update [OF srt resized(2)]) (simp_all add: resize_ok_def region_ok_def rend_def)
  then have "vl_inv (fst (vregion_resize vl b new_pages))"
    using assms sum_pages_update [OF resized(2,7)] resized(4,6) by (auto simp: vl_inv_def)
  then show ?thesis using resized vregion_free_inv [OF assms] by auto
qed

definition sample_regions :: vregion_list_t where
  "sample_regions = fst (vregion_insert True 0x400000 4 VREG_USER_RW
     (fst (vregion_insert True 0x408000 2 VREG_USER_RW vregion_init)))"

lemma sample_regions_eq: "sample_regions =
  \<lparr>regions = [make_node 0x400000 4 VREG_USER_RW (-1), make_node 0x408000 2 VREG_USER_RW (-1)],
   count = 2, total_pages = 6, device_pages = 0\<rparr>"
  by code_simp

lemma sample_regions_inv: "vl_inv sample_regions"
  by (simp add: sample_regions_eq vl_inv_def vl_sorted_def region_ok_def before_def rend_def make_node_def
      is_device_def VREG_USER_RW_def VREG_DEVICE_def VREG_READ_def VREG_WRITE_def VREG_USER_def)


theorem vregion_insert_exact_witness:
  "snd (vregion_insert True 0x403123 2 VREG_USER_RW sample_regions) = None \<and>
   overlaps (regions sample_regions) 0x403000 0x405000"
proof -
  have r: "snd (vregion_insert True 0x403123 2 VREG_USER_RW sample_regions) = None" by code_simp
  obtain vl' n where ins: "vregion_insert True 0x403123 2 VREG_USER_RW sample_regions = (vl', n)"
    by (cases "vregion_insert True 0x403123 2 VREG_USER_RW sample_regions")
  from vregion_insert_exact [OF sample_regions_inv _ ins] r ins show ?thesis by simp
qed

theorem vregion_find_exact_iff_witness:
  "vregion_find sample_regions 0x4095ab = Some (make_node 0x408000 2 VREG_USER_RW (-1)) \<and>
   make_node 0x408000 2 VREG_USER_RW (-1) \<in> set (regions sample_regions)"
proof -
  have r: "vregion_find sample_regions 0x4095ab = Some (make_node 0x408000 2 VREG_USER_RW (-1))" by code_simp
  from vregion_find_exact_iff [OF sample_regions_inv] r show ?thesis by blast
qed

theorem vregion_free_resize_inv_witness:
  "snd (vregion_resize sample_regions 0x400000 8) \<and> \<not> snd (vregion_resize sample_regions 0x400000 9) \<and>
   resize_ok sample_regions 0 8 \<and> vl_inv (fst (vregion_resize sample_regions 0x400000 8))"
proof -
  have r: "snd (vregion_resize sample_regions 0x400000 8)" "\<not> snd (vregion_resize sample_regions 0x400000 9)"
    "vregion_find_exact sample_regions 0x400000 = Some 0" by code_simp+
  from vregion_free_resize_inv [OF sample_regions_inv, of "0x400000" 8] r show ?thesis by auto
qed

text \<open>
  The size computation of \<^verbatim>\<open>vregion_alloc\<close> wraps.  A request for 2^20 pages has a byte size of
  0 at 32 bits, so it passes every check and is linked on top of an existing region: the list
  is no longer well formed.  (The callers bound the page count; the function itself does not.)
\<close>

theorem vregion_alloc_size_wraps:
  "snd (vregion_alloc True 0x100000 0x400000 0x500000 VREG_USER_RW (-1) sample_regions) = 0x400000 \<and>
   \<not> vl_inv (fst (vregion_alloc True 0x100000 0x400000 0x500000 VREG_USER_RW (-1) sample_regions))"
proof -
  let ?r = "vregion_alloc True 0x100000 0x400000 0x500000 VREG_USER_RW (-1) sample_regions"
  have "regions (fst ?r) = make_node 0x400000 0x100000 VREG_USER_RW (-1) # regions sample_regions"
    by code_simp
  then have "\<not> vl_inv (fst ?r)"
    by (simp add: vl_inv_def vl_sorted_def region_ok_def rend_def make_node_def)
  moreover have "snd ?r = 0x400000" by code_simp
  ultimately show ?thesis by simp
qed

end
