(* ===== verification/Kva.thy ===== *)
theory Kva
  imports Paging "HOL-Library.Multiset"
begin

text \<open>
  The page level of \<^verbatim>\<open>kernel/mm/kheap.c\<close>: the allocator of kernel virtual page ranges (bump
  pointer, stack of single pages, list of multi-page ranges with coalescing), the functions that
  back a range with frames and strip it, and the calls \<^verbatim>\<open>kpages_alloc\<close> and \<^verbatim>\<open>kpages_free\<close>.
  The stack \<^verbatim>\<open>s_kp_stack[0..s_kp_top)\<close> is a list with its top first, the array
  \<^verbatim>\<open>s_kp_multi[0..s_kp_multi_n)\<close> a list in array order.
\<close>

section \<open>Virtual ranges\<close>

definition KHEAP_VBASE :: u32 where "KHEAP_VBASE = 0xD0000000"
definition KHEAP_VLIMIT :: u32 where "KHEAP_VLIMIT = 0xE0000000"
definition KP_STACK_MAX :: nat where "KP_STACK_MAX = 1024"
definition KP_MULTI_MAX :: nat where "KP_MULTI_MAX = 128"

record kva =
  s_bump :: u32
  s_kp_stack :: "u32 list"
  s_kp_multi :: "(u32 \<times> u32) list"
  s_kp_va_lost_pages :: u32

definition kva_boot :: kva where
  "kva_boot = \<lparr>s_bump = KHEAP_VBASE, s_kp_stack = [], s_kp_multi = [], s_kp_va_lost_pages = 0\<rparr>"

text \<open>\<^verbatim>\<open>a[i] = a[--n]\<close>: the last entry takes the place of entry \<open>i\<close>.\<close>

definition swap_remove :: "nat \<Rightarrow> 'a list \<Rightarrow> 'a list" where
  "swap_remove i xs = butlast (xs[i := last xs])"

text \<open>The first range of the list with at least \<open>n\<close> pages, from index \<open>i\<close>.\<close>

fun find_multi :: "u32 \<Rightarrow> nat \<Rightarrow> (u32 \<times> u32) list \<Rightarrow> nat option" where
  "find_multi n i [] = None"
| "find_multi n i ((v, m) # rest) = (if m = n \<or> m > n then Some i else find_multi n (Suc i) rest)"

definition take_virtual_range :: "u32 \<Rightarrow> kva \<Rightarrow> kva \<times> u32" where
  "take_virtual_range n k =
     (if n = 1 \<and> s_kp_stack k \<noteq> [] then (k\<lparr>s_kp_stack := tl (s_kp_stack k)\<rparr>, hd (s_kp_stack k))
      else case find_multi n 0 (s_kp_multi k) of
        Some i \<Rightarrow>
          (case s_kp_multi k ! i of (v, m) \<Rightarrow>
             if m = n then (k\<lparr>s_kp_multi := swap_remove i (s_kp_multi k)\<rparr>, v)
             else (k\<lparr>s_kp_multi := (s_kp_multi k)[i := (v + n * PAGE_SIZE, m - n)]\<rparr>, v))
      | None \<Rightarrow>
          if s_bump k + n * PAGE_SIZE > KHEAP_VLIMIT then (k, 0)
          else (k\<lparr>s_bump := s_bump k + n * PAGE_SIZE\<rparr>, s_bump k))"

text \<open>
  One round of \<^verbatim>\<open>merge_with_multi\<close>: the index of the first neighbour, and the merged range.
\<close>

fun find_neighbour :: "u32 \<Rightarrow> u32 \<Rightarrow> nat \<Rightarrow> (u32 \<times> u32) list \<Rightarrow> (nat \<times> u32 \<times> u32) option" where
  "find_neighbour virt n i [] = None"
| "find_neighbour virt n i ((mv, mp) # rest) =
     (if mv + mp * PAGE_SIZE = virt then Some (i, mv, n + mp)
      else if virt + n * PAGE_SIZE = mv then Some (i, virt, n + mp)
      else find_neighbour virt n (Suc i) rest)"

lemma find_neighbour_index: "find_neighbour virt n i ms = Some (j, v, c) \<Longrightarrow> i \<le> j \<and> j < i + length ms"
  by (induction virt n i ms rule: find_neighbour.induct) (auto split: if_splits)

function merge_with_multi :: "u32 \<Rightarrow> u32 \<Rightarrow> (u32 \<times> u32) list \<Rightarrow> u32 \<times> u32 \<times> (u32 \<times> u32) list" where
  "merge_with_multi virt n ms =
     (case find_neighbour virt n 0 ms of
        None \<Rightarrow> (virt, n, ms)
      | Some (i, v, c) \<Rightarrow> merge_with_multi v c (swap_remove i ms))"
  by pat_completeness auto
termination
  by (relation "measure (\<lambda>(virt, n, ms). length ms)")
    (auto simp: swap_remove_def dest: find_neighbour_index)

declare merge_with_multi.simps [simp del]

definition give_virtual_range :: "u32 \<Rightarrow> u32 \<Rightarrow> kva \<Rightarrow> kva \<times> u32" where
  "give_virtual_range virt0 n0 k0 =
     (case merge_with_multi virt0 n0 (s_kp_multi k0) of (virt, n, ms) \<Rightarrow>
        let k = k0\<lparr>s_kp_multi := ms\<rparr>
        in if virt + n * PAGE_SIZE = s_bump k then (k\<lparr>s_bump := virt\<rparr>, 0)
           else if n = 1 \<and> length (s_kp_stack k) < KP_STACK_MAX
           then (k\<lparr>s_kp_stack := virt # s_kp_stack k\<rparr>, 0)
           else if length (s_kp_multi k) < KP_MULTI_MAX
           then (k\<lparr>s_kp_multi := s_kp_multi k @ [(virt, n)]\<rparr>, 0)
           else
             let st = fold (\<lambda>i st. if length st < KP_STACK_MAX then (virt + i * PAGE_SIZE) # st else st)
                        (words_from 0 n) (s_kp_stack k);
                 lost = n - of_nat (length st - length (s_kp_stack k))
             in (k\<lparr>s_kp_stack := st, s_kp_va_lost_pages := s_kp_va_lost_pages k + lost\<rparr>, lost))"

function kva_singles_trim :: "kva \<Rightarrow> kva" where
  "kva_singles_trim k =
     (if s_kp_stack k = [] then k
      else
        let v = hd (s_kp_stack k);
            k1 = k\<lparr>s_kp_stack := tl (s_kp_stack k)\<rparr>;
            k2 = fst (give_virtual_range v 1 k1)
        in if length (s_kp_stack k2) < length (s_kp_stack k1) + 1 then kva_singles_trim k2 else k2)"
  by pat_completeness auto
termination
  by (relation "measure (\<lambda>k. length (s_kp_stack k))") auto

declare kva_singles_trim.simps [simp del]

section \<open>Frames behind a range\<close>

definition strip_chunk :: "u32 \<Rightarrow> u32 \<Rightarrow> machine \<Rightarrow> machine option" where
  "strip_chunk vbase n s = do {
     (s1, phys) \<leftarrow> fold_option (\<lambda>i (s, phys). do {
        (p, _) \<leftarrow> paging_get_physical (vbase + i * PAGE_SIZE) s;
        s' \<leftarrow> paging_unmap_page (vbase + i * PAGE_SIZE) s;
        Some (s', phys @ [p]) }) (words_from 0 n) (s, []);
     Some (fold (\<lambda>p s. if p \<noteq> 0 then drop_frame (p AND 0xFFFFF000) s else s) phys s1) }"

function strip_from :: "u32 \<Rightarrow> u32 \<Rightarrow> u32 \<Rightarrow> machine \<Rightarrow> machine option" where
  "strip_from virt cnt dn s =
     (if \<not> dn < cnt then Some s
      else let n = (if cnt - dn > 64 then 64 else cnt - dn)
           in Option.bind (strip_chunk (virt + dn * PAGE_SIZE) n s) (strip_from virt cnt (dn + n)))"
  by pat_completeness auto
termination
proof (relation "measure (\<lambda>(virt, cnt, dn, s). unat (cnt - dn))")
  fix virt cnt dn :: u32 and s :: machine and n :: u32 and t :: machine
  assume a: "\<not> \<not> dn < cnt" and n: "n = (if cnt - dn > 64 then 64 else cnt - dn)"
  have pos: "0 < n" "n \<le> cnt - dn" using a n by (auto simp: word_less_nat_alt word_le_nat_alt unat_sub_u32)
  have "unat (cnt - (dn + n)) = unat (cnt - dn) - unat n"
    using unat_sub_u32 [OF pos(2)] by (simp add: diff_diff_eq)
  then show "((virt, cnt, dn + n, t), (virt, cnt, dn, s)) \<in> measure (\<lambda>(virt, cnt, dn, s). unat (cnt - dn))"
    using pos by (simp add: word_less_nat_alt word_le_nat_alt)
qed auto

declare strip_from.simps [simp del]

definition strip_range_frames :: "u32 \<Rightarrow> u32 \<Rightarrow> machine \<Rightarrow> machine option" where
  "strip_range_frames virt cnt s = strip_from virt cnt 0 s"

fun back_from :: "u32 \<Rightarrow> u32 list \<Rightarrow> machine \<Rightarrow> (machine \<times> bool) option" where
  "back_from virt [] s = Some (s, True)"
| "back_from virt (i # is) s =
     (case grab_frame PMM_ZONE_ANY s of (s1, frame) \<Rightarrow>
        if frame = 0 then map_option (\<lambda>s. (s, False)) (strip_range_frames virt i s1)
        else Option.bind (paging_map_page (virt + i * PAGE_SIZE) frame (PTE_PRESENT OR PTE_WRITABLE) s1)
               (back_from virt is))"

definition back_range_with_frames :: "u32 \<Rightarrow> u32 \<Rightarrow> machine \<Rightarrow> (machine \<times> bool) option" where
  "back_range_with_frames virt cnt = back_from virt (words_from 0 cnt)"

definition kpages_alloc :: "u32 \<Rightarrow> kva \<Rightarrow> machine \<Rightarrow> (kva \<times> machine \<times> u32) option" where
  "kpages_alloc cnt k s =
     (if cnt = 0 then Some (k, s, 0)
      else case take_virtual_range cnt k of (k1, virt) \<Rightarrow>
        if virt = 0 then Some (k1, s, 0)
        else do {
          (s1, ok) \<leftarrow> back_range_with_frames virt cnt s;
          if \<not> ok then Some (fst (give_virtual_range virt cnt k1), s1, 0)
          else Some (k1, s1, virt) })"

definition kpage_alloc :: "kva \<Rightarrow> machine \<Rightarrow> (kva \<times> machine \<times> u32) option" where
  "kpage_alloc = kpages_alloc 1"

definition kpages_free :: "u32 \<Rightarrow> u32 \<Rightarrow> kva \<Rightarrow> machine \<Rightarrow> (kva \<times> machine) option" where
  "kpages_free virt cnt k s =
     (if virt = 0 \<or> cnt = 0 then Some (k, s)
      else do {
        s1 \<leftarrow> strip_range_frames virt cnt s;
        Some (fst (give_virtual_range virt cnt k), s1) })"

definition kpage_free :: "u32 \<Rightarrow> kva \<Rightarrow> machine \<Rightarrow> (kva \<times> machine) option" where
  "kpage_free virt = kpages_free virt 1"

section \<open>The pages the allocator holds\<close>

text \<open>
  Pages as numbers; \<open>free_mset\<close> is the multiset of the page numbers in the stack, in the
  multi-page list and above the bump pointer, so that "no page is held twice" can be said.
\<close>

definition vp :: "u32 \<Rightarrow> nat" where
  "vp v = unat v div 4096"

definition rng :: "u32 \<Rightarrow> u32 \<Rightarrow> nat multiset" where
  "rng v n = mset [vp v..<vp v + unat n]"

definition free_mset :: "kva \<Rightarrow> nat multiset" where
  "free_mset k = image_mset vp (mset (s_kp_stack k)) + sum_mset (image_mset (\<lambda>(v, n). rng v n) (mset (s_kp_multi k))) +
     mset [vp (s_bump k)..<vp KHEAP_VLIMIT]"

definition ok_range :: "u32 \<Rightarrow> u32 \<Rightarrow> bool" where
  "ok_range v n \<longleftrightarrow> unat v mod 4096 = 0 \<and> 0 < n \<and> 3489660928 \<le> unat v \<and> unat v + unat n * 4096 \<le> 3758096384"

definition kva_ok :: "kva \<Rightarrow> bool" where
  "kva_ok k \<longleftrightarrow> unat (s_bump k) mod 4096 = 0 \<and> 3489660928 \<le> unat (s_bump k) \<and> unat (s_bump k) \<le> 3758096384 \<and>
     (\<forall>v \<in> set (s_kp_stack k). ok_range v 1) \<and> (\<forall>(v, n) \<in> set (s_kp_multi k). ok_range v n) \<and>
     length (s_kp_stack k) \<le> KP_STACK_MAX \<and> length (s_kp_multi k) \<le> KP_MULTI_MAX"

definition kva_inv :: "kva \<Rightarrow> bool" where
  "kva_inv k \<longleftrightarrow> kva_ok k \<and> (\<forall>p. count (free_mset k) p \<le> 1)"

lemma vlimit: "unat KHEAP_VLIMIT = 3758096384" "vp KHEAP_VLIMIT = 917504"
  by (simp_all add: KHEAP_VLIMIT_def vp_def)

lemma ok_range_pages:
  assumes "ok_range v n"
  shows "unat n < 131072" and "unat (n * PAGE_SIZE) = unat n * 4096"
    and "unat (v + n * PAGE_SIZE) = unat v + unat n * 4096" and "vp (v + n * PAGE_SIZE) = vp v + unat n"
    and "unat v = vp v * 4096"
proof -
  have n: "3489660928 \<le> unat v" "unat v + unat n * 4096 \<le> 3758096384" using assms by (simp_all add: ok_range_def)
  then show "unat n < 131072" by linarith
  then have "unat n * unat PAGE_SIZE < 4294967296" by (simp add: PAGE_SIZE_def)
  then show sz: "unat (n * PAGE_SIZE) = unat n * 4096" by (simp add: unat_mult_u32) (simp add: PAGE_SIZE_def)
  show e: "unat (v + n * PAGE_SIZE) = unat v + unat n * 4096" using n by (simp add: unat_add_u32 sz)
  show "unat v = vp v * 4096" using assms by (metis add.right_neutral div_mult_mod_eq ok_range_def vp_def)
  show "vp (v + n * PAGE_SIZE) = vp v + unat n" by (simp add: vp_def e)
qed

lemma rng_split:
  assumes "unat m = unat n + unat r" and "vp w = vp v + unat n"
  shows "rng v m = rng v n + rng w r"
proof -
  have "[vp v..<vp v + unat n + unat r] = [vp v..<vp v + unat n] @ [vp v + unat n..<vp v + unat n + unat r]"
    by (rule upt_add_eq_append) simp
  then show ?thesis by (simp add: rng_def assms add.assoc)
qed

lemma mset_swap_remove:
  assumes "i < length xs"
  shows "mset xs = add_mset (xs ! i) (mset (swap_remove i xs))"
proof -
  have ne: "xs \<noteq> []" using assms by auto
  have "mset (xs[i := last xs]) = add_mset (last xs) (mset xs - {#xs ! i#})" by (rule mset_update [OF assms])
  moreover have "last (xs[i := last xs]) = last xs"
    using ne assms by (simp add: last_conv_nth nth_list_update)
  then have "xs[i := last xs] = swap_remove i xs @ [last xs]"
    using ne append_butlast_last_id [of "xs[i := last xs]"] by (simp add: swap_remove_def)
  then have "mset (xs[i := last xs]) = add_mset (last xs) (mset (swap_remove i xs))" by simp
  ultimately have "mset (swap_remove i xs) = mset xs - {#xs ! i#}" by simp
  then show ?thesis using assms by simp
qed

lemma set_swap_remove: "i < length xs \<Longrightarrow> set (swap_remove i xs) \<subseteq> set xs"
  by (metis mset_swap_remove set_mset_mset set_mset_add_mset_insert subset_insertI)

lemma length_swap_remove: "i < length xs \<Longrightarrow> Suc (length (swap_remove i xs)) = length xs"
  by (simp add: swap_remove_def)

section \<open>Taking a range\<close>

lemma find_multi_Some:
  "find_multi n i ms = Some j \<Longrightarrow> i \<le> j \<and> j - i < length ms \<and> n \<le> snd (ms ! (j - i))"
proof (induction n i ms rule: find_multi.induct)
  case (2 n i v m rest)
  show ?case
  proof (cases "m = n \<or> m > n")
    case True
    then show ?thesis using 2(2) by auto
  next
    case False
    then have "Suc i \<le> j \<and> j - Suc i < length rest \<and> n \<le> snd (rest ! (j - Suc i))" using 2 by simp
    moreover from this have "Suc i \<le> j" by blast
    then have "j - i = Suc (j - Suc i)" by arith
    ultimately show ?thesis by auto
  qed
qed simp

lemma find_multi_None: "find_multi n i ms = None \<Longrightarrow> \<forall>(v, m) \<in> set ms. m < n"
  by (induction n i ms rule: find_multi.induct) (auto split: if_splits)

lemma sum_mset_at:
  assumes "i < length ms" and "ms ! i = (v, m)"
  shows "sum_mset (image_mset (\<lambda>(v, n). rng v n) (mset ms)) =
    rng v m + sum_mset (image_mset (\<lambda>(v, n). rng v n) (mset (swap_remove i ms)))"
  using mset_swap_remove [OF assms(1)] assms(2) by simp

lemma sum_mset_upd:
  assumes "i < length ms" and "ms ! i = (v, m)"
  shows "sum_mset (image_mset (\<lambda>(v, n). rng v n) (mset (ms[i := (w, r)]))) + rng v m =
    sum_mset (image_mset (\<lambda>(v, n). rng v n) (mset ms)) + rng w r"
proof -
  define R where "R = mset ms - {#(v, m)#}"
  have "mset (ms[i := (w, r)]) = add_mset (w, r) R"
    using mset_update [OF assms(1)] assms(2) by (simp add: R_def)
  moreover have "mset ms = add_mset (v, m) R"
    unfolding R_def using assms by (metis insert_DiffM nth_mem_mset)
  ultimately show ?thesis by (simp add: ac_simps)
qed

lemma take_virtual_range_cases:
  assumes ok: "kva_ok k" and n: "0 < n" "unat n < 131072"
  obtains (none) "take_virtual_range n k = (k, 0)" "n = 1 \<longrightarrow> s_kp_stack k = []"
      "\<forall>(v, m) \<in> set (s_kp_multi k). m < n" "3758096384 < unat (s_bump k) + unat n * 4096"
  | (got) k' v where "take_virtual_range n k = (k', v)" "v \<noteq> 0" "ok_range v n" "kva_ok k'"
      "free_mset k = free_mset k' + rng v n" "s_kp_va_lost_pages k' = s_kp_va_lost_pages k"
proof (cases "n = 1 \<and> s_kp_stack k \<noteq> []")
  case True
  then obtain v st where st: "s_kp_stack k = v # st" by (cases "s_kp_stack k") auto
  have v: "ok_range v 1" using ok st by (simp add: kva_ok_def)
  then have "v \<noteq> 0" by (auto simp: ok_range_def)
  moreover have "rng v 1 = {#vp v#}" by (simp add: rng_def)
  ultimately show thesis
    using True st v ok
    by (intro got [of "k\<lparr>s_kp_stack := st\<rparr>" v])
      (auto simp: take_virtual_range_def kva_ok_def free_mset_def ac_simps)
next
  case ns: False
  show thesis
  proof (cases "find_multi n 0 (s_kp_multi k)")
    case (Some i)
    obtain v m where vm: "s_kp_multi k ! i = (v, m)" by (cases "s_kp_multi k ! i")
    have i: "i < length (s_kp_multi k)" "n \<le> m" using find_multi_Some [OF Some] vm by auto
    have vin: "(v, m) \<in> set (s_kp_multi k)" using i(1) vm by (metis nth_mem)
    then have okv: "ok_range v m" using ok by (auto simp: kva_ok_def)
    have okn: "ok_range v n" using okv i(2) n by (auto simp: ok_range_def word_le_nat_alt)
    then have nz: "v \<noteq> 0" by (auto simp: ok_range_def)
    show thesis
    proof (cases "m = n")
      case True
      let ?k = "k\<lparr>s_kp_multi := swap_remove i (s_kp_multi k)\<rparr>"
      have "kva_ok ?k"
        using ok set_swap_remove [OF i(1)] length_swap_remove [OF i(1)] by (auto simp: kva_ok_def)
      then show thesis
        using True ns Some vm okn nz sum_mset_at [OF i(1) vm]
        by (intro got [of ?k v]) (auto simp: take_virtual_range_def free_mset_def ac_simps)
    next
      case False
      let ?w = "v + n * PAGE_SIZE" and ?r = "m - n"
      let ?k = "k\<lparr>s_kp_multi := (s_kp_multi k)[i := (?w, ?r)]\<rparr>"
      note pn = ok_range_pages [OF okn]
      have r: "unat ?r = unat m - unat n" "unat n < unat m"
        using i(2) False by (auto simp: unat_sub_u32 word_le_nat_alt unat_eq_iff_u32)
      have "ok_range ?w ?r"
        using okv pn r by (auto simp: ok_range_def word_less_nat_alt)
      then have "kva_ok ?k"
        using ok by (auto simp: kva_ok_def dest!: set_update_subset_insert [THEN subsetD])
      moreover have "rng v m = rng v n + rng ?w ?r" using r pn by (intro rng_split) auto
      then have "free_mset k = free_mset ?k + rng v n"
        using sum_mset_upd [OF i(1) vm, of ?w ?r] by (simp add: free_mset_def ac_simps)
      ultimately show thesis
        using False ns Some vm okn nz by (intro got [of ?k v]) (auto simp: take_virtual_range_def)
    qed
  next
    case None
    have b: "unat (s_bump k) mod 4096 = 0" "3489660928 \<le> unat (s_bump k)" "unat (s_bump k) \<le> 3758096384"
      using ok by (auto simp: kva_ok_def)
    have "unat n * unat PAGE_SIZE < 4294967296" using n(2) by (simp add: PAGE_SIZE_def)
    then have sz: "unat (n * PAGE_SIZE) = unat n * 4096" by (simp add: unat_mult_u32) (simp add: PAGE_SIZE_def)
    then have sum: "unat (s_bump k + n * PAGE_SIZE) = unat (s_bump k) + unat n * 4096"
      using b(3) n(2) by (simp add: unat_add_u32)
    show thesis
    proof (cases "s_bump k + n * PAGE_SIZE > KHEAP_VLIMIT")
      case True
      then show thesis
        using ns None find_multi_None [OF None] sum
        by (intro none) (auto simp: take_virtual_range_def word_less_nat_alt vlimit)
    next
      case False
      let ?k = "k\<lparr>s_bump := s_bump k + n * PAGE_SIZE\<rparr>"
      have ok': "ok_range (s_bump k) n"
        using False b n(1) sum by (auto simp: ok_range_def word_less_nat_alt vlimit)
      note pn = ok_range_pages [OF ok']
      have "vp (s_bump k) + unat n \<le> vp KHEAP_VLIMIT"
        using ok' pn(5) unfolding vlimit ok_range_def by linarith
      then have "mset [vp (s_bump k)..<vp KHEAP_VLIMIT] = rng (s_bump k) n + mset [vp (s_bump ?k)..<vp KHEAP_VLIMIT]"
        using upt_add_eq_append [of "vp (s_bump k)" "vp (s_bump k) + unat n" "vp KHEAP_VLIMIT - (vp (s_bump k) + unat n)"]
        by (simp add: rng_def pn(4))
      then have "free_mset k = free_mset ?k + rng (s_bump k) n" by (simp add: free_mset_def ac_simps)
      moreover have "kva_ok ?k" using ok ok' sum b by (auto simp: kva_ok_def ok_range_def)
      moreover have "s_bump k \<noteq> 0" using b(2) by auto
      ultimately show thesis
        using False ns None ok' by (intro got [of ?k "s_bump k"]) (auto simp: take_virtual_range_def)
    qed
  qed
qed

section \<open>Giving a range back\<close>

lemma find_neighbour_Some:
  assumes "find_neighbour virt n i ms = Some (j, v, c)" and "\<forall>(v, m) \<in> set ms. ok_range v m" and "ok_range virt n"
  shows "i \<le> j \<and> j - i < length ms \<and> ok_range v c \<and>
    rng v c = rng virt n + (case ms ! (j - i) of (mv, mp) \<Rightarrow> rng mv mp)"
  using assms
proof (induction virt n i ms rule: find_neighbour.induct)
  case (2 virt n i mv mp rest)
  have m: "ok_range mv mp" using 2(3) by simp
  note pm = ok_range_pages [OF m] and pv = ok_range_pages [OF 2(4)]
  have wrap: "unat (n + mp) = unat n + unat mp" using pm(1) pv(1) by (simp add: unat_add_u32)
  have pos: "0 < n + mp" using m wrap by (simp add: ok_range_def word_less_nat_alt)
  consider (before) "mv + mp * PAGE_SIZE = virt" | (after) "mv + mp * PAGE_SIZE \<noteq> virt" "virt + n * PAGE_SIZE = mv"
    | (other) "mv + mp * PAGE_SIZE \<noteq> virt" "virt + n * PAGE_SIZE \<noteq> mv" by blast
  then show ?case
  proof cases
    case before
    then have e: "unat virt = unat mv + unat mp * 4096" "vp virt = vp mv + unat mp" using pm(3,4) by auto
    have "ok_range mv (n + mp)" using m 2(4) pos by (auto simp: ok_range_def wrap e)
    moreover have "rng mv (n + mp) = rng mv mp + rng virt n" using wrap e by (intro rng_split) auto
    ultimately show ?thesis using 2(2) before by (auto simp: ac_simps)
  next
    case after
    then have e: "unat mv = unat virt + unat n * 4096" "vp mv = vp virt + unat n" using pv(3,4) by auto
    have "ok_range virt (n + mp)" using m 2(4) pos by (auto simp: ok_range_def wrap e)
    moreover have "rng virt (n + mp) = rng virt n + rng mv mp" using wrap e by (intro rng_split) auto
    ultimately show ?thesis using 2(2) after by auto
  next
    case other
    then have "Suc i \<le> j \<and> j - Suc i < length rest \<and> ok_range v c \<and>
        rng v c = rng virt n + (case rest ! (j - Suc i) of (mv, mp) \<Rightarrow> rng mv mp)"
      using 2 by simp
    moreover from this have "Suc i \<le> j" by blast
    then have "j - i = Suc (j - Suc i)" by arith
    ultimately show ?thesis by auto
  qed
qed simp

lemma merge_with_multi_ok:
  assumes "merge_with_multi virt n ms = (v, c, ms')" and "\<forall>(v, m) \<in> set ms. ok_range v m" and "ok_range virt n"
  shows "ok_range v c \<and> (\<forall>(v, m) \<in> set ms'. ok_range v m) \<and> length ms' \<le> length ms \<and>
    rng v c + sum_mset (image_mset (\<lambda>(v, n). rng v n) (mset ms')) =
    rng virt n + sum_mset (image_mset (\<lambda>(v, n). rng v n) (mset ms)) \<and> find_neighbour v c 0 ms' = None"
  using assms
proof (induction virt n ms rule: merge_with_multi.induct)
  case (1 virt n ms)
  show ?case
  proof (cases "find_neighbour virt n 0 ms")
    case None
    then show ?thesis using 1(2-) by (auto simp: merge_with_multi.simps [of virt n ms])
  next
    case (Some x)
    then obtain i w d where x: "find_neighbour virt n 0 ms = Some (i, w, d)" by (cases x) auto
    from find_neighbour_Some [OF x 1(3,4)] have w: "i < length ms" "ok_range w d"
      "rng w d = rng virt n + (case ms ! i of (mv, mp) \<Rightarrow> rng mv mp)" by auto
    have rec: "merge_with_multi w d (swap_remove i ms) = (v, c, ms')"
      using 1(2) x by (simp add: merge_with_multi.simps [of virt n ms])
    have "\<forall>(v, m) \<in> set (swap_remove i ms). ok_range v m" using 1(3) set_swap_remove [OF w(1)] by auto
    from 1(1) [OF x refl refl rec this w(2)] show ?thesis
      using w sum_mset_at [OF w(1)] length_swap_remove [OF w(1)] by (cases "ms ! i") (auto simp: ac_simps)
  qed
qed

lemma spill_fold:
  assumes "length st \<le> M"
  shows "fold (\<lambda>i st. if length st < M then f i # st else st) is st =
    rev (map f (take (min (length is) (M - length st)) is)) @ st"
  using assms
proof (induction "is" arbitrary: st)
  case (Cons i "is")
  show ?case
  proof (cases "length st < M")
    case True
    then have "fold (\<lambda>i st. if length st < M then f i # st else st) is (f i # st) =
        rev (map f (take (min (length is) (M - length (f i # st))) is)) @ f i # st"
      by (intro Cons.IH) simp
    moreover have "min (length (i # is)) (M - length st) = Suc (min (length is) (M - length (f i # st)))"
      using True by auto
    ultimately show ?thesis using True by simp
  next
    case False
    then have full: "M - length st = 0" by simp
    have "fold (\<lambda>i st. if length st < M then f i # st else st) is st = st"
      using Cons.IH [of st] Cons.prems full by simp
    then show ?thesis using False full by simp
  qed
qed simp

lemma page_of_range:
  assumes "ok_range v n" and "i < unat n"
  shows "ok_range (v + of_nat i * PAGE_SIZE) 1" and "vp (v + of_nat i * PAGE_SIZE) = vp v + i"
proof -
  have small: "i < 131072" using assms(2) ok_range_pages(1) [OF assms(1)] by simp
  then have i: "unat (of_nat i :: u32) = i" by (intro unat_of_nat_u32) simp
  show "vp (v + of_nat i * PAGE_SIZE) = vp v + i"
  proof (cases "i = 0")
    case False
    have "ok_range v (of_nat i)" using assms False i by (auto simp: ok_range_def word_less_nat_alt)
    from ok_range_pages(4) [OF this] show ?thesis by (simp add: i)
  qed simp
  have "unat (of_nat i * PAGE_SIZE :: u32) = i * 4096"
    using small by (subst unat_mult_u32) (simp_all add: i PAGE_SIZE_def)
  moreover from this have "unat (v + of_nat i * PAGE_SIZE) = unat v + i * 4096"
    using assms by (subst unat_add_u32) (auto simp: ok_range_def)
  ultimately show "ok_range (v + of_nat i * PAGE_SIZE) 1"
    using assms by (auto simp: ok_range_def)
qed

lemma unat_of_nat_le:
  assumes "d \<le> unat (n :: u32)"
  shows "unat (of_nat d :: u32) = d"
  using assms unat_lt_u32 [of n] by (intro unat_of_nat_u32) linarith

lemma spill_pages:
  assumes v: "ok_range v n" and st: "length st0 \<le> M"
  shows "\<exists>d st. d \<le> unat n \<and>
    fold (\<lambda>i st. if length st < M then (v + i * PAGE_SIZE) # st else st) (words_from 0 n) st0 = st \<and>
    length st = d + length st0 \<and> (d < unat n \<longrightarrow> length st = M) \<and> length st \<le> M \<and>
    (\<forall>w \<in> set st. w \<in> set st0 \<or> ok_range w 1) \<and>
    image_mset vp (mset st) = mset [vp v..<vp v + d] + image_mset vp (mset st0)"
proof -
  define d where "d = min (unat n) (M - length st0)"
  have d: "d \<le> unat n" "d < unat n \<longrightarrow> d + length st0 = M" "d + length st0 \<le> M"
    using st by (auto simp: d_def)
  have tk: "take d (words_from 0 n) = map of_nat [0..<d]"
    using d(1) by (simp add: words_from_def take_map take_upt)
  let ?ps = "map (\<lambda>i. v + of_nat i * PAGE_SIZE) [0..<d]"
  have fold: "fold (\<lambda>i st. if length st < M then (v + i * PAGE_SIZE) # st else st) (words_from 0 n) st0 =
      rev ?ps @ st0"
    using spill_fold [OF st, of "\<lambda>i. v + i * PAGE_SIZE" "words_from 0 n"]
    by (simp add: length_words_from d_def [symmetric] tk comp_def)
  have pg: "ok_range (v + of_nat i * PAGE_SIZE) 1" "vp (v + of_nat i * PAGE_SIZE) = vp v + i" if "i < d" for i
    using page_of_range [OF v] that d(1) by auto
  have "map vp ?ps = [vp v..<vp v + d]" by (rule nth_equalityI) (simp_all add: pg(2))
  then have "image_mset vp (mset ?ps) = mset [vp v..<vp v + d]" by (metis mset_map)
  then have "image_mset vp (mset (rev ?ps @ st0)) = mset [vp v..<vp v + d] + image_mset vp (mset st0)"
    by (simp only: mset_append mset_rev image_mset_union)
  moreover have "\<forall>w \<in> set (rev ?ps @ st0). w \<in> set st0 \<or> ok_range w 1" using pg(1) by auto
  ultimately show ?thesis using fold d by (intro exI [of _ d] exI [of _ "rev ?ps @ st0"]) simp
qed

lemma give_virtual_range_ok:
  assumes ok: "kva_ok k" and r: "ok_range v0 n0" and give: "give_virtual_range v0 n0 k = (k', lost)"
  shows "kva_ok k'" and "\<exists>L. size L = unat lost \<and> free_mset k' + L = free_mset k + rng v0 n0"
    and "lost \<noteq> 0 \<Longrightarrow> length (s_kp_stack k') = KP_STACK_MAX \<and> length (s_kp_multi k') = KP_MULTI_MAX"
    and "s_kp_va_lost_pages k' = s_kp_va_lost_pages k + lost"
proof -
  obtain v n ms where m: "merge_with_multi v0 n0 (s_kp_multi k) = (v, n, ms)"
    by (cases "merge_with_multi v0 n0 (s_kp_multi k)") auto
  define k1 where "k1 = k\<lparr>s_kp_multi := ms\<rparr>"
  have okm: "\<forall>(v, m) \<in> set (s_kp_multi k). ok_range v m" using ok by (simp add: kva_ok_def)
  note mm = merge_with_multi_ok [OF m okm r]
  have v: "ok_range v n" using mm by simp
  have ok1: "kva_ok k1" using ok mm by (auto simp: kva_ok_def k1_def)
  have fm: "free_mset k1 + rng v n = free_mset k + rng v0 n0" using mm by (simp add: free_mset_def k1_def ac_simps)
  note pv = ok_range_pages [OF v]
  let ?goal = "kva_ok k' \<and> (\<exists>L. size L = unat lost \<and> free_mset k' + L = free_mset k1 + rng v n) \<and>
    (lost \<noteq> 0 \<longrightarrow> length (s_kp_stack k') = KP_STACK_MAX \<and> length (s_kp_multi k') = KP_MULTI_MAX) \<and>
    s_kp_va_lost_pages k' = s_kp_va_lost_pages k + lost"
  have ?goal
  proof (cases "v + n * PAGE_SIZE = s_bump k1")
    case True
    then have eq: "k' = k1\<lparr>s_bump := v\<rparr>" "lost = 0" using give m by (simp_all add: give_virtual_range_def k1_def)
    have "vp v + unat n \<le> vp KHEAP_VLIMIT" using v pv(5) unfolding vlimit ok_range_def by linarith
    then have "mset [vp v..<vp KHEAP_VLIMIT] = rng v n + mset [vp (s_bump k1)..<vp KHEAP_VLIMIT]"
      using upt_add_eq_append [of "vp v" "vp v + unat n" "vp KHEAP_VLIMIT - (vp v + unat n)"] pv(4) True
      by (simp add: rng_def)
    then have "free_mset k' = free_mset k1 + rng v n" by (simp add: eq free_mset_def ac_simps)
    moreover have "kva_ok k'" using ok1 v by (auto simp: eq kva_ok_def ok_range_def)
    ultimately show ?thesis by (simp add: eq) (simp add: k1_def)
  next
    case nb: False
    show ?thesis
    proof (cases "n = 1 \<and> length (s_kp_stack k1) < KP_STACK_MAX")
      case True
      then have eq: "k' = k1\<lparr>s_kp_stack := v # s_kp_stack k1\<rparr>" "lost = 0"
        using give m nb by (simp_all add: give_virtual_range_def k1_def)
      have "rng v n = {#vp v#}" using True by (simp add: rng_def)
      then show ?thesis using ok1 v True by (auto simp: eq kva_ok_def free_mset_def k1_def)
    next
      case ns: False
      show ?thesis
      proof (cases "length (s_kp_multi k1) < KP_MULTI_MAX")
        case True
        then have eq: "k' = k1\<lparr>s_kp_multi := s_kp_multi k1 @ [(v, n)]\<rparr>" "lost = 0"
          using give m nb ns by (auto simp: give_virtual_range_def k1_def)
        then show ?thesis using ok1 v True by (auto simp: kva_ok_def free_mset_def k1_def ac_simps)
      next
        case nm: False
        have "length (s_kp_stack k1) \<le> KP_STACK_MAX" using ok1 by (simp add: kva_ok_def)
        from spill_pages [OF v this] obtain d st where sp: "d \<le> unat n"
          "fold (\<lambda>i st. if length st < KP_STACK_MAX then (v + i * PAGE_SIZE) # st else st) (words_from 0 n)
             (s_kp_stack k1) = st"
          "length st = d + length (s_kp_stack k1)" "d < unat n \<longrightarrow> length st = KP_STACK_MAX"
          "length st \<le> KP_STACK_MAX" "\<forall>w \<in> set st. w \<in> set (s_kp_stack k1) \<or> ok_range w 1"
          "image_mset vp (mset st) = mset [vp v..<vp v + d] + image_mset vp (mset (s_kp_stack k1))"
          by blast
        have eq: "k' = k1\<lparr>s_kp_stack := st, s_kp_va_lost_pages := s_kp_va_lost_pages k1 + lost\<rparr>"
          "lost = n - of_nat d"
          using give m nb ns nm sp(2,3) by (auto simp: give_virtual_range_def k1_def Let_def)
        have "of_nat d \<le> n" using sp(1) by (simp add: word_le_nat_alt unat_of_nat_le)
        moreover have ud: "unat (of_nat d :: u32) = d" using sp(1) unat_of_nat_le by (simp add: unat_of_nat_le)
        ultimately have l: "unat lost = unat n - d" by (simp add: eq unat_sub_u32)
        let ?L = "mset [vp v + d..<vp v + unat n]"
        have "rng v n = mset [vp v..<vp v + d] + ?L"
          using upt_add_eq_append [of "vp v" "vp v + d" "unat n - d"] sp(1) by (simp add: rng_def)
        then have fl: "free_mset k' + ?L = free_mset k1 + rng v n" by (simp add: eq free_mset_def sp(7) ac_simps)
        have "size ?L = unat lost" by (simp add: l)
        with fl have A: "\<exists>L. size L = unat lost \<and> free_mset k' + L = free_mset k1 + rng v n" by blast
        have B: "kva_ok k'" using ok1 sp(5,6) by (auto simp: eq(1) kva_ok_def)
        have "length (s_kp_multi k1) = KP_MULTI_MAX" using nm ok1 by (simp add: kva_ok_def)
        moreover have "lost \<noteq> 0 \<longrightarrow> d < unat n" using l sp(1) by (auto simp: unat_eq_iff_u32)
        ultimately have "lost \<noteq> 0 \<longrightarrow> length (s_kp_stack k') = KP_STACK_MAX \<and> length (s_kp_multi k') = KP_MULTI_MAX"
          using sp(4) by (auto simp: eq(1))
        moreover have "s_kp_va_lost_pages k' = s_kp_va_lost_pages k + lost" by (simp add: eq(1) k1_def)
        ultimately show ?thesis using A B by blast
      qed
    qed
  qed
  then show "kva_ok k'" "\<exists>L. size L = unat lost \<and> free_mset k' + L = free_mset k + rng v0 n0"
    "lost \<noteq> 0 \<Longrightarrow> length (s_kp_stack k') = KP_STACK_MAX \<and> length (s_kp_multi k') = KP_MULTI_MAX"
    "s_kp_va_lost_pages k' = s_kp_va_lost_pages k + lost"
    by (simp_all add: fm)
qed

section \<open>No page is handed out twice\<close>

lemma distinct_part:
  fixes A B :: "'a multiset"
  assumes "\<forall>p. count (A + B) p \<le> 1"
  shows "\<forall>p. count A p \<le> 1" and "set_mset A \<inter> set_mset B = {}"
proof -
  show "\<forall>p. count A p \<le> 1" using assms by (metis add_leD1 count_union)
  have "\<not> (0 < count A p \<and> 0 < count B p)" for p
  proof -
    have "count A p + count B p \<le> 1" using assms by (metis count_union)
    then show ?thesis by linarith
  qed
  then show "set_mset A \<inter> set_mset B = {}" by (metis count_greater_zero_iff disjoint_iff)
qed

lemma distinct_join:
  fixes A B :: "'a multiset"
  assumes "\<forall>p. count A p \<le> 1" and "\<forall>p. count B p \<le> 1" and "set_mset A \<inter> set_mset B = {}"
  shows "\<forall>p. count (A + B) p \<le> 1"
proof
  fix p
  have "count A p = 0 \<or> count B p = 0" using assms(3) by (auto simp: count_eq_zero_iff)
  then show "count (A + B) p \<le> 1" using assms(1,2) by auto
qed

lemma count_rng: "count (rng v n) p \<le> 1"
proof -
  have "distinct [vp v..<vp v + unat n]" by simp
  then have "count (mset [vp v..<vp v + unat n]) p = (if p \<in> set [vp v..<vp v + unat n] then 1 else 0)"
    by (rule distinct_count_atmost_1 [THEN iffD1, rule_format])
  then show ?thesis by (simp add: rng_def)
qed

lemma take_virtual_range_facts:
  assumes "kva_inv k" and "0 < n" and "unat n < 131072" and "take_virtual_range n k = (k', v)"
  shows "kva_inv k' \<and>
    (v \<noteq> 0 \<longrightarrow> ok_range v n \<and> free_mset k = free_mset k' + rng v n \<and>
       set_mset (free_mset k') \<inter> set_mset (rng v n) = {}) \<and>
    (v = 0 \<longrightarrow> k' = k \<and> (n = 1 \<longrightarrow> s_kp_stack k = []) \<and> (\<forall>(w, m) \<in> set (s_kp_multi k). m < n) \<and>
       unat KHEAP_VLIMIT < unat (s_bump k) + unat n * 4096)"
proof -
  have ok: "kva_ok k" and one: "\<forall>p. count (free_mset k) p \<le> 1" using assms(1) by (simp_all add: kva_inv_def)
  from ok assms(2,3) show ?thesis
  proof (cases rule: take_virtual_range_cases)
    case none
    then have "k' = k" "v = 0" using assms(4) by simp_all
    then show ?thesis using none(2-) assms(1) by (simp add: vlimit)
  next
    case (got k1 w)
    then have eq: "k' = k1" "v = w" using assms(4) by simp_all
    note d = distinct_part [OF one [unfolded got(5)]]
    then show ?thesis using got(2-5) by (simp add: eq kva_inv_def)
  qed
qed

text \<open>
  The kernel's virtual page allocator never hands a page out twice.  A request for up to 2^17
  pages either returns a page-aligned range inside the heap window whose pages were all free
  and leave the free pages, or changes nothing and the stack, the range list and the space above
  the bump pointer really cannot serve it.
\<close>

theorem take_virtual_range_exclusive:
  assumes "kva_inv k" and "0 < n" and "unat n < 131072" and "take_virtual_range n k = (k', v)"
  shows "kva_inv k' \<and>
    (v \<noteq> 0 \<longrightarrow> ok_range v n \<and> free_mset k = free_mset k' + rng v n \<and>
       set_mset (free_mset k') \<inter> set_mset (rng v n) = {}) \<and>
    (v = 0 \<longrightarrow> k' = k \<and> (n = 1 \<longrightarrow> s_kp_stack k = []) \<and> (\<forall>(w, m) \<in> set (s_kp_multi k). m < n) \<and>
       unat KHEAP_VLIMIT < unat (s_bump k) + unat n * 4096)"
  by (rule take_virtual_range_facts [OF assms])

lemma give_virtual_range_facts:
  assumes "kva_inv k" and "ok_range v n" and "set_mset (free_mset k) \<inter> set_mset (rng v n) = {}"
    and "give_virtual_range v n k = (k', lost)"
  shows "kva_inv k' \<and> free_mset k' \<subseteq># free_mset k + rng v n \<and>
    size (free_mset k') + unat lost = size (free_mset k) + unat n \<and>
    s_kp_va_lost_pages k' = s_kp_va_lost_pages k + lost \<and>
    (lost \<noteq> 0 \<longrightarrow> length (s_kp_stack k') = KP_STACK_MAX \<and> length (s_kp_multi k') = KP_MULTI_MAX)"
proof -
  have ok: "kva_ok k" and one: "\<forall>p. count (free_mset k) p \<le> 1" using assms(1) by (simp_all add: kva_inv_def)
  note g = give_virtual_range_ok [OF ok assms(2,4)]
  obtain L where L: "size L = unat lost" "free_mset k' + L = free_mset k + rng v n" using g(2) by blast
  have "\<forall>p. count (free_mset k' + L) p \<le> 1"
    unfolding L(2) using one count_rng assms(3) by (intro distinct_join) auto
  then have "kva_inv k'" using g(1) distinct_part(1) by (auto simp: kva_inv_def)
  moreover have "free_mset k' \<subseteq># free_mset k + rng v n" by (metis L(2) mset_subset_eq_add_left)
  moreover have "size (free_mset k') + unat lost = size (free_mset k) + unat n"
    using arg_cong [OF L(2), of size] L(1) by (simp add: rng_def)
  ultimately show ?thesis using g(3,4) by simp
qed

text \<open>
  Giving a range back conserves the pages.  For a range that is not free already, the allocator
  stays consistent and its free pages grow by that range, except for at most \<^verbatim>\<open>lost\<close> pages; pages
  are lost (and counted) only when both the stack and the range list are full.
\<close>

theorem give_virtual_range_conserves:
  assumes "kva_inv k" and "ok_range v n" and "set_mset (free_mset k) \<inter> set_mset (rng v n) = {}"
    and "give_virtual_range v n k = (k', lost)"
  shows "kva_inv k' \<and> free_mset k' \<subseteq># free_mset k + rng v n \<and>
    size (free_mset k') + unat lost = size (free_mset k) + unat n \<and>
    s_kp_va_lost_pages k' = s_kp_va_lost_pages k + lost \<and>
    (lost \<noteq> 0 \<longrightarrow> length (s_kp_stack k') = KP_STACK_MAX \<and> length (s_kp_multi k') = KP_MULTI_MAX)"
  by (rule give_virtual_range_facts [OF assms])

section \<open>The page allocator as an interface\<close>

text \<open>
  What the object level relies on: an allocation takes only free pages and they are then not free, a
  release frees no other pages than those given back.
\<close>

locale page_source =
  fixes inv :: "'k \<Rightarrow> bool"
    and free :: "'k \<Rightarrow> nat set"
    and alloc :: "u32 \<Rightarrow> 'k \<Rightarrow> 'm \<Rightarrow> ('k \<times> 'm \<times> u32) option"
    and release :: "u32 \<Rightarrow> u32 \<Rightarrow> 'k \<Rightarrow> 'm \<Rightarrow> ('k \<times> 'm) option"
  assumes alloc_ok: "inv k \<Longrightarrow> unat n < 131072 \<Longrightarrow> alloc n k m = Some (k', m', v) \<Longrightarrow>
      inv k' \<and> free k' \<subseteq> free k \<and>
      (v \<noteq> 0 \<longrightarrow> ok_range v n \<and> set_mset (rng v n) \<subseteq> free k \<and> set_mset (rng v n) \<inter> free k' = {})"
    and release_ok: "inv k \<Longrightarrow> ok_range v n \<Longrightarrow> set_mset (rng v n) \<inter> free k = {} \<Longrightarrow> release v n k m = Some (k', m') \<Longrightarrow>
      inv k' \<and> free k' \<subseteq> free k \<union> set_mset (rng v n)"
begin

text \<open>A client's pages stay its own while it allocates and while it gives other pages back.\<close>

lemma alloc_keeps:
  assumes "inv k" "unat n < 131072" "alloc n k m = Some (k', m', v)" "A \<inter> free k = {}"
  shows "A \<inter> free k' = {}" and "v \<noteq> 0 \<Longrightarrow> A \<inter> set_mset (rng v n) = {}"
  using alloc_ok [OF assms(1-3)] assms(4) by auto

lemma release_keeps:
  assumes "inv k" "ok_range v n" "set_mset (rng v n) \<inter> free k = {}" "release v n k m = Some (k', m')"
    "A \<inter> free k = {}" "A \<inter> set_mset (rng v n) = {}"
  shows "A \<inter> free k' = {}"
  using release_ok [OF assms(1-4)] assms(5,6) by auto

end

interpretation kp: page_source kva_inv "\<lambda>k. set_mset (free_mset k)" kpages_alloc kpages_free
proof
  fix k k' :: kva and n v :: u32 and m m' :: machine
  assume k: "kva_inv k" and n: "unat n < 131072" and al: "kpages_alloc n k m = Some (k', m', v)"
  show "kva_inv k' \<and> set_mset (free_mset k') \<subseteq> set_mset (free_mset k) \<and>
      (v \<noteq> 0 \<longrightarrow> ok_range v n \<and> set_mset (rng v n) \<subseteq> set_mset (free_mset k) \<and>
        set_mset (rng v n) \<inter> set_mset (free_mset k') = {})"
  proof (cases "n = 0")
    case True
    then show ?thesis using k al by (simp add: kpages_alloc_def)
  next
    case False
    then have pos: "0 < n" by (simp add: word_neq_0_conv)
    obtain k1 w where t: "take_virtual_range n k = (k1, w)" by fastforce
    note tf = take_virtual_range_facts [OF k pos n t]
    show ?thesis
    proof (cases "w = 0")
      case True
      then show ?thesis using tf k t al False by (simp add: kpages_alloc_def)
    next
      case w: False
      then obtain s1 ok where b: "back_range_with_frames w n m = Some (s1, ok)"
        and res: "(k', v) = (if ok then (k1, w) else (fst (give_virtual_range w n k1), 0))"
        using al t False by (auto simp: kpages_alloc_def bind_eq_Some_conv split: if_splits)
      have tw: "kva_inv k1" "ok_range w n" "free_mset k = free_mset k1 + rng w n"
        "set_mset (free_mset k1) \<inter> set_mset (rng w n) = {}" using tf w by simp_all
      obtain k2 lost where g: "give_virtual_range w n k1 = (k2, lost)" by fastforce
      have g2: "kva_inv k2" "free_mset k2 \<subseteq># free_mset k1 + rng w n"
        using give_virtual_range_facts [OF tw(1,2,4) g] by simp_all
      show ?thesis using res tw g g2(1) set_mset_mono [OF g2(2)] by (cases ok) auto
    qed
  qed
next
  fix k k' :: kva and n v :: u32 and m m' :: machine
  assume k: "kva_inv k" and v: "ok_range v n" "set_mset (rng v n) \<inter> set_mset (free_mset k) = {}"
    and rel: "kpages_free v n k m = Some (k', m')"
  obtain k2 lost where g: "give_virtual_range v n k = (k2, lost)" by fastforce
  have g2: "kva_inv k2" "free_mset k2 \<subseteq># free_mset k + rng v n"
    using give_virtual_range_facts [OF k v(1) _ g] v(2) by (simp_all add: inf_commute)
  have "v \<noteq> 0" "n \<noteq> 0" using v(1) by (auto simp: ok_range_def)
  then have "k' = k2" using rel g by (auto simp: kpages_free_def bind_eq_Some_conv)
  then show "kva_inv k' \<and> set_mset (free_mset k') \<subseteq> set_mset (free_mset k) \<union> set_mset (rng v n)"
    using g2(1) set_mset_mono [OF g2(2)] by auto
qed

section \<open>Trimming the single pages\<close>

lemma merge_shrinks:
  "merge_with_multi virt n ms = (v, c, ms') \<Longrightarrow> (v, c, ms') = (virt, n, ms) \<or> length ms' < length ms"
proof (induction virt n ms rule: merge_with_multi.induct)
  case (1 virt n ms)
  show ?case
  proof (cases "find_neighbour virt n 0 ms")
    case None
    then show ?thesis using 1(2) by (simp add: merge_with_multi.simps [of virt n ms])
  next
    case (Some x)
    then obtain i w d where x: "find_neighbour virt n 0 ms = Some (i, w, d)" by (cases x) auto
    then have i: "i < length ms" using find_neighbour_index by fastforce
    have "merge_with_multi w d (swap_remove i ms) = (v, c, ms')"
      using 1(2) x by (simp add: merge_with_multi.simps [of virt n ms])
    from 1(1) [OF x refl refl this] show ?thesis using length_swap_remove [OF i] by auto
  qed
qed

lemma give_one_keeps:
  assumes "kva_ok k" and "length (s_kp_stack k) < KP_STACK_MAX"
  shows "snd (give_virtual_range v 1 k) = 0"
proof -
  obtain w n ms where m: "merge_with_multi v 1 (s_kp_multi k) = (w, n, ms)"
    by (cases "merge_with_multi v 1 (s_kp_multi k)") auto
  have "length (s_kp_multi k) \<le> KP_MULTI_MAX" using assms(1) by (simp add: kva_ok_def)
  then have "n = 1 \<or> length ms < KP_MULTI_MAX" using merge_shrinks [OF m] by auto
  then show ?thesis using m assms(2) by (auto simp: give_virtual_range_def Let_def)
qed

text \<open>
  The clean-up of single pages loses nothing.  It ends, keeps the allocator consistent, and the
  set of free pages after it is the set before it: recomposing address space never drops a page.
\<close>

theorem kva_singles_trim_keeps:
  assumes "kva_inv k"
  shows "kva_inv (kva_singles_trim k) \<and> free_mset (kva_singles_trim k) = free_mset k \<and>
    s_kp_va_lost_pages (kva_singles_trim k) = s_kp_va_lost_pages k"
  using assms
proof (induction k rule: kva_singles_trim.induct)
  case (1 k)
  show ?case
  proof (cases "s_kp_stack k")
    case Nil
    then show ?thesis using 1(2) by (simp add: kva_singles_trim.simps [of k])
  next
    case (Cons v st)
    let ?k1 = "k\<lparr>s_kp_stack := st\<rparr>"
    obtain k2 lost where g: "give_virtual_range v 1 ?k1 = (k2, lost)" by (cases "give_virtual_range v 1 ?k1")
    have ok: "kva_ok k" and one: "\<forall>p. count (free_mset k) p \<le> 1" using 1(2) by (simp_all add: kva_inv_def)
    have ok1: "kva_ok ?k1" "ok_range v 1" "length (s_kp_stack ?k1) < KP_STACK_MAX"
      using ok Cons by (auto simp: kva_ok_def)
    have fm: "free_mset k = free_mset ?k1 + rng v 1" using Cons by (simp add: free_mset_def rng_def ac_simps)
    note gv = give_virtual_range_ok [OF ok1(1,2) g]
    have "lost = 0" using give_one_keeps [OF ok1(1,3), of v] g by simp
    then have k2: "free_mset k2 = free_mset k" "s_kp_va_lost_pages k2 = s_kp_va_lost_pages k" "kva_ok k2"
      using gv fm by auto
    have "kva_inv k2" using one k2 by (simp add: kva_inv_def)
    have eq: "kva_singles_trim k = (if length (s_kp_stack k2) < length st + 1 then kva_singles_trim k2 else k2)"
      using Cons g by (subst kva_singles_trim.simps) (simp add: Let_def)
    show ?thesis
    proof (cases "length (s_kp_stack k2) < length st + 1")
      case True
      have "kva_inv (kva_singles_trim k2) \<and> free_mset (kva_singles_trim k2) = free_mset k2 \<and>
          s_kp_va_lost_pages (kva_singles_trim k2) = s_kp_va_lost_pages k2"
        by (rule 1(1) [of v ?k1]) (use Cons g True \<open>kva_inv k2\<close> in simp_all)
      then show ?thesis using eq True k2 by simp
    next
      case False
      then show ?thesis using eq k2 \<open>kva_inv k2\<close> by simp
    qed
  qed
qed

section \<open>Concrete runs\<close>

definition sample_kva :: kva where
  "sample_kva = \<lparr>s_bump = 0xDFFFE000, s_kp_stack = [0xD0004000], s_kp_multi = [(0xD0000000, 2), (0xD0006000, 3)],
     s_kp_va_lost_pages = 0\<rparr>"

lemma sample_kva_free:
  "free_mset sample_kva = {#851972, 851968, 851969, 851974, 851975, 851976, 917502, 917503#}"
  by (simp add: free_mset_def sample_kva_def rng_def vlimit vp_def upt_rec del: mset_upt)

lemma sample_kva_inv: "kva_inv sample_kva"
proof -
  have ok: "kva_ok sample_kva"
    by (simp add: kva_ok_def sample_kva_def ok_range_def KP_STACK_MAX_def KP_MULTI_MAX_def)
  have "\<forall>p. count (free_mset sample_kva) p \<le> 1"
    by (simp add: sample_kva_free)
  with ok show ?thesis by (simp add: kva_inv_def)
qed

theorem take_virtual_range_exclusive_witness:
  "snd (take_virtual_range 3 sample_kva) = 0xD0006000 \<and>
   kva_inv (fst (take_virtual_range 3 sample_kva)) \<and> ok_range 0xD0006000 3"
proof -
  have r: "snd (take_virtual_range 3 sample_kva) = 0xD0006000" by code_simp
  obtain k' v where t: "take_virtual_range 3 sample_kva = (k', v)" by (cases "take_virtual_range 3 sample_kva")
  from take_virtual_range_exclusive [OF sample_kva_inv _ _ t] r t show ?thesis by simp
qed

theorem give_virtual_range_conserves_witness:
  "snd (give_virtual_range 0xD0002000 2 sample_kva) = 0 \<and>
   s_kp_multi (fst (give_virtual_range 0xD0002000 2 sample_kva)) = [(0xD0006000, 3), (0xD0000000, 4)] \<and>
   kva_inv (fst (give_virtual_range 0xD0002000 2 sample_kva))"
proof -
  have r: "snd (give_virtual_range 0xD0002000 2 sample_kva) = 0"
    "s_kp_multi (fst (give_virtual_range 0xD0002000 2 sample_kva)) = [(0xD0006000, 3), (0xD0000000, 4)]"
    by code_simp+
  obtain k' l where g: "give_virtual_range 0xD0002000 2 sample_kva = (k', l)"
    by (cases "give_virtual_range 0xD0002000 2 sample_kva")
  have "ok_range 0xD0002000 2" by (simp add: ok_range_def)
  moreover have "set_mset (free_mset sample_kva) \<inter> set_mset (rng 0xD0002000 2) = {}"
    by (simp add: sample_kva_free rng_def vp_def)
  ultimately have "kva_inv k'" using give_virtual_range_conserves [OF sample_kva_inv _ _ g] by blast
  with r g show ?thesis by simp
qed

theorem kva_singles_trim_keeps_witness:
  "kva_inv (kva_singles_trim sample_kva) \<and> free_mset (kva_singles_trim sample_kva) = free_mset sample_kva"
  using kva_singles_trim_keeps [OF sample_kva_inv] by simp

text \<open>
  The clean-up of single pages stops early.  Its description says that the stack is drained and
  every page is offered to the coalescing list again; the loop returns at the first page that
  goes back to the stack, so here the page that touches the bump pointer is not merged.
\<close>

theorem kva_singles_trim_stops_early:
  "kva_singles_trim \<lparr>s_bump = 0xD0003000, s_kp_stack = [0xD0000000, 0xD0002000], s_kp_multi = [],
      s_kp_va_lost_pages = 0\<rparr> =
    \<lparr>s_bump = 0xD0003000, s_kp_stack = [0xD0000000, 0xD0002000], s_kp_multi = [], s_kp_va_lost_pages = 0\<rparr> \<and>
   s_bump (fst (give_virtual_range 0xD0002000 1 \<lparr>s_bump = 0xD0003000, s_kp_stack = [0xD0000000],
      s_kp_multi = [], s_kp_va_lost_pages = 0\<rparr>)) = 0xD0002000"
  by code_simp

text \<open>
  The bound check of the bump pointer wraps.  A request for 0x30000 pages (768 MB) passes the test
  against the end of the 256 MB window, because the sum is taken in 32 bits, and moves the bump
  pointer to 0.
\<close>

theorem take_virtual_range_wraps:
  "take_virtual_range 0x30000 kva_boot = (kva_boot\<lparr>s_bump := 0\<rparr>, KHEAP_VBASE)"
  by code_simp

end
