(* ===== verification/Slab.thy ===== *)
theory Slab
  imports Kva
begin

text \<open>
  The object level of \<^verbatim>\<open>kernel/mm/kheap.c\<close>: slab pages of eight size classes with a bitmap behind
  their header, large blocks with a header of their own, the per-CPU caches of objects claimed in
  advance, \<^verbatim>\<open>kmalloc\<close>, \<^verbatim>\<open>kcalloc\<close>, \<^verbatim>\<open>kfree\<close> and the trimming of empty pages, on top of the page
  allocator of theory Kva.

  The headers live in heap pages; the model keeps them as maps from page addresses
  (\<open>kh_pages\<close> for slab pages, \<open>kh_large\<close> for large blocks).  The doubly linked lists \<^verbatim>\<open>s_partial\<close> and
  \<^verbatim>\<open>s_empty\<close> are lists of page addresses, \<^verbatim>\<open>s_empty_n\<close> their length, a cache a list with its top
  first.  A call runs without interference; \<open>None\<close> is a fault.
\<close>

section \<open>Definitions\<close>

definition s_class_size :: "u32 list" where
  "s_class_size = [16, 32, 64, 128, 256, 512, 1024, 2048]"

definition SLAB_MAGIC :: u32 where "SLAB_MAGIC = 0xD0B5A1AB"
definition LARGE_MAGIC :: u32 where "LARGE_MAGIC = 0xD0B1A11C"
definition EMPTY_CACHE_MAX :: nat where "EMPTY_CACHE_MAX = 8"
definition KM_CACHE_DEPTH :: nat where "KM_CACHE_DEPTH = 16"

text \<open>\<^verbatim>\<open>sizeof(kheap_page_t)\<close> and \<^verbatim>\<open>sizeof(large_hdr_t)\<close>.\<close>

definition PAGE_HDR :: u32 where "PAGE_HDR = 20"
definition LARGE_HDR :: u32 where "LARGE_HDR = 8"

record kheap_page =
  kp_class :: nat
  kp_in_partial :: bool
  kp_free_count :: nat
  kp_total_slots :: nat
  kp_bits :: "u32 list"

record kheap =
  kh_kva :: kva
  kh_mach :: machine
  kh_pages :: "u32 \<rightharpoonup> kheap_page"
  kh_large :: "u32 \<rightharpoonup> u32"
  kh_partial :: "nat \<Rightarrow> u32 list"
  kh_empty :: "nat \<Rightarrow> u32 list"
  kh_double_free_caught :: u32
  kh_cache :: "nat \<Rightarrow> nat \<Rightarrow> u32 list"

definition page_words :: "kheap_page \<Rightarrow> nat" where
  "page_words p = (kp_total_slots p + 31) div 32"

definition slot_address :: "u32 \<Rightarrow> kheap_page \<Rightarrow> u32 \<Rightarrow> u32 \<Rightarrow> u32" where
  "slot_address v p idx sz = v + PAGE_HDR + of_nat (page_words p) * 4 + idx * sz"

fun fit_from :: "nat \<Rightarrow> nat \<Rightarrow> nat" where
  "fit_from slot_size 0 = 0"
| "fit_from slot_size (Suc n) =
     (if 20 + ((Suc n + 31) div 32) * 4 + Suc n * slot_size > 4096 then fit_from slot_size n else Suc n)"

definition slots_that_fit :: "nat \<Rightarrow> nat" where
  "slots_that_fit slot_size = fit_from slot_size ((4096 - 20) div slot_size)"

definition partial_push :: "nat \<Rightarrow> u32 \<Rightarrow> kheap \<Rightarrow> kheap" where
  "partial_push c v h =
     h\<lparr>kh_partial := (kh_partial h)(c := v # kh_partial h c),
       kh_pages := (kh_pages h)(v := map_option (\<lambda>p. p\<lparr>kp_in_partial := True\<rparr>) (kh_pages h v))\<rparr>"

definition partial_remove :: "nat \<Rightarrow> u32 \<Rightarrow> kheap \<Rightarrow> kheap" where
  "partial_remove c v h =
     (case kh_pages h v of
        None \<Rightarrow> h
      | Some p \<Rightarrow>
          if \<not> kp_in_partial p then h
          else h\<lparr>kh_partial := (kh_partial h)(c := remove1 v (kh_partial h c)),
                 kh_pages := (kh_pages h)(v \<mapsto> p\<lparr>kp_in_partial := False\<rparr>)\<rparr>)"

definition create_slab_page :: "nat \<Rightarrow> kheap \<Rightarrow> (kheap \<times> u32) option" where
  "create_slab_page c h = do {
     (k, m, v) \<leftarrow> kpage_alloc (kh_kva h) (kh_mach h);
     let h = h\<lparr>kh_kva := k, kh_mach := m\<rparr>;
     if v = 0 then Some (h, 0)
     else
       let n = slots_that_fit (unat (s_class_size ! c))
       in Some (h\<lparr>kh_pages := (kh_pages h)(v \<mapsto> \<lparr>kp_class = c, kp_in_partial = False, kp_free_count = n,
              kp_total_slots = n, kp_bits = replicate ((n + 31) div 32) 0\<rparr>)\<rparr>, v) }"

definition pick_cached_page :: "nat \<Rightarrow> kheap \<Rightarrow> kheap \<times> u32" where
  "pick_cached_page c h =
     (case kh_partial h c of
        v # _ \<Rightarrow> (h, v)
      | [] \<Rightarrow>
          (case kh_empty h c of
             v # vs \<Rightarrow> (partial_push c v (h\<lparr>kh_empty := (kh_empty h)(c := vs)\<rparr>), v)
           | [] \<Rightarrow> (h, 0)))"

text \<open>The candidates of one word, lowest bit first; bits past the last slot are skipped.\<close>

function claim_word :: "nat \<Rightarrow> nat \<Rightarrow> u32 \<Rightarrow> nat option" where
  "claim_word tot w candidates =
     (if candidates = 0 then None
      else let b = ctz candidates
           in if w * 32 + b < tot then Some b
              else claim_word tot w (candidates AND (candidates - 1)))"
  by pat_completeness auto
termination
  by (relation "measure (\<lambda>(_, _, cand). unat cand)") (auto intro: clear_lowest_less)

declare claim_word.simps [simp del]

fun claim_from :: "nat \<Rightarrow> nat \<Rightarrow> u32 list \<Rightarrow> (nat \<times> nat) option" where
  "claim_from tot w [] = None"
| "claim_from tot w (x # xs) =
     (case claim_word tot w (NOT x) of Some b \<Rightarrow> Some (w, b) | None \<Rightarrow> claim_from tot (Suc w) xs)"

definition claim_free_slot :: "kheap_page \<Rightarrow> kheap_page \<times> u32" where
  "claim_free_slot p =
     (case claim_from (kp_total_slots p) 0 (take (page_words p) (kp_bits p)) of
        Some (w, b) \<Rightarrow> (p\<lparr>kp_bits := (kp_bits p)[w := kp_bits p ! w OR push_bit b 1]\<rparr>, of_nat (w * 32 + b))
      | None \<Rightarrow> (p, - 1))"

fun class_from :: "u32 \<Rightarrow> nat \<Rightarrow> u32 list \<Rightarrow> nat option" where
  "class_from sz c [] = None"
| "class_from sz c (s # ss) = (if sz \<le> s then Some c else class_from sz (Suc c) ss)"

definition size_to_class :: "u32 \<Rightarrow> nat option" where
  "size_to_class sz = class_from sz 0 s_class_size"

text \<open>
  The second result is the page to give back to the page allocator, or 0.  \<open>None\<close>: \<^verbatim>\<open>ptr\<close> is not in a
  slab page.
\<close>

definition release_slot_checked :: "u32 \<Rightarrow> kheap \<Rightarrow> (kheap \<times> u32) option" where
  "release_slot_checked ptr h =
     (let v = ALIGN_DOWN ptr PAGE_SIZE in
      case kh_pages h v of
        None \<Rightarrow> None
      | Some p \<Rightarrow>
          let c = kp_class p; sz = s_class_size ! c;
              off = ptr - v - PAGE_HDR - of_nat (page_words p) * 4;
              idx = unat (off div sz)
          in if idx \<ge> kp_total_slots p \<or> off mod sz \<noteq> 0
             then Some (h\<lparr>kh_double_free_caught := kh_double_free_caught h + 1\<rparr>, 0)
             else if kp_bits p ! (idx div 32) AND push_bit (idx mod 32) 1 = 0
             then Some (h\<lparr>kh_double_free_caught := kh_double_free_caught h + 1\<rparr>, 0)
             else
               let was_full = (kp_free_count p = 0);
                   p = p\<lparr>kp_bits := (kp_bits p)[idx div 32 := kp_bits p ! (idx div 32) AND NOT (push_bit (idx mod 32) 1)],
                         kp_free_count := Suc (kp_free_count p)\<rparr>;
                   h = h\<lparr>kh_pages := (kh_pages h)(v \<mapsto> p)\<rparr>;
                   h = (if was_full then partial_push c v h else h)
               in if kp_free_count p = kp_total_slots p
                  then let h = partial_remove c v h
                       in if length (kh_empty h c) < EMPTY_CACHE_MAX
                          then Some (h\<lparr>kh_empty := (kh_empty h)(c := v # kh_empty h c)\<rparr>, 0)
                          else Some (h, v)
                  else Some (h, 0))"

text \<open>
  The page of a drained slab, or of a large block, leaves the heap and the address space.
\<close>

definition slab_page_free :: "u32 \<Rightarrow> kheap \<Rightarrow> kheap option" where
  "slab_page_free v h = do {
     (k, m) \<leftarrow> kpage_free v (kh_kva h) (kh_mach h);
     Some (h\<lparr>kh_kva := k, kh_mach := m, kh_pages := (kh_pages h)(v := None)\<rparr>) }"

text \<open>
  The word at an address that \<^verbatim>\<open>kfree\<close> takes for a header: a header of the heap, or whatever memory
  outside the headers holds (\<open>word_at\<close>, \<open>None\<close> where nothing is mapped).
\<close>

definition magic_at :: "(u32 \<Rightarrow> u32 option) \<Rightarrow> kheap \<Rightarrow> u32 \<Rightarrow> u32 option" where
  "magic_at word_at h a =
     (if kh_pages h a \<noteq> None then Some SLAB_MAGIC
      else if kh_large h a \<noteq> None then Some LARGE_MAGIC else word_at a)"

definition kfree :: "(u32 \<Rightarrow> u32 option) \<Rightarrow> u32 \<Rightarrow> kheap \<Rightarrow> kheap option" where
  "kfree word_at ptr h =
     (if ptr = 0 then Some h
      else do {
        magic \<leftarrow> magic_at word_at h (ALIGN_DOWN ptr PAGE_SIZE);
        if magic = SLAB_MAGIC
        then do {
          (h, drained) \<leftarrow> release_slot_checked ptr h;
          if drained \<noteq> 0 then slab_page_free drained h else Some h }
        else do {
          magic \<leftarrow> magic_at word_at h (ptr - LARGE_HDR);
          if magic = LARGE_MAGIC
          then do {
            pages \<leftarrow> kh_large h (ptr - LARGE_HDR);
            (k, m) \<leftarrow> kpages_free (ptr - LARGE_HDR) pages (kh_kva h) (kh_mach h);
            Some (h\<lparr>kh_kva := k, kh_mach := m, kh_large := (kh_large h)(ptr - LARGE_HDR := None)\<rparr>) }
          else Some h } })"

text \<open>One slot of page \<open>v\<close>, a page of the partial list of class \<open>c\<close>: its address.\<close>

definition take_slot :: "nat \<Rightarrow> u32 \<Rightarrow> kheap \<Rightarrow> (kheap \<times> u32) option" where
  "take_slot c v h = do {
     p \<leftarrow> kh_pages h v;
     let (p, idx) = claim_free_slot p;
     let p = p\<lparr>kp_free_count := kp_free_count p - 1\<rparr>;
     let h = h\<lparr>kh_pages := (kh_pages h)(v \<mapsto> p)\<rparr>;
     let h = (if kp_free_count p = 0 then partial_remove c v h else h);
     Some (h, slot_address v p idx (s_class_size ! c)) }"

fun claim_batch :: "nat \<Rightarrow> nat \<Rightarrow> u32 list \<Rightarrow> kheap \<Rightarrow> (kheap \<times> u32 list) option" where
  "claim_batch c 0 batch h = Some (h, batch)"
| "claim_batch c (Suc n) batch h =
     (let (h, v) = pick_cached_page c h
      in if v = 0 then Some (h, batch)
         else do { (h, a) \<leftarrow> take_slot c v h; claim_batch c n (a # batch) h })"

fun fill_cache :: "u32 list \<Rightarrow> u32 list \<Rightarrow> u32 list \<times> u32 list" where
  "fill_cache [] cache = (cache, [])"
| "fill_cache (a # batch) cache =
     (if length cache < KM_CACHE_DEPTH then fill_cache batch (a # cache) else (cache, a # batch))"

fun kfree_all :: "(u32 \<Rightarrow> u32 option) \<Rightarrow> u32 list \<Rightarrow> kheap \<Rightarrow> kheap option" where
  "kfree_all word_at [] h = Some h"
| "kfree_all word_at (a # as) h = Option.bind (kfree word_at a h) (kfree_all word_at as)"

definition kmalloc :: "(u32 \<Rightarrow> u32 option) \<Rightarrow> nat \<Rightarrow> u32 \<Rightarrow> kheap \<Rightarrow> (kheap \<times> u32) option" where
  "kmalloc word_at cpu sz h =
     (if sz = 0 then Some (h, 0)
      else case size_to_class sz of
        Some c \<Rightarrow>
          (case kh_cache h cpu c of
             obj # rest \<Rightarrow> Some (h\<lparr>kh_cache := (kh_cache h)(cpu := (kh_cache h cpu)(c := rest))\<rparr>, obj)
           | [] \<Rightarrow> do {
               (h, batch) \<leftarrow> claim_batch c (KM_CACHE_DEPTH div 2 + 1) [] h;
               case batch of
                 [] \<Rightarrow> do {
                   (h, v) \<leftarrow> create_slab_page c h;
                   if v = 0 then Some (h, 0) else take_slot c v (partial_push c v h) }
               | obj # batch \<Rightarrow> do {
                   let (cache, surplus) = fill_cache batch (kh_cache h cpu c);
                   h \<leftarrow> kfree_all word_at surplus (h\<lparr>kh_cache := (kh_cache h)(cpu := (kh_cache h cpu)(c := cache))\<rparr>);
                   Some (h, obj) } })
      | None \<Rightarrow> do {
          let pages = ALIGN_UP (sz + LARGE_HDR) PAGE_SIZE div PAGE_SIZE;
          (k, m, v) \<leftarrow> kpages_alloc pages (kh_kva h) (kh_mach h);
          let h = h\<lparr>kh_kva := k, kh_mach := m\<rparr>;
          if v = 0 then Some (h, 0)
          else Some (h\<lparr>kh_large := (kh_large h)(v \<mapsto> pages)\<rparr>, v + LARGE_HDR) })"

definition kcalloc :: "(u32 \<Rightarrow> u32 option) \<Rightarrow> nat \<Rightarrow> u32 \<Rightarrow> u32 \<Rightarrow> kheap \<Rightarrow> (kheap \<times> u32) option" where
  "kcalloc word_at cpu cnt sz h =
     (if cnt \<noteq> 0 \<and> sz > 0xFFFFFFFF div cnt then Some (h, 0) else kmalloc word_at cpu (cnt * sz) h)"

text \<open>The empty pages of a class beyond one, detached in list order and chained in reverse.\<close>

definition trim_class :: "nat \<Rightarrow> kheap \<times> u32 list \<Rightarrow> kheap \<times> u32 list" where
  "trim_class c hc =
     (let n = length (kh_empty (fst hc) c) - 1
      in ((fst hc)\<lparr>kh_empty := (kh_empty (fst hc))(c := drop n (kh_empty (fst hc) c))\<rparr>,
          rev (take n (kh_empty (fst hc) c)) @ snd hc))"

fun free_pages :: "u32 list \<Rightarrow> kheap \<Rightarrow> kheap option" where
  "free_pages [] h = Some h"
| "free_pages (v # vs) h = Option.bind (slab_page_free v h) (free_pages vs)"

definition kheap_empty_trim :: "kheap \<Rightarrow> (kheap \<times> u32) option" where
  "kheap_empty_trim h =
     (let (h, chain) = fold trim_class [0..<8] (h, [])
      in map_option (\<lambda>h. (h, of_nat (length chain) * PAGE_SIZE)) (free_pages chain h))"

definition kheap_init :: "kva \<Rightarrow> machine \<Rightarrow> kheap" where
  "kheap_init k m = \<lparr>kh_kva = k, kh_mach = m, kh_pages = (\<lambda>_. None), kh_large = (\<lambda>_. None),
     kh_partial = (\<lambda>_. []), kh_empty = (\<lambda>_. []), kh_double_free_caught = 0, kh_cache = (\<lambda>_ _. [])\<rparr>"

text \<open>The self-test; its writes into the objects touch no state of the heap.\<close>

definition kheap_selftest :: "(u32 \<Rightarrow> u32 option) \<Rightarrow> nat \<Rightarrow> kheap \<Rightarrow> (kheap \<times> bool) option" where
  "kheap_selftest word_at cpu h = do {
     (h, a) \<leftarrow> kmalloc word_at cpu 24 h;
     (h, b) \<leftarrow> kmalloc word_at cpu 24 h;
     (h, c) \<leftarrow> kmalloc word_at cpu 3000 h;
     if a = 0 \<or> b = 0 \<or> c = 0 \<or> a = b then Some (h, False)
     else do {
       h \<leftarrow> kfree word_at a h;
       let before = kh_double_free_caught h;
       h \<leftarrow> kfree word_at a h;
       let caught = (kh_double_free_caught h = before + 1);
       (h, a2) \<leftarrow> kmalloc word_at cpu 24 h;
       h \<leftarrow> kfree word_at a2 h;
       h \<leftarrow> kfree word_at b h;
       h \<leftarrow> kfree word_at c h;
       (h, big) \<leftarrow> kmalloc word_at cpu 20000 h;
       h \<leftarrow> kfree word_at big h;
       Some (h, caught \<and> a2 \<noteq> 0 \<and> big \<noteq> 0) } }"

section \<open>Classes and slots\<close>

text \<open>The slots of a class, the words of its bitmap and the offset of its first slot.\<close>

definition class_sz :: "nat \<Rightarrow> nat" where "class_sz c = unat (s_class_size ! c)"
definition class_slots :: "nat \<Rightarrow> nat" where "class_slots c = slots_that_fit (class_sz c)"
definition class_base :: "nat \<Rightarrow> nat" where "class_base c = 20 + 4 * ((class_slots c + 31) div 32)"

lemma fit_from_step:
  "0 < n \<Longrightarrow> fit_from sz n = (if 20 + ((n + 31) div 32) * 4 + n * sz > 4096 then fit_from sz (n - 1) else n)"
  by (cases n) simp_all

lemma slots_table:
  "slots_that_fit 16 = 252" "slots_that_fit 32 = 126" "slots_that_fit 64 = 63" "slots_that_fit 128 = 31"
  "slots_that_fit 256 = 15" "slots_that_fit 512 = 7" "slots_that_fit 1024 = 3" "slots_that_fit 2048 = 1"
  by (simp_all add: slots_that_fit_def fit_from_step)

lemma less_8: "(c :: nat) < 8 \<longleftrightarrow> c = 0 \<or> c = 1 \<or> c = 2 \<or> c = 3 \<or> c = 4 \<or> c = 5 \<or> c = 6 \<or> c = 7"
  by auto

lemma class_facts:
  assumes "c < 8"
  shows "16 \<le> class_sz c" "class_sz c \<le> 2048" "0 < class_slots c"
    "class_base c + class_slots c * class_sz c \<le> 4096"
  using assms unfolding less_8
  by (auto simp: class_base_def class_slots_def class_sz_def s_class_size_def slots_table)

lemma size_to_class_fits: "size_to_class sz = Some c \<Longrightarrow> c < 8 \<and> unat sz \<le> class_sz c"
  by (auto simp: size_to_class_def s_class_size_def class_sz_def word_le_nat_alt split: if_splits)

lemma size_to_class_large: "size_to_class sz = None \<longleftrightarrow> 2048 < unat sz"
  by (auto simp: size_to_class_def s_class_size_def word_le_nat_alt)

text \<open>The slots whose bit is set.\<close>

definition used :: "kheap_page \<Rightarrow> nat set" where
  "used p = {i. i < kp_total_slots p \<and> bit (kp_bits p ! (i div 32)) (i mod 32)}"

text \<open>The shape of a page of class \<open>c\<close>.\<close>

definition page_shape :: "nat \<Rightarrow> kheap_page \<Rightarrow> bool" where
  "page_shape c p \<longleftrightarrow> c < 8 \<and> kp_class p = c \<and> kp_total_slots p = class_slots c \<and>
     length (kp_bits p) = page_words p \<and> kp_free_count p + card (used p) = kp_total_slots p"

definition slot_addr :: "u32 \<Rightarrow> nat \<Rightarrow> nat \<Rightarrow> u32" where
  "slot_addr v c i = of_nat (unat v + class_base c + i * class_sz c)"

lemma used_simps [simp]:
  "used (p\<lparr>kp_in_partial := b\<rparr>) = used p" "used (p\<lparr>kp_free_count := n\<rparr>) = used p"
  by (simp_all add: used_def)

lemma page_shape_flag [simp]: "page_shape c (p\<lparr>kp_in_partial := b\<rparr>) = page_shape c p"
  by (simp add: page_shape_def page_words_def)

lemma finite_used [simp]: "finite (used p)"
  by (rule finite_subset [of _ "{..<kp_total_slots p}"]) (auto simp: used_def)

lemma unat_slot_addr:
  assumes "c < 8" "i < class_slots c" "ok_range v 1"
  shows "unat (slot_addr v c i) = unat v + class_base c + i * class_sz c"
    and "class_base c + i * class_sz c + class_sz c \<le> 4096"
proof -
  have "(i + 1) * class_sz c \<le> class_slots c * class_sz c" using assms(2) by (intro mult_right_mono) simp_all
  then show b: "class_base c + i * class_sz c + class_sz c \<le> 4096" using class_facts(4) [OF assms(1)] by simp
  have "unat v + 4096 \<le> 3758096384" using assms(3) by (simp add: ok_range_def)
  then have "unat v + class_base c + i * class_sz c < 4294967296" using b by linarith
  then show "unat (slot_addr v c i) = unat v + class_base c + i * class_sz c"
    by (simp only: slot_addr_def unat_of_nat_u32)
qed

lemma slot_address_eq:
  assumes "page_shape c p"
  shows "slot_address v p (of_nat i) (s_class_size ! c) = slot_addr v c i"
  using assms by (simp add: slot_address_def slot_addr_def class_base_def class_sz_def page_shape_def page_words_def
      PAGE_HDR_def)

lemma slot_addr_page:
  assumes "c < 8" "i < class_slots c" "ok_range v 1"
  shows "ALIGN_DOWN (slot_addr v c i) PAGE_SIZE = v"
proof -
  note s = unat_slot_addr [OF assms]
  have v: "unat v mod 4096 = 0" using assms(3) by (simp add: ok_range_def)
  have "class_base c + i * class_sz c < 4096" using s(2) class_facts(1) [OF assms(1)] by linarith
  moreover obtain k where k: "unat v = 4096 * k" using v by auto
  ultimately have "(unat v + (class_base c + i * class_sz c)) div 4096 = unat v div 4096" by simp
  then have "unat (ALIGN_DOWN (slot_addr v c i) PAGE_SIZE) = unat v div 4096 * 4096"
    by (simp add: unat_align_down s(1) add.assoc)
  then show ?thesis by (simp add: unat_eq_iff_u32 k)
qed

text \<open>What \<^verbatim>\<open>release_slot_checked\<close> computes from the address of a slot.\<close>

lemma slot_addr_offset:
  assumes "c < 8" "i < class_slots c" "ok_range v 1"
  shows "slot_addr v c i - v - of_nat (class_base c) = of_nat (i * class_sz c)"
proof -
  have "slot_addr v c i = v + of_nat (class_base c) + of_nat (i * class_sz c)"
    by (simp add: slot_addr_def)
  then show ?thesis by simp
qed

lemma slot_addr_inj:
  assumes "c < 8" "i < class_slots c" "ok_range v 1" "c' < 8" "i' < class_slots c'" "ok_range v' 1"
    and "slot_addr v c i = slot_addr v' c' i'"
  shows "v = v'" and "c = c' \<Longrightarrow> i = i'"
proof -
  show "v = v'" using slot_addr_page [OF assms(1-3)] slot_addr_page [OF assms(4-6)] assms(7) by simp
  then show "i = i'" if "c = c'"
  proof -
    have "unat v + class_base c + i * class_sz c = unat v + class_base c + i' * class_sz c"
      using unat_slot_addr(1) [OF assms(1-3)] unat_slot_addr(1) [OF assms(4-6)] assms(7) that \<open>v = v'\<close> by metis
    then show ?thesis using class_facts(1) [OF assms(1)] by simp
  qed
qed

section \<open>Claiming a slot\<close>

lemma claim_word_spec:
  assumes "claim_word tot w cand = r"
  shows "case r of
      None \<Rightarrow> \<forall>b. bit cand b \<longrightarrow> tot \<le> w * 32 + b
    | Some b \<Rightarrow> bit cand b \<and> w * 32 + b < tot \<and> (\<forall>b'. bit cand b' \<and> w * 32 + b' < tot \<longrightarrow> b \<le> b')"
  using assms
proof (induction tot w cand rule: claim_word.induct)
  case (1 tot w cand)
  show ?case
  proof (cases "cand = 0")
    case True
    then show ?thesis using 1(2) by (simp add: claim_word.simps)
  next
    case False
    show ?thesis
    proof (cases "w * 32 + ctz cand < tot")
      case True
      then show ?thesis using 1(2) False bit_ctz [OF False] ctz_least [OF False]
        by (simp add: claim_word.simps Let_def) fastforce
    next
      case big: False
      then have r: "claim_word tot w (cand AND (cand - 1)) = r"
        using 1(2) False by (simp add: claim_word.simps [of tot w cand] Let_def)
      have low: "tot \<le> w * 32 + b" if "bit cand b" for b using ctz_least [OF False that] big by linarith
      from 1(1) [OF False refl big r] show ?thesis
        by (auto simp: clear_lowest [OF False] bit_simps split: option.splits dest: low)
    qed
  qed
qed

lemma claim_from_spec:
  assumes "claim_from tot w xs = r"
  shows "case r of
      None \<Rightarrow> \<forall>k < length xs. \<forall>b < 32. (w + k) * 32 + b < tot \<longrightarrow> bit (xs ! k) b
    | Some (w', b) \<Rightarrow> w \<le> w' \<and> w' < w + length xs \<and> b < 32 \<and> w' * 32 + b < tot \<and> \<not> bit (xs ! (w' - w)) b"
  using assms
proof (induction xs arbitrary: w)
  case (Cons x xs)
  show ?case
  proof (cases "claim_word tot w (NOT x)")
    case None
    have none: "\<forall>b < 32. w * 32 + b < tot \<longrightarrow> bit x b"
      using claim_word_spec [OF None] by (simp add: bit_not_u32) (meson not_le)
    have "claim_from tot (Suc w) xs = r" using Cons.prems None by simp
    from Cons.IH [OF this] none show ?thesis
      by (auto simp: nth_Cons' Suc_diff_le split: option.splits)
  next
    case (Some b)
    with Cons.prems claim_word_spec [OF Some] show ?thesis by (auto simp: bit_not_u32)
  qed
qed simp

lemma nat_bit_index: "(i :: nat) = (i div 32) * 32 + i mod 32" "i mod 32 < 32"
  by simp_all

lemma used_update:
  assumes "length (kp_bits p) = page_words p" "i < kp_total_slots p"
  shows "used (p\<lparr>kp_bits := (kp_bits p)[i div 32 := kp_bits p ! (i div 32) OR push_bit (i mod 32) 1]\<rparr>) = insert i (used p)"
    and "used (p\<lparr>kp_bits := (kp_bits p)[i div 32 := kp_bits p ! (i div 32) AND NOT (push_bit (i mod 32) 1)]\<rparr>) = used p - {i}"
proof -
  have len: "j div 32 < length (kp_bits p)" if "j < kp_total_slots p" for j
    using div_less_ceil_32 [OF that] assms(1) by (simp add: page_words_def)
  have eq: "j div 32 = i div 32 \<and> j mod 32 = i mod 32 \<longleftrightarrow> j = i" for j
    by (metis div_mult_mod_eq)
  show "used (p\<lparr>kp_bits := (kp_bits p)[i div 32 := kp_bits p ! (i div 32) OR push_bit (i mod 32) 1]\<rparr>) = insert i (used p)"
  proof (rule set_eqI)
    fix j
    show "j \<in> used (p\<lparr>kp_bits := (kp_bits p)[i div 32 := kp_bits p ! (i div 32) OR push_bit (i mod 32) 1]\<rparr>) \<longleftrightarrow> j \<in> insert i (used p)"
      using eq [of j] len [OF assms(2)] assms(2)
      by (cases "j div 32 = i div 32") (auto simp: used_def bitmap_simps)
  qed
  show "used (p\<lparr>kp_bits := (kp_bits p)[i div 32 := kp_bits p ! (i div 32) AND NOT (push_bit (i mod 32) 1)]\<rparr>) = used p - {i}"
  proof (rule set_eqI)
    fix j
    show "j \<in> used (p\<lparr>kp_bits := (kp_bits p)[i div 32 := kp_bits p ! (i div 32) AND NOT (push_bit (i mod 32) 1)]\<rparr>) \<longleftrightarrow> j \<in> used p - {i}"
      using eq [of j] len [OF assms(2)] assms(2)
      by (cases "j div 32 = i div 32") (auto simp: used_def bitmap_simps)
  qed
qed

lemma card_used: "card (used p) \<le> kp_total_slots p"
proof -
  have "used p \<subseteq> {..<kp_total_slots p}" by (auto simp: used_def)
  then show ?thesis by (metis card_lessThan card_mono finite_lessThan)
qed

lemma claim_free_slot_spec:
  assumes "page_shape c p" "0 < kp_free_count p"
  obtains i bits where "claim_free_slot p = (p\<lparr>kp_bits := bits\<rparr>, of_nat i)" "i < kp_total_slots p" "i \<notin> used p"
    "used (p\<lparr>kp_bits := bits\<rparr>) = insert i (used p)" "length bits = length (kp_bits p)"
proof -
  have len: "length (kp_bits p) = page_words p" using assms(1) by (simp add: page_shape_def)
  then have tk: "take (page_words p) (kp_bits p) = kp_bits p" by simp
  have "card (used p) < card {..<kp_total_slots p}" using assms by (simp add: page_shape_def)
  then obtain j where j: "j < kp_total_slots p" "j \<notin> used p"
    by (metis card_mono finite_used lessThan_iff not_less subsetI)
  have "claim_from (kp_total_slots p) 0 (kp_bits p) \<noteq> None"
  proof
    assume "claim_from (kp_total_slots p) 0 (kp_bits p) = None"
    from claim_from_spec [OF this] have "bit (kp_bits p ! (j div 32)) (j mod 32)"
      using j(1) div_less_ceil_32 [OF j(1)] len by (simp add: page_words_def)
    with j show False by (simp add: used_def)
  qed
  then obtain w b where wb: "claim_from (kp_total_slots p) 0 (kp_bits p) = Some (w, b)" by auto
  from claim_from_spec [OF wb] have s: "w < length (kp_bits p)" "b < 32" "w * 32 + b < kp_total_slots p" "\<not> bit (kp_bits p ! w) b"
    by simp_all
  have i: "(w * 32 + b) div 32 = w" "(w * 32 + b) mod 32 = b" using s(2) by simp_all
  show thesis
  proof (rule that)
    show "claim_free_slot p = (p\<lparr>kp_bits := (kp_bits p)[w := kp_bits p ! w OR push_bit b 1]\<rparr>, of_nat (w * 32 + b))"
      by (simp add: claim_free_slot_def tk wb)
    show "w * 32 + b \<notin> used p" using s(4) i by (simp add: used_def)
    show "used (p\<lparr>kp_bits := (kp_bits p)[w := kp_bits p ! w OR push_bit b 1]\<rparr>) = insert (w * 32 + b) (used p)"
      using used_update(1) [OF len s(3)] unfolding i .
  qed (use s(3) in simp_all)
qed

section \<open>The heap invariant\<close>

definition objs :: "kheap \<Rightarrow> nat \<Rightarrow> u32 set" where
  "objs h c = {slot_addr v c i |v p i. kh_pages h v = Some p \<and> kp_class p = c \<and> i \<in> used p}"

definition pages_ok :: "kheap \<Rightarrow> bool" where
  "pages_ok h \<longleftrightarrow> (\<forall>v p. kh_pages h v = Some p \<longrightarrow>
     ok_range v 1 \<and> page_shape (kp_class p) p \<and> vp v \<notin># free_mset (kh_kva h) \<and>
     (kp_in_partial p \<longleftrightarrow> 0 < kp_free_count p \<and> kp_free_count p < kp_total_slots p))"

definition lists_ok :: "kheap \<Rightarrow> bool" where
  "lists_ok h \<longleftrightarrow>
     (\<forall>c v. v \<in> set (kh_partial h c) \<longleftrightarrow>
        (\<exists>p. kh_pages h v = Some p \<and> kp_class p = c \<and> 0 < kp_free_count p \<and> kp_free_count p < kp_total_slots p)) \<and>
     (\<forall>c v. v \<in> set (kh_empty h c) \<longleftrightarrow>
        (\<exists>p. kh_pages h v = Some p \<and> kp_class p = c \<and> kp_free_count p = kp_total_slots p)) \<and>
     (\<forall>c. distinct (kh_partial h c) \<and> distinct (kh_empty h c) \<and> length (kh_empty h c) \<le> EMPTY_CACHE_MAX)"

definition caches_ok :: "kheap \<Rightarrow> bool" where
  "caches_ok h \<longleftrightarrow>
     (\<forall>cpu c. distinct (kh_cache h cpu c) \<and> length (kh_cache h cpu c) \<le> KM_CACHE_DEPTH \<and> set (kh_cache h cpu c) \<subseteq> objs h c) \<and>
     (\<forall>cpu cpu' c c'. set (kh_cache h cpu c) \<inter> set (kh_cache h cpu' c') \<noteq> {} \<longrightarrow> cpu = cpu' \<and> c = c')"

definition larges_ok :: "kheap \<Rightarrow> bool" where
  "larges_ok h \<longleftrightarrow> (\<forall>v n. kh_large h v = Some n \<longrightarrow> ok_range v n \<and> set_mset (rng v n) \<inter> set_mset (free_mset (kh_kva h)) = {} \<and>
     (\<forall>w \<in> dom (kh_pages h). vp w \<notin># rng v n) \<and>
     (\<forall>w m. kh_large h w = Some m \<longrightarrow> w \<noteq> v \<longrightarrow> set_mset (rng v n) \<inter> set_mset (rng w m) = {}))"

definition heap_inv :: "kheap \<Rightarrow> bool" where
  "heap_inv h \<longleftrightarrow> kva_inv (kh_kva h) \<and> pages_ok h \<and> lists_ok h \<and> caches_ok h \<and> larges_ok h"

text \<open>The objects handed out and not freed: slots in use that no cache holds, and large blocks.\<close>

definition cached :: "kheap \<Rightarrow> u32 set" where
  "cached h = (\<Union>cpu c. set (kh_cache h cpu c))"

definition larges :: "kheap \<Rightarrow> u32 set" where
  "larges h = (\<lambda>v. v + LARGE_HDR) ` dom (kh_large h)"

definition live :: "kheap \<Rightarrow> u32 set" where
  "live h = ((\<Union>c. objs h c) - cached h) \<union> larges h"

lemma heap_invD:
  assumes "heap_inv h"
  shows "kva_inv (kh_kva h)" "pages_ok h" "lists_ok h" "caches_ok h" "larges_ok h"
  using assms by (simp_all add: heap_inv_def)

lemma pages_okD:
  assumes "pages_ok h" "kh_pages h v = Some p"
  shows "ok_range v 1" "page_shape (kp_class p) p" "vp v \<notin># free_mset (kh_kva h)"
    "kp_in_partial p \<longleftrightarrow> 0 < kp_free_count p \<and> kp_free_count p < kp_total_slots p"
  using assms by (simp_all add: pages_ok_def)

lemma page_shapeD:
  assumes "page_shape c p"
  shows "c < 8" "kp_class p = c" "kp_total_slots p = class_slots c" "length (kp_bits p) = page_words p"
    "kp_free_count p + card (used p) = kp_total_slots p"
  using assms by (simp_all add: page_shape_def)

lemma used_less: "i \<in> used p \<Longrightarrow> i < kp_total_slots p"
  by (simp add: used_def)

text \<open>
  One page changes (or is new): it takes the place among the lists of its class that its count of
  free slots calls for, and no slot that a cache holds is released.
\<close>

lemma page_update_inv:
  assumes inv: "heap_inv h"
    and same: "kh_kva h' = kh_kva h" "kh_large h' = kh_large h" "kh_cache h' = kh_cache h"
    and pages: "kh_pages h' = (kh_pages h)(v \<mapsto> p')" "page_shape c p'" "ok_range v 1" "vp v \<notin># free_mset (kh_kva h)"
      "kp_in_partial p' \<longleftrightarrow> 0 < kp_free_count p' \<and> kp_free_count p' < kp_total_slots p'"
      "\<forall>w n. kh_large h w = Some n \<longrightarrow> vp v \<notin># rng w n"
    and old: "\<And>p. kh_pages h v = Some p \<Longrightarrow> kp_class p = c"
    and lists: "kh_partial h' = (kh_partial h)(c := P)" "kh_empty h' = (kh_empty h)(c := E)"
      "set P = set (kh_partial h c) - {v} \<union> (if kp_in_partial p' then {v} else {})"
      "set E = set (kh_empty h c) - {v} \<union> (if kp_free_count p' = kp_total_slots p' then {v} else {})"
      "distinct P" "distinct E" "length E \<le> EMPTY_CACHE_MAX"
    and caches: "\<forall>cpu c'. set (kh_cache h cpu c') \<subseteq> objs h' c'"
  shows "heap_inv h'"
proof -
  note i = heap_invD [OF inv]
  have "pages_ok h'" using i(2) pages page_shapeD(2) [OF pages(2)] by (auto simp: pages_ok_def same)
  moreover have "lists_ok h'"
  proof -
    have P: "w \<in> set (kh_partial h' d) \<longleftrightarrow>
        (\<exists>p. kh_pages h' w = Some p \<and> kp_class p = d \<and> 0 < kp_free_count p \<and> kp_free_count p < kp_total_slots p)" for d w
      using i(3) old page_shapeD(2) [OF pages(2)] pages(5)
      by (cases "w = v") (auto simp: lists_ok_def lists(1,3) pages(1) split: if_splits)
    have E: "w \<in> set (kh_empty h' d) \<longleftrightarrow>
        (\<exists>p. kh_pages h' w = Some p \<and> kp_class p = d \<and> kp_free_count p = kp_total_slots p)" for d w
      using i(3) old page_shapeD(2) [OF pages(2)]
      by (cases "w = v") (auto simp: lists_ok_def lists(2,4) pages(1) split: if_splits)
    show ?thesis unfolding lists_ok_def using P E i(3) lists by (auto simp: lists_ok_def)
  qed
  moreover have "caches_ok h'" using i(4) caches by (simp add: caches_ok_def same)
  moreover have "larges_ok h'" using i(5) pages(6) by (auto simp: larges_ok_def same pages(1))
  ultimately show ?thesis using i(1) by (simp add: heap_inv_def same)
qed

section \<open>Taking a slot\<close>

lemma objs_grow:
  assumes "kh_pages h' = (kh_pages h)(v \<mapsto> p')" "kp_class p' = c"
    and "\<And>p. kh_pages h v = Some p \<Longrightarrow> kp_class p = c \<and> used p \<subseteq> used p'"
  shows "objs h' d = (if d = c then objs h c \<union> slot_addr v c ` used p' else objs h d)"
proof -
  have up: "x \<in> objs h' d" if "kh_pages h w = Some p" "kp_class p = d" "i \<in> used p" "x = slot_addr w d i" for x w p i
  proof (cases "w = v")
    case True
    then have "kh_pages h' w = Some p'" "kp_class p' = d" "i \<in> used p'" using that assms by auto
    with that(4) show ?thesis unfolding objs_def by blast
  next
    case False
    then have "kh_pages h' w = Some p" using that(1) assms(1) by simp
    with that(2-4) show ?thesis unfolding objs_def by blast
  qed
  have new: "slot_addr v c i \<in> objs h' c" if "i \<in> used p'" for i
    using that assms(1,2) unfolding objs_def by force
  have down: "x \<in> objs h d \<or> d = c \<and> x \<in> slot_addr v c ` used p'" if "x \<in> objs h' d" for x
    using that assms(1,2) unfolding objs_def by (auto split: if_splits)
  have "x \<in> objs h' d" if "x \<in> objs h d" for x
    using that up by (auto simp: objs_def [of h])
  with new down show ?thesis by auto
qed

lemma objsI: "kh_pages h v = Some p \<Longrightarrow> kp_class p = d \<Longrightarrow> i \<in> used p \<Longrightarrow> slot_addr v d i \<in> objs h d"
  unfolding objs_def by blast

lemma objsE:
  assumes "a \<in> objs h c" "pages_ok h"
  obtains v p i where "a = slot_addr v c i" "kh_pages h v = Some p" "page_shape c p" "i \<in> used p" "i < class_slots c"
    "ok_range v 1" "c < 8"
proof -
  obtain v p i where 1: "a = slot_addr v c i" "kh_pages h v = Some p" "kp_class p = c" "i \<in> used p"
    using assms(1) by (auto simp: objs_def)
  note ok = pages_okD [OF assms(2) 1(2)]
  from ok(2) 1(3) have s: "page_shape c p" by simp
  show thesis using that [OF 1(1,2) s 1(4)] ok(1) page_shapeD [OF s] used_less [OF 1(4)] by simp
qed

lemma slot_fresh:
  assumes "pages_ok h" "c < 8" "i < class_slots c" "ok_range v 1"
    and "\<And>p. kh_pages h v = Some p \<Longrightarrow> kp_class p = c \<and> i \<notin> used p"
  shows "slot_addr v c i \<notin> objs h d"
proof
  assume "slot_addr v c i \<in> objs h d"
  then obtain v' p j where o: "slot_addr v c i = slot_addr v' d j" "kh_pages h v' = Some p" "page_shape d p" "j \<in> used p"
    "j < class_slots d" "ok_range v' 1" "d < 8" using objsE assms(1) by metis
  then have "v = v'" using slot_addr_inj(1) assms(2-4) by blast
  then have "kp_class p = c" "i \<notin> used p" using assms(5) o(2) by auto
  then have "d = c" using page_shapeD(2) [OF o(3)] by simp
  then have "i = j" using slot_addr_inj(2) [OF assms(2-4) o(7,5,6,1)] by simp
  with \<open>i \<notin> used p\<close> o(4) show False by simp
qed

lemma take_slot_effect:
  assumes "kh_pages h v = Some p" "page_shape c p" "kp_in_partial p" "0 < kp_free_count p"
  obtains i p' where "take_slot c v h = Some (h\<lparr>kh_pages := (kh_pages h)(v \<mapsto> p'),
        kh_partial := (kh_partial h)(c := if kp_in_partial p' then kh_partial h c else remove1 v (kh_partial h c))\<rparr>,
        slot_addr v c i)"
    "page_shape c p'" "i < class_slots c" "i \<notin> used p" "used p' = insert i (used p)"
    "kp_free_count p = Suc (kp_free_count p')" "kp_in_partial p' \<longleftrightarrow> 0 < kp_free_count p'"
proof -
  obtain i bits where i: "claim_free_slot p = (p\<lparr>kp_bits := bits\<rparr>, of_nat i)" "i < kp_total_slots p" "i \<notin> used p"
    "used (p\<lparr>kp_bits := bits\<rparr>) = insert i (used p)" "length bits = length (kp_bits p)"
    by (rule claim_free_slot_spec [OF assms(2,4)])
  let ?p1 = "p\<lparr>kp_bits := bits, kp_free_count := kp_free_count p - 1\<rparr>"
  let ?p2 = "if kp_free_count p = 1 then ?p1\<lparr>kp_in_partial := False\<rparr> else ?p1"
  have used2: "used ?p2 = insert i (used p)" "used ?p1 = insert i (used p)" using i(4) by (simp_all add: used_def)
  have s2: "page_shape c ?p2" "page_shape c ?p1"
    using assms(2,4) i(3,5) used2 by (auto simp: page_shape_def page_words_def)
  have addr: "slot_address v ?p1 (of_nat i) (s_class_size ! c) = slot_addr v c i"
    by (rule slot_address_eq [OF s2(2)])
  show thesis
  proof (rule that [of ?p2 i])
    show "take_slot c v h = Some (h\<lparr>kh_pages := (kh_pages h)(v \<mapsto> ?p2),
        kh_partial := (kh_partial h)(c := if kp_in_partial ?p2 then kh_partial h c else remove1 v (kh_partial h c))\<rparr>,
        slot_addr v c i)"
      using assms(1,3,4) i(1) addr
      by (cases "kp_free_count p = 1") (auto simp: take_slot_def partial_remove_def Let_def)
    show "i < class_slots c" using i(2) page_shapeD(3) [OF assms(2)] by simp
  qed (use s2 used2 i(3) assms(3,4) in auto)
qed

text \<open>What a step of the heap leaves alone besides the slots.\<close>

definition same_rest :: "kheap \<Rightarrow> kheap \<Rightarrow> bool" where
  "same_rest h h' \<longleftrightarrow> kh_kva h' = kh_kva h \<and> kh_mach h' = kh_mach h \<and> kh_large h' = kh_large h \<and>
     kh_cache h' = kh_cache h \<and> kh_double_free_caught h' = kh_double_free_caught h"

definition slot_taken :: "nat \<Rightarrow> kheap \<Rightarrow> kheap \<Rightarrow> u32 \<Rightarrow> bool" where
  "slot_taken c h h' a \<longleftrightarrow> heap_inv h' \<and> same_rest h h' \<and> a \<noteq> 0 \<and> (\<forall>d. a \<notin> objs h d) \<and>
     (\<forall>d. objs h' d = (if d = c then insert a (objs h c) else objs h d))"

lemma slot_takenI:
  assumes inv: "heap_inv h" and rest: "same_rest h h'"
    and pages: "kh_pages h' = (kh_pages h)(v \<mapsto> p')" "page_shape c p'" "ok_range v 1" "vp v \<notin># free_mset (kh_kva h)"
      "\<forall>w n. kh_large h w = Some n \<longrightarrow> vp v \<notin># rng w n"
    and old: "\<And>p. kh_pages h v = Some p \<Longrightarrow> kp_class p = c \<and> used p' = insert i (used p) \<and> i \<notin> used p"
      "kh_pages h v = None \<Longrightarrow> used p' = {i}"
    and i: "i < class_slots c"
    and part: "kp_in_partial p' \<longleftrightarrow> 0 < kp_free_count p'"
    and lists: "kh_partial h' = (kh_partial h)(c := P)" "kh_empty h' = (kh_empty h)(c := E)"
      "set P = set (kh_partial h c) - {v} \<union> (if kp_in_partial p' then {v} else {})"
      "set E = set (kh_empty h c) - {v}" "distinct P" "distinct E" "length E \<le> EMPTY_CACHE_MAX"
  shows "slot_taken c h h' (slot_addr v c i)"
proof -
  note I = heap_invD [OF inv]
  have c: "c < 8" "kp_class p' = c" using page_shapeD [OF pages(2)] by simp_all
  have mem: "i \<in> used p'" using old by (cases "kh_pages h v") auto
  have "card (used p') \<noteq> 0" using mem by auto
  then have lt: "kp_free_count p' < kp_total_slots p'" using page_shapeD(5) [OF pages(2)] by linarith
  have grow: "objs h' d = (if d = c then objs h c \<union> slot_addr v c ` used p' else objs h d)" for d
    by (rule objs_grow [OF pages(1) c(2)]) (use old(1) in auto)
  have img: "objs h c \<union> slot_addr v c ` used p' = insert (slot_addr v c i) (objs h c)"
  proof (cases "kh_pages h v")
    case None
    then show ?thesis using old(2) by auto
  next
    case (Some p)
    then have "slot_addr v c ` used p \<subseteq> objs h c" using old(1) [OF Some] by (auto simp: objs_def)
    then show ?thesis using old(1) [OF Some] by auto
  qed
  have objs: "objs h' d = (if d = c then insert (slot_addr v c i) (objs h c) else objs h d)" for d
    using grow [of d] img by simp
  have "heap_inv h'"
  proof (rule page_update_inv [OF inv _ _ _ pages(1-4) _ pages(5) _ lists(1,2,3) _ lists(5,6,7)])
    show "set E = set (kh_empty h c) - {v} \<union> (if kp_free_count p' = kp_total_slots p' then {v} else {})"
      using lists(4) lt by simp
    have "set (kh_cache h cpu d) \<subseteq> objs h d" "objs h d \<subseteq> objs h' d" for cpu d
      using I(4) objs [of d] by (auto simp: caches_ok_def)
    then show "\<forall>cpu c'. set (kh_cache h cpu c') \<subseteq> objs h' c'" by blast
  qed (use rest old(1) part lt in \<open>auto simp: same_rest_def\<close>)
  moreover have "slot_addr v c i \<notin> objs h d" for d
    by (rule slot_fresh [OF I(2) c(1) i pages(3)]) (use old(1) in auto)
  moreover have "slot_addr v c i \<noteq> 0"
    using unat_slot_addr(1) [OF c(1) i pages(3)] pages(3) by (auto simp: ok_range_def)
  ultimately show ?thesis using rest objs by (simp add: slot_taken_def)
qed

lemma ok_range_nonzero: "ok_range v n \<Longrightarrow> v \<noteq> 0"
  by (auto simp: ok_range_def)

lemma page_not_large: "larges_ok h \<Longrightarrow> kh_pages h v = Some p \<Longrightarrow> \<forall>w n. kh_large h w = Some n \<longrightarrow> vp v \<notin># rng w n"
  by (auto simp: larges_ok_def)

lemma partial_page:
  assumes "heap_inv h" "v \<in> set (kh_partial h c)"
  obtains p where "kh_pages h v = Some p" "page_shape c p" "kp_in_partial p" "0 < kp_free_count p"
    "kp_free_count p < kp_total_slots p" "ok_range v 1" "vp v \<notin># free_mset (kh_kva h)"
    "\<forall>w n. kh_large h w = Some n \<longrightarrow> vp v \<notin># rng w n"
proof -
  note I = heap_invD [OF assms(1)]
  obtain p where p: "kh_pages h v = Some p" "kp_class p = c" "0 < kp_free_count p" "kp_free_count p < kp_total_slots p"
    using I(3) assms(2) by (auto simp: lists_ok_def)
  note ok = pages_okD [OF I(2) p(1)]
  show thesis using that [OF p(1)] ok p I(5) by (auto simp: larges_ok_def)
qed

lemma empty_page:
  assumes "heap_inv h" "v \<in> set (kh_empty h c)"
  obtains p where "kh_pages h v = Some p" "page_shape c p" "used p = {}" "kp_free_count p = kp_total_slots p"
    "0 < kp_free_count p" "v \<notin> set (kh_partial h c)" "ok_range v 1" "vp v \<notin># free_mset (kh_kva h)"
    "\<forall>w n. kh_large h w = Some n \<longrightarrow> vp v \<notin># rng w n"
proof -
  note I = heap_invD [OF assms(1)]
  obtain p where p: "kh_pages h v = Some p" "kp_class p = c" "kp_free_count p = kp_total_slots p"
    using I(3) assms(2) by (auto simp: lists_ok_def)
  note ok = pages_okD [OF I(2) p(1)]
  have s: "page_shape c p" using ok(2) p(2) by simp
  have "card (used p) = 0" using page_shapeD(5) [OF s] p(3) by simp
  then have "used p = {}" by simp
  moreover have "v \<notin> set (kh_partial h c)" using I(3) p by (auto simp: lists_ok_def)
  ultimately show thesis
    using that [OF p(1) s] ok(1,3) p(3) page_shapeD(3) [OF s] class_facts(3) [OF page_shapeD(1) [OF s]]
      page_not_large [OF I(5) p(1)] by simp
qed

text \<open>A page joins the partial list of its class and gives its first slot.\<close>

lemma take_pushed:
  assumes inv: "heap_inv h" and b: "heap_inv h \<Longrightarrow> same_rest h b" "kh_pages b v = Some p" "page_shape c p" "used p = {}" "0 < kp_free_count p"
    and fields: "kh_pages b = (kh_pages h)(v \<mapsto> p)" "kh_partial b = kh_partial h" "kh_empty b = (kh_empty h)(c := E)"
    and E: "set E = set (kh_empty h c) - {v}" "distinct E" "length E \<le> EMPTY_CACHE_MAX"
    and v: "ok_range v 1" "vp v \<notin># free_mset (kh_kva h)" "\<forall>w n. kh_large h w = Some n \<longrightarrow> vp v \<notin># rng w n"
      "v \<notin> set (kh_partial h c)" "\<And>q. kh_pages h v = Some q \<Longrightarrow> kp_class q = c \<and> used q = {}"
  obtains h' a where "take_slot c v (partial_push c v b) = Some (h', a)" "slot_taken c h h' a"
proof -
  let ?p = "p\<lparr>kp_in_partial := True\<rparr>" and ?b = "partial_push c v b"
  have b': "kh_pages ?b v = Some ?p" "page_shape c ?p" "kp_in_partial ?p" "0 < kp_free_count ?p" "used ?p = {}"
    using b by (simp_all add: partial_push_def)
  obtain i p' where t: "take_slot c v ?b = Some (?b\<lparr>kh_pages := (kh_pages ?b)(v \<mapsto> p'),
        kh_partial := (kh_partial ?b)(c := if kp_in_partial p' then kh_partial ?b c else remove1 v (kh_partial ?b c))\<rparr>,
        slot_addr v c i)"
    "page_shape c p'" "i < class_slots c" "used p' = insert i (used ?p)"
    "kp_in_partial p' \<longleftrightarrow> 0 < kp_free_count p'"
    using take_slot_effect [OF b'(1-4)] by metis
  have dist: "distinct (kh_partial h c)" using heap_invD(3) [OF inv] by (simp add: lists_ok_def)
  show thesis
  proof (rule that [OF t(1) slot_takenI [OF inv]])
    show "set (if kp_in_partial p' then v # kh_partial h c else kh_partial h c) =
        set (kh_partial h c) - {v} \<union> (if kp_in_partial p' then {v} else {})" using v(4) by auto
    show "distinct (if kp_in_partial p' then v # kh_partial h c else kh_partial h c)" using dist v(4) by simp
  qed (use t b(1) [OF inv] b' fields E v in \<open>auto simp: partial_push_def same_rest_def\<close>)
qed

lemma pick_take:
  assumes inv: "heap_inv h" and pick: "pick_cached_page c h = (h1, v)" "v \<noteq> 0"
  obtains h' a where "take_slot c v h1 = Some (h', a)" "slot_taken c h h' a"
proof (cases "kh_partial h c")
  case (Cons w ws)
  then have eq: "h1 = h" "w = v" using pick(1) by (simp_all add: pick_cached_page_def)
  obtain p where p: "kh_pages h v = Some p" "page_shape c p" "kp_in_partial p" "0 < kp_free_count p"
    "kp_free_count p < kp_total_slots p" "ok_range v 1" "vp v \<notin># free_mset (kh_kva h)"
    "\<forall>w n. kh_large h w = Some n \<longrightarrow> vp v \<notin># rng w n"
    using partial_page [OF inv, of v c] Cons eq by auto
  obtain i p' where t: "take_slot c v h = Some (h\<lparr>kh_pages := (kh_pages h)(v \<mapsto> p'),
        kh_partial := (kh_partial h)(c := if kp_in_partial p' then kh_partial h c else remove1 v (kh_partial h c))\<rparr>,
        slot_addr v c i)"
    "page_shape c p'" "i < class_slots c" "i \<notin> used p" "used p' = insert i (used p)"
    "kp_in_partial p' \<longleftrightarrow> 0 < kp_free_count p'"
    using take_slot_effect [OF p(1-4)] by metis
  have lists: "distinct (kh_partial h c)" "distinct (kh_empty h c)" "length (kh_empty h c) \<le> EMPTY_CACHE_MAX" "v \<notin> set (kh_empty h c)"
    using heap_invD(3) [OF inv] p(1,5) by (auto simp: lists_ok_def)
  have dw: "distinct ws" "v \<notin> set ws" using lists(1) Cons eq by auto
  show thesis
  proof (rule that [unfolded eq, OF t(1) slot_takenI [OF inv]])
    show "kh_partial (h\<lparr>kh_pages := (kh_pages h)(v \<mapsto> p'),
        kh_partial := (kh_partial h)(c := if kp_in_partial p' then kh_partial h c else remove1 v (kh_partial h c))\<rparr>) =
        (kh_partial h)(c := if kp_in_partial p' then v # ws else ws)" using Cons eq by simp
    show "set (if kp_in_partial p' then v # ws else ws) = set (kh_partial h c) - {v} \<union> (if kp_in_partial p' then {v} else {})"
      using Cons eq dw by auto
    show "kh_empty (h\<lparr>kh_pages := (kh_pages h)(v \<mapsto> p'),
        kh_partial := (kh_partial h)(c := if kp_in_partial p' then kh_partial h c else remove1 v (kh_partial h c))\<rparr>) =
        (kh_empty h)(c := kh_empty h c)" by simp
  qed (use t p lists dw page_shapeD(2) [OF p(2)] in \<open>auto simp: same_rest_def\<close>)
next
  case Nil
  then obtain vs where e: "kh_empty h c = v # vs" and h1: "h1 = partial_push c v (h\<lparr>kh_empty := (kh_empty h)(c := vs)\<rparr>)"
    using pick by (auto simp: pick_cached_page_def split: list.splits)
  obtain p where p: "kh_pages h v = Some p" "page_shape c p" "used p = {}" "kp_free_count p = kp_total_slots p"
    "0 < kp_free_count p" "v \<notin> set (kh_partial h c)" "ok_range v 1" "vp v \<notin># free_mset (kh_kva h)"
    "\<forall>w n. kh_large h w = Some n \<longrightarrow> vp v \<notin># rng w n"
    using empty_page [OF inv, of v c] e by auto
  have lists: "distinct (kh_empty h c)" "length (kh_empty h c) \<le> EMPTY_CACHE_MAX"
    using heap_invD(3) [OF inv] by (simp_all add: lists_ok_def)
  show thesis
    by (rule take_pushed [OF inv, of "h\<lparr>kh_empty := (kh_empty h)(c := vs)\<rparr>" v p c vs])
      (use p lists e page_shapeD(2) [OF p(2)] that h1 in \<open>auto simp: same_rest_def\<close>)
qed

definition batch_taken :: "nat \<Rightarrow> kheap \<Rightarrow> kheap \<Rightarrow> u32 list \<Rightarrow> bool" where
  "batch_taken c h h' new \<longleftrightarrow> heap_inv h' \<and> same_rest h h' \<and> distinct new \<and> 0 \<notin> set new \<and>
     (\<forall>d. set new \<inter> objs h d = {}) \<and> (\<forall>d. objs h' d = (if d = c then set new \<union> objs h c else objs h d))"

lemma claim_batch_spec:
  "heap_inv h \<Longrightarrow> \<exists>h' new. claim_batch c n batch h = Some (h', new @ batch) \<and> batch_taken c h h' new \<and> length new \<le> n"
proof (induction n arbitrary: batch h)
  case 0
  then show ?case by (auto simp: batch_taken_def same_rest_def)
next
  case (Suc n)
  obtain h1 v where pick: "pick_cached_page c h = (h1, v)" by fastforce
  show ?case
  proof (cases "v = 0")
    case True
    have "h1 = h"
    proof (cases "kh_partial h c")
      case Nil
      have "v \<noteq> 0" if "v \<in> set (kh_empty h c)" for v
        using empty_page [OF Suc.prems that] ok_range_nonzero by metis
      then show ?thesis using Nil pick True by (auto simp: pick_cached_page_def split: list.splits)
    qed (use pick in \<open>simp add: pick_cached_page_def\<close>)
    then show ?thesis using Suc.prems pick True by (auto simp: batch_taken_def same_rest_def)
  next
    case False
    obtain h2 a where t: "take_slot c v h1 = Some (h2, a)" "slot_taken c h h2 a"
      by (rule pick_take [OF Suc.prems pick False])
    then have i2: "heap_inv h2" by (simp add: slot_taken_def)
    obtain h' new where r: "claim_batch c n (a # batch) h2 = Some (h', new @ a # batch)" "batch_taken c h2 h' new" "length new \<le> n"
      using Suc.IH [OF i2] by blast
    have "a \<in> objs h2 c" using t(2) by (simp add: slot_taken_def)
    then have "a \<notin> set new" using r(2) by (auto simp: batch_taken_def)
    moreover have "set new \<inter> objs h d = {}" for d
    proof -
      have "objs h d \<subseteq> objs h2 d" using t(2) by (auto simp: slot_taken_def)
      moreover have "set new \<inter> objs h2 d = {}" using r(2) by (simp add: batch_taken_def)
      ultimately show ?thesis by blast
    qed
    ultimately have "batch_taken c h h' (new @ [a])"
      using t(2) r(2) by (auto simp: batch_taken_def slot_taken_def same_rest_def)
    then show ?thesis using pick False t(1) r(1,3) by (intro exI [of _ h'] exI [of _ "new @ [a]"]) simp
  qed
qed

section \<open>Releasing a slot\<close>

lemma objs_shrink:
  assumes ok: "pages_ok h" and p: "kh_pages h v = Some p" "page_shape c p" "i \<in> used p"
    and h': "kh_pages h' = (kh_pages h)(v \<mapsto> p')" "kp_class p' = c" "used p' = used p - {i}"
  shows "objs h' d = objs h d - {slot_addr v c i}"
proof -
  have v: "ok_range v 1" using pages_okD [OF ok p(1)] by simp
  have c: "c < 8" "kp_class p = c" "i < class_slots c" using page_shapeD [OF p(2)] used_less [OF p(3)] by simp_all
  have keep: "slot_addr w d j \<noteq> slot_addr v c i \<and> (w = v \<longrightarrow> q = p \<and> d = c \<and> j \<in> used p')"
    if "kh_pages h w = Some q" "kp_class q = d" "j \<in> used q" "\<not> (w = v \<and> j = i)" for w q j
  proof -
    have s: "page_shape d q" "ok_range w 1" using pages_okD [OF ok that(1)] that(2) by simp_all
    have d: "d < 8" "j < class_slots d" using page_shapeD [OF s(1)] used_less [OF that(3)] by simp_all
    have "w = v \<Longrightarrow> d = c \<and> q = p" using that(1,2) p(1) c(2) by auto
    moreover have "w = v \<Longrightarrow> j \<noteq> i" using that(4) by simp
    ultimately show ?thesis
      using slot_addr_inj [OF d s(2) c(1,3) v] that(3) h'(3) by auto
  qed
  show ?thesis
  proof (intro set_eqI iffI)
    fix x assume "x \<in> objs h' d"
    then obtain w q j where x: "x = slot_addr w d j" "kh_pages h' w = Some q" "kp_class q = d" "j \<in> used q" by (auto simp: objs_def)
    show "x \<in> objs h d - {slot_addr v c i}"
    proof (cases "w = v")
      case True
      then have "q = p'" using x(2) h'(1) by simp
      then have "d = c" "j \<in> used p" "j \<noteq> i" using x(3,4) h'(2,3) by auto
      then show ?thesis using keep [of v p j] objsI [OF p(1)] p(1) c(2) True x(1) by simp
    next
      case False
      then have "kh_pages h w = Some q" using x(2) h'(1) by simp
      then show ?thesis using keep [of w q j] objsI [of h w q] False x by simp
    qed
  next
    fix x assume "x \<in> objs h d - {slot_addr v c i}"
    then obtain w q j where x: "x = slot_addr w d j" "kh_pages h w = Some q" "kp_class q = d" "j \<in> used q" "x \<noteq> slot_addr v c i"
      by (auto simp: objs_def)
    have ne: "\<not> (w = v \<and> j = i)"
    proof
      assume e: "w = v \<and> j = i"
      then have "q = p" using x(2) p(1) by simp
      then show False using e x(1,3,5) c(2) by simp
    qed
    note k = keep [OF x(2,3,4) ne]
    show "x \<in> objs h' d"
    proof (cases "w = v")
      case True
      then have "kh_pages h' w = Some p'" "kp_class p' = d" "j \<in> used p'" using k h'(1,2) by auto
      then show ?thesis using x(1) objsI by metis
    next
      case False
      then have "kh_pages h' w = Some q" using x(2) h'(1) by simp
      then show ?thesis using x objsI by metis
    qed
  qed
qed

lemma release_index:
  assumes "page_shape c p" "i < class_slots c" "ok_range v 1" "sz = s_class_size ! c"
  defines "off \<equiv> slot_addr v c i - v - PAGE_HDR - of_nat (page_words p) * 4"
  shows "unat (off div sz) = i" "off mod sz = 0"
proof -
  have c: "c < 8" using page_shapeD(1) [OF assms(1)] .
  have off: "off = of_nat (i * class_sz c)"
  proof -
    have "off = slot_addr v c i - v - of_nat (class_base c)"
      using page_shapeD(3) [OF assms(1)] by (simp add: off_def PAGE_HDR_def class_base_def page_words_def)
    then show ?thesis using slot_addr_offset [OF c assms(2,3)] by simp
  qed
  have "i * class_sz c < 4096" using unat_slot_addr(2) [OF c assms(2,3)] class_facts(1) [OF c] by linarith
  then have u: "unat off = i * class_sz c" unfolding off by (simp only: unat_of_nat_u32)
  have sz: "unat sz = class_sz c" "0 < class_sz c" using assms(4) class_facts(1) [OF c] by (simp_all add: class_sz_def)
  show "unat (off div sz) = i" using sz by (simp add: unat_div u)
  show "off mod sz = 0" by (simp add: unat_eq_iff_u32 unat_mod u sz)
qed

text \<open>The page after slot \<open>i\<close> has been released.\<close>

definition released :: "nat \<Rightarrow> kheap_page \<Rightarrow> kheap_page" where
  "released i p = p\<lparr>kp_bits := (kp_bits p)[i div 32 := kp_bits p ! (i div 32) AND NOT (push_bit (i mod 32) 1)],
     kp_free_count := Suc (kp_free_count p), kp_in_partial := Suc (kp_free_count p) < kp_total_slots p\<rparr>"

lemma released_props:
  assumes "page_shape c p" "i \<in> used p"
  shows "page_shape c (released i p)" "used (released i p) = used p - {i}"
    "kp_free_count (released i p) = Suc (kp_free_count p)" "kp_total_slots (released i p) = kp_total_slots p"
    "kp_class (released i p) = c" "kp_in_partial (released i p) \<longleftrightarrow> Suc (kp_free_count p) < kp_total_slots p"
    "Suc (kp_free_count p) \<le> kp_total_slots p"
proof -
  note s = page_shapeD [OF assms(1)]
  show u: "used (released i p) = used p - {i}"
    using used_update(2) [OF s(4) used_less [OF assms(2)]] by (simp add: released_def used_def)
  have "card (used p) \<noteq> 0" using assms(2) by auto
  then show "Suc (kp_free_count p) \<le> kp_total_slots p" using s(5) by linarith
  have "card (used p) = Suc (card (used p - {i}))" using assms(2) by (intro card.remove) simp_all
  moreover have "kp_class (released i p) = c" "kp_total_slots (released i p) = class_slots c"
    "length (kp_bits (released i p)) = page_words (released i p)" "kp_free_count (released i p) = Suc (kp_free_count p)"
    using s by (simp_all add: released_def page_words_def)
  ultimately show "page_shape c (released i p)" unfolding page_shape_def u using s(1,3,5) by simp
qed (use page_shapeD [OF assms(1)] in \<open>simp_all add: released_def\<close>)

lemma release_effect:
  assumes inv: "heap_inv h" and p: "kh_pages h v = Some p" "page_shape c p" "i \<in> used p"
  defines "h1 \<equiv> h\<lparr>kh_pages := (kh_pages h)(v \<mapsto> released i p)\<rparr>"
  shows "release_slot_checked (slot_addr v c i) h =
    (if Suc (kp_free_count p) < kp_total_slots p
     then Some (h1\<lparr>kh_partial := (kh_partial h)(c := if kp_free_count p = 0 then v # kh_partial h c else kh_partial h c)\<rparr>, 0)
     else if length (kh_empty h c) < EMPTY_CACHE_MAX
     then Some (h1\<lparr>kh_partial := (kh_partial h)(c := remove1 v (kh_partial h c)),
                   kh_empty := (kh_empty h)(c := v # kh_empty h c)\<rparr>, 0)
     else Some (h1\<lparr>kh_partial := (kh_partial h)(c := remove1 v (kh_partial h c))\<rparr>, v))"
proof -
  note I = heap_invD [OF inv]
  note ok = pages_okD [OF I(2) p(1)]
  have c: "c < 8" "kp_class p = c" "i < class_slots c" "kp_total_slots p = class_slots c"
    using page_shapeD [OF p(2)] used_less [OF p(3)] by simp_all
  have page: "ALIGN_DOWN (slot_addr v c i) PAGE_SIZE = v" by (rule slot_addr_page [OF c(1,3) ok(1)])
  note idx = release_index [OF p(2) c(3) ok(1) refl]
  have set: "kp_bits p ! (i div 32) AND push_bit (i mod 32) 1 \<noteq> 0" using p(3) by (simp add: used_def bitmap_simps)
  have le: "Suc (kp_free_count p) \<le> kp_total_slots p" by (rule released_props(7) [OF p(2,3)])
  have part: "kp_in_partial p \<longleftrightarrow> 0 < kp_free_count p" using ok(4) le by auto
  have notin: "v \<notin> set (kh_partial h c)" if z: "kp_free_count p = 0" using I(3) p(1) z by (auto simp: lists_ok_def)
  let ?p1 = "p\<lparr>kp_bits := (kp_bits p)[i div 32 := kp_bits p ! (i div 32) AND NOT (push_bit (i mod 32) 1)],
     kp_free_count := Suc (kp_free_count p)\<rparr>"
  have rel: "released i p = ?p1\<lparr>kp_in_partial := (Suc (kp_free_count p) < kp_total_slots p)\<rparr>" by (simp add: released_def)
  have keep: "?p1 = released i p" if "0 < kp_free_count p" "Suc (kp_free_count p) < kp_total_slots p"
    using part that by (intro kheap_page.equality) (simp_all add: released_def)
  show ?thesis
  proof (cases "Suc (kp_free_count p) < kp_total_slots p")
    case True
    show ?thesis
    proof (cases "kp_free_count p = 0")
      case zero: True
      then show ?thesis using p(1) page idx set c rel True
        by (simp add: release_slot_checked_def Let_def h1_def partial_push_def)
    next
      case False
      then show ?thesis using p(1) page idx set c keep [symmetric] True
        by (simp add: release_slot_checked_def Let_def h1_def)
    qed
  next
    case False
    then have full: "Suc (kp_free_count p) = kp_total_slots p" using le by simp
    show ?thesis
      using p(1) page idx set c part keep rel full notin
      by (cases "kp_free_count p = 0")
        (simp_all add: release_slot_checked_def Let_def h1_def partial_push_def partial_remove_def remove1_idem)
  qed
qed

lemma vp_inj: "ok_range v m \<Longrightarrow> ok_range w n \<Longrightarrow> vp v = vp w \<Longrightarrow> v = w"
  using ok_range_pages(5) [of v m] ok_range_pages(5) [of w n] by (simp add: unat_eq_iff_u32)

lemma rng_one: "set_mset (rng v 1) = {vp v}"
  by (simp add: rng_def)

text \<open>A page leaves the heap, and its page number goes back to the allocator.\<close>

lemma drop_page_inv:
  assumes inv: "heap_inv h" and v: "kh_pages h v = Some p" "kp_class p = c"
    and k: "kva_inv (kh_kva h')" "set_mset (free_mset (kh_kva h')) \<subseteq> insert (vp v) (set_mset (free_mset (kh_kva h)))"
    and same: "kh_large h' = kh_large h" "kh_cache h' = kh_cache h"
    and pages: "kh_pages h' = (kh_pages h)(v := None)"
    and lists: "kh_partial h' = (kh_partial h)(c := P)" "kh_empty h' = (kh_empty h)(c := E)"
      "set P = set (kh_partial h c) - {v}" "set E = set (kh_empty h c) - {v}"
      "distinct P" "distinct E" "length E \<le> EMPTY_CACHE_MAX"
    and caches: "\<forall>cpu d. set (kh_cache h cpu d) \<subseteq> objs h' d"
  shows "heap_inv h'"
proof -
  note I = heap_invD [OF inv]
  have "pages_ok h'" unfolding pages_ok_def
  proof (intro allI impI)
    fix w q assume q: "kh_pages h' w = Some q"
    then have w: "w \<noteq> v" "kh_pages h w = Some q" using pages by (auto split: if_splits)
    note ok = pages_okD [OF I(2) w(2)]
    have "vp w \<noteq> vp v" using vp_inj [OF ok(1) pages_okD(1) [OF I(2) v(1)]] w(1) by blast
    then show "ok_range w 1 \<and> page_shape (kp_class q) q \<and> vp w \<notin># free_mset (kh_kva h') \<and>
        (kp_in_partial q \<longleftrightarrow> 0 < kp_free_count q \<and> kp_free_count q < kp_total_slots q)"
      using ok k(2) by auto
  qed
  moreover have "lists_ok h'"
    using I(3) v unfolding lists_ok_def lists(1,2) pages
    by (auto simp: lists(3-7) split: if_splits)
  moreover have "caches_ok h'" using I(4) caches by (simp add: caches_ok_def same)
  moreover have "larges_ok h'"
  proof -
    have "vp v \<notin># rng w n" if "kh_large h w = Some n" for w n using I(5) v(1) that by (auto simp: larges_ok_def)
    moreover have "set_mset (rng w n) \<inter> set_mset (free_mset (kh_kva h)) = {}" if "kh_large h w = Some n" for w n
      using I(5) that unfolding larges_ok_def by blast
    ultimately have "set_mset (rng w n) \<inter> set_mset (free_mset (kh_kva h')) = {}" if "kh_large h w = Some n" for w n
      using that k(2) by blast
    moreover have "dom (kh_pages h') \<subseteq> dom (kh_pages h)" using pages by auto
    ultimately show ?thesis using I(5) unfolding larges_ok_def same by blast
  qed
  ultimately show ?thesis using k(1) by (simp add: heap_inv_def)
qed

lemma objs_drop:
  assumes "kh_pages h' = (kh_pages h)(v := None)" "kh_pages h v = Some q" "used q = {}"
  shows "objs h' d = objs h d"
proof -
  have "(\<exists>p. kh_pages h' w = Some p \<and> kp_class p = d \<and> i \<in> used p) \<longleftrightarrow> (\<exists>p. kh_pages h w = Some p \<and> kp_class p = d \<and> i \<in> used p)" for w i
    using assms by (cases "w = v") auto
  moreover have "objs g d = {a. \<exists>w i. a = slot_addr w d i \<and> (\<exists>p. kh_pages g w = Some p \<and> kp_class p = d \<and> i \<in> used p)}" for g
    unfolding objs_def by blast
  ultimately show ?thesis by simp
qed

text \<open>Freeing the object in slot \<open>i\<close> of page \<open>v\<close>, when no cache holds it.\<close>

definition slot_freed :: "kheap \<Rightarrow> kheap \<Rightarrow> u32 \<Rightarrow> bool" where
  "slot_freed h h' a \<longleftrightarrow> heap_inv h' \<and> (\<forall>d. objs h' d = objs h d - {a}) \<and> kh_large h' = kh_large h \<and>
     kh_cache h' = kh_cache h \<and> kh_double_free_caught h' = kh_double_free_caught h"

lemma release_kept:
  assumes inv: "heap_inv h" and p: "kh_pages h v = Some p" "page_shape c p" "i \<in> used p"
    and unc: "slot_addr v c i \<notin> cached h" and res: "release_slot_checked (slot_addr v c i) h = Some (h', 0)"
  shows "slot_freed h h' (slot_addr v c i)"
proof -
  note I = heap_invD [OF inv]
  note r = released_props [OF p(2,3)]
  note ok = pages_okD [OF I(2) p(1)]
  have v0: "v \<noteq> 0" using ok_range_nonzero [OF ok(1)] .
  have mem: "v \<in> set (kh_partial h c) \<longleftrightarrow> 0 < kp_free_count p" "v \<notin> set (kh_empty h c)"
    using I(3) p(1) page_shapeD(2) [OF p(2)] r(7) by (auto simp: lists_ok_def)
  have lists: "distinct (kh_partial h c)" "distinct (kh_empty h c)" "length (kh_empty h c) \<le> EMPTY_CACHE_MAX"
    using I(3) by (simp_all add: lists_ok_def)
  note eff = release_effect [OF inv p]
  obtain P E where h': "kh_pages h' = (kh_pages h)(v \<mapsto> released i p)" "kh_partial h' = (kh_partial h)(c := P)"
      "kh_empty h' = (kh_empty h)(c := E)" "same_rest h h'"
    and P: "set P = set (kh_partial h c) - {v} \<union> (if kp_in_partial (released i p) then {v} else {})" "distinct P"
    and E: "set E = set (kh_empty h c) - {v} \<union> (if kp_free_count (released i p) = kp_total_slots (released i p) then {v} else {})"
      "distinct E" "length E \<le> EMPTY_CACHE_MAX"
  proof (cases "Suc (kp_free_count p) < kp_total_slots p")
    case True
    let ?P = "if kp_free_count p = 0 then v # kh_partial h c else kh_partial h c"
    have "h' = h\<lparr>kh_pages := (kh_pages h)(v \<mapsto> released i p), kh_partial := (kh_partial h)(c := ?P)\<rparr>"
      using eff res True by simp
    then show thesis
      by (intro that [of ?P "kh_empty h c"]) (use r True mem lists in \<open>auto simp: same_rest_def\<close>)
  next
    case False
    then have sm: "length (kh_empty h c) < EMPTY_CACHE_MAX"
      using eff res v0 by (auto split: if_splits)
    have "h' = h\<lparr>kh_pages := (kh_pages h)(v \<mapsto> released i p), kh_partial := (kh_partial h)(c := remove1 v (kh_partial h c)),
        kh_empty := (kh_empty h)(c := v # kh_empty h c)\<rparr>"
      using eff res False sm by simp
    then show thesis
      by (intro that [of "remove1 v (kh_partial h c)" "v # kh_empty h c"])
        (use r False mem lists sm in \<open>auto simp: same_rest_def\<close>)
  qed
  have objs: "objs h' d = objs h d - {slot_addr v c i}" for d
    by (rule objs_shrink [OF I(2) p h'(1) r(5,2)])
  have "heap_inv h'"
  proof (rule page_update_inv [OF inv _ _ _ h'(1) r(1) ok(1,3) _ page_not_large [OF I(5) p(1)] _ h'(2,3) P(1) E(1) P(2) E(2,3)])
    show "\<forall>cpu c'. set (kh_cache h cpu c') \<subseteq> objs h' c'"
      using I(4) unc objs by (fastforce simp: caches_ok_def cached_def)
  qed (use h'(4) r p(1) page_shapeD(2) [OF p(2)] in \<open>auto simp: same_rest_def\<close>)
  then show ?thesis using objs h'(4) by (simp add: slot_freed_def same_rest_def)
qed

lemma release_drained:
  assumes inv: "heap_inv h" and p: "kh_pages h v = Some p" "page_shape c p" "i \<in> used p"
    and unc: "slot_addr v c i \<notin> cached h" and res: "release_slot_checked (slot_addr v c i) h = Some (h1, dr)" "dr \<noteq> 0"
    and free: "slab_page_free dr h1 = Some h'"
  shows "slot_freed h h' (slot_addr v c i)"
proof -
  note I = heap_invD [OF inv]
  note r = released_props [OF p(2,3)]
  note ok = pages_okD [OF I(2) p(1)]
  have full: "\<not> Suc (kp_free_count p) < kp_total_slots p" and dr: "dr = v"
    and h1: "h1 = h\<lparr>kh_pages := (kh_pages h)(v \<mapsto> released i p), kh_partial := (kh_partial h)(c := remove1 v (kh_partial h c))\<rparr>"
    using release_effect [OF inv p] res by (auto split: if_splits)
  obtain k m where k: "kpages_free v 1 (kh_kva h) (kh_mach h) = Some (k, m)"
    and h': "h' = h1\<lparr>kh_kva := k, kh_mach := m, kh_pages := (kh_pages h)(v := None)\<rparr>"
    using free by (auto simp: slab_page_free_def kpage_free_def h1 dr bind_eq_Some_conv)
  have ko: "kva_inv k" "set_mset (free_mset k) \<subseteq> insert (vp v) (set_mset (free_mset (kh_kva h)))"
    using kp.release_ok [OF I(1) ok(1) _ k] ok(3) by (auto simp: rng_one)
  have "card (used p) = Suc 0" using full r(7) page_shapeD(5) [OF p(2)] by linarith
  then obtain j where "used p = {j}" by (auto simp: card_1_singleton_iff)
  then have only: "used p = {i}" using p(3) by simp
  have objs1: "objs h1 d = objs h d - {slot_addr v c i}" for d
    by (rule objs_shrink [OF I(2) p _ r(5,2)]) (simp add: h1)
  have "used (released i p) = {}" using r(2) only by simp
  then have objs: "objs h' d = objs h1 d" for d 
    by (intro objs_drop [where v = v and q = "released i p"]) (simp_all add: h' h1)
  have mem: "v \<notin> set (kh_empty h c)" using I(3) p(1) page_shapeD(2) [OF p(2)] r(7) by (auto simp: lists_ok_def)
  have lists: "distinct (kh_partial h c)" "distinct (kh_empty h c)" "length (kh_empty h c) \<le> EMPTY_CACHE_MAX"
    using I(3) by (simp_all add: lists_ok_def)
  have "heap_inv h'"
  proof (rule drop_page_inv [OF inv p(1) page_shapeD(2) [OF p(2)], where P = "remove1 v (kh_partial h c)" and E = "kh_empty h c"])
    show "\<forall>cpu d. set (kh_cache h cpu d) \<subseteq> objs h' d"
      using I(4) unc objs objs1 by (fastforce simp: caches_ok_def cached_def)
  qed (use ko mem lists in \<open>auto simp: h' h1\<close>)
  then show ?thesis using objs objs1 by (simp add: slot_freed_def h' h1)
qed

lemma kfree_slot:
  assumes inv: "heap_inv h" and a: "a \<in> objs h c" "a \<notin> cached h" and free: "kfree word_at a h = Some h'"
  shows "slot_freed h h' a"
proof -
  note I = heap_invD [OF inv]
  obtain v p i where o: "a = slot_addr v c i" "kh_pages h v = Some p" "page_shape c p" "i \<in> used p" "i < class_slots c"
    "ok_range v 1" "c < 8" by (rule objsE [OF a(1) I(2)])
  have page: "ALIGN_DOWN a PAGE_SIZE = v" unfolding o(1) by (rule slot_addr_page [OF o(7,5,6)])
  have "a \<noteq> 0" using unat_slot_addr(1) [OF o(7,5,6)] o(1,6) by (auto simp: ok_range_def)
  then obtain h1 dr where r: "release_slot_checked a h = Some (h1, dr)"
    "(if dr \<noteq> 0 then slab_page_free dr h1 else Some h1) = Some h'"
    using free page o(2) by (auto simp: kfree_def magic_at_def bind_eq_Some_conv)
  show ?thesis
    using release_kept [OF inv o(2-4)] release_drained [OF inv o(2-4)] a(2) r unfolding o(1)
    by (cases "dr = 0") auto
qed

section \<open>Large blocks and refused frees\<close>

lemma rng_mem: "p \<in># rng v n \<longleftrightarrow> vp v \<le> p \<and> p < vp v + unat n"
  by (auto simp: rng_def)

lemma large_facts:
  assumes "heap_inv h" "kh_large h v = Some n"
  shows "ok_range v n" "kh_pages h v = None" "ALIGN_DOWN (v + LARGE_HDR) PAGE_SIZE = v" "unat (v + LARGE_HDR) = unat v + 8"
    "set_mset (rng v n) \<inter> set_mset (free_mset (kh_kva h)) = {}"
proof -
  have L: "ok_range v n" "\<forall>w \<in> dom (kh_pages h). vp w \<notin># rng v n"
      "set_mset (rng v n) \<inter> set_mset (free_mset (kh_kva h)) = {}"
    using heap_invD(5) [OF assms(1)] assms(2) unfolding larges_ok_def by blast+
  then show "ok_range v n" "set_mset (rng v n) \<inter> set_mset (free_mset (kh_kva h)) = {}" by simp_all
  have "vp v \<in># rng v n" using L(1) by (auto simp: rng_mem ok_range_def word_less_nat_alt)
  then show "kh_pages h v = None" using L(2) by (metis domIff)
  have v: "unat v + 4096 \<le> 3758096384" "unat v mod 4096 = 0"
    using L(1) by (auto simp: ok_range_def word_less_nat_alt)
  then show u: "unat (v + LARGE_HDR) = unat v + 8" by (simp add: LARGE_HDR_def unat_add_u32)
  obtain k where k: "unat v = 4096 * k" using v(2) by auto
  then have "unat (ALIGN_DOWN (v + LARGE_HDR) PAGE_SIZE) = unat v" by (simp add: unat_align_down u)
  then show "ALIGN_DOWN (v + LARGE_HDR) PAGE_SIZE = v" by (simp add: unat_eq_iff_u32)
qed

lemma kfree_large:
  assumes inv: "heap_inv h" and v: "kh_large h v = Some n" and free: "kfree word_at (v + LARGE_HDR) h = Some h'"
  shows "heap_inv h' \<and> kh_large h' = (kh_large h)(v := None) \<and> (\<forall>d. objs h' d = objs h d) \<and> kh_cache h' = kh_cache h \<and>
    kh_double_free_caught h' = kh_double_free_caught h"
proof -
  note I = heap_invD [OF inv]
  note L = large_facts [OF inv v]
  have nz: "v + LARGE_HDR \<noteq> 0" using L(4) by (auto simp: unat_eq_iff_u32)
  have "magic_at word_at h v = Some LARGE_MAGIC" using L(2) v by (simp add: magic_at_def)
  then obtain k m where k: "kpages_free v n (kh_kva h) (kh_mach h) = Some (k, m)"
    and h': "h' = h\<lparr>kh_kva := k, kh_mach := m, kh_large := (kh_large h)(v := None)\<rparr>"
    using free nz L(3) v by (auto simp: kfree_def LARGE_MAGIC_def SLAB_MAGIC_def bind_eq_Some_conv)
  have ko: "kva_inv k" "set_mset (free_mset k) \<subseteq> set_mset (free_mset (kh_kva h)) \<union> set_mset (rng v n)"
    using kp.release_ok [OF I(1) L(1,5) k] by simp_all
  have "pages_ok h'" using I(2,5) ko(2) v unfolding pages_ok_def larges_ok_def h' by fastforce
  moreover have "larges_ok h'"
  proof -
    have "set_mset (rng w m) \<inter> set_mset (free_mset k) = {}" if "kh_large h w = Some m" "w \<noteq> v" for w m
    proof -
      have "set_mset (rng w m) \<inter> set_mset (free_mset (kh_kva h)) = {}" "set_mset (rng w m) \<inter> set_mset (rng v n) = {}"
        using I(5) that v unfolding larges_ok_def by blast+
      then show ?thesis using ko(2) by blast
    qed
    then show ?thesis using I(5) unfolding larges_ok_def h' by (auto split: if_splits)
  qed
  moreover have "objs h' d = objs h d" for d by (simp add: objs_def h')
  moreover have "lists_ok h'" using I(3) by (simp add: lists_ok_def h')
  ultimately show ?thesis using I(4) ko(1) by (simp add: heap_inv_def caches_ok_def h')
qed

lemma kfree_refused:
  assumes inv: "heap_inv h" and v: "kh_pages h (ALIGN_DOWN a PAGE_SIZE) = Some p" and no: "a \<notin> objs h (kp_class p)"
  shows "kfree word_at a h = Some (h\<lparr>kh_double_free_caught := kh_double_free_caught h + 1\<rparr>)"
proof -
  let ?v = "ALIGN_DOWN a PAGE_SIZE" and ?c = "kp_class p"
  let ?sz = "s_class_size ! ?c"
  let ?off = "a - ?v - PAGE_HDR - of_nat (page_words p) * 4"
  let ?i = "unat (?off div ?sz)"
  note ok = pages_okD [OF heap_invD(2) [OF inv] v]
  note s = page_shapeD [OF ok(2)]
  have a: "a \<noteq> 0" using ok_range_nonzero [OF ok(1)] by (auto simp: ALIGN_DOWN_def)
  have clear: "kp_bits p ! (?i div 32) AND push_bit (?i mod 32) 1 = 0" if ok_i: "?i < kp_total_slots p" "?off mod ?sz = 0"
  proof (rule ccontr)
    assume "kp_bits p ! (?i div 32) AND push_bit (?i mod 32) 1 \<noteq> 0"
    then have used: "?i \<in> used p" using ok_i(1) by (simp add: used_def bitmap_simps)
    have "unat ?off mod class_sz ?c = 0" using ok_i(2) by (simp add: class_sz_def unat_eq_iff_u32 unat_mod)
    then have "?i * class_sz ?c = unat ?off"
      using div_mult_mod_eq [of "unat ?off" "class_sz ?c"] by (simp add: unat_div class_sz_def)
    then have "of_nat (?i * class_sz ?c) = (of_nat (unat ?off) :: u32)" by (simp only:)
    then have "of_nat (?i * class_sz ?c) = ?off" by simp
    then have "slot_addr ?v ?c ?i = a"
      using s(3) by (simp add: slot_addr_def class_base_def page_words_def PAGE_HDR_def)
    then show False using objsI [OF v refl used] no by simp
  qed
  show ?thesis using a v clear by (auto simp: kfree_def magic_at_def release_slot_checked_def Let_def)
qed

section \<open>Objects do not overlap\<close>

text \<open>The bytes an object may use: its slot, or its pages without the header.\<close>

definition room :: "kheap \<Rightarrow> u32 \<Rightarrow> nat" where
  "room h a = (case kh_large h (a - LARGE_HDR) of
      Some n \<Rightarrow> unat n * 4096 - 8
    | None \<Rightarrow> (case kh_pages h (ALIGN_DOWN a PAGE_SIZE) of Some p \<Rightarrow> class_sz (kp_class p) | None \<Rightarrow> 0))"

definition extent :: "kheap \<Rightarrow> u32 \<Rightarrow> nat set" where
  "extent h a = {unat a ..< unat a + room h a}"

lemma slot_not_large:
  assumes inv: "heap_inv h" and a: "a \<in> objs h c"
  shows "kh_large h (a - LARGE_HDR) = None" "a \<notin> larges h"
proof -
  obtain v p i where o: "a = slot_addr v c i" "kh_pages h v = Some p" "page_shape c p" "i \<in> used p" "i < class_slots c"
    "ok_range v 1" "c < 8" by (rule objsE [OF a heap_invD(2) [OF inv]])
  have page: "ALIGN_DOWN a PAGE_SIZE = v" unfolding o(1) by (rule slot_addr_page [OF o(7,5,6)])
  show none: "kh_large h (a - LARGE_HDR) = None"
  proof (rule ccontr)
    assume "kh_large h (a - LARGE_HDR) \<noteq> None"
    then obtain n where "kh_large h (a - LARGE_HDR) = Some n" by blast
    from large_facts(2,3) [OF inv this] page o(2) show False by simp
  qed
  show "a \<notin> larges h"
  proof
    assume "a \<in> larges h"
    then obtain w n where w: "a = w + LARGE_HDR" "kh_large h w = Some n" by (auto simp: larges_def)
    then have "a - LARGE_HDR = w" by simp
    then show False using none w(2) by simp
  qed
qed

lemma extent_slot:
  assumes inv: "heap_inv h" and p: "kh_pages h v = Some p" "kp_class p = c" "i \<in> used p"
  shows "extent h (slot_addr v c i) = {unat v + class_base c + i * class_sz c ..< unat v + class_base c + i * class_sz c + class_sz c}"
    and "x \<in> extent h (slot_addr v c i) \<Longrightarrow> x div 4096 = vp v"
proof -
  note ok = pages_okD [OF heap_invD(2) [OF inv] p(1)]
  have c: "c < 8" "i < class_slots c" using page_shapeD [OF ok(2)] p(2) used_less [OF p(3)] by auto
  note u = unat_slot_addr [OF c ok(1)]
  have "room h (slot_addr v c i) = class_sz c"
    using slot_not_large(1) [OF inv objsI [OF p]] slot_addr_page [OF c ok(1)] p(1,2) by (simp add: room_def)
  then show e: "extent h (slot_addr v c i) = {unat v + class_base c + i * class_sz c ..< unat v + class_base c + i * class_sz c + class_sz c}"
    using u(1) by (simp add: extent_def)
  show "x div 4096 = vp v" if "x \<in> extent h (slot_addr v c i)"
  proof -
    obtain k where k: "unat v = 4096 * k" using ok(1) by (auto simp: ok_range_def)
    have "4096 * k \<le> x" "x < 4096 * k + 4096" using that u(2) by (auto simp: e k)
    then have "x div 4096 = k" by (intro div_nat_eqI) simp_all
    then show ?thesis by (simp add: vp_def k)
  qed
qed

lemma extent_large:
  assumes inv: "heap_inv h" and v: "kh_large h v = Some n"
  shows "extent h (v + LARGE_HDR) = {unat v + 8 ..< unat v + unat n * 4096}"
    and "x \<in> extent h (v + LARGE_HDR) \<Longrightarrow> x div 4096 \<in># rng v n"
proof -
  note L = large_facts [OF inv v]
  have n: "0 < unat n" using L(1) by (auto simp: ok_range_def word_less_nat_alt)
  show e: "extent h (v + LARGE_HDR) = {unat v + 8 ..< unat v + unat n * 4096}"
    using v L(4) n by (auto simp: extent_def room_def)
  show "x div 4096 \<in># rng v n" if "x \<in> extent h (v + LARGE_HDR)"
  proof -
    have "unat v = vp v * 4096" by (rule ok_range_pages(5) [OF L(1)])
    then have "vp v * 4096 \<le> x" "x < (vp v + unat n) * 4096" using that unfolding e by (auto simp: add_mult_distrib)
    then show ?thesis by (simp add: rng_mem less_mult_imp_div_less div_le_mono [of "vp v * 4096" x 4096, simplified])
  qed
qed

lemma liveE:
  assumes "a \<in> live h"
  obtains (slot) v p i where "kh_pages h v = Some p" "i \<in> used p" "a = slot_addr v (kp_class p) i"
  | (large) v n where "kh_large h v = Some n" "a = v + LARGE_HDR"
  using assms unfolding live_def larges_def objs_def by blast

lemma extents_disjoint:
  assumes inv: "heap_inv h" and ab: "a \<in> live h" "b \<in> live h" "a \<noteq> b"
  shows "extent h a \<inter> extent h b = {}"
proof -
  note I = heap_invD [OF inv]
  have sl: "extent h (slot_addr v (kp_class p) i) \<inter> extent h (w + LARGE_HDR) = {}"
    if "kh_pages h v = Some p" "i \<in> used p" "kh_large h w = Some n" for v p i w n
  proof -
    have "vp v \<notin># rng w n" using I(5) that(1,3) by (auto simp: larges_ok_def)
    then show ?thesis using extent_slot(2) [OF inv that(1) refl that(2)] extent_large(2) [OF inv that(3)] by fastforce
  qed
  from ab(1) show ?thesis
  proof (cases rule: liveE)
    case 1: (slot v p i)
    from ab(2) show ?thesis
    proof (cases rule: liveE)
      case 2: (slot w q j)
      show ?thesis
      proof (cases "v = w")
        case True
        then have "q = p" "i \<noteq> j" using 1 2 ab(3) by auto
        then have "i < j \<or> j < i" by linarith
        then have "(i + 1) * class_sz (kp_class p) \<le> j * class_sz (kp_class p) \<or> (j + 1) * class_sz (kp_class p) \<le> i * class_sz (kp_class p)"
          by (metis Suc_eq_plus1 Suc_leI mult_le_mono1)
        then show ?thesis
          using extent_slot(1) [OF inv 1(1) refl 1(2)] extent_slot(1) [OF inv 2(1) refl 2(2)] True \<open>q = p\<close> 1(3) 2(3) by auto
      next
        case False
        then have "vp v \<noteq> vp w" using vp_inj pages_okD(1) [OF I(2) 1(1)] pages_okD(1) [OF I(2) 2(1)] by blast
        then show ?thesis
          using extent_slot(2) [OF inv 1(1) refl 1(2)] extent_slot(2) [OF inv 2(1) refl 2(2)] 1(3) 2(3) by fastforce
      qed
    next
      case 2: (large w n)
      then show ?thesis using sl [OF 1(1,2)] 1(3) by simp
    qed
  next
    case 1: (large v n)
    from ab(2) show ?thesis
    proof (cases rule: liveE)
      case 2: (slot w q j)
      then show ?thesis using sl [OF 2(1,2) 1(1)] 1(2) by blast
    next
      case 2: (large w m)
      then have "v \<noteq> w" using 1 ab(3) by auto
      then have "set_mset (rng v n) \<inter> set_mset (rng w m) = {}" using I(5) 1(1) 2(1) unfolding larges_ok_def by blast
      then show ?thesis using extent_large(2) [OF inv 1(1)] extent_large(2) [OF inv 2(1)] 1(2) 2(2) by blast
    qed
  qed
qed

section \<open>Allocation\<close>

definition allocated :: "kheap \<Rightarrow> kheap \<Rightarrow> u32 \<Rightarrow> nat \<Rightarrow> bool" where
  "allocated h h' a n \<longleftrightarrow> heap_inv h' \<and> a \<noteq> 0 \<and> a \<notin> live h \<and> live h' = insert a (live h) \<and> n \<le> room h' a"

lemma room_slot:
  assumes "heap_inv h" "a \<in> objs h c"
  shows "room h a = class_sz c"
proof -
  obtain v p i where o: "a = slot_addr v c i" "kh_pages h v = Some p" "page_shape c p" "i \<in> used p" "i < class_slots c"
    "ok_range v 1" "c < 8" by (rule objsE [OF assms(2) heap_invD(2) [OF assms(1)]])
  show ?thesis
    using slot_not_large(1) [OF assms] slot_addr_page [OF o(7,5,6)] o(1-3) by (simp add: room_def page_shape_def)
qed

lemma objs_cache [simp]: "objs (h\<lparr>kh_cache := x\<rparr>) d = objs h d"
  by (simp add: objs_def)

lemma cached_iff: "x \<in> cached h \<longleftrightarrow> (\<exists>cpu c. x \<in> set (kh_cache h cpu c))"
  by (simp add: cached_def)

lemma cached_update:
  "x \<in> cached (h\<lparr>kh_cache := (kh_cache h)(cpu := (kh_cache h cpu)(c := xs))\<rparr>) \<longleftrightarrow>
   x \<in> set xs \<or> (\<exists>cpu' c'. (cpu', c') \<noteq> (cpu, c) \<and> x \<in> set (kh_cache h cpu' c'))"
proof -
  have "kh_cache (h\<lparr>kh_cache := (kh_cache h)(cpu := (kh_cache h cpu)(c := xs))\<rparr>) a b =
      (if (a, b) = (cpu, c) then xs else kh_cache h a b)" for a b by auto
  then show ?thesis unfolding cached_iff by metis
qed

lemma cached_split:
  "x \<in> cached h \<longleftrightarrow> x \<in> set (kh_cache h cpu c) \<or> (\<exists>cpu' c'. (cpu', c') \<noteq> (cpu, c) \<and> x \<in> set (kh_cache h cpu' c'))"
  using cached_update [of x h cpu c "kh_cache h cpu c"] by simp

lemma caches_okD:
  assumes "caches_ok h"
  shows "distinct (kh_cache h cpu c)" "length (kh_cache h cpu c) \<le> KM_CACHE_DEPTH" "set (kh_cache h cpu c) \<subseteq> objs h c"
  using assms by (simp_all add: caches_ok_def)

lemma kmalloc_cached:
  assumes inv: "heap_inv h" and c: "kh_cache h cpu c = obj # rest"
  shows "allocated h (h\<lparr>kh_cache := (kh_cache h)(cpu := (kh_cache h cpu)(c := rest))\<rparr>) obj (class_sz c)"
proof -
  note I = heap_invD [OF inv]
  let ?h = "h\<lparr>kh_cache := (kh_cache h)(cpu := (kh_cache h cpu)(c := rest))\<rparr>"
  have objs: "objs ?h d = objs h d" for d by simp
  have obj: "obj \<in> objs h c" "obj \<in> cached h" 
    using caches_okD(3) [OF I(4), of cpu c] c by (auto simp: cached_def) (metis list.set_intros(1))
  have d: "obj \<notin> set rest" "distinct rest" "length rest \<le> KM_CACHE_DEPTH" "set rest \<subseteq> objs h c"
    using I(4) c unfolding caches_ok_def by (metis distinct.simps(2) length_Cons Suc_leD set_subset_Cons subset_trans)+
  have only: "obj \<notin> set (kh_cache h cpu' c')" if "(cpu', c') \<noteq> (cpu, c)" for cpu' c'
    using I(4) c that unfolding caches_ok_def by (metis disjoint_iff list.set_intros(1))
  have sub: "set (kh_cache ?h cpu' c') \<subseteq> set (kh_cache h cpu' c')" for cpu' c' using c by auto
  have "caches_ok ?h"
  proof -
    have "distinct (kh_cache ?h cpu' c') \<and> length (kh_cache ?h cpu' c') \<le> KM_CACHE_DEPTH \<and> set (kh_cache ?h cpu' c') \<subseteq> objs ?h c'" for cpu' c'
      using I(4) d unfolding caches_ok_def objs by (auto split: if_splits)
    moreover have "cpu' = cpu'' \<and> c' = c''" if "set (kh_cache ?h cpu' c') \<inter> set (kh_cache ?h cpu'' c'') \<noteq> {}" for cpu' cpu'' c' c''
    proof -
      have "set (kh_cache h cpu' c') \<inter> set (kh_cache h cpu'' c'') \<noteq> {}" using that sub by blast
      then show ?thesis using I(4) unfolding caches_ok_def by blast
    qed
    ultimately show ?thesis unfolding caches_ok_def by blast
  qed
  then have inv': "heap_inv ?h"
    using I by (simp add: heap_inv_def pages_ok_def lists_ok_def larges_ok_def)
  have "cached ?h = cached h - {obj}"
  proof (rule set_eqI)
    fix x
    have "x \<in> cached h \<longleftrightarrow> x = obj \<or> x \<in> set rest \<or> (\<exists>cpu' c'. (cpu', c') \<noteq> (cpu, c) \<and> x \<in> set (kh_cache h cpu' c'))"
      using cached_split [of x h cpu c] c by auto
    then show "x \<in> cached ?h \<longleftrightarrow> x \<in> cached h - {obj}"
      unfolding cached_update using only d(1) by auto
  qed
  then have "live ?h = insert obj (live h)" "obj \<notin> live h"
    using obj slot_not_large(2) [OF inv obj(1)] by (auto simp: live_def objs larges_def)
  moreover have "obj \<noteq> 0"
  proof -
    obtain v p i where o: "obj = slot_addr v c i" "kh_pages h v = Some p" "page_shape c p" "i \<in> used p" "i < class_slots c"
      "ok_range v 1" "c < 8" by (rule objsE [OF obj(1) I(2)])
    show ?thesis using unat_slot_addr(1) [OF o(7,5,6)] o(1,6) by (auto simp: ok_range_def)
  qed
  ultimately show ?thesis using inv' room_slot [OF inv'] obj(1) objs by (simp add: allocated_def)
qed

lemma fill_cache_all: "length batch + length cache \<le> KM_CACHE_DEPTH \<Longrightarrow> fill_cache batch cache = (rev batch @ cache, [])"
  by (induction batch arbitrary: cache) auto

lemma kmalloc_batch:
  assumes inv: "heap_inv h" and c: "kh_cache h cpu c = []" and t: "batch_taken c h h1 (obj # batch)" "length batch \<le> KM_CACHE_DEPTH"
  shows "allocated h (h1\<lparr>kh_cache := (kh_cache h1)(cpu := (kh_cache h1 cpu)(c := rev batch))\<rparr>) obj (class_sz c)"
proof -
  let ?h = "h1\<lparr>kh_cache := (kh_cache h1)(cpu := (kh_cache h1 cpu)(c := rev batch))\<rparr>"
  have inv1: "heap_inv h1" and rest: "same_rest h h1" and new: "distinct (obj # batch)" "obj \<noteq> 0"
    "\<And>d. set (obj # batch) \<inter> objs h d = {}"
    and o1: "\<And>d. objs h1 d = (if d = c then set (obj # batch) \<union> objs h c else objs h d)"
    using t(1) by (auto simp: batch_taken_def)
  note I = heap_invD [OF inv] and I1 = heap_invD [OF inv1]
  have cache: "kh_cache h1 = kh_cache h" "kh_large h1 = kh_large h" using rest by (simp_all add: same_rest_def)
  have objs: "objs ?h d = objs h1 d" for d by simp
  have apart: "set batch \<inter> set (kh_cache h cpu' c') = {}" "obj \<notin> set (kh_cache h cpu' c')" for cpu' c'
    using caches_okD(3) [OF I(4), of cpu' c'] new(3) [of c'] by auto
  have "caches_ok ?h"
  proof -
    have "distinct (kh_cache ?h cpu' c') \<and> length (kh_cache ?h cpu' c') \<le> KM_CACHE_DEPTH \<and> set (kh_cache ?h cpu' c') \<subseteq> objs ?h c'" for cpu' c'
      using caches_okD [OF I1(4), of cpu' c'] new(1) t(2) o1 [of c] by auto
    moreover have "cpu' = cpu'' \<and> c' = c''" if "set (kh_cache ?h cpu' c') \<inter> set (kh_cache ?h cpu'' c'') \<noteq> {}" for cpu' cpu'' c' c''
    proof -
      have K: "kh_cache ?h a b = (if (a, b) = (cpu, c) then rev batch else kh_cache h a b)" for a b by (simp add: cache)
      have "(cpu', c') = (cpu, c) \<longleftrightarrow> (cpu'', c'') = (cpu, c)" using that apart(1) unfolding K by (auto split: if_splits)
      moreover have "(cpu', c') \<noteq> (cpu, c) \<Longrightarrow> ?thesis"
        using that I(4) calculation unfolding K caches_ok_def by (simp split: if_splits)
      ultimately show ?thesis by blast
    qed
    ultimately show ?thesis unfolding caches_ok_def by blast
  qed
  then have inv': "heap_inv ?h" using I1 by (simp add: heap_inv_def pages_ok_def lists_ok_def larges_ok_def)
  have cached: "cached ?h = cached h \<union> set batch"
  proof (rule set_eqI)
    fix x
    have "x \<in> cached h \<longleftrightarrow> (\<exists>cpu' c'. (cpu', c') \<noteq> (cpu, c) \<and> x \<in> set (kh_cache h cpu' c'))"
      using cached_split [of x h cpu c] c by simp
    then show "x \<in> cached ?h \<longleftrightarrow> x \<in> cached h \<union> set batch"
      using cached_update [of x h1 cpu c "rev batch"] cache by auto
  qed
  have ub: "(\<Union>d. objs ?h d) = set (obj # batch) \<union> (\<Union>d. objs h d)"
  proof -
    have f: "objs h1 d \<subseteq> set (obj # batch) \<union> objs h d" "objs h d \<subseteq> objs h1 d" "set (obj # batch) \<subseteq> objs h1 c" for d
      using o1 [of d] o1 [of c] by (auto split: if_splits)
    show ?thesis unfolding objs
    proof (rule subset_antisym)
      show "(\<Union>d. objs h1 d) \<subseteq> set (obj # batch) \<union> (\<Union>d. objs h d)" using f(1) by (intro UN_least) blast
      show "set (obj # batch) \<union> (\<Union>d. objs h d) \<subseteq> (\<Union>d. objs h1 d)"
      proof (rule Un_least)
        show "set (obj # batch) \<subseteq> (\<Union>d. objs h1 d)" using f(3) by blast
        show "(\<Union>d. objs h d) \<subseteq> (\<Union>d. objs h1 d)" by (rule UN_mono [OF subset_refl f(2)])
      qed
    qed
  qed
  have "obj \<in> objs ?h c" using o1 objs by simp
  note nl = slot_not_large(2) [OF inv' this]
  have nl': "a \<notin> larges h" if "a \<in> set (obj # batch)" for a
    using slot_not_large(2) [OF inv1, of a c] that o1 [of c] cache(2) by (auto simp: larges_def)
  have "obj \<notin> cached h" "obj \<notin> (\<Union>d. objs h d)" using apart(2) new(3) by (auto simp: cached_def)
  moreover have "set batch \<inter> (\<Union>d. objs h d) = {}" "obj \<notin> set batch" using new(1,3) by auto
  moreover have "larges ?h = larges h" by (simp add: larges_def cache(2))
  ultimately have "live ?h = insert obj (live h)" "obj \<notin> live h"
    using nl' unfolding live_def ub cached by auto
  then show ?thesis using inv' new(2) room_slot [OF inv' \<open>obj \<in> objs ?h c\<close>] by (simp add: allocated_def)
qed

lemma heap_inv_kva:
  assumes inv: "heap_inv h" and k: "kva_inv k" "set_mset (free_mset k) \<subseteq> set_mset (free_mset (kh_kva h))"
  shows "heap_inv (h\<lparr>kh_kva := k, kh_mach := m\<rparr>)"
proof -
  note I = heap_invD [OF inv]
  have "objs (h\<lparr>kh_kva := k, kh_mach := m\<rparr>) d = objs h d" for d by (simp add: objs_def)
  moreover have "larges_ok (h\<lparr>kh_kva := k, kh_mach := m\<rparr>)"
  proof -
    have "set_mset (rng w n) \<inter> set_mset (free_mset k) = {}" if "kh_large h w = Some n" for w n
      using I(5) that k(2) unfolding larges_ok_def by blast
    then show ?thesis using I(5) by (simp add: larges_ok_def)
  qed
  ultimately show ?thesis
    using I k by (auto simp: heap_inv_def pages_ok_def lists_ok_def caches_ok_def)
qed

lemma fresh_page:
  assumes inv: "heap_inv h" and v: "vp v \<in># free_mset (kh_kva h)" "ok_range v n"
  shows "kh_pages h v = None" "v \<notin> set (kh_partial h c)" "v \<notin> set (kh_empty h c)"
    "\<forall>w n. kh_large h w = Some n \<longrightarrow> vp v \<notin># rng w n"
proof -
  note I = heap_invD [OF inv]
  show p: "kh_pages h v = None" using pages_okD(3) [OF I(2), of v] v(1) by (cases "kh_pages h v") auto
  show "v \<notin> set (kh_partial h c)" "v \<notin> set (kh_empty h c)" using I(3) p by (auto simp: lists_ok_def)
  show "\<forall>w n. kh_large h w = Some n \<longrightarrow> vp v \<notin># rng w n"
    using I(5) v(1) unfolding larges_ok_def by blast
qed

lemma live_slot_taken:
  assumes inv: "heap_inv h" and t: "slot_taken c h h' a"
  shows "allocated h h' a (class_sz c)"
proof -
  have inv': "heap_inv h'" and rest: "same_rest h h'" and a: "a \<noteq> 0" "\<And>d. a \<notin> objs h d"
    and o: "\<And>d. objs h' d = (if d = c then insert a (objs h c) else objs h d)"
    using t by (auto simp: slot_taken_def)
  have mem: "a \<in> objs h' c" using o by simp
  have same: "cached h' = cached h" "larges h' = larges h" using rest by (simp_all add: same_rest_def cached_def larges_def)
  have "a \<notin> cached h" using a(2) caches_okD(3) [OF heap_invD(4) [OF inv]] by (auto simp: cached_def)
  moreover have "a \<notin> larges h" using slot_not_large(2) [OF inv' mem] same by simp
  moreover have "(\<Union>d. objs h' d) = insert a (\<Union>d. objs h d)"
  proof -
    have "x \<in> objs h' d \<Longrightarrow> x = a \<or> x \<in> objs h d" "x \<in> objs h d \<Longrightarrow> x \<in> objs h' d" for x d
      using o [of d] by (auto split: if_splits)
    then show ?thesis using mem by blast
  qed
  ultimately show ?thesis
    using a inv' room_slot [OF inv' mem] by (auto simp: allocated_def live_def same)
qed

lemma kmalloc_new_page:
  assumes inv: "heap_inv h" and c: "c < 8" and cr: "create_slab_page c h = Some (h1, v)" "v \<noteq> 0"
  obtains h' a where "take_slot c v (partial_push c v h1) = Some (h', a)" "allocated h h' a (class_sz c)"
proof -
  note I = heap_invD [OF inv]
  define n where "n = slots_that_fit (unat (s_class_size ! c))"
  define p where "p = \<lparr>kp_class = c, kp_in_partial = False, kp_free_count = n, kp_total_slots = n,
     kp_bits = replicate ((n + 31) div 32) 0\<rparr>"
  obtain k m where k: "kpages_alloc 1 (kh_kva h) (kh_mach h) = Some (k, m, v)"
    and h1: "h1 = h\<lparr>kh_kva := k, kh_mach := m, kh_pages := (kh_pages h)(v \<mapsto> p)\<rparr>"
    using cr by (auto simp: create_slab_page_def kpage_alloc_def bind_eq_Some_conv Let_def p_def n_def split: if_splits)
  note ka = kp.alloc_ok [OF I(1) _ k]
  have ko: "kva_inv k" "set_mset (free_mset k) \<subseteq> set_mset (free_mset (kh_kva h))"
    and v: "ok_range v 1" "vp v \<in># free_mset (kh_kva h)" "vp v \<notin># free_mset k"
    using ka cr(2) by (auto simp: rng_one)
  let ?b = "h\<lparr>kh_kva := k, kh_mach := m\<rparr>"
  have invb: "heap_inv ?b" by (rule heap_inv_kva [OF inv ko])
  note f = fresh_page [OF inv v(2,1)]
  have used: "used p = {}" by (auto simp: used_def p_def div_less_ceil_32)
  have shape: "page_shape c p"
    using c used by (simp add: page_shape_def page_words_def) (simp add: p_def n_def class_slots_def class_sz_def)
  have pos: "0 < kp_free_count p" using class_facts(3) [OF c] by (simp add: p_def n_def class_slots_def class_sz_def)
  have lists: "distinct (kh_empty h c)" "length (kh_empty h c) \<le> EMPTY_CACHE_MAX" using I(3) by (simp_all add: lists_ok_def)
  have "\<exists>h' a. take_slot c v (partial_push c v h1) = Some (h', a) \<and> slot_taken c ?b h' a"
  proof (rule take_pushed [OF invb, of h1 v p c "kh_empty h c"])
    fix h2 b assume "take_slot c v (partial_push c v h1) = Some (h2, b)" "slot_taken c ?b h2 b"
    then show "\<exists>h' a. take_slot c v (partial_push c v h1) = Some (h', a) \<and> slot_taken c ?b h' a" by blast
  qed (use shape used pos f v lists in \<open>simp_all add: h1 same_rest_def\<close>)
  then obtain h' a where t: "take_slot c v (partial_push c v h1) = Some (h', a)" "slot_taken c ?b h' a" by blast
  from t(2) have "allocated ?b h' a (class_sz c)" by (rule live_slot_taken [OF invb])
  moreover have "live ?b = live h" by (simp add: live_def objs_def cached_def larges_def)
  ultimately show thesis using that [OF t(1)] by (simp add: allocated_def)
qed

lemma kmalloc_large:
  assumes inv: "heap_inv h" and al: "kpages_alloc n (kh_kva h) (kh_mach h) = Some (k, m, v)" "v \<noteq> 0" "unat n < 131072"
    and sz: "sz + 8 \<le> unat n * 4096"
  shows "allocated h (h\<lparr>kh_kva := k, kh_mach := m, kh_large := (kh_large h)(v \<mapsto> n)\<rparr>) (v + LARGE_HDR) sz"
proof -
  note I = heap_invD [OF inv]
  note ka = kp.alloc_ok [OF I(1) al(3) al(1)]
  have ko: "kva_inv k" "set_mset (free_mset k) \<subseteq> set_mset (free_mset (kh_kva h))"
    and v: "ok_range v n" "set_mset (rng v n) \<subseteq> set_mset (free_mset (kh_kva h))" "set_mset (rng v n) \<inter> set_mset (free_mset k) = {}"
    using ka al(2) by auto
  have vv: "vp v \<in># rng v n" using v(1) by (auto simp: rng_mem ok_range_def word_less_nat_alt)
  have new: "kh_large h v = None"
  proof (rule ccontr)
    assume "kh_large h v \<noteq> None"
    then obtain n' where n': "kh_large h v = Some n'" by blast
    have "vp v \<in># rng v n'" using large_facts(1) [OF inv n'] by (auto simp: rng_mem ok_range_def word_less_nat_alt)
    then show False using large_facts(5) [OF inv n'] v(2) vv by blast
  qed
  let ?b = "h\<lparr>kh_kva := k, kh_mach := m\<rparr>"
  let ?h = "?b\<lparr>kh_large := (kh_large h)(v \<mapsto> n)\<rparr>"
  have invb: "heap_inv ?b" by (rule heap_inv_kva [OF inv ko])
  note B = heap_invD [OF invb]
  have objs: "objs ?h d = objs h d" for d by (simp add: objs_def)
  have "larges_ok ?h"
  proof -
    have "vp w \<notin># rng v n" if "kh_pages h w = Some p" for w p using pages_okD(3) [OF I(2) that] v(2) by blast
    moreover have "set_mset (rng v n) \<inter> set_mset (rng w n') = {}" if "kh_large h w = Some n'" for w n'
      using large_facts(5) [OF inv that] v(2) by blast
    ultimately show ?thesis using B(5) v(1,3) unfolding larges_ok_def by (auto simp: inf_commute split: if_splits)
  qed
  then have inv': "heap_inv ?h" using B by (simp add: heap_inv_def pages_ok_def lists_ok_def caches_ok_def objs_def)
  have a: "v + LARGE_HDR \<notin> larges h" using new by (auto simp: larges_def)
  have "kh_large ?h v = Some n" by simp
  note lf = large_facts [OF inv' this]
  have "v + LARGE_HDR \<notin> objs h d" for d
  proof
    assume "v + LARGE_HDR \<in> objs h d"
    then have "v + LARGE_HDR \<in> objs ?h d" using objs by simp
    from slot_not_large(1) [OF inv' this] show False by simp
  qed
  then have "v + LARGE_HDR \<notin> live h" using a by (simp add: live_def)
  moreover have "live ?h = insert (v + LARGE_HDR) (live h)"
    using \<open>\<And>d. v + LARGE_HDR \<notin> objs h d\<close> by (auto simp: live_def objs cached_def larges_def)
  moreover have "v + LARGE_HDR \<noteq> 0" using lf(4) by (auto simp: unat_eq_iff_u32)
  moreover have "sz \<le> room ?h (v + LARGE_HDR)" using sz by (simp add: room_def)
  ultimately show ?thesis using inv' by (simp add: allocated_def)
qed

lemma pages_needed:
  assumes "unat sz < 536862720"
  defines "n \<equiv> ALIGN_UP (sz + LARGE_HDR) PAGE_SIZE div PAGE_SIZE"
  shows "unat n < 131072" "unat sz + 8 \<le> unat n * 4096"
proof -
  have s: "unat (sz + LARGE_HDR) = unat sz + 8" using assms(1) by (simp add: LARGE_HDR_def unat_add_u32)
  have "unat (ALIGN_UP (sz + LARGE_HDR) PAGE_SIZE) = (unat sz + 8 + 4095) div 4096 * 4096"
    using assms(1) by (simp add: unat_align_up s)
  then have n: "unat n = (unat sz + 8 + 4095) div 4096" by (simp add: n_def unat_div PAGE_SIZE_def)
  show "unat n < 131072" unfolding n using assms(1) by (intro less_mult_imp_div_less) simp
  show "unat sz + 8 \<le> unat n * 4096" unfolding n
    using div_mult_mod_eq [of "unat sz + 8 + 4095" 4096] mod_less_divisor [of 4096 "unat sz + 8 + 4095"] by linarith
qed

text \<open>
  The pages a call of \<^verbatim>\<open>kmalloc\<close> has to ask the page allocator for: none when the size is 0 or the size
  class has an object in the CPU's cache or a page with a free slot, one page for a class that has
  neither, and the pages of a block too large for the classes.
\<close>

definition pages_wanted :: "nat \<Rightarrow> u32 \<Rightarrow> kheap \<Rightarrow> u32 option" where
  "pages_wanted cpu sz h =
     (if sz = 0 then None
      else case size_to_class sz of
        Some c \<Rightarrow> if kh_cache h cpu c = [] \<and> kh_partial h c = [] \<and> kh_empty h c = [] then Some 1 else None
      | None \<Rightarrow> Some (ALIGN_UP (sz + LARGE_HDR) PAGE_SIZE div PAGE_SIZE))"

text \<open>
  What a call of \<^verbatim>\<open>kmalloc\<close> for \<open>n\<close> bytes does, given whether it has to fail (\<open>nul\<close>): the outcome \<open>None\<close>
  is a fault of the page allocator (\<open>flt\<close>).
\<close>

definition malloc_ok :: "bool \<Rightarrow> bool \<Rightarrow> kheap \<Rightarrow> (kheap \<times> u32) option \<Rightarrow> nat \<Rightarrow> bool" where
  "malloc_ok flt nul h res n \<longleftrightarrow>
     (case res of
        None \<Rightarrow> flt
      | Some (h', a) \<Rightarrow> heap_inv h' \<and> (a = 0 \<longleftrightarrow> nul) \<and>
          (if a = 0 then live h' = live h
           else a \<notin> live h \<and> live h' = insert a (live h) \<and> n \<le> room h' a \<and>
             (\<forall>b \<in> live h. extent h' a \<inter> extent h' b = {})))"

lemma malloc_okI:
  assumes "allocated h h' a m" "n \<le> m" "\<not> nul"
  shows "malloc_ok flt nul h (Some (h', a)) n"
proof -
  have "extent h' a \<inter> extent h' b = {}" if "b \<in> live h" for b
    using extents_disjoint [of h' a b] assms(1) that by (auto simp: allocated_def)
  then show ?thesis using assms by (simp add: allocated_def malloc_ok_def)
qed

lemma malloc_ok_null:
  assumes "heap_inv h" "heap_inv h1" "live h1 = live h" "kh_kva h1 = kh_kva h" "unat n < 131072"
    "kpages_alloc n (kh_kva h) (kh_mach h) = Some (k, m, 0)" "nul"
  shows "malloc_ok flt nul h (Some (h1\<lparr>kh_kva := k, kh_mach := m\<rparr>, 0)) sz"
proof -
  have "heap_inv (h1\<lparr>kh_kva := k, kh_mach := m\<rparr>)"
    using heap_inv_kva [OF assms(2)] kp.alloc_ok [OF heap_invD(1) [OF assms(1)] assms(5,6)] assms(4) by simp
  moreover have "live (h1\<lparr>kh_kva := k, kh_mach := m\<rparr>) = live h1" by (simp add: live_def objs_def cached_def larges_def)
  ultimately show ?thesis using assms(3,7) by (simp add: malloc_ok_def)
qed

lemma claim_batch_Nil:
  assumes inv: "heap_inv h" and b: "claim_batch c (Suc n) [] h = Some (h1, batch)"
  shows "batch = [] \<longleftrightarrow> kh_partial h c = [] \<and> kh_empty h c = []"
proof -
  obtain h2 v where pick: "pick_cached_page c h = (h2, v)" by fastforce
  have nz: "w \<noteq> 0" if "w \<in> set (kh_empty h c) \<union> set (kh_partial h c)" for w
    using that empty_page [OF inv, of w c] partial_page [OF inv, of w c] ok_range_nonzero by (metis UnE)
  have v: "v = 0 \<longleftrightarrow> kh_partial h c = [] \<and> kh_empty h c = []"
    using pick nz by (auto simp: pick_cached_page_def split: list.splits)
  show ?thesis
  proof (cases "v = 0")
    case True
    then show ?thesis using b pick v by simp
  next
    case False
    obtain h3 a where t: "take_slot c v h2 = Some (h3, a)" "slot_taken c h h3 a" by (rule pick_take [OF inv pick False])
    then have "heap_inv h3" by (simp add: slot_taken_def)
    from claim_batch_spec [OF this, of c n "[a]"] have "batch \<noteq> []" using b pick False t(1) by auto
    then show ?thesis using v False by simp
  qed
qed

lemma kmalloc_refill:
  assumes inv: "heap_inv h" and c: "c < 8" "sz \<le> class_sz c" and b: "batch_taken c h h1 []"
  shows "malloc_ok (kpages_alloc 1 (kh_kva h) (kh_mach h) = None) (\<exists>k m. kpages_alloc 1 (kh_kva h) (kh_mach h) = Some (k, m, 0)) h
    (do { (h, v) \<leftarrow> create_slab_page c h1; if v = 0 then Some (h, 0) else take_slot c v (partial_push c v h) }) sz"
proof -
  have rest: "same_rest h h1" and inv1: "heap_inv h1" using b by (simp_all add: batch_taken_def)
  have "objs h1 d = objs h d" for d using b by (simp add: batch_taken_def)
  then have l1: "live h1 = live h" using rest by (simp add: live_def same_rest_def cached_def larges_def)
  have hh: "kh_kva h1 = kh_kva h" "kh_mach h1 = kh_mach h" using rest by (simp_all add: same_rest_def)
  show ?thesis
  proof (cases "kpages_alloc 1 (kh_kva h) (kh_mach h)")
    case None
    then show ?thesis using hh by (simp add: create_slab_page_def kpage_alloc_def malloc_ok_def)
  next
    case (Some r)
    then obtain k m v where k: "kpages_alloc 1 (kh_kva h) (kh_mach h) = Some (k, m, v)" by (cases r) auto
    obtain h2 where cr: "create_slab_page c h1 = Some (h2, v)" "v = 0 \<Longrightarrow> h2 = h1\<lparr>kh_kva := k, kh_mach := m\<rparr>"
      using k hh by (cases "v = 0") (auto simp: create_slab_page_def kpage_alloc_def Let_def)
    show ?thesis
    proof (cases "v = 0")
      case True
      have "malloc_ok False True h (Some (h1\<lparr>kh_kva := k, kh_mach := m\<rparr>, 0)) sz"
        by (rule malloc_ok_null [OF inv inv1 l1 hh(1)]) (use k True in auto)
      then show ?thesis using k cr True by simp
    next
      case False
      obtain h' a where t: "take_slot c v (partial_push c v h2) = Some (h', a)" "allocated h1 h' a (class_sz c)"
        by (rule kmalloc_new_page [OF inv1 c(1) cr(1) False])
      then have "allocated h h' a (class_sz c)" using l1 by (simp add: allocated_def)
      then show ?thesis using malloc_okI c(2) k cr(1) t(1) False by simp
    qed
  qed
qed

text \<open>The outcome that the page allocator decides, for the pages wanted.\<close>

abbreviation pages_fault :: "nat \<Rightarrow> u32 \<Rightarrow> kheap \<Rightarrow> bool" where
  "pages_fault cpu sz h \<equiv> \<exists>n. pages_wanted cpu sz h = Some n \<and> kpages_alloc n (kh_kva h) (kh_mach h) = None"

abbreviation pages_refused :: "nat \<Rightarrow> u32 \<Rightarrow> kheap \<Rightarrow> bool" where
  "pages_refused cpu sz h \<equiv> \<exists>n k m. pages_wanted cpu sz h = Some n \<and> kpages_alloc n (kh_kva h) (kh_mach h) = Some (k, m, 0)"

lemma kmalloc_small:
  assumes inv: "heap_inv h" and sz: "sz \<noteq> 0" "size_to_class sz = Some c"
  shows "malloc_ok (pages_fault cpu sz h) (pages_refused cpu sz h) h (kmalloc word_at cpu sz h) (unat sz)"
proof -
  note fits = size_to_class_fits [OF sz(2)]
  show ?thesis
  proof (cases "kh_cache h cpu c")
    case (Cons obj rest)
    then show ?thesis using malloc_okI kmalloc_cached [OF inv Cons] fits sz by (simp add: kmalloc_def pages_wanted_def)
  next
    case Nil
    obtain h1 batch where b: "claim_batch c (KM_CACHE_DEPTH div 2 + 1) [] h = Some (h1, batch)" "batch_taken c h h1 batch"
      "length batch \<le> KM_CACHE_DEPTH div 2 + 1"
      using claim_batch_spec [OF inv, of c "KM_CACHE_DEPTH div 2 + 1" "[]"] by auto
    note some = claim_batch_Nil [OF inv, of c "KM_CACHE_DEPTH div 2" h1 batch]
    show ?thesis
    proof (cases batch)
      case (Cons obj bs)
      have len: "length bs \<le> KM_CACHE_DEPTH" using b(3) Cons by (simp add: KM_CACHE_DEPTH_def)
      have "kh_cache h1 cpu c = []" using Nil b(2) by (simp add: batch_taken_def same_rest_def)
      then have "fill_cache bs (kh_cache h1 cpu c) = (rev bs, [])" using fill_cache_all [of bs "[]"] len by simp
      then have r: "kmalloc word_at cpu sz h = Some (h1\<lparr>kh_cache := (kh_cache h1)(cpu := (kh_cache h1 cpu)(c := rev bs))\<rparr>, obj)"
        using sz Nil b(1) Cons by (simp add: kmalloc_def)
      have "pages_wanted cpu sz h = None" using some b(1) Cons sz by (simp add: pages_wanted_def)
      moreover have "allocated h (h1\<lparr>kh_cache := (kh_cache h1)(cpu := (kh_cache h1 cpu)(c := rev bs))\<rparr>) obj (class_sz c)"
        using kmalloc_batch [OF inv Nil _ len] b(2) Cons by blast
      then have "malloc_ok flt False h (Some (h1\<lparr>kh_cache := (kh_cache h1)(cpu := (kh_cache h1 cpu)(c := rev bs))\<rparr>, obj)) (unat sz)" for flt
        by (rule malloc_okI) (use fits in simp_all)
      ultimately show ?thesis unfolding r by simp
    next
      case bn: Nil
      have "pages_wanted cpu sz h = Some 1" using some b(1) bn Nil sz by (simp add: pages_wanted_def)
      moreover have "kmalloc word_at cpu sz h =
          do { (h, v) \<leftarrow> create_slab_page c h1; if v = 0 then Some (h, 0) else take_slot c v (partial_push c v h) }"
        using sz Nil b(1) bn by (simp add: kmalloc_def)
      ultimately show ?thesis using kmalloc_refill [OF inv, of c "unat sz" h1] fits b(2) bn by simp
    qed
  qed
qed

lemma kmalloc_big:
  assumes inv: "heap_inv h" and sz: "sz \<noteq> 0" "size_to_class sz = None" "unat sz < 536862720"
  shows "malloc_ok (pages_fault cpu sz h) (pages_refused cpu sz h) h (kmalloc word_at cpu sz h) (unat sz)"
proof -
  let ?n = "ALIGN_UP (sz + LARGE_HDR) PAGE_SIZE div PAGE_SIZE"
  note pn = pages_needed [OF sz(3)]
  have w: "pages_wanted cpu sz h = Some ?n" using sz by (simp add: pages_wanted_def)
  show ?thesis
  proof (cases "kpages_alloc ?n (kh_kva h) (kh_mach h)")
    case None
    then show ?thesis using sz w by (simp add: kmalloc_def malloc_ok_def)
  next
    case (Some r)
    then obtain k m v where k: "kpages_alloc ?n (kh_kva h) (kh_mach h) = Some (k, m, v)" by (cases r) auto
    show ?thesis
    proof (cases "v = 0")
      case True
      have "malloc_ok False True h (Some (h\<lparr>kh_kva := k, kh_mach := m\<rparr>, 0)) (unat sz)"
        by (rule malloc_ok_null [OF inv inv refl refl pn(1)]) (use k True in auto)
      then show ?thesis using sz w k True by (simp add: kmalloc_def)
    next
      case False
      then have "allocated h (h\<lparr>kh_kva := k, kh_mach := m, kh_large := (kh_large h)(v \<mapsto> ?n)\<rparr>) (v + LARGE_HDR) (unat sz)"
        by (intro kmalloc_large [OF inv k _ pn])
      then show ?thesis using malloc_okI sz w k False by (simp add: kmalloc_def)
    qed
  qed
qed

section \<open>Freeing\<close>

text \<open>What a free does to the slots, whether or not a cache holds the object.\<close>

lemma kfree_objs:
  assumes inv: "heap_inv h" and a: "a \<in> objs h c" and free: "kfree word_at a h = Some h'"
  shows "(\<forall>d. objs h' d = objs h d - {a}) \<and> kh_cache h' = kh_cache h \<and> kh_double_free_caught h' = kh_double_free_caught h"
proof -
  note I = heap_invD [OF inv]
  obtain v p i where o: "a = slot_addr v c i" "kh_pages h v = Some p" "page_shape c p" "i \<in> used p" "i < class_slots c"
    "ok_range v 1" "c < 8" by (rule objsE [OF a I(2)])
  note r = released_props [OF o(3,4)]
  have page: "ALIGN_DOWN a PAGE_SIZE = v" unfolding o(1) by (rule slot_addr_page [OF o(7,5,6)])
  have "a \<noteq> 0" using unat_slot_addr(1) [OF o(7,5,6)] o(1,6) by (auto simp: ok_range_def)
  then obtain h1 dr where f: "release_slot_checked a h = Some (h1, dr)"
    "(if dr \<noteq> 0 then slab_page_free dr h1 else Some h1) = Some h'"
    using free page o(2) by (auto simp: kfree_def magic_at_def bind_eq_Some_conv)
  note eff = release_effect [OF inv o(2-4), folded o(1)]
  have h1: "kh_pages h1 = (kh_pages h)(v \<mapsto> released i p)" "kh_cache h1 = kh_cache h"
      "kh_double_free_caught h1 = kh_double_free_caught h"
    and dr: "dr \<noteq> 0 \<Longrightarrow> dr = v \<and> Suc (kp_free_count p) = kp_total_slots p"
    using eff f(1) r(7) by (auto split: if_splits)
  have objs1: "objs h1 d = objs h d - {a}" for d
    unfolding o(1) by (rule objs_shrink [OF I(2) o(2-4) h1(1) r(5,2)])
  show ?thesis
  proof (cases "dr = 0")
    case True
    then show ?thesis using f(2) h1 objs1 by simp
  next
    case False
    then have h': "kh_pages h' = (kh_pages h1)(v := None)" "kh_cache h' = kh_cache h1"
      "kh_double_free_caught h' = kh_double_free_caught h1"
      using f(2) dr by (auto simp: slab_page_free_def bind_eq_Some_conv)
    have "card (used (released i p)) = 0" using page_shapeD(5) [OF r(1)] dr [OF False] r(3,4) by linarith
    then have "used (released i p) = {}" by simp
    then have "objs h' d = objs h1 d" for d by (intro objs_drop [OF h'(1)]) (simp_all add: h1)
    then show ?thesis using h' h1 objs1 by simp
  qed
qed

lemma kfree_live:
  assumes inv: "heap_inv h" and a: "a \<in> live h" and free: "kfree word_at a h = Some h'"
  shows "heap_inv h' \<and> live h' = live h - {a} \<and> kh_double_free_caught h' = kh_double_free_caught h"
proof (cases "a \<in> larges h")
  case True
  then obtain v n where v: "a = v + LARGE_HDR" "kh_large h v = Some n" by (auto simp: larges_def)
  note f = kfree_large [OF inv v(2) free [unfolded v(1)]]
  have "larges h' = larges h - {a}" using f v(1) by (auto simp: larges_def)
  moreover have "a \<notin> objs h d" for d using slot_not_large(2) [OF inv, of a d] True by blast
  ultimately show ?thesis using f by (auto simp: live_def cached_def)
next
  case False
  then obtain c where c: "a \<in> objs h c" "a \<notin> cached h" using a by (auto simp: live_def)
  have f: "slot_freed h h' a" by (rule kfree_slot [OF inv c free])
  then have "larges h' = larges h" "cached h' = cached h" by (simp_all add: slot_freed_def larges_def cached_def)
  then show ?thesis using f False by (auto simp: slot_freed_def live_def)
qed

section \<open>Trimming\<close>

text \<open>
  Detached pages are freed one by one; \<open>E\<close> are the empty lists without them, which a page keeps out of
  until it is freed.
\<close>

lemma relist_inv:
  assumes "heap_inv h" "\<And>c. set (E c) = set (kh_empty h c)" "\<And>c. distinct (E c)" "\<And>c. length (E c) \<le> EMPTY_CACHE_MAX"
  shows "heap_inv (h\<lparr>kh_empty := E\<rparr>)"
  using assms unfolding heap_inv_def
  by (simp add: pages_ok_def lists_ok_def caches_ok_def larges_ok_def objs_def)

lemma free_empty_page:
  assumes inv: "heap_inv h" and v: "v \<in> set (kh_empty h c)" and free: "slab_page_free v (h\<lparr>kh_empty := E\<rparr>) = Some h1"
  obtains g where "h1 = g\<lparr>kh_empty := E\<rparr>" "heap_inv g" "kh_empty g = (kh_empty h)(c := remove1 v (kh_empty h c))"
    "\<And>d. objs g d = objs h d" "kh_large g = kh_large h" "kh_cache g = kh_cache h"
proof -
  note I = heap_invD [OF inv]
  obtain p where p: "kh_pages h v = Some p" "page_shape c p" "used p = {}" "v \<notin> set (kh_partial h c)" "ok_range v 1"
    "vp v \<notin># free_mset (kh_kva h)" using empty_page [OF inv v] by metis
  obtain k m where k: "kpages_free v 1 (kh_kva h) (kh_mach h) = Some (k, m)"
    and h1: "h1 = h\<lparr>kh_empty := E, kh_kva := k, kh_mach := m, kh_pages := (kh_pages h)(v := None)\<rparr>"
    using free by (auto simp: slab_page_free_def kpage_free_def bind_eq_Some_conv)
  have ko: "kva_inv k" "set_mset (free_mset k) \<subseteq> insert (vp v) (set_mset (free_mset (kh_kva h)))"
    using kp.release_ok [OF I(1) p(5) _ k] p(6) by (auto simp: rng_one)
  let ?g = "h\<lparr>kh_empty := (kh_empty h)(c := remove1 v (kh_empty h c)), kh_kva := k, kh_mach := m, kh_pages := (kh_pages h)(v := None)\<rparr>"
  have objs: "objs ?g d = objs h d" for d by (rule objs_drop [OF _ p(1,3)]) simp
  have lists: "distinct (kh_partial h c)" "distinct (kh_empty h c)" "length (kh_empty h c) \<le> EMPTY_CACHE_MAX"
    using I(3) by (simp_all add: lists_ok_def)
  have len: "length (remove1 v (kh_empty h c)) \<le> EMPTY_CACHE_MAX" using lists(3) by (auto simp: length_remove1)
  have "heap_inv ?g"
  proof (rule drop_page_inv [OF inv p(1) page_shapeD(2) [OF p(2)], where P = "kh_partial h c" and E = "remove1 v (kh_empty h c)"])
    show "\<forall>cpu d. set (kh_cache h cpu d) \<subseteq> objs ?g d" using caches_okD(3) [OF I(4)] objs by simp
  qed (use ko p(4) lists len in auto)
  then show thesis using that [of ?g] objs h1 by simp
qed

lemma free_pages_inv:
  "heap_inv h \<Longrightarrow> free_pages chain (h\<lparr>kh_empty := E\<rparr>) = Some h' \<Longrightarrow> distinct chain \<Longrightarrow>
   set chain \<subseteq> (\<Union>c. set (kh_empty h c)) \<Longrightarrow> (\<And>c. set (E c) = set (kh_empty h c) - set chain) \<Longrightarrow>
   (\<And>c. distinct (E c) \<and> length (E c) \<le> EMPTY_CACHE_MAX) \<Longrightarrow>
   heap_inv h' \<and> kh_empty h' = E \<and> live h' = live h"
proof (induction chain arbitrary: h)
  case Nil
  then have "heap_inv (h\<lparr>kh_empty := E\<rparr>)" by (intro relist_inv) auto
  moreover have "live (h\<lparr>kh_empty := E\<rparr>) = live h" by (simp add: live_def objs_def cached_def larges_def)
  ultimately show ?case using Nil.prems(2) by auto
next
  case (Cons v chain)
  obtain c where c: "v \<in> set (kh_empty h c)" using Cons.prems(4) by auto
  obtain h1 where h1: "slab_page_free v (h\<lparr>kh_empty := E\<rparr>) = Some h1" "free_pages chain h1 = Some h'"
    using Cons.prems(2) by (auto simp: bind_eq_Some_conv)
  obtain g where g: "h1 = g\<lparr>kh_empty := E\<rparr>" "heap_inv g" "kh_empty g = (kh_empty h)(c := remove1 v (kh_empty h c))"
    "\<And>d. objs g d = objs h d" "kh_large g = kh_large h" "kh_cache g = kh_cache h"
    using free_empty_page [OF Cons.prems(1) c h1(1)] by metis
  have L: "lists_ok h" by (rule heap_invD(3) [OF Cons.prems(1)])
  have other: "v \<notin> set (kh_empty h d)" if "d \<noteq> c" for d using L c that by (auto simp: lists_ok_def)
  have e: "set (kh_empty g d) = set (kh_empty h d) - {v}" for d
    using L other by (cases "d = c") (auto simp: g(3) lists_ok_def)
  have "heap_inv h' \<and> kh_empty h' = E \<and> live h' = live g"
  proof (rule Cons.IH [OF g(2)])
    show "free_pages chain (g\<lparr>kh_empty := E\<rparr>) = Some h'" using h1(2) g(1) by simp
    show "set chain \<subseteq> (\<Union>c. set (kh_empty g c))" using Cons.prems(3,4) e by fastforce
    show "set (E d) = set (kh_empty g d) - set chain" for d using Cons.prems(5) [of d] e by auto
  qed (use Cons.prems in auto)
  moreover have "live g = live h" using g(4-6) by (simp add: live_def cached_def larges_def)
  ultimately show ?case by simp
qed

text \<open>What the loop over the classes detaches.\<close>

lemma trim_fold:
  "distinct cs \<Longrightarrow> fold trim_class cs (h\<lparr>kh_empty := E\<rparr>, ch) =
   (h\<lparr>kh_empty := (\<lambda>c. if c \<in> set cs then drop (length (E c) - 1) (E c) else E c)\<rparr>,
    concat (rev (map (\<lambda>c. rev (take (length (E c) - 1) (E c))) cs)) @ ch)"
proof (induction cs arbitrary: E ch)
  case (Cons c cs)
  let ?E = "E(c := drop (length (E c) - 1) (E c))"
  have t: "trim_class c (h\<lparr>kh_empty := E\<rparr>, ch) = (h\<lparr>kh_empty := ?E\<rparr>, rev (take (length (E c) - 1) (E c)) @ ch)"
    by (simp add: trim_class_def Let_def)
  have m: "map (\<lambda>c. rev (take (length (?E c) - 1) (?E c))) cs = map (\<lambda>c. rev (take (length (E c) - 1) (E c))) cs"
    using Cons.prems by auto
  have e: "(\<lambda>d. if d \<in> set cs then drop (length (?E d) - 1) (?E d) else ?E d) =
      (\<lambda>d. if d \<in> set (c # cs) then drop (length (E d) - 1) (E d) else E d)"
    using Cons.prems by auto
  have "fold trim_class (c # cs) (h\<lparr>kh_empty := E\<rparr>, ch) =
      fold trim_class cs (h\<lparr>kh_empty := ?E\<rparr>, rev (take (length (E c) - 1) (E c)) @ ch)"
    by (simp only: fold_Cons comp_apply t)
  also have "\<dots> = (h\<lparr>kh_empty := (\<lambda>d. if d \<in> set cs then drop (length (?E d) - 1) (?E d) else ?E d)\<rparr>,
      concat (rev (map (\<lambda>c. rev (take (length (?E c) - 1) (?E c))) cs)) @ rev (take (length (E c) - 1) (E c)) @ ch)"
    by (rule Cons.IH) (use Cons.prems in simp)
  finally show ?case unfolding m e by simp
qed simp

lemma set_drop_distinct: "distinct xs \<Longrightarrow> set (drop n xs) = set xs - set (take n xs)"
  using append_take_drop_id [of n xs] distinct_append [of "take n xs" "drop n xs"] set_append [of "take n xs" "drop n xs"]
  by (metis Diff_cancel Diff_triv Int_commute Un_Diff sup_bot.left_neutral)

lemma distinct_concat_rev:
  "distinct cs \<Longrightarrow> (\<And>c. c \<in> set cs \<Longrightarrow> distinct (f c)) \<Longrightarrow>
   (\<And>c d. c \<in> set cs \<Longrightarrow> d \<in> set cs \<Longrightarrow> c \<noteq> d \<Longrightarrow> set (f c) \<inter> set (f d) = {}) \<Longrightarrow> distinct (concat (rev (map f cs)))"
  by (induction cs) fastforce+

lemma kheap_empty_trim_inv:
  assumes inv: "heap_inv h" and res: "kheap_empty_trim h = Some (h', bytes)"
  shows "heap_inv h' \<and> live h' = live h \<and> (\<forall>c < 8. length (kh_empty h' c) = min 1 (length (kh_empty h c)))"
proof -
  let ?E = "kh_empty h"
  let ?E' = "\<lambda>c. if c \<in> set [0..<8] then drop (length (?E c) - 1) (?E c) else ?E c"
  let ?ch = "concat (rev (map (\<lambda>c. rev (take (length (?E c) - 1) (?E c))) [0..<8]))"
  have L: "lists_ok h" by (rule heap_invD(3) [OF inv])
  have dist: "distinct (?E c)" "length (?E c) \<le> EMPTY_CACHE_MAX" for c using L by (simp_all add: lists_ok_def)
  have apart: "set (?E c) \<inter> set (?E d) = {}" if "c \<noteq> d" for c d using L that by (auto simp: lists_ok_def)
  have fold: "fold trim_class [0..<8] (h, []) = (h\<lparr>kh_empty := ?E'\<rparr>, ?ch)"
    using trim_fold [where cs = "[0..<8]" and h = h and E = ?E and ch = "[]"] by simp
  then have free: "free_pages ?ch (h\<lparr>kh_empty := ?E'\<rparr>) = Some h'"
    using res by (auto simp only: kheap_empty_trim_def Let_def split_conv map_option_eq_Some)
  have ch: "set ?ch = (\<Union>c \<in> {0..<8}. set (take (length (?E c) - 1) (?E c)))" by auto
  have E': "set (?E' c) = set (?E c) - set ?ch" for c
  proof -
    have out: "x \<notin> set (?E c)" if "x \<in> set (take (length (?E d) - 1) (?E d))" "d \<noteq> c" for x d
      using apart [OF that(2)] in_set_takeD [OF that(1)] by blast
    have "set (drop (length (?E c) - 1) (?E c)) = set (?E c) - set (take (length (?E c) - 1) (?E c))"
      by (rule set_drop_distinct [OF dist(1)])
    then show ?thesis unfolding ch using out by (auto split: if_splits)
  qed
  have "heap_inv h' \<and> kh_empty h' = ?E' \<and> live h' = live h"
  proof (rule free_pages_inv [OF inv free])
    show "distinct ?ch"
    proof (rule distinct_concat_rev)
      fix c d :: nat
      assume "c \<noteq> d"
      from apart [OF this] set_take_subset [of _ "?E c"] set_take_subset [of _ "?E d"]
      show "set (rev (take (length (?E c) - 1) (?E c))) \<inter> set (rev (take (length (?E d) - 1) (?E d))) = {}" by force
    qed (use dist(1) in simp_all)
    show "set ?ch \<subseteq> (\<Union>c. set (?E c))" unfolding ch by (auto dest: in_set_takeD)
    show "distinct (?E' c) \<and> length (?E' c) \<le> EMPTY_CACHE_MAX" for c using dist [of c] by auto
  qed (rule E')
  then show ?thesis by auto
qed

section \<open>Properties\<close>

text \<open>
  C1: \<^verbatim>\<open>kmalloc\<close> hands out fresh memory.  From every consistent heap, a call for less than half a
  gigabyte leaves a consistent heap.  It returns NULL exactly when the size is 0 or the page allocator
  refuses the pages the call needs: one page when the size class has neither a cached object nor a page with a free
  slot, the pages of the block for a size beyond the classes; then no object
  changes.  Otherwise it returns an object that was not handed out before and is the only addition to the objects in use, has room
  for the bytes asked for, and shares no byte with another object in use.  It faults only when the page allocator faults on that request.
\<close>

theorem kmalloc_fresh:
  assumes inv: "heap_inv h" and sz: "unat sz < 536862720"
  shows "case kmalloc word_at cpu sz h of
    None \<Rightarrow> \<exists>n. pages_wanted cpu sz h = Some n \<and> kpages_alloc n (kh_kva h) (kh_mach h) = None
  | Some (h', a) \<Rightarrow> heap_inv h' \<and>
      (a = 0 \<longleftrightarrow> sz = 0 \<or> (\<exists>n k m. pages_wanted cpu sz h = Some n \<and> kpages_alloc n (kh_kva h) (kh_mach h) = Some (k, m, 0))) \<and>
      (if a = 0 then live h' = live h
       else a \<notin> live h \<and> live h' = insert a (live h) \<and> unat sz \<le> room h' a \<and>
         (\<forall>b \<in> live h. extent h' a \<inter> extent h' b = {}))"
proof (cases "sz = 0")
  case True
  then show ?thesis using inv by (simp add: kmalloc_def)
next
  case False
  then have "malloc_ok (pages_fault cpu sz h) (pages_refused cpu sz h) h (kmalloc word_at cpu sz h) (unat sz)"
    using kmalloc_small [OF inv False] kmalloc_big [OF inv False _ sz] by (cases "size_to_class sz") auto
  then show ?thesis using False by (simp add: malloc_ok_def split: option.splits prod.splits)
qed

text \<open>
  C2: \<^verbatim>\<open>kfree\<close> releases exactly one object, and refuses what is not one.  Freeing an object in use
  leaves a consistent heap in which that object and no other is gone; a pointer into a slab page that
  is no slot, or whose slot is free, is counted as a double free and changes nothing; NULL is ignored.
\<close>

theorem kfree_exact:
  assumes inv: "heap_inv h" and res: "kfree word_at a h = Some h'"
  shows "(a \<in> live h \<longrightarrow> heap_inv h' \<and> live h' = live h - {a} \<and> kh_double_free_caught h' = kh_double_free_caught h) \<and>
    (\<forall>p. kh_pages h (ALIGN_DOWN a PAGE_SIZE) = Some p \<and> a \<notin> objs h (kp_class p) \<longrightarrow>
       h' = h\<lparr>kh_double_free_caught := kh_double_free_caught h + 1\<rparr>) \<and>
    (a = 0 \<longrightarrow> h' = h)"
  using kfree_live [OF inv _ res] kfree_refused [OF inv, of a _ word_at] res by (auto simp: kfree_def)

text \<open>
  A double free of an object that a per-CPU cache holds is not caught.  Such an object is marked
  in use, so freeing a stale pointer to it is accepted without being counted; afterwards its slot is
  free in the bitmap while the cache still holds it, so it can be handed out twice.
\<close>

theorem kfree_cached_undetected:
  assumes "heap_inv h" "a \<in> set (kh_cache h cpu c)" "kfree word_at a h = Some h'"
  shows "kh_double_free_caught h' = kh_double_free_caught h \<and> a \<in> set (kh_cache h' cpu c) \<and> (\<forall>d. a \<notin> objs h' d)"
  using kfree_objs [OF assms(1) _ assms(3)] caches_okD(3) [OF heap_invD(4) [OF assms(1)], of cpu c] assms(2) by auto

text \<open>The header of a large block is added in 32 bits: a request of almost 4 GB is given one page.\<close>

lemma kmalloc_size_wraps: "ALIGN_UP (0xFFFFFFFF + LARGE_HDR) PAGE_SIZE div PAGE_SIZE = 1"
  by (simp add: ALIGN_UP_def LARGE_HDR_def PAGE_SIZE_def)

section \<open>Witnesses\<close>

text \<open>One page of class 6 with three slots: slot 0 handed out, slot 1 in the cache of CPU 0, slot 2 free.\<close>

definition sample_heap :: kheap where
  "sample_heap = \<lparr>kh_kva = \<lparr>s_bump = 0xD0001000, s_kp_stack = [], s_kp_multi = [], s_kp_va_lost_pages = 0\<rparr>, kh_mach = sample_machine,
     kh_pages = [0xD0000000 \<mapsto> \<lparr>kp_class = 6, kp_in_partial = True, kp_free_count = 1, kp_total_slots = 3, kp_bits = [3]\<rparr>],
     kh_large = (\<lambda>_. None), kh_partial = (\<lambda>c. if c = 6 then [0xD0000000] else []), kh_empty = (\<lambda>_. []),
     kh_double_free_caught = 0, kh_cache = (\<lambda>cpu c. if cpu = 0 \<and> c = 6 then [0xD0000418] else [])\<rparr>"

lemma fresh_kva_inv:
  assumes "unat b mod 4096 = 0" "3489660928 \<le> unat b" "unat b \<le> 3758096384"
  shows "kva_inv \<lparr>s_bump = b, s_kp_stack = [], s_kp_multi = [], s_kp_va_lost_pages = n\<rparr>"
proof -
  have "count (mset [vp b..<vp KHEAP_VLIMIT]) p \<le> 1" for p
    using distinct_count_atmost_1 [of "[vp b..<vp KHEAP_VLIMIT]"] by simp
  then show ?thesis using assms by (simp add: kva_inv_def kva_ok_def free_mset_def)
qed

lemma kfree_returns:
  assumes inv: "heap_inv h" and a: "a \<in> objs h c" and small: "length (kh_empty h c) < EMPTY_CACHE_MAX"
  shows "\<exists>h'. kfree word_at a h = Some h'"
proof -
  obtain v p i where o: "a = slot_addr v c i" "kh_pages h v = Some p" "page_shape c p" "i \<in> used p" "i < class_slots c"
    "ok_range v 1" "c < 8" by (rule objsE [OF a heap_invD(2) [OF inv]])
  have page: "ALIGN_DOWN a PAGE_SIZE = v" unfolding o(1) by (rule slot_addr_page [OF o(7,5,6)])
  have "\<exists>h1. release_slot_checked a h = Some (h1, 0)"
    using release_effect [OF inv o(2-4), folded o(1)] small by auto
  then show ?thesis using page o(2) by (auto simp: kfree_def magic_at_def)
qed

lemma sample_used: "used \<lparr>kp_class = 6, kp_in_partial = b, kp_free_count = n, kp_total_slots = 3, kp_bits = [3]\<rparr> = {0, 1}"
proof -
  have bits: "bit (3 :: u32) 0" "bit (3 :: u32) 1" "\<not> bit (3 :: u32) 2" by simp_all
  have "bit (3 :: u32) i \<longleftrightarrow> i = 0 \<or> i = 1" if "i < 3" for i
  proof -
    from that consider "i = 0" | "i = 1" | "i = 2" by linarith
    then show ?thesis using bits by cases simp_all
  qed
  then show ?thesis by (auto simp: used_def)
qed

lemma class_6: "class_slots 6 = 3" "class_sz 6 = 1024" "class_base 6 = 24"
  by (simp_all add: class_slots_def class_sz_def class_base_def s_class_size_def slots_table)

lemma sample_objs: "objs sample_heap d = (if d = 6 then {0xD0000018, 0xD0000418} else {})"
proof -
  have "slot_addr 0xD0000000 6 0 = 0xD0000018" "slot_addr 0xD0000000 6 1 = 0xD0000418" by (simp_all add: slot_addr_def class_6)
  then show ?thesis by (auto simp: objs_def sample_heap_def sample_used split: if_splits)
qed

lemma sample_empty: "length (kh_empty sample_heap 6) < EMPTY_CACHE_MAX"
  by (simp add: sample_heap_def EMPTY_CACHE_MAX_def)

lemma sample_heap_inv: "heap_inv sample_heap"
proof -
  have free: "set_mset (free_mset (kh_kva sample_heap)) = {vp 0xD0001000..<vp KHEAP_VLIMIT}"
    by (simp add: sample_heap_def free_mset_def)
  have "kva_inv (kh_kva sample_heap)" unfolding sample_heap_def by (simp add: fresh_kva_inv)
  moreover have "pages_ok sample_heap"
    unfolding pages_ok_def free
    by (auto simp: sample_heap_def ok_range_def page_shape_def page_words_def class_6 sample_used vp_def split: if_splits)
  moreover have "lists_ok sample_heap" by (auto simp: lists_ok_def sample_heap_def split: if_splits)
  moreover have "caches_ok sample_heap"
    unfolding caches_ok_def sample_objs by (auto simp: sample_heap_def KM_CACHE_DEPTH_def)
  moreover have "larges_ok sample_heap" by (simp add: larges_ok_def sample_heap_def)
  ultimately show ?thesis by (simp add: heap_inv_def)
qed

theorem kmalloc_fresh_witness:
  "\<exists>h'. kmalloc (\<lambda>_. None) 0 1000 sample_heap = Some (h', 0xD0000418) \<and> live h' = insert 0xD0000418 (live sample_heap) \<and>
     0xD0000418 \<notin> live sample_heap"
proof -
  obtain h' where r: "kmalloc (\<lambda>_. None) 0 1000 sample_heap = Some (h', 0xD0000418)"
    by (simp add: kmalloc_def size_to_class_def s_class_size_def sample_heap_def)
  show ?thesis using r kmalloc_fresh [OF sample_heap_inv, where sz = 1000 and cpu = 0 and word_at = "\<lambda>_. None"] by simp
qed

theorem kfree_exact_witness:
  "\<exists>h'. kfree (\<lambda>_. None) 0xD0000018 sample_heap = Some h' \<and> live h' = live sample_heap - {0xD0000018}"
proof -
  obtain h' where r: "kfree (\<lambda>_. None) 0xD0000018 sample_heap = Some h'"
    using kfree_returns [OF sample_heap_inv, of "0xD0000018" 6] sample_objs [of 6] sample_empty by auto
  moreover have "0xD0000018 \<in> live sample_heap"
    by (simp add: live_def sample_objs cached_def) (simp add: sample_heap_def)
  ultimately show ?thesis using r kfree_exact [OF sample_heap_inv r] by blast
qed

theorem kfree_cached_undetected_witness:
  "\<exists>h'. kfree (\<lambda>_. None) 0xD0000418 sample_heap = Some h' \<and> 0xD0000418 \<in> set (kh_cache h' 0 6) \<and> 0xD0000418 \<notin> objs h' 6"
proof -
  have c: "0xD0000418 \<in> set (kh_cache sample_heap 0 6)" by (simp add: sample_heap_def)
  obtain h' where r: "kfree (\<lambda>_. None) 0xD0000418 sample_heap = Some h'"
    using kfree_returns [OF sample_heap_inv, of "0xD0000418" 6] sample_objs [of 6] sample_empty by auto
  show ?thesis using r kfree_cached_undetected [OF sample_heap_inv c r] by blast
qed

end
