(* ===== verification/Registry.thy ===== *)
theory Registry
  imports Prelude "HOL-Library.Multiset"
begin

text \<open>
  The service registry of \<^verbatim>\<open>kernel/registry.c\<close>: a table from service names to IPC ports, the
  list of threads blocked in \<^verbatim>\<open>registry_wait\<close> and the list of threads parked until a name
  appears.  A C string is a list of characters without its terminating NUL, a \<^verbatim>\<open>const char *\<close>
  that may be \<^verbatim>\<open>NULL\<close> an option.  The code under \<^verbatim>\<open>s_lock\<close> is one step; wake-ups, unblocked
  threads and released records are events of the result, in the order the code performs them.
  Whether a process or a thread is alive is an argument.
\<close>

section \<open>State\<close>

definition REGISTRY_NAME_MAX :: nat where "REGISTRY_NAME_MAX = 64"
definition REGISTRY_MAX :: nat where "REGISTRY_MAX = 256"

record entry =
  e_name :: string
  e_hash :: u32
  e_port :: u32
  e_owner :: int
  e_active :: bool

text \<open>\<open>w_wq\<close> names the wait queue on the stack of the blocked thread.\<close>

record waiter =
  w_name :: string
  w_hash :: u32
  w_wq :: nat

record parked =
  p_name :: string
  p_hash :: u32
  p_tid :: u32
  p_owner :: int

text \<open>\<open>s_entries\<close> is the prefix \<^verbatim>\<open>s_entries[0..s_count)\<close>.\<close>

record registry =
  s_entries :: "entry list"
  s_waiters :: "waiter list"
  s_parked :: "parked list"

datatype reg_event = WakeAll nat | Unblock u32 | Kfree parked

section \<open>Operations\<close>

text \<open>\<^verbatim>\<open>strlcpy(dst, s, REGISTRY_NAME_MAX)\<close>: at most 63 characters are kept.\<close>

definition strlcpy_name :: "string \<Rightarrow> string" where
  "strlcpy_name s = take (REGISTRY_NAME_MAX - 1) s"

definition hash_step :: "char \<Rightarrow> u32 \<Rightarrow> u32" where
  "hash_step c h = (h XOR of_char c) * 0x01000193"

definition hash_name :: "string \<Rightarrow> u32" where
  "hash_name s = (let h = fold hash_step s 0x811C9DC5 in if h \<noteq> 0 then h else 1)"

definition entry_matches :: "string \<Rightarrow> u32 \<Rightarrow> entry \<Rightarrow> bool" where
  "entry_matches nm h e \<longleftrightarrow> e_active e \<and> e_hash e = h \<and> e_name e = nm"

text \<open>The index of the first entry with a property: the loops over \<^verbatim>\<open>s_entries\<close>.\<close>

fun first_index :: "(entry \<Rightarrow> bool) \<Rightarrow> nat \<Rightarrow> entry list \<Rightarrow> nat option" where
  "first_index P i [] = None"
| "first_index P i (e # es) = (if P e then Some i else first_index P (Suc i) es)"

definition entry_find :: "string \<Rightarrow> u32 \<Rightarrow> registry \<Rightarrow> nat option" where
  "entry_find nm h r = first_index (entry_matches nm h) 0 (s_entries r)"

definition blank_entry :: entry where
  "blank_entry = \<lparr>e_name = [], e_hash = 0, e_port = 0, e_owner = 0, e_active = False\<rparr>"

definition entry_alloc :: "registry \<Rightarrow> registry \<times> nat option" where
  "entry_alloc r =
     (case first_index (\<lambda>e. \<not> e_active e) 0 (s_entries r) of
        Some i \<Rightarrow> (r, Some i)
      | None \<Rightarrow>
          if length (s_entries r) < REGISTRY_MAX
          then (r\<lparr>s_entries := s_entries r @ [blank_entry]\<rparr>, Some (length (s_entries r)))
          else (r, None))"

definition waiter_matches :: "string \<Rightarrow> u32 \<Rightarrow> waiter \<Rightarrow> bool" where
  "waiter_matches nm h w \<longleftrightarrow> w_hash w = h \<and> w_name w = nm"

definition parked_matches :: "string \<Rightarrow> u32 \<Rightarrow> parked \<Rightarrow> bool" where
  "parked_matches nm h p \<longleftrightarrow> p_hash p = h \<and> p_name p = nm"

text \<open>
  The two collectors: the first stops after storing the entry that fills the batch (\<open>n\<close> counts the
  records already in it), the second tests the batch before each node.
\<close>

fun collect_name_waiters :: "string \<Rightarrow> u32 \<Rightarrow> nat \<Rightarrow> nat \<Rightarrow> waiter list \<Rightarrow> waiter list \<times> waiter list" where
  "collect_name_waiters nm h cap n [] = ([], [])"
| "collect_name_waiters nm h cap n (w # ws) =
     (if waiter_matches nm h w
      then if Suc n \<ge> cap then ([w], ws)
           else (case collect_name_waiters nm h cap (Suc n) ws of (b, rest) \<Rightarrow> (w # b, rest))
      else (case collect_name_waiters nm h cap n ws of (b, rest) \<Rightarrow> (b, w # rest)))"

definition collect_parked :: "string \<Rightarrow> u32 \<Rightarrow> nat \<Rightarrow> parked list \<Rightarrow> parked list \<times> parked list" where
  "collect_parked nm h cap ps = collect_records (parked_matches nm h) cap 0 ps"

definition registry_init :: registry where
  "registry_init = \<lparr>s_entries = [], s_waiters = [], s_parked = []\<rparr>"

text \<open>One round of \<^verbatim>\<open>drain_and_wake\<close>; the last component says that no batch was full.\<close>

definition wake_parked :: "(u32 \<Rightarrow> bool) \<Rightarrow> parked \<Rightarrow> reg_event list" where
  "wake_parked alive p = (if alive (p_tid p) then [Unblock (p_tid p)] else []) @ [Kfree p]"

definition drain_round ::
    "string \<Rightarrow> u32 \<Rightarrow> (u32 \<Rightarrow> bool) \<Rightarrow> registry \<Rightarrow> registry \<times> reg_event list \<times> bool" where
  "drain_round nm h alive r =
     (case collect_name_waiters nm h 16 0 (s_waiters r) of (wb, ws) \<Rightarrow>
      case collect_parked nm h 8 (s_parked r) of (pb, ps) \<Rightarrow>
        (r\<lparr>s_waiters := ws, s_parked := ps\<rparr>,
         map (\<lambda>w. WakeAll (w_wq w)) wb @ concat (map (wake_parked alive) pb),
         length wb < 16 \<and> length pb < 8))"

section \<open>Collectors\<close>

lemma collect_name_waiters_records:
  "n < cap \<Longrightarrow> collect_name_waiters nm h cap n ws = collect_records (waiter_matches nm h) cap n ws"
proof (induction ws arbitrary: n)
  case (Cons w ws)
  have full: "collect_records P cap m xs = ([], xs)" if "cap \<le> m" for P m and xs :: "waiter list"
    using that by (cases xs) auto
  from Cons show ?case by (auto simp: full split: prod.splits)
qed simp

lemma drain_round_lengths:
  assumes "drain_round nm h alive r = (r', ev, False)"
  shows "length (s_waiters r') + length (s_parked r') < length (s_waiters r) + length (s_parked r)"
proof -
  obtain wb ws pb ps where
    c: "collect_records (waiter_matches nm h) 16 0 (s_waiters r) = (wb, ws)"
       "collect_records (parked_matches nm h) 8 0 (s_parked r) = (pb, ps)" by (meson surj_pair)
  have "length ws + length wb = length (s_waiters r)" "length ps + length pb = length (s_parked r)"
    using collect_length [OF c(1)] collect_length [OF c(2)] by auto
  then show ?thesis using assms c
    by (auto simp: drain_round_def collect_name_waiters_records collect_parked_def)
qed

section \<open>Operations that drain\<close>

function drain_and_wake ::
    "string \<Rightarrow> u32 \<Rightarrow> (u32 \<Rightarrow> bool) \<Rightarrow> registry \<Rightarrow> registry \<times> reg_event list" where
  "drain_and_wake nm h alive r =
     (case drain_round nm h alive r of (r', ev, dry) \<Rightarrow>
        if dry then (r', ev)
        else (case drain_and_wake nm h alive r' of (r'', ev') \<Rightarrow> (r'', ev @ ev')))"
  by pat_completeness auto
termination
  by (relation "measure (\<lambda>(nm, h, alive, r). length (s_waiters r) + length (s_parked r))")
    (auto dest: drain_round_lengths [OF sym])

declare drain_and_wake.simps [simp del]

text \<open>
  \<^verbatim>\<open>registry_register\<close>: its part under the lock answers the code -1, -2, -3 or 0; at 0 the
  interested threads are drained.  \<open>live\<close> is \<^verbatim>\<open>process_get_by_pid(pid) != NULL\<close>.
\<close>

definition register_locked ::
    "(int \<Rightarrow> bool) \<Rightarrow> string \<Rightarrow> u32 \<Rightarrow> int \<Rightarrow> registry \<Rightarrow> registry \<times> int" where
  "register_locked live nm port_id owner_pid r =
     (let h = hash_name nm in
      case entry_find nm h r of
        Some i \<Rightarrow>
          let e = s_entries r ! i in
          if e_owner e \<noteq> owner_pid \<and> live (e_owner e) then (r, -3)
          else (r\<lparr>s_entries := (s_entries r)[i := e\<lparr>e_port := port_id, e_owner := owner_pid\<rparr>]\<rparr>, 0)
      | None \<Rightarrow>
          (case entry_alloc r of
             (r1, None) \<Rightarrow> (r1, -2)
           | (r1, Some i) \<Rightarrow>
               (r1\<lparr>s_entries := (s_entries r1)[i := \<lparr>e_name = strlcpy_name nm, e_hash = h,
                    e_port = port_id, e_owner = owner_pid, e_active = True\<rparr>]\<rparr>, 0)))"

definition registry_register ::
    "(int \<Rightarrow> bool) \<Rightarrow> (u32 \<Rightarrow> bool) \<Rightarrow> string option \<Rightarrow> u32 \<Rightarrow> int \<Rightarrow> registry
     \<Rightarrow> registry \<times> reg_event list \<times> int" where
  "registry_register live alive name port_id owner_pid r =
     (case name of
        None \<Rightarrow> (r, [], -1)
      | Some nm \<Rightarrow>
          if nm = [] then (r, [], -1)
          else (case register_locked live nm port_id owner_pid r of (r1, rc) \<Rightarrow>
            if rc \<noteq> 0 then (r1, [], rc)
            else (case drain_and_wake nm (hash_name nm) alive r1 of (r2, ev) \<Rightarrow> (r2, ev, 0))))"

definition registry_unregister :: "string option \<Rightarrow> int \<Rightarrow> registry \<Rightarrow> registry" where
  "registry_unregister name owner_pid r =
     (case name of
        None \<Rightarrow> r
      | Some nm \<Rightarrow>
          (case entry_find nm (hash_name nm) r of
             None \<Rightarrow> r
           | Some i \<Rightarrow>
               let e = s_entries r ! i in
               if e_owner e = owner_pid
               then r\<lparr>s_entries := (s_entries r)[i := e\<lparr>e_active := False\<rparr>]\<rparr>
               else r))"

definition found_port :: "string \<Rightarrow> registry \<Rightarrow> u32" where
  "found_port nm r =
     (case entry_find nm (hash_name nm) r of None \<Rightarrow> 0 | Some i \<Rightarrow> e_port (s_entries r ! i))"

definition registry_find :: "string option \<Rightarrow> registry \<Rightarrow> u32" where
  "registry_find name r = (case name of None \<Rightarrow> 0 | Some nm \<Rightarrow> found_port nm r)"

text \<open>
  \<^verbatim>\<open>registry_wait\<close> up to the point where the thread sleeps: \<open>Inl\<close> is a port returned at once,
  \<open>Inr\<close> the registry with the waiter hung on its list.  \<open>registry_wait_end\<close> is what it does when
  it runs again; \<open>wq\<close> is its own wait queue.
\<close>

definition registry_wait_begin :: "string option \<Rightarrow> nat \<Rightarrow> registry \<Rightarrow> u32 + registry" where
  "registry_wait_begin name wq r =
     (case name of
        None \<Rightarrow> Inl 0
      | Some nm \<Rightarrow>
          (case entry_find nm (hash_name nm) r of
             Some i \<Rightarrow> Inl (e_port (s_entries r ! i))
           | None \<Rightarrow> Inr (r\<lparr>s_waiters :=
               s_waiters r @ [\<lparr>w_name = nm, w_hash = hash_name nm, w_wq = wq\<rparr>]\<rparr>)))"

definition registry_wait_end :: "string \<Rightarrow> nat \<Rightarrow> registry \<Rightarrow> registry \<times> u32" where
  "registry_wait_end nm wq r =
     (let r1 = (if \<exists>w \<in> set (s_waiters r). w_wq w = wq
                then r\<lparr>s_waiters := filter (\<lambda>w. w_wq w \<noteq> wq) (s_waiters r)\<rparr> else r)
      in (r1, found_port nm r1))"

text \<open>
  \<open>t\<close> is the thread: its tid and the pid of its owner, if it has one.  \<open>mem_ok\<close> is the outcome
  of \<^verbatim>\<open>kmalloc\<close>; the record allocated for nothing is released again, which leaves no trace.
\<close>

definition registry_park_or_start ::
    "string option \<Rightarrow> (u32 \<times> int option) option \<Rightarrow> bool \<Rightarrow> registry \<Rightarrow> registry \<times> reg_event list" where
  "registry_park_or_start need_name t mem_ok r =
     (case t of
        None \<Rightarrow> (r, [])
      | Some (tid, owner) \<Rightarrow>
          (case need_name of
             None \<Rightarrow> (r, [Unblock tid])
           | Some nm \<Rightarrow>
               if nm = [] then (r, [Unblock tid])
               else if entry_find nm (hash_name nm) r \<noteq> None \<or> \<not> mem_ok then (r, [Unblock tid])
               else (r\<lparr>s_parked := s_parked r @ [\<lparr>p_name = strlcpy_name nm, p_hash = hash_name nm,
                       p_tid = tid, p_owner = (case owner of None \<Rightarrow> -1 | Some pid \<Rightarrow> pid)\<rparr>]\<rparr>, [])))"

text \<open>\<^verbatim>\<open>registry_cleanup_owner\<close>, first loop: the parked records of the dead process.\<close>

function cleanup_parked :: "int \<Rightarrow> parked list \<Rightarrow> parked list \<times> reg_event list" where
  "cleanup_parked owner_pid ps =
     (case collect_records (\<lambda>p. p_owner p = owner_pid) 8 0 ps of (dead, rest) \<Rightarrow>
        if length dead < 8 then (rest, map Kfree dead)
        else (case cleanup_parked owner_pid rest of (rest', ev) \<Rightarrow> (rest', map Kfree dead @ ev)))"
  by pat_completeness auto
termination
  by (relation "measure (\<lambda>(pid, ps). length ps)") (auto dest: full_batch_less [OF sym])

text \<open>Its innermost loop: the waiters of one name, in batches.\<close>

function cleanup_waiters :: "string \<Rightarrow> u32 \<Rightarrow> waiter list \<Rightarrow> waiter list \<times> reg_event list" where
  "cleanup_waiters nm h ws =
     (case collect_name_waiters nm h 16 0 ws of (wb, rest) \<Rightarrow>
        if length wb < 16 then (rest, map (\<lambda>w. WakeAll (w_wq w)) wb)
        else (case cleanup_waiters nm h rest of (rest', ev) \<Rightarrow>
          (rest', map (\<lambda>w. WakeAll (w_wq w)) wb @ ev)))"
  by pat_completeness auto
termination
  by (relation "measure (\<lambda>(nm, h, ws). length ws)")
    (auto simp: collect_name_waiters_records dest: full_batch_less [OF sym])

declare cleanup_parked.simps [simp del] cleanup_waiters.simps [simp del]

definition owned_by :: "int \<Rightarrow> entry \<Rightarrow> bool" where
  "owned_by pid e \<longleftrightarrow> e_active e \<and> e_owner e = pid"

lemma first_index_None: "first_index P i es = None \<longleftrightarrow> (\<forall>e \<in> set es. \<not> P e)"
  by (induction es arbitrary: i) auto

lemma first_index_Suc: "first_index P (Suc i) es = map_option Suc (first_index P i es)"
  by (induction es arbitrary: i) auto

lemma first_index_0 [dest]:
  "first_index P 0 es = Some j \<Longrightarrow> j < length es \<and> P (es ! j) \<and> (\<forall>k < j. \<not> P (es ! k))"
proof (induction es arbitrary: j)
  case (Cons e es)
  show ?case
  proof (cases "P e")
    case False
    with Cons.prems obtain k where "first_index P 0 es = Some k" "j = Suc k"
      by (auto simp: first_index_Suc)
    with Cons.IH False show ?thesis by (auto simp: less_Suc_eq_0_disj)
  qed (use Cons in auto)
qed simp

lemma length_filter_update_less:
  "i < length xs \<Longrightarrow> P (xs ! i) \<Longrightarrow> \<not> P y \<Longrightarrow> length (filter P (xs[i := y])) < length (filter P xs)"
proof (induction xs arbitrary: i)
  case (Cons x xs)
  then show ?case by (cases i) auto
qed simp

text \<open>Its second loop: one entry of the dead process after the other.\<close>

function cleanup_entries :: "int \<Rightarrow> registry \<Rightarrow> registry \<times> reg_event list" where
  "cleanup_entries owner_pid r =
     (case first_index (owned_by owner_pid) 0 (s_entries r) of
        None \<Rightarrow> (r, [])
      | Some i \<Rightarrow>
          let e = s_entries r ! i;
              nm = strlcpy_name (e_name e);
              (ws, ev) = cleanup_waiters nm (e_hash e) (s_waiters r);
              (r', ev') = cleanup_entries owner_pid
                (r\<lparr>s_entries := (s_entries r)[i := e\<lparr>e_active := False\<rparr>], s_waiters := ws\<rparr>)
          in (r', ev @ ev'))"
  by pat_completeness auto
termination
  by (relation "measure (\<lambda>(pid, r). length (filter (owned_by pid) (s_entries r)))")
    (auto simp: owned_by_def intro!: length_filter_update_less)

declare cleanup_entries.simps [simp del]

definition registry_cleanup_owner :: "int \<Rightarrow> registry \<Rightarrow> registry \<times> reg_event list" where
  "registry_cleanup_owner owner_pid r =
     (case cleanup_parked owner_pid (s_parked r) of (ps, ev1) \<Rightarrow>
      case cleanup_entries owner_pid (r\<lparr>s_parked := ps\<rparr>) of (r', ev2) \<Rightarrow> (r', ev1 @ ev2))"

section \<open>The table as a map\<close>

definition active_at :: "registry \<Rightarrow> nat \<Rightarrow> bool" where
  "active_at r i \<longleftrightarrow> i < length (s_entries r) \<and> e_active (s_entries r ! i)"

text \<open>
  The table invariant: the count is in range, every active entry carries the hash of its name,
  that name fits the field, and no two active entries share a name.
\<close>

definition table_inv :: "registry \<Rightarrow> bool" where
  "table_inv r \<longleftrightarrow> length (s_entries r) \<le> REGISTRY_MAX \<and>
     (\<forall>i. active_at r i \<longrightarrow> e_hash (s_entries r ! i) = hash_name (e_name (s_entries r ! i)) \<and>
        length (e_name (s_entries r ! i)) < REGISTRY_NAME_MAX) \<and>
     (\<forall>i j. active_at r i \<longrightarrow> active_at r j \<longrightarrow> e_name (s_entries r ! i) = e_name (s_entries r ! j) \<longrightarrow> i = j)"

definition reg_lookup :: "registry \<Rightarrow> string \<rightharpoonup> u32 \<times> int" where
  "reg_lookup r nm = map_option (\<lambda>i. (e_port (s_entries r ! i), e_owner (s_entries r ! i)))
     (entry_find nm (hash_name nm) r)"

lemma entry_find_iff:
  assumes "table_inv r"
  shows "entry_find nm (hash_name nm) r = Some i \<longleftrightarrow> active_at r i \<and> e_name (s_entries r ! i) = nm"
proof
  assume "entry_find nm (hash_name nm) r = Some i"
  then show "active_at r i \<and> e_name (s_entries r ! i) = nm"
    by (auto simp: entry_find_def entry_matches_def active_at_def)
next
  assume act: "active_at r i \<and> e_name (s_entries r ! i) = nm"
  then have "entry_matches nm (hash_name nm) (s_entries r ! i)"
    using assms by (auto simp: table_inv_def entry_matches_def active_at_def)
  then obtain j where j: "entry_find nm (hash_name nm) r = Some j"
    using act first_index_None [of "entry_matches nm (hash_name nm)" 0 "s_entries r"]
    by (cases "entry_find nm (hash_name nm) r") (auto simp: entry_find_def active_at_def)
  then have "active_at r j \<and> e_name (s_entries r ! j) = nm"
    by (auto simp: entry_find_def entry_matches_def active_at_def)
  with act assms have "i = j" by (auto simp: table_inv_def)
  with j show "entry_find nm (hash_name nm) r = Some i" by simp
qed

lemma reg_lookup_iff:
  assumes "table_inv r"
  shows "reg_lookup r nm = Some po \<longleftrightarrow>
    (\<exists>i. active_at r i \<and> e_name (s_entries r ! i) = nm \<and>
       po = (e_port (s_entries r ! i), e_owner (s_entries r ! i)))"
  using entry_find_iff [OF assms] by (auto simp: reg_lookup_def)

lemma entry_find_None:
  assumes "table_inv r"
  shows "entry_find nm (hash_name nm) r = None \<longleftrightarrow> (\<forall>i. active_at r i \<longrightarrow> e_name (s_entries r ! i) \<noteq> nm)"
  using entry_find_iff [OF assms, of nm] by (cases "entry_find nm (hash_name nm) r") auto

lemma found_port_lookup: "found_port nm r = (case reg_lookup r nm of None \<Rightarrow> 0 | Some (p, _) \<Rightarrow> p)"
  by (simp add: found_port_def reg_lookup_def split: option.splits)

text \<open>Entry \<open>i\<close> is overwritten: the common core of registration, re-registration and removal.\<close>

lemma active_at_update:
  "i < length (s_entries r) \<Longrightarrow>
   active_at (r\<lparr>s_entries := (s_entries r)[i := e]\<rparr>) j \<longleftrightarrow> (if j = i then e_active e else active_at r j)"
  by (auto simp: active_at_def)

lemma ex_updated:
  "(\<exists>j. (if j = i then a else B j) \<and> Q (if j = i then x else y j)) \<longleftrightarrow>
   a \<and> Q x \<or> (\<exists>j. j \<noteq> i \<and> B j \<and> Q (y j))"
proof
  assume "\<exists>j. (if j = i then a else B j) \<and> Q (if j = i then x else y j)"
  then obtain j where "(if j = i then a else B j) \<and> Q (if j = i then x else y j)" ..
  then show "a \<and> Q x \<or> (\<exists>j. j \<noteq> i \<and> B j \<and> Q (y j))" by (cases "j = i") auto
next
  assume "a \<and> Q x \<or> (\<exists>j. j \<noteq> i \<and> B j \<and> Q (y j))"
  then show "\<exists>j. (if j = i then a else B j) \<and> Q (if j = i then x else y j)" by auto
qed

lemma set_entry:
  assumes "table_inv r" and i: "i < length (s_entries r)"
    and hash: "e_active e \<Longrightarrow> e_hash e = hash_name (e_name e) \<and> length (e_name e) < REGISTRY_NAME_MAX"
    and fresh: "\<And>j. e_active e \<Longrightarrow> active_at r j \<Longrightarrow> e_name (s_entries r ! j) = e_name e \<Longrightarrow> j = i"
  defines "r' \<equiv> r\<lparr>s_entries := (s_entries r)[i := e]\<rparr>"
  shows set_entry_inv: "table_inv r'"
    and set_entry_lookup: "reg_lookup r' nm =
      (if e_active e \<and> e_name e = nm then Some (e_port e, e_owner e)
       else if e_active (s_entries r ! i) \<and> e_name (s_entries r ! i) = nm then None
       else reg_lookup r nm)"
proof -
  have nth: "s_entries r' ! j = (if j = i then e else s_entries r ! j)" for j
    using i by (simp add: r'_def)
  have act: "active_at r' j \<longleftrightarrow> (if j = i then e_active e else active_at r j)" for j
    unfolding r'_def by (rule active_at_update [OF i])
  have uniq: "j = k" if "active_at r' j" "active_at r' k" "e_name (s_entries r' ! j) = e_name (s_entries r' ! k)" for j k
  proof (cases "j = i \<or> k = i")
    case True
    then show ?thesis using that fresh [of j] fresh [of k] unfolding nth act by (metis (full_types))
  next
    case False
    then show ?thesis using that assms(1) by (simp add: nth act table_inv_def)
  qed
  have "e_hash (s_entries r' ! j) = hash_name (e_name (s_entries r' ! j)) \<and>
      length (e_name (s_entries r' ! j)) < REGISTRY_NAME_MAX" if "active_at r' j" for j
    using that assms(1) hash by (auto simp: nth act table_inv_def split: if_splits)
  moreover have "length (s_entries r') \<le> REGISTRY_MAX" using assms(1) by (simp add: table_inv_def r'_def)
  ultimately show inv': "table_inv r'" using uniq by (auto simp: table_inv_def)
  let ?po = "\<lambda>j. (e_port (s_entries r ! j), e_owner (s_entries r ! j))"
  have split: "reg_lookup r' nm = Some po \<longleftrightarrow> (e_active e \<and> e_name e = nm \<and> po = (e_port e, e_owner e)) \<or>
      (\<exists>j. j \<noteq> i \<and> active_at r j \<and> e_name (s_entries r ! j) = nm \<and> po = ?po j)" for po
    unfolding reg_lookup_iff [OF inv'] nth act
    by (rule ex_updated [where Q = "\<lambda>x. e_name x = nm \<and> po = (e_port x, e_owner x)"])
  have old: "reg_lookup r nm = Some po \<longleftrightarrow> (\<exists>j. active_at r j \<and> e_name (s_entries r ! j) = nm \<and> po = ?po j)" for po
    by (rule reg_lookup_iff [OF assms(1)])
  have acti: "active_at r i \<longleftrightarrow> e_active (s_entries r ! i)" using i by (simp add: active_at_def)
  have uni: "j = i" if "active_at r j" "active_at r i" "e_name (s_entries r ! j) = e_name (s_entries r ! i)" for j
    using that assms(1) by (auto simp: table_inv_def)
  have iff: "reg_lookup r' nm = Some po \<longleftrightarrow>
      (if e_active e \<and> e_name e = nm then po = (e_port e, e_owner e)
       else if e_active (s_entries r ! i) \<and> e_name (s_entries r ! i) = nm then False
       else reg_lookup r nm = Some po)" for po
  proof (cases "e_active e \<and> e_name e = nm")
    case True
    then show ?thesis unfolding split using fresh by auto
  next
    case False
    then show ?thesis unfolding split old acti [symmetric] using uni by auto
  qed
  show "reg_lookup r' nm = (if e_active e \<and> e_name e = nm then Some (e_port e, e_owner e)
       else if e_active (s_entries r ! i) \<and> e_name (s_entries r ! i) = nm then None
       else reg_lookup r nm)"
    by (rule option_eqI) (auto simp: iff)
qed

lemma grow_entry:
  assumes "table_inv r" and "length (s_entries r) < REGISTRY_MAX"
  defines "r' \<equiv> r\<lparr>s_entries := s_entries r @ [blank_entry]\<rparr>"
  shows grow_entry_inv: "table_inv r'" and grow_entry_lookup: "reg_lookup r' nm = reg_lookup r nm"
    and grow_entry_active: "active_at r' j = active_at r j"
proof -
  have act: "active_at r' j = active_at r j" for j
    by (auto simp: r'_def active_at_def nth_append blank_entry_def)
  have nth: "s_entries r' ! j = s_entries r ! j" if "active_at r j" for j
    using that by (simp add: r'_def active_at_def nth_append)
  show inv': "table_inv r'"
    using assms(1,2) nth by (auto simp: table_inv_def act) (auto simp: r'_def)
  have "reg_lookup r' nm = Some po \<longleftrightarrow> reg_lookup r nm = Some po" for po
    using nth by (auto simp: reg_lookup_iff [OF inv'] reg_lookup_iff [OF assms(1)] act)
  then show "reg_lookup r' nm = reg_lookup r nm" by (rule option_eqI)
  show "active_at r' j = active_at r j" by (rule act)
qed

text \<open>Only the table matters to the map and its invariant.\<close>

lemma table_inv_lists [simp]:
  "table_inv (r\<lparr>s_waiters := ws\<rparr>) = table_inv r" "table_inv (r\<lparr>s_parked := ps\<rparr>) = table_inv r"
  by (simp_all add: table_inv_def active_at_def)

lemma entry_find_lists [simp]:
  "entry_find nm h (r\<lparr>s_waiters := ws\<rparr>) = entry_find nm h r"
  "entry_find nm h (r\<lparr>s_parked := ps\<rparr>) = entry_find nm h r"
  by (simp_all add: entry_find_def)

lemma reg_lookup_lists [simp]:
  "reg_lookup (r\<lparr>s_waiters := ws\<rparr>) = reg_lookup r" "reg_lookup (r\<lparr>s_parked := ps\<rparr>) = reg_lookup r"
  by (simp_all add: reg_lookup_def fun_eq_iff)

section \<open>Draining\<close>

text \<open>What a drain of one name must do to the two lists, and the wake-ups it owes.\<close>

definition drained :: "string \<Rightarrow> registry \<Rightarrow> registry" where
  "drained nm r = r\<lparr>s_waiters := filter (\<lambda>w. \<not> waiter_matches nm (hash_name nm) w) (s_waiters r),
     s_parked := filter (\<lambda>p. \<not> parked_matches nm (hash_name nm) p) (s_parked r)\<rparr>"

definition drain_events :: "(u32 \<Rightarrow> bool) \<Rightarrow> string \<Rightarrow> registry \<Rightarrow> reg_event multiset" where
  "drain_events alive nm r =
     mset (map (\<lambda>w. WakeAll (w_wq w)) (filter (waiter_matches nm (hash_name nm)) (s_waiters r))) +
     mset (concat (map (wake_parked alive) (filter (parked_matches nm (hash_name nm)) (s_parked r))))"

lemma drain_round_cases:
  assumes "drain_round nm (hash_name nm) alive r = (r', ev, dry)"
  shows "drained nm r' = drained nm r" and "mset ev + drain_events alive nm r' = drain_events alive nm r"
    and "dry \<Longrightarrow> r' = drained nm r \<and> mset ev = drain_events alive nm r"
    and "s_entries r' = s_entries r"
    and "set (s_waiters r') \<subseteq> set (s_waiters r)" and "set (s_parked r') \<subseteq> set (s_parked r)"
proof -
  let ?h = "hash_name nm"
  obtain wb ws pb ps where
    c: "collect_records (waiter_matches nm ?h) 16 0 (s_waiters r) = (wb, ws)"
       "collect_records (parked_matches nm ?h) 8 0 (s_parked r) = (pb, ps)" by (meson surj_pair)
  from assms c have r': "r' = r\<lparr>s_waiters := ws, s_parked := ps\<rparr>"
    and ev: "ev = map (\<lambda>w. WakeAll (w_wq w)) wb @ concat (map (wake_parked alive) pb)"
    and dry: "dry \<longleftrightarrow> length wb < 16 \<and> length pb < 8"
    by (simp_all add: drain_round_def collect_name_waiters_records collect_parked_def)
  note w = collect_filter [OF c(1)] collect_others [OF c(1)]
  note p = collect_filter [OF c(2)] collect_others [OF c(2)]
  show "drained nm r' = drained nm r" using w(2) p(2) by (simp add: drained_def r')
  show "mset ev + drain_events alive nm r' = drain_events alive nm r"
    using w(1) p(1) by (simp add: drain_events_def r' ev)
  show "r' = drained nm r \<and> mset ev = drain_events alive nm r" if dry
    using that collect_dry [OF c(1)] collect_dry [OF c(2)] by (simp add: dry drained_def drain_events_def r' ev)
  show "s_entries r' = s_entries r" by (simp add: r')
  show "set (s_waiters r') \<subseteq> set (s_waiters r)" using collect_rest_subset [OF c(1)] by (simp add: r')
  show "set (s_parked r') \<subseteq> set (s_parked r)" using collect_rest_subset [OF c(2)] by (simp add: r')
qed

lemma drain_and_wake_spec:
  "drain_and_wake nm h alive r = (r', ev) \<Longrightarrow> h = hash_name nm \<Longrightarrow>
   r' = drained nm r \<and> mset ev = drain_events alive nm r"
proof (induction nm h alive r arbitrary: r' ev rule: drain_and_wake.induct)
  case (1 nm h alive r)
  obtain r1 ev1 dry where round: "drain_round nm (hash_name nm) alive r = (r1, ev1, dry)" by (metis prod_cases3)
  note facts = drain_round_cases [OF round]
  show ?case
  proof (cases dry)
    case True
    with "1.prems" round facts(3) show ?thesis by (simp add: drain_and_wake.simps [of nm])
  next
    case False
    obtain r2 ev2 where rec: "drain_and_wake nm h alive r1 = (r2, ev2)" by (meson surj_pair)
    with "1.prems" round False have eq: "r' = r2" "ev = ev1 @ ev2"
      by (simp_all add: drain_and_wake.simps [of nm _ alive r])
    have "r2 = drained nm r1 \<and> mset ev2 = drain_events alive nm r1"
      using "1.IH" [OF _ _ _ rec] round False "1.prems" by simp
    with facts(1,2) eq show ?thesis by simp
  qed
qed

lemma cleanup_waiters_spec:
  "cleanup_waiters nm h ws = (ws', ev) \<Longrightarrow>
   ws' = filter (\<lambda>w. \<not> waiter_matches nm h w) ws \<and>
   ev = map (\<lambda>w. WakeAll (w_wq w)) (filter (waiter_matches nm h) ws)"
proof (induction nm h ws arbitrary: ws' ev rule: cleanup_waiters.induct)
  case (1 nm h ws)
  obtain wb rest where c: "collect_records (waiter_matches nm h) 16 0 ws = (wb, rest)" by (meson surj_pair)
  obtain ws2 ev2 where rec: "cleanup_waiters nm h rest = (ws2, ev2)" by (meson surj_pair)
  show ?case
  proof (cases "length wb < 16")
    case True
    with "1.prems" collect_dry [OF c] c show ?thesis
      by (simp add: cleanup_waiters.simps [of nm h ws] collect_name_waiters_records)
  next
    case False
    with "1.prems" c rec have "ws' = ws2" "ev = map (\<lambda>w. WakeAll (w_wq w)) wb @ ev2"
      by (simp_all add: cleanup_waiters.simps [of nm h ws] collect_name_waiters_records)
    moreover have "ws2 = filter (\<lambda>w. \<not> waiter_matches nm h w) rest \<and>
        ev2 = map (\<lambda>w. WakeAll (w_wq w)) (filter (waiter_matches nm h) rest)"
      using "1.IH" [OF _ _ rec] c False by (simp add: collect_name_waiters_records)
    ultimately show ?thesis using collect_filter [OF c] collect_others [OF c] by simp
  qed
qed

lemma cleanup_parked_spec:
  "cleanup_parked pid ps = (ps', ev) \<Longrightarrow>
   ps' = filter (\<lambda>p. p_owner p \<noteq> pid) ps \<and> ev = map Kfree (filter (\<lambda>p. p_owner p = pid) ps)"
proof (induction pid ps arbitrary: ps' ev rule: cleanup_parked.induct)
  case (1 pid ps)
  obtain b rest where c: "collect_records (\<lambda>p. p_owner p = pid) 8 0 ps = (b, rest)" by (meson surj_pair)
  obtain ps2 ev2 where rec: "cleanup_parked pid rest = (ps2, ev2)" by (meson surj_pair)
  show ?case
  proof (cases "length b < 8")
    case True
    with "1.prems" collect_dry [OF c] c show ?thesis by (simp add: cleanup_parked.simps [of pid ps])
  next
    case False
    with "1.prems" c rec have "ps' = ps2" "ev = map Kfree b @ ev2"
      by (simp_all add: cleanup_parked.simps [of pid ps])
    moreover have "ps2 = filter (\<lambda>p. p_owner p \<noteq> pid) rest \<and> ev2 = map Kfree (filter (\<lambda>p. p_owner p = pid) rest)"
      using "1.IH" [OF _ _ rec] c False by simp
    ultimately show ?thesis using collect_filter [OF c] collect_others [OF c] by simp
  qed
qed

section \<open>Behaviour of the operations\<close>

definition lists_inv :: "registry \<Rightarrow> bool" where
  "lists_inv r \<longleftrightarrow> (\<forall>w \<in> set (s_waiters r). w_hash w = hash_name (w_name w)) \<and>
     (\<forall>p \<in> set (s_parked r). p_hash p = hash_name (p_name p))"

definition reg_inv :: "registry \<Rightarrow> bool" where
  "reg_inv r \<longleftrightarrow> table_inv r \<and> lists_inv r"

definition held_by_other :: "(int \<Rightarrow> bool) \<Rightarrow> string \<Rightarrow> int \<Rightarrow> registry \<Rightarrow> bool" where
  "held_by_other live nm pid r \<longleftrightarrow> (\<exists>p own. reg_lookup r nm = Some (p, own) \<and> own \<noteq> pid \<and> live own)"

definition table_full :: "registry \<Rightarrow> bool" where
  "table_full r \<longleftrightarrow> (\<forall>i < REGISTRY_MAX. active_at r i)"

lemma strlcpy_name_id: "length nm < REGISTRY_NAME_MAX \<Longrightarrow> strlcpy_name nm = nm"
  by (simp add: strlcpy_name_def REGISTRY_NAME_MAX_def)

lemma entry_alloc_cases:
  assumes "table_inv r"
  obtains (slot) r1 i where "entry_alloc r = (r1, Some i)" "table_inv r1" "i < length (s_entries r1)"
      "\<not> e_active (s_entries r1 ! i)" "\<And>nm. reg_lookup r1 nm = reg_lookup r nm"
      "s_waiters r1 = s_waiters r" "s_parked r1 = s_parked r" "\<not> table_full r"
  | (full) "entry_alloc r = (r, None)" "table_full r"
proof (cases "first_index (\<lambda>e. \<not> e_active e) 0 (s_entries r)")
  case (Some i)
  then have "i < length (s_entries r)" "\<not> e_active (s_entries r ! i)" by auto
  moreover from this have "\<not> table_full r"
    using assms by (auto simp: table_full_def active_at_def table_inv_def intro!: exI [of _ i])
  ultimately show thesis using Some assms by (intro slot [of r i]) (simp_all add: entry_alloc_def)
next
  case None
  then have all: "active_at r i" if "i < length (s_entries r)" for i
    using that by (auto simp: first_index_None active_at_def)
  show thesis
  proof (cases "length (s_entries r) < REGISTRY_MAX")
    case True
    let ?r1 = "r\<lparr>s_entries := s_entries r @ [blank_entry]\<rparr>"
    have "\<not> table_full r" using True by (auto simp: table_full_def active_at_def)
    moreover have "entry_alloc r = (?r1, Some (length (s_entries r)))" using None True by (simp add: entry_alloc_def)
    ultimately show thesis
      using grow_entry_inv [OF assms True] grow_entry_lookup [OF assms True]
      by (intro slot [of ?r1 "length (s_entries r)"]) (simp_all add: blank_entry_def)
  next
    case False
    then have "table_full r" using all assms by (simp add: table_full_def table_inv_def)
    with None False show thesis by (intro full) (simp_all add: entry_alloc_def)
  qed
qed

lemma register_locked_cases:
  assumes inv: "table_inv r" and len: "length nm < REGISTRY_NAME_MAX"
  obtains (held) "held_by_other live nm pid r" "register_locked live nm port pid r = (r, -3)"
  | (full) "reg_lookup r nm = None" "table_full r" "register_locked live nm port pid r = (r, -2)"
  | (ok) r' where "\<not> held_by_other live nm pid r" "reg_lookup r nm = None \<Longrightarrow> \<not> table_full r"
      "register_locked live nm port pid r = (r', 0)" "table_inv r'"
      "reg_lookup r' = (reg_lookup r)(nm \<mapsto> (port, pid))"
      "s_waiters r' = s_waiters r" "s_parked r' = s_parked r"
proof (cases "entry_find nm (hash_name nm) r")
  case (Some i)
  let ?e = "s_entries r ! i"
  have i: "i < length (s_entries r)" "e_active ?e" "e_name ?e = nm"
    using Some entry_find_iff [OF inv] by (auto simp: active_at_def)
  have lk: "reg_lookup r nm = Some (e_port ?e, e_owner ?e)" using Some by (simp add: reg_lookup_def)
  show thesis
  proof (cases "e_owner ?e \<noteq> pid \<and> live (e_owner ?e)")
    case True
    with lk Some show thesis by (intro held) (simp_all add: held_by_other_def register_locked_def Let_def)
  next
    case False
    let ?e' = "?e\<lparr>e_port := port, e_owner := pid\<rparr>"
    let ?r' = "r\<lparr>s_entries := (s_entries r)[i := ?e']\<rparr>"
    have h: "e_active ?e' \<Longrightarrow> e_hash ?e' = hash_name (e_name ?e') \<and> length (e_name ?e') < REGISTRY_NAME_MAX"
      and f: "\<And>j. e_active ?e' \<Longrightarrow> active_at r j \<Longrightarrow> e_name (s_entries r ! j) = e_name ?e' \<Longrightarrow> j = i"
      using inv i by (auto simp: table_inv_def active_at_def)
    have "reg_lookup ?r' = (reg_lookup r)(nm \<mapsto> (port, pid))"
      using set_entry_lookup [OF inv i(1) h f] i by (auto simp: fun_eq_iff)
    then show thesis
      using False Some lk set_entry_inv [OF inv i(1) h f]
      by (intro ok [of ?r']) (simp_all add: held_by_other_def register_locked_def Let_def)
  qed
next
  case None
  have lk: "reg_lookup r nm = None" using None by (simp add: reg_lookup_def)
  from inv show thesis
  proof (cases rule: entry_alloc_cases)
    case full
    with None lk show thesis
      by (intro that(2)) (simp_all add: register_locked_def Let_def)
  next
    case (slot r1 i)
    let ?e = "\<lparr>e_name = nm, e_hash = hash_name nm, e_port = port, e_owner = pid, e_active = True\<rparr>"
    let ?r' = "r1\<lparr>s_entries := (s_entries r1)[i := ?e]\<rparr>"
    have lk1: "reg_lookup r1 nm = None" using slot lk by simp
    have h: "e_active ?e \<Longrightarrow> e_hash ?e = hash_name (e_name ?e) \<and> length (e_name ?e) < REGISTRY_NAME_MAX"
      using len by simp
    have f: "j = i" if "active_at r1 j" "e_name (s_entries r1 ! j) = e_name ?e" for j
      using that lk1 reg_lookup_iff [OF slot(2), of nm] by auto
    have "reg_lookup ?r' = (reg_lookup r)(nm \<mapsto> (port, pid))"
      using set_entry_lookup [OF slot(2,3) h f] slot by (auto simp: fun_eq_iff)
    then show thesis
      using slot None lk set_entry_inv [OF slot(2,3) h f]
      by (intro ok [of ?r'])
        (simp_all add: held_by_other_def register_locked_def Let_def strlcpy_name_id [OF len])
  qed
qed

lemma unregister_spec:
  assumes inv: "table_inv r"
  shows "table_inv (registry_unregister (Some nm) pid r)"
    and "reg_lookup (registry_unregister (Some nm) pid r) =
      (if \<exists>p. reg_lookup r nm = Some (p, pid) then (reg_lookup r)(nm := None) else reg_lookup r)"
proof -
  have "table_inv (registry_unregister (Some nm) pid r) \<and>
    reg_lookup (registry_unregister (Some nm) pid r) =
      (if \<exists>p. reg_lookup r nm = Some (p, pid) then (reg_lookup r)(nm := None) else reg_lookup r)"
  proof (cases "entry_find nm (hash_name nm) r")
    case None
    with inv show ?thesis by (simp add: registry_unregister_def reg_lookup_def)
  next
    case (Some i)
    let ?e = "s_entries r ! i"
    let ?e' = "?e\<lparr>e_active := False\<rparr>"
    have i: "i < length (s_entries r)" "e_active ?e" "e_name ?e = nm"
      using Some entry_find_iff [OF inv] by (auto simp: active_at_def)
    have lk: "reg_lookup r nm = Some (e_port ?e, e_owner ?e)" using Some by (simp add: reg_lookup_def)
    have "reg_lookup (r\<lparr>s_entries := (s_entries r)[i := ?e']\<rparr>) = (reg_lookup r)(nm := None)"
      using set_entry_lookup [OF inv i(1), of ?e'] i by (auto simp: fun_eq_iff)
    then show ?thesis
      using Some inv lk set_entry_inv [OF inv i(1), of ?e'] by (auto simp: registry_unregister_def Let_def)
  qed
  then show "table_inv (registry_unregister (Some nm) pid r)"
    and "reg_lookup (registry_unregister (Some nm) pid r) =
      (if \<exists>p. reg_lookup r nm = Some (p, pid) then (reg_lookup r)(nm := None) else reg_lookup r)" by auto
qed

subsection \<open>Clean-up of a dead process\<close>

definition without_owner :: "int \<Rightarrow> (string \<rightharpoonup> u32 \<times> int) \<Rightarrow> (string \<rightharpoonup> u32 \<times> int)" where
  "without_owner pid m nm = (case m nm of None \<Rightarrow> None
     | Some (p, own) \<Rightarrow> if own = pid then None else Some (p, own))"

definition name_owned :: "int \<Rightarrow> registry \<Rightarrow> string \<Rightarrow> bool" where
  "name_owned pid r nm \<longleftrightarrow> (\<exists>p. reg_lookup r nm = Some (p, pid))"

lemma waiter_matches_name:
  "lists_inv r \<Longrightarrow> w \<in> set (s_waiters r) \<Longrightarrow> waiter_matches nm (hash_name nm) w \<longleftrightarrow> w_name w = nm"
  by (auto simp: lists_inv_def waiter_matches_def)

lemma parked_matches_name:
  "lists_inv r \<Longrightarrow> p \<in> set (s_parked r) \<Longrightarrow> parked_matches nm (hash_name nm) p \<longleftrightarrow> p_name p = nm"
  by (auto simp: lists_inv_def parked_matches_def)

lemma deactivate_entry:
  assumes inv: "table_inv r" and i: "i < length (s_entries r)" "e_active (s_entries r ! i)"
  defines "r' \<equiv> r\<lparr>s_entries := (s_entries r)[i := (s_entries r ! i)\<lparr>e_active := False\<rparr>]\<rparr>"
  shows "table_inv r'" and "reg_lookup r' = (reg_lookup r)(e_name (s_entries r ! i) := None)"
    and "reg_lookup r (e_name (s_entries r ! i)) = Some (e_port (s_entries r ! i), e_owner (s_entries r ! i))"
proof -
  let ?e' = "(s_entries r ! i)\<lparr>e_active := False\<rparr>"
  show "table_inv r'" using set_entry_inv [OF inv i(1), of ?e'] by (simp add: r'_def)
  show "reg_lookup r' = (reg_lookup r)(e_name (s_entries r ! i) := None)"
    using set_entry_lookup [OF inv i(1), of ?e'] i by (auto simp: fun_eq_iff r'_def)
  show "reg_lookup r (e_name (s_entries r ! i)) = Some (e_port (s_entries r ! i), e_owner (s_entries r ! i))"
    using i by (auto simp: reg_lookup_iff [OF inv] active_at_def)
qed

lemma owned_map_empty:
  assumes "table_inv r" and "first_index (owned_by pid) 0 (s_entries r) = None"
  shows "\<not> name_owned pid r nm"
  using assms by (auto simp: name_owned_def reg_lookup_iff first_index_None owned_by_def active_at_def)

lemma cleanup_entries_spec:
  "cleanup_entries pid r = (r', ev) \<Longrightarrow> reg_inv r \<Longrightarrow>
   reg_inv r' \<and> s_parked r' = s_parked r \<and> reg_lookup r' = without_owner pid (reg_lookup r) \<and>
   s_waiters r' = filter (\<lambda>w. \<not> name_owned pid r (w_name w)) (s_waiters r) \<and>
   mset ev = {# WakeAll (w_wq w). w \<in># filter_mset (\<lambda>w. name_owned pid r (w_name w)) (mset (s_waiters r)) #}"
proof (induction pid r arbitrary: r' ev rule: cleanup_entries.induct)
  case (1 pid r)
  have inv: "table_inv r" "lists_inv r" using "1.prems"(2) by (simp_all add: reg_inv_def)
  show ?case
  proof (cases "first_index (owned_by pid) 0 (s_entries r)")
    case None
    have no: "\<not> name_owned pid r nm" for nm by (rule owned_map_empty [OF inv(1) None])
    have "without_owner pid (reg_lookup r) = reg_lookup r"
      using no by (auto simp: without_owner_def name_owned_def fun_eq_iff split: option.splits)
    with None "1.prems" no show ?thesis by (simp add: cleanup_entries.simps [of pid r])
  next
    case (Some i)
    let ?e = "s_entries r ! i"
    let ?nm = "e_name ?e"
    have i: "i < length (s_entries r)" "e_active ?e" "e_owner ?e = pid"
      using first_index_0 [OF Some] by (auto simp: owned_by_def)
    have nm: "strlcpy_name ?nm = ?nm" "e_hash ?e = hash_name ?nm"
      using inv i by (auto simp: table_inv_def active_at_def strlcpy_name_id)
    obtain ws ev1 where w: "cleanup_waiters ?nm (hash_name ?nm) (s_waiters r) = (ws, ev1)" by (meson surj_pair)
    have ws: "ws = filter (\<lambda>w. w_name w \<noteq> ?nm) (s_waiters r)"
      and ev1: "ev1 = map (\<lambda>w. WakeAll (w_wq w)) (filter (\<lambda>w. w_name w = ?nm) (s_waiters r))"
      using cleanup_waiters_spec [OF w] waiter_matches_name [OF inv(2), of _ ?nm]
      by (auto cong: filter_cong)
    let ?rt = "r\<lparr>s_entries := (s_entries r)[i := ?e\<lparr>e_active := False\<rparr>]\<rparr>"
    let ?r1 = "r\<lparr>s_entries := (s_entries r)[i := ?e\<lparr>e_active := False\<rparr>], s_waiters := ws\<rparr>"
    note d = deactivate_entry [OF inv(1) i(1,2)]
    have r1: "reg_lookup ?r1 = (reg_lookup r)(?nm := None)" "reg_inv ?r1"
    proof -
      have "?r1 = ?rt\<lparr>s_waiters := ws\<rparr>" by simp
      then have "reg_lookup ?r1 = reg_lookup ?rt" "table_inv ?r1 = table_inv ?rt"
        using reg_lookup_lists(1) [of ws ?rt] table_inv_lists(1) [of ws ?rt] by simp_all
      with d(1,2) inv(2) show "reg_lookup ?r1 = (reg_lookup r)(?nm := None)" "reg_inv ?r1"
        by (auto simp: reg_inv_def lists_inv_def ws)
    qed
    have owned: "name_owned pid r n \<longleftrightarrow> n = ?nm \<or> name_owned pid ?r1 n" for n
      using d(3) i(3) by (auto simp: name_owned_def d(2))
    obtain r2 ev2 where rec: "cleanup_entries pid ?r1 = (r2, ev2)" by (meson surj_pair)
    have out: "r' = r2" "ev = ev1 @ ev2"
      using "1.prems"(1) Some nm w rec by (simp_all add: cleanup_entries.simps [of pid r] Let_def)
    have IH: "reg_inv r2 \<and> s_parked r2 = s_parked ?r1 \<and> reg_lookup r2 = without_owner pid (reg_lookup ?r1) \<and>
       s_waiters r2 = filter (\<lambda>w. \<not> name_owned pid ?r1 (w_name w)) (s_waiters ?r1) \<and>
       mset ev2 = {# WakeAll (w_wq w). w \<in># filter_mset (\<lambda>w. name_owned pid ?r1 (w_name w)) (mset (s_waiters ?r1)) #}"
      using "1.IH" [OF Some refl refl _ refl rec r1(2)] nm w by simp
    have "without_owner pid (reg_lookup ?r1) = without_owner pid (reg_lookup r)"
      using d(3) i(3) by (auto simp: d(2) without_owner_def fun_eq_iff)
    moreover have "filter (\<lambda>w. \<not> name_owned pid ?r1 (w_name w)) ws = filter (\<lambda>w. \<not> name_owned pid r (w_name w)) (s_waiters r)"
      by (auto simp: ws owned intro!: filter_cong)
    moreover have "mset ev1 + {# WakeAll (w_wq w). w \<in># filter_mset (\<lambda>w. name_owned pid ?r1 (w_name w)) (mset ws) #} =
        {# WakeAll (w_wq w). w \<in># filter_mset (\<lambda>w. name_owned pid r (w_name w)) (mset (s_waiters r)) #}"
    proof -
      have no: "\<not> name_owned pid ?r1 ?nm" by (simp add: name_owned_def d(2))
      have "filter_mset (\<lambda>w. w_name w = ?nm) M + filter_mset (\<lambda>w. name_owned pid ?r1 (w_name w)) (filter_mset (\<lambda>w. w_name w \<noteq> ?nm) M) =
          filter_mset (\<lambda>w. name_owned pid r (w_name w)) M" for M :: "waiter multiset"
        using no by (induction M) (auto simp: owned)
      then show ?thesis by (simp add: ws ev1 flip: image_mset_union)
    qed
    ultimately show ?thesis using IH out by simp
  qed
qed

section \<open>The contract of the name service\<close>

text \<open>
  What a client of the registry sends.  A registration carries which processes are alive when it
  is served, because that is what the owner check reads.
\<close>

datatype request =
    Register "int \<Rightarrow> bool" string u32 int
  | Unregister string int
  | Cleanup int
  | Park string u32 "int option" bool

fun requester :: "request \<Rightarrow> int option" where
  "requester (Register live nm port pid) = Some pid"
| "requester (Unregister nm pid) = Some pid"
| "requester (Cleanup pid) = Some pid"
| "requester (Park nm tid owner mem_ok) = None"

fun believes_alive :: "int \<Rightarrow> request \<Rightarrow> bool" where
  "believes_alive pid (Register live nm port own) = live pid"
| "believes_alive pid _ = True"

fun request_name_ok :: "request \<Rightarrow> bool" where
  "request_name_ok (Register live nm port pid) = (length nm < REGISTRY_NAME_MAX)"
| "request_name_ok (Park nm tid owner mem_ok) = (length nm < REGISTRY_NAME_MAX)"
| "request_name_ok _ = True"

locale name_service =
  fixes inv :: "'s \<Rightarrow> bool"
    and lookup :: "'s \<Rightarrow> string \<rightharpoonup> u32 \<times> int"
    and serve :: "request \<Rightarrow> 's \<Rightarrow> 's"
  assumes inv_serve: "inv s \<Longrightarrow> request_name_ok q \<Longrightarrow> inv (serve q s)"
    and register_law: "inv s \<Longrightarrow> request_name_ok (Register live nm port pid) \<Longrightarrow>
      lookup (serve (Register live nm port pid) s) = lookup s \<or>
      lookup (serve (Register live nm port pid) s) = (lookup s)(nm \<mapsto> (port, pid)) \<and>
      (\<forall>p own. lookup s nm = Some (p, own) \<longrightarrow> own = pid \<or> \<not> live own)"
    and unregister_law: "inv s \<Longrightarrow>
      lookup (serve (Unregister nm pid) s) =
        (if \<exists>p. lookup s nm = Some (p, pid) then (lookup s)(nm := None) else lookup s)"
    and cleanup_law: "inv s \<Longrightarrow> lookup (serve (Cleanup pid) s) = without_owner pid (lookup s)"
    and park_law: "inv s \<Longrightarrow> lookup (serve (Park nm tid owner mem_ok) s) = lookup s"
begin

lemma serve_keeps:
  assumes "inv s" and "request_name_ok q" and "lookup s nm = Some (p, own)"
    and "requester q \<noteq> Some own" and "believes_alive own q"
  shows "lookup (serve q s) nm = Some (p, own)"
proof (cases q)
  case (Register live n port pid)
  with assms register_law [of s live n port pid] show ?thesis by auto
next
  case (Unregister n pid)
  with assms unregister_law [of s n pid] show ?thesis by auto
next
  case (Cleanup pid)
  with assms cleanup_law [of s pid] show ?thesis by (simp add: without_owner_def)
next
  case (Park n tid owner mem_ok)
  with assms park_law [of s n tid owner mem_ok] show ?thesis by simp
qed

lemma run_keeps:
  assumes "inv s" and "lookup s nm = Some (p, own)"
    and "\<forall>q \<in> set qs. request_name_ok q \<and> requester q \<noteq> Some own \<and> believes_alive own q"
  shows "inv (fold serve qs s) \<and> lookup (fold serve qs s) nm = Some (p, own)"
  using assms
proof (induction qs arbitrary: s)
  case (Cons q qs)
  then show ?case using serve_keeps [of s q nm p own] inv_serve [of s q] by simp
qed simp

lemma cleanup_removes:
  assumes "inv s" and "lookup (serve (Cleanup pid) s) nm = Some (p, own)"
  shows "own \<noteq> pid \<and> lookup s nm = Some (p, own)"
  using assms by (auto simp: cleanup_law without_owner_def split: option.splits if_splits)

end

text \<open>The registry as the provider: every request is served by the function of the source.\<close>

fun reg_serve :: "(u32 \<Rightarrow> bool) \<Rightarrow> request \<Rightarrow> registry \<Rightarrow> registry" where
  "reg_serve alive (Register live nm port pid) r = fst (registry_register live alive (Some nm) port pid r)"
| "reg_serve alive (Unregister nm pid) r = registry_unregister (Some nm) pid r"
| "reg_serve alive (Cleanup pid) r = fst (registry_cleanup_owner pid r)"
| "reg_serve alive (Park nm tid owner mem_ok) r = fst (registry_park_or_start (Some nm) (Some (tid, owner)) mem_ok r)"

lemma drained_facts [simp]:
  "reg_lookup (drained nm r) = reg_lookup r" "table_inv (drained nm r) = table_inv r"
  "lists_inv r \<Longrightarrow> lists_inv (drained nm r)" "s_entries (drained nm r) = s_entries r"
  by (simp_all add: drained_def lists_inv_def)

lemma registry_register_cases:
  assumes inv: "reg_inv r" and len: "length nm < REGISTRY_NAME_MAX" and ne: "nm \<noteq> []"
  obtains (held) "held_by_other live nm pid r" "registry_register live alive (Some nm) port pid r = (r, [], -3)"
  | (full) "reg_lookup r nm = None" "table_full r" "registry_register live alive (Some nm) port pid r = (r, [], -2)"
  | (ok) r' ev where "\<not> held_by_other live nm pid r" "reg_lookup r nm = None \<Longrightarrow> \<not> table_full r"
      "registry_register live alive (Some nm) port pid r = (r', ev, 0)" "reg_inv r'"
      "reg_lookup r' = (reg_lookup r)(nm \<mapsto> (port, pid))"
      "s_waiters r' = filter (\<lambda>w. w_name w \<noteq> nm) (s_waiters r)"
      "s_parked r' = filter (\<lambda>p. p_name p \<noteq> nm) (s_parked r)"
      "mset ev = drain_events alive nm r"
proof -
  have t: "table_inv r" and l: "lists_inv r" using inv by (simp_all add: reg_inv_def)
  from t len show thesis
  proof (cases rule: register_locked_cases [where live = live and port = port and pid = pid])
    case held
    with ne show thesis by (intro that(1)) (simp_all add: registry_register_def)
  next
    case full
    with ne show thesis by (intro that(2)) (simp_all add: registry_register_def)
  next
    case (ok r1)
    obtain r' ev where d: "drain_and_wake nm (hash_name nm) alive r1 = (r', ev)" by (meson surj_pair)
    with drain_and_wake_spec [OF d] have r': "r' = drained nm r1" "mset ev = drain_events alive nm r1" by auto
    have l1: "lists_inv r1" using l ok by (simp add: lists_inv_def)
    have "s_waiters r' = filter (\<lambda>w. w_name w \<noteq> nm) (s_waiters r)"
      using r' ok waiter_matches_name [OF l1] by (auto simp: drained_def intro!: filter_cong)
    moreover have "s_parked r' = filter (\<lambda>p. p_name p \<noteq> nm) (s_parked r)"
      using r' ok parked_matches_name [OF l1] by (auto simp: drained_def intro!: filter_cong)
    moreover have "drain_events alive nm r1 = drain_events alive nm r" using ok by (simp add: drain_events_def)
    ultimately show thesis
      using ok d r' ne l1 by (intro that(3) [of r' ev]) (simp_all add: registry_register_def reg_inv_def)
  qed
qed

lemma registry_cleanup_owner_spec:
  assumes "reg_inv r" and "registry_cleanup_owner pid r = (r', ev)"
  shows "reg_inv r'" and "reg_lookup r' = without_owner pid (reg_lookup r)"
    and "s_parked r' = filter (\<lambda>p. p_owner p \<noteq> pid) (s_parked r)"
    and "s_waiters r' = filter (\<lambda>w. \<not> name_owned pid r (w_name w)) (s_waiters r)"
    and "mset ev = mset (map Kfree (filter (\<lambda>p. p_owner p = pid) (s_parked r))) +
      {# WakeAll (w_wq w). w \<in># filter_mset (\<lambda>w. name_owned pid r (w_name w)) (mset (s_waiters r)) #}"
proof -
  obtain ps ev1 where p: "cleanup_parked pid (s_parked r) = (ps, ev1)" by (meson surj_pair)
  obtain r2 ev2 where e: "cleanup_entries pid (r\<lparr>s_parked := ps\<rparr>) = (r2, ev2)" by (meson surj_pair)
  have out: "r' = r2" "ev = ev1 @ ev2" using assms(2) p e by (simp_all add: registry_cleanup_owner_def)
  note ps = cleanup_parked_spec [OF p]
  have "reg_inv (r\<lparr>s_parked := ps\<rparr>)" using assms(1) ps by (auto simp: reg_inv_def lists_inv_def)
  note spec = cleanup_entries_spec [OF e this]
  have owned: "name_owned pid (r\<lparr>s_parked := qs\<rparr>) = name_owned pid r" for qs by (simp add: name_owned_def fun_eq_iff)
  show "reg_inv r'" "reg_lookup r' = without_owner pid (reg_lookup r)"
    "s_parked r' = filter (\<lambda>p. p_owner p \<noteq> pid) (s_parked r)"
    "s_waiters r' = filter (\<lambda>w. \<not> name_owned pid r (w_name w)) (s_waiters r)"
    "mset ev = mset (map Kfree (filter (\<lambda>p. p_owner p = pid) (s_parked r))) +
      {# WakeAll (w_wq w). w \<in># filter_mset (\<lambda>w. name_owned pid r (w_name w)) (mset (s_waiters r)) #}"
    using spec ps out by (simp_all add: owned)
qed

lemma park_spec:
  assumes "reg_inv r" and "length nm < REGISTRY_NAME_MAX"
    and "registry_park_or_start (Some nm) (Some (tid, owner)) mem_ok r = (r', ev)"
  shows "reg_inv r' \<and> reg_lookup r' = reg_lookup r"
  using assms
  by (auto simp: registry_park_or_start_def reg_inv_def lists_inv_def strlcpy_name_id split: if_splits)

lemma unregister_lists [simp]:
  "s_waiters (registry_unregister nm pid r) = s_waiters r" "s_parked (registry_unregister nm pid r) = s_parked r"
  by (simp_all add: registry_unregister_def Let_def split: option.split)

lemma reg_serve_inv: "reg_inv r \<Longrightarrow> request_name_ok q \<Longrightarrow> reg_inv (reg_serve alive q r)"
proof (cases q)
  case (Register live nm port pid)
  assume inv: "reg_inv r" and ok: "request_name_ok q"
  show ?thesis
  proof (cases "nm = []")
    case True
    with inv Register show ?thesis by (simp add: registry_register_def)
  next
    case False
    from ok Register have "length nm < REGISTRY_NAME_MAX" by simp
    from registry_register_cases [OF inv this False, of live pid alive port]
    show ?thesis using inv Register by cases simp_all
  qed
next
  case (Unregister nm pid)
  assume "reg_inv r"
  then show ?thesis using Unregister unregister_spec(1) [of r nm pid] by (simp add: reg_inv_def lists_inv_def)
next
  case (Cleanup pid)
  assume inv: "reg_inv r"
  obtain r' ev where c: "registry_cleanup_owner pid r = (r', ev)" by (meson surj_pair)
  from registry_cleanup_owner_spec(1) [OF inv c] c show ?thesis by (simp add: Cleanup)
next
  case (Park nm tid owner mem_ok)
  assume "reg_inv r" "request_name_ok q"
  then show ?thesis
    using Park park_spec [of r nm tid owner mem_ok] by (cases "registry_park_or_start (Some nm) (Some (tid, owner)) mem_ok r") auto
qed

lemma reg_serve_register:
  assumes inv: "reg_inv r" and len: "request_name_ok (Register live nm port pid)"
  shows "reg_lookup (reg_serve alive (Register live nm port pid) r) = reg_lookup r \<or>
      reg_lookup (reg_serve alive (Register live nm port pid) r) = (reg_lookup r)(nm \<mapsto> (port, pid)) \<and>
      (\<forall>p own. reg_lookup r nm = Some (p, own) \<longrightarrow> own = pid \<or> \<not> live own)"
proof (cases "nm = []")
  case True
  then show ?thesis by (simp add: registry_register_def)
next
  case False
  from len have "length nm < REGISTRY_NAME_MAX" by simp
  from registry_register_cases [OF inv this False, of live pid alive port] show ?thesis
    by cases (auto simp: held_by_other_def)
qed

interpretation reg: name_service reg_inv reg_lookup "reg_serve alive"
proof
  fix r pid assume inv: "reg_inv r"
  obtain r' ev where c: "registry_cleanup_owner pid r = (r', ev)" by (meson surj_pair)
  show "reg_lookup (reg_serve alive (Cleanup pid) r) = without_owner pid (reg_lookup r)"
    using registry_cleanup_owner_spec(2) [OF inv c] c by simp
next
  fix r nm pid assume "reg_inv r"
  then show "reg_lookup (reg_serve alive (Unregister nm pid) r) =
      (if \<exists>p. reg_lookup r nm = Some (p, pid) then (reg_lookup r)(nm := None) else reg_lookup r)"
    using unregister_spec(2) [of r nm pid] by (simp add: reg_inv_def)
next
  fix r nm tid owner mem_ok assume "reg_inv r"
  show "reg_lookup (reg_serve alive (Park nm tid owner mem_ok) r) = reg_lookup r"
    by (simp add: registry_park_or_start_def)
qed (fact reg_serve_inv, fact reg_serve_register)

section \<open>Interleaved requests\<close>

text \<open>
  The registry under concurrent requests.  Every step is the code between taking and releasing
  \<^verbatim>\<open>s_lock\<close> once, or one wake-up outside it.  \<open>drains\<close> lists the names whose registration is
  installed and whose drain loop has not finished, \<open>to_wake\<close> the wait queues detached by a
  collector and not yet woken, \<open>frames\<close> the calls of \<^verbatim>\<open>registry_wait\<close> that have not returned:
  the wait queue of such a call lives in its stack frame.
\<close>

record reg_sys =
  sys_reg :: registry
  drains :: "string list"
  to_wake :: "nat list"
  frames :: "nat list"

definition sys_start :: reg_sys where
  "sys_start = \<lparr>sys_reg = registry_init, drains = [], to_wake = [], frames = []\<rparr>"

definition woken_queues :: "reg_event list \<Rightarrow> nat list" where
  "woken_queues ev = concat (map (\<lambda>e. case e of WakeAll q \<Rightarrow> [q] | _ \<Rightarrow> []) ev)"

inductive reg_step :: "reg_sys \<Rightarrow> reg_sys \<Rightarrow> bool" where
  install: "nm \<noteq> [] \<Longrightarrow> length nm < REGISTRY_NAME_MAX \<Longrightarrow>
      register_locked live nm port pid (sys_reg s) = (r', 0) \<Longrightarrow>
      reg_step s (s\<lparr>sys_reg := r', drains := nm # drains s\<rparr>)"
| refuse: "nm \<noteq> [] \<Longrightarrow> length nm < REGISTRY_NAME_MAX \<Longrightarrow>
      register_locked live nm port pid (sys_reg s) = (r', rc) \<Longrightarrow> rc \<noteq> 0 \<Longrightarrow> reg_step s (s\<lparr>sys_reg := r'\<rparr>)"
| drain_full: "nm \<in> set (drains s) \<Longrightarrow>
      drain_round nm (hash_name nm) alive (sys_reg s) = (r', ev, False) \<Longrightarrow>
      reg_step s (s\<lparr>sys_reg := r', to_wake := to_wake s @ woken_queues ev\<rparr>)"
| drain_dry: "nm \<in> set (drains s) \<Longrightarrow>
      drain_round nm (hash_name nm) alive (sys_reg s) = (r', ev, True) \<Longrightarrow>
      reg_step s (s\<lparr>sys_reg := r', to_wake := to_wake s @ woken_queues ev, drains := remove1 nm (drains s)\<rparr>)"
| wake: "q \<in> set (to_wake s) \<Longrightarrow> reg_step s (s\<lparr>to_wake := remove1 q (to_wake s)\<rparr>)"
| remove: "reg_step s (s\<lparr>sys_reg := registry_unregister nm pid (sys_reg s)\<rparr>)"
| sleep: "q \<notin> set (frames s) \<Longrightarrow> registry_wait_begin (Some nm) q (sys_reg s) = Inr r' \<Longrightarrow>
      reg_step s (s\<lparr>sys_reg := r', frames := q # frames s\<rparr>)"
| return: "q \<in> set (frames s) \<Longrightarrow> registry_wait_end nm q (sys_reg s) = (r', port) \<Longrightarrow>
      reg_step s (s\<lparr>sys_reg := r', frames := remove1 q (frames s)\<rparr>)"
| park: "length nm < REGISTRY_NAME_MAX \<Longrightarrow>
      registry_park_or_start (Some nm) (Some (tid, owner)) mem_ok (sys_reg s) = (r', ev) \<Longrightarrow>
      reg_step s (s\<lparr>sys_reg := r'\<rparr>)"
| bury_parked: "collect_records (\<lambda>p. p_owner p = pid) 8 0 (s_parked (sys_reg s)) = (dead, rest) \<Longrightarrow>
      reg_step s (s\<lparr>sys_reg := (sys_reg s)\<lparr>s_parked := rest\<rparr>\<rparr>)"
| bury_entry: "first_index (owned_by pid) 0 (s_entries (sys_reg s)) = Some i \<Longrightarrow>
      reg_step s (s\<lparr>sys_reg := (sys_reg s)\<lparr>s_entries :=
        (s_entries (sys_reg s))[i := (s_entries (sys_reg s) ! i)\<lparr>e_active := False\<rparr>]\<rparr>\<rparr>)"
| bury_waiters: "collect_name_waiters nm (hash_name nm) 16 0 (s_waiters (sys_reg s)) = (wb, rest) \<Longrightarrow>
      reg_step s (s\<lparr>sys_reg := (sys_reg s)\<lparr>s_waiters := rest\<rparr>, to_wake := to_wake s @ map w_wq wb\<rparr>)"

text \<open>Somebody waits for the name, and the name is there.\<close>

definition waits_for :: "string \<Rightarrow> registry \<Rightarrow> bool" where
  "waits_for nm r \<longleftrightarrow> (\<exists>w \<in> set (s_waiters r). w_name w = nm) \<or> (\<exists>p \<in> set (s_parked r). p_name p = nm)"

definition no_lost_wake :: "reg_sys \<Rightarrow> bool" where
  "no_lost_wake s \<longleftrightarrow> reg_inv (sys_reg s) \<and>
     (\<forall>nm. reg_lookup (sys_reg s) nm \<noteq> None \<longrightarrow> waits_for nm (sys_reg s) \<longrightarrow> nm \<in> set (drains s))"

lemma no_lost_wakeI:
  assumes "no_lost_wake s" and "reg_inv r'" and "sys_reg s' = r'"
    and "\<And>nm. reg_lookup r' nm \<noteq> None \<Longrightarrow> waits_for nm r' \<Longrightarrow>
      nm \<notin> set (drains s') \<Longrightarrow> reg_lookup (sys_reg s) nm \<noteq> None \<and> waits_for nm (sys_reg s) \<and> nm \<notin> set (drains s)"
  shows "no_lost_wake s'"
  using assms by (auto simp: no_lost_wake_def)

lemma waits_for_mono:
  "waits_for nm r' \<Longrightarrow> set (s_waiters r') \<subseteq> set (s_waiters r) \<Longrightarrow> set (s_parked r') \<subseteq> set (s_parked r) \<Longrightarrow>
   waits_for nm r"
  by (auto simp: waits_for_def)

lemma lists_inv_mono:
  "lists_inv r \<Longrightarrow> set (s_waiters r') \<subseteq> set (s_waiters r) \<Longrightarrow> set (s_parked r') \<subseteq> set (s_parked r) \<Longrightarrow> lists_inv r'"
  by (auto simp: lists_inv_def)

lemma same_entries:
  "s_entries r' = s_entries r \<Longrightarrow> reg_lookup r' = reg_lookup r \<and> table_inv r' = table_inv r"
  by (simp add: reg_lookup_def entry_find_def table_inv_def active_at_def fun_eq_iff)

text \<open>Steps that only take records off the lists or entries off the table.\<close>

lemma shrinking_step:
  assumes "no_lost_wake s" and "table_inv (sys_reg s')" and "drains s' = drains s"
    and "set (s_waiters (sys_reg s')) \<subseteq> set (s_waiters (sys_reg s))"
    and "set (s_parked (sys_reg s')) \<subseteq> set (s_parked (sys_reg s))"
    and "\<And>nm. reg_lookup (sys_reg s') nm \<noteq> None \<Longrightarrow> reg_lookup (sys_reg s) nm \<noteq> None"
  shows "no_lost_wake s'"
proof -
  have "reg_inv (sys_reg s')"
    using assms(1,2) lists_inv_mono [OF _ assms(4,5)] by (simp add: no_lost_wake_def reg_inv_def)
  then show ?thesis
    using assms(3,6) waits_for_mono [OF _ assms(4,5)] by (intro no_lost_wakeI [OF assms(1) _ refl]) auto
qed

lemma dry_round_done:
  assumes "reg_inv r" and "drain_round nm (hash_name nm) alive r = (r', ev, True)"
  shows "\<not> waits_for nm r'"
  using drain_round_cases(3) [OF assms(2)] assms(1)
  by (auto simp: waits_for_def drained_def reg_inv_def waiter_matches_name parked_matches_name)

lemma reg_step_keeps:
  assumes "reg_step s s'" and good: "no_lost_wake s"
  shows "no_lost_wake s'"
  using assms(1)
proof cases
  case (install nm live port pid r')
  have t: "table_inv (sys_reg s)" "lists_inv (sys_reg s)" using good by (simp_all add: no_lost_wake_def reg_inv_def)
  from t(1) install(3) show ?thesis
  proof (cases rule: register_locked_cases [where live = live and port = port and pid = pid])
    case (ok r1)
    with install t(2) have "reg_inv r'" "reg_lookup r' = (reg_lookup (sys_reg s))(nm \<mapsto> (port, pid))"
      "waits_for n r' = waits_for n (sys_reg s)" for n
      by (auto simp: reg_inv_def lists_inv_def waits_for_def)
    then show ?thesis
      by (intro no_lost_wakeI [OF good, of r' s']) (auto simp: install(1) split: if_splits)
  qed (use install in simp_all)
next
  case (refuse nm live port pid r' rc)
  have t: "table_inv (sys_reg s)" using good by (simp add: no_lost_wake_def reg_inv_def)
  from t refuse(3) have "r' = sys_reg s"
    by (cases rule: register_locked_cases [where live = live and port = port and pid = pid]) (use refuse in auto)
  with good refuse show ?thesis by (simp add: no_lost_wake_def)
next
  case (drain_full nm alive r' ev)
  note d = drain_round_cases [OF drain_full(3)]
  show ?thesis using d good same_entries [OF d(4)]
    by (intro shrinking_step [OF good]) (simp_all add: drain_full(1) no_lost_wake_def reg_inv_def)
next
  case (drain_dry nm alive r' ev)
  note d = drain_round_cases [OF drain_dry(3)]
  note same = same_entries [OF d(4)]
  have inv: "reg_inv (sys_reg s)" using good by (simp add: no_lost_wake_def)
  have "reg_inv r'" using inv same lists_inv_mono [OF _ d(5,6)] by (simp add: reg_inv_def)
  moreover have "n \<noteq> nm" if "waits_for n r'" for n using dry_round_done [OF inv drain_dry(3)] that by auto
  ultimately show ?thesis
    using same waits_for_mono [OF _ d(5,6)] by (intro no_lost_wakeI [OF good, of r' s']) (auto simp: drain_dry(1))
next
  case (remove nm pid)
  have t: "table_inv (sys_reg s)" using good by (simp add: no_lost_wake_def reg_inv_def)
  show ?thesis
  proof (cases nm)
    case None
    then show ?thesis using good by (simp add: remove registry_unregister_def no_lost_wake_def)
  next
    case (Some n)
    then show ?thesis using unregister_spec [OF t, of n pid]
      by (intro shrinking_step [OF good]) (auto simp: remove split: if_splits)
  qed
next
  case (sleep q nm r')
  from sleep(3) have r': "entry_find nm (hash_name nm) (sys_reg s) = None"
    "r' = (sys_reg s)\<lparr>s_waiters := s_waiters (sys_reg s) @ [\<lparr>w_name = nm, w_hash = hash_name nm, w_wq = q\<rparr>]\<rparr>"
    by (auto simp: registry_wait_begin_def split: option.splits)
  have "reg_inv r'" using good r' by (auto simp: no_lost_wake_def reg_inv_def lists_inv_def)
  moreover have "reg_lookup (sys_reg s) nm = None" using r' by (simp add: reg_lookup_def)
  ultimately show ?thesis
    by (intro no_lost_wakeI [OF good, of r' s']) (auto simp: sleep(1) r'(2) waits_for_def)
next
  case (park nm tid owner mem_ok r' ev)
  show ?thesis
  proof (cases "r' = sys_reg s")
    case True
    with good park show ?thesis by (simp add: no_lost_wake_def)
  next
    case False
    let ?p = "\<lparr>p_name = strlcpy_name nm, p_hash = hash_name nm, p_tid = tid,
      p_owner = (case owner of None \<Rightarrow> -1 | Some pid \<Rightarrow> pid)\<rparr>"
    from False park(3) have nf: "entry_find nm (hash_name nm) (sys_reg s) = None"
      and r': "r' = (sys_reg s)\<lparr>s_parked := s_parked (sys_reg s) @ [?p]\<rparr>"
      by (auto simp: registry_park_or_start_def split: if_splits)
    have "reg_inv r' \<and> reg_lookup r' = reg_lookup (sys_reg s)"
      using park_spec [OF _ park(2,3)] good by (simp add: no_lost_wake_def)
    moreover have "reg_lookup (sys_reg s) nm = None" using nf by (simp add: reg_lookup_def)
    ultimately show ?thesis
      using r' by (intro no_lost_wakeI [OF good, of r' s']) (auto simp: park(1) waits_for_def strlcpy_name_id [OF park(2)])
  qed
next
  case (bury_entry pid i)
  have t: "table_inv (sys_reg s)" using good by (simp add: no_lost_wake_def reg_inv_def)
  have i: "i < length (s_entries (sys_reg s))" "e_active (s_entries (sys_reg s) ! i)"
    using first_index_0 [OF bury_entry(2)] by (auto simp: owned_by_def)
  show ?thesis using deactivate_entry [OF t i]
    by (intro shrinking_step [OF good]) (auto simp: bury_entry(1) split: if_splits)
next
  case (bury_parked pid dead rest)
  have "set rest \<subseteq> set (s_parked (sys_reg s))" by (rule collect_rest_subset [OF bury_parked(2)]) simp
  then show ?thesis using good
    by (intro shrinking_step [OF good]) (auto simp: bury_parked(1) no_lost_wake_def reg_inv_def)
next
  case (bury_waiters nm wb rest)
  have "set rest \<subseteq> set (s_waiters (sys_reg s))"
    by (rule collect_rest_subset [where P = "waiter_matches nm (hash_name nm)" and cap = 16])
      (use bury_waiters(2) in \<open>simp_all add: collect_name_waiters_records\<close>)
  then show ?thesis using good
    by (intro shrinking_step [OF good]) (auto simp: bury_waiters(1) no_lost_wake_def reg_inv_def)
next
  case (return q nm r' port)
  then show ?thesis using good
    by (intro shrinking_step [OF good]) (auto simp: registry_wait_end_def Let_def no_lost_wake_def reg_inv_def split: if_splits)
next
  case (wake q)
  with good show ?thesis by (simp add: no_lost_wake_def)
qed

section \<open>Properties\<close>

text \<open>
  C8: registration is exact.  For a non-empty name that fits the field, the call answers -3 exactly
  when another live process holds the name, -2 exactly when the name is absent and all 256 slots
  are taken, and 0 otherwise.  A refused call changes nothing and wakes nobody.  A successful one
  updates the map at that name only, the name is found with the new port, every thread that
  waited or was parked for the name has left the lists and exactly those are woken, however many
  there are; all others stay.
\<close>

theorem registry_register_exact:
  assumes "reg_inv r" and "nm \<noteq> []" and "length nm < REGISTRY_NAME_MAX"
    and "registry_register live alive (Some nm) port pid r = (r', ev, rc)"
  shows "rc = (if held_by_other live nm pid r then -3
               else if reg_lookup r nm = None \<and> table_full r then -2 else 0) \<and>
    (rc \<noteq> 0 \<longrightarrow> r' = r \<and> ev = []) \<and>
    (rc = 0 \<longrightarrow> reg_inv r' \<and> reg_lookup r' = (reg_lookup r)(nm \<mapsto> (port, pid)) \<and>
       registry_find (Some nm) r' = port \<and>
       s_waiters r' = filter (\<lambda>w. w_name w \<noteq> nm) (s_waiters r) \<and>
       s_parked r' = filter (\<lambda>p. p_name p \<noteq> nm) (s_parked r) \<and>
       mset ev = drain_events alive nm r)"
  using assms(1,3,2)
proof (cases rule: registry_register_cases [where live = live and alive = alive and port = port and pid = pid])
  case held
  with assms(4) show ?thesis by simp
next
  case full
  with assms(4) show ?thesis by (simp add: held_by_other_def)
next
  case (ok r1 ev1)
  with assms(4) have "r' = r1" "ev = ev1" "rc = 0" by simp_all
  moreover have "\<not> (reg_lookup r nm = None \<and> table_full r)" using ok(2) by blast
  ultimately show ?thesis using ok by (simp add: registry_find_def found_port_lookup)
qed

text \<open>
  C34: a name is protected while its holder lives.  Whatever registrations, removals, parkings and
  clean-ups other processes send, in any number and order, as long as the holder is seen alive
  the name keeps its port and \<^verbatim>\<open>registry_find\<close> answers it.
\<close>

theorem registry_name_protected:
  assumes "reg_inv r" and "reg_lookup r nm = Some (port, own)"
    and "\<forall>q \<in> set qs. request_name_ok q \<and> requester q \<noteq> Some own \<and> believes_alive own q"
  shows "reg_inv (fold (reg_serve alive) qs r) \<and>
    reg_lookup (fold (reg_serve alive) qs r) nm = Some (port, own) \<and>
    registry_find (Some nm) (fold (reg_serve alive) qs r) = port"
  using reg.run_keeps [OF assms] by (simp add: registry_find_def found_port_lookup)

text \<open>
  The clean-up of a dead process is complete, beyond every batch size.  Afterwards no name and no
  parked record of that process is left, every other name, record and waiter is untouched, and
  the records released and the threads woken are exactly the parked records of the process and
  the waiters for its names.
\<close>

theorem registry_cleanup_complete:
  assumes "reg_inv r" and "registry_cleanup_owner pid r = (r', ev)"
  shows "reg_inv r' \<and> reg_lookup r' = without_owner pid (reg_lookup r) \<and>
    s_parked r' = filter (\<lambda>p. p_owner p \<noteq> pid) (s_parked r) \<and>
    s_waiters r' = filter (\<lambda>w. \<not> name_owned pid r (w_name w)) (s_waiters r) \<and>
    mset ev = mset (map Kfree (filter (\<lambda>p. p_owner p = pid) (s_parked r))) +
      {# WakeAll (w_wq w). w \<in># filter_mset (\<lambda>w. name_owned pid r (w_name w)) (mset (s_waiters r)) #}"
  using registry_cleanup_owner_spec [OF assms] by simp

text \<open>
  C35: no wake-up is lost under interleaving.  In every state that concurrent registrations, drains,
  waits, parkings, removals and clean-ups can reach, a thread that waits or is parked for a name
  that is registered will still be collected: the drain loop of that name has not finished.
\<close>

theorem registry_no_lost_wake:
  assumes "reg_step\<^sup>*\<^sup>* sys_start s" and "reg_lookup (sys_reg s) nm \<noteq> None" and "waits_for nm (sys_reg s)"
  shows "nm \<in> set (drains s)"
proof -
  have start: "no_lost_wake sys_start"
    by (simp add: no_lost_wake_def sys_start_def registry_init_def reg_inv_def table_inv_def
        lists_inv_def active_at_def waits_for_def)
  from assms(1) have "no_lost_wake s"
    by (induction rule: rtranclp_induct) (use start reg_step_keeps in auto)
  with assms(2,3) show ?thesis by (simp add: no_lost_wake_def)
qed

lemma step_then: "reg_step s s' \<Longrightarrow> reg_step\<^sup>*\<^sup>* s' t \<Longrightarrow> reg_step\<^sup>*\<^sup>* s t"
  by (rule converse_rtranclp_into_rtranclp)

text \<open>One waiter sleeps, then its service is installed and not yet drained.\<close>

definition svc_entry :: entry where
  "svc_entry = \<lparr>e_name = ''fs'', e_hash = hash_name ''fs'', e_port = 7, e_owner = 3, e_active = True\<rparr>"

definition svc_waiter :: waiter where
  "svc_waiter = \<lparr>w_name = ''fs'', w_hash = hash_name ''fs'', w_wq = 1\<rparr>"

definition svc_installed :: reg_sys where
  "svc_installed = \<lparr>sys_reg = \<lparr>s_entries = [svc_entry], s_waiters = [svc_waiter], s_parked = []\<rparr>,
     drains = [''fs''], to_wake = [], frames = [1]\<rparr>"

lemma svc_installed_reachable: "reg_step\<^sup>*\<^sup>* sys_start svc_installed"
proof -
  let ?r1 = "\<lparr>s_entries = [], s_waiters = [svc_waiter], s_parked = []\<rparr>"
  let ?s1 = "\<lparr>sys_reg = ?r1, drains = [], to_wake = [], frames = [1]\<rparr>"
  have 1: "reg_step sys_start ?s1"
    using reg_step.sleep [of 1 sys_start "''fs''" ?r1]
    by (simp add: sys_start_def registry_init_def registry_wait_begin_def entry_find_def svc_waiter_def)
  have 2: "reg_step ?s1 svc_installed"
    using reg_step.install [of "''fs''" "\<lambda>_. True" 7 3 ?s1 "sys_reg svc_installed"]
    by (simp add: register_locked_def entry_find_def entry_alloc_def REGISTRY_MAX_def REGISTRY_NAME_MAX_def
        strlcpy_name_def svc_entry_def svc_installed_def Let_def)
  show ?thesis by (intro step_then [OF 1] step_then [OF 2]) simp
qed

text \<open>
  A detached wait queue can outlive its frame.  The collectors take a waiter off the list under
  the lock and wake it after releasing it; a wait whose timeout fires in between finds itself
  off the list and returns, and the wake-up then uses a queue in a dead stack frame.
\<close>

theorem registry_wake_after_return:
  "\<exists>s. reg_step\<^sup>*\<^sup>* sys_start s \<and> 1 \<in> set (to_wake s) \<and> 1 \<notin> set (frames s)"
proof -
  let ?r3 = "\<lparr>s_entries = [svc_entry], s_waiters = [], s_parked = []\<rparr>"
  let ?s3 = "\<lparr>sys_reg = ?r3, drains = [], to_wake = [1], frames = [1]\<rparr>"
  let ?s4 = "\<lparr>sys_reg = ?r3, drains = [], to_wake = [1], frames = []\<rparr>"
  have 3: "reg_step svc_installed ?s3"
    using reg_step.drain_dry [of "''fs''" svc_installed "\<lambda>_. True" ?r3 "[WakeAll 1]"]
    by (simp add: drain_round_def waiter_matches_def collect_parked_def woken_queues_def
        svc_installed_def svc_waiter_def)
  have 4: "reg_step ?s3 ?s4"
    using reg_step.return [of 1 ?s3 "''fs''" ?r3 "found_port ''fs'' ?r3"]
    by (simp add: registry_wait_end_def Let_def)
  have "reg_step\<^sup>*\<^sup>* sys_start ?s4"
    by (intro rtranclp_trans [OF svc_installed_reachable] step_then [OF 3] step_then [OF 4]) simp
  then show ?thesis by (intro exI [of _ ?s4]) simp
qed

section \<open>Witnesses\<close>

definition sample_registry :: registry where
  "sample_registry = \<lparr>s_entries = [svc_entry],
     s_waiters = [\<lparr>w_name = ''gfx'', w_hash = hash_name ''gfx'', w_wq = 1\<rparr>,
                  \<lparr>w_name = ''net'', w_hash = hash_name ''net'', w_wq = 2\<rparr>],
     s_parked = [\<lparr>p_name = ''gfx'', p_hash = hash_name ''gfx'', p_tid = 9, p_owner = 5\<rparr>]\<rparr>"

lemma sample_registry_inv: "reg_inv sample_registry"
  by (auto simp: reg_inv_def table_inv_def lists_inv_def active_at_def sample_registry_def svc_entry_def
      REGISTRY_MAX_def REGISTRY_NAME_MAX_def)

lemma sample_registry_fs: "reg_lookup sample_registry ''fs'' = Some (7, 3)"
  by (simp add: reg_lookup_def entry_find_def entry_matches_def sample_registry_def svc_entry_def)

theorem registry_register_exact_witness:
  "case registry_register (\<lambda>_. True) (\<lambda>_. True) (Some ''gfx'') 11 4 sample_registry of (r', ev, rc) \<Rightarrow>
     rc = 0 \<and> registry_find (Some ''gfx'') r' = 11 \<and> mset ev = drain_events (\<lambda>_. True) ''gfx'' sample_registry"
proof -
  obtain r' ev rc where call: "registry_register (\<lambda>_. True) (\<lambda>_. True) (Some ''gfx'') 11 4 sample_registry = (r', ev, rc)"
    by (metis prod_cases3)
  have none: "reg_lookup sample_registry ''gfx'' = None"
    by (simp add: reg_lookup_def entry_find_def entry_matches_def sample_registry_def svc_entry_def)
  have "\<not> table_full sample_registry"
    by (auto simp: table_full_def active_at_def sample_registry_def REGISTRY_MAX_def intro!: exI [of _ 1])
  then have "rc = 0"
    using registry_register_exact [OF sample_registry_inv _ _ call] none
    by (simp add: held_by_other_def REGISTRY_NAME_MAX_def)
  then show ?thesis
    using registry_register_exact [OF sample_registry_inv _ _ call] call by (simp add: REGISTRY_NAME_MAX_def)
qed

theorem registry_name_protected_witness:
  "registry_find (Some ''fs'') (fold (reg_serve (\<lambda>_. True))
     [Register (\<lambda>p. p = 3) ''fs'' 99 4, Unregister ''fs'' 4, Cleanup 4, Park ''gfx'' 12 (Some 4) True] sample_registry) = 7"
  using registry_name_protected [OF sample_registry_inv sample_registry_fs,
      of "[Register (\<lambda>p. p = 3) ''fs'' 99 4, Unregister ''fs'' 4, Cleanup 4, Park ''gfx'' 12 (Some 4) True]" "\<lambda>_. True"]
  by (simp add: REGISTRY_NAME_MAX_def)

theorem registry_cleanup_complete_witness:
  "reg_lookup (fst (registry_cleanup_owner 3 sample_registry)) ''fs'' = None"
  using registry_cleanup_complete [OF sample_registry_inv, of 3 "fst (registry_cleanup_owner 3 sample_registry)"
      "snd (registry_cleanup_owner 3 sample_registry)"] sample_registry_fs
  by (simp add: without_owner_def)

theorem registry_no_lost_wake_witness: "''fs'' \<in> set (drains svc_installed)"
proof -
  have "reg_lookup (sys_reg svc_installed) ''fs'' \<noteq> None" "waits_for ''fs'' (sys_reg svc_installed)"
    by (simp_all add: reg_lookup_def entry_find_def entry_matches_def svc_entry_def svc_waiter_def
        svc_installed_def waits_for_def)
  then show ?thesis by (rule registry_no_lost_wake [OF svc_installed_reachable])
qed

end
