(* ===== verification/Event_Group.thy ===== *)
theory Event_Group
  imports Prelude
begin

text \<open>
  The event groups of \<^verbatim>\<open>kernel/sync/event_group.c\<close>: 32 groups of 32 condition bits with
  combinational waits.  The record of a waiting thread lives on its stack; the model keeps these
  records in a store indexed by their address, and a group holds the list of the addresses that
  are linked.  The code under a group's lock is one step.  Waking a record's private queue is the
  list of addresses an operation returns.
\<close>

section \<open>State\<close>

definition RT_ALL_SET :: u8 where "RT_ALL_SET = 0"
definition RT_ANY_SET :: u8 where "RT_ANY_SET = 1"
definition RT_ALL_CLEAR :: u8 where "RT_ALL_CLEAR = 2"
definition RT_ANY_CLEAR :: u8 where "RT_ANY_CLEAR = 3"
definition EVENT_OP_SET :: u32 where "EVENT_OP_SET = 0"
definition EVENT_OP_CLEAR :: u32 where "EVENT_OP_CLEAR = 1"
definition EVENT_OP_PULSE :: u32 where "EVENT_OP_PULSE = 2"
definition MAX_EVENT_GROUPS :: nat where "MAX_EVENT_GROUPS = 32"
definition WAIT_OK :: int where "WAIT_OK = 0"
definition WAIT_TIMEOUT :: int where "WAIT_TIMEOUT = 1"
definition WAIT_CANCELLED :: int where "WAIT_CANCELLED = 2"

record event_waiter =
  ew_pattern :: u32
  ew_mode :: u8
  ew_signaled :: bool
  ew_result :: int
  ew_result_flags :: u32

record event_group =
  eg_used :: bool
  eg_poisoned :: bool
  eg_owner :: int
  eg_flags :: u32
  eg_waiters :: "nat list"

record event_sys =
  s_groups :: "event_group list"
  ew_store :: "nat \<Rightarrow> event_waiter"

section \<open>Operations\<close>

definition pattern_match :: "u32 \<Rightarrow> u32 \<Rightarrow> u8 \<Rightarrow> bool" where
  "pattern_match fl pat mode =
     (if mode = RT_ALL_SET then fl AND pat = pat
      else if mode = RT_ANY_SET then fl AND pat \<noteq> 0
      else if mode = RT_ALL_CLEAR then fl AND pat = 0
      else if mode = RT_ANY_CLEAR then fl AND pat \<noteq> pat
      else False)"

definition group_of :: "int \<Rightarrow> nat option" where
  "group_of gid = (if gid < 0 \<or> gid \<ge> int MAX_EVENT_GROUPS then None else Some (nat gid))"

text \<open>
  \<^verbatim>\<open>wake_waiters\<close>: passes of at most 16 records, until a pass does not fill its batch.  A record
  that matches is unlinked and carries the verdict and the snapshot.
\<close>

definition wakes :: "u32 \<Rightarrow> bool \<Rightarrow> event_waiter \<Rightarrow> bool" where
  "wakes snap cancel_all w \<longleftrightarrow> cancel_all \<or> pattern_match snap (ew_pattern w) (ew_mode w)"

definition mark :: "u32 \<Rightarrow> bool \<Rightarrow> event_waiter \<Rightarrow> event_waiter" where
  "mark snap cancel_all w = w\<lparr>ew_result := (if cancel_all then WAIT_CANCELLED else WAIT_OK),
     ew_result_flags := snap, ew_signaled := True\<rparr>"

function wake_loop ::
    "u32 \<Rightarrow> bool \<Rightarrow> nat list \<Rightarrow> (nat \<Rightarrow> event_waiter) \<Rightarrow> nat list \<times> (nat \<Rightarrow> event_waiter) \<times> nat list" where
  "wake_loop snap cancel_all ws st =
     (case collect_records (\<lambda>a. wakes snap cancel_all (st a)) 16 0 ws of (batch, rest) \<Rightarrow>
        let st' = fold (\<lambda>a s. s(a := mark snap cancel_all (s a))) batch st
        in if length batch < 16 then (rest, st', batch)
           else (case wake_loop snap cancel_all rest st' of (ws', st'', woken) \<Rightarrow> (ws', st'', batch @ woken)))"
  by pat_completeness auto
termination
  by (relation "measure (\<lambda>(snap, cancel_all, ws, st). length ws)") (auto dest: full_batch_less [OF sym])

declare wake_loop.simps [simp del]

definition wake_waiters :: "nat \<Rightarrow> u32 \<Rightarrow> bool \<Rightarrow> event_sys \<Rightarrow> event_sys \<times> nat list" where
  "wake_waiters i snap cancel_all s =
     (case wake_loop snap cancel_all (eg_waiters (s_groups s ! i)) (ew_store s) of (ws, st, woken) \<Rightarrow>
        (s\<lparr>s_groups := (s_groups s)[i := (s_groups s ! i)\<lparr>eg_waiters := ws\<rparr>], ew_store := st\<rparr>, woken))"

text \<open>
  The part of \<^verbatim>\<open>mutate_and_wake\<close> under the lock: the snapshot the waiters are judged by, or
  \<open>None\<close> where the call answers -1.
\<close>

definition mutate_locked :: "int \<Rightarrow> u32 \<Rightarrow> u32 \<Rightarrow> event_sys \<Rightarrow> event_sys \<times> (nat \<times> u32) option" where
  "mutate_locked gid bits op s =
     (case group_of gid of
        None \<Rightarrow> (s, None)
      | Some i \<Rightarrow>
          let g = s_groups s ! i
          in if \<not> eg_used g \<or> eg_poisoned g then (s, None)
             else let up = eg_flags g OR bits;
                      down = eg_flags g AND NOT bits;
                      (fl, snap) = (if op = EVENT_OP_SET then (up, up)
                                    else if op = EVENT_OP_CLEAR then (down, down)
                                    else (up AND NOT bits, up))
                  in (s\<lparr>s_groups := (s_groups s)[i := g\<lparr>eg_flags := fl\<rparr>]\<rparr>, Some (i, snap)))"

definition mutate_and_wake :: "int \<Rightarrow> u32 \<Rightarrow> u32 \<Rightarrow> event_sys \<Rightarrow> event_sys \<times> nat list \<times> int" where
  "mutate_and_wake gid bits op s =
     (case mutate_locked gid bits op s of
        (s1, None) \<Rightarrow> (s1, [], -1)
      | (s1, Some (i, snap)) \<Rightarrow> (case wake_waiters i snap False s1 of (s2, woken) \<Rightarrow> (s2, woken, 0)))"

definition blank_group :: event_group where
  "blank_group = \<lparr>eg_used = False, eg_poisoned = False, eg_owner = 0, eg_flags = 0, eg_waiters = []\<rparr>"

definition event_group_init_subsystem :: "(nat \<Rightarrow> event_waiter) \<Rightarrow> event_sys" where
  "event_group_init_subsystem st = \<lparr>s_groups = replicate MAX_EVENT_GROUPS blank_group, ew_store = st\<rparr>"

fun create_scan :: "int \<Rightarrow> nat \<Rightarrow> event_group list \<Rightarrow> event_group list \<times> int" where
  "create_scan own i [] = ([], -1)"
| "create_scan own i (g # gs) =
     (if \<not> eg_used g
      then (g\<lparr>eg_used := True, eg_flags := 0, eg_poisoned := False, eg_owner := own\<rparr> # gs, int i)
      else (case create_scan own (Suc i) gs of (gs', rc) \<Rightarrow> (g # gs', rc)))"

definition event_group_create :: "int \<Rightarrow> event_sys \<Rightarrow> event_sys \<times> int" where
  "event_group_create own s = (case create_scan own 0 (s_groups s) of (gs, rc) \<Rightarrow> (s\<lparr>s_groups := gs\<rparr>, rc))"

definition put_group :: "nat \<Rightarrow> event_group \<Rightarrow> event_sys \<Rightarrow> event_sys" where
  "put_group i g s = s\<lparr>s_groups := (s_groups s)[i := g]\<rparr>"

definition event_group_destroy :: "int \<Rightarrow> event_sys \<Rightarrow> event_sys \<times> nat list" where
  "event_group_destroy gid s =
     (case group_of gid of
        None \<Rightarrow> (s, [])
      | Some i \<Rightarrow>
          let g = s_groups s ! i
          in if \<not> eg_used g then (s, [])
             else case wake_waiters i (eg_flags g) True (put_group i (g\<lparr>eg_poisoned := True\<rparr>) s) of (s1, woken) \<Rightarrow>
               (put_group i ((s_groups s1 ! i)\<lparr>eg_used := False, eg_flags := 0, eg_poisoned := False,
                  eg_owner := 0\<rparr>) s1, woken))"

definition event_group_cleanup_process :: "int \<Rightarrow> event_sys \<Rightarrow> event_sys \<times> nat list" where
  "event_group_cleanup_process pid s =
     fold (\<lambda>i (s, woken). if eg_used (s_groups s ! i) \<and> eg_owner (s_groups s ! i) = pid
             then (case event_group_destroy (int i) s of (s', w) \<Rightarrow> (s', woken @ w)) else (s, woken))
       [0..<MAX_EVENT_GROUPS] (s, [])"

definition event_group_set :: "int \<Rightarrow> u32 \<Rightarrow> event_sys \<Rightarrow> event_sys \<times> nat list \<times> int" where
  "event_group_set gid bits = mutate_and_wake gid bits EVENT_OP_SET"

definition event_group_clear :: "int \<Rightarrow> u32 \<Rightarrow> event_sys \<Rightarrow> event_sys \<times> nat list \<times> int" where
  "event_group_clear gid bits = mutate_and_wake gid bits EVENT_OP_CLEAR"

definition event_group_pulse :: "int \<Rightarrow> u32 \<Rightarrow> event_sys \<Rightarrow> event_sys \<times> nat list \<times> int" where
  "event_group_pulse gid bits = mutate_and_wake gid bits EVENT_OP_PULSE"

definition event_group_poison :: "int \<Rightarrow> event_sys \<Rightarrow> event_sys \<times> nat list \<times> int" where
  "event_group_poison gid s =
     (case group_of gid of
        None \<Rightarrow> (s, [], -1)
      | Some i \<Rightarrow>
          let g = s_groups s ! i
          in if \<not> eg_used g then (s, [], -1)
             else case wake_waiters i (eg_flags g) True (put_group i (g\<lparr>eg_poisoned := True\<rparr>) s) of
               (s1, woken) \<Rightarrow> (s1, woken, 0))"

definition event_group_reset :: "int \<Rightarrow> event_sys \<Rightarrow> event_sys \<times> int" where
  "event_group_reset gid s =
     (case group_of gid of
        None \<Rightarrow> (s, -1)
      | Some i \<Rightarrow>
          let g = s_groups s ! i
          in if \<not> eg_used g then (s, -1)
             else (put_group i (g\<lparr>eg_flags := 0, eg_poisoned := False\<rparr>) s, 0))"

definition event_group_get_flags :: "int \<Rightarrow> event_sys \<Rightarrow> u32" where
  "event_group_get_flags gid s = (case group_of gid of None \<Rightarrow> 0 | Some i \<Rightarrow> eg_flags (s_groups s ! i))"

text \<open>
  \<^verbatim>\<open>event_group_wait\<close> until the thread is linked: \<open>Inl\<close> is a result with the flags it reports
  (none for an invalid group).  \<open>a\<close> is the address of the record.  Then the checks of its loop:
  after every preparation and every wake-up it looks at the record; after a timeout it takes the
  lock and unlinks itself unless a waker was faster.
\<close>

definition event_wait_begin ::
    "int \<Rightarrow> u32 \<Rightarrow> u8 \<Rightarrow> nat \<Rightarrow> event_sys \<Rightarrow> (int \<times> u32 option) + event_sys" where
  "event_wait_begin gid pat mode a s =
     (case group_of gid of
        None \<Rightarrow> Inl (WAIT_TIMEOUT, None)
      | Some i \<Rightarrow>
          let g = s_groups s ! i
          in if \<not> eg_used g then Inl (WAIT_TIMEOUT, None)
             else if eg_poisoned g then Inl (WAIT_CANCELLED, Some (eg_flags g))
             else if pattern_match (eg_flags g) pat mode then Inl (WAIT_OK, Some (eg_flags g))
             else Inr ((put_group i (g\<lparr>eg_waiters := eg_waiters g @ [a]\<rparr>) s)\<lparr>ew_store :=
               (ew_store s)(a := \<lparr>ew_pattern = pat, ew_mode = mode, ew_signaled = False,
                  ew_result = WAIT_TIMEOUT, ew_result_flags = 0\<rparr>)\<rparr>))"

definition event_wait_recheck :: "nat \<Rightarrow> event_sys \<Rightarrow> (int \<times> u32) option" where
  "event_wait_recheck a s =
     (let w = ew_store s a in if ew_signaled w then Some (ew_result w, ew_result_flags w) else None)"

definition event_wait_timeout :: "int \<Rightarrow> nat \<Rightarrow> event_sys \<Rightarrow> event_sys \<times> int \<times> u32" where
  "event_wait_timeout gid a s =
     (case group_of gid of
        None \<Rightarrow> (s, WAIT_TIMEOUT, 0)
      | Some i \<Rightarrow>
          let g = s_groups s ! i; w = ew_store s a
          in if ew_signaled w then (s, ew_result w, ew_result_flags w)
             else ((if a \<in> set (eg_waiters g)
                    then put_group i (g\<lparr>eg_waiters := remove1 a (eg_waiters g)\<rparr>) s else s),
                   WAIT_TIMEOUT, eg_flags g))"

section \<open>Waking\<close>

lemma mark_keeps [simp]: "ew_pattern (mark sn c w) = ew_pattern w" "ew_mode (mark sn c w) = ew_mode w"
  "wakes sn' c' (mark sn c w) = wakes sn' c' w" "mark sn c (mark sn c w) = mark sn c w"
  "ew_signaled (mark sn c w)"
  by (simp_all add: mark_def wakes_def)

lemma mark_fold: "fold (\<lambda>a s. s(a := mark sn c (s a))) as st b = (if b \<in> set as then mark sn c (st b) else st b)"
  by (induction "as" arbitrary: st) auto

lemma wakes_fold [simp]:
  "wakes sn' c' (fold (\<lambda>a s. s(a := mark sn c (s a))) as st b) = wakes sn' c' (st b)"
  by (simp add: mark_fold)

lemma wake_loop_spec:
  "wake_loop sn c ws st =
     (filter (\<lambda>a. \<not> wakes sn c (st a)) ws,
      (\<lambda>a. if a \<in> set ws \<and> wakes sn c (st a) then mark sn c (st a) else st a),
      filter (\<lambda>a. wakes sn c (st a)) ws)"
proof (induction sn c ws st rule: wake_loop.induct)
  case (1 sn c ws st)
  let ?P = "\<lambda>a. wakes sn c (st a)"
  obtain b rest where col: "collect_records ?P 16 0 ws = (b, rest)" by (meson surj_pair)
  let ?st' = "fold (\<lambda>a s. s(a := mark sn c (s a))) b st"
  have split: "filter ?P ws = b @ filter ?P rest" using collect_filter [OF col] by simp
  have others: "filter (\<lambda>a. \<not> ?P a) rest = filter (\<lambda>a. \<not> ?P a) ws" using collect_others [OF col] by simp
  have set: "a \<in> set ws \<and> ?P a \<longleftrightarrow> a \<in> set b \<or> a \<in> set rest \<and> ?P a" for a
    using arg_cong [OF split, of set] by auto
  show ?case
  proof (cases "length b < 16")
    case True
    then have dry: "b = filter ?P ws" "rest = filter (\<lambda>a. \<not> ?P a) ws" using collect_dry [OF col] by auto
    then have "?st' = (\<lambda>a. if a \<in> set ws \<and> ?P a then mark sn c (st a) else st a)"
      by (auto simp: mark_fold fun_eq_iff)
    with True dry col show ?thesis by (simp add: wake_loop.simps [of sn c ws st] Let_def)
  next
    case False
    have IH: "wake_loop sn c rest ?st' = (filter (\<lambda>a. \<not> ?P a) rest,
        (\<lambda>a. if a \<in> set rest \<and> ?P a then mark sn c (?st' a) else ?st' a), filter ?P rest)"
      using "1.IH" [OF col [symmetric] refl False] by simp
    moreover have "(if a \<in> set rest \<and> ?P a then mark sn c (?st' a) else ?st' a) =
        (if a \<in> set ws \<and> ?P a then mark sn c (st a) else st a)" for a
      using set [of a] by (auto simp: mark_fold)
    ultimately show ?thesis using False col split others
      by (simp add: wake_loop.simps [of sn c ws st] Let_def)
  qed
qed

text \<open>What waking group \<open>i\<close> does, without loops and batches.\<close>

definition woken_in :: "nat \<Rightarrow> u32 \<Rightarrow> bool \<Rightarrow> event_sys \<Rightarrow> nat list" where
  "woken_in i sn c s = filter (\<lambda>a. wakes sn c (ew_store s a)) (eg_waiters (s_groups s ! i))"

definition marked :: "nat list \<Rightarrow> u32 \<Rightarrow> bool \<Rightarrow> (nat \<Rightarrow> event_waiter) \<Rightarrow> nat \<Rightarrow> event_waiter" where
  "marked as sn c st a = (if a \<in> set as then mark sn c (st a) else st a)"

lemma wake_waiters_spec:
  "wake_waiters i sn c s =
     (s\<lparr>s_groups := (s_groups s)[i := (s_groups s ! i)\<lparr>eg_waiters :=
          filter (\<lambda>a. \<not> wakes sn c (ew_store s a)) (eg_waiters (s_groups s ! i))\<rparr>],
        ew_store := marked (woken_in i sn c s) sn c (ew_store s)\<rparr>, woken_in i sn c s)"
  by (simp add: wake_waiters_def wake_loop_spec woken_in_def marked_def fun_eq_iff)

definition new_flags :: "u32 \<Rightarrow> u32 \<Rightarrow> u32 \<Rightarrow> u32" where
  "new_flags op bits fl = (if op = EVENT_OP_SET then fl OR bits else fl AND NOT bits)"

definition snapshot :: "u32 \<Rightarrow> u32 \<Rightarrow> u32 \<Rightarrow> u32" where
  "snapshot op bits fl = (if op = EVENT_OP_CLEAR then fl AND NOT bits else fl OR bits)"

lemma or_and_not: "(a OR b) AND NOT b = a AND NOT (b :: u32)"
  by (rule bit_word_eqI) (auto simp: bit_simps)

definition usable :: "int \<Rightarrow> event_sys \<Rightarrow> bool" where
  "usable gid s \<longleftrightarrow> 0 \<le> gid \<and> gid < 32 \<and> eg_used (s_groups s ! nat gid) \<and> \<not> eg_poisoned (s_groups s ! nat gid)"

lemma group_of_Some: "group_of gid = Some i \<longleftrightarrow> 0 \<le> gid \<and> gid < 32 \<and> i = nat gid"
  by (auto simp: group_of_def MAX_EVENT_GROUPS_def)

lemma group_of_int [simp]: "group_of (int i) = (if i < 32 then Some i else None)"
  by (auto simp: group_of_def MAX_EVENT_GROUPS_def)

lemma group_of_nat: "0 \<le> gid \<Longrightarrow> gid < 32 \<Longrightarrow> group_of gid = Some (nat gid)"
  by (simp add: group_of_Some)

definition mutated :: "nat \<Rightarrow> u32 \<Rightarrow> u32 \<Rightarrow> event_sys \<Rightarrow> event_sys" where
  "mutated i bits op s =
     (let g = s_groups s ! i; sn = snapshot op bits (eg_flags g)
      in s\<lparr>s_groups := (s_groups s)[i := g\<lparr>eg_flags := new_flags op bits (eg_flags g),
             eg_waiters := filter (\<lambda>a. \<not> wakes sn False (ew_store s a)) (eg_waiters g)\<rparr>],
           ew_store := marked (woken_in i sn False s) sn False (ew_store s)\<rparr>)"

lemma mutate_and_wake_spec:
  assumes "length (s_groups s) = 32"
  shows "mutate_and_wake gid bits op s =
    (if usable gid s
     then (mutated (nat gid) bits op s,
           woken_in (nat gid) (snapshot op bits (eg_flags (s_groups s ! nat gid))) False s, 0)
     else (s, [], -1))"
proof (cases "usable gid s")
  case True
  then have g: "group_of gid = Some (nat gid)" "nat gid < 32" by (auto simp: usable_def group_of_nat)
  let ?g = "s_groups s ! nat gid"
  have "mutate_locked gid bits op s =
      (s\<lparr>s_groups := (s_groups s)[nat gid := ?g\<lparr>eg_flags := new_flags op bits (eg_flags ?g)\<rparr>]\<rparr>,
       Some (nat gid, snapshot op bits (eg_flags ?g)))"
    using True g by (auto simp: mutate_locked_def usable_def Let_def new_flags_def snapshot_def or_and_not
        EVENT_OP_SET_def EVENT_OP_CLEAR_def)
  then show ?thesis using True g assms
    by (simp add: mutate_and_wake_def wake_waiters_spec woken_in_def mutated_def Let_def)
next
  case False
  then have "mutate_locked gid bits op s = (s, None)"
    by (auto simp: mutate_locked_def usable_def group_of_Some Let_def split: option.split)
  with False show ?thesis by (simp add: mutate_and_wake_def)
qed

section \<open>Invariant\<close>

text \<open>
  A linked record is unsignalled and its condition does not hold; a group that is free or
  poisoned has no linked records; no record is linked twice.  Lowering bits without looking at the waiters, as a pulse of
  bits that were up and a reset do, can make the condition of a thread true that waits for bits to be clear.  With
  the flag \<open>calm\<close> there are no such calls and the invariant speaks of all records, without it of those
  that do not wait for clear bits.
\<close>

definition waits_clear :: "event_waiter \<Rightarrow> bool" where
  "waits_clear w \<longleftrightarrow> ew_mode w = RT_ALL_CLEAR \<or> ew_mode w = RT_ANY_CLEAR"

definition group_ok :: "bool \<Rightarrow> event_group \<Rightarrow> (nat \<Rightarrow> event_waiter) \<Rightarrow> bool" where
  "group_ok calm g st \<longleftrightarrow> distinct (eg_waiters g) \<and> (\<not> eg_used g \<or> eg_poisoned g \<longrightarrow> eg_waiters g = []) \<and>
     (\<not> eg_used g \<longrightarrow> \<not> eg_poisoned g) \<and>
     (\<forall>a \<in> set (eg_waiters g). \<not> ew_signaled (st a) \<and> (calm \<or> \<not> waits_clear (st a) \<longrightarrow> \<not> wakes (eg_flags g) False (st a)))"

definition eg_inv :: "bool \<Rightarrow> event_sys \<Rightarrow> bool" where
  "eg_inv calm s \<longleftrightarrow> length (s_groups s) = 32 \<and> (\<forall>i < 32. group_ok calm (s_groups s ! i) (ew_store s)) \<and>
     (\<forall>i < 32. \<forall>j < 32. i \<noteq> j \<longrightarrow> set (eg_waiters (s_groups s ! i)) \<inter> set (eg_waiters (s_groups s ! j)) = {})"

lemma eg_inv_length: "eg_inv calm s \<Longrightarrow> length (s_groups s) = 32"
  by (simp add: eg_inv_def)

lemma group_ok_cong:
  "(\<And>a. a \<in> set (eg_waiters g) \<Longrightarrow> st' a = st a) \<Longrightarrow> group_ok calm g st' = group_ok calm g st"
  by (simp add: group_ok_def)

text \<open>
  One group changes and its records shrink; the records of the others are untouched: the common
  core of all operations but the wait.
\<close>

lemma eg_inv_shrink:
  assumes inv: "eg_inv calm s" and i: "i < 32" and ok: "group_ok calm g st"
    and sub: "set (eg_waiters g) \<subseteq> set (eg_waiters (s_groups s ! i))"
    and st: "\<And>a. a \<notin> set (eg_waiters (s_groups s ! i)) \<Longrightarrow> st a = ew_store s a"
  shows "eg_inv calm (s\<lparr>s_groups := (s_groups s)[i := g], ew_store := st\<rparr>)"
proof -
  have disj: "set (eg_waiters (s_groups s ! j)) \<inter> set (eg_waiters (s_groups s ! k)) = {}"
    if "j < 32" "k < 32" "j \<noteq> k" for j k using inv that by (simp add: eg_inv_def)
  have len: "length (s_groups s) = 32" by (rule eg_inv_length [OF inv])
  have nth: "(s_groups s)[i := g] ! j = (if j = i then g else s_groups s ! j)" if "j < 32" for j
    using len that by (simp add: nth_list_update)
  have "group_ok calm ((s_groups s)[i := g] ! j) st" if j: "j < 32" for j
  proof (cases "j = i")
    case False
    have "st a = ew_store s a" if "a \<in> set (eg_waiters (s_groups s ! j))" for a
      using st disj [OF j i False] that by blast
    then have "group_ok calm (s_groups s ! j) st = group_ok calm (s_groups s ! j) (ew_store s)" by (rule group_ok_cong)
    with inv j False show ?thesis by (simp add: nth eg_inv_def)
  qed (use ok i len in simp)
  moreover have "set (eg_waiters ((s_groups s)[i := g] ! j)) \<inter> set (eg_waiters ((s_groups s)[i := g] ! k)) = {}"
    if "j < 32" "k < 32" "j \<noteq> k" for j k
    using disj [OF that] disj [OF i that(2)] disj [OF that(1) i] that sub unfolding nth [OF that(1)] nth [OF that(2)]
    by (cases "j = i"; cases "k = i") auto
  ultimately show ?thesis using len by (simp add: eg_inv_def)
qed

lemma eg_inv_group: "eg_inv calm s \<Longrightarrow> i < 32 \<Longrightarrow> group_ok calm (s_groups s ! i) (ew_store s)"
  by (simp add: eg_inv_def)

lemma wakes_False: "wakes sn False w = pattern_match sn (ew_pattern w) (ew_mode w)"
  by (simp add: wakes_def)

text \<open>A thread that does not wait for clear bits is not released by lowering bits.\<close>

lemma lowered_quiet:
  assumes "\<And>n. bit fl n \<Longrightarrow> bit sn n" and "\<not> waits_clear w" and "\<not> wakes sn False w"
  shows "\<not> wakes fl False w"
proof -
  have e: "fl AND sn = fl" using assms(1) by (intro bit_word_eqI) (auto simp: bit_and_iff)
  have "sn AND pat = pat" if "fl AND pat = pat" for pat
    using that e by (metis and.assoc and.commute)
  moreover have "sn AND pat \<noteq> 0" if "fl AND pat \<noteq> 0" for pat
    using that e by (metis and.assoc and_zero_eq)
  ultimately show ?thesis
    using assms(2,3) by (auto simp: wakes_False pattern_match_def waits_clear_def split: if_splits)
qed

lemma mutated_inv:
  assumes inv: "eg_inv calm s" and "usable gid s"
    and edge: "calm \<Longrightarrow> op \<noteq> EVENT_OP_SET \<Longrightarrow> op \<noteq> EVENT_OP_CLEAR \<Longrightarrow> eg_flags (s_groups s ! nat gid) AND bits = 0"
  shows "eg_inv calm (mutated (nat gid) bits op s)"
proof -
  let ?i = "nat gid" let ?g = "s_groups s ! ?i" let ?fl = "eg_flags ?g"
  let ?sn = "snapshot op bits ?fl"
  let ?ws = "filter (\<lambda>a. \<not> wakes ?sn False (ew_store s a)) (eg_waiters ?g)"
  let ?st = "marked (woken_in ?i ?sn False s) ?sn False (ew_store s)"
  have i: "?i < 32" and use: "eg_used ?g" "\<not> eg_poisoned ?g" using assms(2) by (auto simp: usable_def)
  have ok: "group_ok calm ?g (ew_store s)" by (rule eg_inv_group [OF inv i])
  have st: "?st a = ew_store s a" if "a \<in> set ?ws \<or> a \<notin> set (eg_waiters ?g)" for a
    using that by (auto simp: marked_def woken_in_def)
  have quiet: "\<not> wakes (new_flags op bits ?fl) False (ew_store s a)"
    if "a \<in> set ?ws" "calm \<or> \<not> waits_clear (ew_store s a)" for a
  proof (cases "op = EVENT_OP_SET \<or> op = EVENT_OP_CLEAR")
    case True
    then have "new_flags op bits ?fl = ?sn"
      by (auto simp: new_flags_def snapshot_def EVENT_OP_SET_def EVENT_OP_CLEAR_def)
    with that show ?thesis by simp
  next
    case pulse: False
    show ?thesis
    proof (cases calm)
    case False
    have "bit (new_flags op bits ?fl) n \<Longrightarrow> bit ?sn n" for n
      using pulse by (auto simp: new_flags_def snapshot_def bit_simps)
    then show ?thesis using lowered_quiet that False by auto
  next
    case True
    then have z: "?fl AND bits = 0" using edge pulse by simp
    have "?fl AND NOT bits = ?fl"
    proof (rule bit_word_eqI)
      fix n show "bit (?fl AND NOT bits) n = bit ?fl n"
        using arg_cong [OF z, of "\<lambda>w. bit w n"] by (auto simp: bit_simps dest: bit_u32_less)
    qed
    with pulse have "new_flags op bits ?fl = ?fl" by (simp add: new_flags_def)
    with ok that True show ?thesis by (simp add: group_ok_def)
    qed
  qed
  have "group_ok calm (?g\<lparr>eg_flags := new_flags op bits ?fl, eg_waiters := ?ws\<rparr>) ?st"
    using ok use quiet st by (auto simp: group_ok_def)
  then show ?thesis using i st
    by (simp only: mutated_def Let_def) (rule eg_inv_shrink [OF inv i], auto)
qed

section \<open>Cancelling\<close>

definition closed_group :: "event_group \<Rightarrow> event_group" where
  "closed_group g = g\<lparr>eg_waiters := [], eg_used := False, eg_flags := 0, eg_poisoned := False, eg_owner := 0\<rparr>"

definition destroyed :: "nat \<Rightarrow> event_sys \<Rightarrow> event_sys" where
  "destroyed i s = s\<lparr>
     ew_store := marked (eg_waiters (s_groups s ! i)) (eg_flags (s_groups s ! i)) True (ew_store s),
     s_groups := (s_groups s)[i := closed_group (s_groups s ! i)]\<rparr>"

lemma wakes_cancel [simp]: "wakes sn True w"
  by (simp add: wakes_def)

lemma destroy_spec:
  assumes "length (s_groups s) = 32" and "i < 32"
  shows "event_group_destroy (int i) s =
    (if eg_used (s_groups s ! i) then (destroyed i s, eg_waiters (s_groups s ! i)) else (s, []))"
  using assms
  by (simp add: event_group_destroy_def Let_def wake_waiters_spec put_group_def woken_in_def destroyed_def closed_group_def)

lemma destroyed_inv:
  assumes "eg_inv calm s" and "i < 32"
  shows "eg_inv calm (destroyed i s)"
proof -
  have "group_ok calm (closed_group (s_groups s ! i)) st" for st by (simp add: group_ok_def closed_group_def)
  from eg_inv_shrink [OF assms this, of "ew_store (destroyed i s)"] show ?thesis
    by (simp add: destroyed_def marked_def closed_group_def eg_inv_def)
qed

lemma recheck_marked:
  "a \<in> set as \<Longrightarrow> ew_store s = marked as sn c st \<Longrightarrow>
   event_wait_recheck a s = Some (if c then WAIT_CANCELLED else WAIT_OK, sn)"
  by (simp add: event_wait_recheck_def marked_def mark_def)

definition owned_group :: "int \<Rightarrow> event_sys \<Rightarrow> nat \<Rightarrow> bool" where
  "owned_group pid s i \<longleftrightarrow> eg_used (s_groups s ! i) \<and> eg_owner (s_groups s ! i) = pid"

definition cleanup_step :: "int \<Rightarrow> nat \<Rightarrow> event_sys \<times> nat list \<Rightarrow> event_sys \<times> nat list" where
  "cleanup_step pid i p = (if owned_group pid (fst p) i
     then (destroyed i (fst p), snd p @ eg_waiters (s_groups (fst p) ! i)) else p)"

text \<open>The state after the first \<open>n\<close> groups have been visited.\<close>

definition cleaned :: "int \<Rightarrow> nat \<Rightarrow> event_sys \<Rightarrow> event_sys \<Rightarrow> bool" where
  "cleaned pid n s t \<longleftrightarrow> (\<forall>i < 32.
     (if i < n \<and> owned_group pid s i
      then s_groups t ! i = closed_group (s_groups s ! i) \<and>
           (\<forall>a \<in> set (eg_waiters (s_groups s ! i)).
              ew_store t a = mark (eg_flags (s_groups s ! i)) True (ew_store s a))
      else s_groups t ! i = s_groups s ! i \<and>
           (\<forall>a \<in> set (eg_waiters (s_groups s ! i)). ew_store t a = ew_store s a)))"

lemma cleaned_destroy:
  assumes inv: "eg_inv calm s" and len: "length (s_groups t) = 32" and n: "n < 32" and own: "owned_group pid s n"
    and c: "cleaned pid n s t"
  shows "cleaned pid (Suc n) s (destroyed n t)"
proof -
  have gn: "s_groups t ! n = s_groups s ! n"
    and sn: "\<forall>a \<in> set (eg_waiters (s_groups s ! n)). ew_store t a = ew_store s a"
    using c n by (auto simp: cleaned_def)
  have store: "ew_store (destroyed n t) a =
      (if a \<in> set (eg_waiters (s_groups s ! n)) then mark (eg_flags (s_groups s ! n)) True (ew_store t a) else ew_store t a)" for a
    by (simp add: destroyed_def marked_def gn)
  have grp: "s_groups (destroyed n t) ! i = (if i = n then closed_group (s_groups s ! n) else s_groups t ! i)" if "i < 32" for i
    using that len by (simp add: destroyed_def gn nth_list_update)
  show ?thesis unfolding cleaned_def
  proof (intro allI impI)
    fix i :: nat assume i: "i < 32"
    show "if i < Suc n \<and> owned_group pid s i
      then s_groups (destroyed n t) ! i = closed_group (s_groups s ! i) \<and>
           (\<forall>a \<in> set (eg_waiters (s_groups s ! i)).
              ew_store (destroyed n t) a = mark (eg_flags (s_groups s ! i)) True (ew_store s a))
      else s_groups (destroyed n t) ! i = s_groups s ! i \<and>
           (\<forall>a \<in> set (eg_waiters (s_groups s ! i)). ew_store (destroyed n t) a = ew_store s a)"
    proof (cases "i = n")
      case True
      then show ?thesis using own sn i by (simp add: store grp)
    next
      case False
      have "a \<notin> set (eg_waiters (s_groups s ! n))" if "a \<in> set (eg_waiters (s_groups s ! i))" for a
        using inv i n False that unfolding eg_inv_def by blast
      then have "ew_store (destroyed n t) a = ew_store t a" if "a \<in> set (eg_waiters (s_groups s ! i))" for a
        using that by (simp add: store)
      then show ?thesis using c i False unfolding cleaned_def by (simp add: grp less_Suc_eq)
    qed
  qed
qed

lemma cleanup_steps:
  assumes "eg_inv calm s" and "n \<le> 32"
  shows "eg_inv calm (fst (fold (cleanup_step pid) [0..<n] (s, []))) \<and>
    cleaned pid n s (fst (fold (cleanup_step pid) [0..<n] (s, []))) \<and>
    snd (fold (cleanup_step pid) [0..<n] (s, [])) =
      concat (map (\<lambda>i. eg_waiters (s_groups s ! i)) (filter (owned_group pid s) [0..<n]))"
  using assms(2)
proof (induction n)
  case 0
  then show ?case using assms(1) by (simp add: cleaned_def)
next
  case (Suc n)
  let ?p = "fold (cleanup_step pid) [0..<n] (s, [])"
  have IH: "eg_inv calm (fst ?p)" "cleaned pid n s (fst ?p)"
    "snd ?p = concat (map (\<lambda>i. eg_waiters (s_groups s ! i)) (filter (owned_group pid s) [0..<n]))"
    using Suc by auto
  have gn: "s_groups (fst ?p) ! n = s_groups s ! n" using IH(2) Suc.prems by (simp add: cleaned_def)
  then have own: "owned_group pid (fst ?p) n = owned_group pid s n" by (simp add: owned_group_def)
  show ?case
  proof (cases "owned_group pid s n")
    case True
    then have "cleanup_step pid n ?p = (destroyed n (fst ?p), snd ?p @ eg_waiters (s_groups s ! n))"
      using own gn by (simp add: cleanup_step_def)
    moreover have "cleaned pid (Suc n) s (destroyed n (fst ?p))"
      using Suc.prems IH by (intro cleaned_destroy [OF assms(1) _ _ True]) (simp_all add: eg_inv_length)
    moreover have "eg_inv calm (destroyed n (fst ?p))" using IH(1) Suc.prems by (simp add: destroyed_inv)
    ultimately show ?thesis using True IH(3) by simp
  next
    case False
    then have "cleanup_step pid n ?p = ?p" using own by (simp add: cleanup_step_def)
    moreover have "cleaned pid (Suc n) s (fst ?p)" using False IH(2) by (auto simp: cleaned_def less_Suc_eq)
    ultimately show ?thesis using False IH by simp
  qed
qed

lemma cleanup_process_steps:
  assumes "eg_inv calm s"
  shows "event_group_cleanup_process pid s = fold (cleanup_step pid) [0..<32] (s, [])"
proof -
  let ?F = "\<lambda>i (s, woken). if eg_used (s_groups s ! i) \<and> eg_owner (s_groups s ! i) = pid
             then (case event_group_destroy (int i) s of (s', w) \<Rightarrow> (s', woken @ w)) else (s, woken)"
  have "fold ?F [0..<n] (s, []) = fold (cleanup_step pid) [0..<n] (s, [])" if "n \<le> 32" for n
    using that
  proof (induction n)
    case (Suc n)
    obtain t w where p: "fold (cleanup_step pid) [0..<n] (s, []) = (t, w)" by (meson surj_pair)
    have "eg_inv calm t" using cleanup_steps [OF assms, of n pid] Suc.prems by (simp add: p)
    then have "event_group_destroy (int n) t =
        (if eg_used (s_groups t ! n) then (destroyed n t, eg_waiters (s_groups t ! n)) else (t, []))"
      using Suc.prems by (intro destroy_spec) (simp_all add: eg_inv_length)
    then have "?F n (t, w) = cleanup_step pid n (t, w)" by (simp add: cleanup_step_def owned_group_def)
    then show ?case using Suc by (simp add: p)
  qed simp
  then show ?thesis by (simp add: event_group_cleanup_process_def MAX_EVENT_GROUPS_def)
qed

section \<open>The other operations keep the invariant\<close>

lemma poison_spec:
  assumes "length (s_groups s) = 32" and "i < 32" and "eg_used (s_groups s ! i)"
  shows "event_group_poison (int i) s =
    (s\<lparr>s_groups := (s_groups s)[i := (s_groups s ! i)\<lparr>eg_poisoned := True, eg_waiters := []\<rparr>],
       ew_store := marked (eg_waiters (s_groups s ! i)) (eg_flags (s_groups s ! i)) True (ew_store s)\<rparr>,
     eg_waiters (s_groups s ! i), 0)"
  using assms by (simp add: event_group_poison_def Let_def wake_waiters_spec put_group_def woken_in_def)

lemma put_group_inv:
  assumes "eg_inv calm s" and "i < 32" and "group_ok calm g (ew_store s)"
    and "set (eg_waiters g) \<subseteq> set (eg_waiters (s_groups s ! i))"
  shows "eg_inv calm (put_group i g s)"
  using eg_inv_shrink [OF assms(1-4)] by (simp add: put_group_def)

lemma create_scan_spec:
  "create_scan own i gs = (gs', rc) \<Longrightarrow>
   (rc = -1 \<and> gs' = gs \<and> (\<forall>g \<in> set gs. eg_used g)) \<or>
   (\<exists>k < length gs. rc = int (i + k) \<and> \<not> eg_used (gs ! k) \<and> (\<forall>j < k. eg_used (gs ! j)) \<and>
      gs' = gs[k := (gs ! k)\<lparr>eg_used := True, eg_flags := 0, eg_poisoned := False, eg_owner := own\<rparr>])"
proof (induction own i gs arbitrary: gs' rc rule: create_scan.induct)
  case (2 own i g gs)
  show ?case
  proof (cases "eg_used g")
    case False
    with 2 show ?thesis by (intro disjI2 exI [of _ 0]) auto
  next
    case True
    obtain gs1 where rec: "create_scan own (Suc i) gs = (gs1, rc)" "gs' = g # gs1"
      using "2.prems" True by (auto split: prod.splits)
    from "2.IH" [OF _ rec(1)] True consider "rc = -1" "gs1 = gs" "\<forall>g \<in> set gs. eg_used g"
      | k where "k < length gs" "rc = int (Suc i + k)" "\<not> eg_used (gs ! k)" "\<forall>j < k. eg_used (gs ! j)"
        "gs1 = gs[k := (gs ! k)\<lparr>eg_used := True, eg_flags := 0, eg_poisoned := False, eg_owner := own\<rparr>]"
      by auto
    then show ?thesis
    proof cases
      case 1
      with rec True show ?thesis by simp
    next
      case (2 k)
      with rec True show ?thesis
        by (intro disjI2 exI [of _ "Suc k"]) (auto simp: less_Suc_eq_0_disj)
    qed
  qed
qed simp

lemma create_inv:
  assumes inv: "eg_inv calm s" and call: "event_group_create own s = (s', rc)"
  shows "eg_inv calm s'"
proof -
  obtain gs where c: "create_scan own 0 (s_groups s) = (gs, rc)" "s' = s\<lparr>s_groups := gs\<rparr>"
    using call by (auto simp: event_group_create_def split: prod.splits)
  from create_scan_spec [OF c(1)] show ?thesis
  proof (elim disjE exE conjE)
    fix k assume k: "k < length (s_groups s)" "\<not> eg_used (s_groups s ! k)"
      and gs: "gs = (s_groups s)[k := (s_groups s ! k)\<lparr>eg_used := True, eg_flags := 0, eg_poisoned := False, eg_owner := own\<rparr>]"
    have k32: "k < 32" using k(1) inv by (simp add: eg_inv_length)
    have "group_ok calm (s_groups s ! k) (ew_store s)" by (rule eg_inv_group [OF inv k32])
    then show ?thesis using k(2) put_group_inv [OF inv k32, of "(s_groups s ! k)\<lparr>eg_used := True, eg_flags := 0, eg_poisoned := False, eg_owner := own\<rparr>"]
      by (simp add: c(2) gs put_group_def group_ok_def)
  qed (use inv c in simp)
qed

lemma timeout_inv:
  assumes inv: "eg_inv calm s" and "event_wait_timeout gid a s = (s', out)"
  shows "eg_inv calm s'"
proof (cases "group_of gid")
  case None
  with assms show ?thesis by (simp add: event_wait_timeout_def)
next
  case (Some i)
  then have i: "i < 32" by (auto simp: group_of_Some)
  let ?g = "s_groups s ! i"
  have "group_ok calm ?g (ew_store s)" by (rule eg_inv_group [OF inv i])
  then have "group_ok calm (?g\<lparr>eg_waiters := remove1 a (eg_waiters ?g)\<rparr>) (ew_store s)"
    using notin_set_remove1 by (auto simp: group_ok_def)
  then have "eg_inv calm (put_group i (?g\<lparr>eg_waiters := remove1 a (eg_waiters ?g)\<rparr>) s)"
    by (rule put_group_inv [OF inv i]) (simp add: set_remove1_subset)
  with assms Some show ?thesis by (auto simp: event_wait_timeout_def Let_def split: if_splits)
qed

lemma wait_inv:
  assumes inv: "eg_inv calm s" and fresh: "\<forall>i < 32. a \<notin> set (eg_waiters (s_groups s ! i))"
    and call: "event_wait_begin gid pat mode a s = Inr s'"
  shows "eg_inv calm s'"
proof -
  define w where "w = \<lparr>ew_pattern = pat, ew_mode = mode, ew_signaled = False, ew_result = WAIT_TIMEOUT, ew_result_flags = 0\<rparr>"
  define i where "i = nat gid"
  have i: "i < 32" "eg_used (s_groups s ! i)" "\<not> eg_poisoned (s_groups s ! i)"
    "\<not> pattern_match (eg_flags (s_groups s ! i)) pat mode"
    and s': "s' = s\<lparr>s_groups := (s_groups s)[i := (s_groups s ! i)\<lparr>eg_waiters := eg_waiters (s_groups s ! i) @ [a]\<rparr>],
      ew_store := (ew_store s)(a := w)\<rparr>"
    using call unfolding event_wait_begin_def w_def i_def
    by (auto simp: Let_def put_group_def group_of_Some split: option.splits if_splits)
  let ?g = "s_groups s ! i" let ?g' = "?g\<lparr>eg_waiters := eg_waiters ?g @ [a]\<rparr>"
  let ?st = "(ew_store s)(a := w)"
  have len: "length (s_groups s) = 32" by (rule eg_inv_length [OF inv])
  have nth: "(s_groups s)[i := ?g'] ! j = (if j = i then ?g' else s_groups s ! j)" if "j < 32" for j
    using len that by (simp add: nth_list_update)
  have "group_ok calm ?g (ew_store s)" by (rule eg_inv_group [OF inv i(1)])
  then have ok: "group_ok calm ?g' ?st" using i fresh by (auto simp: group_ok_def w_def wakes_False)
  have "group_ok calm ((s_groups s)[i := ?g'] ! j) ?st" if j: "j < 32" for j
  proof (cases "j = i")
    case False
    have "group_ok calm (s_groups s ! j) ?st = group_ok calm (s_groups s ! j) (ew_store s)"
      using fresh j by (intro group_ok_cong) auto
    with False show ?thesis using eg_inv_group [OF inv j] by (simp add: nth [OF j])
  qed (use ok i len in simp)
  moreover have "set (eg_waiters ((s_groups s)[i := ?g'] ! j)) \<inter> set (eg_waiters ((s_groups s)[i := ?g'] ! k)) = {}"
    if jk: "j < 32" "k < 32" "j \<noteq> k" for j k
  proof -
    have "set (eg_waiters (s_groups s ! j)) \<inter> set (eg_waiters (s_groups s ! k)) = {}"
      using inv jk by (simp add: eg_inv_def)
    with fresh jk show ?thesis unfolding nth [OF jk(1)] nth [OF jk(2)] by auto
  qed
  ultimately show ?thesis using len by (simp add: eg_inv_def s')
qed

section \<open>Operations as steps\<close>

text \<open>
  Complete operations as steps: every call of the interface, with any arguments.  A thread that waits owns a fresh record.  With
  the flag \<open>calm\<close>, bits are pulsed only while they are low, and a group is reset only while nobody waits in
  it; \<open>event_reset_pulse_miss\<close> shows what happens otherwise.
\<close>

inductive eg_step :: "bool \<Rightarrow> event_sys \<Rightarrow> event_sys \<Rightarrow> bool" for calm where
  create: "event_group_create own s = (s', rc) \<Longrightarrow> eg_step calm s s'"
| destroy: "event_group_destroy gid s = (s', woken) \<Longrightarrow> eg_step calm s s'"
| cleanup: "event_group_cleanup_process pid s = (s', woken) \<Longrightarrow> eg_step calm s s'"
| set_bits: "event_group_set gid bits s = (s', woken, rc) \<Longrightarrow> eg_step calm s s'"
| clear_bits: "event_group_clear gid bits s = (s', woken, rc) \<Longrightarrow> eg_step calm s s'"
| pulse_bits: "event_group_pulse gid bits s = (s', woken, rc) \<Longrightarrow>
    (calm \<longrightarrow> event_group_get_flags gid s AND bits = 0) \<Longrightarrow> eg_step calm s s'"
| poison: "event_group_poison gid s = (s', woken, rc) \<Longrightarrow> eg_step calm s s'"
| reset: "event_group_reset gid s = (s', rc) \<Longrightarrow>
    (\<And>i. calm \<Longrightarrow> group_of gid = Some i \<Longrightarrow> eg_waiters (s_groups s ! i) = []) \<Longrightarrow> eg_step calm s s'"
| wait: "(\<forall>i < 32. a \<notin> set (eg_waiters (s_groups s ! i))) \<Longrightarrow>
    event_wait_begin gid pat mode a s = Inr s' \<Longrightarrow> eg_step calm s s'"
| timeout: "event_wait_timeout gid a s = (s', out) \<Longrightarrow> eg_step calm s s'"

lemma mutate_step:
  assumes "eg_inv calm s" and "mutate_and_wake gid bits op s = (s', woken, rc)"
    and "calm \<Longrightarrow> op \<noteq> EVENT_OP_SET \<Longrightarrow> op \<noteq> EVENT_OP_CLEAR \<Longrightarrow> usable gid s \<Longrightarrow> eg_flags (s_groups s ! nat gid) AND bits = 0"
  shows "eg_inv calm s'"
  using assms mutated_inv [OF assms(1), of gid op bits]
  by (auto simp: mutate_and_wake_spec eg_inv_length split: if_splits)

lemma poison_inv:
  assumes inv: "eg_inv calm s" and call: "event_group_poison gid s = (s', woken, rc)"
  shows "eg_inv calm s'"
proof (cases "0 \<le> gid \<and> gid < 32 \<and> eg_used (s_groups s ! nat gid)")
  case True
  let ?g = "s_groups s ! nat gid"
  have ok: "group_ok calm (?g\<lparr>eg_poisoned := True, eg_waiters := []\<rparr>) st" for st
    using True by (simp add: group_ok_def)
  have i: "nat gid < 32" using True by auto
  from eg_inv_shrink [OF inv i ok, of "marked (eg_waiters ?g) (eg_flags ?g) True (ew_store s)"]
  show ?thesis using call poison_spec [of s "nat gid"] True i inv by (simp add: eg_inv_length marked_def)
next
  case False
  with call inv show ?thesis
    by (auto simp: event_group_poison_def group_of_Some Let_def split: option.splits)
qed

lemma reset_inv:
  assumes inv: "eg_inv calm s" and call: "event_group_reset gid s = (s', rc)"
    and idle: "\<And>i. calm \<Longrightarrow> group_of gid = Some i \<Longrightarrow> eg_waiters (s_groups s ! i) = []"
  shows "eg_inv calm s'"
proof (cases "group_of gid")
  case None
  with call inv show ?thesis by (simp add: event_group_reset_def)
next
  case (Some i)
  then have i: "i < 32" by (auto simp: group_of_Some)
  let ?g = "s_groups s ! i"
  have old: "group_ok calm ?g (ew_store s)" by (rule eg_inv_group [OF inv i])
  have "\<not> wakes 0 False (ew_store s a)" if "a \<in> set (eg_waiters ?g)" "\<not> waits_clear (ew_store s a)" for a
    using lowered_quiet [OF _ that(2), of 0 "eg_flags ?g"] old that by (simp add: group_ok_def)
  then have "group_ok calm (?g\<lparr>eg_flags := 0, eg_poisoned := False\<rparr>) (ew_store s)"
    using old idle [OF _ Some] by (auto simp: group_ok_def)
  then have "eg_inv calm (put_group i (?g\<lparr>eg_flags := 0, eg_poisoned := False\<rparr>) s)"
    by (rule put_group_inv [OF inv i]) simp
  with call inv Some show ?thesis by (auto simp: event_group_reset_def Let_def split: if_splits)
qed

lemma destroy_inv:
  assumes inv: "eg_inv calm s" and call: "event_group_destroy gid s = (s', woken)"
  shows "eg_inv calm s'"
proof (cases "0 \<le> gid \<and> gid < 32")
  case True
  then have "event_group_destroy (int (nat gid)) s = (s', woken)" using call by simp
  with destroy_spec [of s "nat gid"] destroyed_inv [OF inv, of "nat gid"] inv True
  show ?thesis by (auto simp: eg_inv_length split: if_splits)
next
  case False
  with call inv show ?thesis by (auto simp: event_group_destroy_def group_of_def MAX_EVENT_GROUPS_def)
qed

lemma eg_step_inv: "eg_step calm s s' \<Longrightarrow> eg_inv calm s \<Longrightarrow> eg_inv calm s'"
proof (induction rule: eg_step.induct)
  case (cleanup pid s s' woken)
  then show ?case using cleanup_steps [of calm s 32 pid] by (simp add: cleanup_process_steps)
next
  case (set_bits gid bits s s' woken rc)
  show ?case by (rule mutate_step [OF set_bits(2) set_bits(1) [unfolded event_group_set_def]]) simp_all
next
  case (clear_bits gid bits s s' woken rc)
  show ?case by (rule mutate_step [OF clear_bits(2) clear_bits(1) [unfolded event_group_clear_def]]) simp_all
next
  case (pulse_bits gid bits s s' woken rc)
  show ?case
  proof (rule mutate_step [OF pulse_bits(3) pulse_bits(1) [unfolded event_group_pulse_def]])
    assume calm "usable gid s"
    then show "eg_flags (s_groups s ! nat gid) AND bits = 0"
      using pulse_bits(2) by (simp add: event_group_get_flags_def usable_def group_of_nat)
  qed
next
  case (reset gid s s' rc)
  show ?case by (rule reset_inv [OF reset(3,1)]) (rule reset(2))
next
  case (wait s a gid pat mode s')
  show ?case by (rule wait_inv [OF wait(3,1,2)])
qed (erule create_inv destroy_inv poison_inv timeout_inv; assumption)+

section \<open>Properties\<close>

text \<open>
  C9: set, clear and pulse do exactly what is promised, for any number of waiters.  On a usable group the
  call returns 0, sets or clears the given bits (a pulse leaves them low), wakes exactly the
  threads whose condition holds in the snapshot (a pulse shows the bits high), in the order
  they came, gives each of them \<^verbatim>\<open>WAIT_OK\<close> and that snapshot, and leaves every other thread linked
  and every other record and group as it was.  On an invalid, free or poisoned group it returns
  -1 and changes nothing.
\<close>

theorem event_mutate_exact:
  assumes "length (s_groups s) = 32" and "mutate_and_wake gid bits op s = (s', woken, rc)"
  shows "(\<not> usable gid s \<longrightarrow> s' = s \<and> woken = [] \<and> rc = -1) \<and>
    (usable gid s \<longrightarrow> rc = 0 \<and>
      (let g = s_groups s ! nat gid; g' = s_groups s' ! nat gid; sn = snapshot op bits (eg_flags g) in
        (\<forall>n. bit (eg_flags g') n \<longleftrightarrow> (if op = EVENT_OP_SET then bit (eg_flags g) n \<or> bit bits n
                                       else bit (eg_flags g) n \<and> \<not> bit bits n)) \<and>
        (\<forall>n. bit sn n \<longleftrightarrow> (if op = EVENT_OP_CLEAR then bit (eg_flags g) n \<and> \<not> bit bits n
                               else bit (eg_flags g) n \<or> bit bits n)) \<and>
        woken = filter (\<lambda>a. pattern_match sn (ew_pattern (ew_store s a)) (ew_mode (ew_store s a))) (eg_waiters g) \<and>
        eg_waiters g' = filter (\<lambda>a. \<not> pattern_match sn (ew_pattern (ew_store s a)) (ew_mode (ew_store s a))) (eg_waiters g) \<and>
        (\<forall>a \<in> set woken. event_wait_recheck a s' = Some (WAIT_OK, sn)) \<and>
        (\<forall>a. a \<notin> set woken \<longrightarrow> ew_store s' a = ew_store s a) \<and>
        (\<forall>j. j \<noteq> nat gid \<longrightarrow> s_groups s' ! j = s_groups s ! j)))"
proof (cases "usable gid s")
  case False
  with assms show ?thesis by (simp add: mutate_and_wake_spec)
next
  case True
  let ?g = "s_groups s ! nat gid"
  let ?sn = "snapshot op bits (eg_flags ?g)"
  have i: "nat gid < length (s_groups s)" using True assms(1) by (auto simp: usable_def)
  have s': "s' = mutated (nat gid) bits op s" "woken = woken_in (nat gid) ?sn False s" "rc = 0"
    using True assms by (simp_all add: mutate_and_wake_spec)
  have g': "s_groups s' ! nat gid = ?g\<lparr>eg_flags := new_flags op bits (eg_flags ?g),
      eg_waiters := filter (\<lambda>a. \<not> wakes ?sn False (ew_store s a)) (eg_waiters ?g)\<rparr>"
    using i by (simp add: s' mutated_def Let_def)
  have st: "ew_store s' = marked woken ?sn False (ew_store s)" by (simp add: s' mutated_def Let_def)
  have others: "s_groups s' ! j = s_groups s ! j" if "j \<noteq> nat gid" for j
    using that by (simp add: s'(1) mutated_def Let_def)
  have bits: "bit (new_flags op bits (eg_flags ?g)) n \<longleftrightarrow>
      (if op = EVENT_OP_SET then bit (eg_flags ?g) n \<or> bit bits n else bit (eg_flags ?g) n \<and> \<not> bit bits n)"
    and snap: "bit ?sn n \<longleftrightarrow>
      (if op = EVENT_OP_CLEAR then bit (eg_flags ?g) n \<and> \<not> bit bits n else bit (eg_flags ?g) n \<or> bit bits n)" for n
    by (auto simp: new_flags_def snapshot_def bit_simps dest: bit_u32_less)
  have "event_wait_recheck a s' = Some (WAIT_OK, ?sn)" if "a \<in> set woken" for a
    using recheck_marked [OF that st] by simp
  moreover have "ew_store s' a = ew_store s a" if "a \<notin> set woken" for a using that st by (simp add: marked_def)
  ultimately show ?thesis
    using True others bits snap by (simp add: Let_def g' s'(3)) (simp add: s'(2) woken_in_def wakes_False)
qed

text \<open>
  C37: nobody sleeps through its condition.  After any sequence of calls of the interface from the
  initial state, each run to its end, every linked thread waits in a group that is in use and not poisoned, has not been
  signalled, and, unless it waits for bits to be clear, its condition is false in the current flags.
  The same holds of the threads that wait for clear bits when pulses touch only bits that are low and
  resets only groups without waiters (the flag \<open>calm\<close>); without that they can be missed.
\<close>

theorem event_no_missed_wake:
  assumes "(eg_step calm)\<^sup>*\<^sup>* (event_group_init_subsystem st) s" and "i < 32" and "a \<in> set (eg_waiters (s_groups s ! i))"
  shows "eg_used (s_groups s ! i) \<and> \<not> eg_poisoned (s_groups s ! i) \<and> event_wait_recheck a s = None \<and>
    (calm \<or> ew_mode (ew_store s a) \<notin> {RT_ALL_CLEAR, RT_ANY_CLEAR} \<longrightarrow>
       \<not> pattern_match (eg_flags (s_groups s ! i)) (ew_pattern (ew_store s a)) (ew_mode (ew_store s a)))"
proof -
  have "eg_inv calm (event_group_init_subsystem st)"
    by (simp add: eg_inv_def event_group_init_subsystem_def MAX_EVENT_GROUPS_def group_ok_def blank_group_def)
  with assms(1) have "eg_inv calm s" by (induction rule: rtranclp_induct) (auto simp: eg_step_inv)
  then have "group_ok calm (s_groups s ! i) (ew_store s)" using assms(2) by (rule eg_inv_group)
  with assms(3) show ?thesis by (auto simp: group_ok_def wakes_False event_wait_recheck_def waits_clear_def)
qed

text \<open>
  The end of a process cancels exactly its groups.  Every group it owned is free afterwards and
  every thread that waited there returns \<^verbatim>\<open>WAIT_CANCELLED\<close> with the flags the group had; all other
  groups and the records of their waiters are as before.
\<close>

theorem event_cleanup_cancels:
  assumes "eg_inv calm s" and "event_group_cleanup_process pid s = (s', woken)"
  shows "eg_inv calm s' \<and>
    woken = concat (map (\<lambda>i. eg_waiters (s_groups s ! i)) (filter (owned_group pid s) [0..<32])) \<and>
    (\<forall>i < 32. if owned_group pid s i
       then \<not> eg_used (s_groups s' ! i) \<and> eg_waiters (s_groups s' ! i) = [] \<and>
            (\<forall>a \<in> set (eg_waiters (s_groups s ! i)).
               event_wait_recheck a s' = Some (WAIT_CANCELLED, eg_flags (s_groups s ! i)))
       else s_groups s' ! i = s_groups s ! i \<and>
            (\<forall>a \<in> set (eg_waiters (s_groups s ! i)). ew_store s' a = ew_store s a))"
proof -
  have call: "fold (cleanup_step pid) [0..<32] (s, []) = (s', woken)"
    using assms by (simp add: cleanup_process_steps)
  note spec = cleanup_steps [OF assms(1), of 32 pid, unfolded call, simplified]
  have group: "if owned_group pid s i
      then s_groups s' ! i = closed_group (s_groups s ! i) \<and>
           (\<forall>a \<in> set (eg_waiters (s_groups s ! i)).
              ew_store s' a = mark (eg_flags (s_groups s ! i)) True (ew_store s a))
      else s_groups s' ! i = s_groups s ! i \<and>
           (\<forall>a \<in> set (eg_waiters (s_groups s ! i)). ew_store s' a = ew_store s a)" if "i < 32" for i
    using spec that unfolding cleaned_def by simp
  have "if owned_group pid s i
       then \<not> eg_used (s_groups s' ! i) \<and> eg_waiters (s_groups s' ! i) = [] \<and>
            (\<forall>a \<in> set (eg_waiters (s_groups s ! i)).
               event_wait_recheck a s' = Some (WAIT_CANCELLED, eg_flags (s_groups s ! i)))
       else s_groups s' ! i = s_groups s ! i \<and>
            (\<forall>a \<in> set (eg_waiters (s_groups s ! i)). ew_store s' a = ew_store s a)" if "i < 32" for i
    using group [OF that] by (auto simp: closed_group_def event_wait_recheck_def mark_def)
  then show ?thesis using spec by blast
qed

section \<open>Witnesses\<close>

definition idle_waiter :: event_waiter where
  "idle_waiter = \<lparr>ew_pattern = 0, ew_mode = 0, ew_signaled = False, ew_result = 0, ew_result_flags = 0\<rparr>"

definition waiter_for :: "u32 \<Rightarrow> u8 \<Rightarrow> event_waiter" where
  "waiter_for pat mode = \<lparr>ew_pattern = pat, ew_mode = mode, ew_signaled = False, ew_result = WAIT_TIMEOUT, ew_result_flags = 0\<rparr>"

text \<open>Group 0 of process 9 with flag 1 up; thread 100 waits until bit 2 is set, thread 101 until bit 1 is clear.\<close>

definition sample_events :: event_sys where
  "sample_events = \<lparr>s_groups = \<lparr>eg_used = True, eg_poisoned = False, eg_owner = 9, eg_flags = 2, eg_waiters = [100, 101]\<rparr>
       # replicate 31 blank_group,
     ew_store = (\<lambda>_. idle_waiter)(100 := waiter_for 4 RT_ALL_SET, 101 := waiter_for 2 RT_ALL_CLEAR)\<rparr>"

lemma sample_events_inv: "eg_inv True sample_events"
proof -
  have "group_ok True (s_groups sample_events ! i) (ew_store sample_events)" if "i < 32" for i
    using that by (cases i) (simp_all add: sample_events_def group_ok_def blank_group_def waiter_for_def wakes_False
        pattern_match_def RT_ALL_SET_def RT_ALL_CLEAR_def RT_ANY_SET_def RT_ANY_CLEAR_def)
  moreover have "set (eg_waiters (s_groups sample_events ! i)) \<inter> set (eg_waiters (s_groups sample_events ! j)) = {}"
    if "i < 32" "j < 32" "i \<noteq> j" for i j
    using that by (cases i; cases j) (simp_all add: sample_events_def blank_group_def)
  ultimately show ?thesis by (simp add: eg_inv_def sample_events_def)
qed

theorem event_mutate_exact_witness:
  "(case mutate_and_wake 0 4 EVENT_OP_SET sample_events of (s', woken, rc) \<Rightarrow>
      woken = [100] \<and> rc = 0 \<and> event_wait_recheck 100 s' = Some (WAIT_OK, 6))"
proof -
  obtain s' woken rc where call: "mutate_and_wake 0 4 EVENT_OP_SET sample_events = (s', woken, rc)" by (metis prod_cases3)
  have "usable 0 sample_events" by (simp add: usable_def sample_events_def)
  moreover have "snapshot EVENT_OP_SET 4 2 = 6"
    by (simp add: snapshot_def EVENT_OP_SET_def EVENT_OP_CLEAR_def)
  ultimately have "rc = 0" "woken = [100]" "\<forall>a \<in> set woken. event_wait_recheck a s' = Some (WAIT_OK, 6)"
    using event_mutate_exact [OF eg_inv_length [OF sample_events_inv] call]
    by (simp_all add: Let_def sample_events_def waiter_for_def pattern_match_def RT_ALL_SET_def RT_ALL_CLEAR_def RT_ANY_SET_def)
  with call show ?thesis by simp
qed

theorem event_cleanup_cancels_witness:
  "event_wait_recheck 100 (fst (event_group_cleanup_process 9 sample_events)) = Some (WAIT_CANCELLED, 2)"
proof -
  obtain s' woken where call: "event_group_cleanup_process 9 sample_events = (s', woken)" by (meson surj_pair)
  have "owned_group 9 sample_events 0" by (simp add: owned_group_def sample_events_def)
  with event_cleanup_cancels [OF sample_events_inv call] call show ?thesis
    by (auto simp: sample_events_def dest!: spec [of _ 0])
qed

text \<open>A group is created, bits 0 and 1 are set, a thread waits for bit 2, and the group is reset while it waits.\<close>

definition first_wait :: event_sys where
  "first_wait = \<lparr>s_groups = \<lparr>eg_used = True, eg_poisoned = False, eg_owner = 9, eg_flags = 0, eg_waiters = [100]\<rparr>
       # replicate 31 blank_group,
     ew_store = (\<lambda>_. idle_waiter)(100 := waiter_for 4 RT_ALL_SET)\<rparr>"

lemma replicate_32: "replicate 32 x = x # replicate 31 x"
proof -
  have "(32 :: nat) = Suc 31" by simp
  then show ?thesis by (simp only: replicate_Suc)
qed

lemma first_wait_reachable: "(eg_step False)\<^sup>*\<^sup>* (event_group_init_subsystem (\<lambda>_. idle_waiter)) first_wait"
proof -
  let ?s0 = "event_group_init_subsystem (\<lambda>_. idle_waiter)"
  let ?g = "\<lparr>eg_used = True, eg_poisoned = False, eg_owner = 9, eg_flags = 0, eg_waiters = []\<rparr>"
  let ?s1 = "\<lparr>s_groups = ?g # replicate 31 blank_group, ew_store = (\<lambda>_. idle_waiter)\<rparr>"
  let ?s2 = "\<lparr>s_groups = ?g\<lparr>eg_flags := 3, eg_waiters := [100]\<rparr> # replicate 31 blank_group,
    ew_store = (\<lambda>_. idle_waiter)(100 := waiter_for 4 RT_ALL_SET)\<rparr>"
  let ?s3 = "\<lparr>s_groups = ?g\<lparr>eg_flags := 3\<rparr> # replicate 31 blank_group, ew_store = (\<lambda>_. idle_waiter)\<rparr>"
  have "event_group_create 9 ?s0 = (?s1, 0)"
    unfolding event_group_create_def event_group_init_subsystem_def MAX_EVENT_GROUPS_def replicate_32
    by (simp add: blank_group_def)
  then have 1: "eg_step False ?s0 ?s1" by (rule eg_step.create)
  have "event_group_set 0 3 ?s1 = (?s3, [], 0)"
    by (simp add: event_group_set_def mutate_and_wake_def mutate_locked_def group_of_def MAX_EVENT_GROUPS_def Let_def
        wake_waiters_def wake_loop.simps EVENT_OP_SET_def)
  then have 2: "eg_step False ?s1 ?s3" by (rule eg_step.set_bits)
  have "\<forall>i < 32. (100 :: nat) \<notin> set (eg_waiters (s_groups ?s3 ! i))"
    by (auto simp: nth_Cons' blank_group_def)
  moreover have "event_wait_begin 0 4 RT_ALL_SET 100 ?s3 = Inr ?s2"
    by (simp add: event_wait_begin_def group_of_def MAX_EVENT_GROUPS_def pattern_match_def put_group_def
        waiter_for_def Let_def)
  ultimately have 3: "eg_step False ?s3 ?s2" by (rule eg_step.wait)
  have "event_group_reset 0 ?s2 = (first_wait, 0)"
    by (simp add: event_group_reset_def group_of_def MAX_EVENT_GROUPS_def put_group_def first_wait_def Let_def)
  then have 4: "eg_step False ?s2 first_wait" by (rule eg_step.reset) simp
  from 1 2 3 4 show ?thesis by (meson converse_rtranclp_into_rtranclp r_into_rtranclp)
qed

theorem event_no_missed_wake_witness:
  "eg_waiters (s_groups first_wait ! 0) = [100] \<and> event_wait_recheck 100 first_wait = None \<and>
   \<not> pattern_match (eg_flags (s_groups first_wait ! 0)) (ew_pattern (ew_store first_wait 100)) (ew_mode (ew_store first_wait 100))"
  using event_no_missed_wake [OF first_wait_reachable, of 0 100]
  by (simp add: first_wait_def waiter_for_def RT_ALL_SET_def RT_ALL_CLEAR_def RT_ANY_CLEAR_def)

text \<open>
  Reset and pulse can leave a thread asleep although its condition holds.  Thread 101 waits until bit 1 is
  clear while it is set: resetting the group, or pulsing the bit, leaves the flags at 0 and the thread
  linked and unsignalled.
\<close>

theorem event_reset_pulse_miss:
  "(case event_group_reset 0 sample_events of (s', rc) \<Rightarrow>
      rc = 0 \<and> 101 \<in> set (eg_waiters (s_groups s' ! 0)) \<and> event_wait_recheck 101 s' = None \<and>
      pattern_match (event_group_get_flags 0 s') (ew_pattern (ew_store s' 101)) (ew_mode (ew_store s' 101))) \<and>
   (case event_group_pulse 0 2 sample_events of (s', woken, rc) \<Rightarrow>
      rc = 0 \<and> 101 \<in> set (eg_waiters (s_groups s' ! 0)) \<and> event_wait_recheck 101 s' = None \<and>
      pattern_match (event_group_get_flags 0 s') (ew_pattern (ew_store s' 101)) (ew_mode (ew_store s' 101)))"
proof
  show "case event_group_reset 0 sample_events of (s', rc) \<Rightarrow>
      rc = 0 \<and> 101 \<in> set (eg_waiters (s_groups s' ! 0)) \<and> event_wait_recheck 101 s' = None \<and>
      pattern_match (event_group_get_flags 0 s') (ew_pattern (ew_store s' 101)) (ew_mode (ew_store s' 101))"
    by (simp add: event_group_reset_def group_of_def MAX_EVENT_GROUPS_def sample_events_def put_group_def
        event_wait_recheck_def event_group_get_flags_def waiter_for_def pattern_match_def
        RT_ALL_SET_def RT_ANY_SET_def RT_ALL_CLEAR_def)
  have "usable 0 sample_events" by (simp add: usable_def sample_events_def)
  then show "case event_group_pulse 0 2 sample_events of (s', woken, rc) \<Rightarrow>
      rc = 0 \<and> 101 \<in> set (eg_waiters (s_groups s' ! 0)) \<and> event_wait_recheck 101 s' = None \<and>
      pattern_match (event_group_get_flags 0 s') (ew_pattern (ew_store s' 101)) (ew_mode (ew_store s' 101))"
    by (simp add: event_group_pulse_def mutate_and_wake_spec eg_inv_length [OF sample_events_inv])
      (simp add: mutated_def woken_in_def marked_def sample_events_def snapshot_def new_flags_def Let_def
        event_wait_recheck_def event_group_get_flags_def group_of_def MAX_EVENT_GROUPS_def waiter_for_def
        wakes_False pattern_match_def EVENT_OP_SET_def EVENT_OP_CLEAR_def EVENT_OP_PULSE_def
        RT_ALL_SET_def RT_ANY_SET_def RT_ALL_CLEAR_def)
qed

text \<open>
  A pulse is not one atomic edge.  A thread that starts to wait after the flags went back to low, and
  before the waking pass takes the lock again, is woken by the edge it came after.
\<close>

theorem event_pulse_late_arrival:
  "case mutate_locked 0 1 EVENT_OP_PULSE sample_events of (s1, r) \<Rightarrow>
     r = Some (0, 3) \<and> event_group_get_flags 0 s1 = 2 \<and>
     (case event_wait_begin 0 1 RT_ALL_SET 102 s1 of
        Inl _ \<Rightarrow> False
      | Inr s2 \<Rightarrow> snd (wake_waiters 0 3 False s2) = [102])"
  by (simp add: mutate_locked_def group_of_def MAX_EVENT_GROUPS_def sample_events_def Let_def
      EVENT_OP_SET_def EVENT_OP_CLEAR_def EVENT_OP_PULSE_def event_group_get_flags_def event_wait_begin_def
      put_group_def wake_waiters_spec woken_in_def wakes_False waiter_for_def pattern_match_def
      RT_ALL_SET_def RT_ANY_SET_def RT_ALL_CLEAR_def)

end
