(* ===== verification/Timer.thy ===== *)
theory Timer
  imports Prelude "HOL-Library.Multiset"
begin

text \<open>
  The timer agenda of \<^verbatim>\<open>kernel/time/timer.c\<close>: a binary min-heap of pointers to timers that live in
  their owners' memory, each carrying its slot in the heap.  A pointer is a number, \<open>timer_at\<close> the
  memory behind it, \<open>s_heap\<close> the used prefix \<^verbatim>\<open>s_heap[0..s_count)\<close> of the array and \<open>on_boot\<close>
  whether that array is the static one.  Slot numbers stay below 65536, so they are natural
  numbers; deadlines and generations keep their width.  The clock is an argument, and so is the
  effect of a callback on the timers.
\<close>

section \<open>State\<close>

definition TIMER_HEAP_BOOT_CAP :: nat where "TIMER_HEAP_BOOT_CAP = 1024"
definition TIMER_HEAP_MAX_CAP :: nat where "TIMER_HEAP_MAX_CAP = 65536"

abbreviation UINT64_MAX :: u64 where "UINT64_MAX \<equiv> 0xFFFFFFFFFFFFFFFF"

record timer =
  deadline_ns :: u64
  period_ns :: u64
  t_fn :: nat
  t_arg :: nat
  heap_idx :: int
  t_gen :: u32
  fire_pending :: int

record timer_sys =
  s_heap :: "nat list"
  s_cap :: nat
  on_boot :: bool
  timer_at :: "nat \<Rightarrow> timer"

definition deadline :: "timer_sys \<Rightarrow> nat \<Rightarrow> u64" where
  "deadline s t = deadline_ns (timer_at s t)"

section \<open>Heap primitives\<close>

definition set_timer :: "nat \<Rightarrow> (timer \<Rightarrow> timer) \<Rightarrow> timer_sys \<Rightarrow> timer_sys" where
  "set_timer t f s = s\<lparr>timer_at := (timer_at s)(t := f (timer_at s t))\<rparr>"

definition heap_set :: "nat \<Rightarrow> nat \<Rightarrow> timer_sys \<Rightarrow> timer_sys" where
  "heap_set i t s = set_timer t (\<lambda>x. x\<lparr>heap_idx := int i\<rparr>) (s\<lparr>s_heap := (s_heap s)[i := t]\<rparr>)"

definition heap_swap :: "nat \<Rightarrow> nat \<Rightarrow> timer_sys \<Rightarrow> timer_sys" where
  "heap_swap i j s = (let a = s_heap s ! i; b = s_heap s ! j in heap_set j a (heap_set i b s))"

function heap_sift_up :: "nat \<Rightarrow> timer_sys \<Rightarrow> timer_sys" where
  "heap_sift_up i s =
     (if i = 0 then s
      else let parent = (i - 1) div 2
           in if deadline s (s_heap s ! parent) \<le> deadline s (s_heap s ! i) then s
              else heap_sift_up parent (heap_swap i parent s))"
  by pat_completeness auto
termination
  by (relation "measure fst") auto

definition smallest_child :: "nat \<Rightarrow> timer_sys \<Rightarrow> nat" where
  "smallest_child i s =
     (let l = 2 * i + 1; r = 2 * i + 2; n = length (s_heap s); key = (\<lambda>j. deadline s (s_heap s ! j));
          m = (if l < n \<and> key l < key i then l else i)
      in if r < n \<and> key r < key m then r else m)"

lemma child_cases: "0 < j \<Longrightarrow> (j - 1) div 2 = i \<longleftrightarrow> j = 2 * i + 1 \<or> j = 2 * (i :: nat) + 2"
  by linarith

lemma smallest_child_spec:
  defines "K \<equiv> \<lambda>s j. deadline s (s_heap s ! j)"
  shows "(smallest_child i s = i \<or>
      i < smallest_child i s \<and> smallest_child i s < length (s_heap s) \<and> (smallest_child i s - 1) div 2 = i \<and>
      K s (smallest_child i s) < K s i) \<and>
    (\<forall>c < length (s_heap s). 0 < c \<longrightarrow> (c - 1) div 2 = i \<longrightarrow> K s (smallest_child i s) \<le> K s c)"
proof -
  define m where "m = (if 2 * i + 1 < length (s_heap s) \<and> K s (2 * i + 1) < K s i then 2 * i + 1 else i)"
  have sc: "smallest_child i s = (if 2 * i + 2 < length (s_heap s) \<and> K s (2 * i + 2) < K s m then 2 * i + 2 else m)"
    by (simp add: smallest_child_def K_def m_def Let_def)
  have m: "m = i \<and> (2 * i + 1 < length (s_heap s) \<longrightarrow> K s i \<le> K s (2 * i + 1)) \<or>
      m = 2 * i + 1 \<and> 2 * i + 1 < length (s_heap s) \<and> K s (2 * i + 1) < K s i"
    by (auto simp: m_def)
  have "K s (smallest_child i s) \<le> K s c" if "c < length (s_heap s)" "0 < c" "(c - 1) div 2 = i" for c
    using that(1) child_cases [OF that(2), of i] that(3) m by (auto simp: sc)
  moreover have "smallest_child i s = i \<or> i < smallest_child i s \<and> smallest_child i s < length (s_heap s) \<and>
      (smallest_child i s - 1) div 2 = i \<and> K s (smallest_child i s) < K s i"
    using m by (auto simp: sc)
  ultimately show ?thesis by blast
qed

lemma length_heap_set [simp]: "length (s_heap (heap_set i t s)) = length (s_heap s)"
  by (simp add: heap_set_def set_timer_def)

lemma length_heap_swap [simp]: "length (s_heap (heap_swap i j s)) = length (s_heap s)"
  by (simp add: heap_swap_def Let_def)

function heap_sift_down :: "nat \<Rightarrow> timer_sys \<Rightarrow> timer_sys" where
  "heap_sift_down i s =
     (let m = smallest_child i s in if m = i then s else heap_sift_down m (heap_swap i m s))"
  by pat_completeness auto
termination
proof (relation "measure (\<lambda>(i, s). length (s_heap s) - i)")
  fix i m :: nat and s :: timer_sys
  assume "m = smallest_child i s" "m \<noteq> i"
  then have "i < m" "m < length (s_heap s)" using smallest_child_spec [of i s] by auto
  then show "((m, heap_swap i m s), i, s) \<in> measure (\<lambda>(i, s). length (s_heap s) - i)" by simp
qed simp

declare heap_sift_up.simps [simp del] heap_sift_down.simps [simp del]

definition heap_insert :: "nat \<Rightarrow> timer_sys \<Rightarrow> timer_sys \<times> bool" where
  "heap_insert t s =
     (if length (s_heap s) \<ge> s_cap s then (s, False)
      else let i = length (s_heap s)
           in (heap_sift_up i (heap_set i t (s\<lparr>s_heap := s_heap s @ [t]\<rparr>)), True))"

definition heap_remove_at :: "nat \<Rightarrow> timer_sys \<Rightarrow> timer_sys" where
  "heap_remove_at i s =
     (if i \<ge> length (s_heap s) then s
      else let s1 = set_timer (s_heap s ! i) (\<lambda>x. x\<lparr>heap_idx := -1\<rparr>) s;
               n = length (s_heap s) - 1;
               moved = s_heap s ! n;
               s2 = s1\<lparr>s_heap := take n (s_heap s1)\<rparr>
           in if i = n then s2
              else let s3 = heap_set i moved s2
                   in if i > 0 \<and> deadline s3 (s_heap s3 ! ((i - 1) div 2)) > deadline s3 moved
                      then heap_sift_up i s3 else heap_sift_down i s3)"

section \<open>Operations\<close>

definition detach_if_armed :: "nat \<Rightarrow> timer_sys \<Rightarrow> timer_sys" where
  "detach_if_armed t s =
     (let h = heap_idx (timer_at s t);
          s1 = (if h \<ge> 0 \<and> nat h < length (s_heap s) \<and> s_heap s ! nat h = t then heap_remove_at (nat h) s else s)
      in set_timer t (\<lambda>x. x\<lparr>heap_idx := -1\<rparr>) s1)"

definition arm_locked :: "nat \<Rightarrow> u64 \<Rightarrow> u64 \<Rightarrow> timer_sys \<Rightarrow> timer_sys \<times> bool" where
  "arm_locked t dl per s =
     heap_insert t (set_timer t (\<lambda>x. x\<lparr>t_gen := t_gen x + 1, deadline_ns := dl, period_ns := per\<rparr>)
       (detach_if_armed t s))"

text \<open>
  \<open>mem_ok\<close> is the outcome of \<^verbatim>\<open>kmalloc\<close>.  The array is copied whole, so only its capacity and
  whether it is the static one change.
\<close>

definition heap_try_grow :: "bool \<Rightarrow> timer_sys \<Rightarrow> timer_sys \<times> bool" where
  "heap_try_grow mem_ok s =
     (let want = s_cap s * 2
      in if want > TIMER_HEAP_MAX_CAP \<or> \<not> mem_ok then (s, False)
         else (s\<lparr>s_cap := want, on_boot := False\<rparr>, True))"

definition timer_heap_trim :: "bool \<Rightarrow> timer_sys \<Rightarrow> timer_sys \<times> nat" where
  "timer_heap_trim mem_ok s =
     (let cap = s_cap s; cnt = length (s_heap s)
      in if cap \<le> TIMER_HEAP_BOOT_CAP \<or> cnt > cap div 4 then (s, 0)
         else let want = (if cap div 2 < TIMER_HEAP_BOOT_CAP then TIMER_HEAP_BOOT_CAP else cap div 2)
              in if want \<noteq> TIMER_HEAP_BOOT_CAP \<and> \<not> mem_ok then (s, 0)
                 else if cnt \<le> want div 2
                 then (s\<lparr>s_cap := want, on_boot := (want = TIMER_HEAP_BOOT_CAP)\<rparr>, (cap - want) * 4)
                 else (s, 0))"

text \<open>
  The loop of \<^verbatim>\<open>arm_with_growth\<close>; \<open>mem_ok n\<close> is the outcome of the \<open>n\<close>-th allocation from now.
  The second component says whether \<^verbatim>\<open>time_event_refresh\<close> is called.
\<close>

partial_function (option) arm_with_growth ::
    "(nat \<Rightarrow> bool) \<Rightarrow> nat \<Rightarrow> u64 \<Rightarrow> u64 \<Rightarrow> timer_sys \<Rightarrow> (timer_sys \<times> bool \<times> bool) option" where
  "arm_with_growth mem_ok t dl per s =
     (case arm_locked t dl per s of (s1, ok) \<Rightarrow>
        if ok then Some (s1, s_heap s1 ! 0 = t, True)
        else (case heap_try_grow (mem_ok 0) s1 of (s2, grown) \<Rightarrow>
          if \<not> grown then Some (s2, False, False)
          else arm_with_growth (\<lambda>n. mem_ok (Suc n)) t dl per s2))"

definition timer_subsystem_init :: "timer_sys \<Rightarrow> timer_sys" where
  "timer_subsystem_init s = s\<lparr>s_heap := []\<rparr>"

definition timer_init :: "nat \<Rightarrow> nat \<Rightarrow> nat \<Rightarrow> timer_sys \<Rightarrow> timer_sys" where
  "timer_init t fn arg = set_timer t (\<lambda>x. x\<lparr>deadline_ns := 0, period_ns := 0, t_fn := fn, t_arg := arg,
     heap_idx := -1, t_gen := 0, fire_pending := 0\<rparr>)"

definition timer_arm_at where
  "timer_arm_at mem_ok t dl = arm_with_growth mem_ok t dl 0"

definition timer_arm_in where
  "timer_arm_in mem_ok now t delay = timer_arm_at mem_ok t (now + delay)"

definition timer_arm_periodic where
  "timer_arm_periodic mem_ok now t per = arm_with_growth mem_ok t (now + per) per"

definition timer_cancel :: "nat \<Rightarrow> timer_sys \<Rightarrow> timer_sys" where
  "timer_cancel t s =
     set_timer t (\<lambda>x. x\<lparr>t_gen := t_gen x + 1, deadline_ns := 0, period_ns := 0\<rparr>) (detach_if_armed t s)"

definition timer_next_deadline_ns :: "timer_sys \<Rightarrow> u64" where
  "timer_next_deadline_ns s = (if s_heap s \<noteq> [] then deadline s (s_heap s ! 0) else UINT64_MAX)"

text \<open>
  \<^verbatim>\<open>timer_on_tick\<close>.  One turn of its loop takes the head off the heap, re-arms it when it is
  periodic and runs its callback unless its generation moved (with the interrupts off nothing
  runs between the two reads here); \<open>cb t\<close> is what the callback of \<open>t\<close> does to the timers.  The
  result lists the timers whose callbacks ran.
\<close>

definition rephase :: "u64 \<Rightarrow> timer \<Rightarrow> timer" where
  "rephase now x =
     (let d = deadline_ns x + period_ns x
      in x\<lparr>deadline_ns := (if d \<le> now then now + period_ns x else d)\<rparr>)"

definition drain_one :: "(nat \<Rightarrow> timer_sys \<Rightarrow> timer_sys) \<Rightarrow> u64 \<Rightarrow> timer_sys \<Rightarrow> timer_sys \<times> nat list" where
  "drain_one cb now s =
     (let t = s_heap s ! 0;
          fire_gen = t_gen (timer_at s t);
          s1 = heap_remove_at 0 s;
          s2 = (if period_ns (timer_at s1 t) \<noteq> 0 then fst (heap_insert t (set_timer t (rephase now) s1))
                else set_timer t (\<lambda>x. x\<lparr>deadline_ns := 0\<rparr>) s1);
          s3 = set_timer t (\<lambda>x. x\<lparr>fire_pending := 1\<rparr>) s2;
          (s4, fired) = (if t_gen (timer_at s3 t) = fire_gen then (cb t s3, [t]) else (s3, []))
      in (set_timer t (\<lambda>x. x\<lparr>fire_pending := 0\<rparr>) s4, fired))"

partial_function (option) drain_loop ::
    "(nat \<Rightarrow> timer_sys \<Rightarrow> timer_sys) \<Rightarrow> u64 \<Rightarrow> timer_sys \<Rightarrow> (timer_sys \<times> nat list) option" where
  "drain_loop cb now s =
     (if s_heap s \<noteq> [] \<and> deadline s (s_heap s ! 0) \<le> now
      then (case drain_one cb now s of (s1, fired) \<Rightarrow>
        Option.bind (drain_loop cb now s1) (\<lambda>(s2, more). Some (s2, fired @ more)))
      else Some (s, []))"

definition timer_on_tick ::
    "(nat \<Rightarrow> timer_sys \<Rightarrow> timer_sys) \<Rightarrow> u64 \<Rightarrow> timer_sys \<Rightarrow> (timer_sys \<times> nat list) option" where
  "timer_on_tick cb now s =
     (if s_heap s = [] \<or> deadline s (s_heap s ! 0) > now then Some (s, []) else drain_loop cb now s)"

section \<open>Heap order\<close>

text \<open>Over a list of elements with keys; \<open>(j - 1) div 2\<close> is the parent of slot \<open>j\<close>.\<close>

definition edge :: "('a \<Rightarrow> 'k::linorder) \<Rightarrow> 'a list \<Rightarrow> nat \<Rightarrow> bool" where
  "edge D xs j \<longleftrightarrow> D (xs ! ((j - 1) div 2)) \<le> D (xs ! j)"

definition heap_order :: "('a \<Rightarrow> 'k::linorder) \<Rightarrow> 'a list \<Rightarrow> bool" where
  "heap_order D xs \<longleftrightarrow> (\<forall>j < length xs. 0 < j \<longrightarrow> edge D xs j)"

text \<open>Order except possibly above slot \<open>i\<close>, and except possibly below it.\<close>

definition up_pre :: "('a \<Rightarrow> 'k::linorder) \<Rightarrow> 'a list \<Rightarrow> nat \<Rightarrow> bool" where
  "up_pre D xs i \<longleftrightarrow> (\<forall>j < length xs. 0 < j \<longrightarrow> j \<noteq> i \<longrightarrow> edge D xs j) \<and>
     (0 < i \<longrightarrow> (\<forall>j < length xs. 0 < j \<longrightarrow> (j - 1) div 2 = i \<longrightarrow> D (xs ! ((i - 1) div 2)) \<le> D (xs ! j)))"

definition down_pre :: "('a \<Rightarrow> 'k::linorder) \<Rightarrow> 'a list \<Rightarrow> nat \<Rightarrow> bool" where
  "down_pre D xs i \<longleftrightarrow> (\<forall>j < length xs. 0 < j \<longrightarrow> (j - 1) div 2 \<noteq> i \<longrightarrow> edge D xs j) \<and>
     (0 < i \<longrightarrow> (\<forall>j < length xs. 0 < j \<longrightarrow> (j - 1) div 2 = i \<longrightarrow> D (xs ! ((i - 1) div 2)) \<le> D (xs ! j)))"

definition swap :: "nat \<Rightarrow> nat \<Rightarrow> 'a list \<Rightarrow> 'a list" where
  "swap i j xs = xs[i := xs ! j, j := xs ! i]"

lemma swap_simps [simp]:
  "length (swap i j xs) = length xs"
  "i < length xs \<Longrightarrow> j < length xs \<Longrightarrow> swap i j xs ! i = xs ! j"
  "i < length xs \<Longrightarrow> j < length xs \<Longrightarrow> swap i j xs ! j = xs ! i"
  "k \<noteq> i \<Longrightarrow> k \<noteq> j \<Longrightarrow> swap i j xs ! k = xs ! k"
  by (auto simp: swap_def nth_list_update)

lemma mset_swap_list: "i < length xs \<Longrightarrow> j < length xs \<Longrightarrow> mset (swap i j xs) = mset xs"
  unfolding swap_def by (rule mset_swap)

lemma parent_less: "0 < j \<Longrightarrow> (j - 1) div 2 < (j :: nat)"
  by linarith

lemma heap_order_min:
  assumes "heap_order D xs" and "i < length xs"
  shows "D (xs ! 0) \<le> D (xs ! i)"
  using assms(2)
proof (induction i rule: less_induct)
  case (less i)
  show ?case
  proof (cases "i = 0")
    case False
    then have p: "(i - 1) div 2 < i" by (simp add: parent_less)
    then have "D (xs ! 0) \<le> D (xs ! ((i - 1) div 2))" using less by simp
    also have "\<dots> \<le> D (xs ! i)" using assms(1) less.prems False by (simp add: heap_order_def edge_def)
    finally show ?thesis .
  qed simp
qed

lemma up_pre_swap:
  assumes pre: "up_pre D xs i" and i: "0 < i" "i < length xs" and lt: "D (xs ! i) < D (xs ! ((i - 1) div 2))"
  shows "up_pre D (swap i ((i - 1) div 2) xs) ((i - 1) div 2)"
proof -
  define p where "p = (i - 1) div 2"
  have p: "p < i" "p < length xs" using i by (auto simp: p_def)
  have pi: "(i - Suc 0) div 2 = p" by (simp add: p_def)
  have e: "D (xs ! ((j - 1) div 2)) \<le> D (xs ! j)" if "j < length xs" "0 < j" "j \<noteq> i" for j
    using pre that by (simp add: up_pre_def edge_def)
  have below: "D (xs ! p) \<le> D (xs ! j)" if "j < length xs" "0 < j" "(j - 1) div 2 = i" for j
    using pre that i by (simp add: up_pre_def p_def)
  have "edge D (swap i p xs) j" if j: "j < length xs" "0 < j" "j \<noteq> p" for j
  proof (cases "j = i")
    case True
    with i p lt show ?thesis by (simp add: edge_def pi)
  next
    case False
    consider "(j - 1) div 2 = i" | "(j - 1) div 2 = p" | "(j - 1) div 2 \<noteq> i" "(j - 1) div 2 \<noteq> p" by blast
    then show ?thesis
    proof cases
      case 1
      then show ?thesis using below [OF j(1,2)] j False i p by (simp add: edge_def)
    next
      case 2
      then show ?thesis using e [OF j(1,2) False] lt j False i p by (simp add: edge_def pi)
    next
      case 3
      then show ?thesis using e [OF j(1,2) False] j False by (simp add: edge_def)
    qed
  qed
  moreover have "D (swap i p xs ! ((p - 1) div 2)) \<le> D (swap i p xs ! j)"
    if p0: "0 < p" and j: "j < length xs" "0 < j" "(j - 1) div 2 = p" for j
  proof -
    have pp: "(p - 1) div 2 < p" using p0 by (rule parent_less)
    have up: "D (xs ! ((p - 1) div 2)) \<le> D (xs ! p)" using e [of p] p p0 by simp
    have "j \<noteq> p" using j parent_less by fastforce
    then show ?thesis using up e [OF j(1,2)] j(3) pp p i by (cases "j = i") auto
  qed
  ultimately show ?thesis by (simp add: up_pre_def pi)
qed

lemma up_pre_stop:
  assumes "up_pre D xs i" and "i = 0 \<or> D (xs ! ((i - 1) div 2)) \<le> D (xs ! i)"
  shows "heap_order D xs"
  using assms by (auto simp: up_pre_def heap_order_def edge_def)

lemma down_pre_swap:
  assumes pre: "down_pre D xs i" and m: "i < m" "m < length xs" "(m - 1) div 2 = i" and lt: "D (xs ! m) < D (xs ! i)"
    and least: "\<And>c. c < length xs \<Longrightarrow> 0 < c \<Longrightarrow> (c - 1) div 2 = i \<Longrightarrow> D (xs ! m) \<le> D (xs ! c)"
  shows "down_pre D (swap i m xs) m"
proof -
  have i: "i < length xs" using m by simp
  have e: "D (xs ! ((j - 1) div 2)) \<le> D (xs ! j)" if "j < length xs" "0 < j" "(j - 1) div 2 \<noteq> i" for j
    using pre that by (simp add: down_pre_def edge_def)
  have "edge D (swap i m xs) j" if j: "j < length xs" "0 < j" "(j - 1) div 2 \<noteq> m" for j
  proof (cases "(j - 1) div 2 = i")
    case True
    then have "j \<noteq> i" using j(2) parent_less by fastforce
    then show ?thesis using True least [OF j(1,2) True] lt i m by (cases "j = m") (auto simp: edge_def)
  next
    case False
    then have jm: "j \<noteq> m" using m(3) by auto
    show ?thesis
    proof (cases "j = i")
      case True
      have "D (xs ! ((i - 1) div 2)) \<le> D (xs ! m)" using pre True j m by (simp add: down_pre_def)
      then show ?thesis using True j False i m by (simp add: edge_def)
    next
      case ji: False
      then show ?thesis using e [OF j(1,2) False] False jm j by (simp add: edge_def)
    qed
  qed
  moreover have "D (swap i m xs ! ((m - 1) div 2)) \<le> D (swap i m xs ! j)"
    if j: "j < length xs" "0 < j" "(j - 1) div 2 = m" for j
  proof -
    have "m < j" using parent_less [OF j(2)] j(3) by simp
    then have "swap i m xs ! j = xs ! j" using m by simp
    moreover have "D (xs ! m) \<le> D (xs ! j)" using e [OF j(1,2)] j(3) m by simp
    ultimately show ?thesis using i m by simp
  qed
  ultimately show ?thesis by (simp add: down_pre_def)
qed

lemma down_pre_stop:
  assumes "down_pre D xs i" and "\<And>c. c < length xs \<Longrightarrow> 0 < c \<Longrightarrow> (c - 1) div 2 = i \<Longrightarrow> D (xs ! i) \<le> D (xs ! c)"
  shows "heap_order D xs"
  unfolding heap_order_def
proof (intro allI impI)
  fix j assume j: "j < length xs" "0 < j"
  show "edge D xs j"
    using assms(1) assms(2) [OF j] j by (cases "(j - 1) div 2 = i") (auto simp: down_pre_def edge_def)
qed

text \<open>An element is replaced by the last one, which is dropped from the end.\<close>

lemma replace_by_last:
  assumes ord: "heap_order D xs" and i: "i < length xs - 1"
  defines "ys \<equiv> (take (length xs - 1) xs)[i := last xs]"
  shows "0 < i \<Longrightarrow> D (last xs) < D (ys ! ((i - 1) div 2)) \<Longrightarrow> up_pre D ys i"
    and "i = 0 \<or> D (ys ! ((i - 1) div 2)) \<le> D (last xs) \<Longrightarrow> down_pre D ys i"
proof -
  have len: "length ys = length xs - 1" by (simp add: ys_def)
  have nth: "ys ! j = (if j = i then last xs else xs ! j)" if "j < length xs - 1" for j
    using that i by (simp add: ys_def nth_list_update)
  have e: "D (xs ! ((j - 1) div 2)) \<le> D (xs ! j)" if "j < length xs" "0 < j" for j
    using ord that by (simp add: heap_order_def edge_def)
  have par: "(j - 1) div 2 < length xs - 1" if "j < length xs - 1" for j using that by linarith
  have above: "D (ys ! ((i - 1) div 2)) \<le> D (ys ! j)" if "0 < i" "j < length xs - 1" "0 < j" "(j - 1) div 2 = i" for j
  proof -
    have "j \<noteq> i" "(i - 1) div 2 \<noteq> i" using that parent_less [of j] parent_less [of i] by auto
    moreover have "D (xs ! ((i - 1) div 2)) \<le> D (xs ! i)" "D (xs ! i) \<le> D (xs ! j)"
      using e [of i] e [of j] that i by auto
    ultimately show ?thesis using nth [OF that(2)] nth [OF par [OF i]] by simp
  qed
  have other: "edge D ys j" if "j < length xs - 1" "0 < j" "j \<noteq> i" "(j - 1) div 2 \<noteq> i" for j
    using e [of j] that nth [OF that(1)] nth [OF par [OF that(1)]] by (simp add: edge_def)
  show "up_pre D ys i" if "0 < i" "D (last xs) < D (ys ! ((i - 1) div 2))"
  proof -
    have "edge D ys j" if j: "j < length xs - 1" "0 < j" "j \<noteq> i" "(j - 1) div 2 = i" for j
    proof -
      have "D (ys ! i) < D (ys ! ((i - 1) div 2))" using \<open>D (last xs) < _\<close> nth [OF i] by simp
      also have "\<dots> \<le> D (ys ! j)" using above \<open>0 < i\<close> j by simp
      finally show ?thesis using j(4) by (simp add: edge_def)
    qed
    with other above \<open>0 < i\<close> show ?thesis unfolding up_pre_def len by blast
  qed
  show "down_pre D ys i" if "i = 0 \<or> D (ys ! ((i - 1) div 2)) \<le> D (last xs)"
  proof -
    have "edge D ys i" if "0 < i" using \<open>i = 0 \<or> _\<close> that nth [OF i] by (simp add: edge_def)
    with other above show ?thesis unfolding down_pre_def len by blast
  qed
qed

section \<open>Sifting keeps the timers\<close>

text \<open>Every timer in the heap knows its slot; in particular no timer is there twice.\<close>

definition idx_ok :: "timer_sys \<Rightarrow> bool" where
  "idx_ok s \<longleftrightarrow> (\<forall>i < length (s_heap s). heap_idx (timer_at s (s_heap s ! i)) = int i)"

lemma idx_ok_distinct: "idx_ok s \<Longrightarrow> distinct (s_heap s)"
  unfolding idx_ok_def distinct_conv_nth by (metis of_nat_eq_iff)

definition strip :: "timer \<Rightarrow> timer" where
  "strip x = x\<lparr>heap_idx := 0\<rparr>"

text \<open>The heap is permuted and only slot numbers of timers in the heap change.\<close>

definition permuted :: "timer_sys \<Rightarrow> timer_sys \<Rightarrow> bool" where
  "permuted s s' \<longleftrightarrow> mset (s_heap s') = mset (s_heap s) \<and> s_cap s' = s_cap s \<and> on_boot s' = on_boot s \<and>
     (\<forall>t. strip (timer_at s' t) = strip (timer_at s t)) \<and>
     (\<forall>t. t \<notin> set (s_heap s) \<longrightarrow> timer_at s' t = timer_at s t)"

lemma permuted_refl [simp]: "permuted s s"
  by (simp add: permuted_def)

lemma permuted_trans: "permuted s s' \<Longrightarrow> permuted s' s'' \<Longrightarrow> permuted s s''"
  by (auto simp: permuted_def dest: mset_eq_setD)

lemma strip_fields:
  assumes "strip x = strip y"
  shows "deadline_ns x = deadline_ns y" "period_ns x = period_ns y" "t_gen x = t_gen y" "t_fn x = t_fn y"
    "t_arg x = t_arg y" "fire_pending x = fire_pending y"
  using arg_cong [OF assms, of deadline_ns] arg_cong [OF assms, of period_ns] arg_cong [OF assms, of t_gen]
    arg_cong [OF assms, of t_fn] arg_cong [OF assms, of t_arg] arg_cong [OF assms, of fire_pending]
  by (simp_all add: strip_def)

lemma permuted_facts:
  assumes "permuted s s'"
  shows "set (s_heap s') = set (s_heap s)" "length (s_heap s') = length (s_heap s)"
    "deadline s' = deadline s" "s_cap s' = s_cap s" "on_boot s' = on_boot s"
    "t_gen (timer_at s' t) = t_gen (timer_at s t)" "period_ns (timer_at s' t) = period_ns (timer_at s t)"
proof -
  have st: "strip (timer_at s' t) = strip (timer_at s t)" for t using assms by (simp add: permuted_def)
  show "deadline s' = deadline s" using strip_fields(1) [OF st] by (simp add: deadline_def fun_eq_iff)
  show "t_gen (timer_at s' t) = t_gen (timer_at s t)" "period_ns (timer_at s' t) = period_ns (timer_at s t)"
    using strip_fields [OF st] by auto
  show "set (s_heap s') = set (s_heap s)" "length (s_heap s') = length (s_heap s)"
    using assms by (auto simp: permuted_def dest: mset_eq_setD mset_eq_length)
qed (use assms in \<open>simp_all add: permuted_def\<close>)

lemma set_timer_simps [simp]:
  "s_heap (set_timer t f s) = s_heap s" "s_cap (set_timer t f s) = s_cap s" "on_boot (set_timer t f s) = on_boot s"
  "timer_at (set_timer t f s) u = (if u = t then f (timer_at s t) else timer_at s u)"
  by (simp_all add: set_timer_def)

lemma heap_swap_spec:
  assumes "idx_ok s" and i: "i < length (s_heap s)" "j < length (s_heap s)"
  shows "s_heap (heap_swap i j s) = swap i j (s_heap s)" and "idx_ok (heap_swap i j s)"
    and "permuted s (heap_swap i j s)"
proof -
  let ?s' = "heap_swap i j s" let ?a = "s_heap s ! i" let ?b = "s_heap s ! j"
  have dist: "distinct (s_heap s)" by (rule idx_ok_distinct [OF assms(1)])
  show h: "s_heap ?s' = swap i j (s_heap s)" by (simp add: heap_swap_def heap_set_def swap_def Let_def)
  have idx: "heap_idx (timer_at ?s' t) = (if t = ?a then int j else if t = ?b then int i else heap_idx (timer_at s t))" for t
    by (simp add: heap_swap_def heap_set_def Let_def)
  show "idx_ok ?s'" unfolding idx_ok_def
  proof (intro allI impI)
    fix k assume "k < length (s_heap ?s')"
    then have k: "k < length (s_heap s)" by simp
    have "s_heap s ! k = ?a \<longleftrightarrow> k = i" "s_heap s ! k = ?b \<longleftrightarrow> k = j"
      using dist k i by (simp_all add: nth_eq_iff_index_eq)
    then show "heap_idx (timer_at ?s' (s_heap ?s' ! k)) = int k"
      using i k assms(1) dist unfolding h idx
      by (cases "k = i"; cases "k = j") (auto simp: idx_ok_def nth_eq_iff_index_eq)
  qed
  have "strip (timer_at ?s' t) = strip (timer_at s t)" for t
    by (simp add: heap_swap_def heap_set_def Let_def strip_def)
  moreover have "timer_at ?s' t = timer_at s t" if "t \<notin> set (s_heap s)" for t
  proof -
    have "t \<noteq> ?a" "t \<noteq> ?b" using that i nth_mem by blast+
    then show ?thesis by (simp add: heap_swap_def heap_set_def Let_def)
  qed
  ultimately show "permuted s ?s'"
    using i by (simp add: permuted_def h mset_swap_list) (simp add: heap_swap_def heap_set_def Let_def)
qed

definition good :: "timer_sys \<Rightarrow> bool" where
  "good s \<longleftrightarrow> idx_ok s \<and> heap_order (deadline s) (s_heap s)"

lemma heap_sift_up_spec:
  "idx_ok s \<Longrightarrow> i < length (s_heap s) \<Longrightarrow> up_pre (deadline s) (s_heap s) i \<Longrightarrow>
   good (heap_sift_up i s) \<and> permuted s (heap_sift_up i s)"
proof (induction i s rule: heap_sift_up.induct)
  case (1 i s)
  let ?p = "(i - 1) div 2"
  show ?case
  proof (cases "i = 0 \<or> deadline s (s_heap s ! ?p) \<le> deadline s (s_heap s ! i)")
    case True
    then have "heap_sift_up i s = s" by (auto simp: heap_sift_up.simps [of i s] Let_def)
    then show ?thesis using 1 up_pre_stop [OF "1.prems"(3) True] by (simp add: good_def)
  next
    case False
    let ?s' = "heap_swap i ?p s"
    have p: "?p < length (s_heap s)" using "1.prems"(2) by linarith
    note sw = heap_swap_spec [OF "1.prems"(1,2) p]
    note pf = permuted_facts [OF sw(3)]
    have i0: "0 < i" and lt: "deadline s (s_heap s ! i) < deadline s (s_heap s ! ?p)" using False by auto
    have pre: "up_pre (deadline ?s') (s_heap ?s') ?p"
      unfolding sw(1) pf(3) by (rule up_pre_swap [OF "1.prems"(3) i0 "1.prems"(2) lt])
    have step: "heap_sift_up i s = heap_sift_up ?p ?s'" using False by (simp add: heap_sift_up.simps [of i s] Let_def)
    have "good (heap_sift_up ?p ?s') \<and> permuted ?s' (heap_sift_up ?p ?s')"
      by (rule "1.IH" [OF _ refl _ sw(2) _ pre]) (use False p in \<open>simp_all\<close>)
    then show ?thesis using step permuted_trans [OF sw(3)] by simp
  qed
qed

lemma heap_sift_down_spec:
  "idx_ok s \<Longrightarrow> i < length (s_heap s) \<Longrightarrow> down_pre (deadline s) (s_heap s) i \<Longrightarrow>
   good (heap_sift_down i s) \<and> permuted s (heap_sift_down i s)"
proof (induction i s rule: heap_sift_down.induct)
  case (1 i s)
  let ?m = "smallest_child i s"
  show ?case
  proof (cases "?m = i")
    case True
    have "heap_order (deadline s) (s_heap s)"
      using smallest_child_spec [of i s] True by (intro down_pre_stop [OF "1.prems"(3)]) auto
    then show ?thesis using "1.prems"(1) True by (simp add: heap_sift_down.simps [of i s] good_def)
  next
    case False
    let ?s' = "heap_swap i ?m s"
    have m: "i < ?m" "?m < length (s_heap s)" "(?m - 1) div 2 = i"
      "deadline s (s_heap s ! ?m) < deadline s (s_heap s ! i)" using smallest_child_spec [of i s] False by auto
    note sw = heap_swap_spec [OF "1.prems"(1,2) m(2)]
    note pf = permuted_facts [OF sw(3)]
    have "down_pre (deadline s) (swap i ?m (s_heap s)) ?m"
      using smallest_child_spec [of i s] by (intro down_pre_swap [OF "1.prems"(3) m]) auto
    then have pre: "down_pre (deadline ?s') (s_heap ?s') ?m" by (simp add: sw(1) pf(3))
    have step: "heap_sift_down i s = heap_sift_down ?m ?s'"
      using False by (simp add: heap_sift_down.simps [of i s] Let_def)
    have "good (heap_sift_down ?m ?s') \<and> permuted ?s' (heap_sift_down ?m ?s')"
      by (rule "1.IH" [OF refl False sw(2) _ pre]) (simp add: m(2))
    then show ?thesis using step permuted_trans [OF sw(3)] by simp
  qed
qed

section \<open>Insertion and removal\<close>

text \<open>Everything but slot numbers is kept, and the array is the same.\<close>

definition kept :: "timer_sys \<Rightarrow> timer_sys \<Rightarrow> bool" where
  "kept s s' \<longleftrightarrow> s_cap s' = s_cap s \<and> on_boot s' = on_boot s \<and> (\<forall>t. strip (timer_at s' t) = strip (timer_at s t))"

lemma permuted_kept: "permuted s s' \<Longrightarrow> kept s s'"
  by (simp add: permuted_def kept_def)

lemma kept_trans: "kept s s' \<Longrightarrow> kept s' s'' \<Longrightarrow> kept s s''"
  by (simp add: kept_def)

lemma kept_facts:
  assumes "kept s s'"
  shows "deadline s' = deadline s" "s_cap s' = s_cap s" "on_boot s' = on_boot s"
    "t_gen (timer_at s' t) = t_gen (timer_at s t)" "period_ns (timer_at s' t) = period_ns (timer_at s t)"
    "deadline_ns (timer_at s' t) = deadline_ns (timer_at s t)"
proof -
  have st: "strip (timer_at s' t) = strip (timer_at s t)" for t using assms by (simp add: kept_def)
  show "deadline s' = deadline s" using strip_fields(1) [OF st] by (simp add: deadline_def fun_eq_iff)
  show "t_gen (timer_at s' t) = t_gen (timer_at s t)" "period_ns (timer_at s' t) = period_ns (timer_at s t)"
    "deadline_ns (timer_at s' t) = deadline_ns (timer_at s t)"
    using strip_fields [OF st] by auto
qed (use assms in \<open>simp_all add: kept_def\<close>)

lemma kept_set_idx: "kept s (set_timer t (\<lambda>x. x\<lparr>heap_idx := k\<rparr>) s)"
  by (simp add: kept_def strip_def)

lemma good_set_timer:
  assumes "good s" and "t \<notin> set (s_heap s)"
  shows "good (set_timer t f s)"
proof -
  have ne: "s_heap s ! i \<noteq> t" if "i < length (s_heap s)" for i using assms(2) that nth_mem by blast
  then have "idx_ok (set_timer t f s)" using assms(1) by (simp add: good_def idx_ok_def)
  moreover have "deadline (set_timer t f s) (s_heap s ! i) = deadline s (s_heap s ! i)" if "i < length (s_heap s)" for i
    using ne that by (simp add: deadline_def)
  then have "edge (deadline (set_timer t f s)) (s_heap s) j = edge (deadline s) (s_heap s) j" if "j < length (s_heap s)" for j
    using that by (simp add: edge_def)
  ultimately show ?thesis using assms(1) by (simp add: good_def heap_order_def)
qed

lemma heap_insert_spec:
  assumes good: "good s" and t: "t \<notin> set (s_heap s)" and room: "length (s_heap s) < s_cap s"
  obtains s' where "heap_insert t s = (s', True)" "good s'" "mset (s_heap s') = add_mset t (mset (s_heap s))" "kept s s'"
proof -
  let ?n = "length (s_heap s)"
  let ?s1 = "heap_set ?n t (s\<lparr>s_heap := s_heap s @ [t]\<rparr>)"
  have h: "s_heap ?s1 = s_heap s @ [t]" by (simp add: heap_set_def)
  have k: "kept s ?s1" by (simp add: kept_def heap_set_def strip_def)
  have idx: "idx_ok ?s1"
    using good t unfolding idx_ok_def h
    by (auto simp: good_def idx_ok_def heap_set_def nth_append less_Suc_eq)
  have pre: "up_pre (deadline ?s1) (s_heap ?s1) ?n"
  proof -
    have "edge (deadline s) (s_heap s @ [t]) j" if "j < ?n" "0 < j" for j
    proof -
      have "(j - 1) div 2 < ?n" using that by linarith
      then show ?thesis using good that by (simp add: good_def heap_order_def edge_def nth_append)
    qed
    moreover have "(j - 1) div 2 \<noteq> ?n" if "0 < j" "j < Suc ?n" for j using that by linarith
    ultimately show ?thesis unfolding up_pre_def h kept_facts(1) [OF k] by (auto simp: less_Suc_eq)
  qed
  note sift = heap_sift_up_spec [OF idx _ pre]
  have sift: "good (heap_sift_up ?n ?s1)" "permuted ?s1 (heap_sift_up ?n ?s1)" using sift by (simp_all add: h)
  have "mset (s_heap (heap_sift_up ?n ?s1)) = add_mset t (mset (s_heap s))"
    using sift(2) by (simp add: permuted_def h)
  moreover have "kept s (heap_sift_up ?n ?s1)" by (rule kept_trans [OF k permuted_kept [OF sift(2)]])
  moreover have "heap_insert t s = (heap_sift_up ?n ?s1, True)" using room by (simp add: heap_insert_def Let_def)
  ultimately show thesis using sift(1) by (intro that)
qed

lemma mset_replace_last:
  assumes "i < length xs - 1"
  shows "mset ((take (length xs - 1) xs)[i := last xs]) = mset xs - {#xs ! i#}"
proof -
  have "mset xs = mset (take (length xs - 1) xs) + {#last xs#}"
    using assms by (metis append_butlast_last_id butlast_conv_take length_greater_0_conv less_nat_zero_code
        list.size(3) diff_0_eq_0 mset.simps(1,2) mset_append)
  moreover have "take (length xs - 1) xs ! i = xs ! i" using assms by simp
  moreover have "xs ! i \<in># mset (take (length xs - 1) xs)"
    using assms by (metis calculation(2) in_multiset_in_set length_take min.absorb2 diff_le_self nth_mem)
  ultimately show ?thesis using assms by (simp add: mset_update)
qed

lemma heap_remove_at_spec:
  assumes good: "good s" and i: "i < length (s_heap s)"
  shows "good (heap_remove_at i s) \<and> mset (s_heap (heap_remove_at i s)) = mset (s_heap s) - {#s_heap s ! i#} \<and>
    kept s (heap_remove_at i s)"
proof -
  let ?xs = "s_heap s" let ?n = "length ?xs - 1" let ?t = "?xs ! i" let ?moved = "?xs ! ?n"
  have dist: "distinct ?xs" using good idx_ok_distinct by (simp add: good_def)
  let ?s1 = "set_timer ?t (\<lambda>x. x\<lparr>heap_idx := -1\<rparr>) s"
  let ?s2 = "?s1\<lparr>s_heap := take ?n ?xs\<rparr>"
  have k2: "kept s ?s2" by (simp add: kept_def strip_def)
  have last: "last ?xs = ?moved" using i by (subst last_conv_nth) auto
  have ne: "?xs ! k = ?xs ! l \<longleftrightarrow> k = l" if "k < length ?xs" "l < length ?xs" for k l
    using dist that by (rule nth_eq_iff_index_eq)
  show ?thesis
  proof (cases "i = ?n")
    case True
    then have eq: "heap_remove_at i s = ?s2" using i by (simp add: heap_remove_at_def Let_def)
    have "idx_ok ?s2" using good True i ne by (auto simp: idx_ok_def good_def)
    moreover have "edge (deadline s) (take ?n ?xs) j" if "j < ?n" "0 < j" for j
    proof -
      have "(j - 1) div 2 < ?n" using that by linarith
      then show ?thesis using good that by (simp add: good_def heap_order_def edge_def)
    qed
    ultimately have "good ?s2" unfolding good_def heap_order_def kept_facts(1) [OF k2] by simp
    moreover have "mset (take ?n ?xs) = mset ?xs - {#?t#}"
      using i True by (metis append_butlast_last_id butlast_conv_take last length_0_conv less_nat_zero_code
          add_mset_remove_trivial mset.simps(1,2) mset_append add_mset_add_single)
    ultimately show ?thesis using k2 by (simp add: eq)
  next
    case False
    then have lt: "i < ?n" using i by simp
    let ?s3 = "heap_set i ?moved ?s2"
    have h3: "s_heap ?s3 = (take ?n ?xs)[i := last ?xs]" by (simp add: heap_set_def last)
    have k3: "kept s ?s3" by (rule kept_trans [OF k2]) (simp add: kept_def heap_set_def strip_def)
    have idx3: "idx_ok ?s3" unfolding idx_ok_def
    proof (intro allI impI)
      fix k assume "k < length (s_heap ?s3)"
      then have kn: "k < ?n" by (simp add: h3)
      show "heap_idx (timer_at ?s3 (s_heap ?s3 ! k)) = int k"
      proof (cases "k = i")
        case True
        then show ?thesis using kn by (simp add: h3 last) (simp add: heap_set_def)
      next
        case False
        then have "?xs ! k \<noteq> ?moved" "?xs ! k \<noteq> ?t" using kn i ne by auto
        then show ?thesis using False kn good unfolding h3 by (simp add: heap_set_def good_def idx_ok_def)
      qed
    qed
    have ord: "heap_order (deadline s) ?xs" using good by (simp add: good_def)
    have up: "up_pre (deadline ?s3) (s_heap ?s3) i"
      if "0 < i" "deadline ?s3 ?moved < deadline ?s3 (s_heap ?s3 ! ((i - 1) div 2))"
      using replace_by_last(1) [OF ord lt] that unfolding h3 kept_facts(1) [OF k3] last by blast
    have down: "down_pre (deadline ?s3) (s_heap ?s3) i"
      if "\<not> (i > 0 \<and> deadline ?s3 (s_heap ?s3 ! ((i - 1) div 2)) > deadline ?s3 ?moved)"
      using replace_by_last(2) [OF ord lt] that unfolding h3 kept_facts(1) [OF k3] last
      by (meson not_gr_zero not_le)
    have i3: "i < length (s_heap ?s3)" using lt by (simp add: h3)
    have eq: "heap_remove_at i s =
        (if i > 0 \<and> deadline ?s3 (s_heap ?s3 ! ((i - 1) div 2)) > deadline ?s3 ?moved
         then heap_sift_up i ?s3 else heap_sift_down i ?s3)"
      using i False by (simp add: heap_remove_at_def Let_def)
    have "good (heap_remove_at i s) \<and> permuted ?s3 (heap_remove_at i s)"
      unfolding eq using heap_sift_up_spec [OF idx3 i3 up] heap_sift_down_spec [OF idx3 i3 down] by auto
    moreover have "mset (s_heap ?s3) = mset ?xs - {#?t#}" unfolding h3 by (rule mset_replace_last [OF lt])
    ultimately show ?thesis using kept_trans [OF k3 permuted_kept] by (auto simp: permuted_def)
  qed
qed

section \<open>The agenda\<close>

definition agenda :: "timer_sys \<Rightarrow> nat \<rightharpoonup> u64" where
  "agenda s t = (if t \<in> set (s_heap s) then Some (deadline s t) else None)"

definition timer_inv :: "timer_sys \<Rightarrow> bool" where
  "timer_inv s \<longleftrightarrow> good s \<and> length (s_heap s) \<le> s_cap s \<and>
     TIMER_HEAP_BOOT_CAP \<le> s_cap s \<and> s_cap s \<le> TIMER_HEAP_MAX_CAP"

lemma good_distinct: "good s \<Longrightarrow> distinct (s_heap s)"
  by (simp add: good_def idx_ok_distinct)

lemma set_minus_mset: "distinct xs \<Longrightarrow> mset ys = mset xs - {#x#} \<Longrightarrow> set ys = set xs - {x}"
  by (metis distinct_remove1_removeAll mset_remove1 set_mset_mset set_removeAll)

lemma detach_spec:
  assumes "good s"
  shows "good (detach_if_armed t s)" and "set (s_heap (detach_if_armed t s)) = set (s_heap s) - {t}"
    and "length (s_heap (detach_if_armed t s)) = length (s_heap s) - (if t \<in> set (s_heap s) then 1 else 0)"
    and "kept s (detach_if_armed t s)"
proof -
  let ?h = "heap_idx (timer_at s t)"
  let ?armed = "?h \<ge> 0 \<and> nat ?h < length (s_heap s) \<and> s_heap s ! nat ?h = t"
  let ?s1 = "if ?armed then heap_remove_at (nat ?h) s else s"
  have eq: "detach_if_armed t s = set_timer t (\<lambda>x. x\<lparr>heap_idx := -1\<rparr>) ?s1"
    by (simp add: detach_if_armed_def Let_def)
  have armed: "t \<in> set (s_heap s) \<longleftrightarrow> ?armed"
    using assms by (auto simp: in_set_conv_nth good_def idx_ok_def)
  have s1: "good ?s1 \<and> mset (s_heap ?s1) = mset (s_heap s) - {#t#} \<and> kept s ?s1"
  proof (cases ?armed)
    case True
    then show ?thesis using heap_remove_at_spec [OF assms, of "nat ?h"] by simp
  next
    case False
    then have "mset (s_heap s) - {#t#} = mset (s_heap s)" using armed by (simp add: diff_single_trivial)
    moreover have "?s1 = s" using False by (rule if_not_P)
    ultimately show ?thesis using assms by (simp add: kept_def)
  qed
  have set1: "set (s_heap ?s1) = set (s_heap s) - {t}"
    using s1 set_minus_mset [OF good_distinct [OF assms]] by blast
  show "good (detach_if_armed t s)" unfolding eq using s1 set1 by (intro good_set_timer) auto
  show "set (s_heap (detach_if_armed t s)) = set (s_heap s) - {t}" unfolding eq using set1 by simp
  have "size (mset (s_heap ?s1)) = length (s_heap s) - (if t \<in> set (s_heap s) then 1 else 0)"
    using s1 by (auto simp: size_Diff_singleton diff_single_trivial)
  then show "length (s_heap (detach_if_armed t s)) = length (s_heap s) - (if t \<in> set (s_heap s) then 1 else 0)"
    unfolding eq by (simp only: set_timer_simps size_mset)
  show "kept s (detach_if_armed t s)" unfolding eq using s1 by (blast intro: kept_trans kept_set_idx)
qed

lemma arm_locked_spec:
  assumes inv: "timer_inv s" and call: "arm_locked t dl per s = (s', ok)"
  shows "ok \<longleftrightarrow> t \<in> set (s_heap s) \<or> length (s_heap s) < s_cap s"
    and "timer_inv s'" and "s_cap s' = s_cap s"
    and "agenda s' = (if ok then (agenda s)(t \<mapsto> dl) else agenda s)"
    and "\<not> ok \<Longrightarrow> length (s_heap s') = length (s_heap s) \<and> t \<notin> set (s_heap s')"
    and "ok \<Longrightarrow> t \<in> set (s_heap s') \<and> period_ns (timer_at s' t) = per"
    and "u \<noteq> t \<Longrightarrow> period_ns (timer_at s' u) = period_ns (timer_at s u)"
proof -
  have g: "good s" and len: "length (s_heap s) \<le> s_cap s" using inv by (auto simp: timer_inv_def)
  note d = detach_spec [OF g, of t]
  let ?s1 = "detach_if_armed t s"
  let ?s2 = "set_timer t (\<lambda>x. x\<lparr>t_gen := t_gen x + 1, deadline_ns := dl, period_ns := per\<rparr>) ?s1"
  have t2: "t \<notin> set (s_heap ?s2)" using d(2) by simp
  have good2: "good ?s2" using d(1,2) by (intro good_set_timer) auto
  have dl2: "deadline ?s2 = (deadline s)(t := dl)"
    using kept_facts(6) [OF d(4)] by (simp add: deadline_def fun_eq_iff)
  have per2: "period_ns (timer_at ?s2 u) = (if u = t then per else period_ns (timer_at s u))" for u
    using kept_facts(5) [OF d(4)] by simp
  have cap2: "s_cap ?s1 = s_cap s" using kept_facts(2) [OF d(4)] by simp
  have call': "heap_insert t ?s2 = (s', ok)" using call by (simp add: arm_locked_def)
  have room: "length (s_heap ?s2) < s_cap ?s2 \<longleftrightarrow> t \<in> set (s_heap s) \<or> length (s_heap s) < s_cap s"
    using d(3) len length_pos_if_in_set [of t "s_heap s"] by (auto simp: cap2 simp del: length_greater_0_conv)
  have main: "(ok \<longleftrightarrow> t \<in> set (s_heap s) \<or> length (s_heap s) < s_cap s) \<and> timer_inv s' \<and> s_cap s' = s_cap s \<and>
    agenda s' = (if ok then (agenda s)(t \<mapsto> dl) else agenda s) \<and>
    (\<not> ok \<longrightarrow> length (s_heap s') = length (s_heap s) \<and> t \<notin> set (s_heap s')) \<and>
    (ok \<longrightarrow> t \<in> set (s_heap s')) \<and> (\<forall>u. period_ns (timer_at s' u) = (if u = t then per else period_ns (timer_at s u)))"
  proof (cases "length (s_heap ?s2) < s_cap ?s2")
    case True
    from heap_insert_spec [OF good2 t2 True] obtain s3 where
      s3: "heap_insert t ?s2 = (s3, True)" "good s3" "mset (s_heap s3) = add_mset t (mset (s_heap ?s2))" "kept ?s2 s3"
      by blast
    have eq: "s' = s3" "ok" using call' s3(1) by auto
    have sets: "set (s_heap s3) = insert t (set (s_heap s))"
      using arg_cong [OF s3(3), of set_mset] d(2) by auto
    have "length (s_heap s3) = Suc (length (s_heap ?s2))" using arg_cong [OF s3(3), of size] by simp
    then have "timer_inv s3" using s3(2) True inv kept_facts(2) [OF s3(4)] by (simp add: timer_inv_def cap2)
    moreover have "agenda s3 = (agenda s)(t \<mapsto> dl)"
      using kept_facts(1) [OF s3(4)] by (auto simp: agenda_def sets dl2 fun_eq_iff)
    ultimately show ?thesis
      using eq True room sets kept_facts(2,5) [OF s3(4)] per2 by (simp add: cap2)
  next
    case False
    then have eq: "s' = ?s2" "\<not> ok" using call' by (auto simp: heap_insert_def)
    have tn: "t \<notin> set (s_heap s)" using False room by blast
    have sets: "set (s_heap ?s1) = set (s_heap s)" "length (s_heap ?s1) = length (s_heap s)" using d(2,3) tn by auto
    have "agenda ?s2 = agenda s" using tn by (auto simp: agenda_def sets(1) dl2 fun_eq_iff)
    moreover have "timer_inv ?s2" using good2 inv sets(2) cap2 by (simp add: timer_inv_def)
    ultimately show ?thesis using eq False room sets t2 per2 by (simp add: cap2)
  qed
  then show "ok \<longleftrightarrow> t \<in> set (s_heap s) \<or> length (s_heap s) < s_cap s" "timer_inv s'" "s_cap s' = s_cap s"
    "agenda s' = (if ok then (agenda s)(t \<mapsto> dl) else agenda s)"
    "\<not> ok \<Longrightarrow> length (s_heap s') = length (s_heap s) \<and> t \<notin> set (s_heap s')"
    "ok \<Longrightarrow> t \<in> set (s_heap s') \<and> period_ns (timer_at s' t) = per"
    "u \<noteq> t \<Longrightarrow> period_ns (timer_at s' u) = period_ns (timer_at s u)" by auto
qed

lemma grow_spec:
  assumes "timer_inv s" and "heap_try_grow mem_ok s = (s', grown)"
  shows "timer_inv s'" and "agenda s' = agenda s" and "s_heap s' = s_heap s"
    and "grown \<longleftrightarrow> s_cap s * 2 \<le> TIMER_HEAP_MAX_CAP \<and> mem_ok" and "grown \<Longrightarrow> s_cap s' = s_cap s * 2"
    and "timer_at s' = timer_at s"
  using assms
  by (auto simp: heap_try_grow_def Let_def timer_inv_def good_def idx_ok_def agenda_def deadline_def fun_eq_iff heap_order_def edge_def split: if_splits)

lemma arm_with_growth_spec:
  assumes inv: "timer_inv s"
  shows "\<exists>s' head ok. arm_with_growth mem_ok t dl per s = Some (s', head, ok) \<and> timer_inv s' \<and>
    ok = (t \<in> set (s_heap s) \<or> length (s_heap s) < s_cap s \<or> s_cap s * 2 \<le> TIMER_HEAP_MAX_CAP \<and> mem_ok 0) \<and>
    head = (ok \<and> s_heap s' ! 0 = t) \<and>
    agenda s' = (if ok then (agenda s)(t \<mapsto> dl) else agenda s)"
proof -
  obtain s1 ok1 where arm1: "arm_locked t dl per s = (s1, ok1)" by (meson surj_pair)
  note a = arm_locked_spec [OF inv arm1]
  show ?thesis
  proof (cases ok1)
    case True
    then show ?thesis using a arm1 by (subst arm_with_growth.simps) auto
  next
    case False
    obtain s2 grown where grow: "heap_try_grow (mem_ok 0) s1 = (s2, grown)" by (meson surj_pair)
    note g = grow_spec [OF a(2) grow]
    show ?thesis
    proof (cases grown)
      case ng: False
      then show ?thesis using False a g arm1 grow by (subst arm_with_growth.simps) auto
    next
      case True
      obtain s3 ok3 where arm3: "arm_locked t dl per s2 = (s3, ok3)" by (meson surj_pair)
      note b = arm_locked_spec [OF g(1) arm3]
      have "TIMER_HEAP_BOOT_CAP \<le> s_cap s1" "length (s_heap s1) \<le> s_cap s1" using a(2) by (auto simp: timer_inv_def)
      then have "length (s_heap s2) < s_cap s2" using g(3,5) True by (simp add: TIMER_HEAP_BOOT_CAP_def)
      then have ok3 using b(1) by simp
      have "arm_with_growth mem_ok t dl per s = arm_with_growth (\<lambda>n. mem_ok (Suc n)) t dl per s2"
        using False True arm1 grow by (subst arm_with_growth.simps) simp
      also have "\<dots> = Some (s3, s_heap s3 ! 0 = t, True)"
        using \<open>ok3\<close> arm3 by (subst arm_with_growth.simps) simp
      finally show ?thesis using \<open>ok3\<close> False True a g b by auto
    qed
  qed
qed

lemma cancel_spec:
  assumes inv: "timer_inv s"
  shows "timer_inv (timer_cancel t s)" and "agenda (timer_cancel t s) = (agenda s)(t := None)"
    and "t_gen (timer_at (timer_cancel t s) t) = t_gen (timer_at s t) + 1"
proof -
  have g: "good s" using inv by (simp add: timer_inv_def)
  note d = detach_spec [OF g, of t]
  let ?f = "\<lambda>x. x\<lparr>t_gen := t_gen x + 1, deadline_ns := 0, period_ns := 0\<rparr>"
  have c: "timer_cancel t s = set_timer t ?f (detach_if_armed t s)" by (simp add: timer_cancel_def)
  have "good (timer_cancel t s)" unfolding c using d(1,2) by (intro good_set_timer) auto
  moreover have "length (s_heap (timer_cancel t s)) \<le> length (s_heap s)" using d(3) by (simp add: c)
  ultimately show "timer_inv (timer_cancel t s)" using inv kept_facts(2) [OF d(4)] by (simp add: timer_inv_def c)
  show "agenda (timer_cancel t s) = (agenda s)(t := None)"
    using d(2) kept_facts(6) [OF d(4)] by (auto simp: agenda_def c deadline_def fun_eq_iff)
  show "t_gen (timer_at (timer_cancel t s) t) = t_gen (timer_at s t) + 1"
    using kept_facts(4) [OF d(4)] by (simp add: c)
qed

lemma next_deadline_spec:
  assumes "timer_inv s"
  shows "if agenda s = Map.empty then timer_next_deadline_ns s = UINT64_MAX
    else timer_next_deadline_ns s \<in> ran (agenda s) \<and> (\<forall>d \<in> ran (agenda s). timer_next_deadline_ns s \<le> d)"
proof (cases "s_heap s = []")
  case True
  then show ?thesis by (simp add: agenda_def timer_next_deadline_ns_def fun_eq_iff)
next
  case False
  then have h: "s_heap s ! 0 \<in> set (s_heap s)" by simp
  then have "agenda s \<noteq> Map.empty" "timer_next_deadline_ns s \<in> ran (agenda s)"
    using False h by (auto simp: agenda_def timer_next_deadline_ns_def ran_def fun_eq_iff simp del: nth_mem)
  moreover have "timer_next_deadline_ns s \<le> d" if ran: "d \<in> ran (agenda s)" for d
  proof -
    obtain u where u: "u \<in> set (s_heap s)" "d = deadline s u"
      using ran by (auto simp: ran_def agenda_def split: if_splits)
    then obtain i where "i < length (s_heap s)" "u = s_heap s ! i" by (metis in_set_conv_nth)
    then show ?thesis using heap_order_min [of "deadline s" "s_heap s" i] assms False u
      by (simp add: timer_inv_def good_def timer_next_deadline_ns_def)
  qed
  ultimately show ?thesis by simp
qed

section \<open>The tick\<close>

definition due :: "u64 \<Rightarrow> timer_sys \<Rightarrow> nat set" where
  "due now s = {t. \<exists>d. agenda s t = Some d \<and> d \<le> now}"

text \<open>No period carries the clock past its 64 bits, which is 584 years away.\<close>

definition calm :: "u64 \<Rightarrow> timer_sys \<Rightarrow> bool" where
  "calm now s \<longleftrightarrow> (\<forall>t. period_ns (timer_at s t) \<noteq> 0 \<longrightarrow> now < now + period_ns (timer_at s t))"

lemma due_iff: "t \<in> due now s \<longleftrightarrow> t \<in> set (s_heap s) \<and> deadline s t \<le> now"
  by (auto simp: due_def agenda_def)

lemma finite_due [simp]: "finite (due now s)"
  by (rule finite_subset [of _ "set (s_heap s)"]) (auto simp: due_iff)

lemma head_due_iff:
  assumes "timer_inv s"
  shows "s_heap s \<noteq> [] \<and> deadline s (s_heap s ! 0) \<le> now \<longleftrightarrow> due now s \<noteq> {}"
proof
  assume "s_heap s \<noteq> [] \<and> deadline s (s_heap s ! 0) \<le> now"
  then show "due now s \<noteq> {}" using due_iff [of "s_heap s ! 0" now s] by auto
next
  assume "due now s \<noteq> {}"
  then obtain u where u: "u \<in> set (s_heap s)" "deadline s u \<le> now" by (auto simp: due_iff)
  then obtain i where "i < length (s_heap s)" "u = s_heap s ! i" by (metis in_set_conv_nth)
  with u heap_order_min [of "deadline s" "s_heap s" i] assms
  show "s_heap s \<noteq> [] \<and> deadline s (s_heap s ! 0) \<le> now" by (auto simp: timer_inv_def good_def)
qed

text \<open>What a timer's entry becomes when it fires.\<close>

definition next_shot :: "u64 \<Rightarrow> timer \<Rightarrow> u64 option" where
  "next_shot now x = (if period_ns x = 0 then None else Some (deadline_ns (rephase now x)))"

lemma rephase_later: "now < now + period_ns x \<Longrightarrow> now < deadline_ns (rephase now x)"
  by (auto simp: rephase_def Let_def)

lemma next_shot_later: "calm now s \<Longrightarrow> next_shot now (timer_at s t) = Some d \<Longrightarrow> now < d"
  by (auto simp: next_shot_def calm_def rephase_later split: if_splits)

text \<open>The loop body up to the callback.\<close>

definition shot :: "u64 \<Rightarrow> timer_sys \<Rightarrow> timer_sys" where
  "shot now s =
     (let t = s_heap s ! 0; s1 = heap_remove_at 0 s
      in set_timer t (\<lambda>x. x\<lparr>fire_pending := 1\<rparr>)
           (if period_ns (timer_at s1 t) \<noteq> 0 then fst (heap_insert t (set_timer t (rephase now) s1))
            else set_timer t (\<lambda>x. x\<lparr>deadline_ns := 0\<rparr>) s1))"

lemma set_timer_agenda:
  "(\<And>x. deadline_ns (f x) = deadline_ns x) \<Longrightarrow> agenda (set_timer t f s) = agenda s"
  by (auto simp: agenda_def deadline_def fun_eq_iff)

lemma set_timer_flags:
  assumes "\<And>x. deadline_ns (f x) = deadline_ns x" "\<And>x. heap_idx (f x) = heap_idx x" "\<And>x. period_ns (f x) = period_ns x"
  shows "timer_inv (set_timer t f s) = timer_inv s" and "calm now (set_timer t f s) = calm now s"
proof -
  have "deadline (set_timer t f s) = deadline s" using assms by (auto simp: deadline_def fun_eq_iff)
  moreover have "idx_ok (set_timer t f s) = idx_ok s" using assms by (auto simp: idx_ok_def)
  ultimately show "timer_inv (set_timer t f s) = timer_inv s" by (simp add: timer_inv_def good_def)
  show "calm now (set_timer t f s) = calm now s" using assms by (auto simp: calm_def)
qed

lemma shot_spec:
  assumes inv: "timer_inv s" and ne: "s_heap s \<noteq> []"
  defines "t \<equiv> s_heap s ! 0"
  shows "timer_inv (shot now s)" and "agenda (shot now s) = (agenda s)(t := next_shot now (timer_at s t))"
    and "t_gen (timer_at (shot now s) u) = t_gen (timer_at s u)"
    and "period_ns (timer_at (shot now s) u) = period_ns (timer_at s u)"
proof -
  have g: "good s" and len: "length (s_heap s) \<le> s_cap s" using inv by (auto simp: timer_inv_def)
  let ?s1 = "heap_remove_at 0 s"
  have n0: "0 < length (s_heap s)" using ne by simp
  note r = heap_remove_at_spec [OF g n0, folded t_def]
  have k1: "kept s ?s1" and g1: "good ?s1" and m1: "mset (s_heap ?s1) = mset (s_heap s) - {#t#}" using r by auto
  have set1: "set (s_heap ?s1) = set (s_heap s) - {t}" by (rule set_minus_mset [OF good_distinct [OF g] m1])
  have "size (mset (s_heap ?s1)) = length (s_heap s) - 1"
    using m1 ne by (simp add: size_Diff_singleton t_def)
  then have len1: "length (s_heap ?s1) = length (s_heap s) - 1" by simp
  have room: "length (s_heap ?s1) < s_cap ?s1" using len len1 n0 kept_facts(2) [OF k1] by linarith
  have x1: "deadline_ns (timer_at ?s1 u) = deadline_ns (timer_at s u)" "period_ns (timer_at ?s1 u) = period_ns (timer_at s u)"
    "t_gen (timer_at ?s1 u) = t_gen (timer_at s u)" for u using kept_facts [OF k1] by auto
  have fp: "timer_inv (set_timer t (\<lambda>x. x\<lparr>fire_pending := 1\<rparr>) s') = timer_inv s'"
    "agenda (set_timer t (\<lambda>x. x\<lparr>fire_pending := 1\<rparr>) s') = agenda s'" for s'
    by (simp_all add: set_timer_flags set_timer_agenda)
  have "timer_inv (shot now s) \<and> agenda (shot now s) = (agenda s)(t := next_shot now (timer_at s t)) \<and>
    (\<forall>u. t_gen (timer_at (shot now s) u) = t_gen (timer_at s u) \<and>
         period_ns (timer_at (shot now s) u) = period_ns (timer_at s u))"
  proof (cases "period_ns (timer_at s t) = 0")
    case True
    let ?s2 = "set_timer t (\<lambda>x. x\<lparr>deadline_ns := 0\<rparr>) ?s1"
    have sh: "shot now s = set_timer t (\<lambda>x. x\<lparr>fire_pending := 1\<rparr>) ?s2"
      using True x1 by (simp add: shot_def t_def [symmetric] Let_def)
    have "good ?s2" using g1 set1 by (intro good_set_timer) auto
    then have "timer_inv ?s2" using inv room kept_facts(2) [OF k1] by (simp add: timer_inv_def)
    moreover have "agenda ?s2 = (agenda s)(t := None)"
      using set1 x1 by (auto simp: agenda_def deadline_def fun_eq_iff)
    ultimately show ?thesis using True x1 by (simp add: sh fp next_shot_def)
  next
    case False
    let ?s2 = "set_timer t (rephase now) ?s1"
    have good2: "good ?s2" using g1 set1 by (intro good_set_timer) auto
    have t2: "t \<notin> set (s_heap ?s2)" and room2: "length (s_heap ?s2) < s_cap ?s2" using set1 room by auto
    from heap_insert_spec [OF good2 t2 room2] obtain s3 where
      s3: "heap_insert t ?s2 = (s3, True)" "good s3" "mset (s_heap s3) = add_mset t (mset (s_heap ?s2))" "kept ?s2 s3"
      by blast
    have sh: "shot now s = set_timer t (\<lambda>x. x\<lparr>fire_pending := 1\<rparr>) s3"
      using False x1 s3(1) by (simp add: shot_def t_def [symmetric] Let_def)
    have sets: "set (s_heap s3) = set (s_heap s)"
      using arg_cong [OF s3(3), of set_mset] set1 ne by (auto simp: t_def)
    have "length (s_heap s3) = length (s_heap s)" using arg_cong [OF s3(3), of size] len1 n0 by simp
    then have "timer_inv s3" using s3(2) inv kept_facts(2) [OF s3(4)] kept_facts(2) [OF k1] by (simp add: timer_inv_def)
    moreover have "agenda s3 = (agenda s)(t \<mapsto> deadline_ns (rephase now (timer_at s t)))"
      using kept_facts(6) [OF s3(4)] x1 ne
      by (auto simp: agenda_def sets deadline_def fun_eq_iff rephase_def Let_def t_def)
    ultimately show ?thesis using False x1 kept_facts(4,5) [OF s3(4)]
      by (auto simp: sh fp next_shot_def rephase_def Let_def)
  qed
  then show "timer_inv (shot now s)" "agenda (shot now s) = (agenda s)(t := next_shot now (timer_at s t))"
    "t_gen (timer_at (shot now s) u) = t_gen (timer_at s u)"
    "period_ns (timer_at (shot now s) u) = period_ns (timer_at s u)" by auto
qed

lemma drain_one_shot:
  assumes "timer_inv s" and "s_heap s \<noteq> []"
  defines "t \<equiv> s_heap s ! 0"
  shows "drain_one cb now s = (set_timer t (\<lambda>x. x\<lparr>fire_pending := 0\<rparr>) (cb t (shot now s)), [t])"
  using shot_spec(3) [OF assms(1,2), of now t]
  by (simp add: drain_one_def shot_def Let_def t_def)

definition cb_ok :: "u64 \<Rightarrow> (nat \<Rightarrow> timer_sys \<Rightarrow> timer_sys) \<Rightarrow> bool" where
  "cb_ok now cb \<longleftrightarrow> (\<forall>t s. timer_inv s \<longrightarrow> calm now s \<longrightarrow>
     timer_inv (cb t s) \<and> calm now (cb t s) \<and> due now (cb t s) \<subseteq> due now s)"

lemma due_shot:
  assumes "timer_inv s" and "s_heap s \<noteq> []" and "calm now s"
  shows "due now (shot now s) = due now s - {s_heap s ! 0}"
proof -
  have "\<not> d \<le> now" if "next_shot now (timer_at s (s_heap s ! 0)) = Some d" for d
    using next_shot_later [OF assms(3) that] by simp
  then show ?thesis using shot_spec(2) [OF assms(1,2), of now] by (auto simp: due_def split: if_splits)
qed

lemma drain_loop_spec:
  assumes "cb_ok now cb"
  shows "timer_inv s \<Longrightarrow> calm now s \<Longrightarrow>
    \<exists>s' fired. drain_loop cb now s = Some (s', fired) \<and> timer_inv s' \<and> calm now s' \<and> due now s' = {} \<and>
      distinct fired \<and> set fired \<subseteq> due now s \<and>
      ((\<forall>t s. due now (cb t s) = due now s) \<longrightarrow> set fired = due now s)"
proof (induction "card (due now s)" arbitrary: s rule: less_induct)
  case less
  note inv = less.prems(1) and calm = less.prems(2)
  show ?case
  proof (cases "due now s = {}")
    case True
    then have "drain_loop cb now s = Some (s, [])"
      using head_due_iff [OF inv, of now] by (subst drain_loop.simps) auto
    then show ?thesis using True inv calm by simp
  next
    case False
    then have ne: "s_heap s \<noteq> []" and head: "deadline s (s_heap s ! 0) \<le> now"
      using head_due_iff [OF inv, of now] by auto
    let ?t = "s_heap s ! 0"
    let ?s1 = "set_timer ?t (\<lambda>x. x\<lparr>fire_pending := 0\<rparr>) (cb ?t (shot now s))"
    have t: "?t \<in> due now s" using ne head by (simp add: due_iff)
    have sh: "timer_inv (shot now s)" "calm now (shot now s)"
      using shot_spec(1,4) [OF inv ne, of now] calm by (simp_all add: calm_def)
    have cb: "timer_inv (cb ?t (shot now s))" "calm now (cb ?t (shot now s))"
      "due now (cb ?t (shot now s)) \<subseteq> due now s - {?t}"
      using assms sh due_shot [OF inv ne calm] by (auto simp: cb_ok_def)
    have s1: "timer_inv ?s1" "calm now ?s1" "due now ?s1 = due now (cb ?t (shot now s))"
      using cb by (simp_all add: set_timer_flags set_timer_agenda due_def)
    have "card (due now ?s1) < card (due now s)"
      using s1(3) cb(3) t by (intro psubset_card_mono) auto
    from less.hyps [OF this s1(1,2)] obtain s' fired where
      rec: "drain_loop cb now ?s1 = Some (s', fired)" "timer_inv s'" "calm now s'" "due now s' = {}"
        "distinct fired" "set fired \<subseteq> due now ?s1"
        "(\<forall>t s. due now (cb t s) = due now s) \<longrightarrow> set fired = due now ?s1" by blast
    have step: "drain_loop cb now s = Some (s', ?t # fired)"
      using ne head rec(1) by (subst drain_loop.simps) (simp add: drain_one_shot [OF inv ne])
    have exact: "set (?t # fired) = due now s" if "\<forall>t s. due now (cb t s) = due now s"
      using that rec(7) s1(3) due_shot [OF inv ne calm] t by auto
    have "distinct (?t # fired)" "set (?t # fired) \<subseteq> due now s" using rec(5,6) s1(3) cb(3) t by auto
    with step rec(2-4) exact show ?thesis by blast
  qed
qed

definition quiet_cb :: "nat \<Rightarrow> timer_sys \<Rightarrow> timer_sys" where
  "quiet_cb t s = s"

lemma quiet_cb_ok: "cb_ok now quiet_cb" "due now (quiet_cb t s) = due now s"
  by (simp_all add: cb_ok_def quiet_cb_def)

lemma next_shot_cong:
  "deadline_ns x = deadline_ns y \<Longrightarrow> period_ns x = period_ns y \<Longrightarrow> next_shot now x = next_shot now y"
  by (simp add: next_shot_def rephase_def Let_def)

lemma agenda_deadline: "agenda s t = Some d \<Longrightarrow> deadline_ns (timer_at s t) = d"
  by (auto simp: agenda_def deadline_def split: if_splits)

lemma quiet_drain_agenda:
  "timer_inv s \<Longrightarrow> calm now s \<Longrightarrow> drain_loop quiet_cb now s = Some (s', fired) \<Longrightarrow>
   agenda s' = (\<lambda>u. if u \<in> due now s then next_shot now (timer_at s u) else agenda s u)"
proof (induction "card (due now s)" arbitrary: s fired rule: less_induct)
  case less
  note inv = less.prems(1) and calm = less.prems(2)
  show ?case
  proof (cases "due now s = {}")
    case True
    then have "drain_loop quiet_cb now s = Some (s, [])"
      using head_due_iff [OF inv, of now] by (subst drain_loop.simps) auto
    then show ?thesis using True less.prems(3) by simp
  next
    case False
    then have ne: "s_heap s \<noteq> []" and head: "deadline s (s_heap s ! 0) \<le> now"
      using head_due_iff [OF inv, of now] by auto
    let ?t = "s_heap s ! 0"
    let ?s1 = "set_timer ?t (\<lambda>x. x\<lparr>fire_pending := 0\<rparr>) (shot now s)"
    have t: "?t \<in> due now s" using ne head by (simp add: due_iff)
    note sh = shot_spec [OF inv ne, of now]
    have s1: "timer_inv ?s1" "calm now ?s1" "agenda ?s1 = agenda (shot now s)" "due now ?s1 = due now s - {?t}"
      using sh calm due_shot [OF inv ne calm] by (simp_all add: set_timer_flags set_timer_agenda due_def calm_def)
    have "card (due now ?s1) < card (due now s)" using s1(4) t by (intro psubset_card_mono) auto
    moreover obtain fired1 where rec: "drain_loop quiet_cb now ?s1 = Some (s', fired1)"
      using less.prems(3) ne head
      by (subst (asm) drain_loop.simps) (auto simp: drain_one_shot [OF inv ne] quiet_cb_def split: bind_splits)
    ultimately have IH: "agenda s' = (\<lambda>u. if u \<in> due now ?s1 then next_shot now (timer_at ?s1 u) else agenda ?s1 u)"
      using s1 by (intro less.hyps) auto
    have same: "next_shot now (timer_at ?s1 u) = next_shot now (timer_at s u)" if u: "u \<in> due now s" "u \<noteq> ?t" for u
    proof -
      obtain d where d: "agenda s u = Some d" using u(1) by (auto simp: due_def)
      moreover have "agenda (shot now s) u = Some d" using d u(2) sh(2) by simp
      ultimately have "deadline_ns (timer_at ?s1 u) = deadline_ns (timer_at s u)"
        using u(2) by (simp add: agenda_deadline)
      then show ?thesis using u(2) sh(4) by (intro next_shot_cong) simp_all
    qed
    show ?thesis
    proof
      fix u show "agenda s' u = (if u \<in> due now s then next_shot now (timer_at s u) else agenda s u)"
        using same [of u] t sh(2) by (simp add: IH s1(3,4))
    qed
  qed
qed

lemma trim_spec:
  assumes "timer_inv s" and "timer_heap_trim mem_ok s = (s', freed)"
  shows "timer_inv s' \<and> agenda s' = agenda s \<and> timer_at s' = timer_at s \<and> s_cap s' \<le> s_cap s"
  using assms
  by (auto simp: timer_heap_trim_def Let_def timer_inv_def good_def idx_ok_def agenda_def deadline_def fun_eq_iff
      heap_order_def edge_def TIMER_HEAP_BOOT_CAP_def TIMER_HEAP_MAX_CAP_def split: if_splits)

section \<open>The contract of a deadline queue\<close>

locale deadline_queue =
  fixes inv :: "'s \<Rightarrow> bool"
    and ag :: "'s \<Rightarrow> 't \<rightharpoonup> u64"
    and arm :: "'t \<Rightarrow> u64 \<Rightarrow> 's \<Rightarrow> ('s \<times> bool \<times> bool) option"
    and cancel :: "'t \<Rightarrow> 's \<Rightarrow> 's"
    and nxt :: "'s \<Rightarrow> u64"
  assumes arm_law: "inv s \<Longrightarrow> \<exists>s' head ok. arm t d s = Some (s', head, ok) \<and> inv s' \<and>
      ag s' = (if ok then (ag s)(t \<mapsto> d) else ag s)"
    and cancel_law: "inv s \<Longrightarrow> inv (cancel t s) \<and> ag (cancel t s) = (ag s)(t := None)"
    and next_law: "inv s \<Longrightarrow> if ag s = Map.empty then nxt s = UINT64_MAX
      else nxt s \<in> ran (ag s) \<and> (\<forall>d \<in> ran (ag s). nxt s \<le> d)"
begin

lemma next_determined: "inv s \<Longrightarrow> inv s' \<Longrightarrow> ag s' = ag s \<Longrightarrow> nxt s' = nxt s"
  using next_law [of s] next_law [of s'] by (auto split: if_splits intro: antisym)

lemma ran_update_fresh: "ag s t = None \<Longrightarrow> ran ((ag s)(t \<mapsto> d)) = insert d (ran (ag s))"
  by (simp add: ran_map_upd)

lemma next_arm_fresh:
  assumes "inv s" and "ag s t = None" and "arm t d s = Some (s', head, True)"
  shows "nxt s' = min (nxt s) d"
proof -
  have s': "inv s'" "ag s' = (ag s)(t \<mapsto> d)" using arm_law [OF assms(1), of t d] assms(3) by auto
  have ran: "ran (ag s') = insert d (ran (ag s))" using s'(2) assms(2) by (simp add: ran_update_fresh)
  have top: "x \<le> UINT64_MAX" for x :: u64
  proof -
    have "unat x < 2 ^ LENGTH(64)" by (rule unsigned_less)
    then show ?thesis by (simp add: word_le_nat_alt)
  qed
  have n': "nxt s' \<in> insert d (ran (ag s))" "\<forall>x \<in> insert d (ran (ag s)). nxt s' \<le> x"
    using next_law [OF s'(1)] ran s'(2) by (auto split: if_splits)
  show ?thesis
  proof (cases "ag s = Map.empty")
    case True
    then show ?thesis using n' next_law [OF assms(1)] top [of d] by (simp add: min_absorb2)
  next
    case False
    then have "nxt s \<in> ran (ag s)" "\<forall>x \<in> ran (ag s). nxt s \<le> x" using next_law [OF assms(1)] by auto
    then show ?thesis using n' by (auto simp: min_def intro: antisym)
  qed
qed

lemma arm_then_cancel:
  assumes "inv s" and "ag s t = None" and "arm t d s = Some (s', head, ok)"
  shows "ag (cancel t s') = ag s \<and> nxt (cancel t s') = nxt s"
proof -
  have s': "inv s'" "ag s' = (if ok then (ag s)(t \<mapsto> d) else ag s)" using arm_law [OF assms(1), of t d] assms(3) by auto
  have "ag (cancel t s') = ag s" using cancel_law [OF s'(1), of t] s'(2) assms(2) by (auto simp: fun_eq_iff)
  then show ?thesis using next_determined [OF assms(1)] cancel_law [OF s'(1), of t] by auto
qed

end

interpretation tq: deadline_queue timer_inv agenda "\<lambda>t d. arm_with_growth mem_ok t d per" timer_cancel timer_next_deadline_ns
proof
  fix s t d assume "timer_inv s"
  from arm_with_growth_spec [OF this, of mem_ok t d per]
  show "\<exists>s' head ok. arm_with_growth mem_ok t d per s = Some (s', head, ok) \<and> timer_inv s' \<and>
      agenda s' = (if ok then (agenda s)(t \<mapsto> d) else agenda s)" by blast
qed (simp_all add: cancel_spec next_deadline_spec)

section \<open>Properties\<close>

text \<open>
  C7: arming a timer always returns and does exactly what the agenda says.  The call ends after at most one
  growth of the heap; it fails exactly when the timer is not armed, the heap is full, and the
  array cannot grow (the ceiling of 65536, or no memory).  Success replaces or adds the one
  entry, failure leaves the agenda as it was, and the hardware is re-programmed exactly when
  the timer became the head of the heap.
\<close>

theorem timer_arm_exact:
  assumes "timer_inv s"
  shows "\<exists>s' head ok. arm_with_growth mem_ok t dl per s = Some (s', head, ok) \<and> timer_inv s' \<and>
    (\<not> ok \<longleftrightarrow> agenda s t = None \<and> length (s_heap s) = s_cap s \<and>
       (s_cap s * 2 > TIMER_HEAP_MAX_CAP \<or> \<not> mem_ok 0)) \<and>
    agenda s' = (if ok then (agenda s)(t \<mapsto> dl) else agenda s) \<and>
    head = (ok \<and> s_heap s' ! 0 = t)"
proof -
  have len: "length (s_heap s) \<le> s_cap s" using assms by (simp add: timer_inv_def)
  have mem: "agenda s t = None \<longleftrightarrow> t \<notin> set (s_heap s)" by (simp add: agenda_def)
  obtain s' head ok where call: "arm_with_growth mem_ok t dl per s = Some (s', head, ok)" "timer_inv s'"
    "ok = (t \<in> set (s_heap s) \<or> length (s_heap s) < s_cap s \<or> s_cap s * 2 \<le> TIMER_HEAP_MAX_CAP \<and> mem_ok 0)"
    "head = (ok \<and> s_heap s' ! 0 = t)" "agenda s' = (if ok then (agenda s)(t \<mapsto> dl) else agenda s)"
    using arm_with_growth_spec [OF assms, of mem_ok t dl per] by blast
  have "\<not> ok \<longleftrightarrow> agenda s t = None \<and> length (s_heap s) = s_cap s \<and> (s_cap s * 2 > TIMER_HEAP_MAX_CAP \<or> \<not> mem_ok 0)"
    unfolding call(3) mem using len by linarith
  with call(1,2,4,5) show ?thesis by blast
qed

text \<open>
  The next deadline follows the agenda.  It is the least armed deadline, or the maximum when nothing is
  armed; arming an idle timer makes it the minimum of the old one and the new; and cancelling
  that timer again restores the agenda and the next deadline.
\<close>

theorem timer_next_deadline_agenda:
  assumes "timer_inv s" and "agenda s t = None" and "arm_with_growth mem_ok t dl per s = Some (s', head, ok)"
  shows "(if agenda s = Map.empty then timer_next_deadline_ns s = UINT64_MAX
      else timer_next_deadline_ns s \<in> ran (agenda s) \<and> (\<forall>d \<in> ran (agenda s). timer_next_deadline_ns s \<le> d)) \<and>
    (ok \<longrightarrow> timer_next_deadline_ns s' = min (timer_next_deadline_ns s) dl) \<and>
    timer_inv (timer_cancel t s') \<and> agenda (timer_cancel t s') = agenda s \<and>
    timer_next_deadline_ns (timer_cancel t s') = timer_next_deadline_ns s"
proof -
  have "timer_inv s'" using arm_with_growth_spec [OF assms(1), of mem_ok t dl per] assms(3) by auto
  then have "timer_inv (timer_cancel t s')" by (rule cancel_spec)
  then show ?thesis
    using tq.next_law [OF assms(1)] tq.next_arm_fresh [OF assms(1,2), where mem_ok = mem_ok and per = per and d = dl and s' = s' and head = head] assms(3)
      tq.arm_then_cancel [OF assms] by (cases ok) simp_all
qed

text \<open>
  C36: the tick ends and leaves nothing due.  For callbacks that keep the heap consistent and arm nothing that
  is already due, the drain loop returns, fires every timer at most once and only timers that
  were due, and afterwards no deadline up to now is left; if the callbacks neither arm nor
  cancel due timers, exactly the due timers fire.
\<close>

theorem timer_tick_terminates:
  assumes "timer_inv s" and "calm now s" and "cb_ok now cb"
  shows "\<exists>s' fired. timer_on_tick cb now s = Some (s', fired) \<and> timer_inv s' \<and> due now s' = {} \<and>
    distinct fired \<and> set fired \<subseteq> due now s \<and>
    ((\<forall>t s. due now (cb t s) = due now s) \<longrightarrow> set fired = due now s)"
proof (cases "due now s = {}")
  case True
  then have "timer_on_tick cb now s = Some (s, [])"
    using head_due_iff [OF assms(1), of now] by (auto simp: timer_on_tick_def)
  then show ?thesis using True assms(1) by simp
next
  case False
  then have "timer_on_tick cb now s = drain_loop cb now s"
    using head_due_iff [OF assms(1), of now] by (auto simp: timer_on_tick_def)
  then show ?thesis using drain_loop_spec [OF assms(3,1,2)] by auto
qed

text \<open>
  What a tick does to the agenda.  With callbacks that do not touch timers, every one-shot timer that was
  due is disarmed, every periodic one is armed again strictly after now, one period later or, if
  that has passed too, one period from now, and all other entries are unchanged.
\<close>

theorem timer_tick_agenda:
  assumes "timer_inv s" and "calm now s"
  shows "\<exists>s' fired. timer_on_tick quiet_cb now s = Some (s', fired) \<and>
    agenda s' = (\<lambda>u. if u \<in> due now s then next_shot now (timer_at s u) else agenda s u) \<and>
    (\<forall>u d. next_shot now (timer_at s u) = Some d \<longrightarrow> now < d)"
proof (cases "due now s = {}")
  case True
  then have "timer_on_tick quiet_cb now s = Some (s, [])"
    using head_due_iff [OF assms(1), of now] by (auto simp: timer_on_tick_def)
  then show ?thesis using True next_shot_later [OF assms(2)] by simp
next
  case False
  then have tick: "timer_on_tick quiet_cb now s = drain_loop quiet_cb now s"
    using head_due_iff [OF assms(1), of now] by (auto simp: timer_on_tick_def)
  obtain s' fired where "drain_loop quiet_cb now s = Some (s', fired)"
    using drain_loop_spec [OF quiet_cb_ok(1) assms] by blast
  then show ?thesis using tick quiet_drain_agenda [OF assms] next_shot_later [OF assms(2)] by simp
qed

section \<open>Witnesses\<close>

definition plain_timer :: "u64 \<Rightarrow> u64 \<Rightarrow> int \<Rightarrow> timer" where
  "plain_timer d per i = \<lparr>deadline_ns = d, period_ns = per, t_fn = 0, t_arg = 0, heap_idx = i, t_gen = 0, fire_pending = 0\<rparr>"

definition sample_timers :: timer_sys where
  "sample_timers = \<lparr>s_heap = [1, 2, 3], s_cap = 1024, on_boot = True,
     timer_at = (\<lambda>_. plain_timer 0 0 (-1))(1 := plain_timer 5 0 0, 2 := plain_timer 9 4 1, 3 := plain_timer 7 10 2)\<rparr>"

lemma sample_timers_inv: "timer_inv sample_timers"
  by (auto simp: timer_inv_def good_def idx_ok_def heap_order_def edge_def deadline_def sample_timers_def
      plain_timer_def TIMER_HEAP_BOOT_CAP_def TIMER_HEAP_MAX_CAP_def numeral_3_eq_3 less_Suc_eq)

lemma sample_timers_calm: "calm 8 sample_timers"
  by (auto simp: calm_def sample_timers_def plain_timer_def)

lemma sample_timers_agenda:
  "agenda sample_timers = [1 \<mapsto> 5, 2 \<mapsto> 9, 3 \<mapsto> 7]"
  by (auto simp: agenda_def sample_timers_def deadline_def plain_timer_def fun_eq_iff)

theorem timer_arm_exact_witness:
  "\<exists>s' head. arm_with_growth (\<lambda>_. True) 4 3 0 sample_timers = Some (s', head, True) \<and>
     agenda s' = [1 \<mapsto> 5, 2 \<mapsto> 9, 3 \<mapsto> 7, 4 \<mapsto> 3]"
  using timer_arm_exact [OF sample_timers_inv, of "\<lambda>_. True" 4 3 0]
  by (auto simp: sample_timers_agenda) (simp add: sample_timers_def)

theorem timer_next_deadline_agenda_witness:
  "\<exists>s' head. arm_with_growth (\<lambda>_. True) 4 3 0 sample_timers = Some (s', head, True) \<and>
     timer_next_deadline_ns s' = 3 \<and> timer_next_deadline_ns (timer_cancel 4 s') = 5"
proof -
  have len: "length (s_heap sample_timers) < s_cap sample_timers" by (simp add: sample_timers_def)
  obtain s' head where call: "arm_with_growth (\<lambda>_. True) 4 3 0 sample_timers = Some (s', head, True)"
    using arm_with_growth_spec [OF sample_timers_inv, of "\<lambda>_. True" 4 3 0] len by auto
  have "timer_next_deadline_ns sample_timers = 5"
    by (simp add: timer_next_deadline_ns_def sample_timers_def deadline_def plain_timer_def)
  then show ?thesis
    using timer_next_deadline_agenda [OF sample_timers_inv _ call] call by (auto simp: sample_timers_agenda)
qed

theorem timer_tick_terminates_witness:
  "\<exists>s' fired. timer_on_tick quiet_cb 8 sample_timers = Some (s', fired) \<and> distinct fired \<and> set fired = {1, 3}"
proof -
  have "due 8 sample_timers = {1, 3}" by (auto simp: due_def sample_timers_agenda split: if_splits)
  with timer_tick_terminates [OF sample_timers_inv sample_timers_calm quiet_cb_ok(1)] quiet_cb_ok(2)
  show ?thesis by auto
qed

theorem timer_tick_agenda_witness:
  "\<exists>s' fired. timer_on_tick quiet_cb 8 sample_timers = Some (s', fired) \<and> agenda s' = [2 \<mapsto> 9, 3 \<mapsto> 17]"
proof -
  have due: "due 8 sample_timers = {1, 3}" by (auto simp: due_def sample_timers_agenda split: if_splits)
  have "next_shot 8 (timer_at sample_timers 1) = None" "next_shot 8 (timer_at sample_timers 3) = Some 17"
    by (simp_all add: next_shot_def rephase_def sample_timers_def plain_timer_def)
  then have "(\<lambda>u. if u \<in> due 8 sample_timers then next_shot 8 (timer_at sample_timers u) else agenda sample_timers u) =
      [2 \<mapsto> 9, 3 \<mapsto> 17]" by (auto simp: due sample_timers_agenda fun_eq_iff)
  with timer_tick_agenda [OF sample_timers_inv sample_timers_calm] show ?thesis by metis
qed

end
