(* ===== verification/Math64.thy ===== *)
theory Math64
  imports Prelude
begin

text \<open>
  64-bit division on a 32-bit machine: the helpers of \<^verbatim>\<open>kernel/lib/types.h\<close> and
  \<^verbatim>\<open>kernel/lib/div64.c\<close>.  The \<^verbatim>\<open>divl\<close> instruction divides \<^verbatim>\<open>EDX:EAX\<close> by a 32-bit operand and
  raises \<^verbatim>\<open>#DE\<close> when the divisor is 0 or the quotient does not fit; that is \<open>None\<close>.
\<close>

section \<open>Definitions\<close>

definition hi32 :: "u64 \<Rightarrow> u32" where "hi32 n = ucast (drop_bit 32 n)"
definition lo32 :: "u64 \<Rightarrow> u32" where "lo32 n = ucast n"

definition join32 :: "u32 \<Rightarrow> u32 \<Rightarrow> u64" where
  "join32 hi lo = push_bit 32 (ucast hi) OR ucast lo"

definition divl :: "u32 \<Rightarrow> u32 \<Rightarrow> u32 \<Rightarrow> (u32 \<times> u32) option" where
  "divl edx eax d =
     (if d = 0 \<or> edx \<ge> d then None
      else Some (ucast (join32 edx eax div ucast d), ucast (join32 edx eax mod ucast d)))"

definition udiv64_u32 :: "u64 \<Rightarrow> u32 \<Rightarrow> u64 option" where
  "udiv64_u32 dividend divisor = do {
     (q_hi, r_hi) \<leftarrow> divl 0 (hi32 dividend) divisor;
     (q_lo, r_lo) \<leftarrow> divl r_hi (lo32 dividend) divisor;
     Some (join32 q_hi q_lo) }"

definition umod64_u32 :: "u64 \<Rightarrow> u32 \<Rightarrow> u32 option" where
  "umod64_u32 dividend divisor = do {
     (q_hi, r_hi) \<leftarrow> divl 0 (hi32 dividend) divisor;
     (q_lo, r_lo) \<leftarrow> divl r_hi (lo32 dividend) divisor;
     Some r_lo }"

text \<open>One turn of the shift-and-subtract loop, for bit \<open>i\<close> of the dividend.\<close>

definition div_step :: "u64 \<Rightarrow> u64 \<Rightarrow> nat \<Rightarrow> u64 \<times> u64 \<Rightarrow> u64 \<times> u64" where
  "div_step n d i qr =
     (let r = push_bit 1 (snd qr) OR (drop_bit i n AND 1)
      in if r \<ge> d then (fst qr OR push_bit i 1, r - d) else (fst qr, r))"

definition udiv64 :: "u64 \<Rightarrow> u64 \<Rightarrow> (u64 \<times> u64) option" where
  "udiv64 n d =
     (if d = 0 then Some (0xFFFFFFFFFFFFFFFF, 0)
      else if drop_bit 32 d = 0
      then let d32 = lo32 d; q_hi = hi32 n div d32; r_hi = hi32 n mod d32
           in do { (q_lo, r_lo) \<leftarrow> divl r_hi (lo32 n) d32; Some (join32 q_hi q_lo, ucast r_lo) }
      else Some (fold (div_step n d) (rev [0..<64]) (0, 0)))"

definition udivdi3 :: "u64 \<Rightarrow> u64 \<Rightarrow> u64 option" where
  "udivdi3 n d = map_option fst (udiv64 n d)"

definition umoddi3 :: "u64 \<Rightarrow> u64 \<Rightarrow> u64 option" where
  "umoddi3 n d = map_option snd (udiv64 n d)"

text \<open>Signed operands as 64-bit words read in two's complement; \<^verbatim>\<open>-n\<close> wraps.\<close>

definition magnitude :: "u64 \<Rightarrow> u64" where
  "magnitude n = (if n <s 0 then - n else n)"

definition divdi3 :: "u64 \<Rightarrow> u64 \<Rightarrow> u64 option" where
  "divdi3 n d =
     map_option (\<lambda>(q, r). if (n <s 0) \<noteq> (d <s 0) then - q else q) (udiv64 (magnitude n) (magnitude d))"

definition moddi3 :: "u64 \<Rightarrow> u64 \<Rightarrow> u64 option" where
  "moddi3 n d = map_option (\<lambda>(q, r). if n <s 0 then - r else r) (udiv64 (magnitude n) (magnitude d))"

section \<open>Halves\<close>

lemma unat_lt_u64 [simp]: "unat (w :: u64) < 18446744073709551616"
  using unsigned_less [of w] by simp

lemma unat_ucast: "unat (ucast (w :: 'a::len word) :: 'b::len word) = unat w mod 2 ^ LENGTH('b)"
  by (simp add: unsigned_ucast_eq take_bit_eq_mod)

lemma unat_hi32: "unat (hi32 n) = unat n div 4294967296"
proof -
  have "unat (drop_bit 32 n) = unat n div 4294967296"
    by (simp add: unat_drop_bit_eq drop_bit_eq_div unat_div)
  moreover have "unat n div 4294967296 < 4294967296"
    using unat_lt_u64 [of n] by (intro less_mult_imp_div_less) simp
  ultimately show ?thesis by (simp add: hi32_def unat_ucast)
qed

lemma unat_lo32: "unat (lo32 n) = unat n mod 4294967296"
  by (simp add: lo32_def unat_ucast)

lemma unat_ucast_64 [simp]: "unat (ucast (w :: u32) :: u64) = unat w"
proof -
  have "unat w < 18446744073709551616" using unat_lt_u32 [of w] by linarith
  then show ?thesis by (simp add: unat_ucast)
qed

lemma unat_join32: "unat (join32 hi lo) = unat hi * 4294967296 + unat lo"
proof -
  have "join32 hi lo = push_bit 32 (ucast hi) + ucast lo"
    unfolding join32_def
    by (rule disjunctive_add [symmetric]) (auto simp: bit_simps dest: bit_u32_less)
  moreover have "unat hi * 4294967296 + unat lo < 18446744073709551616"
    using unat_lt_u32 [of hi] unat_lt_u32 [of lo] by linarith
  ultimately show ?thesis by (simp add: push_bit_eq_mult unat_word_ariths)
qed

lemma join_hi_lo: "unat n = unat (hi32 n) * 4294967296 + unat (lo32 n)"
  by (simp add: unat_hi32 unat_lo32)

lemma divl_spec:
  assumes "edx < d"
  shows "\<exists>q r. divl edx eax d = Some (q, r) \<and>
    unat q = (unat edx * 4294967296 + unat eax) div unat d \<and>
    unat r = (unat edx * 4294967296 + unat eax) mod unat d"
proof -
  let ?n = "unat edx * 4294967296 + unat eax"
  have d: "d \<noteq> 0" "\<not> d \<le> edx" and lt: "unat edx < unat d" "0 < unat d"
    using assms by (auto simp: word_less_nat_alt word_le_nat_alt)
  have "?n < (unat edx + 1) * 4294967296" using unat_lt_u32 [of eax] by simp
  also have "\<dots> \<le> unat d * 4294967296" using lt by (intro mult_right_mono) simp_all
  finally have "?n div unat d < 4294967296" by (simp add: less_mult_imp_div_less mult.commute)
  moreover have "?n mod unat d < 4294967296" using mod_less_divisor [OF lt(2), of ?n] unat_lt_u32 [of d] by linarith
  ultimately show ?thesis using d
    by (simp add: divl_def unat_ucast unat_div unat_mod unat_join32)
qed

section \<open>Two divisions by a 32-bit divisor\<close>

text \<open>School division in base \<open>2 ^ 32\<close>: the quotient and remainder of the two digits.\<close>

lemma long_division:
  fixes h l d :: nat
  assumes "0 < d"
  shows "(h * B + l) div d = h div d * B + (h mod d * B + l) div d"
    and "(h * B + l) mod d = (h mod d * B + l) mod d"
proof -
  define X where "X = h mod d * B + l"
  have e: "h * B + l = X + (h div d * B) * d"
    unfolding X_def by (metis (no_types, lifting) add.assoc add.commute add_mult_distrib div_mult_mod_eq mult.assoc mult.commute)
  show "(h * B + l) div d = h div d * B + (h mod d * B + l) div d"
    using assms unfolding e X_def [symmetric] by (simp only: div_mult_self1 neq0_conv)
  show "(h * B + l) mod d = (h mod d * B + l) mod d"
    unfolding e X_def [symmetric] by (simp only: mod_mult_self1)
qed

lemma divl_two:
  assumes "d \<noteq> 0"
  obtains q_hi r_hi q_lo r_lo where "divl 0 (hi32 n) d = Some (q_hi, r_hi)" "divl r_hi (lo32 n) d = Some (q_lo, r_lo)"
    "q_hi = hi32 n div d" "r_hi = hi32 n mod d"
    "unat (join32 q_hi q_lo) = unat n div unat d" "unat r_lo = unat n mod unat d"
proof -
  have d: "0 < unat d" "0 < d" using assms by (auto simp: word_less_nat_alt unat_gt_0)
  obtain q_hi r_hi where 1: "divl 0 (hi32 n) d = Some (q_hi, r_hi)"
    "unat q_hi = unat (hi32 n) div unat d" "unat r_hi = unat (hi32 n) mod unat d"
    using divl_spec [OF d(2), of "hi32 n"] by auto
  then have "r_hi < d" using d(1) by (simp add: word_less_nat_alt)
  then obtain q_lo r_lo where 2: "divl r_hi (lo32 n) d = Some (q_lo, r_lo)"
    "unat q_lo = (unat r_hi * 4294967296 + unat (lo32 n)) div unat d"
    "unat r_lo = (unat r_hi * 4294967296 + unat (lo32 n)) mod unat d"
    using divl_spec [of r_hi d "lo32 n"] by auto
  have "unat (join32 q_hi q_lo) = unat n div unat d"
    using 1 2 long_division(1) [OF d(1), of "unat (hi32 n)" 4294967296 "unat (lo32 n)"]
    by (simp add: unat_join32 join_hi_lo [of n])
  moreover have "unat r_lo = unat n mod unat d"
    using 1 2 long_division(2) [OF d(1), of "unat (hi32 n)" 4294967296 "unat (lo32 n)"]
    by (simp add: join_hi_lo [of n])
  moreover have "q_hi = hi32 n div d" "r_hi = hi32 n mod d"
    using 1 by (simp_all add: word_unat_eq_iff unat_div unat_mod)
  ultimately show thesis using that 1(1) 2(1) by blast
qed

lemma udiv64_u32_spec:
  assumes "d \<noteq> 0"
  shows "udiv64_u32 n d = Some (n div ucast d)"
proof -
  obtain q_hi r_hi q_lo r_lo where c: "divl 0 (hi32 n) d = Some (q_hi, r_hi)"
    "divl r_hi (lo32 n) d = Some (q_lo, r_lo)" "unat (join32 q_hi q_lo) = unat n div unat d"
    using divl_two [OF assms, of n] by metis
  then have "join32 q_hi q_lo = n div ucast d" by (simp add: word_unat_eq_iff unat_div)
  with c(1,2) show ?thesis by (simp add: udiv64_u32_def)
qed

lemma umod64_u32_spec:
  assumes "d \<noteq> 0"
  shows "umod64_u32 n d = Some (ucast (n mod ucast d))"
proof -
  obtain q_hi r_hi q_lo r_lo where c: "divl 0 (hi32 n) d = Some (q_hi, r_hi)"
    "divl r_hi (lo32 n) d = Some (q_lo, r_lo)" "unat r_lo = unat n mod unat d"
    using divl_two [OF assms, of n] by metis
  moreover have "unat n mod unat d < 4294967296" using c(3) unat_lt_u32 [of r_lo] by simp
  ultimately have "r_lo = ucast (n mod ucast d)" by (simp add: word_unat_eq_iff unat_mod unat_ucast)
  with c(1,2) show ?thesis by (simp add: umod64_u32_def)
qed

section \<open>Shift and subtract\<close>

text \<open>After the bits from \<open>i\<close> up: the quotient and remainder of the dividend shifted down by \<open>i\<close>.\<close>

definition div_state :: "u64 \<Rightarrow> u64 \<Rightarrow> nat \<Rightarrow> u64 \<times> u64 \<Rightarrow> bool" where
  "div_state n d i qr \<longleftrightarrow> unat (fst qr) = (unat n div 2 ^ i) div unat d * 2 ^ i \<and>
     unat (snd qr) = (unat n div 2 ^ i) mod unat d"

lemma digit_step:
  fixes N D :: nat
  assumes "0 < D"
  defines "b \<equiv> N mod 2" and "r \<equiv> (N div 2) mod D"
  shows "N mod D = (if D \<le> 2 * r + b then 2 * r + b - D else 2 * r + b)"
    and "N div D = 2 * (N div 2 div D) + (if D \<le> 2 * r + b then 1 else 0)"
proof -
  have r: "r < D" and b: "b < 2" using assms by simp_all
  have N: "N = (2 * (N div 2 div D)) * D + (2 * r + b)"
    unfolding b_def r_def by (metis (no_types, lifting) add.assoc add_mult_distrib2 div_mult_mod_eq mult.assoc mult.commute)
  have lt: "2 * r + b < 2 * D" using r b by linarith
  have small: "(2 * r + b) mod D = (if D \<le> 2 * r + b then 2 * r + b - D else 2 * r + b)"
    using lt by (auto simp: le_mod_geq)
  have small': "(2 * r + b) div D = (if D \<le> 2 * r + b then 1 else 0)"
    using lt assms(1) by (auto simp: le_div_geq)
  show "N mod D = (if D \<le> 2 * r + b then 2 * r + b - D else 2 * r + b)"
    by (subst N) (simp only: mod_mult_self3 small)
  show "N div D = 2 * (N div 2 div D) + (if D \<le> 2 * r + b then 1 else 0)"
    using assms(1) by (subst N) (simp only: div_mult_self3 small' neq0_conv)
qed

lemma unat_shift_in:
  assumes "2 * unat (r :: u64) + (if bit n i then 1 else 0) < 18446744073709551616"
  shows "unat (push_bit 1 r OR (drop_bit i n AND 1)) = 2 * unat r + (if bit n i then 1 else 0)"
proof -
  have "push_bit 1 r OR (drop_bit i n AND 1) = push_bit 1 r + (drop_bit i n AND 1)"
    by (rule disjunctive_add [symmetric]) (simp only: bit_push_bit_iff bit_and_iff bit_1_iff, auto)
  moreover have "(drop_bit i n AND 1) = (if bit n i then 1 else 0)"
    by (simp add: and_one_eq bit_iff_odd_drop_bit odd_iff_mod_2_eq_one)
  ultimately show ?thesis using assms by (auto simp: push_bit_eq_mult unat_word_ariths)
qed

lemma unat_set_new_bit:
  assumes "unat (q :: u64) = A * 2 ^ Suc i" and "i < 64"
  shows "unat (q OR push_bit i 1) = unat q + 2 ^ i"
proof -
  have "unat q div 2 ^ i = 2 * A" using assms(1) by simp
  then have "\<not> bit (unat q) i" by (simp add: bit_iff_odd)
  then have nb: "\<not> bit q i" by (simp add: bit_unsigned_iff)
  have "q OR push_bit i 1 = q + push_bit i 1"
    by (rule disjunctive_add [symmetric]) (use nb in \<open>auto simp: bit_simps\<close>)
  moreover have "unat (push_bit i 1 :: u64) = 2 ^ i"
  proof -
    have "(2 :: nat) ^ i < 2 ^ 64" using assms(2) by (intro power_strict_increasing) simp_all
    moreover have "push_bit i (1 :: u64) = of_nat (2 ^ i)" by simp
    ultimately show ?thesis by (simp only: unat_of_nat) simp
  qed
  moreover have "unat q + 2 ^ i < 18446744073709551616"
  proof -
    have "A * 2 ^ Suc i < 2 ^ 64" using unat_lt_u64 [of q] assms(1) by simp
    also have "(2 :: nat) ^ 64 = 2 ^ (63 - i) * 2 ^ Suc i" using assms(2) by (simp flip: power_add power_Suc)
    finally have "A < 2 ^ (63 - i)" by (simp del: power_Suc)
    then have "Suc A * 2 ^ Suc i \<le> 2 ^ (63 - i) * 2 ^ Suc i" by (intro mult_right_mono) simp_all
    also have "\<dots> = 2 ^ 64" using assms(2) by (simp flip: power_add power_Suc)
    finally have "A * 2 ^ Suc i + 2 ^ Suc i \<le> 2 ^ 64" by simp
    moreover have "(2 :: nat) ^ i < 2 ^ Suc i" "(2 :: nat) ^ 64 = 18446744073709551616" by simp_all
    ultimately show ?thesis using assms(1) by linarith
  qed
  ultimately show ?thesis by (simp add: unat_word_ariths)
qed

lemma div_step_state:
  assumes st: "div_state n d (Suc i) qr" and i: "i < 64" and d: "d \<noteq> 0"
  shows "div_state n d i (div_step n d i qr)"
proof -
  obtain q r where qr: "qr = (q, r)" by (cases qr)
  let ?N = "unat n div 2 ^ i" let ?D = "unat d"
  have D: "0 < ?D" using d by (simp add: unat_gt_0)
  have half: "unat n div 2 ^ Suc i = ?N div 2" by (metis div_mult2_eq power_Suc2)
  have q: "unat q = (?N div 2) div ?D * 2 ^ Suc i" and r: "unat r = (?N div 2) mod ?D"
    using st half by (simp_all add: div_state_def qr)
  have b: "(if bit n i then 1 else 0) = ?N mod 2"
  proof -
    have "bit n i \<longleftrightarrow> bit (unat n) i" by (simp add: bit_unsigned_iff)
    then show ?thesis by (auto simp: bit_iff_odd [of "unat n"] odd_iff_mod_2_eq_one)
  qed
  have "2 * unat r \<le> 2 * (?N div 2)" unfolding r by simp
  then have "2 * unat r + ?N mod 2 \<le> 2 * (?N div 2) + ?N mod 2" by (rule add_right_mono)
  also have "\<dots> = ?N" by (rule mult_div_mod_eq)
  finally have "2 * unat r + ?N mod 2 \<le> ?N" .
  also have "?N < 18446744073709551616" using unat_lt_u64 [of n] div_le_dividend [of "unat n" "2 ^ i"] by linarith
  finally have fits: "2 * unat r + (if bit n i then 1 else 0) < 18446744073709551616" by (simp add: b)
  let ?r' = "push_bit 1 r OR (drop_bit i n AND 1)"
  have r': "unat ?r' = 2 * ((?N div 2) mod ?D) + ?N mod 2" using unat_shift_in [OF fits] b r by simp
  note dig = digit_step [OF D, of ?N, folded r']
  show ?thesis
  proof (cases "d \<le> ?r'")
    case True
    then have ge: "?D \<le> unat ?r'" by (simp add: word_le_nat_alt)
    have "div_step n d i qr = (q OR push_bit i 1, ?r' - d)" using True by (simp add: div_step_def qr Let_def)
    moreover have "unat (?r' - d) = ?N mod ?D" using dig(1) ge unat_sub [OF True] by simp
    moreover have "unat (q OR push_bit i 1) = ?N div ?D * 2 ^ i"
      using unat_set_new_bit [OF q i] dig(2) ge q by (simp add: algebra_simps)
    ultimately show ?thesis by (simp add: div_state_def)
  next
    case False
    then have lt: "\<not> ?D \<le> unat ?r'" by (simp add: word_le_nat_alt)
    have "div_step n d i qr = (q, ?r')" using False by (simp add: div_step_def qr Let_def)
    moreover have "unat q = ?N div ?D * 2 ^ i" using dig(2) lt q by simp
    ultimately show ?thesis using dig(1) lt by (simp add: div_state_def)
  qed
qed

lemma div_loop: "d \<noteq> 0 \<Longrightarrow> k \<le> 64 \<Longrightarrow> div_state n d k s \<Longrightarrow> div_state n d 0 (fold (div_step n d) (rev [0..<k]) s)"
proof (induction k arbitrary: s)
  case (Suc k)
  then show ?case using div_step_state [of n d k s] by simp
qed simp

lemma udiv64_spec:
  assumes "d \<noteq> 0"
  shows "udiv64 n d = Some (n div d, n mod d)"
proof (cases "drop_bit 32 d = 0")
  case True
  have small: "unat d < 4294967296"
    using arg_cong [OF True, of unat] by (simp add: unat_drop_bit_eq drop_bit_eq_div unat_div div_eq_0_iff)
  then have d32: "unat (lo32 d) = unat d" by (simp add: unat_lo32)
  then have "lo32 d \<noteq> 0" using assms by (metis unat_0 unat_eq_iff_u32 word_unat_eq_iff)
  then obtain q_hi r_hi q_lo r_lo where c: "divl r_hi (lo32 n) (lo32 d) = Some (q_lo, r_lo)"
    "q_hi = hi32 n div lo32 d" "r_hi = hi32 n mod lo32 d"
    "unat (join32 q_hi q_lo) = unat n div unat d" "unat r_lo = unat n mod unat d"
    using divl_two [of "lo32 d" n] d32 by metis
  then show ?thesis using True assms
    by (simp add: udiv64_def Let_def word_unat_eq_iff [of "join32 q_hi q_lo"] word_unat_eq_iff [of "ucast r_lo"]
        word_unat_eq_iff [of "join32 (hi32 n div lo32 d) q_lo"] unat_div unat_mod)
next
  case False
  have "div_state n d 64 (0, 0)" using unat_lt_u64 [of n] by (simp add: div_state_def)
  then have "div_state n d 0 (fold (div_step n d) (rev [0..<64]) (0, 0))" by (rule div_loop [OF assms order_refl])
  then have "fold (div_step n d) (rev [0..<64]) (0, 0) = (n div d, n mod d)"
    by (auto simp: div_state_def prod_eq_iff word_unat_eq_iff unat_div unat_mod)
  with False assms show ?thesis by (simp add: udiv64_def)
qed

section \<open>Signed division\<close>

lemma bit63_u64: "bit (w :: u64) 63 \<longleftrightarrow> 9223372036854775808 \<le> unat w"
proof -
  have "bit w 63 \<longleftrightarrow> bit (unat w) 63" by (simp add: bit_unsigned_iff)
  then have "bit w 63 \<longleftrightarrow> odd (unat w div 9223372036854775808)" by (simp add: bit_iff_odd [of "unat w"])
  moreover have "unat w div 9223372036854775808 < 2"
    using unat_lt_u64 [of w] by (intro less_mult_imp_div_less) simp
  moreover have "unat w div 9223372036854775808 = 0 \<longleftrightarrow> unat w < 9223372036854775808" by (simp add: div_eq_0_iff)
  ultimately show ?thesis by (auto simp: less_2_cases_iff)
qed

lemma sint_u64:
  "sint (w :: u64) = (if 9223372036854775808 \<le> unat w then int (unat w) - 18446744073709551616 else int (unat w))"
proof -
  have len: "LENGTH(64) - Suc 0 = 63" "Suc 63 = (64 :: nat)" by simp_all
  have t: "take_bit 64 (uint w) = uint w" by (rule bintr_uint) simp
  have e: "uint w = int (unat w)" by simp
  have b: "bit (uint w) 63 = bit w 63" by (simp add: bit_uint_iff)
  have "sint w = uint w - 2 ^ 64 * of_bool (bit w 63)"
    unfolding sint_uint len signed_take_bit_eq_take_bit_minus t b ..
  then show ?thesis unfolding e bit63_u64 by (cases "9223372036854775808 \<le> unat w") simp_all
qed

lemma sless_0_u64: "w <s (0 :: u64) \<longleftrightarrow> 9223372036854775808 \<le> unat w"
proof -
  have "sint w < 0 \<longleftrightarrow> 9223372036854775808 \<le> unat w"
    unfolding sint_u64 using unat_lt_u64 [of w] by (cases "9223372036854775808 \<le> unat w") (simp_all del: of_nat_unat)
  then show ?thesis by (simp add: word_sless_alt)
qed

lemma unat_minus_u64: "unat (- w :: u64) = (if w = 0 then 0 else 18446744073709551616 - unat w)"
proof (cases "w = 0")
  case False
  have "uint (- w) = (- uint w) mod 18446744073709551616" by (simp add: uint_word_ariths)
  also have "\<dots> = 18446744073709551616 - uint w"
    using False uint_lt2p [of w] uint_0_iff [of w] uint_ge_0 [of w] by (simp add: zmod_zminus1_eq_if)
  finally have "int (unat (- w)) = 18446744073709551616 - int (unat w)" by simp
  then have "unat (- w) = 18446744073709551616 - unat w" by linarith
  with False show ?thesis by simp
qed simp

lemma unat_magnitude: "int (unat (magnitude n)) = \<bar>sint n\<bar>"
proof (cases "9223372036854775808 \<le> unat n")
  case True
  then have "n \<noteq> 0" by auto
  then have "unat (magnitude n) = 18446744073709551616 - unat n"
    using True by (simp add: magnitude_def sless_0_u64 unat_minus_u64)
  moreover have "sint n = int (unat n) - 18446744073709551616" using True by (simp add: sint_u64 del: of_nat_unat)
  ultimately show ?thesis using unat_lt_u64 [of n] by linarith
next
  case False
  then show ?thesis by (simp add: magnitude_def sless_0_u64 sint_u64 del: of_nat_unat)
qed

lemma sint_small: "unat (w :: u64) < 9223372036854775808 \<Longrightarrow> sint w = int (unat w)"
  by (simp add: sint_u64 del: of_nat_unat)

lemma sint_minus_small: "unat (w :: u64) \<le> 9223372036854775808 \<Longrightarrow> sint (- w) = - int (unat w)"
proof (cases "w = 0")
  case False
  assume "unat w \<le> 9223372036854775808"
  moreover have "unat (- w) = 18446744073709551616 - unat w" using False by (simp add: unat_minus_u64)
  ultimately show ?thesis unfolding sint_u64 [of "- w"] by auto
qed simp

lemma magnitude_0: "magnitude d = 0 \<longleftrightarrow> d = 0"
  by (simp add: magnitude_def)

lemma magnitude_bound: "unat (magnitude n) \<le> 9223372036854775808"
  by (cases "n = 0") (auto simp: magnitude_def sless_0_u64 unat_minus_u64)

section \<open>Properties\<close>

text \<open>
  C38: 64-bit division is exact.  For every dividend and every divisor other than 0 the two-step
  division by a 32-bit divisor never faults and gives the true quotient and remainder, and the
  general routine does so on its fast path and on its bit loop alike; a 0 divisor faults in the
  former and is answered with all ones and remainder 0 by the latter.
\<close>

theorem udiv64_exact:
  "(d32 \<noteq> 0 \<longrightarrow> udiv64_u32 n d32 = Some (n div ucast d32) \<and> umod64_u32 n d32 = Some (ucast (n mod ucast d32))) \<and>
   (d32 = 0 \<longrightarrow> udiv64_u32 n d32 = None \<and> umod64_u32 n d32 = None) \<and>
   (d \<noteq> 0 \<longrightarrow> udivdi3 n d = Some (n div d) \<and> umoddi3 n d = Some (n mod d)) \<and>
   (d = 0 \<longrightarrow> udivdi3 n d = Some (- 1) \<and> umoddi3 n d = Some 0)"
proof -
  have "udiv64_u32 n 0 = None" "umod64_u32 n 0 = None" by (simp_all add: udiv64_u32_def umod64_u32_def divl_def)
  moreover have "udivdi3 n 0 = Some (- 1)" "umoddi3 n 0 = Some 0" by (simp_all add: udivdi3_def umoddi3_def udiv64_def)
  ultimately show ?thesis
    by (auto simp: udiv64_u32_spec umod64_u32_spec udiv64_spec udivdi3_def umoddi3_def)
qed

text \<open>
  Signed 64-bit division truncates towards zero, as C requires.  For a divisor other than 0 and except for
  the one quotient that does not fit, the helper returns the quotient of the magnitudes with the
  sign of the product and the remainder with the sign of the dividend.
\<close>

theorem divdi3_truncates:
  assumes "d \<noteq> 0" and "\<not> (sint n = - (2 ^ 63) \<and> sint d = -1)"
  shows "\<exists>q r. divdi3 n d = Some q \<and> moddi3 n d = Some r \<and>
    sint q = sgn (sint n) * sgn (sint d) * (\<bar>sint n\<bar> div \<bar>sint d\<bar>) \<and>
    sint r = sgn (sint n) * (\<bar>sint n\<bar> mod \<bar>sint d\<bar>) \<and>
    sint n = sint q * sint d + sint r"
proof -
  let ?a = "magnitude n" let ?b = "magnitude d"
  define Q where "Q = \<bar>sint n\<bar> div \<bar>sint d\<bar>"
  define R where "R = \<bar>sint n\<bar> mod \<bar>sint d\<bar>"
  have b: "?b \<noteq> 0" using assms(1) by (simp add: magnitude_0)
  have u: "int (unat (?a div ?b)) = Q" "int (unat (?a mod ?b)) = R"
    by (simp_all only: unat_div unat_mod zdiv_int zmod_int unat_magnitude Q_def R_def)
  have neg: "w <s 0 \<longleftrightarrow> sint w < 0" for w :: u64 by (simp add: word_sless_alt)
  have d0: "sint d \<noteq> 0" using assms(1) by (simp add: signed_eq_0_iff)
  have qle: "unat (?a div ?b) \<le> 9223372036854775808"
    using magnitude_bound [of n] by (simp add: unat_div) (meson div_le_dividend le_trans)
  have rlt: "unat (?a mod ?b) < 9223372036854775808"
    using magnitude_bound [of d] b by (simp add: unat_mod) (metis mod_less_divisor unat_gt_0 less_le_trans word_gt_0)
  have qlt: "unat (?a div ?b) < 9223372036854775808" if same: "(n <s 0) = (d <s 0)"
  proof (rule ccontr)
    assume "\<not> ?thesis"
    then have eq: "Q = 9223372036854775808" using qle u(1) by linarith
    have n_le: "\<bar>sint n\<bar> \<le> 9223372036854775808" using magnitude_bound [of n] unat_magnitude [of n] by linarith
    have "Q * \<bar>sint d\<bar> \<le> \<bar>sint n\<bar>" unfolding Q_def by (metis div_mult_mod_eq abs_ge_zero add_increasing2 d0 order_refl pos_mod_sign zero_less_abs_iff)
    then have "9223372036854775808 * \<bar>sint d\<bar> \<le> 9223372036854775808" using n_le by (simp add: eq)
    then have d1: "\<bar>sint d\<bar> = 1" using d0 by linarith
    then have n1: "\<bar>sint n\<bar> = 9223372036854775808" using eq by (simp add: Q_def)
    have "sint n < 9223372036854775808" by (simp add: sint_u64 del: of_nat_unat) (use unat_lt_u64 [of n] in linarith)
    then have "sint n < 0" "sint d < 0" using n1 same by (auto simp: neg)
    then show False using assms(2) n1 d1 by simp
  qed
  have q: "sint (if (n <s 0) \<noteq> (d <s 0) then - (?a div ?b) else ?a div ?b) = sgn (sint n) * sgn (sint d) * Q"
  proof (cases "(n <s 0) = (d <s 0)")
    case True
    then have "sint (?a div ?b) = Q" using sint_small [OF qlt] u by simp
    moreover have "sgn (sint n) * sgn (sint d) * Q = Q"
      using True d0 by (cases "sint n = 0") (auto simp: neg sgn_if Q_def)
    ultimately show ?thesis using True by simp
  next
    case False
    then have "sint (- (?a div ?b)) = - Q" using sint_minus_small [OF qle] u by simp
    moreover have "sgn (sint n) * sgn (sint d) * Q = - Q"
      using False d0 by (cases "sint n = 0") (auto simp: neg sgn_if Q_def)
    ultimately show ?thesis using False by simp
  qed
  have r: "sint (if n <s 0 then - (?a mod ?b) else ?a mod ?b) = sgn (sint n) * R"
    using sint_small [OF rlt] sint_minus_small [of "?a mod ?b"] rlt u
    by (cases "sint n = 0") (auto simp: neg sgn_if R_def)
  have "sint n = sgn (sint n) * (Q * \<bar>sint d\<bar> + R)" by (simp add: Q_def R_def mult_sgn_abs)
  also have "\<dots> = (sgn (sint n) * sgn (sint d) * Q) * sint d + sgn (sint n) * R"
    by (simp add: algebra_simps) (simp add: abs_sgn algebra_simps)
  finally show ?thesis using q r b by (simp add: divdi3_def moddi3_def udiv64_spec Q_def R_def)
qed

section \<open>Witnesses\<close>

theorem udiv64_exact_witness:
  "udiv64_u32 10000000000 7 = Some 1428571428 \<and> umoddi3 0xFFFFFFFFFFFFFFFF 0x100000000000 = Some 0xFFFFFFFFFFF"
  using udiv64_exact [where ?d32.0 = 7 and n = 10000000000 and d = 1]
    udiv64_exact [where ?d32.0 = 1 and n = "0xFFFFFFFFFFFFFFFF" and d = "0x100000000000"]
  by simp

theorem divdi3_truncates_witness:
  "\<exists>q r. divdi3 (- 7) 2 = Some q \<and> moddi3 (- 7) 2 = Some r \<and> sint q = - 3 \<and> sint r = - 1"
proof -
  have "\<exists>q r. divdi3 (- 7) 2 = Some q \<and> moddi3 (- 7) 2 = Some r \<and> sint q = - 3 \<and> sint r = - 1 \<and>
      sint q * 2 + sint r = - 7"
    using divdi3_truncates [of 2 "- 7"] by simp
  then show ?thesis by blast
qed

end
