(* ===== verification/Civil.thy ===== *)
theory Civil
  imports Math64
begin

text \<open>
  The civil calendar of \<^verbatim>\<open>kernel/time/civil.c\<close>: seconds since 1970 from and to a date and time of
  day.  Counters keep the width they have in the source (days are 32-bit in the one direction and
  64-bit in the other); a NULL argument is \<open>None\<close>.
\<close>

section \<open>Definitions\<close>

record civil_t =
  civ_year :: u32
  civ_month :: u32
  civ_day :: u32
  civ_hour :: u32
  civ_minute :: u32
  civ_second :: u32

definition is_leap_year :: "u32 \<Rightarrow> bool" where
  "is_leap_year y \<longleftrightarrow> y mod 4 = 0 \<and> y mod 100 \<noteq> 0 \<or> y mod 400 = 0"

definition days_in_month :: "u32 list" where
  "days_in_month = [31, 28, 31, 30, 31, 30, 31, 31, 30, 31, 30, 31]"

definition days_before_month :: "u32 list" where
  "days_before_month = [0, 31, 59, 90, 120, 151, 181, 212, 243, 273, 304, 334]"

definition month_days :: "u32 \<Rightarrow> u32 \<Rightarrow> u32" where
  "month_days year m = (if m = 2 \<and> is_leap_year year then 29 else days_in_month ! unat (m - 1))"

definition year_days :: "u32 \<Rightarrow> u32" where
  "year_days y = (if is_leap_year y then 366 else 365)"

definition civil_to_unix_seconds :: "civil_t option \<Rightarrow> u64" where
  "civil_to_unix_seconds arg =
     (case arg of None \<Rightarrow> 0 | Some c \<Rightarrow>
       if civ_year c < 1970 \<or> civ_month c < 1 \<or> civ_month c > 12 \<or> civ_day c < 1 then 0
       else
         let days = fold (\<lambda>y days. days + year_days (of_nat y)) [1970..<unat (civ_year c)] 0;
             days = days + days_before_month ! unat (civ_month c - 1);
             days = (if civ_month c > 2 \<and> is_leap_year (civ_year c) then days + 1 else days);
             days = days + (civ_day c - 1)
         in ucast days * 86400 + ucast (civ_hour c) * 3600 + ucast (civ_minute c) * 60 + ucast (civ_second c))"

text \<open>The walk from 1970 subtracts whole years; every turn takes at least 365 days off.\<close>

function year_walk :: "u64 \<Rightarrow> u32 \<Rightarrow> u64 \<times> u32" where
  "year_walk days year =
     (if days < ucast (year_days year) then (days, year)
      else year_walk (days - ucast (year_days year)) (year + 1))"
  by pat_completeness auto
termination
proof (relation "measure (unat \<circ> fst)", goal_cases)
  case (2 days year)
  have "0 < unat (ucast (year_days year) :: u64)" by (simp add: year_days_def)
  then show ?case using 2 by (simp add: unat_sub not_less word_le_nat_alt)
qed simp

declare year_walk.simps [simp del]

text \<open>The months are tried in order; were none to fit, the month would stay 1.\<close>

fun month_walk :: "u32 \<Rightarrow> u32 list \<Rightarrow> u64 \<Rightarrow> u32 \<times> u64" where
  "month_walk year [] days = (1, days)"
| "month_walk year (m # ms) days =
     (if days < ucast (month_days year m) then (m, days)
      else month_walk year ms (days - ucast (month_days year m)))"

definition months :: "u32 list" where
  "months = [1, 2, 3, 4, 5, 6, 7, 8, 9, 10, 11, 12]"

definition unix_seconds_to_civil :: "u64 \<Rightarrow> civil_t option" where
  "unix_seconds_to_civil total_s = do {
     s_of_day \<leftarrow> umod64_u32 total_s 86400;
     days \<leftarrow> udiv64_u32 total_s 86400;
     let s = s_of_day mod 60;
     let mins = s_of_day div 60;
     let (days, year) = year_walk days 1970;
     let (month, days) = month_walk year months days;
     Some \<lparr> civ_year = year, civ_month = month, civ_day = ucast days + 1,
            civ_hour = mins div 60, civ_minute = mins mod 60, civ_second = s \<rparr> }"

text \<open>A date that exists, at a time of day that exists.\<close>

definition valid_civil :: "civil_t \<Rightarrow> bool" where
  "valid_civil c \<longleftrightarrow> 1970 \<le> civ_year c \<and> 1 \<le> civ_month c \<and> civ_month c \<le> 12 \<and>
     1 \<le> civ_day c \<and> civ_day c \<le> month_days (civ_year c) (civ_month c) \<and>
     civ_hour c < 24 \<and> civ_minute c < 60 \<and> civ_second c < 60"

section \<open>Years\<close>

text \<open>Days before the first of January of a year, counted without wrap-around.\<close>

definition days_upto :: "nat \<Rightarrow> nat" where
  "days_upto y = (\<Sum>k\<leftarrow>[1970..<y]. unat (year_days (of_nat k)))"

lemma year_days_bounds: "365 \<le> unat (year_days y)" "unat (year_days y) \<le> 366"
  by (simp_all add: year_days_def)

lemma days_upto_1970 [simp]: "days_upto 1970 = 0"
  by (simp add: days_upto_def)

lemma days_upto_Suc: "1970 \<le> y \<Longrightarrow> days_upto (Suc y) = days_upto y + unat (year_days (of_nat y))"
  by (simp add: days_upto_def)

lemma days_upto_add: "1970 \<le> y \<Longrightarrow> days_upto y + 365 * k \<le> days_upto (y + k)"
proof (induction k)
  case (Suc k)
  then show ?case using days_upto_Suc [of "y + k"] year_days_bounds(1) [of "of_nat (y + k)"] by simp
qed simp

lemma days_upto_le: "days_upto (1970 + k) \<le> 366 * k"
proof (induction k)
  case (Suc k)
  then show ?case using days_upto_Suc [of "1970 + k"] year_days_bounds(2) [of "of_nat (1970 + k)"] by simp
qed simp

text \<open>A day number lies in one year only.\<close>

lemma year_unique:
  assumes "1970 \<le> y" "1970 \<le> y'" "d < unat (year_days (of_nat y))" "d' < unat (year_days (of_nat y'))"
    and "days_upto y + d = days_upto y' + d'"
  shows "y = y' \<and> d = d'"
proof -
  have *: False if "a < b" "1970 \<le> a" "e < unat (year_days (of_nat a))" "days_upto a + e = days_upto b + e'" for a b e e'
  proof -
    have "days_upto (Suc a) \<le> days_upto b" using days_upto_add [of "Suc a" "b - Suc a"] that(1,2) by simp
    then show False using that(3,4) days_upto_Suc [OF that(2)] by simp
  qed
  have "y = y'" using *[of y y' d d'] *[of y' y d' d] assms by (metis linorder_neqE_nat)
  with assms(5) show ?thesis by simp
qed

lemma year_walk_spec:
  assumes "1970 \<le> unat year" "unat year + unat days div 365 < 2 ^ 32" "year_walk days year = (days', year')"
  shows "1970 \<le> unat year' \<and> days_upto (unat year) + unat days = days_upto (unat year') + unat days' \<and>
    unat days' < unat (year_days year')"
  using assms
proof (induction days year rule: year_walk.induct)
  case (1 days year)
  let ?yd = "ucast (year_days year) :: u64"
  show ?case
  proof (cases "days < ?yd")
    case True
    then show ?thesis using 1(2,4) by (simp add: year_walk.simps [of days] word_less_nat_alt)
  next
    case False
    then have ge: "?yd \<le> days" "unat (year_days year) \<le> unat days" by (simp_all add: not_less word_le_nat_alt)
    then have sub: "unat (days - ?yd) = unat days - unat (year_days year)" by (simp add: unat_sub)
    have "1 \<le> unat days div 365" using ge(2) year_days_bounds(1) [of year] by (simp add: Suc_le_eq div_greater_zero_iff)
    then have y1: "unat (year + 1) = Suc (unat year)" using 1(3) by (simp add: unat_word_ariths)
    have "(unat days - unat (year_days year)) div 365 \<le> (unat days - 365) div 365"
      using year_days_bounds(1) [of year] by (intro div_le_mono) simp
    also have "\<dots> = unat days div 365 - 1" by (simp add: le_div_geq)
    finally have "unat (year + 1) + unat (days - ?yd) div 365 < 2 ^ 32"
      using 1(3) \<open>1 \<le> unat days div 365\<close> by (simp add: sub y1)
    then show ?thesis using 1(1) [OF False] 1(2,4) False ge sub y1 days_upto_Suc [OF 1(2)]
      by (simp add: year_walk.simps [of days])
  qed
qed

lemma sum_years: "fold (\<lambda>y days. days + year_days (of_nat y)) [1970..<n] 0 = of_nat (days_upto n)"
  by (induction n) (simp_all add: days_upto_def add.commute)

section \<open>Months\<close>

text \<open>Days before the first of a month, by the table of month lengths.\<close>

definition days_before :: "u32 \<Rightarrow> u32 \<Rightarrow> nat" where
  "days_before y m = (\<Sum>k\<leftarrow>take (unat m - 1) months. unat (month_days y k))"

lemma in_months: "1 \<le> m \<and> m \<le> 12 \<longleftrightarrow> m \<in> set months"
proof
  assume m: "1 \<le> m \<and> m \<le> 12"
  then have "unat m \<in> {1..12}" by (simp add: word_le_nat_alt)
  also have "{1..12} = unat ` set months" by code_simp
  finally obtain x where "unat m = unat x" "x \<in> set months" by auto
  then show "m \<in> set months" by (simp flip: word_unat_eq_iff)
qed (auto simp: months_def)

lemma months_nth: "m \<in> set months \<Longrightarrow> months = take (unat m - 1) months @ m # drop (unat m) months"
  by (auto simp: months_def)

lemma months_index: "months = pre @ m # post \<Longrightarrow> pre = take (unat m - 1) months"
proof -
  assume a: "months = pre @ m # post"
  have "length pre < length months" unfolding a by simp
  moreover have m: "m = months ! length pre" unfolding a by simp
  ultimately have "length pre \<in> {..<12}" by (simp add: months_def)
  also have "{..<12} = {0, 1, 2, 3, 4, 5, 6, 7, 8, 9, 10, 11 :: nat}" by code_simp
  finally have "length pre \<in> \<dots>" .
  then have "unat m - 1 = length pre" unfolding m by (auto simp: months_def)
  then show ?thesis unfolding a by simp
qed

lemma table_before_month:
  "m \<in> set months \<Longrightarrow>
   unat (days_before_month ! unat (m - 1)) + (if 2 < m \<and> is_leap_year y then 1 else 0) = days_before y m"
  by (auto simp: months_def days_before_month_def days_before_def month_days_def days_in_month_def)

lemma sum_months: "(\<Sum>k\<leftarrow>months. unat (month_days y k)) = unat (year_days y)"
  by (simp add: months_def month_days_def days_in_month_def year_days_def)

lemma month_days_bounds:
  assumes "m \<in> set months"
  shows "28 \<le> unat (month_days y m)" "unat (month_days y m) \<le> 31"
  using assms by (auto simp: months_def month_days_def days_in_month_def)

lemma days_before_year:
  assumes "m \<in> set months"
  shows "days_before y m + unat (month_days y m) \<le> unat (year_days y)"
  using sum_months [of y] by (subst (asm) months_nth [OF assms]) (simp add: days_before_def)

lemma month_walk_spec:
  assumes "unat days < (\<Sum>k\<leftarrow>ms. unat (month_days y k))" "month_walk y ms days = (m, days')"
  shows "\<exists>pre post. ms = pre @ m # post \<and> unat days = (\<Sum>k\<leftarrow>pre. unat (month_days y k)) + unat days' \<and>
    unat days' < unat (month_days y m)"
  using assms
proof (induction y ms days rule: month_walk.induct)
  case (2 year k ms days)
  show ?case
  proof (cases "days < ucast (month_days year k)")
    case True
    with 2(3) show ?thesis by (intro exI [of _ "[]"] exI [of _ ms]) (auto simp: word_less_nat_alt)
  next
    case False
    then have "unat (days - ucast (month_days year k)) = unat days - unat (month_days year k)"
      "unat (month_days year k) \<le> unat days" by (simp_all add: unat_sub not_less word_le_nat_alt)
    with 2(1) [OF False] 2(2,3) False obtain pre post where
      "ms = pre @ m # post" "unat days = unat (month_days year k) + (\<Sum>k\<leftarrow>pre. unat (month_days year k)) + unat days'"
      "unat days' < unat (month_days year m)" by fastforce
    then show ?thesis by (intro exI [of _ "k # pre"] exI [of _ post]) simp
  qed
qed simp

lemma month_walk_months:
  assumes "unat days < unat (year_days y)" "month_walk y months days = (m, days')"
  shows "m \<in> set months \<and> unat days = days_before y m + unat days' \<and> unat days' < unat (month_days y m)"
proof -
  obtain pre post where p: "months = pre @ m # post" "unat days = (\<Sum>k\<leftarrow>pre. unat (month_days y k)) + unat days'"
    "unat days' < unat (month_days y m)"
    using month_walk_spec [of days y months] assms by (auto simp: sum_months)
  have "m \<in> set months" unfolding p(1) by simp
  with p months_index [OF p(1)] show ?thesis by (simp add: days_before_def)
qed

text \<open>A day of the year lies in one month only.\<close>

lemma days_before_mono:
  assumes "m \<in> set months" "m' \<in> set months" "unat m < unat m'"
  shows "days_before y m + unat (month_days y m) \<le> days_before y m'"
proof -
  define a where "a = unat m - 1"
  define k where "k = unat m' - 1 - unat m"
  have a: "unat m = Suc a" "unat m' - 1 = a + Suc k" "a \<le> 12"
    using assms in_months [of m] in_months [of m'] by (auto simp: word_le_nat_alt a_def k_def)
  have len: "min (length months) a = a" using a(3) by (simp add: months_def)
  have m: "months = take a months @ m # drop (Suc a) months" using months_nth [OF assms(1)] a(1) by simp
  have "take (a + Suc k) (take a months @ m # drop (Suc a) months) = take a months @ m # take k (drop (Suc a) months)"
    by (simp add: len)
  then have "take (a + Suc k) months = take a months @ m # take k (drop (Suc a) months)" by (subst m)
  then have "\<exists>rest. take (unat m' - 1) months = take (unat m - 1) months @ m # rest"
    unfolding a(2) a(1) by simp
  then show ?thesis by (auto simp: days_before_def)
qed

lemma month_unique:
  assumes "m \<in> set months" "m' \<in> set months" "d < unat (month_days y m)" "d' < unat (month_days y m')"
    and "days_before y m + d = days_before y m' + d'"
  shows "m = m' \<and> d = d'"
proof -
  have "unat m = unat m'"
  proof (cases "unat m" "unat m'" rule: linorder_cases)
    case less
    then show ?thesis using days_before_mono [OF assms(1,2), of y] assms(3,5) by linarith
  next
    case greater
    then show ?thesis using days_before_mono [OF assms(2,1), of y] assms(4,5) by linarith
  qed
  then have "m = m'" by (simp add: word_unat_eq_iff)
  with assms(5) show ?thesis by simp
qed

section \<open>Seconds\<close>

text \<open>Days since the epoch and seconds since the epoch of a date, counted without wrap-around.\<close>

definition civil_days :: "civil_t \<Rightarrow> nat" where
  "civil_days c = days_upto (unat (civ_year c)) + days_before (civ_year c) (civ_month c) + (unat (civ_day c) - 1)"

definition civil_seconds :: "civil_t \<Rightarrow> nat" where
  "civil_seconds c = civil_days c * 86400 + unat (civ_hour c) * 3600 + unat (civ_minute c) * 60 + unat (civ_second c)"

lemma valid_civilD:
  assumes "valid_civil c"
  shows "1970 \<le> unat (civ_year c)" "civ_month c \<in> set months" "1 \<le> unat (civ_day c)"
    "unat (civ_day c) \<le> unat (month_days (civ_year c) (civ_month c))"
    "unat (civ_hour c) < 24" "unat (civ_minute c) < 60" "unat (civ_second c) < 60"
  using assms by (simp_all add: valid_civil_def word_le_nat_alt word_less_nat_alt flip: in_months)

lemma day_of_year:
  assumes "valid_civil c"
  shows "days_before (civ_year c) (civ_month c) + (unat (civ_day c) - 1) < unat (year_days (civ_year c))"
  using days_before_year [OF valid_civilD(2) [OF assms], of "civ_year c"] valid_civilD(3,4) [OF assms] by linarith

lemma civil_days_bound: "valid_civil c \<Longrightarrow> civil_days c < 366 * (unat (civ_year c) - 1969)"
  using day_of_year [of c] year_days_bounds(2) [of "civ_year c"] days_upto_le [of "unat (civ_year c) - 1970"]
    valid_civilD(1) [of c] by (simp add: civil_days_def)

lemma word_days:
  assumes "valid_civil c"
  shows "(let days = fold (\<lambda>y days. days + year_days (of_nat y)) [1970..<unat (civ_year c)] 0;
              days = days + days_before_month ! unat (civ_month c - 1);
              days = (if civ_month c > 2 \<and> is_leap_year (civ_year c) then days + 1 else days)
          in days + (civ_day c - 1)) = of_nat (civil_days c)"
proof -
  have "of_nat (unat (days_before_month ! unat (civ_month c - 1)) +
      (if 2 < civ_month c \<and> is_leap_year (civ_year c) then 1 else 0)) = (of_nat (days_before (civ_year c) (civ_month c)) :: u32)"
    using table_before_month [OF valid_civilD(2) [OF assms], of "civ_year c"] by simp
  moreover have "of_nat (unat (civ_day c) - 1) = civ_day c - 1"
    using valid_civilD(3) [OF assms] by (simp add: of_nat_diff)
  ultimately show ?thesis
    by (simp add: Let_def sum_years civil_days_def add.assoc split: if_splits)
qed

lemma ucast_of_nat: "(ucast (w :: u32) :: u64) = of_nat (unat w)"
  by simp

lemma civil_to_unix_valid:
  assumes v: "valid_civil c" and small: "civil_days c < 2 ^ 32"
  shows "unat (civil_to_unix_seconds (Some c)) = civil_seconds c"
proof -
  have guard: "\<not> (civ_year c < 1970 \<or> civ_month c < 1 \<or> civ_month c > 12 \<or> civ_day c < 1)"
    using v by (auto simp: valid_civil_def)
  let ?w = "of_nat (civil_days c) :: u32"
  have w: "unat ?w = civil_days c" using small by (simp add: unat_of_nat)
  have eq: "civil_to_unix_seconds (Some c) = ucast ?w * 86400 + ucast (civ_hour c) * 3600 +
      ucast (civ_minute c) * 60 + ucast (civ_second c)"
    using word_days [OF v] guard by (simp add: civil_to_unix_seconds_def Let_def)
  have "civil_seconds c < 18446744073709551616"
    using small valid_civilD(5-7) [OF v] unfolding civil_seconds_def by (simp; linarith)
  moreover have "civil_to_unix_seconds (Some c) = of_nat (civil_seconds c)"
    unfolding eq civil_seconds_def ucast_of_nat w by simp
  ultimately show ?thesis by (simp add: unat_of_nat)
qed

lemma radix_unique:
  fixes a a' b b' k :: nat
  assumes "a * k + b = a' * k + b'" "b < k" "b' < k"
  shows "a = a' \<and> b = b'"
proof -
  have "(a * k + b) div k = a" "(a' * k + b') div k = a'" using assms(2,3) by simp_all
  then show ?thesis using assms(1) by simp
qed

text \<open>Two dates that exist and lie the same number of seconds from the epoch are the same.\<close>

lemma civil_seconds_inj:
  assumes "valid_civil c" "valid_civil c'" "civil_seconds c = civil_seconds c'"
  shows "c = c'"
proof -
  have clock: "h = h' \<and> m = m' \<and> s = s' \<and> d = d'"
    if "d * 86400 + h * 3600 + m * 60 + s = d' * 86400 + h' * 3600 + m' * 60 + (s' :: nat)"
      "h < 24" "h' < 24" "m < 60" "m' < 60" "s < 60" "s' < 60" for d d' h h' m m' s s'
  proof -
    have "(d * 24 + h) * 60 + m = (d' * 24 + h') * 60 + m' \<and> s = s'" by (rule radix_unique [of _ 60]) (use that in simp_all)
    moreover from this have "d * 24 + h = d' * 24 + h' \<and> m = m'" using that by (intro radix_unique [of _ 60]) simp_all
    moreover from this have "d = d' \<and> h = h'" using that by (intro radix_unique [of _ 24]) simp_all
    ultimately show ?thesis by simp
  qed
  have t: "civ_hour c = civ_hour c'" "civ_minute c = civ_minute c'" "civ_second c = civ_second c'"
    and d: "civil_days c = civil_days c'"
    using clock [OF assms(3) [unfolded civil_seconds_def]] valid_civilD(5-7) [OF assms(1)] valid_civilD(5-7) [OF assms(2)]
    by (simp_all add: word_unat_eq_iff)
  have y: "unat (civ_year c) = unat (civ_year c') \<and>
      days_before (civ_year c) (civ_month c) + (unat (civ_day c) - 1) =
      days_before (civ_year c') (civ_month c') + (unat (civ_day c') - 1)"
    by (rule year_unique)
      (use valid_civilD(1) assms(1,2) day_of_year d in \<open>simp_all add: civil_days_def add.assoc\<close>)
  then have y': "civ_year c = civ_year c'" by (simp add: word_unat_eq_iff)
  have "civ_month c = civ_month c' \<and> unat (civ_day c) - 1 = unat (civ_day c') - 1"
    by (rule month_unique [where y = "civ_year c"])
      (use valid_civilD(2-4) [OF assms(1)] valid_civilD(2-4) [OF assms(2)] y y' in auto)
  moreover from this have "unat (civ_day c) = unat (civ_day c')"
    using valid_civilD(3) [OF assms(1)] valid_civilD(3) [OF assms(2)] by linarith
  then have "civ_day c = civ_day c'" by (simp add: word_unat_eq_iff)
  ultimately show ?thesis using t y' by simp
qed

lemma hms: "(s :: nat) div 60 div 60 * 3600 + s div 60 mod 60 * 60 + s mod 60 = s"
  using div_mult_mod_eq [of s 60] div_mult_mod_eq [of "s div 60" 60] by linarith

lemma unix_to_civil_spec:
  assumes "unat t < 2 ^ 48"
  shows "\<exists>c. unix_seconds_to_civil t = Some c \<and> valid_civil c \<and> civil_seconds c = unat t"
proof -
  define D where "D = udiv64_u32 t 86400"
  obtain days year where yw: "year_walk (t div 86400) 1970 = (days, year)" by fastforce
  obtain month days' where mw: "month_walk year months days = (month, days')" by fastforce
  define sod where "sod = (ucast (t mod 86400) :: u32)"
  let ?c = "\<lparr>civ_year = year, civ_month = month, civ_day = ucast days' + 1,
     civ_hour = sod div 60 div 60, civ_minute = sod div 60 mod 60, civ_second = sod mod 60\<rparr>"
  have sod: "unat sod = unat t mod 86400"
    by (simp add: sod_def unat_ucast unat_mod)
  have res: "unix_seconds_to_civil t = Some ?c"
    using yw mw by (simp add: unix_seconds_to_civil_def udiv64_u32_spec umod64_u32_spec sod_def Let_def)
  have quot: "unat (t div 86400) = unat t div 86400" by (simp add: unat_div)
  have fit: "unat (1970 :: u32) + unat (t div 86400) div 365 < 2 ^ 32" using assms by (simp add: quot; linarith)
  from year_walk_spec [OF _ fit yw]
  have y: "1970 \<le> unat year" "unat t div 86400 = days_upto (unat year) + unat days" "unat days < unat (year_days year)"
    by (simp_all add: quot)
  from month_walk_months [OF y(3) mw]
  have m: "month \<in> set months" "unat days = days_before year month + unat days'" "unat days' < unat (month_days year month)"
    by simp_all
  have day: "unat (ucast days' + 1 :: u32) = Suc (unat days')"
    using m(3) month_days_bounds(2) [OF m(1), of year] by (simp add: unat_word_ariths unat_ucast)
  have v: "valid_civil ?c"
    using y(1) m(1,3) day sod in_months [of month]
    by (simp add: valid_civil_def word_le_nat_alt word_less_nat_alt unat_div unat_mod div_less_iff_less_mult)
  have "civil_seconds ?c = unat t div 86400 * 86400 + unat sod"
    using y(2) m(2) hms [of "unat sod"] by (simp add: civil_seconds_def civil_days_def day unat_div unat_mod)
  then show ?thesis using res v sod by simp
qed

section \<open>Properties\<close>

text \<open>
  C40: the two conversions are inverse to each other.  Every count of seconds below \<open>2 ^ 48\<close> (some
  nine million years) is split into a date and time of day that exist, and composing them gives the
  count back; every date and time of day that exist, up to the year 8000000, survive composition and
  splitting.
\<close>

theorem civil_round_trip:
  "(unat t < 2 ^ 48 \<longrightarrow>
     (\<exists>c. unix_seconds_to_civil t = Some c \<and> valid_civil c \<and> civil_to_unix_seconds (Some c) = t)) \<and>
   (valid_civil d \<and> civ_year d < 8000000 \<longrightarrow>
     unix_seconds_to_civil (civil_to_unix_seconds (Some d)) = Some d)"
proof (intro conjI impI)
  assume "unat t < 2 ^ 48"
  then obtain c where c: "unix_seconds_to_civil t = Some c" "valid_civil c" "civil_seconds c = unat t"
    using unix_to_civil_spec by blast
  then have "civil_days c < 2 ^ 32" using \<open>unat t < 2 ^ 48\<close> by (simp add: civil_seconds_def)
  then have "civil_to_unix_seconds (Some c) = t"
    using civil_to_unix_valid [OF c(2)] c(3) by (simp add: word_unat_eq_iff)
  with c show "\<exists>c. unix_seconds_to_civil t = Some c \<and> valid_civil c \<and> civil_to_unix_seconds (Some c) = t" by blast
next
  assume d: "valid_civil d \<and> civ_year d < 8000000"
  then have v: "valid_civil d" and days: "civil_days d < 366 * 8000000"
    using civil_days_bound [of d] by (auto simp: word_less_nat_alt)
  from days have fits: "civil_days d < 2 ^ 32" by simp
  have u: "unat (civil_to_unix_seconds (Some d)) = civil_seconds d" by (rule civil_to_unix_valid [OF v fits])
  have "civil_seconds d < 2 ^ 48" using days valid_civilD(5-7) [OF v] by (simp add: civil_seconds_def)
  then obtain c where "unix_seconds_to_civil (civil_to_unix_seconds (Some d)) = Some c" "valid_civil c"
    "civil_seconds c = civil_seconds d" using unix_to_civil_spec [of "civil_to_unix_seconds (Some d)"] u by auto
  then show "unix_seconds_to_civil (civil_to_unix_seconds (Some d)) = Some d"
    using civil_seconds_inj [OF _ v] by simp
qed

text \<open>A day past the end of its month is not rejected: it is counted on into the next month.\<close>

lemma civil_day_overflow:
  "civil_to_unix_seconds (Some \<lparr>civ_year = 1970, civ_month = 2, civ_day = 31, civ_hour = 0, civ_minute = 0, civ_second = 0\<rparr>) =
   civil_to_unix_seconds (Some \<lparr>civ_year = 1970, civ_month = 3, civ_day = 3, civ_hour = 0, civ_minute = 0, civ_second = 0\<rparr>)"
  by (simp add: civil_to_unix_seconds_def days_before_month_def is_leap_year_def Let_def)

section \<open>Witnesses\<close>

theorem civil_round_trip_witness:
  "(let d = \<lparr>civ_year = 2024, civ_month = 2, civ_day = 29, civ_hour = 23, civ_minute = 59, civ_second = 59\<rparr>
    in unix_seconds_to_civil (civil_to_unix_seconds (Some d)) = Some d) \<and>
   (\<exists>c. unix_seconds_to_civil 4294967295 = Some c \<and> civil_to_unix_seconds (Some c) = 4294967295)"
  using civil_round_trip [of 4294967295
      "\<lparr>civ_year = 2024, civ_month = 2, civ_day = 29, civ_hour = 23, civ_minute = 59, civ_second = 59\<rparr>"]
  by (auto simp: valid_civil_def month_days_def is_leap_year_def)

end
