(* ===== verification/Tsc.thy ===== *)
theory Tsc
  imports Math64
begin

text \<open>
  The nanosecond layer over the time-stamp counter, \<^verbatim>\<open>kernel/arch/x86/tsc.c\<close> and \<^verbatim>\<open>tsc.h\<close>: the choice
  of multiplier and shift, the conversion of cycles, the reading with its re-anchoring, and the
  sequence lock that guards the two 64-bit anchors on a machine whose stores are 32 bits wide.
  The counter itself is hardware: its value is an argument.
\<close>

section \<open>Definitions\<close>

record tsc_ns_state_t =
  ts_hz :: u64
  ts_anchor_cycles :: u64
  ts_anchor_ns :: u64
  ts_reanchor_after :: u64
  ts_mult :: u32
  ts_shift :: nat

text \<open>The \<^verbatim>\<open>do\<close>-\<^verbatim>\<open>while\<close> loop, entered with a shift of 32.\<close>

fun mult_shift_loop :: "u64 \<Rightarrow> nat \<Rightarrow> u64 \<times> nat" where
  "mult_shift_loop hz shift =
     (let mult = push_bit shift 1000000000 div hz
      in if mult \<le> 0xFFFFFFFF then (mult, shift)
         else if shift - 1 > 0 then mult_shift_loop hz (shift - 1)
         else (mult, shift - 1))"

definition compute_mult_shift :: "u64 \<Rightarrow> u32 \<times> nat" where
  "compute_mult_shift hz =
     (let hz = (if hz < 1000000 then 1000000 else hz); (mult, shift) = mult_shift_loop hz 32
      in (ucast mult, shift))"

definition overflow_safe_threshold :: "u32 \<Rightarrow> u64" where
  "overflow_safe_threshold mult = (if mult = 0 then - 1 else push_bit 63 1 div ucast mult)"

text \<open>
  \<open>has_tsc\<close> is the processor's feature bit, \<open>hz\<close> the measured frequency and \<open>now\<close> the counter; the
  first result is \<^verbatim>\<open>s_tsc_hz\<close>, which stays 0 without a counter.
\<close>

definition tsc_init :: "bool \<Rightarrow> u64 \<Rightarrow> u64 \<Rightarrow> tsc_ns_state_t \<Rightarrow> u64 \<times> tsc_ns_state_t" where
  "tsc_init has_tsc hz now st =
     (if \<not> has_tsc then (0, st)
      else let (mult, shift) = compute_mult_shift hz
           in (hz, st\<lparr>ts_hz := hz, ts_mult := mult, ts_shift := shift, ts_anchor_cycles := now, ts_anchor_ns := 0,
                      ts_reanchor_after := overflow_safe_threshold mult\<rparr>))"

definition tsc_cycles_to_ns :: "u64 \<Rightarrow> u32 \<Rightarrow> nat \<Rightarrow> u64" where
  "tsc_cycles_to_ns delta mult shift =
     (let lo_prod = ucast (lo32 delta) * ucast mult; hi_prod = ucast (hi32 delta) * ucast mult
      in drop_bit shift lo_prod + push_bit (32 - shift) hi_prod)"

text \<open>The re-anchoring as the elected writer performs it: values behind the anchor are not published.\<close>

definition tsc_ns_reanchor :: "tsc_ns_state_t \<Rightarrow> u64 \<Rightarrow> u64 \<Rightarrow> tsc_ns_state_t" where
  "tsc_ns_reanchor st now_cycles now_ns =
     (if now_cycles > ts_anchor_cycles st \<and> now_ns > ts_anchor_ns st
      then st\<lparr>ts_anchor_cycles := now_cycles, ts_anchor_ns := now_ns\<rparr> else st)"

definition tsc_ns_read :: "tsc_ns_state_t \<Rightarrow> u64 \<Rightarrow> u64 \<times> tsc_ns_state_t" where
  "tsc_ns_read st cycles =
     (let delta = cycles - ts_anchor_cycles st;
          delta = (if delta <s 0 then 0 else delta);
          ns = ts_anchor_ns st + tsc_cycles_to_ns delta (ts_mult st) (ts_shift st)
      in (ns, if delta \<noteq> 0 \<and> delta \<ge> ts_reanchor_after st then tsc_ns_reanchor st cycles ns else st))"

definition tsc_ns_to_cycles :: "tsc_ns_state_t \<Rightarrow> u64 \<Rightarrow> u64" where
  "tsc_ns_to_cycles st ns = (if ts_hz st = 0 then 0 else ns * ts_hz st div 1000000000)"

definition tsc_local_cycles :: "u64 \<Rightarrow> u64 \<Rightarrow> u64" where
  "tsc_local_cycles raw off = raw + off"

definition tsc_cycles_to_raw :: "u64 \<Rightarrow> u64 \<Rightarrow> u64" where
  "tsc_cycles_to_raw corrected off = corrected - off"

section \<open>Conversion of cycles\<close>

lemma unat_drop_64: "unat (drop_bit n (w :: u64)) = unat w div 2 ^ n"
  by (rule trans [OF unat_drop_bit_eq drop_bit_eq_div])

lemma unat_push_64: "unat (push_bit n (w :: u64)) = unat w * 2 ^ n mod 2 ^ 64"
  by (rule trans [OF unsigned_push_bit_eq]) (simp add: take_bit_eq_mod push_bit_eq_mult)

lemma unat_mult_32:
  "unat (ucast (a :: u32) * ucast (b :: u32) :: u64) = unat a * unat b"
proof -
  have "unat a * unat b < 4294967296 * 4294967296"
    using unat_lt_u32 [of a] unat_lt_u32 [of b] by (intro mult_strict_mono) simp_all
  then show ?thesis by (simp add: unat_word_ariths)
qed

lemma split_product:
  fixes d m :: nat
  assumes "s \<le> 32"
  shows "d * m div 2 ^ s = d mod 4294967296 * m div 2 ^ s + d div 4294967296 * m * 2 ^ (32 - s)"
proof -
  have p: "(4294967296 :: nat) = 2 ^ (32 - s) * 2 ^ s" using assms by (simp flip: power_add)
  have "d * m = (d div 4294967296 * 4294967296 + d mod 4294967296) * m" by (simp only: div_mult_mod_eq)
  also have "\<dots> = d mod 4294967296 * m + d div 4294967296 * m * 4294967296" by (simp only: distrib_left distrib_right ac_simps)
  also have "\<dots> = d mod 4294967296 * m + (d div 4294967296 * m * 2 ^ (32 - s)) * 2 ^ s"
    by (subst (3) p) (simp only: mult.assoc)
  finally have "d * m = d mod 4294967296 * m + (d div 4294967296 * m * 2 ^ (32 - s)) * 2 ^ s" .
  then show ?thesis by (simp only: div_mult_self1 power_not_zero zero_neq_numeral not_False_eq_True)
qed

lemma tsc_cycles_to_ns_nat:
  assumes "shift \<le> 32"
  shows "unat (tsc_cycles_to_ns delta mult shift) = (unat delta * unat mult div 2 ^ shift) mod 2 ^ 64"
proof -
  let ?lo = "ucast (lo32 delta) * ucast mult :: u64" and ?hi = "ucast (hi32 delta) * ucast mult :: u64"
  have lo: "unat (drop_bit shift ?lo) = unat delta mod 4294967296 * unat mult div 2 ^ shift"
    by (simp only: unat_drop_64 unat_mult_32 unat_lo32)
  have hi: "unat (push_bit (32 - shift) ?hi) = (unat delta div 4294967296 * unat mult * 2 ^ (32 - shift)) mod 2 ^ 64"
    by (simp only: unat_push_64 unat_mult_32 unat_hi32)
  show ?thesis unfolding tsc_cycles_to_ns_def Let_def split_product [OF assms, of "unat delta" "unat mult"]
    by (simp only: unat_word_ariths lo hi) (simp add: mod_add_right_eq)
qed

section \<open>Multiplier and shift\<close>

declare mult_shift_loop.simps [simp del]

lemma mult_nat:
  assumes "s \<le> 32"
  shows "unat (push_bit s (1000000000 :: u64) div hz) = 1000000000 * 2 ^ s div unat hz"
proof -
  have "(2 :: nat) ^ s \<le> 2 ^ 32" using assms by (intro power_increasing) simp_all
  then have "1000000000 * 2 ^ s < (18446744073709551616 :: nat)" by simp
  then show ?thesis by (simp add: unat_div unat_push_64)
qed

text \<open>
  The loop stops at the largest shift up to its start whose multiplier fits in 32 bits; with a
  frequency of at least 1 MHz there is one above 0.
\<close>

lemma mult_shift_loop_spec:
  assumes "0 < shift" "shift \<le> 32" "1000000 \<le> unat hz"
    and up: "shift < 32 \<Longrightarrow> 4294967296 \<le> 1000000000 * 2 ^ Suc shift div unat hz"
    and res: "mult_shift_loop hz shift = (m, s)"
  shows "0 < s \<and> s \<le> 32 \<and> unat m = 1000000000 * 2 ^ s div unat hz \<and> unat m < 4294967296 \<and>
    (s < 32 \<longrightarrow> 4294967296 \<le> 1000000000 * 2 ^ Suc s div unat hz)"
  using assms
proof (induction hz shift rule: mult_shift_loop.induct)
  case (1 hz shift)
  let ?m = "push_bit shift (1000000000 :: u64) div hz"
  have m: "unat ?m = 1000000000 * 2 ^ shift div unat hz" by (rule mult_nat [OF 1(3)])
  show ?case
  proof (cases "?m \<le> 0xFFFFFFFF")
    case True
    then have "unat ?m \<le> 4294967295" by (simp add: word_le_nat_alt)
    moreover have "mult_shift_loop hz shift = (?m, shift)" using True by (simp add: mult_shift_loop.simps [of hz shift] Let_def)
    then have "m = ?m" "s = shift" using 1(6) by (metis prod.inject)+
    ultimately show ?thesis using 1(2,3,5) m by (simp del: power_Suc)
  next
    case False
    then have big: "4294967296 \<le> 1000000000 * 2 ^ shift div unat hz" using m by (simp add: word_le_nat_alt)
    have "shift \<noteq> 1"
    proof
      assume "shift = 1"
      then have "4294967296 \<le> 2000000000 div unat hz" using big by simp
      also have "\<dots> \<le> 2000000000" by (rule div_le_dividend)
      finally show False by simp
    qed
    then have pos: "0 < shift - 1" using 1(2) by simp
    moreover have "Suc (shift - 1) = shift" using 1(2) by simp
    moreover from this have "mult_shift_loop hz (shift - 1) = (m, s)"
      using 1(6) False pos by (simp add: mult_shift_loop.simps [of hz shift] Let_def)
    ultimately show ?thesis using 1(1) [OF refl False pos pos _ 1(4)] 1(3) big by fastforce
  qed
qed

lemma compute_mult_shift_spec:
  assumes "compute_mult_shift hz = (mult, shift)"
  defines "H \<equiv> max (unat hz) 1000000"
  shows "shift \<le> 32" "unat mult = 1000000000 * 2 ^ shift div H"
    "shift < 32 \<longrightarrow> 4294967296 \<le> 1000000000 * 2 ^ Suc shift div H"
proof -
  let ?h = "if hz < 1000000 then 1000000 else hz"
  obtain m s where ms: "mult_shift_loop ?h 32 = (m, s)" by fastforce
  have H: "unat ?h = H" by (auto simp: H_def word_less_nat_alt max_def)
  have "0 < s \<and> s \<le> 32 \<and> unat m = 1000000000 * 2 ^ s div H \<and> unat m < 4294967296 \<and>
      (s < 32 \<longrightarrow> 4294967296 \<le> 1000000000 * 2 ^ Suc s div H)"
    by (rule mult_shift_loop_spec [of 32 ?h, unfolded H]) (use ms in \<open>simp_all add: H_def\<close>)
  moreover have "mult = ucast m" "shift = s" using assms(1) ms by (simp_all add: compute_mult_shift_def Let_def)
  ultimately show "shift \<le> 32" "unat mult = 1000000000 * 2 ^ shift div H"
    "shift < 32 \<longrightarrow> 4294967296 \<le> 1000000000 * 2 ^ Suc shift div H"
    by (simp_all add: unat_ucast del: power_Suc)
qed

text \<open>Scaling by a truncated ratio is never ahead and falls behind by less than a unit per \<open>P\<close> plus two.\<close>

lemma scaled_below:
  fixes d G H P :: nat
  shows "d * (G * P div H) div P * H \<le> d * G"
proof -
  have "d * (G * P div H) div P * H \<le> d * (G * P div H) * H div P"
    by (metis div_mult1_eq le_add1 mult.commute)
  also have "\<dots> \<le> d * (G * P) div P"
    by (intro div_le_mono) (metis div_times_less_eq_dividend mult.assoc mult_le_mono2)
  also have "\<dots> \<le> d * G" by (cases "P = 0") (simp_all flip: mult.assoc)
  finally show ?thesis .
qed

lemma scaled_above:
  fixes d G H P :: nat
  assumes "0 < P" "0 < H"
  shows "d * G < (d * (G * P div H) div P + d div P + 2) * H"
proof -
  define m where "m = G * P div H"
  have dm: "d * m < (d * m div P + 1) * P" and dd: "d < (d div P + 1) * P"
    using assms(1) dividend_less_div_times [of P] by (simp_all add: add.commute)
  have "G * P \<le> (m + 1) * H" using dividend_less_div_times [OF assms(2), of "G * P"] by (simp add: m_def algebra_simps)
  then have "d * (G * P) \<le> d * ((m + 1) * H)" by (rule mult_le_mono2)
  then have "d * G * P \<le> (d * m + d) * H" by (simp add: algebra_simps)
  also have "\<dots> < (((d * m div P + 1) + (d div P + 1)) * P) * H"
    using dm dd assms(2) by (intro mult_strict_right_mono) (simp_all only: add_mult_distrib add_strict_mono)
  finally have "d * G * P < ((d * m div P + d div P + 2) * H) * P" by (simp add: algebra_simps)
  then show ?thesis by (simp add: m_def)
qed

section \<open>Reading and re-anchoring\<close>

text \<open>The time a state assigns to a counter value at or past its anchor, without wrap-around.\<close>

definition ideal_ns :: "tsc_ns_state_t \<Rightarrow> u64 \<Rightarrow> nat" where
  "ideal_ns st c = unat (ts_anchor_ns st) +
     (unat c - unat (ts_anchor_cycles st)) * unat (ts_mult st) div 2 ^ ts_shift st"

definition in_range :: "tsc_ns_state_t \<Rightarrow> u64 \<Rightarrow> bool" where
  "in_range st c \<longleftrightarrow> ts_shift st \<le> 32 \<and> ts_anchor_cycles st \<le> c \<and>
     unat c - unat (ts_anchor_cycles st) < 2 ^ 63 \<and> ideal_ns st c < 2 ^ 64"

lemma tsc_ns_read_value:
  assumes "in_range st c"
  shows "unat (fst (tsc_ns_read st c)) = ideal_ns st c"
    and "snd (tsc_ns_read st c) = st \<or>
      snd (tsc_ns_read st c) = st\<lparr>ts_anchor_cycles := c, ts_anchor_ns := fst (tsc_ns_read st c)\<rparr>"
proof -
  let ?d = "c - ts_anchor_cycles st"
  have d: "unat ?d = unat c - unat (ts_anchor_cycles st)" using assms by (simp add: in_range_def unat_sub)
  then have "\<not> ?d <s 0" using assms by (simp add: sless_0_u64 in_range_def)
  then show "unat (fst (tsc_ns_read st c)) = ideal_ns st c"
    using assms d tsc_cycles_to_ns_nat [of "ts_shift st" ?d "ts_mult st"]
    by (simp add: tsc_ns_read_def Let_def in_range_def ideal_ns_def unat_word_ariths)
  show "snd (tsc_ns_read st c) = st \<or>
      snd (tsc_ns_read st c) = st\<lparr>ts_anchor_cycles := c, ts_anchor_ns := fst (tsc_ns_read st c)\<rparr>"
    by (auto simp: tsc_ns_read_def Let_def tsc_ns_reanchor_def)
qed

lemma ideal_split:
  fixes a b m P :: nat
  assumes "0 < P"
  shows "a * m div P + b * m div P \<le> (a + b) * m div P \<and> (a + b) * m div P \<le> a * m div P + b * m div P + 1"
proof -
  have "(a + b) * m div P = a * m div P + b * m div P + (a * m mod P + b * m mod P) div P"
    by (metis add_mult_distrib div_add1_eq)
  moreover have "(a * m mod P + b * m mod P) div P \<le> 1"
  proof -
    have "a * m mod P + b * m mod P < 2 * P"
      using mod_less_divisor [OF assms, of "a * m"] mod_less_divisor [OF assms, of "b * m"] by linarith
    then have "(a * m mod P + b * m mod P) div P < 2" by (rule less_mult_imp_div_less)
    then show ?thesis by simp
  qed
  ultimately show ?thesis by linarith
qed

section \<open>Properties\<close>

text \<open>
  C39: the conversion of cycles to nanoseconds is exact and well calibrated.  For every measured
  frequency the loop chooses a shift of at most 32, the largest that keeps the multiplier within
  32 bits, and the two 64-bit products then give precisely the 96-bit product shifted down, for
  every 64-bit count of cycles (up to wrap-around at \<open>2 ^ 64\<close> ns).  The time so computed is never
  ahead of the counter and less than one nanosecond per \<open>2 ^ shift\<close> cycles, plus two, behind.
\<close>

theorem tsc_conversion_exact:
  assumes "compute_mult_shift hz = (mult, shift)"
  shows "shift \<le> 32 \<and>
    (let H = max (unat hz) 1000000; ns = unat delta * unat mult div 2 ^ shift
     in unat (tsc_cycles_to_ns delta mult shift) = ns mod 2 ^ 64 \<and>
        ns * H \<le> unat delta * 1000000000 \<and>
        unat delta * 1000000000 < (ns + unat delta div 2 ^ shift + 2) * H \<and>
        (shift < 32 \<longrightarrow> 2 ^ 32 \<le> 1000000000 * 2 ^ Suc shift div H))"
proof -
  note s = compute_mult_shift_spec [OF assms]
  have H: "0 < max (unat hz) 1000000" by simp
  show ?thesis unfolding Let_def
    using s(1,3) tsc_cycles_to_ns_nat [OF s(1), of delta mult]
      scaled_below [of "unat delta" 1000000000 "2 ^ shift" "max (unat hz) 1000000"]
      scaled_above [OF _ H, of "2 ^ shift" "unat delta" 1000000000]
    unfolding s(2) by simp
qed

text \<open>
  Time does not go backwards on one CPU.  Two readings at non-decreasing counter values give
  non-decreasing times whether or not the first one moved the anchor, and moving it costs at most
  one nanosecond against the time the old anchor would have given.
\<close>

theorem tsc_ns_read_monotone:
  assumes "in_range st c" "c \<le> c'" "in_range st c'"
    and "tsc_ns_read st c = (ns, st')" "tsc_ns_read st' c' = (ns', st'')"
  shows "ns \<le> ns' \<and> unat ns' \<le> ideal_ns st c' \<and> ideal_ns st c' \<le> unat ns' + 1"
proof -
  have ns: "unat ns = ideal_ns st c" and st': "st' = st \<or> st' = st\<lparr>ts_anchor_cycles := c, ts_anchor_ns := ns\<rparr>"
    using tsc_ns_read_value [OF assms(1)] assms(4) by simp_all
  let ?P = "2 ^ ts_shift st :: nat" and ?m = "unat (ts_mult st)"
  define a where "a = unat c - unat (ts_anchor_cycles st)"
  define b where "b = unat c' - unat c"
  have ab: "unat c' - unat (ts_anchor_cycles st) = a + b" "unat c \<le> unat c'"
    using assms(1,2) by (simp_all add: a_def b_def in_range_def word_le_nat_alt)
  have split: "a * ?m div ?P + b * ?m div ?P \<le> (a + b) * ?m div ?P \<and> (a + b) * ?m div ?P \<le> a * ?m div ?P + b * ?m div ?P + 1"
    by (rule ideal_split) simp
  have old: "ideal_ns st c = unat (ts_anchor_ns st) + a * ?m div ?P" "ideal_ns st c' = unat (ts_anchor_ns st) + (a + b) * ?m div ?P"
    by (simp_all add: ideal_ns_def a_def ab)
  from st' have "in_range st' c' \<and> ideal_ns st c \<le> ideal_ns st' c' \<and> ideal_ns st' c' \<le> ideal_ns st c' \<and> ideal_ns st c' \<le> ideal_ns st' c' + 1"
  proof
    assume "st' = st"
    then show ?thesis using assms(3) split old by simp
  next
    assume new: "st' = st\<lparr>ts_anchor_cycles := c, ts_anchor_ns := ns\<rparr>"
    have "ideal_ns st' c' = ideal_ns st c + b * ?m div ?P" by (simp add: ideal_ns_def new ns b_def)
    then show ?thesis using assms(1-3) split old ab
      by (auto simp: in_range_def new b_def [symmetric])
  qed
  moreover from this have "unat ns' = ideal_ns st' c'" using tsc_ns_read_value(1) [of st' c'] assms(5) by simp
  ultimately show ?thesis using ns by (simp add: word_le_nat_alt)
qed

section \<open>The sequence lock\<close>

text \<open>
  The two anchors are four 32-bit words in memory, so a reader may meet a writer half way.  The
  elected writer (\<^verbatim>\<open>_tsc_ns_reanchor\<close>) makes the sequence number odd, stores the words and makes it even
  again; the reader (the loop of \<^verbatim>\<open>_tsc_ns_read\<close>) takes the number, waits while it is odd, takes the
  words and accepts them when the number has not changed.  Steps interleave freely.  The election by
  \<^verbatim>\<open>xchg\<close> is the guard of \<open>W_enter\<close>; \<open>sq_published\<close> is a ghost: the pairs published, newest first.
\<close>

definition words_of :: "u64 \<times> u64 \<Rightarrow> u32 list" where
  "words_of a = [lo32 (fst a), hi32 (fst a), lo32 (snd a), hi32 (snd a)]"

text \<open>The writer: idle, or storing the word of the given index of a pair (index 4: all stored).\<close>

datatype writer_pc = W_idle | W_store "u64 \<times> u64" nat

text \<open>The reader: idle, holding the number and the words taken so far, or finished with a pair.\<close>

datatype reader_pc = R_idle | R_load u32 "u32 list" | R_got "u32 list"

record seqlock =
  sq_seq :: u32
  sq_mem :: "u32 list"
  sq_writer :: writer_pc
  sq_reader :: reader_pc
  sq_published :: "(u64 \<times> u64) list"

datatype seq_act = W_enter "u64 \<times> u64" | W_next | R_next

definition anchor_of :: "u32 list \<Rightarrow> u64 \<times> u64" where
  "anchor_of ws = (join32 (ws ! 1) (ws ! 0), join32 (ws ! 3) (ws ! 2))"

fun seq_step :: "seq_act \<Rightarrow> seqlock \<Rightarrow> seqlock option" where
  "seq_step (W_enter a) s =
     (if sq_writer s \<noteq> W_idle then None
      else if fst a > fst (anchor_of (sq_mem s)) \<and> snd a > snd (anchor_of (sq_mem s))
      then Some (s\<lparr>sq_seq := sq_seq s + 1, sq_writer := W_store a 0\<rparr>)
      else Some s)"
| "seq_step W_next s =
     (case sq_writer s of
        W_idle \<Rightarrow> None
      | W_store a k \<Rightarrow>
          if k < 4 then Some (s\<lparr>sq_mem := (sq_mem s)[k := words_of a ! k], sq_writer := W_store a (Suc k)\<rparr>)
          else Some (s\<lparr>sq_seq := sq_seq s + 1, sq_writer := W_idle, sq_published := a # sq_published s\<rparr>))"
| "seq_step R_next s =
     (case sq_reader s of
        R_idle \<Rightarrow> if sq_seq s AND 1 \<noteq> 0 then Some s else Some (s\<lparr>sq_reader := R_load (sq_seq s) []\<rparr>)
      | R_load s1 ws \<Rightarrow>
          if length ws < 4 then Some (s\<lparr>sq_reader := R_load s1 (ws @ [sq_mem s ! length ws])\<rparr>)
          else if s1 = sq_seq s then Some (s\<lparr>sq_reader := R_got ws\<rparr>) else Some (s\<lparr>sq_reader := R_idle\<rparr>)
      | R_got ws \<Rightarrow> Some (s\<lparr>sq_reader := R_idle\<rparr>))"

fun seq_run :: "seq_act list \<Rightarrow> seqlock \<Rightarrow> seqlock option" where
  "seq_run [] s = Some s"
| "seq_run (a # as) s = Option.bind (seq_step a s) (seq_run as)"

text \<open>After \<^verbatim>\<open>tsc_init\<close>: number 0, the first anchor in memory.\<close>

definition seq_init :: "u64 \<times> u64 \<Rightarrow> seqlock" where
  "seq_init a = \<lparr>sq_seq = 0, sq_mem = words_of a, sq_writer = W_idle, sq_reader = R_idle, sq_published = [a]\<rparr>"

definition seq_ver :: "seqlock \<Rightarrow> nat" where
  "seq_ver s = 2 * (length (sq_published s) - 1) + (if sq_writer s = W_idle then 0 else 1)"

definition anchor_mem_ok :: "seqlock \<Rightarrow> bool" where
  "anchor_mem_ok s \<longleftrightarrow> (case sq_writer s of
      W_idle \<Rightarrow> sq_mem s = words_of (hd (sq_published s))
    | W_store a k \<Rightarrow> k \<le> 4 \<and> sq_mem s = take k (words_of a) @ drop k (words_of (hd (sq_published s))))"

definition reader_ok :: "seqlock \<Rightarrow> bool" where
  "reader_ok s \<longleftrightarrow> (case sq_reader s of
      R_idle \<Rightarrow> True
    | R_load s1 ws \<Rightarrow> length ws \<le> 4 \<and> (\<exists>v. s1 = of_nat v \<and> even v \<and> v \<le> seq_ver s \<and>
        (v = seq_ver s \<longrightarrow> ws = take (length ws) (words_of (hd (sq_published s)))))
    | R_got ws \<Rightarrow> ws \<in> words_of ` set (sq_published s))"

definition seq_inv :: "seqlock \<Rightarrow> bool" where
  "seq_inv s \<longleftrightarrow> sq_published s \<noteq> [] \<and> sq_seq s = of_nat (seq_ver s) \<and> anchor_mem_ok s \<and> reader_ok s"

lemma length_words_of [simp]: "length (words_of a) = 4"
  by (simp add: words_of_def)

lemma anchor_of_words [simp]: "anchor_of (words_of a) = a"
  by (cases a) (simp add: anchor_of_def words_of_def word_unat_eq_iff unat_join32 flip: join_hi_lo)

lemma even_ver: "even (seq_ver s) \<longleftrightarrow> sq_writer s = W_idle"
  by (simp add: seq_ver_def)

lemma odd_seq: "(of_nat n :: u32) AND 1 \<noteq> 0 \<longleftrightarrow> odd n"
proof -
  have "(of_nat n :: u32) AND 1 = of_nat (n AND 1)" by (simp only: of_nat_and_eq of_nat_1)
  also have "\<dots> = of_nat (n mod 2)" by (simp only: and_one_eq)
  finally show ?thesis by (cases "even n") (simp_all add: odd_iff_mod_2_eq_one)
qed

text \<open>A step of the writer moves the version on, so that an unfinished reader is behind it.\<close>

lemma reader_ok_later:
  assumes "reader_ok s" "seq_ver s < seq_ver s'" "sq_reader s' = sq_reader s"
    "set (sq_published s) \<subseteq> set (sq_published s')"
  shows "reader_ok s'"
  using assms by (fastforce simp: reader_ok_def split: reader_pc.splits)

lemma reader_ok_same:
  assumes "reader_ok s" "seq_ver s' = seq_ver s" "sq_reader s' = sq_reader s" "sq_published s' = sq_published s"
  shows "reader_ok s'"
  using assms by (auto simp: reader_ok_def split: reader_pc.splits)

lemma W_enter_inv:
  assumes "seq_inv s" "seq_step (W_enter a) s = Some s'"
  shows "seq_inv s'"
proof (cases "s' = s")
  case False
  then have w: "sq_writer s = W_idle" and s': "s' = s\<lparr>sq_seq := sq_seq s + 1, sq_writer := W_store a 0\<rparr>"
    using assms(2) by (auto split: if_splits)
  have v: "seq_ver s' = Suc (seq_ver s)" by (simp add: s' seq_ver_def w)
  have "reader_ok s'" by (rule reader_ok_later [of s]) (use assms(1) v in \<open>simp_all add: s' seq_inv_def\<close>)
  then show ?thesis using assms(1) v w by (simp add: seq_inv_def s' anchor_mem_ok_def)
qed (use assms in simp)

lemma W_next_inv:
  assumes "seq_inv s" "seq_step W_next s = Some s'"
  shows "seq_inv s'"
proof -
  obtain a k where w: "sq_writer s = W_store a k" using assms(2) by (auto split: writer_pc.splits)
  have m: "k \<le> 4" "sq_mem s = take k (words_of a) @ drop k (words_of (hd (sq_published s)))" "sq_published s \<noteq> []"
    using assms(1) by (simp_all add: seq_inv_def anchor_mem_ok_def w)
  show ?thesis
  proof (cases "k < 4")
    case True
    then have s': "s' = s\<lparr>sq_mem := (sq_mem s)[k := words_of a ! k], sq_writer := W_store a (Suc k)\<rparr>"
      using assms(2) by (simp add: w)
    have "(sq_mem s)[k := words_of a ! k] = take (Suc k) (words_of a) @ drop (Suc k) (words_of (hd (sq_published s)))"
      using m(2) True by (simp add: list_update_append take_Suc_conv_app_nth Cons_nth_drop_Suc [symmetric])
    moreover have "reader_ok s'"
      by (rule reader_ok_same [of s]) (use assms(1) in \<open>simp_all add: s' seq_inv_def seq_ver_def w\<close>)
    ultimately show ?thesis using assms(1) True by (simp add: seq_inv_def s' seq_ver_def anchor_mem_ok_def w)
  next
    case False
    then have s': "s' = s\<lparr>sq_seq := sq_seq s + 1, sq_writer := W_idle, sq_published := a # sq_published s\<rparr>"
      using assms(2) by (simp add: w)
    have v: "seq_ver s' = Suc (seq_ver s)" using m(3) by (cases "sq_published s") (simp_all add: s' seq_ver_def w)
    have "reader_ok s'" by (rule reader_ok_later [of s]) (use assms(1) v in \<open>auto simp: s' seq_inv_def\<close>)
    then show ?thesis using assms(1) v m(1,2) False by (simp add: seq_inv_def s' anchor_mem_ok_def)
  qed
qed

lemma R_next_inv:
  assumes "seq_inv s" "seq_step R_next s = Some s'" "seq_ver s < 2 ^ 32"
  shows "seq_inv s'"
proof -
  have same: "seq_inv s'" if "s' = s\<lparr>sq_reader := r\<rparr>" "reader_ok (s\<lparr>sq_reader := r\<rparr>)" for r
    using assms(1) that by (auto simp: seq_inv_def anchor_mem_ok_def seq_ver_def split: writer_pc.splits)
  show ?thesis
  proof (cases "sq_reader s")
    case R_idle
    show ?thesis
    proof (cases "odd (seq_ver s)")
      case False
      moreover have "sq_seq s = of_nat (seq_ver s)" using assms(1) by (simp add: seq_inv_def)
      ultimately have "s' = s\<lparr>sq_reader := R_load (sq_seq s) []\<rparr>" "sq_seq s = of_nat (seq_ver s)"
        using assms(2) odd_seq [of "seq_ver s"] R_idle by simp_all
      moreover have "seq_ver (s\<lparr>sq_reader := r\<rparr>) = seq_ver s" for r by (simp add: seq_ver_def)
      ultimately show ?thesis using False by (intro same) (auto simp: reader_ok_def)
    qed (use assms odd_seq [of "seq_ver s"] R_idle in \<open>simp add: seq_inv_def\<close>)
  next
    case (R_load s1 ws)
    then obtain v where v: "length ws \<le> 4" "s1 = of_nat v" "even v" "v \<le> seq_ver s"
      "v = seq_ver s \<longrightarrow> ws = take (length ws) (words_of (hd (sq_published s)))"
      using assms(1) by (auto simp: seq_inv_def reader_ok_def)
    have mem: "sq_mem s = words_of (hd (sq_published s))" if "v = seq_ver s"
      using assms(1) v(3) even_ver [of s] that by (simp add: seq_inv_def anchor_mem_ok_def)
    consider "length ws < 4" | "length ws = 4" "s1 = sq_seq s" | "length ws = 4" "s1 \<noteq> sq_seq s" using v(1) by linarith
    then show ?thesis
    proof cases
      case 1
      then have s': "s' = s\<lparr>sq_reader := R_load s1 (ws @ [sq_mem s ! length ws])\<rparr>" using assms(2) R_load by simp
      have "ws @ [sq_mem s ! length ws] = take (Suc (length ws)) (words_of (hd (sq_published s)))" if e: "v = seq_ver s"
      proof -
        have "ws = take (length ws) (words_of (hd (sq_published s)))" using v(5) e by blast
        then show ?thesis using 1 mem [OF e] by (simp add: take_Suc_conv_app_nth)
      qed
      then show ?thesis using 1 v s' by (intro same [OF s']) (auto simp: reader_ok_def seq_ver_def)
    next
      case 2
      have "(of_nat v :: u32) = of_nat (seq_ver s)" using 2(2) v(2) assms(1) by (simp add: seq_inv_def)
      then have "unat (of_nat v :: u32) = unat (of_nat (seq_ver s) :: u32)" by simp
      then have "v = seq_ver s" using v(4) assms(3) by (simp add: unat_of_nat)
      then have "ws = words_of (hd (sq_published s))" using v(5) 2(1) by (metis length_words_of take_all order_refl)
      then show ?thesis using assms(1,2) R_load 2 by (intro same) (auto simp: reader_ok_def seq_inv_def)
    next
      case 3
      then show ?thesis using assms(2) R_load by (intro same [of R_idle]) (auto simp: reader_ok_def)
    qed
  next
    case (R_got ws)
    then show ?thesis using assms(2) by (intro same [of R_idle]) (auto simp: reader_ok_def)
  qed
qed

lemma seq_step_grows: "seq_step a s = Some s' \<Longrightarrow> length (sq_published s) \<le> length (sq_published s')"
  by (cases a) (auto split: if_splits writer_pc.splits reader_pc.splits)

lemma seq_run_grows: "seq_run as s = Some s' \<Longrightarrow> length (sq_published s) \<le> length (sq_published s')"
  by (induction as arbitrary: s) (auto simp: bind_eq_Some_conv dest!: seq_step_grows intro: le_trans)

lemma seq_run_inv:
  "seq_run as s = Some s' \<Longrightarrow> seq_inv s \<Longrightarrow> length (sq_published s') \<le> 2 ^ 31 \<Longrightarrow> seq_inv s'"
proof (induction as arbitrary: s)
  case (Cons a as)
  then obtain t where t: "seq_step a s = Some t" "seq_run as t = Some s'" by (auto simp: bind_eq_Some_conv)
  have "length (sq_published s) \<le> 2 ^ 31" using seq_run_grows Cons.prems(1,3) le_trans by blast
  moreover have "sq_published s \<noteq> []" using Cons.prems(2) by (simp add: seq_inv_def)
  ultimately have "seq_ver s < 2 ^ 32" by (cases "sq_published s") (auto simp: seq_ver_def)
  then have "seq_inv t" using t(1) Cons.prems(2) W_enter_inv W_next_inv R_next_inv by (cases a) blast+
  then show ?case using Cons.IH t(2) Cons.prems(3) by blast
qed simp

text \<open>
  C30: a reader never accepts a torn anchor.  However the 32-bit stores of the writers and the loads
  of a reader interleave, the four words the reader leaves its loop with are those of one anchor that
  a writer published (or the first one), as long as fewer than \<open>2 ^ 31\<close> anchors are published, which
  at one every two seconds takes more than a century.
\<close>

theorem tsc_seqlock_untorn:
  assumes "seq_run acts (seq_init a) = Some s" "length (sq_published s) \<le> 2 ^ 31" "sq_reader s = R_got ws"
  shows "anchor_of ws \<in> set (sq_published s)"
proof -
  have "seq_inv (seq_init a)" by (simp add: seq_inv_def seq_init_def seq_ver_def anchor_mem_ok_def reader_ok_def)
  then have "seq_inv s" using seq_run_inv assms(1,2) by blast
  then show ?thesis using assms(3) by (auto simp: seq_inv_def reader_ok_def)
qed

section \<open>Witnesses\<close>

theorem tsc_conversion_exact_witness:
  "compute_mult_shift 2400000000 = (1789569706, 32) \<and>
   unat (tsc_cycles_to_ns 9600000000000 1789569706 32) = 9600000000000 * 1789569706 div 2 ^ 32 mod 2 ^ 64"
proof -
  have c: "compute_mult_shift 2400000000 = (1789569706, 32)"
    by (simp add: compute_mult_shift_def mult_shift_loop.simps Let_def)
  show ?thesis using c tsc_conversion_exact [OF c, of 9600000000000] by (simp add: Let_def)
qed

theorem tsc_seqlock_untorn_witness:
  "\<exists>s ws. seq_run [R_next, R_next, W_enter (20, 10), R_next, W_next, W_next, W_next, W_next, R_next, R_next, W_next,
     R_next, R_next, R_next, R_next, R_next, R_next, R_next] (seq_init (5, 0)) = Some s \<and>
     sq_reader s = R_got ws \<and> anchor_of ws \<in> {(5, 0), (20, 10)}"
proof -
  let ?as = "[R_next, R_next, W_enter (20, 10), R_next, W_next, W_next, W_next, W_next, R_next, R_next, W_next,
     R_next, R_next, R_next, R_next, R_next, R_next, R_next]"
  let ?s = "\<lparr>sq_seq = 2, sq_mem = [20, 0, 10, 0], sq_writer = W_idle, sq_reader = R_got [20, 0, 10, 0],
     sq_published = [(20, 10), (5, 0)]\<rparr>"
  have r: "seq_run ?as (seq_init (5, 0)) = Some ?s"
    by (simp add: seq_init_def words_of_def anchor_of_def lo32_def hi32_def join32_def)
  have "anchor_of [20, 0, 10, 0] \<in> set (sq_published ?s)"
    by (rule tsc_seqlock_untorn [OF r]) simp_all
  then show ?thesis using r by auto
qed

theorem tsc_ns_read_monotone_witness:
  "\<exists>st ns st' ns' st''. tsc_ns_read st 9000 = (ns, st') \<and> tsc_ns_read st' 9001 = (ns', st'') \<and> st' \<noteq> st \<and> ns \<le> ns'"
proof -
  let ?st = "\<lparr>ts_hz = 1500000000, ts_anchor_cycles = 0, ts_anchor_ns = 0, ts_reanchor_after = 4, ts_mult = 2, ts_shift = 1\<rparr>"
  obtain ns st' where 1: "tsc_ns_read ?st 9000 = (ns, st')" by fastforce
  obtain ns' st'' where 2: "tsc_ns_read st' 9001 = (ns', st'')" by fastforce
  have "in_range ?st 9000" "in_range ?st 9001" by (simp_all add: in_range_def ideal_ns_def)
  then have "ns \<le> ns'" using tsc_ns_read_monotone [OF _ _ _ 1 2] by simp
  moreover have "st' \<noteq> ?st"
    using 1 by (simp add: tsc_ns_read_def tsc_ns_reanchor_def tsc_cycles_to_ns_def lo32_def hi32_def sless_0_u64 Let_def) auto
  ultimately show ?thesis using 1 2 by blast
qed

end
