(* ===== verification/Clock.thy ===== *)
theory Clock
  imports Civil Tsc
begin

text \<open>
  The kernel clock (\<^verbatim>\<open>kernel/time/clock.c\<close>, \<^verbatim>\<open>clock.h\<close>, \<^verbatim>\<open>units.h\<close>) and the CMOS clock that anchors it at
  boot (\<^verbatim>\<open>kernel/time/rtc.c\<close>).  The chip is a function from the number of accesses made so far and a
  register to the byte it answers; the number of accesses is threaded through the reads.
\<close>

section \<open>Units and the clock\<close>

definition ns_to_ms :: "u64 \<Rightarrow> u64 option" where "ns_to_ms ns = udiv64_u32 ns 1000000"
definition ns_to_us :: "u64 \<Rightarrow> u64 option" where "ns_to_us ns = udiv64_u32 ns 1000"
definition ms_to_ns :: "u64 \<Rightarrow> u64" where "ms_to_ns x = x * 1000000"
definition us_to_ns :: "u64 \<Rightarrow> u64" where "us_to_ns x = x * 1000"
definition s_to_ns :: "u64 \<Rightarrow> u64" where "s_to_ns x = x * 1000000000"

record dob_realtime_t =
  rt_civil :: civil_t
  rt_ms :: u32

record clock_state =
  ck_tsc_ok :: bool
  ck_boot_epoch_s :: u32

definition clock_init :: "clock_state \<Rightarrow> u64 \<Rightarrow> clock_state" where
  "clock_init ck tsc_hz = ck\<lparr>ck_tsc_ok := tsc_hz \<noteq> 0\<rparr>"

definition clock_set_boot_epoch :: "clock_state \<Rightarrow> u32 \<Rightarrow> clock_state" where
  "clock_set_boot_epoch ck epoch_s = ck\<lparr>ck_boot_epoch_s := epoch_s\<rparr>"

definition clock_boot_epoch_s :: "clock_state \<Rightarrow> u32" where
  "clock_boot_epoch_s ck = ck_boot_epoch_s ck"

text \<open>\<open>tsc_now\<close> and \<open>pit_ms\<close> are what the two monotonic sources say at the call.\<close>

definition clock_now_ns :: "clock_state \<Rightarrow> u64 \<Rightarrow> u64 \<Rightarrow> u64" where
  "clock_now_ns ck tsc_now pit_ms = (if ck_tsc_ok ck then tsc_now else ms_to_ns pit_ms)"

definition clock_get_realtime :: "clock_state \<Rightarrow> u64 \<Rightarrow> dob_realtime_t option" where
  "clock_get_realtime ck now_ns = do {
     up_s \<leftarrow> udiv64_u32 now_ns 1000000000;
     ms \<leftarrow> ns_to_ms now_ns;
     sub_ms \<leftarrow> umod64_u32 ms 1000;
     c \<leftarrow> unix_seconds_to_civil (ucast (ck_boot_epoch_s ck) + up_s);
     Some \<lparr> rt_civil = c, rt_ms = sub_ms \<rparr> }"

section \<open>The CMOS clock\<close>

type_synonym cmos = "nat \<Rightarrow> u8 \<Rightarrow> u8"

record raw_fields =
  rf_second :: u8
  rf_minute :: u8
  rf_hour :: u8
  rf_day :: u8
  rf_month :: u8
  rf_year :: u8
  rf_century :: u8

record rtc_time_t =
  rtc_year :: u16
  rtc_month :: u8
  rtc_day :: u8
  rtc_hour :: u8
  rtc_minute :: u8
  rtc_second :: u8

definition cmos_read :: "cmos \<Rightarrow> nat \<Rightarrow> u8 \<Rightarrow> u8 \<times> nat" where
  "cmos_read chip t reg = (chip t (reg AND 0x7F), Suc t)"

definition bcd_to_bin :: "u8 \<Rightarrow> u8" where
  "bcd_to_bin v = drop_bit 4 v * 10 + (v AND 0x0F)"

fun wait_update_done :: "cmos \<Rightarrow> nat \<Rightarrow> nat \<Rightarrow> nat" where
  "wait_update_done chip 0 t = t"
| "wait_update_done chip (Suc spins) t =
     (let (a, t) = cmos_read chip t 0x0A
      in if a AND 0x80 = 0 then t else wait_update_done chip spins t)"

definition read_raw_fields :: "cmos \<Rightarrow> nat \<Rightarrow> raw_fields \<times> nat" where
  "read_raw_fields chip t =
     (let (s, t) = cmos_read chip t 0x00; (mi, t) = cmos_read chip t 0x02; (h, t) = cmos_read chip t 0x04;
          (d, t) = cmos_read chip t 0x07; (mo, t) = cmos_read chip t 0x08; (y, t) = cmos_read chip t 0x09;
          (c, t) = cmos_read chip t 0x32
      in (\<lparr> rf_second = s, rf_minute = mi, rf_hour = h, rf_day = d, rf_month = mo, rf_year = y, rf_century = c \<rparr>, t))"

definition fields_equal :: "raw_fields \<Rightarrow> raw_fields \<Rightarrow> bool" where
  "fields_equal a b \<longleftrightarrow> rf_second a = rf_second b \<and> rf_minute a = rf_minute b \<and> rf_hour a = rf_hour b \<and>
     rf_day a = rf_day b \<and> rf_month a = rf_month b \<and> rf_year a = rf_year b"

text \<open>One register, and the hour with its 12-hour form (12 stands for 0, bit 7 for the afternoon).\<close>

definition decode_num :: "bool \<Rightarrow> u8 \<Rightarrow> u8" where
  "decode_num is_bin v = (if is_bin then v else bcd_to_bin v)"

definition decode_hour :: "bool \<Rightarrow> bool \<Rightarrow> u8 \<Rightarrow> u8" where
  "decode_hour is_bin is_24h raw =
     (let pm = (\<not> is_24h \<and> raw AND 0x80 \<noteq> 0);
          hour = decode_num is_bin (if pm then raw AND 0x7F else raw);
          hour = (if \<not> is_24h \<and> hour = 12 then 0 else hour)
      in if \<not> is_24h \<and> pm then hour + 12 else hour)"

definition decode_year :: "u8 \<Rightarrow> u8 \<Rightarrow> u16" where
  "decode_year century year2 =
     (if century \<ge> 19 \<and> century \<le> 21 then ucast century * 100 + ucast year2
      else if year2 \<ge> 70 then 1900 + ucast year2 else 2000 + ucast year2)"

definition decode_fields :: "raw_fields \<Rightarrow> u8 \<Rightarrow> rtc_time_t" where
  "decode_fields f status_b =
     (let is_bin = status_b AND 0x04 \<noteq> 0; is_24h = status_b AND 0x02 \<noteq> 0
      in \<lparr> rtc_year = decode_year (decode_num is_bin (rf_century f)) (decode_num is_bin (rf_year f)),
           rtc_month = decode_num is_bin (rf_month f), rtc_day = decode_num is_bin (rf_day f),
           rtc_hour = decode_hour is_bin is_24h (rf_hour f),
           rtc_minute = decode_num is_bin (rf_minute f), rtc_second = decode_num is_bin (rf_second f) \<rparr>)"

fun rtc_retry :: "cmos \<Rightarrow> u8 \<Rightarrow> nat \<Rightarrow> nat \<Rightarrow> rtc_time_t option" where
  "rtc_retry chip status_b 0 t = None"
| "rtc_retry chip status_b (Suc retries) t =
     (let (a, t) = read_raw_fields chip t; (b, t) = read_raw_fields chip t
      in if fields_equal a b then Some (decode_fields a status_b) else rtc_retry chip status_b retries t)"

definition rtc_read_time :: "cmos \<Rightarrow> nat \<Rightarrow> rtc_time_t option" where
  "rtc_read_time chip t =
     (let t = wait_update_done chip 100000 t; (status_b, t) = cmos_read chip t 0x0B
      in rtc_retry chip status_b 8 t)"

definition civil_of_rtc :: "rtc_time_t \<Rightarrow> civil_t" where
  "civil_of_rtc r = \<lparr> civ_year = ucast (rtc_year r), civ_month = ucast (rtc_month r), civ_day = ucast (rtc_day r),
     civ_hour = ucast (rtc_hour r), civ_minute = ucast (rtc_minute r), civ_second = ucast (rtc_second r) \<rparr>"

text \<open>\<open>now\<close> is the monotonic clock when the chip has been read.\<close>

definition rtc_init :: "clock_state \<Rightarrow> cmos \<Rightarrow> u64 \<Rightarrow> clock_state option" where
  "rtc_init ck chip now =
     (case rtc_read_time chip 0 of
        None \<Rightarrow> Some (clock_set_boot_epoch ck 0)
      | Some r \<Rightarrow> do {
          let epoch_s = (ucast (civil_to_unix_seconds (Some (civil_of_rtc r))) :: u32);
          up \<leftarrow> udiv64_u32 now 1000000000;
          let up_s = (ucast up :: u32);
          let up_s = (if epoch_s < up_s then 0 else up_s);
          Some (clock_set_boot_epoch ck (epoch_s - up_s)) })"

section \<open>Decoding the registers\<close>

text \<open>
  How the chip encodes a time of day in its four formats: a number in binary or as two decimal
  digits, an hour from 0 to 23 or from 1 to 12 with bit 7 for the afternoon.
\<close>

definition chip_num :: "bool \<Rightarrow> nat \<Rightarrow> u8" where
  "chip_num is_bin n = (if is_bin then of_nat n else of_nat (n div 10 * 16 + n mod 10))"

definition chip_hour :: "bool \<Rightarrow> bool \<Rightarrow> nat \<Rightarrow> u8" where
  "chip_hour is_bin is_24h h =
     (if is_24h then chip_num is_bin h
      else (if h < 12 then 0 else 0x80) OR chip_num is_bin (if h mod 12 = 0 then 12 else h mod 12))"

definition chip_fields :: "bool \<Rightarrow> bool \<Rightarrow> nat \<Rightarrow> nat \<Rightarrow> nat \<Rightarrow> nat \<Rightarrow> nat \<Rightarrow> nat \<Rightarrow> raw_fields" where
  "chip_fields is_bin is_24h y mo d h mi s =
     \<lparr> rf_second = chip_num is_bin s, rf_minute = chip_num is_bin mi, rf_hour = chip_hour is_bin is_24h h,
       rf_day = chip_num is_bin d, rf_month = chip_num is_bin mo, rf_year = chip_num is_bin (y mod 100),
       rf_century = chip_num is_bin (y div 100) \<rparr>"

lemma all_digits: "\<forall>n \<in> set [0..<100]. bcd_to_bin (of_nat (n div 10 * 16 + n mod 10)) = of_nat n"
  by code_simp

lemma decode_chip_num: "n < 100 \<Longrightarrow> decode_num b (chip_num b n) = of_nat n"
  using all_digits by (auto simp: decode_num_def chip_num_def)

lemma all_hours:
  "\<forall>is_bin \<in> set [True, False]. \<forall>is_24h \<in> set [True, False]. \<forall>h \<in> set [0..<24].
     decode_hour is_bin is_24h (chip_hour is_bin is_24h h) = of_nat h"
  by code_simp

text \<open>
  The registers are decoded correctly in each of the chip's four formats.  Whatever bits 1 and 2
  of status register B say, decoding the registers of a chip that keeps a time between 1900 and 2199
  gives that year, month, day, hour, minute and second back, midnight and noon included.
\<close>

theorem rtc_decode_all_formats:
  assumes "1900 \<le> y" "y < 2200" "mo \<le> 12" "d \<le> 31" "h < 24" "mi < 60" "s < 60"
  shows "decode_fields (chip_fields (status_b AND 0x04 \<noteq> 0) (status_b AND 0x02 \<noteq> 0) y mo d h mi s) status_b =
    \<lparr> rtc_year = of_nat y, rtc_month = of_nat mo, rtc_day = of_nat d, rtc_hour = of_nat h,
      rtc_minute = of_nat mi, rtc_second = of_nat s \<rparr>"
proof -
  define b where "b = (status_b AND 0x04 \<noteq> 0)"
  define f where "f = (status_b AND 0x02 \<noteq> 0)"
  have hour: "decode_hour b f (chip_hour b f h) = of_nat h"
    using all_hours assms(5) by (cases b; cases f) auto
  have cent: "y div 100 \<in> {19, 20, 21}" using assms(1,2) by auto
  then have c: "(19 :: u8) \<le> of_nat (y div 100)" "of_nat (y div 100) \<le> (21 :: u8)"
    "(ucast (of_nat (y div 100) :: u8) :: u16) = of_nat (y div 100)" by auto
  have "(ucast (of_nat (y mod 100) :: u8) :: u16) = of_nat (y mod 100)"
  proof -
    have "y mod 100 < 100" by simp
    then show ?thesis by (simp add: word_unat_eq_iff unat_ucast unat_of_nat)
  qed
  then have year: "ucast (of_nat (y div 100) :: u8) * 100 + ucast (of_nat (y mod 100) :: u8) = (of_nat y :: u16)"
    unfolding c(3) by (metis div_mult_mod_eq of_nat_add of_nat_mult of_nat_numeral)
  have num: "decode_num b (chip_num b (y div 100)) = of_nat (y div 100)" "decode_num b (chip_num b (y mod 100)) = of_nat (y mod 100)"
    "decode_num b (chip_num b mo) = of_nat mo" "decode_num b (chip_num b d) = of_nat d" "decode_num b (chip_num b mi) = of_nat mi"
    "decode_num b (chip_num b s) = of_nat s"
    using assms cent by (auto intro!: decode_chip_num)
  show ?thesis
    unfolding decode_fields_def b_def [symmetric] f_def [symmetric]
    using num hour c(1,2) year by (simp add: chip_fields_def Let_def decode_year_def)
qed

section \<open>Anchoring the wall clock\<close>

text \<open>A chip that does not change while it is read is read at the first attempt.\<close>

lemma rtc_retry_stable:
  "0 < n \<Longrightarrow> rtc_retry (\<lambda>_. regs) b n t = Some (decode_fields (fst (read_raw_fields (\<lambda>_. regs) 0)) b)"
  by (cases n) (simp_all add: cmos_read_def read_raw_fields_def fields_equal_def Let_def)

lemma rtc_read_stable:
  "rtc_read_time (\<lambda>_. regs) t = Some (decode_fields (fst (read_raw_fields (\<lambda>_. regs) 0)) (regs 0x0B))"
  by (simp add: rtc_read_time_def cmos_read_def rtc_retry_stable)

lemma realtime_spec:
  assumes "clock_get_realtime ck now = Some rt"
  shows "valid_civil (rt_civil rt) \<and>
    unat (civil_to_unix_seconds (Some (rt_civil rt))) = unat (ck_boot_epoch_s ck) + unat now div 1000000000 \<and>
    unat (rt_ms rt) = unat now div 1000000 mod 1000"
proof -
  let ?t = "ucast (ck_boot_epoch_s ck) + now div 1000000000"
  have q: "unat now div 1000000000 < 18446744074" using unat_lt_u64 [of now] by (intro less_mult_imp_div_less) linarith
  then have "unat (ck_boot_epoch_s ck) + unat now div 1000000000 < 18446744073709551616"
    using unat_lt_u32 [of "ck_boot_epoch_s ck"] by linarith
  then have t: "unat ?t = unat (ck_boot_epoch_s ck) + unat now div 1000000000"
    by (simp add: unat_word_ariths unat_div)
  also have "\<dots> < 281474976710656" using q unat_lt_u32 [of "ck_boot_epoch_s ck"] by linarith
  finally have lt: "unat ?t < 2 ^ 48" by simp
  obtain c where c: "unix_seconds_to_civil ?t = Some c" "valid_civil c" "civil_seconds c = unat ?t"
    using unix_to_civil_spec [OF lt] by blast
  have rt: "rt = \<lparr>rt_civil = c, rt_ms = ucast (now div 1000000 mod 1000)\<rparr>"
    using assms c(1) by (simp add: clock_get_realtime_def ns_to_ms_def udiv64_u32_spec umod64_u32_spec)
  have "civil_days c < 2 ^ 32" using c(3) lt by (simp add: civil_seconds_def)
  then have u: "unat (civil_to_unix_seconds (Some c)) = unat ?t" using civil_to_unix_valid [OF c(2)] c(3) by simp
  have "unat now div 1000000 mod 1000 < 1000" by simp
  then have "unat (ucast (now div 1000000 mod 1000) :: u32) = unat now div 1000000 mod 1000"
    by (simp add: unat_ucast unat_div unat_mod)
  then show ?thesis using c(2) u t rt by simp
qed

lemma realtime_total: "\<exists>rt. clock_get_realtime ck now = Some rt"
  by (simp add: clock_get_realtime_def ns_to_ms_def udiv64_u32_spec umod64_u32_spec unix_seconds_to_civil_def
      Let_def split_beta)

lemma valid_civil_epoch:
  assumes "valid_civil c" "civ_year c < 2105"
  shows "unat (civil_to_unix_seconds (Some c)) < 4294967296"
proof -
  have days: "civil_days c < 366 * 135"
    using civil_days_bound [OF assms(1)] assms(2) by (simp add: word_less_nat_alt)
  then have "unat (civil_to_unix_seconds (Some c)) = civil_seconds c"
    using civil_to_unix_valid [OF assms(1)] by simp
  also have "\<dots> < 4294967296" using days valid_civilD(5-7) [OF assms(1)] by (simp add: civil_seconds_def)
  finally show ?thesis .
qed

text \<open>
  The wall clock is anchored to the CMOS clock.  When the chip gives a date that exists, before
  2105 and not earlier than the time already spent since boot, then from boot on the wall clock shows
  the CMOS time plus the seconds elapsed since the reading, with the milliseconds of the monotonic
  clock; the seconds spent before the reading are not counted twice.
\<close>

theorem rtc_init_anchors:
  assumes "rtc_read_time chip 0 = Some r" "valid_civil (civil_of_rtc r)" "civ_year (civil_of_rtc r) < 2105"
    and up: "unat now div 1000000000 \<le> unat (civil_to_unix_seconds (Some (civil_of_rtc r)))"
    and later: "now \<le> now'"
  shows "\<exists>ck' rt. rtc_init ck chip now = Some ck' \<and> clock_get_realtime ck' now' = Some rt \<and> valid_civil (rt_civil rt) \<and>
    unat (civil_to_unix_seconds (Some (rt_civil rt))) =
      unat (civil_to_unix_seconds (Some (civil_of_rtc r))) + (unat now' div 1000000000 - unat now div 1000000000) \<and>
    unat (rt_ms rt) = unat now' div 1000000 mod 1000"
proof -
  let ?e = "unat (civil_to_unix_seconds (Some (civil_of_rtc r)))"
  let ?e32 = "ucast (civil_to_unix_seconds (Some (civil_of_rtc r))) :: u32"
  let ?u32 = "ucast (now div 1000000000) :: u32"
  have lt: "?e < 4294967296" by (rule valid_civil_epoch [OF assms(2,3)])
  have e: "unat ?e32 = ?e" using lt by (simp add: unat_ucast)
  have u: "unat ?u32 = unat now div 1000000000" using up lt by (simp add: unat_ucast unat_div)
  have "\<not> ?e32 < ?u32" using up by (simp add: word_less_nat_alt e u)
  then have init: "rtc_init ck chip now = Some (clock_set_boot_epoch ck (?e32 - ?u32))"
    using assms(1) by (simp add: rtc_init_def udiv64_u32_spec Let_def)
  have ep: "unat (?e32 - ?u32) = ?e - unat now div 1000000000"
    using \<open>\<not> ?e32 < ?u32\<close> by (simp add: unat_sub e u)
  obtain rt where rt: "clock_get_realtime (clock_set_boot_epoch ck (?e32 - ?u32)) now' = Some rt" using realtime_total by blast
  have "unat now div 1000000000 \<le> unat now' div 1000000000" using later by (simp add: word_le_nat_alt div_le_mono)
  with realtime_spec [OF rt] up init rt show ?thesis by (auto simp: clock_set_boot_epoch_def ep)
qed

text \<open>
  An unreadable or absurd CMOS clock does not stop the boot.  When eight pairs of readings differ
  the wall clock starts at the Unix epoch; when the chip's time lies before the uptime, it is taken as
  it is, without the subtraction that would wrap to 2106.
\<close>

theorem rtc_init_errors:
  "(rtc_read_time chip 0 = None \<longrightarrow> rtc_init ck chip now = Some (ck\<lparr>ck_boot_epoch_s := 0\<rparr>)) \<and>
   (\<forall>r. rtc_read_time chip 0 = Some r \<and>
      (ucast (civil_to_unix_seconds (Some (civil_of_rtc r))) :: u32) < ucast (now div 1000000000) \<longrightarrow>
      rtc_init ck chip now = Some (ck\<lparr>ck_boot_epoch_s := ucast (civil_to_unix_seconds (Some (civil_of_rtc r)))\<rparr>))"
  by (auto simp: rtc_init_def clock_set_boot_epoch_def udiv64_u32_spec Let_def)

section \<open>The global clamp\<close>

text \<open>
  \<^verbatim>\<open>_clock_monotonic_clamp\<close> on several CPUs.  The kernel is built for a 32-bit target without SSE,
  MMX or x87, so the plain 64-bit load of \<^verbatim>\<open>_clock_last_ns\<close> is two 32-bit loads (\<open>Begin\<close> and \<open>High\<close>);
  \<^verbatim>\<open>cmpxchg8b\<close> is one step (\<open>Cas\<close>), taken together with the test before it.  \<open>cl_returned\<close> is a ghost:
  who got which value, newest first.
\<close>

datatype clamp_pc = Idle | Low u64 u32 | Try u64 u64

record clamp_state =
  cl_last :: u64
  cl_pc :: "nat \<Rightarrow> clamp_pc"
  cl_returned :: "(nat \<times> u64) list"

datatype clamp_act = Begin nat u64 | High nat | Cas nat

definition clamp_return :: "nat \<Rightarrow> u64 \<Rightarrow> clamp_state \<Rightarrow> clamp_state" where
  "clamp_return c v s = s\<lparr>cl_pc := (cl_pc s)(c := Idle), cl_returned := (c, v) # cl_returned s\<rparr>"

fun clamp_step :: "clamp_act \<Rightarrow> clamp_state \<Rightarrow> clamp_state option" where
  "clamp_step (Begin c ns) s =
     (if cl_pc s c = Idle then Some (s\<lparr>cl_pc := (cl_pc s)(c := Low ns (lo32 (cl_last s)))\<rparr>) else None)"
| "clamp_step (High c) s =
     (case cl_pc s c of
        Low ns lo \<Rightarrow> Some (s\<lparr>cl_pc := (cl_pc s)(c := Try ns (join32 (hi32 (cl_last s)) lo))\<rparr>)
      | _ \<Rightarrow> None)"
| "clamp_step (Cas c) s =
     (case cl_pc s c of
        Try ns prev \<Rightarrow>
          if ns \<le> prev then Some (clamp_return c prev s)
          else if cl_last s = prev then Some (clamp_return c ns (s\<lparr>cl_last := ns\<rparr>))
          else Some (s\<lparr>cl_pc := (cl_pc s)(c := Try ns (cl_last s))\<rparr>)
      | _ \<Rightarrow> None)"

fun clamp_run :: "clamp_act list \<Rightarrow> clamp_state \<Rightarrow> clamp_state option" where
  "clamp_run [] s = Some s"
| "clamp_run (a # as) s = Option.bind (clamp_step a s) (clamp_run as)"

definition clamp_init :: "u64 \<Rightarrow> clamp_state" where
  "clamp_init v = \<lparr>cl_last = v, cl_pc = (\<lambda>_. Idle), cl_returned = []\<rparr>"

text \<open>Runs in which nothing happens between the two halves of a load.\<close>

fun untorn :: "clamp_act list \<Rightarrow> bool" where
  "untorn [] \<longleftrightarrow> True"
| "untorn (Begin c ns # High c' # as) \<longleftrightarrow> c = c' \<and> untorn as"
| "untorn (Cas c # as) \<longleftrightarrow> untorn as"
| "untorn _ \<longleftrightarrow> False"

text \<open>
  What holds between the turns of an untorn run: no one is half way through a load, and what anyone
  has read or returned is at most the shared value.  \<open>r\<close> is any value returned before the CPUs
  outside \<open>B\<close> made their call.
\<close>

fun pc_ok :: "u64 \<Rightarrow> bool \<Rightarrow> u64 \<Rightarrow> clamp_pc \<Rightarrow> bool" where
  "pc_ok m b r Idle \<longleftrightarrow> True"
| "pc_ok m b r (Low ns lo) \<longleftrightarrow> False"
| "pc_ok m b r (Try ns prev) \<longleftrightarrow> prev \<le> m \<and> (b \<longrightarrow> r \<le> prev)"

definition clamp_inv :: "nat set \<Rightarrow> u64 \<Rightarrow> clamp_state \<Rightarrow> bool" where
  "clamp_inv B r s \<longleftrightarrow> r \<le> cl_last s \<and> (\<forall>(c, v) \<in> set (cl_returned s). v \<le> cl_last s) \<and>
     (\<forall>c. pc_ok (cl_last s) (c \<notin> B) r (cl_pc s c))"

lemma pc_ok_up: "pc_ok m b r pc \<Longrightarrow> m \<le> n \<Longrightarrow> pc_ok n b r pc"
  by (cases pc) auto

lemma pc_ok_idle: "\<forall>c. pc_ok m False 0 (f c) \<Longrightarrow> pc_ok m (f c = Idle) r (f c)"
  by (drule spec [of _ c]) (cases "f c"; auto)

lemma clamp_load:
  assumes "clamp_inv B r s" "clamp_run (Begin c ns # High c # as) s = Some s'"
  shows "\<exists>t. clamp_inv B r t \<and> cl_returned t = cl_returned s \<and> clamp_run as t = Some s'"
proof -
  let ?t = "s\<lparr>cl_pc := (cl_pc s)(c := Try ns (cl_last s))\<rparr>"
  have "join32 (hi32 (cl_last s)) (lo32 (cl_last s)) = cl_last s"
    by (simp add: word_unat_eq_iff unat_join32 flip: join_hi_lo)
  then have "clamp_run as ?t = Some s'" using assms(2) by (auto split: if_splits)
  moreover have "clamp_inv B r ?t" using assms(1) by (auto simp: clamp_inv_def)
  ultimately show ?thesis by (intro exI [of _ ?t]) simp
qed

lemma clamp_cas:
  assumes "clamp_inv B r s" "clamp_step (Cas c) s = Some t"
  shows "clamp_inv B r t \<and> (\<exists>new. cl_returned t = new @ cl_returned s \<and> (\<forall>(c, v) \<in> set new. c \<notin> B \<longrightarrow> r \<le> v))"
proof -
  obtain ns prev where pc: "cl_pc s c = Try ns prev" using assms(2) by (auto split: clamp_pc.splits)
  have prev: "prev \<le> cl_last s" "c \<notin> B \<longrightarrow> r \<le> prev"
    using assms(1) pc unfolding clamp_inv_def by (metis pc_ok.simps(3))+
  consider "ns \<le> prev" | "\<not> ns \<le> prev" "cl_last s = prev" | "\<not> ns \<le> prev" "cl_last s \<noteq> prev" by blast
  then show ?thesis
  proof cases
    case 1
    then have t: "t = clamp_return c prev s" using assms(2) pc by simp
    have "clamp_inv B r t" using assms(1) prev by (auto simp: t clamp_inv_def clamp_return_def)
    then show ?thesis using prev by (auto simp: t clamp_return_def)
  next
    case 2
    then have t: "t = clamp_return c ns (s\<lparr>cl_last := ns\<rparr>)" using assms(2) pc by simp
    have up: "v \<le> cl_last s \<Longrightarrow> v \<le> ns" for v using 2 by simp
    have "clamp_inv B r t"
      using assms(1) up by (auto simp: t clamp_inv_def clamp_return_def intro: pc_ok_up)
    then show ?thesis using prev(2) 2(1) by (auto simp: t clamp_return_def)
  next
    case 3
    then have t: "t = s\<lparr>cl_pc := (cl_pc s)(c := Try ns (cl_last s))\<rparr>" using assms(2) pc by simp
    have "clamp_inv B r t" using assms(1) by (auto simp: t clamp_inv_def)
    then show ?thesis by (simp add: t)
  qed
qed

lemma clamp_run_inv:
  "untorn as \<Longrightarrow> clamp_run as s = Some s' \<Longrightarrow> clamp_inv B r s \<Longrightarrow>
   clamp_inv B r s' \<and> (\<exists>new. cl_returned s' = new @ cl_returned s \<and> (\<forall>(c, v) \<in> set new. c \<notin> B \<longrightarrow> r \<le> v))"
proof (induction as arbitrary: s rule: untorn.induct)
  case (2 c ns c' as)
  then obtain t where "clamp_inv B r t" "cl_returned t = cl_returned s" "clamp_run as t = Some s'"
    using clamp_load [of B r s c ns as s'] by auto
  with 2 show ?case by fastforce
next
  case (3 c as)
  then obtain t where t: "clamp_step (Cas c) s = Some t" "clamp_run as t = Some s'" by (auto simp: bind_eq_Some_conv)
  from clamp_cas [OF 3(4) t(1)] 3(1) [OF _ t(2)] 3(2) show ?case by fastforce
qed auto

text \<open>
  C29: wall-clock time never goes backwards across CPUs, provided no 64-bit load of the shared value is
  torn.  In every interleaving of the loads and compare-exchanges of any number of CPUs, a call that
  begins after some call has returned \<open>r\<close> returns at least \<open>r\<close>, even if its own counter is behind.
\<close>

theorem clamp_monotone:
  assumes "untorn as" "clamp_run as (clamp_init v0) = Some s" "(c0, r) \<in> set (cl_returned s)"
    and "untorn bs" "clamp_run bs s = Some s'" "cl_returned s' = new @ cl_returned s"
    and "(c, v) \<in> set new" "cl_pc s c = Idle"
  shows "r \<le> v"
proof -
  let ?B = "{c. cl_pc s c \<noteq> Idle}"
  have "clamp_inv UNIV 0 (clamp_init v0)" by (simp add: clamp_inv_def clamp_init_def)
  then have "clamp_inv UNIV 0 s" using clamp_run_inv [OF assms(1,2)] by blast
  then have "clamp_inv ?B r s" using assms(3) by (auto simp: clamp_inv_def intro: pc_ok_idle)
  then show ?thesis using clamp_run_inv [OF assms(4,5)] assms(6-8) by fastforce
qed

text \<open>
  A torn load breaks the promise.  A CPU that loads the low half just before another CPU carries
  into the high half puts together a value nobody ever wrote, over four seconds ahead of every clock,
  and returns it; the next call of the other CPU returns an earlier time.
\<close>

theorem clamp_torn_load:
  "map_option cl_returned (clamp_run
     [Begin 0 0x100000001, Begin 1 0x100000000, High 1, Cas 1, High 0, Cas 0, Begin 1 0x100000002, High 1, Cas 1]
     (clamp_init 0xFFFFFFFF)) = Some [(1, 0x100000002), (0, 0x1FFFFFFFF), (1, 0x100000000)]"
  by (simp add: clamp_init_def clamp_return_def lo32_def hi32_def join32_def)

section \<open>Witnesses\<close>

theorem rtc_decode_all_formats_witness:
  "decode_fields \<lparr>rf_second = 0x59, rf_minute = 0x30, rf_hour = 0x92, rf_day = 0x29, rf_month = 0x02, rf_year = 0x24,
     rf_century = 0x20\<rparr> 0 =
   \<lparr>rtc_year = 2024, rtc_month = 2, rtc_day = 29, rtc_hour = 12, rtc_minute = 30, rtc_second = 59\<rparr>"
  using rtc_decode_all_formats [of 2024 2 29 12 30 59 0] by (simp add: chip_fields_def chip_num_def chip_hour_def)

theorem clamp_monotone_witness:
  "\<exists>s s'. clamp_run [Begin 0 50, High 0, Cas 0] (clamp_init 7) = Some s \<and>
     clamp_run [Begin 1 40, High 1, Cas 1] s = Some s' \<and> cl_returned s' = [(1, 50), (0, 50)] \<and> (50 :: u64) \<le> 50"
proof -
  obtain s where s: "clamp_run [Begin 0 50, High 0, Cas 0] (clamp_init 7) = Some s" "cl_returned s = [(0, 50)]"
    "cl_pc s 1 = Idle" "cl_last s = 50"
    by (simp add: clamp_init_def clamp_return_def lo32_def hi32_def join32_def)
  obtain s' where s': "clamp_run [Begin 1 40, High 1, Cas 1] s = Some s'" "cl_returned s' = [(1, 50)] @ cl_returned s"
    using s by (simp add: clamp_return_def lo32_def hi32_def join32_def)
  have "50 \<le> (50 :: u64)"
    using clamp_monotone [OF _ s(1) _ _ s', of 0 50 1 50] s(2,3) by simp
  then show ?thesis using s s' by auto
qed

definition sample_regs :: "u8 \<Rightarrow> u8" where
  "sample_regs reg = (if reg = 0x0B then 6 else if reg = 0x00 then 30 else if reg = 0x02 then 15 else if reg = 0x04 then 10
     else if reg = 0x07 then 1 else if reg = 0x08 then 3 else if reg = 0x09 then 24 else if reg = 0x32 then 20 else 0)"

lemma sample_read:
  "rtc_read_time (\<lambda>_. sample_regs) 0 =
   Some \<lparr>rtc_year = 2024, rtc_month = 3, rtc_day = 1, rtc_hour = 10, rtc_minute = 15, rtc_second = 30\<rparr>"
  unfolding rtc_read_stable
  by (simp add: sample_regs_def read_raw_fields_def cmos_read_def decode_fields_def decode_num_def decode_hour_def decode_year_def Let_def)

theorem rtc_init_anchors_witness:
  "\<exists>ck' rt. rtc_init \<lparr>ck_tsc_ok = True, ck_boot_epoch_s = 0\<rparr> (\<lambda>_. sample_regs) 3000000000 = Some ck' \<and>
     clock_get_realtime ck' 3500000000 = Some rt \<and>
     civil_to_unix_seconds (Some (rt_civil rt)) = civil_to_unix_seconds (Some (civil_of_rtc
       \<lparr>rtc_year = 2024, rtc_month = 3, rtc_day = 1, rtc_hour = 10, rtc_minute = 15, rtc_second = 30\<rparr>)) \<and>
     unat (rt_ms rt) = 500"
proof -
  let ?r = "\<lparr>rtc_year = 2024, rtc_month = 3, rtc_day = 1, rtc_hour = 10, rtc_minute = 15, rtc_second = 30\<rparr>"
  let ?c = "civil_of_rtc ?r"
  have v: "valid_civil ?c" by (simp add: civil_of_rtc_def valid_civil_def month_days_def days_in_month_def is_leap_year_def)
  have "civil_days ?c < 366 * 55" using civil_days_bound [OF v] by (simp add: civil_of_rtc_def)
  then have "unat (civil_to_unix_seconds (Some ?c)) = civil_seconds ?c" using civil_to_unix_valid [OF v] by simp
  moreover have "36930 \<le> civil_seconds ?c" by (simp add: civil_seconds_def civil_of_rtc_def)
  ultimately have big: "unat (3000000000 :: u64) div 1000000000 \<le> unat (civil_to_unix_seconds (Some ?c))" by simp
  have y: "civ_year ?c < 2105" by (simp add: civil_of_rtc_def)
  show ?thesis
    using rtc_init_anchors [OF sample_read v y big, of 3500000000 "\<lparr>ck_tsc_ok = True, ck_boot_epoch_s = 0\<rparr>"]
    by (auto simp: word_unat_eq_iff)
qed

text \<open>A chip whose seconds register never answers the same byte twice.\<close>

theorem rtc_init_errors_witness:
  "rtc_init \<lparr>ck_tsc_ok = True, ck_boot_epoch_s = 9\<rparr> (\<lambda>t reg. if reg = 0 then of_nat t else 0) 77 =
   Some \<lparr>ck_tsc_ok = True, ck_boot_epoch_s = 0\<rparr>"
proof -
  let ?chip = "(\<lambda>t reg. if reg = 0 then of_nat t else 0) :: cmos"
  have "rtc_retry ?chip b n t = None" for b n t
    by (induction n arbitrary: t) (simp_all add: cmos_read_def read_raw_fields_def fields_equal_def Let_def)
  then have "rtc_read_time ?chip 0 = None" by (simp add: rtc_read_time_def cmos_read_def)
  then show ?thesis using rtc_init_errors [of ?chip "\<lparr>ck_tsc_ok = True, ck_boot_epoch_s = 9\<rparr>" 77] by simp
qed

end
