(* ===== verification/Wait.thy ===== *)
theory Wait
  imports Prelude "HOL-Library.Monad_Syntax"
begin

text \<open>
  The wait queues of \<^verbatim>\<open>kernel/proc/wait.c\<close> and the two functions of \<^verbatim>\<open>kernel/proc/scheduler.c\<close> that end a
  wait, \<^verbatim>\<open>scheduler_unblock\<close> and \<^verbatim>\<open>scheduler_sleep_timer_fire\<close>.  A queue is the intrusive singly linked
  list of the code: head and tail pointers, and a link in every thread.  Threads and queues are
  addresses in a store, so that the loops walk real pointers; they are
  \<^theory_text>\<open>partial_function (option)\<close> and a walk that meets a cycle is None.  The body under \<^verbatim>\<open>wq->lock\<close> is
  one step; what \<^verbatim>\<open>wait_queue_wake_all\<close> does after releasing the lock is a walk of its own, so
  that other steps can come between.  The outcome of \<^verbatim>\<open>timer_arm_in\<close> is an argument, and an armed
  sleep timer is a flag of its thread.  The first part shows that the pointer operations
  implement first-in first-out queues, the second interleaves a waker with other steps.
\<close>

subsection \<open>Threads and queues\<close>

type_synonym tptr = nat
type_synonym wqptr = nat
type_synonym mptr = nat

datatype thread_state = THREAD_READY | THREAD_RUNNING | THREAD_BLOCKED | THREAD_SLEEPING | THREAD_DEAD

definition WAIT_OK :: int where "WAIT_OK = 0"
definition WAIT_TIMEOUT :: int where "WAIT_TIMEOUT = 1"

record thread =
  t_tid :: int
  t_state :: thread_state
  t_priority :: u32
  t_base_priority :: u32
  t_sleep_armed :: bool
  t_blocked_on :: "wqptr option"
  t_wq_next :: "tptr option"
  t_wait_result :: int
  t_owned_mutexes :: "mptr list"
  t_untracked_mutexes :: u32
  t_waiting_on_mutex :: "mptr option"
  t_owner :: u32
  t_waiting_owner_tid :: int

record wait_queue =
  wq_head :: "tptr option"
  wq_tail :: "tptr option"

record kstate =
  ks_threads :: "tptr \<Rightarrow> thread"
  ks_queues :: "wqptr \<Rightarrow> wait_queue"

definition upd_thread :: "tptr \<Rightarrow> (thread \<Rightarrow> thread) \<Rightarrow> kstate \<Rightarrow> kstate" where
  "upd_thread t f s = s\<lparr>ks_threads := (ks_threads s)(t := f (ks_threads s t))\<rparr>"

definition upd_queue :: "wqptr \<Rightarrow> (wait_queue \<Rightarrow> wait_queue) \<Rightarrow> kstate \<Rightarrow> kstate" where
  "upd_queue q f s = s\<lparr>ks_queues := (ks_queues s)(q := f (ks_queues s q))\<rparr>"

abbreviation next_of :: "kstate \<Rightarrow> tptr \<Rightarrow> tptr option" where
  "next_of s t \<equiv> t_wq_next (ks_threads s t)"

abbreviation blocked_on_of :: "kstate \<Rightarrow> tptr \<Rightarrow> wqptr option" where
  "blocked_on_of s t \<equiv> t_blocked_on (ks_threads s t)"

abbreviation state_of :: "kstate \<Rightarrow> tptr \<Rightarrow> thread_state" where
  "state_of s t \<equiv> t_state (ks_threads s t)"

subsection \<open>The verbs under the queue's lock\<close>

definition enqueue_tail :: "wqptr \<Rightarrow> tptr \<Rightarrow> kstate \<Rightarrow> kstate" where
  "enqueue_tail q t s =
     (let s1 = upd_thread t (\<lambda>r. r\<lparr>t_wq_next := None, t_blocked_on := Some q\<rparr>) s;
          s2 = (case wq_tail (ks_queues s1 q) of
                  Some l \<Rightarrow> upd_thread l (\<lambda>r. r\<lparr>t_wq_next := Some t\<rparr>) s1
                | None \<Rightarrow> upd_queue q (\<lambda>w. w\<lparr>wq_head := Some t\<rparr>) s1)
      in upd_queue q (\<lambda>w. w\<lparr>wq_tail := Some t\<rparr>) s2)"

definition dequeue_head :: "wqptr \<Rightarrow> kstate \<Rightarrow> kstate \<times> tptr option" where
  "dequeue_head q s =
     (case wq_head (ks_queues s q) of
        None \<Rightarrow> (s, None)
      | Some t \<Rightarrow>
          let s1 = upd_queue q (\<lambda>w. w\<lparr>wq_head := next_of s t\<rparr>) s;
              s2 = (if wq_head (ks_queues s1 q) = None then upd_queue q (\<lambda>w. w\<lparr>wq_tail := None\<rparr>) s1 else s1)
          in (upd_thread t (\<lambda>r. r\<lparr>t_wq_next := None, t_blocked_on := None\<rparr>) s2, Some t))"

definition unlink_at :: "wqptr \<Rightarrow> tptr option \<Rightarrow> tptr \<Rightarrow> kstate \<Rightarrow> kstate" where
  "unlink_at q prev c s =
     (let s1 = (case prev of
                  Some p \<Rightarrow> upd_thread p (\<lambda>r. r\<lparr>t_wq_next := next_of s c\<rparr>) s
                | None \<Rightarrow> upd_queue q (\<lambda>w. w\<lparr>wq_head := next_of s c\<rparr>) s);
          s2 = (if wq_tail (ks_queues s1 q) = Some c then upd_queue q (\<lambda>w. w\<lparr>wq_tail := prev\<rparr>) s1 else s1)
      in upd_thread c (\<lambda>r. r\<lparr>t_wq_next := None, t_blocked_on := None\<rparr>) s2)"

partial_function (option) unlink_loop ::
  "wqptr \<Rightarrow> tptr \<Rightarrow> tptr option \<Rightarrow> tptr option \<Rightarrow> kstate \<Rightarrow> kstate option" where
  "unlink_loop q target prev cur s =
     (case cur of
        None \<Rightarrow> Some s
      | Some c \<Rightarrow> if c = target then Some (unlink_at q prev c s)
                  else unlink_loop q target (Some c) (next_of s c) s)"

definition unlink_locked :: "wqptr \<Rightarrow> tptr \<Rightarrow> kstate \<Rightarrow> kstate option" where
  "unlink_locked q target s = unlink_loop q target None (wq_head (ks_queues s q)) s"

subsection \<open>Ending a wait\<close>

definition timer_cancel_sleep :: "tptr \<Rightarrow> kstate \<Rightarrow> kstate" where
  "timer_cancel_sleep t s = upd_thread t (\<lambda>r. r\<lparr>t_sleep_armed := False\<rparr>) s"

definition scheduler_unblock :: "tptr \<Rightarrow> kstate \<Rightarrow> kstate" where
  "scheduler_unblock t s =
     (let s1 = timer_cancel_sleep t s
      in if state_of s1 t \<noteq> THREAD_BLOCKED \<and> state_of s1 t \<noteq> THREAD_SLEEPING then s1
         else upd_thread t (\<lambda>r. r\<lparr>t_state := THREAD_READY\<rparr>) s1)"

definition wait_queue_init :: "wqptr \<Rightarrow> kstate \<Rightarrow> kstate" where
  "wait_queue_init q s = upd_queue q (\<lambda>w. w\<lparr>wq_head := None, wq_tail := None\<rparr>) s"

definition wait_queue_extract_one :: "wqptr \<Rightarrow> kstate \<Rightarrow> kstate \<times> tptr option" where
  "wait_queue_extract_one q s =
     (case dequeue_head q s of
        (s1, Some t) \<Rightarrow> (upd_thread t (\<lambda>r. r\<lparr>t_wait_result := WAIT_OK\<rparr>) s1, Some t)
      | (s1, None) \<Rightarrow> (s1, None))"

definition wait_queue_wake_one :: "wqptr \<Rightarrow> kstate \<Rightarrow> kstate \<times> bool" where
  "wait_queue_wake_one q s =
     (case dequeue_head q s of
        (s1, None) \<Rightarrow> (s1, False)
      | (s1, Some t) \<Rightarrow> (scheduler_unblock t (upd_thread t (\<lambda>r. r\<lparr>t_wait_result := WAIT_OK\<rparr>) s1), True))"

partial_function (option) clear_blocked :: "tptr option \<Rightarrow> kstate \<Rightarrow> kstate option" where
  "clear_blocked cur s =
     (case cur of
        None \<Rightarrow> Some s
      | Some t \<Rightarrow> let s1 = upd_thread t (\<lambda>r. r\<lparr>t_blocked_on := None\<rparr>) s in clear_blocked (next_of s1 t) s1)"

definition wake_all_detach :: "wqptr \<Rightarrow> kstate \<Rightarrow> (kstate \<times> tptr option) option" where
  "wake_all_detach q s =
     (let chain = wq_head (ks_queues s q)
      in do { s1 \<leftarrow> clear_blocked chain (upd_queue q (\<lambda>w. w\<lparr>wq_head := None, wq_tail := None\<rparr>) s);
              Some (s1, chain) })"

definition wake_chain_one :: "tptr \<Rightarrow> kstate \<Rightarrow> kstate \<times> tptr option" where
  "wake_chain_one t s =
     (let nxt = next_of s t
      in (scheduler_unblock t (upd_thread t (\<lambda>r. r\<lparr>t_wq_next := None, t_wait_result := WAIT_OK\<rparr>) s), nxt))"

partial_function (option) wake_chain :: "tptr option \<Rightarrow> kstate \<Rightarrow> kstate option" where
  "wake_chain chain s =
     (case chain of
        None \<Rightarrow> Some s
      | Some t \<Rightarrow> (case wake_chain_one t s of (s1, nxt) \<Rightarrow> wake_chain nxt s1))"

definition wait_queue_wake_all :: "wqptr \<Rightarrow> kstate \<Rightarrow> kstate option" where
  "wait_queue_wake_all q s =
     (case wake_all_detach q s of None \<Rightarrow> None | Some (s1, chain) \<Rightarrow> wake_chain chain s1)"

definition wait_queue_remove_thread :: "wqptr option \<Rightarrow> tptr option \<Rightarrow> kstate \<Rightarrow> kstate option" where
  "wait_queue_remove_thread wq target s =
     (case (wq, target) of (Some q, Some t) \<Rightarrow> unlink_locked q t s | _ \<Rightarrow> Some s)"

definition wait_queue_empty :: "wqptr \<Rightarrow> kstate \<Rightarrow> bool" where
  "wait_queue_empty q s \<longleftrightarrow> wq_head (ks_queues s q) = None"

subsection \<open>Sleeping\<close>

text \<open>
  \<^verbatim>\<open>wait_prepare\<close> by the thread \<^verbatim>\<open>t\<close>; \<^verbatim>\<open>arm_ok\<close> is the answer of \<^verbatim>\<open>timer_arm_in\<close>.  \<^verbatim>\<open>wait_cancel\<close> also answers
  whether the thread must still pass through the scheduler, because a waker has made it ready.
\<close>

definition wait_prepare :: "wqptr \<Rightarrow> tptr \<Rightarrow> u32 \<Rightarrow> bool \<Rightarrow> kstate \<Rightarrow> kstate option" where
  "wait_prepare q t timeout_ms arm_ok s =
     (let s1 = upd_thread t (\<lambda>r. r\<lparr>t_wait_result := WAIT_OK, t_state := THREAD_BLOCKED\<rparr>) (enqueue_tail q t s)
      in if timeout_ms > 0 \<and> \<not> arm_ok
         then do { s2 \<leftarrow> unlink_locked q t s1;
                   Some (upd_thread t (\<lambda>r. r\<lparr>t_state := THREAD_RUNNING, t_wait_result := WAIT_TIMEOUT\<rparr>) s2) }
         else if timeout_ms > 0 then Some (upd_thread t (\<lambda>r. r\<lparr>t_sleep_armed := True\<rparr>) s1)
         else Some s1)"

definition wait_cancel :: "tptr \<Rightarrow> kstate \<Rightarrow> (kstate \<times> bool) option" where
  "wait_cancel t s =
     (let s1 = timer_cancel_sleep t s
      in do { s2 \<leftarrow> wait_queue_remove_thread (blocked_on_of s1 t) (Some t) s1;
              Some (if state_of s2 t = THREAD_BLOCKED
                    then (upd_thread t (\<lambda>r. r\<lparr>t_state := THREAD_RUNNING\<rparr>) s2, False)
                    else (s2, True)) })"

definition wait_finish :: "tptr \<Rightarrow> kstate \<Rightarrow> kstate \<times> int" where
  "wait_finish t s = (let s1 = timer_cancel_sleep t s in (s1, t_wait_result (ks_threads s1 t)))"

definition scheduler_sleep_timer_fire :: "tptr \<Rightarrow> kstate \<Rightarrow> kstate option" where
  "scheduler_sleep_timer_fire t s =
     do { s1 \<leftarrow> (if blocked_on_of s t \<noteq> None
                  then do { s' \<leftarrow> wait_queue_remove_thread (blocked_on_of s t) (Some t) s;
                            Some (upd_thread t (\<lambda>r. r\<lparr>t_wait_result := WAIT_TIMEOUT\<rparr>) s') }
                  else Some s);
          Some (scheduler_unblock t s1) }"

subsection \<open>Queues as lists\<close>

lemma thr_upd_thread [simp]:
  "ks_threads (upd_thread t f s) = (ks_threads s)(t := f (ks_threads s t))"
  "ks_queues (upd_thread t f s) = ks_queues s"
  by (simp_all add: upd_thread_def)

lemma thr_upd_queue [simp]:
  "ks_threads (upd_queue q f s) = ks_threads s"
  "ks_queues (upd_queue q f s) = (ks_queues s)(q := f (ks_queues s q))"
  by (simp_all add: upd_queue_def)

text \<open>The threads met by walking the links from a pointer.\<close>

primrec is_chain :: "(tptr \<Rightarrow> tptr option) \<Rightarrow> tptr option \<Rightarrow> tptr list \<Rightarrow> bool" where
  "is_chain nxt h [] \<longleftrightarrow> h = None"
| "is_chain nxt h (t # ts) \<longleftrightarrow> h = Some t \<and> is_chain nxt (nxt t) ts"

definition end_of :: "tptr list \<Rightarrow> tptr option" where
  "end_of xs = (if xs = [] then None else Some (last xs))"

definition wait_rep :: "kstate \<Rightarrow> (wqptr \<Rightarrow> tptr list) \<Rightarrow> bool" where
  "wait_rep s Q \<longleftrightarrow>
     (\<forall>q. is_chain (next_of s) (wq_head (ks_queues s q)) (Q q) \<and> distinct (Q q) \<and>
          wq_tail (ks_queues s q) = end_of (Q q)) \<and>
     (\<forall>t q. blocked_on_of s t = Some q \<longleftrightarrow> t \<in> set (Q q))"

lemma end_of_simps [simp]:
  "end_of [] = None" "end_of (xs @ [x]) = Some x" "end_of [x] = Some x"
  "end_of (x # y # ys) = end_of (y # ys)" "(end_of xs = None) = (xs = [])"
  by (simp_all add: end_of_def)

lemma end_of_append: "end_of (xs @ ys) = (if ys = [] then end_of xs else end_of ys)"
  by (simp add: end_of_def)

lemma end_of_in: "end_of xs = Some x \<Longrightarrow> x \<in> set xs"
  by (auto simp: end_of_def split: if_splits)

lemma is_chain_cong:
  "(\<And>t. t \<in> set xs \<Longrightarrow> nxt t = nxt' t) \<Longrightarrow> is_chain nxt h xs = is_chain nxt' h xs"
  by (induction xs arbitrary: h) auto

lemma is_chain_frame:
  "is_chain nxt h xs \<Longrightarrow> (\<And>t. t \<in> set xs \<Longrightarrow> nxt' t = nxt t) \<Longrightarrow> is_chain nxt' h xs"
  using is_chain_cong by metis

lemma is_chain_hd: "is_chain nxt h xs \<Longrightarrow> h = (case xs of [] \<Rightarrow> None | t # _ \<Rightarrow> Some t)"
  by (cases xs) auto

lemma is_chain_snoc:
  assumes "is_chain nxt h xs" "distinct (xs @ [t])"
    and "\<And>u. u \<in> set xs \<Longrightarrow> Some u \<noteq> end_of xs \<Longrightarrow> nxt' u = nxt u"
    and "\<And>l. end_of xs = Some l \<Longrightarrow> nxt' l = Some t" and "nxt' t = None"
  shows "is_chain nxt' (if xs = [] then Some t else h) (xs @ [t])"
  using assms
proof (induction xs arbitrary: h)
  case (Cons x xs)
  show ?case
  proof (cases xs)
    case Nil
    then show ?thesis using Cons.prems by simp
  next
    case (Cons y ys)
    have "x \<noteq> last xs" using Cons.prems(2) Cons by auto
    then have "nxt' x = nxt x" using Cons.prems(3)[of x] Cons by (simp add: end_of_def)
    then show ?thesis
      using Cons.IH[of "nxt x"] Cons.prems Cons by auto
  qed
qed simp

lemma is_chain_delete:
  assumes "is_chain nxt h (as @ c # bs)" "distinct (as @ c # bs)"
    and "\<And>u. u \<in> set as \<union> set bs \<Longrightarrow> Some u \<noteq> end_of as \<Longrightarrow> nxt' u = nxt u"
    and "\<And>p. end_of as = Some p \<Longrightarrow> nxt' p = nxt c"
  shows "is_chain nxt' (if as = [] then nxt c else h) (as @ bs)"
  using assms
proof (induction as arbitrary: h)
  case Nil
  have "is_chain nxt (nxt c) bs = is_chain nxt' (nxt c) bs"
    by (rule is_chain_cong) (use Nil in auto)
  then show ?case using Nil by simp
next
  case (Cons x as)
  show ?case
  proof (cases as)
    case Nil
    have "is_chain nxt (nxt c) bs = is_chain nxt' (nxt c) bs"
      by (rule is_chain_cong) (use Cons.prems(2,3) Nil in \<open>metis Un_iff append_Cons append_Nil distinct.simps(2) end_of_simps(3) in_set_conv_decomp list.set_intros(2) option.inject\<close>)
    then show ?thesis using Cons.prems Nil by simp
  next
    case (Cons y ys)
    have "x \<noteq> last as" using Cons.prems(2) Cons by auto
    then have "nxt' x = nxt x" using Cons.prems(3)[of x] Cons by (simp add: end_of_def)
    then show ?thesis
      using Cons.IH[of "nxt x"] Cons.prems Cons by auto
  qed
qed

lemma wait_repD:
  assumes "wait_rep s Q"
  shows "is_chain (next_of s) (wq_head (ks_queues s q)) (Q q)" "distinct (Q q)"
    "wq_tail (ks_queues s q) = end_of (Q q)"
    "blocked_on_of s t = Some q \<longleftrightarrow> t \<in> set (Q q)"
  using assms by (auto simp: wait_rep_def)

lemma wait_rep_disjoint: "wait_rep s Q \<Longrightarrow> t \<in> set (Q q) \<Longrightarrow> t \<in> set (Q q') \<Longrightarrow> q = q'"
  using wait_repD(4) by (metis option.inject)

lemma wait_rep_head: "wait_rep s Q \<Longrightarrow> wq_head (ks_queues s q) = (case Q q of [] \<Rightarrow> None | t # _ \<Rightarrow> Some t)"
  using is_chain_hd wait_repD(1) by blast

text \<open>
  A change of one queue: the new list has a correct chain and end, the links of the threads of
  all other queues are kept, and the threads gained or lost know it.
\<close>

lemma wait_rep_update:
  assumes inv: "wait_rep s Q"
    and chain: "is_chain (next_of s') (wq_head (ks_queues s' q)) xs" "distinct xs"
      "wq_tail (ks_queues s' q) = end_of xs"
    and others: "\<And>q'. q' \<noteq> q \<Longrightarrow> ks_queues s' q' = ks_queues s q'"
    and links: "\<And>u q'. q' \<noteq> q \<Longrightarrow> u \<in> set (Q q') \<Longrightarrow> next_of s' u = next_of s u"
    and blocked: "\<And>u. blocked_on_of s' u = (if u \<in> set xs then Some q
                       else if u \<in> set (Q q) then None else blocked_on_of s u)"
    and fresh: "\<And>u. u \<in> set xs \<Longrightarrow> blocked_on_of s u = None \<or> blocked_on_of s u = Some q"
  shows "wait_rep s' (Q(q := xs))"
  unfolding wait_rep_def
proof (intro conjI allI)
  fix q'
  show "is_chain (next_of s') (wq_head (ks_queues s' q')) ((Q(q := xs)) q')"
  proof (cases "q' = q")
    case False
    then have "is_chain (next_of s) (wq_head (ks_queues s q')) (Q q') = is_chain (next_of s') (wq_head (ks_queues s q')) (Q q')"
      by (intro is_chain_cong) (simp add: links)
    then show ?thesis using False wait_repD(1)[OF inv] others by simp
  qed (use chain in simp)
  show "distinct ((Q(q := xs)) q')" "wq_tail (ks_queues s' q') = end_of ((Q(q := xs)) q')"
    using chain others wait_repD[OF inv] by (cases "q' = q"; simp)+
next
  fix t q'
  show "(blocked_on_of s' t = Some q') = (t \<in> set ((Q(q := xs)) q'))"
  proof (cases "q' = q")
    case True
    then show ?thesis using blocked[of t] wait_repD(4)[OF inv, of t q] by auto
  next
    case False
    then show ?thesis
      using blocked[of t] fresh[of t] wait_repD(4)[OF inv, of t q] wait_repD(4)[OF inv, of t q'] by auto
  qed
qed

lemma wait_rep_frame:
  assumes "wait_rep s Q" "ks_queues s' = ks_queues s"
    "\<And>t. next_of s' t = next_of s t" "\<And>t. blocked_on_of s' t = blocked_on_of s t"
  shows "wait_rep s' Q"
proof -
  have "next_of s' = next_of s" using assms(3) by auto
  then show ?thesis using assms by (simp add: wait_rep_def)
qed

subsection \<open>The verbs implement lists\<close>

lemma enqueue_tail_rep:
  assumes "wait_rep s Q" "blocked_on_of s t = None"
  shows "wait_rep (enqueue_tail q t s) (Q(q := Q q @ [t]))"
proof (rule wait_rep_update[OF assms(1)])
  note R = wait_repD[OF assms(1)]
  have new: "t \<notin> set (Q q')" for q' using R(4) assms(2) by (metis option.distinct(1))
  have lastneq: "end_of (Q q) \<noteq> Some t" using end_of_in new by blast
  have tail: "wq_tail (ks_queues s q) = end_of (Q q)" by (rule R(3))
  have other: "q' \<noteq> q \<Longrightarrow> u \<in> set (Q q') \<Longrightarrow> end_of (Q q) \<noteq> Some u" for u q'
    using wait_rep_disjoint[OF assms(1)] end_of_in by blast
  show "distinct (Q q @ [t])" using R(2) new by simp
  have c: "is_chain (next_of (enqueue_tail q t s)) (if Q q = [] then Some t else wq_head (ks_queues s q)) (Q q @ [t])"
    by (rule is_chain_snoc[OF R(1)])
      (use R(2) new lastneq tail in \<open>auto simp: enqueue_tail_def Let_def split: option.splits\<close>)
  have h: "wq_head (ks_queues (enqueue_tail q t s) q) = (if Q q = [] then Some t else wq_head (ks_queues s q))"
    using tail by (auto simp: enqueue_tail_def Let_def end_of_def split: option.splits)
  show "is_chain (next_of (enqueue_tail q t s)) (wq_head (ks_queues (enqueue_tail q t s) q)) (Q q @ [t])"
    using c h by simp
  show "wq_tail (ks_queues (enqueue_tail q t s) q) = end_of (Q q @ [t])"
    by (simp add: enqueue_tail_def Let_def)
  show "q' \<noteq> q \<Longrightarrow> ks_queues (enqueue_tail q t s) q' = ks_queues s q'" for q'
    by (simp add: enqueue_tail_def Let_def split: option.splits)
  show "q' \<noteq> q \<Longrightarrow> u \<in> set (Q q') \<Longrightarrow> next_of (enqueue_tail q t s) u = next_of s u" for u q'
    using other[of q' u] new[of q'] tail by (auto simp: enqueue_tail_def Let_def split: option.splits)
  show "blocked_on_of (enqueue_tail q t s) u = (if u \<in> set (Q q @ [t]) then Some q
          else if u \<in> set (Q q) then None else blocked_on_of s u)" for u
    using R(4)[of u q] lastneq tail by (auto simp: enqueue_tail_def Let_def split: option.splits)
  show "u \<in> set (Q q @ [t]) \<Longrightarrow> blocked_on_of s u = None \<or> blocked_on_of s u = Some q" for u
    using R(4)[of u q] assms(2) by auto
qed

lemma unlink_at_rep:
  assumes "wait_rep s Q" "Q q = as @ c # bs" "prev = end_of as"
  shows "wait_rep (unlink_at q prev c s) (Q(q := as @ bs))"
proof (rule wait_rep_update[OF assms(1)])
  note R = wait_repD[OF assms(1)]
  let ?s = "unlink_at q prev c s"
  have d: "distinct (as @ c # bs)" using R(2)[of q] assms(2) by simp
  show "distinct (as @ bs)" using d by simp
  have pn: "prev \<noteq> Some c" using d end_of_in assms(3) by fastforce
  have pq: "prev = Some p \<Longrightarrow> p \<in> set (Q q)" for p using end_of_in assms by fastforce
  have chain0: "is_chain (next_of s) (wq_head (ks_queues s q)) (as @ c # bs)"
    using R(1)[of q] assms(2) by simp
  have c: "is_chain (next_of ?s) (if as = [] then next_of s c else wq_head (ks_queues s q)) (as @ bs)"
    by (rule is_chain_delete[OF chain0 d])
      (use assms(3) d pn in \<open>auto simp: unlink_at_def Let_def split: option.splits\<close>)
  have h: "wq_head (ks_queues ?s q) = (if as = [] then next_of s c else wq_head (ks_queues s q))"
    using assms(3) by (auto simp: unlink_at_def Let_def end_of_def split: option.splits if_splits)
  show "is_chain (next_of ?s) (wq_head (ks_queues ?s q)) (as @ bs)" using c h by simp
  have "end_of bs \<noteq> Some c" using d end_of_in by fastforce
  then have "end_of (as @ c # bs) = Some c \<longleftrightarrow> bs = []"
    by (cases bs) (auto simp: end_of_append)
  then show "wq_tail (ks_queues ?s q) = end_of (as @ bs)"
    using R(3)[of q] assms(2,3)
    by (cases bs) (auto simp: unlink_at_def Let_def end_of_append split: option.splits)
  show "q' \<noteq> q \<Longrightarrow> ks_queues ?s q' = ks_queues s q'" for q'
    by (simp add: unlink_at_def Let_def split: option.splits)
  show "q' \<noteq> q \<Longrightarrow> u \<in> set (Q q') \<Longrightarrow> next_of ?s u = next_of s u" for u q'
    using wait_rep_disjoint[OF assms(1), of u q q'] pq assms(2)
    by (auto simp: unlink_at_def Let_def split: option.splits)
  show "blocked_on_of ?s u = (if u \<in> set (as @ bs) then Some q
          else if u \<in> set (Q q) then None else blocked_on_of s u)" for u
    using R(4)[of u q] assms(2) d by (auto simp: unlink_at_def Let_def split: option.splits)
  show "u \<in> set (as @ bs) \<Longrightarrow> blocked_on_of s u = None \<or> blocked_on_of s u = Some q" for u
    using R(4)[of u q] assms(2) by auto
qed

text \<open>The fields of a thread other than its link and its queue.\<close>

definition strip :: "thread \<Rightarrow> thread" where
  "strip r = r\<lparr>t_wq_next := None, t_blocked_on := None\<rparr>"

definition same_threads :: "kstate \<Rightarrow> kstate \<Rightarrow> bool" where
  "same_threads s s' \<longleftrightarrow> (\<forall>t. strip (ks_threads s' t) = strip (ks_threads s t))"

lemma strip_simps [simp]:
  "t_state (strip r) = t_state r" "t_priority (strip r) = t_priority r" "t_owner (strip r) = t_owner r"
  "t_wait_result (strip r) = t_wait_result r" "t_sleep_armed (strip r) = t_sleep_armed r"
  "strip (r\<lparr>t_wq_next := n\<rparr>) = strip r" "strip (r\<lparr>t_blocked_on := b\<rparr>) = strip r"
  "strip (r\<lparr>t_wq_next := n, t_blocked_on := b\<rparr>) = strip r"
  "strip (r\<lparr>t_wq_next := n, t_wait_result := w\<rparr>) = strip (r\<lparr>t_wait_result := w\<rparr>)"
  by (simp_all add: strip_def)

lemma strip_upds:
  "strip (r\<lparr>t_state := x\<rparr>) = (strip r)\<lparr>t_state := x\<rparr>"
  "strip (r\<lparr>t_wait_result := w\<rparr>) = (strip r)\<lparr>t_wait_result := w\<rparr>"
  "strip (r\<lparr>t_sleep_armed := a\<rparr>) = (strip r)\<lparr>t_sleep_armed := a\<rparr>"
  by (simp_all add: strip_def)

lemma same_threads_refl [simp]: "same_threads s s" by (simp add: same_threads_def)

lemma same_threads_trans: "same_threads s s' \<Longrightarrow> same_threads s' s'' \<Longrightarrow> same_threads s s''"
  by (simp add: same_threads_def)

lemma same_threadsD:
  assumes "same_threads s s'"
  shows "state_of s' t = state_of s t" "t_wait_result (ks_threads s' t) = t_wait_result (ks_threads s t)"
    "t_sleep_armed (ks_threads s' t) = t_sleep_armed (ks_threads s t)"
    "t_owner (ks_threads s' t) = t_owner (ks_threads s t)"
    "t_priority (ks_threads s' t) = t_priority (ks_threads s t)"
    "strip (ks_threads s' t) = strip (ks_threads s t)"
  using assms unfolding same_threads_def by (metis strip_simps)+

lemma enqueue_tail_same: "same_threads s (enqueue_tail q t s)"
  by (simp add: same_threads_def enqueue_tail_def Let_def split: option.splits)

lemma unlink_at_same: "same_threads s (unlink_at q prev c s)"
  by (simp add: same_threads_def unlink_at_def Let_def split: option.splits)

lemma unlink_loop_rep:
  assumes "wait_rep s Q" "Q q = as @ bs" "is_chain (next_of s) cur bs" "prev = end_of as" "t \<notin> set as"
  shows "\<exists>s'. unlink_loop q t prev cur s = Some s' \<and> wait_rep s' (Q(q := remove1 t (Q q))) \<and> same_threads s s'"
  using assms
proof (induction bs arbitrary: as prev cur)
  case Nil
  then have "Q(q := remove1 t (Q q)) = Q" by (simp add: remove1_idem fun_upd_idem_iff)
  then show ?case using Nil by (subst unlink_loop.simps) simp
next
  case (Cons b bs)
  show ?case
  proof (cases "b = t")
    case True
    then have "Q(q := remove1 t (Q q)) = Q(q := as @ bs)" using Cons.prems by (simp add: remove1_append)
    then show ?thesis
      using Cons.prems True unlink_at_rep[OF Cons.prems(1), of q as b bs prev] unlink_at_same
      by (subst unlink_loop.simps) simp
  next
    case False
    have "\<exists>s'. unlink_loop q t (Some b) (next_of s b) s = Some s' \<and> wait_rep s' (Q(q := remove1 t (Q q))) \<and> same_threads s s'"
      by (rule Cons.IH[of "as @ [b]"]) (use Cons.prems False in auto)
    then show ?thesis using Cons.prems False by (subst unlink_loop.simps) simp
  qed
qed

lemma unlink_locked_rep:
  assumes "wait_rep s Q"
  obtains s' where "unlink_locked q t s = Some s'" "wait_rep s' (Q(q := remove1 t (Q q)))" "same_threads s s'"
  using unlink_loop_rep[OF assms, of q "[]" "Q q" _ None t] wait_repD(1)[OF assms] by (auto simp: unlink_locked_def)

lemma dequeue_head_Nil: "wait_rep s Q \<Longrightarrow> Q q = [] \<Longrightarrow> dequeue_head q s = (s, None)"
  by (simp add: dequeue_head_def wait_rep_head)

lemma dequeue_head_Cons:
  assumes "wait_rep s Q" "Q q = t # ts"
  obtains s' where "dequeue_head q s = (s', Some t)" "wait_rep s' (Q(q := ts))" "same_threads s s'"
proof -
  have c: "is_chain (next_of s) (next_of s t) ts" using wait_repD(1)[OF assms(1), of q] assms(2) by simp
  have "distinct (t # ts)" using wait_repD(2)[OF assms(1), of q] assms(2) by simp
  then have "end_of ts \<noteq> Some t" using end_of_in by fastforce
  moreover have "next_of s t = None \<longleftrightarrow> ts = []" using c by (cases ts) auto
  ultimately have "dequeue_head q s = (unlink_at q None t s, Some t)"
    using wait_rep_head[OF assms(1), of q] wait_repD(3)[OF assms(1), of q] assms(2)
    by (cases ts) (auto simp: dequeue_head_def unlink_at_def Let_def)
  moreover have "wait_rep (unlink_at q None t s) (Q(q := ts))"
    using unlink_at_rep[OF assms(1), of q "[]" t ts None] assms(2) by simp
  ultimately show ?thesis using that unlink_at_same by blast
qed

subsection \<open>Waking\<close>

text \<open>What a wake-up leaves in the record of the thread.\<close>

definition woken :: "thread \<Rightarrow> thread" where
  "woken r = r\<lparr>t_wait_result := WAIT_OK, t_sleep_armed := False,
               t_state := (if t_state r = THREAD_BLOCKED \<or> t_state r = THREAD_SLEEPING then THREAD_READY else t_state r)\<rparr>"

lemma scheduler_unblock_thread:
  "ks_threads (scheduler_unblock t s) u =
     (if u = t then (ks_threads s t)\<lparr>t_sleep_armed := False,
        t_state := (if state_of s t = THREAD_BLOCKED \<or> state_of s t = THREAD_SLEEPING then THREAD_READY else state_of s t)\<rparr>
      else ks_threads s u)"
  by (auto simp: scheduler_unblock_def timer_cancel_sleep_def Let_def)

lemma scheduler_unblock_queues [simp]: "ks_queues (scheduler_unblock t s) = ks_queues s"
  by (simp add: scheduler_unblock_def timer_cancel_sleep_def Let_def)

lemma scheduler_unblock_rep: "wait_rep s Q \<Longrightarrow> wait_rep (scheduler_unblock t s) Q"
  by (erule wait_rep_frame) (simp_all add: scheduler_unblock_thread)

lemma upd_thread_rep:
  assumes "wait_rep s Q" "\<And>r. t_wq_next (f r) = t_wq_next r" "\<And>r. t_blocked_on (f r) = t_blocked_on r"
  shows "wait_rep (upd_thread t f s) Q"
  by (rule wait_rep_frame[OF assms(1)]) (simp_all add: assms)

text \<open>The threads of a set are woken, the others are left alone.\<close>

definition woke :: "tptr set \<Rightarrow> kstate \<Rightarrow> kstate \<Rightarrow> bool" where
  "woke T s s' \<longleftrightarrow> (\<forall>t. strip (ks_threads s' t) = strip (if t \<in> T then woken (ks_threads s t) else ks_threads s t))"

lemma woken_strip: "strip (woken r) = woken (strip r)"
  by (simp add: woken_def strip_def)

lemma wake_set_thread:
  "strip (ks_threads (scheduler_unblock t (upd_thread t (\<lambda>r. r\<lparr>t_wait_result := WAIT_OK\<rparr>) s)) u)
   = strip (if u = t then woken (ks_threads s t) else ks_threads s u)"
  by (simp add: scheduler_unblock_thread woken_def strip_def)

lemma wake_one_rep:
  assumes "wait_rep s Q"
  shows "case Q q of
           [] \<Rightarrow> wait_queue_wake_one q s = (s, False)
         | t # ts \<Rightarrow> \<exists>s'. wait_queue_wake_one q s = (s', True) \<and> wait_rep s' (Q(q := ts)) \<and> woke {t} s s'"
proof (cases "Q q")
  case Nil
  then show ?thesis using dequeue_head_Nil[OF assms] by (simp add: wait_queue_wake_one_def)
next
  case (Cons t ts)
  obtain s1 where s1: "dequeue_head q s = (s1, Some t)" "wait_rep s1 (Q(q := ts))" "same_threads s s1"
    using dequeue_head_Cons[OF assms Cons] by blast
  let ?s = "scheduler_unblock t (upd_thread t (\<lambda>r. r\<lparr>t_wait_result := WAIT_OK\<rparr>) s1)"
  have "wait_rep ?s (Q(q := ts))"
    by (rule scheduler_unblock_rep, rule upd_thread_rep[OF s1(2)]) simp_all
  moreover have "woke {t} s ?s"
    using same_threadsD(6)[OF s1(3)] unfolding woke_def wake_set_thread by (simp add: woken_strip)
  ultimately show ?thesis using Cons s1(1) by (simp add: wait_queue_wake_one_def)
qed

lemma extract_one_rep:
  assumes "wait_rep s Q"
  shows "case Q q of
           [] \<Rightarrow> wait_queue_extract_one q s = (s, None)
         | t # ts \<Rightarrow> \<exists>s'. wait_queue_extract_one q s = (s', Some t) \<and> wait_rep s' (Q(q := ts)) \<and>
              (\<forall>u. strip (ks_threads s' u) = strip (if u = t then (ks_threads s t)\<lparr>t_wait_result := WAIT_OK\<rparr> else ks_threads s u))"
proof (cases "Q q")
  case Nil
  then show ?thesis using dequeue_head_Nil[OF assms] by (simp add: wait_queue_extract_one_def)
next
  case (Cons t ts)
  obtain s1 where s1: "dequeue_head q s = (s1, Some t)" "wait_rep s1 (Q(q := ts))" "same_threads s s1"
    using dequeue_head_Cons[OF assms Cons] by blast
  have "wait_rep (upd_thread t (\<lambda>r. r\<lparr>t_wait_result := WAIT_OK\<rparr>) s1) (Q(q := ts))"
    by (rule upd_thread_rep[OF s1(2)]) simp_all
  then show ?thesis using Cons s1(1) same_threadsD(6)[OF s1(3)]
    by (simp add: wait_queue_extract_one_def strip_upds)
qed

lemma clear_blocked_chain:
  assumes "is_chain (next_of s) cur xs"
  shows "\<exists>s'. clear_blocked cur s = Some s' \<and> ks_queues s' = ks_queues s \<and>
    (\<forall>t. ks_threads s' t = (if t \<in> set xs then (ks_threads s t)\<lparr>t_blocked_on := None\<rparr> else ks_threads s t))"
  using assms
proof (induction xs arbitrary: cur s)
  case Nil
  then show ?case by (subst clear_blocked.simps) simp
next
  case (Cons t ts)
  let ?s = "upd_thread t (\<lambda>r. r\<lparr>t_blocked_on := None\<rparr>) s"
  have "is_chain (next_of ?s) (next_of s t) ts"
    using Cons.prems is_chain_cong[of ts "next_of ?s" "next_of s"] by simp
  then obtain s' where "clear_blocked (next_of s t) ?s = Some s'" "ks_queues s' = ks_queues ?s"
    "\<forall>u. ks_threads s' u = (if u \<in> set ts then (ks_threads ?s u)\<lparr>t_blocked_on := None\<rparr> else ks_threads ?s u)"
    using Cons.IH by blast
  then show ?case using Cons.prems by (subst clear_blocked.simps) (auto simp: Let_def)
qed

lemma wake_chain_one_thread:
  "wake_chain_one t s = (s1, n) \<longleftrightarrow>
     n = next_of s t \<and> s1 = fst (wake_chain_one t s)"
  by (auto simp: wake_chain_one_def Let_def)

lemma wake_chain_one_facts:
  "snd (wake_chain_one t s) = next_of s t"
  "ks_queues (fst (wake_chain_one t s)) = ks_queues s"
  "ks_threads (fst (wake_chain_one t s)) u =
     (if u = t then (woken (ks_threads s t))\<lparr>t_wq_next := None\<rparr> else ks_threads s u)"
  by (simp_all add: wake_chain_one_def Let_def scheduler_unblock_thread woken_def)

lemma wake_chain_chain:
  assumes "is_chain (next_of s) cur xs" "distinct xs"
  shows "\<exists>s'. wake_chain cur s = Some s' \<and> ks_queues s' = ks_queues s \<and>
    (\<forall>t. ks_threads s' t = (if t \<in> set xs then (woken (ks_threads s t))\<lparr>t_wq_next := None\<rparr> else ks_threads s t))"
  using assms
proof (induction xs arbitrary: cur s)
  case Nil
  then show ?case by (subst wake_chain.simps) simp
next
  case (Cons t ts)
  let ?s = "fst (wake_chain_one t s)"
  have "is_chain (next_of ?s) (next_of s t) ts"
    by (rule is_chain_frame[of "next_of s"]) (use Cons.prems in \<open>auto simp: wake_chain_one_facts\<close>)
  then obtain s' where s': "wake_chain (next_of s t) ?s = Some s'" "ks_queues s' = ks_queues ?s"
    "\<forall>u. ks_threads s' u = (if u \<in> set ts then (woken (ks_threads ?s u))\<lparr>t_wq_next := None\<rparr> else ks_threads ?s u)"
    using Cons by (metis distinct.simps(2))
  have "wake_chain cur s = wake_chain (next_of s t) ?s"
    using Cons.prems wake_chain_one_facts(1)[of t s]
    by (subst wake_chain.simps) (simp add: case_prod_beta)
  then show ?case using s' Cons.prems by (auto simp: wake_chain_one_facts)
qed

lemma wake_all_detach_rep:
  assumes "wait_rep s Q"
  obtains s1 where "wake_all_detach q s = Some (s1, wq_head (ks_queues s q))" "wait_rep s1 (Q(q := []))"
    "same_threads s s1" "is_chain (next_of s1) (wq_head (ks_queues s q)) (Q q)"
proof -
  note R = wait_repD[OF assms]
  let ?s0 = "upd_queue q (\<lambda>w. w\<lparr>wq_head := None, wq_tail := None\<rparr>) s"
  have "is_chain (next_of ?s0) (wq_head (ks_queues s q)) (Q q)" using R(1)[of q] by simp
  then obtain s1 where s1: "clear_blocked (wq_head (ks_queues s q)) ?s0 = Some s1" "ks_queues s1 = ks_queues ?s0"
    "\<forall>t. ks_threads s1 t = (if t \<in> set (Q q) then (ks_threads ?s0 t)\<lparr>t_blocked_on := None\<rparr> else ks_threads ?s0 t)"
    using clear_blocked_chain by blast
  have "wait_rep s1 (Q(q := []))"
    by (rule wait_rep_update[OF assms]) (use s1 in auto)
  moreover have "same_threads s s1" using s1(3) by (simp add: same_threads_def)
  moreover have "is_chain (next_of s1) (wq_head (ks_queues s q)) (Q q)"
    using R(1)[of q] is_chain_cong[of "Q q" "next_of s1" "next_of s"] s1(3) by simp
  ultimately show ?thesis using that s1(1) by (simp add: wake_all_detach_def Let_def)
qed

lemma wake_all_rep:
  assumes "wait_rep s Q"
  obtains s' where "wait_queue_wake_all q s = Some s'" "wait_rep s' (Q(q := []))" "woke (set (Q q)) s s'"
proof -
  obtain s1 where s1: "wake_all_detach q s = Some (s1, wq_head (ks_queues s q))" "wait_rep s1 (Q(q := []))"
    "same_threads s s1" "is_chain (next_of s1) (wq_head (ks_queues s q)) (Q q)"
    using wake_all_detach_rep[OF assms] by blast
  obtain s' where s': "wake_chain (wq_head (ks_queues s q)) s1 = Some s'" "ks_queues s' = ks_queues s1"
    "\<forall>t. ks_threads s' t = (if t \<in> set (Q q) then (woken (ks_threads s1 t))\<lparr>t_wq_next := None\<rparr> else ks_threads s1 t)"
    using wake_chain_chain[OF s1(4) wait_repD(2)[OF assms]] by blast
  have free: "u \<in> set ((Q(q := [])) q') \<Longrightarrow> u \<notin> set (Q q)" for u q'
    using wait_rep_disjoint[OF assms, of u q' q] by (cases "q' = q") auto
  have "wait_rep s' (Q(q := []))"
    unfolding wait_rep_def
  proof (intro conjI allI)
    fix q' t
    show "is_chain (next_of s') (wq_head (ks_queues s' q')) ((Q(q := [])) q')"
      using wait_repD(1)[OF s1(2), of q'] is_chain_cong[of "(Q(q := [])) q'" "next_of s'" "next_of s1"] s' free[of _ q']
      by (metis (no_types, lifting))
    show "distinct ((Q(q := [])) q')" using wait_repD(2)[OF s1(2)] .
    show "wq_tail (ks_queues s' q') = end_of ((Q(q := [])) q')" using wait_repD(3)[OF s1(2)] s'(2) by simp
    show "(blocked_on_of s' t = Some q') = (t \<in> set ((Q(q := [])) q'))"
      using wait_repD(4)[OF s1(2), of t q'] s'(3) by (cases "q' = q") (auto simp: woken_def)
  qed
  moreover have "woke (set (Q q)) s s'"
    using s'(3) same_threadsD(6)[OF s1(3)] by (simp add: woke_def woken_strip)
  ultimately show ?thesis using that s1(1) s'(1) by (simp add: wait_queue_wake_all_def)
qed

subsection \<open>Sleeping and timing out\<close>

lemma remove_thread_rep:
  assumes "wait_rep s Q" "blocked_on_of s t = b"
  obtains s' where "wait_queue_remove_thread b (Some t) s = Some s'"
    "wait_rep s' (\<lambda>q. remove1 t (Q q))" "same_threads s s'" "blocked_on_of s' t = None"
proof -
  have idem: "remove1 t (Q q) = Q q" if "b \<noteq> Some q" for q
    using wait_repD(4)[OF assms(1), of t q] assms(2) that by (simp add: remove1_idem)
  have eq: "(\<lambda>q. remove1 t (Q q)) = (case b of None \<Rightarrow> Q | Some q \<Rightarrow> Q(q := remove1 t (Q q)))"
    using idem by (auto split: option.splits)
  have gone: "wait_rep s' (\<lambda>q. remove1 t (Q q)) \<Longrightarrow> blocked_on_of s' t = None" for s'
    using wait_repD(4)[of s' _ t] wait_repD(2)[OF assms(1)] by (metis (no_types, lifting) in_set_remove1 option.exhaust set_remove1_eq DiffE singletonI)
  show ?thesis
  proof (cases b)
    case None
    then have "(\<lambda>q. remove1 t (Q q)) = Q" using idem by simp
    then have "wait_rep s (\<lambda>q. remove1 t (Q q))" using assms(1) by metis
    then show ?thesis
      using None that[of s] assms(2) by (simp add: wait_queue_remove_thread_def)
  next
    case (Some q)
    obtain s' where "unlink_locked q t s = Some s'" "wait_rep s' (Q(q := remove1 t (Q q)))" "same_threads s s'"
      using unlink_locked_rep[OF assms(1)] by blast
    moreover have "(\<lambda>q. remove1 t (Q q)) = Q(q := remove1 t (Q q))" using eq Some by (metis option.simps(5))
    ultimately show ?thesis
      using Some that[of s'] gone[of s'] by (simp add: wait_queue_remove_thread_def)
  qed
qed

text \<open>One thread's record changes by a function of it, the others keep theirs.\<close>

definition changed :: "tptr \<Rightarrow> (thread \<Rightarrow> thread) \<Rightarrow> kstate \<Rightarrow> kstate \<Rightarrow> bool" where
  "changed t f s s' \<longleftrightarrow> (\<forall>u. strip (ks_threads s' u) = strip (if u = t then f (ks_threads s t) else ks_threads s u))"

lemma wait_prepare_rep:
  assumes "wait_rep s Q" "blocked_on_of s t = None"
  shows "if timeout_ms > 0 \<and> \<not> arm_ok
    then \<exists>s'. wait_prepare q t timeout_ms arm_ok s = Some s' \<and> wait_rep s' Q \<and>
      changed t (\<lambda>r. r\<lparr>t_state := THREAD_RUNNING, t_wait_result := WAIT_TIMEOUT\<rparr>) s s'
    else \<exists>s'. wait_prepare q t timeout_ms arm_ok s = Some s' \<and> wait_rep s' (Q(q := Q q @ [t])) \<and>
      changed t (\<lambda>r. r\<lparr>t_state := THREAD_BLOCKED, t_wait_result := WAIT_OK,
                       t_sleep_armed := (timeout_ms > 0 \<or> t_sleep_armed r)\<rparr>) s s'"
proof -
  let ?s0 = "enqueue_tail q t s"
  let ?s1 = "upd_thread t (\<lambda>r. r\<lparr>t_wait_result := WAIT_OK, t_state := THREAD_BLOCKED\<rparr>) ?s0"
  have r1: "wait_rep ?s1 (Q(q := Q q @ [t]))"
    by (rule upd_thread_rep[OF enqueue_tail_rep[OF assms]]) simp_all
  have new: "t \<notin> set (Q q)" using wait_repD(4)[OF assms(1), of t q] assms(2) by auto
  show ?thesis
  proof (cases "timeout_ms > 0 \<and> \<not> arm_ok")
    case True
    obtain s2 where s2: "unlink_locked q t ?s1 = Some s2"
      "wait_rep s2 ((Q(q := Q q @ [t]))(q := remove1 t ((Q(q := Q q @ [t])) q)))" "same_threads ?s1 s2"
      using unlink_locked_rep[OF r1] by blast
    have "wait_rep s2 Q" using s2(2) new by (simp add: remove1_append)
    then have "wait_rep (upd_thread t (\<lambda>r. r\<lparr>t_state := THREAD_RUNNING, t_wait_result := WAIT_TIMEOUT\<rparr>) s2) Q"
      by (rule upd_thread_rep) simp_all
    moreover have "changed t (\<lambda>r. r\<lparr>t_state := THREAD_RUNNING, t_wait_result := WAIT_TIMEOUT\<rparr>) s
        (upd_thread t (\<lambda>r. r\<lparr>t_state := THREAD_RUNNING, t_wait_result := WAIT_TIMEOUT\<rparr>) s2)"
      using same_threadsD(6)[OF s2(3)] same_threadsD(6)[OF enqueue_tail_same[of s q t]]
      by (simp add: changed_def strip_upds)
    ultimately show ?thesis using True s2(1) by (simp add: wait_prepare_def Let_def)
  next
    case False
    let ?s2 = "upd_thread t (\<lambda>r. r\<lparr>t_sleep_armed := (timeout_ms > 0 \<or> t_sleep_armed r)\<rparr>) ?s1"
    have "wait_prepare q t timeout_ms arm_ok s = Some ?s2"
      using False by (auto simp: wait_prepare_def Let_def upd_thread_def)
    moreover have "wait_rep ?s2 (Q(q := Q q @ [t]))" by (rule upd_thread_rep[OF r1]) simp_all
    moreover have "changed t (\<lambda>r. r\<lparr>t_state := THREAD_BLOCKED, t_wait_result := WAIT_OK,
        t_sleep_armed := (timeout_ms > 0 \<or> t_sleep_armed r)\<rparr>) s ?s2"
      using same_threadsD[OF enqueue_tail_same[of s q t]] by (simp add: changed_def strip_upds)
    ultimately show ?thesis using False by auto
  qed
qed

lemma timer_cancel_rep: "wait_rep s Q \<Longrightarrow> wait_rep (timer_cancel_sleep t s) Q"
  unfolding timer_cancel_sleep_def by (rule upd_thread_rep) simp_all

lemma wait_cancel_rep:
  assumes "wait_rep s Q"
  obtains s' where "wait_cancel t s = Some (s', state_of s t \<noteq> THREAD_BLOCKED)"
    "wait_rep s' (\<lambda>q. remove1 t (Q q))" "blocked_on_of s' t = None"
    "changed t (\<lambda>r. r\<lparr>t_sleep_armed := False,
        t_state := (if t_state r = THREAD_BLOCKED then THREAD_RUNNING else t_state r)\<rparr>) s s'"
proof -
  let ?s1 = "timer_cancel_sleep t s"
  obtain s2 where s2: "wait_queue_remove_thread (blocked_on_of ?s1 t) (Some t) ?s1 = Some s2"
    "wait_rep s2 (\<lambda>q. remove1 t (Q q))" "same_threads ?s1 s2" "blocked_on_of s2 t = None"
    using remove_thread_rep[OF timer_cancel_rep[OF assms, of t] refl, of t] by blast
  have st: "state_of s2 t = state_of s t" using same_threadsD(1)[OF s2(3)] by (simp add: timer_cancel_sleep_def)
  let ?s' = "if state_of s2 t = THREAD_BLOCKED then upd_thread t (\<lambda>r. r\<lparr>t_state := THREAD_RUNNING\<rparr>) s2 else s2"
  have "wait_rep ?s' (\<lambda>q. remove1 t (Q q))" using s2(2) upd_thread_rep[OF s2(2)] by simp
  moreover have "blocked_on_of ?s' t = None" using s2(4) by simp
  moreover have "changed t (\<lambda>r. r\<lparr>t_sleep_armed := False,
      t_state := (if t_state r = THREAD_BLOCKED then THREAD_RUNNING else t_state r)\<rparr>) s ?s'"
    using same_threadsD(6)[OF s2(3)] st
    by (auto simp: changed_def strip_upds timer_cancel_sleep_def)
  moreover have "wait_cancel t s = Some (?s', state_of s t \<noteq> THREAD_BLOCKED)"
    using s2(1) st by (simp add: wait_cancel_def Let_def)
  ultimately show ?thesis using that by blast
qed

lemma timer_fire_rep:
  assumes "wait_rep s Q"
  obtains s' where "scheduler_sleep_timer_fire t s = Some s'" "wait_rep s' (\<lambda>q. remove1 t (Q q))"
    "changed t (\<lambda>r. r\<lparr>t_sleep_armed := False,
        t_state := (if t_state r = THREAD_BLOCKED \<or> t_state r = THREAD_SLEEPING then THREAD_READY else t_state r),
        t_wait_result := (if blocked_on_of s t = None then t_wait_result r else WAIT_TIMEOUT)\<rparr>) s s'"
    "blocked_on_of s' t = None"
proof -
  obtain s1 where s1: "wait_queue_remove_thread (blocked_on_of s t) (Some t) s = Some s1"
    "wait_rep s1 (\<lambda>q. remove1 t (Q q))" "same_threads s s1" "blocked_on_of s1 t = None"
    using remove_thread_rep[OF assms refl, of t] by blast
  have triv: "s1 = s" if "blocked_on_of s t = None" using s1(1) that by (simp add: wait_queue_remove_thread_def)
  let ?s2 = "if blocked_on_of s t = None then s1 else upd_thread t (\<lambda>r. r\<lparr>t_wait_result := WAIT_TIMEOUT\<rparr>) s1"
  have "wait_rep ?s2 (\<lambda>q. remove1 t (Q q))" using s1(2) upd_thread_rep[OF s1(2)] by simp
  then have "wait_rep (scheduler_unblock t ?s2) (\<lambda>q. remove1 t (Q q))" by (rule scheduler_unblock_rep)
  moreover have "scheduler_sleep_timer_fire t s = Some (scheduler_unblock t ?s2)"
    using s1(1) triv by (auto simp: scheduler_sleep_timer_fire_def)
  moreover have "changed t (\<lambda>r. r\<lparr>t_sleep_armed := False,
        t_state := (if t_state r = THREAD_BLOCKED \<or> t_state r = THREAD_SLEEPING then THREAD_READY else t_state r),
        t_wait_result := (if blocked_on_of s t = None then t_wait_result r else WAIT_TIMEOUT)\<rparr>) s (scheduler_unblock t ?s2)"
    using same_threadsD(1,6)[OF s1(3)]
    by (auto simp: changed_def strip_upds scheduler_unblock_thread)
  moreover have "blocked_on_of (scheduler_unblock t ?s2) t = None"
    using s1(4) by (simp add: scheduler_unblock_thread)
  ultimately show ?thesis using that by blast
qed

subsection \<open>The contract of the wait queues\<close>

text \<open>
  What the users of wait queues rely on: a representation of the queues by lists, and that waking
  takes the threads from the front and leaves all other threads alone.
\<close>

locale wait_service =
  fixes rep :: "'s \<Rightarrow> ('q \<Rightarrow> 't list) \<Rightarrow> bool"
    and woke_by :: "'t set \<Rightarrow> 's \<Rightarrow> 's \<Rightarrow> bool"
    and wake_one :: "'q \<Rightarrow> 's \<Rightarrow> 's \<times> bool"
    and wake_all :: "'q \<Rightarrow> 's \<Rightarrow> 's option"
  assumes wake_one_empty: "rep s Q \<Longrightarrow> Q q = [] \<Longrightarrow> wake_one q s = (s, False)"
    and wake_one_first: "rep s Q \<Longrightarrow> Q q = t # ts \<Longrightarrow>
      \<exists>s'. wake_one q s = (s', True) \<and> rep s' (Q(q := ts)) \<and> woke_by {t} s s'"
    and wake_all_every: "rep s Q \<Longrightarrow>
      \<exists>s'. wake_all q s = Some s' \<and> rep s' (Q(q := [])) \<and> woke_by (set (Q q)) s s'"
    and woke_none: "woke_by {} s s"
    and woke_union: "woke_by T s s' \<Longrightarrow> woke_by T' s' s'' \<Longrightarrow> woke_by (T \<union> T') s s''"
begin

lemma wake_all_nonempty: "rep s Q \<Longrightarrow> wake_all q s \<noteq> None"
  using wake_all_every by fastforce

text \<open>Waking several queues one after the other.\<close>

fun wake_queues :: "'q list \<Rightarrow> 's \<Rightarrow> 's option" where
  "wake_queues [] s = Some s"
| "wake_queues (q # qs) s = (case wake_all q s of None \<Rightarrow> None | Some s' \<Rightarrow> wake_queues qs s')"

lemma wake_queues_every:
  assumes "rep s Q"
  shows "\<exists>s'. wake_queues qs s = Some s' \<and> rep s' (\<lambda>q. if q \<in> set qs then [] else Q q) \<and>
              woke_by (\<Union>q\<in>set qs. set (Q q)) s s'"
  using assms
proof (induction qs arbitrary: s Q)
  case Nil
  then show ?case using woke_none by simp
next
  case (Cons q qs)
  obtain s1 where s1: "wake_all q s = Some s1" "rep s1 (Q(q := []))" "woke_by (set (Q q)) s s1"
    using wake_all_every[OF Cons.prems, of q] by blast
  obtain s2 where s2: "wake_queues qs s1 = Some s2"
    "rep s2 (\<lambda>r. if r \<in> set qs then [] else (Q(q := [])) r)"
    "woke_by (\<Union>r\<in>set qs. set ((Q(q := [])) r)) s1 s2"
    using Cons.IH[OF s1(2)] by blast
  have "set (Q q) \<union> (\<Union>r\<in>set qs. set ((Q(q := [])) r)) = (\<Union>r\<in>set (q # qs). set (Q r))"
    by (auto split: if_splits)
  moreover have "(\<lambda>r. if r \<in> set qs then [] else (Q(q := [])) r) = (\<lambda>r. if r \<in> set (q # qs) then [] else Q r)"
    by auto
  ultimately show ?case using s1(1) s2 woke_union[OF s1(3) s2(3)] by simp
qed

text \<open>Waking one thread again and again serves the queue in order.\<close>

fun wake_some :: "nat \<Rightarrow> 'q \<Rightarrow> 's \<Rightarrow> 's" where
  "wake_some 0 q s = s"
| "wake_some (Suc n) q s = wake_some n q (fst (wake_one q s))"

lemma wake_some_front:
  assumes "rep s Q"
  shows "rep (wake_some n q s) (Q(q := drop n (Q q))) \<and> woke_by (set (take n (Q q))) s (wake_some n q s)"
  using assms
proof (induction n arbitrary: s Q)
  case 0
  then show ?case using woke_none by simp
next
  case (Suc n)
  show ?case
  proof (cases "Q q")
    case Nil
    have "rep s (Q(q := [])) \<Longrightarrow> ?thesis"
      using Suc.IH[OF Suc.prems] wake_one_empty[OF Suc.prems Nil] Nil by simp
    moreover have "Q(q := []) = Q" using Nil by auto
    ultimately show ?thesis using Suc.prems by simp
  next
    case (Cons t ts)
    obtain s1 where s1: "wake_one q s = (s1, True)" "rep s1 (Q(q := ts))" "woke_by {t} s s1"
      using wake_one_first[OF Suc.prems Cons] by blast
    have "(Q(q := ts))(q := drop n ((Q(q := ts)) q)) = Q(q := drop (Suc n) (Q q))" using Cons by simp
    then have "rep (wake_some n q s1) (Q(q := drop (Suc n) (Q q)))" using Suc.IH[OF s1(2)] by metis
    moreover have "woke_by (set (take n ts)) s1 (wake_some n q s1)" using Suc.IH[OF s1(2)] by simp
    ultimately show ?thesis using s1(1) woke_union[OF s1(3)] Cons by (simp del: fun_upd_apply)
  qed
qed

end

lemma woke_compose: "woke T s s' \<Longrightarrow> woke T' s' s'' \<Longrightarrow> woke (T \<union> T') s s''"
  by (auto simp: woke_def woken_strip) (auto simp: woken_def strip_def)

interpretation wq: wait_service wait_rep woke wait_queue_wake_one wait_queue_wake_all
proof
  show "wait_rep s Q \<Longrightarrow> Q q = [] \<Longrightarrow> wait_queue_wake_one q s = (s, False)" for s Q q
    using wake_one_rep[of s Q q] by simp
  show "wait_rep s Q \<Longrightarrow> Q q = t # ts \<Longrightarrow>
      \<exists>s'. wait_queue_wake_one q s = (s', True) \<and> wait_rep s' (Q(q := ts)) \<and> woke {t} s s'" for s Q q t ts
    using wake_one_rep[of s Q q] by simp
  show "wait_rep s Q \<Longrightarrow>
      \<exists>s'. wait_queue_wake_all q s = Some s' \<and> wait_rep s' (Q(q := [])) \<and> woke (set (Q q)) s s'" for s Q q
    using wake_all_rep[of s Q q] by metis
  show "woke {} s s" for s by (simp add: woke_def)
  show "woke T s s' \<Longrightarrow> woke T' s' s'' \<Longrightarrow> woke (T \<union> T') s s''" for T T' s s' s''
    by (rule woke_compose)
qed

text \<open>
  C23: The wait queue operations on head, tail and link pointers implement lists.  A thread that
  prepares to wait is appended to its queue, or, when its timer cannot be armed, is in no queue and runs on with
  \<^verbatim>\<open>WAIT_TIMEOUT\<close>; waking one takes the first thread, makes it ready with \<^verbatim>\<open>WAIT_OK\<close> and
  stops its timer; waking all empties the queue and does the same to every thread of
  it; an expiring timer removes exactly its thread.  All walks end, and other threads are not touched.
\<close>
theorem wait_queue_refines:
  assumes "wait_rep s Q"
  shows "(blocked_on_of s t = None \<longrightarrow>
      (if ms > 0 \<and> \<not> arm_ok
       then \<exists>s'. wait_prepare q t ms arm_ok s = Some s' \<and> wait_rep s' Q \<and>
         changed t (\<lambda>r. r\<lparr>t_state := THREAD_RUNNING, t_wait_result := WAIT_TIMEOUT\<rparr>) s s'
       else \<exists>s'. wait_prepare q t ms arm_ok s = Some s' \<and> wait_rep s' (Q(q := Q q @ [t])) \<and>
         changed t (\<lambda>r. r\<lparr>t_state := THREAD_BLOCKED, t_wait_result := WAIT_OK,
                          t_sleep_armed := (ms > 0 \<or> t_sleep_armed r)\<rparr>) s s')) \<and>
    (case Q q of
           [] \<Rightarrow> wait_queue_wake_one q s = (s, False)
         | u # us \<Rightarrow> \<exists>s'. wait_queue_wake_one q s = (s', True) \<and> wait_rep s' (Q(q := us)) \<and> woke {u} s s') \<and>
    (\<exists>s'. wait_queue_wake_all q s = Some s' \<and> wait_rep s' (Q(q := [])) \<and> woke (set (Q q)) s s') \<and>
    (\<exists>s'. scheduler_sleep_timer_fire t s = Some s' \<and> wait_rep s' (\<lambda>p. remove1 t (Q p)) \<and>
         changed t (\<lambda>r. r\<lparr>t_sleep_armed := False,
            t_state := (if t_state r = THREAD_BLOCKED \<or> t_state r = THREAD_SLEEPING then THREAD_READY else t_state r),
            t_wait_result := (if blocked_on_of s t = None then t_wait_result r else WAIT_TIMEOUT)\<rparr>) s s')"
  apply (intro conjI impI)
  subgoal by (rule wait_prepare_rep[OF assms])
  subgoal by (rule wake_one_rep[OF assms])
  subgoal by (rule wq.wake_all_every[OF assms])
  subgoal by (rule timer_fire_rep[OF assms, of t]) blast
  done

definition idle_thread :: "nat \<Rightarrow> thread" where
  "idle_thread t = \<lparr>t_tid = int t, t_state = THREAD_RUNNING, t_priority = 1, t_base_priority = 1,
     t_sleep_armed = False, t_blocked_on = None, t_wq_next = None, t_wait_result = WAIT_OK,
     t_owned_mutexes = [], t_untracked_mutexes = 0, t_waiting_on_mutex = None, t_owner = 0,
     t_waiting_owner_tid = -1\<rparr>"

definition idle_state :: kstate where
  "idle_state = \<lparr>ks_threads = idle_thread, ks_queues = (\<lambda>_. \<lparr>wq_head = None, wq_tail = None\<rparr>)\<rparr>"

lemma idle_state_rep: "wait_rep idle_state (\<lambda>_. [])"
  by (simp add: wait_rep_def idle_state_def idle_thread_def)

theorem wait_queue_refines_witness:
  "\<exists>s'. wait_prepare 7 1 0 True idle_state = Some s' \<and> wait_rep s' ((\<lambda>_. [])(7 := [] @ [1])) \<and>
     changed 1 (\<lambda>r. r\<lparr>t_state := THREAD_BLOCKED, t_wait_result := WAIT_OK,
                      t_sleep_armed := ((0::u32) > 0 \<or> t_sleep_armed r)\<rparr>) idle_state s'"
proof -
  have "blocked_on_of idle_state 1 = None" by (simp add: idle_state_def idle_thread_def)
  then show ?thesis using wait_queue_refines[OF idle_state_rep, of 1 0 True 7] by simp
qed

subsection \<open>A waker between its steps\<close>

text \<open>
  \<^verbatim>\<open>wait_queue_wake_all\<close> takes the chain off the queue under the lock and then walks it without the
  lock.  Here one such waker, with its local pointer, is interleaved with threads that are
  dispatched, prepare to wait, cancel a wait they prepared, are woken one by one, or whose sleep timer
  expires.  A detached thread is blocked and in no queue: the waker has not reached it yet.
  With the flag set, no timer expires for a detached thread and no detached thread
  cancels.
\<close>

record waking =
  wk_k :: kstate
  wk_chain :: "tptr option"

definition detached :: "kstate \<Rightarrow> tptr \<Rightarrow> bool" where
  "detached k t \<longleftrightarrow> state_of k t = THREAD_BLOCKED \<and> blocked_on_of k t = None"

inductive wk_step :: "bool \<Rightarrow> waking \<Rightarrow> waking \<Rightarrow> bool" for calm where
  wk_detach: "wk_chain w = None \<Longrightarrow> wake_all_detach q (wk_k w) = Some (k, c) \<Longrightarrow>
    wk_step calm w \<lparr>wk_k = k, wk_chain = c\<rparr>"
| wk_advance: "wk_chain w = Some t \<Longrightarrow> wake_chain_one t (wk_k w) = (k, c) \<Longrightarrow>
    wk_step calm w \<lparr>wk_k = k, wk_chain = c\<rparr>"
| wk_wake_one: "wait_queue_wake_one q (wk_k w) = (k, b) \<Longrightarrow> wk_step calm w (w\<lparr>wk_k := k\<rparr>)"
| wk_dispatch: "state_of (wk_k w) t = THREAD_READY \<Longrightarrow>
    wk_step calm w (w\<lparr>wk_k := upd_thread t (\<lambda>r. r\<lparr>t_state := THREAD_RUNNING\<rparr>) (wk_k w)\<rparr>)"
| wk_prepare: "state_of (wk_k w) t = THREAD_RUNNING \<Longrightarrow> wait_prepare q t ms arm_ok (wk_k w) = Some k \<Longrightarrow>
    wk_step calm w (w\<lparr>wk_k := k\<rparr>)"
| wk_cancel: "state_of (wk_k w) t = THREAD_BLOCKED \<Longrightarrow> (calm \<longrightarrow> \<not> detached (wk_k w) t) \<Longrightarrow>
    wait_cancel t (wk_k w) = Some (k, b) \<Longrightarrow> wk_step calm w (w\<lparr>wk_k := k\<rparr>)"
| wk_fire: "t_sleep_armed (ks_threads (wk_k w) t) \<Longrightarrow> (calm \<longrightarrow> \<not> detached (wk_k w) t) \<Longrightarrow>
    scheduler_sleep_timer_fire t (wk_k w) = Some k \<Longrightarrow> wk_step calm w (w\<lparr>wk_k := k\<rparr>)"

definition wk_start :: waking where
  "wk_start = \<lparr>wk_k = idle_state, wk_chain = None\<rparr>"

definition wk_reach :: "bool \<Rightarrow> waking \<Rightarrow> bool" where
  "wk_reach calm w \<longleftrightarrow> (wk_step calm)\<^sup>*\<^sup>* wk_start w"

text \<open>
  The invariant of the calm interleavings: the waker's chain consists of the detached threads, and
  threads in queues are blocked.
\<close>

definition wk_inv :: "waking \<Rightarrow> bool" where
  "wk_inv w \<longleftrightarrow> (\<exists>Q xs. wait_rep (wk_k w) Q \<and> is_chain (next_of (wk_k w)) (wk_chain w) xs \<and> distinct xs \<and>
     (\<forall>t. t \<in> set xs \<longleftrightarrow> detached (wk_k w) t) \<and>
     (\<forall>t. blocked_on_of (wk_k w) t \<noteq> None \<longrightarrow> state_of (wk_k w) t = THREAD_BLOCKED))"

lemma unlink_loop_links:
  assumes "is_chain (next_of s) cur bs" "\<And>p. prev = Some p \<Longrightarrow> u \<noteq> p" "u \<notin> set bs"
    "unlink_loop q t prev cur s = Some s'"
  shows "next_of s' u = next_of s u"
  using assms
proof (induction bs arbitrary: prev cur)
  case Nil
  then show ?case by (subst (asm) unlink_loop.simps) simp
next
  case (Cons b bs)
  show ?case
  proof (cases "b = t")
    case True
    then show ?thesis
      using Cons.prems by (subst (asm) unlink_loop.simps) (auto simp: unlink_at_def Let_def split: option.splits)
  next
    case False
    then have "unlink_loop q t (Some b) (next_of s b) s = Some s'"
      using Cons.prems by (subst (asm) unlink_loop.simps) simp
    then show ?thesis using Cons.IH[of "next_of s b" "Some b"] Cons.prems by auto
  qed
qed

lemma remove_thread_links:
  assumes "wait_rep s Q" "wait_queue_remove_thread b (Some t) s = Some s'" "\<And>q. u \<notin> set (Q q)"
  shows "next_of s' u = next_of s u"
  using assms(2) unlink_loop_links[OF wait_repD(1)[OF assms(1)], of None u] assms(3)
  by (cases b) (auto simp: wait_queue_remove_thread_def unlink_locked_def)

lemma wait_prepare_links:
  assumes "wait_rep s Q" "blocked_on_of s t = None" "wait_prepare q t ms arm_ok s = Some s'"
    "\<And>q. u \<notin> set (Q q)" "u \<noteq> t"
  shows "next_of s' u = next_of s u"
proof -
  let ?s1 = "upd_thread t (\<lambda>r. r\<lparr>t_wait_result := WAIT_OK, t_state := THREAD_BLOCKED\<rparr>) (enqueue_tail q t s)"
  have "end_of (Q q) \<noteq> Some u" using end_of_in assms(4) by blast
  then have e: "next_of ?s1 u = next_of s u"
    using wait_repD(3)[OF assms(1), of q] assms(5)
    by (auto simp: enqueue_tail_def Let_def split: option.splits)
  show ?thesis
  proof (cases "ms > 0 \<and> \<not> arm_ok")
    case True
    have r: "wait_rep ?s1 (Q(q := Q q @ [t]))"
      by (rule upd_thread_rep[OF enqueue_tail_rep[OF assms(1,2)]]) simp_all
    obtain s2 where s2: "unlink_locked q t ?s1 = Some s2"
      "s' = upd_thread t (\<lambda>r. r\<lparr>t_state := THREAD_RUNNING, t_wait_result := WAIT_TIMEOUT\<rparr>) s2"
      using assms(3) True by (auto simp: wait_prepare_def Let_def split: option.splits Option.bind_splits)
    have "u \<notin> set ((Q(q := Q q @ [t])) p)" for p using assms(4,5) by simp
    then have "next_of s2 u = next_of ?s1 u"
      using remove_thread_links[OF r, of "Some q" t s2 u] s2(1) by (simp add: wait_queue_remove_thread_def)
    then show ?thesis using e s2(2) assms(5) by simp
  next
    case False
    then show ?thesis using assms(3,5) e by (auto simp: wait_prepare_def Let_def split: if_splits)
  qed
qed

lemma wake_one_links:
  assumes "wait_rep s Q" "wait_queue_wake_one q s = (s', b)" "\<And>q. u \<notin> set (Q q)"
  shows "next_of s' u = next_of s u"
proof -
  have "wq_head (ks_queues s q) \<noteq> Some u"
    using wait_rep_head[OF assms(1), of q] assms(3)[of q] by (auto split: list.splits)
  then show ?thesis
    using assms(2)
    by (auto simp: wait_queue_wake_one_def dequeue_head_def Let_def scheduler_unblock_thread split: option.splits)
qed

lemma wait_cancel_links:
  assumes "wait_rep s Q" "wait_cancel t s = Some (s', b)" "\<And>q. u \<notin> set (Q q)"
  shows "next_of s' u = next_of s u"
proof -
  obtain s2 where s2: "wait_queue_remove_thread (blocked_on_of (timer_cancel_sleep t s) t) (Some t) (timer_cancel_sleep t s) = Some s2"
    "next_of s' u = next_of s2 u"
    using assms(2) by (auto simp: wait_cancel_def Let_def split: Option.bind_splits if_splits)
  then show ?thesis
    using remove_thread_links[OF timer_cancel_rep[OF assms(1)] s2(1) assms(3)]
    by (simp add: timer_cancel_sleep_def)
qed

lemma timer_fire_links:
  assumes "wait_rep s Q" "scheduler_sleep_timer_fire t s = Some s'" "\<And>q. u \<notin> set (Q q)"
  shows "next_of s' u = next_of s u"
  using assms(2) remove_thread_links[OF assms(1) _ assms(3)]
  by (auto simp: scheduler_sleep_timer_fire_def scheduler_unblock_thread split: Option.bind_splits if_splits)

lemma changed_state:
  assumes "changed t f s s'"
  shows "state_of s' t = t_state (f (ks_threads s t))" "u \<noteq> t \<Longrightarrow> state_of s' u = state_of s u"
    "u \<noteq> t \<Longrightarrow> t_sleep_armed (ks_threads s' u) = t_sleep_armed (ks_threads s u)"
  using assms unfolding changed_def by (metis strip_simps(1,5))+

lemma woke_state:
  assumes "woke T s s'"
  shows "state_of s' u = (if u \<in> T \<and> (state_of s u = THREAD_BLOCKED \<or> state_of s u = THREAD_SLEEPING)
                          then THREAD_READY else state_of s u)"
proof -
  have "t_state (strip (ks_threads s' u)) = t_state (strip (if u \<in> T then woken (ks_threads s u) else ks_threads s u))"
    using assms unfolding woke_def by metis
  then show ?thesis by (simp add: woken_def)
qed

lemma wait_rep_none: "wait_rep s Q \<Longrightarrow> blocked_on_of s u = None \<longleftrightarrow> (\<forall>q. u \<notin> set (Q q))"
  using wait_repD(4)[of s Q u] by (metis not_None_eq)

lemma wk_inv_keep:
  assumes "wait_rep k' Q'" "is_chain (next_of k) c xs" "distinct xs"
    "\<And>u. u \<in> set xs \<Longrightarrow> next_of k' u = next_of k u" "\<And>u. detached k' u \<longleftrightarrow> u \<in> set xs"
    "\<And>u. blocked_on_of k' u \<noteq> None \<Longrightarrow> state_of k' u = THREAD_BLOCKED" "wk_k w = k'" "wk_chain w = c"
  shows "wk_inv w"
  unfolding wk_inv_def
  using assms is_chain_frame[OF assms(2), of "next_of k'"] by blast

lemma wk_inv_wake_one:
  assumes "wk_inv w" "wait_queue_wake_one q (wk_k w) = (k, b)"
  shows "wk_inv (w\<lparr>wk_k := k\<rparr>)"
proof -
  obtain Q xs where I: "wait_rep (wk_k w) Q" "is_chain (next_of (wk_k w)) (wk_chain w) xs" "distinct xs"
    "\<And>t. t \<in> set xs \<longleftrightarrow> detached (wk_k w) t"
    "\<And>t. blocked_on_of (wk_k w) t \<noteq> None \<Longrightarrow> state_of (wk_k w) t = THREAD_BLOCKED"
    using assms(1) unfolding wk_inv_def by blast
  show ?thesis
  proof (cases "Q q")
    case Nil
    then show ?thesis using assms wake_one_rep[OF I(1), of q] by simp
  next
    case (Cons t ts)
    then have k: "wait_rep k (Q(q := ts))" "woke {t} (wk_k w) k"
      using wake_one_rep[OF I(1), of q] assms(2) by auto
    have st: "blocked_on_of (wk_k w) t = Some q" using wait_repD(4)[OF I(1), of t q] Cons by simp
    have tb: "state_of (wk_k w) t = THREAD_BLOCKED" using I(5)[of t] st by simp
    have b: "blocked_on_of k u = None \<longleftrightarrow> u = t \<or> blocked_on_of (wk_k w) u = None" for u
    proof (cases "u = t")
      case True
      have "t \<notin> set ((Q(q := ts)) p)" for p
        using wait_repD(2)[OF I(1), of q] wait_rep_disjoint[OF I(1), of t q p] Cons by auto
      then have "blocked_on_of k t = None" unfolding wait_rep_none[OF k(1)] by (intro allI)
      then show ?thesis using True by simp
    next
      case False
      then show ?thesis
        unfolding wait_rep_none[OF k(1)] wait_rep_none[OF I(1)]
        using Cons by (metis fun_upd_apply set_ConsD list.set_intros(2))
    qed
    show ?thesis
    proof (rule wk_inv_keep[OF k(1) I(2,3)])
      fix u assume "u \<in> set xs"
      then have "\<And>p. u \<notin> set (Q p)" using I(4)[of u] wait_rep_none[OF I(1), of u] by (simp add: detached_def)
      then show "next_of k u = next_of (wk_k w) u" using wake_one_links[OF I(1) assms(2)] by blast
    next
      fix u
      show "detached k u \<longleftrightarrow> u \<in> set xs"
        using b[of u] woke_state[OF k(2), of u] I(4)[of u] tb st by (auto simp: detached_def)
      show "blocked_on_of k u \<noteq> None \<Longrightarrow> state_of k u = THREAD_BLOCKED"
        using b[of u] woke_state[OF k(2), of u] I(5)[of u] by auto
    qed simp_all
  qed
qed

lemma wk_inv_detach:
  assumes "wk_inv w" "wk_chain w = None" "wake_all_detach q (wk_k w) = Some (k, c)"
  shows "wk_inv \<lparr>wk_k = k, wk_chain = c\<rparr>"
proof -
  obtain Q xs where I: "wait_rep (wk_k w) Q" "is_chain (next_of (wk_k w)) (wk_chain w) xs"
    "\<And>t. t \<in> set xs \<longleftrightarrow> detached (wk_k w) t"
    "\<And>t. blocked_on_of (wk_k w) t \<noteq> None \<Longrightarrow> state_of (wk_k w) t = THREAD_BLOCKED"
    using assms(1) unfolding wk_inv_def by blast
  have none: "\<not> detached (wk_k w) t" for t using I(2,3) assms(2) by (cases xs) auto
  have k: "wait_rep k (Q(q := []))" "same_threads (wk_k w) k" "is_chain (next_of k) c (Q q)"
    using wake_all_detach_rep[OF I(1), of q] assms(3) by auto
  have b: "blocked_on_of k u = None \<longleftrightarrow> u \<in> set (Q q) \<or> blocked_on_of (wk_k w) u = None" for u
    unfolding wait_rep_none[OF k(1)] wait_rep_none[OF I(1)]
    using wait_rep_disjoint[OF I(1), of u q] by auto
  have st: "u \<in> set (Q q) \<Longrightarrow> state_of (wk_k w) u = THREAD_BLOCKED" for u
    using I(4)[of u] wait_repD(4)[OF I(1), of u q] by simp
  show ?thesis
  proof (rule wk_inv_keep[OF k(1,3)])
    show "distinct (Q q)" using wait_repD(2)[OF I(1)] .
    fix u
    show "detached k u \<longleftrightarrow> u \<in> set (Q q)"
      using b[of u] none[of u] st[of u] same_threadsD(1)[OF k(2), of u] by (auto simp: detached_def)
    show "blocked_on_of k u \<noteq> None \<Longrightarrow> state_of k u = THREAD_BLOCKED"
      using b[of u] I(4)[of u] same_threadsD(1)[OF k(2), of u] by auto
  qed simp_all
qed

lemma wk_inv_advance:
  assumes "wk_inv w" "wk_chain w = Some t" "wake_chain_one t (wk_k w) = (k, c)"
  shows "wk_inv \<lparr>wk_k = k, wk_chain = c\<rparr>"
proof -
  obtain Q xs where I: "wait_rep (wk_k w) Q" "is_chain (next_of (wk_k w)) (wk_chain w) xs" "distinct xs"
    "\<And>t. t \<in> set xs \<longleftrightarrow> detached (wk_k w) t"
    "\<And>t. blocked_on_of (wk_k w) t \<noteq> None \<Longrightarrow> state_of (wk_k w) t = THREAD_BLOCKED"
    using assms(1) unfolding wk_inv_def by blast
  obtain ys where xs: "xs = t # ys" using I(2) assms(2) by (cases xs) auto
  have c: "c = next_of (wk_k w) t" and q: "ks_queues k = ks_queues (wk_k w)"
    and th: "\<And>u. ks_threads k u = (if u = t then (woken (ks_threads (wk_k w) t))\<lparr>t_wq_next := None\<rparr> else ks_threads (wk_k w) u)"
    using wake_chain_one_facts[of t "wk_k w"] assms(3) by auto
  have dt: "detached (wk_k w) t" using I(4)[of t] xs by simp
  then have free: "t \<notin> set (Q p)" for p using wait_rep_none[OF I(1), of t] by (simp add: detached_def)
  have "wait_rep k Q"
    unfolding wait_rep_def
  proof (intro conjI allI)
    fix p u
    show "is_chain (next_of k) (wq_head (ks_queues k p)) (Q p)"
      unfolding q by (rule is_chain_frame[OF wait_repD(1)[OF I(1), of p]]) (use th free[of p] in auto)
    show "distinct (Q p)" "wq_tail (ks_queues k p) = end_of (Q p)" using wait_repD[OF I(1), of p] q by simp_all
    show "(blocked_on_of k u = Some p) = (u \<in> set (Q p))" using wait_repD(4)[OF I(1), of u p] th[of u] by (cases "u = t") (simp_all add: woken_def)
  qed
  moreover have "is_chain (next_of (wk_k w)) c ys" using I(2) xs c by simp
  moreover have "u \<in> set ys \<Longrightarrow> next_of k u = next_of (wk_k w) u" for u using th I(3) xs by auto
  moreover have "detached k u \<longleftrightarrow> u \<in> set ys" for u
    using I(3) I(4)[of u] th[of u] xs dt by (auto simp: detached_def woken_def)
  moreover have "blocked_on_of k u \<noteq> None \<Longrightarrow> state_of k u = THREAD_BLOCKED" for u
    using I(5)[of u] th[of u] dt by (auto simp: detached_def woken_def)
  ultimately show ?thesis using I(3) xs by (intro wk_inv_keep[where k = "wk_k w" and c = c and xs = ys]) auto
qed

lemma wk_inv_prepare:
  assumes "wk_inv w" "state_of (wk_k w) t = THREAD_RUNNING" "wait_prepare q t ms arm_ok (wk_k w) = Some k"
  shows "wk_inv (w\<lparr>wk_k := k\<rparr>)"
proof -
  obtain Q xs where I: "wait_rep (wk_k w) Q" "is_chain (next_of (wk_k w)) (wk_chain w) xs" "distinct xs"
    "\<And>t. t \<in> set xs \<longleftrightarrow> detached (wk_k w) t"
    "\<And>t. blocked_on_of (wk_k w) t \<noteq> None \<Longrightarrow> state_of (wk_k w) t = THREAD_BLOCKED"
    using assms(1) unfolding wk_inv_def by blast
  have free: "blocked_on_of (wk_k w) t = None" using I(5)[of t] assms(2) by (cases "blocked_on_of (wk_k w) t") auto
  define Q' where "Q' = (if ms > 0 \<and> \<not> arm_ok then Q else Q(q := Q q @ [t]))"
  define f where "f = (if ms > 0 \<and> \<not> arm_ok then (\<lambda>r :: thread. r\<lparr>t_state := THREAD_RUNNING, t_wait_result := WAIT_TIMEOUT\<rparr>)
    else (\<lambda>r. r\<lparr>t_state := THREAD_BLOCKED, t_wait_result := WAIT_OK, t_sleep_armed := (ms > 0 \<or> t_sleep_armed r)\<rparr>))"
  have k: "wait_rep k Q'" "changed t f (wk_k w) k"
    using wait_prepare_rep[OF I(1) free, of ms arm_ok q] assms(3) by (auto simp: Q'_def f_def split: if_splits)
  have st: "state_of k t = (if ms > 0 \<and> \<not> arm_ok then THREAD_RUNNING else THREAD_BLOCKED)"
    using changed_state(1)[OF k(2)] by (simp add: f_def)
  have b: "blocked_on_of k u = None \<longleftrightarrow> blocked_on_of (wk_k w) u = None" if "u \<noteq> t" for u
    unfolding wait_rep_none[OF k(1)] wait_rep_none[OF I(1)] using that by (auto simp: Q'_def split: if_splits)
  have bt: "blocked_on_of k t = None \<longleftrightarrow> ms > 0 \<and> \<not> arm_ok"
    unfolding wait_rep_none[OF k(1)] using free wait_rep_none[OF I(1), of t] by (auto simp: Q'_def split: if_splits)
  have tx: "t \<notin> set xs" using I(4)[of t] assms(2) by (simp add: detached_def)
  show ?thesis
  proof (rule wk_inv_keep[OF k(1) I(2,3)])
    fix u assume u: "u \<in> set xs"
    then have "\<And>p. u \<notin> set (Q p)" using I(4)[of u] wait_rep_none[OF I(1), of u] by (simp add: detached_def)
    then show "next_of k u = next_of (wk_k w) u" using wait_prepare_links[OF I(1) free assms(3)] u tx by metis
  next
    fix u
    show "detached k u \<longleftrightarrow> u \<in> set xs"
      using b[of u] bt st tx I(4)[of u] changed_state(2)[OF k(2), of u] by (cases "u = t") (auto simp: detached_def)
    show "blocked_on_of k u \<noteq> None \<Longrightarrow> state_of k u = THREAD_BLOCKED"
      using b[of u] bt st I(5)[of u] changed_state(2)[OF k(2), of u] by (cases "u = t") auto
  qed simp_all
qed

text \<open>The common part of a cancelled wait and of an expiring timer: a thread that is not detached leaves its queue.\<close>

lemma wk_inv_leave:
  assumes "wk_inv w" "\<not> detached (wk_k w) t"
    and rep: "\<And>Q. wait_rep (wk_k w) Q \<Longrightarrow> wait_rep k (\<lambda>p. remove1 t (Q p))"
    and links: "\<And>Q u. wait_rep (wk_k w) Q \<Longrightarrow> (\<And>p. u \<notin> set (Q p)) \<Longrightarrow> next_of k u = next_of (wk_k w) u"
    and ch: "changed t f (wk_k w) k" and fb: "t_state (f (ks_threads (wk_k w) t)) \<noteq> THREAD_BLOCKED"
  shows "wk_inv (w\<lparr>wk_k := k\<rparr>)"
proof -
  obtain Q xs where I: "wait_rep (wk_k w) Q" "is_chain (next_of (wk_k w)) (wk_chain w) xs" "distinct xs"
    "\<And>t. t \<in> set xs \<longleftrightarrow> detached (wk_k w) t"
    "\<And>t. blocked_on_of (wk_k w) t \<noteq> None \<Longrightarrow> state_of (wk_k w) t = THREAD_BLOCKED"
    using assms(1) unfolding wk_inv_def by blast
  note k = rep[OF I(1)]
  have b: "blocked_on_of k u = None \<longleftrightarrow> u = t \<or> blocked_on_of (wk_k w) u = None" for u
    unfolding wait_rep_none[OF k] wait_rep_none[OF I(1)] using wait_repD(2)[OF I(1)] by auto
  have st: "state_of k t \<noteq> THREAD_BLOCKED" using changed_state(1)[OF ch] fb by simp
  show ?thesis
  proof (rule wk_inv_keep[OF k I(2,3)])
    fix u assume "u \<in> set xs"
    then have "\<And>p. u \<notin> set (Q p)" using I(4)[of u] wait_rep_none[OF I(1), of u] by (simp add: detached_def)
    then show "next_of k u = next_of (wk_k w) u" using links[OF I(1)] by blast
  next
    fix u
    show "detached k u \<longleftrightarrow> u \<in> set xs"
      using b[of u] st assms(2) I(4)[of u] changed_state(2)[OF ch, of u] by (cases "u = t") (auto simp: detached_def)
    show "blocked_on_of k u \<noteq> None \<Longrightarrow> state_of k u = THREAD_BLOCKED"
      using b[of u] I(5)[of u] changed_state(2)[OF ch, of u] by auto
  qed simp_all
qed

lemma wk_inv_rep: "wk_inv w \<Longrightarrow> \<exists>Q. wait_rep (wk_k w) Q"
  unfolding wk_inv_def by blast

lemma wk_inv_cancel:
  assumes "wk_inv w" "\<not> detached (wk_k w) t" "wait_cancel t (wk_k w) = Some (k, b)"
  shows "wk_inv (w\<lparr>wk_k := k\<rparr>)"
proof -
  have ch: "changed t (\<lambda>r. r\<lparr>t_sleep_armed := False,
      t_state := (if t_state r = THREAD_BLOCKED then THREAD_RUNNING else t_state r)\<rparr>) (wk_k w) k"
    using wk_inv_rep[OF assms(1)] wait_cancel_rep[of "wk_k w" _ t] assms(3) by fastforce
  have rep: "wait_rep (wk_k w) Q \<Longrightarrow> wait_rep k (\<lambda>p. remove1 t (Q p))" for Q
    using wait_cancel_rep[of "wk_k w" Q t] assms(3) by fastforce
  show ?thesis
    by (rule wk_inv_leave[OF assms(1,2) rep _ ch]) (auto intro: wait_cancel_links[OF _ assms(3)])
qed

lemma wk_inv_fire:
  assumes "wk_inv w" "\<not> detached (wk_k w) t" "scheduler_sleep_timer_fire t (wk_k w) = Some k"
  shows "wk_inv (w\<lparr>wk_k := k\<rparr>)"
proof -
  have ch: "changed t (\<lambda>r. r\<lparr>t_sleep_armed := False,
        t_state := (if t_state r = THREAD_BLOCKED \<or> t_state r = THREAD_SLEEPING then THREAD_READY else t_state r),
        t_wait_result := (if blocked_on_of (wk_k w) t = None then t_wait_result r else WAIT_TIMEOUT)\<rparr>) (wk_k w) k"
    using wk_inv_rep[OF assms(1)] timer_fire_rep[of "wk_k w" _ t] assms(3) by fastforce
  have rep: "wait_rep (wk_k w) Q \<Longrightarrow> wait_rep k (\<lambda>p. remove1 t (Q p))" for Q
    using timer_fire_rep[of "wk_k w" Q t] assms(3) by fastforce
  show ?thesis
    by (rule wk_inv_leave[OF assms(1,2) rep _ ch]) (auto intro: timer_fire_links[OF _ assms(3)])
qed

lemma wk_inv_dispatch:
  assumes "wk_inv w" "state_of (wk_k w) t = THREAD_READY"
  shows "wk_inv (w\<lparr>wk_k := upd_thread t (\<lambda>r. r\<lparr>t_state := THREAD_RUNNING\<rparr>) (wk_k w)\<rparr>)"
proof -
  obtain Q xs where I: "wait_rep (wk_k w) Q" "is_chain (next_of (wk_k w)) (wk_chain w) xs" "distinct xs"
    "\<And>t. t \<in> set xs \<longleftrightarrow> detached (wk_k w) t"
    "\<And>t. blocked_on_of (wk_k w) t \<noteq> None \<Longrightarrow> state_of (wk_k w) t = THREAD_BLOCKED"
    using assms(1) unfolding wk_inv_def by blast
  show ?thesis
    by (rule wk_inv_keep[OF upd_thread_rep[OF I(1)] I(2,3)])
      (use I(4,5) assms(2) in \<open>auto simp: detached_def split: if_splits\<close>)
qed

lemma wk_inv_step: "wk_step True w w' \<Longrightarrow> wk_inv w \<Longrightarrow> wk_inv w'"
  by (induction rule: wk_step.induct)
    (simp_all add: wk_inv_detach wk_inv_advance wk_inv_wake_one wk_inv_dispatch wk_inv_prepare wk_inv_cancel wk_inv_fire)

lemma wk_inv_start: "wk_inv wk_start"
proof -
  have "\<not> detached idle_state t" for t by (simp add: detached_def idle_state_def idle_thread_def)
  then show ?thesis
    unfolding wk_inv_def wk_start_def
    by (intro exI[of _ "\<lambda>_. []"] exI[of _ "[]"]) (simp add: idle_state_rep, simp add: idle_state_def idle_thread_def)
qed

lemma wk_reach_inv: "wk_reach True w \<Longrightarrow> wk_inv w"
  unfolding wk_reach_def by (induction rule: rtranclp_induct) (auto simp: wk_inv_start intro: wk_inv_step)

text \<open>
  C24: While a waker walks the chain it took off a queue, with other threads preparing, cancelling,
  timing out and waking in between but none of the threads of the chain itself cancelling
  or timing out, the queues stay lists, a blocked thread is always in a queue or still ahead of
  the waker, and the rest of the walk ends and makes every thread ahead of it ready.
\<close>
theorem wake_all_complete:
  assumes "wk_reach True w"
  shows "\<exists>Q xs. wait_rep (wk_k w) Q \<and> is_chain (next_of (wk_k w)) (wk_chain w) xs \<and> distinct xs \<and>
    (\<forall>t. state_of (wk_k w) t = THREAD_BLOCKED \<longleftrightarrow> (\<exists>q. t \<in> set (Q q)) \<or> t \<in> set xs) \<and>
    (\<exists>k. wake_chain (wk_chain w) (wk_k w) = Some k \<and> (\<forall>t\<in>set xs. state_of k t = THREAD_READY))"
proof -
  obtain Q xs where I: "wait_rep (wk_k w) Q" "is_chain (next_of (wk_k w)) (wk_chain w) xs" "distinct xs"
    "\<And>t. t \<in> set xs \<longleftrightarrow> detached (wk_k w) t"
    "\<And>t. blocked_on_of (wk_k w) t \<noteq> None \<Longrightarrow> state_of (wk_k w) t = THREAD_BLOCKED"
    using wk_reach_inv[OF assms] unfolding wk_inv_def by blast
  have "state_of (wk_k w) t = THREAD_BLOCKED \<longleftrightarrow> (\<exists>q. t \<in> set (Q q)) \<or> t \<in> set xs" for t
    using I(4)[of t] I(5)[of t] wait_rep_none[OF I(1), of t] by (auto simp: detached_def)
  moreover have "\<exists>k. wake_chain (wk_chain w) (wk_k w) = Some k \<and> (\<forall>t\<in>set xs. state_of k t = THREAD_READY)"
    using wake_chain_chain[OF I(2,3)] I(4) by (auto simp: woken_def detached_def)
  ultimately show ?thesis using I(1-3) by blast
qed

declare clear_blocked.simps [code] wake_chain.simps [code] unlink_loop.simps [code]

datatype wk_act = Detach wqptr | Advance | Prepare tptr wqptr u32 bool | Cancel tptr | Fire tptr | Dispatch tptr

fun wk_exec :: "bool \<Rightarrow> wk_act \<Rightarrow> waking \<Rightarrow> waking option" where
  "wk_exec calm (Detach q) w =
     (if wk_chain w = None then map_option (\<lambda>(k, c). \<lparr>wk_k = k, wk_chain = c\<rparr>) (wake_all_detach q (wk_k w)) else None)"
| "wk_exec calm Advance w =
     map_option (\<lambda>t. case wake_chain_one t (wk_k w) of (k, c) \<Rightarrow> \<lparr>wk_k = k, wk_chain = c\<rparr>) (wk_chain w)"
| "wk_exec calm (Prepare t q ms ok) w =
     (if state_of (wk_k w) t = THREAD_RUNNING
      then map_option (\<lambda>k. w\<lparr>wk_k := k\<rparr>) (wait_prepare q t ms ok (wk_k w)) else None)"
| "wk_exec calm (Cancel t) w =
     (if state_of (wk_k w) t = THREAD_BLOCKED \<and> (calm \<longrightarrow> \<not> detached (wk_k w) t)
      then map_option (\<lambda>(k, b). w\<lparr>wk_k := k\<rparr>) (wait_cancel t (wk_k w)) else None)"
| "wk_exec calm (Fire t) w =
     (if t_sleep_armed (ks_threads (wk_k w) t) \<and> (calm \<longrightarrow> \<not> detached (wk_k w) t)
      then map_option (\<lambda>k. w\<lparr>wk_k := k\<rparr>) (scheduler_sleep_timer_fire t (wk_k w)) else None)"
| "wk_exec calm (Dispatch t) w =
     (if state_of (wk_k w) t = THREAD_READY
      then Some (w\<lparr>wk_k := upd_thread t (\<lambda>r. r\<lparr>t_state := THREAD_RUNNING\<rparr>) (wk_k w)\<rparr>) else None)"

fun wk_run :: "bool \<Rightarrow> wk_act list \<Rightarrow> waking \<Rightarrow> waking option" where
  "wk_run calm [] w = Some w"
| "wk_run calm (a # as) w = (case wk_exec calm a w of None \<Rightarrow> None | Some w' \<Rightarrow> wk_run calm as w')"

lemma wk_exec_step:
  assumes "wk_exec calm a w = Some w'"
  shows "wk_step calm w w'"
proof (cases "a = Advance")
  case True
  then obtain t where "wk_chain w = Some t" using assms by auto
  moreover obtain k c where "wake_chain_one t (wk_k w) = (k, c)" by fastforce
  ultimately show ?thesis using assms True wk_step.wk_advance by fastforce
next
  case False
  then show ?thesis
    using assms
    by (cases a) (auto split: if_splits prod.splits
       intro: wk_step.wk_detach wk_step.wk_prepare wk_step.wk_cancel wk_step.wk_fire wk_step.wk_dispatch)
qed

lemma wk_run_reach: "wk_run calm as w = Some w' \<Longrightarrow> (wk_step calm)\<^sup>*\<^sup>* w w'"
  by (induction as arbitrary: w) (auto split: option.splits intro: wk_exec_step converse_rtranclp_into_rtranclp)

theorem wake_all_complete_witness:
  "let w = the (wk_run True [Prepare 1 7 0 True, Prepare 2 7 0 True, Detach 7, Prepare 3 8 5 True, Advance] wk_start)
   in wk_reach True w \<and> wk_chain w = Some 2 \<and>
      (\<exists>Q xs. wait_rep (wk_k w) Q \<and> is_chain (next_of (wk_k w)) (wk_chain w) xs \<and> distinct xs \<and>
        (\<forall>t. state_of (wk_k w) t = THREAD_BLOCKED \<longleftrightarrow> (\<exists>q. t \<in> set (Q q)) \<or> t \<in> set xs) \<and>
        (\<exists>k. wake_chain (wk_chain w) (wk_k w) = Some k \<and> (\<forall>t\<in>set xs. state_of k t = THREAD_READY)))"
proof -
  let ?r = "wk_run True [Prepare 1 7 0 True, Prepare 2 7 0 True, Detach 7, Prepare 3 8 5 True, Advance] wk_start"
  have s: "?r \<noteq> None" "wk_chain (the ?r) = Some 2" by code_simp+
  have "?r = Some (the ?r)" using s(1) by (rule not_None_the)
  then have "wk_reach True (the ?r)" unfolding wk_reach_def by (rule wk_run_reach)
  then show ?thesis using wake_all_complete[of "the ?r"] s(2) unfolding Let_def by simp
qed

text \<open>
  \<^verbatim>\<open>wait_queue_wake_all\<close> can leave threads asleep.  A thread of the detached chain may
  cancel its wait (its predicate has come true, as in \<^verbatim>\<open>ipc_receive\<close>) or time out before the waker
  reaches it; it then runs, waits on another queue and so overwrites the link
  the waker is about to follow.  In both runs below the waker ends with thread 3 blocked, in no
  queue and without a timer, and it has made thread 2 ready although
  thread 2 is still linked in the queue it waits on.
\<close>
theorem wake_all_strands:
  "(\<exists>w. wk_reach False w \<and> wk_chain w = None \<and> state_of (wk_k w) 3 = THREAD_BLOCKED \<and>
       blocked_on_of (wk_k w) 3 = None \<and> \<not> t_sleep_armed (ks_threads (wk_k w) 3) \<and>
       state_of (wk_k w) 2 = THREAD_READY \<and> wq_head (ks_queues (wk_k w) 8) = Some 2) \<and>
   (\<exists>as w. Cancel 2 \<notin> set as \<and> wk_run False as wk_start = Some w \<and> wk_chain w = None \<and>
       state_of (wk_k w) 3 = THREAD_BLOCKED \<and> blocked_on_of (wk_k w) 3 = None \<and>
       \<not> t_sleep_armed (ks_threads (wk_k w) 3) \<and>
       state_of (wk_k w) 2 = THREAD_READY \<and> wq_head (ks_queues (wk_k w) 8) = Some 2)"
proof -
  let ?P = "\<lambda>w. wk_chain w = None \<and> state_of (wk_k w) 3 = THREAD_BLOCKED \<and>
       blocked_on_of (wk_k w) 3 = None \<and> \<not> t_sleep_armed (ks_threads (wk_k w) 3) \<and>
       state_of (wk_k w) 2 = THREAD_READY \<and> wq_head (ks_queues (wk_k w) 8) = Some 2"
  let ?as = "[Prepare 1 7 0 True, Prepare 2 7 0 True, Prepare 3 7 0 True, Detach 7, Advance, Cancel 2, Prepare 2 8 0 True, Advance]"
  let ?bs = "[Prepare 1 7 0 True, Prepare 2 7 5 True, Prepare 3 7 0 True, Detach 7, Advance, Fire 2, Dispatch 2, Prepare 2 8 0 True, Advance]"
  have a: "case wk_run False ?as wk_start of None \<Rightarrow> False | Some w \<Rightarrow> ?P w" by code_simp
  have b: "case wk_run False ?bs wk_start of None \<Rightarrow> False | Some w \<Rightarrow> ?P w" by code_simp
  obtain v where v: "wk_run False ?as wk_start = Some v" "?P v"
    using case_SomeD[OF a] by blast
  obtain w where w: "wk_run False ?bs wk_start = Some w" "?P w"
    using case_SomeD[OF b] by blast
  have "\<exists>w. wk_reach False w \<and> ?P w" using wk_run_reach[OF v(1)] v(2) unfolding wk_reach_def by blast
  moreover have "Cancel 2 \<notin> set ?bs" by simp
  then have "\<exists>as w. Cancel 2 \<notin> set as \<and> wk_run False as wk_start = Some w \<and> ?P w" using w by blast
  ultimately show ?thesis by (rule conjI)
qed

end
