(* ===== verification/Futex.thy ===== *)
theory Futex
  imports Wait "HOL-Library.Multiset"
begin

text \<open>
  The futexes of \<^verbatim>\<open>kernel/proc/futex.c\<close>: 128 wait queues, one chosen by a hash of the address space
  and the user address.  The queues are those at the addresses 0 to 127 of the store of \<^verbatim>\<open>Wait\<close>;
  reading the user's word (\<^verbatim>\<open>uaccess_get_u32\<close>) is an argument, None when it is not mapped.  A wait is split
  where the thread sleeps.  The theory shows the outcomes of a wait, and that the hashed queues implement the
  queues the code documents, keyed by address space and user address, as long as no two addresses in use in the process
  share a bucket; without that a wake-up can go to a thread that waits at another address (\<^verbatim>\<open>futex_wake_wrong_address\<close>).
\<close>

unbundle bit_operations_syntax

definition FUTEX_BUCKETS :: u32 where "FUTEX_BUCKETS = 128"

definition FUTEX_OK :: int where "FUTEX_OK = 0"
definition FUTEX_EAGAIN :: int where "FUTEX_EAGAIN = -1"
definition FUTEX_ETIMEDOUT :: int where "FUTEX_ETIMEDOUT = -2"
definition FUTEX_EFAULT :: int where "FUTEX_EFAULT = -3"

definition futex_init :: "kstate \<Rightarrow> kstate" where
  "futex_init s = fold (\<lambda>i. wait_queue_init (unat i)) (words_from 0 FUTEX_BUCKETS) s"

definition bucket_for :: "u32 \<Rightarrow> u32 \<Rightarrow> wqptr" where
  "bucket_for as uaddr =
     (let h = as XOR uaddr XOR drop_bit 13 uaddr;
          h = h * 2654435761
      in unat (h AND (FUTEX_BUCKETS - 1)))"

datatype futex_wait_out = Futex_done int | Futex_sleeps

definition futex_wait_begin ::
  "(u32 \<Rightarrow> u32 option) \<Rightarrow> tptr \<Rightarrow> u32 \<Rightarrow> u32 \<Rightarrow> u32 \<Rightarrow> bool \<Rightarrow> kstate \<Rightarrow> (kstate \<times> futex_wait_out) option" where
  "futex_wait_begin rd self uaddr val timeout_ms arm_ok s =
     (if uaddr AND 3 \<noteq> 0 then Some (s, Futex_done FUTEX_EFAULT)
      else let b = bucket_for (t_owner (ks_threads s self)) uaddr
      in case rd uaddr of
           None \<Rightarrow> Some (s, Futex_done FUTEX_EFAULT)
         | Some cur \<Rightarrow>
             if cur \<noteq> val then Some (s, Futex_done FUTEX_EAGAIN)
             else let s1 = upd_thread self (\<lambda>r. r\<lparr>t_wait_result := WAIT_OK, t_state := THREAD_BLOCKED\<rparr>)
                             (enqueue_tail b self s)
             in if timeout_ms > 0 \<and> \<not> arm_ok
                then do { s2 \<leftarrow> unlink_locked b self s1;
                          Some (upd_thread self (\<lambda>r. r\<lparr>t_state := THREAD_RUNNING\<rparr>) s2, Futex_done FUTEX_ETIMEDOUT) }
                else if timeout_ms > 0
                then Some (upd_thread self (\<lambda>r. r\<lparr>t_sleep_armed := True\<rparr>) s1, Futex_sleeps)
                else Some (s1, Futex_sleeps))"

definition futex_wait_end :: "tptr \<Rightarrow> kstate \<Rightarrow> kstate \<times> int" where
  "futex_wait_end self s =
     (let s1 = timer_cancel_sleep self s
      in (s1, if t_wait_result (ks_threads s1 self) = WAIT_TIMEOUT then FUTEX_ETIMEDOUT else FUTEX_OK))"

text \<open>The walk under the bucket's lock: threads of the process move to a chain of their own.\<close>

definition chain_append :: "tptr option \<Rightarrow> tptr \<Rightarrow> kstate \<Rightarrow> kstate" where
  "chain_append woken_tail c s =
     (case woken_tail of Some w \<Rightarrow> upd_thread w (\<lambda>r. r\<lparr>t_wq_next := Some c\<rparr>) s | None \<Rightarrow> s)"

partial_function (option) futex_collect ::
  "wqptr \<Rightarrow> u32 \<Rightarrow> u32 \<Rightarrow> tptr option \<Rightarrow> tptr option \<Rightarrow> tptr option \<Rightarrow> tptr option \<Rightarrow> u32 \<Rightarrow> kstate
     \<Rightarrow> (kstate \<times> tptr option \<times> u32) option" where
  "futex_collect b as cnt prev cur woken_head woken_tail nwoken s =
     (case cur of
        None \<Rightarrow> Some (s, woken_head, nwoken)
      | Some c \<Rightarrow>
          if \<not> nwoken < cnt then Some (s, woken_head, nwoken)
          else if t_owner (ks_threads s c) = as
          then futex_collect b as cnt prev (next_of s c)
                 (if woken_tail = None then Some c else woken_head) (Some c) (nwoken + 1)
                 (chain_append woken_tail c (unlink_at b prev c s))
          else futex_collect b as cnt (Some c) (next_of s c) woken_head woken_tail nwoken s)"

partial_function (option) futex_release :: "tptr option \<Rightarrow> kstate \<Rightarrow> kstate option" where
  "futex_release cur s =
     (case cur of
        None \<Rightarrow> Some s
      | Some t \<Rightarrow> futex_release (next_of s t) (scheduler_unblock t (upd_thread t (\<lambda>r. r\<lparr>t_wq_next := None\<rparr>) s)))"

definition futex_wake :: "tptr \<Rightarrow> u32 \<Rightarrow> u32 \<Rightarrow> kstate \<Rightarrow> (kstate \<times> u32) option" where
  "futex_wake self uaddr cnt s =
     (if uaddr AND 3 \<noteq> 0 then Some (s, 0)
      else let as = t_owner (ks_threads s self); b = bucket_for as uaddr
      in do { (s1, chain, nwoken) \<leftarrow> futex_collect b as cnt None (wq_head (ks_queues s b)) None None 0 s;
              s2 \<leftarrow> futex_release chain s1;
              Some (s2, nwoken) })"

declare futex_collect.simps [code] futex_release.simps [code]

subsection \<open>Which threads are nwoken\<close>

text \<open>The first threads of the process in the queue, as far as the count allows, and the others.\<close>

fun futex_split :: "(tptr \<Rightarrow> bool) \<Rightarrow> nat \<Rightarrow> tptr list \<Rightarrow> tptr list \<times> tptr list" where
  "futex_split P n [] = ([], [])"
| "futex_split P 0 xs = ([], xs)"
| "futex_split P (Suc n) (x # xs) =
     (if P x then (case futex_split P n xs of (a, b) \<Rightarrow> (x # a, b))
      else (case futex_split P (Suc n) xs of (a, b) \<Rightarrow> (a, x # b)))"

lemma futex_split_0 [simp]: "futex_split P 0 xs = ([], xs)"
  by (cases xs) simp_all

lemma futex_split_taken: "fst (futex_split P n xs) = take n (filter P xs)"
  by (induction P n xs rule: futex_split.induct) (auto split: prod.splits)

lemma futex_split_mset: "mset (fst (futex_split P n xs)) + mset (snd (futex_split P n xs)) = mset xs"
  by (induction P n xs rule: futex_split.induct) (auto split: prod.splits)

lemma futex_split_set: "set (fst (futex_split P n xs)) \<union> set (snd (futex_split P n xs)) = set xs"
  using futex_split_mset[of P n xs] by (metis mset_append set_append set_mset_mset)

lemma futex_split_others: "filter (\<lambda>t. \<not> P t) (snd (futex_split P n xs)) = filter (\<lambda>t. \<not> P t) xs"
  by (induction P n xs rule: futex_split.induct) (auto split: prod.splits)

lemma wait_rep_free_link:
  assumes "wait_rep s Q" "\<And>q. u \<notin> set (Q q)"
  shows "wait_rep (upd_thread u (\<lambda>r. r\<lparr>t_wq_next := n\<rparr>) s) Q"
proof -
  have "is_chain (next_of (upd_thread u (\<lambda>r. r\<lparr>t_wq_next := n\<rparr>) s)) (wq_head (ks_queues s q)) (Q q)" for q
    by (rule is_chain_frame[OF wait_repD(1)[OF assms(1)]]) (use assms(2) in auto)
  then show ?thesis using wait_repD[OF assms(1)] by (auto simp: wait_rep_def)
qed

lemma futex_collect_rep:
  assumes "wait_rep s (Q(b := kept @ rem))" "is_chain (next_of s) cur rem" "prev = end_of kept"
    and "is_chain (next_of s) wh ws" "wt = end_of ws" "distinct ws"
    and "\<And>u q. u \<in> set ws \<Longrightarrow> u \<notin> set ((Q(b := kept @ rem)) q)"
    and "unat n + k = unat cnt" "futex_split (\<lambda>t. t_owner (ks_threads s t) = as) k rem = (ts, rest)"
  shows "\<exists>s' wh'. futex_collect b as cnt prev cur wh wt n s = Some (s', wh', n + of_nat (length ts)) \<and>
     wait_rep s' (Q(b := kept @ rest)) \<and> same_threads s s' \<and>
     is_chain (next_of s') wh' (ws @ ts) \<and> distinct (ws @ ts)"
  using assms
proof (induction rem arbitrary: kept cur prev wh wt ws n k s ts rest)
  case Nil
  then show ?case by (subst futex_collect.simps) (simp del: fun_upd_apply)
next
  case (Cons c rem)
  note R = Cons.prems(1)
  have cur: "cur = Some c" and chn: "is_chain (next_of s) (next_of s c) rem" using Cons.prems(2) by simp_all
  have dist: "distinct (kept @ c # rem)" using wait_repD(2)[OF R, of b] by simp
  show ?case
  proof (cases "n < cnt")
    case False
    then have "k = 0" using Cons.prems(8) by (simp add: word_less_nat_alt)
    then show ?thesis using False cur Cons.prems by (subst futex_collect.simps) (simp del: fun_upd_apply)
  next
    case True
    then obtain k' where k: "k = Suc k'" using Cons.prems(8) by (cases k) (auto simp: word_less_nat_alt)
    show ?thesis
    proof (cases "t_owner (ks_threads s c) = as")
      case False
      then obtain rest' where rest: "rest = c # rest'"
        "futex_split (\<lambda>t. t_owner (ks_threads s t) = as) k rem = (ts, rest')"
        using Cons.prems(9) k by (auto split: prod.splits)
      have "\<exists>s' wh'. futex_collect b as cnt (Some c) (next_of s c) wh wt n s = Some (s', wh', n + of_nat (length ts)) \<and>
          wait_rep s' (Q(b := (kept @ [c]) @ rest')) \<and> same_threads s s' \<and>
          is_chain (next_of s') wh' (ws @ ts) \<and> distinct (ws @ ts)"
        by (rule Cons.IH[where k = k]) (use Cons.prems rest chn in auto)
      then show ?thesis using cur True False rest by (subst futex_collect.simps) (simp del: fun_upd_apply)
    next
      case own: True
      then obtain ts' where ts: "ts = c # ts'"
        "futex_split (\<lambda>t. t_owner (ks_threads s t) = as) k' rem = (ts', rest)"
        using Cons.prems(9) k by (auto split: prod.splits)
      let ?u = "unlink_at b prev c s"
      let ?s = "chain_append wt c ?u"
      have ru: "wait_rep ?u (Q(b := kept @ rem))"
        using unlink_at_rep[OF R, of b kept c rem prev] Cons.prems(3) by (simp del: fun_upd_apply) simp
      have cws: "c \<notin> set ws" using Cons.prems(7)[of c b] by auto
      have free: "u \<in> set ws \<union> {c} \<Longrightarrow> u \<notin> set ((Q(b := kept @ rem)) q)" for u q
        using Cons.prems(7)[of u q] dist wait_rep_disjoint[OF R, of c b q] by (auto split: if_splits)
      have rs: "wait_rep ?s (Q(b := kept @ rem))"
        using ru wait_rep_free_link[OF ru, of _ "Some c"] free end_of_in[of ws] Cons.prems(5)
        by (auto simp: chain_append_def simp del: fun_upd_apply split: option.splits)
      have same: "same_threads s ?s"
        using unlink_at_same[of s b prev c] by (auto simp: chain_append_def same_threads_def split: option.splits)
      have linkw: "u \<in> set ws \<Longrightarrow> next_of ?u u = next_of s u" for u
        using Cons.prems(3) Cons.prems(7)[of u b] cws end_of_in[of kept]
        by (auto simp: unlink_at_def Let_def split: option.splits)
      have un: "next_of ?u c = None" by (simp add: unlink_at_def Let_def)
      have ch': "is_chain (next_of ?s) (if wt = None then Some c else wh) (ws @ [c])"
      proof -
        have "is_chain (next_of ?s) (if ws = [] then Some c else wh) (ws @ [c])"
          by (rule is_chain_snoc[OF Cons.prems(4)])
            (use Cons.prems(5,6) cws linkw un end_of_in[of ws] in \<open>auto simp: chain_append_def split: option.splits\<close>)
        then show ?thesis using Cons.prems(5) by simp
      qed
      have cr: "is_chain (next_of ?s) (next_of s c) rem"
      proof (rule is_chain_frame[OF chn])
        fix u assume u: "u \<in> set rem"
        then have "u \<notin> set ws" "u \<noteq> c" "end_of kept \<noteq> Some u"
          using Cons.prems(7)[of u b] dist end_of_in[of kept u] by auto
        then show "next_of ?s u = next_of s u"
          using Cons.prems(3,5) end_of_in[of ws] by (auto simp: chain_append_def unlink_at_def Let_def split: option.splits)
      qed
      have ow: "(\<lambda>t. t_owner (ks_threads ?s t) = as) = (\<lambda>t. t_owner (ks_threads s t) = as)"
        using same_threadsD(4)[OF same] by simp
      have un1: "unat (n + 1) + k' = unat cnt"
        using Cons.prems(8) k unat_Suc_u32[OF True] by simp
      have "\<exists>s' wh'. futex_collect b as cnt prev (next_of s c) (if wt = None then Some c else wh) (Some c) (n + 1) ?s
            = Some (s', wh', (n + 1) + of_nat (length ts')) \<and>
          wait_rep s' (Q(b := kept @ rest)) \<and> same_threads ?s s' \<and>
          is_chain (next_of s') wh' ((ws @ [c]) @ ts') \<and> distinct ((ws @ [c]) @ ts')"
        by (rule Cons.IH[OF rs cr Cons.prems(3) ch' _ _ _ un1])
          (use Cons.prems(6) cws free ts(2) ow in auto)
      then show ?thesis
        using cur True own ts(1) same_threads_trans[OF same] by (subst futex_collect.simps) (auto simp: add.assoc simp del: fun_upd_apply)
    qed
  qed
qed

lemma futex_split_rest:
  "distinct xs \<Longrightarrow> snd (futex_split P n xs) = filter (\<lambda>t. t \<notin> set (take n (filter P xs))) xs"
proof (induction P n xs rule: futex_split.induct)
  case (3 P n x xs)
  show ?case
  proof (cases "P x")
    case True
    then show ?thesis using 3 by (auto simp: case_prod_beta intro!: filter_cong)
  next
    case False
    then have "x \<notin> set (take (Suc n) (filter P xs))" using 3(3) by (meson distinct.simps(2) filter_is_subset in_set_takeD subsetD)
    then show ?thesis using 3 False by (simp add: case_prod_beta)
  qed
qed simp_all

definition released :: "thread \<Rightarrow> thread" where
  "released r = r\<lparr>t_sleep_armed := False,
     t_state := (if t_state r = THREAD_BLOCKED \<or> t_state r = THREAD_SLEEPING then THREAD_READY else t_state r)\<rparr>"

lemma released_fields [simp]: "t_owner (released r) = t_owner r"
  "t_state r = THREAD_BLOCKED \<Longrightarrow> t_state (released r) = THREAD_READY"
  by (simp_all add: released_def)

lemma released_strip: "strip (released r) = released (strip r)"
  by (simp add: released_def strip_def)

lemma futex_release_chain:
  assumes "is_chain (next_of s) cur xs" "distinct xs"
  shows "\<exists>s'. futex_release cur s = Some s' \<and> ks_queues s' = ks_queues s \<and>
    (\<forall>t. ks_threads s' t = (if t \<in> set xs then (released (ks_threads s t))\<lparr>t_wq_next := None\<rparr> else ks_threads s t))"
  using assms
proof (induction xs arbitrary: cur s)
  case Nil
  then show ?case by (subst futex_release.simps) simp
next
  case (Cons t ts)
  let ?s = "scheduler_unblock t (upd_thread t (\<lambda>r. r\<lparr>t_wq_next := None\<rparr>) s)"
  have th: "ks_threads ?s u = (if u = t then (released (ks_threads s t))\<lparr>t_wq_next := None\<rparr> else ks_threads s u)" for u
    by (simp add: scheduler_unblock_thread released_def)
  have "is_chain (next_of ?s) (next_of s t) ts"
    by (rule is_chain_frame[of "next_of s"]) (use Cons.prems th in auto)
  then obtain s' where s': "futex_release (next_of s t) ?s = Some s'" "ks_queues s' = ks_queues ?s"
    "\<forall>u. ks_threads s' u = (if u \<in> set ts then (released (ks_threads ?s u))\<lparr>t_wq_next := None\<rparr> else ks_threads ?s u)"
    using Cons by (metis distinct.simps(2))
  have "futex_release cur s = futex_release (next_of s t) ?s"
    using Cons.prems by (subst futex_release.simps) simp
  then show ?case using s' Cons.prems th by auto
qed

lemma wait_rep_unqueued:
  assumes "wait_rep s Q" "ks_queues s' = ks_queues s"
    and "\<And>t. blocked_on_of s' t = blocked_on_of s t" "\<And>t q. t \<in> set (Q q) \<Longrightarrow> next_of s' t = next_of s t"
  shows "wait_rep s' Q"
proof -
  have "is_chain (next_of s') (wq_head (ks_queues s q)) (Q q)" for q
    by (rule is_chain_frame[OF wait_repD(1)[OF assms(1)]]) (use assms(4) in auto)
  then show ?thesis using assms(2,3) wait_repD[OF assms(1)] by (simp add: wait_rep_def)
qed

lemma futex_wake_facts:
  fixes s :: kstate and self :: tptr and cnt :: u32
  assumes "wait_rep s Q" "uaddr AND 3 = 0"
  defines "as \<equiv> t_owner (ks_threads s self)"
  defines "b \<equiv> bucket_for as uaddr"
  defines "ws \<equiv> take (unat cnt) (filter (\<lambda>t. t_owner (ks_threads s t) = as) (Q b))"
  shows "\<exists>s'. futex_wake self uaddr cnt s = Some (s', of_nat (length ws)) \<and>
    wait_rep s' (Q(b := filter (\<lambda>t. t \<notin> set ws) (Q b))) \<and>
    (\<forall>t. strip (ks_threads s' t) = strip (if t \<in> set ws then released (ks_threads s t) else ks_threads s t))"
proof -
  let ?P = "\<lambda>t. t_owner (ks_threads s t) = as"
  have d: "distinct (Q b)" using wait_repD(2)[OF assms(1)] .
  have sp: "futex_split ?P (unat cnt) (Q b) = (ws, filter (\<lambda>t. t \<notin> set ws) (Q b))"
    using futex_split_taken[of ?P "unat cnt" "Q b"] futex_split_rest[OF d, of ?P "unat cnt"]
    by (simp add: ws_def prod_eq_iff)
  have r0: "wait_rep s (Q(b := [] @ Q b))" using assms(1) by simp
  obtain s1 wh where s1: "futex_collect b as cnt None (wq_head (ks_queues s b)) None None 0 s = Some (s1, wh, 0 + of_nat (length ws))"
    "wait_rep s1 (Q(b := [] @ filter (\<lambda>t. t \<notin> set ws) (Q b)))" "same_threads s s1"
    "is_chain (next_of s1) wh ([] @ ws)" "distinct ([] @ ws)"
    using futex_collect_rep[OF r0 wait_repD(1)[OF assms(1), of b], of None None "[]" None 0 "unat cnt" cnt as ws
        "filter (\<lambda>t. t \<notin> set ws) (Q b)"] sp by auto
  obtain s2 where s2: "futex_release wh s1 = Some s2" "ks_queues s2 = ks_queues s1"
    "\<forall>t. ks_threads s2 t = (if t \<in> set ws then (released (ks_threads s1 t))\<lparr>t_wq_next := None\<rparr> else ks_threads s1 t)"
    using futex_release_chain[OF s1(4,5)] by auto
  have sub: "set ws \<subseteq> set (Q b)" unfolding ws_def by (meson filter_is_subset set_take_subset subset_trans)
  have "wait_rep s2 (Q(b := filter (\<lambda>t. t \<notin> set ws) (Q b)))"
  proof (rule wait_rep_unqueued)
    show "wait_rep s1 (Q(b := filter (\<lambda>t. t \<notin> set ws) (Q b)))" using s1(2) by (simp del: fun_upd_apply)
    show "ks_queues s2 = ks_queues s1" by (rule s2(2))
    show "blocked_on_of s2 t = blocked_on_of s1 t" for t using s2(3) by (simp add: released_def)
    show "t \<in> set ((Q(b := filter (\<lambda>t. t \<notin> set ws) (Q b))) q) \<Longrightarrow> next_of s2 t = next_of s1 t" for t q
      using s2(3) sub wait_rep_disjoint[OF assms(1), of t b q] by (auto split: if_splits)
  qed
  moreover have "strip (ks_threads s2 t) = strip (if t \<in> set ws then released (ks_threads s t) else ks_threads s t)" for t
    using s2(3) same_threadsD(6)[OF s1(3), of t] by (simp add: released_strip)
  moreover have "futex_wake self uaddr cnt s = Some (s2, of_nat (length ws))"
    using assms(2) s1(1) s2(1) by (simp add: futex_wake_def Let_def as_def b_def)
  ultimately show ?thesis by blast
qed

lemma futex_wait_as_prepare:
  assumes "uaddr AND 3 = 0" "rd uaddr = Some val" "\<not> (ms > 0 \<and> \<not> arm_ok)"
  shows "futex_wait_begin rd self uaddr val ms arm_ok s =
    map_option (\<lambda>s'. (s', Futex_sleeps)) (wait_prepare (bucket_for (t_owner (ks_threads s self)) uaddr) self ms arm_ok s)"
  using assms by (auto simp: futex_wait_begin_def wait_prepare_def Let_def)

lemma futex_wait_facts:
  assumes "wait_rep s Q" "blocked_on_of s self = None"
  shows "uaddr AND 3 \<noteq> 0 \<or> rd uaddr = None \<Longrightarrow>
      futex_wait_begin rd self uaddr val ms arm_ok s = Some (s, Futex_done FUTEX_EFAULT)"
    and "uaddr AND 3 = 0 \<Longrightarrow> rd uaddr = Some v \<Longrightarrow> v \<noteq> val \<Longrightarrow>
      futex_wait_begin rd self uaddr val ms arm_ok s = Some (s, Futex_done FUTEX_EAGAIN)"
    and "uaddr AND 3 = 0 \<Longrightarrow> rd uaddr = Some val \<Longrightarrow>
      (if ms > 0 \<and> \<not> arm_ok
       then \<exists>s'. futex_wait_begin rd self uaddr val ms arm_ok s = Some (s', Futex_done FUTEX_ETIMEDOUT) \<and>
              wait_rep s' Q \<and> changed self (\<lambda>r. r\<lparr>t_state := THREAD_RUNNING, t_wait_result := WAIT_OK\<rparr>) s s'
       else let b = bucket_for (t_owner (ks_threads s self)) uaddr
            in \<exists>s'. futex_wait_begin rd self uaddr val ms arm_ok s = Some (s', Futex_sleeps) \<and>
              wait_rep s' (Q(b := Q b @ [self])) \<and>
              changed self (\<lambda>r. r\<lparr>t_state := THREAD_BLOCKED, t_wait_result := WAIT_OK,
                                  t_sleep_armed := (ms > 0 \<or> t_sleep_armed r)\<rparr>) s s')"
proof -
  show "uaddr AND 3 \<noteq> 0 \<or> rd uaddr = None \<Longrightarrow>
      futex_wait_begin rd self uaddr val ms arm_ok s = Some (s, Futex_done FUTEX_EFAULT)"
    by (auto simp: futex_wait_begin_def)
  show "uaddr AND 3 = 0 \<Longrightarrow> rd uaddr = Some v \<Longrightarrow> v \<noteq> val \<Longrightarrow>
      futex_wait_begin rd self uaddr val ms arm_ok s = Some (s, Futex_done FUTEX_EAGAIN)"
    by (simp add: futex_wait_begin_def)
  assume a: "uaddr AND 3 = 0" "rd uaddr = Some val"
  let ?b = "bucket_for (t_owner (ks_threads s self)) uaddr"
  let ?e = "enqueue_tail ?b self s"
  let ?s1 = "upd_thread self (\<lambda>r. r\<lparr>t_wait_result := WAIT_OK, t_state := THREAD_BLOCKED\<rparr>) ?e"
  have new: "self \<notin> set (Q ?b)" using wait_repD(4)[OF assms(1), of self ?b] assms(2) by auto
  have r1: "wait_rep ?s1 (Q(?b := Q ?b @ [self]))"
    by (rule upd_thread_rep[OF enqueue_tail_rep[OF assms]]) simp_all
  obtain s2 where s2: "unlink_locked ?b self ?s1 = Some s2"
      "wait_rep s2 ((Q(?b := Q ?b @ [self]))(?b := remove1 self ((Q(?b := Q ?b @ [self])) ?b)))" "same_threads ?s1 s2"
    using unlink_locked_rep[OF r1] by blast
  have "wait_rep s2 Q" using s2(2) new by (simp add: remove1_append)
  then have "wait_rep (upd_thread self (\<lambda>r. r\<lparr>t_state := THREAD_RUNNING\<rparr>) s2) Q"
    by (rule upd_thread_rep) simp_all
  moreover have "changed self (\<lambda>r. r\<lparr>t_state := THREAD_RUNNING, t_wait_result := WAIT_OK\<rparr>) s
      (upd_thread self (\<lambda>r. r\<lparr>t_state := THREAD_RUNNING\<rparr>) s2)"
    using same_threadsD(6)[OF s2(3)] same_threadsD(6)[OF enqueue_tail_same[of s ?b self]]
    by (simp add: changed_def strip_upds)
  ultimately have T: "ms > 0 \<and> \<not> arm_ok \<Longrightarrow>
      \<exists>s'. futex_wait_begin rd self uaddr val ms arm_ok s = Some (s', Futex_done FUTEX_ETIMEDOUT) \<and>
        wait_rep s' Q \<and> changed self (\<lambda>r. r\<lparr>t_state := THREAD_RUNNING, t_wait_result := WAIT_OK\<rparr>) s s'"
    using a s2(1) by (auto simp: futex_wait_begin_def Let_def)
  have E: "\<not> (ms > 0 \<and> \<not> arm_ok) \<Longrightarrow>
      \<exists>s'. futex_wait_begin rd self uaddr val ms arm_ok s = Some (s', Futex_sleeps) \<and>
        wait_rep s' (Q(?b := Q ?b @ [self])) \<and>
        changed self (\<lambda>r. r\<lparr>t_state := THREAD_BLOCKED, t_wait_result := WAIT_OK,
                            t_sleep_armed := (ms > 0 \<or> t_sleep_armed r)\<rparr>) s s'"
    using futex_wait_as_prepare[of uaddr rd val ms arm_ok self s] a wait_prepare_rep[OF assms, of ms arm_ok ?b]
    by (auto simp del: fun_upd_apply split: if_splits)
  show "if ms > 0 \<and> \<not> arm_ok
       then \<exists>s'. futex_wait_begin rd self uaddr val ms arm_ok s = Some (s', Futex_done FUTEX_ETIMEDOUT) \<and>
              wait_rep s' Q \<and> changed self (\<lambda>r. r\<lparr>t_state := THREAD_RUNNING, t_wait_result := WAIT_OK\<rparr>) s s'
       else let b = bucket_for (t_owner (ks_threads s self)) uaddr
            in \<exists>s'. futex_wait_begin rd self uaddr val ms arm_ok s = Some (s', Futex_sleeps) \<and>
              wait_rep s' (Q(b := Q b @ [self])) \<and>
              changed self (\<lambda>r. r\<lparr>t_state := THREAD_BLOCKED, t_wait_result := WAIT_OK,
                                  t_sleep_armed := (ms > 0 \<or> t_sleep_armed r)\<rparr>) s s'"
  proof (cases "ms > 0 \<and> \<not> arm_ok")
    case True
    show ?thesis unfolding if_P[OF True] by (rule T[OF True])
  next
    case False
    show ?thesis unfolding if_not_P[OF False] Let_def by (rule E[OF False])
  qed
qed

text \<open>
  C27: A futex wait answers \<^verbatim>\<open>FUTEX_EFAULT\<close> for a misaligned or unmapped address and \<^verbatim>\<open>FUTEX_EAGAIN\<close> when the
  word has another value, without changing anything; with the expected value the thread is appended
  to the bucket and blocked, unless its timer cannot be armed, when it stays in no queue, runs on and
  gets \<^verbatim>\<open>FUTEX_ETIMEDOUT\<close>.
\<close>
theorem futex_wait_exact:
  assumes "wait_rep s Q" "blocked_on_of s self = None"
  shows "if uaddr AND 3 \<noteq> 0 \<or> rd uaddr = None
    then futex_wait_begin rd self uaddr val ms arm_ok s = Some (s, Futex_done FUTEX_EFAULT)
    else if rd uaddr \<noteq> Some val
    then futex_wait_begin rd self uaddr val ms arm_ok s = Some (s, Futex_done FUTEX_EAGAIN)
    else if ms > 0 \<and> \<not> arm_ok
    then \<exists>s'. futex_wait_begin rd self uaddr val ms arm_ok s = Some (s', Futex_done FUTEX_ETIMEDOUT) \<and>
           wait_rep s' Q \<and> changed self (\<lambda>r. r\<lparr>t_state := THREAD_RUNNING, t_wait_result := WAIT_OK\<rparr>) s s'
    else let b = bucket_for (t_owner (ks_threads s self)) uaddr
         in \<exists>s'. futex_wait_begin rd self uaddr val ms arm_ok s = Some (s', Futex_sleeps) \<and>
           wait_rep s' (Q(b := Q b @ [self])) \<and>
           changed self (\<lambda>r. r\<lparr>t_state := THREAD_BLOCKED, t_wait_result := WAIT_OK,
                               t_sleep_armed := (ms > 0 \<or> t_sleep_armed r)\<rparr>) s s'"
proof (cases "uaddr AND 3 \<noteq> 0 \<or> rd uaddr = None")
  case True
  show ?thesis unfolding if_P[OF True] using futex_wait_facts(1)[OF assms, of uaddr rd] True by blast
next
  case False
  then obtain v where v: "uaddr AND 3 = 0" "rd uaddr = Some v" by auto
  show ?thesis
  proof (cases "v = val")
    case eq: True
    have "\<not> rd uaddr \<noteq> Some val" using v eq by simp
    then show ?thesis unfolding if_not_P[OF False] if_not_P[OF \<open>\<not> rd uaddr \<noteq> Some val\<close>]
      using futex_wait_facts(3)[OF assms v(1), of rd val ms arm_ok] v eq by simp
  next
    case ne: False
    then have d: "rd uaddr \<noteq> Some val" using v by simp
    show ?thesis unfolding if_not_P[OF False] if_P[OF d] using futex_wait_facts(2)[OF assms, of uaddr rd v] v ne by simp
  qed
qed

theorem futex_wait_exact_witness:
  "futex_wait_begin (\<lambda>_. Some 5) 1 64 4 0 True idle_state = Some (idle_state, Futex_done FUTEX_EAGAIN) \<and>
   (\<exists>s'. futex_wait_begin (\<lambda>_. Some 5) 1 64 5 9 True idle_state = Some (s', Futex_sleeps) \<and>
      wait_rep s' ((\<lambda>_. [])(bucket_for 0 64 := [1])) \<and> state_of s' 1 = THREAD_BLOCKED) \<and>
   (\<exists>s'. futex_wait_begin (\<lambda>_. Some 5) 1 64 5 9 False idle_state = Some (s', Futex_done FUTEX_ETIMEDOUT) \<and>
      wait_rep s' (\<lambda>_. []) \<and> state_of s' 1 = THREAD_RUNNING)"
proof -
  have b: "blocked_on_of idle_state 1 = None" "t_owner (ks_threads idle_state 1) = 0" by (simp_all add: idle_state_def idle_thread_def)
  have a: "(64 :: u32) AND 3 = 0" by simp
  note w = futex_wait_exact[OF idle_state_rep b(1), of 64 "\<lambda>_. Some 5"]
  have "futex_wait_begin (\<lambda>_. Some 5) 1 64 4 0 True idle_state = Some (idle_state, Futex_done FUTEX_EAGAIN)" using w[of 4 0 True] a by simp
  moreover have "\<exists>s'. futex_wait_begin (\<lambda>_. Some 5) 1 64 5 9 True idle_state = Some (s', Futex_sleeps) \<and>
      wait_rep s' ((\<lambda>_. [])(bucket_for 0 64 := [1])) \<and> state_of s' 1 = THREAD_BLOCKED"
    using w[of 5 9 True] a b(2) by (auto simp: Let_def dest!: changed_state(1))
  moreover have "\<exists>s'. futex_wait_begin (\<lambda>_. Some 5) 1 64 5 9 False idle_state = Some (s', Futex_done FUTEX_ETIMEDOUT) \<and>
      wait_rep s' (\<lambda>_. []) \<and> state_of s' 1 = THREAD_RUNNING"
    using w[of 5 9 False] a by (auto dest!: changed_state(1))
  ultimately show ?thesis by blast
qed

subsection \<open>A queue per key\<close>

text \<open>
  The comment of the code keys a futex by the address space and the user address.  Here the threads asleep in
  \<^verbatim>\<open>futex_wait\<close> are recorded with the address each of them gave, in the order in which they went to
  sleep; a thread is on record as long as it is in a queue.  The steps are complete calls, an expiring sleep timer and the dispatch
  of a ready thread.
\<close>

type_synonym futex_log = "(tptr \<times> u32) list"

definition still :: "kstate \<Rightarrow> futex_log \<Rightarrow> futex_log" where
  "still k log = filter (\<lambda>(t, a). blocked_on_of k t \<noteq> None) log"

inductive fx_step :: "kstate \<times> futex_log \<Rightarrow> kstate \<times> futex_log \<Rightarrow> bool" where
  fx_sleep: "state_of k t = THREAD_RUNNING \<Longrightarrow>
    futex_wait_begin rd t uaddr val ms arm_ok k = Some (k', Futex_sleeps) \<Longrightarrow> fx_step (k, log) (k', log @ [(t, uaddr)])"
| fx_refused: "state_of k t = THREAD_RUNNING \<Longrightarrow>
    futex_wait_begin rd t uaddr val ms arm_ok k = Some (k', Futex_done r) \<Longrightarrow> fx_step (k, log) (k', log)"
| fx_wake: "futex_wake t uaddr cnt k = Some (k', n) \<Longrightarrow> fx_step (k, log) (k', still k' log)"
| fx_fire: "scheduler_sleep_timer_fire t k = Some k' \<Longrightarrow> fx_step (k, log) (k', still k' log)"
| fx_end: "futex_wait_end t k = (k', r) \<Longrightarrow> fx_step (k, log) (k', log)"
| fx_dispatch: "state_of k t = THREAD_READY \<Longrightarrow>
    fx_step (k, log) (upd_thread t (\<lambda>r. r\<lparr>t_state := THREAD_RUNNING\<rparr>) k, log)"

abbreviation owner_of :: "kstate \<Rightarrow> tptr \<Rightarrow> u32" where
  "owner_of k t \<equiv> t_owner (ks_threads k t)"

definition fx_queue :: "kstate \<Rightarrow> futex_log \<Rightarrow> wqptr \<Rightarrow> tptr list" where
  "fx_queue k log b = List.map fst (filter (\<lambda>(t, a). bucket_for (owner_of k t) a = b) log)"

definition fx_inv :: "kstate \<times> futex_log \<Rightarrow> bool" where
  "fx_inv s \<longleftrightarrow> (case s of (k, log) \<Rightarrow> distinct (List.map fst log) \<and> wait_rep k (fx_queue k log) \<and>
     (\<forall>(t, a)\<in>set log. state_of k t = THREAD_BLOCKED))"

lemma fx_queue_mem: "t \<in> set (fx_queue k log b) \<longleftrightarrow> (\<exists>a. (t, a) \<in> set log \<and> bucket_for (owner_of k t) a = b)"
  by (auto simp: fx_queue_def) force

lemma fx_queue_owner: "(\<And>t. owner_of k' t = owner_of k t) \<Longrightarrow> fx_queue k' log = fx_queue k log"
  by (rule ext) (simp add: fx_queue_def)

lemma fx_queue_filter: "fx_queue k (filter (\<lambda>(t, a). P t) log) b = filter P (fx_queue k log b)"
  by (induction log) (auto simp: fx_queue_def)

lemma fx_queue_snoc:
  "fx_queue k (log @ [(t, a)]) = (fx_queue k log)(bucket_for (owner_of k t) a := fx_queue k log (bucket_for (owner_of k t) a) @ [t])"
  by (rule ext) (simp add: fx_queue_def)

lemma fx_free: "fx_inv (k, log) \<Longrightarrow> state_of k t \<noteq> THREAD_BLOCKED \<Longrightarrow> blocked_on_of k t = None \<and> t \<notin> fst ` set log"
  using wait_rep_none[of k "fx_queue k log" t] by (auto simp: fx_inv_def fx_queue_mem)

text \<open>Some threads leave the queues, the others keep their place.\<close>

lemma fx_inv_leave:
  assumes inv: "fx_inv (k, log)" and rep: "wait_rep k' (\<lambda>b. filter (\<lambda>t. t \<notin> W) (fx_queue k log b))"
    and own: "\<And>t. owner_of k' t = owner_of k t" and st: "\<And>t. t \<notin> W \<Longrightarrow> state_of k' t = state_of k t"
  shows "still k' log = filter (\<lambda>(t, a). t \<notin> W) log" "fx_inv (k', still k' log)"
proof -
  have "blocked_on_of k' t \<noteq> None \<longleftrightarrow> t \<notin> W" if "(t, a) \<in> set log" for t a
    using wait_rep_none[OF rep, of t] that by (auto simp: fx_queue_mem)
  then show eq: "still k' log = filter (\<lambda>(t, a). t \<notin> W) log"
    unfolding still_def by (intro filter_cong) auto
  have "fx_queue k' (still k' log) = (\<lambda>b. filter (\<lambda>t. t \<notin> W) (fx_queue k log b))"
    unfolding eq fx_queue_owner[OF own] by (rule ext) (rule fx_queue_filter)
  moreover have "distinct (List.map fst (still k' log))"
    using inv unfolding eq by (auto simp: fx_inv_def distinct_map_filter)
  moreover have "state_of k' t = THREAD_BLOCKED" if "(t, a) \<in> set (still k' log)" for t a
    using that st[of t] inv unfolding eq by (auto simp: fx_inv_def)
  ultimately show "fx_inv (k', still k' log)" using rep by (auto simp: fx_inv_def)
qed

lemma changed_owner: "changed t f s s' \<Longrightarrow> (\<And>r. t_owner (f r) = t_owner r) \<Longrightarrow> owner_of s' u = owner_of s u"
  unfolding changed_def by (metis strip_simps(3))

lemma fx_wake_leaves:
  fixes k :: kstate and self :: tptr and cnt :: u32
  assumes "fx_inv (k, log)" "uaddr AND 3 = 0"
  defines "as \<equiv> owner_of k self"
  defines "ws \<equiv> take (unat cnt) (filter (\<lambda>t. owner_of k t = as) (fx_queue k log (bucket_for as uaddr)))"
  obtains k' where "futex_wake self uaddr cnt k = Some (k', of_nat (length ws))" "still k' log = filter (\<lambda>(t, a). t \<notin> set ws) log"
    "fx_inv (k', still k' log)"
    "\<And>t. strip (ks_threads k' t) = strip (if t \<in> set ws then released (ks_threads k t) else ks_threads k t)"
proof -
  let ?b = "bucket_for as uaddr" and ?Q = "fx_queue k log"
  have rep: "wait_rep k ?Q" using assms(1) by (simp add: fx_inv_def)
  obtain k' where k': "futex_wake self uaddr cnt k = Some (k', of_nat (length ws))"
    "wait_rep k' (?Q(?b := filter (\<lambda>t. t \<notin> set ws) (?Q ?b)))"
    "\<forall>t. strip (ks_threads k' t) = strip (if t \<in> set ws then released (ks_threads k t) else ks_threads k t)"
    using futex_wake_facts[OF rep assms(2), of self cnt] unfolding as_def ws_def by blast
  have sub: "set ws \<subseteq> set (?Q ?b)" unfolding ws_def by (meson filter_is_subset set_take_subset subset_trans)
  have "?Q(?b := filter (\<lambda>t. t \<notin> set ws) (?Q ?b)) = (\<lambda>q. filter (\<lambda>t. t \<notin> set ws) (?Q q))"
  proof (rule ext)
    fix q
    have "q \<noteq> ?b \<Longrightarrow> filter (\<lambda>t. t \<notin> set ws) (?Q q) = ?Q q"
      using sub wait_rep_disjoint[OF rep, of _ q ?b] by (intro filter_True) blast
    then show "(?Q(?b := filter (\<lambda>t. t \<notin> set ws) (?Q ?b))) q = filter (\<lambda>t. t \<notin> set ws) (?Q q)" by simp
  qed
  then have rep': "wait_rep k' (\<lambda>q. filter (\<lambda>t. t \<notin> set ws) (?Q q))" using k'(2) by simp
  have own: "owner_of k' t = owner_of k t" for t
    using k'(3) by (metis released_strip strip_simps(3) released_fields(1))
  have st: "t \<notin> set ws \<Longrightarrow> state_of k' t = state_of k t" for t using k'(3) by (metis strip_simps(1))
  show thesis using that[OF k'(1)] fx_inv_leave[OF assms(1) rep' own st] k'(3) by blast
qed

lemma fx_inv_wait:
  assumes inv: "fx_inv (k, log)" and run: "state_of k t = THREAD_RUNNING"
    and call: "futex_wait_begin rd t uaddr val ms arm_ok k = Some (k', out)"
  shows "fx_inv (k', if out = Futex_sleeps then log @ [(t, uaddr)] else log)"
proof -
  have rep: "wait_rep k (fx_queue k log)" using inv by (simp add: fx_inv_def)
  have free: "blocked_on_of k t = None" "t \<notin> fst ` set log" using fx_free[OF inv] run by auto
  show ?thesis
  proof (cases "uaddr AND 3 \<noteq> 0 \<or> rd uaddr \<noteq> Some val")
    case True
    then have "k' = k \<and> out \<noteq> Futex_sleeps" using call by (cases "rd uaddr") (auto simp: futex_wait_begin_def Let_def split: if_splits)
    then show ?thesis using inv by simp
  next
    case False
    then have ok: "uaddr AND 3 = 0" "rd uaddr = Some val" by auto
    let ?b = "bucket_for (owner_of k t) uaddr"
    note F = futex_wait_facts(3)[where rd = rd and val = val and ms = ms and arm_ok = arm_ok, OF rep free(1) ok]
    show ?thesis
    proof (cases "ms > 0 \<and> \<not> arm_ok")
      case True
      then have r: "wait_rep k' (fx_queue k log)" "changed t (\<lambda>r. r\<lparr>t_state := THREAD_RUNNING, t_wait_result := WAIT_OK\<rparr>) k k'"
        "out = Futex_done FUTEX_ETIMEDOUT" using F call by auto
      have "fx_queue k' log = fx_queue k log" by (rule fx_queue_owner) (rule changed_owner[OF r(2)], simp)
      moreover have "state_of k' u = state_of k u" for u using changed_state[OF r(2)] run by (cases "u = t") auto
      ultimately show ?thesis using inv r by (simp add: fx_inv_def)
    next
      case False
      then have r: "wait_rep k' ((fx_queue k log)(?b := fx_queue k log ?b @ [t]))" "out = Futex_sleeps"
        "changed t (\<lambda>r. r\<lparr>t_state := THREAD_BLOCKED, t_wait_result := WAIT_OK, t_sleep_armed := (ms > 0 \<or> t_sleep_armed r)\<rparr>) k k'"
        using F call by (auto simp: Let_def simp del: fun_upd_apply)
      have own: "owner_of k' u = owner_of k u" for u by (rule changed_owner[OF r(3)]) simp
      have "wait_rep k' (fx_queue k' (log @ [(t, uaddr)]))"
        using r(1) unfolding fx_queue_owner[OF own] fx_queue_snoc own .
      moreover have "state_of k' u = (if u = t then THREAD_BLOCKED else state_of k u)" for u
        using changed_state[OF r(3)] by auto
      ultimately show ?thesis using inv r(2) free(2) by (auto simp: fx_inv_def)
    qed
  qed
qed

lemma fx_inv_fire:
  assumes inv: "fx_inv (k, log)" and call: "scheduler_sleep_timer_fire t k = Some k'"
  shows "fx_inv (k', still k' log)"
proof -
  let ?Q = "fx_queue k log"
  have rep: "wait_rep k ?Q" using inv by (simp add: fx_inv_def)
  obtain r where r: "scheduler_sleep_timer_fire t k = Some r" "wait_rep r (\<lambda>q. remove1 t (?Q q))"
    "changed t (\<lambda>r. r\<lparr>t_sleep_armed := False,
        t_state := (if t_state r = THREAD_BLOCKED \<or> t_state r = THREAD_SLEEPING then THREAD_READY else t_state r),
        t_wait_result := (if blocked_on_of k t = None then t_wait_result r else WAIT_TIMEOUT)\<rparr>) k r"
    by (rule timer_fire_rep[OF rep, of t])
  have "remove1 t (?Q q) = filter (\<lambda>u. u \<notin> {t}) (?Q q)" for q
    using distinct_remove1_removeAll[OF wait_repD(2)[OF rep, of q], of t] by (auto simp: removeAll_filter_not_eq intro: filter_cong)
  then have rep': "wait_rep k' (\<lambda>q. filter (\<lambda>u. u \<notin> {t}) (?Q q))" using r call by simp
  show ?thesis
    by (rule fx_inv_leave(2)[OF inv rep'])
      (use r(1,3) call changed_owner[OF r(3)] changed_state(2)[OF r(3)] in auto)
qed

lemma fx_inv_frame:
  assumes "fx_inv (k, log)" "wait_rep k' (fx_queue k log)" "\<And>t. owner_of k' t = owner_of k t"
    "\<And>t. state_of k t = THREAD_BLOCKED \<Longrightarrow> state_of k' t = THREAD_BLOCKED"
  shows "fx_inv (k', log)"
  using assms fx_queue_owner[of k' k log, OF assms(3)] by (auto simp: fx_inv_def)

lemma fx_step_inv: "fx_step s s' \<Longrightarrow> fx_inv s \<Longrightarrow> fx_inv s'"
proof (induction rule: fx_step.induct)
  case (fx_sleep k t rd uaddr val ms arm_ok k' log)
  from fx_inv_wait[OF fx_sleep(3,1,2)] show ?case by simp
next
  case (fx_refused k t rd uaddr val ms arm_ok k' r log)
  from fx_inv_wait[OF fx_refused(3,1,2)] show ?case by simp
next
  case (fx_wake t uaddr cnt k k' n log)
  show ?case
  proof (cases "uaddr AND 3 = 0")
    case True
    have "\<exists>m r. futex_wake t uaddr cnt k = Some (r, m) \<and> fx_inv (r, still r log)"
      by (rule fx_wake_leaves[OF fx_wake(2) True, where cnt = cnt and self = t]) blast
    then show ?thesis using fx_wake(1) by force
  next
    case False
    then have "k' = k" using fx_wake(1) by (simp add: futex_wake_def)
    moreover have "still k log = filter (\<lambda>(t, a). t \<notin> {}) log" "fx_inv (k, still k log)"
      using fx_inv_leave[OF fx_wake(2), of k "{}"] fx_wake(2) by (simp_all add: fx_inv_def)
    ultimately show ?thesis by simp
  qed
next
  case (fx_fire t k k' log)
  then show ?case using fx_inv_fire by blast
next
  case (fx_end t k k' r log)
  then have k': "k' = timer_cancel_sleep t k" by (simp add: futex_wait_end_def Let_def)
  have "wait_rep k' (fx_queue k log)" using fx_end(2) timer_cancel_rep[of k "fx_queue k log" t] k' by (simp add: fx_inv_def)
  then show ?case by (rule fx_inv_frame[OF fx_end(2)]) (auto simp: k' timer_cancel_sleep_def)
next
  case (fx_dispatch k t log)
  have "wait_rep k (fx_queue k log)" using fx_dispatch(2) by (simp add: fx_inv_def)
  then have "wait_rep (upd_thread t (\<lambda>r. r\<lparr>t_state := THREAD_RUNNING\<rparr>) k) (fx_queue k log)"
    by (rule upd_thread_rep) simp_all
  then show ?case by (rule fx_inv_frame[OF fx_dispatch(2)]) (use fx_dispatch(1) in auto)
qed

lemma fx_reach_inv:
  assumes "fx_step\<^sup>*\<^sup>* (k0, []) s" "wait_rep k0 (\<lambda>_. [])"
  shows "fx_inv s"
proof -
  have "fx_queue k0 [] = (\<lambda>_. [])" by (rule ext) (simp add: fx_queue_def)
  then have "fx_inv (k0, [])" using assms(2) by (simp add: fx_inv_def)
  with assms(1) show ?thesis by (induction rule: rtranclp_induct) (auto intro: fx_step_inv)
qed

text \<open>
  C25: The hashed queues serve the key the code documents, address space and user address, as long as no two addresses in use in the
  process share a bucket.  After any history of waits, wake-ups, timeouts and dispatches, if every sleeping thread of the
  caller's process in the bucket of an aligned address waits at that address, a wake-up at it releases exactly the threads
  that wait there, the longest asleep first and at most the given count, returns their number, and leaves all others asleep in their order;
  threads of other processes in the bucket do not matter.
\<close>
theorem futex_wake_keyed:
  assumes "fx_step\<^sup>*\<^sup>* (k0, []) (k, log)" "wait_rep k0 (\<lambda>_. [])" "uaddr AND 3 = 0"
    and "\<forall>t a. (t, a) \<in> set log \<and> owner_of k t = owner_of k self \<and>
      bucket_for (owner_of k self) a = bucket_for (owner_of k self) uaddr \<longrightarrow> a = uaddr"
  shows "let ws = take (unat cnt) (List.map fst (filter (\<lambda>(t, a). owner_of k t = owner_of k self \<and> a = uaddr) log))
    in \<exists>k'. futex_wake self uaddr cnt k = Some (k', of_nat (length ws)) \<and>
         still k' log = filter (\<lambda>(t, a). t \<notin> set ws) log \<and>
         (\<forall>t. strip (ks_threads k' t) = strip (if t \<in> set ws then released (ks_threads k t) else ks_threads k t))"
proof -
  have inv: "fx_inv (k, log)" by (rule fx_reach_inv[OF assms(1,2)])
  let ?as = "owner_of k self"
  have "filter (\<lambda>t. owner_of k t = ?as) (fx_queue k log (bucket_for ?as uaddr)) =
      List.map fst (filter (\<lambda>(t, a). owner_of k t = ?as \<and> bucket_for (owner_of k t) a = bucket_for ?as uaddr) log)"
    by (induction log) (auto simp: fx_queue_def)
  also have "\<dots> = List.map fst (filter (\<lambda>(t, a). owner_of k t = ?as \<and> a = uaddr) log)"
    using assms(4) by (intro arg_cong[of _ _ "List.map fst"] filter_cong) auto
  finally have eq: "filter (\<lambda>t. owner_of k t = ?as) (fx_queue k log (bucket_for ?as uaddr)) =
      List.map fst (filter (\<lambda>(t, a). owner_of k t = ?as \<and> a = uaddr) log)" .
  show ?thesis
    using fx_wake_leaves[OF inv assms(3), where cnt = cnt and self = self] unfolding eq Let_def by blast
qed

text \<open>Threads 1 and 2 wait at 4096, thread 3 at 8192; a wake-up of one thread at 4096 releases thread 1.\<close>

theorem futex_wake_keyed_witness:
  "\<exists>k k'. fx_step\<^sup>*\<^sup>* (idle_state, []) (k, [(1, 4096), (3, 8192), (2, 4096)]) \<and>
     futex_wake 4 4096 1 k = Some (k', 1) \<and> still k' [(1, 4096), (3, 8192), (2, 4096)] = [(3, 8192), (2, 4096)] \<and>
     state_of k' 1 = THREAD_READY"
proof -
  let ?rd = "\<lambda>_. Some 0 :: u32 option"
  have "case futex_wait_begin ?rd 1 4096 0 0 True idle_state of None \<Rightarrow> False
     | Some (s1, o1) \<Rightarrow> (case futex_wait_begin ?rd 3 8192 0 0 True s1 of None \<Rightarrow> False
     | Some (s2, o2) \<Rightarrow> (case futex_wait_begin ?rd 2 4096 0 0 True s2 of None \<Rightarrow> False
     | Some (s3, o3) \<Rightarrow> o1 = Futex_sleeps \<and> o2 = Futex_sleeps \<and> o3 = Futex_sleeps \<and> state_of idle_state 1 = THREAD_RUNNING \<and>
         state_of s1 3 = THREAD_RUNNING \<and> state_of s2 2 = THREAD_RUNNING \<and> state_of s3 1 = THREAD_BLOCKED \<and>
         List.map (owner_of s3) [1, 2, 3, 4] = [0, 0, 0, 0]))"
    by code_simp
  then obtain s1 s2 s3 where s: "futex_wait_begin ?rd 1 4096 0 0 True idle_state = Some (s1, Futex_sleeps)"
    "futex_wait_begin ?rd 3 8192 0 0 True s1 = Some (s2, Futex_sleeps)"
    "futex_wait_begin ?rd 2 4096 0 0 True s2 = Some (s3, Futex_sleeps)"
    "state_of idle_state 1 = THREAD_RUNNING" "state_of s1 3 = THREAD_RUNNING" "state_of s2 2 = THREAD_RUNNING"
    "state_of s3 1 = THREAD_BLOCKED" "owner_of s3 1 = 0" "owner_of s3 2 = 0" "owner_of s3 3 = 0" "owner_of s3 4 = 0"
    by (auto dest!: case_SomeD simp del: One_nat_def)
  have "fx_step (idle_state, []) (s1, [(1, 4096)])" using fx_sleep[OF s(4,1), of "[]"] by simp
  moreover have "fx_step (s1, [(1, 4096)]) (s2, [(1, 4096), (3, 8192)])" using fx_sleep[OF s(5,2), of "[(1, 4096)]"] by simp
  moreover have "fx_step (s2, [(1, 4096), (3, 8192)]) (s3, [(1, 4096), (3, 8192), (2, 4096)])"
    using fx_sleep[OF s(6,3), of "[(1, 4096), (3, 8192)]"] by simp
  ultimately have reach: "fx_step\<^sup>*\<^sup>* (idle_state, []) (s3, [(1, 4096), (3, 8192), (2, 4096)])"
    by (rule converse_rtranclp_into_rtranclp[OF _ converse_rtranclp_into_rtranclp[OF _ r_into_rtranclp]])
  have b: "bucket_for 0 8192 \<noteq> bucket_for 0 4096" "(4096 :: u32) AND 3 = 0" by code_simp+
  have key: "\<forall>t a. (t, a) \<in> set [(1, 4096), (3, 8192), (2, 4096)] \<and> owner_of s3 t = owner_of s3 4 \<and>
      bucket_for (owner_of s3 4) a = bucket_for (owner_of s3 4) 4096 \<longrightarrow> a = 4096"
    using b(1) s(11) by auto
  have ws: "take (unat (1 :: u32)) (List.map fst (filter (\<lambda>(t, a). owner_of s3 t = owner_of s3 4 \<and> a = 4096)
      [(1, 4096), (3, 8192), (2, 4096)])) = [1]"
    using s(8-11) by simp
  obtain k' where "futex_wake 4 4096 1 s3 = Some (k', of_nat (length [1 :: tptr]))"
    "still k' [(1, 4096), (3, 8192), (2, 4096)] = filter (\<lambda>(t, a). t \<notin> set [1]) [(1, 4096), (3, 8192), (2, 4096)]"
    "\<forall>t. strip (ks_threads k' t) = strip (if t \<in> set [1] then released (ks_threads s3 t) else ks_threads s3 t)"
    using futex_wake_keyed[OF reach idle_state_rep b(2) key, where cnt = 1] unfolding Let_def ws by blast
  then have "futex_wake 4 4096 1 s3 = Some (k', 1)" "still k' [(1, 4096), (3, 8192), (2, 4096)] = [(3, 8192), (2, 4096)]"
    "strip (ks_threads k' 1) = strip (released (ks_threads s3 1))" by simp_all
  moreover from this(3) have "state_of k' 1 = THREAD_READY"
    using s(7) by (metis released_fields(2) strip_simps(1))
  ultimately show ?thesis using reach by blast
qed

text \<open>
  A futex wake-up can be spent on a thread that waits at another address.  The bucket's queue records only
  the process of a thread, and two words of one process that are 128 bytes apart share a bucket: here thread
  1 waits at address 4096 and thread 2 at 4224, a wake-up of one thread at 4224 makes thread 1
  ready, returns 1, and thread 2 stays asleep.
\<close>
theorem futex_wake_wrong_address:
  "\<exists>s1 s2 s3. futex_wait_begin (\<lambda>_. Some 0) 1 4096 0 0 True idle_state = Some (s1, Futex_sleeps) \<and>
     futex_wait_begin (\<lambda>_. Some 0) 2 4224 0 0 True s1 = Some (s2, Futex_sleeps) \<and>
     futex_wake 3 4224 1 s2 = Some (s3, 1) \<and>
     state_of s3 1 = THREAD_READY \<and> state_of s3 2 = THREAD_BLOCKED \<and> blocked_on_of s3 2 = Some (bucket_for 0 4224)"
proof -
  have "case futex_wait_begin (\<lambda>_. Some 0) 1 4096 0 0 True idle_state of None \<Rightarrow> False
     | Some (s1, o1) \<Rightarrow> (case futex_wait_begin (\<lambda>_. Some 0) 2 4224 0 0 True s1 of None \<Rightarrow> False
     | Some (s2, o2) \<Rightarrow> (case futex_wake 3 4224 1 s2 of None \<Rightarrow> False
     | Some (s3, n) \<Rightarrow> o1 = Futex_sleeps \<and> o2 = Futex_sleeps \<and> n = 1 \<and> state_of s3 1 = THREAD_READY \<and>
         state_of s3 2 = THREAD_BLOCKED \<and> blocked_on_of s3 2 = Some (bucket_for 0 4224)))"
    by code_simp
  then show ?thesis
    by (auto dest!: case_SomeD simp del: One_nat_def)
qed

end
