(* ===== verification/Msg_Pool.thy ===== *)
theory Msg_Pool
  imports Prelude "HOL-Library.Multiset"
begin

text \<open>
  The message entries of \<^verbatim>\<open>kernel/ipc/channel.c\<close>: per-CPU magazines over a common depot, and a separate
  preallocated pool for posts from interrupt context.  An entry is its address; the entries of
  the interrupt pool are the addresses below 512, those of the heap lie above.  The free lists
  (linked through \<^verbatim>\<open>node.next\<close>) are lists with their counters beside them.  What \<^verbatim>\<open>kmalloc\<close> answers
  is an argument, and the entries given to \<^verbatim>\<open>kfree\<close> are returned.  The theory shows that no entry
  is lost or handed out twice and that the counters and caps hold.
\<close>

type_synonym eptr = nat

definition MAX_CPUS :: nat where "MAX_CPUS = 32"
definition IPC_MAG_CAP :: u32 where "IPC_MAG_CAP = 64"
definition IPC_MAG_BATCH :: u32 where "IPC_MAG_BATCH = 32"
definition IPC_DEPOT_CACHE_MAX :: u32 where "IPC_DEPOT_CACHE_MAX = 256"
definition IPC_IRQ_POOL_SIZE :: nat where "IPC_IRQ_POOL_SIZE = 512"

text \<open>Two list pointers, ten words of message, and a flag with its padding.\<close>

definition sizeof_port_msg_entry :: u32 where "sizeof_port_msg_entry = 52"

record pool =
  s_mag :: "eptr list list"
  s_mag_n :: "u32 list"
  s_depot :: "eptr list"
  s_depot_n :: u32
  s_irq_freelist :: "eptr list"
  s_irq_drops :: u32

lemma unat_pred_u32: "0 < unat (a :: u32) \<Longrightarrow> unat (a - 1) = unat a - 1"
  by (rule unat_minus_one) auto

text \<open>\<^verbatim>\<open>ipc_depot_trim\<close>: the entries above the warm floor go back to the heap, in the order of the freed chain.\<close>

function depot_trim_loop :: "pool \<Rightarrow> eptr list \<Rightarrow> u32 \<Rightarrow> pool \<times> eptr list \<times> u32" where
  "depot_trim_loop p chain taken =
     (if s_depot_n p > IPC_MAG_BATCH
      then depot_trim_loop (p\<lparr>s_depot := tl (s_depot p), s_depot_n := s_depot_n p - 1\<rparr>)
             (hd (s_depot p) # chain) (taken + 1)
      else (p, chain, taken))"
  by auto
termination
  by (relation "measure (\<lambda>(p, c, t). unat (s_depot_n p))") (auto simp: IPC_MAG_BATCH_def word_less_nat_alt unat_pred_u32)

declare depot_trim_loop.simps [simp del]

definition ipc_depot_trim :: "pool \<Rightarrow> pool \<times> eptr list \<times> u32" where
  "ipc_depot_trim p =
     (case depot_trim_loop p [] 0 of (p', chain, taken) \<Rightarrow> (p', chain, taken * sizeof_port_msg_entry))"

text \<open>The magazine is empty: up to a batch moves over from the depot.\<close>

fun mag_refill :: "nat \<Rightarrow> nat \<Rightarrow> pool \<Rightarrow> pool" where
  "mag_refill 0 cpu p = p"
| "mag_refill (Suc room) cpu p =
     (case s_depot p of
        [] \<Rightarrow> p
      | d # ds \<Rightarrow> mag_refill room cpu
          (p\<lparr>s_depot := ds, s_depot_n := s_depot_n p - 1,
             s_mag := (s_mag p)[cpu := d # s_mag p ! cpu], s_mag_n := (s_mag_n p)[cpu := s_mag_n p ! cpu + 1]\<rparr>))"

definition mag_pop :: "nat \<Rightarrow> pool \<Rightarrow> (pool \<times> eptr) option" where
  "mag_pop cpu p =
     (case s_mag p ! cpu of
        [] \<Rightarrow> None
      | e # es \<Rightarrow> Some (p\<lparr>s_mag := (s_mag p)[cpu := es], s_mag_n := (s_mag_n p)[cpu := s_mag_n p ! cpu - 1]\<rparr>, e))"

definition entry_alloc :: "nat \<Rightarrow> eptr option \<Rightarrow> pool \<Rightarrow> pool \<times> eptr option" where
  "entry_alloc cpu kmalloc p =
     (case mag_pop cpu p of
        Some (p1, e) \<Rightarrow> (p1, Some e)
      | None \<Rightarrow>
          let p1 = mag_refill (unat IPC_MAG_BATCH) cpu p
          in case mag_pop cpu p1 of
               Some (p2, e) \<Rightarrow> (p2, Some e)
             | None \<Rightarrow> (p1, kmalloc))"

definition entry_alloc_irq :: "pool \<Rightarrow> pool \<times> eptr option" where
  "entry_alloc_irq p =
     (case s_irq_freelist p of
        e # es \<Rightarrow> (p\<lparr>s_irq_freelist := es\<rparr>, Some e)
      | [] \<Rightarrow> (p\<lparr>s_irq_drops := s_irq_drops p + 1\<rparr>, None))"

text \<open>The magazine is full: up to a batch moves to the depot, while the depot has room.\<close>

fun mag_spill :: "nat \<Rightarrow> nat \<Rightarrow> pool \<Rightarrow> pool" where
  "mag_spill 0 cpu p = p"
| "mag_spill (Suc room) cpu p =
     (if s_depot_n p < IPC_DEPOT_CACHE_MAX
      then mag_spill room cpu
        (p\<lparr>s_mag := (s_mag p)[cpu := tl (s_mag p ! cpu)], s_mag_n := (s_mag_n p)[cpu := s_mag_n p ! cpu - 1],
           s_depot := hd (s_mag p ! cpu) # s_depot p, s_depot_n := s_depot_n p + 1\<rparr>)
      else p)"

definition mag_push :: "nat \<Rightarrow> eptr \<Rightarrow> pool \<Rightarrow> pool" where
  "mag_push cpu e p = p\<lparr>s_mag := (s_mag p)[cpu := e # s_mag p ! cpu], s_mag_n := (s_mag_n p)[cpu := s_mag_n p ! cpu + 1]\<rparr>"

definition ipc_msg_entry_free :: "nat \<Rightarrow> eptr \<Rightarrow> pool \<Rightarrow> pool \<times> eptr list" where
  "ipc_msg_entry_free cpu e p =
     (if e < IPC_IRQ_POOL_SIZE then (p\<lparr>s_irq_freelist := e # s_irq_freelist p\<rparr>, [])
      else if s_mag_n p ! cpu < IPC_MAG_CAP then (mag_push cpu e p, [])
      else let p1 = mag_spill (unat IPC_MAG_BATCH) cpu p
           in if s_mag_n p1 ! cpu < IPC_MAG_CAP then (mag_push cpu e p1, []) else (p1, [e]))"

definition pool_init :: pool where
  "pool_init = \<lparr>s_mag = replicate MAX_CPUS [], s_mag_n = replicate MAX_CPUS 0, s_depot = [], s_depot_n = 0,
     s_irq_freelist = [0..<IPC_IRQ_POOL_SIZE], s_irq_drops = 0\<rparr>"

subsection \<open>Every entry in one place\<close>

definition pool_free :: "pool \<Rightarrow> eptr multiset" where
  "pool_free p = mset (concat (s_mag p)) + mset (s_depot p) + mset (s_irq_freelist p)"

definition pool_inv :: "pool \<Rightarrow> bool" where
  "pool_inv p \<longleftrightarrow> length (s_mag p) = MAX_CPUS \<and> length (s_mag_n p) = MAX_CPUS \<and>
     (\<forall>c < MAX_CPUS. unat (s_mag_n p ! c) = length (s_mag p ! c) \<and> length (s_mag p ! c) \<le> 64 \<and>
        (\<forall>e\<in>set (s_mag p ! c). IPC_IRQ_POOL_SIZE \<le> e)) \<and>
     unat (s_depot_n p) = length (s_depot p) \<and> length (s_depot p) \<le> 256 \<and>
     (\<forall>e\<in>set (s_depot p). IPC_IRQ_POOL_SIZE \<le> e) \<and> (\<forall>e\<in>set (s_irq_freelist p). e < IPC_IRQ_POOL_SIZE)"

lemma mset_concat_update:
  "c < length xss \<Longrightarrow> mset (concat (xss[c := ys])) + mset (xss ! c) = mset (concat xss) + mset ys"
proof (induction xss arbitrary: c)
  case (Cons xs xss)
  then show ?case by (cases c) (auto simp: ac_simps)
qed simp

lemma pool_invD:
  assumes "pool_inv p" "cpu < MAX_CPUS"
  shows "cpu < length (s_mag p)" "cpu < length (s_mag_n p)" "unat (s_mag_n p ! cpu) = length (s_mag p ! cpu)"
    "length (s_mag p ! cpu) \<le> 64" "unat (s_depot_n p) = length (s_depot p)" "length (s_depot p) \<le> 256"
  using assms by (simp_all add: pool_inv_def)

text \<open>Replacing one magazine and the depot together with their counters.\<close>

definition with_mag :: "nat \<Rightarrow> eptr list \<Rightarrow> u32 \<Rightarrow> eptr list \<Rightarrow> u32 \<Rightarrow> pool \<Rightarrow> pool" where
  "with_mag cpu es n ds m p = p\<lparr>s_mag := (s_mag p)[cpu := es], s_mag_n := (s_mag_n p)[cpu := n], s_depot := ds, s_depot_n := m\<rparr>"

lemma with_mag_inv:
  assumes "pool_inv p" "cpu < MAX_CPUS" "unat n = length es" "length es \<le> 64" "unat m = length ds" "length ds \<le> 256"
    "set es \<union> set ds \<subseteq> set (s_mag p ! cpu) \<union> set (s_depot p) \<union> {e. IPC_IRQ_POOL_SIZE \<le> e}"
  shows "pool_inv (with_mag cpu es n ds m p)"
  using assms by (auto simp: pool_inv_def with_mag_def nth_list_update)

lemma with_mag_free:
  assumes "pool_inv p" "cpu < MAX_CPUS" "mset es + mset ds + X = mset (s_mag p ! cpu) + mset (s_depot p) + Y"
  shows "pool_free (with_mag cpu es n ds m p) + X = pool_free p + Y"
proof -
  let ?C = "mset (concat ((s_mag p)[cpu := es]))"
  have "?C + mset (s_mag p ! cpu) = mset (concat (s_mag p)) + mset es"
    using mset_concat_update[OF pool_invD(1)[OF assms(1,2)]] .
  then have "?C + mset ds + X + mset (s_mag p ! cpu) = mset (concat (s_mag p)) + (mset es + mset ds + X)"
    by (simp add: ac_simps)
  also have "\<dots> = mset (concat (s_mag p)) + mset (s_depot p) + Y + mset (s_mag p ! cpu)"
    unfolding assms(3) by (simp add: ac_simps)
  finally have "?C + mset ds + X = mset (concat (s_mag p)) + mset (s_depot p) + Y"
    by (metis add_right_cancel)
  then show ?thesis by (simp add: pool_free_def with_mag_def ac_simps)
qed

lemma pool_update_as_with_mag:
  "p\<lparr>s_mag := (s_mag p)[cpu := es], s_mag_n := (s_mag_n p)[cpu := n]\<rparr> = with_mag cpu es n (s_depot p) (s_depot_n p) p"
  by (simp add: with_mag_def)

lemma mag_pop_facts:
  assumes "pool_inv p" "cpu < MAX_CPUS" "mag_pop cpu p = Some (p', e)"
  shows "pool_inv p'" "add_mset e (pool_free p') = pool_free p" "IPC_IRQ_POOL_SIZE \<le> e"
proof -
  note I = pool_invD[OF assms(1,2)]
  obtain es where m: "s_mag p ! cpu = e # es"
    "p' = with_mag cpu es (s_mag_n p ! cpu - 1) (s_depot p) (s_depot_n p) p"
    using assms(3) by (auto simp: mag_pop_def pool_update_as_with_mag split: list.splits)
  have "unat (s_mag_n p ! cpu - 1) = length es" using I(3) m(1) by (simp add: unat_pred_u32)
  then show "pool_inv p'" unfolding m(2) using I m(1) by (intro with_mag_inv[OF assms(1,2)]) auto
  show "add_mset e (pool_free p') = pool_free p"
    using with_mag_free[OF assms(1,2), of es "s_depot p" "{#e#}" "{#}"] m by simp
  show "IPC_IRQ_POOL_SIZE \<le> e" using assms(1,2) m(1) by (auto simp: pool_inv_def)
qed

lemma mag_refill_facts:
  assumes "pool_inv p" "cpu < MAX_CPUS" "length (s_mag p ! cpu) + room \<le> 64"
  shows "pool_inv (mag_refill room cpu p) \<and> pool_free (mag_refill room cpu p) = pool_free p"
  using assms
proof (induction room cpu p rule: mag_refill.induct)
  case (2 room cpu p)
  note I = pool_invD[OF 2(2,3)]
  show ?case
  proof (cases "s_depot p")
    case Nil
    then show ?thesis using 2 by simp
  next
    case (Cons d ds)
    let ?p = "p\<lparr>s_depot := ds, s_depot_n := s_depot_n p - 1,
             s_mag := (s_mag p)[cpu := d # s_mag p ! cpu], s_mag_n := (s_mag_n p)[cpu := s_mag_n p ! cpu + 1]\<rparr>"
    have eq: "?p = with_mag cpu (d # s_mag p ! cpu) (s_mag_n p ! cpu + 1) ds (s_depot_n p - 1) p"
      by (simp add: with_mag_def)
    have "unat (s_mag_n p ! cpu) < 64" using I(3) 2(4) by simp
    then have n: "unat (s_mag_n p ! cpu + 1) = Suc (length (s_mag p ! cpu))"
      using I(3) unat_Suc_u32[of "s_mag_n p ! cpu" 64] by (simp add: word_less_nat_alt)
    have m: "unat (s_depot_n p - 1) = length ds" using I(5) Cons by (simp add: unat_pred_u32)
    have inv: "pool_inv ?p" unfolding eq
      by (rule with_mag_inv[OF 2(2,3)]) (use I n m 2(4) Cons in auto)
    have fr: "pool_free ?p = pool_free p"
      using with_mag_free[OF 2(2,3), of "d # s_mag p ! cpu" ds "{#}" "{#}"] Cons unfolding eq by simp
    have "length (s_mag ?p ! cpu) + room \<le> 64" using 2(4) I(1) by simp
    then show ?thesis using 2(1)[OF Cons inv 2(3)] fr Cons by simp
  qed
qed simp

lemma mag_spill_facts:
  assumes "pool_inv p" "cpu < MAX_CPUS" "room \<le> length (s_mag p ! cpu)"
  shows "pool_inv (mag_spill room cpu p) \<and> pool_free (mag_spill room cpu p) = pool_free p"
  using assms
proof (induction room cpu p rule: mag_spill.induct)
  case (2 room cpu p)
  note I = pool_invD[OF 2(2,3)]
  obtain e es where m: "s_mag p ! cpu = e # es" using 2(4) by (cases "s_mag p ! cpu") auto
  show ?case
  proof (cases "s_depot_n p < IPC_DEPOT_CACHE_MAX")
    case False
    then show ?thesis using 2 by simp
  next
    case True
    let ?p = "p\<lparr>s_mag := (s_mag p)[cpu := tl (s_mag p ! cpu)], s_mag_n := (s_mag_n p)[cpu := s_mag_n p ! cpu - 1],
           s_depot := hd (s_mag p ! cpu) # s_depot p, s_depot_n := s_depot_n p + 1\<rparr>"
    have eq: "?p = with_mag cpu es (s_mag_n p ! cpu - 1) (e # s_depot p) (s_depot_n p + 1) p"
      by (simp add: with_mag_def m)
    have d: "unat (s_depot_n p) < 256" using True by (simp add: IPC_DEPOT_CACHE_MAX_def word_less_nat_alt)
    have n: "unat (s_mag_n p ! cpu - 1) = length es" using I(3) m by (simp add: unat_pred_u32)
    have dn: "unat (s_depot_n p + 1) = Suc (length (s_depot p))" using I(5) unat_Suc_u32[OF True] by simp
    have inv: "pool_inv ?p" unfolding eq
      by (rule with_mag_inv[OF 2(2,3)]) (use I n dn d m in auto)
    have fr: "pool_free ?p = pool_free p"
      using with_mag_free[OF 2(2,3), of es "e # s_depot p" "{#}" "{#}"] m unfolding eq by simp
    have "room \<le> length (s_mag ?p ! cpu)" using 2(4) I(1) by simp
    then show ?thesis using 2(1)[OF True inv 2(3)] fr True by simp
  qed
qed simp

lemma mag_push_facts:
  assumes "pool_inv p" "cpu < MAX_CPUS" "s_mag_n p ! cpu < IPC_MAG_CAP" "IPC_IRQ_POOL_SIZE \<le> e"
  shows "pool_inv (mag_push cpu e p)" "pool_free (mag_push cpu e p) = add_mset e (pool_free p)"
proof -
  note I = pool_invD[OF assms(1,2)]
  have eq: "mag_push cpu e p = with_mag cpu (e # s_mag p ! cpu) (s_mag_n p ! cpu + 1) (s_depot p) (s_depot_n p) p"
    by (simp add: mag_push_def with_mag_def)
  have l: "unat (s_mag_n p ! cpu) < 64" using assms(3) by (simp add: IPC_MAG_CAP_def word_less_nat_alt)
  show "pool_inv (mag_push cpu e p)" unfolding eq
    by (rule with_mag_inv[OF assms(1,2)]) (use I l unat_Suc_u32[OF assms(3)] assms(4) in auto)
  show "pool_free (mag_push cpu e p) = add_mset e (pool_free p)"
    using with_mag_free[OF assms(1,2), of "e # s_mag p ! cpu" "s_depot p" "{#}" "{#e#}"] unfolding eq by simp
qed

lemma entry_alloc_facts:
  assumes "pool_inv p" "cpu < MAX_CPUS" "entry_alloc cpu km p = (p', r)" "\<And>e. km = Some e \<Longrightarrow> IPC_IRQ_POOL_SIZE \<le> e"
  shows "pool_inv p'"
    "case r of
       None \<Rightarrow> km = None \<and> pool_free p' = pool_free p
     | Some e \<Rightarrow> IPC_IRQ_POOL_SIZE \<le> e \<and>
         (add_mset e (pool_free p') = pool_free p \<or> km = Some e \<and> pool_free p' = pool_free p)"
proof -
  let ?p1 = "mag_refill (unat IPC_MAG_BATCH) cpu p"
  have "pool_inv p' \<and> (case r of
       None \<Rightarrow> km = None \<and> pool_free p' = pool_free p
     | Some e \<Rightarrow> IPC_IRQ_POOL_SIZE \<le> e \<and>
         (add_mset e (pool_free p') = pool_free p \<or> km = Some e \<and> pool_free p' = pool_free p))"
  proof (cases "mag_pop cpu p")
    case (Some pe)
    obtain p1 e where pe: "pe = (p1, e)" by fastforce
    have "mag_pop cpu p = Some (p1, e)" using Some pe by simp
    then show ?thesis using mag_pop_facts[OF assms(1,2)] assms(3) Some pe by (auto simp: entry_alloc_def)
  next
    case None
    then have "s_mag p ! cpu = []" by (auto simp: mag_pop_def split: list.splits)
    then have R: "pool_inv ?p1" "pool_free ?p1 = pool_free p"
      using mag_refill_facts[OF assms(1,2), of "unat IPC_MAG_BATCH"] by (simp_all add: IPC_MAG_BATCH_def)
    show ?thesis
    proof (cases "mag_pop cpu ?p1")
      case (Some pe)
      obtain p2 e where pe: "pe = (p2, e)" by fastforce
      have "mag_pop cpu ?p1 = Some (p2, e)" using Some pe by simp
      from mag_pop_facts[OF R(1) assms(2) this] show ?thesis
        using assms(3) None Some pe R by (auto simp: entry_alloc_def)
    next
      case None2: None
      then show ?thesis using None assms(3,4) R by (auto simp: entry_alloc_def split: option.splits)
    qed
  qed
  then show "pool_inv p'" "case r of
       None \<Rightarrow> km = None \<and> pool_free p' = pool_free p
     | Some e \<Rightarrow> IPC_IRQ_POOL_SIZE \<le> e \<and>
         (add_mset e (pool_free p') = pool_free p \<or> km = Some e \<and> pool_free p' = pool_free p)" by blast+
qed

lemma entry_free_facts:
  assumes "pool_inv p" "cpu < MAX_CPUS" "ipc_msg_entry_free cpu e p = (p', fr)"
  shows "pool_inv p'" "pool_free p' + mset fr = add_mset e (pool_free p)"
proof -
  have "pool_inv p' \<and> pool_free p' + mset fr = add_mset e (pool_free p)"
  proof (cases "e < IPC_IRQ_POOL_SIZE")
    case True
    then show ?thesis using assms by (auto simp: ipc_msg_entry_free_def pool_inv_def pool_free_def)
  next
    case heap: False
    show ?thesis
    proof (cases "s_mag_n p ! cpu < IPC_MAG_CAP")
      case True
      then show ?thesis using mag_push_facts[OF assms(1,2) True, of e] heap assms(3)
        by (auto simp: ipc_msg_entry_free_def)
    next
      case False
      let ?p1 = "mag_spill (unat IPC_MAG_BATCH) cpu p"
      have "32 \<le> length (s_mag p ! cpu)"
        using False pool_invD(3)[OF assms(1,2)] by (simp add: IPC_MAG_CAP_def word_less_nat_alt)
      then have R: "pool_inv ?p1" "pool_free ?p1 = pool_free p"
        using mag_spill_facts[OF assms(1,2), of "unat IPC_MAG_BATCH"] by (simp_all add: IPC_MAG_BATCH_def)
      then show ?thesis
        using mag_push_facts[OF R(1) assms(2), of e] heap False assms(3)
        by (auto simp: ipc_msg_entry_free_def Let_def split: if_splits)
    qed
  qed
  then show "pool_inv p'" "pool_free p' + mset fr = add_mset e (pool_free p)" by blast+
qed

lemma depot_trim_loop_facts:
  assumes "pool_inv p" "depot_trim_loop p chain taken = (p', fr, n)"
  shows "pool_inv p' \<and> pool_free p' + mset fr = pool_free p + mset chain \<and> length (s_depot p') = min 32 (length (s_depot p)) \<and>
    n = taken + of_nat (length fr - length chain) \<and> length chain \<le> length fr \<and> s_irq_freelist p' = s_irq_freelist p \<and>
    length fr - length chain = length (s_depot p) - 32"
  using assms
proof (induction p chain taken rule: depot_trim_loop.induct)
  case (1 p chain taken)
  have d: "unat (s_depot_n p) = length (s_depot p)" using 1(2) by (simp add: pool_inv_def)
  show ?case
  proof (cases "s_depot_n p > IPC_MAG_BATCH")
    case False
    then show ?thesis
      using 1(2,3) d by (subst (asm) depot_trim_loop.simps) (auto simp: IPC_MAG_BATCH_def word_less_nat_alt min_def)
  next
    case True
    then have l: "32 < length (s_depot p)" using d by (simp add: IPC_MAG_BATCH_def word_less_nat_alt)
    then obtain e es where m: "s_depot p = e # es" by (cases "s_depot p") auto
    let ?p = "p\<lparr>s_depot := tl (s_depot p), s_depot_n := s_depot_n p - 1\<rparr>"
    have un: "unat (s_depot_n p - 1) = length es" using d m by (simp add: unat_pred_u32)
    have inv: "pool_inv ?p" using 1(2) m un by (auto simp: pool_inv_def)
    have step: "depot_trim_loop ?p (hd (s_depot p) # chain) (taken + 1) = (p', fr, n)"
      using 1(3) True by (subst (asm) depot_trim_loop.simps) simp
    have fr: "pool_free p = add_mset e (pool_free ?p)" using m by (simp add: pool_free_def)
    note IH = 1(1)[OF True inv step]
    have "pool_free p' + mset fr = pool_free p + mset chain" using IH fr m by simp
    moreover have "n = taken + of_nat (length fr - length chain)"
      using IH by (auto simp: Suc_diff_Suc[symmetric] of_nat_Suc)
    ultimately show ?thesis using IH m l by auto
  qed
qed

lemma pool_init_inv: "pool_inv pool_init"
  by (auto simp: pool_inv_def pool_init_def MAX_CPUS_def)

text \<open>
  All histories of the pool, with the set of entries that callers hold: entries are allocated on any CPU
  or from interrupts, given back on any CPU, and the depot is trimmed.  The heap answers with entries
  that are in no list and in nobody's hands.
\<close>

inductive pool_reach :: "pool \<Rightarrow> eptr set \<Rightarrow> bool" where
  pool_start: "pool_reach pool_init {}"
| pool_alloc: "pool_reach p U \<Longrightarrow> cpu < MAX_CPUS \<Longrightarrow>
    (\<And>e. km = Some e \<Longrightarrow> IPC_IRQ_POOL_SIZE \<le> e \<and> e \<notin># pool_free p \<and> e \<notin> U) \<Longrightarrow>
    entry_alloc cpu km p = (p', Some e) \<Longrightarrow> pool_reach p' (insert e U)"
| pool_alloc_irq: "pool_reach p U \<Longrightarrow> entry_alloc_irq p = (p', Some e) \<Longrightarrow> pool_reach p' (insert e U)"
| pool_drop_irq: "pool_reach p U \<Longrightarrow> entry_alloc_irq p = (p', None) \<Longrightarrow> pool_reach p' U"
| pool_give: "pool_reach p U \<Longrightarrow> cpu < MAX_CPUS \<Longrightarrow> e \<in> U \<Longrightarrow>
    ipc_msg_entry_free cpu e p = (p', fr) \<Longrightarrow> pool_reach p' (U - {e})"
| pool_trim: "pool_reach p U \<Longrightarrow> ipc_depot_trim p = (p', fr, bytes) \<Longrightarrow> pool_reach p' U"

definition pool_once :: "pool \<Rightarrow> eptr set \<Rightarrow> bool" where
  "pool_once p U \<longleftrightarrow> (\<forall>e. count (pool_free p) e + (if e \<in> U then 1 else 0) \<le> 1)"

lemma entry_alloc_irq_inv: "pool_inv p \<Longrightarrow> pool_inv (fst (entry_alloc_irq p))"
  by (auto simp: entry_alloc_irq_def pool_inv_def split: list.splits)

lemma entry_alloc_irq_facts:
  assumes "entry_alloc_irq p = (p', r)"
  shows "case r of Some e \<Rightarrow> add_mset e (pool_free p') = pool_free p \<and> s_irq_freelist p = e # s_irq_freelist p'
                 | None \<Rightarrow> pool_free p' = pool_free p \<and> s_irq_freelist p = [] \<and> s_irq_freelist p' = []"
  using assms by (auto simp: entry_alloc_irq_def pool_free_def split: list.splits)

lemma ipc_depot_trim_facts:
  assumes "pool_inv p" "ipc_depot_trim p = (p', fr, bytes)"
  shows "pool_inv p'" "pool_free p' + mset fr = pool_free p" "s_irq_freelist p' = s_irq_freelist p"
    "length (s_depot p') = min 32 (length (s_depot p))" "bytes = of_nat (length fr) * sizeof_port_msg_entry"
  using assms depot_trim_loop_facts[OF assms(1), of "[]" 0] by (auto simp: ipc_depot_trim_def split: prod.splits)

lemma entry_free_irq:
  assumes "ipc_msg_entry_free cpu e p = (p', fr)"
  shows "s_irq_freelist p' = (if e < IPC_IRQ_POOL_SIZE then [e] else []) @ s_irq_freelist p"
proof -
  have "s_irq_freelist (mag_spill n cpu p) = s_irq_freelist p" for n p
    by (induction n cpu p rule: mag_spill.induct) simp_all
  then show ?thesis using assms by (auto simp: ipc_msg_entry_free_def mag_push_def Let_def split: if_splits)
qed

lemma entry_alloc_irq_list:
  assumes "entry_alloc cpu km p = (p', r)"
  shows "s_irq_freelist p' = s_irq_freelist p"
proof -
  have "s_irq_freelist (mag_refill n cpu p) = s_irq_freelist p" for n p
    by (induction n cpu p rule: mag_refill.induct) (auto split: list.splits)
  then show ?thesis using assms by (auto simp: entry_alloc_def mag_pop_def Let_def split: option.splits list.splits)
qed

lemma pool_once_add:
  assumes "pool_once p U" "add_mset e (pool_free p') = pool_free p"
  shows "e \<notin> U" "pool_once p' (insert e U)"
proof -
  have c: "count (pool_free p) x = count (pool_free p') x + (if x = e then 1 else 0)" for x
    using assms(2)[symmetric] by simp
  have o: "count (pool_free p) x + (if x \<in> U then 1 else 0) \<le> 1" for x
    using assms(1) by (simp add: pool_once_def)
  show "e \<notin> U" using o[of e] c[of e] by (auto split: if_splits)
  show "pool_once p' (insert e U)"
    unfolding pool_once_def
  proof
    fix x
    show "count (pool_free p') x + (if x \<in> insert e U then 1 else 0) \<le> 1"
      using o[of x] c[of x] by (cases "x = e") (auto split: if_splits)
  qed
qed

lemma pool_once_give:
  assumes "pool_once p U" "e \<in> U" "pool_free p' + mset fr = add_mset e (pool_free p)"
  shows "pool_once p' (U - {e})"
  unfolding pool_once_def
proof
  fix x
  have "count (pool_free p') x + count (mset fr) x = count (pool_free p) x + (if x = e then 1 else 0)"
    using arg_cong[OF assms(3), of "\<lambda>m. count m x"] by simp
  moreover have "count (pool_free p) x + (if x \<in> U then 1 else 0) \<le> 1" using assms(1) by (simp add: pool_once_def)
  ultimately show "count (pool_free p') x + (if x \<in> U - {e} then 1 else 0) \<le> 1"
    using assms(2) by (auto split: if_splits)
qed

lemma pool_once_drop:
  assumes "pool_once p U" "pool_free p' + X = pool_free p"
  shows "pool_once p' U"
  unfolding pool_once_def
proof
  fix x
  have "count (pool_free p') x + count X x = count (pool_free p) x"
    using arg_cong[OF assms(2), of "\<lambda>m. count m x"] by simp
  moreover have "count (pool_free p) x + (if x \<in> U then 1 else 0) \<le> 1" using assms(1) by (simp add: pool_once_def)
  ultimately show "count (pool_free p') x + (if x \<in> U then 1 else 0) \<le> 1" by linarith
qed

lemma pool_alloc_once:
  assumes "pool_inv p" "pool_once p U" "cpu < MAX_CPUS" "entry_alloc cpu km p = (p', Some e)"
    and "\<And>e. km = Some e \<Longrightarrow> IPC_IRQ_POOL_SIZE \<le> e \<and> e \<notin># pool_free p \<and> e \<notin> U"
  shows "pool_inv p'" "e \<notin> U" "pool_once p' (insert e U)" "IPC_IRQ_POOL_SIZE \<le> e"
proof -
  have a: "\<And>e. km = Some e \<Longrightarrow> IPC_IRQ_POOL_SIZE \<le> e" using assms(5) by blast
  note F = entry_alloc_facts[OF assms(1,3,4) a]
  show "pool_inv p'" by (rule F(1))
  show "IPC_IRQ_POOL_SIZE \<le> e" using F(2) by simp
  consider "add_mset e (pool_free p') = pool_free p" | "km = Some e" "pool_free p' = pool_free p" using F(2) by auto
  then have "e \<notin> U \<and> pool_once p' (insert e U)"
  proof cases
    case 1
    then show ?thesis using pool_once_add[OF assms(2)] by blast
  next
    case 2
    then have "count (pool_free p') e = 0" using assms(5)[of e] by (simp add: not_in_iff)
    moreover have "count (pool_free p) x + (if x \<in> U then 1 else 0) \<le> 1" for x
      using assms(2) by (simp add: pool_once_def)
    then have "count (pool_free p') x + (if x \<in> insert e U then 1 else 0) \<le> 1" for x
      using calculation 2(2) by (cases "x = e") auto
    ultimately show ?thesis using 2(1) assms(5) by (auto simp: pool_once_def)
  qed
  then show "e \<notin> U" "pool_once p' (insert e U)" by blast+
qed

lemma pool_reach_inv:
  "pool_reach p U \<Longrightarrow> pool_inv p \<and> pool_once p U \<and> {..<IPC_IRQ_POOL_SIZE} = set (s_irq_freelist p) \<union> (U \<inter> {..<IPC_IRQ_POOL_SIZE})"
proof (induction rule: pool_reach.induct)
  case pool_start
  have "count (pool_free pool_init) e \<le> 1" for e
    using distinct_count_atmost_1[of "[0..<IPC_IRQ_POOL_SIZE]"] by (simp add: pool_free_def pool_init_def)
  then show ?case using pool_init_inv by (auto simp: pool_once_def) (auto simp: pool_init_def)
next
  case (pool_alloc p U cpu km p' e)
  have "pool_inv p" "pool_once p U" using pool_alloc.IH by blast+
  note A = pool_alloc_once[OF this pool_alloc.hyps(2,4,3)]
  then show ?case
    using pool_alloc.IH entry_alloc_irq_list[OF pool_alloc.hyps(4)] by auto
next
  case (pool_alloc_irq p U p' e)
  note F = entry_alloc_irq_facts[OF pool_alloc_irq(2)]
  have "e < IPC_IRQ_POOL_SIZE" using F pool_alloc_irq(3) by (auto simp: pool_inv_def)
  then show ?case
    using F pool_alloc_irq pool_once_add[of p U e p'] entry_alloc_irq_inv[of p] by auto
next
  case (pool_drop_irq p U p')
  then show ?case
    using entry_alloc_irq_facts[OF pool_drop_irq(2)] entry_alloc_irq_inv[of p] by (auto simp: pool_once_def)
next
  case (pool_give p U cpu e p' fr)
  note F = entry_free_facts[OF _ pool_give(2,4)]
  then show ?case
    using pool_give(3,5) pool_once_give[of p U e p' fr] entry_free_irq[OF pool_give(4)] by (auto split: if_splits)
next
  case (pool_trim p U p' fr bytes)
  then show ?case using ipc_depot_trim_facts[of p p' fr bytes] pool_once_drop[of p U p' "mset fr"] by auto
qed

lemma msg_pool_facts:
  assumes "pool_reach p U"
  shows "cpu < MAX_CPUS \<Longrightarrow> (\<And>e. km = Some e \<Longrightarrow> IPC_IRQ_POOL_SIZE \<le> e \<and> e \<notin># pool_free p \<and> e \<notin> U) \<Longrightarrow>
      (case entry_alloc cpu km p of (p', Some e) \<Rightarrow> e \<notin> U | (p', None) \<Rightarrow> km = None)"
    and "case entry_alloc_irq p of (p', Some e) \<Rightarrow> e \<notin> U \<and> e < IPC_IRQ_POOL_SIZE | (p', None) \<Rightarrow> {..<IPC_IRQ_POOL_SIZE} \<subseteq> U"
    and "cpu < MAX_CPUS \<Longrightarrow> length (s_mag p ! cpu) \<le> 64 \<and> length (s_depot p) \<le> 256"
proof -
  note I = pool_reach_inv[OF assms]
  show "cpu < MAX_CPUS \<Longrightarrow> (\<And>e. km = Some e \<Longrightarrow> IPC_IRQ_POOL_SIZE \<le> e \<and> e \<notin># pool_free p \<and> e \<notin> U) \<Longrightarrow>
      (case entry_alloc cpu km p of (p', Some e) \<Rightarrow> e \<notin> U | (p', None) \<Rightarrow> km = None)"
    using pool_alloc_once(2)[of p U cpu km] entry_alloc_facts(2)[of p cpu km] I
    by (fastforce split: prod.splits option.splits)
  show "case entry_alloc_irq p of (p', Some e) \<Rightarrow> e \<notin> U \<and> e < IPC_IRQ_POOL_SIZE | (p', None) \<Rightarrow> {..<IPC_IRQ_POOL_SIZE} \<subseteq> U"
    using entry_alloc_irq_facts[of p] pool_once_add(1)[of p U] I
    by (fastforce simp: pool_inv_def split: prod.splits option.splits)
  show "cpu < MAX_CPUS \<Longrightarrow> length (s_mag p ! cpu) \<le> 64 \<and> length (s_depot p) \<le> 256"
    using I pool_invD by blast
qed

text \<open>
  C26: In every history of the message pool an entry is never handed out while somebody holds it,
  neither by the magazines nor by the heap nor by the interrupt pool, and the interrupt pool
  refuses exactly when all its 512 entries are held; magazines never exceed 64 entries and the depot 256.
\<close>
theorem msg_pool_exclusive:
  assumes "pool_reach p U" "cpu < MAX_CPUS"
    and "\<And>e. km = Some e \<Longrightarrow> IPC_IRQ_POOL_SIZE \<le> e \<and> e \<notin># pool_free p \<and> e \<notin> U"
  shows "(case entry_alloc cpu km p of (p', Some e) \<Rightarrow> e \<notin> U | (p', None) \<Rightarrow> km = None) \<and>
    (case entry_alloc_irq p of (p', Some e) \<Rightarrow> e \<notin> U \<and> e < IPC_IRQ_POOL_SIZE | (p', None) \<Rightarrow> {..<IPC_IRQ_POOL_SIZE} \<subseteq> U) \<and>
    length (s_mag p ! cpu) \<le> 64 \<and> length (s_depot p) \<le> 256"
  by (intro conjI msg_pool_facts(1)[OF assms(1,2)] msg_pool_facts(2)[OF assms(1)])
    (use assms(3) msg_pool_facts(3)[OF assms(1,2)] in simp_all)

theorem msg_pool_exclusive_witness:
  "pool_reach pool_init {} \<and> entry_alloc 0 (Some 600) pool_init = (pool_init, Some 600) \<and>
   (case entry_alloc_irq pool_init of (p', Some e) \<Rightarrow> e \<notin> {} \<and> e < IPC_IRQ_POOL_SIZE | (p', None) \<Rightarrow> {..<IPC_IRQ_POOL_SIZE} \<subseteq> {})"
proof (intro conjI)
  show "pool_reach pool_init {}" by (rule pool_start)
  show "entry_alloc 0 (Some 600) pool_init = (pool_init, Some 600)" by code_simp
  have "0 < MAX_CPUS" by (simp add: MAX_CPUS_def)
  moreover have "Some 600 = Some e \<Longrightarrow> IPC_IRQ_POOL_SIZE \<le> e \<and> e \<notin># pool_free pool_init \<and> e \<notin> {}" for e
    by (auto simp: MAX_CPUS_def IPC_IRQ_POOL_SIZE_def pool_free_def pool_init_def)
  ultimately show "case entry_alloc_irq pool_init of (p', Some e) \<Rightarrow> e \<notin> {} \<and> e < IPC_IRQ_POOL_SIZE
      | (p', None) \<Rightarrow> {..<IPC_IRQ_POOL_SIZE} \<subseteq> {}"
    by (rule msg_pool_exclusive[OF pool_start, of 0 "Some 600", THEN conjunct2, THEN conjunct1])
qed

end
