(* ===== verification/Port.thy ===== *)
theory Port
  imports Wait Msg_Pool Refcount
begin

text \<open>
  The life of IPC ports, \<^verbatim>\<open>kernel/ipc/port.c\<close> and \<^verbatim>\<open>port.h\<close>: the table from ids to structures with its free
  list, the generation of each id, reference counts, the stack of recycled structures, and the
  table of death watches.  A structure is an address in a store; the wait queues embedded in it
  have addresses of their own in the store of \<^verbatim>\<open>Wait\<close>.  The free list and the recycling stack
  are lists with the top first.  What \<^verbatim>\<open>kcalloc\<close> answers and whether the owner exists are arguments; what is
  given to \<^verbatim>\<open>kfree\<close> is recorded in the state.  The part of \<^verbatim>\<open>ipc_port_destroy\<close> under the global lock
  is a definition of its own; the rest of it calls the channel and is in \<^verbatim>\<open>Channel\<close>.

  The invariant counts the references that are outstanding.  It gives: an id is handed out
  again only when no reference to its former port is left, and a binding of id and generation never
  reaches a later port of the same id.
\<close>

type_synonym pptr = nat

definition MAX_PORTS :: u32 where "MAX_PORTS = 4096"
definition PORT_QUEUE_MAX :: u32 where "PORT_QUEUE_MAX = 256"
definition PORT_RECYCLE_MAX :: nat where "PORT_RECYCLE_MAX = 64"
definition DEATHWATCH_MAX :: nat where "DEATHWATCH_MAX = 8192"

definition IPC_OK :: int where "IPC_OK = 0"
definition IPC_ERR_NO_PORT :: int where "IPC_ERR_NO_PORT = -1"
definition IPC_ERR_PORT_FULL :: int where "IPC_ERR_PORT_FULL = -2"
definition IPC_ERR_DENIED :: int where "IPC_ERR_DENIED = -4"
definition IPC_ERR_INVALID :: int where "IPC_ERR_INVALID = -5"
definition IPC_ERR_DEAD :: int where "IPC_ERR_DEAD = -6"
definition IPC_ERR_NO_MEMORY :: int where "IPC_ERR_NO_MEMORY = -7"
definition IPC_ERR_EMPTY :: int where "IPC_ERR_EMPTY = -8"

definition IPC_MSG_REQUEST :: u32 where "IPC_MSG_REQUEST = 1"
definition IPC_MSG_REPLY :: u32 where "IPC_MSG_REPLY = 2"
definition IPC_MSG_NOTIFY :: u32 where "IPC_MSG_NOTIFY = 3"
definition IPC_MSG_SIGNAL :: u32 where "IPC_MSG_SIGNAL = 4"

record ipc_message =
  msg_type :: u32
  sender_pid :: int
  sender_tid :: int
  msg_code :: u32
  arg0 :: u32
  arg1 :: u32
  arg2 :: u32
  arg3 :: u32
  payload_size :: u32
  payload :: "nat option"

record port_msg_entry =
  en_msg :: ipc_message
  en_payload_owned :: bool

datatype port_state = PORT_ACTIVE | PORT_CLOSED

record ipc_port =
  p_id :: u32
  p_owner_pid :: int
  p_state :: port_state
  p_generation :: u32
  p_refcount :: refcount_t
  p_msg_queue :: "eptr list"
  p_msg_count :: u32
  p_pending_senders :: "nat list"
  p_notify_bits :: u32
  p_owner_linked :: bool

record deathwatch =
  dw_used :: bool
  dw_watcher_pid :: int
  dw_notify_port :: u32
  dw_code :: u32
  dw_target_port :: u32
  dw_target_gen :: u32

record pending_reply =
  pr_reply_buf :: ipc_message
  pr_reply_received :: bool
  pr_port_dead :: bool
  pr_target_port_id :: u32
  pr_target_port_gen :: u32

datatype freed = Payload nat | Entry eptr | Struct pptr

record ipc =
  i_k :: kstate
  i_pool :: pool
  i_entries :: "eptr \<Rightarrow> port_msg_entry"
  i_table :: "pptr option list"
  i_freelist :: "u32 list"
  i_generation :: "u32 list"
  i_recycle :: "pptr list"
  i_ports :: "pptr \<Rightarrow> ipc_port"
  i_owned :: "int \<Rightarrow> pptr list"
  i_dw :: "deathwatch list"
  i_slot :: "nat \<Rightarrow> bool"
  i_pend :: "nat \<Rightarrow> pending_reply"
  i_freed :: "freed list"

text \<open>The addresses of the wait queues inside a port and inside the pending reply of a thread.\<close>

definition recv_wq :: "pptr \<Rightarrow> wqptr" where "recv_wq p = 3 * p"
definition notify_wq :: "pptr \<Rightarrow> wqptr" where "notify_wq p = 3 * p + 1"
definition reply_wq :: "nat \<Rightarrow> wqptr" where "reply_wq tid = 3 * tid + 2"

definition upd_port :: "pptr \<Rightarrow> (ipc_port \<Rightarrow> ipc_port) \<Rightarrow> ipc \<Rightarrow> ipc" where
  "upd_port p f s = s\<lparr>i_ports := (i_ports s)(p := f (i_ports s p))\<rparr>"

definition kfree_log :: "freed list \<Rightarrow> ipc \<Rightarrow> ipc" where
  "kfree_log xs s = s\<lparr>i_freed := i_freed s @ xs\<rparr>"

subsection \<open>Structures\<close>

definition zero_port :: ipc_port where
  "zero_port = \<lparr>p_id = 0, p_owner_pid = 0, p_state = PORT_ACTIVE, p_generation = 0, p_refcount = 0,
     p_msg_queue = [], p_msg_count = 0, p_pending_senders = [], p_notify_bits = 0, p_owner_linked = False\<rparr>"

definition port_struct_alloc :: "pptr option \<Rightarrow> ipc \<Rightarrow> ipc \<times> pptr option" where
  "port_struct_alloc kcalloc s =
     (case i_recycle s of
        p # ps \<Rightarrow> (upd_port p (\<lambda>_. zero_port) (s\<lparr>i_recycle := ps\<rparr>), Some p)
      | [] \<Rightarrow> (case kcalloc of Some p \<Rightarrow> (upd_port p (\<lambda>_. zero_port) s, Some p) | None \<Rightarrow> (s, None)))"

definition port_struct_free :: "pptr \<Rightarrow> ipc \<Rightarrow> ipc" where
  "port_struct_free p s =
     (if length (i_recycle s) < PORT_RECYCLE_MAX then s\<lparr>i_recycle := p # i_recycle s\<rparr>
      else kfree_log [Struct p] s)"

definition entry_discard :: "nat \<Rightarrow> eptr \<Rightarrow> ipc \<Rightarrow> ipc" where
  "entry_discard cpu e s =
     (let en = i_entries s e;
          s1 = (case payload (en_msg en) of
                  Some b \<Rightarrow> if en_payload_owned en then kfree_log [Payload b] s else s
                | None \<Rightarrow> s)
      in case ipc_msg_entry_free cpu e (i_pool s1) of
           (pl, fr) \<Rightarrow> kfree_log (List.map Entry fr) (s1\<lparr>i_pool := pl\<rparr>))"

definition port_teardown :: "nat \<Rightarrow> pptr \<Rightarrow> ipc \<Rightarrow> ipc" where
  "port_teardown cpu p s =
     (let port_id = p_id (i_ports s p);
          s1 = fold (entry_discard cpu) (p_msg_queue (i_ports s p)) s;
          s2 = upd_port p (\<lambda>r. r\<lparr>p_msg_queue := []\<rparr>) s1;
          s3 = port_struct_free p s2
      in s3\<lparr>i_freelist := port_id # i_freelist s3\<rparr>)"

subsection \<open>The operations on ports\<close>

definition ipc_port_init :: "ipc \<Rightarrow> ipc" where
  "ipc_port_init s = s\<lparr>i_table := replicate (unat MAX_PORTS) None, i_freelist := words_from 1 MAX_PORTS\<rparr>"

definition ipc_port_create :: "(int \<Rightarrow> bool) \<Rightarrow> pptr option \<Rightarrow> int \<Rightarrow> ipc \<Rightarrow> ipc \<times> int" where
  "ipc_port_create process_exists kcalloc owner_pid s =
     (case i_freelist s of
        [] \<Rightarrow> (s, IPC_ERR_NO_MEMORY)
      | i # rest \<Rightarrow>
          (case port_struct_alloc kcalloc (s\<lparr>i_freelist := rest\<rparr>) of
             (s1, None) \<Rightarrow> (s1\<lparr>i_freelist := i # i_freelist s1\<rparr>, IPC_ERR_NO_MEMORY)
           | (s1, Some p) \<Rightarrow>
               let gen = i_generation s1 ! unat i + 1;
                   s2 = s1\<lparr>i_generation := (i_generation s1)[unat i := gen]\<rparr>;
                   s3 = upd_port p (\<lambda>r. r\<lparr>p_id := i, p_owner_pid := owner_pid, p_state := PORT_ACTIVE,
                          p_generation := gen, p_refcount := refcount_init 1, p_msg_queue := [], p_msg_count := 0,
                          p_pending_senders := [], p_notify_bits := 0, p_owner_linked := False\<rparr>) s2;
                   s4 = s3\<lparr>i_k := wait_queue_init (notify_wq p) (wait_queue_init (recv_wq p) (i_k s3)),
                           i_table := (i_table s3)[unat i := Some p]\<rparr>;
                   s5 = (if process_exists owner_pid
                         then upd_port p (\<lambda>r. r\<lparr>p_owner_linked := True\<rparr>)
                                (s4\<lparr>i_owned := (i_owned s4)(owner_pid := i_owned s4 owner_pid @ [p])\<rparr>)
                         else s4)
               in (s5, uint i)))"

text \<open>The part of \<^verbatim>\<open>ipc_port_destroy\<close> under the global lock: the port, whether it has pending senders, its generation.\<close>

definition port_unlink :: "u32 \<Rightarrow> ipc \<Rightarrow> ipc \<times> (pptr \<times> bool \<times> u32) option" where
  "port_unlink port_id s =
     (if port_id = 0 \<or> port_id \<ge> MAX_PORTS then (s, None)
      else case i_table s ! unat port_id of
        None \<Rightarrow> (s, None)
      | Some p \<Rightarrow>
          let s1 = upd_port p (\<lambda>r. r\<lparr>p_state := PORT_CLOSED\<rparr>) s;
              has_pending = (p_pending_senders (i_ports s1 p) \<noteq> []);
              dead_gen = p_generation (i_ports s1 p);
              s2 = s1\<lparr>i_table := (i_table s1)[unat port_id := None]\<rparr>;
              s3 = (if p_owner_linked (i_ports s2 p)
                    then let ow = p_owner_pid (i_ports s2 p)
                         in upd_port p (\<lambda>r. r\<lparr>p_owner_linked := False\<rparr>)
                              (s2\<lparr>i_owned := (i_owned s2)(ow := remove1 p (i_owned s2 ow))\<rparr>)
                    else s2)
          in (s3, Some (p, has_pending, dead_gen)))"

definition port_drop :: "nat \<Rightarrow> pptr \<Rightarrow> ipc \<Rightarrow> ipc" where
  "port_drop cpu p s =
     (case refcount_dec (p_refcount (i_ports s p)) of
        (rc, z) \<Rightarrow> let s1 = upd_port p (\<lambda>r. r\<lparr>p_refcount := rc\<rparr>) s in if z then port_teardown cpu p s1 else s1)"

definition live_port :: "u32 \<Rightarrow> ipc \<Rightarrow> pptr option" where
  "live_port port_id s =
     (case i_table s ! unat port_id of
        Some p \<Rightarrow> if p_state (i_ports s p) \<noteq> PORT_CLOSED then Some p else None
      | None \<Rightarrow> None)"

definition take_ref :: "pptr \<Rightarrow> ipc \<Rightarrow> ipc" where
  "take_ref p s = upd_port p (\<lambda>r. r\<lparr>p_refcount := refcount_inc (p_refcount r)\<rparr>) s"

definition ipc_port_get :: "u32 \<Rightarrow> ipc \<Rightarrow> ipc \<times> pptr option" where
  "ipc_port_get port_id s =
     (if port_id = 0 \<or> port_id \<ge> MAX_PORTS then (s, None)
      else case live_port port_id s of
        Some p \<Rightarrow> (take_ref p s, Some p)
      | None \<Rightarrow> (s, None))"

definition ipc_port_get_checked :: "u32 \<Rightarrow> u32 \<Rightarrow> ipc \<Rightarrow> ipc \<times> pptr option" where
  "ipc_port_get_checked port_id gen s =
     (if port_id = 0 \<or> port_id \<ge> MAX_PORTS then (s, None)
      else case live_port port_id s of
        Some p \<Rightarrow> if p_generation (i_ports s p) = gen then (take_ref p s, Some p) else (s, None)
      | None \<Rightarrow> (s, None))"

definition ipc_port_generation :: "u32 \<Rightarrow> ipc \<Rightarrow> u32" where
  "ipc_port_generation port_id s =
     (if port_id = 0 \<or> port_id \<ge> MAX_PORTS then 0
      else case live_port port_id s of Some p \<Rightarrow> p_generation (i_ports s p) | None \<Rightarrow> 0)"

definition ipc_port_put :: "nat \<Rightarrow> pptr option \<Rightarrow> ipc \<Rightarrow> ipc" where
  "ipc_port_put cpu port s = (case port of None \<Rightarrow> s | Some p \<Rightarrow> port_drop cpu p s)"

subsection \<open>Death watches\<close>

definition deathwatch_init :: "ipc \<Rightarrow> ipc" where
  "deathwatch_init s = s\<lparr>i_dw := replicate DEATHWATCH_MAX
     \<lparr>dw_used = False, dw_watcher_pid = 0, dw_notify_port = 0, dw_code = 0, dw_target_port = 0, dw_target_gen = 0\<rparr>\<rparr>"

text \<open>The first test of \<^verbatim>\<open>deathwatch_add\<close> is made before the table is locked; the rest is one step.\<close>

definition deathwatch_alive :: "u32 \<Rightarrow> u32 \<Rightarrow> ipc \<Rightarrow> bool" where
  "deathwatch_alive target_port target_gen s \<longleftrightarrow>
     \<not> (target_gen = 0 \<or> ipc_port_generation target_port s \<noteq> target_gen)"

definition dw_matches :: "u32 \<Rightarrow> u32 \<Rightarrow> u32 \<Rightarrow> deathwatch \<Rightarrow> bool" where
  "dw_matches notify_port target_port target_gen d \<longleftrightarrow> dw_used d \<and> dw_notify_port d = notify_port \<and>
     dw_target_port d = target_port \<and> dw_target_gen d = target_gen"

fun dw_scan :: "(deathwatch \<Rightarrow> bool) \<Rightarrow> nat \<Rightarrow> nat option \<Rightarrow> deathwatch list \<Rightarrow> (nat option) option" where
  "dw_scan M i free_slot [] = Some free_slot"
| "dw_scan M i free_slot (d # ds) =
     (if \<not> dw_used d then dw_scan M (Suc i) (if free_slot = None then Some i else free_slot) ds
      else if M d then None
      else dw_scan M (Suc i) free_slot ds)"

definition deathwatch_insert :: "int \<Rightarrow> u32 \<Rightarrow> u32 \<Rightarrow> u32 \<Rightarrow> u32 \<Rightarrow> ipc \<Rightarrow> ipc \<times> int" where
  "deathwatch_insert watcher_pid notify_port cd target_port target_gen s =
     (case dw_scan (dw_matches notify_port target_port target_gen) 0 None (i_dw s) of
        None \<Rightarrow> (s, 0)
      | Some None \<Rightarrow> (s, -1)
      | Some (Some i) \<Rightarrow>
          (s\<lparr>i_dw := (i_dw s)[i := \<lparr>dw_used = True, dw_watcher_pid = watcher_pid, dw_notify_port = notify_port,
             dw_code = cd, dw_target_port = target_port, dw_target_gen = target_gen\<rparr>]\<rparr>, 0))"

definition deathwatch_add :: "int \<Rightarrow> u32 \<Rightarrow> u32 \<Rightarrow> u32 \<Rightarrow> u32 \<Rightarrow> ipc \<Rightarrow> ipc \<times> int" where
  "deathwatch_add watcher_pid notify_port cd target_port target_gen s =
     (if \<not> deathwatch_alive target_port target_gen s then (s, 1)
      else deathwatch_insert watcher_pid notify_port cd target_port target_gen s)"

definition deathwatch_cleanup_watcher :: "int \<Rightarrow> ipc \<Rightarrow> ipc" where
  "deathwatch_cleanup_watcher watcher_pid s =
     s\<lparr>i_dw := List.map (\<lambda>d. if dw_used d \<and> dw_watcher_pid d = watcher_pid then d\<lparr>dw_used := False\<rparr> else d) (i_dw s)\<rparr>"

text \<open>One round of \<^verbatim>\<open>deathwatch_fire\<close>: up to 16 watches are taken and marked unused.\<close>

fun dw_collect :: "u32 \<Rightarrow> u32 \<Rightarrow> nat \<Rightarrow> deathwatch list \<Rightarrow> deathwatch list \<times> (u32 \<times> u32) list" where
  "dw_collect target_port target_gen room [] = ([], [])"
| "dw_collect target_port target_gen 0 ds = (ds, [])"
| "dw_collect target_port target_gen (Suc room) (d # ds) =
     (if dw_used d \<and> dw_target_port d = target_port \<and> dw_target_gen d = target_gen
      then (case dw_collect target_port target_gen room ds of
              (ds', b) \<Rightarrow> (d\<lparr>dw_used := False\<rparr> # ds', (dw_notify_port d, dw_code d) # b))
      else (case dw_collect target_port target_gen (Suc room) ds of (ds', b) \<Rightarrow> (d # ds', b)))"

subsection \<open>The invariant\<close>

definition in_table :: "ipc \<Rightarrow> pptr \<Rightarrow> bool" where
  "in_table s p \<longleftrightarrow> Some p \<in> set (i_table s)"

definition live :: "(pptr \<Rightarrow> nat) \<Rightarrow> ipc \<Rightarrow> pptr \<Rightarrow> bool" where
  "live R s p \<longleftrightarrow> in_table s p \<or> R p > 0"

abbreviation id_of :: "ipc \<Rightarrow> pptr \<Rightarrow> nat" where
  "id_of s p \<equiv> unat (p_id (i_ports s p))"

definition port_inv :: "(pptr \<Rightarrow> nat) \<Rightarrow> ipc \<Rightarrow> bool" where
  "port_inv R s \<longleftrightarrow>
     length (i_table s) = 4096 \<and> length (i_generation s) = 4096 \<and>
     (\<forall>i p. i < 4096 \<longrightarrow> i_table s ! i = Some p \<longrightarrow>
        id_of s p = i \<and> i \<noteq> 0 \<and> p_generation (i_ports s p) = i_generation s ! i) \<and>
     (\<forall>p. live R s p \<longrightarrow> unat (p_refcount (i_ports s p)) = R p + of_bool (in_table s p) \<and>
        p_state (i_ports s p) = (if in_table s p then PORT_ACTIVE else PORT_CLOSED) \<and>
        p_id (i_ports s p) \<notin> set (i_freelist s) \<and> 0 < id_of s p \<and> id_of s p < 4096) \<and>
     (\<forall>p q. live R s p \<longrightarrow> live R s q \<longrightarrow> p_id (i_ports s p) = p_id (i_ports s q) \<longrightarrow> p = q) \<and>
     distinct (i_freelist s) \<and> (\<forall>x\<in>set (i_freelist s). 0 < unat x \<and> unat x < 4096) \<and>
     (\<forall>x. 0 < unat x \<and> unat x < 4096 \<longrightarrow> x \<in> set (i_freelist s) \<or> (\<exists>p. live R s p \<and> p_id (i_ports s p) = x)) \<and>
     distinct (i_recycle s) \<and> (\<forall>p\<in>set (i_recycle s). \<not> live R s p) \<and> (\<forall>p. R p < 3000000000)"

lemma port_invD:
  assumes "port_inv R s"
  shows "length (i_table s) = 4096" "length (i_generation s) = 4096"
    "\<And>i p. i < 4096 \<Longrightarrow> i_table s ! i = Some p \<Longrightarrow> id_of s p = i \<and> i \<noteq> 0 \<and> p_generation (i_ports s p) = i_generation s ! i"
    "\<And>p. live R s p \<Longrightarrow> unat (p_refcount (i_ports s p)) = R p + of_bool (in_table s p) \<and>
        p_state (i_ports s p) = (if in_table s p then PORT_ACTIVE else PORT_CLOSED) \<and>
        p_id (i_ports s p) \<notin> set (i_freelist s) \<and> 0 < id_of s p \<and> id_of s p < 4096"
    "\<And>p q. live R s p \<Longrightarrow> live R s q \<Longrightarrow> p_id (i_ports s p) = p_id (i_ports s q) \<Longrightarrow> p = q"
    "distinct (i_freelist s)" "\<And>x. x \<in> set (i_freelist s) \<Longrightarrow> 0 < unat x \<and> unat x < 4096"
    "\<And>x. 0 < unat x \<Longrightarrow> unat x < 4096 \<Longrightarrow> x \<in> set (i_freelist s) \<or> (\<exists>p. live R s p \<and> p_id (i_ports s p) = x)"
    "distinct (i_recycle s)" "\<And>p. p \<in> set (i_recycle s) \<Longrightarrow> \<not> live R s p" "\<And>p. R p < 3000000000"
  using assms unfolding port_inv_def by blast+

lemma port_invI:
  assumes "length (i_table s) = 4096" "length (i_generation s) = 4096"
    "\<And>i p. i < 4096 \<Longrightarrow> i_table s ! i = Some p \<Longrightarrow> id_of s p = i \<and> i \<noteq> 0 \<and> p_generation (i_ports s p) = i_generation s ! i"
    "\<And>p. live R s p \<Longrightarrow> unat (p_refcount (i_ports s p)) = R p + of_bool (in_table s p) \<and>
        p_state (i_ports s p) = (if in_table s p then PORT_ACTIVE else PORT_CLOSED) \<and>
        p_id (i_ports s p) \<notin> set (i_freelist s) \<and> 0 < id_of s p \<and> id_of s p < 4096"
    "\<And>p q. live R s p \<Longrightarrow> live R s q \<Longrightarrow> p_id (i_ports s p) = p_id (i_ports s q) \<Longrightarrow> p = q"
    "distinct (i_freelist s)" "\<And>x. x \<in> set (i_freelist s) \<Longrightarrow> 0 < unat x \<and> unat x < 4096"
    "\<And>x. 0 < unat x \<Longrightarrow> unat x < 4096 \<Longrightarrow> x \<in> set (i_freelist s) \<or> (\<exists>p. live R s p \<and> p_id (i_ports s p) = x)"
    "distinct (i_recycle s)" "\<And>p. p \<in> set (i_recycle s) \<Longrightarrow> \<not> live R s p" "\<And>p. R p < 3000000000"
  shows "port_inv R s"
  using assms unfolding port_inv_def by blast

lemma upd_port_simps [simp]:
  "i_ports (upd_port p f s) = (i_ports s)(p := f (i_ports s p))" "i_table (upd_port p f s) = i_table s"
  "i_freelist (upd_port p f s) = i_freelist s" "i_generation (upd_port p f s) = i_generation s"
  "i_recycle (upd_port p f s) = i_recycle s" "i_dw (upd_port p f s) = i_dw s" "i_k (upd_port p f s) = i_k s"
  "i_pool (upd_port p f s) = i_pool s" "i_entries (upd_port p f s) = i_entries s" "i_owned (upd_port p f s) = i_owned s"
  "i_slot (upd_port p f s) = i_slot s" "i_pend (upd_port p f s) = i_pend s" "i_freed (upd_port p f s) = i_freed s"
  by (simp_all add: upd_port_def)

lemma kfree_log_simps [simp]:
  "i_ports (kfree_log xs s) = i_ports s" "i_table (kfree_log xs s) = i_table s"
  "i_freelist (kfree_log xs s) = i_freelist s" "i_generation (kfree_log xs s) = i_generation s"
  "i_recycle (kfree_log xs s) = i_recycle s" "i_dw (kfree_log xs s) = i_dw s" "i_k (kfree_log xs s) = i_k s"
  "i_pool (kfree_log xs s) = i_pool s" "i_entries (kfree_log xs s) = i_entries s" "i_owned (kfree_log xs s) = i_owned s"
  "i_slot (kfree_log xs s) = i_slot s" "i_pend (kfree_log xs s) = i_pend s"
  by (simp_all add: kfree_log_def)

lemma table_entry: "port_inv R s \<Longrightarrow> in_table s p \<longleftrightarrow> i_table s ! id_of s p = Some p \<and> id_of s p < 4096"
  using port_invD(1,3)[of R s] unfolding in_table_def by (metis in_set_conv_nth nth_mem)

lemma port_inv_frame:
  assumes "port_inv R s" "i_table s' = i_table s" "i_generation s' = i_generation s" "i_freelist s' = i_freelist s"
    "i_recycle s' = i_recycle s"
    "\<And>p. live R s p \<Longrightarrow> p_id (i_ports s' p) = p_id (i_ports s p) \<and> p_state (i_ports s' p) = p_state (i_ports s p) \<and>
      p_generation (i_ports s' p) = p_generation (i_ports s p) \<and> p_refcount (i_ports s' p) = p_refcount (i_ports s p)"
  shows "port_inv R s'"
proof -
  have t: "in_table s' p = in_table s p" and l: "live R s' p = live R s p" for p
    using assms(2) by (simp_all add: in_table_def live_def)
  have tl: "i < 4096 \<Longrightarrow> i_table s ! i = Some p \<Longrightarrow> live R s p" for i p
    using port_invD(1)[OF assms(1)] by (metis in_table_def live_def nth_mem)
  note I = port_invD[OF assms(1)]
  show ?thesis
  proof (rule port_invI, unfold t l assms(2-5))
    show "i < 4096 \<Longrightarrow> i_table s ! i = Some p \<Longrightarrow> id_of s' p = i \<and> i \<noteq> 0 \<and> p_generation (i_ports s' p) = i_generation s ! i" for i p
      using I(3)[of i p] assms(6)[OF tl, of i p] by simp
    show "live R s p \<Longrightarrow> unat (p_refcount (i_ports s' p)) = R p + of_bool (in_table s p) \<and>
        p_state (i_ports s' p) = (if in_table s p then PORT_ACTIVE else PORT_CLOSED) \<and>
        p_id (i_ports s' p) \<notin> set (i_freelist s) \<and> 0 < id_of s' p \<and> id_of s' p < 4096" for p
      using I(4)[of p] assms(6)[of p] by simp
    show "live R s p \<Longrightarrow> live R s q \<Longrightarrow> p_id (i_ports s' p) = p_id (i_ports s' q) \<Longrightarrow> p = q" for p q
      using I(5)[of p q] assms(6)[of p] assms(6)[of q] by simp
    show "0 < unat x \<Longrightarrow> unat x < 4096 \<Longrightarrow> x \<in> set (i_freelist s) \<or> (\<exists>p. live R s p \<and> p_id (i_ports s' p) = x)" for x
      using I(8)[of x] assms(6) by metis
  qed (use I(1,2,6,7,9,10,11) in \<open>simp_all\<close>)
qed

lemma in_table_unlink:
  assumes "port_inv R s" "i < 4096" "i_table s ! i = Some p" "i_table s' = (i_table s)[i := None]"
  shows "in_table s' q \<longleftrightarrow> in_table s q \<and> q \<noteq> p"
proof -
  note I = port_invD[OF assms(1)]
  have "Some q \<in> set ((i_table s)[i := None]) \<longleftrightarrow> Some q \<in> set (i_table s) \<and> q \<noteq> p"
  proof
    assume "Some q \<in> set ((i_table s)[i := None])"
    then obtain j where j: "j < 4096" "(i_table s)[i := None] ! j = Some q" using I(1) by (auto simp: in_set_conv_nth)
    then have "j \<noteq> i" "i_table s ! j = Some q" using I(1) assms(2) by (auto simp: nth_list_update split: if_splits)
    then show "Some q \<in> set (i_table s) \<and> q \<noteq> p"
      using I(1) j(1) I(3)[of j q] I(3)[OF assms(2,3)] by (metis nth_mem)
  next
    assume a: "Some q \<in> set (i_table s) \<and> q \<noteq> p"
    then obtain j where j: "j < 4096" "i_table s ! j = Some q" using I(1) by (auto simp: in_set_conv_nth)
    then have "j \<noteq> i" using assms(3) a by auto
    then show "Some q \<in> set ((i_table s)[i := None])"
      using j I(1) by (metis length_list_update nth_list_update_neq nth_mem)
  qed
  then show ?thesis using assms(4) by (simp add: in_table_def)
qed

lemma live_portD:
  assumes "port_inv R s" "live_port i s = Some p" "i < MAX_PORTS"
  shows "i_table s ! unat i = Some p" "in_table s p" "unat i < 4096"
proof -
  show "unat i < 4096" using assms(3) by (simp add: MAX_PORTS_def word_less_nat_alt)
  moreover show "i_table s ! unat i = Some p" using assms(2) by (auto simp: live_port_def split: option.splits if_splits)
  ultimately show "in_table s p" using port_invD(1)[OF assms(1)] by (metis in_table_def nth_mem)
qed

lemma live_port_table:
  assumes "port_inv R s" "i < MAX_PORTS"
  shows "live_port i s = i_table s ! unat i"
proof (cases "i_table s ! unat i")
  case (Some p)
  have l: "unat i < 4096" using assms(2) by (simp add: MAX_PORTS_def word_less_nat_alt)
  then have "in_table s p" using Some port_invD(1)[OF assms(1)] by (metis in_table_def nth_mem)
  then have "p_state (i_ports s p) = PORT_ACTIVE" using port_invD(4)[OF assms(1), of p] by (simp add: live_def)
  then show ?thesis using Some by (simp add: live_port_def)
qed (simp add: live_port_def)

lemma take_ref_inv:
  assumes "port_inv R s" "in_table s p" "Suc (R p) < 3000000000"
  shows "port_inv (R(p := Suc (R p))) (take_ref p s)"
proof -
  note I = port_invD[OF assms(1)]
  let ?s = "take_ref p s" and ?R = "R(p := Suc (R p))"
  have lv: "live R s p" using assms(2) by (simp add: live_def)
  have t: "in_table ?s q = in_table s q" for q by (simp add: in_table_def take_ref_def)
  have l: "live ?R ?s q = live R s q" for q using lv by (auto simp: live_def t)
  have rc: "unat (p_refcount (i_ports s p)) = Suc (R p)" using I(4)[OF lv] assms(2) by simp
  then have rc': "unat (refcount_inc (p_refcount (i_ports s p))) = Suc (Suc (R p))"
    using assms(3) unat_refcount_inc[of "p_refcount (i_ports s p)"] by simp
  have ids: "p_id (i_ports ?s q) = p_id (i_ports s q)" for q by (simp add: take_ref_def)
  show ?thesis
  proof (rule port_invI, unfold t l ids)
    show "live R s q \<Longrightarrow> unat (p_refcount (i_ports ?s q)) = ?R q + of_bool (in_table s q) \<and>
        p_state (i_ports ?s q) = (if in_table s q then PORT_ACTIVE else PORT_CLOSED) \<and>
        p_id (i_ports s q) \<notin> set (i_freelist ?s) \<and> 0 < id_of s q \<and> id_of s q < 4096" for q
      using I(4)[of q] rc' assms(2) by (auto simp: take_ref_def)
    show "live R s q \<Longrightarrow> live R s q' \<Longrightarrow> p_id (i_ports s q) = p_id (i_ports s q') \<Longrightarrow> q = q'" for q q'
      using I(5)[of q q'] by (auto simp: take_ref_def split: if_splits)
    show "0 < unat x \<Longrightarrow> unat x < 4096 \<Longrightarrow> x \<in> set (i_freelist ?s) \<or> (\<exists>q. live R s q \<and> p_id (i_ports s q) = x)" for x
      using I(8)[of x] by (simp add: take_ref_def)
    show "?R q < 3000000000" for q using I(11)[of q] assms(3) by simp
    show "i < 4096 \<Longrightarrow> i_table ?s ! i = Some q \<Longrightarrow>
      id_of s q = i \<and> i \<noteq> 0 \<and> p_generation (i_ports ?s q) = i_generation ?s ! i" for i q
      using I(3)[of i q] by (auto simp: take_ref_def)
  qed (use I(1,2,6,7,9,10) in \<open>simp_all add: take_ref_def\<close>)
qed

lemma ipc_port_get_facts:
  assumes "port_inv R s" "ipc_port_get i s = (s', r)"
  shows "(i = 0 \<or> i \<ge> MAX_PORTS \<longrightarrow> r = None) \<and> (i \<noteq> 0 \<and> i < MAX_PORTS \<longrightarrow> r = i_table s ! unat i) \<and>
    s' = (case r of None \<Rightarrow> s | Some p \<Rightarrow> take_ref p s) \<and> (\<forall>p. r = Some p \<longrightarrow> in_table s p \<and> p_id (i_ports s p) = i)"
proof (cases "i = 0 \<or> i \<ge> MAX_PORTS")
  case True
  then show ?thesis using assms(2) by (auto simp: ipc_port_get_def)
next
  case False
  then have lt: "i < MAX_PORTS" by (simp add: not_le)
  have eq: "ipc_port_get i s = (case live_port i s of Some p \<Rightarrow> (take_ref p s, Some p) | None \<Rightarrow> (s, None))"
    unfolding ipc_port_get_def if_not_P[OF False] ..
  have T: "live_port i s = i_table s ! unat i" by (rule live_port_table[OF assms(1) lt])
  show ?thesis
  proof (cases "live_port i s")
    case None
    then have "s' = s" "r = None" using eq assms(2) by simp_all
    then show ?thesis using None T by simp
  next
    case (Some p)
    then have r: "s' = take_ref p s" "r = Some p" using eq assms(2) by simp_all
    note L = live_portD[OF assms(1) Some lt]
    have "p_id (i_ports s p) = i" using port_invD(3)[OF assms(1) L(3,1)] by (simp add: unat_eq_iff_u32)
    then show ?thesis using False r L(1,2) by simp
  qed
qed

lemma port_unlink_facts:
  assumes "port_inv R s" "port_unlink i s = (s', Some (p, hp, g))" "Suc (R p) < 3000000000"
  shows "port_inv (R(p := Suc (R p))) s'" "in_table s p" "\<not> in_table s' p" "p_id (i_ports s p) = i"
    "g = p_generation (i_ports s p)" "hp = (p_pending_senders (i_ports s p) \<noteq> [])" "i \<noteq> 0" "i < MAX_PORTS"
    "i_k s' = i_k s" "i_dw s' = i_dw s" "i_pool s' = i_pool s" "i_generation s' = i_generation s"
    "i_table s' = (i_table s)[unat i := None]" "i_freelist s' = i_freelist s"
proof -
  note I = port_invD[OF assms(1)]
  have ne: "i \<noteq> 0" "i < MAX_PORTS" using assms(2) by (auto simp: port_unlink_def split: if_splits)
  then have lt: "unat i < 4096" by (simp add: MAX_PORTS_def word_less_nat_alt)
  have tp: "i_table s ! unat i = Some p" using assms(2) by (auto simp: port_unlink_def Let_def split: if_splits option.splits)
  have s': "s' = (let s1 = (upd_port p (\<lambda>r. r\<lparr>p_state := PORT_CLOSED\<rparr>) s)\<lparr>i_table := (i_table s)[unat i := None]\<rparr>
     in if p_owner_linked (i_ports s1 p)
        then let ow = p_owner_pid (i_ports s1 p)
             in upd_port p (\<lambda>r. r\<lparr>p_owner_linked := False\<rparr>) (s1\<lparr>i_owned := (i_owned s1)(ow := remove1 p (i_owned s1 ow))\<rparr>)
        else s1)"
    "g = p_generation (i_ports s p)" "hp = (p_pending_senders (i_ports s p) \<noteq> [])"
    using assms(2) tp ne by (auto simp: port_unlink_def Let_def split: if_splits)
  have tab: "i_table s' = (i_table s)[unat i := None]" and gen: "i_generation s' = i_generation s"
    and fl: "i_freelist s' = i_freelist s" and rcy: "i_recycle s' = i_recycle s"
    unfolding s'(1) by (simp_all add: Let_def)
  have po: "p_id (i_ports s' q) = p_id (i_ports s q)" "p_generation (i_ports s' q) = p_generation (i_ports s q)"
    "p_refcount (i_ports s' q) = p_refcount (i_ports s q)"
    "p_state (i_ports s' q) = (if q = p then PORT_CLOSED else p_state (i_ports s q))" for q
    unfolding s'(1) by (simp_all add: Let_def)
  note t = in_table_unlink[OF assms(1) lt tp tab]
  show it: "in_table s p" using tp lt I(1) by (metis in_table_def nth_mem)
  have l: "live (R(p := Suc (R p))) s' q = live R s q" for q using it by (auto simp: live_def t)
  show "port_inv (R(p := Suc (R p))) s'"
  proof (rule port_invI, unfold t l tab gen fl rcy po)
    show "j < 4096 \<Longrightarrow> (i_table s)[unat i := None] ! j = Some q \<Longrightarrow>
      id_of s q = j \<and> j \<noteq> 0 \<and> p_generation (i_ports s q) = i_generation s ! j" for j q
      using I(1) I(3)[of j q] lt by (auto simp: nth_list_update split: if_splits)
    show "live R s q \<Longrightarrow> unat (p_refcount (i_ports s q)) = (R(p := Suc (R p))) q + of_bool (in_table s q \<and> q \<noteq> p) \<and>
        (if q = p then PORT_CLOSED else p_state (i_ports s q)) = (if in_table s q \<and> q \<noteq> p then PORT_ACTIVE else PORT_CLOSED) \<and>
        p_id (i_ports s q) \<notin> set (i_freelist s) \<and> 0 < id_of s q \<and> id_of s q < 4096" for q
      using I(4)[of q] it by auto
    show "(R(p := Suc (R p))) q < 3000000000" for q using I(11)[of q] assms(3) by simp
  qed (use I(1,2,5-10) in \<open>auto simp: live_def\<close>)
  show "\<not> in_table s' p" using t by simp
  have "id_of s p = unat i" using I(3)[OF lt tp] by simp
  then show "p_id (i_ports s p) = i" by (simp add: unat_eq_iff_u32)
  show "g = p_generation (i_ports s p)" "hp = (p_pending_senders (i_ports s p) \<noteq> [])" "i \<noteq> 0" "i < MAX_PORTS"
    using s' ne by simp_all
  show "i_k s' = i_k s" "i_dw s' = i_dw s" "i_pool s' = i_pool s" "i_generation s' = i_generation s"
    "i_table s' = (i_table s)[unat i := None]" "i_freelist s' = i_freelist s"
    unfolding s'(1) by (simp_all add: Let_def)
qed

subsection \<open>Dropping references\<close>

lemma entry_discard_simps [simp]:
  "i_ports (entry_discard cpu e s) = i_ports s" "i_table (entry_discard cpu e s) = i_table s"
  "i_freelist (entry_discard cpu e s) = i_freelist s" "i_generation (entry_discard cpu e s) = i_generation s"
  "i_recycle (entry_discard cpu e s) = i_recycle s" "i_dw (entry_discard cpu e s) = i_dw s"
  "i_k (entry_discard cpu e s) = i_k s" "i_owned (entry_discard cpu e s) = i_owned s"
  "i_entries (entry_discard cpu e s) = i_entries s" "i_slot (entry_discard cpu e s) = i_slot s"
  "i_pend (entry_discard cpu e s) = i_pend s"
  by (simp_all add: entry_discard_def Let_def split: option.splits prod.splits)

lemma fold_discard_simps [simp]:
  "i_ports (fold (entry_discard cpu) es s) = i_ports s" "i_table (fold (entry_discard cpu) es s) = i_table s"
  "i_freelist (fold (entry_discard cpu) es s) = i_freelist s" "i_generation (fold (entry_discard cpu) es s) = i_generation s"
  "i_recycle (fold (entry_discard cpu) es s) = i_recycle s" "i_dw (fold (entry_discard cpu) es s) = i_dw s"
  "i_k (fold (entry_discard cpu) es s) = i_k s" "i_owned (fold (entry_discard cpu) es s) = i_owned s"
  "i_entries (fold (entry_discard cpu) es s) = i_entries s" "i_slot (fold (entry_discard cpu) es s) = i_slot s"
  "i_pend (fold (entry_discard cpu) es s) = i_pend s"
  by (induction es arbitrary: s) simp_all

lemma port_teardown_simps [simp]:
  "i_table (port_teardown cpu p s) = i_table s" "i_generation (port_teardown cpu p s) = i_generation s"
  "i_freelist (port_teardown cpu p s) = p_id (i_ports s p) # i_freelist s"
  "i_recycle (port_teardown cpu p s) = (if length (i_recycle s) < PORT_RECYCLE_MAX then p # i_recycle s else i_recycle s)"
  "i_ports (port_teardown cpu p s) = (i_ports s)(p := (i_ports s p)\<lparr>p_msg_queue := []\<rparr>)"
  "i_dw (port_teardown cpu p s) = i_dw s" "i_k (port_teardown cpu p s) = i_k s" "i_slot (port_teardown cpu p s) = i_slot s"
  "i_pend (port_teardown cpu p s) = i_pend s"
  by (simp_all add: port_teardown_def port_struct_free_def Let_def kfree_log_def)

lemma port_drop_facts:
  assumes "port_inv R s" "0 < R p"
  defines "R' \<equiv> R(p := R p - 1)"
  shows "port_inv R' (port_drop cpu p s)"
    "i_freelist (port_drop cpu p s) = (if live R' (port_drop cpu p s) p then i_freelist s else p_id (i_ports s p) # i_freelist s)"
    "live R' (port_drop cpu p s) p \<longleftrightarrow> in_table s p \<or> 1 < R p"
    "i_table (port_drop cpu p s) = i_table s" "i_generation (port_drop cpu p s) = i_generation s"
proof -
  note I = port_invD[OF assms(1)]
  have lv: "live R s p" using assms(2) by (simp add: live_def)
  let ?rc = "p_refcount (i_ports s p)"
  have rc: "unat ?rc = R p + of_bool (in_table s p)" using I(4)[OF lv] by simp
  have rcl: "unat ?rc < 3221225472" using rc I(11)[of p] by (auto simp: of_bool_def)
  have z: "snd (refcount_dec ?rc) \<longleftrightarrow> \<not> in_table s p \<and> R p = 1"
    using rc assms(2) by (auto simp: refcount_dec_zero of_bool_def split: if_splits)
  have rd: "unat (fst (refcount_dec ?rc)) = R p - 1 + of_bool (in_table s p)"
    using rc rcl assms(2) by (auto simp: unat_refcount_dec)
  define s1 where "s1 = upd_port p (\<lambda>r. r\<lparr>p_refcount := fst (refcount_dec ?rc)\<rparr>) s"
  have ds: "port_drop cpu p s = (if snd (refcount_dec ?rc) then port_teardown cpu p s1 else s1)"
    by (simp add: port_drop_def s1_def case_prod_beta)
  have tab: "i_table (port_drop cpu p s) = i_table s" and gen: "i_generation (port_drop cpu p s) = i_generation s"
    unfolding ds s1_def by simp_all
  then show "i_table (port_drop cpu p s) = i_table s" "i_generation (port_drop cpu p s) = i_generation s" by blast+
  have t: "in_table (port_drop cpu p s) q = in_table s q" for q by (simp add: in_table_def tab)
  have l: "live R' (port_drop cpu p s) q \<longleftrightarrow> live R s q \<and> (q = p \<longrightarrow> \<not> snd (refcount_dec ?rc))" for q
    using z assms(2) by (auto simp: live_def t R'_def)
  show lp: "live R' (port_drop cpu p s) p \<longleftrightarrow> in_table s p \<or> 1 < R p"
    unfolding l z using lv assms(2) by auto
  show fl: "i_freelist (port_drop cpu p s) = (if live R' (port_drop cpu p s) p then i_freelist s else p_id (i_ports s p) # i_freelist s)"
    unfolding l using lv by (simp add: ds s1_def)
  have po: "p_id (i_ports (port_drop cpu p s) q) = p_id (i_ports s q)"
    "p_generation (i_ports (port_drop cpu p s) q) = p_generation (i_ports s q)"
    "p_state (i_ports (port_drop cpu p s) q) = p_state (i_ports s q)"
    "p_refcount (i_ports (port_drop cpu p s) q) = (if q = p then fst (refcount_dec ?rc) else p_refcount (i_ports s q))" for q
    by (simp_all add: ds s1_def)
  have rcy: "set (i_recycle (port_drop cpu p s)) \<subseteq> insert p (set (i_recycle s))" "distinct (i_recycle (port_drop cpu p s))"
    "snd (refcount_dec ?rc) \<or> i_recycle (port_drop cpu p s) = i_recycle s"
    using I(9) I(10)[of p] lv by (auto simp: ds s1_def)
  show "port_inv R' (port_drop cpu p s)"
  proof (rule port_invI, unfold t tab gen po)
    show "live R' (port_drop cpu p s) q \<Longrightarrow>
        unat (if q = p then fst (refcount_dec ?rc) else p_refcount (i_ports s q)) = R' q + of_bool (in_table s q) \<and>
        p_state (i_ports s q) = (if in_table s q then PORT_ACTIVE else PORT_CLOSED) \<and>
        p_id (i_ports s q) \<notin> set (i_freelist (port_drop cpu p s)) \<and> 0 < id_of s q \<and> id_of s q < 4096" for q
      using I(4)[of q] I(5)[of q p] rd lv unfolding l fl by (auto simp: R'_def)
    show "live R' (port_drop cpu p s) q \<Longrightarrow> live R' (port_drop cpu p s) q' \<Longrightarrow> p_id (i_ports s q) = p_id (i_ports s q') \<Longrightarrow> q = q'" for q q'
      using I(5)[of q q'] unfolding l by blast
    show "distinct (i_freelist (port_drop cpu p s))" using I(6) I(4)[OF lv] fl by simp
    show "x \<in> set (i_freelist (port_drop cpu p s)) \<Longrightarrow> 0 < unat x \<and> unat x < 4096" for x
      using I(7)[of x] I(4)[OF lv] fl by (auto split: if_splits)
    show "0 < unat x \<Longrightarrow> unat x < 4096 \<Longrightarrow>
        x \<in> set (i_freelist (port_drop cpu p s)) \<or> (\<exists>q. live R' (port_drop cpu p s) q \<and> p_id (i_ports s q) = x)" for x
      using I(8)[of x] unfolding fl l using lv by auto
    show "q \<in> set (i_recycle (port_drop cpu p s)) \<Longrightarrow> \<not> live R' (port_drop cpu p s) q" for q
      using I(10)[of q] rcy(1,3) unfolding l by auto
    show "R' q < 3000000000" for q
      using I(11)[of q] by (cases "q = p") (simp_all add: R'_def less_imp_diff_less)
  qed (use I(1-3) rcy(2) in \<open>simp_all\<close>)
qed

subsection \<open>Creating ports\<close>

lemma port_struct_alloc_facts:
  assumes "port_inv R s" "\<And>p. kc = Some p \<Longrightarrow> \<not> live R s p \<and> p \<notin> set (i_recycle s)" "port_struct_alloc kc s = (s', r)"
  shows "case r of
      None \<Rightarrow> s' = s \<and> kc = None \<and> i_recycle s = []
    | Some p \<Rightarrow> \<not> live R s p \<and> i_ports s' = (i_ports s)(p := zero_port) \<and> i_table s' = i_table s \<and>
        i_freelist s' = i_freelist s \<and> i_generation s' = i_generation s \<and> distinct (p # i_recycle s') \<and>
        set (i_recycle s') \<subseteq> set (i_recycle s) \<and> i_k s' = i_k s \<and> i_dw s' = i_dw s \<and> i_pool s' = i_pool s"
  using assms(2,3) port_invD(9,10)[OF assms(1)]
  by (auto simp: port_struct_alloc_def split: list.splits option.splits)

lemma freelist_no_port:
  assumes "port_inv R s" "i \<in> set (i_freelist s)"
  shows "i_table s ! unat i = None"
proof (rule ccontr)
  note I = port_invD[OF assms(1)]
  assume "i_table s ! unat i \<noteq> None"
  then obtain p where p: "i_table s ! unat i = Some p" by blast
  have l: "unat i < 4096" using I(7)[OF assms(2)] by blast
  have "live R s p" using p l I(1) by (metis in_table_def live_def nth_mem)
  moreover have "p_id (i_ports s p) = i" using I(3)[OF l p] unat_eq_iff_u32[of "p_id (i_ports s p)" i] by blast
  ultimately show False using I(4)[of p] assms(2) by blast
qed

lemma ipc_port_create_facts:
  assumes "port_inv R s" "\<And>p. kc = Some p \<Longrightarrow> \<not> live R s p \<and> p \<notin> set (i_recycle s)"
    and "ipc_port_create ex kc pid s = (s', r)"
  shows "case i_freelist s of
      [] \<Rightarrow> s' = s \<and> r = IPC_ERR_NO_MEMORY
    | i # rest \<Rightarrow>
        if i_recycle s = [] \<and> kc = None then s' = s \<and> r = IPC_ERR_NO_MEMORY
        else r = uint i \<and> port_inv R s' \<and> (\<exists>p. \<not> live R s p \<and> i_table s' = (i_table s)[unat i := Some p] \<and>
          i_generation s' = (i_generation s)[unat i := i_generation s ! unat i + 1] \<and> i_freelist s' = rest \<and>
          (\<forall>q. q \<noteq> p \<longrightarrow> i_ports s' q = i_ports s q) \<and> p_owner_pid (i_ports s' p) = pid \<and> p_msg_queue (i_ports s' p) = [] \<and>
          p_generation (i_ports s' p) = i_generation s ! unat i + 1)"
proof (cases "i_freelist s")
  case Nil
  then show ?thesis using assms(3) by (simp add: ipc_port_create_def)
next
  case (Cons i rest)
  note I = port_invD[OF assms(1)]
  have i: "0 < unat i" "unat i < 4096" using I(7)[of i] Cons by simp_all
  have free: "i_table s ! unat i = None" using freelist_no_port[OF assms(1), of i] Cons by simp
  define s0 where "s0 = s\<lparr>i_freelist := rest\<rparr>"
  obtain s1 a where a: "port_struct_alloc kc s0 = (s1, a)" by fastforce
  have a': "port_struct_alloc kc s = (s1\<lparr>i_freelist := i_freelist s\<rparr>, a)"
    using a by (auto simp: port_struct_alloc_def s0_def upd_port_def split: list.splits option.splits)
  note A = port_struct_alloc_facts[OF assms(1,2) a']
  show ?thesis
  proof (cases a)
    case None
    then have "s1 = s0" using a by (auto simp: port_struct_alloc_def split: list.splits option.splits)
    then have "s' = s" "r = IPC_ERR_NO_MEMORY"
      using assms(3) Cons a None by (auto simp: ipc_port_create_def s0_def)
    then show ?thesis using A None Cons by simp
  next
    case (Some p)
    have np: "\<not> live R s p" "i_ports s1 = (i_ports s)(p := zero_port)" "i_table s1 = i_table s" "i_freelist s1 = rest"
      "i_generation s1 = i_generation s" "distinct (p # i_recycle s1)" "set (i_recycle s1) \<subseteq> set (i_recycle s)"
      using A Some a by (auto simp: s0_def port_struct_alloc_def split: list.splits option.splits)
    have nn: "\<not> (i_recycle s = [] \<and> kc = None)"
      using a Some by (auto simp: port_struct_alloc_def s0_def split: list.splits option.splits)
    let ?g = "i_generation s ! unat i + 1"
    have r: "r = uint i" and tab: "i_table s' = (i_table s)[unat i := Some p]"
      and gen: "i_generation s' = (i_generation s)[unat i := ?g]" and fl: "i_freelist s' = rest"
      and rcy: "i_recycle s' = i_recycle s1"
      and others: "\<And>q. q \<noteq> p \<Longrightarrow> i_ports s' q = i_ports s q"
      and own: "p_owner_pid (i_ports s' p) = pid" "p_msg_queue (i_ports s' p) = []" "p_generation (i_ports s' p) = ?g"
        "p_id (i_ports s' p) = i" "p_state (i_ports s' p) = PORT_ACTIVE" "p_refcount (i_ports s' p) = 1"
      using assms(3) Cons a Some np by (auto simp: ipc_port_create_def s0_def Let_def refcount_init_def split: if_splits)
    have t: "in_table s' q \<longleftrightarrow> in_table s q \<or> q = p" for q
    proof -
      have "Some q \<in> set ((i_table s)[unat i := Some p]) \<longleftrightarrow> Some q \<in> set (i_table s) \<or> q = p"
        using free i(2) I(1) by (auto simp: in_set_conv_nth nth_list_update) (metis option.distinct(1))+
      then show ?thesis by (simp add: in_table_def tab)
    qed
    have l: "live R s' q \<longleftrightarrow> live R s q \<or> q = p" for q by (auto simp: live_def t)
    have Rp: "R p = 0" using np(1) by (simp add: live_def)
    have "port_inv R s'"
    proof (rule port_invI, unfold t l tab gen fl rcy)
      show "j < 4096 \<Longrightarrow> (i_table s)[unat i := Some p] ! j = Some q \<Longrightarrow>
          id_of s' q = j \<and> j \<noteq> 0 \<and> p_generation (i_ports s' q) = (i_generation s)[unat i := ?g] ! j" for j q
      proof -
        assume j: "j < 4096" "(i_table s)[unat i := Some p] ! j = Some q"
        show ?thesis
        proof (cases "j = unat i")
          case True
          then show ?thesis using j own i I(1,2) by simp
        next
          case False
          then have jq: "i_table s ! j = Some q" using j(2) by simp
          then have "q \<noteq> p" using np(1) j(1) I(1) by (metis in_table_def live_def nth_mem)
          then show ?thesis using I(3)[OF j(1) jq] others False by simp
        qed
      qed
      show "live R s q \<or> q = p \<Longrightarrow> unat (p_refcount (i_ports s' q)) = R q + of_bool (in_table s q \<or> q = p) \<and>
          p_state (i_ports s' q) = (if in_table s q \<or> q = p then PORT_ACTIVE else PORT_CLOSED) \<and>
          p_id (i_ports s' q) \<notin> set rest \<and> 0 < id_of s' q \<and> id_of s' q < 4096" for q
        using I(4)[of q] I(6) others[of q] own Rp i Cons by (cases "q = p") auto
      show "live R s q \<or> q = p \<Longrightarrow> live R s q' \<or> q' = p \<Longrightarrow> p_id (i_ports s' q) = p_id (i_ports s' q') \<Longrightarrow> q = q'" for q q'
        using I(4)[of q] I(4)[of q'] I(5)[of q q'] others[of q] others[of q'] own(4) Cons by (cases "q = p"; cases "q' = p") auto
      show "0 < unat x \<Longrightarrow> unat x < 4096 \<Longrightarrow> x \<in> set rest \<or> (\<exists>q. (live R s q \<or> q = p) \<and> p_id (i_ports s' q) = x)" for x
        using I(8)[of x] own(4) others Cons np(1) by (cases "x = i") (auto, metis)
      show "q \<in> set (i_recycle s1) \<Longrightarrow> \<not> (live R s q \<or> q = p)" for q
        using np(6,7) I(10)[of q] by auto
    qed (use I(1,2,6,7,11) Cons np(6) in \<open>auto\<close>)
    then show ?thesis using r np(1) tab gen fl others own Cons nn by auto
  qed
qed

lemma ipc_port_init_inv:
  assumes "length (i_generation s) = 4096" "i_recycle s = []"
  shows "port_inv (\<lambda>_. 0) (ipc_port_init s)"
proof -
  have t: "\<not> in_table (ipc_port_init s) p" for p by (simp add: in_table_def ipc_port_init_def MAX_PORTS_def)
  show ?thesis
    by (rule port_invI, insert assms t)
      (auto simp: live_def ipc_port_init_def MAX_PORTS_def word_le_nat_alt word_less_nat_alt)
qed

subsection \<open>Histories\<close>

text \<open>
  The steps of any number of processors on the table, each under the global lock or one atomic
  decrement, with the references they hold: the second half of a destruction drops the
  reference of the slot like any other.
\<close>

datatype port_op =
    Create "int \<Rightarrow> bool" "pptr option" int | Get u32 | Get_checked u32 u32 | Unlink u32 | Drop nat pptr

definition with_ref :: "pptr option \<Rightarrow> (pptr \<Rightarrow> nat) \<Rightarrow> ipc \<Rightarrow> ((pptr \<Rightarrow> nat) \<times> ipc) option" where
  "with_ref r R s = (case r of None \<Rightarrow> Some (R, s)
     | Some p \<Rightarrow> if Suc (R p) < 3000000000 then Some (R(p := Suc (R p)), s) else None)"

fun port_exec :: "port_op \<Rightarrow> (pptr \<Rightarrow> nat) \<times> ipc \<Rightarrow> ((pptr \<Rightarrow> nat) \<times> ipc) option" where
  "port_exec (Create ex kc pid) (R, s) =
     (if (case kc of None \<Rightarrow> True | Some p \<Rightarrow> \<not> live R s p \<and> p \<notin> set (i_recycle s))
      then Some (R, fst (ipc_port_create ex kc pid s)) else None)"
| "port_exec (Get i) (R, s) = (case ipc_port_get i s of (s', r) \<Rightarrow> with_ref r R s')"
| "port_exec (Get_checked i g) (R, s) = (case ipc_port_get_checked i g s of (s', r) \<Rightarrow> with_ref r R s')"
| "port_exec (Unlink i) (R, s) = (case port_unlink i s of (s', r) \<Rightarrow> with_ref (map_option fst r) R s')"
| "port_exec (Drop cpu p) (R, s) = (if 0 < R p then Some (R(p := R p - 1), port_drop cpu p s) else None)"

fun port_run :: "port_op list \<Rightarrow> (pptr \<Rightarrow> nat) \<times> ipc \<Rightarrow> ((pptr \<Rightarrow> nat) \<times> ipc) option" where
  "port_run [] c = Some c"
| "port_run (a # as) c = (case port_exec a c of None \<Rightarrow> None | Some c' \<Rightarrow> port_run as c')"

lemma ipc_port_get_checked_facts:
  assumes "port_inv R s" "ipc_port_get_checked i g s = (s', r)"
  shows "(\<forall>p. r = Some p \<longleftrightarrow> i \<noteq> 0 \<and> i < MAX_PORTS \<and> i_table s ! unat i = Some p \<and> p_generation (i_ports s p) = g) \<and>
    s' = (case r of None \<Rightarrow> s | Some p \<Rightarrow> take_ref p s) \<and> (\<forall>p. r = Some p \<longrightarrow> in_table s p)"
proof (cases "i = 0 \<or> i \<ge> MAX_PORTS")
  case True
  then show ?thesis using assms(2) by (auto simp: ipc_port_get_checked_def)
next
  case False
  then have lt: "i < MAX_PORTS" by (simp add: not_le)
  have T: "live_port i s = i_table s ! unat i" by (rule live_port_table[OF assms(1) lt])
  have eq: "ipc_port_get_checked i g s = (case i_table s ! unat i of
      Some p \<Rightarrow> if p_generation (i_ports s p) = g then (take_ref p s, Some p) else (s, None) | None \<Rightarrow> (s, None))"
    unfolding ipc_port_get_checked_def if_not_P[OF False] T ..
  show ?thesis
    using eq assms(2) False lt live_portD(2)[OF assms(1) _ lt] T by (cases "i_table s ! unat i") (auto split: if_splits)
qed

lemma port_unlink_None: "port_unlink i s = (s', None) \<Longrightarrow> s' = s"
  by (auto simp: port_unlink_def Let_def split: if_splits option.splits)

lemma take_ref_simps [simp]:
  "i_table (take_ref p s) = i_table s" "i_generation (take_ref p s) = i_generation s"
  "p_generation (i_ports (take_ref p s) q) = p_generation (i_ports s q)"
  "p_id (i_ports (take_ref p s) q) = p_id (i_ports s q)" "i_recycle (take_ref p s) = i_recycle s"
  by (simp_all add: take_ref_def)

text \<open>What a step does to one id: its generation moves on exactly when a port is created there.\<close>

definition id_step :: "nat \<Rightarrow> ipc \<Rightarrow> ipc \<Rightarrow> bool" where
  "id_step i s s' \<longleftrightarrow>
     (i_generation s' ! i = i_generation s ! i \<and> (i_table s' ! i = i_table s ! i \<or> i_table s' ! i = None)) \<or>
     (i_generation s' ! i = i_generation s ! i + 1 \<and> i_table s ! i = None)"

lemma create_step:
  assumes "port_inv R s" "case kc of None \<Rightarrow> True | Some p \<Rightarrow> \<not> live R s p \<and> p \<notin> set (i_recycle s)"
    and "ipc_port_create ex kc pid s = (s', r)"
  shows "port_inv R s'" "i < 4096 \<Longrightarrow> id_step i s s'"
    "live R s q \<Longrightarrow> p_id (i_ports s' q) = p_id (i_ports s q) \<and> p_generation (i_ports s' q) = p_generation (i_ports s q)"
proof -
  have kc: "\<And>p. kc = Some p \<Longrightarrow> \<not> live R s p \<and> p \<notin> set (i_recycle s)" using assms(2) by auto
  note F = ipc_port_create_facts[OF assms(1) kc assms(3)]
  note I = port_invD[OF assms(1)]
  note tab0 = freelist_no_port[OF assms(1)]
  have "port_inv R s' \<and> (i < 4096 \<longrightarrow> id_step i s s') \<and>
    (live R s q \<longrightarrow> p_id (i_ports s' q) = p_id (i_ports s q) \<and> p_generation (i_ports s' q) = p_generation (i_ports s q))"
  proof (cases "i_freelist s")
    case Nil
    then show ?thesis using F assms(1) by (simp add: id_step_def)
  next
    case (Cons x rest)
    show ?thesis
    proof (cases "i_recycle s = [] \<and> kc = None")
      case True
      then show ?thesis using F Cons assms(1) by (simp add: id_step_def)
    next
      case False
      then obtain p where p: "port_inv R s'" "\<not> live R s p" "i_table s' = (i_table s)[unat x := Some p]"
        "i_generation s' = (i_generation s)[unat x := i_generation s ! unat x + 1]"
        "\<forall>q. q \<noteq> p \<longrightarrow> i_ports s' q = i_ports s q"
        using F Cons by auto
      have "id_step i s s'" if "i < 4096"
        using p(3,4) tab0[of x] Cons that I(1,2) by (cases "i = unat x") (auto simp: id_step_def)
      then show ?thesis using p(1,2,5) by metis
    qed
  qed
  then show "port_inv R s'" "i < 4096 \<Longrightarrow> id_step i s s'"
    "live R s q \<Longrightarrow> p_id (i_ports s' q) = p_id (i_ports s q) \<and> p_generation (i_ports s' q) = p_generation (i_ports s q)"
    by blast+
qed

lemma get_step:
  assumes "port_inv R s" "s' = (case r of None \<Rightarrow> s | Some p \<Rightarrow> take_ref p s)" "\<And>p. r = Some p \<Longrightarrow> in_table s p"
    "with_ref r R s' = Some (R', s'')"
  shows "port_inv R' s''" "id_step i s s''"
    "p_id (i_ports s'' q) = p_id (i_ports s q) \<and> p_generation (i_ports s'' q) = p_generation (i_ports s q)"
  using assms take_ref_inv[OF assms(1)] by (auto simp: with_ref_def id_step_def split: option.splits if_splits)

lemma unlink_step:
  assumes "port_inv R s" "port_unlink x s = (s', r)" "with_ref (map_option fst r) R s' = Some (R', s'')"
  shows "port_inv R' s''" "id_step i s s''"
    "p_id (i_ports s'' q) = p_id (i_ports s q) \<and> p_generation (i_ports s'' q) = p_generation (i_ports s q)"
proof -
  have "port_inv R' s'' \<and> id_step i s s'' \<and>
    p_id (i_ports s'' q) = p_id (i_ports s q) \<and> p_generation (i_ports s'' q) = p_generation (i_ports s q)"
  proof (cases r)
    case None
    then show ?thesis using assms port_unlink_None[of x s s'] by (simp add: with_ref_def id_step_def)
  next
    case (Some a)
    obtain p hp g where a: "a = (p, hp, g)" by (cases a)
    have ref: "Suc (R p) < 3000000000" "R' = R(p := Suc (R p))" "s'' = s'"
      using assms(3) Some a by (auto simp: with_ref_def split: if_splits)
    have u: "port_unlink x s = (s', Some (p, hp, g))" using assms(2) Some a by simp
    note F = port_unlink_facts[OF assms(1) u ref(1)]
    have "p_id (i_ports s' q) = p_id (i_ports s q) \<and> p_generation (i_ports s' q) = p_generation (i_ports s q)"
      using u by (auto simp: port_unlink_def Let_def split: if_splits option.splits)
    moreover have "id_step i s s'" using F(12,13) port_invD(1)[OF assms(1)]
      by (cases "i = unat x"; cases "i < 4096") (auto simp: id_step_def nth_list_update list_update_beyond)
    ultimately show ?thesis using F(1) ref by simp
  qed
  then show "port_inv R' s''" "id_step i s s''"
    "p_id (i_ports s'' q) = p_id (i_ports s q) \<and> p_generation (i_ports s'' q) = p_generation (i_ports s q)" by blast+
qed

lemma drop_step:
  assumes "port_inv R s" "0 < R p"
  shows "port_inv (R(p := R p - 1)) (port_drop cpu p s)" "id_step i s (port_drop cpu p s)"
    "p_id (i_ports (port_drop cpu p s) q) = p_id (i_ports s q) \<and>
     p_generation (i_ports (port_drop cpu p s) q) = p_generation (i_ports s q)"
  using port_drop_facts[OF assms, of cpu]
  by (auto simp: id_step_def port_drop_def Let_def split: prod.splits)

lemma port_exec_step:
  assumes "port_inv R s" "port_exec a (R, s) = Some (R', s')"
  shows "port_inv R' s'" "i < 4096 \<Longrightarrow> id_step i s s'"
    "live R s q \<Longrightarrow> p_id (i_ports s' q) = p_id (i_ports s q) \<and> p_generation (i_ports s' q) = p_generation (i_ports s q)"
proof -
  have "port_inv R' s' \<and> (i < 4096 \<longrightarrow> id_step i s s') \<and>
    (live R s q \<longrightarrow> p_id (i_ports s' q) = p_id (i_ports s q) \<and> p_generation (i_ports s' q) = p_generation (i_ports s q))"
  proof (cases a)
    case (Create ex kc pid)
    obtain t r where t: "ipc_port_create ex kc pid s = (t, r)" by fastforce
    have g: "case kc of None \<Rightarrow> True | Some p \<Rightarrow> \<not> live R s p \<and> p \<notin> set (i_recycle s)" "R' = R" "s' = t"
      using assms(2) Create t by (auto split: if_splits)
    show ?thesis using create_step[OF assms(1) g(1) t] g by simp
  next
    case (Get x)
    obtain t r where t: "ipc_port_get x s = (t, r)" by fastforce
    note F = ipc_port_get_facts[OF assms(1) t]
    show ?thesis using get_step[OF assms(1), of t r R' s'] F assms(2) Get t by simp
  next
    case (Get_checked x g)
    obtain t r where t: "ipc_port_get_checked x g s = (t, r)" by fastforce
    note F = ipc_port_get_checked_facts[OF assms(1) t]
    show ?thesis using get_step[OF assms(1), of t r R' s'] F assms(2) Get_checked t by simp
  next
    case (Unlink x)
    obtain t r where t: "port_unlink x s = (t, r)" by fastforce
    show ?thesis using unlink_step[OF assms(1) t] assms(2) Unlink t by simp
  next
    case (Drop cpu p)
    then have "0 < R p" "R' = R(p := R p - 1)" "s' = port_drop cpu p s" using assms(2) by (auto split: if_splits)
    then show ?thesis using drop_step[OF assms(1)] by blast
  qed
  then show "port_inv R' s'" "i < 4096 \<Longrightarrow> id_step i s s'"
    "live R s q \<Longrightarrow> p_id (i_ports s' q) = p_id (i_ports s q) \<and> p_generation (i_ports s' q) = p_generation (i_ports s q)"
    by blast+
qed

lemma port_run_inv: "port_run as (R, s) = Some (R', s') \<Longrightarrow> port_inv R s \<Longrightarrow> port_inv R' s'"
proof (induction as arbitrary: R s)
  case (Cons a as)
  then obtain R1 s1 where "port_exec a (R, s) = Some (R1, s1)" "port_run as (R1, s1) = Some (R', s')"
    by (auto split: option.splits)
  then show ?case using Cons port_exec_step(1) by blast
qed simp

lemma port_run_generation:
  assumes "port_run as (R, s) = Some (R', s')" "port_inv R s" "i < 4096"
  shows "\<exists>k \<le> length as. i_generation s' ! i = i_generation s ! i + of_nat k \<and>
    (i_table s ! i = None \<longrightarrow> k = 0 \<longrightarrow> i_table s' ! i = None)"
  using assms
proof (induction as arbitrary: R s)
  case Nil
  then show ?case by simp
next
  case (Cons a as)
  obtain R1 s1 where e: "port_exec a (R, s) = Some (R1, s1)" "port_run as (R1, s1) = Some (R', s')"
    using Cons.prems(1) by (auto split: option.splits)
  have st: "id_step i s s1" using port_exec_step(2)[OF Cons.prems(2) e(1) Cons.prems(3)] .
  obtain k where k: "k \<le> length as" "i_generation s' ! i = i_generation s1 ! i + of_nat k"
    "i_table s1 ! i = None \<longrightarrow> k = 0 \<longrightarrow> i_table s' ! i = None"
    using Cons.IH[OF e(2) port_exec_step(1)[OF Cons.prems(2) e(1)] Cons.prems(3)] by (elim exE conjE)
  show ?case
  proof (cases "i_generation s1 ! i = i_generation s ! i \<and> (i_table s1 ! i = i_table s ! i \<or> i_table s1 ! i = None)")
    case True
    then have "i_generation s' ! i = i_generation s ! i + of_nat k" using k(2) by simp
    moreover have "i_table s ! i = None \<longrightarrow> k = 0 \<longrightarrow> i_table s' ! i = None" using True k(3) by metis
    ultimately show ?thesis using k(1) by (intro exI[of _ k]) simp
  next
    case False
    then have "i_generation s1 ! i = i_generation s ! i + 1" using st unfolding id_step_def by metis
    then have "i_generation s' ! i = i_generation s ! i + of_nat (Suc k)" using k(2) by (simp add: ac_simps)
    then show ?thesis using k(1) by (intro exI[of _ "Suc k"]) simp
  qed
qed

lemma port_no_aba_facts:
  assumes "port_inv R s" "i_table s ! unat i = None" "i < MAX_PORTS" "g = i_generation s ! unat i"
    and "port_run as (R, s) = Some (R', s')" "length as < 4294967296"
  shows "ipc_port_get_checked i g s' = (s', None)"
proof -
  have l: "unat i < 4096" using assms(3) by (simp add: MAX_PORTS_def word_less_nat_alt)
  obtain k where k: "k \<le> length as" "i_generation s' ! unat i = g + of_nat k" "k = 0 \<longrightarrow> i_table s' ! unat i = None"
    using port_run_generation[OF assms(5,1) l] assms(2,4) by blast
  have inv: "port_inv R' s'" using port_run_inv[OF assms(5,1)] .
  obtain t r where t: "ipc_port_get_checked i g s' = (t, r)" by fastforce
  note F = ipc_port_get_checked_facts[OF inv t]
  have "r = None"
  proof (rule ccontr)
    assume "r \<noteq> None"
    then obtain p where p: "i_table s' ! unat i = Some p" "p_generation (i_ports s' p) = g" using F by blast
    then have "g + of_nat k = g" using port_invD(3)[OF inv l p(1)] k(2) by simp
    then have "of_nat k = (0 :: u32)" by simp
    moreover have "k < 4294967296" using k(1) assms(6) by simp
    ultimately have "k = 0" using unat_of_nat_u32[of k] by simp
    then show False using k(3) p(1) by simp
  qed
  then show ?thesis using t F by simp
qed

text \<open>
  C10: A binding to a destroyed port never reaches another port: once no port is at an id, a lookup that expects
  the generation of the last port there finds nothing, whatever fewer than \<open>2 ^ 32\<close>
  creations, lookups, destructions and releases happen in between, on any processor.
\<close>
theorem port_no_aba:
  assumes "port_inv R s" "i_table s ! unat i = None" "i < MAX_PORTS" "g = i_generation s ! unat i"
    and "port_run as (R, s) = Some (R', s')" "length as < 4294967296"
  shows "ipc_port_get_checked i g s' = (s', None)"
  by (rule port_no_aba_facts[OF assms])

definition blank_ipc :: ipc where
  "blank_ipc = \<lparr>i_k = idle_state, i_pool = pool_init,
     i_entries = (\<lambda>_. \<lparr>en_msg = \<lparr>msg_type = 0, sender_pid = 0, sender_tid = 0, msg_code = 0, arg0 = 0, arg1 = 0, arg2 = 0,
        arg3 = 0, payload_size = 0, payload = None\<rparr>, en_payload_owned = False\<rparr>),
     i_table = [], i_freelist = [], i_generation = replicate 4096 0, i_recycle = [], i_ports = (\<lambda>_. zero_port),
     i_owned = (\<lambda>_. []), i_dw = [], i_slot = (\<lambda>_. False),
     i_pend = (\<lambda>_. \<lparr>pr_reply_buf = \<lparr>msg_type = 0, sender_pid = 0, sender_tid = 0, msg_code = 0, arg0 = 0, arg1 = 0, arg2 = 0,
        arg3 = 0, payload_size = 0, payload = None\<rparr>, pr_reply_received = False, pr_port_dead = False,
        pr_target_port_id = 0, pr_target_port_gen = 0\<rparr>),
     i_freed = []\<rparr>"

definition ipc_boot :: ipc where
  "ipc_boot = deathwatch_init (ipc_port_init blank_ipc)"

lemma ipc_boot_facts:
  "port_inv (\<lambda>_. 0) ipc_boot" "i < 4096 \<Longrightarrow> i_table ipc_boot ! i = None" "i < 4096 \<Longrightarrow> i_generation ipc_boot ! i = 0"
  "i_recycle ipc_boot = []" "i_freelist ipc_boot = words_from 1 MAX_PORTS"
proof -
  have "port_inv (\<lambda>_. 0) (ipc_port_init blank_ipc)" by (rule ipc_port_init_inv) (simp_all add: blank_ipc_def)
  then show "port_inv (\<lambda>_. 0) ipc_boot"
    unfolding ipc_boot_def by (rule port_inv_frame) (simp_all add: deathwatch_init_def)
qed (simp_all add: ipc_boot_def deathwatch_init_def ipc_port_init_def blank_ipc_def MAX_PORTS_def)

lemma ipc_boot_not_live: "\<not> live (\<lambda>_. 0) ipc_boot p"
  by (simp add: live_def in_table_def ipc_boot_def deathwatch_init_def ipc_port_init_def MAX_PORTS_def)

theorem port_no_aba_witness:
  "let s' = fst (ipc_port_create (\<lambda>_. True) (Some 100) 7 ipc_boot)
   in i_table s' ! 1 = Some 100 \<and> ipc_port_get_checked 1 0 s' = (s', None)"
proof -
  let ?s = "fst (ipc_port_create (\<lambda>_. True) (Some 100) 7 ipc_boot)"
  have run: "port_run [Create (\<lambda>_. True) (Some 100) 7] (\<lambda>_. 0, ipc_boot) = Some (\<lambda>_. 0, ?s)"
    by (simp add: ipc_boot_not_live ipc_boot_facts)
  have "i_freelist ipc_boot = 1 # words_from 2 MAX_PORTS"
    unfolding ipc_boot_facts(5) by (subst words_from_unfold) (simp_all add: MAX_PORTS_def)
  moreover have "length (i_table ipc_boot) = 4096" using port_invD(1)[OF ipc_boot_facts(1)] .
  ultimately have "i_table ?s ! 1 = Some 100"
    by (simp add: ipc_port_create_def port_struct_alloc_def ipc_boot_facts(4) Let_def)
  moreover have "ipc_port_get_checked 1 0 ?s = (?s, None)"
    by (rule port_no_aba[OF ipc_boot_facts(1) _ _ _ run])
      (simp_all add: ipc_boot_facts MAX_PORTS_def)
  ultimately show ?thesis unfolding Let_def by (rule conjI)
qed

text \<open>
  C11: A new port never shares anything with a port that is still reachable.  After any history, creating a
  port fails only when every id is taken by a reachable port or there is no memory, and then changes nothing;
  otherwise it returns an id that no reachable port has, leaves the structure of every reachable port
  as it is, and moves the generation of that id on by one.  A port is reachable while it is in
  the table or somebody holds a reference.
\<close>
theorem port_create_fresh:
  assumes "port_run as (\<lambda>_. 0, ipc_port_init s0) = Some (R, s)" "length (i_generation s0) = 4096" "i_recycle s0 = []"
    and "\<And>p. kc = Some p \<Longrightarrow> \<not> live R s p \<and> p \<notin> set (i_recycle s)"
    and "ipc_port_create ex kc pid s = (s', r)"
  shows "if r = IPC_ERR_NO_MEMORY
    then s' = s \<and> ((\<forall>x. 0 < unat x \<and> unat x < 4096 \<longrightarrow> (\<exists>q. live R s q \<and> p_id (i_ports s q) = x)) \<or> kc = None \<and> i_recycle s = [])
    else \<exists>i p. r = uint i \<and> 0 < unat i \<and> unat i < 4096 \<and> \<not> live R s p \<and> i_table s' = (i_table s)[unat i := Some p] \<and>
      p_generation (i_ports s' p) = i_generation s ! unat i + 1 \<and>
      (\<forall>q. live R s q \<longrightarrow> p_id (i_ports s q) \<noteq> i \<and> i_ports s' q = i_ports s q)"
proof -
  have inv: "port_inv R s" using port_run_inv[OF assms(1) ipc_port_init_inv[OF assms(2,3)]] .
  note I = port_invD[OF inv] and F = ipc_port_create_facts[OF inv assms(4,5)]
  show ?thesis
  proof (cases "i_freelist s")
    case Nil
    then show ?thesis using F I(8) by simp
  next
    case (Cons i rest)
    have ne: "uint i \<noteq> IPC_ERR_NO_MEMORY" by (simp add: IPC_ERR_NO_MEMORY_def) (metis uint_ge_0 neg_0_le_iff_le not_numeral_le_zero)
    have i: "0 < unat i" "unat i < 4096" using I(7)[of i] Cons by simp_all
    have fresh: "live R s q \<Longrightarrow> p_id (i_ports s q) \<noteq> i" for q using I(4)[of q] Cons by auto
    show ?thesis
    proof (cases "i_recycle s = [] \<and> kc = None")
      case True
      then show ?thesis using F Cons by simp
    next
      case False
      then obtain p where p: "r = uint i" "\<not> live R s p" "i_table s' = (i_table s)[unat i := Some p]"
        "p_generation (i_ports s' p) = i_generation s ! unat i + 1" "\<forall>q. q \<noteq> p \<longrightarrow> i_ports s' q = i_ports s q"
        using F Cons by auto
      have "live R s q \<Longrightarrow> i_ports s' q = i_ports s q" for q using p(2,5) by metis
      then show ?thesis using p ne i fresh by (intro if_not_P[THEN iffD2] exI[of _ i] exI[of _ p]) auto
    qed
  qed
qed

theorem port_create_fresh_witness:
  "port_run [] (\<lambda>_. 0, ipc_port_init blank_ipc) = Some (\<lambda>_. 0, ipc_port_init blank_ipc) \<and>
   (\<exists>s' r. ipc_port_create (\<lambda>_. True) (Some 100) 7 (ipc_port_init blank_ipc) = (s', r) \<and>
     (if r = IPC_ERR_NO_MEMORY then s' = ipc_port_init blank_ipc
      else \<exists>(i :: u32) p. r = uint i \<and> 0 < unat i \<and> unat i < 4096 \<and> i_table s' = (i_table (ipc_port_init blank_ipc))[unat i := Some p]))"
proof -
  obtain s' r where c: "ipc_port_create (\<lambda>_. True) (Some 100) 7 (ipc_port_init blank_ipc) = (s', r)" by fastforce
  have "\<not> live (\<lambda>_. 0) (ipc_port_init blank_ipc) p" for p
    by (simp add: live_def in_table_def ipc_port_init_def MAX_PORTS_def)
  moreover have "length (i_generation blank_ipc) = 4096" "i_recycle blank_ipc = []" "i_recycle (ipc_port_init blank_ipc) = []"
    by (simp_all add: blank_ipc_def ipc_port_init_def)
  ultimately have P: "if r = IPC_ERR_NO_MEMORY
    then s' = ipc_port_init blank_ipc \<and> ((\<forall>x. 0 < unat x \<and> unat x < 4096 \<longrightarrow>
        (\<exists>q. live (\<lambda>_. 0) (ipc_port_init blank_ipc) q \<and> p_id (i_ports (ipc_port_init blank_ipc) q) = x)) \<or>
        Some (100 :: nat) = None \<and> i_recycle (ipc_port_init blank_ipc) = [])
    else \<exists>i p. r = uint i \<and> 0 < unat i \<and> unat i < 4096 \<and> \<not> live (\<lambda>_. 0) (ipc_port_init blank_ipc) p \<and>
      i_table s' = (i_table (ipc_port_init blank_ipc))[unat i := Some p] \<and>
      p_generation (i_ports s' p) = i_generation (ipc_port_init blank_ipc) ! unat i + 1 \<and>
      (\<forall>q. live (\<lambda>_. 0) (ipc_port_init blank_ipc) q \<longrightarrow> p_id (i_ports (ipc_port_init blank_ipc) q) \<noteq> i \<and>
        i_ports s' q = i_ports (ipc_port_init blank_ipc) q)"
    by (intro port_create_fresh[OF _ _ _ _ c, of "[]" blank_ipc]) simp_all
  have "if r = IPC_ERR_NO_MEMORY then s' = ipc_port_init blank_ipc
      else \<exists>(i :: u32) p. r = uint i \<and> 0 < unat i \<and> unat i < 4096 \<and> i_table s' = (i_table (ipc_port_init blank_ipc))[unat i := Some p]"
  proof (cases "r = IPC_ERR_NO_MEMORY")
    case True
    show ?thesis using P unfolding if_P[OF True] by blast
  next
    case False
    show ?thesis using P unfolding if_not_P[OF False] by blast
  qed
  then show ?thesis using c by auto
qed

subsection \<open>Death watches\<close>

lemma dw_scan_spec:
  "dw_scan M i fs ds =
     (if \<exists>d\<in>set ds. dw_used d \<and> M d then None
      else Some (if fs \<noteq> None then fs
                 else map_option (\<lambda>j. i + j) (find (\<lambda>j. \<not> dw_used (ds ! j)) [0..<length ds])))"
proof (induction M i fs ds rule: dw_scan.induct)
  case (2 M i fs d ds)
  have sh: "find (\<lambda>j. \<not> dw_used ((d # ds) ! j)) [0..<length (d # ds)] =
    (if \<not> dw_used d then Some 0 else map_option Suc (find (\<lambda>j. \<not> dw_used (ds ! j)) [0..<length ds]))"
  proof -
    have "find P (List.map Suc xs) = map_option Suc (find (\<lambda>j. P (Suc j)) xs)" for P xs by (induction xs) auto
    moreover have "[0..<length (d # ds)] = 0 # List.map Suc [0..<length ds]" 
      using upt_conv_Cons[of 0 "Suc (length ds)"] by (simp add: map_Suc_upt del: upt_Suc)
    ultimately show ?thesis by simp
  qed
  show ?case
  proof (cases "dw_used d")
    case True
    have "(+) (Suc i) = (\<lambda>x. Suc (i + x))" by auto
    then show ?thesis using 2 True unfolding sh by (auto simp: option.map_comp comp_def)
  next
    case False
    then show ?thesis using 2 unfolding sh by auto
  qed
qed simp

definition dw_count :: "(deathwatch \<Rightarrow> bool) \<Rightarrow> ipc \<Rightarrow> nat" where
  "dw_count M s = length (filter (\<lambda>d. dw_used d \<and> M d) (i_dw s))"

lemma find_first_free:
  "find (\<lambda>j. \<not> dw_used (ds ! j)) [0..<length ds] = Some j \<Longrightarrow> j < length ds \<and> \<not> dw_used (ds ! j)"
  by (auto simp: find_Some_iff)

lemma find_no_free:
  "find (\<lambda>j. \<not> dw_used (ds ! j)) [0..<length ds] = None \<longleftrightarrow> (\<forall>d\<in>set ds. dw_used d)"
  unfolding find_None_iff all_set_conv_all_nth by simp

lemma deathwatch_insert_facts:
  assumes "deathwatch_insert w n c t g s = (s', r)"
  shows "r = (if \<exists>d\<in>set (i_dw s). dw_matches n t g d then 0 else if \<forall>d\<in>set (i_dw s). dw_used d then -1 else 0)"
    "(\<exists>d\<in>set (i_dw s). dw_matches n t g d) \<or> (\<forall>d\<in>set (i_dw s). dw_used d) \<Longrightarrow> s' = s"
    "r = 0 \<Longrightarrow> \<exists>d\<in>set (i_dw s'). dw_matches n t g d"
    "i_ports s' = i_ports s \<and> i_table s' = i_table s \<and> i_generation s' = i_generation s \<and> i_freelist s' = i_freelist s \<and> i_recycle s' = i_recycle s"
proof -
  let ?M = "dw_matches n t g"
  have m: "(\<exists>d\<in>set (i_dw s). dw_used d \<and> ?M d) \<longleftrightarrow> (\<exists>d\<in>set (i_dw s). ?M d)" by (auto simp: dw_matches_def)
  note S = dw_scan_spec[of ?M 0 None "i_dw s", unfolded m, simplified]
  show "r = (if \<exists>d\<in>set (i_dw s). ?M d then 0 else if \<forall>d\<in>set (i_dw s). dw_used d then -1 else 0)"
    "(\<exists>d\<in>set (i_dw s). ?M d) \<or> (\<forall>d\<in>set (i_dw s). dw_used d) \<Longrightarrow> s' = s"
    using assms S find_no_free[of "i_dw s"] by (auto simp: deathwatch_insert_def split: option.splits if_splits)
  show "r = 0 \<Longrightarrow> \<exists>d\<in>set (i_dw s'). ?M d"
  proof -
    assume r0: "r = 0"
    show ?thesis
    proof (cases "\<exists>d\<in>set (i_dw s). ?M d")
      case True
      then show ?thesis using assms S by (simp add: deathwatch_insert_def)
    next
      case False
      then obtain j where j: "find (\<lambda>j. \<not> dw_used (i_dw s ! j)) [0..<length (i_dw s)] = Some j"
        using assms S r0 by (auto simp: deathwatch_insert_def split: option.splits)
      let ?d = "\<lparr>dw_used = True, dw_watcher_pid = w, dw_notify_port = n, dw_code = c, dw_target_port = t, dw_target_gen = g\<rparr>"
      have "i_dw s' = (i_dw s)[j := ?d]" using assms S j False by (auto simp: deathwatch_insert_def)
      moreover have "j < length (i_dw s)" using find_first_free[OF j] by simp
      ultimately have "?d \<in> set (i_dw s')" by (metis set_update_memI)
      then show ?thesis by (intro bexI[of _ ?d]) (simp_all add: dw_matches_def)
    qed
  qed
  show "i_ports s' = i_ports s \<and> i_table s' = i_table s \<and> i_generation s' = i_generation s \<and> i_freelist s' = i_freelist s \<and> i_recycle s' = i_recycle s"
    using assms by (auto simp: deathwatch_insert_def split: option.splits)
qed

text \<open>
  A death watch can miss the death it waits for.  \<^verbatim>\<open>deathwatch_add\<close> looks whether the target is alive
  before it locks the table of watches; when the target is destroyed between the two, and its watches have
  been served, the call still records the watch and answers that it is observing, although the target's
  generation is gone, and no later port will ever have it within \<open>2 ^ 32\<close> steps.
\<close>
theorem deathwatch_missed:
  assumes "port_inv R s" "deathwatch_alive t g s" "port_unlink t s = (s1, Some (p, hp, g'))" "Suc (R p) < 3000000000"
    and "deathwatch_insert w n c t g s1 = (s2, r)" "\<exists>d\<in>set (i_dw s1). \<not> dw_used d"
    and "port_run as (R(p := Suc (R p)), s2) = Some (R3, s3)" "length as < 4294967296"
  shows "r = 0 \<and> (\<exists>d\<in>set (i_dw s2). dw_matches n t g d) \<and> ipc_port_get_checked t g s3 = (s3, None)"
proof -
  note U = port_unlink_facts[OF assms(1,3,4)]
  note D = deathwatch_insert_facts[OF assms(5)]
  have lt: "unat t < 4096" using U(8) by (simp add: MAX_PORTS_def word_less_nat_alt)
  have r: "r = 0" using D(1) assms(6) by auto
  have inv2: "port_inv (R(p := Suc (R p))) s2"
    by (rule port_inv_frame[OF U(1)]) (use D(4) in simp_all)
  have tab: "i_table s2 ! unat t = None" using U(13) D(4) lt port_invD(1)[OF assms(1)] by simp
  have "i_table s ! unat t = Some p"
    using assms(3) by (auto simp: port_unlink_def Let_def split: if_splits option.splits)
  moreover have "live_port t s = i_table s ! unat t" using live_port_table[OF assms(1) U(8)] .
  ultimately have "ipc_port_generation t s = p_generation (i_ports s p)"
    using U(7,8) by (simp add: ipc_port_generation_def not_le[symmetric])
  then have "g = p_generation (i_ports s p)" using assms(2) by (simp add: deathwatch_alive_def)
  then have "g = i_generation s2 ! unat t"
    using port_invD(3)[OF assms(1) lt \<open>i_table s ! unat t = Some p\<close>] U(12) D(4) by simp
  then have "ipc_port_get_checked t g s3 = (s3, None)"
    by (rule port_no_aba_facts[OF inv2 tab U(8) _ assms(7,8)])
  then show ?thesis using r D(3) by simp
qed

definition ipc_one :: ipc where
  "ipc_one = fst (ipc_port_create (\<lambda>_. True) (Some 100) 7 ipc_boot)"

lemma ipc_one_facts:
  "port_inv (\<lambda>_. 0) ipc_one" "i_table ipc_one ! 1 = Some 100" "p_generation (i_ports ipc_one 100) = 1"
  "p_state (i_ports ipc_one 100) = PORT_ACTIVE" "i_dw ipc_one = i_dw ipc_boot" "p_owner_pid (i_ports ipc_one 100) = 7"
proof -
  obtain r where c: "ipc_port_create (\<lambda>_. True) (Some 100) 7 ipc_boot = (ipc_one, r)"
    unfolding ipc_one_def by (metis prod.collapse)
  have fl: "i_freelist ipc_boot = 1 # words_from 2 MAX_PORTS"
    unfolding ipc_boot_facts(5) by (subst words_from_unfold) (simp_all add: MAX_PORTS_def)
  have len: "length (i_table ipc_boot) = 4096" "length (i_generation ipc_boot) = 4096"
    using port_invD(1,2)[OF ipc_boot_facts(1)] .
  have g: "i_generation ipc_boot ! Suc 0 = 0" using ipc_boot_facts(3)[of "Suc 0"] by simp
  show "port_inv (\<lambda>_. 0) ipc_one"
    by (rule create_step(1)[OF ipc_boot_facts(1) _ c]) (simp add: ipc_boot_not_live ipc_boot_facts)
  show "i_table ipc_one ! 1 = Some 100" "p_generation (i_ports ipc_one 100) = 1"
    "p_state (i_ports ipc_one 100) = PORT_ACTIVE" "i_dw ipc_one = i_dw ipc_boot" "p_owner_pid (i_ports ipc_one 100) = 7"
    using fl len g by (simp_all add: ipc_one_def ipc_port_create_def port_struct_alloc_def ipc_boot_facts(4) Let_def)
qed

lemma one_below_max: "\<not> MAX_PORTS \<le> 1"
  by (simp add: MAX_PORTS_def word_le_nat_alt)

lemma ipc_one_unlink:
  obtains s1 hp g' where "port_unlink 1 ipc_one = (s1, Some (100, hp, g'))"
  using ipc_one_facts(2) by (simp add: port_unlink_def one_below_max Let_def)

theorem deathwatch_missed_witness:
  "\<exists>s1 p hp g' s2. port_unlink 1 ipc_one = (s1, Some (p, hp, g')) \<and> deathwatch_alive 1 1 ipc_one \<and>
     deathwatch_insert 7 2 9 1 1 s1 = (s2, 0) \<and> (\<exists>d\<in>set (i_dw s2). dw_matches 2 1 1 d) \<and>
     ipc_port_get_checked 1 1 s2 = (s2, None)"
proof -
  have lp: "live_port 1 ipc_one = Some 100" using ipc_one_facts by (simp add: live_port_def)
  have alive: "deathwatch_alive 1 1 ipc_one"
    using lp ipc_one_facts(3) by (simp add: deathwatch_alive_def ipc_port_generation_def one_below_max)
  obtain s1 hp g' where u: "port_unlink 1 ipc_one = (s1, Some (100, hp, g'))"
    by (rule ipc_one_unlink)
  obtain s2 r where d: "deathwatch_insert 7 2 9 1 1 s1 = (s2, r)" by fastforce
  have "i_dw s1 = i_dw ipc_one" using port_unlink_facts(10)[OF ipc_one_facts(1) u] by simp
  then have free: "\<exists>d\<in>set (i_dw s1). \<not> dw_used d"
    using ipc_one_facts(5) by (simp add: ipc_boot_def deathwatch_init_def DEATHWATCH_MAX_def)
  have "r = 0 \<and> (\<exists>d\<in>set (i_dw s2). dw_matches 2 1 1 d) \<and> ipc_port_get_checked 1 1 s2 = (s2, None)"
    by (rule deathwatch_missed[OF ipc_one_facts(1) alive u _ d free, of "[]"]) simp_all
  then show ?thesis using u alive d by blast
qed

text \<open>
  Dropping a reference keeps the table consistent, and the id of a port goes back to the free list exactly when
  the reference was the last one and the port had been destroyed, once.
\<close>
theorem port_put_returns_id:
  assumes "port_inv R s" "0 < R p"
  shows "port_inv (R(p := R p - 1)) (ipc_port_put cpu (Some p) s) \<and>
    i_freelist (ipc_port_put cpu (Some p) s) =
      (if in_table s p \<or> 1 < R p then i_freelist s else p_id (i_ports s p) # i_freelist s) \<and>
    i_table (ipc_port_put cpu (Some p) s) = i_table s"
  using port_drop_facts[OF assms, of cpu] by (simp add: ipc_port_put_def)

theorem port_put_returns_id_witness:
  "\<exists>s1 hp g'. port_unlink 1 ipc_one = (s1, Some (100, hp, g')) \<and>
     i_freelist (ipc_port_put 0 (Some 100) s1) = p_id (i_ports s1 100) # i_freelist s1"
proof -
  obtain s1 hp g' where u: "port_unlink 1 ipc_one = (s1, Some (100, hp, g'))"
    by (rule ipc_one_unlink)
  note U = port_unlink_facts[OF ipc_one_facts(1) u]
  show ?thesis
    using port_put_returns_id[OF U(1), of 100 0] U(3) u by simp
qed

lemma port_generation_wraps:
  assumes "port_inv R s" "i_freelist s = i # rest" "i_generation s ! unat i = UINT32_MAX" "i_recycle s = p # ps"
    and "ipc_port_create ex kc pid s = (s', r)" "\<And>p. kc = Some p \<Longrightarrow> \<not> live R s p \<and> p \<notin> set (i_recycle s)"
  shows "r = uint i" "ipc_port_generation i s' = 0"
proof -
  note F = ipc_port_create_facts[OF assms(1,6,5)]
  show "r = uint i" using F assms(2,4) by simp
  obtain q where q: "port_inv R s'" "i_table s' = (i_table s)[unat i := Some q]" "p_generation (i_ports s' q) = UINT32_MAX + 1"
    using F assms(2,3,4) by auto
  have i: "0 < unat i" "unat i < 4096" using port_invD(7)[OF assms(1), of i] assms(2) by simp_all
  have lt: "i < MAX_PORTS" "i \<noteq> 0" using i by (auto simp: MAX_PORTS_def word_less_nat_alt)
  have "live_port i s' = Some q"
    using live_port_table[OF q(1) lt(1)] q(2) i(2) port_invD(1)[OF assms(1)] by simp
  then show "ipc_port_generation i s' = 0" using q(3) lt by (simp add: ipc_port_generation_def)
qed

end
