(* ===== verification/Channel.thy ===== *)
theory Channel
  imports Port
begin

text \<open>
  Sending over ports, \<^verbatim>\<open>kernel/ipc/channel.c\<close>, the rest of \<^verbatim>\<open>ipc_port_destroy\<close> and \<^verbatim>\<open>deathwatch_fire\<close> of \<^verbatim>\<open>port.c\<close>,
  and the system calls that post (\<^verbatim>\<open>sys_post\<close>, \<^verbatim>\<open>sys_post_ck\<close> of \<^verbatim>\<open>syscall.c\<close>).  The running CPU, the calling thread
  (None when there is none or it has no process) and the answers of \<^verbatim>\<open>kmalloc\<close> are arguments; pointers to
  messages are never null here.  A call that sleeps is split there: the body of its loop is a round that ends
  with a result or asleep.  The wait queues can only fail by a cycle, which is None.

  The theory shows that asynchronous messages arrive complete and in order, that a destruction reaches everybody
  who waits, and where the code does not keep its contract: a message without length makes the kernel
  free a pointer chosen by the user, a sender can be left waiting on a dead port, and a second reply loses the first.
\<close>

record caller =
  c_thread :: tptr
  c_pid :: int
  c_tid :: int

definition MAX_THREADS :: int where "MAX_THREADS = 1024"

definition zero_msg :: ipc_message where
  "zero_msg = \<lparr>msg_type = 0, sender_pid = 0, sender_tid = 0, msg_code = 0, arg0 = 0, arg1 = 0, arg2 = 0, arg3 = 0,
     payload_size = 0, payload = None\<rparr>"

definition with_k :: "kstate \<Rightarrow> ipc \<Rightarrow> ipc" where
  "with_k k s = s\<lparr>i_k := k\<rparr>"

definition upd_pend :: "nat \<Rightarrow> (pending_reply \<Rightarrow> pending_reply) \<Rightarrow> ipc \<Rightarrow> ipc" where
  "upd_pend t f s = s\<lparr>i_pend := (i_pend s)(t := f (i_pend s t))\<rparr>"

definition kfree_opt :: "nat option \<Rightarrow> ipc \<Rightarrow> ipc" where
  "kfree_opt b s = (case b of None \<Rightarrow> s | Some x \<Rightarrow> kfree_log [Payload x] s)"

subsection \<open>Queueing and taking messages\<close>

definition enqueue_async :: "nat \<Rightarrow> pptr \<Rightarrow> eptr \<Rightarrow> ipc \<Rightarrow> ipc \<times> int" where
  "enqueue_async cpu p e s =
     (if p_msg_count (i_ports s p) \<ge> PORT_QUEUE_MAX then (entry_discard cpu e s, IPC_ERR_PORT_FULL)
      else let s1 = upd_port p (\<lambda>r. r\<lparr>p_msg_queue := p_msg_queue r @ [e], p_msg_count := p_msg_count r + 1\<rparr>) s
           in (with_k (fst (wait_queue_wake_one (recv_wq p) (i_k s1))) s1, IPC_OK))"

definition try_consume :: "nat \<Rightarrow> pptr \<Rightarrow> ipc \<Rightarrow> ipc \<times> int \<times> (ipc_message \<times> bool) option" where
  "try_consume cpu p s =
     (case p_msg_queue (i_ports s p) of
        e # es \<Rightarrow>
          let s1 = upd_port p (\<lambda>r. r\<lparr>p_msg_queue := es, p_msg_count := p_msg_count r - 1\<rparr>) s;
              en = i_entries s1 e
          in (case ipc_msg_entry_free cpu e (i_pool s1) of
                (pl, fr) \<Rightarrow> (kfree_log (List.map Entry fr) (s1\<lparr>i_pool := pl\<rparr>), IPC_OK, Some (en_msg en, en_payload_owned en)))
      | [] \<Rightarrow>
          if p_notify_bits (i_ports s p) \<noteq> 0
          then (upd_port p (\<lambda>r. r\<lparr>p_notify_bits := 0\<rparr>) s, IPC_OK,
                Some (zero_msg\<lparr>msg_type := IPC_MSG_NOTIFY, arg0 := p_notify_bits (i_ports s p)\<rparr>, False))
          else (s, if p_state (i_ports s p) \<noteq> PORT_ACTIVE then IPC_ERR_DEAD else IPC_ERR_EMPTY, None))"

definition post_common :: "nat \<Rightarrow> caller option \<Rightarrow> eptr option \<Rightarrow> pptr \<Rightarrow> ipc_message \<Rightarrow> ipc \<Rightarrow> ipc \<times> int \<times> ipc_message" where
  "post_common cpu self kmalloc p msg s =
     (if p_state (i_ports s p) \<noteq> PORT_ACTIVE then (s, IPC_ERR_NO_PORT, msg)
      else case self of
        None \<Rightarrow> (s, IPC_ERR_INVALID, msg)
      | Some c \<Rightarrow>
          let msg1 = msg\<lparr>sender_pid := c_pid c, sender_tid := c_tid c, msg_type := IPC_MSG_SIGNAL\<rparr>
          in case entry_alloc cpu kmalloc (i_pool s) of
               (pl, None) \<Rightarrow> (s\<lparr>i_pool := pl\<rparr>, IPC_ERR_NO_MEMORY, msg1)
             | (pl, Some e) \<Rightarrow>
                 let s1 = s\<lparr>i_pool := pl, i_entries := (i_entries s)(e := \<lparr>en_msg = msg1, en_payload_owned = True\<rparr>)\<rparr>;
                     msg2 = (if payload msg1 \<noteq> None \<and> payload_size msg1 > 0 then msg1\<lparr>payload := None\<rparr> else msg1)
                 in case enqueue_async cpu p e s1 of (s2, r) \<Rightarrow> (s2, r, msg2))"

definition ipc_post :: "nat \<Rightarrow> caller option \<Rightarrow> eptr option \<Rightarrow> u32 \<Rightarrow> ipc_message \<Rightarrow> ipc \<Rightarrow> ipc \<times> int \<times> ipc_message" where
  "ipc_post cpu self kmalloc port_id msg s =
     (case ipc_port_get port_id s of
        (s1, None) \<Rightarrow> (s1, IPC_ERR_NO_PORT, msg)
      | (s1, Some p) \<Rightarrow>
          (case post_common cpu self kmalloc p msg s1 of (s2, r, m) \<Rightarrow> (ipc_port_put cpu (Some p) s2, r, m)))"

definition ipc_post_checked :: "nat \<Rightarrow> caller option \<Rightarrow> eptr option \<Rightarrow> u32 \<Rightarrow> u32 \<Rightarrow> ipc_message \<Rightarrow> ipc \<Rightarrow> ipc \<times> int \<times> ipc_message" where
  "ipc_post_checked cpu self kmalloc port_id gen msg s =
     (case ipc_port_get_checked port_id gen s of
        (s1, None) \<Rightarrow> (s1, IPC_ERR_DEAD, msg)
      | (s1, Some p) \<Rightarrow>
          (case post_common cpu self kmalloc p msg s1 of (s2, r, m) \<Rightarrow> (ipc_port_put cpu (Some p) s2, r, m)))"

definition ipc_post_kernel :: "nat \<Rightarrow> u32 \<Rightarrow> u32 \<Rightarrow> u32 \<Rightarrow> u32 \<Rightarrow> u32 \<Rightarrow> ipc \<Rightarrow> ipc \<times> int" where
  "ipc_post_kernel cpu port_id cd a0 a1 a2 s =
     (case ipc_port_get port_id s of
        (s1, None) \<Rightarrow> (s1, IPC_ERR_NO_PORT)
      | (s1, Some p) \<Rightarrow>
          (case (if p_state (i_ports s1 p) \<noteq> PORT_ACTIVE then (s1, IPC_ERR_NO_PORT)
                 else case entry_alloc_irq (i_pool s1) of
                   (pl, None) \<Rightarrow> (s1\<lparr>i_pool := pl\<rparr>, IPC_ERR_NO_MEMORY)
                 | (pl, Some e) \<Rightarrow>
                     enqueue_async cpu p e (s1\<lparr>i_pool := pl, i_entries := (i_entries s1)(e :=
                       \<lparr>en_msg = zero_msg\<lparr>msg_type := IPC_MSG_SIGNAL, sender_pid := 0, sender_tid := -1, msg_code := cd,
                          arg0 := a0, arg1 := a1, arg2 := a2\<rparr>, en_payload_owned = False\<rparr>)\<rparr>))
           of (s2, r) \<Rightarrow> (ipc_port_put cpu (Some p) s2, r)))"

subsection \<open>Receiving\<close>

datatype receive_out = Received int "(ipc_message \<times> bool) option" | Receiver_sleeps

text \<open>One turn of the loop of \<^verbatim>\<open>receive_common\<close>.\<close>

definition receive_round :: "nat \<Rightarrow> tptr \<Rightarrow> bool \<Rightarrow> pptr \<Rightarrow> ipc \<Rightarrow> (ipc \<times> receive_out) option" where
  "receive_round cpu self blocking p s =
     (case try_consume cpu p s of (s1, r, m) \<Rightarrow>
        if r \<noteq> IPC_ERR_EMPTY \<or> \<not> blocking then Some (ipc_port_put cpu (Some p) s1, Received r m)
        else do { k \<leftarrow> wait_prepare (recv_wq p) self 0 True (i_k s1);
          (case try_consume cpu p (with_k k s1) of (s2, r2, m2) \<Rightarrow>
             if r2 \<noteq> IPC_ERR_EMPTY
             then do { (k2, y) \<leftarrow> wait_cancel self (i_k s2); Some (ipc_port_put cpu (Some p) (with_k k2 s2), Received r2 m2) }
             else Some (s2, Receiver_sleeps)) })"

definition receive_begin :: "nat \<Rightarrow> caller option \<Rightarrow> tptr \<Rightarrow> bool \<Rightarrow> u32 \<Rightarrow> ipc \<Rightarrow> (ipc \<times> receive_out) option" where
  "receive_begin cpu self t blocking port_id s =
     (case ipc_port_get port_id s of
        (s1, None) \<Rightarrow> Some (s1, Received IPC_ERR_NO_PORT None)
      | (s1, Some p) \<Rightarrow>
          if (case self of Some c \<Rightarrow> p_owner_pid (i_ports s1 p) \<noteq> c_pid c | None \<Rightarrow> False)
          then Some (ipc_port_put cpu (Some p) s1, Received IPC_ERR_DENIED None)
          else receive_round cpu t blocking p s1)"

text \<open>After the sleep: \<^verbatim>\<open>wait_finish\<close> and the next turn.\<close>

definition receive_resume :: "nat \<Rightarrow> tptr \<Rightarrow> pptr \<Rightarrow> ipc \<Rightarrow> (ipc \<times> receive_out) option" where
  "receive_resume cpu t p s = receive_round cpu t True p (with_k (fst (wait_finish t (i_k s))) s)"

subsection \<open>Notifications\<close>

definition ipc_notify :: "nat \<Rightarrow> u32 \<Rightarrow> u32 \<Rightarrow> ipc \<Rightarrow> (ipc \<times> int) option" where
  "ipc_notify cpu port_id bits s =
     (case ipc_port_get port_id s of
        (s1, None) \<Rightarrow> Some (s1, IPC_ERR_NO_PORT)
      | (s1, Some p) \<Rightarrow>
          if p_state (i_ports s1 p) \<noteq> PORT_ACTIVE then Some (ipc_port_put cpu (Some p) s1, IPC_ERR_NO_PORT)
          else let s2 = upd_port p (\<lambda>r. r\<lparr>p_notify_bits := or (p_notify_bits r) bits\<rparr>) s1
               in do { k1 \<leftarrow> wait_queue_wake_all (notify_wq p) (i_k s2);
                       k2 \<leftarrow> wait_queue_wake_all (recv_wq p) k1;
                       Some (ipc_port_put cpu (Some p) (with_k k2 s2), IPC_OK) })"

definition notify_poll :: "pptr \<Rightarrow> ipc \<Rightarrow> ipc \<times> u32 \<times> port_state" where
  "notify_poll p s =
     (let bits = p_notify_bits (i_ports s p)
      in (if bits \<noteq> 0 then upd_port p (\<lambda>r. r\<lparr>p_notify_bits := 0\<rparr>) s else s, bits, p_state (i_ports s p)))"

datatype notify_out = Notified u32 | Notify_sleeps

definition wait_notify_round :: "nat \<Rightarrow> tptr \<Rightarrow> pptr \<Rightarrow> ipc \<Rightarrow> (ipc \<times> notify_out) option" where
  "wait_notify_round cpu t p s =
     (case notify_poll p s of (s1, bits, st) \<Rightarrow>
        if bits \<noteq> 0 then Some (ipc_port_put cpu (Some p) s1, Notified bits)
        else if st \<noteq> PORT_ACTIVE then Some (ipc_port_put cpu (Some p) s1, Notified 0)
        else do { k \<leftarrow> wait_prepare (notify_wq p) t 0 True (i_k s1);
          (case notify_poll p (with_k k s1) of (s2, bits2, st2) \<Rightarrow>
             if bits2 \<noteq> 0 \<or> st2 \<noteq> PORT_ACTIVE
             then do { (k2, y) \<leftarrow> wait_cancel t (i_k s2); Some (ipc_port_put cpu (Some p) (with_k k2 s2), Notified bits2) }
             else Some (s2, Notify_sleeps)) })"

definition wait_notify_begin :: "nat \<Rightarrow> tptr \<Rightarrow> u32 \<Rightarrow> ipc \<Rightarrow> (ipc \<times> notify_out) option" where
  "wait_notify_begin cpu t port_id s =
     (case ipc_port_get port_id s of
        (s1, None) \<Rightarrow> Some (s1, Notified 0)
      | (s1, Some p) \<Rightarrow> wait_notify_round cpu t p s1)"

definition wait_notify_resume :: "nat \<Rightarrow> tptr \<Rightarrow> pptr \<Rightarrow> ipc \<Rightarrow> (ipc \<times> notify_out) option" where
  "wait_notify_resume cpu t p s = wait_notify_round cpu t p (with_k (fst (wait_finish t (i_k s))) s)"

subsection \<open>Synchronous sending\<close>

definition scheduler_yield_to :: "tptr \<Rightarrow> thread_state \<Rightarrow> tptr \<Rightarrow> kstate \<Rightarrow> kstate" where
  "scheduler_yield_to nxt my_state self k =
     (if state_of k nxt \<noteq> THREAD_BLOCKED then scheduler_unblock nxt k
      else upd_thread nxt (\<lambda>r. r\<lparr>t_state := THREAD_RUNNING\<rparr>)
             (upd_thread self (\<lambda>r. r\<lparr>t_state := my_state\<rparr>) (timer_cancel_sleep nxt k)))"

text \<open>The call up to the test of the port's state; \<^verbatim>\<open>Inr\<close> goes on with a reference to the port.\<close>

definition send_check :: "nat \<Rightarrow> caller option \<Rightarrow> u32 \<Rightarrow> ipc \<Rightarrow> ipc \<times> (int + pptr \<times> caller)" where
  "send_check cpu self port_id s =
     (case ipc_port_get port_id s of
        (s1, None) \<Rightarrow> (s1, Inl IPC_ERR_NO_PORT)
      | (s1, Some p) \<Rightarrow>
          (case self of
             None \<Rightarrow> (ipc_port_put cpu (Some p) s1, Inl IPC_ERR_INVALID)
           | Some c \<Rightarrow>
               if c_tid c < 0 \<or> c_tid c \<ge> MAX_THREADS then (ipc_port_put cpu (Some p) s1, Inl IPC_ERR_INVALID)
               else if p_state (i_ports s1 p) \<noteq> PORT_ACTIVE then (ipc_port_put cpu (Some p) s1, Inl IPC_ERR_NO_PORT)
               else (s1, Inr (p, c))))"

definition send_enqueue :: "nat \<Rightarrow> caller \<Rightarrow> eptr option \<Rightarrow> u32 \<Rightarrow> pptr \<Rightarrow> ipc_message \<Rightarrow> ipc_message \<Rightarrow> ipc \<Rightarrow> ipc \<times> int" where
  "send_enqueue cpu c kmalloc port_id p msg reply s =
     (let msg1 = msg\<lparr>sender_pid := c_pid c, sender_tid := c_tid c, msg_type := IPC_MSG_REQUEST\<rparr>;
          t = nat (c_tid c);
          s1 = with_k (wait_queue_init (reply_wq t) (i_k s))
                 (upd_pend t (\<lambda>_. \<lparr>pr_reply_buf = reply, pr_reply_received = False, pr_port_dead = False,
                    pr_target_port_id = port_id, pr_target_port_gen = p_generation (i_ports s p)\<rparr>) s)
      in case entry_alloc cpu kmalloc (i_pool s1) of
           (pl, None) \<Rightarrow> (ipc_port_put cpu (Some p) (s1\<lparr>i_pool := pl\<rparr>), IPC_ERR_NO_MEMORY)
         | (pl, Some e) \<Rightarrow>
             let s2 = s1\<lparr>i_pool := pl, i_entries := (i_entries s1)(e := \<lparr>en_msg = msg1, en_payload_owned = False\<rparr>),
                         i_slot := (i_slot s1)(t := True)\<rparr>
             in if p_msg_count (i_ports s2 p) \<ge> PORT_QUEUE_MAX
                then (case ipc_msg_entry_free cpu e (i_pool s2) of
                        (pl2, fr) \<Rightarrow> (ipc_port_put cpu (Some p) ((kfree_log (List.map Entry fr) (s2\<lparr>i_pool := pl2\<rparr>))
                                       \<lparr>i_slot := (i_slot s2)(t := False)\<rparr>), IPC_ERR_PORT_FULL))
                else (upd_port p (\<lambda>r. r\<lparr>p_msg_queue := p_msg_queue r @ [e], p_msg_count := p_msg_count r + 1,
                        p_pending_senders := p_pending_senders r @ [t]\<rparr>) s2, IPC_OK))"

text \<open>The receiver is handed the processor when it belongs to this CPU (the sender is then asleep), and woken otherwise.\<close>

definition send_kick :: "(tptr \<Rightarrow> bool) \<Rightarrow> caller \<Rightarrow> pptr \<Rightarrow> ipc \<Rightarrow> (ipc \<times> bool) option" where
  "send_kick here c p s =
     (case wait_queue_extract_one (recv_wq p) (i_k s) of
        (k, None) \<Rightarrow> Some (with_k k s, False)
      | (k, Some r) \<Rightarrow>
          if here r
          then do { k1 \<leftarrow> wait_prepare (reply_wq (nat (c_tid c))) (c_thread c) 0 True k;
                    Some (with_k (scheduler_yield_to r THREAD_BLOCKED (c_thread c) k1) s, True) }
          else Some (with_k (scheduler_unblock r k) s, False))"

definition send_round :: "caller \<Rightarrow> ipc \<Rightarrow> (ipc \<times> bool) option" where
  "send_round c s =
     (let t = nat (c_tid c)
      in if pr_reply_received (i_pend s t) then Some (s, False)
         else do { k \<leftarrow> wait_prepare (reply_wq t) (c_thread c) 0 True (i_k s);
                   if pr_reply_received (i_pend s t)
                   then do { (k2, y) \<leftarrow> wait_cancel (c_thread c) k; Some (with_k k2 s, False) }
                   else Some (with_k k s, True) })"

definition send_finish :: "nat \<Rightarrow> caller \<Rightarrow> pptr \<Rightarrow> ipc \<Rightarrow> ipc \<times> int" where
  "send_finish cpu c p s =
     (let t = nat (c_tid c);
          s1 = s\<lparr>i_slot := (i_slot s)(t := False)\<rparr>;
          pr = i_pend s1 t;
          s2 = (if \<not> pr_port_dead pr \<and> p_generation (i_ports s1 p) = pr_target_port_gen pr
                then upd_port p (\<lambda>r. r\<lparr>p_pending_senders := remove1 t (p_pending_senders r)\<rparr>) s1 else s1)
      in (ipc_port_put cpu (Some p) s2, if pr_port_dead pr then IPC_ERR_DEAD else IPC_OK))"

definition ipc_reply_staged :: "(tptr \<Rightarrow> bool) \<Rightarrow> caller option \<Rightarrow> int \<Rightarrow> ipc_message \<Rightarrow> nat option \<Rightarrow> u32 \<Rightarrow> ipc \<Rightarrow> ipc \<times> int" where
  "ipc_reply_staged here self to_tid reply payload_kbuf psize s =
     (if to_tid < 0 \<or> to_tid \<ge> MAX_THREADS then (kfree_opt payload_kbuf s, IPC_ERR_INVALID)
      else let t = nat to_tid
      in if \<not> i_slot s t then (kfree_opt payload_kbuf s, IPC_ERR_INVALID)
      else let r1 = reply\<lparr>msg_type := IPC_MSG_REPLY\<rparr>;
               r2 = (case self of Some c \<Rightarrow> r1\<lparr>sender_pid := c_pid c, sender_tid := c_tid c\<rparr> | None \<Rightarrow> r1);
               r3 = r2\<lparr>payload := payload_kbuf, payload_size := (if payload_kbuf \<noteq> None then psize else 0)\<rparr>;
               s1 = upd_pend t (\<lambda>r. r\<lparr>pr_reply_buf := r3, pr_reply_received := True\<rparr>) s
      in case wait_queue_extract_one (reply_wq t) (i_k s1) of
           (k, None) \<Rightarrow> (with_k k s1, IPC_OK)
         | (k, Some x) \<Rightarrow>
             (with_k (if here x then (case self of Some c \<Rightarrow> scheduler_yield_to x THREAD_READY (c_thread c) k
                                        | None \<Rightarrow> scheduler_unblock x k)
                      else scheduler_unblock x k) s1, IPC_OK))"

subsection \<open>The death of a port\<close>

definition WAKE_BATCH :: nat where "WAKE_BATCH = 32"

definition mark_dead :: "nat list \<Rightarrow> ipc \<Rightarrow> ipc" where
  "mark_dead ts s = fold (\<lambda>t. upd_pend t (\<lambda>r. r\<lparr>pr_port_dead := True, pr_reply_received := True\<rparr>)) ts s"

fun wake_replies :: "nat list \<Rightarrow> kstate \<Rightarrow> kstate option" where
  "wake_replies [] k = Some k"
| "wake_replies (t # ts) k = (case wait_queue_wake_all (reply_wq t) k of None \<Rightarrow> None | Some k' \<Rightarrow> wake_replies ts k')"

lemma mark_dead_simps [simp]:
  "i_ports (mark_dead ts s) = i_ports s" "i_k (mark_dead ts s) = i_k s" "i_table (mark_dead ts s) = i_table s"
  "i_freelist (mark_dead ts s) = i_freelist s" "i_generation (mark_dead ts s) = i_generation s"
  "i_recycle (mark_dead ts s) = i_recycle s" "i_dw (mark_dead ts s) = i_dw s" "i_slot (mark_dead ts s) = i_slot s"
  "i_pool (mark_dead ts s) = i_pool s" "i_freed (mark_dead ts s) = i_freed s" "i_owned (mark_dead ts s) = i_owned s"
  "i_entries (mark_dead ts s) = i_entries s"
  by (induction ts arbitrary: s) (simp_all add: mark_dead_def upd_pend_def)

lemma with_k_simps [simp]:
  "i_k (with_k k s) = k" "i_ports (with_k k s) = i_ports s" "i_table (with_k k s) = i_table s"
  "i_freelist (with_k k s) = i_freelist s" "i_generation (with_k k s) = i_generation s" "i_recycle (with_k k s) = i_recycle s"
  "i_dw (with_k k s) = i_dw s" "i_slot (with_k k s) = i_slot s" "i_pend (with_k k s) = i_pend s"
  "i_pool (with_k k s) = i_pool s" "i_freed (with_k k s) = i_freed s" "i_owned (with_k k s) = i_owned s"
  "i_entries (with_k k s) = i_entries s"
  by (simp_all add: with_k_def)

function ipc_wake_senders_for_port_ptr :: "pptr \<Rightarrow> ipc \<Rightarrow> ipc option" where
  "ipc_wake_senders_for_port_ptr p s =
     (case collect_records (\<lambda>t. \<not> pr_reply_received (i_pend s t)) WAKE_BATCH 0 (p_pending_senders (i_ports s p)) of
        (batch, rest) \<Rightarrow>
          let s1 = mark_dead batch (upd_port p (\<lambda>r. r\<lparr>p_pending_senders := rest\<rparr>) s)
          in case wake_replies batch (i_k s1) of
               None \<Rightarrow> None
             | Some k \<Rightarrow> if length batch < WAKE_BATCH then Some (with_k k s1)
                         else ipc_wake_senders_for_port_ptr p (with_k k s1))"
  by pat_completeness auto

termination
  by (relation "measure (\<lambda>(p, s). length (p_pending_senders (i_ports s p)))")
    (auto dest!: sym[of "(_, _)"] full_batch_less simp: WAKE_BATCH_def)

declare ipc_wake_senders_for_port_ptr.simps [simp del]

fun post_batch :: "nat \<Rightarrow> u32 \<Rightarrow> u32 \<Rightarrow> (u32 \<times> u32) list \<Rightarrow> ipc \<Rightarrow> ipc" where
  "post_batch cpu target_port target_gen [] s = s"
| "post_batch cpu target_port target_gen ((np, cd) # b) s =
     post_batch cpu target_port target_gen b (fst (ipc_post_kernel cpu np cd target_port target_gen 0 s))"

lemma port_drop_dw [simp]: "i_dw (port_drop cpu p s) = i_dw s"
  by (simp add: port_drop_def Let_def split: prod.splits)

lemma take_ref_more [simp]: "i_dw (take_ref p s) = i_dw s" "i_k (take_ref p s) = i_k s" "i_pool (take_ref p s) = i_pool s"
  "i_freelist (take_ref p s) = i_freelist s" "i_pend (take_ref p s) = i_pend s" "i_slot (take_ref p s) = i_slot s"
  "i_entries (take_ref p s) = i_entries s" "i_freed (take_ref p s) = i_freed s"
  by (simp_all add: take_ref_def)

lemma ipc_port_get_dw: "ipc_port_get i s = (s', r) \<Longrightarrow> i_dw s' = i_dw s"
  by (auto simp: ipc_port_get_def split: if_splits option.splits)

lemma enqueue_async_dw: "enqueue_async cpu p e s = (s', r) \<Longrightarrow> i_dw s' = i_dw s"
  by (auto simp: enqueue_async_def Let_def split: if_splits)

lemma ipc_post_kernel_dw: "i_dw (fst (ipc_post_kernel cpu i cd a0 a1 a2 s)) = i_dw s"
proof -
  obtain s1 r where g: "ipc_port_get i s = (s1, r)" by fastforce
  then show ?thesis
    using ipc_port_get_dw[OF g] enqueue_async_dw
    by (auto simp: ipc_post_kernel_def ipc_port_put_def split: option.splits prod.splits if_splits)
qed

lemma post_batch_dw: "i_dw (post_batch cpu t g b s) = i_dw s"
  by (induction cpu t g b s rule: post_batch.induct) (simp_all add: ipc_post_kernel_dw)

abbreviation dw_due :: "u32 \<Rightarrow> u32 \<Rightarrow> deathwatch \<Rightarrow> bool" where
  "dw_due t g d \<equiv> dw_used d \<and> dw_target_port d = t \<and> dw_target_gen d = g"

lemma dw_collect_facts:
  assumes "dw_collect t g room ds = (ds', b)"
  shows "length (filter (dw_due t g) ds) = length b + length (filter (dw_due t g) ds')" "length b \<le> room"
    "length ds' = length ds" "List.map (\<lambda>d. (dw_notify_port d, dw_code d)) (filter (dw_due t g) ds) =
       b @ List.map (\<lambda>d. (dw_notify_port d, dw_code d)) (filter (dw_due t g) ds')"
    "length b < room \<Longrightarrow> ds' = List.map (\<lambda>d. if dw_due t g d then d\<lparr>dw_used := False\<rparr> else d) ds"
    "\<And>h u. (u, h) \<noteq> (t, g) \<Longrightarrow> filter (dw_due u h) ds' = filter (dw_due u h) ds"
proof -
  have "length (filter (dw_due t g) ds) = length b + length (filter (dw_due t g) ds') \<and> length b \<le> room \<and>
    length ds' = length ds \<and> List.map (\<lambda>d. (dw_notify_port d, dw_code d)) (filter (dw_due t g) ds) =
       b @ List.map (\<lambda>d. (dw_notify_port d, dw_code d)) (filter (dw_due t g) ds') \<and>
    (length b < room \<longrightarrow> ds' = List.map (\<lambda>d. if dw_due t g d then d\<lparr>dw_used := False\<rparr> else d) ds) \<and>
    (\<forall>h u. (u, h) \<noteq> (t, g) \<longrightarrow> filter (dw_due u h) ds' = filter (dw_due u h) ds)"
    using assms
  proof (induction t g room ds arbitrary: ds' b rule: dw_collect.induct)
    case (3 t g room d ds)
    show ?case
    proof (cases "dw_due t g d")
      case True
      then obtain e c where e: "dw_collect t g room ds = (e, c)" "ds' = d\<lparr>dw_used := False\<rparr> # e"
        "b = (dw_notify_port d, dw_code d) # c"
        using 3(3) by (auto split: prod.splits)
      show ?thesis using 3(1)[OF True e(1)] True e(2,3) by auto
    next
      case False
      then obtain e where e: "dw_collect t g (Suc room) ds = (e, b)" "ds' = d # e"
        using 3(3) by (auto split: prod.splits)
      show ?thesis using 3(2)[OF False e(1)] False e(2) by auto
    qed
  qed auto
  then show "length (filter (dw_due t g) ds) = length b + length (filter (dw_due t g) ds')" "length b \<le> room"
    "length ds' = length ds" "List.map (\<lambda>d. (dw_notify_port d, dw_code d)) (filter (dw_due t g) ds) =
       b @ List.map (\<lambda>d. (dw_notify_port d, dw_code d)) (filter (dw_due t g) ds')"
    "length b < room \<Longrightarrow> ds' = List.map (\<lambda>d. if dw_due t g d then d\<lparr>dw_used := False\<rparr> else d) ds"
    "\<And>h u. (u, h) \<noteq> (t, g) \<Longrightarrow> filter (dw_due u h) ds' = filter (dw_due u h) ds" by blast+
qed

function deathwatch_fire :: "nat \<Rightarrow> u32 \<Rightarrow> u32 \<Rightarrow> ipc \<Rightarrow> ipc" where
  "deathwatch_fire cpu target_port target_gen s =
     (case dw_collect target_port target_gen 16 (i_dw s) of
        (ds, b) \<Rightarrow>
          let s1 = post_batch cpu target_port target_gen b (s\<lparr>i_dw := ds\<rparr>)
          in if length b < 16 then s1 else deathwatch_fire cpu target_port target_gen s1)"
  by pat_completeness auto
termination
  by (relation "measure (\<lambda>(cpu, t, g, s). length (filter (dw_due t g) (i_dw s)))")
    (auto simp: post_batch_dw dest!: sym[of "(_, _)"] dw_collect_facts(1))

declare deathwatch_fire.simps [simp del]

definition ipc_port_destroy :: "nat \<Rightarrow> u32 \<Rightarrow> ipc \<Rightarrow> ipc option" where
  "ipc_port_destroy cpu port_id s =
     (case port_unlink port_id s of
        (s1, None) \<Rightarrow> Some s1
      | (s1, Some (p, has_pending, dead_gen)) \<Rightarrow>
          let s2 = deathwatch_fire cpu port_id dead_gen s1
          in do { k1 \<leftarrow> wait_queue_wake_all (recv_wq p) (i_k s2);
                  k2 \<leftarrow> wait_queue_wake_all (notify_wq p) k1;
                  s3 \<leftarrow> (if has_pending then ipc_wake_senders_for_port_ptr p (with_k k2 s2) else Some (with_k k2 s2));
                  Some (port_drop cpu p s3) })"

subsection \<open>Clean-up\<close>

definition ipc_cleanup_thread :: "nat \<Rightarrow> int \<Rightarrow> ipc \<Rightarrow> ipc" where
  "ipc_cleanup_thread cpu tid s =
     (if tid < 0 \<or> tid \<ge> MAX_THREADS then s
      else let t = nat tid
      in if \<not> i_slot s t then s
      else let s1 = upd_pend t (\<lambda>r. r\<lparr>pr_port_dead := True, pr_reply_received := True\<rparr>) (s\<lparr>i_slot := (i_slot s)(t := False)\<rparr>)
      in case ipc_port_get (pr_target_port_id (i_pend s1 t)) s1 of
           (s2, None) \<Rightarrow> s2
         | (s2, Some p) \<Rightarrow>
             ipc_port_put cpu (Some p)
               (if p_generation (i_ports s2 p) = pr_target_port_gen (i_pend s2 t)
                then upd_port p (\<lambda>r. r\<lparr>p_pending_senders := remove1 t (p_pending_senders r)\<rparr>) s2 else s2))"

fun destroy_each :: "nat \<Rightarrow> pptr list \<Rightarrow> ipc \<Rightarrow> ipc option" where
  "destroy_each cpu [] s = Some s"
| "destroy_each cpu (p # ps) s =
     (case ipc_port_destroy cpu (p_id (i_ports s p)) s of None \<Rightarrow> None | Some s' \<Rightarrow> destroy_each cpu ps s')"

definition ipc_ports_cleanup_owner :: "(int \<Rightarrow> bool) \<Rightarrow> nat \<Rightarrow> int \<Rightarrow> ipc \<Rightarrow> ipc option" where
  "ipc_ports_cleanup_owner process_exists cpu owner_pid s =
     (if \<not> process_exists owner_pid then Some s else destroy_each cpu (i_owned s owner_pid) s)"

definition ipc_init :: "ipc \<Rightarrow> ipc" where
  "ipc_init s = (ipc_port_init s)\<lparr>i_slot := (\<lambda>_. False), i_pool := pool_init\<lparr>s_irq_drops := s_irq_drops (i_pool s)\<rparr>\<rparr>"

subsection \<open>The system calls that post\<close>

text \<open>
  The message as copied from the user (None when the copy faults), whether the payload is readable, what
  \<^verbatim>\<open>kmalloc\<close> answers for its copy, and whether that copy succeeds are arguments.  The result is the error
  to return, or the message to post.
\<close>

definition post_snapshot :: "ipc_message option \<Rightarrow> bool \<Rightarrow> nat option \<Rightarrow> bool \<Rightarrow> ipc \<Rightarrow> ipc \<times> (int + ipc_message)" where
  "post_snapshot umsg readable buf copied s =
     (case umsg of
        None \<Rightarrow> (s, Inl IPC_ERR_INVALID)
      | Some msg \<Rightarrow>
          if payload msg \<noteq> None \<and> payload_size msg > 0
          then if \<not> readable then (s, Inl IPC_ERR_INVALID)
               else (case buf of
                  None \<Rightarrow> (s, Inl IPC_ERR_NO_MEMORY)
                | Some b \<Rightarrow> if \<not> copied then (kfree_log [Payload b] s, Inl IPC_ERR_INVALID)
                            else (s, Inr (msg\<lparr>payload := Some b\<rparr>)))
          else (s, Inr msg))"

definition sys_post ::
  "nat \<Rightarrow> caller option \<Rightarrow> eptr option \<Rightarrow> u32 \<Rightarrow> ipc_message option \<Rightarrow> bool \<Rightarrow> nat option \<Rightarrow> bool \<Rightarrow> ipc \<Rightarrow> ipc \<times> int" where
  "sys_post cpu self kmalloc port_id umsg readable buf copied s =
     (case post_snapshot umsg readable buf copied s of
        (s1, Inl r) \<Rightarrow> (s1, r)
      | (s1, Inr msg) \<Rightarrow>
          (case ipc_post cpu self kmalloc port_id msg s1 of (s2, r, m) \<Rightarrow> (kfree_opt (payload m) s2, r)))"

definition sys_post_ck ::
  "nat \<Rightarrow> caller option \<Rightarrow> eptr option \<Rightarrow> u32 \<Rightarrow> u32 \<Rightarrow> ipc_message option \<Rightarrow> bool \<Rightarrow> nat option \<Rightarrow> bool \<Rightarrow> ipc \<Rightarrow> ipc \<times> int" where
  "sys_post_ck cpu self kmalloc port_id gen umsg readable buf copied s =
     (case post_snapshot umsg readable buf copied s of
        (s1, Inl r) \<Rightarrow> (s1, r)
      | (s1, Inr msg) \<Rightarrow>
          (case ipc_post_checked cpu self kmalloc port_id gen msg s1 of (s2, r, m) \<Rightarrow> (kfree_opt (payload m) s2, r)))"

definition sys_watch_port :: "nat \<Rightarrow> int option \<Rightarrow> u32 \<Rightarrow> u32 \<Rightarrow> u32 \<Rightarrow> u32 \<Rightarrow> ipc \<Rightarrow> ipc \<times> int" where
  "sys_watch_port cpu pid target_port target_gen notify_port cd s =
     (case pid of
        None \<Rightarrow> (s, -1)
      | Some me \<Rightarrow>
          (case ipc_port_get notify_port s of
             (s1, None) \<Rightarrow> (s1, -1)
           | (s1, Some np) \<Rightarrow>
               let mine = (p_owner_pid (i_ports s1 np) = me); s2 = ipc_port_put cpu (Some np) s1
               in if \<not> mine then (s2, -1) else deathwatch_add me notify_port cd target_port target_gen s2))"

section \<open>Messages without a length\<close>

lemma enqueue_async_out: "post_common cpu self km p msg s = (s', r, m) \<Longrightarrow> payload_size msg = 0 \<Longrightarrow> payload m = payload msg"
  by (auto simp: post_common_def Let_def split: if_splits option.splits prod.splits)

lemma ipc_post_out: "ipc_post cpu self km i msg s = (s', r, m) \<Longrightarrow> payload_size msg = 0 \<Longrightarrow> payload m = payload msg"
  by (auto simp: ipc_post_def split: prod.splits option.splits dest: enqueue_async_out)

text \<open>
  C14: A process can make the kernel free any address.  \<^verbatim>\<open>sys_post\<close> copies the payload only when both
  pointer and length are given, and the post takes the buffer over only then; with a length of zero the
  pointer the user wrote into the message is passed on unchanged and \<^verbatim>\<open>kfree\<close> is called on it, whatever the port.
\<close>
theorem sys_post_frees_user_pointer:
  assumes "payload msg = Some b" "payload_size msg = 0"
  shows "Payload b \<in> set (i_freed (fst (sys_post cpu self km port_id (Some msg) readable buf copied s)))"
proof -
  obtain s2 r m where p: "ipc_post cpu self km port_id msg s = (s2, r, m)" by (metis prod_cases3)
  have "payload m = Some b" using ipc_post_out[OF p assms(2)] assms(1) by simp
  then have "sys_post cpu self km port_id (Some msg) readable buf copied s = (kfree_log [Payload b] s2, r)"
    using p assms by (simp add: sys_post_def post_snapshot_def kfree_opt_def)
  then show ?thesis by (simp add: kfree_log_def)
qed

theorem sys_post_frees_user_pointer_witness:
  "Payload 0xC0100000 \<in> set (i_freed (fst (sys_post 0 None None 1
     (Some (zero_msg\<lparr>payload := Some 0xC0100000\<rparr>)) False None False ipc_boot)))"
  by (rule sys_post_frees_user_pointer) (simp_all add: zero_msg_def)

section \<open>Replies\<close>

lemma reply_facts:
  assumes "i_slot s (nat t)" "0 \<le> t" "t < MAX_THREADS"
    and "ipc_reply_staged here self t m b n s = (s', r)"
  shows "r = IPC_OK" "i_slot s' (nat t)" "i_freed s' = i_freed s" "payload (pr_reply_buf (i_pend s' (nat t))) = b"
    "pr_reply_received (i_pend s' (nat t))" "pr_port_dead (i_pend s' (nat t)) = pr_port_dead (i_pend s (nat t))"
  using assms
  by (auto simp: ipc_reply_staged_def Let_def upd_pend_def split: prod.splits option.splits)

text \<open>
  A second reply loses the buffer of the first.  While the sender has not yet run again its slot stays open: another reply
  to the same thread, from any process, is accepted and overwrites the message, and the kernel buffer of the first reply is
  neither freed nor reachable.
\<close>
theorem reply_overwritten:
  assumes "i_slot s (nat t)" "0 \<le> t" "t < MAX_THREADS"
    and "ipc_reply_staged here1 self1 t m1 (Some b1) n1 s = (s1, r1)"
    and "ipc_reply_staged here2 self2 t m2 (Some b2) n2 s1 = (s2, r2)"
  shows "r1 = IPC_OK \<and> r2 = IPC_OK \<and> payload (pr_reply_buf (i_pend s2 (nat t))) = Some b2 \<and> i_freed s2 = i_freed s"
  using reply_facts[OF assms(1-4)] reply_facts[OF _ assms(2,3,5)] by simp

theorem reply_overwritten_witness:
  "\<exists>s1 s2. ipc_reply_staged (\<lambda>_. False) None 5 zero_msg (Some 1000) 8 (ipc_boot\<lparr>i_slot := (\<lambda>t. t = 5)\<rparr>) = (s1, IPC_OK) \<and>
     ipc_reply_staged (\<lambda>_. False) None 5 zero_msg (Some 2000) 8 s1 = (s2, IPC_OK) \<and>
     payload (pr_reply_buf (i_pend s2 5)) = Some 2000 \<and> i_freed s2 = i_freed ipc_boot"
proof -
  let ?s = "ipc_boot\<lparr>i_slot := (\<lambda>t. t = 5)\<rparr>"
  obtain s1 r1 where 1: "ipc_reply_staged (\<lambda>_. False) None 5 zero_msg (Some 1000) 8 ?s = (s1, r1)" by fastforce
  obtain s2 r2 where 2: "ipc_reply_staged (\<lambda>_. False) None 5 zero_msg (Some 2000) 8 s1 = (s2, r2)" by fastforce
  have "r1 = IPC_OK \<and> r2 = IPC_OK \<and> payload (pr_reply_buf (i_pend s2 (nat 5))) = Some 2000 \<and> i_freed s2 = i_freed ?s"
    by (rule reply_overwritten[OF _ _ _ 1 2]) (simp_all add: MAX_THREADS_def)
  then show ?thesis using 1 2 by auto
qed

section \<open>Order of messages\<close>

definition queued :: "pptr \<Rightarrow> ipc \<Rightarrow> (ipc_message \<times> bool) list" where
  "queued p s = List.map (\<lambda>e. (en_msg (i_entries s e), en_payload_owned (i_entries s e))) (p_msg_queue (i_ports s p))"

text \<open>A port whose queue is consistent, with the set of message entries in somebody's hands.\<close>

definition chan_ok :: "pptr \<Rightarrow> eptr set \<times> ipc \<Rightarrow> bool" where
  "chan_ok p c = (case c of (U, s) \<Rightarrow> pool_inv (i_pool s) \<and> pool_once (i_pool s) U \<and>
     set (p_msg_queue (i_ports s p)) \<subseteq> U \<and> distinct (p_msg_queue (i_ports s p)) \<and>
     unat (p_msg_count (i_ports s p)) = length (p_msg_queue (i_ports s p)) \<and> length (p_msg_queue (i_ports s p)) \<le> 256 \<and>
     p_state (i_ports s p) = PORT_ACTIVE)"

definition stamped :: "caller \<Rightarrow> ipc_message \<Rightarrow> ipc_message" where
  "stamped c m = m\<lparr>sender_pid := c_pid c, sender_tid := c_tid c, msg_type := IPC_MSG_SIGNAL\<rparr>"

lemma entry_discard_pool:
  "i_pool (entry_discard cpu e s) = fst (ipc_msg_entry_free cpu e (i_pool s))"
  by (auto simp: entry_discard_def Let_def split: option.splits prod.splits)

lemma post_common_facts:
  assumes "chan_ok p (U, s)" "cpu < MAX_CPUS" "\<And>e. km = Some e \<Longrightarrow> IPC_IRQ_POOL_SIZE \<le> e \<and> e \<notin># pool_free (i_pool s) \<and> e \<notin> U"
    and "post_common cpu (Some c) km p msg s = (s', r, m)"
  shows "r = IPC_OK \<longleftrightarrow> snd (entry_alloc cpu km (i_pool s)) \<noteq> None \<and> length (queued p s) < 256"
    "r = IPC_OK \<Longrightarrow> queued p s' = queued p s @ [(stamped c msg, True)] \<and>
       (\<exists>e. snd (entry_alloc cpu km (i_pool s)) = Some e \<and> chan_ok p (insert e U, s'))"
    "r \<noteq> IPC_OK \<Longrightarrow> (r = IPC_ERR_NO_MEMORY \<or> r = IPC_ERR_PORT_FULL) \<and> queued p s' = queued p s \<and> chan_ok p (U, s')"
proof -
  note C = assms(1)[unfolded chan_ok_def prod.case]
  obtain pl a where a: "entry_alloc cpu km (i_pool s) = (pl, a)" by fastforce
  have "(r = IPC_OK \<longleftrightarrow> snd (entry_alloc cpu km (i_pool s)) \<noteq> None \<and> length (queued p s) < 256) \<and>
    (r = IPC_OK \<longrightarrow> queued p s' = queued p s @ [(stamped c msg, True)] \<and>
       (\<exists>e. snd (entry_alloc cpu km (i_pool s)) = Some e \<and> chan_ok p (insert e U, s'))) \<and>
    (r \<noteq> IPC_OK \<longrightarrow> (r = IPC_ERR_NO_MEMORY \<or> r = IPC_ERR_PORT_FULL) \<and> queued p s' = queued p s \<and> chan_ok p (U, s'))"
  proof (cases a)
    case None
    have F: "pool_inv pl" "pool_free pl = pool_free (i_pool s)"
      using entry_alloc_facts[of "i_pool s" cpu km pl None] a None C assms(2,3) by auto
    have "s' = s\<lparr>i_pool := pl\<rparr>" "r = IPC_ERR_NO_MEMORY"
      using assms(4) a None C by (auto simp: post_common_def Let_def)
    then show ?thesis using a None F C by (simp add: IPC_OK_def IPC_ERR_NO_MEMORY_def queued_def chan_ok_def pool_once_def)
  next
    case (Some e)
    note A = pool_alloc_once[OF _ _ assms(2), of "i_pool s" U km pl e]
    have A: "pool_inv pl" "e \<notin> U" "pool_once pl (insert e U)" "IPC_IRQ_POOL_SIZE \<le> e"
      using A a Some C assms(3) by blast+
    let ?s1 = "s\<lparr>i_pool := pl, i_entries := (i_entries s)(e := \<lparr>en_msg = stamped c msg, en_payload_owned = True\<rparr>)\<rparr>"
    have q1: "queued p ?s1 = queued p s"
      using A(2) C by (auto simp: queued_def)
    obtain s2 r2 where en: "enqueue_async cpu p e ?s1 = (s2, r2)" by fastforce
    have sr: "s' = s2" "r = r2"
      using assms(4) a Some C en by (auto simp: post_common_def Let_def stamped_def)
    show ?thesis
    proof (cases "p_msg_count (i_ports s p) \<ge> PORT_QUEUE_MAX")
      case True
      then have full: "\<not> length (queued p s) < 256" using C by (simp add: PORT_QUEUE_MAX_def word_le_nat_alt queued_def)
      have s2: "s2 = entry_discard cpu e ?s1" "r2 = IPC_ERR_PORT_FULL" using en True by (auto simp: enqueue_async_def)
      obtain pl2 fr where f: "ipc_msg_entry_free cpu e pl = (pl2, fr)" by fastforce
      note G = entry_free_facts[OF A(1) assms(2) f]
      have p2: "i_pool s2 = pl2" using s2(1) f by (simp add: entry_discard_pool)
      have "pool_once pl2 (insert e U - {e})" using pool_once_give[OF A(3) _ G(2)] by simp
      then have once: "pool_once pl2 U" using A(2) by simp
      have "queued p s2 = queued p s" using q1 s2(1) by (simp add: queued_def)
      moreover have "chan_ok p (U, s2)" using C once G(1) p2 s2(1) by (simp add: chan_ok_def)
      ultimately show ?thesis using sr s2(2) full by (simp add: IPC_OK_def IPC_ERR_PORT_FULL_def)
    next
      case False
      then have room: "length (queued p s) < 256" using C by (simp add: PORT_QUEUE_MAX_def word_le_nat_alt queued_def)
      let ?s3 = "upd_port p (\<lambda>r. r\<lparr>p_msg_queue := p_msg_queue r @ [e], p_msg_count := p_msg_count r + 1\<rparr>) ?s1"
      have s2: "s2 = with_k (fst (wait_queue_wake_one (recv_wq p) (i_k ?s3))) ?s3" "r2 = IPC_OK"
        using en False by (auto simp: enqueue_async_def Let_def)
      have cnt: "unat (p_msg_count (i_ports s p) + 1) = Suc (length (p_msg_queue (i_ports s p)))"
        using unat_Suc_u32[of "p_msg_count (i_ports s p)" PORT_QUEUE_MAX] False C by (simp add: not_le)
      have "queued p s2 = queued p s @ [(stamped c msg, True)]"
        using q1 s2(1) by (simp add: queued_def)
      moreover have "chan_ok p (insert e U, s2)"
        using C A cnt room s2(1) by (auto simp: chan_ok_def queued_def)
      ultimately show ?thesis using sr s2(2) a Some room by simp
    qed
  qed
  then show "r = IPC_OK \<longleftrightarrow> snd (entry_alloc cpu km (i_pool s)) \<noteq> None \<and> length (queued p s) < 256"
    "r = IPC_OK \<Longrightarrow> queued p s' = queued p s @ [(stamped c msg, True)] \<and>
       (\<exists>e. snd (entry_alloc cpu km (i_pool s)) = Some e \<and> chan_ok p (insert e U, s'))"
    "r \<noteq> IPC_OK \<Longrightarrow> (r = IPC_ERR_NO_MEMORY \<or> r = IPC_ERR_PORT_FULL) \<and> queued p s' = queued p s \<and> chan_ok p (U, s')"
    by blast+
qed
lemma try_consume_facts:
  assumes "chan_ok p (U, s)" "cpu < MAX_CPUS" "p_msg_queue (i_ports s p) = e # es" "try_consume cpu p s = (s', r, m)"
  shows "r = IPC_OK" "m = Some (hd (queued p s))" "queued p s' = tl (queued p s)" "chan_ok p (U - {e}, s')"
proof -
  note C = assms(1)[unfolded chan_ok_def prod.case]
  obtain pl fr where f: "ipc_msg_entry_free cpu e (i_pool s) = (pl, fr)" by fastforce
  have G: "pool_inv pl" "pool_free pl + mset fr = add_mset e (pool_free (i_pool s))"
    using entry_free_facts[OF _ assms(2) f] C by auto
  have once: "pool_once pl (U - {e})" using pool_once_give[OF _ _ G(2)] C assms(3) by simp
  have S: "s' = kfree_log (List.map Entry fr) ((upd_port p (\<lambda>r. r\<lparr>p_msg_queue := es, p_msg_count := p_msg_count r - 1\<rparr>) s)
      \<lparr>i_pool := pl\<rparr>)" "r = IPC_OK" "m = Some (en_msg (i_entries s e), en_payload_owned (i_entries s e))"
    using assms(3,4) f by (auto simp: try_consume_def Let_def)
  show "r = IPC_OK" "m = Some (hd (queued p s))" "queued p s' = tl (queued p s)"
    using S assms(3) by (simp_all add: queued_def)
  have "unat (p_msg_count (i_ports s p) - 1) = length es"
    using unat_pred_u32[of "p_msg_count (i_ports s p)"] C assms(3) by simp
  then show "chan_ok p (U - {e}, s')" using S(1) C G(1) once assms(3) by (auto simp: chan_ok_def)
qed

text \<open>
  What a sender and a receiver rely on: a mailbox keeps the accepted messages in order, and a message taken from
  an empty mailbox is not one that was sent.
\<close>

locale mailbox =
  fixes inv :: "'s \<Rightarrow> bool" and items :: "'s \<Rightarrow> 'm list" and proper :: "'m \<Rightarrow> bool"
    and ready :: "'a \<Rightarrow> 's \<Rightarrow> bool" and post :: "'a \<Rightarrow> 's \<Rightarrow> 's \<times> bool" and image :: "'a \<Rightarrow> 'm"
    and take_one :: "'c \<Rightarrow> 's \<Rightarrow> 's \<times> 'm option" and cpu_ok :: "'c \<Rightarrow> bool"
  assumes items_proper: "inv s \<Longrightarrow> list_all proper (items s)"
    and post_law: "inv s \<Longrightarrow> ready a s \<Longrightarrow> post a s = (s', b) \<Longrightarrow>
      inv s' \<and> items s' = items s @ (if b then [image a] else [])"
    and take_some: "inv s \<Longrightarrow> cpu_ok c \<Longrightarrow> items s = m # ms \<Longrightarrow> take_one c s = (s', r) \<Longrightarrow> inv s' \<and> r = Some m \<and> items s' = ms"
    and take_none: "inv s \<Longrightarrow> cpu_ok c \<Longrightarrow> items s = [] \<Longrightarrow> take_one c s = (s', r) \<Longrightarrow>
      inv s' \<and> items s' = [] \<and> (case r of None \<Rightarrow> True | Some m \<Rightarrow> \<not> proper m)"
begin

text \<open>A history of posts (Inl) and takes (Inr): what was accepted and what came out.\<close>

fun run :: "('a + 'c) list \<Rightarrow> 's \<Rightarrow> ('s \<times> 'm list \<times> 'm list) option" where
  "run [] s = Some (s, [], [])"
| "run (Inl a # es) s =
     (if ready a s then case post a s of (s', b) \<Rightarrow>
        map_option (\<lambda>(s'', ins, outs). (s'', (if b then [image a] else []) @ ins, outs)) (run es s') else None)"
| "run (Inr c # es) s =
     (if cpu_ok c then case take_one c s of (s', r) \<Rightarrow>
        map_option (\<lambda>(s'', ins, outs). (s'', ins, filter proper (case r of None \<Rightarrow> [] | Some m \<Rightarrow> [m]) @ outs)) (run es s')
      else None)"

lemma run_take:
  assumes "inv s" "cpu_ok c" "take_one c s = (s', r)"
  shows "inv s' \<and> items s = filter proper (case r of None \<Rightarrow> [] | Some m \<Rightarrow> [m]) @ items s'"
proof (cases "items s")
  case Nil
  then show ?thesis using take_none[OF assms(1,2) Nil assms(3)] by (cases r) auto
next
  case (Cons m ms)
  then show ?thesis using take_some[OF assms(1,2) Cons assms(3)] items_proper[OF assms(1)] by simp
qed

lemma run_fifo:
  "run es s = Some (s', ins, outs) \<Longrightarrow> inv s \<Longrightarrow> inv s' \<and> items s @ ins = outs @ items s'"
proof (induction es s arbitrary: s' ins outs rule: run.induct)
  case (2 a es s)
  from 2(2) obtain s1 b where p: "ready a s" "post a s = (s1, b)"
    by (cases "post a s") (auto split: if_splits)
  with 2(2) obtain ins' where r: "run es s1 = Some (s', ins', outs)" "ins = (if b then [image a] else []) @ ins'" by auto
  show ?case using 2(1)[OF p(1) p(2)[symmetric] r(1)] post_law[OF 2(3) p] r(2) by auto
next
  case (3 c es s)
  from 3(2) obtain s1 m where p: "cpu_ok c" "take_one c s = (s1, m)"
    by (cases "take_one c s") (auto split: if_splits)
  with 3(2) obtain outs' where r: "run es s1 = Some (s', ins, outs')"
    "outs = filter proper (case m of None \<Rightarrow> [] | Some x \<Rightarrow> [x]) @ outs'" by auto
  show ?case using 3(1)[OF p(1) p(2)[symmetric] r(1)] run_take[OF 3(3) p] r(2) by auto
qed simp

end
text \<open>
  A port as a mailbox.  The state carries the set of message entries in use; an argument of a post is the CPU, the caller,
  the answer of \<^verbatim>\<open>kmalloc\<close> and the message.
\<close>

type_synonym post_arg = "nat \<times> caller \<times> eptr option \<times> ipc_message"

definition box_ok :: "pptr \<Rightarrow> eptr set \<times> ipc \<Rightarrow> bool" where
  "box_ok p c \<longleftrightarrow> chan_ok p c \<and> list_all (\<lambda>m. msg_type (fst m) \<noteq> IPC_MSG_NOTIFY) (queued p (snd c))"

definition post_ready :: "post_arg \<Rightarrow> eptr set \<times> ipc \<Rightarrow> bool" where
  "post_ready a st = (case (a, st) of ((cpu, c, km, msg), (U, s)) \<Rightarrow> cpu < MAX_CPUS \<and>
     (case km of None \<Rightarrow> True | Some e \<Rightarrow> IPC_IRQ_POOL_SIZE \<le> e \<and> e \<notin># pool_free (i_pool s) \<and> e \<notin> U))"

definition post_image :: "post_arg \<Rightarrow> ipc_message \<times> bool" where
  "post_image a = (case a of (cpu, c, km, msg) \<Rightarrow> (stamped c msg, True))"

definition box_post :: "pptr \<Rightarrow> post_arg \<Rightarrow> eptr set \<times> ipc \<Rightarrow> (eptr set \<times> ipc) \<times> bool" where
  "box_post p a st = (case (a, st) of ((cpu, c, km, msg), (U, s)) \<Rightarrow>
     (case post_common cpu (Some c) km p msg s of (s', r, m) \<Rightarrow>
        ((if r = IPC_OK then insert (the (snd (entry_alloc cpu km (i_pool s)))) U else U, s'), r = IPC_OK)))"

definition box_take :: "pptr \<Rightarrow> nat \<Rightarrow> eptr set \<times> ipc \<Rightarrow> (eptr set \<times> ipc) \<times> (ipc_message \<times> bool) option" where
  "box_take p cpu st = (case st of (U, s) \<Rightarrow>
     (case try_consume cpu p s of (s', r, m) \<Rightarrow> ((U - set (take 1 (p_msg_queue (i_ports s p))), s'), m)))"

lemma box_post_law:
  assumes "box_ok p st" "post_ready a st" "box_post p a st = (st', b)"
  shows "box_ok p st' \<and> queued p (snd st') = queued p (snd st) @ (if b then [post_image a] else [])"
proof -
  obtain cpu c km msg where a: "a = (cpu, c, km, msg)" by (metis prod_cases4)
  obtain U s where st: "st = (U, s)" by fastforce
  obtain s' r m where pc: "post_common cpu (Some c) km p msg s = (s', r, m)" by (metis prod_cases3)
  have ok: "chan_ok p (U, s)" "cpu < MAX_CPUS" "\<And>e. km = Some e \<Longrightarrow> IPC_IRQ_POOL_SIZE \<le> e \<and> e \<notin># pool_free (i_pool s) \<and> e \<notin> U"
    and pr: "list_all (\<lambda>m. msg_type (fst m) \<noteq> IPC_MSG_NOTIFY) (queued p s)"
    using assms(1,2) by (auto simp: box_ok_def post_ready_def a st)
  note F = post_common_facts[OF ok pc]
  have b: "b = (r = IPC_OK)" "st' = (if r = IPC_OK then insert (the (snd (entry_alloc cpu km (i_pool s)))) U else U, s')"
    using assms(3) pc by (auto simp: box_post_def a st)
  show ?thesis
  proof (cases "r = IPC_OK")
    case True
    then show ?thesis using F(2) pr b
      by (auto simp: box_ok_def post_image_def a st stamped_def IPC_MSG_SIGNAL_def IPC_MSG_NOTIFY_def)
  next
    case False
    then show ?thesis using F(3) pr b by (simp add: box_ok_def st)
  qed
qed

lemma box_take_some:
  assumes "box_ok p st" "cpu < MAX_CPUS" "queued p (snd st) = m # ms" "box_take p cpu st = (st', r)"
  shows "box_ok p st' \<and> r = Some m \<and> queued p (snd st') = ms"
proof -
  obtain U s where st: "st = (U, s)" by fastforce
  obtain e es where q: "p_msg_queue (i_ports s p) = e # es"
    using assms(3) by (cases "p_msg_queue (i_ports s p)") (simp_all add: queued_def st)
  obtain s' r' m' where t: "try_consume cpu p s = (s', r', m')" by (metis prod_cases3)
  have "chan_ok p (U, s)" using assms(1) by (simp add: box_ok_def st)
  note F = try_consume_facts[OF this assms(2) q t]
  show ?thesis using F assms(1,3,4) t q by (auto simp: box_take_def box_ok_def st)
qed

lemma box_take_none:
  assumes "box_ok p st" "queued p (snd st) = []" "box_take p cpu st = (st', r)"
  shows "box_ok p st' \<and> queued p (snd st') = [] \<and> (case r of None \<Rightarrow> True | Some m \<Rightarrow> msg_type (fst m) = IPC_MSG_NOTIFY)"
proof -
  obtain U s where st: "st = (U, s)" by fastforce
  have "p_msg_queue (i_ports s p) = []" using assms(2) by (simp add: queued_def st)
  then show ?thesis using assms
    by (auto simp: box_take_def try_consume_def st box_ok_def chan_ok_def queued_def split: if_splits)
qed

interpretation box: mailbox "box_ok p" "\<lambda>st. queued p (snd st)" "\<lambda>m. msg_type (fst m) \<noteq> IPC_MSG_NOTIFY"
  post_ready "box_post p" post_image "box_take p" "\<lambda>cpu. cpu < MAX_CPUS" for p
proof unfold_locales
  show "box_ok p s \<Longrightarrow> list_all (\<lambda>m. msg_type (fst m) \<noteq> IPC_MSG_NOTIFY) (queued p (snd s))" for s
    by (simp add: box_ok_def)
next
  fix s a s' b
  assume "box_ok p s" "post_ready a s" "box_post p a s = (s', b)"
  then show "box_ok p s' \<and> queued p (snd s') = queued p (snd s) @ (if b then [post_image a] else [])"
    by (rule box_post_law)
next
  fix s c m ms s' r
  assume "box_ok p s" "c < MAX_CPUS" "queued p (snd s) = m # ms" "box_take p c s = (s', r)"
  then show "box_ok p s' \<and> r = Some m \<and> queued p (snd s') = ms" by (rule box_take_some)
next
  fix s c s' r
  assume a: "box_ok p s" "queued p (snd s) = []" "box_take p c s = (s', r)"
  show "box_ok p s' \<and> queued p (snd s') = [] \<and>
      (case r of None \<Rightarrow> True | Some m \<Rightarrow> \<not> msg_type (fst m) \<noteq> IPC_MSG_NOTIFY)"
    using box_take_none[OF a] by (simp only: not_not)
qed

text \<open>
  C12: Asynchronous messages arrive once, whole and in the order of the posts.  In any history of posts and receives on a
  live port, what was in the queue followed by the accepted messages, each stamped with the identity of its sender, is what
  the receives returned (synthesised notifications apart) followed by what is still queued; a refused post loses nothing else.
\<close>
theorem messages_arrive_in_order:
  assumes "chan_ok p (U, s)" "list_all (\<lambda>m. msg_type (fst m) \<noteq> IPC_MSG_NOTIFY) (queued p s)"
    and "box.run p acts (U, s) = Some ((U', s'), accepted, received)"
  shows "queued p s @ accepted = received @ queued p s' \<and> chan_ok p (U', s')"
  using box.run_fifo[OF assms(3)] assms(1,2) by (simp add: box_ok_def)

lemma ipc_one_chan: "chan_ok 100 ({}, ipc_one)" "queued 100 ipc_one = []" "i_pool ipc_one = pool_init"
proof -
  have fl: "i_freelist ipc_boot = 1 # words_from 2 MAX_PORTS"
    unfolding ipc_boot_facts(5) by (subst words_from_unfold) (simp_all add: MAX_PORTS_def)
  have A: "i_pool ipc_one = pool_init" "p_msg_queue (i_ports ipc_one 100) = []" "p_msg_count (i_ports ipc_one 100) = 0"
    using fl by (simp_all add: ipc_one_def ipc_port_create_def port_struct_alloc_def ipc_boot_facts(4) Let_def
        ipc_boot_def deathwatch_init_def ipc_port_init_def blank_ipc_def zero_port_def)
  show "i_pool ipc_one = pool_init" by (rule A(1))
  show "queued 100 ipc_one = []" using A by (simp add: queued_def)
  show "chan_ok 100 ({}, ipc_one)"
    using A pool_reach_inv[OF pool_start] ipc_one_facts(4) by (simp add: chan_ok_def)
qed
theorem messages_arrive_in_order_witness:
  "\<exists>st ins outs. box.run 100 [Inl (0, \<lparr>c_thread = 5, c_pid = 9, c_tid = 5\<rparr>, Some 600, zero_msg), Inr 0] ({}, ipc_one) = Some (st, ins, outs) \<and>
     ins = [(zero_msg\<lparr>sender_pid := 9, sender_tid := 5, msg_type := IPC_MSG_SIGNAL\<rparr>, True)] \<and> ins = outs @ queued 100 (snd st)"
proof -
  let ?c = "\<lparr>c_thread = 5, c_pid = 9, c_tid = 5\<rparr>"
  let ?a = "(0, ?c, Some 600, zero_msg) :: post_arg"
  have al: "entry_alloc 0 (Some 600) pool_init = (pool_init, Some 600)" by code_simp
  have ready: "post_ready ?a ({}, ipc_one)"
    by (auto simp: post_ready_def ipc_one_chan(3) MAX_CPUS_def IPC_IRQ_POOL_SIZE_def pool_free_def pool_init_def)
  obtain s1 r m where pc: "post_common 0 (Some ?c) (Some 600) 100 zero_msg ipc_one = (s1, r, m)" by (metis prod_cases3)
  have ok: "\<And>e. Some 600 = Some e \<Longrightarrow> IPC_IRQ_POOL_SIZE \<le> e \<and> e \<notin># pool_free (i_pool ipc_one) \<and> e \<notin> {}" "0 < MAX_CPUS"
    using ready by (simp_all add: post_ready_def)
  have "r = IPC_OK" using post_common_facts(1)[OF ipc_one_chan(1) ok(2,1) pc] al by (simp add: ipc_one_chan)
  then have bp: "box_post 100 ?a ({}, ipc_one) = (({600}, s1), True)" using pc al by (simp add: box_post_def ipc_one_chan(3))
  obtain st o' where bt: "box_take 100 0 ({600}, s1) = (st, o')" by fastforce
  have run: "box.run 100 [Inl ?a, Inr 0] ({}, ipc_one) =
      Some (st, [post_image ?a], filter (\<lambda>m. msg_type (fst m) \<noteq> IPC_MSG_NOTIFY) (case o' of None \<Rightarrow> [] | Some m \<Rightarrow> [m]))"
    (is "_ = Some (st, ?ins, ?outs)") using ready bp bt ok(2) by simp
  have run': "box.run 100 [Inl ?a, Inr 0] ({}, ipc_one) = Some ((fst st, snd st), ?ins, ?outs)"
    unfolding run by (simp only: prod.collapse)
  have "queued 100 ipc_one @ ?ins = ?outs @ queued 100 (snd st) \<and> chan_ok 100 (fst st, snd st)"
    by (rule messages_arrive_in_order[OF ipc_one_chan(1) _ run']) (simp add: ipc_one_chan(2))
  then have "?ins = ?outs @ queued 100 (snd st)" by (simp add: ipc_one_chan(2))
  moreover have "?ins = [(zero_msg\<lparr>sender_pid := 9, sender_tid := 5, msg_type := IPC_MSG_SIGNAL\<rparr>, True)]"
    by (simp add: post_image_def stamped_def)
  ultimately show ?thesis using run by blast
qed

section \<open>The death of a port reaches everybody\<close>

text \<open>A step of the kernel that only wakes: the queues shrink, and exactly the threads that left one are woken.\<close>

definition only_wakes :: "kstate \<Rightarrow> (wqptr \<Rightarrow> tptr list) \<Rightarrow> kstate \<Rightarrow> (wqptr \<Rightarrow> tptr list) \<Rightarrow> bool" where
  "only_wakes k Q k' Q' \<longleftrightarrow> wait_rep k' Q' \<and> (\<forall>b. set (Q' b) \<subseteq> set (Q b)) \<and> woke {t. \<exists>b. t \<in> set (Q b) - set (Q' b)} k k'"

lemma only_wakes_refl: "wait_rep k Q \<Longrightarrow> only_wakes k Q k Q"
  by (simp add: only_wakes_def wq.woke_none)

lemma only_wakes_trans:
  assumes "only_wakes k Q k' Q'" "only_wakes k' Q' k'' Q''"
  shows "only_wakes k Q k'' Q''"
proof -
  have "{t. \<exists>b. t \<in> set (Q b) - set (Q' b)} \<union> {t. \<exists>b. t \<in> set (Q' b) - set (Q'' b)} = {t. \<exists>b. t \<in> set (Q b) - set (Q'' b)}"
    using assms unfolding only_wakes_def by blast
  moreover have "woke ({t. \<exists>b. t \<in> set (Q b) - set (Q' b)} \<union> {t. \<exists>b. t \<in> set (Q' b) - set (Q'' b)}) k k''"
    using assms by (auto simp: only_wakes_def intro: woke_compose)
  ultimately show ?thesis using assms by (fastforce simp: only_wakes_def)
qed

lemma only_wakes_all:
  assumes "wait_rep k Q"
  obtains k' where "wait_queue_wake_all q k = Some k'" "only_wakes k Q k' (Q(q := []))"
proof -
  obtain k' where k': "wait_queue_wake_all q k = Some k'" "wait_rep k' (Q(q := []))" "woke (set (Q q)) k k'"
    using wake_all_rep[OF assms] by blast
  have "{t. \<exists>b. t \<in> set (Q b) - set ((Q(q := [])) b)} = set (Q q)" by auto
  then show ?thesis using that k' by (simp add: only_wakes_def)
qed

lemma only_wakes_one:
  assumes "wait_rep k Q"
  obtains Q' where "only_wakes k Q (fst (wait_queue_wake_one q k)) Q'"
proof (cases "Q q")
  case Nil
  then show ?thesis using that wq.wake_one_empty[OF assms] only_wakes_refl[OF assms] by simp
next
  case (Cons t ts)
  obtain k' where k': "wait_queue_wake_one q k = (k', True)" "wait_rep k' (Q(q := ts))" "woke {t} k k'"
    using wq.wake_one_first[OF assms Cons] by blast
  have "t \<notin> set ts" using wait_repD(2)[OF assms, of q] Cons by simp
  then have "{u. \<exists>b. u \<in> set (Q b) - set ((Q(q := ts)) b)} = {t}" using Cons by (auto split: if_splits)
  moreover have "set ((Q(q := ts)) b) \<subseteq> set (Q b)" for b using Cons by auto
  ultimately have "only_wakes k Q k' (Q(q := ts))" unfolding only_wakes_def using k' by metis
  then show ?thesis using that k' by simp
qed

text \<open>Steps that leave the senders alone and only wake.\<close>

definition quiet :: "ipc \<Rightarrow> ipc \<Rightarrow> bool" where
  "quiet s s' \<longleftrightarrow> i_pend s' = i_pend s \<and> (\<forall>q. p_pending_senders (i_ports s' q) = p_pending_senders (i_ports s q)) \<and>
     i_table s' = i_table s \<and> (\<forall>q. p_state (i_ports s' q) = p_state (i_ports s q)) \<and>
     (\<forall>Q. wait_rep (i_k s) Q \<longrightarrow> (\<exists>Q'. only_wakes (i_k s) Q (i_k s') Q'))"

lemma quietI:
  assumes "i_pend s' = i_pend s" "\<And>q. p_pending_senders (i_ports s' q) = p_pending_senders (i_ports s q)" "i_k s' = i_k s"
    and "i_table s' = i_table s" "\<And>q. p_state (i_ports s' q) = p_state (i_ports s q)"
  shows "quiet s s'"
  using assms unfolding quiet_def by (metis only_wakes_refl)

lemma quiet_trans: "quiet s s' \<Longrightarrow> quiet s' s'' \<Longrightarrow> quiet s s''"
  unfolding quiet_def by (metis only_wakes_def only_wakes_trans)

lemma quiet_get: "quiet s (fst (ipc_port_get i s))"
  by (rule quietI) (auto simp: ipc_port_get_def take_ref_def split: option.splits)
lemma quiet_drop: "quiet s (port_drop cpu p s)"
  by (rule quietI) (auto simp: port_drop_def Let_def split: prod.splits)

lemma quiet_enqueue: "quiet s (fst (enqueue_async cpu p e s))"
proof (cases "p_msg_count (i_ports s p) \<ge> PORT_QUEUE_MAX")
  case True
  then show ?thesis by (intro quietI) (simp_all add: enqueue_async_def)
next
  case False
  let ?s = "fst (enqueue_async cpu p e s)"
  have k: "i_k ?s = fst (wait_queue_wake_one (recv_wq p) (i_k s))" using False by (simp add: enqueue_async_def Let_def)
  have "\<exists>Q'. only_wakes (i_k s) Q (i_k ?s) Q'" if "wait_rep (i_k s) Q" for Q
    unfolding k using only_wakes_one[OF that] by metis
  moreover have "i_pend ?s = i_pend s" "p_pending_senders (i_ports ?s q) = p_pending_senders (i_ports s q)"
      "i_table ?s = i_table s" "p_state (i_ports ?s q) = p_state (i_ports s q)" for q
    using False by (simp_all add: enqueue_async_def Let_def upd_port_def)
  ultimately show ?thesis by (simp add: quiet_def)
qed

lemma quiet_post_kernel: "quiet s (fst (ipc_post_kernel cpu i cd a0 a1 a2 s))"
proof -
  obtain s1 r where g: "ipc_port_get i s = (s1, r)" by fastforce
  have q1: "quiet s s1" using quiet_get[of s i] g by simp
  show ?thesis
  proof (cases r)
    case None
    then show ?thesis using g q1 by (simp add: ipc_post_kernel_def)
  next
    case (Some p)
    obtain pl e where e: "entry_alloc_irq (i_pool s1) = (pl, e)" by fastforce
    let ?m = "\<lambda>e s. s\<lparr>i_pool := pl, i_entries := (i_entries s)(e := \<lparr>en_msg = zero_msg\<lparr>msg_type := IPC_MSG_SIGNAL,
      sender_pid := 0, sender_tid := -1, msg_code := cd, arg0 := a0, arg1 := a1, arg2 := a2\<rparr>, en_payload_owned = False\<rparr>)\<rparr>"
    let ?s2 = "if p_state (i_ports s1 p) \<noteq> PORT_ACTIVE then s1
      else case e of None \<Rightarrow> s1\<lparr>i_pool := pl\<rparr> | Some x \<Rightarrow> fst (enqueue_async cpu p x (?m x s1))"
    have "quiet s1 (?m x s1)" for x by (rule quietI) simp_all
    then have "quiet s1 ?s2"
      using quiet_trans[OF _ quiet_enqueue] by (auto intro: quietI split: option.splits)
    then have "quiet s (port_drop cpu p ?s2)" using q1 quiet_trans quiet_drop by blast
    moreover have "fst (ipc_post_kernel cpu i cd a0 a1 a2 s) = port_drop cpu p ?s2"
      using g Some e by (auto simp: ipc_post_kernel_def ipc_port_put_def split: prod.splits option.splits)
    ultimately show ?thesis by simp
  qed
qed

lemma quiet_post_batch: "quiet s (post_batch cpu t g b s)"
proof (induction cpu t g b s rule: post_batch.induct)
  case (1 cpu t g s)
  then show ?case by (simp add: quietI)
next
  case (2 cpu t g np cd b s)
  then show ?case using quiet_trans[OF quiet_post_kernel] by simp
qed

lemma deathwatch_fire_facts:
  "quiet s (deathwatch_fire cpu t g s)" "filter (dw_due t g) (i_dw (deathwatch_fire cpu t g s)) = []"
proof -
  have "quiet s (deathwatch_fire cpu t g s) \<and> filter (dw_due t g) (i_dw (deathwatch_fire cpu t g s)) = []"
  proof (induction cpu t g s rule: deathwatch_fire.induct)
    case (1 cpu t g s)
    obtain ds b where c: "dw_collect t g 16 (i_dw s) = (ds, b)" by fastforce
    let ?s1 = "post_batch cpu t g b (s\<lparr>i_dw := ds\<rparr>)"
    have q: "quiet s ?s1" by (rule quiet_trans[OF _ quiet_post_batch]) (simp add: quietI)
    show ?case
    proof (cases "length b < 16")
      case True
      have "filter (dw_due t g) (List.map (\<lambda>d. if dw_due t g d then d\<lparr>dw_used := False\<rparr> else d) xs) = []" for xs
        by (induction xs) auto
      then show ?thesis using True q c dw_collect_facts(5)[OF c True]
        by (simp add: deathwatch_fire.simps[of cpu t g s] post_batch_dw)
    next
      case False
      show ?thesis using 1[OF c[symmetric] refl False] quiet_trans[OF q] c False
        by (simp add: deathwatch_fire.simps[of cpu t g s])
    qed
  qed
  then show "quiet s (deathwatch_fire cpu t g s)" "filter (dw_due t g) (i_dw (deathwatch_fire cpu t g s)) = []" by blast+
qed
lemma mark_dead_pend:
  "i_pend (mark_dead ts s) t = (if t \<in> set ts then (i_pend s t)\<lparr>pr_port_dead := True, pr_reply_received := True\<rparr> else i_pend s t)"
  by (induction ts arbitrary: s) (auto simp: mark_dead_def upd_pend_def)

lemma wake_replies_facts:
  assumes "wait_rep k Q"
  shows "\<exists>k'. wake_replies ts k = Some k' \<and> only_wakes k Q k' (\<lambda>b. if b \<in> reply_wq ` set ts then [] else Q b)"
  using assms
proof (induction ts arbitrary: k Q)
  case Nil
  then show ?case using only_wakes_refl by simp
next
  case (Cons t ts)
  obtain k1 where k1: "wait_queue_wake_all (reply_wq t) k = Some k1" "only_wakes k Q k1 (Q(reply_wq t := []))"
    using only_wakes_all[OF Cons.prems] by blast
  then have rep1: "wait_rep k1 (Q(reply_wq t := []))" by (simp add: only_wakes_def)
  obtain k2 where k2: "wake_replies ts k1 = Some k2"
    "only_wakes k1 (Q(reply_wq t := [])) k2 (\<lambda>b. if b \<in> reply_wq ` set ts then [] else (Q(reply_wq t := [])) b)"
    using Cons.IH[OF rep1] by blast
  have "(\<lambda>b. if b \<in> reply_wq ` set ts then [] else (Q(reply_wq t := [])) b) =
      (\<lambda>b. if b \<in> reply_wq ` set (t # ts) then [] else Q b)" by (rule ext) simp
  then show ?case using k1 k2 only_wakes_trans by fastforce
qed

definition unanswered :: "pptr \<Rightarrow> ipc \<Rightarrow> nat set" where
  "unanswered p s = {t \<in> set (p_pending_senders (i_ports s p)). \<not> pr_reply_received (i_pend s t)}"

lemma wake_senders_facts:
  assumes "wait_rep (i_k s) Q"
  shows "\<exists>s'. ipc_wake_senders_for_port_ptr p s = Some s' \<and>
     only_wakes (i_k s) Q (i_k s') (\<lambda>b. if b \<in> reply_wq ` unanswered p s then [] else Q b) \<and> i_dw s' = i_dw s \<and>
     i_table s' = i_table s \<and> (\<forall>q. p_state (i_ports s' q) = p_state (i_ports s q)) \<and>
     i_pend s' = (\<lambda>t. if t \<in> unanswered p s then (i_pend s t)\<lparr>pr_port_dead := True, pr_reply_received := True\<rparr> else i_pend s t)"
  using assms
proof (induction p s arbitrary: Q rule: ipc_wake_senders_for_port_ptr.induct)
  case (1 p s)
  let ?P = "\<lambda>t. \<not> pr_reply_received (i_pend s t)"
  let ?D = "unanswered p s"
  let ?dead = "\<lambda>D f t. if t \<in> D then (f t)\<lparr>pr_port_dead := True, pr_reply_received := True\<rparr> else f t"
  obtain batch rest where c: "collect_records ?P WAKE_BATCH 0 (p_pending_senders (i_ports s p)) = (batch, rest)" by fastforce
  note C = collect_records_facts[OF c, unfolded WAKE_BATCH_def, simplified]
  let ?s1 = "mark_dead batch (upd_port p (\<lambda>r. r\<lparr>p_pending_senders := rest\<rparr>) s)"
  have pend1: "i_pend ?s1 = ?dead (set batch) (i_pend s)" by (rule ext) (simp add: mark_dead_pend)
  obtain k where k: "wake_replies batch (i_k s) = Some k"
    "only_wakes (i_k s) Q k (\<lambda>b. if b \<in> reply_wq ` set batch then [] else Q b)" (is "only_wakes _ _ _ ?Q1")
    using wake_replies_facts[OF 1(2)] by blast
  have unf: "ipc_wake_senders_for_port_ptr p s = (if length batch < WAKE_BATCH then Some (with_k k ?s1)
     else ipc_wake_senders_for_port_ptr p (with_k k ?s1))"
    using c k(1) by (simp add: ipc_wake_senders_for_port_ptr.simps[of p s])
  have set_D: "?D = set batch \<union> {t \<in> set rest. ?P t}"
    unfolding unanswered_def using C(1) by (metis set_append set_filter)
  show ?case
  proof (cases "length batch < WAKE_BATCH")
    case True
    then have "set batch = ?D" using C(3) by (simp add: WAKE_BATCH_def unanswered_def)
    then show ?thesis using unf True k(2) pend1 by simp
  next
    case False
    let ?s2 = "with_k k ?s1"
    let ?D2 = "unanswered p ?s2"
    have D2: "?D = set batch \<union> ?D2" unfolding set_D by (auto simp: mark_dead_pend unanswered_def)
    have rep: "wait_rep (i_k ?s2) ?Q1" using k(2) by (simp add: only_wakes_def)
    obtain s' where s': "ipc_wake_senders_for_port_ptr p ?s2 = Some s'"
      "only_wakes k ?Q1 (i_k s') (\<lambda>b. if b \<in> reply_wq ` ?D2 then [] else ?Q1 b)" "i_dw s' = i_dw s"
      "i_pend s' = ?dead ?D2 (i_pend ?s2)" "i_table s' = i_table s" "\<forall>q. p_state (i_ports s' q) = p_state (i_ports s q)"
      using 1(1)[OF c[symmetric] refl _ False rep] k(1) by auto
    have "(\<lambda>b. if b \<in> reply_wq ` ?D2 then [] else ?Q1 b) = (\<lambda>b. if b \<in> reply_wq ` ?D then [] else Q b)"
      unfolding D2 by (rule ext) auto
    moreover have "i_pend s' = ?dead ?D (i_pend s)" unfolding s'(4) D2 by (rule ext) (simp add: pend1)
    ultimately show ?thesis using unf False s' only_wakes_trans[OF k(2)] by simp
  qed
qed
lemma port_unlink_quiet:
  assumes "port_unlink i s = (s', Some (p, hp, g))"
  shows "i_pend s' = i_pend s" "p_pending_senders (i_ports s' q) = p_pending_senders (i_ports s q)" "i_k s' = i_k s"
    "hp = (p_pending_senders (i_ports s p) \<noteq> [])" "p_state (i_ports s' p) = PORT_CLOSED" "i_table s' = (i_table s)[unat i := None]"
    "i_table s ! unat i = Some p"
  using assms by (auto simp: port_unlink_def Let_def split: if_splits option.splits)

lemma port_destroy_facts:
  assumes "wait_rep (i_k s) Q" "port_unlink i s = (s0, Some (p, hp, g))"
  shows "\<exists>s' Q'. ipc_port_destroy cpu i s = Some s' \<and> only_wakes (i_k s) Q (i_k s') Q' \<and>
     Q' (recv_wq p) = [] \<and> Q' (notify_wq p) = [] \<and>
     (\<forall>t. if t \<in> unanswered p s
          then Q' (reply_wq t) = [] \<and> i_pend s' t = (i_pend s t)\<lparr>pr_port_dead := True, pr_reply_received := True\<rparr>
          else i_pend s' t = i_pend s t) \<and>
     filter (dw_due i g) (i_dw s') = [] \<and> i_table s' = (i_table s)[unat i := None] \<and> p_state (i_ports s' p) = PORT_CLOSED"
proof -
  note U = port_unlink_quiet[OF assms(2)]
  let ?s2 = "deathwatch_fire cpu i g s0"
  have q2: "quiet s0 ?s2" by (rule deathwatch_fire_facts(1))
  have un: "unanswered p ?s2 = unanswered p s" using q2 U by (simp add: unanswered_def quiet_def)
  have pd: "i_pend ?s2 = i_pend s" using q2 U(1) by (simp add: quiet_def)
  obtain Q2 where Q2: "only_wakes (i_k s) Q (i_k ?s2) Q2" using q2 assms(1) U(3) by (auto simp: quiet_def)
  then have rep2: "wait_rep (i_k ?s2) Q2" by (simp add: only_wakes_def)
  obtain k1 where k1: "wait_queue_wake_all (recv_wq p) (i_k ?s2) = Some k1" "only_wakes (i_k ?s2) Q2 k1 (Q2(recv_wq p := []))"
    using only_wakes_all[OF rep2] by blast
  then have rep3: "wait_rep k1 (Q2(recv_wq p := []))" by (simp add: only_wakes_def)
  let ?Q4 = "Q2(recv_wq p := [], notify_wq p := [])"
  obtain k2 where k2: "wait_queue_wake_all (notify_wq p) k1 = Some k2" "only_wakes k1 (Q2(recv_wq p := [])) k2 ?Q4"
    using only_wakes_all[OF rep3] by blast
  let ?s3 = "with_k k2 ?s2"
  have rep4: "wait_rep (i_k ?s3) ?Q4" using k2(2) by (simp add: only_wakes_def)
  have un3: "unanswered p ?s3 = unanswered p s" using un by (simp add: unanswered_def)
  have w: "only_wakes (i_k s) Q k2 ?Q4" using Q2 k1(2) k2(2) only_wakes_trans by blast
  let ?Q5 = "\<lambda>b. if b \<in> reply_wq ` unanswered p s then [] else ?Q4 b"
  obtain s4 where s4: "(if hp then ipc_wake_senders_for_port_ptr p ?s3 else Some ?s3) = Some s4"
    "only_wakes (i_k ?s3) ?Q4 (i_k s4) ?Q5" "i_dw s4 = i_dw ?s3 \<and> i_table s4 = i_table ?s3 \<and> p_state (i_ports s4 p) = p_state (i_ports ?s3 p)"
    "\<forall>t. i_pend s4 t = (if t \<in> unanswered p s then (i_pend s t)\<lparr>pr_port_dead := True, pr_reply_received := True\<rparr> else i_pend s t)"
  proof (cases hp)
    case True
    then show ?thesis using that wake_senders_facts[OF rep4, of p] pd unfolding un3 by auto
  next
    case False
    then have un0: "unanswered p s = {}" using U(4) by (simp add: unanswered_def)
    show ?thesis
    proof (rule that[of ?s3])
      have "?Q5 = ?Q4" unfolding un0 by (simp only: image_empty empty_iff if_False)
      then show "only_wakes (i_k ?s3) ?Q4 (i_k ?s3) ?Q5" using only_wakes_refl[OF rep4] by metis
    qed (use False un0 pd in simp_all)
  qed
  have d: "ipc_port_destroy cpu i s = Some (port_drop cpu p s4)"
    using assms(2) k1(1) k2(1) s4(1) by (simp add: ipc_port_destroy_def Let_def)
  have dk: "i_k (port_drop cpu p s4) = i_k s4" "i_pend (port_drop cpu p s4) = i_pend s4" "i_dw (port_drop cpu p s4) = i_dw ?s2"
    "i_table (port_drop cpu p s4) = (i_table s)[unat i := None]" "p_state (i_ports (port_drop cpu p s4) p) = PORT_CLOSED"
    using s4(3) q2 U(5,6) by (simp_all add: port_drop_def Let_def quiet_def split: prod.splits)
  have "only_wakes (i_k s) Q (i_k s4) ?Q5" using only_wakes_trans[OF w] s4(2) by simp
  moreover have "?Q5 (recv_wq p) = []" "?Q5 (notify_wq p) = []" by auto
  ultimately show ?thesis
    using d dk s4(4) deathwatch_fire_facts(2)[of i g cpu s0] by (intro exI[of _ "port_drop cpu p s4"] exI[of _ ?Q5]) auto
qed
subsection \<open>Death notices\<close>

lemma inc_dec:
  assumes "rc \<noteq> 0" "unat rc < 3221225472"
  shows "refcount_dec (refcount_inc rc) = (rc, False) \<or> unat rc = 3221225471"
proof (cases "unat rc = 3221225471")
  case False
  then have "unat (refcount_inc rc) = Suc (unat rc)" "unat (refcount_inc rc) < 3221225472"
    using assms unat_refcount_inc[of rc] by auto
  moreover then have "refcount_inc rc = rc + 1" "\<not> REFCOUNT_SATURATED \<le> refcount_inc rc"
    using assms by (auto simp: refcount_inc_def word_le_nat_alt unat_saturated)
  ultimately show ?thesis using assms(1) by (auto simp: refcount_dec_def)
qed simp

text \<open>
  What \<^verbatim>\<open>deathwatch_fire\<close> delivers.  A port of the table is active and its reference count stays away from 0 and
  from saturation, so that taking and dropping a reference around a post changes nothing.
\<close>

definition refs_ok :: "ipc \<Rightarrow> bool" where
  "refs_ok s \<longleftrightarrow> (\<forall>j r. j < 4096 \<longrightarrow> i_table s ! j = Some r \<longrightarrow>
     p_state (i_ports s r) = PORT_ACTIVE \<and> p_refcount (i_ports s r) \<noteq> 0 \<and>
     unat (p_refcount (i_ports s r)) < 3221225471 \<and> id_of s r = j)"

lemma refs_okD:
  assumes "refs_ok s" "j < 4096" "i_table s ! j = Some r"
  shows "p_state (i_ports s r) = PORT_ACTIVE" "refcount_dec (refcount_inc (p_refcount (i_ports s r))) = (p_refcount (i_ports s r), False)"
    "id_of s r = j"
  using assms inc_dec[of "p_refcount (i_ports s r)"] unfolding refs_ok_def by auto

definition port_at :: "u32 \<Rightarrow> ipc \<Rightarrow> pptr option" where
  "port_at np s = (if np = 0 \<or> np \<ge> MAX_PORTS then None else i_table s ! unat np)"

lemma port_at_less: "port_at np s = Some r \<Longrightarrow> unat np < 4096 \<and> i_table s ! unat np = Some r \<and> np \<noteq> 0 \<and> \<not> np \<ge> MAX_PORTS"
  by (auto simp: port_at_def MAX_PORTS_def word_le_nat_alt split: if_splits)

definition notice :: "u32 \<Rightarrow> u32 \<Rightarrow> u32 \<Rightarrow> u32 \<Rightarrow> ipc_message" where
  "notice cd a0 a1 a2 = zero_msg\<lparr>msg_type := IPC_MSG_SIGNAL, sender_pid := 0, sender_tid := -1, msg_code := cd,
     arg0 := a0, arg1 := a1, arg2 := a2\<rparr>"

lemma post_kernel_get:
  assumes "refs_ok s" "port_at np s = Some r"
  shows "ipc_port_get np s = (take_ref r s, Some r)"
  using refs_okD(1)[OF assms(1), of "unat np" r] port_at_less[OF assms(2)] by (simp add: ipc_port_get_def live_port_def)

lemma post_kernel_none:
  assumes "refs_ok s" "port_at np s = None"
  shows "ipc_post_kernel cpu np cd a0 a1 a2 s = (s, IPC_ERR_NO_PORT)"
proof -
  have "ipc_port_get np s = (s, None)"
    using assms(2) by (auto simp: ipc_port_get_def live_port_def port_at_def split: if_splits)
  then show ?thesis by (simp add: ipc_post_kernel_def)
qed

lemma post_kernel_effect:
  assumes "refs_ok s" "s_irq_freelist (i_pool s) = e # es" "e < IPC_IRQ_POOL_SIZE" "port_at np s = Some r"
    and "s' = fst (ipc_post_kernel cpu np cd a0 a1 a2 s)"
  shows "if p_msg_count (i_ports s r) < PORT_QUEUE_MAX
    then i_ports s' = (i_ports s)(r := (i_ports s r)\<lparr>p_msg_queue := p_msg_queue (i_ports s r) @ [e], p_msg_count := p_msg_count (i_ports s r) + 1\<rparr>) \<and>
      i_entries s' = (i_entries s)(e := \<lparr>en_msg = notice cd a0 a1 a2, en_payload_owned = False\<rparr>) \<and>
      s_irq_freelist (i_pool s') = es
    else i_ports s' = i_ports s \<and> (\<forall>x. x \<noteq> e \<longrightarrow> i_entries s' x = i_entries s x) \<and> s_irq_freelist (i_pool s') = e # es"
proof -
  note t = port_at_less[OF assms(4)]
  note R = refs_okD[OF assms(1), of "unat np" r]
  let ?s1 = "(take_ref r s)\<lparr>i_pool := (i_pool s)\<lparr>s_irq_freelist := es\<rparr>,
     i_entries := (i_entries s)(e := \<lparr>en_msg = notice cd a0 a1 a2, en_payload_owned = False\<rparr>)\<rparr>"
  have "ipc_post_kernel cpu np cd a0 a1 a2 s = (case enqueue_async cpu r e ?s1 of (s2, x) \<Rightarrow> (port_drop cpu r s2, x))"
    using post_kernel_get[OF assms(1,4)] R t assms(2)
    by (simp add: ipc_post_kernel_def entry_alloc_irq_def notice_def ipc_port_put_def) (simp add: take_ref_def)
  then have s': "s' = port_drop cpu r (fst (enqueue_async cpu r e ?s1))" using assms(5) by (simp split: prod.splits)
  show ?thesis
  proof (cases "p_msg_count (i_ports s r) < PORT_QUEUE_MAX")
    case True
    let ?f = "\<lambda>q. q\<lparr>p_msg_queue := p_msg_queue q @ [e], p_msg_count := p_msg_count q + 1\<rparr>"
    let ?s2 = "with_k (fst (wait_queue_wake_one (recv_wq r) (i_k (upd_port r ?f ?s1)))) (upd_port r ?f ?s1)"
    have "fst (enqueue_async cpu r e ?s1) = ?s2"
      using True by (simp add: enqueue_async_def Let_def take_ref_def not_le)
    then have "s' = upd_port r (\<lambda>q. q\<lparr>p_refcount := p_refcount (i_ports s r)\<rparr>) ?s2"
      using s' R(2) t by (simp add: port_drop_def take_ref_def Let_def)
    then show ?thesis using True by (simp add: take_ref_def upd_port_def with_k_def)
  next
    case False
    have "fst (enqueue_async cpu r e ?s1) = entry_discard cpu e ?s1"
      using False by (simp add: enqueue_async_def take_ref_def not_le)
    then have d: "s' = upd_port r (\<lambda>q. q\<lparr>p_refcount := p_refcount (i_ports s r)\<rparr>) (entry_discard cpu e ?s1)"
      using s' R(2) t by (simp add: port_drop_def take_ref_def Let_def)
    then have "i_ports s' = i_ports s" by (simp add: take_ref_def upd_port_def)
    moreover have "i_pool s' = (i_pool s)\<lparr>s_irq_freelist := e # es\<rparr>"
      using d assms(3) by (simp add: entry_discard_pool ipc_msg_entry_free_def upd_port_def)
    moreover have "x \<noteq> e \<Longrightarrow> i_entries s' x = i_entries s x" for x using d by (simp add: upd_port_def)
    ultimately show ?thesis using False by simp
  qed
qed

text \<open>
  The state of the posts still to come for one watching port: the entries of its queue are not free,
  and there are entries and room for the notices.
\<close>

definition watcher_ok :: "u32 \<Rightarrow> pptr \<Rightarrow> nat \<Rightarrow> nat \<Rightarrow> ipc \<Rightarrow> bool" where
  "watcher_ok np r n k s \<longleftrightarrow> refs_ok s \<and> port_at np s = Some r \<and>
     distinct (s_irq_freelist (i_pool s)) \<and> set (s_irq_freelist (i_pool s)) \<subseteq> {..<IPC_IRQ_POOL_SIZE} \<and>
     set (p_msg_queue (i_ports s r)) \<inter> set (s_irq_freelist (i_pool s)) = {} \<and>
     n \<le> length (s_irq_freelist (i_pool s)) \<and> unat (p_msg_count (i_ports s r)) + k \<le> 256"

lemma post_kernel_table: "i_table (fst (ipc_post_kernel cpu np cd a0 a1 a2 s)) = i_table s"
  using quiet_post_kernel[of s cpu np cd a0 a1 a2] by (simp add: quiet_def)

lemma post_kernel_watcher:
  assumes w: "watcher_ok np r (Suc n) (k + of_bool (x = np)) s"
    and s': "s' = fst (ipc_post_kernel cpu x cd a0 a1 a2 s)"
  shows "watcher_ok np r n k s' \<and> queued r s' = queued r s @ (if x = np then [(notice cd a0 a1 a2, False)] else [])"
proof -
  have R: "refs_ok s" and r: "port_at np s = Some r"
    and F: "distinct (s_irq_freelist (i_pool s))" "set (s_irq_freelist (i_pool s)) \<subseteq> {..<IPC_IRQ_POOL_SIZE}"
      "set (p_msg_queue (i_ports s r)) \<inter> set (s_irq_freelist (i_pool s)) = {}" "Suc n \<le> length (s_irq_freelist (i_pool s))"
    and C: "unat (p_msg_count (i_ports s r)) + (k + of_bool (x = np)) \<le> 256" using w by (simp_all add: watcher_ok_def)
  have tab: "i_table s' = i_table s" unfolding s' by (rule post_kernel_table)
  then have at: "port_at y s' = port_at y s" for y by (simp add: port_at_def)
  obtain e es where e: "s_irq_freelist (i_pool s) = e # es" using F(4) by (cases "s_irq_freelist (i_pool s)") auto
  then have e5: "e < IPC_IRQ_POOL_SIZE" "e \<notin> set es" "e \<notin> set (p_msg_queue (i_ports s r))" using F by auto
  show ?thesis
  proof (cases "port_at x s")
    case None
    then show ?thesis using post_kernel_none[OF R None, of cpu cd a0 a1 a2] s' w r by (auto simp: watcher_ok_def)
  next
    case (Some q)
    note E = post_kernel_effect[OF R e e5(1) Some s']
    have qr: "q = r \<longleftrightarrow> x = np"
      using refs_okD(3)[OF R, of "unat x" q] refs_okD(3)[OF R, of "unat np" r] port_at_less[OF Some] port_at_less[OF r] Some r
      by (auto simp: unat_eq_iff_u32)
    show ?thesis
    proof (cases "p_msg_count (i_ports s q) < PORT_QUEUE_MAX")
      case True
      have E': "i_ports s' = (i_ports s)(q := (i_ports s q)\<lparr>p_msg_queue := p_msg_queue (i_ports s q) @ [e], p_msg_count := p_msg_count (i_ports s q) + 1\<rparr>)"
        "i_entries s' = (i_entries s)(e := \<lparr>en_msg = notice cd a0 a1 a2, en_payload_owned = False\<rparr>)" "s_irq_freelist (i_pool s') = es"
        using E True by simp_all
      have "refs_ok s'" using R unfolding refs_ok_def tab E'(1) by (simp add: fun_upd_apply)
      moreover have "unat (p_msg_count (i_ports s' r)) + k \<le> 256"
        using C E'(1) qr unat_Suc_u32[OF True] by auto
      moreover have "set (p_msg_queue (i_ports s' r)) \<inter> set es = {}" using F(3) e e5(2) E'(1) by auto
      ultimately have "watcher_ok np r n k s'" using F e r at E'(3) by (simp add: watcher_ok_def)
      moreover have "queued r s' = queued r s @ (if x = np then [(notice cd a0 a1 a2, False)] else [])"
        using E'(1,2) e5(3) qr by (auto simp: queued_def)
      ultimately show ?thesis by simp
    next
      case False
      have E': "i_ports s' = i_ports s" "\<And>y. y \<noteq> e \<Longrightarrow> i_entries s' y = i_entries s y" "s_irq_freelist (i_pool s') = e # es"
        using E False by simp_all
      have "x \<noteq> np" using C qr False by (auto simp: PORT_QUEUE_MAX_def not_less word_le_nat_alt)
      have "refs_ok s'" using R unfolding refs_ok_def tab E'(1) .
      then have "watcher_ok np r n k s'" using F e r at E'(1,3) C by (simp add: watcher_ok_def)
      moreover have "y \<in> set (p_msg_queue (i_ports s r)) \<Longrightarrow> i_entries s' y = i_entries s y" for y
        using E'(2)[of y] e5(3) by metis
      then have "queued r s' = queued r s" by (simp add: queued_def E'(1))
      ultimately show ?thesis using \<open>x \<noteq> np\<close> by simp
    qed
  qed
qed

abbreviation notices :: "u32 \<Rightarrow> u32 \<Rightarrow> u32 \<Rightarrow> (u32 \<times> u32) list \<Rightarrow> (ipc_message \<times> bool) list" where
  "notices np t g b \<equiv> List.map (\<lambda>(x, cd). (notice cd t g 0, False)) (filter (\<lambda>(x, cd). x = np) b)"

lemma post_batch_watcher:
  assumes "watcher_ok np r (length b + n) (length (notices np t g b) + k) s"
  shows "watcher_ok np r n k (post_batch cpu t g b s) \<and> queued r (post_batch cpu t g b s) = queued r s @ notices np t g b"
  using assms
proof (induction b arbitrary: s)
  case (Cons a b)
  obtain x cd where a: "a = (x, cd)" by fastforce
  let ?s = "fst (ipc_post_kernel cpu x cd t g 0 s)"
  have "watcher_ok np r (Suc (length b + n)) (length (notices np t g b) + k + of_bool (x = np)) s"
    using Cons.prems a by (simp add: add_ac split: if_splits)
  from post_kernel_watcher[OF this refl, of cpu cd t g 0]
  have "watcher_ok np r (length b + n) (length (notices np t g b) + k) ?s"
    "queued r ?s = queued r s @ (if x = np then [(notice cd t g 0, False)] else [])" by blast+
  with Cons.IH[of ?s] show ?case using a by simp
qed simp

definition dw_pairs :: "u32 \<Rightarrow> u32 \<Rightarrow> deathwatch list \<Rightarrow> (u32 \<times> u32) list" where
  "dw_pairs t g ds = List.map (\<lambda>d. (dw_notify_port d, dw_code d)) (filter (dw_due t g) ds)"

lemma deathwatch_fire_watcher:
  assumes "watcher_ok np r (length (dw_pairs t g (i_dw s))) (length (notices np t g (dw_pairs t g (i_dw s)))) s"
  shows "queued r (deathwatch_fire cpu t g s) = queued r s @ notices np t g (dw_pairs t g (i_dw s))"
  using assms
proof (induction cpu t g s rule: deathwatch_fire.induct)
  case (1 cpu t g s)
  obtain ds b where c: "dw_collect t g 16 (i_dw s) = (ds, b)" by fastforce
  have split: "dw_pairs t g (i_dw s) = b @ dw_pairs t g ds" using dw_collect_facts(4)[OF c] by (simp add: dw_pairs_def)
  let ?s0 = "s\<lparr>i_dw := ds\<rparr>"
  let ?s1 = "post_batch cpu t g b ?s0"
  have at: "refs_ok ?s0 = refs_ok s" "port_at np ?s0 = port_at np s" by (simp_all add: refs_ok_def port_at_def)
  have "watcher_ok np r (length b + length (dw_pairs t g ds)) (length (notices np t g b) + length (notices np t g (dw_pairs t g ds))) ?s0"
    using "1.prems" at unfolding split by (simp add: watcher_ok_def)
  from post_batch_watcher[OF this, of cpu]
  have w: "watcher_ok np r (length (dw_pairs t g ds)) (length (notices np t g (dw_pairs t g ds))) ?s1"
    and q: "queued r ?s1 = queued r s @ notices np t g b" by (auto simp: queued_def)
  show ?case
  proof (cases "length b < 16")
    case True
    have "dw_pairs t g (List.map (\<lambda>d. if dw_due t g d then d\<lparr>dw_used := False\<rparr> else d) xs) = []" for xs
      by (induction xs) (auto simp: dw_pairs_def)
    then show ?thesis using True q c dw_collect_facts(5)[OF c True] unfolding split
      by (simp add: deathwatch_fire.simps[of cpu t g s])
  next
    case False
    have "queued r (deathwatch_fire cpu t g ?s1) = queued r ?s1 @ notices np t g (dw_pairs t g ds)"
      using "1.IH"[OF c[symmetric] refl False] w by (simp add: post_batch_dw)
    then show ?thesis using False q c unfolding split by (simp add: deathwatch_fire.simps[of cpu t g s])
  qed
qed

text \<open>The rest of the destruction leaves the queues of the other ports alone.\<close>

lemma queued_frame:
  "i_entries s' = i_entries s \<Longrightarrow> p_msg_queue (i_ports s' r) = p_msg_queue (i_ports s r) \<Longrightarrow> queued r s' = queued r s"
  by (simp add: queued_def)

lemma wake_senders_queued:
  "ipc_wake_senders_for_port_ptr p s = Some s' \<Longrightarrow> queued r s' = queued r s"
proof (induction p s rule: ipc_wake_senders_for_port_ptr.induct)
  case (1 p s)
  obtain batch rest where c: "collect_records (\<lambda>t. \<not> pr_reply_received (i_pend s t)) WAKE_BATCH 0 (p_pending_senders (i_ports s p)) = (batch, rest)"
    by fastforce
  let ?s1 = "mark_dead batch (upd_port p (\<lambda>r. r\<lparr>p_pending_senders := rest\<rparr>) s)"
  obtain k where k: "wake_replies batch (i_k ?s1) = Some k"
    using "1.prems" c by (auto simp: ipc_wake_senders_for_port_ptr.simps[of p s] Let_def split: option.splits)
  have q: "queued r (with_k k ?s1) = queued r s" by (rule queued_frame) simp_all
  show ?case
  proof (cases "length batch < WAKE_BATCH")
    case True
    then show ?thesis using "1.prems" c k q by (simp add: ipc_wake_senders_for_port_ptr.simps[of p s])
  next
    case False
    then show ?thesis using "1.prems" "1.IH"[OF c[symmetric] refl k False] c k q
      by (simp add: ipc_wake_senders_for_port_ptr.simps[of p s])
  qed
qed

lemma port_drop_queued: "r \<noteq> p \<Longrightarrow> queued r (port_drop cpu p s) = queued r s"
proof -
  have "i_entries (port_teardown cpu p s) = i_entries s" for s
    by (simp add: port_teardown_def port_struct_free_def Let_def kfree_log_def)
  then show "r \<noteq> p \<Longrightarrow> queued r (port_drop cpu p s) = queued r s"
    by (intro queued_frame) (simp_all add: port_drop_def Let_def split: prod.splits)
qed

lemma destroy_watcher:
  assumes "port_inv R s" "port_unlink i s = (s0, Some (p, hp, g))" "chan_ok r (U, s)" "port_at np s = Some r" "np \<noteq> i"
    and "length (dw_pairs i g (i_dw s)) \<le> length (s_irq_freelist (i_pool s))"
    and "length (queued r s) + length (notices np i g (dw_pairs i g (i_dw s))) \<le> 256"
    and "ipc_port_destroy cpu i s = Some s'"
  shows "queued r s' = queued r s @ notices np i g (dw_pairs i g (i_dw s))"
proof -
  note U = port_unlink_quiet[OF assms(2)]
  note P = port_invD[OF assms(1)]
  note C = assms(3)[unfolded chan_ok_def prod.case]
  have i: "i \<noteq> 0" "unat i < 4096" using assms(2) by (auto simp: port_unlink_def MAX_PORTS_def word_le_nat_alt split: if_splits)
  have s0: "i_dw s0 = i_dw s" "i_entries s0 = i_entries s" "i_pool s0 = i_pool s" "q \<noteq> p \<Longrightarrow> i_ports s0 q = i_ports s q" for q
    using assms(2) by (auto simp: port_unlink_def Let_def upd_port_def split: if_splits option.splits)
  have refs: "p_refcount (i_ports s q) \<noteq> 0 \<and> unat (p_refcount (i_ports s q)) < 3221225471 \<and> p_state (i_ports s q) = PORT_ACTIVE"
    if "j < 4096" "i_table s ! j = Some q" for j q
  proof -
    have "in_table s q" using that P(1) unfolding in_table_def by (metis nth_mem)
    then have "live R s q" by (simp add: live_def)
    from P(4)[OF this] P(11)[of q] \<open>in_table s q\<close> show ?thesis by (auto simp: unat_eq_iff_u32)
  qed
  have ids: "j = unat i" if "j < 4096" "i_table s ! j = Some p" for j
    using P(3)[OF that] P(3)[OF i(2) U(7)] by simp
  have tab: "i_table s0 ! j = Some q \<longleftrightarrow> i_table s ! j = Some q \<and> j \<noteq> unat i" if "j < 4096" for j q
    using that U(6) P(1) i(2) by (auto simp: nth_list_update)
  have "refs_ok s0"
    unfolding refs_ok_def
  proof (intro allI impI)
    fix j q assume j: "j < 4096" "i_table s0 ! j = Some q"
    then have t: "i_table s ! j = Some q" "j \<noteq> unat i" using tab by blast+
    then have "q \<noteq> p" using ids j(1) by blast
    then show "p_state (i_ports s0 q) = PORT_ACTIVE \<and> p_refcount (i_ports s0 q) \<noteq> 0 \<and>
        unat (p_refcount (i_ports s0 q)) < 3221225471 \<and> id_of s0 q = j"
      using refs[OF j(1) t(1)] P(3)[OF j(1) t(1)] s0(4) by simp
  qed
  moreover have np: "unat np < 4096" "i_table s ! unat np = Some r" "unat np \<noteq> unat i"
    using port_at_less[OF assms(4)] assms(5) by (simp_all add: unat_eq_iff_u32)
  moreover have rp: "r \<noteq> p" using ids np by blast
  moreover have "port_at np s0 = Some r" using assms(4) tab[OF np(1)] np by (simp add: port_at_def split: if_splits)
  moreover have "count (pool_free (i_pool s)) e \<le> 1" "e \<in> U \<Longrightarrow> count (pool_free (i_pool s)) e = 0" for e
    using C unfolding pool_once_def by (metis add_leD1, metis (full_types) add_le_same_cancel2 le_zero_eq)
  then have c1: "count (mset (s_irq_freelist (i_pool s))) e \<le> 1"
    "e \<in> U \<Longrightarrow> count (mset (s_irq_freelist (i_pool s))) e = 0" for e
    by (metis add_leD2 count_union pool_free_def, metis add_is_0 count_union pool_free_def)
  then have "distinct (s_irq_freelist (i_pool s))" "set (s_irq_freelist (i_pool s)) \<inter> U = {}"
    by (metis One_nat_def count_greater_zero_iff count_mset_0_iff distinct_count_atmost_1 le_SucE le_zero_eq, metis Int_emptyI count_mset_0_iff)
  ultimately have w: "watcher_ok np r (length (dw_pairs i g (i_dw s0))) (length (notices np i g (dw_pairs i g (i_dw s0)))) s0"
    using C assms(6,7) s0 by (auto simp: watcher_ok_def pool_inv_def queued_def)
  have "queued r s0 = queued r s" using s0 rp by (intro queued_frame) simp_all
  then have q: "queued r (deathwatch_fire cpu i g s0) = queued r s @ notices np i g (dw_pairs i g (i_dw s))"
    using deathwatch_fire_watcher[OF w, of cpu] s0(1) by simp
  obtain k1 k2 s4 where d: "(if hp then ipc_wake_senders_for_port_ptr p (with_k k2 (deathwatch_fire cpu i g s0))
       else Some (with_k k2 (deathwatch_fire cpu i g s0))) = Some s4" "s' = port_drop cpu p s4"
    using assms(2,8) by (auto simp: ipc_port_destroy_def Let_def split: Option.bind_splits)
  have "queued r (with_k k2 s) = queued r s" for s by (rule queued_frame) simp_all
  then have "queued r s4 = queued r (deathwatch_fire cpu i g s0)"
    using d(1) wake_senders_queued[of p "with_k k2 (deathwatch_fire cpu i g s0)" s4 r] by (auto split: if_splits)
  then show ?thesis using q d(2) port_drop_queued[OF rp] by simp
qed

lemma notices_filter:
  "notices np t g (dw_pairs t g ds) =
     List.map (\<lambda>d. (notice (dw_code d) t g 0, False)) (filter (\<lambda>d. dw_due t g d \<and> dw_notify_port d = np) ds)"
  by (induction ds) (auto simp: dw_pairs_def)

text \<open>
  C13: Destroying a port terminates and reaches everybody who waits for it.  The receivers and the
  threads waiting for a notification are off their queues; every sender still without an answer, however many there are, is marked dead
  and its reply queue is empty.  No death watch for this port and generation is left, and every one of them has been delivered: when the interrupt pool has an entry for each
  of them and the queue of a watching port has room, exactly one notice per watch of that port, with the code of the watch, the id and the generation of the dead port, is appended
  to its queue, in the order of the watch table.  Queues of waiting threads only shrink, the wait queues stay well formed, and the threads that left a queue are exactly those made ready.
\<close>
theorem port_destroy_reaches_all:
  assumes "wait_rep (i_k s) Q" "port_inv R s" "port_unlink i s = (s0, Some (p, hp, g))"
  shows "\<exists>s' Q'. ipc_port_destroy cpu i s = Some s' \<and> only_wakes (i_k s) Q (i_k s') Q' \<and>
     Q' (recv_wq p) = [] \<and> Q' (notify_wq p) = [] \<and>
     (\<forall>t. if t \<in> unanswered p s
          then Q' (reply_wq t) = [] \<and> i_pend s' t = (i_pend s t)\<lparr>pr_port_dead := True, pr_reply_received := True\<rparr>
          else i_pend s' t = i_pend s t) \<and>
     filter (dw_due i g) (i_dw s') = [] \<and>
     (\<forall>np r U. let ws = filter (\<lambda>d. dw_due i g d \<and> dw_notify_port d = np) (i_dw s)
       in length (filter (dw_due i g) (i_dw s)) \<le> length (s_irq_freelist (i_pool s)) \<and>
          port_at np s = Some r \<and> np \<noteq> i \<and> chan_ok r (U, s) \<and> length (queued r s) + length ws \<le> 256 \<longrightarrow>
          queued r s' = queued r s @ List.map (\<lambda>d. (notice (dw_code d) i g 0, False)) ws)"
proof -
  obtain s' Q' where d: "ipc_port_destroy cpu i s = Some s'" "only_wakes (i_k s) Q (i_k s') Q'"
     "Q' (recv_wq p) = []" "Q' (notify_wq p) = []"
     "\<forall>t. if t \<in> unanswered p s
          then Q' (reply_wq t) = [] \<and> i_pend s' t = (i_pend s t)\<lparr>pr_port_dead := True, pr_reply_received := True\<rparr>
          else i_pend s' t = i_pend s t"
     "filter (dw_due i g) (i_dw s') = []"
    using port_destroy_facts[OF assms(1,3), of cpu] by blast
  have n: "length (dw_pairs i g (i_dw s)) = length (filter (dw_due i g) (i_dw s))" by (simp add: dw_pairs_def)
  have "queued r s' = queued r s @ notices np i g (dw_pairs i g (i_dw s))"
    if "length (filter (dw_due i g) (i_dw s)) \<le> length (s_irq_freelist (i_pool s))"
      "port_at np s = Some r" "np \<noteq> i" "chan_ok r (U, s)"
      "length (queued r s) + length (notices np i g (dw_pairs i g (i_dw s))) \<le> 256" for np r U
    using destroy_watcher[OF assms(2,3) that(4,2,3) _ that(5) d(1)] that(1) n by simp
  then show ?thesis
    using d unfolding notices_filter Let_def by (intro exI[of _ s'] exI[of _ Q']) (simp only: length_map conj_assoc simp_thms, blast)
qed

text \<open>
  Port 1 with two receivers asleep (threads 3 and 4), thread 5 waiting for its answer, and a death watch of
  process 8 that reports to its port 2 with code 77.
\<close>

definition ipc_two :: ipc where
  "ipc_two = fst (ipc_port_create (\<lambda>_. True) (Some 200) 8 ipc_one)"

definition ipc_busy :: ipc where
  "ipc_busy = (upd_port 100 (\<lambda>r. r\<lparr>p_pending_senders := [5]\<rparr>) ipc_two)\<lparr>i_k :=
     the (wait_prepare (reply_wq 5) 5 0 True (the (wait_prepare (recv_wq 100) 4 0 True (the (wait_prepare (recv_wq 100) 3 0 True idle_state))))),
     i_dw := [\<lparr>dw_used = True, dw_watcher_pid = 8, dw_notify_port = 2, dw_code = 77, dw_target_port = 1, dw_target_gen = 1\<rparr>]\<rparr>"

lemma ipc_two_facts:
  "port_inv (\<lambda>_. 0) ipc_two" "i_table ipc_two ! 1 = Some 100" "i_table ipc_two ! 2 = Some 200" "i_ports ipc_two 100 = i_ports ipc_one 100"
  "i_pend ipc_two = i_pend ipc_boot" "i_pool ipc_two = pool_init" "p_state (i_ports ipc_two 200) = PORT_ACTIVE"
  "p_msg_queue (i_ports ipc_two 200) = []" "p_msg_count (i_ports ipc_two 200) = 0"
proof -
  have fl: "i_freelist ipc_boot = 1 # 2 # words_from 3 MAX_PORTS"
    unfolding ipc_boot_facts(5)
    using words_from_unfold[of 1 MAX_PORTS] words_from_unfold[of 2 MAX_PORTS] by (simp add: MAX_PORTS_def)
  have one: "i_freelist ipc_one = 2 # words_from 3 MAX_PORTS" "i_recycle ipc_one = []"
    "i_pend ipc_one = i_pend ipc_boot" "p_refcount (i_ports ipc_one 200) = 0"
    using fl by (simp_all add: ipc_one_def ipc_port_create_def port_struct_alloc_def ipc_boot_facts(4) Let_def
        ipc_boot_def deathwatch_init_def ipc_port_init_def blank_ipc_def zero_port_def)
  have len: "length (i_table ipc_one) = 4096" using port_invD(1)[OF ipc_one_facts(1)] .
  have notlive: "\<not> live (\<lambda>_. 0) ipc_one 200"
  proof
    assume l: "live (\<lambda>_. 0) ipc_one 200"
    then have "unat (p_refcount (i_ports ipc_one 200)) = 0 + of_bool (in_table ipc_one 200)" "in_table ipc_one 200"
      using port_invD(4)[OF ipc_one_facts(1)] by (auto simp: live_def)
    then show False using one(4) by simp
  qed
  obtain r where c: "ipc_port_create (\<lambda>_. True) (Some 200) 8 ipc_one = (ipc_two, r)"
    unfolding ipc_two_def by (metis prod.collapse)
  show "port_inv (\<lambda>_. 0) ipc_two"
    by (rule create_step(1)[OF ipc_one_facts(1) _ c]) (simp add: notlive one(2))
  show "i_table ipc_two ! 1 = Some 100" "i_table ipc_two ! 2 = Some 200" "i_ports ipc_two 100 = i_ports ipc_one 100"
    "i_pend ipc_two = i_pend ipc_boot" "i_pool ipc_two = pool_init" "p_state (i_ports ipc_two 200) = PORT_ACTIVE"
    "p_msg_queue (i_ports ipc_two 200) = []" "p_msg_count (i_ports ipc_two 200) = 0"
    using one len ipc_one_facts(2) ipc_one_chan(3)
    by (simp_all add: ipc_two_def ipc_port_create_def port_struct_alloc_def Let_def)
qed

lemma prepare_rep:
  assumes "wait_rep k Q" "\<And>b. t \<notin> set (Q b)"
  shows "wait_rep (the (wait_prepare q t 0 True k)) (Q(q := Q q @ [t]))"
proof -
  have "blocked_on_of k t = None" using wait_rep_none[OF assms(1)] assms(2) by blast
  from wait_prepare_rep[OF assms(1) this, of 0 True q] show ?thesis by auto
qed

abbreviation busy_queues :: "wqptr \<Rightarrow> tptr list" where
  "busy_queues \<equiv> (\<lambda>_. [])(300 := [3, 4], 17 := [5])"

lemma ipc_busy_facts:
  "wait_rep (i_k ipc_busy) busy_queues" "unanswered 100 ipc_busy = {5}" "\<exists>s hp. port_unlink 1 ipc_busy = (s, Some (100, hp, 1))"
  "port_inv (\<lambda>_. 0) ipc_busy" "port_at 2 ipc_busy = Some 200" "chan_ok 200 ({}, ipc_busy)"
proof -
  have "wait_rep (the (wait_prepare (reply_wq 5) 5 0 True (the (wait_prepare (recv_wq 100) 4 0 True
      (the (wait_prepare (recv_wq 100) 3 0 True idle_state)))))) ((((\<lambda>_. [])(300 := [] @ [3]))(300 := ((\<lambda>_. [])(300 := [] @ [3])) 300 @ [4]))(17 := [] @ [5]))"
    using prepare_rep[OF prepare_rep[OF prepare_rep[OF idle_state_rep, of 3 300], of 4 300], of 5 17]
    by (simp add: recv_wq_def reply_wq_def)
  moreover have "(((\<lambda>_. [])(300 := [] @ [3]))(300 := ((\<lambda>_. [])(300 := [] @ [3])) 300 @ [4]))(17 := [] @ [5]) = busy_queues"
    by auto
  ultimately show "wait_rep (i_k ipc_busy) busy_queues" unfolding ipc_busy_def by simp
  show "unanswered 100 ipc_busy = {5}"
    by (simp add: unanswered_def ipc_busy_def ipc_two_facts ipc_boot_def deathwatch_init_def ipc_port_init_def blank_ipc_def)
  show "\<exists>s hp. port_unlink 1 ipc_busy = (s, Some (100, hp, 1))"
    using ipc_two_facts ipc_one_facts(3) by (auto simp: port_unlink_def one_below_max Let_def ipc_busy_def)
  show "port_inv (\<lambda>_. 0) ipc_busy"
    by (rule port_inv_frame[OF ipc_two_facts(1)]) (simp_all add: ipc_busy_def)
  show "port_at 2 ipc_busy = Some 200"
    using ipc_two_facts by (simp add: port_at_def ipc_busy_def MAX_PORTS_def word_le_nat_alt)
  show "chan_ok 200 ({}, ipc_busy)"
    using ipc_two_facts pool_reach_inv[OF pool_start] by (simp add: chan_ok_def ipc_busy_def)
qed

theorem port_destroy_reaches_all_witness:
  "\<exists>s' Q'. ipc_port_destroy 0 1 ipc_busy = Some s' \<and> only_wakes (i_k ipc_busy) busy_queues (i_k s') Q' \<and>
     Q' (recv_wq 100) = [] \<and> Q' (reply_wq 5) = [] \<and> pr_port_dead (i_pend s' 5) \<and>
     queued 200 s' = [(notice 77 1 1 0, False)]"
proof -
  obtain s0 hp where u: "port_unlink 1 ipc_busy = (s0, Some (100, hp, 1))" using ipc_busy_facts(3) by blast
  from port_destroy_reaches_all[OF ipc_busy_facts(1,4) u, of 0] obtain s' Q' where r: "ipc_port_destroy 0 1 ipc_busy = Some s'"
    "only_wakes (i_k ipc_busy) busy_queues (i_k s') Q'" "Q' (recv_wq 100) = []"
    "\<forall>t. if t \<in> unanswered 100 ipc_busy
         then Q' (reply_wq t) = [] \<and> i_pend s' t = (i_pend ipc_busy t)\<lparr>pr_port_dead := True, pr_reply_received := True\<rparr>
         else i_pend s' t = i_pend ipc_busy t"
    "\<forall>np r U. let ws = filter (\<lambda>d. dw_due 1 1 d \<and> dw_notify_port d = np) (i_dw ipc_busy)
       in length (filter (dw_due 1 1) (i_dw ipc_busy)) \<le> length (s_irq_freelist (i_pool ipc_busy)) \<and>
          port_at np ipc_busy = Some r \<and> np \<noteq> 1 \<and> chan_ok r (U, ipc_busy) \<and> length (queued r ipc_busy) + length ws \<le> 256 \<longrightarrow>
          queued r s' = queued r ipc_busy @ List.map (\<lambda>d. (notice (dw_code d) 1 1 0, False)) ws"
    by (elim exE conjE)
  have "queued 200 ipc_busy = []" "length (s_irq_freelist (i_pool ipc_busy)) = 512"
    using ipc_two_facts by (simp_all add: queued_def ipc_busy_def pool_init_def IPC_IRQ_POOL_SIZE_def)
  moreover have "i_dw ipc_busy = [\<lparr>dw_used = True, dw_watcher_pid = 8, dw_notify_port = 2, dw_code = 77, dw_target_port = 1, dw_target_gen = 1\<rparr>]"
    by (simp add: ipc_busy_def)
  ultimately have "queued 200 s' = [(notice 77 1 1 0, False)]"
    using r(5)[rule_format, of 2 200 "{}"] ipc_busy_facts(5,6) by (simp add: Let_def)
  then show ?thesis using r(1-3) r(4)[rule_format, of 5] unfolding ipc_busy_facts(2) by auto
qed
section \<open>A sender that nobody will wake\<close>

lemma send_enqueue_accepts:
  assumes "entry_alloc cpu km (i_pool s) = (pl, Some e)" "p_msg_count (i_ports s p) < PORT_QUEUE_MAX"
    and "send_enqueue cpu c km i p msg reply s = (s', r)"
  shows "r = IPC_OK" "p_state (i_ports s' p) = p_state (i_ports s p)" "i_table s' = i_table s"
    "nat (c_tid c) \<in> unanswered p s'" "i_k s' = wait_queue_init (reply_wq (nat (c_tid c))) (i_k s)"
proof -
  have n: "\<not> PORT_QUEUE_MAX \<le> p_msg_count (i_ports s p)" using assms(2) by (simp add: not_le)
  show "r = IPC_OK" "p_state (i_ports s' p) = p_state (i_ports s p)" "i_table s' = i_table s"
    "nat (c_tid c) \<in> unanswered p s'" "i_k s' = wait_queue_init (reply_wq (nat (c_tid c))) (i_k s)"
    using assms(1,3) n by (auto simp: send_enqueue_def Let_def upd_pend_def unanswered_def)
qed

text \<open>
  A sender can be left waiting on a dead port.  \<^verbatim>\<open>ipc_send_sync\<close> tests that the port is alive before it takes the lock of
  the port, and does not test again under it.  When another CPU destroys the port in between, its walk over the pending senders
  is already over when the sender enters itself: the message is accepted by a closed port that nobody can look up any
  more, the sender is unanswered and goes to sleep without a timeout.
\<close>
theorem send_orphaned:
  assumes "wait_rep (i_k s) Q" "send_check cpu1 (Some c) i s = (s1, Inr (p, c))"
    and "ipc_port_destroy cpu2 i s1 = Some s2"
    and "entry_alloc cpu1 km (i_pool s2) = (pl, Some e)" "p_msg_count (i_ports s2 p) < PORT_QUEUE_MAX"
    and "send_enqueue cpu1 c km i p msg reply s2 = (s3, r)"
    and "wait_prepare (reply_wq (nat (c_tid c))) (c_thread c) 0 True (i_k s3) = Some k"
  shows "r = IPC_OK \<and> p_state (i_ports s3 p) = PORT_CLOSED \<and> (\<forall>j. live_port j s3 \<noteq> Some p) \<and>
     nat (c_tid c) \<in> unanswered p s3 \<and> send_round c s3 = Some (with_k k s3, True)"
proof -
  have g: "ipc_port_get i s = (s1, Some p)"
    using assms(2) by (auto simp: send_check_def split: prod.splits option.splits if_splits)
  have rng: "i \<noteq> 0" "i < MAX_PORTS" "live_port i s = Some p" "s1 = take_ref p s"
    using g by (auto simp: ipc_port_get_def not_le split: if_splits option.splits)
  have tab1: "i_table s1 = i_table s" and k1: "i_k s1 = i_k s" using rng(4) by (simp_all add: take_ref_def)
  have tp: "i_table s ! unat i = Some p" using rng(3) by (simp add: live_port_def split: option.splits if_splits)
  obtain s0 hp gen where u: "port_unlink i s1 = (s0, Some (p, hp, gen))"
    using rng(1,2) tp tab1 by (auto simp: port_unlink_def Let_def not_le)
  have rep1: "wait_rep (i_k s1) Q" using assms(1) k1 by simp
  have D: "i_table s2 = (i_table s)[unat i := None]" "p_state (i_ports s2 p) = PORT_CLOSED"
    using port_destroy_facts[OF rep1 u, of cpu2] assms(3) tab1 by auto
  note E = send_enqueue_accepts[OF assms(4-6)]
  have closed: "p_state (i_ports s3 p) = PORT_CLOSED" using D E by simp
  have "\<not> pr_reply_received (i_pend s3 (nat (c_tid c)))" using E(4) by (simp add: unanswered_def)
  then have "send_round c s3 = Some (with_k k s3, True)" using assms(7) by (simp add: send_round_def Let_def)
  moreover have "live_port j s3 \<noteq> Some p" for j
    using closed by (auto simp: live_port_def split: option.splits if_splits)
  ultimately show ?thesis using E closed by blast
qed
lemma queue_init_rep: "wait_rep k Q \<Longrightarrow> Q q = [] \<Longrightarrow> wait_rep (wait_queue_init q k) Q"
  by (auto simp: wait_rep_def wait_queue_init_def upd_queue_def end_of_def split: if_splits)

lemma entry_alloc_some: "\<exists>pl e. entry_alloc cpu (Some x) pool = (pl, Some e)"
  by (auto simp: entry_alloc_def Let_def split: option.splits prod.splits)

lemma ipc_one_state: "wait_rep (i_k ipc_one) (\<lambda>_. [])" "p_msg_count (i_ports ipc_one 100) = 0"
  "p_pending_senders (i_ports ipc_one 100) = []" "filter (dw_due 1 g) (i_dw ipc_one) = []"
proof -
  have fl: "i_freelist ipc_boot = 1 # words_from 2 MAX_PORTS"
    unfolding ipc_boot_facts(5) by (subst words_from_unfold) (simp_all add: MAX_PORTS_def)
  note defs = ipc_one_def ipc_port_create_def port_struct_alloc_def ipc_boot_facts(4) Let_def
  have "i_k ipc_one = wait_queue_init (notify_wq 100) (wait_queue_init (recv_wq 100) idle_state)"
    using fl by (simp add: defs) (simp add: ipc_boot_def deathwatch_init_def ipc_port_init_def blank_ipc_def)
  then show "wait_rep (i_k ipc_one) (\<lambda>_. [])" using idle_state_rep by (simp add: queue_init_rep)
  show "p_msg_count (i_ports ipc_one 100) = 0" "p_pending_senders (i_ports ipc_one 100) = []" using fl by (simp_all add: defs)
  show "filter (dw_due 1 g) (i_dw ipc_one) = []"
    using ipc_one_facts(5) by (simp add: ipc_boot_def deathwatch_init_def filter_empty_conv)
qed

lemma fire_nothing:
  assumes "filter (dw_due i g) (i_dw s) = []"
  shows "i_ports (deathwatch_fire cpu i g s) = i_ports s"
proof -
  obtain ds b where c: "dw_collect i g 16 (i_dw s) = (ds, b)" by fastforce
  have "b = []" using dw_collect_facts(1)[OF c] assms by simp
  then show ?thesis using c by (simp add: deathwatch_fire.simps[of cpu i g s])
qed
lemma port_drop_count: "p_msg_count (i_ports (port_drop cpu p s) q) = p_msg_count (i_ports s q)"
  by (simp add: port_drop_def Let_def split: prod.splits)

theorem send_orphaned_witness:
  "\<exists>s1 s2 s3 s4. send_check 0 (Some \<lparr>c_thread = 5, c_pid = 9, c_tid = 5\<rparr>) 1 ipc_one = (s1, Inr (100, \<lparr>c_thread = 5, c_pid = 9, c_tid = 5\<rparr>)) \<and>
     ipc_port_destroy 1 1 s1 = Some s2 \<and>
     send_enqueue 0 \<lparr>c_thread = 5, c_pid = 9, c_tid = 5\<rparr> (Some 600) 1 100 zero_msg zero_msg s2 = (s3, IPC_OK) \<and>
     5 \<in> unanswered 100 s3 \<and> send_round \<lparr>c_thread = 5, c_pid = 9, c_tid = 5\<rparr> s3 = Some (s4, True) \<and> (\<forall>j. live_port j s3 \<noteq> Some 100)"
proof -
  let ?c = "\<lparr>c_thread = 5, c_pid = 9, c_tid = 5\<rparr>"
  let ?s1 = "take_ref 100 ipc_one"
  have lp: "live_port 1 ipc_one = Some 100" using ipc_one_facts by (simp add: live_port_def)
  have chk: "send_check 0 (Some ?c) 1 ipc_one = (?s1, Inr (100, ?c))"
    using lp ipc_one_facts(4) by (simp add: send_check_def ipc_port_get_def one_below_max MAX_THREADS_def take_ref_def)
  have st1: "i_table ?s1 = i_table ipc_one" "i_k ?s1 = i_k ipc_one" by (simp_all add: take_ref_def)
  obtain s0 hp g where u: "port_unlink 1 ?s1 = (s0, Some (100, hp, g))"
    using ipc_one_facts(2) st1(1) by (auto simp: port_unlink_def one_below_max Let_def)
  have hp: "\<not> hp" "p_msg_count (i_ports s0 100) = 0" "i_dw s0 = i_dw ipc_one"
    using u ipc_one_state(2,3) ipc_one_facts(2) st1(1)
    by (auto simp: port_unlink_def one_below_max Let_def take_ref_def split: if_splits)
  have rep1: "wait_rep (i_k ?s1) (\<lambda>_. [])" using ipc_one_state(1) st1 by simp
  obtain s2 Q2 where d: "ipc_port_destroy 1 1 ?s1 = Some s2" "only_wakes (i_k ?s1) (\<lambda>_. []) (i_k s2) Q2"
    using port_destroy_facts[OF rep1 u, of 1] by auto
  have "p_msg_count (i_ports s2 100) = 0"
    using d(1) u hp fire_nothing[of 1 g s0 1] ipc_one_state(4)[of g]
    by (auto simp: ipc_port_destroy_def Let_def bind_eq_Some_conv port_drop_count)
  then have room: "p_msg_count (i_ports s2 100) < PORT_QUEUE_MAX" by (simp add: PORT_QUEUE_MAX_def word_less_nat_alt)
  obtain pl e where al: "entry_alloc 0 (Some 600) (i_pool s2) = (pl, Some e)" using entry_alloc_some by blast
  obtain s3 r where en: "send_enqueue 0 ?c (Some 600) 1 100 zero_msg zero_msg s2 = (s3, r)" by fastforce
  have k3: "i_k s3 = wait_queue_init (reply_wq 5) (i_k s2)" using send_enqueue_accepts(5)[OF al room en] by simp
  have "Q2 b = []" for b using d(2) by (simp add: only_wakes_def)
  then have rep3: "wait_rep (i_k s3) Q2" using d(2) k3 queue_init_rep by (simp add: only_wakes_def)
  have "blocked_on_of (i_k s3) 5 = None" using wait_rep_none[OF rep3] d(2) by (simp add: only_wakes_def)
  then obtain k where k: "wait_prepare (reply_wq (nat (c_tid ?c))) (c_thread ?c) 0 True (i_k s3) = Some k"
    using wait_prepare_rep[OF rep3, of 5 0 True "reply_wq 5"] by auto
  have "r = IPC_OK \<and> p_state (i_ports s3 100) = PORT_CLOSED \<and> (\<forall>j. live_port j s3 \<noteq> Some 100) \<and>
     nat (c_tid ?c) \<in> unanswered 100 s3 \<and> send_round ?c s3 = Some (with_k k s3, True)"
    by (rule send_orphaned[OF ipc_one_state(1) chk d(1) al room en k])
  then show ?thesis using chk d(1) en by (intro exI[of _ ?s1] exI[of _ s2] exI[of _ s3] exI[of _ "with_k k s3"]) simp
qed
section \<open>A sender that is killed\<close>

text \<open>
  Killing a thread that waits for an answer leaves its message behind.  The clean-up of the thread takes its record off the port, but the
  message stays in the queue: for a short message its payload pointer, which the queue does not own, points into the kernel stack that is freed next.
  The reference the thread held on the port is not given back either, so the port can never be torn down.
\<close>
theorem killed_sender_leaves_message:
  assumes "0 \<le> tid" "tid < MAX_THREADS" "i_slot s (nat tid)"
    and "pr_target_port_id (i_pend s (nat tid)) = i" "i \<noteq> 0" "i < MAX_PORTS" "live_port i s = Some p"
    and "p_generation (i_ports s p) = pr_target_port_gen (i_pend s (nat tid))"
    and "p_refcount (i_ports s p) \<noteq> 0" "unat (p_refcount (i_ports s p)) < 3000000000"
  shows "let s' = ipc_cleanup_thread cpu tid s
    in p_pending_senders (i_ports s' p) = remove1 (nat tid) (p_pending_senders (i_ports s p)) \<and> \<not> i_slot s' (nat tid) \<and>
       queued p s' = queued p s \<and> p_refcount (i_ports s' p) = p_refcount (i_ports s p)"
proof -
  have rd: "refcount_dec (refcount_inc (p_refcount (i_ports s p))) = (p_refcount (i_ports s p), False)"
    using inc_dec[OF assms(9)] assms(10) by auto
  let ?s1 = "upd_pend (nat tid) (\<lambda>r. r\<lparr>pr_port_dead := True, pr_reply_received := True\<rparr>) (s\<lparr>i_slot := (i_slot s)(nat tid := False)\<rparr>)"
  have "live_port i ?s1 = Some p" using assms(7) by (auto simp: live_port_def upd_pend_def split: option.splits if_splits)
  then have g: "ipc_port_get i ?s1 = (take_ref p ?s1, Some p)" using assms(5,6) by (simp add: ipc_port_get_def not_le)
  have n: "\<not> (tid < 0 \<or> tid \<ge> MAX_THREADS)" "\<not> \<not> i_slot s (nat tid)" using assms(1-3) by auto
  let ?s2 = "upd_port p (\<lambda>r. r\<lparr>p_pending_senders := remove1 (nat tid) (p_pending_senders r)\<rparr>) (take_ref p ?s1)"
  have "ipc_cleanup_thread cpu tid s = port_drop cpu p ?s2"
    using g assms(4,8) n by (simp add: ipc_cleanup_thread_def Let_def ipc_port_put_def upd_pend_def take_ref_def)
  also have "port_drop cpu p ?s2 = upd_port p (\<lambda>r. r\<lparr>p_refcount := p_refcount (i_ports s p)\<rparr>) ?s2"
    using rd by (simp add: port_drop_def take_ref_def upd_port_def upd_pend_def)
  finally show ?thesis by (simp add: Let_def queued_def take_ref_def upd_pend_def upd_port_def)
qed

theorem killed_sender_leaves_message_witness:
  "let s = (upd_port 100 (\<lambda>r. r\<lparr>p_pending_senders := [5]\<rparr>) (upd_pend 5 (\<lambda>r. r\<lparr>pr_target_port_id := 1, pr_target_port_gen := 1\<rparr>) ipc_one))
       \<lparr>i_slot := (\<lambda>t. t = 5)\<rparr>;
     s' = ipc_cleanup_thread 0 5 s
   in p_pending_senders (i_ports s' 100) = remove1 (nat 5) (p_pending_senders (i_ports s 100)) \<and> \<not> i_slot s' (nat 5) \<and>
      queued 100 s' = queued 100 s \<and> p_refcount (i_ports s' 100) = p_refcount (i_ports s 100)"
proof -
  have rc: "p_refcount (i_ports ipc_one 100) = 1"
  proof -
    have "i_freelist ipc_boot = 1 # words_from 2 MAX_PORTS"
      unfolding ipc_boot_facts(5) by (subst words_from_unfold) (simp_all add: MAX_PORTS_def)
    then show ?thesis
      by (simp add: ipc_one_def ipc_port_create_def port_struct_alloc_def ipc_boot_facts(4) Let_def refcount_init_def)
  qed
  have m: "1 < MAX_PORTS" by (simp add: MAX_PORTS_def word_less_nat_alt)
  show ?thesis
    unfolding Let_def
    by (rule killed_sender_leaves_message[unfolded Let_def, where i = 1])
      (use rc m ipc_one_facts in \<open>simp_all add: MAX_THREADS_def upd_pend_def upd_port_def live_port_def\<close>)
qed

end
