(* ===== verification/Piece_Table.thy ===== *)
theory Piece_Table
  imports Prelude
begin

text \<open>
  The piece table of the document library, \<^verbatim>\<open>libdobdoc/src/piecetable.c\<close>.  The text is the concatenation of
  pieces, each a window into the original buffer or into the add buffer.  A buffer is the list of its
  initialised bytes, its capacity a field; the lengths \<^verbatim>\<open>orig_len\<close> and \<^verbatim>\<open>npc\<close> are lengths of lists.  What \<^verbatim>\<open>malloc\<close>
  and \<^verbatim>\<open>realloc\<close> answer is an argument.  The doubling loops over 32-bit capacities can run for ever, which is None.

  The theory shows that every operation is the operation on the byte list, that the pieces
  stay inside their buffers, and that the sums of offset and length are not guarded against wrap-around.
\<close>

datatype dd_result = DD_OK | DD_ERR_INVAL | DD_ERR_NOMEM | DD_ERR_RANGE | DD_ERR_BADFILE

record piece =
  pc_src :: u8
  pc_off :: u32
  pc_len :: u32

record piecetable =
  pt_orig :: "u8 list"
  pt_add :: "u8 list"
  pt_add_len :: u32
  pt_add_cap :: u32
  pt_pc :: "piece list"
  pt_cap :: u32
  pt_total :: u32

definition pt_npc :: "piecetable \<Rightarrow> u32" where
  "pt_npc pt = of_nat (length (pt_pc pt))"

definition pt_init :: piecetable where
  "pt_init = \<lparr>pt_orig = [], pt_add = [], pt_add_len = 0, pt_add_cap = 0, pt_pc = [], pt_cap = 0, pt_total = 0\<rparr>"

definition pt_free :: "piecetable \<Rightarrow> piecetable" where
  "pt_free pt = pt_init"

text \<open>\<^verbatim>\<open>while (nc < need) nc *= 2\<close>.\<close>

partial_function (option) grow_cap :: "u32 \<Rightarrow> u32 \<Rightarrow> u32 option" where
  "grow_cap nc need = (if nc < need then grow_cap (nc * 2) need else Some nc)"

declare grow_cap.simps [code]

definition pc_reserve :: "bool \<Rightarrow> piecetable \<Rightarrow> u32 \<Rightarrow> (piecetable \<times> dd_result) option" where
  "pc_reserve ok pt need =
     (if need \<le> pt_cap pt then Some (pt, DD_OK)
      else do { nc \<leftarrow> grow_cap (if pt_cap pt \<noteq> 0 then pt_cap pt * 2 else 16) need;
                Some (if ok then (pt\<lparr>pt_cap := nc\<rparr>, DD_OK) else (pt, DD_ERR_NOMEM)) })"

definition pt_set_original :: "bool \<Rightarrow> bool \<Rightarrow> piecetable \<Rightarrow> u8 list \<Rightarrow> (piecetable \<times> dd_result) option" where
  "pt_set_original ok1 ok2 pt data =
     (let pt1 = pt\<lparr>pt_orig := [], pt_pc := [], pt_total := 0\<rparr>;
          ln = of_nat (length data)
      in if ln \<noteq> 0
         then if \<not> ok1 then Some (pt1, DD_ERR_NOMEM)
              else let pt2 = pt1\<lparr>pt_orig := data\<rparr>
                   in do { (pt3, r) \<leftarrow> pc_reserve ok2 pt2 1;
                           Some (if r \<noteq> DD_OK then (pt3, DD_ERR_NOMEM)
                                 else (pt3\<lparr>pt_pc := [\<lparr>pc_src = 0, pc_off = 0, pc_len = ln\<rparr>], pt_total := ln\<rparr>, DD_OK)) }
         else Some (pt1, DD_OK))"

fun find_loop :: "u32 \<Rightarrow> u32 \<Rightarrow> nat \<Rightarrow> u32 list \<Rightarrow> nat \<times> u32" where
  "find_loop pos acc i [] = (i, 0)"
| "find_loop pos acc i (l # ls) =
     (if pos < acc + l then (i, pos - acc) else find_loop pos (acc + l) (Suc i) ls)"

definition pt_find :: "piecetable \<Rightarrow> u32 \<Rightarrow> nat \<times> u32" where
  "pt_find pt pos = find_loop pos 0 0 (List.map pc_len (pt_pc pt))"

definition pc_base :: "piecetable \<Rightarrow> piece \<Rightarrow> u8 list" where
  "pc_base pt p = (if pc_src p = 0 then pt_orig pt else pt_add pt)"

definition pt_byte_at :: "piecetable \<Rightarrow> u32 \<Rightarrow> int" where
  "pt_byte_at pt pos =
     (if pos \<ge> pt_total pt then -1
      else case pt_find pt pos of (idx, within) \<Rightarrow>
        let p = pt_pc pt ! idx in uint (pc_base pt p ! unat (pc_off p + within)))"

fun get_loop :: "piecetable \<Rightarrow> piece list \<Rightarrow> u32 \<Rightarrow> u32 \<Rightarrow> u32 \<Rightarrow> u8 list" where
  "get_loop pt [] within n fin = []"
| "get_loop pt (p # ps) within n fin =
     (if fin < n
      then let avail = pc_len p - within; tk = (if avail < n - fin then avail else n - fin)
           in take (unat tk) (drop (unat (pc_off p + within)) (pc_base pt p)) @ get_loop pt ps 0 n (fin + tk)
      else [])"

definition pt_get_text :: "piecetable \<Rightarrow> u32 \<Rightarrow> u32 \<Rightarrow> u32 \<Rightarrow> u8 list" where
  "pt_get_text pt pos n cap =
     (if pos > pt_total pt then []
      else let n1 = (if pos + n > pt_total pt then pt_total pt - pos else n);
               n2 = (if n1 > cap then cap else n1)
           in case pt_find pt pos of (idx, within) \<Rightarrow> get_loop pt (drop idx (pt_pc pt)) within n2 0)"

definition add_append :: "bool \<Rightarrow> piecetable \<Rightarrow> u8 list \<Rightarrow> (piecetable \<times> u32 option) option" where
  "add_append ok pt data =
     (let n = of_nat (length data);
          store = (\<lambda>pt. (pt\<lparr>pt_add := pt_add pt @ data, pt_add_len := pt_add_len pt + n\<rparr>, Some (pt_add_len pt)))
      in if pt_add_len pt + n > pt_add_cap pt
         then do { nc \<leftarrow> grow_cap (if pt_add_cap pt \<noteq> 0 then pt_add_cap pt * 2 else 256) (pt_add_len pt + n);
                   Some (if ok then store (pt\<lparr>pt_add_cap := nc\<rparr>) else (pt, None)) }
         else Some (store pt))"

definition extend_piece :: "nat \<Rightarrow> u32 \<Rightarrow> piecetable \<Rightarrow> piecetable" where
  "extend_piece i n pt =
     pt\<lparr>pt_pc := (pt_pc pt)[i := (pt_pc pt ! i)\<lparr>pc_len := pc_len (pt_pc pt ! i) + n\<rparr>], pt_total := pt_total pt + n\<rparr>"

definition continues :: "piecetable \<Rightarrow> nat \<Rightarrow> u32 \<Rightarrow> bool" where
  "continues pt i add_off \<longleftrightarrow> pc_src (pt_pc pt ! i) = 1 \<and> pc_off (pt_pc pt ! i) + pc_len (pt_pc pt ! i) = add_off"

text \<open>The splice of the new piece: at the end, between two pieces, or inside one.\<close>

definition splice :: "nat \<Rightarrow> u32 \<Rightarrow> piece \<Rightarrow> piece list \<Rightarrow> piece list" where
  "splice idx within newp ps =
     (if idx \<ge> length ps then ps @ [newp]
      else if within = 0 then take idx ps @ newp # drop idx ps
      else let o1 = ps ! idx
           in take idx ps @ [\<lparr>pc_src = pc_src o1, pc_off = pc_off o1, pc_len = within\<rparr>, newp,
                \<lparr>pc_src = pc_src o1, pc_off = pc_off o1 + within, pc_len = pc_len o1 - within\<rparr>] @ drop (Suc idx) ps)"

definition pt_insert :: "bool \<Rightarrow> bool \<Rightarrow> piecetable \<Rightarrow> u32 \<Rightarrow> u8 list \<Rightarrow> (piecetable \<times> dd_result) option" where
  "pt_insert ok1 ok2 pt pos data =
     (let n = of_nat (length data)
      in if pos > pt_total pt then Some (pt, DD_ERR_RANGE)
         else if n = 0 then Some (pt, DD_OK)
         else do { (pt1, a) \<leftarrow> add_append ok1 pt data;
           case a of
             None \<Rightarrow> Some (pt1, DD_ERR_NOMEM)
           | Some add_off \<Rightarrow>
               case pt_find pt1 pos of (idx, within) \<Rightarrow>
                 if idx > 0 \<and> within = 0 \<and> continues pt1 (idx - 1) add_off then Some (extend_piece (idx - 1) n pt1, DD_OK)
                 else if pos = pt_total pt1 \<and> pt_npc pt1 > 0 \<and> continues pt1 (length (pt_pc pt1) - 1) add_off
                 then Some (extend_piece (length (pt_pc pt1) - 1) n pt1, DD_OK)
                 else do { (pt2, r) \<leftarrow> pc_reserve ok2 pt1
                             (pt_npc pt1 + (if idx \<ge> length (pt_pc pt1) \<or> within = 0 then 1 else 2));
                           Some (if r \<noteq> DD_OK then (pt2, DD_ERR_NOMEM)
                                 else (pt2\<lparr>pt_pc := splice idx within \<lparr>pc_src = 1, pc_off = add_off, pc_len = n\<rparr> (pt_pc pt2),
                                           pt_total := pt_total pt2 + n\<rparr>, DD_OK)) } })"

text \<open>The pieces left after a cut between two places.\<close>

definition cut_pieces :: "piece list \<Rightarrow> nat \<times> u32 \<Rightarrow> nat \<times> u32 \<Rightarrow> piece list" where
  "cut_pieces ps a b = (case (a, b) of ((i0, w0), (i1, w1)) \<Rightarrow>
     take i0 ps
     @ (if i0 < length ps \<and> w0 > 0 then [(ps ! i0)\<lparr>pc_len := w0\<rparr>] else [])
     @ (if i1 < length ps \<and> w1 > 0 then [(ps ! i1)\<lparr>pc_off := pc_off (ps ! i1) + w1, pc_len := pc_len (ps ! i1) - w1\<rparr>] else [])
     @ drop (i1 + (if w1 > 0 then 1 else 0)) ps)"

definition pt_delete :: "bool \<Rightarrow> piecetable \<Rightarrow> u32 \<Rightarrow> u32 \<Rightarrow> piecetable \<times> dd_result" where
  "pt_delete ok pt pos n =
     (if pos > pt_total pt then (pt, DD_ERR_RANGE)
      else if n = 0 then (pt, DD_OK)
      else let n1 = (if pos + n > pt_total pt then pt_total pt - pos else n);
               a = pt_find pt pos; b = pt_find pt (pos + n1)
           in if \<not> ok then (pt, DD_ERR_NOMEM)
              else (pt\<lparr>pt_pc := cut_pieces (pt_pc pt) a b, pt_cap := pt_npc pt + 2, pt_total := pt_total pt - n1\<rparr>, DD_OK))"

definition pt_snapshot :: "bool \<Rightarrow> piecetable \<Rightarrow> (piece list \<times> u32) option" where
  "pt_snapshot ok pt = (if pt_npc pt \<noteq> 0 \<and> \<not> ok then None else Some (pt_pc pt, pt_total pt))"

text \<open>\<^verbatim>\<open>pt_restore\<close> has no answer for a failed \<^verbatim>\<open>malloc\<close>: the count is set although there are no pieces, which is None.\<close>

definition pt_restore :: "bool \<Rightarrow> piece list \<Rightarrow> u32 \<Rightarrow> piecetable \<Rightarrow> piecetable option" where
  "pt_restore ok ps total_in pt =
     (if ps = [] then Some (pt\<lparr>pt_pc := [], pt_cap := 0, pt_total := total_in\<rparr>)
      else if ok then Some (pt\<lparr>pt_pc := ps, pt_cap := of_nat (length ps), pt_total := total_in\<rparr>) else None)"

section \<open>The text and the invariant\<close>

definition piece_bytes :: "piecetable \<Rightarrow> piece \<Rightarrow> u8 list" where
  "piece_bytes pt p = take (unat (pc_len p)) (drop (unat (pc_off p)) (pc_base pt p))"

definition pt_text :: "piecetable \<Rightarrow> u8 list" where
  "pt_text pt = concat (List.map (piece_bytes pt) (pt_pc pt))"

definition piece_ok :: "piecetable \<Rightarrow> piece \<Rightarrow> bool" where
  "piece_ok pt p \<longleftrightarrow> pc_src p \<le> 1 \<and> unat (pc_off p) + unat (pc_len p) \<le> length (pc_base pt p)"

text \<open>The pieces lie in their buffers, the counts agree with the lists, and everything written lies within the capacities.\<close>

definition pt_inv :: "piecetable \<Rightarrow> bool" where
  "pt_inv pt \<longleftrightarrow> list_all (piece_ok pt) (pt_pc pt) \<and> unat (pt_total pt) = length (pt_text pt) \<and>
     unat (pt_add_len pt) = length (pt_add pt) \<and> length (pt_add pt) \<le> unat (pt_add_cap pt) \<and>
     length (pt_orig pt) < 2 ^ 32 \<and> length (pt_pc pt) \<le> unat (pt_cap pt)"

lemma piece_bytes_length: "piece_ok pt p \<Longrightarrow> length (piece_bytes pt p) = unat (pc_len p)"
  by (auto simp: piece_ok_def piece_bytes_def)

lemma pt_text_length:
  "list_all (piece_ok pt) (pt_pc pt) \<Longrightarrow> length (pt_text pt) = sum_list (List.map (\<lambda>p. unat (pc_len p)) (pt_pc pt))"
proof -
  have "list_all (piece_ok pt) ps \<Longrightarrow> length (concat (List.map (piece_bytes pt) ps)) = sum_list (List.map (\<lambda>p. unat (pc_len p)) ps)" for ps
    by (induction ps) (simp_all add: piece_bytes_length)
  then show "list_all (piece_ok pt) (pt_pc pt) \<Longrightarrow> ?thesis" by (simp add: pt_text_def)
qed

text \<open>\<^verbatim>\<open>pt_find\<close>: where in a list of lengths a position falls.  The same loop searches the runs.\<close>

lemma find_loop_facts:
  assumes "find_loop pos acc i ls = (j, w)" "unat acc + sum_list (List.map unat ls) < 2 ^ 32" "acc \<le> pos"
    and "unat pos \<le> unat acc + sum_list (List.map unat ls)"
  shows "i \<le> j" "j \<le> i + length ls" "unat pos = unat acc + sum_list (List.map unat (take (j - i) ls)) + unat w"
    "if j < i + length ls then unat w < unat (ls ! (j - i)) else w = 0 \<and> unat pos = unat acc + sum_list (List.map unat ls)"
proof -
  have "i \<le> j \<and> j \<le> i + length ls \<and> unat pos = unat acc + sum_list (List.map unat (take (j - i) ls)) + unat w \<and>
    (if j < i + length ls then unat w < unat (ls ! (j - i)) else w = 0 \<and> unat pos = unat acc + sum_list (List.map unat ls))"
    using assms
  proof (induction pos acc i ls rule: find_loop.induct)
    case (1 pos acc i)
    then show ?case by (simp add: word_le_nat_alt)
  next
    case (2 pos acc i l ls)
    have al: "unat (acc + l) = unat acc + unat l" using 2(3) by (simp add: unat_add_u32)
    show ?case
    proof (cases "pos < acc + l")
      case True
      then have jw: "j = i" "w = pos - acc" using 2(2) by simp_all
      have "unat w = unat pos - unat acc" using jw 2(4) by (simp add: unat_sub)
      then show ?thesis using jw True al 2(4) by (simp add: word_less_nat_alt word_le_nat_alt)
    next
      case False
      then have "find_loop pos (acc + l) (Suc i) ls = (j, w)" using 2(2) by simp
      from 2(1)[OF False this] show ?thesis
        using False al 2(3,5) by (auto simp: not_less word_le_nat_alt Suc_diff_Suc take_Cons' nth_Cons' split: if_splits)
    qed
  qed
  then show "i \<le> j" "j \<le> i + length ls" "unat pos = unat acc + sum_list (List.map unat (take (j - i) ls)) + unat w"
    "if j < i + length ls then unat w < unat (ls ! (j - i)) else w = 0 \<and> unat pos = unat acc + sum_list (List.map unat ls)" by blast+
qed
lemma grow_cap_ends:
  assumes "0 < nc" "need \<le> 0x80000000"
  obtains nc' where "grow_cap nc need = Some nc'" "need \<le> nc'"
proof -
  have "\<exists>nc'. grow_cap nc need = Some nc' \<and> need \<le> nc'"
    using assms(1)
  proof (induction "unat need - unat nc" arbitrary: nc rule: less_induct)
    case less
    show ?case
    proof (cases "nc < need")
      case True
      have b: "unat nc < unat need" "unat need \<le> 2147483648" "0 < unat nc"
        using True assms(2) less.prems by (simp_all add: word_less_nat_alt word_le_nat_alt)
      then have d: "unat (nc * 2) = unat nc * 2" by (simp add: unat_word_ariths)
      have "unat need - unat (nc * 2) < unat need - unat nc" "0 < nc * 2"
        using b d by (simp_all add: word_less_nat_alt)
      from less.hyps[OF this] show ?thesis using True by (subst grow_cap.simps) simp
    next
      case False
      then have "grow_cap nc need = Some nc" by (subst grow_cap.simps) simp
      then show ?thesis using False by simp
    qed
  qed
  then show ?thesis using that by blast
qed

lemma grow_doubled:
  assumes "\<not> need \<le> cap" "need \<le> 0x80000000" "0 < d"
  obtains nc where "grow_cap (if cap \<noteq> 0 then cap * 2 else d) need = Some nc" "need \<le> nc" "unat cap \<le> unat nc"
proof -
  have "0 < (if cap \<noteq> 0 then cap * 2 else d)"
  proof (cases "cap = 0")
    case False
    then have c: "0 < unat cap" "unat cap < 2147483648" using assms(1,2) by (simp_all add: word_le_nat_alt unat_gt_0)
    then have "unat (cap * 2) = unat cap * 2" by (simp add: unat_word_ariths)
    then show ?thesis using False c(1) by (simp add: word_less_nat_alt)
  qed (use assms(3) in simp)
  then obtain nc where nc: "grow_cap (if cap \<noteq> 0 then cap * 2 else d) need = Some nc" "need \<le> nc"
    using grow_cap_ends[OF _ assms(2)] by metis
  moreover have "unat cap \<le> unat nc" using nc(2) assms(1) by (simp add: word_le_nat_alt)
  ultimately show ?thesis using that by blast
qed

definition bytes_of :: "piecetable \<Rightarrow> piece list \<Rightarrow> u8 list" where
  "bytes_of pt ps = concat (List.map (piece_bytes pt) ps)"

lemma bytes_of_simps [simp]:
  "bytes_of pt [] = []" "bytes_of pt (p # ps) = piece_bytes pt p @ bytes_of pt ps"
  "bytes_of pt (ps @ qs) = bytes_of pt ps @ bytes_of pt qs"
  by (simp_all add: bytes_of_def)

lemma bytes_of_length:
  "list_all (piece_ok pt) ps \<Longrightarrow> length (bytes_of pt ps) = sum_list (List.map unat (List.map pc_len ps))"
  by (induction ps) (simp_all add: piece_bytes_length)

lemma pt_text_bytes: "pt_text pt = bytes_of pt (pt_pc pt)"
  by (simp add: pt_text_def bytes_of_def)

lemma split_at_index: "i < length ps \<Longrightarrow> ps = take i ps @ ps ! i # drop (Suc i) ps"
  by (rule id_take_nth_drop)

lemma pt_find_facts:
  assumes "list_all (piece_ok pt) (pt_pc pt)" "length (pt_text pt) < 2 ^ 32" "unat pos \<le> length (pt_text pt)" "pt_find pt pos = (i, w)"
  shows "i \<le> length (pt_pc pt)" "i < length (pt_pc pt) \<Longrightarrow> unat w < unat (pc_len (pt_pc pt ! i))" "i = length (pt_pc pt) \<Longrightarrow> w = 0"
    "unat pos = length (bytes_of pt (take i (pt_pc pt))) + unat w"
proof -
  let ?ls = "List.map pc_len (pt_pc pt)"
  have len: "length (pt_text pt) = sum_list (List.map unat ?ls)"
    unfolding pt_text_bytes by (rule bytes_of_length[OF assms(1)])
  have f: "find_loop pos 0 0 ?ls = (i, w)" using assms(4) by (simp add: pt_find_def)
  have h: "unat (0 :: u32) + sum_list (List.map unat ?ls) < 2 ^ 32" "(0 :: u32) \<le> pos"
    "unat pos \<le> unat (0 :: u32) + sum_list (List.map unat ?ls)"
    using assms(2,3) unfolding len by simp_all
  note F = find_loop_facts[OF f h]
  have at: "list_all (piece_ok pt) (take i (pt_pc pt))"
    using assms(1) by (auto simp: list_all_iff dest: in_set_takeD)
  show "i \<le> length (pt_pc pt)" using F(2) by simp
  show "i < length (pt_pc pt) \<Longrightarrow> unat w < unat (pc_len (pt_pc pt ! i))" using F(4) by simp
  show "i = length (pt_pc pt) \<Longrightarrow> w = 0" using F(4) by simp
  show "unat pos = length (bytes_of pt (take i (pt_pc pt))) + unat w"
    using F(3) by (simp add: bytes_of_length[OF at] take_map)
qed

lemma pt_find_text:
  assumes "list_all (piece_ok pt) (pt_pc pt)" "length (pt_text pt) < 2 ^ 32" "unat pos \<le> length (pt_text pt)" "pt_find pt pos = (i, w)"
  shows "take (unat pos) (pt_text pt) = bytes_of pt (take i (pt_pc pt)) @
      (if i < length (pt_pc pt) then take (unat w) (piece_bytes pt (pt_pc pt ! i)) else [])"
    "drop (unat pos) (pt_text pt) =
      (if i < length (pt_pc pt) then drop (unat w) (piece_bytes pt (pt_pc pt ! i)) @ bytes_of pt (drop (Suc i) (pt_pc pt)) else [])"
proof -
  note F = pt_find_facts[OF assms]
  have t: "pt_text pt = bytes_of pt (take i (pt_pc pt)) @
      (if i < length (pt_pc pt) then piece_bytes pt (pt_pc pt ! i) @ bytes_of pt (drop (Suc i) (pt_pc pt)) else [])"
  proof (cases "i < length (pt_pc pt)")
    case True
    have "pt_text pt = bytes_of pt (take i (pt_pc pt) @ pt_pc pt ! i # drop (Suc i) (pt_pc pt))"
      unfolding pt_text_bytes using split_at_index[OF True] by simp
    then show ?thesis using True by simp
  next
    case False
    then show ?thesis using F(1) by (simp add: pt_text_bytes)
  qed
  have l: "i < length (pt_pc pt) \<Longrightarrow> unat w < length (piece_bytes pt (pt_pc pt ! i))"
    using F(2) assms(1) by (simp add: piece_bytes_length list_all_length)
  show "take (unat pos) (pt_text pt) = bytes_of pt (take i (pt_pc pt)) @
      (if i < length (pt_pc pt) then take (unat w) (piece_bytes pt (pt_pc pt ! i)) else [])"
    "drop (unat pos) (pt_text pt) =
      (if i < length (pt_pc pt) then drop (unat w) (piece_bytes pt (pt_pc pt ! i)) @ bytes_of pt (drop (Suc i) (pt_pc pt)) else [])"
    unfolding t F(4) using l F(1,3) by (auto simp: not_less)
qed
section \<open>Insertion\<close>

lemma pt_invD:
  assumes "pt_inv pt"
  shows "list_all (piece_ok pt) (pt_pc pt)" "length (pt_text pt) < 2 ^ 32" "unat (pt_total pt) = length (pt_text pt)"
    "unat (pt_add_len pt) = length (pt_add pt)" "length (pt_add pt) \<le> unat (pt_add_cap pt)" "length (pt_pc pt) \<le> unat (pt_cap pt)"
    "length (pt_orig pt) < 2 ^ 32" "length (pt_add pt) < 2 ^ 32" "unat (pt_npc pt) = length (pt_pc pt)"
proof -
  show t: "list_all (piece_ok pt) (pt_pc pt)" "unat (pt_total pt) = length (pt_text pt)"
    "unat (pt_add_len pt) = length (pt_add pt)" "length (pt_add pt) \<le> unat (pt_add_cap pt)" "length (pt_pc pt) \<le> unat (pt_cap pt)"
    "length (pt_orig pt) < 2 ^ 32"
    using assms by (simp_all add: pt_inv_def)
  show "length (pt_text pt) < 2 ^ 32" unfolding t(2)[symmetric] using unat_lt_u32[of "pt_total pt"] by simp
  show "length (pt_add pt) < 2 ^ 32" unfolding t(3)[symmetric] using unat_lt_u32[of "pt_add_len pt"] by simp
  show "unat (pt_npc pt) = length (pt_pc pt)"
    unfolding pt_npc_def by (rule unat_of_nat_u32) (use t(5) unat_lt_u32[of "pt_cap pt"] in linarith)
qed

text \<open>Bytes appended to the add buffer do not change what the pieces denote.\<close>

lemma piece_grown:
  assumes "piece_ok pt p" "pt_orig pt' = pt_orig pt" "pt_add pt' = pt_add pt @ xs"
  shows "piece_ok pt' p" "piece_bytes pt' p = piece_bytes pt p"
  using assms by (auto simp: piece_ok_def piece_bytes_def pc_base_def split: if_splits)

lemma bytes_grown:
  assumes "pt_orig pt' = pt_orig pt" "pt_add pt' = pt_add pt @ xs"
  shows "list_all (piece_ok pt) ps \<Longrightarrow> list_all (piece_ok pt') ps \<and> bytes_of pt' ps = bytes_of pt ps"
  using piece_grown[OF _ assms] by (induction ps) simp_all

lemma add_append_facts:
  assumes "pt_inv pt" "length (pt_add pt) + length data \<le> 2147483648"
  obtains pt1 a where "add_append ok pt data = Some (pt1, a)" "pt_inv pt1" "pt_pc pt1 = pt_pc pt" "pt_total pt1 = pt_total pt"
    "pt_text pt1 = pt_text pt" "pt_cap pt1 = pt_cap pt" "pt_orig pt1 = pt_orig pt"
    "case a of None \<Rightarrow> pt1 = pt | Some f \<Rightarrow> unat f = length (pt_add pt) \<and> pt_add pt1 = pt_add pt @ data"
proof -
  note I = pt_invD[OF assms(1)]
  let ?n = "of_nat (length data) :: u32"
  have n: "unat ?n = length data" using assms(2) by (simp add: unat_of_nat_u32)
  have sum: "unat (pt_add_len pt + ?n) = length (pt_add pt) + length data"
    using n I(4) assms(2) by (simp add: unat_add_u32)
  have stored: "pt_inv pt1 \<and> pt_text pt1 = pt_text pt"
    if "pt1 = pt\<lparr>pt_add_cap := c, pt_add := pt_add pt @ data, pt_add_len := pt_add_len pt + ?n\<rparr>"
      "length (pt_add pt) + length data \<le> unat c" for pt1 c
  proof -
    have g: "pt_orig pt1 = pt_orig pt" "pt_add pt1 = pt_add pt @ data" using that(1) by simp_all
    have "list_all (piece_ok pt1) (pt_pc pt)" "bytes_of pt1 (pt_pc pt) = bytes_of pt (pt_pc pt)"
      using bytes_grown[OF g I(1)] by blast+
    then show ?thesis using that I sum by (simp add: pt_inv_def pt_text_bytes)
  qed
  show thesis
  proof (cases "pt_add_len pt + ?n > pt_add_cap pt")
    case True
    have need: "pt_add_len pt + ?n \<le> 0x80000000" using sum assms(2) by (simp add: word_le_nat_alt)
    have "\<not> pt_add_len pt + ?n \<le> pt_add_cap pt" using True by simp
    from grow_doubled[OF this need, of 256] obtain nc where
      nc: "grow_cap (if pt_add_cap pt \<noteq> 0 then pt_add_cap pt * 2 else 256) (pt_add_len pt + ?n) = Some nc" "pt_add_len pt + ?n \<le> nc"
      by auto
    show thesis
    proof (cases ok)
      case True2: True
      let ?pt1 = "pt\<lparr>pt_add_cap := nc, pt_add := pt_add pt @ data, pt_add_len := pt_add_len pt + ?n\<rparr>"
      have "add_append ok pt data = Some (?pt1, Some (pt_add_len pt))"
        using True True2 nc(1) by (simp add: add_append_def Let_def)
      moreover have "length (pt_add pt) + length data \<le> unat nc" using nc(2) sum by (simp add: word_le_nat_alt)
      ultimately show thesis using that stored[OF refl] I(4) by simp
    next
      case False
      then have "add_append ok pt data = Some (pt, None)" using True nc(1) by (simp add: add_append_def Let_def)
      then show thesis using that assms(1) by simp
    qed
  next
    case False
    let ?pt1 = "pt\<lparr>pt_add_cap := pt_add_cap pt, pt_add := pt_add pt @ data, pt_add_len := pt_add_len pt + ?n\<rparr>"
    have "add_append ok pt data = Some (?pt1, Some (pt_add_len pt))" using False by (simp add: add_append_def Let_def)
    moreover have "length (pt_add pt) + length data \<le> unat (pt_add_cap pt)" using False sum by (simp add: not_less word_le_nat_alt)
    ultimately show thesis using that stored[of ?pt1 "pt_add_cap pt"] I(4) by simp
  qed
qed

lemma pc_reserve_facts:
  assumes "need \<le> 0x80000000"
  obtains c r where "pc_reserve ok pt need = Some (pt\<lparr>pt_cap := c\<rparr>, r)" "r = DD_OK \<or> r = DD_ERR_NOMEM"
    "unat (pt_cap pt) \<le> unat c" "r = DD_OK \<Longrightarrow> need \<le> c"
proof (cases "need \<le> pt_cap pt")
  case True
  then have "pc_reserve ok pt need = Some (pt\<lparr>pt_cap := pt_cap pt\<rparr>, DD_OK)" by (simp add: pc_reserve_def)
  then show thesis using that True by blast
next
  case False
  from grow_doubled[OF False assms, of 16] obtain nc where
    nc: "grow_cap (if pt_cap pt \<noteq> 0 then pt_cap pt * 2 else 16) need = Some nc" "need \<le> nc" and le: "unat (pt_cap pt) \<le> unat nc"
    by auto
  show thesis
  proof (cases ok)
    case True
    then have "pc_reserve ok pt need = Some (pt\<lparr>pt_cap := nc\<rparr>, DD_OK)" using False nc(1) by (simp add: pc_reserve_def)
    then show thesis using that le nc(2) by blast
  next
    case F3: False
    have "pc_reserve ok pt need = Some (pt\<lparr>pt_cap := pt_cap pt\<rparr>, DD_ERR_NOMEM)" using False F3 nc(1) by (simp add: pc_reserve_def)
    then show thesis using that by blast
  qed
qed
lemma piece_split:
  assumes "piece_ok pt p" "unat w \<le> unat (pc_len p)" "length (pt_orig pt) < 2 ^ 32" "length (pt_add pt) < 2 ^ 32"
  shows "piece_ok pt (p\<lparr>pc_len := w\<rparr>)" "piece_bytes pt (p\<lparr>pc_len := w\<rparr>) = take (unat w) (piece_bytes pt p)"
    "piece_ok pt (p\<lparr>pc_off := pc_off p + w, pc_len := pc_len p - w\<rparr>)"
    "piece_bytes pt (p\<lparr>pc_off := pc_off p + w, pc_len := pc_len p - w\<rparr>) = drop (unat w) (piece_bytes pt p)"
proof -
  have b: "pc_base pt (p\<lparr>pc_len := x\<rparr>) = pc_base pt p" "pc_base pt (p\<lparr>pc_off := y, pc_len := x\<rparr>) = pc_base pt p" for x y
    by (simp_all add: pc_base_def)
  have k: "pc_src p \<le> 1" "unat (pc_off p) + unat (pc_len p) \<le> length (pc_base pt p)"
    using assms(1) by (simp_all add: piece_ok_def)
  have "length (pc_base pt p) < 4294967296" using assms(3,4) by (simp add: pc_base_def)
  then have o: "unat (pc_off p + w) = unat (pc_off p) + unat w" using k(2) assms(2) by (simp add: unat_add_u32)
  have l: "unat (pc_len p - w) = unat (pc_len p) - unat w" using assms(2) by (simp add: unat_sub word_le_nat_alt)
  show "piece_ok pt (p\<lparr>pc_len := w\<rparr>)" using k assms(2) by (simp add: piece_ok_def b)
  show "piece_bytes pt (p\<lparr>pc_len := w\<rparr>) = take (unat w) (piece_bytes pt p)"
    using assms(2) by (simp add: piece_bytes_def b min_absorb1)
  show "piece_ok pt (p\<lparr>pc_off := pc_off p + w, pc_len := pc_len p - w\<rparr>)" using k assms(2) by (simp add: piece_ok_def b o l)
  show "piece_bytes pt (p\<lparr>pc_off := pc_off p + w, pc_len := pc_len p - w\<rparr>) = drop (unat w) (piece_bytes pt p)"
    using assms(2) by (simp add: piece_bytes_def b o l drop_take) (simp add: add.commute)
qed

lemma piece_as_update: "\<lparr>pc_src = pc_src p, pc_off = x, pc_len = y\<rparr> = p\<lparr>pc_off := x, pc_len := y\<rparr>"
  by simp

lemma splice_facts:
  assumes "list_all (piece_ok pt) ps" "piece_ok pt newp" "i \<le> length ps" "i < length ps \<Longrightarrow> unat w < unat (pc_len (ps ! i))"
    and "length (pt_orig pt) < 2 ^ 32" "length (pt_add pt) < 2 ^ 32"
  shows "list_all (piece_ok pt) (splice i w newp ps)"
    "bytes_of pt (splice i w newp ps) = bytes_of pt (take i ps) @ (if i < length ps then take (unat w) (piece_bytes pt (ps ! i)) else [])
       @ piece_bytes pt newp @ (if i < length ps then drop (unat w) (piece_bytes pt (ps ! i)) @ bytes_of pt (drop (Suc i) ps) else [])"
    "length (splice i w newp ps) = length ps + (if i \<ge> length ps \<or> w = 0 then 1 else 2)"
proof -
  have td: "list_all (piece_ok pt) (take j ps)" "list_all (piece_ok pt) (drop j ps)" for j
    using assms(1) by (auto simp: list_all_iff dest: in_set_takeD in_set_dropD)
  have "list_all (piece_ok pt) (splice i w newp ps) \<and>
    bytes_of pt (splice i w newp ps) = bytes_of pt (take i ps) @ (if i < length ps then take (unat w) (piece_bytes pt (ps ! i)) else [])
       @ piece_bytes pt newp @ (if i < length ps then drop (unat w) (piece_bytes pt (ps ! i)) @ bytes_of pt (drop (Suc i) ps) else []) \<and>
    length (splice i w newp ps) = length ps + (if i \<ge> length ps \<or> w = 0 then 1 else 2)"
  proof (cases "i < length ps")
    case False
    then show ?thesis using assms by (simp add: splice_def)
  next
    case i: True
    show ?thesis
    proof (cases "w = 0")
      case True
      have "bytes_of pt (drop i ps) = piece_bytes pt (ps ! i) @ bytes_of pt (drop (Suc i) ps)"
        using Cons_nth_drop_Suc[OF i] by (metis bytes_of_simps(2))
      then show ?thesis using i True td assms(2) by (simp add: splice_def)
    next
      case False
      have ok: "piece_ok pt (ps ! i)" using assms(1) i by (simp add: list_all_length)
      have w: "unat w \<le> unat (pc_len (ps ! i))" using assms(4)[OF i] by simp
      note S = piece_split[OF ok w assms(5,6)]
      have "splice i w newp ps = take i ps @ [(ps ! i)\<lparr>pc_len := w\<rparr>, newp,
          (ps ! i)\<lparr>pc_off := pc_off (ps ! i) + w, pc_len := pc_len (ps ! i) - w\<rparr>] @ drop (Suc i) ps"
        using i False by (simp add: splice_def Let_def piece_as_update)
      then show ?thesis using i False S td assms(2) by simp
    qed
  qed
  then show "list_all (piece_ok pt) (splice i w newp ps)"
    "bytes_of pt (splice i w newp ps) = bytes_of pt (take i ps) @ (if i < length ps then take (unat w) (piece_bytes pt (ps ! i)) else [])
       @ piece_bytes pt newp @ (if i < length ps then drop (unat w) (piece_bytes pt (ps ! i)) @ bytes_of pt (drop (Suc i) ps) else [])"
    "length (splice i w newp ps) = length ps + (if i \<ge> length ps \<or> w = 0 then 1 else 2)" by blast+
qed

lemma extend_facts:
  assumes "list_all (piece_ok pt) (pt_pc pt)" "i < length (pt_pc pt)" "continues pt i f" "unat f + length data = length (pt_add pt)"
    and "drop (unat f) (pt_add pt) = data" "length (pt_add pt) < 2 ^ 32"
  defines "pt' \<equiv> extend_piece i (of_nat (length data)) pt"
  shows "list_all (piece_ok pt') (pt_pc pt')" "length (pt_pc pt') = length (pt_pc pt)"
    "pt_text pt' = bytes_of pt (take (Suc i) (pt_pc pt)) @ data @ bytes_of pt (drop (Suc i) (pt_pc pt))"
proof -
  let ?p = "pt_pc pt ! i" and ?n = "of_nat (length data) :: u32"
  have ok: "piece_ok pt ?p" using assms(1,2) by (simp add: list_all_length)
  have s1: "pc_src ?p = 1" and fo: "pc_off ?p + pc_len ?p = f" using assms(3) by (simp_all add: continues_def)
  have base: "pc_base pt ?p = pt_add pt" using s1 by (simp add: pc_base_def)
  have b: "unat (pc_off ?p) + unat (pc_len ?p) \<le> length (pt_add pt)" using ok base by (simp add: piece_ok_def)
  then have fu: "unat f = unat (pc_off ?p) + unat (pc_len ?p)" using fo assms(6) unat_add_u32[of "pc_off ?p" "pc_len ?p"] by simp
  have n: "unat ?n = length data" using assms(4,6) by (simp add: unat_of_nat_u32)
  have l: "unat (pc_len ?p + ?n) = unat (pc_len ?p) + length data" using n fu assms(4,6) by (simp add: unat_add_u32)
  let ?q = "?p\<lparr>pc_len := pc_len ?p + ?n\<rparr>"
  have fields: "pt_orig pt' = pt_orig pt" "pt_add pt' = pt_add pt @ []" "pt_pc pt' = (pt_pc pt)[i := ?q]"
    by (simp_all add: pt'_def extend_piece_def)
  note G = bytes_grown[OF fields(1,2)]
  have q: "piece_ok pt' ?q" using ok base l fu assms(4) s1 fields(2) by (simp add: piece_ok_def pc_base_def)
  have qb: "piece_bytes pt' ?q = piece_bytes pt ?p @ data"
  proof -
    have "pc_base pt' ?q = pt_add pt" using s1 fields(2) by (simp add: pc_base_def)
    then have "piece_bytes pt' ?q = take (unat (pc_len ?p) + length data) (drop (unat (pc_off ?p)) (pt_add pt))"
      by (simp add: piece_bytes_def l)
    also have "\<dots> = take (unat (pc_len ?p)) (drop (unat (pc_off ?p)) (pt_add pt)) @ take (length data) (drop (unat f) (pt_add pt))"
      by (simp add: take_add fu) (simp add: add.commute)
    finally show ?thesis using assms(5) by (simp add: piece_bytes_def base)
  qed
  have td: "list_all (piece_ok pt) (take j (pt_pc pt))" "list_all (piece_ok pt) (drop j (pt_pc pt))" for j
    using assms(1) by (auto simp: list_all_iff dest: in_set_takeD in_set_dropD)
  have up: "pt_pc pt' = take i (pt_pc pt) @ ?q # drop (Suc i) (pt_pc pt)"
    using fields(3) assms(2) by (simp add: upd_conv_take_nth_drop)
  show "list_all (piece_ok pt') (pt_pc pt')" unfolding up using q G[OF td(1)] G[OF td(2)] by simp
  show "length (pt_pc pt') = length (pt_pc pt)" using fields(3) by simp
  have "bytes_of pt (take (Suc i) (pt_pc pt)) = bytes_of pt (take i (pt_pc pt)) @ piece_bytes pt ?p"
    using assms(2) by (simp add: take_Suc_conv_app_nth)
  then show "pt_text pt' = bytes_of pt (take (Suc i) (pt_pc pt)) @ data @ bytes_of pt (drop (Suc i) (pt_pc pt))"
    unfolding pt_text_bytes up using qb G[OF td(1), of i] G[OF td(2), of "Suc i"] by simp
qed
text \<open>A state after an insertion or its refusal: consistent, with the add buffer grown at its end.\<close>

lemma pt_invI:
  assumes "list_all (piece_ok pt) (pt_pc pt)" "unat (pt_total pt) = length (pt_text pt)" "unat (pt_add_len pt) = length (pt_add pt)"
    "length (pt_add pt) \<le> unat (pt_add_cap pt)" "length (pt_orig pt) < 2 ^ 32" "length (pt_pc pt) \<le> unat (pt_cap pt)"
  shows "pt_inv pt"
  using assms by (simp add: pt_inv_def)

lemma same_buffers:
  assumes "pt_orig pt' = pt_orig pt" "pt_add pt' = pt_add pt"
  shows "piece_ok pt' = piece_ok pt" "piece_bytes pt' = piece_bytes pt" "bytes_of pt' = bytes_of pt"
proof -
  have b: "pc_base pt' = pc_base pt" by (rule ext) (simp add: pc_base_def assms)
  show "piece_ok pt' = piece_ok pt" by (rule ext) (simp add: piece_ok_def b)
  show "piece_bytes pt' = piece_bytes pt" by (rule ext) (simp add: piece_bytes_def b)
  then show "bytes_of pt' = bytes_of pt" by (intro ext) (simp only: bytes_of_def)
qed

lemma insert_extend:
  assumes "pt_inv pt" "i < length (pt_pc pt)" "continues pt i f" "unat f + length data = length (pt_add pt)" "drop (unat f) (pt_add pt) = data"
    and "length (pt_text pt) + length data < 2 ^ 32" "pt_find pt pos = (Suc i, 0)" "unat pos \<le> length (pt_text pt)"
  defines "pt' \<equiv> extend_piece i (of_nat (length data)) pt"
  shows "pt_inv pt' \<and> pt_text pt' = take (unat pos) (pt_text pt) @ data @ drop (unat pos) (pt_text pt)"
proof -
  note I = pt_invD[OF assms(1)]
  note E = extend_facts[OF I(1) assms(2-5) I(8), folded pt'_def]
  note T = pt_find_text[OF I(1,2) assms(8,7)]
  have tk: "take (unat pos) (pt_text pt) = bytes_of pt (take (Suc i) (pt_pc pt))" using T(1) by simp
  have dr: "drop (unat pos) (pt_text pt) = bytes_of pt (drop (Suc i) (pt_pc pt))"
  proof (cases "Suc i < length (pt_pc pt)")
    case True
    then show ?thesis using T(2) Cons_nth_drop_Suc[OF True] by (metis bytes_of_simps(2) drop0 unat_0)
  qed (use T(2) in simp)
  have tx: "pt_text pt' = take (unat pos) (pt_text pt) @ data @ drop (unat pos) (pt_text pt)" using E(3) tk dr by simp
  have "length data < 4294967296" using assms(6) by simp
  then have "unat (pt_total pt + of_nat (length data)) = length (pt_text pt) + length data"
    using I(3) assms(6) by (simp add: unat_add_u32 unat_of_nat_u32)
  then have "unat (pt_total pt') = length (pt_text pt')" using tx assms(8) by (simp add: pt'_def extend_piece_def)
  then have "pt_inv pt'" using E(1,2) I by (intro pt_invI) (simp_all add: pt'_def extend_piece_def)
  then show ?thesis using tx by simp
qed

lemma insert_splice:
  assumes "pt_inv pt" "unat f + length data = length (pt_add pt)" "drop (unat f) (pt_add pt) = data"
    and "length (pt_text pt) + length data < 2 ^ 32" "pt_find pt pos = (i, w)" "unat pos \<le> length (pt_text pt)"
    and "unat (pt_npc pt + (if i \<ge> length (pt_pc pt) \<or> w = 0 then 1 else 2)) \<le> unat c" "length (pt_pc pt) < 2147483640"
  defines "pt' \<equiv> pt\<lparr>pt_cap := c, pt_pc := splice i w \<lparr>pc_src = 1, pc_off = f, pc_len = of_nat (length data)\<rparr> (pt_pc pt),
       pt_total := pt_total pt + of_nat (length data)\<rparr>"
  shows "pt_inv pt' \<and> pt_text pt' = take (unat pos) (pt_text pt) @ data @ drop (unat pos) (pt_text pt)"
proof -
  note I = pt_invD[OF assms(1)]
  note F = pt_find_facts[OF I(1,2) assms(6,5)]
  note T = pt_find_text[OF I(1,2) assms(6,5)]
  let ?p = "\<lparr>pc_src = 1, pc_off = f, pc_len = of_nat (length data)\<rparr>"
  have n: "unat (of_nat (length data) :: u32) = length data" using assms(4) by (simp add: unat_of_nat_u32)
  have pok: "piece_ok pt ?p" using assms(2) n by (simp add: piece_ok_def pc_base_def)
  have pb: "piece_bytes pt ?p = data" using assms(2,3) n by (simp add: piece_bytes_def pc_base_def)
  note S = splice_facts[OF I(1) pok F(1,2) I(7,8)]
  have same: "piece_ok pt' = piece_ok pt" "bytes_of pt' = bytes_of pt"
    by (rule same_buffers; simp add: pt'_def)+
  have tx: "pt_text pt' = take (unat pos) (pt_text pt) @ data @ drop (unat pos) (pt_text pt)"
    unfolding pt_text_bytes[of pt'] same T using S(2) pb by (simp add: pt'_def)
  have "unat (pt_total pt') = length (pt_text pt')"
    using tx I(3) n assms(4,6) by (simp add: pt'_def unat_add_u32)
  moreover have "unat (pt_npc pt + (if i \<ge> length (pt_pc pt) \<or> w = 0 then 1 else 2)) =
      length (pt_pc pt) + (if i \<ge> length (pt_pc pt) \<or> w = 0 then 1 else 2)"
    using I(9) assms(8) by (simp add: unat_add_u32)
  then have "length (pt_pc pt') \<le> unat c" using S(3) assms(7) by (simp add: pt'_def)
  ultimately have "pt_inv pt'" using S(1) same I by (intro pt_invI) (simp_all add: pt'_def)
  then show ?thesis using tx by simp
qed

lemma pt_insert_facts:
  assumes "pt_inv pt" "unat pos \<le> length (pt_text pt)" "length (pt_text pt) + length data < 2 ^ 32"
    and "length (pt_add pt) + length data \<le> 2147483648" "length (pt_pc pt) < 2147483640"
  shows "\<exists>pt' r. pt_insert ok1 ok2 pt pos data = Some (pt', r) \<and> pt_inv pt' \<and> pt_orig pt' = pt_orig pt \<and> (\<exists>xs. pt_add pt' = pt_add pt @ xs) \<and>
     (if r = DD_OK then pt_text pt' = take (unat pos) (pt_text pt) @ data @ drop (unat pos) (pt_text pt)
      else r = DD_ERR_NOMEM \<and> pt_text pt' = pt_text pt)"
proof -
  note I = pt_invD[OF assms(1)]
  let ?n = "of_nat (length data) :: u32"
  have rng: "\<not> pos > pt_total pt" using assms(2) I(3) by (simp add: not_less word_le_nat_alt)
  have n: "unat ?n = length data" using assms(3) by (simp add: unat_of_nat_u32)
  show ?thesis
  proof (cases "data = []")
    case True
    then show ?thesis using rng assms(1) by (simp add: pt_insert_def)
  next
    case False
    then have n0: "?n \<noteq> 0" using n by (metis length_0_conv unat_0)
    obtain pt1 a where A: "add_append ok1 pt data = Some (pt1, a)" "pt_inv pt1" "pt_pc pt1 = pt_pc pt" "pt_total pt1 = pt_total pt"
      "pt_text pt1 = pt_text pt" "pt_cap pt1 = pt_cap pt" "pt_orig pt1 = pt_orig pt"
      "case a of None \<Rightarrow> pt1 = pt | Some f \<Rightarrow> unat f = length (pt_add pt) \<and> pt_add pt1 = pt_add pt @ data"
      using add_append_facts[OF assms(1,4)] by metis
    show ?thesis
    proof (cases a)
      case None
      then show ?thesis using A(1,8) rng n0 assms(1) by (simp add: pt_insert_def Let_def)
    next
      case (Some f)
      have f: "unat f = length (pt_add pt)" "pt_add pt1 = pt_add pt @ data" using A(8) Some by simp_all
      obtain i w where fw: "pt_find pt1 pos = (i, w)" by fastforce
      have h: "unat f + length data = length (pt_add pt1)" "drop (unat f) (pt_add pt1) = data"
        "length (pt_text pt1) + length data < 2 ^ 32" "unat pos \<le> length (pt_text pt1)"
        using f A(5) assms(2,3) by simp_all
      note I1 = pt_invD[OF A(2)]
      note F = pt_find_facts[OF I1(1,2) h(4) fw]
      have unf: "pt_insert ok1 ok2 pt pos data =
        (if i > 0 \<and> w = 0 \<and> continues pt1 (i - 1) f then Some (extend_piece (i - 1) ?n pt1, DD_OK)
         else if pos = pt_total pt1 \<and> pt_npc pt1 > 0 \<and> continues pt1 (length (pt_pc pt1) - 1) f
         then Some (extend_piece (length (pt_pc pt1) - 1) ?n pt1, DD_OK)
         else do { (pt2, r) \<leftarrow> pc_reserve ok2 pt1 (pt_npc pt1 + (if i \<ge> length (pt_pc pt1) \<or> w = 0 then 1 else 2));
                   Some (if r \<noteq> DD_OK then (pt2, DD_ERR_NOMEM)
                         else (pt2\<lparr>pt_pc := splice i w \<lparr>pc_src = 1, pc_off = f, pc_len = ?n\<rparr> (pt_pc pt2),
                                   pt_total := pt_total pt2 + ?n\<rparr>, DD_OK)) })"
        using rng n0 A(1) Some fw by (simp add: pt_insert_def Let_def)
      have keep: "pt_orig (extend_piece j ?n pt1) = pt_orig pt \<and> pt_add (extend_piece j ?n pt1) = pt_add pt @ data" for j
        using A(7) f(2) by (simp add: extend_piece_def)
      consider (1) "i > 0 \<and> w = 0 \<and> continues pt1 (i - 1) f"
        | (2) "\<not> (i > 0 \<and> w = 0 \<and> continues pt1 (i - 1) f)" "pos = pt_total pt1 \<and> pt_npc pt1 > 0 \<and> continues pt1 (length (pt_pc pt1) - 1) f"
        | (3) "\<not> (i > 0 \<and> w = 0 \<and> continues pt1 (i - 1) f)" "\<not> (pos = pt_total pt1 \<and> pt_npc pt1 > 0 \<and> continues pt1 (length (pt_pc pt1) - 1) f)"
        by blast
      then show ?thesis
      proof cases
        case 1
        then obtain k where k: "i = Suc k" "k < length (pt_pc pt1)" "continues pt1 k f" "w = 0"
          using F(1) by (cases i) auto
        have "pt_inv (extend_piece (i - 1) ?n pt1) \<and>
            pt_text (extend_piece (i - 1) ?n pt1) = take (unat pos) (pt_text pt1) @ data @ drop (unat pos) (pt_text pt1)"
          using insert_extend[OF A(2) k(2,3) h(1-3) _ h(4)] fw k by simp
        then show ?thesis using unf 1 A(5) keep by auto
      next
        case 2
        have "0 < length (pt_pc pt1)" using 2(2) I1(9) by (simp add: word_less_nat_alt)
        moreover have "i = length (pt_pc pt1) \<and> w = 0"
        proof (rule ccontr)
          assume "\<not> (i = length (pt_pc pt1) \<and> w = 0)"
          then have "i < length (pt_pc pt1)" using F(1,3) by (metis le_neq_implies_less)
          then have "unat w < length (piece_bytes pt1 (pt_pc pt1 ! i))" "drop (unat pos) (pt_text pt1) \<noteq> []"
            using F(2) I1(1) pt_find_text(2)[OF I1(1,2) h(4) fw] by (simp_all add: piece_bytes_length list_all_length)
          then show False using 2(2) I1(3) by simp
        qed
        ultimately show ?thesis using 2 by simp
      next
        case 3
        let ?need = "pt_npc pt1 + (if i \<ge> length (pt_pc pt1) \<or> w = 0 then 1 else 2)"
        have unf3: "pt_insert ok1 ok2 pt pos data = do { (pt2, r) \<leftarrow> pc_reserve ok2 pt1 ?need;
                   Some (if r \<noteq> DD_OK then (pt2, DD_ERR_NOMEM)
                         else (pt2\<lparr>pt_pc := splice i w \<lparr>pc_src = 1, pc_off = f, pc_len = ?n\<rparr> (pt_pc pt2),
                                   pt_total := pt_total pt2 + ?n\<rparr>, DD_OK)) }"
          unfolding unf if_not_P[OF 3(1)] if_not_P[OF 3(2)] ..
        have "unat ?need \<le> 2147483648" using I1(9) A(3) assms(5) by (simp add: unat_add_u32)
        then have "?need \<le> 0x80000000" by (simp add: word_le_nat_alt)
        then obtain c r where c: "pc_reserve ok2 pt1 ?need = Some (pt1\<lparr>pt_cap := c\<rparr>, r)" "r = DD_OK \<or> r = DD_ERR_NOMEM"
          "unat (pt_cap pt1) \<le> unat c" "r = DD_OK \<Longrightarrow> ?need \<le> c" using pc_reserve_facts by metis
        show ?thesis
        proof (cases "r = DD_OK")
          case True
          let ?pt' = "pt1\<lparr>pt_cap := c, pt_pc := splice i w \<lparr>pc_src = 1, pc_off = f, pc_len = ?n\<rparr> (pt_pc pt1), pt_total := pt_total pt1 + ?n\<rparr>"
          have "unat ?need \<le> unat c" using c(4)[OF True] by (simp add: word_le_nat_alt)
          then have "pt_inv ?pt' \<and> pt_text ?pt' = take (unat pos) (pt_text pt1) @ data @ drop (unat pos) (pt_text pt1)"
            using insert_splice[OF A(2) h(1-3) fw h(4), of c] A(3) assms(5) by simp
          moreover have "pt_insert ok1 ok2 pt pos data = Some (?pt', DD_OK)" using unf3 c(1) True by simp
          ultimately show ?thesis using A(5,7) f(2) by auto
        next
          case False
          have "pt_insert ok1 ok2 pt pos data = Some (pt1\<lparr>pt_cap := c\<rparr>, DD_ERR_NOMEM)" using unf3 c(1) False by simp
          moreover have "pt_text (pt1\<lparr>pt_cap := c\<rparr>) = pt_text pt" "pt_inv (pt1\<lparr>pt_cap := c\<rparr>)"
          proof -
            have same: "piece_ok (pt1\<lparr>pt_cap := c\<rparr>) = piece_ok pt1" "bytes_of (pt1\<lparr>pt_cap := c\<rparr>) = bytes_of pt1"
              by (rule same_buffers; simp)+
            show t: "pt_text (pt1\<lparr>pt_cap := c\<rparr>) = pt_text pt" using A(5) same(2) by (simp add: pt_text_bytes)
            show "pt_inv (pt1\<lparr>pt_cap := c\<rparr>)" using I1 c(3) same(1) t A(5) by (intro pt_invI) simp_all
          qed
          ultimately show ?thesis using A(7) f(2) by auto
        qed
      qed
    qed
  qed
qed
section \<open>Reading\<close>

lemma get_loop_text:
  assumes "list_all (piece_ok pt) ps" "fin \<le> n" "ps \<noteq> [] \<Longrightarrow> unat w \<le> unat (pc_len (hd ps))" "ps = [] \<Longrightarrow> w = 0"
    and "length (pt_orig pt) < 2 ^ 32" "length (pt_add pt) < 2 ^ 32"
  shows "get_loop pt ps w n fin = take (unat n - unat fin) (drop (unat w) (bytes_of pt ps))"
  using assms
proof (induction pt ps w n fin rule: get_loop.induct)
  case (2 pt p ps w n fin)
  show ?case
  proof (cases "fin < n")
    case False
    then have "unat n - unat fin = 0" by (simp add: not_less word_le_nat_alt)
    then show ?thesis using False by simp
  next
    case True
    let ?avail = "pc_len p - w"
    let ?tk = "if ?avail < n - fin then ?avail else n - fin"
    have ok: "piece_ok pt p" "list_all (piece_ok pt) ps" and wl: "unat w \<le> unat (pc_len p)" using 2(2,4) by simp_all
    have av: "unat ?avail = unat (pc_len p) - unat w" using wl by (simp add: unat_sub word_le_nat_alt)
    have nf: "unat (n - fin) = unat n - unat fin" using True by (simp add: unat_sub)
    have tk: "unat ?tk = min (unat (pc_len p) - unat w) (unat n - unat fin)"
      using av nf by (simp add: word_less_nat_alt min_def)
    have ft: "unat (fin + ?tk) = unat fin + unat ?tk"
      using tk True unat_lt_u32[of n] unat_add_u32[of fin ?tk] by (simp add: word_less_nat_alt del: unat_lt_u32)
    have le: "fin + ?tk \<le> n" using ft tk True by (simp add: word_le_nat_alt word_less_nat_alt)
    have ow: "unat (pc_off p + w) = unat (pc_off p) + unat w"
      using ok(1) wl 2(6,7) by (auto simp: piece_ok_def pc_base_def intro!: unat_add_u32 split: if_splits)
    have seg: "take (unat ?tk) (drop (unat (pc_off p + w)) (pc_base pt p)) = take (unat ?tk) (drop (unat w) (piece_bytes pt p))"
      unfolding ow piece_bytes_def using tk wl by (simp add: drop_take min_absorb1 add.commute)
    have IH: "get_loop pt ps 0 n (fin + ?tk) = take (unat n - unat (fin + ?tk)) (bytes_of pt ps)"
      using 2(1)[OF True refl refl ok(2) le _ _ 2(6,7)] by simp
    have lb: "length (drop (unat w) (piece_bytes pt p)) = unat (pc_len p) - unat w" using ok(1) by (simp add: piece_bytes_length)
    have un: "get_loop pt (p # ps) w n fin =
        take (unat ?tk) (drop (unat (pc_off p + w)) (pc_base pt p)) @ get_loop pt ps 0 n (fin + ?tk)"
      using True by (simp add: Let_def)
    have "take (unat n - unat fin) (drop (unat w) (bytes_of pt (p # ps))) =
        take (unat n - unat fin) (drop (unat w) (piece_bytes pt p)) @ take (unat n - unat fin - (unat (pc_len p) - unat w)) (bytes_of pt ps)"
      using lb wl ok(1) by (simp add: piece_bytes_length)
    also have "take (unat n - unat fin) (drop (unat w) (piece_bytes pt p)) = take (unat ?tk) (drop (unat w) (piece_bytes pt p))"
      using lb tk by (simp add: min_def)
    also have "unat n - unat fin - (unat (pc_len p) - unat w) = unat n - unat (fin + ?tk)"
      unfolding ft tk by arith
    finally show ?thesis unfolding un seg IH by simp
  qed
qed simp

lemma pt_get_text_facts:
  assumes "pt_inv pt"
  shows "pt_get_text pt pos n cap = take (min (unat n) (unat cap)) (drop (unat pos) (pt_text pt))"
proof (cases "pos > pt_total pt")
  case True
  then show ?thesis using pt_invD(3)[OF assms] by (simp add: pt_get_text_def word_less_nat_alt)
next
  case False
  note I = pt_invD[OF assms]
  have le: "unat pos \<le> length (pt_text pt)" using False I(3) by (simp add: not_less word_le_nat_alt)
  obtain i w where f: "pt_find pt pos = (i, w)" by fastforce
  note F = pt_find_facts[OF I(1,2) le f]
  let ?n1 = "if pos + n > pt_total pt then pt_total pt - pos else n"
  let ?n2 = "if ?n1 > cap then cap else ?n1"
  have n1: "unat (pt_total pt - pos) = length (pt_text pt) - unat pos"
    using False I(3) by (simp add: unat_sub not_less)
  have "get_loop pt (drop i (pt_pc pt)) w ?n2 0 = take (unat ?n2 - unat (0 :: u32)) (drop (unat w) (bytes_of pt (drop i (pt_pc pt))))"
  proof (rule get_loop_text)
    show "list_all (piece_ok pt) (drop i (pt_pc pt))" using I(1) by (auto simp: list_all_iff dest: in_set_dropD)
    show "drop i (pt_pc pt) \<noteq> [] \<Longrightarrow> unat w \<le> unat (pc_len (hd (drop i (pt_pc pt))))" using F(2) by (simp add: hd_drop_conv_nth)
    show "drop i (pt_pc pt) = [] \<Longrightarrow> w = 0" using F(1,3) by simp
  qed (use I(7,8) in simp_all)
  also have "drop (unat w) (bytes_of pt (drop i (pt_pc pt))) = drop (unat pos) (pt_text pt)"
  proof -
    have "pt_text pt = bytes_of pt (take i (pt_pc pt)) @ bytes_of pt (drop i (pt_pc pt))"
      unfolding pt_text_bytes by (metis append_take_drop_id bytes_of_simps(3))
    then show ?thesis using F(4) by simp
  qed
  also have "take (unat ?n2 - unat (0 :: u32)) (drop (unat pos) (pt_text pt)) = take (min (unat n) (unat cap)) (drop (unat pos) (pt_text pt))"
  proof -
    have c: "unat ?n2 = min (unat ?n1) (unat cap)" by (simp add: min_def word_less_nat_alt)
    have "pos + n > pt_total pt \<Longrightarrow> length (pt_text pt) - unat pos \<le> unat n"
    proof (rule ccontr)
      assume gt: "pos + n > pt_total pt" and "\<not> length (pt_text pt) - unat pos \<le> unat n"
      then have "unat pos + unat n < length (pt_text pt)" by linarith
      moreover from this have "unat (pos + n) = unat pos + unat n" using I(2) by (simp add: unat_add_u32)
      ultimately show False using gt I(3) by (simp add: word_less_nat_alt)
    qed
    then show ?thesis using c n1 by (cases "pos + n > pt_total pt") (auto simp: min_def)
  qed
  finally show ?thesis using False f by (simp add: pt_get_text_def Let_def)
qed

lemma pt_byte_at_facts:
  assumes "pt_inv pt"
  shows "pt_byte_at pt pos = (if unat pos < length (pt_text pt) then uint (pt_text pt ! unat pos) else -1)"
proof (cases "pos \<ge> pt_total pt")
  case True
  then show ?thesis using pt_invD(3)[OF assms] by (simp add: pt_byte_at_def word_le_nat_alt)
next
  case False
  note I = pt_invD[OF assms]
  have lt: "unat pos < length (pt_text pt)" using False I(3) by (simp add: not_le word_less_nat_alt)
  obtain i w where f: "pt_find pt pos = (i, w)" by fastforce
  note F = pt_find_facts[OF I(1,2) less_imp_le[OF lt] f]
  note T = pt_find_text(2)[OF I(1,2) less_imp_le[OF lt] f]
  have i: "i < length (pt_pc pt)"
  proof (rule ccontr)
    assume "\<not> i < length (pt_pc pt)"
    then show False using T lt by simp
  qed
  let ?p = "pt_pc pt ! i"
  have ok: "piece_ok pt ?p" using I(1) i by (simp add: list_all_length)
  have w: "unat w < unat (pc_len ?p)" using F(2)[OF i] .
  have ow: "unat (pc_off ?p + w) = unat (pc_off ?p) + unat w"
    using ok w I(7,8) by (auto simp: piece_ok_def pc_base_def intro!: unat_add_u32 split: if_splits)
  have "pt_text pt ! unat pos = drop (unat pos) (pt_text pt) ! 0" using lt by simp
  also have "\<dots> = piece_bytes pt ?p ! unat w" unfolding T using i w ok by (simp add: nth_append piece_bytes_length)
  also have "\<dots> = pc_base pt ?p ! unat (pc_off ?p + w)"
    unfolding ow using w ok by (auto simp: piece_bytes_def piece_ok_def)
  finally show ?thesis using False lt f by (simp add: pt_byte_at_def Let_def)
qed
section \<open>Deletion\<close>

lemma pt_find_mono:
  assumes "list_all (piece_ok pt) (pt_pc pt)" "length (pt_text pt) < 2 ^ 32" "unat a \<le> unat b" "unat b \<le> length (pt_text pt)"
    and "pt_find pt a = (i, v)" "pt_find pt b = (j, w)"
  shows "i \<le> j"
proof (rule ccontr)
  assume n: "\<not> i \<le> j"
  have al: "unat a \<le> length (pt_text pt)" using assms(3,4) by simp
  note A = pt_find_facts[OF assms(1,2) al assms(5)] and B = pt_find_facts[OF assms(1,2,4,6)]
  have j: "j < length (pt_pc pt)" using n A(1) by simp
  have "take i (pt_pc pt) = take j (pt_pc pt) @ take (i - j) (drop j (pt_pc pt))" using n by (metis le_add_diff_inverse nat_le_linear take_add)
  moreover have "take (i - j) (drop j (pt_pc pt)) = pt_pc pt ! j # take (i - j - 1) (drop (Suc j) (pt_pc pt))"
    using n j by (simp add: Cons_nth_drop_Suc[symmetric] take_Cons')
  ultimately have "length (bytes_of pt (take i (pt_pc pt))) \<ge> length (bytes_of pt (take j (pt_pc pt))) + length (piece_bytes pt (pt_pc pt ! j))"
    by simp
  moreover have "length (piece_bytes pt (pt_pc pt ! j)) = unat (pc_len (pt_pc pt ! j))"
    using assms(1) j by (simp add: piece_bytes_length list_all_length)
  ultimately show False using A(4) B(4) B(2)[OF j] assms(3) by linarith
qed

lemma cut_pieces_facts:
  assumes "pt_inv pt" "unat a \<le> unat b" "unat b \<le> length (pt_text pt)"
  defines "ps \<equiv> cut_pieces (pt_pc pt) (pt_find pt a) (pt_find pt b)"
  shows "list_all (piece_ok pt) ps" "bytes_of pt ps = take (unat a) (pt_text pt) @ drop (unat b) (pt_text pt)"
    "length ps \<le> length (pt_pc pt) + 2"
proof -
  note I = pt_invD[OF assms(1)]
  obtain i v where fa: "pt_find pt a = (i, v)" by fastforce
  obtain j w where fb: "pt_find pt b = (j, w)" by fastforce
  have al: "unat a \<le> length (pt_text pt)" using assms(2,3) by simp
  note A = pt_find_facts[OF I(1,2) al fa] and B = pt_find_facts[OF I(1,2) assms(3) fb]
  let ?l = "if i < length (pt_pc pt) \<and> v > 0 then [(pt_pc pt ! i)\<lparr>pc_len := v\<rparr>] else []"
  let ?r = "if j < length (pt_pc pt) \<and> w > 0
    then [(pt_pc pt ! j)\<lparr>pc_off := pc_off (pt_pc pt ! j) + w, pc_len := pc_len (pt_pc pt ! j) - w\<rparr>] else []"
  let ?t = "drop (j + (if w > 0 then 1 else 0)) (pt_pc pt)"
  have ps: "ps = take i (pt_pc pt) @ ?l @ ?r @ ?t" by (simp add: ps_def cut_pieces_def fa fb)
  have ok: "k < length (pt_pc pt) \<Longrightarrow> piece_ok pt (pt_pc pt ! k)" for k using I(1) by (simp add: list_all_length)
  have l: "list_all (piece_ok pt) ?l \<and> bytes_of pt ?l = (if i < length (pt_pc pt) then take (unat v) (piece_bytes pt (pt_pc pt ! i)) else [])"
  proof (cases "v = 0")
    case False
    have "i < length (pt_pc pt) \<Longrightarrow> unat v \<le> unat (pc_len (pt_pc pt ! i))" using A(2) by simp
    then show ?thesis using False piece_split(1,2)[OF ok _ I(7,8), of i v] by (simp add: word_neq_0_conv)
  qed simp
  have r: "list_all (piece_ok pt) ?r \<and> bytes_of pt (?r @ ?t) =
      (if j < length (pt_pc pt) then drop (unat w) (piece_bytes pt (pt_pc pt ! j)) @ bytes_of pt (drop (Suc j) (pt_pc pt)) else [])"
  proof (cases "j < length (pt_pc pt)")
    case True
    show ?thesis
    proof (cases "w = 0")
      case w0: True
      have "bytes_of pt (drop j (pt_pc pt)) = piece_bytes pt (pt_pc pt ! j) @ bytes_of pt (drop (Suc j) (pt_pc pt))"
        using Cons_nth_drop_Suc[OF True] by (metis bytes_of_simps(2))
      then show ?thesis using True w0 by simp
    next
      case False
      then show ?thesis using True piece_split(3,4)[OF ok _ I(7,8), of j w] B(2) by (simp add: word_neq_0_conv)
    qed
  qed simp
  have td: "list_all (piece_ok pt) (take k (pt_pc pt))" "list_all (piece_ok pt) (drop k (pt_pc pt))" for k
    using I(1) by (auto simp: list_all_iff dest: in_set_takeD in_set_dropD)
  show "list_all (piece_ok pt) ps" unfolding ps using l r td by simp
  have "bytes_of pt ps = (bytes_of pt (take i (pt_pc pt)) @ bytes_of pt ?l) @ bytes_of pt (?r @ ?t)" unfolding ps by simp
  then show "bytes_of pt ps = take (unat a) (pt_text pt) @ drop (unat b) (pt_text pt)"
    using l r pt_find_text(1)[OF I(1,2) al fa] pt_find_text(2)[OF I(1,2) assms(3) fb] by simp
  have "i \<le> j" by (rule pt_find_mono[OF I(1,2) assms(2,3) fa fb])
  then show "length ps \<le> length (pt_pc pt) + 2" unfolding ps using A(1) by (auto split: if_splits)
qed

lemma pt_delete_facts:
  assumes "pt_inv pt" "unat pos \<le> length (pt_text pt)" "unat pos + unat n < 2 ^ 32" "length (pt_pc pt) < 2147483640"
  shows "\<exists>pt' r. pt_delete ok pt pos n = (pt', r) \<and> pt_inv pt' \<and> pt_orig pt' = pt_orig pt \<and> pt_add pt' = pt_add pt \<and>
     (if r = DD_OK then pt_text pt' = take (unat pos) (pt_text pt) @ drop (unat pos + unat n) (pt_text pt)
      else r = DD_ERR_NOMEM \<and> pt' = pt)"
proof -
  note I = pt_invD[OF assms(1)]
  have rng: "\<not> pos > pt_total pt" using assms(2) I(3) by (simp add: not_less word_le_nat_alt)
  have s: "unat (pos + n) = unat pos + unat n" using assms(3) by (simp add: unat_add_u32)
  show ?thesis
  proof (cases "n = 0 \<or> \<not> ok")
    case True
    then show ?thesis using rng assms(1) by (auto simp: pt_delete_def Let_def)
  next
    case False
    let ?n1 = "if pos + n > pt_total pt then pt_total pt - pos else n"
    let ?ps = "cut_pieces (pt_pc pt) (pt_find pt pos) (pt_find pt (pos + ?n1))"
    let ?pt' = "pt\<lparr>pt_pc := ?ps, pt_cap := pt_npc pt + 2, pt_total := pt_total pt - ?n1\<rparr>"
    have u: "unat (pos + ?n1) = min (unat pos + unat n) (length (pt_text pt))"
      using s rng I(3) by (auto simp: min_def word_less_nat_alt not_less)
    have "unat ?n1 = unat (pos + ?n1) - unat pos"
      using s rng by (simp add: unat_sub not_less word_le_nat_alt)
    then have n1: "unat ?n1 = min (unat n) (length (pt_text pt) - unat pos)" using u assms(2) by simp
    have le: "unat pos \<le> unat (pos + ?n1)" "unat (pos + ?n1) \<le> length (pt_text pt)" using u assms(2) by simp_all
    note C = cut_pieces_facts[OF assms(1) le]
    have same: "piece_ok ?pt' = piece_ok pt" "bytes_of ?pt' = bytes_of pt" by (rule same_buffers; simp)+
    have tx: "pt_text ?pt' = take (unat pos) (pt_text pt) @ drop (unat pos + unat n) (pt_text pt)"
    proof -
      have "drop (unat (pos + ?n1)) (pt_text pt) = drop (unat pos + unat n) (pt_text pt)" unfolding u by (simp add: min_def)
      then show ?thesis using C(2) same(2) by (simp add: pt_text_bytes[of ?pt'])
    qed
    have "unat (pt_total pt - ?n1) = length (pt_text pt) - unat ?n1"
      using n1 I(3) by (subst unat_sub) (simp_all add: word_le_nat_alt)
    then have "unat (pt_total ?pt') = length (pt_text ?pt')" using tx n1 assms(2) by (simp add: min_def)
    moreover have "unat (pt_npc pt + 2) = length (pt_pc pt) + 2" using I(9) assms(4) by (simp add: unat_add_u32)
    ultimately have "pt_inv ?pt'" using C(1,3) same(1) I by (intro pt_invI) simp_all
    moreover have "pt_delete ok pt pos n = (?pt', DD_OK)" using rng False by (simp add: pt_delete_def Let_def)
    ultimately show ?thesis using tx by simp
  qed
qed

lemma pt_set_original_facts:
  assumes "pt_inv pt" "length data < 2 ^ 32"
  shows "\<exists>pt' r. pt_set_original ok1 ok2 pt data = Some (pt', r) \<and> pt_inv pt' \<and>
     (if r = DD_OK then pt_text pt' = data else r = DD_ERR_NOMEM \<and> pt_text pt' = [])"
proof -
  note I = pt_invD[OF assms(1)]
  have n: "unat (of_nat (length data) :: u32) = length data" using assms(2) by (simp add: unat_of_nat_u32)
  have empty: "pt_inv (pt\<lparr>pt_pc := [], pt_total := 0, pt_orig := xs, pt_cap := c\<rparr>) \<and>
      pt_text (pt\<lparr>pt_pc := [], pt_total := 0, pt_orig := xs, pt_cap := c\<rparr>) = []" if "length xs < 2 ^ 32" for xs c
    using I that by (auto intro!: pt_invI simp: pt_text_def)
  show ?thesis
  proof (cases "data = [] \<or> \<not> ok1")
    case True
    have "pt_inv (pt\<lparr>pt_orig := [], pt_pc := [], pt_total := 0\<rparr>)" "pt_text (pt\<lparr>pt_orig := [], pt_pc := [], pt_total := 0\<rparr>) = []"
      using I by (auto intro!: pt_invI simp: pt_text_def)
    then show ?thesis using True n by (auto simp: pt_set_original_def Let_def)
  next
    case False
    then have n0: "(of_nat (length data) :: u32) \<noteq> 0" using n by (metis length_0_conv unat_0)
    let ?pt2 = "pt\<lparr>pt_pc := [], pt_total := 0, pt_orig := data\<rparr>"
    obtain c r where c: "pc_reserve ok2 ?pt2 1 = Some (?pt2\<lparr>pt_cap := c\<rparr>, r)" "r = DD_OK \<or> r = DD_ERR_NOMEM" "r = DD_OK \<Longrightarrow> 1 \<le> c"
    proof -
      have "(1 :: u32) \<le> 0x80000000" by (simp add: word_le_nat_alt)
      then show ?thesis using that pc_reserve_facts[of 1 ok2 ?pt2] by metis
    qed
    show ?thesis
    proof (cases "r = DD_OK")
      case True
      let ?pt' = "pt\<lparr>pt_orig := data, pt_cap := c, pt_pc := [\<lparr>pc_src = 0, pc_off = 0, pc_len = of_nat (length data)\<rparr>], pt_total := of_nat (length data)\<rparr>"
      have "pt_text ?pt' = data" using n by (simp add: pt_text_def piece_bytes_def pc_base_def)
      moreover have "pt_inv ?pt'"
        using I n assms(2) c(3)[OF True] calculation by (intro pt_invI) (simp_all add: piece_ok_def pc_base_def word_le_nat_alt)
      moreover have "pt_set_original ok1 ok2 pt data = Some (?pt', DD_OK)" using False n0 c(1) True by (simp add: pt_set_original_def Let_def)
      ultimately show ?thesis by simp
    next
      case F2: False
      then show ?thesis using False n0 c(1,2) empty[OF assms(2), of c] by (simp add: pt_set_original_def Let_def)
    qed
  qed
qed
text \<open>Edits after a snapshot only append to the add buffer, so the snapshot still denotes the old text.\<close>

lemma pt_restore_facts:
  assumes "pt_inv pt" "pt_snapshot ok1 pt = Some (ps, total_in)" "pt_inv pt2" "pt_orig pt2 = pt_orig pt" "pt_add pt2 = pt_add pt @ xs"
  shows "pt_restore True ps total_in pt2 \<noteq> None" "pt_restore ok2 ps total_in pt2 = Some pt' \<Longrightarrow>
    pt_inv pt' \<and> pt_text pt' = pt_text pt \<and> pt_orig pt' = pt_orig pt \<and> pt_add pt' = pt_add pt2"
proof -
  note I = pt_invD[OF assms(1)] and J = pt_invD[OF assms(3)]
  have p: "ps = pt_pc pt" "total_in = pt_total pt" using assms(2) by (auto simp: pt_snapshot_def split: if_splits)
  show "pt_restore True ps total_in pt2 \<noteq> None" by (simp add: pt_restore_def)
  assume r: "pt_restore ok2 ps total_in pt2 = Some pt'"
  have f: "pt_orig pt' = pt_orig pt" "pt_add pt' = pt_add pt @ xs" "pt_pc pt' = pt_pc pt" "pt_total pt' = pt_total pt"
    "pt_add_len pt' = pt_add_len pt2" "pt_add_cap pt' = pt_add_cap pt2" "unat (pt_cap pt') = length (pt_pc pt)"
    using r p assms(4,5) I(9) by (auto simp: pt_restore_def pt_npc_def split: if_splits)
  note G = bytes_grown[OF f(1,2) I(1)]
  have t: "pt_text pt' = pt_text pt" using G f(3) by (simp add: pt_text_bytes)
  have "pt_inv pt'" using G f t I(3,7) J(4,5) assms(5) by (intro pt_invI) simp_all
  then show "pt_inv pt' \<and> pt_text pt' = pt_text pt \<and> pt_orig pt' = pt_orig pt \<and> pt_add pt' = pt_add pt2"
    using t f(1,2) assms(5) by simp
qed

lemma pt_init_inv: "pt_inv pt_init" "pt_text pt_init = []"
  by (simp_all add: pt_inv_def pt_init_def pt_text_def)

section \<open>Properties\<close>

text \<open>
  C19: The piece table implements a byte sequence.  On a consistent table an insertion puts the bytes at the position and changes nothing else, or reports that memory
  is out and changes nothing; a deletion removes the range; reading copies the range, cut at the end of the text and at the
  size of the buffer; a single byte is the byte of the text or -1; every step keeps all pieces inside their buffers and the vector inside its allocation.
  The sums that the code forms must stay below \<^verbatim>\<open>2^32\<close>.
\<close>
theorem piece_table_refines:
  assumes "pt_inv pt" "unat pos \<le> length (pt_text pt)" "length (pt_text pt) + length data < 2 ^ 32"
    and "length (pt_add pt) + length data \<le> 2147483648" "length (pt_pc pt) < 2147483640" "unat pos + unat n < 2 ^ 32"
  shows "(\<exists>pt' r. pt_insert ok1 ok2 pt pos data = Some (pt', r) \<and> pt_inv pt' \<and>
      (if r = DD_OK then pt_text pt' = take (unat pos) (pt_text pt) @ data @ drop (unat pos) (pt_text pt)
       else r = DD_ERR_NOMEM \<and> pt_text pt' = pt_text pt)) \<and>
    (\<exists>pt' r. pt_delete ok pt pos n = (pt', r) \<and> pt_inv pt' \<and>
      (if r = DD_OK then pt_text pt' = take (unat pos) (pt_text pt) @ drop (unat pos + unat n) (pt_text pt)
       else r = DD_ERR_NOMEM \<and> pt' = pt)) \<and>
    pt_get_text pt pos m cap = take (min (unat m) (unat cap)) (drop (unat pos) (pt_text pt)) \<and>
    pt_byte_at pt pos = (if unat pos < length (pt_text pt) then uint (pt_text pt ! unat pos) else -1)"
proof (intro conjI)
  show "\<exists>pt' r. pt_insert ok1 ok2 pt pos data = Some (pt', r) \<and> pt_inv pt' \<and>
      (if r = DD_OK then pt_text pt' = take (unat pos) (pt_text pt) @ data @ drop (unat pos) (pt_text pt)
       else r = DD_ERR_NOMEM \<and> pt_text pt' = pt_text pt)"
    using pt_insert_facts[OF assms(1-5), of ok1 ok2] by blast
  show "\<exists>pt' r. pt_delete ok pt pos n = (pt', r) \<and> pt_inv pt' \<and>
      (if r = DD_OK then pt_text pt' = take (unat pos) (pt_text pt) @ drop (unat pos + unat n) (pt_text pt)
       else r = DD_ERR_NOMEM \<and> pt' = pt)"
    using pt_delete_facts[OF assms(1,2,6,5), of ok] by blast
qed (rule pt_get_text_facts[OF assms(1)], rule pt_byte_at_facts[OF assms(1)])

definition pt_example :: piecetable where
  "pt_example = \<lparr>pt_orig = [104, 111], pt_add = [101, 108, 108], pt_add_len = 3, pt_add_cap = 256,
     pt_pc = [\<lparr>pc_src = 0, pc_off = 0, pc_len = 1\<rparr>, \<lparr>pc_src = 1, pc_off = 0, pc_len = 3\<rparr>, \<lparr>pc_src = 0, pc_off = 1, pc_len = 1\<rparr>],
     pt_cap = 16, pt_total = 5\<rparr>"

lemma pt_example_facts: "pt_inv pt_example" "pt_text pt_example = [104, 101, 108, 108, 111]"
  by (simp_all add: pt_inv_def pt_example_def pt_text_def piece_bytes_def pc_base_def piece_ok_def)

theorem piece_table_refines_witness:
  "\<exists>pt' r. pt_insert True True pt_example 5 [33] = Some (pt', r) \<and> pt_inv pt' \<and>
     (if r = DD_OK then pt_text pt' = [104, 101, 108, 108, 111, 33] else r = DD_ERR_NOMEM \<and> pt_text pt' = [104, 101, 108, 108, 111])"
proof -
  have "\<exists>pt' r. pt_insert True True pt_example 5 [33] = Some (pt', r) \<and> pt_inv pt' \<and>
      (if r = DD_OK then pt_text pt' = take (unat (5 :: u32)) (pt_text pt_example) @ [33] @ drop (unat (5 :: u32)) (pt_text pt_example)
       else r = DD_ERR_NOMEM \<and> pt_text pt' = pt_text pt_example)"
    by (rule piece_table_refines[of pt_example 5 "[33]" 1, THEN conjunct1])
      (simp_all add: pt_example_facts, simp_all add: pt_example_def)
  moreover have "take (unat (5 :: u32)) (pt_text pt_example) @ [33] @ drop (unat (5 :: u32)) (pt_text pt_example) = [104, 101, 108, 108, 111, 33]"
    by (simp add: pt_example_facts)
  ultimately show ?thesis unfolding pt_example_facts by metis
qed

text \<open>
  A long deletion writes past the new piece vector.  The end of the range is formed in 32 bits; when it wraps around to a place before the
  position, the length is not cut, the pieces between the two places are kept twice, and when there are more than two of
  them the vector, allocated for two more pieces than before, is overrun.
\<close>
theorem pt_delete_overruns:
  assumes "pos \<le> pt_total pt" "n \<noteq> 0" "pos + n \<le> pt_total pt" "pt_find pt pos = (i0, w0)" "pt_find pt (pos + n) = (i1, w1)"
    and "i1 + 2 < i0" "i0 \<le> length (pt_pc pt)" "unat (pt_npc pt + 2) = length (pt_pc pt) + 2" "pt_delete True pt pos n = (pt', r)"
  shows "r = DD_OK \<and> unat (pt_cap pt') < length (pt_pc pt')"
proof -
  have "pt' = pt\<lparr>pt_pc := cut_pieces (pt_pc pt) (i0, w0) (i1, w1), pt_cap := pt_npc pt + 2, pt_total := pt_total pt - n\<rparr>" "r = DD_OK"
    using assms by (auto simp: pt_delete_def Let_def not_less[symmetric] split: if_splits)
  moreover have "length (pt_pc pt) + 2 < length (cut_pieces (pt_pc pt) (i0, w0) (i1, w1))"
    using assms(6,7) by (auto simp: cut_pieces_def)
  ultimately show ?thesis using assms(8) by simp
qed

theorem pt_delete_overruns_witness:
  "let q = \<lparr>pc_src = 0, pc_off = 0, pc_len = 1\<rparr>;
       pt = \<lparr>pt_orig = [65], pt_add = [], pt_add_len = 0, pt_add_cap = 0, pt_pc = [q, q, q, q], pt_cap = 16, pt_total = 4\<rparr>
   in snd (pt_delete True pt 4 0xFFFFFFFC) = DD_OK \<and>
      unat (pt_cap (fst (pt_delete True pt 4 0xFFFFFFFC))) < length (pt_pc (fst (pt_delete True pt 4 0xFFFFFFFC)))"
proof -
  let ?q = "\<lparr>pc_src = 0, pc_off = 0, pc_len = 1\<rparr>"
  let ?pt = "\<lparr>pt_orig = [65], pt_add = [], pt_add_len = 0, pt_add_cap = 0, pt_pc = [?q, ?q, ?q, ?q], pt_cap = 16, pt_total = 4\<rparr>"
  obtain pt' r where d: "pt_delete True ?pt 4 0xFFFFFFFC = (pt', r)" by fastforce
  have "r = DD_OK \<and> unat (pt_cap pt') < length (pt_pc pt')"
    by (rule pt_delete_overruns[OF _ _ _ _ _ _ _ _ d, where ?i0.0 = 4 and ?w0.0 = 0 and ?i1.0 = 0 and ?w1.0 = 0])
      (simp_all add: pt_find_def pt_npc_def)
  then show ?thesis unfolding Let_def d by simp
qed

end
