(* ===== verification/Runs.thy ===== *)
theory Runs
  imports Piece_Table
begin

text \<open>
  The attribute runs of the document library, \<^verbatim>\<open>libdobdoc/src/runs.c\<close>: a list of lengths with a payload each.  The two
  parallel arrays are one list of pairs, the payload a type variable, and \<^verbatim>\<open>memcmp\<close> on payloads is equality; the
  all-zero payload is an argument, as are the answers of \<^verbatim>\<open>realloc\<close>.

  The theory shows that the operations are editing operations on the sequence that gives
  every byte its payload, and that merging reaches a normal form.
\<close>

record 'a runlist =
  rl_runs :: "(u32 \<times> 'a) list"
  rl_cap :: u32

definition rl_init :: "'a runlist" where
  "rl_init = \<lparr>rl_runs = [], rl_cap = 0\<rparr>"

definition rl_free :: "'a runlist \<Rightarrow> 'a runlist" where
  "rl_free rl = rl_init"

definition rl_n :: "'a runlist \<Rightarrow> u32" where
  "rl_n rl = of_nat (length (rl_runs rl))"

definition rl_reserve :: "bool \<Rightarrow> 'a runlist \<Rightarrow> u32 \<Rightarrow> ('a runlist \<times> dd_result) option" where
  "rl_reserve ok rl need =
     (if need \<le> rl_cap rl then Some (rl, DD_OK)
      else do { nc \<leftarrow> grow_cap (if rl_cap rl \<noteq> 0 then rl_cap rl * 2 else 8) need;
                Some (if ok then (rl\<lparr>rl_cap := nc\<rparr>, DD_OK) else (rl, DD_ERR_NOMEM)) })"

definition rl_payload :: "'a runlist \<Rightarrow> nat \<Rightarrow> 'a" where
  "rl_payload rl i = snd (rl_runs rl ! i)"

definition rl_total :: "'a runlist \<Rightarrow> u32" where
  "rl_total rl = fold (\<lambda>l t. t + l) (List.map fst (rl_runs rl)) 0"

definition rl_reset_single :: "bool \<Rightarrow> 'a runlist \<Rightarrow> u32 \<Rightarrow> 'a \<Rightarrow> ('a runlist \<times> dd_result) option" where
  "rl_reset_single ok rl total_in p =
     do { (rl1, r) \<leftarrow> rl_reserve ok rl 1;
          Some (if r \<noteq> DD_OK then (rl1, DD_ERR_NOMEM) else (rl1\<lparr>rl_runs := [(total_in, p)]\<rparr>, DD_OK)) }"

definition rl_find :: "'a runlist \<Rightarrow> u32 \<Rightarrow> nat \<times> u32" where
  "rl_find rl pos = find_loop pos 0 0 (List.map fst (rl_runs rl))"

text \<open>Without any run the pointer returned is not valid, which is None.\<close>

definition rl_payload_at :: "'a runlist \<Rightarrow> u32 \<Rightarrow> 'a option" where
  "rl_payload_at rl pos =
     (case rl_find rl pos of (idx, within) \<Rightarrow>
        if rl_runs rl = [] then None
        else Some (rl_payload rl (if idx \<ge> length (rl_runs rl) then length (rl_runs rl) - 1 else idx)))"

definition rl_split_at :: "bool \<Rightarrow> 'a runlist \<Rightarrow> u32 \<Rightarrow> ('a runlist \<times> (dd_result + nat)) option" where
  "rl_split_at ok rl pos =
     (case rl_find rl pos of (idx, within) \<Rightarrow>
        if within = 0 then Some (rl, Inr idx)
        else do { (rl1, r) \<leftarrow> rl_reserve ok rl (rl_n rl + 1);
                  Some (if r \<noteq> DD_OK then (rl1, Inl DD_ERR_NOMEM)
                        else (case rl_runs rl1 ! idx of (l, p) \<Rightarrow>
                          (rl1\<lparr>rl_runs := take idx (rl_runs rl1) @ [(within, p), (l - within, p)] @ drop (Suc idx) (rl_runs rl1)\<rparr>,
                           Inr (Suc idx)))) })"

text \<open>The merge writes over the list it reads; what it has written never overtakes what it reads.\<close>

definition merge_step :: "nat \<Rightarrow> u32 \<times> 'a \<Rightarrow> (u32 \<times> 'a) list \<Rightarrow> (u32 \<times> 'a) list" where
  "merge_step n r ws =
     (if fst r = 0 \<and> n > 1 then ws
      else if ws \<noteq> [] \<and> snd (last ws) = snd r then butlast ws @ [(fst (last ws) + fst r, snd (last ws))]
      else ws @ [r])"

definition rl_merge :: "'a runlist \<Rightarrow> 'a runlist" where
  "rl_merge rl =
     (if rl_runs rl = [] then rl
      else let ws = fold (merge_step (length (rl_runs rl))) (rl_runs rl) []
           in rl\<lparr>rl_runs := (if ws = [] then [(0, rl_payload rl 0)] else ws)\<rparr>)"

definition rl_insert :: "'a \<Rightarrow> bool \<Rightarrow> 'a runlist \<Rightarrow> u32 \<Rightarrow> u32 \<Rightarrow> ('a runlist \<times> dd_result) option" where
  "rl_insert zero ok rl pos n =
     (if n = 0 then Some (rl, DD_OK)
      else if rl_runs rl = []
      then do { (rl1, r) \<leftarrow> rl_reserve ok rl 1;
                Some (if r \<noteq> DD_OK then (rl1, DD_ERR_NOMEM) else (rl1\<lparr>rl_runs := [(n, zero)]\<rparr>, DD_OK)) }
      else case rl_find rl pos of (idx, within) \<Rightarrow>
        let i = (if within = 0 \<and> idx > 0 then idx - 1
                 else if idx \<ge> length (rl_runs rl) then length (rl_runs rl) - 1 else idx)
        in Some (rl\<lparr>rl_runs := (rl_runs rl)[i := (fst (rl_runs rl ! i) + n, snd (rl_runs rl ! i))]\<rparr>, DD_OK))"

fun del_loop :: "u32 \<Rightarrow> u32 \<Rightarrow> (u32 \<times> 'a) list \<Rightarrow> (u32 \<times> 'a) list" where
  "del_loop within remaining [] = []"
| "del_loop within remaining ((l, p) # rs) =
     (if remaining > 0
      then let avail = l - within; tk = (if avail < remaining then avail else remaining)
           in (if l - tk = 0 then [] else [(l - tk, p)]) @ del_loop 0 (remaining - tk) rs
      else (l, p) # rs)"

definition rl_delete :: "'a \<Rightarrow> bool \<Rightarrow> 'a runlist \<Rightarrow> u32 \<Rightarrow> u32 \<Rightarrow> ('a runlist \<times> dd_result) option" where
  "rl_delete zero ok rl pos n =
     (if n = 0 then Some (rl, DD_OK)
      else let total_in = rl_total rl
      in if pos \<ge> total_in then Some (rl, DD_OK)
      else let n1 = (if pos + n > total_in then total_in - pos else n)
      in case rl_find rl pos of (idx, within) \<Rightarrow>
         let rl1 = rl_merge (rl\<lparr>rl_runs := take idx (rl_runs rl) @ del_loop within n1 (drop idx (rl_runs rl))\<rparr>)
         in if rl_runs rl1 = []
            then do { (rl2, r) \<leftarrow> rl_reserve ok rl1 1;
                      Some (if r \<noteq> DD_OK then (rl2, DD_ERR_NOMEM) else (rl2\<lparr>rl_runs := [(0, zero)]\<rparr>, DD_OK)) }
            else Some (rl1, DD_OK))"

definition rl_apply :: "bool \<Rightarrow> bool \<Rightarrow> ('a \<Rightarrow> 'a) \<Rightarrow> 'a runlist \<Rightarrow> u32 \<Rightarrow> u32 \<Rightarrow> ('a runlist \<times> dd_result) option" where
  "rl_apply ok1 ok2 fn rl pos n =
     (if n = 0 then Some (rl, DD_OK)
      else do { (rl1, a) \<leftarrow> rl_split_at ok1 rl pos;
        case a of Inl e \<Rightarrow> Some (rl1, DD_ERR_NOMEM)
        | Inr i0 \<Rightarrow> do { (rl2, b) \<leftarrow> rl_split_at ok2 rl1 (pos + n);
            case b of Inl e \<Rightarrow> Some (rl2, DD_ERR_NOMEM)
            | Inr i1 \<Rightarrow>
                let rs = rl_runs rl2
                in Some (rl_merge (rl2\<lparr>rl_runs := List.map (\<lambda>i. if i0 \<le> i \<and> i < i1 then (fst (rs ! i), fn (snd (rs ! i))) else rs ! i)
                                     [0..<length rs]\<rparr>), DD_OK) } })"

definition rl_copy :: "bool \<Rightarrow> 'a runlist \<Rightarrow> ('a runlist \<times> dd_result) option" where
  "rl_copy ok rl =
     (if rl_runs rl = [] then Some (rl_init, DD_OK)
      else do { (d, r) \<leftarrow> rl_reserve ok rl_init (rl_n rl);
                Some (if r \<noteq> DD_OK then (d, DD_ERR_NOMEM) else (d\<lparr>rl_runs := rl_runs rl\<rparr>, DD_OK)) })"

definition rl_push :: "bool \<Rightarrow> 'a runlist \<Rightarrow> u32 \<Rightarrow> 'a \<Rightarrow> ('a runlist \<times> dd_result) option" where
  "rl_push ok rl l p =
     do { (rl1, r) \<leftarrow> rl_reserve ok rl (rl_n rl + 1);
          Some (if r \<noteq> DD_OK then (rl1, DD_ERR_NOMEM) else (rl1\<lparr>rl_runs := rl_runs rl1 @ [(l, p)]\<rparr>, DD_OK)) }"

section \<open>The sequence of payloads\<close>

definition expand :: "(u32 \<times> 'a) list \<Rightarrow> 'a list" where
  "expand rs = concat (List.map (\<lambda>(l, p). replicate (unat l) p) rs)"

lemma expand_simps [simp]:
  "expand [] = []" "expand ((l, p) # rs) = replicate (unat l) p @ expand rs" "expand (rs @ qs) = expand rs @ expand qs"
  by (simp_all add: expand_def)

lemma expand_single: "expand [r] = replicate (unat (fst r)) (snd r)"
  by (cases r) simp

lemma expand_Cons: "expand (r # rs) = replicate (unat (fst r)) (snd r) @ expand rs"
  by (cases r) simp

lemma expand_length: "length (expand rs) = sum_list (List.map unat (List.map fst rs))"
  by (induction rs) (auto simp: expand_Cons)

definition rl_inv :: "'a runlist \<Rightarrow> bool" where
  "rl_inv rl \<longleftrightarrow> length (expand (rl_runs rl)) < 2 ^ 32 \<and> length (rl_runs rl) \<le> unat (rl_cap rl) \<and> rl_runs rl \<noteq> []"

lemma rl_invD:
  assumes "rl_inv rl"
  shows "length (expand (rl_runs rl)) < 2 ^ 32" "length (rl_runs rl) \<le> unat (rl_cap rl)" "rl_runs rl \<noteq> []"
    "unat (rl_n rl) = length (rl_runs rl)" "unat (rl_total rl) = length (expand (rl_runs rl))"
proof -
  show i: "length (expand (rl_runs rl)) < 2 ^ 32" "length (rl_runs rl) \<le> unat (rl_cap rl)" "rl_runs rl \<noteq> []"
    using assms by (simp_all add: rl_inv_def)
  show "unat (rl_n rl) = length (rl_runs rl)"
    unfolding rl_n_def by (rule unat_of_nat_u32) (use i(2) unat_lt_u32[of "rl_cap rl"] in linarith)
  have "unat acc + sum_list (List.map unat ls) < 4294967296 \<Longrightarrow>
      unat (fold (\<lambda>l t. t + l) ls acc) = unat acc + sum_list (List.map unat ls)" for acc :: u32 and ls
  proof (induction ls arbitrary: acc)
    case (Cons l ls)
    have "unat (acc + l) = unat acc + unat l" using Cons.prems by (simp add: unat_add_u32)
    then show ?case using Cons.IH[of "acc + l"] Cons.prems by simp
  qed simp
  from this[of 0 "List.map fst (rl_runs rl)"] show "unat (rl_total rl) = length (expand (rl_runs rl))"
    using i(1) by (simp add: rl_total_def expand_length)
qed

lemma rl_find_facts:
  assumes "rl_inv rl" "unat pos \<le> length (expand (rl_runs rl))" "rl_find rl pos = (i, w)"
  shows "i \<le> length (rl_runs rl)" "i < length (rl_runs rl) \<Longrightarrow> unat w < unat (fst (rl_runs rl ! i))" "i = length (rl_runs rl) \<Longrightarrow> w = 0"
    "unat pos = length (expand (take i (rl_runs rl))) + unat w"
proof -
  let ?ls = "List.map fst (rl_runs rl)"
  note I = rl_invD[OF assms(1)]
  have f: "find_loop pos 0 0 ?ls = (i, w)" using assms(3) by (simp add: rl_find_def)
  have h: "unat (0 :: u32) + sum_list (List.map unat ?ls) < 2 ^ 32" "(0 :: u32) \<le> pos"
    "unat pos \<le> unat (0 :: u32) + sum_list (List.map unat ?ls)"
    using assms(2) I(1) by (simp_all add: expand_length)
  note F = find_loop_facts[OF f h]
  show "i \<le> length (rl_runs rl)" using F(2) by simp
  show "i < length (rl_runs rl) \<Longrightarrow> unat w < unat (fst (rl_runs rl ! i))" using F(4) by simp
  show "i = length (rl_runs rl) \<Longrightarrow> w = 0" using F(4) by simp
  show "unat pos = length (expand (take i (rl_runs rl))) + unat w" using F(3) by (simp add: expand_length take_map)
qed
lemma rl_reserve_facts:
  assumes "need \<le> 0x80000000"
  obtains c r where "rl_reserve ok rl need = Some (rl\<lparr>rl_cap := c\<rparr>, r)" "r = DD_OK \<or> r = DD_ERR_NOMEM"
    "unat (rl_cap rl) \<le> unat c" "r = DD_OK \<Longrightarrow> need \<le> c"
proof (cases "need \<le> rl_cap rl")
  case True
  then have "rl_reserve ok rl need = Some (rl\<lparr>rl_cap := rl_cap rl\<rparr>, DD_OK)" by (simp add: rl_reserve_def)
  then show thesis using that True by blast
next
  case False
  from grow_doubled[OF False assms, of 8] obtain nc where
    nc: "grow_cap (if rl_cap rl \<noteq> 0 then rl_cap rl * 2 else 8) need = Some nc" "need \<le> nc" and le: "unat (rl_cap rl) \<le> unat nc"
    by auto
  have "rl_reserve ok rl need = Some (rl\<lparr>rl_cap := if ok then nc else rl_cap rl\<rparr>, if ok then DD_OK else DD_ERR_NOMEM)"
    using False nc(1) by (simp add: rl_reserve_def)
  then show thesis using that[of "if ok then nc else rl_cap rl"] nc(2) le by (cases ok) auto
qed

lemma expand_at:
  assumes "i < length rs"
  shows "expand rs = expand (take i rs) @ replicate (unat (fst (rs ! i))) (snd (rs ! i)) @ expand (drop (Suc i) rs)"
  by (subst id_take_nth_drop[OF assms]) (simp add: expand_Cons)

lemma rl_split_facts:
  assumes "rl_inv rl" "unat pos \<le> length (expand (rl_runs rl))" "length (rl_runs rl) < 2147483640"
  shows "\<exists>rl' a. rl_split_at ok rl pos = Some (rl', a) \<and> rl_inv rl' \<and> expand (rl_runs rl') = expand (rl_runs rl) \<and>
    length (rl_runs rl') \<le> Suc (length (rl_runs rl)) \<and>
    (case a of Inl e \<Rightarrow> rl_runs rl' = rl_runs rl
     | Inr k \<Rightarrow> k \<le> length (rl_runs rl') \<and> unat pos = length (expand (take k (rl_runs rl')))) \<and>
    (\<forall>j. length (expand (take j (rl_runs rl))) \<le> unat pos \<and> j \<le> length (rl_runs rl) \<longrightarrow> take j (rl_runs rl') = take j (rl_runs rl))"
proof -
  note I = rl_invD[OF assms(1)]
  obtain i w where f: "rl_find rl pos = (i, w)" by fastforce
  note F = rl_find_facts[OF assms(1,2) f]
  have mono: "length (expand (take j rs)) \<le> length (expand (take k rs))" if "j \<le> k" for j k and rs :: "(u32 \<times> 'a) list"
  proof -
    have "take k rs = take j rs @ take (k - j) (drop j rs)" using that by (metis le_add_diff_inverse take_add)
    then show ?thesis by simp
  qed
  show ?thesis
  proof (cases "w = 0")
    case True
    then show ?thesis using f F(1,4) assms(1) by (simp add: rl_split_at_def)
  next
    case False
    have i: "i < length (rl_runs rl)" using F(1,3) False by (metis le_neq_implies_less)
    have need: "unat (rl_n rl + 1) = Suc (length (rl_runs rl))" using I(4) assms(3) by (simp add: unat_add_u32)
    then have "rl_n rl + 1 \<le> 0x80000000" using assms(3) by (simp add: word_le_nat_alt)
    then obtain c r where c: "rl_reserve ok rl (rl_n rl + 1) = Some (rl\<lparr>rl_cap := c\<rparr>, r)" "r = DD_OK \<or> r = DD_ERR_NOMEM"
      "unat (rl_cap rl) \<le> unat c" "r = DD_OK \<Longrightarrow> rl_n rl + 1 \<le> c" using rl_reserve_facts by metis
    obtain l p where lp: "rl_runs rl ! i = (l, p)" by fastforce
    let ?rs = "take i (rl_runs rl) @ [(w, p), (l - w, p)] @ drop (Suc i) (rl_runs rl)"
    show ?thesis
    proof (cases "r = DD_OK")
      case ok: True
      have wl: "unat w < unat l" using F(2)[OF i] lp by simp
      then have "unat w + unat (l - w) = unat l" by (simp add: unat_sub word_le_nat_alt)
      then have ex: "expand ?rs = expand (rl_runs rl)"
        using expand_at[OF i] lp by (simp add: replicate_add[symmetric])
      have "rl_split_at ok rl pos = Some (rl\<lparr>rl_cap := c, rl_runs := ?rs\<rparr>, Inr (Suc i))"
        using f False c(1) ok lp by (simp add: rl_split_at_def)
      moreover have "length ?rs \<le> unat c" using i c(4)[OF ok] need by (simp add: word_le_nat_alt)
      moreover have "expand (take (Suc i) ?rs) = expand (take i (rl_runs rl)) @ replicate (unat w) p" using i by simp
      moreover have "take j ?rs = take j (rl_runs rl)" if "length (expand (take j (rl_runs rl))) \<le> unat pos" for j
      proof -
        have "length (expand (take (Suc i) (rl_runs rl))) = length (expand (take i (rl_runs rl))) + unat l"
          using i lp by (simp add: take_Suc_conv_app_nth)
        then have "\<not> Suc i \<le> j" using mono[of "Suc i" j "rl_runs rl"] that F(4) wl by linarith
        then show ?thesis using i by simp
      qed
      ultimately show ?thesis
        using ex I(1) F(4) i by (auto simp: rl_inv_def simp del: take_append)
    next
      case F2: False
      then show ?thesis using f False c I by (auto simp: rl_split_at_def rl_inv_def)
    qed
  qed
qed

text \<open>Merging.\<close>

lemma merge_step_expand:
  assumes "length (expand (ws @ [r])) < 2 ^ 32"
  shows "expand (merge_step n r ws) = expand ws @ expand [r]"
proof (cases "fst r = 0 \<and> n > 1")
  case False
  show ?thesis
  proof (cases "ws \<noteq> [] \<and> snd (last ws) = snd r")
    case True
    then have ws: "ws = butlast ws @ [last ws]" by simp
    have e: "expand ws = expand (butlast ws) @ replicate (unat (fst (last ws))) (snd (last ws))"
      by (subst ws) (simp only: expand_simps(3) expand_single)
    have "unat (fst (last ws) + fst r) = unat (fst (last ws)) + unat (fst r)"
      using assms e by (intro unat_add_u32) (simp add: expand_single)
    then show ?thesis using False True e by (simp add: merge_step_def expand_single replicate_add)
  next
    case F2: False
    then show ?thesis using False by (auto simp: merge_step_def)
  qed
qed (auto simp: merge_step_def expand_single)

lemma merge_fold_expand:
  "length (expand ws) + length (expand rs) < 2 ^ 32 \<Longrightarrow> expand (fold (merge_step n) rs ws) = expand ws @ expand rs"
proof (induction rs arbitrary: ws)
  case (Cons r rs)
  have l: "length (expand ws) + unat (fst r) + length (expand rs) < 2 ^ 32" using Cons.prems by (simp add: expand_Cons)
  then have s: "expand (merge_step n r ws) = expand ws @ expand [r]" by (intro merge_step_expand) (simp add: expand_single)
  then have "expand (fold (merge_step n) rs (merge_step n r ws)) = expand (merge_step n r ws) @ expand rs"
    using l by (intro Cons.IH) (simp add: expand_single)
  then show ?case using s by (simp add: expand_Cons)
qed simp
lemma merge_fold_length: "length (fold (merge_step n) rs ws) \<le> length ws + length rs"
proof (induction rs arbitrary: ws)
  case (Cons r rs)
  have "length (merge_step n r ws) \<le> Suc (length ws)" by (auto simp: merge_step_def)
  then show ?case using Cons.IH[of "merge_step n r ws"] by simp
qed simp

text \<open>The normal form: neighbours differ, and only a single run may be empty.\<close>

definition rl_normal :: "(u32 \<times> 'a) list \<Rightarrow> bool" where
  "rl_normal rs \<longleftrightarrow> distinct_adj (List.map snd rs) \<and> (length rs = 1 \<or> (\<forall>r\<in>set rs. fst r \<noteq> 0))"

lemma distinct_adj_snoc: "distinct_adj (xs @ [x]) \<longleftrightarrow> distinct_adj xs \<and> (xs \<noteq> [] \<longrightarrow> last xs \<noteq> x)"
  by (auto simp: distinct_adj_append_iff)

lemma merge_fold_normal:
  assumes "n > 1" "distinct_adj (List.map snd ws)" "\<forall>r\<in>set ws. fst r \<noteq> 0" "length (expand ws) + length (expand rs) < 2 ^ 32"
  shows "distinct_adj (List.map snd (fold (merge_step n) rs ws)) \<and> (\<forall>r\<in>set (fold (merge_step n) rs ws). fst r \<noteq> 0)"
  using assms(2-4)
proof (induction rs arbitrary: ws)
  case (Cons r rs)
  have l: "length (expand ws) + unat (fst r) + length (expand rs) < 2 ^ 32" using Cons.prems(3) by (simp add: expand_Cons)
  have e: "expand (merge_step n r ws) = expand ws @ expand [r]"
    using l by (intro merge_step_expand) (simp add: expand_single)
  have "distinct_adj (List.map snd (merge_step n r ws)) \<and> (\<forall>r\<in>set (merge_step n r ws). fst r \<noteq> 0)"
  proof (cases "fst r = 0")
    case True
    then show ?thesis using assms(1) Cons.prems by (simp add: merge_step_def)
  next
    case False
    show ?thesis
    proof (cases "ws \<noteq> [] \<and> snd (last ws) = snd r")
      case True
      then have ws: "ws = butlast ws @ [last ws]" by simp
      have "expand ws = expand (butlast ws) @ replicate (unat (fst (last ws))) (snd (last ws))"
        by (subst ws) (simp only: expand_simps(3) expand_single)
      then have "unat (fst (last ws) + fst r) = unat (fst (last ws)) + unat (fst r)"
        using l by (intro unat_add_u32) simp
      then have nz: "fst (last ws) + fst r \<noteq> 0" using False by (metis add_is_0 unat_eq_zero)
      have "List.map snd (butlast ws @ [(fst (last ws) + fst r, snd (last ws))]) = List.map snd ws"
        by (subst (3) ws) simp
      then show ?thesis using False True Cons.prems(1,2) nz by (auto simp: merge_step_def dest: in_set_butlastD)
    next
      case F2: False
      then show ?thesis using False Cons.prems(1,2) by (auto simp: merge_step_def distinct_adj_snoc last_map)
    qed
  qed
  then show ?case using Cons.IH[of "merge_step n r ws"] e l by (simp add: expand_single)
qed simp

lemma rl_merge_facts:
  assumes "rl_inv rl"
  shows "rl_inv (rl_merge rl)" "expand (rl_runs (rl_merge rl)) = expand (rl_runs rl)" "rl_normal (rl_runs (rl_merge rl))"
    "length (rl_runs (rl_merge rl)) \<le> length (rl_runs rl)" "rl_cap (rl_merge rl) = rl_cap rl"
proof -
  note I = rl_invD[OF assms]
  let ?ws = "fold (merge_step (length (rl_runs rl))) (rl_runs rl) []"
  have e: "expand ?ws = expand (rl_runs rl)" using merge_fold_expand[of "[]" "rl_runs rl"] I(1) by simp
  have l: "length ?ws \<le> length (rl_runs rl)" using merge_fold_length[of _ "rl_runs rl" "[]"] by simp
  have m: "rl_runs (rl_merge rl) = (if ?ws = [] then [(0, rl_payload rl 0)] else ?ws)" "rl_cap (rl_merge rl) = rl_cap rl"
    using I(3) by (simp_all add: rl_merge_def Let_def)
  show ex: "expand (rl_runs (rl_merge rl)) = expand (rl_runs rl)" using e m(1) by (auto simp: expand_single)
  show ll: "length (rl_runs (rl_merge rl)) \<le> length (rl_runs rl)" using l I(3) m(1) by (auto simp: Suc_le_eq)
  show "rl_cap (rl_merge rl) = rl_cap rl" by (rule m(2))
  show "rl_inv (rl_merge rl)" unfolding rl_inv_def ex m(2) using I ll m(1) by auto
  show "rl_normal (rl_runs (rl_merge rl))"
  proof (cases "length (rl_runs rl) > 1")
    case True
    then have "distinct_adj (List.map snd ?ws) \<and> (\<forall>r\<in>set ?ws. fst r \<noteq> 0)"
      using merge_fold_normal[OF True, of "[]" "rl_runs rl"] I(1) by simp
    then show ?thesis using m(1) by (simp add: rl_normal_def)
  next
    case False
    then have "length (rl_runs rl) = 1" using I(3) by (cases "rl_runs rl") auto
    then show ?thesis using m(1) l by (auto simp: rl_normal_def le_Suc_eq length_Suc_conv)
  qed
qed

text \<open>Insertion.\<close>

lemma expand_grow:
  assumes "i < length rs" "unat (fst (rs ! i)) + unat n < 2 ^ 32"
  shows "expand (rs[i := (fst (rs ! i) + n, snd (rs ! i))]) =
     expand (take i rs) @ replicate (unat (fst (rs ! i)) + unat n) (snd (rs ! i)) @ expand (drop (Suc i) rs)"
proof -
  have "unat (fst (rs ! i) + n) = unat (fst (rs ! i)) + unat n" using assms(2) by (simp add: unat_add_u32)
  then show ?thesis using assms(1) by (simp add: upd_conv_take_nth_drop expand_Cons)
qed

lemma rl_insert_facts:
  assumes "rl_inv rl" "unat pos \<le> length (expand (rl_runs rl))" "length (expand (rl_runs rl)) + unat n < 2 ^ 32"
  shows "\<exists>rl' p. rl_insert zero ok rl pos n = Some (rl', DD_OK) \<and> rl_inv rl' \<and> length (rl_runs rl') = length (rl_runs rl) \<and>
    expand (rl_runs rl') = take (unat pos) (expand (rl_runs rl)) @ replicate (unat n) p @ drop (unat pos) (expand (rl_runs rl)) \<and>
    (rl_normal (rl_runs rl) \<and> 0 < unat pos \<longrightarrow> p = expand (rl_runs rl) ! (unat pos - 1))"
proof (cases "n = 0")
  case True
  then show ?thesis using assms(1) by (auto simp: rl_insert_def)
next
  case False
  note I = rl_invD[OF assms(1)]
  obtain j w where f: "rl_find rl pos = (j, w)" by fastforce
  note F = rl_find_facts[OF assms(1,2) f]
  let ?rs = "rl_runs rl"
  define i where "i = (if w = 0 \<and> j > 0 then j - 1 else if j \<ge> length ?rs then length ?rs - 1 else j)"
  have i: "i < length ?rs" using F(1) I(3) by (auto simp: i_def Suc_le_eq split: if_splits)
  let ?l = "fst (?rs ! i)" and ?p = "snd (?rs ! i)"
  note E = expand_at[OF i]
  have lb: "length (expand (take i ?rs)) + unat ?l \<le> length (expand ?rs)" using arg_cong[OF E, of length] by simp
  then have g: "expand (?rs[i := (?l + n, ?p)]) = expand (take i ?rs) @ replicate (unat ?l + unat n) ?p @ expand (drop (Suc i) ?rs)"
    using assms(3) by (intro expand_grow[OF i]) linarith
  have between: "\<exists>a \<le> unat ?l. unat pos = length (expand (take i ?rs)) + a \<and> (0 < unat pos \<and> rl_normal ?rs \<longrightarrow> 0 < a)"
  proof (cases "w = 0 \<and> j > 0")
    case True
    then have "take j ?rs = take (j - 1) ?rs @ [?rs ! (j - 1)]" using F(1) by (metis One_nat_def Suc_le_lessD Suc_pred take_Suc_conv_app_nth)
    then have at: "unat pos = length (expand (take i ?rs)) + unat ?l" using F(4) True by (simp add: expand_single i_def)
    have "0 < unat ?l" if "0 < unat pos" "rl_normal ?rs"
    proof (cases "length ?rs = 1")
      case one: True
      then have "i = 0" using i by simp
      then show ?thesis using at that(1) by simp
    next
      case F1: False
      then have "?l \<noteq> 0" using that(2) i by (auto simp: rl_normal_def)
      then show ?thesis by (simp add: unat_gt_0)
    qed
    then have "0 < unat pos \<and> rl_normal ?rs \<longrightarrow> 0 < unat ?l" by iprover
    then show ?thesis using at by (metis order_refl)
  next
    case F1: False
    show ?thesis
    proof (cases "j \<ge> length ?rs")
      case True
      then have "w = 0" "j = length ?rs" using F(1,3) by simp_all
      then show ?thesis using F1 I(3) by simp
    next
      case F2: False
      then have "i = j" using F1 by (auto simp: i_def)
      moreover from this have "unat w < unat ?l" using F2 F(2) by simp
      moreover have "w = 0 \<Longrightarrow> unat pos = 0" using F1 F(4) by simp
      ultimately show ?thesis using F(4) by (intro exI[of _ "unat w"]) (auto simp: unat_gt_0)
    qed
  qed
  then obtain a where a: "a \<le> unat ?l" "unat pos = length (expand (take i ?rs)) + a" "0 < unat pos \<and> rl_normal ?rs \<Longrightarrow> 0 < a" by blast
  have tk: "take (unat pos) (expand ?rs) = expand (take i ?rs) @ replicate a ?p"
    "drop (unat pos) (expand ?rs) = replicate (unat ?l - a) ?p @ expand (drop (Suc i) ?rs)"
    unfolding E a(2) using a(1) by (simp_all add: min_absorb1)
  have "replicate (unat ?l + unat n) ?p = replicate a ?p @ replicate (unat n) ?p @ replicate (unat ?l - a) ?p"
    using a(1) by (simp add: replicate_add[symmetric])
  then have ex: "expand (?rs[i := (?l + n, ?p)]) = take (unat pos) (expand ?rs) @ replicate (unat n) ?p @ drop (unat pos) (expand ?rs)"
    unfolding g tk by simp
  have "rl_insert zero ok rl pos n = Some (rl\<lparr>rl_runs := ?rs[i := (?l + n, ?p)]\<rparr>, DD_OK)"
    using False I(3) f by (simp add: rl_insert_def Let_def i_def)
  moreover have "rl_inv (rl\<lparr>rl_runs := ?rs[i := (?l + n, ?p)]\<rparr>)" using ex assms(2,3) I(2,3) by (simp add: rl_inv_def)
  moreover have "?p = expand ?rs ! (unat pos - 1)" if "rl_normal ?rs" "0 < unat pos"
  proof -
    have "0 < a" using a(3) that by blast
    have "expand ?rs ! (unat pos - 1) = take (unat pos) (expand ?rs) ! (unat pos - 1)" using that(2) by simp
    also have "\<dots> = (expand (take i ?rs) @ replicate a ?p) ! (length (expand (take i ?rs)) + (a - 1))"
      unfolding tk(1) using a(2) \<open>0 < a\<close> by (intro arg_cong2[where f = nth]) simp_all
    also have "\<dots> = ?p" unfolding nth_append_length_plus using \<open>0 < a\<close> by simp
    finally show ?thesis by simp
  qed
  ultimately show ?thesis using ex by (intro exI[of _ "rl\<lparr>rl_runs := ?rs[i := (?l + n, ?p)]\<rparr>"] exI[of _ ?p]) auto
qed
text \<open>Deletion.\<close>

lemma del_loop_expand:
  assumes "length (expand rs) < 2 ^ 32" "rs \<noteq> [] \<Longrightarrow> unat w \<le> unat (fst (hd rs))" "rs = [] \<Longrightarrow> w = 0"
  shows "expand (del_loop w rem rs) = take (unat w) (expand rs) @ drop (unat w + unat rem) (expand rs)"
  using assms
proof (induction w rem rs rule: del_loop.induct)
  case (2 w rem l p rs)
  show ?case
  proof (cases "rem > 0")
    case False
    then have "unat rem = 0" by (simp add: word_less_nat_alt)
    moreover have "del_loop w rem ((l, p) # rs) = (l, p) # rs" using False by simp
    ultimately show ?thesis by (simp only: add_0_right append_take_drop_id)
  next
    case True
    let ?tk = "if l - w < rem then l - w else rem"
    have wl: "unat w \<le> unat l" using 2(3) by simp
    have av: "unat (l - w) = unat l - unat w" using wl by (simp add: unat_sub word_le_nat_alt)
    have tk: "unat ?tk = min (unat l - unat w) (unat rem)" using av by (simp add: word_less_nat_alt min_def)
    then have lt: "unat (l - ?tk) = unat l - unat ?tk" "unat (rem - ?tk) = unat rem - unat ?tk"
      by (simp_all add: unat_sub word_le_nat_alt)
    have IH: "expand (del_loop 0 (rem - ?tk) rs) = drop (unat rem - unat ?tk) (expand rs)"
      using 2(1)[OF True refl refl] 2(2) lt(2) by simp
    have hd: "expand (if l - ?tk = 0 then [] else [(l - ?tk, p)]) = replicate (unat l - unat ?tk) p"
    proof (cases "l - ?tk = 0")
      case t0: True
      have "unat l - unat ?tk = 0" unfolding lt(1)[symmetric] t0 by simp
      then show ?thesis using t0 by simp
    next
      case tn: False
      then show ?thesis using lt(1) by (simp only: if_False expand_single fst_conv snd_conv)
    qed
    have "expand (del_loop w rem ((l, p) # rs)) = replicate (unat l - unat ?tk) p @ drop (unat rem - unat ?tk) (expand rs)"
      using True hd IH by (simp add: Let_def)
    also have "\<dots> = take (unat w) (expand ((l, p) # rs)) @ drop (unat w + unat rem) (expand ((l, p) # rs))"
    proof (cases "unat l - unat w \<le> unat rem")
      case True
      then have "unat ?tk = unat l - unat w" using tk by simp
      then show ?thesis using wl True by (simp add: add.commute)
    next
      case False
      then have t: "unat ?tk = unat rem" using tk by simp
      have "replicate (unat l - unat rem) p = replicate (unat w) p @ replicate (unat l - (unat w + unat rem)) p"
        using False by (simp add: replicate_add[symmetric])
      then show ?thesis using False wl t by simp
    qed
    finally show ?thesis .
  qed
qed simp

lemma del_loop_length: "length (del_loop w rem rs) \<le> length rs"
  by (induction w rem rs rule: del_loop.induct) (auto simp: Let_def intro: le_SucI)

lemma rl_delete_facts:
  assumes "rl_inv rl" "unat pos \<le> length (expand (rl_runs rl))" "unat pos + unat n < 2 ^ 32"
  shows "\<exists>rl' r. rl_delete zero ok rl pos n = Some (rl', r) \<and> r = DD_OK \<and> rl_inv rl' \<and> length (rl_runs rl') \<le> length (rl_runs rl) \<and>
    expand (rl_runs rl') = take (unat pos) (expand (rl_runs rl)) @ drop (unat pos + unat n) (expand (rl_runs rl))"
proof -
  note I = rl_invD[OF assms(1)]
  show ?thesis
  proof (cases "n = 0 \<or> pos \<ge> rl_total rl")
    case True
    then show ?thesis using assms(1,2) I(5) by (auto simp: rl_delete_def Let_def word_le_nat_alt)
  next
    case False
    then have lt: "unat pos < length (expand (rl_runs rl))" using I(5) by (simp add: not_le word_less_nat_alt)
    have s: "unat (pos + n) = unat pos + unat n" using assms(3) by (simp add: unat_add_u32)
    let ?n1 = "if pos + n > rl_total rl then rl_total rl - pos else n"
    have n1: "unat ?n1 = min (unat n) (length (expand (rl_runs rl)) - unat pos)"
      using s I(5) lt False by (auto simp: word_less_nat_alt min_def unat_sub word_le_nat_alt)
    obtain i w where f: "rl_find rl pos = (i, w)" by fastforce
    note F = rl_find_facts[OF assms(1,2) f]
    let ?rs = "take i (rl_runs rl) @ del_loop w ?n1 (drop i (rl_runs rl))"
    have E: "expand (rl_runs rl) = expand (take i (rl_runs rl)) @ expand (drop i (rl_runs rl))"
      by (metis append_take_drop_id expand_simps(3))
    have "expand (del_loop w ?n1 (drop i (rl_runs rl))) =
        take (unat w) (expand (drop i (rl_runs rl))) @ drop (unat w + unat ?n1) (expand (drop i (rl_runs rl)))"
    proof (rule del_loop_expand)
      show "length (expand (drop i (rl_runs rl))) < 2 ^ 32" using arg_cong[OF E, of length] I(1) by simp
      show "drop i (rl_runs rl) \<noteq> [] \<Longrightarrow> unat w \<le> unat (fst (hd (drop i (rl_runs rl))))" using F(2) by (simp add: hd_drop_conv_nth)
      show "drop i (rl_runs rl) = [] \<Longrightarrow> w = 0" using F(1,3) by simp
    qed
    then have "expand ?rs = take (unat pos) (expand (rl_runs rl)) @ drop (unat pos + unat ?n1) (expand (rl_runs rl))"
      unfolding E F(4) by simp
    then have ex: "expand ?rs = take (unat pos) (expand (rl_runs rl)) @ drop (unat pos + unat n) (expand (rl_runs rl))"
      unfolding n1 by (simp add: min_def)
    have len: "length ?rs \<le> length (rl_runs rl)" using del_loop_length[of w ?n1 "drop i (rl_runs rl)"] F(1) by simp
    let ?rl = "rl\<lparr>rl_runs := ?rs\<rparr>"
    have unf: "rl_delete zero ok rl pos n =
       (if rl_runs (rl_merge ?rl) = []
        then do { (rl2, r) \<leftarrow> rl_reserve ok (rl_merge ?rl) 1;
                  Some (if r \<noteq> DD_OK then (rl2, DD_ERR_NOMEM) else (rl2\<lparr>rl_runs := [(0, zero)]\<rparr>, DD_OK)) }
        else Some (rl_merge ?rl, DD_OK))"
      using False f by (simp add: rl_delete_def Let_def)
    show ?thesis
    proof (cases "?rs = []")
      case True
      then have "rl_merge ?rl = ?rl" by (simp add: rl_merge_def)
      moreover have "rl_reserve ok ?rl 1 = Some (?rl, DD_OK)"
      proof -
        have "0 < unat (rl_cap rl)" using I(2,3) by (cases "rl_runs rl") auto
        then show ?thesis by (simp add: rl_reserve_def word_le_nat_alt)
      qed
      ultimately have "rl_delete zero ok rl pos n = Some (rl\<lparr>rl_runs := [(0, zero)]\<rparr>, DD_OK)" using unf True by simp
      moreover have "rl_inv (rl\<lparr>rl_runs := [(0, zero)]\<rparr>)" using I by (cases "rl_runs rl") (auto simp: rl_inv_def)
      moreover have "take (unat pos) (expand (rl_runs rl)) @ drop (unat pos + unat n) (expand (rl_runs rl)) = []"
        using ex True by (metis expand_simps(1))
      ultimately show ?thesis using I(3) by (auto simp: Suc_le_eq)
    next
      case ne: False
      have "length (expand ?rs) < 2 ^ 32" unfolding ex using I(1) by simp
      then have "rl_inv ?rl" using ne len I(2) by (simp add: rl_inv_def)
      note M = rl_merge_facts[OF this]
      then have "rl_delete zero ok rl pos n = Some (rl_merge ?rl, DD_OK)" using unf by (simp add: rl_inv_def)
      then show ?thesis using M ex len by auto
    qed
  qed
qed

text \<open>Changing the payloads of a range.\<close>

lemma expand_map: "expand (List.map (\<lambda>(l, p). (l, f p)) rs) = List.map f (expand rs)"
  by (induction rs) auto

lemma apply_between:
  assumes "i0 \<le> length rs" "i1 \<le> length rs"
  shows "List.map (\<lambda>i. if i0 \<le> i \<and> i < i1 then (fst (rs ! i), f (snd (rs ! i))) else rs ! i) [0..<length rs] =
     take i0 rs @ List.map (\<lambda>(l, p). (l, f p)) (take (i1 - i0) (drop i0 rs)) @ drop (max i0 i1) rs"
proof (rule nth_equalityI)
  show "length (List.map (\<lambda>i. if i0 \<le> i \<and> i < i1 then (fst (rs ! i), f (snd (rs ! i))) else rs ! i) [0..<length rs]) =
    length (take i0 rs @ List.map (\<lambda>(l, p). (l, f p)) (take (i1 - i0) (drop i0 rs)) @ drop (max i0 i1) rs)"
    using assms by auto
next
  fix k
  assume "k < length (List.map (\<lambda>i. if i0 \<le> i \<and> i < i1 then (fst (rs ! i), f (snd (rs ! i))) else rs ! i) [0..<length rs])"
  then show "List.map (\<lambda>i. if i0 \<le> i \<and> i < i1 then (fst (rs ! i), f (snd (rs ! i))) else rs ! i) [0..<length rs] ! k =
    (take i0 rs @ List.map (\<lambda>(l, p). (l, f p)) (take (i1 - i0) (drop i0 rs)) @ drop (max i0 i1) rs) ! k"
    using assms by (auto simp: nth_append case_prod_beta min_def max_def)
qed
lemma apply_expand:
  assumes "i0 \<le> length rs" "i1 \<le> length rs" "expand (take i0 rs) = take a (expand rs)" "expand (take i1 rs) = take (a + n) (expand rs)"
  shows "expand (List.map (\<lambda>i. if i0 \<le> i \<and> i < i1 then (fst (rs ! i), f (snd (rs ! i))) else rs ! i) [0..<length rs]) =
    take a (expand rs) @ List.map f (take n (drop a (expand rs))) @ drop (a + n) (expand rs)"
proof -
  have sp: "expand rs = expand (take k rs) @ expand (drop k rs)" for k by (metis append_take_drop_id expand_simps(3))
  have dr: "expand (drop i1 rs) = drop (a + n) (expand rs)" "expand (drop i0 rs) = drop a (expand rs)"
    using sp[of i1] sp[of i0] assms(3,4) by (metis append_take_drop_id same_append_eq)+
  show ?thesis
  proof (cases "i0 \<le> i1")
    case True
    have "take i1 rs = take i0 rs @ take (i1 - i0) (drop i0 rs)" using True by (metis le_add_diff_inverse take_add)
    then have "take (a + n) (expand rs) = take a (expand rs) @ expand (take (i1 - i0) (drop i0 rs))"
      using assms(3,4) by (metis expand_simps(3))
    then have "expand (take (i1 - i0) (drop i0 rs)) = take n (drop a (expand rs))" by (simp add: take_add)
    then show ?thesis using True assms dr(1) unfolding apply_between[OF assms(1,2)] by (simp add: expand_map max_def)
  next
    case False
    have "take i0 rs = take i1 rs @ take (i0 - i1) (drop i1 rs)" using False by (metis le_add_diff_inverse nat_le_linear take_add)
    then have "take a (expand rs) = take (a + n) (expand rs) @ expand (take (i0 - i1) (drop i1 rs))"
      using assms(3,4) by (metis expand_simps(3))
    then have "length (take (a + n) (expand rs)) \<le> length (take a (expand rs))" by (metis length_append le_add1)
    then have "n = 0 \<or> length (expand rs) \<le> a" by auto
    then have e: "take n (drop a (expand rs)) = []" and d: "drop (a + n) (expand rs) = drop a (expand rs)" by auto
    show ?thesis unfolding apply_between[OF assms(1,2)] e d using False assms(3) dr(2) by (simp add: max_def)
  qed
qed

lemma find_loop_beyond:
  assumes "unat acc + sum_list (List.map unat ls) \<le> unat pos"
  shows "find_loop pos acc i ls = (i + length ls, 0)"
  using assms
proof (induction pos acc i ls rule: find_loop.induct)
  case (2 pos acc i l ls)
  have "unat acc + unat l < 4294967296" using 2(2) unat_lt_u32[of pos] by (simp del: unat_lt_u32)
  then have al: "unat (acc + l) = unat acc + unat l" by (rule unat_add_u32)
  then have "\<not> pos < acc + l" using 2(2) by (simp add: word_less_nat_alt)
  then show ?case using 2 al by simp
qed simp

lemma rl_split_any:
  assumes "rl_inv rl" "length (rl_runs rl) < 2147483640"
  obtains rl' a where "rl_split_at ok rl pos = Some (rl', a)" "rl_inv rl'" "expand (rl_runs rl') = expand (rl_runs rl)"
    "length (rl_runs rl') \<le> Suc (length (rl_runs rl))"
    "\<And>k. a = Inr k \<Longrightarrow> k \<le> length (rl_runs rl') \<and> expand (take k (rl_runs rl')) = take (unat pos) (expand (rl_runs rl))"
    "\<And>j. length (expand (take j (rl_runs rl))) \<le> unat pos \<Longrightarrow> j \<le> length (rl_runs rl) \<Longrightarrow> take j (rl_runs rl') = take j (rl_runs rl)"
proof (cases "unat pos \<le> length (expand (rl_runs rl))")
  case True
  from rl_split_facts[OF assms(1) True assms(2), of ok] obtain rl' a where
    s: "rl_split_at ok rl pos = Some (rl', a)" "rl_inv rl'" "expand (rl_runs rl') = expand (rl_runs rl)"
      "length (rl_runs rl') \<le> Suc (length (rl_runs rl))"
      "case a of Inl e \<Rightarrow> rl_runs rl' = rl_runs rl
       | Inr k \<Rightarrow> k \<le> length (rl_runs rl') \<and> unat pos = length (expand (take k (rl_runs rl')))"
      "\<forall>j. length (expand (take j (rl_runs rl))) \<le> unat pos \<and> j \<le> length (rl_runs rl) \<longrightarrow> take j (rl_runs rl') = take j (rl_runs rl)"
    by (elim exE conjE)
  have pre: "expand (take k (rl_runs rl')) = take (length (expand (take k (rl_runs rl')))) (expand (rl_runs rl'))" for k
    by (metis append_eq_conv_conj append_take_drop_id expand_simps(3))
  have "k \<le> length (rl_runs rl') \<and> expand (take k (rl_runs rl')) = take (unat pos) (expand (rl_runs rl))" if "a = Inr k" for k
    using s(3,5) that pre[of k] by simp
  then show ?thesis using that[OF s(1-4)] s(6) by blast
next
  case False
  then have "rl_find rl pos = (length (rl_runs rl), 0)" using find_loop_beyond[of 0 "List.map fst (rl_runs rl)" pos 0]
    by (simp add: rl_find_def expand_length)
  then have "rl_split_at ok rl pos = Some (rl, Inr (length (rl_runs rl)))" by (simp add: rl_split_at_def)
  then show ?thesis using that[of rl "Inr (length (rl_runs rl))"] assms(1) False by simp
qed

lemma rl_apply_facts:
  assumes "rl_inv rl" "length (rl_runs rl) < 2147483638" "unat pos + unat n < 2 ^ 32"
  shows "\<exists>rl' r. rl_apply ok1 ok2 fn rl pos n = Some (rl', r) \<and> rl_inv rl' \<and>
    (if r = DD_OK then expand (rl_runs rl') = take (unat pos) (expand (rl_runs rl)) @
         List.map fn (take (unat n) (drop (unat pos) (expand (rl_runs rl)))) @ drop (unat pos + unat n) (expand (rl_runs rl))
     else r = DD_ERR_NOMEM \<and> expand (rl_runs rl') = expand (rl_runs rl))"
proof (cases "n = 0")
  case True
  then show ?thesis using assms(1) by (simp add: rl_apply_def)
next
  case False
  let ?xs = "expand (rl_runs rl)"
  have s: "unat (pos + n) = unat pos + unat n" using assms(3) by (simp add: unat_add_u32)
  have l0: "length (rl_runs rl) < 2147483640" using assms(2) by simp
  obtain rl1 a where A: "rl_split_at ok1 rl pos = Some (rl1, a)" "rl_inv rl1" "expand (rl_runs rl1) = ?xs"
    "length (rl_runs rl1) \<le> Suc (length (rl_runs rl))"
    "\<And>k. a = Inr k \<Longrightarrow> k \<le> length (rl_runs rl1) \<and> expand (take k (rl_runs rl1)) = take (unat pos) ?xs"
    by (rule rl_split_any[OF assms(1) l0]) blast
  have l1: "length (rl_runs rl1) < 2147483640" using A(4) assms(2) by simp
  show ?thesis
  proof (cases a)
    case (Inl e)
    then show ?thesis using False A by (simp add: rl_apply_def)
  next
    case (Inr i0)
    have i0: "i0 \<le> length (rl_runs rl1)" "expand (take i0 (rl_runs rl1)) = take (unat pos) ?xs" using A(5)[OF Inr] by blast+
    obtain rl2 b where B: "rl_split_at ok2 rl1 (pos + n) = Some (rl2, b)" "rl_inv rl2" "expand (rl_runs rl2) = expand (rl_runs rl1)"
      "\<And>k. b = Inr k \<Longrightarrow> k \<le> length (rl_runs rl2) \<and> expand (take k (rl_runs rl2)) = take (unat (pos + n)) (expand (rl_runs rl1))"
      "\<And>j. length (expand (take j (rl_runs rl1))) \<le> unat (pos + n) \<Longrightarrow> j \<le> length (rl_runs rl1) \<Longrightarrow> take j (rl_runs rl2) = take j (rl_runs rl1)"
      by (rule rl_split_any[OF A(2) l1]) blast
    have k0: "take i0 (rl_runs rl2) = take i0 (rl_runs rl1)" by (rule B(5)) (use i0 s in simp_all)
    show ?thesis
    proof (cases b)
      case (Inl e)
      then show ?thesis using False A(1,3) Inr B(1-3) by (simp add: rl_apply_def)
    next
      case b: (Inr i1)
      let ?rs = "rl_runs rl2"
      let ?f = "\<lambda>i. if i0 \<le> i \<and> i < i1 then (fst (?rs ! i), fn (snd (?rs ! i))) else ?rs ! i"
      let ?rl = "rl2\<lparr>rl_runs := List.map ?f [0..<length ?rs]\<rparr>"
      have i1: "i1 \<le> length ?rs" "expand (take i1 ?rs) = take (unat pos + unat n) ?xs" using B(4)[OF b] A(3) s by simp_all
      have i0': "i0 \<le> length ?rs"
        using k0 i0(1) by (metis length_take min.absorb_iff2 min.commute)
      have ex: "expand (List.map ?f [0..<length ?rs]) =
        take (unat pos) ?xs @ List.map fn (take (unat n) (drop (unat pos) ?xs)) @ drop (unat pos + unat n) ?xs"
        using apply_expand[OF i0' i1(1), of "unat pos" "unat n" fn] i1(2) k0 i0 B(3) A(3) by simp
      have "rl_inv ?rl" using B(2) ex arg_cong[OF ex, of length] rl_invD[OF assms(1)] by (auto simp: rl_inv_def)
      note M = rl_merge_facts[OF this]
      have "rl_apply ok1 ok2 fn rl pos n = Some (rl_merge ?rl, DD_OK)" using False A(1) Inr B(1) b by (simp add: rl_apply_def Let_def)
      then show ?thesis using M ex by auto
    qed
  qed
qed

text \<open>What holds for every length, also when the end of the range wraps around.\<close>

lemma rl_apply_any:
  assumes "rl_inv rl" "length (rl_runs rl) < 2147483638"
  shows "\<exists>rl' r. rl_apply ok1 ok2 fn rl pos n = Some (rl', r) \<and> rl_inv rl' \<and> length (expand (rl_runs rl')) = length (expand (rl_runs rl)) \<and>
    length (rl_runs rl') \<le> length (rl_runs rl) + 2"
proof (cases "n = 0")
  case True
  then show ?thesis using assms(1) by (simp add: rl_apply_def)
next
  case False
  have l0: "length (rl_runs rl) < 2147483640" using assms(2) by simp
  obtain rl1 a where A: "rl_split_at ok1 rl pos = Some (rl1, a)" "rl_inv rl1" "expand (rl_runs rl1) = expand (rl_runs rl)"
    "length (rl_runs rl1) \<le> Suc (length (rl_runs rl))" by (rule rl_split_any[OF assms(1) l0]) blast
  have l1: "length (rl_runs rl1) < 2147483640" using A(4) assms(2) by simp
  show ?thesis
  proof (cases a)
    case (Inl e)
    then show ?thesis using False A by (simp add: rl_apply_def)
  next
    case (Inr i0)
    obtain rl2 b where B: "rl_split_at ok2 rl1 (pos + n) = Some (rl2, b)" "rl_inv rl2" "expand (rl_runs rl2) = expand (rl_runs rl1)"
      "length (rl_runs rl2) \<le> Suc (length (rl_runs rl1))" by (rule rl_split_any[OF A(2) l1]) blast
    show ?thesis
    proof (cases b)
      case (Inl e)
      then show ?thesis using False A Inr B by (simp add: rl_apply_def)
    next
      case b: (Inr i1)
      let ?rs = "rl_runs rl2"
      let ?f = "\<lambda>i. if i0 \<le> i \<and> i < i1 then (fst (?rs ! i), fn (snd (?rs ! i))) else ?rs ! i"
      let ?rl = "rl2\<lparr>rl_runs := List.map ?f [0..<length ?rs]\<rparr>"
      have "List.map fst (List.map ?f [0..<length ?rs]) = List.map fst ?rs" by (rule nth_equalityI) auto
      then have ex: "length (expand (List.map ?f [0..<length ?rs])) = length (expand ?rs)" by (simp only: expand_length)
      have "rl_inv ?rl" using B(2) ex by (auto simp: rl_inv_def)
      note M = rl_merge_facts[OF this]
      have "rl_apply ok1 ok2 fn rl pos n = Some (rl_merge ?rl, DD_OK)" using False A(1) Inr B(1) b by (simp add: rl_apply_def Let_def)
      then show ?thesis using M ex A(3,4) B(3,4) by auto
    qed
  qed
qed

text \<open>No operation makes a new payload out of nothing.\<close>

definition payloads :: "(u32 \<times> 'a) list \<Rightarrow> 'a set" where
  "payloads rs = snd ` set rs"

lemma payloads_simps [simp]:
  "payloads [] = {}" "payloads (r # rs) = Set.insert (snd r) (payloads rs)" "payloads (rs @ qs) = payloads rs \<union> payloads qs"
  by (auto simp: payloads_def)

lemma payloads_sub: "payloads (take i rs) \<subseteq> payloads rs" "payloads (drop i rs) \<subseteq> payloads rs" "payloads (butlast rs) \<subseteq> payloads rs"
  "rs \<noteq> [] \<Longrightarrow> snd (last rs) \<in> payloads rs" "i < length rs \<Longrightarrow> snd (rs ! i) \<in> payloads rs" "payloads (rs[i := r]) \<subseteq> Set.insert (snd r) (payloads rs)"
proof -
  show "payloads (take i rs) \<subseteq> payloads rs" "payloads (drop i rs) \<subseteq> payloads rs" "payloads (butlast rs) \<subseteq> payloads rs"
    unfolding payloads_def using set_take_subset[of i rs] set_drop_subset[of i rs] by (blast, blast, meson image_mono in_set_butlastD subsetI)
  show "rs \<noteq> [] \<Longrightarrow> snd (last rs) \<in> payloads rs" "i < length rs \<Longrightarrow> snd (rs ! i) \<in> payloads rs" by (simp_all add: payloads_def)
  show "payloads (rs[i := r]) \<subseteq> Set.insert (snd r) (payloads rs)" unfolding payloads_def using set_update_subset_insert[of rs i r] by auto
qed

lemma merge_fold_payloads: "payloads (fold (merge_step n) rs ws) \<subseteq> payloads ws \<union> payloads rs"
proof (induction rs arbitrary: ws)
  case (Cons r rs)
  have "payloads (merge_step n r ws) \<subseteq> Set.insert (snd r) (payloads ws)"
    using payloads_sub(3)[of ws] payloads_sub(4)[of ws] by (auto simp: merge_step_def)
  then show ?case using Cons.IH[of "merge_step n r ws"] by auto
qed simp

lemma rl_merge_payloads: "payloads (rl_runs (rl_merge rl)) \<subseteq> payloads (rl_runs rl)"
proof (cases "rl_runs rl = []")
  case False
  then show ?thesis using merge_fold_payloads[of "length (rl_runs rl)" "rl_runs rl" "[]"] payloads_sub(5)[of 0 "rl_runs rl"]
    by (auto simp: rl_merge_def Let_def rl_payload_def)
qed (simp add: rl_merge_def)

lemma del_loop_payloads: "payloads (del_loop w n rs) \<subseteq> payloads rs"
proof (induction rs arbitrary: w n)
  case (Cons r rs)
  obtain l p where r: "r = (l, p)" by fastforce
  show ?case unfolding r using Cons.IH[of 0] by (auto simp: Let_def)
qed simp

lemma rl_reserve_runs: "rl_reserve ok rl need = Some (rl', r) \<Longrightarrow> rl_runs rl' = rl_runs rl"
  by (auto simp: rl_reserve_def split: if_splits bind_splits)

lemma rl_delete_payloads:
  assumes "rl_delete zero ok rl pos n = Some (rl', r)"
  shows "payloads (rl_runs rl') \<subseteq> Set.insert zero (payloads (rl_runs rl))"
proof -
  obtain i w where f: "rl_find rl pos = (i, w)" by fastforce
  have c: "payloads (take i (rl_runs rl) @ del_loop w m (drop i (rl_runs rl))) \<subseteq> payloads (rl_runs rl)" for m
    using del_loop_payloads[of w m "drop i (rl_runs rl)"] payloads_sub(1,2)[of i "rl_runs rl"] by auto
  have "payloads (rl_runs (rl_merge (rl\<lparr>rl_runs := take i (rl_runs rl) @ del_loop w m (drop i (rl_runs rl))\<rparr>))) \<subseteq> payloads (rl_runs rl)" for m
    using rl_merge_payloads[of "rl\<lparr>rl_runs := take i (rl_runs rl) @ del_loop w m (drop i (rl_runs rl))\<rparr>"] c[of m] by auto
  then show ?thesis using assms f
    by (auto simp: rl_delete_def Let_def split: if_splits bind_splits dest!: rl_reserve_runs)
qed

lemma rl_insert_payloads:
  assumes "rl_insert zero ok rl pos n = Some (rl', r)" "rl_runs rl \<noteq> []"
  shows "payloads (rl_runs rl') \<subseteq> payloads (rl_runs rl)"
proof -
  obtain i w where f: "rl_find rl pos = (i, w)" by fastforce
  have u: "payloads ((rl_runs rl)[j := (x, snd (rl_runs rl ! j))]) \<subseteq> payloads (rl_runs rl)" for j x
  proof (cases "j < length (rl_runs rl)")
    case True
    then show ?thesis using payloads_sub(5)[OF True] payloads_sub(6)[of "rl_runs rl" j "(x, snd (rl_runs rl ! j))"] by auto
  qed (simp add: list_update_beyond)
  show ?thesis
  proof (cases "n = 0")
    case False
    then show ?thesis using assms f u by (auto simp: rl_insert_def Let_def subset_iff)
  qed (use assms in \<open>simp add: rl_insert_def\<close>)
qed

lemma rl_split_payloads:
  assumes "rl_split_at ok rl pos = Some (rl', a)" "rl_inv rl" "unat pos \<le> length (expand (rl_runs rl))"
  shows "payloads (rl_runs rl') \<subseteq> payloads (rl_runs rl)"
proof -
  obtain i w where f: "rl_find rl pos = (i, w)" by fastforce
  note F = rl_find_facts[OF assms(2,3) f]
  show ?thesis
  proof (cases "w = 0")
    case True
    then show ?thesis using assms(1) f by (simp add: rl_split_at_def)
  next
    case False
    then have i: "i < length (rl_runs rl)" using F(1,3) by (metis le_neq_implies_less)
    show ?thesis using assms(1) f False payloads_sub(1)[of i "rl_runs rl"] payloads_sub(2)[of "Suc i" "rl_runs rl"] payloads_sub(5)[OF i]
      by (auto simp: rl_split_at_def split: if_splits bind_splits prod.splits dest!: rl_reserve_runs)
  qed
qed

section \<open>Properties\<close>

text \<open>
  C20: The run lists refine editing on a sequence with one payload per byte: insertion lengthens a run, so the new bytes take the payload of the byte
  before them (in normal form, past the start); deletion removes exactly the range; applying a change maps it over exactly the
  range, or leaves the sequence alone without memory; and merging keeps the sequence and reaches the normal form.
  The length after an insertion stays below \<^verbatim>\<open>2^32\<close> and there is room for more runs.
\<close>

theorem runs_refine:
  assumes "rl_inv rl" "unat pos \<le> length (expand (rl_runs rl))" "length (expand (rl_runs rl)) + unat n < 2 ^ 32" "length (rl_runs rl) < 2147483638"
  shows "(\<exists>rl' p. rl_insert zero ok rl pos n = Some (rl', DD_OK) \<and> rl_inv rl' \<and>
      expand (rl_runs rl') = take (unat pos) (expand (rl_runs rl)) @ replicate (unat n) p @ drop (unat pos) (expand (rl_runs rl)) \<and>
      (rl_normal (rl_runs rl) \<and> 0 < unat pos \<longrightarrow> p = expand (rl_runs rl) ! (unat pos - 1))) \<and>
    (\<exists>rl'. rl_delete zero ok rl pos n = Some (rl', DD_OK) \<and> rl_inv rl' \<and>
      expand (rl_runs rl') = take (unat pos) (expand (rl_runs rl)) @ drop (unat pos + unat n) (expand (rl_runs rl))) \<and>
    (\<exists>rl' r. rl_apply ok1 ok2 fn rl pos n = Some (rl', r) \<and> rl_inv rl' \<and>
      (if r = DD_OK then expand (rl_runs rl') = take (unat pos) (expand (rl_runs rl)) @
           List.map fn (take (unat n) (drop (unat pos) (expand (rl_runs rl)))) @ drop (unat pos + unat n) (expand (rl_runs rl))
       else r = DD_ERR_NOMEM \<and> expand (rl_runs rl') = expand (rl_runs rl))) \<and>
    expand (rl_runs (rl_merge rl)) = expand (rl_runs rl) \<and> rl_normal (rl_runs (rl_merge rl))"
proof (intro conjI)
  have s: "unat pos + unat n < 2 ^ 32" using assms(2,3) by simp
  show "\<exists>rl' p. rl_insert zero ok rl pos n = Some (rl', DD_OK) \<and> rl_inv rl' \<and>
      expand (rl_runs rl') = take (unat pos) (expand (rl_runs rl)) @ replicate (unat n) p @ drop (unat pos) (expand (rl_runs rl)) \<and>
      (rl_normal (rl_runs rl) \<and> 0 < unat pos \<longrightarrow> p = expand (rl_runs rl) ! (unat pos - 1))"
    using rl_insert_facts[OF assms(1-3), of zero ok] by blast
  show "\<exists>rl'. rl_delete zero ok rl pos n = Some (rl', DD_OK) \<and> rl_inv rl' \<and>
      expand (rl_runs rl') = take (unat pos) (expand (rl_runs rl)) @ drop (unat pos + unat n) (expand (rl_runs rl))"
    using rl_delete_facts[OF assms(1,2) s, of zero ok] by blast
  show "\<exists>rl' r. rl_apply ok1 ok2 fn rl pos n = Some (rl', r) \<and> rl_inv rl' \<and>
      (if r = DD_OK then expand (rl_runs rl') = take (unat pos) (expand (rl_runs rl)) @
           List.map fn (take (unat n) (drop (unat pos) (expand (rl_runs rl)))) @ drop (unat pos + unat n) (expand (rl_runs rl))
       else r = DD_ERR_NOMEM \<and> expand (rl_runs rl') = expand (rl_runs rl))"
    by (rule rl_apply_facts[OF assms(1,4) s])
  show "expand (rl_runs (rl_merge rl)) = expand (rl_runs rl)" "rl_normal (rl_runs (rl_merge rl))"
    by (rule rl_merge_facts[OF assms(1)])+
qed

theorem runs_refine_witness:
  "let rl = \<lparr>rl_runs = [(2, True), (3, False)], rl_cap = 8\<rparr>
   in expand (rl_runs (fst (the (rl_delete False True rl 1 2)))) = [True, False, False] \<and>
      expand (rl_runs (fst (the (rl_apply True True Not rl 1 2)))) = [True, False, True, False, False]"
proof -
  let ?rl = "\<lparr>rl_runs = [(2, True), (3, False)], rl_cap = 8\<rparr> :: bool runlist"
  have u: "unat (2 :: u32) = Suc (Suc 0)" "unat (3 :: u32) = Suc (Suc (Suc 0))" "unat (1 :: u32) = Suc 0" by simp_all
  have x: "expand (rl_runs ?rl) = [True, True, False, False, False]"
    unfolding expand_def by (simp only: runlist.simps list.map prod.case concat.simps u replicate.simps append_Cons append_Nil)
  have h: "rl_inv ?rl" "unat (1 :: u32) \<le> length (expand (rl_runs ?rl))" "length (expand (rl_runs ?rl)) + unat (2 :: u32) < 2 ^ 32"
    "length (rl_runs ?rl) < 2147483638" unfolding rl_inv_def x by simp_all
  have a: "rl_apply True True Not ?rl 1 2 = Some (rl', r) \<Longrightarrow> r = DD_OK" for rl' r
    by (auto simp: rl_apply_def rl_split_at_def rl_reserve_def rl_n_def rl_find_def Let_def split: if_splits bind_splits prod.splits)
  have r2: "replicate 2 False = [False, False]" by (simp add: numeral_2_eq_2)
  show ?thesis using runs_refine[OF h, of False True True True Not] x a by (auto simp: Let_def r2 split: if_splits)
qed

end
