(* ===== verification/Document.thy ===== *)
theory Document
  imports Runs
begin

text \<open>
  The document object of the document library, \<^verbatim>\<open>libdobdoc/src/document.c\<close>: formats and styles, the undo machinery, sections,
  paragraphs, queries and the editing operations, over the piece table and the runs.  Signed fields are kept as their bits
  and read with \<^verbatim>\<open>sint\<close>.  The growable arrays of undo states, sections, styles and family names are lists; a function
  \<^verbatim>\<open>al\<close> gives the answer of the allocation at each numbered place of a call (also when the array has room).
  The outer None is a loop that does not end or an access through a pointer that is not valid.

  The theory shows that text and attributes keep the same length over every edit, undo and redo, that undo restores the document, and that the
  effective format of a character follows the cascade.
\<close>

section \<open>Formats\<close>

definition DD_CF_FAMILY :: u16 where "DD_CF_FAMILY = 0x1"
definition DD_CF_SIZE :: u16 where "DD_CF_SIZE = 0x2"
definition DD_CF_BOLD :: u16 where "DD_CF_BOLD = 0x4"
definition DD_CF_ITALIC :: u16 where "DD_CF_ITALIC = 0x8"
definition DD_CF_UNDERLINE :: u16 where "DD_CF_UNDERLINE = 0x10"
definition DD_CF_COLOR :: u16 where "DD_CF_COLOR = 0x20"
definition DD_CF_STRIKE :: u16 where "DD_CF_STRIKE = 0x40"
definition DD_CF_HIGHLIGHT :: u16 where "DD_CF_HIGHLIGHT = 0x80"

definition DD_PF_ALIGN :: u16 where "DD_PF_ALIGN = 0x1"
definition DD_PF_INDENT_LEFT :: u16 where "DD_PF_INDENT_LEFT = 0x2"
definition DD_PF_INDENT_RIGHT :: u16 where "DD_PF_INDENT_RIGHT = 0x4"
definition DD_PF_INDENT_FIRST :: u16 where "DD_PF_INDENT_FIRST = 0x8"
definition DD_PF_SPACE_BEFORE :: u16 where "DD_PF_SPACE_BEFORE = 0x10"
definition DD_PF_SPACE_AFTER :: u16 where "DD_PF_SPACE_AFTER = 0x20"
definition DD_PF_LINE_SPACING :: u16 where "DD_PF_LINE_SPACING = 0x40"
definition DD_PF_STYLE :: u16 where "DD_PF_STYLE = 0x80"

definition ALL_CF :: u16 where
  "ALL_CF = DD_CF_FAMILY OR DD_CF_SIZE OR DD_CF_BOLD OR DD_CF_ITALIC OR DD_CF_UNDERLINE OR DD_CF_STRIKE OR DD_CF_COLOR OR DD_CF_HIGHLIGHT"


definition UNDO_MAX :: nat where "UNDO_MAX = 500"

record CharFmt =
  cf_mask :: u16
  cf_family_id :: u16
  cf_size_twips :: u32
  cf_bold :: u8
  cf_italic :: u8
  cf_underline :: u8
  cf_strike :: u8
  cf_color :: u32
  cf_highlight :: u32

record ParaFmt =
  pf_mask :: u16
  pf_align :: u8
  pf_indent_left :: u32
  pf_indent_right :: u32
  pf_indent_first :: u32
  pf_space_before :: u32
  pf_space_after :: u32
  pf_line_spacing :: u32
  pf_style_id :: u16

record Style =
  st_name :: "u8 list"
  st_parent :: u16
  st_cf :: CharFmt
  st_pf :: ParaFmt

record PageSetup =
  pg_width :: u32
  pg_height :: u32
  pg_margin_left :: u32
  pg_margin_right :: u32
  pg_margin_top :: u32
  pg_margin_bottom :: u32
  pg_bg_color :: u32
  pg_columns :: u32
  pg_column_gap :: u32

definition zero_cf :: CharFmt where
  "zero_cf = \<lparr>cf_mask = 0, cf_family_id = 0, cf_size_twips = 0, cf_bold = 0, cf_italic = 0, cf_underline = 0, cf_strike = 0,
     cf_color = 0, cf_highlight = 0\<rparr>"

definition zero_pf :: ParaFmt where
  "zero_pf = \<lparr>pf_mask = 0, pf_align = 0, pf_indent_left = 0, pf_indent_right = 0, pf_indent_first = 0, pf_space_before = 0,
     pf_space_after = 0, pf_line_spacing = 0, pf_style_id = 0\<rparr>"

definition has :: "u16 \<Rightarrow> u16 \<Rightarrow> bool" where
  "has m b \<longleftrightarrow> m AND b \<noteq> 0"

definition overlay_char :: "CharFmt \<Rightarrow> CharFmt \<Rightarrow> CharFmt" where
  "overlay_char o1 b =
     (let m = cf_mask o1;
          b1 = (if has m DD_CF_FAMILY then b\<lparr>cf_family_id := cf_family_id o1, cf_mask := cf_mask b OR DD_CF_FAMILY\<rparr> else b);
          b2 = (if has m DD_CF_SIZE then b1\<lparr>cf_size_twips := cf_size_twips o1, cf_mask := cf_mask b1 OR DD_CF_SIZE\<rparr> else b1);
          b3 = (if has m DD_CF_BOLD then b2\<lparr>cf_bold := cf_bold o1, cf_mask := cf_mask b2 OR DD_CF_BOLD\<rparr> else b2);
          b4 = (if has m DD_CF_ITALIC then b3\<lparr>cf_italic := cf_italic o1, cf_mask := cf_mask b3 OR DD_CF_ITALIC\<rparr> else b3);
          b5 = (if has m DD_CF_UNDERLINE then b4\<lparr>cf_underline := cf_underline o1, cf_mask := cf_mask b4 OR DD_CF_UNDERLINE\<rparr> else b4);
          b6 = (if has m DD_CF_STRIKE then b5\<lparr>cf_strike := cf_strike o1, cf_mask := cf_mask b5 OR DD_CF_STRIKE\<rparr> else b5);
          b7 = (if has m DD_CF_COLOR then b6\<lparr>cf_color := cf_color o1, cf_mask := cf_mask b6 OR DD_CF_COLOR\<rparr> else b6)
      in if has m DD_CF_HIGHLIGHT then b7\<lparr>cf_highlight := cf_highlight o1, cf_mask := cf_mask b7 OR DD_CF_HIGHLIGHT\<rparr> else b7)"

definition overlay_para :: "ParaFmt \<Rightarrow> ParaFmt \<Rightarrow> ParaFmt" where
  "overlay_para o1 b =
     (let m = pf_mask o1;
          b1 = (if has m DD_PF_ALIGN then b\<lparr>pf_align := pf_align o1, pf_mask := pf_mask b OR DD_PF_ALIGN\<rparr> else b);
          b2 = (if has m DD_PF_INDENT_LEFT then b1\<lparr>pf_indent_left := pf_indent_left o1, pf_mask := pf_mask b1 OR DD_PF_INDENT_LEFT\<rparr> else b1);
          b3 = (if has m DD_PF_INDENT_RIGHT then b2\<lparr>pf_indent_right := pf_indent_right o1, pf_mask := pf_mask b2 OR DD_PF_INDENT_RIGHT\<rparr> else b2);
          b4 = (if has m DD_PF_INDENT_FIRST then b3\<lparr>pf_indent_first := pf_indent_first o1, pf_mask := pf_mask b3 OR DD_PF_INDENT_FIRST\<rparr> else b3);
          b5 = (if has m DD_PF_SPACE_BEFORE then b4\<lparr>pf_space_before := pf_space_before o1, pf_mask := pf_mask b4 OR DD_PF_SPACE_BEFORE\<rparr> else b4);
          b6 = (if has m DD_PF_SPACE_AFTER then b5\<lparr>pf_space_after := pf_space_after o1, pf_mask := pf_mask b5 OR DD_PF_SPACE_AFTER\<rparr> else b5);
          b7 = (if has m DD_PF_LINE_SPACING then b6\<lparr>pf_line_spacing := pf_line_spacing o1, pf_mask := pf_mask b6 OR DD_PF_LINE_SPACING\<rparr> else b6)
      in if has m DD_PF_STYLE then b7\<lparr>pf_style_id := pf_style_id o1, pf_mask := pf_mask b7 OR DD_PF_STYLE\<rparr> else b7)"

section \<open>The document\<close>

record undo_state =
  us_pc :: "piece list"
  us_total :: u32
  us_cruns :: "CharFmt runlist"
  us_pruns :: "ParaFmt runlist"
  us_sruns :: "u32 runlist"
  us_sections :: "PageSetup list"

record df_doc =
  d_pt :: piecetable
  d_cruns :: "CharFmt runlist"
  d_pruns :: "ParaFmt runlist"
  d_def_cf :: CharFmt
  d_sruns :: "u32 runlist"
  d_sections :: "PageSetup list"
  d_styles :: "Style list"
  d_fam :: "u8 list option list"
  d_ustack :: "undo_state list"
  d_rstack :: "undo_state list"

text \<open>The parents of a style, nearest first, at most 16.\<close>

fun style_chain :: "Style list \<Rightarrow> nat \<Rightarrow> int \<Rightarrow> Style list" where
  "style_chain sts 0 s = []"
| "style_chain sts (Suc k) s =
     (if 0 \<le> s \<and> s < int (length sts) then sts ! nat s # style_chain sts k (sint (st_parent (sts ! nat s))) else [])"

definition resolve_style_char :: "df_doc \<Rightarrow> int \<Rightarrow> CharFmt" where
  "resolve_style_char d style_id =
     (fold overlay_char (List.map st_cf (rev (style_chain (d_styles d) 16 style_id))) (d_def_cf d))\<lparr>cf_mask := ALL_CF\<rparr>"


section \<open>Undo\<close>

type_synonym answers = "nat \<Rightarrow> bool"

text \<open>The inner None is \<^verbatim>\<open>DD_ERR_NOMEM\<close>.\<close>

definition snapshot :: "answers \<Rightarrow> df_doc \<Rightarrow> undo_state option option" where
  "snapshot al d =
     (case pt_snapshot (al 0) (d_pt d) of
        None \<Rightarrow> Some None
      | Some (ps, tot) \<Rightarrow>
          do { (cr, r1) \<leftarrow> rl_copy (al 1) (d_cruns d);
               if r1 \<noteq> DD_OK then Some None
               else do { (pr, r2) \<leftarrow> rl_copy (al 2) (d_pruns d);
               if r2 \<noteq> DD_OK then Some None
               else do { (sr, r3) \<leftarrow> rl_copy (al 3) (d_sruns d);
               if r3 \<noteq> DD_OK \<or> \<not> al 4 then Some None
               else Some (Some \<lparr>us_pc = ps, us_total = tot, us_cruns = cr, us_pruns = pr, us_sruns = sr, us_sections = d_sections d\<rparr>) } } })"

definition apply_state :: "answers \<Rightarrow> df_doc \<Rightarrow> undo_state \<Rightarrow> df_doc option" where
  "apply_state al d us =
     do { pt \<leftarrow> pt_restore (al 6) (us_pc us) (us_total us) (d_pt d);
          (cr, r1) \<leftarrow> rl_copy (al 7) (us_cruns us);
          (pr, r2) \<leftarrow> rl_copy (al 8) (us_pruns us);
          (sr, r3) \<leftarrow> rl_copy (al 9) (us_sruns us);
          Some (d\<lparr>d_pt := pt, d_cruns := cr, d_pruns := pr, d_sruns := sr,
                  d_sections := (if al 10 then us_sections us else d_sections d)\<rparr>) }"

definition begin_edit :: "answers \<Rightarrow> df_doc \<Rightarrow> (df_doc \<times> dd_result) option" where
  "begin_edit al d =
     do { s \<leftarrow> snapshot al d;
          case s of
            None \<Rightarrow> Some (d, DD_ERR_NOMEM)
          | Some us \<Rightarrow>
              if \<not> al 5 then Some (d, DD_ERR_NOMEM)
              else let st = d_ustack d @ [us]
                   in Some (d\<lparr>d_ustack := drop (length st - UNDO_MAX) st, d_rstack := []\<rparr>, DD_OK) }"

definition df_doc_can_undo :: "df_doc \<Rightarrow> bool" where "df_doc_can_undo d \<longleftrightarrow> length (d_ustack d) > 0"
definition df_doc_can_redo :: "df_doc \<Rightarrow> bool" where "df_doc_can_redo d \<longleftrightarrow> length (d_rstack d) > 0"

definition df_doc_undo :: "answers \<Rightarrow> df_doc \<Rightarrow> (df_doc \<times> dd_result) option" where
  "df_doc_undo al d =
     (if d_ustack d = [] then Some (d, DD_ERR_RANGE)
      else do { s \<leftarrow> snapshot al d;
        case s of
          None \<Rightarrow> Some (d, DD_ERR_NOMEM)
        | Some cur \<Rightarrow>
            if \<not> al 5 then Some (d, DD_ERR_NOMEM)
            else do { d' \<leftarrow> apply_state al (d\<lparr>d_rstack := d_rstack d @ [cur], d_ustack := butlast (d_ustack d)\<rparr>) (last (d_ustack d));
                      Some (d', DD_OK) } })"

definition df_doc_redo :: "answers \<Rightarrow> df_doc \<Rightarrow> (df_doc \<times> dd_result) option" where
  "df_doc_redo al d =
     (if d_rstack d = [] then Some (d, DD_ERR_RANGE)
      else do { s \<leftarrow> snapshot al d;
        case s of
          None \<Rightarrow> Some (d, DD_ERR_NOMEM)
        | Some cur \<Rightarrow>
            if \<not> al 5 then Some (d, DD_ERR_NOMEM)
            else do { d' \<leftarrow> apply_state al (d\<lparr>d_ustack := d_ustack d @ [cur], d_rstack := butlast (d_rstack d)\<rparr>) (last (d_rstack d));
                      Some (d', DD_OK) } })"
section \<open>Sections, families and styles\<close>

definition sect_add :: "bool \<Rightarrow> df_doc \<Rightarrow> PageSetup \<Rightarrow> df_doc \<times> int" where
  "sect_add ok d p =
     (if \<not> ok then (d, -1) else (d\<lparr>d_sections := d_sections d @ [p]\<rparr>, int (length (d_sections d))))"

definition c_string :: "nat \<Rightarrow> u8 list \<Rightarrow> u8 list" where
  "c_string n xs = take (n - 1) (takeWhile (\<lambda>c. c \<noteq> 0) xs)"

definition df_doc_style_define ::
  "bool \<Rightarrow> df_doc \<Rightarrow> u8 list option \<Rightarrow> int \<Rightarrow> CharFmt option \<Rightarrow> ParaFmt option \<Rightarrow> df_doc \<times> int" where
  "df_doc_style_define ok d name parent_in cf pf =
     (if \<not> ok then (d, -1)
      else (d\<lparr>d_styles := d_styles d @
              [\<lparr>st_name = (case name of Some s \<Rightarrow> c_string 48 s | None \<Rightarrow> []), st_parent = word_of_int parent_in,
                st_cf = (case cf of Some c \<Rightarrow> c | None \<Rightarrow> zero_cf), st_pf = (case pf of Some q \<Rightarrow> q | None \<Rightarrow> zero_pf)\<rparr>]\<rparr>,
            int (length (d_styles d))))"

definition df_doc_style_count :: "df_doc \<Rightarrow> int" where "df_doc_style_count d = int (length (d_styles d))"

definition df_doc_style_get :: "df_doc \<Rightarrow> int \<Rightarrow> dd_result + Style" where
  "df_doc_style_get d i =
     (if i < 0 \<or> i \<ge> int (length (d_styles d)) then Inl DD_ERR_RANGE else Inr (d_styles d ! nat i))"

definition default_page :: PageSetup where
  "default_page = \<lparr>pg_width = 11906, pg_height = 16838, pg_margin_left = 1440, pg_margin_right = 1440, pg_margin_top = 1440,
     pg_margin_bottom = 1440, pg_bg_color = 0xFFFFFFFF, pg_columns = 1, pg_column_gap = 720\<rparr>"

text \<open>Creation: Some None when there is no memory for the object or its first section; other failures are passed over.\<close>

definition df_doc_create :: "answers \<Rightarrow> df_doc option option" where
  "df_doc_create al =
     (if \<not> al 0 then Some None
      else do { (cr, r1) \<leftarrow> rl_reset_single (al 1) rl_init 0 zero_cf;
                (pr, r2) \<leftarrow> rl_reset_single (al 2) rl_init 0 (zero_pf\<lparr>pf_style_id := 0xFFFF\<rparr>);
                if \<not> al 3 then Some None
                else do { (sr, r3) \<leftarrow> rl_reset_single (al 4) rl_init 0 0;
                  Some (Some (fst (df_doc_style_define (al 6)
                    \<lparr>d_pt = pt_init, d_cruns = cr, d_pruns = pr,
                     d_def_cf = zero_cf\<lparr>cf_mask := ALL_CF, cf_size_twips := 220, cf_color := 0xFF000000\<rparr>,
                     d_sruns = sr, d_sections = [default_page], d_styles = [],
                     d_fam = (if al 5 then [Some []] else []), d_ustack = [], d_rstack = []\<rparr>
                    (Some [78, 111, 114, 109, 97, 108]) (-1) (Some zero_cf) (Some (zero_pf\<lparr>pf_style_id := 0xFFFF\<rparr>))))) } })"


definition df_doc_family_name :: "df_doc \<Rightarrow> u16 \<Rightarrow> u8 list" where
  "df_doc_family_name d i =
     (if unat i < length (d_fam d) then (case d_fam d ! unat i of Some s \<Rightarrow> s | None \<Rightarrow> []) else [])"

definition df_doc_get_default_char :: "df_doc \<Rightarrow> CharFmt" where "df_doc_get_default_char d = d_def_cf d"


definition section_of :: "df_doc \<Rightarrow> u32 \<Rightarrow> PageSetup option" where
  "section_of d si = (if unat si < length (d_sections d) then Some (d_sections d ! unat si) else None)"




definition df_doc_section_count :: "df_doc \<Rightarrow> u32" where "df_doc_section_count d = rl_n (d_sruns d)"

definition df_doc_section_at :: "df_doc \<Rightarrow> u32 \<Rightarrow> nat" where
  "df_doc_section_at d pos =
     (case rl_find (d_sruns d) pos of (idx, within) \<Rightarrow>
        if idx \<ge> length (rl_runs (d_sruns d))
        then (if rl_runs (d_sruns d) \<noteq> [] then length (rl_runs (d_sruns d)) - 1 else 0) else idx)"

definition df_doc_section_range :: "df_doc \<Rightarrow> nat \<Rightarrow> dd_result + u32 \<times> u32" where
  "df_doc_section_range d ordinal =
     (if ordinal \<ge> length (rl_runs (d_sruns d)) then Inl DD_ERR_RANGE
      else Inr (fold (\<lambda>l s. s + l) (List.map fst (take ordinal (rl_runs (d_sruns d)))) 0, fst (rl_runs (d_sruns d) ! ordinal)))"

definition df_doc_section_page :: "df_doc \<Rightarrow> nat \<Rightarrow> (dd_result + PageSetup) option" where
  "df_doc_section_page d ordinal =
     (if ordinal \<ge> length (rl_runs (d_sruns d)) then Some (Inl DD_ERR_RANGE)
      else do { p \<leftarrow> section_of d (rl_payload (d_sruns d) ordinal); Some (Inr p) })"

section \<open>Paragraphs and queries\<close>

definition newlines_before :: "piecetable \<Rightarrow> u32 \<Rightarrow> u32" where
  "newlines_before pt pos = fold (\<lambda>i nl. if pt_byte_at pt i = 10 then nl + 1 else nl) (words_from 0 pos) 0"

definition df_doc_para_count :: "df_doc \<Rightarrow> u32" where
  "df_doc_para_count d = newlines_before (d_pt d) (pt_total (d_pt d)) + 1"

definition df_doc_para_at :: "df_doc \<Rightarrow> u32 \<Rightarrow> u32" where
  "df_doc_para_at d pos = newlines_before (d_pt d) (if pos > pt_total (d_pt d) then pt_total (d_pt d) else pos)"

fun para_loop :: "piecetable \<Rightarrow> u32 \<Rightarrow> u32 list \<Rightarrow> u32 \<Rightarrow> u32 \<Rightarrow> (dd_result + u32 \<times> u32)" where
  "para_loop pt index [] cur s = (if cur = index then Inr (s, pt_total pt - s) else Inl DD_ERR_RANGE)"
| "para_loop pt index (p # ps) cur s =
     (if pt_byte_at pt p = 10
      then if cur = index then Inr (s, p + 1 - s) else para_loop pt index ps (cur + 1) (p + 1)
      else para_loop pt index ps cur s)"

definition df_doc_para_range :: "df_doc \<Rightarrow> u32 \<Rightarrow> dd_result + u32 \<times> u32" where
  "df_doc_para_range d index = para_loop (d_pt d) index (words_from 0 (pt_total (d_pt d))) 0 0"

definition para_style :: "ParaFmt \<Rightarrow> int" where
  "para_style direct = (if has (pf_mask direct) DD_PF_STYLE then sint (pf_style_id direct) else 0)"


definition df_doc_length :: "df_doc \<Rightarrow> u32" where "df_doc_length d = pt_total (d_pt d)"

definition df_doc_get_text :: "df_doc \<Rightarrow> u32 \<Rightarrow> u32 \<Rightarrow> u32 \<Rightarrow> u8 list" where
  "df_doc_get_text d pos n cap = pt_get_text (d_pt d) pos n cap"

definition df_doc_char_fmt_at_para :: "df_doc \<Rightarrow> u32 \<Rightarrow> u32 \<Rightarrow> CharFmt option" where
  "df_doc_char_fmt_at_para d para_start pos =
     do { pdirect \<leftarrow> rl_payload_at (d_pruns d) para_start;
          direct \<leftarrow> rl_payload_at (d_cruns d) pos;
          Some ((overlay_char direct (resolve_style_char d (para_style pdirect)))\<lparr>cf_mask := ALL_CF\<rparr>) }"

definition df_doc_char_fmt_at :: "df_doc \<Rightarrow> u32 \<Rightarrow> CharFmt option" where
  "df_doc_char_fmt_at d pos =
     (let pstart = (case df_doc_para_range d (df_doc_para_at d pos) of Inr (s, l) \<Rightarrow> s | Inl _ \<Rightarrow> 0)
      in do { pdirect \<leftarrow> rl_payload_at (d_pruns d) pstart;
              direct \<leftarrow> rl_payload_at (d_cruns d) pos;
              Some ((overlay_char direct (resolve_style_char d (para_style pdirect)))\<lparr>cf_mask := ALL_CF\<rparr>) })"

definition df_doc_next_cp :: "df_doc \<Rightarrow> u32 \<Rightarrow> u32" where
  "df_doc_next_cp d pos =
     (let total_in = pt_total (d_pt d)
      in if pos \<ge> total_in then total_in
         else let b = pt_byte_at (d_pt d) pos;
                  pos1 = pos + (if b < 0x80 then 1 else if b \<ge> 0xF0 then 4 else if b \<ge> 0xE0 then 3 else if b \<ge> 0xC0 then 2 else 1)
              in if pos1 > total_in then total_in else pos1)"

text \<open>At most three steps back; a byte outside the text reads as -1, whose bits are all set.\<close>

fun prev_loop :: "piecetable \<Rightarrow> u32 \<Rightarrow> nat \<Rightarrow> u32 \<Rightarrow> u32" where
  "prev_loop pt pos 0 q = q"
| "prev_loop pt pos (Suc k) q =
     (if q > 0 \<and> (pt_byte_at pt q) AND 0xC0 = 0x80 \<and> pos - q < 4 then prev_loop pt pos k (q - 1) else q)"

definition df_doc_prev_cp :: "df_doc \<Rightarrow> u32 \<Rightarrow> u32" where
  "df_doc_prev_cp d pos = (if pos = 0 then 0 else prev_loop (d_pt d) pos 4 (pos - 1))"

section \<open>Editing\<close>

definition do_apply_char :: "answers \<Rightarrow> df_doc \<Rightarrow> u32 \<Rightarrow> u32 \<Rightarrow> CharFmt option \<Rightarrow> (df_doc \<times> dd_result) option" where
  "do_apply_char al d pos n cf =
     (case cf of
        None \<Rightarrow> Some (d, DD_OK)
      | Some c \<Rightarrow> if cf_mask c = 0 \<or> n = 0 then Some (d, DD_OK)
                  else do { (cr, r) \<leftarrow> rl_apply (al 13) (al 14) (overlay_char c) (d_cruns d) pos n; Some (d\<lparr>d_cruns := cr\<rparr>, r) })"

definition do_set_para :: "answers \<Rightarrow> df_doc \<Rightarrow> u32 \<Rightarrow> u32 \<Rightarrow> ParaFmt option \<Rightarrow> (df_doc \<times> dd_result) option" where
  "do_set_para al d pos n pf =
     (case pf of
        None \<Rightarrow> Some (d, DD_OK)
      | Some q \<Rightarrow> if pf_mask q = 0 then Some (d, DD_OK)
          else let total_in = pt_total (d_pt d);
                   pos1 = (if pos > total_in then total_in else pos);
                   fin = (if n = 0 then pos1 else pos1 + n - 1);
                   fin1 = (if fin > total_in then (if total_in \<noteq> 0 then total_in - 1 else 0) else fin);
                   range = (\<lambda>p. case df_doc_para_range d p of Inr r \<Rightarrow> r | Inl _ \<Rightarrow> (0, 0));
                   (s0, l0) = range (df_doc_para_at d pos1);
                   (s1, l1) = range (df_doc_para_at d fin1);
                   span = (s1 + l1) - s0
               in if span = 0 then Some (d, DD_OK)
                  else do { (pr, r) \<leftarrow> rl_apply (al 13) (al 14) (overlay_para q) (d_pruns d) s0 span; Some (d\<lparr>d_pruns := pr\<rparr>, r) })"

text \<open>What \<^verbatim>\<open>df_doc_insert\<close> and \<^verbatim>\<open>df_doc_insert_fmt\<close> share.\<close>

definition insert_text :: "answers \<Rightarrow> df_doc \<Rightarrow> u32 \<Rightarrow> u8 list \<Rightarrow> (df_doc \<times> dd_result) option" where
  "insert_text al d pos data =
     do { (pt, r1) \<leftarrow> pt_insert (al 6) (al 7) (d_pt d) pos data;
          let d2 = d\<lparr>d_pt := pt\<rparr>; n = of_nat (length data)
          in if r1 \<noteq> DD_OK then Some (d2, r1)
             else do { (cr, c1) \<leftarrow> rl_insert zero_cf (al 8) (d_cruns d2) pos n;
                       (pr, c2) \<leftarrow> rl_insert zero_pf (al 9) (d_pruns d2) pos n;
                       (sr, c3) \<leftarrow> rl_insert 0 (al 10) (d_sruns d2) pos n;
                       Some (d2\<lparr>d_cruns := cr, d_pruns := pr, d_sruns := sr\<rparr>, DD_OK) } }"

definition insert_core :: "answers \<Rightarrow> df_doc \<Rightarrow> u32 \<Rightarrow> u8 list \<Rightarrow> (df_doc \<times> dd_result) option" where
  "insert_core al d pos data =
     do { (d1, r) \<leftarrow> begin_edit al d; if r \<noteq> DD_OK then Some (d1, r) else insert_text al d1 pos data }"

definition df_doc_insert :: "answers \<Rightarrow> df_doc \<Rightarrow> u32 \<Rightarrow> u8 list \<Rightarrow> (df_doc \<times> dd_result) option" where
  "df_doc_insert al d pos data =
     (if pos > pt_total (d_pt d) then Some (d, DD_ERR_RANGE)
      else if of_nat (length data) = (0 :: u32) then Some (d, DD_OK)
      else insert_core al d pos data)"

definition df_doc_insert_fmt :: "answers \<Rightarrow> df_doc \<Rightarrow> u32 \<Rightarrow> u8 list \<Rightarrow> CharFmt option \<Rightarrow> (df_doc \<times> dd_result) option" where
  "df_doc_insert_fmt al d pos data overrides =
     (if pos > pt_total (d_pt d) then Some (d, DD_ERR_RANGE)
      else if of_nat (length data) = (0 :: u32) then Some (d, DD_OK)
      else do { (d1, r) \<leftarrow> insert_core al d pos data;
                if r \<noteq> DD_OK then Some (d1, r)
                else case overrides of
                  None \<Rightarrow> Some (d1, DD_OK)
                | Some c \<Rightarrow> if cf_mask c = 0 then Some (d1, DD_OK)
                            else do { (d2, r2) \<leftarrow> do_apply_char al d1 pos (of_nat (length data)) (Some c); Some (d2, DD_OK) } })"

definition df_doc_delete :: "answers \<Rightarrow> df_doc \<Rightarrow> u32 \<Rightarrow> u32 \<Rightarrow> (df_doc \<times> dd_result) option" where
  "df_doc_delete al d pos n =
     (if pos > pt_total (d_pt d) then Some (d, DD_ERR_RANGE)
      else if n = 0 then Some (d, DD_OK)
      else do { (d1, r) \<leftarrow> begin_edit al d;
        if r \<noteq> DD_OK then Some (d1, r)
        else case pt_delete (al 6) (d_pt d1) pos n of (pt, r1) \<Rightarrow>
          let d2 = d1\<lparr>d_pt := pt\<rparr>
          in if r1 \<noteq> DD_OK then Some (d2, r1)
             else do { (cr, c1) \<leftarrow> rl_delete zero_cf (al 8) (d_cruns d2) pos n;
                       (pr, c2) \<leftarrow> rl_delete zero_pf (al 9) (d_pruns d2) pos n;
                       (sr, c3) \<leftarrow> rl_delete 0 (al 10) (d_sruns d2) pos n;
                       Some (d2\<lparr>d_cruns := cr, d_pruns := pr, d_sruns := sr\<rparr>, DD_OK) } })"

definition df_doc_apply_char_fmt :: "answers \<Rightarrow> df_doc \<Rightarrow> u32 \<Rightarrow> u32 \<Rightarrow> CharFmt option \<Rightarrow> (df_doc \<times> dd_result) option" where
  "df_doc_apply_char_fmt al d pos n cf =
     (if n = 0 \<or> (case cf of None \<Rightarrow> True | Some c \<Rightarrow> cf_mask c = 0) then Some (d, DD_OK)
      else do { (d1, r) \<leftarrow> begin_edit al d; if r \<noteq> DD_OK then Some (d1, r) else do_apply_char al d1 pos n cf })"

definition df_doc_set_para_fmt :: "answers \<Rightarrow> df_doc \<Rightarrow> u32 \<Rightarrow> u32 \<Rightarrow> ParaFmt option \<Rightarrow> (df_doc \<times> dd_result) option" where
  "df_doc_set_para_fmt al d pos n pf =
     (if (case pf of None \<Rightarrow> True | Some q \<Rightarrow> pf_mask q = 0) then Some (d, DD_OK)
      else do { (d1, r) \<leftarrow> begin_edit al d; if r \<noteq> DD_OK then Some (d1, r) else do_set_para al d1 pos n pf })"

definition df_doc_set_para_style :: "answers \<Rightarrow> df_doc \<Rightarrow> u32 \<Rightarrow> u32 \<Rightarrow> int \<Rightarrow> (df_doc \<times> dd_result) option" where
  "df_doc_set_para_style al d pos n style_id =
     df_doc_set_para_fmt al d pos n (Some (zero_pf\<lparr>pf_mask := DD_PF_STYLE, pf_style_id := word_of_int style_id\<rparr>))"

definition df_doc_set_section_page_at :: "answers \<Rightarrow> df_doc \<Rightarrow> u32 \<Rightarrow> PageSetup \<Rightarrow> (df_doc \<times> dd_result) option" where
  "df_doc_set_section_page_at al d pos p =
     (if pos > pt_total (d_pt d) then Some (d, DD_ERR_RANGE)
      else do { (d1, r) \<leftarrow> begin_edit al d;
        if r \<noteq> DD_OK then Some (d1, r)
        else do { si \<leftarrow> rl_payload_at (d_sruns d1) pos;
                  if unat si < length (d_sections d1)
                  then Some (d1\<lparr>d_sections := (d_sections d1)[unat si := p]\<rparr>, DD_OK) else None } })"

definition df_doc_insert_section_break :: "answers \<Rightarrow> df_doc \<Rightarrow> u32 \<Rightarrow> (df_doc \<times> dd_result) option" where
  "df_doc_insert_section_break al d pos =
     (if pos > pt_total (d_pt d) then Some (d, DD_ERR_RANGE)
      else case rl_find (d_sruns d) pos of (fidx, fwithin) \<Rightarrow>
        if fwithin = 0 then Some (d, DD_OK)
        else do { (d1, r) \<leftarrow> begin_edit al d;
          if r \<noteq> DD_OK then Some (d1, r)
          else do { (sr, a) \<leftarrow> rl_split_at (al 6) (d_sruns d1) pos;
            case a of
              Inl e \<Rightarrow> Some (d1\<lparr>d_sruns := sr\<rparr>, e)
            | Inr idx \<Rightarrow>
                do { tmp \<leftarrow> section_of d1 (rl_payload sr idx);
                     case sect_add (al 7) (d1\<lparr>d_sruns := sr\<rparr>) tmp of (d2, ns) \<Rightarrow>
                       if ns < 0 then Some (d2\<lparr>d_sruns := rl_merge (d_sruns d2)\<rparr>, DD_ERR_NOMEM)
                       else Some (d2\<lparr>d_sruns := (d_sruns d2)\<lparr>rl_runs := (rl_runs (d_sruns d2))
                              [idx := (fst (rl_runs (d_sruns d2) ! idx), word_of_int ns)]\<rparr>\<rparr>, DD_OK) } } })"

definition df_doc_remove_section_break :: "answers \<Rightarrow> df_doc \<Rightarrow> u32 \<Rightarrow> (df_doc \<times> dd_result) option" where
  "df_doc_remove_section_break al d pos =
     (case rl_find (d_sruns d) pos of (idx, within) \<Rightarrow>
        if within \<noteq> 0 \<or> idx = 0 then Some (d, DD_OK)
        else do { (d1, r) \<leftarrow> begin_edit al d;
          if r \<noteq> DD_OK then Some (d1, r)
          else let rs = rl_runs (d_sruns d1)
               in if idx < length rs
                  then Some (d1\<lparr>d_sruns := rl_merge ((d_sruns d1)\<lparr>rl_runs := rs[idx := (fst (rs ! idx), snd (rs ! (idx - 1)))]\<rparr>)\<rparr>, DD_OK)
                  else None })"

section \<open>The invariant\<close>

text \<open>
  A state of the document is well formed over the buffers of a piece table: its pieces lie in the buffers, and the three
  run lists have one payload for every byte; a section index names a section.  The document is well formed when its own state and every
  state on the two stacks are.
\<close>

definition runs_ok :: "nat \<Rightarrow> 'a runlist \<Rightarrow> bool" where
  "runs_ok len rl \<longleftrightarrow> rl_inv rl \<and> length (expand (rl_runs rl)) = len \<and> length (rl_runs rl) \<le> 2147483648"

definition us_ok :: "piecetable \<Rightarrow> undo_state \<Rightarrow> bool" where
  "us_ok pt us \<longleftrightarrow> list_all (piece_ok pt) (us_pc us) \<and> length (us_pc us) < 2 ^ 32 \<and> unat (us_total us) = length (bytes_of pt (us_pc us)) \<and>
     runs_ok (length (bytes_of pt (us_pc us))) (us_cruns us) \<and> runs_ok (length (bytes_of pt (us_pc us))) (us_pruns us) \<and> runs_ok (length (bytes_of pt (us_pc us))) (us_sruns us) \<and>
     us_sections us \<noteq> [] \<and> (\<forall>si\<in>payloads (rl_runs (us_sruns us)). unat si < length (us_sections us))"

definition now :: "df_doc \<Rightarrow> undo_state" where
  "now d = \<lparr>us_pc = pt_pc (d_pt d), us_total = pt_total (d_pt d), us_cruns = d_cruns d, us_pruns = d_pruns d, us_sruns = d_sruns d,
     us_sections = d_sections d\<rparr>"

definition doc_inv :: "df_doc \<Rightarrow> bool" where
  "doc_inv d \<longleftrightarrow> pt_inv (d_pt d) \<and> us_ok (d_pt d) (now d) \<and> (\<forall>us\<in>set (d_ustack d) \<union> set (d_rstack d). us_ok (d_pt d) us)"

text \<open>What a state says: the bytes, a format for every byte, a section for every byte, and the sections.\<close>

type_synonym content = "u8 list \<times> CharFmt list \<times> ParaFmt list \<times> u32 list \<times> PageSetup list"

definition us_content :: "piecetable \<Rightarrow> undo_state \<Rightarrow> content" where
  "us_content pt us = (bytes_of pt (us_pc us), expand (rl_runs (us_cruns us)), expand (rl_runs (us_pruns us)), expand (rl_runs (us_sruns us)), us_sections us)"

definition doc_content :: "df_doc \<Rightarrow> content" where
  "doc_content d = us_content (d_pt d) (now d)"

definition grown :: "piecetable \<Rightarrow> piecetable \<Rightarrow> bool" where
  "grown pt pt' \<longleftrightarrow> pt_orig pt' = pt_orig pt \<and> (\<exists>xs. pt_add pt' = pt_add pt @ xs)"

lemma grown_refl [simp]: "grown pt pt"
  by (simp add: grown_def)

lemma grown_trans: "grown a b \<Longrightarrow> grown b c \<Longrightarrow> grown a c"
  unfolding grown_def by auto

lemma us_ok_grown:
  assumes "grown pt pt'" "us_ok pt us"
  shows "us_ok pt' us" "us_content pt' us = us_content pt us"
proof -
  obtain xs where g: "pt_orig pt' = pt_orig pt" "pt_add pt' = pt_add pt @ xs" using assms(1) by (auto simp: grown_def)
  have "list_all (piece_ok pt) (us_pc us)" using assms(2) by (simp add: us_ok_def)
  from bytes_grown[OF g this] show "us_ok pt' us" "us_content pt' us = us_content pt us"
    using assms(2) by (simp_all add: us_ok_def us_content_def)
qed

lemma doc_content_simps: "doc_content d = (pt_text (d_pt d), expand (rl_runs (d_cruns d)), expand (rl_runs (d_pruns d)), expand (rl_runs (d_sruns d)), d_sections d)"
  by (simp add: doc_content_def us_content_def now_def pt_text_bytes)

lemma us_ok_now:
  "us_ok (d_pt d) (now d) \<longleftrightarrow> list_all (piece_ok (d_pt d)) (pt_pc (d_pt d)) \<and> length (pt_pc (d_pt d)) < 2 ^ 32 \<and>
     unat (pt_total (d_pt d)) = length (pt_text (d_pt d)) \<and> runs_ok (length (pt_text (d_pt d))) (d_cruns d) \<and>
     runs_ok (length (pt_text (d_pt d))) (d_pruns d) \<and> runs_ok (length (pt_text (d_pt d))) (d_sruns d) \<and>
     d_sections d \<noteq> [] \<and> (\<forall>si\<in>payloads (rl_runs (d_sruns d)). unat si < length (d_sections d))"
  by (simp add: us_ok_def now_def pt_text_bytes)

lemma doc_invD:
  assumes "doc_inv d"
  shows "pt_inv (d_pt d)" "us_ok (d_pt d) (now d)" "unat (pt_total (d_pt d)) = length (pt_text (d_pt d))"
    "rl_inv (d_cruns d)" "length (expand (rl_runs (d_cruns d))) = length (pt_text (d_pt d))"
    "rl_inv (d_pruns d)" "length (expand (rl_runs (d_pruns d))) = length (pt_text (d_pt d))"
    "rl_inv (d_sruns d)" "length (expand (rl_runs (d_sruns d))) = length (pt_text (d_pt d))"
    "d_sections d \<noteq> []" "\<And>si. si \<in> payloads (rl_runs (d_sruns d)) \<Longrightarrow> unat si < length (d_sections d)"
    "\<And>us. us \<in> set (d_ustack d) \<or> us \<in> set (d_rstack d) \<Longrightarrow> us_ok (d_pt d) us"
  using assms by (auto simp: doc_inv_def us_ok_now runs_ok_def)

lemma rl_copy_facts:
  assumes "rl_inv rl" "length (rl_runs rl) \<le> 2147483648"
  shows "\<exists>rl' r. rl_copy ok rl = Some (rl', r) \<and> (if r = DD_OK then rl_inv rl' \<and> rl_runs rl' = rl_runs rl else r = DD_ERR_NOMEM \<and> \<not> ok)"
proof -
  note I = rl_invD[OF assms(1)]
  have n: "rl_n rl \<le> 0x80000000" using I(4) assms(2) by (simp add: word_le_nat_alt)
  have nc: "\<not> rl_n rl \<le> 0" using I(3,4) by (auto simp: word_le_nat_alt)
  obtain c where c: "grow_cap 8 (rl_n rl) = Some c" "rl_n rl \<le> c" by (rule grow_cap_ends[OF _ n, of 8]) simp
  have "rl_copy ok rl = Some (if ok then (\<lparr>rl_runs = rl_runs rl, rl_cap = c\<rparr>, DD_OK) else (rl_init, DD_ERR_NOMEM))"
    using I(3) c(1) nc by (simp add: rl_copy_def rl_reserve_def rl_init_def)
  then show ?thesis using I c(2) by (auto simp: rl_inv_def word_le_nat_alt)
qed

lemma copy_ok: "runs_ok len rl \<Longrightarrow> rl_inv rl' \<Longrightarrow> rl_runs rl' = rl_runs rl \<Longrightarrow> runs_ok len rl'"
  by (simp add: runs_ok_def)

lemma runs_copy:
  assumes "runs_ok len rl"
  shows "\<exists>rl' r. rl_copy ok rl = Some (rl', r) \<and> (if r = DD_OK then runs_ok len rl' \<and> rl_runs rl' = rl_runs rl else r = DD_ERR_NOMEM \<and> \<not> ok)"
proof -
  have "rl_inv rl" "length (rl_runs rl) \<le> 2147483648" using assms by (simp_all add: runs_ok_def)
  from rl_copy_facts[OF this, of ok] show ?thesis using assms by (elim exE conjE) (auto simp: runs_ok_def split: if_splits)
qed

lemma snapshot_facts:
  assumes "doc_inv d"
  shows "\<exists>s. snapshot al d = Some s \<and> ((\<forall>i. al i) \<longrightarrow> s \<noteq> None) \<and>
    (\<forall>us. s = Some us \<longrightarrow> us_ok (d_pt d) us \<and> us_content (d_pt d) us = doc_content d)"
proof -
  have N: "us_ok (d_pt d) (now d)" by (rule doc_invD(2)[OF assms])
  let ?len = "length (pt_text (d_pt d))"
  have R: "runs_ok ?len (d_cruns d)" "runs_ok ?len (d_pruns d)" "runs_ok ?len (d_sruns d)" using N by (simp_all add: us_ok_now)
  obtain cr r1 where c: "rl_copy (al 1) (d_cruns d) = Some (cr, r1)"
    "if r1 = DD_OK then runs_ok ?len cr \<and> rl_runs cr = rl_runs (d_cruns d) else r1 = DD_ERR_NOMEM \<and> \<not> al 1" using runs_copy[OF R(1)] by blast
  obtain pr r2 where p: "rl_copy (al 2) (d_pruns d) = Some (pr, r2)"
    "if r2 = DD_OK then runs_ok ?len pr \<and> rl_runs pr = rl_runs (d_pruns d) else r2 = DD_ERR_NOMEM \<and> \<not> al 2" using runs_copy[OF R(2)] by blast
  obtain sr r3 where s: "rl_copy (al 3) (d_sruns d) = Some (sr, r3)"
    "if r3 = DD_OK then runs_ok ?len sr \<and> rl_runs sr = rl_runs (d_sruns d) else r3 = DD_ERR_NOMEM \<and> \<not> al 3" using runs_copy[OF R(3)] by blast
  let ?us = "\<lparr>us_pc = pt_pc (d_pt d), us_total = pt_total (d_pt d), us_cruns = cr, us_pruns = pr, us_sruns = sr, us_sections = d_sections d\<rparr>"
  have "snapshot al d = Some (if (pt_npc (d_pt d) \<noteq> 0 \<and> \<not> al 0) \<or> r1 \<noteq> DD_OK \<or> r2 \<noteq> DD_OK \<or> r3 \<noteq> DD_OK \<or> \<not> al 4 then None else Some ?us)"
    using c(1) p(1) s(1) by (auto simp: snapshot_def pt_snapshot_def)
  moreover have "us_ok (d_pt d) ?us \<and> us_content (d_pt d) ?us = doc_content d" if "r1 = DD_OK" "r2 = DD_OK" "r3 = DD_OK"
    using N that c(2) p(2) s(2) by (simp add: us_ok_def us_content_def doc_content_def now_def pt_text_bytes)
  ultimately show ?thesis using c(2) p(2) s(2) by (auto split: if_splits)
qed

text \<open>How the body of an edit, run after \<^verbatim>\<open>begin_edit\<close>, changes the document, and how a whole edit does.\<close>

definition body_post :: "df_doc \<Rightarrow> df_doc \<Rightarrow> dd_result \<Rightarrow> bool" where
  "body_post d d' r \<longleftrightarrow> pt_inv (d_pt d') \<and> us_ok (d_pt d') (now d') \<and> grown (d_pt d) (d_pt d') \<and>
     d_ustack d' = d_ustack d \<and> d_rstack d' = d_rstack d \<and> (r \<noteq> DD_OK \<longrightarrow> doc_content d' = doc_content d)"

definition edit_post :: "df_doc \<Rightarrow> df_doc \<Rightarrow> dd_result \<Rightarrow> bool" where
  "edit_post d d' r \<longleftrightarrow> doc_inv d' \<and> grown (d_pt d) (d_pt d') \<and> (r \<noteq> DD_OK \<longrightarrow> doc_content d' = doc_content d) \<and>
     (d' = d \<or> d_rstack d' = [] \<and> (\<exists>old us. d_ustack d' = old @ [us] \<and> us_ok (d_pt d) us \<and> us_content (d_pt d) us = doc_content d))"

lemma edit_post_same [simp]: "doc_inv d \<Longrightarrow> edit_post d d r"
  by (simp add: edit_post_def)

lemma begin_edit_facts:
  assumes "doc_inv d"
  shows "\<exists>d' r. begin_edit al d = Some (d', r) \<and>
    (if r = DD_OK then (\<exists>old us. set old \<subseteq> set (d_ustack d) \<and> d' = d\<lparr>d_ustack := old @ [us], d_rstack := []\<rparr> \<and>
        us_ok (d_pt d) us \<and> us_content (d_pt d) us = doc_content d) else r = DD_ERR_NOMEM \<and> d' = d)"
proof -
  from snapshot_facts[OF assms, of al] obtain s where s: "snapshot al d = Some s"
    "\<And>us. s = Some us \<Longrightarrow> us_ok (d_pt d) us \<and> us_content (d_pt d) us = doc_content d" by blast
  show ?thesis
  proof (cases "s = None \<or> \<not> al 5")
    case True
    then have "begin_edit al d = Some (d, DD_ERR_NOMEM)" using s(1) by (auto simp: begin_edit_def split: option.splits)
    then show ?thesis by simp
  next
    case False
    then obtain us where us: "s = Some us" "al 5" by auto
    let ?k = "Suc (length (d_ustack d)) - UNDO_MAX"
    have k: "?k \<le> length (d_ustack d)" by (simp add: UNDO_MAX_def)
    then have "drop ?k (d_ustack d @ [us]) = drop ?k (d_ustack d) @ [us]" by simp
    then have "begin_edit al d = Some (d\<lparr>d_ustack := drop ?k (d_ustack d) @ [us], d_rstack := []\<rparr>, DD_OK)"
      using s(1) us by (simp add: begin_edit_def Let_def)
    moreover have "set (drop ?k (d_ustack d)) \<subseteq> set (d_ustack d)" by (rule set_drop_subset)
    ultimately show ?thesis using s(2)[OF us(1)]
      by (intro exI[of _ "d\<lparr>d_ustack := drop ?k (d_ustack d) @ [us], d_rstack := []\<rparr>"] exI[of _ DD_OK]) (auto intro!: exI[of _ "drop ?k (d_ustack d)"] exI[of _ us])
  qed
qed

lemma now_stacks [simp]: "now (d\<lparr>d_ustack := x, d_rstack := y\<rparr>) = now d"
  by (simp add: now_def)

lemma doc_content_stacks [simp]: "doc_content (d\<lparr>d_ustack := x, d_rstack := y\<rparr>) = doc_content d"
  by (simp add: doc_content_def)

lemma edit_of_body:
  assumes "doc_inv d"
    and body: "\<And>d1. doc_inv d1 \<Longrightarrow> d_pt d1 = d_pt d \<Longrightarrow> d_cruns d1 = d_cruns d \<Longrightarrow> d_pruns d1 = d_pruns d \<Longrightarrow> d_sruns d1 = d_sruns d \<Longrightarrow>
      d_sections d1 = d_sections d \<Longrightarrow> \<exists>d2 r. body d1 = Some (d2, r) \<and> body_post d1 d2 r"
  shows "\<exists>d2 r. do { (d1, r) \<leftarrow> begin_edit al d; if r \<noteq> DD_OK then Some (d1, r) else body d1 } = Some (d2, r) \<and> edit_post d d2 r"
proof -
  note I = doc_invD[OF assms(1)]
  from begin_edit_facts[OF assms(1), of al] obtain d1 r where b: "begin_edit al d = Some (d1, r)"
    "if r = DD_OK then (\<exists>old us. set old \<subseteq> set (d_ustack d) \<and> d1 = d\<lparr>d_ustack := old @ [us], d_rstack := []\<rparr> \<and>
        us_ok (d_pt d) us \<and> us_content (d_pt d) us = doc_content d) else r = DD_ERR_NOMEM \<and> d1 = d" by (elim exE conjE)
  show ?thesis
  proof (cases "r = DD_OK")
    case False
    then show ?thesis using b assms(1) by simp
  next
    case True
    then obtain old us where e: "set old \<subseteq> set (d_ustack d)" "d1 = d\<lparr>d_ustack := old @ [us], d_rstack := []\<rparr>"
      "us_ok (d_pt d) us" "us_content (d_pt d) us = doc_content d" using b(2) by auto
    have "doc_inv d1" unfolding doc_inv_def e(2) using I(1,2,12) e(1,3) by auto
    from body[OF this] obtain d2 r2 where d2: "body d1 = Some (d2, r2)" "body_post d1 d2 r2" using e(2) by auto
    have g: "grown (d_pt d) (d_pt d2)" using d2(2) e(2) by (simp add: body_post_def)
    have "doc_inv d2" unfolding doc_inv_def using d2(2) e(1-3) I(12) us_ok_grown(1)[OF g] by (auto simp: body_post_def)
    then have "edit_post d d2 r2" using d2(2) e g by (auto simp: edit_post_def body_post_def)
    then show ?thesis using b(1) True d2(1) by simp
  qed
qed

text \<open>The allocations with which undo and redo put a kept state back; the code goes on when one of them fails.\<close>

definition restores :: "answers \<Rightarrow> bool" where
  "restores al \<longleftrightarrow> al 6 \<and> al 7 \<and> al 8 \<and> al 9 \<and> al 10"

lemma apply_state_facts:
  assumes "doc_inv d" "us_ok (d_pt d) us" "restores al"
  shows "\<exists>d'. apply_state al d us = Some d' \<and> doc_inv d' \<and> doc_content d' = us_content (d_pt d) us \<and> grown (d_pt d) (d_pt d') \<and>
    d_ustack d' = d_ustack d \<and> d_rstack d' = d_rstack d"
proof -
  note I = doc_invD[OF assms(1)]
  have al: "al 6" "al 7" "al 8" "al 9" "al 10" using assms(3) by (simp_all add: restores_def)
  let ?len = "length (bytes_of (d_pt d) (us_pc us))"
  let ?pt = "(d_pt d)\<lparr>pt_pc := us_pc us, pt_cap := of_nat (length (us_pc us)), pt_total := us_total us\<rparr>"
  have U: "list_all (piece_ok (d_pt d)) (us_pc us)" "length (us_pc us) < 2 ^ 32" "unat (us_total us) = ?len"
    "runs_ok ?len (us_cruns us)" "runs_ok ?len (us_pruns us)" "runs_ok ?len (us_sruns us)"
    using assms(2) by (simp_all add: us_ok_def)
  obtain cr where c: "rl_copy (al 7) (us_cruns us) = Some (cr, DD_OK)" "runs_ok ?len cr" "rl_runs cr = rl_runs (us_cruns us)"
    using runs_copy[OF U(4), of "al 7"] al by (auto split: if_splits)
  obtain pr where p: "rl_copy (al 8) (us_pruns us) = Some (pr, DD_OK)" "runs_ok ?len pr" "rl_runs pr = rl_runs (us_pruns us)"
    using runs_copy[OF U(5), of "al 8"] al by (auto split: if_splits)
  obtain sr where s: "rl_copy (al 9) (us_sruns us) = Some (sr, DD_OK)" "runs_ok ?len sr" "rl_runs sr = rl_runs (us_sruns us)"
    using runs_copy[OF U(6), of "al 9"] al by (auto split: if_splits)
  let ?d = "d\<lparr>d_pt := ?pt, d_cruns := cr, d_pruns := pr, d_sruns := sr, d_sections := us_sections us\<rparr>"
  have st: "apply_state al d us = Some ?d" using c(1) p(1) s(1) al by (cases "us_pc us") (simp_all add: apply_state_def pt_restore_def)
  have k: "piece_ok ?pt = piece_ok (d_pt d)" "bytes_of ?pt = bytes_of (d_pt d)" using same_buffers[of ?pt "d_pt d"] by simp_all
  have t: "pt_text ?pt = bytes_of (d_pt d) (us_pc us)" by (simp add: pt_text_bytes k)
  have pi: "pt_inv ?pt" using pt_invD[OF I(1)] U(1-3) k t by (intro pt_invI) (simp_all add: unat_of_nat_u32)
  have n: "us_ok ?pt (now ?d)" using assms(2) c(2,3) p(2,3) s(2,3) k by (simp add: us_ok_def now_def)
  have g: "grown (d_pt d) ?pt" by (simp add: grown_def)
  have "doc_inv ?d" using pi n us_ok_grown(1)[OF g] I(12) by (auto simp: doc_inv_def)
  moreover have "doc_content ?d = us_content (d_pt d) us" using k c(3) p(3) s(3) by (simp add: doc_content_def us_content_def now_def)
  ultimately show ?thesis using st g by simp
qed

section \<open>Every edit keeps the invariant\<close>

text \<open>The room an edit needs: counts far below the machine's, as they are in a 4 GB address space.\<close>

definition roomy :: "df_doc \<Rightarrow> bool" where
  "roomy d \<longleftrightarrow> length (pt_pc (d_pt d)) < 2147483640 \<and> length (rl_runs (d_cruns d)) < 2147483638 \<and> length (rl_runs (d_pruns d)) < 2147483638 \<and>
     length (rl_runs (d_sruns d)) < 2147483638 \<and> length (d_sections d) < 2147483647"

definition room_for :: "df_doc \<Rightarrow> u8 list \<Rightarrow> bool" where
  "room_for d data \<longleftrightarrow> length (pt_text (d_pt d)) + length data < 2 ^ 32 \<and> length (pt_add (d_pt d)) + length data \<le> 2147483648"

lemma insert_body:
  assumes "doc_inv d" "roomy d" "room_for d data" "pos \<le> pt_total (d_pt d)"
  shows "\<exists>d2 r. insert_text al d pos data = Some (d2, r) \<and> body_post d d2 r \<and>
     length (rl_runs (d_cruns d2)) = length (rl_runs (d_cruns d)) \<and>
     (r = DD_OK \<longrightarrow> pt_text (d_pt d2) = take (unat pos) (pt_text (d_pt d)) @ data @ drop (unat pos) (pt_text (d_pt d)))"
proof -
  note I = doc_invD[OF assms(1)]
  let ?n = "of_nat (length data) :: u32"
  have R: "length (pt_pc (d_pt d)) < 2147483640" "length (rl_runs (d_cruns d)) \<le> 2147483648" "length (rl_runs (d_pruns d)) \<le> 2147483648"
    "length (rl_runs (d_sruns d)) \<le> 2147483648" using assms(2) by (auto simp: roomy_def)
  have F: "length (pt_text (d_pt d)) + length data < 2 ^ 32" "length (pt_add (d_pt d)) + length data \<le> 2147483648"
    using assms(3) by (simp_all add: room_for_def)
  have n: "unat ?n = length data" using F(1) by (intro unat_of_nat_u32) simp
  have p: "unat pos \<le> length (pt_text (d_pt d))" using assms(4) I(3) by (simp add: word_le_nat_alt)
  from pt_insert_facts[OF I(1) p F R(1), of "al 6" "al 7"] obtain pt r where t: "pt_insert (al 6) (al 7) (d_pt d) pos data = Some (pt, r)" "pt_inv pt"
    "pt_orig pt = pt_orig (d_pt d)" "\<exists>xs. pt_add pt = pt_add (d_pt d) @ xs"
    "if r = DD_OK then pt_text pt = take (unat pos) (pt_text (d_pt d)) @ data @ drop (unat pos) (pt_text (d_pt d)) else r = DD_ERR_NOMEM \<and> pt_text pt = pt_text (d_pt d)"
    by (elim exE conjE) (auto split: if_splits)
  note P = pt_invD[OF t(2)]
  have pl: "list_all (piece_ok pt) (pt_pc pt) \<and> length (pt_pc pt) < 4294967296" using P(1,6) unat_lt_u32[of "pt_cap pt"] by linarith
  have g: "grown (d_pt d) pt" using t(3,4) by (simp add: grown_def)
  show ?thesis
  proof (cases "r = DD_OK")
    case False
    have "us_ok pt (now (d\<lparr>d_pt := pt\<rparr>))" using I(2) t(5) False P(3) pl by (simp add: us_ok_now[of "d\<lparr>d_pt := pt\<rparr>", simplified] us_ok_now)
    then show ?thesis using t False g by (simp add: body_post_def doc_content_simps insert_text_def Let_def)
  next
    case True
    from rl_insert_facts[OF I(4), of pos ?n zero_cf "al 8"] I(5) p F(1) n obtain cr cp where
      c: "rl_insert zero_cf (al 8) (d_cruns d) pos ?n = Some (cr, DD_OK)" "rl_inv cr" "length (rl_runs cr) = length (rl_runs (d_cruns d))"
        "expand (rl_runs cr) = take (unat pos) (expand (rl_runs (d_cruns d))) @ replicate (unat ?n) cp @ drop (unat pos) (expand (rl_runs (d_cruns d)))" by auto
    from rl_insert_facts[OF I(6), of pos ?n zero_pf "al 9"] I(7) p F(1) n obtain pr pp where
      pr: "rl_insert zero_pf (al 9) (d_pruns d) pos ?n = Some (pr, DD_OK)" "rl_inv pr" "length (rl_runs pr) = length (rl_runs (d_pruns d))"
        "expand (rl_runs pr) = take (unat pos) (expand (rl_runs (d_pruns d))) @ replicate (unat ?n) pp @ drop (unat pos) (expand (rl_runs (d_pruns d)))" by auto
    from rl_insert_facts[OF I(8), of pos ?n 0 "al 10"] I(9) p F(1) n obtain sr sp where
      s: "rl_insert 0 (al 10) (d_sruns d) pos ?n = Some (sr, DD_OK)" "rl_inv sr" "length (rl_runs sr) = length (rl_runs (d_sruns d))"
        "expand (rl_runs sr) = take (unat pos) (expand (rl_runs (d_sruns d))) @ replicate (unat ?n) sp @ drop (unat pos) (expand (rl_runs (d_sruns d)))" by auto
    let ?d = "d\<lparr>d_pt := pt, d_cruns := cr, d_pruns := pr, d_sruns := sr\<rparr>"
    have tt: "pt_text pt = take (unat pos) (pt_text (d_pt d)) @ data @ drop (unat pos) (pt_text (d_pt d))" using t(5) True by simp
    have sub: "payloads (rl_runs sr) \<subseteq> payloads (rl_runs (d_sruns d))" by (rule rl_insert_payloads[OF s(1) rl_invD(3)[OF I(8)]])
    have "us_ok pt (now ?d)"
      unfolding us_ok_now[of ?d, simplified] using pl P(3) I(5,7,9,10,11) R c(2-4) pr(2-4) s(2-4) sub n p
      by (auto simp: runs_ok_def tt)
    then have "body_post d ?d DD_OK" using t(2) g by (simp add: body_post_def)
    then show ?thesis using t(1) True c(1,3) pr(1) s(1) tt by (simp add: insert_text_def Let_def)
  qed
qed

lemma delete_body:
  assumes "doc_inv d" "roomy d" "pos \<le> pt_total (d_pt d)" "unat pos + unat n < 2 ^ 32"
  shows "\<exists>d2 r. (case pt_delete ok (d_pt d) pos n of (pt, r1) \<Rightarrow>
          let d2 = d\<lparr>d_pt := pt\<rparr>
          in if r1 \<noteq> DD_OK then Some (d2, r1)
             else do { (cr, c1) \<leftarrow> rl_delete zero_cf o1 (d_cruns d2) pos n;
                       (pr, c2) \<leftarrow> rl_delete zero_pf o2 (d_pruns d2) pos n;
                       (sr, c3) \<leftarrow> rl_delete 0 o3 (d_sruns d2) pos n;
                       Some (d2\<lparr>d_cruns := cr, d_pruns := pr, d_sruns := sr\<rparr>, DD_OK) }) = Some (d2, r) \<and> body_post d d2 r \<and>
     (r = DD_OK \<longrightarrow> pt_text (d_pt d2) = take (unat pos) (pt_text (d_pt d)) @ drop (unat pos + unat n) (pt_text (d_pt d)))"
proof -
  note I = doc_invD[OF assms(1)]
  have R: "length (pt_pc (d_pt d)) < 2147483640" "length (rl_runs (d_cruns d)) \<le> 2147483648" "length (rl_runs (d_pruns d)) \<le> 2147483648"
    "length (rl_runs (d_sruns d)) \<le> 2147483648" using assms(2) by (auto simp: roomy_def)
  have p: "unat pos \<le> length (pt_text (d_pt d))" using assms(3) I(3) by (simp add: word_le_nat_alt)
  from pt_delete_facts[OF I(1) p assms(4) R(1), of ok] obtain pt r where t: "pt_delete ok (d_pt d) pos n = (pt, r)" "pt_inv pt"
    "pt_orig pt = pt_orig (d_pt d)" "pt_add pt = pt_add (d_pt d)"
    "if r = DD_OK then pt_text pt = take (unat pos) (pt_text (d_pt d)) @ drop (unat pos + unat n) (pt_text (d_pt d)) else r = DD_ERR_NOMEM \<and> pt = d_pt d"
    by (elim exE conjE)
  note P = pt_invD[OF t(2)]
  have pl: "list_all (piece_ok pt) (pt_pc pt) \<and> length (pt_pc pt) < 4294967296" using P(1,6) unat_lt_u32[of "pt_cap pt"] by linarith
  have g: "grown (d_pt d) pt" using t(3,4) by (simp add: grown_def)
  show ?thesis
  proof (cases "r = DD_OK")
    case False
    then have "pt = d_pt d" using t(5) by simp
    then show ?thesis using t(1) False I(1,2) by (simp add: body_post_def Let_def)
  next
    case True
    from rl_delete_facts[OF I(4) _ assms(4), of zero_cf o1] I(5) p obtain cr where
      c: "rl_delete zero_cf o1 (d_cruns d) pos n = Some (cr, DD_OK)" "rl_inv cr" "length (rl_runs cr) \<le> length (rl_runs (d_cruns d))"
        "expand (rl_runs cr) = take (unat pos) (expand (rl_runs (d_cruns d))) @ drop (unat pos + unat n) (expand (rl_runs (d_cruns d)))" by auto
    from rl_delete_facts[OF I(6) _ assms(4), of zero_pf o2] I(7) p obtain pr where
      pr: "rl_delete zero_pf o2 (d_pruns d) pos n = Some (pr, DD_OK)" "rl_inv pr" "length (rl_runs pr) \<le> length (rl_runs (d_pruns d))"
        "expand (rl_runs pr) = take (unat pos) (expand (rl_runs (d_pruns d))) @ drop (unat pos + unat n) (expand (rl_runs (d_pruns d)))" by auto
    from rl_delete_facts[OF I(8) _ assms(4), of 0 o3] I(9) p obtain sr where
      s: "rl_delete 0 o3 (d_sruns d) pos n = Some (sr, DD_OK)" "rl_inv sr" "length (rl_runs sr) \<le> length (rl_runs (d_sruns d))"
        "expand (rl_runs sr) = take (unat pos) (expand (rl_runs (d_sruns d))) @ drop (unat pos + unat n) (expand (rl_runs (d_sruns d)))" by auto
    let ?d = "d\<lparr>d_pt := pt, d_cruns := cr, d_pruns := pr, d_sruns := sr\<rparr>"
    have tt: "pt_text pt = take (unat pos) (pt_text (d_pt d)) @ drop (unat pos + unat n) (pt_text (d_pt d))" using t(5) True by simp
    have sub: "payloads (rl_runs sr) \<subseteq> Set.insert 0 (payloads (rl_runs (d_sruns d)))" by (rule rl_delete_payloads[OF s(1)])
    have "us_ok pt (now ?d)"
      unfolding us_ok_now[of ?d, simplified] using pl P(3) I(5,7,9,10,11) R c(2-4) pr(2-4) s(2-4) sub p
      by (auto simp: runs_ok_def tt)
    then have "body_post d ?d DD_OK" using t(2) g by (simp add: body_post_def)
    then show ?thesis using t(1) True c(1) pr(1) s(1) tt by (simp add: Let_def)
  qed
qed

text \<open>Changing one component of the document in place.\<close>

lemma body_cruns:
  assumes "doc_inv d" "runs_ok (length (pt_text (d_pt d))) cr" "r \<noteq> DD_OK \<Longrightarrow> expand (rl_runs cr) = expand (rl_runs (d_cruns d))"
  shows "body_post d (d\<lparr>d_cruns := cr\<rparr>) r"
  using assms doc_invD(1,2)[OF assms(1)] by (simp add: body_post_def us_ok_now us_ok_now[of "d\<lparr>d_cruns := cr\<rparr>", simplified] doc_content_simps)

lemma body_pruns:
  assumes "doc_inv d" "runs_ok (length (pt_text (d_pt d))) pr" "r \<noteq> DD_OK \<Longrightarrow> expand (rl_runs pr) = expand (rl_runs (d_pruns d))"
  shows "body_post d (d\<lparr>d_pruns := pr\<rparr>) r"
  using assms doc_invD(1,2)[OF assms(1)] by (simp add: body_post_def us_ok_now us_ok_now[of "d\<lparr>d_pruns := pr\<rparr>", simplified] doc_content_simps)

lemma body_sections:
  assumes "doc_inv d" "runs_ok (length (pt_text (d_pt d))) sr" "r \<noteq> DD_OK \<Longrightarrow> expand (rl_runs sr) = expand (rl_runs (d_sruns d)) \<and> secs = d_sections d"
    and "secs \<noteq> []" "\<And>si. si \<in> payloads (rl_runs sr) \<Longrightarrow> unat si < length secs"
  shows "body_post d (d\<lparr>d_sruns := sr, d_sections := secs\<rparr>) r"
  using assms doc_invD(1,2)[OF assms(1)]
  by (simp add: body_post_def us_ok_now us_ok_now[of "d\<lparr>d_sruns := sr, d_sections := secs\<rparr>", simplified] doc_content_simps)

lemma rl_apply_nomem:
  assumes "rl_apply ok1 ok2 fn rl pos n = Some (rl', r)" "r \<noteq> DD_OK" "rl_inv rl" "length (rl_runs rl) < 2147483638"
  shows "expand (rl_runs rl') = expand (rl_runs rl)"
proof -
  have n: "n \<noteq> 0" using assms(1,2) by (auto simp: rl_apply_def)
  have l0: "length (rl_runs rl) < 2147483640" using assms(4) by simp
  obtain rl1 a where A: "rl_split_at ok1 rl pos = Some (rl1, a)" "rl_inv rl1" "expand (rl_runs rl1) = expand (rl_runs rl)"
    "length (rl_runs rl1) \<le> Suc (length (rl_runs rl))" by (rule rl_split_any[OF assms(3) l0]) blast
  have l1: "length (rl_runs rl1) < 2147483640" using A(4) assms(4) by simp
  obtain rl2 b where B: "rl_split_at ok2 rl1 (pos + n) = Some (rl2, b)" "expand (rl_runs rl2) = expand (rl_runs rl1)"
    by (rule rl_split_any[OF A(2) l1]) blast
  show ?thesis using assms(1,2) n A(1,3) B by (auto simp: rl_apply_def Let_def split: sum.splits)
qed

lemma apply_runs:
  assumes "rl_inv rl" "length (rl_runs rl) < 2147483638" "length (expand (rl_runs rl)) = len"
  shows "\<exists>rl' r. rl_apply ok1 ok2 fn rl pos n = Some (rl', r) \<and> runs_ok len rl' \<and> (r \<noteq> DD_OK \<longrightarrow> expand (rl_runs rl') = expand (rl_runs rl))"
proof -
  from rl_apply_any[OF assms(1,2), of ok1 ok2 fn pos n] obtain rl' r where a: "rl_apply ok1 ok2 fn rl pos n = Some (rl', r)" "rl_inv rl'"
    "length (expand (rl_runs rl')) = length (expand (rl_runs rl))" "length (rl_runs rl') \<le> length (rl_runs rl) + 2" by (elim exE conjE)
  then have "runs_ok len rl'" using assms(2,3) by (simp add: runs_ok_def)
  then show ?thesis using a(1) rl_apply_nomem[OF a(1) _ assms(1,2)] by blast
qed

lemma body_same: "doc_inv d \<Longrightarrow> body_post d d r"
  using doc_invD(1,2)[of d] by (simp add: body_post_def)

lemma apply_char_body:
  assumes "doc_inv d" "length (rl_runs (d_cruns d)) < 2147483638"
  shows "\<exists>d2 r. do_apply_char al d pos n cf = Some (d2, r) \<and> body_post d d2 r"
proof -
  note I = doc_invD[OF assms(1)]
  from apply_runs[OF I(4) assms(2) I(5)] have "\<exists>rl' r. rl_apply (al 13) (al 14) (overlay_char c) (d_cruns d) pos n = Some (rl', r) \<and>
      body_post d (d\<lparr>d_cruns := rl'\<rparr>) r" for c using body_cruns[OF assms(1)] by blast
  note a = this
  show ?thesis
  proof (cases "cf = None \<or> cf_mask (the cf) = 0 \<or> n = 0")
    case True
    then show ?thesis using body_same[OF assms(1)] by (auto simp: do_apply_char_def split: option.splits)
  next
    case False
    then show ?thesis using a[of "the cf"] by (auto simp: do_apply_char_def)
  qed
qed

lemma set_para_body:
  assumes "doc_inv d" "roomy d"
  shows "\<exists>d2 r. do_set_para al d pos n pf = Some (d2, r) \<and> body_post d d2 r"
proof -
  note I = doc_invD[OF assms(1)]
  have "length (rl_runs (d_pruns d)) < 2147483638" using assms(2) by (simp add: roomy_def)
  from apply_runs[OF I(6) this I(7)] have a: "\<exists>rl' r. rl_apply (al 13) (al 14) (overlay_para c) (d_pruns d) s m = Some (rl', r) \<and>
      body_post d (d\<lparr>d_pruns := rl'\<rparr>) r" for c s m using body_pruns[OF assms(1)] by blast
  show ?thesis
  proof (cases "pf = None \<or> pf_mask (the pf) = 0")
    case True
    then show ?thesis using body_same[OF assms(1)] by (auto simp: do_set_para_def split: option.splits)
  next
    case False
    then obtain q where q: "pf = Some q" "pf_mask q \<noteq> 0" by auto
    let ?range = "\<lambda>p. case df_doc_para_range d p of Inr r \<Rightarrow> r | Inl _ \<Rightarrow> (0, 0)"
    let ?pos = "if pos > pt_total (d_pt d) then pt_total (d_pt d) else pos"
    let ?fin = "if n = 0 then ?pos else ?pos + n - 1"
    obtain s0 l0 where e0: "?range (df_doc_para_at d ?pos) = (s0, l0)" by (rule prod.exhaust)
    obtain s1 l1 where
      e1: "?range (df_doc_para_at d (if ?fin > pt_total (d_pt d) then (if pt_total (d_pt d) \<noteq> 0 then pt_total (d_pt d) - 1 else 0) else ?fin)) = (s1, l1)"
      by (rule prod.exhaust)
    let ?m = "(s1 + l1) - s0"
    have "do_set_para al d pos n pf = (if ?m = 0 then Some (d, DD_OK)
        else do { (pr, r) \<leftarrow> rl_apply (al 13) (al 14) (overlay_para q) (d_pruns d) s0 ?m; Some (d\<lparr>d_pruns := pr\<rparr>, r) })"
      unfolding do_set_para_def q(1) option.case if_not_P[OF q(2)] Let_def e0 e1 prod.case by (rule refl)
    then show ?thesis using body_same[OF assms(1)] a[of q s0 ?m] by (cases "?m = 0") auto
  qed
qed

lemma payload_at_in:
  assumes "rl_runs rl \<noteq> []"
  shows "\<exists>p. rl_payload_at rl pos = Some p \<and> p \<in> payloads (rl_runs rl)"
  using assms payloads_sub(5)[of "length (rl_runs rl) - 1" "rl_runs rl"]
  by (auto simp: rl_payload_at_def rl_payload_def payloads_sub(5) split: prod.splits)

lemma section_payload:
  assumes "doc_inv d"
  shows "\<exists>si. rl_payload_at (d_sruns d) pos = Some si \<and> unat si < length (d_sections d)"
  using payload_at_in[of "d_sruns d" pos] doc_invD[OF assms] rl_invD(3)[of "d_sruns d"] by blast

lemma set_page_body:
  assumes "doc_inv d"
  shows "\<exists>d2 r. do { si \<leftarrow> rl_payload_at (d_sruns d) pos;
                  if unat si < length (d_sections d)
                  then Some (d\<lparr>d_sections := (d_sections d)[unat si := p]\<rparr>, DD_OK) else None } = Some (d2, r) \<and> body_post d d2 r"
proof -
  note I = doc_invD[OF assms]
  obtain si where si: "rl_payload_at (d_sruns d) pos = Some si" "unat si < length (d_sections d)" using section_payload[OF assms] by blast
  have "body_post d (d\<lparr>d_sruns := d_sruns d, d_sections := (d_sections d)[unat si := p]\<rparr>) DD_OK"
    by (rule body_sections[OF assms]) (use I in \<open>auto simp: us_ok_now\<close>)
  then show ?thesis using si by simp
qed

lemma expand_relabel: "length (expand (rs[i := (fst (rs ! i), p)])) = length (expand rs)"
proof -
  have "List.map fst (rs[i := (fst (rs ! i), p)]) = List.map fst rs"
    by (metis fst_conv list_update_beyond list_update_id map_update nth_map linorder_not_le length_map)
  then show ?thesis by (simp only: expand_length)
qed

lemma section_break_body:
  assumes "doc_inv d" "roomy d" "pos \<le> pt_total (d_pt d)" "rl_find (d_sruns d) pos = (i, w)" "w \<noteq> 0"
  shows "\<exists>d2 r. do { (sr, a) \<leftarrow> rl_split_at ok (d_sruns d) pos;
            case a of
              Inl e \<Rightarrow> Some (d\<lparr>d_sruns := sr\<rparr>, e)
            | Inr idx \<Rightarrow>
                do { tmp \<leftarrow> section_of d (rl_payload sr idx);
                     case sect_add ok2 (d\<lparr>d_sruns := sr\<rparr>) tmp of (d2, ns) \<Rightarrow>
                       if ns < 0 then Some (d2\<lparr>d_sruns := rl_merge (d_sruns d2)\<rparr>, DD_ERR_NOMEM)
                       else Some (d2\<lparr>d_sruns := (d_sruns d2)\<lparr>rl_runs := (rl_runs (d_sruns d2))
                              [idx := (fst (rl_runs (d_sruns d2) ! idx), word_of_int ns)]\<rparr>\<rparr>, DD_OK) } } = Some (d2, r) \<and> body_post d d2 r"
proof -
  note I = doc_invD[OF assms(1)]
  let ?len = "length (pt_text (d_pt d))"
  have p: "unat pos \<le> length (expand (rl_runs (d_sruns d)))" using assms(3) I(3,9) by (simp add: word_le_nat_alt)
  note F = rl_find_facts[OF I(8) p assms(4)]
  have i: "i < length (rl_runs (d_sruns d))" using F(1,3) assms(5) by (metis le_neq_implies_less)
  have lt: "unat pos < length (expand (rl_runs (d_sruns d)))" using F(2)[OF i] F(4) arg_cong[OF expand_at[OF i], of length] by simp
  have R: "length (rl_runs (d_sruns d)) < 2147483640" "length (d_sections d) < 2147483647" using assms(2) by (auto simp: roomy_def)
  from rl_split_facts[OF I(8) p R(1), of ok] obtain sr a where s: "rl_split_at ok (d_sruns d) pos = Some (sr, a)" "rl_inv sr"
    "expand (rl_runs sr) = expand (rl_runs (d_sruns d))" "length (rl_runs sr) \<le> Suc (length (rl_runs (d_sruns d)))"
    "case a of Inl e \<Rightarrow> rl_runs sr = rl_runs (d_sruns d) | Inr k \<Rightarrow> k \<le> length (rl_runs sr) \<and> unat pos = length (expand (take k (rl_runs sr)))"
    by (elim exE conjE)
  have sub: "payloads (rl_runs sr) \<subseteq> payloads (rl_runs (d_sruns d))" by (rule rl_split_payloads[OF s(1) I(8) p])
  have len: "length (rl_runs sr) \<le> 2147483648" using s(4) R(1) by linarith
  show ?thesis
  proof (cases a)
    case (Inl e)
    have "body_post d (d\<lparr>d_sruns := sr, d_sections := d_sections d\<rparr>) e"
      by (rule body_sections[OF assms(1)]) (use s(2,3) I(9-11) len sub in \<open>auto simp: runs_ok_def\<close>)
    then show ?thesis using s(1) Inl by simp
  next
    case (Inr k)
    then have k: "k < length (rl_runs sr)" using s(3,5) lt by (auto simp: le_less)
    have sec: "section_of d (rl_payload sr k) = Some (d_sections d ! unat (rl_payload sr k))"
      using I(11) sub payloads_sub(5)[OF k] by (auto simp: section_of_def rl_payload_def)
    show ?thesis
    proof (cases ok2)
      case False
      have m: "rl_inv (rl_merge sr)" "expand (rl_runs (rl_merge sr)) = expand (rl_runs sr)" "length (rl_runs (rl_merge sr)) \<le> length (rl_runs sr)"
        using rl_merge_facts[OF s(2)] by blast+
      have "body_post d (d\<lparr>d_sruns := rl_merge sr, d_sections := d_sections d\<rparr>) DD_ERR_NOMEM"
        by (rule body_sections[OF assms(1)]) (use m s(3) I(9-11) len sub rl_merge_payloads[of sr] in \<open>auto simp: runs_ok_def\<close>)
      then show ?thesis using s(1) Inr sec False by (simp add: sect_add_def)
    next
      case True
      let ?ns = "of_nat (length (d_sections d)) :: u32"
      let ?sr = "sr\<lparr>rl_runs := (rl_runs sr)[k := (fst (rl_runs sr ! k), ?ns)]\<rparr>"
      have ns: "unat ?ns = length (d_sections d)" using R(2) by (intro unat_of_nat_u32) simp
      have ri: "rl_inv ?sr" using s(2) by (auto simp: rl_inv_def expand_relabel)
      have pay: "payloads (rl_runs ?sr) \<subseteq> Set.insert ?ns (payloads (rl_runs (d_sruns d)))"
        using payloads_sub(6)[of "rl_runs sr" k "(fst (rl_runs sr ! k), ?ns)"] sub by auto
      have "body_post d (d\<lparr>d_sruns := ?sr, d_sections := d_sections d @ [d_sections d ! unat (rl_payload sr k)]\<rparr>) DD_OK"
      proof (rule body_sections[OF assms(1)])
        show "runs_ok ?len ?sr" using ri s(3) I(9) len by (simp add: runs_ok_def expand_relabel)
        fix si
        assume "si \<in> payloads (rl_runs ?sr)"
        then show "unat si < length (d_sections d @ [d_sections d ! unat (rl_payload sr k)])" using pay ns I(11) by fastforce
      qed simp_all
      note bp = this
      have sw: "d\<lparr>d_sections := y, d_sruns := x\<rparr> = d\<lparr>d_sruns := x, d_sections := y\<rparr>" for x y by (cases d) simp
      show ?thesis using s(1) Inr sec True bp[folded sw] by (simp add: sect_add_def)
    qed
  qed
qed

lemma remove_break_body:
  assumes "doc_inv d" "pos < pt_total (d_pt d)" "rl_find (d_sruns d) pos = (i, w)"
  shows "\<exists>d2 r. (let rs = rl_runs (d_sruns d)
               in if i < length rs
                  then Some (d\<lparr>d_sruns := rl_merge ((d_sruns d)\<lparr>rl_runs := rs[i := (fst (rs ! i), snd (rs ! (i - 1)))]\<rparr>)\<rparr>, DD_OK)
                  else None) = Some (d2, r) \<and> body_post d d2 r"
proof -
  note I = doc_invD[OF assms(1)]
  let ?rs = "rl_runs (d_sruns d)"
  let ?sr = "(d_sruns d)\<lparr>rl_runs := ?rs[i := (fst (?rs ! i), snd (?rs ! (i - 1)))]\<rparr>"
  have p: "unat pos < length (expand ?rs)" using assms(2) I(3,9) by (simp add: word_less_nat_alt)
  note F = rl_find_facts[OF I(8) less_imp_le[OF p] assms(3)]
  have i: "i < length ?rs" using F(1,3,4) p by (cases "i = length ?rs") auto
  have ri: "rl_inv ?sr" using I(8) by (auto simp: rl_inv_def expand_relabel)
  note M = rl_merge_facts[OF ri]
  have pay: "payloads (rl_runs (rl_merge ?sr)) \<subseteq> payloads ?rs"
    using rl_merge_payloads[of ?sr] payloads_sub(6)[of ?rs i "(fst (?rs ! i), snd (?rs ! (i - 1)))"] payloads_sub(5)[of "i - 1" ?rs] i by auto
  have "length ?rs \<le> 2147483648" using I(2) by (simp add: us_ok_now runs_ok_def)
  then have "body_post d (d\<lparr>d_sruns := rl_merge ?sr, d_sections := d_sections d\<rparr>) DD_OK"
    using M I(9-11) pay by (intro body_sections[OF assms(1)]) (auto simp: runs_ok_def expand_relabel)
  then show ?thesis using i by (simp add: Let_def)
qed

section \<open>The edits together\<close>

text \<open>One value per editing call, what it runs, and the sizes it needs.\<close>

datatype edit =
    E_insert u32 "u8 list"
  | E_insert_fmt u32 "u8 list" "CharFmt option"
  | E_delete u32 u32
  | E_char_fmt u32 u32 "CharFmt option"
  | E_para_fmt u32 u32 "ParaFmt option"
  | E_para_style u32 u32 int
  | E_section_page u32 PageSetup
  | E_section_break u32
  | E_remove_break u32

fun run_edit :: "edit \<Rightarrow> answers \<Rightarrow> df_doc \<Rightarrow> (df_doc \<times> dd_result) option" where
  "run_edit (E_insert pos data) al d = df_doc_insert al d pos data"
| "run_edit (E_insert_fmt pos data cf) al d = df_doc_insert_fmt al d pos data cf"
| "run_edit (E_delete pos n) al d = df_doc_delete al d pos n"
| "run_edit (E_char_fmt pos n cf) al d = df_doc_apply_char_fmt al d pos n cf"
| "run_edit (E_para_fmt pos n pf) al d = df_doc_set_para_fmt al d pos n pf"
| "run_edit (E_para_style pos n s) al d = df_doc_set_para_style al d pos n s"
| "run_edit (E_section_page pos p) al d = df_doc_set_section_page_at al d pos p"
| "run_edit (E_section_break pos) al d = df_doc_insert_section_break al d pos"
| "run_edit (E_remove_break pos) al d = df_doc_remove_section_break al d pos"

fun fits :: "edit \<Rightarrow> df_doc \<Rightarrow> bool" where
  "fits (E_insert pos data) d \<longleftrightarrow> roomy d \<and> room_for d data"
| "fits (E_insert_fmt pos data cf) d \<longleftrightarrow> roomy d \<and> room_for d data"
| "fits (E_delete pos n) d \<longleftrightarrow> roomy d \<and> unat pos + unat n < 2 ^ 32"
| "fits (E_remove_break pos) d \<longleftrightarrow> roomy d \<and> pos < pt_total (d_pt d)"
| "fits e d \<longleftrightarrow> roomy d"

lemma roomy_cong: "d_pt d1 = d_pt d \<Longrightarrow> d_cruns d1 = d_cruns d \<Longrightarrow> d_pruns d1 = d_pruns d \<Longrightarrow> d_sruns d1 = d_sruns d \<Longrightarrow>
    d_sections d1 = d_sections d \<Longrightarrow> roomy d1 = roomy d"
  by (simp add: roomy_def)

lemma insert_core_facts:
  assumes "doc_inv d" "roomy d" "room_for d data" "pos \<le> pt_total (d_pt d)"
  shows "\<exists>d2 r. insert_core al d pos data = Some (d2, r) \<and> edit_post d d2 r"
  unfolding insert_core_def
proof (rule edit_of_body[OF assms(1)], goal_cases)
  case (1 d1)
  have h: "roomy d1" "room_for d1 data" "pos \<le> pt_total (d_pt d1)" using assms(2-4) 1 roomy_cong[of d1 d] by (simp_all add: room_for_def)
  show ?case using insert_body[OF 1(1) h, of al] by blast
qed

lemma delete_core_facts:
  assumes "doc_inv d" "fits (E_delete pos n) d"
  shows "\<exists>d2 r. df_doc_delete al d pos n = Some (d2, r) \<and> edit_post d d2 r"
proof (cases "pos > pt_total (d_pt d) \<or> n = 0")
  case True
  then show ?thesis using assms(1) by (auto simp: df_doc_delete_def)
next
  case False
  then have pn: "\<not> pt_total (d_pt d) < pos" "n \<noteq> 0" by auto
  show ?thesis unfolding df_doc_delete_def if_not_P[OF pn(1)] if_not_P[OF pn(2)]
  proof (rule edit_of_body[OF assms(1)], goal_cases)
    case (1 d1)
    have h: "roomy d1" "pos \<le> pt_total (d_pt d1)" "unat pos + unat n < 2 ^ 32" using assms(2) pn(1) 1 roomy_cong[of d1 d] by simp_all
    show ?case using delete_body[OF 1(1) h, of "al 8" "al 9" "al 10" "al 6"] by blast
  qed
qed

lemma char_fmt_facts:
  assumes "doc_inv d" "roomy d"
  shows "\<exists>d2 r. df_doc_apply_char_fmt al d pos n cf = Some (d2, r) \<and> edit_post d d2 r"
proof (cases "n = 0 \<or> (case cf of None \<Rightarrow> True | Some c \<Rightarrow> cf_mask c = 0)")
  case True
  then show ?thesis using assms(1) by (simp add: df_doc_apply_char_fmt_def)
next
  case False
  show ?thesis unfolding df_doc_apply_char_fmt_def if_not_P[OF False]
    by (rule edit_of_body[OF assms(1)], rule apply_char_body) (use assms(2) in \<open>simp_all add: roomy_def\<close>)
qed

lemma para_fmt_facts:
  assumes "doc_inv d" "roomy d"
  shows "\<exists>d2 r. df_doc_set_para_fmt al d pos n pf = Some (d2, r) \<and> edit_post d d2 r"
proof (cases "case pf of None \<Rightarrow> True | Some q \<Rightarrow> pf_mask q = 0")
  case True
  then show ?thesis using assms(1) by (simp add: df_doc_set_para_fmt_def)
next
  case False
  show ?thesis unfolding df_doc_set_para_fmt_def if_not_P[OF False]
    by (rule edit_of_body[OF assms(1)], rule set_para_body) (use assms(2) in \<open>simp_all add: roomy_def\<close>)
qed

lemma section_page_facts:
  assumes "doc_inv d"
  shows "\<exists>d2 r. df_doc_set_section_page_at al d pos p = Some (d2, r) \<and> edit_post d d2 r"
proof (cases "pos > pt_total (d_pt d)")
  case False
  show ?thesis unfolding df_doc_set_section_page_at_def if_not_P[OF False]
    by (rule edit_of_body[OF assms]) (rule set_page_body)
qed (use assms in \<open>simp add: df_doc_set_section_page_at_def\<close>)

lemma section_break_facts:
  assumes "doc_inv d" "roomy d"
  shows "\<exists>d2 r. df_doc_insert_section_break al d pos = Some (d2, r) \<and> edit_post d d2 r"
proof -
  obtain i w where f: "rl_find (d_sruns d) pos = (i, w)" by fastforce
  show ?thesis
  proof (cases "pos > pt_total (d_pt d) \<or> w = 0")
    case True
    then show ?thesis using assms(1) f by (auto simp: df_doc_insert_section_break_def)
  next
    case False
    then have pn: "\<not> pt_total (d_pt d) < pos" "w \<noteq> 0" by auto
    show ?thesis unfolding df_doc_insert_section_break_def f prod.case if_not_P[OF pn(1)] if_not_P[OF pn(2)]
    proof (rule edit_of_body[OF assms(1)], goal_cases)
      case (1 d1)
      have h: "roomy d1" "pos \<le> pt_total (d_pt d1)" "rl_find (d_sruns d1) pos = (i, w)" using assms(2) pn(1) f 1 roomy_cong[of d1 d] by simp_all
      show ?case by (rule section_break_body[OF 1(1) h pn(2)])
    qed
  qed
qed

lemma remove_break_facts:
  assumes "doc_inv d" "pos < pt_total (d_pt d)"
  shows "\<exists>d2 r. df_doc_remove_section_break al d pos = Some (d2, r) \<and> edit_post d d2 r"
proof -
  obtain i w where f: "rl_find (d_sruns d) pos = (i, w)" by fastforce
  show ?thesis
  proof (cases "w \<noteq> 0 \<or> i = 0")
    case True
    then show ?thesis using assms(1) f by (auto simp: df_doc_remove_section_break_def)
  next
    case False
    show ?thesis unfolding df_doc_remove_section_break_def f prod.case if_not_P[OF False]
    proof (rule edit_of_body[OF assms(1)], goal_cases)
      case (1 d1)
      show ?case by (rule remove_break_body[OF 1(1)]) (use assms(2) f 1 in simp_all)
    qed
  qed
qed

lemma insert_fmt_facts:
  assumes "doc_inv d" "roomy d" "room_for d data"
  shows "\<exists>d2 r. df_doc_insert_fmt al d pos data cf = Some (d2, r) \<and> edit_post d d2 r"
proof (cases "pos > pt_total (d_pt d) \<or> of_nat (length data) = (0 :: u32)")
  case True
  then show ?thesis using assms(1) by (auto simp: df_doc_insert_fmt_def)
next
  case False
  then have pn: "\<not> pt_total (d_pt d) < pos" "of_nat (length data) \<noteq> (0 :: u32)" by auto
  let ?k = "\<lambda>(d1, r). if r \<noteq> DD_OK then Some (d1, r)
                else case cf of
                  None \<Rightarrow> Some (d1, DD_OK)
                | Some c \<Rightarrow> if cf_mask c = 0 then Some (d1, DD_OK)
                            else do { (d2, r2) \<leftarrow> do_apply_char al d1 pos (of_nat (length data)) (Some c); Some (d2, DD_OK) }"
  have "df_doc_insert_fmt al d pos data cf =
      do { (d1, r) \<leftarrow> begin_edit al d; if r \<noteq> DD_OK then Some (d1, r) else (insert_text al d1 pos data \<bind> ?k) }"
    unfolding df_doc_insert_fmt_def if_not_P[OF pn(1)] if_not_P[OF pn(2)] insert_core_def
    by (cases "begin_edit al d") auto
  moreover have "\<exists>d2 r. do { (d1, r) \<leftarrow> begin_edit al d; if r \<noteq> DD_OK then Some (d1, r) else (insert_text al d1 pos data \<bind> ?k) } = Some (d2, r) \<and> edit_post d d2 r"
  proof (rule edit_of_body[OF assms(1)], goal_cases)
    case (1 d1)
    have h: "roomy d1" "room_for d1 data" "pos \<le> pt_total (d_pt d1)" using assms(2,3) pn(1) 1 roomy_cong[of d1 d] by (simp_all add: room_for_def)
    from insert_body[OF 1(1) h, of al] obtain d2 r where i: "insert_text al d1 pos data = Some (d2, r)" "body_post d1 d2 r"
      "length (rl_runs (d_cruns d2)) = length (rl_runs (d_cruns d1))" by (elim exE conjE)
    show ?case
    proof (cases "r \<noteq> DD_OK \<or> cf = None \<or> cf_mask (the cf) = 0")
      case True
      then show ?thesis using i(1,2) by (auto split: option.splits)
    next
      case False
      have "\<And>us. us \<in> set (d_ustack d1) \<union> set (d_rstack d1) \<Longrightarrow> us_ok (d_pt d2) us"
        using us_ok_grown(1)[of "d_pt d1" "d_pt d2"] doc_invD(12)[OF 1(1)] i(2) by (auto simp: body_post_def)
      then have "doc_inv d2" using i(2) by (auto simp: doc_inv_def body_post_def)
      moreover have "length (rl_runs (d_cruns d2)) < 2147483638" using i(3) h(1) by (simp add: roomy_def)
      ultimately obtain d3 r3 where a: "do_apply_char al d2 pos (of_nat (length data)) cf = Some (d3, r3)" "body_post d2 d3 r3"
        using apply_char_body by metis
      have "body_post d1 d3 DD_OK" using i(2) a(2) by (auto simp: body_post_def intro: grown_trans)
      then show ?thesis using i(1) a(1) False by auto
    qed
  qed
  ultimately show ?thesis by simp
qed

lemma run_edit_facts:
  assumes "doc_inv d" "fits e d"
  shows "\<exists>d' r. run_edit e al d = Some (d', r) \<and> edit_post d d' r"
proof (cases e)
  case (E_insert pos data)
  show ?thesis
  proof (cases "pos > pt_total (d_pt d) \<or> of_nat (length data) = (0 :: u32)")
    case True
    then show ?thesis using assms(1) E_insert by (auto simp: df_doc_insert_def)
  next
    case False
    then have "pos \<le> pt_total (d_pt d)" "df_doc_insert al d pos data = insert_core al d pos data" by (auto simp: df_doc_insert_def)
    then show ?thesis using insert_core_facts[OF assms(1), of data pos al] assms(2) E_insert by simp
  qed
next
  case (E_para_style pos n s)
  then show ?thesis using para_fmt_facts[OF assms(1)] assms(2) by (simp add: df_doc_set_para_style_def)
qed (use assms insert_fmt_facts delete_core_facts char_fmt_facts para_fmt_facts section_page_facts section_break_facts remove_break_facts in \<open>simp_all\<close>)

text \<open>What a client of the document relies on: an edit keeps the document well formed and can be undone and redone.\<close>

lemma undo_facts:
  assumes "doc_inv d" "d_ustack d = old @ [us]" "\<And>i. al i"
  shows "\<exists>d' cur. df_doc_undo al d = Some (d', DD_OK) \<and> doc_inv d' \<and> doc_content d' = us_content (d_pt d) us \<and> grown (d_pt d) (d_pt d') \<and>
    d_ustack d' = old \<and> d_rstack d' = d_rstack d @ [cur] \<and> us_ok (d_pt d) cur \<and> us_content (d_pt d) cur = doc_content d"
proof -
  have all: "restores al" using assms(3) by (simp add: restores_def)
  from snapshot_facts[OF assms(1), of al] assms(3) obtain cur where
    c: "snapshot al d = Some (Some cur)" "us_ok (d_pt d) cur" "us_content (d_pt d) cur = doc_content d" by auto
  let ?d = "d\<lparr>d_rstack := d_rstack d @ [cur], d_ustack := old\<rparr>"
  have n: "now ?d = now d" by (simp add: now_def)
  have inv: "doc_inv ?d" using assms(1,2) c(2) n by (auto simp: doc_inv_def)
  have "us_ok (d_pt ?d) us" using doc_invD(12)[OF assms(1)] assms(2) by simp
  from apply_state_facts[OF inv this, of al] all obtain d' where
    a: "apply_state al ?d us = Some d'" "doc_inv d'" "doc_content d' = us_content (d_pt d) us" "grown (d_pt d) (d_pt d')"
      "d_ustack d' = old" "d_rstack d' = d_rstack d @ [cur]" by auto
  have "df_doc_undo al d = Some (d', DD_OK)" using assms(2,3) c(1) a(1) by (simp add: df_doc_undo_def)
  then show ?thesis using a c(2,3) by blast
qed

lemma redo_facts:
  assumes "doc_inv d" "d_rstack d = old @ [us]" "\<And>i. al i"
  shows "\<exists>d' cur. df_doc_redo al d = Some (d', DD_OK) \<and> doc_inv d' \<and> doc_content d' = us_content (d_pt d) us \<and> grown (d_pt d) (d_pt d') \<and>
    d_rstack d' = old \<and> d_ustack d' = d_ustack d @ [cur] \<and> us_ok (d_pt d) cur \<and> us_content (d_pt d) cur = doc_content d"
proof -
  have all: "restores al" using assms(3) by (simp add: restores_def)
  from snapshot_facts[OF assms(1), of al] assms(3) obtain cur where
    c: "snapshot al d = Some (Some cur)" "us_ok (d_pt d) cur" "us_content (d_pt d) cur = doc_content d" by auto
  let ?d = "d\<lparr>d_ustack := d_ustack d @ [cur], d_rstack := old\<rparr>"
  have inv: "doc_inv ?d" using assms(1,2) c(2) by (auto simp: doc_inv_def)
  have "us_ok (d_pt ?d) us" using doc_invD(12)[OF assms(1)] assms(2) by simp
  from apply_state_facts[OF inv this, of al] all obtain d' where
    a: "apply_state al ?d us = Some d'" "doc_inv d'" "doc_content d' = us_content (d_pt d) us" "grown (d_pt d) (d_pt d')"
      "d_ustack d' = d_ustack d @ [cur]" "d_rstack d' = old" by auto
  have "df_doc_redo al d = Some (d', DD_OK)" using assms(2,3) c(1) a(1) by (simp add: df_doc_redo_def)
  then show ?thesis using a c(2,3) by blast
qed



locale undoable_edit =
  fixes op :: "answers \<Rightarrow> df_doc \<Rightarrow> (df_doc \<times> dd_result) option" and pre :: "df_doc \<Rightarrow> bool"
  assumes keeps: "doc_inv d \<Longrightarrow> pre d \<Longrightarrow> \<exists>d' r. op al d = Some (d', r) \<and> edit_post d d' r"
begin

lemma typed: "doc_inv d \<Longrightarrow> pre d \<Longrightarrow> op al d = Some (d', r) \<Longrightarrow> doc_inv d'"
  using keeps[of d al] by (auto simp: edit_post_def)

lemma harmless: "doc_inv d \<Longrightarrow> pre d \<Longrightarrow> op al d = Some (d', r) \<Longrightarrow> r \<noteq> DD_OK \<Longrightarrow> doc_content d' = doc_content d"
  using keeps[of d al] by (auto simp: edit_post_def)

lemma undo_redo:
  assumes "doc_inv d" "pre d" "op al d = Some (d', r)" "d' \<noteq> d" "\<And>i. al1 i" "\<And>i. al2 i"
  shows "\<exists>d2 d3. df_doc_undo al1 d' = Some (d2, DD_OK) \<and> doc_content d2 = doc_content d \<and>
    df_doc_redo al2 d2 = Some (d3, DD_OK) \<and> doc_content d3 = doc_content d'"
proof -
  have e: "edit_post d d' r" using keeps[OF assms(1,2), of al] assms(3) by auto
  then obtain old us where u: "doc_inv d'" "grown (d_pt d) (d_pt d')" "d_rstack d' = []" "d_ustack d' = old @ [us]" "us_ok (d_pt d) us"
    "us_content (d_pt d) us = doc_content d" using assms(4) by (auto simp: edit_post_def)
  from undo_facts[OF u(1,4), of al1] assms(5) obtain d2 cur where
    d2: "df_doc_undo al1 d' = Some (d2, DD_OK)" "doc_inv d2" "doc_content d2 = us_content (d_pt d') us" "grown (d_pt d') (d_pt d2)"
      "d_rstack d2 = [] @ [cur]" "us_ok (d_pt d') cur" "us_content (d_pt d') cur = doc_content d'" using u(3) by auto
  from redo_facts[OF d2(2,5), of al2] assms(6) obtain d3 where
    d3: "df_doc_redo al2 d2 = Some (d3, DD_OK)" "doc_content d3 = us_content (d_pt d2) cur" by auto
  show ?thesis using d2(1,3,7) d3 us_ok_grown(2)[OF u(2,5)] us_ok_grown(2)[OF d2(4,6)] u(6) by auto
qed

end

interpretation ed: undoable_edit "run_edit e" "fits e" for e
  by unfold_locales (rule run_edit_facts)

section \<open>Sessions\<close>

text \<open>
  Every document a program can reach, whatever the allocator answers.  The flag says that no allocation failed whose failure the
  code passes over: the three attribute lists of a new document, and what undo and redo put back.
\<close>

definition creates :: "answers \<Rightarrow> bool" where
  "creates al \<longleftrightarrow> al 1 \<and> al 2 \<and> al 4"



lemma reset_empty: "rl_reset_single True rl_init 0 p = Some (\<lparr>rl_runs = [(0, p)], rl_cap = 8\<rparr>, DD_OK)"
  by (simp add: rl_reset_single_def rl_reserve_def rl_init_def grow_cap.simps)

lemma single_ok: "runs_ok 0 \<lparr>rl_runs = [(0, p)], rl_cap = 8\<rparr>"
  by (simp add: runs_ok_def rl_inv_def)

lemma created_inv:
  assumes "df_doc_create al = Some (Some d)" "creates al"
  shows "doc_inv d"
proof -
  have f: "d_pt d = pt_init" "d_sections d = [default_page]" "d_ustack d = []" "d_rstack d = []"
    "d_cruns d = \<lparr>rl_runs = [(0, zero_cf)], rl_cap = 8\<rparr>" "d_pruns d = \<lparr>rl_runs = [(0, zero_pf\<lparr>pf_style_id := 0xFFFF\<rparr>)], rl_cap = 8\<rparr>"
    "d_sruns d = \<lparr>rl_runs = [(0, 0)], rl_cap = 8\<rparr>"
    using assms by (auto simp: df_doc_create_def df_doc_style_define_def creates_def reset_empty split: if_splits)
  have "us_ok (d_pt d) (now d)" unfolding us_ok_now unfolding f using pt_init_inv(2) by (simp add: pt_init_def single_ok)
  then show ?thesis using pt_init_inv(1) f(1,3,4) by (simp add: doc_inv_def)
qed


text \<open>The flag is needed: an undo whose copy of the character formats found no memory reports success, and the next query follows a null pointer.\<close>

lemma undo_without_memory:
  assumes "doc_inv d" "d_ustack d \<noteq> []" "df_doc_undo al d = Some (d', DD_OK)" "\<not> al 7"
  shows "df_doc_char_fmt_at d' pos = None"
proof -
  obtain cur where a: "apply_state al (d\<lparr>d_rstack := d_rstack d @ [cur], d_ustack := butlast (d_ustack d)\<rparr>) (last (d_ustack d)) = Some d'"
    using assms(2,3) by (auto simp: df_doc_undo_def bind_eq_Some_conv split: if_splits option.splits)
  have "us_ok (d_pt d) (last (d_ustack d))" using doc_invD(12)[OF assms(1)] assms(2) by simp
  then have "rl_inv (us_cruns (last (d_ustack d)))" by (simp add: us_ok_def runs_ok_def)
  note i = rl_invD(3,4)[OF this]
  then have ne: "rl_n (us_cruns (last (d_ustack d))) \<noteq> 0" by auto
  obtain r where c: "rl_copy (al 7) (us_cruns (last (d_ustack d))) = Some (d_cruns d', r)"
    using a by (auto simp: apply_state_def bind_eq_Some_conv)
  have "rl_runs (d_cruns d') = []"
    using c assms(4) ne i(1) by (auto simp: bind_eq_Some_conv rl_copy_def rl_reserve_def rl_init_def split: if_splits dest!: sym[of _ "d_cruns d'"])
  then show ?thesis by (simp add: df_doc_char_fmt_at_def Let_def rl_payload_at_def)
qed




section \<open>Paragraphs\<close>

text \<open>The reference: the newlines before a position, where its paragraph starts, and where it ends (after its newline).\<close>

definition nl :: "u8 list \<Rightarrow> nat \<Rightarrow> nat" where
  "nl t k = length (filter (\<lambda>c. c = 10) (take k t))"

definition pstart :: "u8 list \<Rightarrow> nat \<Rightarrow> nat" where
  "pstart t k = k - length (takeWhile (\<lambda>c. c \<noteq> 10) (rev (take k t)))"

definition pend :: "u8 list \<Rightarrow> nat \<Rightarrow> nat" where
  "pend t k = min (Suc (k + length (takeWhile (\<lambda>c. c \<noteq> 10) (drop k t)))) (length t)"

lemma para_step:
  assumes "k < length t"
  shows "nl t (Suc k) = (if t ! k = 10 then Suc (nl t k) else nl t k)" "pstart t (Suc k) = (if t ! k = 10 then Suc k else pstart t k)"
    "pend t k = (if t ! k = 10 then Suc k else pend t (Suc k))"
proof -
  have tk: "take (Suc k) t = take k t @ [t ! k]" using assms by (rule take_Suc_conv_app_nth)
  have dk: "drop k t = t ! k # drop (Suc k) t" using Cons_nth_drop_Suc[OF assms] by simp
  show "nl t (Suc k) = (if t ! k = 10 then Suc (nl t k) else nl t k)" unfolding nl_def tk by simp
  show "pstart t (Suc k) = (if t ! k = 10 then Suc k else pstart t k)" unfolding pstart_def tk by simp
  show "pend t k = (if t ! k = 10 then Suc k else pend t (Suc k))" unfolding pend_def dk using assms by simp
qed

lemma nl_bounds: "nl t k \<le> k" "a \<le> b \<Longrightarrow> nl t a \<le> nl t b"
proof -
  show "nl t k \<le> k" unfolding nl_def using length_filter_le[of "\<lambda>c. c = 10" "take k t"] by simp
  assume "a \<le> b"
  then have "take b t = take a t @ take (b - a) (drop a t)" by (metis le_add_diff_inverse take_add)
  then show "nl t a \<le> nl t b" by (simp add: nl_def)
qed

lemma same_para_up:
  assumes "a \<le> b" "b \<le> length t" "nl t a = nl t b"
  shows "pstart t a = pstart t b \<and> pend t a = pend t b"
  using assms
proof (induction b rule: dec_induct)
  case (step b)
  have b: "b < length t" using step.prems(1) by simp
  have "nl t b \<le> nl t (Suc b)" "nl t a \<le> nl t b" using nl_bounds(2) step.hyps by simp_all
  then have "nl t b = nl t a" "t ! b \<noteq> 10" using step.prems(2) para_step(1)[OF b] by auto
  then show ?case using step.IH para_step(2,3)[OF b] b by simp
qed simp

lemma same_para:
  assumes "a \<le> length t" "b \<le> length t" "nl t a = nl t b"
  shows "pstart t a = pstart t b" "pend t a = pend t b"
proof -
  have "pstart t a = pstart t b \<and> pend t a = pend t b"
  proof (cases "a \<le> b")
    case True
    from same_para_up[OF this assms(2,3)] show ?thesis .
  next
    case False
    then have "b \<le> a" by simp
    from same_para_up[OF this assms(1) assms(3)[symmetric]] show ?thesis by simp
  qed
  then show "pstart t a = pstart t b" "pend t a = pend t b" by blast+
qed

lemma pstart_pend: "pstart t k \<le> k" "k \<le> length t \<Longrightarrow> k \<le> pend t k" "pend t k \<le> length t"
  by (auto simp: pstart_def pend_def)

lemma newline_byte: "pt_inv pt \<Longrightarrow> k < length (pt_text pt) \<Longrightarrow> pt_byte_at pt (of_nat k) = 10 \<longleftrightarrow> pt_text pt ! k = 10"
proof -
  assume h: "pt_inv pt" "k < length (pt_text pt)"
  have "unat (of_nat k :: u32) = k" using h(2) pt_invD(2)[OF h(1)] by (intro unat_of_nat_u32) simp
  moreover have "uint (c :: u8) = 10 \<longleftrightarrow> c = 10" for c using word_uint_eq_iff[of c 10] by simp
  ultimately show ?thesis using pt_byte_at_facts[OF h(1), of "of_nat k"] h(2) by simp
qed

lemma newlines_before_facts:
  assumes "pt_inv pt" "unat pos \<le> length (pt_text pt)"
  shows "newlines_before pt pos = of_nat (nl (pt_text pt) (unat pos))"
proof -
  have "k \<le> length (pt_text pt) \<Longrightarrow>
      fold (\<lambda>i m. if pt_byte_at pt i = 10 then m + 1 else m) (List.map of_nat [0..<k]) 0 = (of_nat (nl (pt_text pt) k) :: u32)" for k
  proof (induction k)
    case (Suc k)
    then show ?case using newline_byte[OF assms(1), of k] para_step(1)[of k "pt_text pt"] by simp
  qed (simp add: nl_def)
  from this[OF assms(2)] show ?thesis by (simp add: newlines_before_def words_from_def)
qed

lemma para_loop_facts:
  assumes "pt_inv pt" "pos \<le> length (pt_text pt)" "a \<le> length (pt_text pt)" "nl (pt_text pt) a \<le> nl (pt_text pt) pos"
  shows "para_loop pt (of_nat (nl (pt_text pt) pos)) (List.map of_nat [a..<length (pt_text pt)]) (of_nat (nl (pt_text pt) a)) (of_nat (pstart (pt_text pt) a)) =
    Inr (of_nat (pstart (pt_text pt) pos), of_nat (pend (pt_text pt) pos) - of_nat (pstart (pt_text pt) pos))"
  using assms(3,4)
proof (induction "length (pt_text pt) - a" arbitrary: a)
  case 0
  note I = pt_invD[OF assms(1)]
  have a: "a = length (pt_text pt)" using 0 by simp
  have "nl (pt_text pt) pos = nl (pt_text pt) a" using 0(3) nl_bounds(2)[OF assms(2), of "pt_text pt"] a by simp
  from same_para[OF assms(2) 0(2) this] this have "pstart (pt_text pt) pos = pstart (pt_text pt) a" "pend (pt_text pt) pos = length (pt_text pt)"
      "nl (pt_text pt) pos = nl (pt_text pt) a"
    using a by (simp_all add: pend_def)
  moreover have "pt_total pt = of_nat (length (pt_text pt))" using arg_cong[OF I(3), of "of_nat :: nat \<Rightarrow> u32"] by simp
  ultimately show ?case using a by simp
next
  case (Suc n)
  let ?t = "pt_text pt"
  note I = pt_invD[OF assms(1)]
  have a: "a < length ?t" using Suc(2) by simp
  have up: "[a..<length ?t] = a # [Suc a..<length ?t]" using a by (rule upt_conv_Cons)
  note S = para_step[OF a] and B = newline_byte[OF assms(1) a]
  have bnd: "nl ?t a < 4294967296" "nl ?t pos < 4294967296"
    using nl_bounds(1)[of ?t a] nl_bounds(1)[of ?t pos] assms(2) a I(2) by auto
  then have eq: "(of_nat (nl ?t a) = (of_nat (nl ?t pos) :: u32)) = (nl ?t a = nl ?t pos)" by (metis unat_of_nat_u32)
  show ?case
  proof (cases "?t ! a = 10 \<and> nl ?t a = nl ?t pos")
    case True
    from same_para[OF _ assms(2), of a] True a S(3) have "pstart ?t a = pstart ?t pos" "pend ?t pos = Suc a" by simp_all
    then show ?thesis using True B eq by (simp add: up)
  next
    case False
    have ih: "para_loop pt (of_nat (nl ?t pos)) (List.map of_nat [Suc a..<length ?t]) (of_nat (nl ?t (Suc a))) (of_nat (pstart ?t (Suc a))) =
        Inr (of_nat (pstart ?t pos), of_nat (pend ?t pos) - of_nat (pstart ?t pos))"
      by (rule Suc(1)) (use Suc(2-4) a S(1) False in auto)
    show ?thesis
    proof (cases "?t ! a = 10")
      case True
      then show ?thesis using False B eq ih S(1,2) by (simp add: up add.commute)
    next
      case nn: False
      then show ?thesis using B ih S(1,2) by (simp add: up)
    qed
  qed
qed

lemma paragraph_facts:
  assumes "pt_inv (d_pt d)" "unat pos \<le> length (pt_text (d_pt d))"
  defines "t \<equiv> pt_text (d_pt d)"
  shows "\<exists>s l. df_doc_para_range d (df_doc_para_at d pos) = Inr (s, l) \<and> unat s = pstart t (unat pos) \<and> unat s + unat l = pend t (unat pos)"
proof -
  note I = pt_invD[OF assms(1)]
  have "df_doc_para_at d pos = of_nat (nl t (unat pos))"
    using newlines_before_facts[OF assms(1,2)] assms(2) I(3) by (simp add: df_doc_para_at_def t_def word_less_nat_alt)
  moreover have "nl t 0 = 0" "pstart t 0 = 0" by (simp_all add: nl_def pstart_def)
  ultimately have r: "df_doc_para_range d (df_doc_para_at d pos) = Inr (of_nat (pstart t (unat pos)), of_nat (pend t (unat pos)) - of_nat (pstart t (unat pos)))"
    using para_loop_facts[OF assms(1,2), of 0] I(3) by (simp add: df_doc_para_range_def words_from_def t_def)
  have b: "pstart t (unat pos) \<le> pend t (unat pos)" "pend t (unat pos) < 4294967296"
    using pstart_pend[where t = t and k = "unat pos"] assms(2) I(2) by (auto simp: t_def intro: order_trans)
  have u: "unat (of_nat (pstart t (unat pos)) :: u32) = pstart t (unat pos)" "unat (of_nat (pend t (unat pos)) :: u32) = pend t (unat pos)"
    using b by (auto intro!: unat_of_nat_u32)
  then have "unat (of_nat (pend t (unat pos)) - of_nat (pstart t (unat pos)) :: u32) = pend t (unat pos) - pstart t (unat pos)"
    using b(1) by (simp add: unat_sub word_le_nat_alt)
  then show ?thesis using r u b(1) by auto
qed

section \<open>Properties\<close>


definition doc0 :: df_doc where
  "doc0 = \<lparr>d_pt = pt_init, d_cruns = \<lparr>rl_runs = [(0, zero_cf)], rl_cap = 8\<rparr>,
     d_pruns = \<lparr>rl_runs = [(0, zero_pf\<lparr>pf_style_id := 0xFFFF\<rparr>)], rl_cap = 8\<rparr>,
     d_def_cf = zero_cf\<lparr>cf_mask := ALL_CF, cf_size_twips := 220, cf_color := 0xFF000000\<rparr>,
     d_sruns = \<lparr>rl_runs = [(0, 0)], rl_cap = 8\<rparr>, d_sections = [default_page],
     d_styles = [\<lparr>st_name = [78, 111, 114, 109, 97, 108], st_parent = -1, st_cf = zero_cf, st_pf = zero_pf\<lparr>pf_style_id := 0xFFFF\<rparr>\<rparr>],
     d_fam = [Some []], d_ustack = [], d_rstack = []\<rparr>"

lemma doc0_created: "df_doc_create (\<lambda>_. True) = Some (Some doc0)"
  by (simp add: doc0_def df_doc_create_def reset_empty df_doc_style_define_def c_string_def)

lemma doc0_roomy: "roomy doc0" "room_for doc0 [x]" "room_for doc0 [x, y]"
  by (simp_all add: roomy_def room_for_def doc0_def pt_init_def pt_text_def)

lemma doc0_inv: "doc_inv doc0"
  by (rule created_inv[OF doc0_created]) (simp add: creates_def)



text \<open>
  C17: Undo and redo: an edit that changed the document is taken back by undo, which restores the text, the format of every character and
  paragraph, and the sections; redo then brings back what the edit had made.  Undo and redo are given the memory they ask for (the edit need not be).
\<close>

theorem edit_undo_redo:
  assumes "doc_inv d" "fits e d" "run_edit e al d = Some (d', r)" "d' \<noteq> d" "\<And>i. al1 i" "\<And>i. al2 i"
  shows "\<exists>d2 d3. df_doc_undo al1 d' = Some (d2, DD_OK) \<and> doc_content d2 = doc_content d \<and>
    df_doc_redo al2 d2 = Some (d3, DD_OK) \<and> doc_content d3 = doc_content d'"
  by (rule ed.undo_redo[OF assms])

theorem edit_undo_redo_witness:
  "\<exists>d1 d2 d3. df_doc_insert (\<lambda>_. True) doc0 0 [104, 105] = Some (d1, DD_OK) \<and> pt_text (d_pt d1) = [104, 105] \<and>
     df_doc_undo (\<lambda>_. True) d1 = Some (d2, DD_OK) \<and> doc_content d2 = doc_content doc0 \<and>
     df_doc_redo (\<lambda>_. True) d2 = Some (d3, DD_OK) \<and> doc_content d3 = doc_content d1"
proof -
  have f: "fits (E_insert 0 [104, 105]) doc0" using doc0_roomy by simp
  have "map_option (\<lambda>(d, r). (pt_text (d_pt d), r)) (df_doc_insert (\<lambda>_. True) doc0 0 [104, 105]) = Some ([104, 105], DD_OK)" by code_simp
  then obtain d1 where d1: "df_doc_insert (\<lambda>_. True) doc0 0 [104, 105] = Some (d1, DD_OK)" "pt_text (d_pt d1) = [104, 105]" by auto
  have "pt_text (d_pt doc0) = []" using pt_init_inv(2) by (simp add: doc0_def)
  then have ne: "d1 \<noteq> doc0" using d1(2) by auto
  have r: "run_edit (E_insert 0 [104, 105]) (\<lambda>_. True) doc0 = Some (d1, DD_OK)" using d1(1) by simp
  from edit_undo_redo[OF doc0_inv f r ne, of "\<lambda>_. True" "\<lambda>_. True"] show ?thesis using d1 by blast
qed

text \<open>
  C18: An edit that reports an error (a position past the end, or no memory at any step) leaves the document well formed and everything it
  says as it was.
\<close>

theorem edit_error_harmless:
  assumes "doc_inv d" "fits e d" "run_edit e al d = Some (d', r)" "r \<noteq> DD_OK"
  shows "doc_inv d' \<and> doc_content d' = doc_content d"
  using ed.typed[OF assms(1-3)] ed.harmless[OF assms] by blast

theorem edit_error_harmless_witness:
  "\<exists>d1. df_doc_insert (\<lambda>i. i < 6) doc0 0 [104] = Some (d1, DD_ERR_NOMEM) \<and> doc_inv d1 \<and> doc_content d1 = doc_content doc0"
proof -
  have f: "fits (E_insert 0 [104]) doc0" using doc0_roomy by simp
  have "map_option snd (df_doc_insert (\<lambda>i. i < 6) doc0 0 [104]) = Some DD_ERR_NOMEM" by code_simp
  then obtain d1 where d1: "df_doc_insert (\<lambda>i. i < 6) doc0 0 [104] = Some (d1, DD_ERR_NOMEM)" by auto
  then have "run_edit (E_insert 0 [104]) (\<lambda>i. i < 6) doc0 = Some (d1, DD_ERR_NOMEM)" by simp
  from edit_error_harmless[OF doc0_inv f this] show ?thesis using d1 by simp
qed

text \<open>
  C22: The two loops over paragraphs agree: the range of the paragraph at a position starts after the last newline before the position
  and ends with the first newline from it on, or with the text.
\<close>

theorem paragraph_at:
  assumes "pt_inv (d_pt d)" "unat pos \<le> length (pt_text (d_pt d))"
  shows "\<exists>s l. df_doc_para_range d (df_doc_para_at d pos) = Inr (s, l) \<and>
    unat s = unat pos - length (takeWhile (\<lambda>c. c \<noteq> 10) (rev (take (unat pos) (pt_text (d_pt d))))) \<and>
    unat s + unat l = min (unat pos + length (takeWhile (\<lambda>c. c \<noteq> 10) (drop (unat pos) (pt_text (d_pt d)))) + 1) (length (pt_text (d_pt d)))"
  using paragraph_facts[OF assms] by (simp add: pstart_def pend_def)

theorem paragraph_at_witness:
  "let d = doc0\<lparr>d_pt := pt_example\<rparr>
   in df_doc_para_range d (df_doc_para_at d 2) = Inr (0, 5)"
proof -
  let ?d = "doc0\<lparr>d_pt := pt_example\<rparr>"
  have i: "pt_inv (d_pt ?d)" "unat (2 :: u32) \<le> length (pt_text (d_pt ?d))" using pt_example_facts by simp_all
  from paragraph_at[OF i] obtain s l where p: "df_doc_para_range ?d (df_doc_para_at ?d 2) = Inr (s, l)" "unat s = 0" "unat s + unat l = 5"
    using pt_example_facts(2) by auto
  have "unat s = unat (0 :: u32)" "unat l = unat (5 :: u32)" using p(2,3) by simp_all
  then have "s = 0" "l = 5" by (simp_all only: word_unat_eq_iff)
  then show ?thesis using p by (simp add: Let_def)
qed

text \<open>
  \<^verbatim>\<open>df_doc_remove_section_break\<close> has no check of its position: from the end of the text on it finds the place after
  the last run, takes it for a section boundary and writes a payload there, past the runs of the list.
\<close>

theorem remove_break_past_end:
  assumes "doc_inv d" "pt_total (d_pt d) \<le> pos" "begin_edit al d = Some (d1, DD_OK)"
  shows "df_doc_remove_section_break al d pos = None"
proof -
  note I = doc_invD[OF assms(1)]
  have "sum_list (List.map unat (List.map fst (rl_runs (d_sruns d)))) \<le> unat pos"
    using assms(2) I(3,9) by (simp add: word_le_nat_alt expand_length)
  then have f: "rl_find (d_sruns d) pos = (length (rl_runs (d_sruns d)), 0)" unfolding rl_find_def using find_loop_beyond[of 0 _ pos 0] by simp
  have "d_sruns d1 = d_sruns d" using begin_edit_facts[OF assms(1), of al] assms(3) by auto
  then show ?thesis using assms(3) f rl_invD(3)[OF I(8)] by (simp add: df_doc_remove_section_break_def)
qed

theorem remove_break_past_end_witness: "df_doc_remove_section_break (\<lambda>_. True) doc0 0 = None"
proof -
  have "map_option snd (begin_edit (\<lambda>_. True) doc0) = Some DD_OK" by code_simp
  then obtain d1 where "begin_edit (\<lambda>_. True) doc0 = Some (d1, DD_OK)" by auto
  from remove_break_past_end[OF doc0_inv _ this, of 0] show ?thesis by (simp add: doc0_def pt_init_def)
qed

text \<open>
  C21: The fast query of a character's format is the slow one: for the start of the paragraph around the position, \<^verbatim>\<open>df_doc_char_fmt_at_para\<close>,
  which skips both scans of the text, gives what \<^verbatim>\<open>df_doc_char_fmt_at\<close> gives.
\<close>

theorem char_fmt_at_para_equiv:
  assumes "doc_inv d" "unat pos \<le> length (pt_text (d_pt d))"
    and "unat start = unat pos - length (takeWhile (\<lambda>c. c \<noteq> 10) (rev (take (unat pos) (pt_text (d_pt d)))))"
  shows "df_doc_char_fmt_at_para d start pos = df_doc_char_fmt_at d pos"
proof -
  from paragraph_facts[OF doc_invD(1)[OF assms(1)] assms(2)] obtain s l where
    p: "df_doc_para_range d (df_doc_para_at d pos) = Inr (s, l)" "unat s = unat start"
    using assms(3) unfolding pstart_def by (elim exE conjE) simp
  have "s = start" using p(2) by (simp add: word_unat_eq_iff)
  then show ?thesis using p(1) by (simp add: df_doc_char_fmt_at_para_def df_doc_char_fmt_at_def)
qed

theorem char_fmt_at_para_equiv_witness: "df_doc_char_fmt_at_para doc0 0 0 = df_doc_char_fmt_at doc0 0"
  by (rule char_fmt_at_para_equiv[OF doc0_inv]) (simp_all add: doc0_def pt_init_inv(2))

end
