(* ===== verification/Docfile.thy ===== *)
theory Docfile
  imports Document
begin

text \<open>
  The file format of the document library, \<^verbatim>\<open>libdobdoc/src/docfile.c\<close>: a header and a sequence of chunks, each a tag, a length and its
  bytes.  A growing buffer is the list of its bytes with the capacity and the number of \<^verbatim>\<open>realloc\<close> calls it has made; the
  answers of the allocator are functions of such numbers.  None is a loop that does not end, or a read or write outside a buffer.  What the code
  leaves uninitialised after a failed read is zero here; it is discarded with the document.

  The theory shows that loading a saved document gives back its text, formats, styles, families and sections; and that a crafted length makes the loader run for ever.
\<close>

section \<open>The writer\<close>

record bb =
  bb_p :: "u8 list"
  bb_cap :: u32
  bb_err :: bool
  bb_calls :: nat

definition bb_init :: bb where
  "bb_init = \<lparr>bb_p = [], bb_cap = 0, bb_err = False, bb_calls = 0\<rparr>"

definition bb_len :: "bb \<Rightarrow> u32" where
  "bb_len b = of_nat (length (bb_p b))"

definition bb_ensure :: "answers \<Rightarrow> u32 \<Rightarrow> bb \<Rightarrow> bb option" where
  "bb_ensure al need b =
     (if bb_err b then Some b
      else if bb_len b + need \<le> bb_cap b then Some b
      else do { nc \<leftarrow> grow_cap (if bb_cap b \<noteq> 0 then bb_cap b * 2 else 256) (bb_len b + need);
                let b1 = b\<lparr>bb_calls := bb_calls b + 1\<rparr>
                in Some (if al (bb_calls b) then b1\<lparr>bb_cap := nc\<rparr> else b1\<lparr>bb_err := True\<rparr>) })"

text \<open>A write of more bytes than the buffer has room for is None.\<close>

definition bb_store :: "u8 list \<Rightarrow> bb \<Rightarrow> bb option" where
  "bb_store xs b =
     (if bb_err b then Some b
      else if length (bb_p b) + length xs \<le> unat (bb_cap b) then Some (b\<lparr>bb_p := bb_p b @ xs\<rparr>) else None)"

definition bb_u8 :: "answers \<Rightarrow> u8 \<Rightarrow> bb \<Rightarrow> bb option" where
  "bb_u8 al v b = do { b1 \<leftarrow> bb_ensure al 1 b; bb_store [v] b1 }"

definition bb_u16 :: "answers \<Rightarrow> u16 \<Rightarrow> bb \<Rightarrow> bb option" where
  "bb_u16 al v b = do { b1 \<leftarrow> bb_u8 al (ucast v) b; bb_u8 al (ucast (drop_bit 8 v)) b1 }"

definition bb_u32 :: "answers \<Rightarrow> u32 \<Rightarrow> bb \<Rightarrow> bb option" where
  "bb_u32 al v b =
     do { b1 \<leftarrow> bb_u8 al (ucast v) b; b2 \<leftarrow> bb_u8 al (ucast (drop_bit 8 v)) b1;
          b3 \<leftarrow> bb_u8 al (ucast (drop_bit 16 v)) b2; bb_u8 al (ucast (drop_bit 24 v)) b3 }"

definition bb_bytes :: "answers \<Rightarrow> u8 list \<Rightarrow> bb \<Rightarrow> bb option" where
  "bb_bytes al xs b = do { b1 \<leftarrow> bb_ensure al (of_nat (length xs)) b; bb_store xs b1 }"

definition bb_chunk :: "answers \<Rightarrow> u8 list \<Rightarrow> bb \<Rightarrow> bb \<Rightarrow> bb option" where
  "bb_chunk al tag c b = do { b1 \<leftarrow> bb_bytes al tag b; b2 \<leftarrow> bb_u32 al (bb_len c) b1; bb_bytes al (bb_p c) b2 }"

definition put_charfmt :: "answers \<Rightarrow> CharFmt \<Rightarrow> bb \<Rightarrow> bb option" where
  "put_charfmt al c b =
     do { b \<leftarrow> bb_u16 al (cf_mask c) b; b \<leftarrow> bb_u16 al (cf_family_id c) b; b \<leftarrow> bb_u32 al (cf_size_twips c) b;
          b \<leftarrow> bb_u8 al (cf_bold c) b; b \<leftarrow> bb_u8 al (cf_italic c) b; b \<leftarrow> bb_u8 al (cf_underline c) b; b \<leftarrow> bb_u8 al (cf_strike c) b;
          b \<leftarrow> bb_u32 al (cf_color c) b; bb_u32 al (cf_highlight c) b }"

definition put_parafmt :: "answers \<Rightarrow> ParaFmt \<Rightarrow> bb \<Rightarrow> bb option" where
  "put_parafmt al p b =
     do { b \<leftarrow> bb_u16 al (pf_mask p) b; b \<leftarrow> bb_u8 al (pf_align p) b; b \<leftarrow> bb_u8 al 0 b;
          b \<leftarrow> bb_u32 al (pf_indent_left p) b; b \<leftarrow> bb_u32 al (pf_indent_right p) b; b \<leftarrow> bb_u32 al (pf_indent_first p) b;
          b \<leftarrow> bb_u32 al (pf_space_before p) b; b \<leftarrow> bb_u32 al (pf_space_after p) b; b \<leftarrow> bb_u32 al (pf_line_spacing p) b;
          bb_u16 al (pf_style_id p) b }"

definition charfmt_rec_size :: "answers \<Rightarrow> u16 option" where
  "charfmt_rec_size al = do { t \<leftarrow> put_charfmt al zero_cf bb_init; Some (ucast (bb_len t)) }"

definition parafmt_rec_size :: "answers \<Rightarrow> u16 option" where
  "parafmt_rec_size al = do { t \<leftarrow> put_parafmt al zero_pf bb_init; Some (ucast (bb_len t)) }"

definition put_pagerec :: "answers \<Rightarrow> PageSetup \<Rightarrow> bb \<Rightarrow> bb option" where
  "put_pagerec al p b =
     do { b \<leftarrow> bb_u32 al (pg_width p) b; b \<leftarrow> bb_u32 al (pg_height p) b; b \<leftarrow> bb_u32 al (pg_margin_left p) b;
          b \<leftarrow> bb_u32 al (pg_margin_right p) b; b \<leftarrow> bb_u32 al (pg_margin_top p) b; b \<leftarrow> bb_u32 al (pg_margin_bottom p) b;
          b \<leftarrow> bb_u32 al (pg_bg_color p) b; b \<leftarrow> bb_u32 al (pg_columns p) b; bb_u32 al (pg_column_gap p) b }"

definition pagerec_size :: u16 where "pagerec_size = 9 * 4"

fun put_all :: "('a \<Rightarrow> bb \<Rightarrow> bb option) \<Rightarrow> 'a list \<Rightarrow> bb \<Rightarrow> bb option" where
  "put_all put [] b = Some b"
| "put_all put (x # xs) b = do { b1 \<leftarrow> put x b; put_all put xs b1 }"

definition put_family :: "answers \<Rightarrow> u8 list option \<Rightarrow> bb \<Rightarrow> bb option" where
  "put_family al fam b =
     (let nm = (case fam of Some s \<Rightarrow> s | None \<Rightarrow> []); l = of_nat (length nm) :: u16
      in do { b1 \<leftarrow> bb_u16 al l b; bb_bytes al (take (unat l) nm) b1 })"

text \<open>The 48 bytes of a style's name, which was zeroed before the copy.\<close>

definition name_bytes :: "u8 list \<Rightarrow> u8 list" where
  "name_bytes nm = take 48 (nm @ replicate 48 0)"

definition put_style :: "answers \<Rightarrow> Style \<Rightarrow> bb \<Rightarrow> bb option" where
  "put_style al s b =
     do { b \<leftarrow> bb_bytes al (name_bytes (st_name s)) b; b \<leftarrow> bb_u16 al (st_parent s) b;
          b \<leftarrow> put_charfmt al (st_cf s) b; put_parafmt al (st_pf s) b }"

definition put_run :: "answers \<Rightarrow> ('a \<Rightarrow> bb \<Rightarrow> bb option) \<Rightarrow> u32 \<times> 'a \<Rightarrow> bb \<Rightarrow> bb option" where
  "put_run al put r b = do { b1 \<leftarrow> bb_u32 al (fst r) b; put (snd r) b1 }"

definition tag_PAGE :: "u8 list" where "tag_PAGE = [80, 65, 71, 69]"
definition tag_DCHF :: "u8 list" where "tag_DCHF = [68, 67, 72, 70]"
definition tag_FAMS :: "u8 list" where "tag_FAMS = [70, 65, 77, 83]"
definition tag_STYL :: "u8 list" where "tag_STYL = [83, 84, 89, 76]"
definition tag_TEXT :: "u8 list" where "tag_TEXT = [84, 69, 88, 84]"
definition tag_CRUN :: "u8 list" where "tag_CRUN = [67, 82, 85, 78]"
definition tag_PRUN :: "u8 list" where "tag_PRUN = [80, 82, 85, 78]"
definition tag_SECT :: "u8 list" where "tag_SECT = [83, 69, 67, 84]"
definition magic_DOBW :: "u8 list" where "magic_DOBW = [68, 79, 66, 87]"

text \<open>The payload of each chunk; \<^verbatim>\<open>al k\<close> answers the calls of the \<open>k\<close>th buffer.\<close>

definition ser_page :: "(nat \<Rightarrow> answers) \<Rightarrow> df_doc \<Rightarrow> bb option" where
  "ser_page al d = (if d_sections d = [] then None else put_pagerec (al 1) (d_sections d ! 0) bb_init)"

definition ser_dchf :: "(nat \<Rightarrow> answers) \<Rightarrow> df_doc \<Rightarrow> bb option" where
  "ser_dchf al d = do { cs \<leftarrow> charfmt_rec_size (al 10); c \<leftarrow> bb_u16 (al 2) cs bb_init; put_charfmt (al 2) (d_def_cf d) c }"

definition ser_fams :: "(nat \<Rightarrow> answers) \<Rightarrow> df_doc \<Rightarrow> bb option" where
  "ser_fams al d = do { c \<leftarrow> bb_u16 (al 3) (of_nat (length (d_fam d))) bb_init; put_all (put_family (al 3)) (d_fam d) c }"

definition ser_styl :: "(nat \<Rightarrow> answers) \<Rightarrow> df_doc \<Rightarrow> bb option" where
  "ser_styl al d =
     do { c \<leftarrow> bb_u16 (al 4) (of_nat (length (d_styles d))) bb_init;
          cs \<leftarrow> charfmt_rec_size (al 11); c \<leftarrow> bb_u16 (al 4) cs c;
          ps \<leftarrow> parafmt_rec_size (al 12); c \<leftarrow> bb_u16 (al 4) ps c;
          put_all (put_style (al 4)) (d_styles d) c }"

definition ser_text :: "(nat \<Rightarrow> answers) \<Rightarrow> df_doc \<Rightarrow> bb option" where
  "ser_text al d =
     (let n = pt_total (d_pt d)
      in if n \<noteq> 0 then (if al 13 0 then bb_bytes (al 5) (pt_get_text (d_pt d) 0 n n) bb_init else Some (bb_init\<lparr>bb_err := True\<rparr>))
         else Some bb_init)"

definition ser_crun :: "(nat \<Rightarrow> answers) \<Rightarrow> df_doc \<Rightarrow> bb option" where
  "ser_crun al d =
     do { c \<leftarrow> bb_u32 (al 6) (rl_n (d_cruns d)) bb_init; cs \<leftarrow> charfmt_rec_size (al 14); c \<leftarrow> bb_u16 (al 6) cs c;
          put_all (put_run (al 6) (put_charfmt (al 6))) (rl_runs (d_cruns d)) c }"

definition ser_prun :: "(nat \<Rightarrow> answers) \<Rightarrow> df_doc \<Rightarrow> bb option" where
  "ser_prun al d =
     do { c \<leftarrow> bb_u32 (al 7) (rl_n (d_pruns d)) bb_init; ps \<leftarrow> parafmt_rec_size (al 15); c \<leftarrow> bb_u16 (al 7) ps c;
          put_all (put_run (al 7) (put_parafmt (al 7))) (rl_runs (d_pruns d)) c }"

definition ser_sect :: "(nat \<Rightarrow> answers) \<Rightarrow> df_doc \<Rightarrow> bb option" where
  "ser_sect al d =
     do { c \<leftarrow> bb_u16 (al 8) pagerec_size bb_init; c \<leftarrow> bb_u32 (al 8) (of_nat (length (d_sections d))) c;
          c \<leftarrow> put_all (put_pagerec (al 8)) (d_sections d) c; c \<leftarrow> bb_u32 (al 8) (rl_n (d_sruns d)) c;
          put_all (put_run (al 8) (bb_u32 (al 8))) (rl_runs (d_sruns d)) c }"

definition df_doc_serialize :: "(nat \<Rightarrow> answers) \<Rightarrow> df_doc \<Rightarrow> (dd_result + u8 list) option" where
  "df_doc_serialize al d =
     do { b \<leftarrow> bb_bytes (al 0) magic_DOBW bb_init; b \<leftarrow> bb_u16 (al 0) 3 b; b \<leftarrow> bb_u16 (al 0) 0 b;
          c \<leftarrow> ser_page al d; b \<leftarrow> bb_chunk (al 0) tag_PAGE c b;
          c \<leftarrow> ser_dchf al d; b \<leftarrow> bb_chunk (al 0) tag_DCHF c b;
          c \<leftarrow> ser_fams al d; b \<leftarrow> bb_chunk (al 0) tag_FAMS c b;
          c \<leftarrow> ser_styl al d; b \<leftarrow> bb_chunk (al 0) tag_STYL c b;
          c \<leftarrow> ser_text al d; b \<leftarrow> bb_chunk (al 0) tag_TEXT c b;
          let b1 = (if bb_err c then b\<lparr>bb_err := True\<rparr> else b) in do {
          c \<leftarrow> ser_crun al d; b \<leftarrow> bb_chunk (al 0) tag_CRUN c b1;
          c \<leftarrow> ser_prun al d; b \<leftarrow> bb_chunk (al 0) tag_PRUN c b;
          c \<leftarrow> ser_sect al d; b \<leftarrow> bb_chunk (al 0) tag_SECT c b;
          Some (if bb_err b then Inl DD_ERR_NOMEM else Inr (bb_p b)) } }"

section \<open>The reader\<close>

record rd =
  rd_p :: "u8 list"
  rd_pos :: u32
  rd_err :: bool

definition rd_len :: "rd \<Rightarrow> u32" where
  "rd_len r = of_nat (length (rd_p r))"

definition rd_u8 :: "rd \<Rightarrow> (u8 \<times> rd) option" where
  "rd_u8 r =
     (if rd_pos r + 1 > rd_len r then Some (0, r\<lparr>rd_err := True\<rparr>)
      else if unat (rd_pos r) < length (rd_p r) then Some (rd_p r ! unat (rd_pos r), r\<lparr>rd_pos := rd_pos r + 1\<rparr>) else None)"

definition rd_u16 :: "rd \<Rightarrow> (u16 \<times> rd) option" where
  "rd_u16 r = do { (a, r) \<leftarrow> rd_u8 r; (b, r) \<leftarrow> rd_u8 r; Some (ucast a OR push_bit 8 (ucast b), r) }"

definition rd_u32 :: "rd \<Rightarrow> (u32 \<times> rd) option" where
  "rd_u32 r =
     do { (a, r) \<leftarrow> rd_u8 r; (b, r) \<leftarrow> rd_u8 r; (c, r) \<leftarrow> rd_u8 r; (e, r) \<leftarrow> rd_u8 r;
          Some (ucast a OR push_bit 8 (ucast b) OR push_bit 16 (ucast c) OR push_bit 24 (ucast e), r) }"

definition rd_bytes :: "u32 \<Rightarrow> rd \<Rightarrow> (u8 list \<times> rd) option" where
  "rd_bytes n r =
     (if rd_pos r + n > rd_len r then Some ([], r\<lparr>rd_err := True\<rparr>)
      else if unat (rd_pos r) + unat n \<le> length (rd_p r)
      then Some (take (unat n) (drop (unat (rd_pos r)) (rd_p r)), r\<lparr>rd_pos := rd_pos r + n\<rparr>) else None)"

definition rd_skip :: "u32 \<Rightarrow> rd \<Rightarrow> rd" where
  "rd_skip n r = (if rd_pos r + n > rd_len r then r\<lparr>rd_err := True\<rparr> else r\<lparr>rd_pos := rd_pos r + n\<rparr>)"

text \<open>A field of \<open>n\<close> bytes, when it ends within the record.\<close>

definition field :: "u32 \<Rightarrow> u32 \<Rightarrow> (rd \<Rightarrow> ('a :: zero \<times> rd) option) \<Rightarrow> rd \<Rightarrow> ('a \<times> rd) option" where
  "field fin n get r = (if rd_pos r + n \<le> fin then get r else Some (0, r))"

definition get_charfmt_sized :: "u32 \<Rightarrow> rd \<Rightarrow> (CharFmt \<times> rd) option" where
  "get_charfmt_sized rec r =
     (let fin = rd_pos r + rec
      in if fin > rd_len r then Some (zero_cf, r\<lparr>rd_err := True\<rparr>)
         else do { (mask, r) \<leftarrow> field fin 2 rd_u16 r; (family, r) \<leftarrow> field fin 2 rd_u16 r; (sz, r) \<leftarrow> field fin 4 rd_u32 r;
                   (bold, r) \<leftarrow> field fin 1 rd_u8 r; (italic, r) \<leftarrow> field fin 1 rd_u8 r; (underline, r) \<leftarrow> field fin 1 rd_u8 r;
                   (strike, r) \<leftarrow> field fin 1 rd_u8 r; (color, r) \<leftarrow> field fin 4 rd_u32 r; (highlight, r) \<leftarrow> field fin 4 rd_u32 r;
                   Some (\<lparr>cf_mask = mask, cf_family_id = family, cf_size_twips = sz, cf_bold = bold, cf_italic = italic, cf_underline = underline,
                          cf_strike = strike, cf_color = color, cf_highlight = highlight\<rparr>, r\<lparr>rd_pos := fin\<rparr>) })"

definition get_pagerec_sized :: "u32 \<Rightarrow> rd \<Rightarrow> (PageSetup \<times> rd) option" where
  "get_pagerec_sized rec r =
     (let fin = rd_pos r + rec
      in if fin > rd_len r
         then Some (\<lparr>pg_width = 0, pg_height = 0, pg_margin_left = 0, pg_margin_right = 0, pg_margin_top = 0, pg_margin_bottom = 0,
                     pg_bg_color = 0, pg_columns = 0, pg_column_gap = 0\<rparr>, r\<lparr>rd_err := True\<rparr>)
         else do { (w, r) \<leftarrow> field fin 4 rd_u32 r; (h, r) \<leftarrow> field fin 4 rd_u32 r; (ml, r) \<leftarrow> field fin 4 rd_u32 r;
                   (mr, r) \<leftarrow> field fin 4 rd_u32 r; (mt, r) \<leftarrow> field fin 4 rd_u32 r; (mb, r) \<leftarrow> field fin 4 rd_u32 r;
                   (bg, r) \<leftarrow> field fin 4 rd_u32 r; (cols, r) \<leftarrow> field fin 4 rd_u32 r; (gap, r) \<leftarrow> field fin 4 rd_u32 r;
                   Some (\<lparr>pg_width = w, pg_height = h, pg_margin_left = ml, pg_margin_right = mr, pg_margin_top = mt, pg_margin_bottom = mb,
                          pg_bg_color = bg, pg_columns = cols, pg_column_gap = gap\<rparr>, r\<lparr>rd_pos := fin\<rparr>) })"

definition get_parafmt_sized :: "u32 \<Rightarrow> rd \<Rightarrow> (ParaFmt \<times> rd) option" where
  "get_parafmt_sized rec r =
     (let fin = rd_pos r + rec
      in if fin > rd_len r then Some (zero_pf, r\<lparr>rd_err := True\<rparr>)
         else do { (mask, r) \<leftarrow> field fin 2 rd_u16 r; (align, r) \<leftarrow> field fin 1 rd_u8 r; (pad, r) \<leftarrow> field fin 1 rd_u8 r;
                   (il, r) \<leftarrow> field fin 4 rd_u32 r; (ir, r) \<leftarrow> field fin 4 rd_u32 r; (i1, r) \<leftarrow> field fin 4 rd_u32 r;
                   (sb, r) \<leftarrow> field fin 4 rd_u32 r; (sa, r) \<leftarrow> field fin 4 rd_u32 r; (ls, r) \<leftarrow> field fin 4 rd_u32 r;
                   (st, r) \<leftarrow> field fin 2 rd_u16 r;
                   Some (\<lparr>pf_mask = mask, pf_align = align, pf_indent_left = il, pf_indent_right = ir, pf_indent_first = i1,
                          pf_space_before = sb, pf_space_after = sa, pf_line_spacing = ls, pf_style_id = st\<rparr>, r\<lparr>rd_pos := fin\<rparr>) })"

definition fix_total :: "bool \<Rightarrow> 'a \<Rightarrow> 'a \<Rightarrow> u32 \<Rightarrow> 'a runlist \<Rightarrow> 'a runlist option" where
  "fix_total ok zero defp n rl =
     (let s = rl_total rl
      in if s = n then Some rl
         else if s < n
         then (if rl_runs rl = [] then map_option fst (rl_reset_single ok rl n defp)
               else let i = length (rl_runs rl) - 1 in Some (rl\<lparr>rl_runs := (rl_runs rl)[i := (fst (rl_runs rl ! i) + (n - s), snd (rl_runs rl ! i))]\<rparr>))
         else map_option fst (rl_delete zero ok rl n (s - n)))"

section \<open>Loading\<close>

text \<open>The state of the loader: the document, the place in the file, which chunks were seen, and the number of allocations so far.\<close>

record ld =
  ld_d :: df_doc
  ld_r :: rd
  ld_crun :: bool
  ld_prun :: bool
  ld_sect :: bool
  ld_n :: nat

definition load_page :: "u32 \<Rightarrow> ld \<Rightarrow> ld option" where
  "load_page chunk_end s =
     (if d_sections (ld_d s) = [] then None
      else let p0 = d_sections (ld_d s) ! 0 in
      do { (w, r) \<leftarrow> rd_u32 (ld_r s); (h, r) \<leftarrow> rd_u32 r; (ml, r) \<leftarrow> rd_u32 r; (mr, r) \<leftarrow> rd_u32 r; (mt, r) \<leftarrow> rd_u32 r; (mb, r) \<leftarrow> rd_u32 r;
           (bg, r) \<leftarrow> (if rd_pos r + 4 \<le> chunk_end then rd_u32 r else Some (pg_bg_color p0, r));
           (cols, r) \<leftarrow> (if rd_pos r + 4 \<le> chunk_end then rd_u32 r else Some (pg_columns p0, r));
           (gap, r) \<leftarrow> (if rd_pos r + 4 \<le> chunk_end then rd_u32 r else Some (pg_column_gap p0, r));
           let p = \<lparr>pg_width = w, pg_height = h, pg_margin_left = ml, pg_margin_right = mr, pg_margin_top = mt, pg_margin_bottom = mb,
                    pg_bg_color = bg, pg_columns = cols, pg_column_gap = gap\<rparr>
           in Some (s\<lparr>ld_r := r, ld_d := (if ld_sect s then ld_d s else (ld_d s)\<lparr>d_sections := (d_sections (ld_d s))[0 := p]\<rparr>)\<rparr>) })"

definition load_dchf :: "ld \<Rightarrow> ld option" where
  "load_dchf s =
     do { (rec, r) \<leftarrow> rd_u16 (ld_r s); (c, r) \<leftarrow> get_charfmt_sized (ucast rec) r;
          Some (s\<lparr>ld_r := r, ld_d := (ld_d s)\<lparr>d_def_cf := c\<lparr>cf_mask := ALL_CF\<rparr>\<rparr>\<rparr>) }"

text \<open>The bytes of a name end at its first zero.\<close>

definition until_nul :: "u8 list \<Rightarrow> u8 list" where
  "until_nul xs = takeWhile (\<lambda>c. c \<noteq> 0) xs"

fun fams_loop :: "answers \<Rightarrow> nat \<Rightarrow> ld \<Rightarrow> ld option" where
  "fams_loop al 0 s = Some s"
| "fams_loop al (Suc k) s =
     (if rd_err (ld_r s) then Some s
      else do { (l, r) \<leftarrow> rd_u16 (ld_r s);
                if \<not> al (ld_n s) then Some (s\<lparr>ld_r := r\<lparr>rd_err := True\<rparr>, ld_n := ld_n s + 1\<rparr>)
                else do { (nm, r) \<leftarrow> rd_bytes (ucast l) r;
                  if \<not> al (ld_n s + 1) then Some (s\<lparr>ld_r := r\<lparr>rd_err := True\<rparr>, ld_n := ld_n s + 2\<rparr>)
                  else fams_loop al k (s\<lparr>ld_r := r, ld_d := (ld_d s)\<lparr>d_fam := d_fam (ld_d s) @ [Some (until_nul nm)]\<rparr>, ld_n := ld_n s + 2\<rparr>) } })"

definition load_fams :: "answers \<Rightarrow> ld \<Rightarrow> ld option" where
  "load_fams al s =
     do { (cnt, r) \<leftarrow> rd_u16 (ld_r s); fams_loop al (unat cnt) (s\<lparr>ld_r := r, ld_d := (ld_d s)\<lparr>d_fam := []\<rparr>\<rparr>) }"

text \<open>A loop that reads an entry with \<open>get\<close> and adds it with \<open>add\<close>, whose failures the code passes over.\<close>

fun read_loop :: "answers \<Rightarrow> (rd \<Rightarrow> ('a \<times> rd) option) \<Rightarrow> (bool \<Rightarrow> 'a \<Rightarrow> df_doc \<Rightarrow> df_doc option) \<Rightarrow> nat \<Rightarrow> ld \<Rightarrow> ld option" where
  "read_loop al get add 0 s = Some s"
| "read_loop al get add (Suc k) s =
     (if rd_err (ld_r s) then Some s
      else do { (a, r) \<leftarrow> get (ld_r s); d \<leftarrow> add (al (ld_n s)) a (ld_d s);
                read_loop al get add k (s\<lparr>ld_r := r, ld_d := d, ld_n := ld_n s + 1\<rparr>) })"

definition get_style :: "u32 \<Rightarrow> u32 \<Rightarrow> rd \<Rightarrow> (Style \<times> rd) option" where
  "get_style cfRec pfRec r =
     do { (nm, r) \<leftarrow> rd_bytes 48 r; (parent, r) \<leftarrow> rd_u16 r; (cf, r) \<leftarrow> get_charfmt_sized cfRec r; (pf, r) \<leftarrow> get_parafmt_sized pfRec r;
          Some (\<lparr>st_name = nm[47 := 0], st_parent = parent, st_cf = cf, st_pf = pf\<rparr>, r) }"

definition add_style :: "bool \<Rightarrow> Style \<Rightarrow> df_doc \<Rightarrow> df_doc option" where
  "add_style ok s d = Some (fst (df_doc_style_define ok d (Some (st_name s)) (sint (st_parent s)) (Some (st_cf s)) (Some (st_pf s))))"

definition load_styl :: "answers \<Rightarrow> ld \<Rightarrow> ld option" where
  "load_styl al s =
     do { (cnt, r) \<leftarrow> rd_u16 (ld_r s); (cfRec, r) \<leftarrow> rd_u16 r; (pfRec, r) \<leftarrow> rd_u16 r;
          read_loop al (get_style (ucast cfRec) (ucast pfRec)) add_style (unat cnt) (s\<lparr>ld_r := r, ld_d := (ld_d s)\<lparr>d_styles := []\<rparr>\<rparr>) }"

text \<open>The text is copied from the file; a length past its end is None.\<close>

definition load_text :: "answers \<Rightarrow> u32 \<Rightarrow> ld \<Rightarrow> ld option" where
  "load_text al clen s =
     (let r = ld_r s in
      if clen = 0 then Some (s\<lparr>ld_r := rd_skip clen r\<rparr>)
      else if unat (rd_pos r) + unat clen > length (rd_p r) then None
      else do { (pt, res) \<leftarrow> pt_set_original (al (ld_n s)) (al (ld_n s + 1)) (d_pt (ld_d s)) (take (unat clen) (drop (unat (rd_pos r)) (rd_p r)));
                Some (s\<lparr>ld_d := (ld_d s)\<lparr>d_pt := pt\<rparr>, ld_n := ld_n s + 2,
                        ld_r := rd_skip clen (if res \<noteq> DD_OK then r\<lparr>rd_err := True\<rparr> else r)\<rparr>) })"

definition get_run :: "(rd \<Rightarrow> ('a \<times> rd) option) \<Rightarrow> rd \<Rightarrow> ((u32 \<times> 'a) \<times> rd) option" where
  "get_run get r = do { (l, r) \<leftarrow> rd_u32 r; (p, r) \<leftarrow> get r; Some ((l, p), r) }"

definition add_crun :: "bool \<Rightarrow> u32 \<times> CharFmt \<Rightarrow> df_doc \<Rightarrow> df_doc option" where
  "add_crun ok run d = do { (rl, r) \<leftarrow> rl_push ok (d_cruns d) (fst run) (snd run); Some (d\<lparr>d_cruns := rl\<rparr>) }"

definition load_crun :: "answers \<Rightarrow> ld \<Rightarrow> ld option" where
  "load_crun al s =
     do { (cnt, r) \<leftarrow> rd_u32 (ld_r s); (rec, r) \<leftarrow> rd_u16 r;
          s1 \<leftarrow> read_loop al (get_run (get_charfmt_sized (ucast rec))) add_crun (unat cnt) (s\<lparr>ld_r := r, ld_d := (ld_d s)\<lparr>d_cruns := rl_init\<rparr>\<rparr>);
          Some (s1\<lparr>ld_crun := True\<rparr>) }"

definition add_prun :: "bool \<Rightarrow> u32 \<times> ParaFmt \<Rightarrow> df_doc \<Rightarrow> df_doc option" where
  "add_prun ok run d = do { (rl, r) \<leftarrow> rl_push ok (d_pruns d) (fst run) (snd run); Some (d\<lparr>d_pruns := rl\<rparr>) }"

definition load_prun :: "answers \<Rightarrow> ld \<Rightarrow> ld option" where
  "load_prun al s =
     do { (cnt, r) \<leftarrow> rd_u32 (ld_r s); (rec, r) \<leftarrow> rd_u16 r;
          s1 \<leftarrow> read_loop al (get_run (get_parafmt_sized (ucast rec))) add_prun (unat cnt) (s\<lparr>ld_r := r, ld_d := (ld_d s)\<lparr>d_pruns := rl_init\<rparr>\<rparr>);
          Some (s1\<lparr>ld_prun := True\<rparr>) }"

definition add_section :: "bool \<Rightarrow> PageSetup \<Rightarrow> df_doc \<Rightarrow> df_doc option" where
  "add_section ok p d = Some (fst (sect_add ok d p))"

definition add_srun :: "bool \<Rightarrow> u32 \<times> u32 \<Rightarrow> df_doc \<Rightarrow> df_doc option" where
  "add_srun ok run d =
     do { (rl, r) \<leftarrow> rl_push ok (d_sruns d) (fst run) (if unat (snd run) \<ge> length (d_sections d) then 0 else snd run); Some (d\<lparr>d_sruns := rl\<rparr>) }"

definition load_sect :: "answers \<Rightarrow> ld \<Rightarrow> ld option" where
  "load_sect al s =
     do { (rec, r) \<leftarrow> rd_u16 (ld_r s); (nsec, r) \<leftarrow> rd_u32 r;
          s1 \<leftarrow> read_loop al (get_pagerec_sized (ucast rec)) add_section (unat nsec) (s\<lparr>ld_r := r, ld_d := (ld_d s)\<lparr>d_sections := []\<rparr>\<rparr>);
          let s2 = (if d_sections (ld_d s1) = []
                    then s1\<lparr>ld_d := fst (sect_add (al (ld_n s1)) (ld_d s1) default_page), ld_n := ld_n s1 + 1\<rparr> else s1) in
          do { (nruns, r) \<leftarrow> rd_u32 (ld_r s2);
               s3 \<leftarrow> read_loop al (get_run rd_u32) add_srun (unat nruns) (s2\<lparr>ld_r := r, ld_d := (ld_d s2)\<lparr>d_sruns := rl_init\<rparr>\<rparr>);
               Some (s3\<lparr>ld_sect := True\<rparr>) } }"

definition load_body :: "answers \<Rightarrow> u8 list \<Rightarrow> u32 \<Rightarrow> u32 \<Rightarrow> ld \<Rightarrow> ld option" where
  "load_body al tag clen chunk_end s =
     (if tag = tag_PAGE then load_page chunk_end s
      else if tag = tag_DCHF then load_dchf s
      else if tag = tag_FAMS then load_fams al s
      else if tag = tag_STYL then load_styl al s
      else if tag = tag_TEXT then load_text al clen s
      else if tag = tag_CRUN then load_crun al s
      else if tag = tag_PRUN then load_prun al s
      else if tag = tag_SECT then load_sect al s
      else Some (s\<lparr>ld_r := rd_skip clen (ld_r s)\<rparr>))"

text \<open>One chunk: Inl leaves the loop, Inr goes on behind the chunk.\<close>

definition load_chunk :: "answers \<Rightarrow> ld \<Rightarrow> (ld + ld) option" where
  "load_chunk al s =
     do { (tag, r) \<leftarrow> rd_bytes 4 (ld_r s); (clen, r) \<leftarrow> rd_u32 r;
          if rd_err r then Some (Inl (s\<lparr>ld_r := r\<rparr>))
          else let chunk_end = rd_pos r + clen
               in if chunk_end > rd_len r then Some (Inl (s\<lparr>ld_r := r\<lparr>rd_err := True\<rparr>\<rparr>))
                  else do { s1 \<leftarrow> load_body al tag clen chunk_end (s\<lparr>ld_r := r\<rparr>);
                            Some (Inr (s1\<lparr>ld_r := (ld_r s1)\<lparr>rd_pos := chunk_end\<rparr>\<rparr>)) } }"

partial_function (option) load_loop :: "answers \<Rightarrow> ld \<Rightarrow> ld option" where
  "load_loop al s =
     (if rd_pos (ld_r s) + 8 \<le> rd_len (ld_r s) \<and> \<not> rd_err (ld_r s)
      then do { x \<leftarrow> load_chunk al s; case x of Inl s1 \<Rightarrow> Some s1 | Inr s1 \<Rightarrow> load_loop al s1 }
      else Some s)"

declare load_loop.simps [code]

definition load_finish :: "answers \<Rightarrow> ld \<Rightarrow> df_doc option" where
  "load_finish al s =
     (let d = ld_d s; n = pt_total (d_pt d); zp = zero_pf\<lparr>pf_style_id := 0xFFFF\<rparr>; k = ld_n s in
      do { cr \<leftarrow> (if \<not> ld_crun s \<or> rl_runs (d_cruns d) = [] then map_option fst (rl_reset_single (al k) (d_cruns d) n zero_cf) else Some (d_cruns d));
           pr \<leftarrow> (if \<not> ld_prun s \<or> rl_runs (d_pruns d) = [] then map_option fst (rl_reset_single (al (k + 1)) (d_pruns d) n zp) else Some (d_pruns d));
           cr \<leftarrow> fix_total (al (k + 2)) zero_cf zero_cf n cr;
           pr \<leftarrow> fix_total (al (k + 3)) zero_pf zp n pr;
           sr \<leftarrow> (if \<not> ld_sect s \<or> rl_total (d_sruns d) \<noteq> n then map_option fst (rl_reset_single (al (k + 4)) rl_init n 0) else Some (d_sruns d));
           Some (d\<lparr>d_cruns := cr, d_pruns := pr, d_sruns := sr\<rparr>) })"

definition df_doc_load :: "answers \<Rightarrow> answers \<Rightarrow> u8 list \<Rightarrow> (dd_result + df_doc) option" where
  "df_doc_load al0 al data =
     do { (magic, r) \<leftarrow> rd_bytes 4 \<lparr>rd_p = data, rd_pos = 0, rd_err = False\<rparr>;
          if rd_err r \<or> magic \<noteq> magic_DOBW then Some (Inl DD_ERR_BADFILE)
          else do { (ver, r) \<leftarrow> rd_u16 r; (flags, r) \<leftarrow> rd_u16 r;
            if ver < 3 then Some (Inl DD_ERR_BADFILE)
            else do { dd \<leftarrow> df_doc_create al0;
              case dd of
                None \<Rightarrow> Some (Inl DD_ERR_NOMEM)
              | Some d \<Rightarrow>
                  do { s \<leftarrow> load_loop al \<lparr>ld_d = d, ld_r = r, ld_crun = False, ld_prun = False, ld_sect = False, ld_n = 0\<rparr>;
                       if rd_err (ld_r s) then Some (Inl DD_ERR_BADFILE)
                       else do { d1 \<leftarrow> load_finish al s; Some (Inr d1) } } } } }"

section \<open>Encodings\<close>

definition enc_u16 :: "u16 \<Rightarrow> u8 list" where
  "enc_u16 v = [ucast v, ucast (drop_bit 8 v)]"

definition enc_u32 :: "u32 \<Rightarrow> u8 list" where
  "enc_u32 v = [ucast v, ucast (drop_bit 8 v), ucast (drop_bit 16 v), ucast (drop_bit 24 v)]"

lemma enc_length [simp]: "length (enc_u16 v) = 2" "length (enc_u32 w) = 4"
  by (simp_all add: enc_u16_def enc_u32_def)

lemma dec_u16: "ucast (ucast v :: u8) OR push_bit 8 (ucast (ucast (drop_bit 8 v) :: u8)) = (v :: u16)"
  by (rule bit_word_eqI) (auto simp: bit_simps)

lemma dec_u32: "ucast (ucast v :: u8) OR push_bit 8 (ucast (ucast (drop_bit 8 v) :: u8)) OR push_bit 16 (ucast (ucast (drop_bit 16 v) :: u8)) OR
    push_bit 24 (ucast (ucast (drop_bit 24 v) :: u8)) = (v :: u32)" (is "?w = v")
proof (rule bit_word_eqI)
  fix n
  assume "n < LENGTH(32)"
  then consider "n < 8" | "8 \<le> n" "n < 16" | "16 \<le> n" "n < 24" | "24 \<le> n" "n < 32" by fastforce
  then show "bit ?w n = bit v n" by cases (auto simp: bit_simps)
qed

text \<open>A writer that appends given bytes, whenever there is room.\<close>

definition bb_ok :: "bb \<Rightarrow> bool" where
  "bb_ok b \<longleftrightarrow> \<not> bb_err b \<and> length (bb_p b) \<le> unat (bb_cap b)"

definition appends :: "(bb \<Rightarrow> bb option) \<Rightarrow> u8 list \<Rightarrow> bool" where
  "appends f xs \<longleftrightarrow> (\<forall>b. bb_ok b \<and> length (bb_p b) + length xs \<le> 2147483648 \<longrightarrow> (\<exists>b'. f b = Some b' \<and> bb_ok b' \<and> bb_p b' = bb_p b @ xs))"

lemma appendsD:
  assumes "appends f xs" "bb_ok b" "length (bb_p b) + length xs \<le> 2147483648"
  obtains b' where "f b = Some b'" "bb_ok b'" "bb_p b' = bb_p b @ xs"
  using assms by (auto simp: appends_def)

lemma appends_bind:
  assumes "appends f xs" "appends g ys"
  shows "appends (\<lambda>b. f b \<bind> g) (xs @ ys)"
  unfolding appends_def
proof (intro allI impI)
  fix b
  assume b: "bb_ok b \<and> length (bb_p b) + length (xs @ ys) \<le> 2147483648"
  obtain b1 where b1: "f b = Some b1" "bb_ok b1" "bb_p b1 = bb_p b @ xs" by (rule appendsD[OF assms(1), of b]) (use b in auto)
  obtain b2 where "g b1 = Some b2" "bb_ok b2" "bb_p b2 = bb_p b1 @ ys" by (rule appendsD[OF assms(2) b1(2)]) (use b b1(3) in auto)
  then show "\<exists>b'. f b \<bind> g = Some b' \<and> bb_ok b' \<and> bb_p b' = bb_p b @ xs @ ys" using b1 by simp
qed

lemma appends_nil: "appends Some []"
  by (auto simp: appends_def)

lemma ensure_store:
  assumes "\<And>i. al i" "bb_ok b" "length (bb_p b) + length xs \<le> 2147483648" "need = of_nat (length xs)"
  shows "\<exists>b'. do { b1 \<leftarrow> bb_ensure al need b; bb_store xs b1 } = Some b' \<and> bb_ok b' \<and> bb_p b' = bb_p b @ xs"
proof -
  have u: "unat (bb_len b) = length (bb_p b)" "unat need = length xs"
    using assms(3,4) unfolding bb_len_def by (auto intro!: unat_of_nat_u32)
  then have s: "unat (bb_len b + need) = length (bb_p b) + length xs" using assms(3) by (simp add: unat_add_u32)
  show ?thesis
  proof (cases "bb_len b + need \<le> bb_cap b")
    case True
    then show ?thesis using assms(2) s by (auto simp: bb_ensure_def bb_store_def bb_ok_def word_le_nat_alt)
  next
    case False
    have "bb_len b + need \<le> 0x80000000" using s assms(3) by (simp add: word_le_nat_alt)
    from grow_doubled[OF False this, of 256] obtain nc where
      nc: "grow_cap (if bb_cap b \<noteq> 0 then bb_cap b * 2 else 256) (bb_len b + need) = Some nc" "bb_len b + need \<le> nc" by auto
    then have "bb_ensure al need b = Some (b\<lparr>bb_calls := bb_calls b + 1, bb_cap := nc\<rparr>)"
      using False assms(1,2) by (simp add: bb_ensure_def bb_ok_def Let_def)
    then show ?thesis using assms(2) s nc(2) by (simp add: bb_store_def bb_ok_def word_le_nat_alt)
  qed
qed

lemma appends_u8: "(\<And>i. al i) \<Longrightarrow> appends (bb_u8 al v) [v]"
  unfolding appends_def bb_u8_def using ensure_store[of al _ "[v]" 1] by auto

lemma appends_bytes: "(\<And>i. al i) \<Longrightarrow> appends (bb_bytes al xs) xs"
  unfolding appends_def bb_bytes_def using ensure_store[of al _ xs] by blast

lemma appends_u16: "(\<And>i. al i) \<Longrightarrow> appends (bb_u16 al v) (enc_u16 v)"
  unfolding bb_u16_def enc_u16_def using appends_bind[OF appends_u8 appends_u8, of al al "ucast v" "ucast (drop_bit 8 v)"] by simp

lemma appends_u32: "(\<And>i. al i) \<Longrightarrow> appends (bb_u32 al v) (enc_u32 v)"
  unfolding bb_u32_def enc_u32_def
  using appends_bind[OF appends_u8 appends_bind[OF appends_u8 appends_bind[OF appends_u8 appends_u8]],
      of al al al al "ucast v" "ucast (drop_bit 8 v)" "ucast (drop_bit 16 v)" "ucast (drop_bit 24 v)"] by simp

definition enc_chunk :: "u8 list \<Rightarrow> u8 list \<Rightarrow> u8 list" where
  "enc_chunk tag xs = tag @ enc_u32 (of_nat (length xs)) @ xs"

lemma appends_chunk:
  assumes "\<And>i. al i"
  shows "appends (bb_chunk al tag c) (enc_chunk tag (bb_p c))"
  unfolding bb_chunk_def enc_chunk_def bb_len_def
  by (intro appends_bind appends_bytes appends_u32 assms)

section \<open>Reading what was written\<close>

definition at :: "rd \<Rightarrow> u8 list \<Rightarrow> bool" where
  "at r xs \<longleftrightarrow> \<not> rd_err r \<and> length (rd_p r) < 4294967280 \<and> unat (rd_pos r) \<le> length (rd_p r) \<and> drop (unat (rd_pos r)) (rd_p r) = xs"

definition adv :: "nat \<Rightarrow> rd \<Rightarrow> rd" where
  "adv k r = r\<lparr>rd_pos := rd_pos r + of_nat k\<rparr>"

lemma adv_adv [simp]: "adv k (adv j r) = adv (j + k) r" "adv 0 r = r"
  by (simp_all add: adv_def)

lemma at_length: "at r xs \<Longrightarrow> unat (rd_pos r) + length xs = length (rd_p r) \<and> length xs < 4294967280 \<and> unat (rd_len r) = length (rd_p r)"
  by (auto simp: at_def rd_len_def unat_of_nat_u32)

lemma at_pos: "at r xs \<Longrightarrow> k \<le> length xs \<Longrightarrow> unat (rd_pos r + of_nat k) = unat (rd_pos r) + k"
  using at_length[of r xs] by (auto simp: unat_add_u32 unat_of_nat_u32 at_def)

lemma at_adv: "at r (xs @ ys) \<Longrightarrow> at (adv (length xs) r) ys"
  using at_pos[of r "xs @ ys" "length xs"] at_length[of r "xs @ ys"]
  by (auto simp: at_def adv_def add.commute[of _ "length xs"] simp flip: drop_drop)

lemma rd_u8_at:
  assumes "at r (x # xs)"
  shows "rd_u8 r = Some (x, adv 1 r)"
proof -
  have n: "unat (rd_pos r) < length (rd_p r)" using at_length[OF assms] by simp
  have "rd_p r ! unat (rd_pos r) = x" using hd_drop_conv_nth[OF n] assms by (simp add: at_def)
  moreover have "\<not> rd_len r < rd_pos r + 1" using at_pos[OF assms, of 1] at_length[OF assms] by (simp add: word_less_nat_alt)
  ultimately show ?thesis using n by (simp add: rd_u8_def adv_def)
qed

lemma rd_u16_at:
  assumes "at r (enc_u16 v @ xs)"
  shows "rd_u16 r = Some (v, adv 2 r)"
proof -
  have a: "at r (ucast v # ucast (drop_bit 8 v) # xs)" using assms by (simp add: enc_u16_def)
  have b: "at (adv 1 r) (ucast (drop_bit 8 v) # xs)" using at_adv[of r "[ucast v]"] a by simp
  show ?thesis using rd_u8_at[OF a] rd_u8_at[OF b] dec_u16[of v] by (simp add: rd_u16_def numeral_2_eq_2)
qed

lemma rd_u32_at:
  assumes "at r (enc_u32 v @ xs)"
  shows "rd_u32 r = Some (v, adv 4 r)"
proof -
  let ?b = "\<lambda>k. ucast (drop_bit k v) :: u8"
  have a0: "at r (ucast v # ?b 8 # ?b 16 # ?b 24 # xs)" using assms by (simp add: enc_u32_def)
  have a1: "at (adv 1 r) (?b 8 # ?b 16 # ?b 24 # xs)" using at_adv[of r "[ucast v]"] a0 by simp
  have a2: "at (adv 2 r) (?b 16 # ?b 24 # xs)" using at_adv[of "adv 1 r" "[?b 8]"] a1 by (simp add: numeral_2_eq_2)
  have a3: "at (adv 3 r) (?b 24 # xs)" using at_adv[of "adv 2 r" "[?b 16]"] a2 by (simp add: numeral_3_eq_3 numeral_2_eq_2)
  have "rd_u8 (adv 1 r) = Some (?b 8, adv 2 r)" using rd_u8_at[OF a1] by (simp add: numeral_2_eq_2)
  moreover have "rd_u8 (adv 2 r) = Some (?b 16, adv 3 r)" "rd_u8 (adv 3 r) = Some (?b 24, adv 4 r)"
    using rd_u8_at[OF a2] rd_u8_at[OF a3] by simp_all
  ultimately show ?thesis using rd_u8_at[OF a0] dec_u32[of v] by (simp add: rd_u32_def)
qed

lemma rd_bytes_at: "at r (xs @ ys) \<Longrightarrow> n = of_nat (length xs) \<Longrightarrow> rd_bytes n r = Some (xs, adv (length xs) r)"
  using at_pos[of r "xs @ ys" "length xs"] at_length[of r "xs @ ys"]
  by (auto simp: rd_bytes_def adv_def at_def word_less_nat_alt unat_of_nat_u32)

text \<open>An entry of the file: what is written, what it looks like and what is read back.\<close>

locale codec =
  fixes put :: "answers \<Rightarrow> 'a \<Rightarrow> bb \<Rightarrow> bb option" and get :: "rd \<Rightarrow> ('a \<times> rd) option" and enc :: "'a \<Rightarrow> u8 list" and ok :: "'a \<Rightarrow> bool"
  assumes put_enc: "(\<And>i. al i) \<Longrightarrow> ok a \<Longrightarrow> appends (put al a) (enc a)"
    and get_enc: "ok a \<Longrightarrow> at r (enc a @ xs) \<Longrightarrow> get r = Some (a, adv (length (enc a)) r)"
begin

lemma put_all_enc: "(\<And>i. al i) \<Longrightarrow> list_all ok as \<Longrightarrow> appends (put_all (put al) as) (concat (List.map enc as))"
proof (induction as)
  case (Cons a as)
  have "put_all (put al) (a # as) = (\<lambda>b. put al a b \<bind> put_all (put al) as)" by auto
  moreover have "appends (\<lambda>b. put al a b \<bind> put_all (put al) as) (enc a @ concat (List.map enc as))"
    by (rule appends_bind[OF put_enc Cons.IH]) (use Cons.prems in auto)
  ultimately show ?case by simp
next
  case Nil
  have "put_all (put al) [] = Some" by auto
  then show ?case by (simp add: appends_nil)
qed

lemma read_all:
  assumes "list_all ok as" "at (ld_r s) (concat (List.map enc as) @ xs)" "P 0 (ld_d s)" "\<And>i. al i"
    and "\<And>k d. k < length as \<Longrightarrow> P k d \<Longrightarrow> \<exists>d'. add True (as ! k) d = Some d' \<and> P (Suc k) d'"
  shows "\<exists>d'. read_loop al get add (length as) s =
      Some (s\<lparr>ld_r := adv (length (concat (List.map enc as))) (ld_r s), ld_d := d', ld_n := ld_n s + length as\<rparr>) \<and> P (length as) d'"
  using assms(1-3,5)
proof (induction as arbitrary: s P)
  case (Cons a as)
  have a: "at (ld_r s) (enc a @ concat (List.map enc as) @ xs)" using Cons.prems(2) by simp
  have g: "get (ld_r s) = Some (a, adv (length (enc a)) (ld_r s))" by (rule get_enc[OF _ a]) (use Cons.prems(1) in simp)
  obtain d where d: "add True a (ld_d s) = Some d" "P 1 d" using Cons.prems(4)[of 0 "ld_d s"] Cons.prems(3) by auto
  let ?s = "s\<lparr>ld_r := adv (length (enc a)) (ld_r s), ld_d := d, ld_n := ld_n s + 1\<rparr>"
  have "\<exists>d'. read_loop al get add (length as) ?s =
      Some (?s\<lparr>ld_r := adv (length (concat (List.map enc as))) (ld_r ?s), ld_d := d', ld_n := ld_n ?s + length as\<rparr>) \<and> P (Suc (length as)) d'"
    by (rule Cons.IH) (use Cons.prems(1,4) at_adv[OF a] d(2) in fastforce)+
  moreover have "\<not> rd_err (ld_r s)" using a by (simp add: at_def)
  moreover have "al (ld_n s) = True" using assms(4) by blast
  ultimately show ?case using g d(1) by simp
next
  case Nil
  have "s = s\<lparr>ld_d := ld_d s\<rparr>" by simp
  then show ?case using Nil by (auto intro!: exI[of _ "ld_d s"])
qed

lemma run_codec: "codec (\<lambda>al. put_run al (put al)) (get_run get) (\<lambda>r. enc_u32 (fst r) @ enc (snd r)) (\<lambda>r. ok (snd r))"
proof
  fix al :: answers and a :: "u32 \<times> 'a"
  assume "\<And>i. al i" "ok (snd a)"
  then show "appends (put_run al (put al) a) (enc_u32 (fst a) @ enc (snd a))" unfolding put_run_def by (intro appends_bind appends_u32 put_enc)
next
  fix a :: "u32 \<times> 'a" and r xs
  assume o: "ok (snd a)" and "at r ((enc_u32 (fst a) @ enc (snd a)) @ xs)"
  then have a: "at r (enc_u32 (fst a) @ enc (snd a) @ xs)" by simp
  have b: "at (adv 4 r) (enc (snd a) @ xs)" using at_adv[OF a] by simp
  show "get_run get r = Some (a, adv (length (enc_u32 (fst a) @ enc (snd a))) r)"
    using rd_u32_at[OF a] get_enc[OF o b] by (simp add: get_run_def)
qed

end

interpretation u32c: codec bb_u32 rd_u32 enc_u32 "\<lambda>_. True"
  by unfold_locales (simp_all add: appends_u32 rd_u32_at)

lemma field_at:
  assumes "at r xs" "rec \<le> length xs" "k + unat w \<le> rec"
  shows "field (rd_pos r + of_nat rec) w get (adv k r) = get (adv k r)"
proof -
  have "rd_pos (adv k r) + w = rd_pos r + of_nat (k + unat w)" by (simp add: adv_def add.assoc)
  moreover have "unat (rd_pos r + of_nat (k + unat w)) = unat (rd_pos r) + (k + unat w)" "unat (rd_pos r + of_nat rec) = unat (rd_pos r) + rec"
    using at_pos[OF assms(1)] assms(2,3) by (meson order_trans)+
  ultimately show ?thesis using assms(3) by (simp add: field_def word_le_nat_alt add.assoc)
qed

lemma record_fits: "at r xs \<Longrightarrow> rec \<le> length xs \<Longrightarrow> \<not> rd_len r < rd_pos r + of_nat rec"
  using at_pos[of r xs rec] at_length[of r xs] by (simp add: word_less_nat_alt)

definition enc_cf :: "CharFmt \<Rightarrow> u8 list" where
  "enc_cf c = enc_u16 (cf_mask c) @ enc_u16 (cf_family_id c) @ enc_u32 (cf_size_twips c) @ [cf_bold c] @ [cf_italic c] @ [cf_underline c] @ [cf_strike c] @
     enc_u32 (cf_color c) @ enc_u32 (cf_highlight c)"

definition enc_pf :: "ParaFmt \<Rightarrow> u8 list" where
  "enc_pf p = enc_u16 (pf_mask p) @ [pf_align p] @ [0] @ enc_u32 (pf_indent_left p) @ enc_u32 (pf_indent_right p) @ enc_u32 (pf_indent_first p) @
     enc_u32 (pf_space_before p) @ enc_u32 (pf_space_after p) @ enc_u32 (pf_line_spacing p) @ enc_u16 (pf_style_id p)"

definition enc_pg :: "PageSetup \<Rightarrow> u8 list" where
  "enc_pg p = enc_u32 (pg_width p) @ enc_u32 (pg_height p) @ enc_u32 (pg_margin_left p) @ enc_u32 (pg_margin_right p) @ enc_u32 (pg_margin_top p) @
     enc_u32 (pg_margin_bottom p) @ enc_u32 (pg_bg_color p) @ enc_u32 (pg_columns p) @ enc_u32 (pg_column_gap p)"

lemma enc_rec_length [simp]: "length (enc_cf c) = 20" "length (enc_pf p) = 30" "length (enc_pg g) = 36"
  by (simp_all add: enc_cf_def enc_pf_def enc_pg_def)

lemma put_records:
  assumes "\<And>i. al i"
  shows "appends (put_charfmt al c) (enc_cf c)" "appends (put_parafmt al p) (enc_pf p)" "appends (put_pagerec al g) (enc_pg g)"
  unfolding put_charfmt_def enc_cf_def put_parafmt_def enc_pf_def put_pagerec_def enc_pg_def
  by (intro appends_bind appends_u8 appends_u16 appends_u32 assms)+

lemma get_charfmt_at:
  assumes a: "at r (enc_cf c @ xs)"
  shows "get_charfmt_sized 20 r = Some (c, adv 20 r)"
proof -
  let ?h = "enc_u32 (cf_highlight c) @ xs"
  let ?g = "enc_u32 (cf_color c) @ ?h"
  let ?f = "cf_strike c # ?g"
  let ?e = "cf_underline c # ?f"
  let ?d = "cf_italic c # ?e"
  let ?c = "cf_bold c # ?d"
  let ?b = "enc_u32 (cf_size_twips c) @ ?c"
  let ?a = "enc_u16 (cf_family_id c) @ ?b"
  have a0: "at r (enc_u16 (cf_mask c) @ ?a)" using a by (simp add: enc_cf_def)
  have a1: "at (adv 2 r) ?a" using at_adv[OF a0] by simp
  have a2: "at (adv 4 r) ?b" using at_adv[OF a1] by simp
  have a3: "at (adv 8 r) ?c" using at_adv[OF a2] by simp
  have a4: "at (adv 9 r) ?d" using at_adv[of "adv 8 r" "[cf_bold c]"] a3 by simp
  have a5: "at (adv 10 r) ?e" using at_adv[of "adv 9 r" "[cf_italic c]"] a4 by simp
  have a6: "at (adv 11 r) ?f" using at_adv[of "adv 10 r" "[cf_underline c]"] a5 by simp
  have a7: "at (adv 12 r) ?g" using at_adv[of "adv 11 r" "[cf_strike c]"] a6 by simp
  have a8: "at (adv 16 r) ?h" using at_adv[OF a7] by simp
  note F = field_at[OF a, of 20, simplified] and R = rd_u16_at[OF a0] rd_u16_at[OF a1] rd_u32_at[OF a2] rd_u8_at[OF a3] rd_u8_at[OF a4]
    rd_u8_at[OF a5] rd_u8_at[OF a6] rd_u32_at[OF a7] rd_u32_at[OF a8]
  have f0: "field (rd_pos r + 20) 2 rd_u16 r = rd_u16 r" using field_at[OF a, of 20 0 2 rd_u16] by simp
  have "\<not> rd_len r < rd_pos r + 20" using record_fits[OF a, of 20] by simp
  then show ?thesis by (simp add: get_charfmt_sized_def F f0 R Let_def) (simp add: adv_def)
qed

lemma get_parafmt_at:
  assumes a: "at r (enc_pf p @ xs)"
  shows "get_parafmt_sized 30 r = Some (p, adv 30 r)"
proof -
  let ?i = "enc_u16 (pf_style_id p) @ xs"
  let ?h = "enc_u32 (pf_line_spacing p) @ ?i"
  let ?g = "enc_u32 (pf_space_after p) @ ?h"
  let ?f = "enc_u32 (pf_space_before p) @ ?g"
  let ?e = "enc_u32 (pf_indent_first p) @ ?f"
  let ?d = "enc_u32 (pf_indent_right p) @ ?e"
  let ?c = "enc_u32 (pf_indent_left p) @ ?d"
  let ?b = "0 # ?c"
  let ?a = "pf_align p # ?b"
  have a0: "at r (enc_u16 (pf_mask p) @ ?a)" using a by (simp add: enc_pf_def)
  have a1: "at (adv 2 r) ?a" using at_adv[OF a0] by simp
  have a2: "at (adv 3 r) ?b" using at_adv[of "adv 2 r" "[pf_align p]"] a1 by simp
  have a3: "at (adv 4 r) ?c" using at_adv[of "adv 3 r" "[0]"] a2 by simp
  have a4: "at (adv 8 r) ?d" using at_adv[OF a3] by simp
  have a5: "at (adv 12 r) ?e" using at_adv[OF a4] by simp
  have a6: "at (adv 16 r) ?f" using at_adv[OF a5] by simp
  have a7: "at (adv 20 r) ?g" using at_adv[OF a6] by simp
  have a8: "at (adv 24 r) ?h" using at_adv[OF a7] by simp
  have a9: "at (adv 28 r) ?i" using at_adv[OF a8] by simp
  note F = field_at[OF a, of 30, simplified] and R = rd_u16_at[OF a0] rd_u8_at[OF a1] rd_u8_at[OF a2] rd_u32_at[OF a3] rd_u32_at[OF a4]
    rd_u32_at[OF a5] rd_u32_at[OF a6] rd_u32_at[OF a7] rd_u32_at[OF a8] rd_u16_at[OF a9]
  have f0: "field (rd_pos r + 30) 2 rd_u16 r = rd_u16 r" using field_at[OF a, of 30 0 2 rd_u16] by simp
  have "\<not> rd_len r < rd_pos r + 30" using record_fits[OF a, of 30] by simp
  then show ?thesis by (simp add: get_parafmt_sized_def F f0 R Let_def) (simp add: adv_def)
qed

lemma get_pagerec_at:
  assumes a: "at r (enc_pg g @ xs)"
  shows "get_pagerec_sized 36 r = Some (g, adv 36 r)"
proof -
  let ?h = "enc_u32 (pg_column_gap g) @ xs"
  let ?g = "enc_u32 (pg_columns g) @ ?h"
  let ?f = "enc_u32 (pg_bg_color g) @ ?g"
  let ?e = "enc_u32 (pg_margin_bottom g) @ ?f"
  let ?d = "enc_u32 (pg_margin_top g) @ ?e"
  let ?c = "enc_u32 (pg_margin_right g) @ ?d"
  let ?b = "enc_u32 (pg_margin_left g) @ ?c"
  let ?a = "enc_u32 (pg_height g) @ ?b"
  have a0: "at r (enc_u32 (pg_width g) @ ?a)" using a by (simp add: enc_pg_def)
  have a1: "at (adv 4 r) ?a" using at_adv[OF a0] by simp
  have a2: "at (adv 8 r) ?b" using at_adv[OF a1] by simp
  have a3: "at (adv 12 r) ?c" using at_adv[OF a2] by simp
  have a4: "at (adv 16 r) ?d" using at_adv[OF a3] by simp
  have a5: "at (adv 20 r) ?e" using at_adv[OF a4] by simp
  have a6: "at (adv 24 r) ?f" using at_adv[OF a5] by simp
  have a7: "at (adv 28 r) ?g" using at_adv[OF a6] by simp
  have a8: "at (adv 32 r) ?h" using at_adv[OF a7] by simp
  note F = field_at[OF a, of 36, simplified] and R = rd_u32_at[OF a0] rd_u32_at[OF a1] rd_u32_at[OF a2] rd_u32_at[OF a3] rd_u32_at[OF a4]
    rd_u32_at[OF a5] rd_u32_at[OF a6] rd_u32_at[OF a7] rd_u32_at[OF a8]
  have f0: "field (rd_pos r + 36) 4 rd_u32 r = rd_u32 r" using field_at[OF a, of 36 0 4 rd_u32] by simp
  have "\<not> rd_len r < rd_pos r + 36" using record_fits[OF a, of 36] by simp
  then show ?thesis by (simp add: get_pagerec_sized_def F f0 R Let_def) (simp add: adv_def)
qed

interpretation cfc: codec put_charfmt "get_charfmt_sized 20" enc_cf "\<lambda>_. True"
  by unfold_locales (simp_all add: put_records get_charfmt_at)

interpretation pfc: codec put_parafmt "get_parafmt_sized 30" enc_pf "\<lambda>_. True"
  by unfold_locales (simp_all add: put_records get_parafmt_at)

interpretation pgc: codec put_pagerec "get_pagerec_sized 36" enc_pg "\<lambda>_. True"
  by unfold_locales (simp_all add: put_records get_pagerec_at)

interpretation crc: codec "\<lambda>al. put_run al (put_charfmt al)" "get_run (get_charfmt_sized 20)" "\<lambda>r. enc_u32 (fst r) @ enc_cf (snd r)" "\<lambda>_. True"
  by (rule cfc.run_codec)

interpretation prc: codec "\<lambda>al. put_run al (put_parafmt al)" "get_run (get_parafmt_sized 30)" "\<lambda>r. enc_u32 (fst r) @ enc_pf (snd r)" "\<lambda>_. True"
  by (rule pfc.run_codec)

interpretation src: codec "\<lambda>al. put_run al (bb_u32 al)" "get_run rd_u32" "\<lambda>r. enc_u32 (fst r) @ enc_u32 (snd r)" "\<lambda>_. True"
  by (rule u32c.run_codec)

text \<open>A style as it stands in the file: the name filled up to 48 bytes.\<close>

definition raw_style :: "Style \<Rightarrow> Style" where
  "raw_style s = s\<lparr>st_name := name_bytes (st_name s)\<rparr>"

definition raw_ok :: "Style \<Rightarrow> bool" where
  "raw_ok s \<longleftrightarrow> length (st_name s) = 48 \<and> (st_name s)[47 := 0] = st_name s"

definition enc_style :: "Style \<Rightarrow> u8 list" where
  "enc_style s = st_name s @ enc_u16 (st_parent s) @ enc_cf (st_cf s) @ enc_pf (st_pf s)"

interpretation stc: codec put_style "get_style 20 30" enc_style raw_ok
proof
  fix al :: answers and s
  assume "\<And>i. al i" and o: "raw_ok s"
  moreover have "name_bytes (st_name s) = st_name s" using o by (simp add: raw_ok_def name_bytes_def)
  ultimately show "appends (put_style al s) (enc_style s)" unfolding put_style_def enc_style_def
    by (simp only:) (intro appends_bind appends_bytes appends_u16 put_records; simp)
next
  fix s r xs
  assume o: "raw_ok s" and "at r (enc_style s @ xs)"
  then have a: "at r (st_name s @ enc_u16 (st_parent s) @ enc_cf (st_cf s) @ enc_pf (st_pf s) @ xs)" by (simp add: enc_style_def)
  have l: "length (st_name s) = 48" "(st_name s)[47 := 0] = st_name s" using o by (simp_all add: raw_ok_def)
  have a1: "at (adv 48 r) (enc_u16 (st_parent s) @ enc_cf (st_cf s) @ enc_pf (st_pf s) @ xs)" using at_adv[OF a] l(1) by simp
  have a2: "at (adv 50 r) (enc_cf (st_cf s) @ enc_pf (st_pf s) @ xs)" using at_adv[OF a1] by simp
  have a3: "at (adv 70 r) (enc_pf (st_pf s) @ xs)" using at_adv[OF a2] by simp
  show "get_style 20 30 r = Some (s, adv (length (enc_style s)) r)"
    using rd_bytes_at[OF a, of 48] l rd_u16_at[OF a1] get_charfmt_at[OF a2] get_parafmt_at[OF a3] by (simp add: get_style_def enc_style_def)
qed

section \<open>The file of a document\<close>

definition fam_name :: "u8 list option \<Rightarrow> u8 list" where
  "fam_name f = (case f of Some s \<Rightarrow> s | None \<Rightarrow> [])"

definition enc_fam :: "u8 list option \<Rightarrow> u8 list" where
  "enc_fam f = enc_u16 (of_nat (length (fam_name f))) @ fam_name f"

definition pay_dchf :: "df_doc \<Rightarrow> u8 list" where "pay_dchf d = enc_u16 20 @ enc_cf (d_def_cf d)"

definition pay_fams :: "df_doc \<Rightarrow> u8 list" where
  "pay_fams d = enc_u16 (of_nat (length (d_fam d))) @ concat (List.map enc_fam (d_fam d))"

definition pay_styl :: "df_doc \<Rightarrow> u8 list" where
  "pay_styl d = enc_u16 (of_nat (length (d_styles d))) @ enc_u16 20 @ enc_u16 30 @ concat (List.map enc_style (List.map raw_style (d_styles d)))"

definition pay_crun :: "df_doc \<Rightarrow> u8 list" where
  "pay_crun d = enc_u32 (rl_n (d_cruns d)) @ enc_u16 20 @ concat (List.map (\<lambda>r. enc_u32 (fst r) @ enc_cf (snd r)) (rl_runs (d_cruns d)))"

definition pay_prun :: "df_doc \<Rightarrow> u8 list" where
  "pay_prun d = enc_u32 (rl_n (d_pruns d)) @ enc_u16 30 @ concat (List.map (\<lambda>r. enc_u32 (fst r) @ enc_pf (snd r)) (rl_runs (d_pruns d)))"

definition pay_sect :: "df_doc \<Rightarrow> u8 list" where
  "pay_sect d = enc_u16 36 @ enc_u32 (of_nat (length (d_sections d))) @ concat (List.map enc_pg (d_sections d)) @
     enc_u32 (rl_n (d_sruns d)) @ concat (List.map (\<lambda>r. enc_u32 (fst r) @ enc_u32 (snd r)) (rl_runs (d_sruns d)))"

definition enc_doc :: "df_doc \<Rightarrow> u8 list" where
  "enc_doc d = magic_DOBW @ enc_u16 3 @ enc_u16 0 @ enc_chunk tag_PAGE (enc_pg (d_sections d ! 0)) @ enc_chunk tag_DCHF (pay_dchf d) @
     enc_chunk tag_FAMS (pay_fams d) @ enc_chunk tag_STYL (pay_styl d) @ enc_chunk tag_TEXT (pt_text (d_pt d)) @
     enc_chunk tag_CRUN (pay_crun d) @ enc_chunk tag_PRUN (pay_prun d) @ enc_chunk tag_SECT (pay_sect d)"

text \<open>Names as C strings of at most 47 bytes (styles) or 65535 (families), counts that fit their fields, and a file below 2 GB.\<close>

definition saveable :: "df_doc \<Rightarrow> bool" where
  "saveable d \<longleftrightarrow> list_all (\<lambda>f. length (fam_name f) < 65536 \<and> 0 \<notin> set (fam_name f)) (d_fam d) \<and> length (d_fam d) < 65536 \<and>
     list_all (\<lambda>s. length (st_name s) \<le> 47 \<and> 0 \<notin> set (st_name s)) (d_styles d) \<and> length (d_styles d) < 65536 \<and> length (enc_doc d) \<le> 2147483648"

lemma bb_init_ok: "bb_ok bb_init" "bb_p bb_init = []"
  by (simp_all add: bb_ok_def bb_init_def)

lemma from_init:
  assumes "appends f xs" "length xs \<le> 2147483648"
  shows "\<exists>c. f bb_init = Some c \<and> \<not> bb_err c \<and> bb_p c = xs"
  by (rule appendsD[OF assms(1) bb_init_ok(1)]) (use assms(2) bb_init_ok(2) in \<open>auto simp: bb_ok_def\<close>)

lemma rec_sizes:
  assumes "\<And>i. al i"
  shows "charfmt_rec_size al = Some 20" "parafmt_rec_size al = Some 30"
proof -
  obtain c p where "put_charfmt al zero_cf bb_init = Some c" "bb_p c = enc_cf zero_cf" "put_parafmt al zero_pf bb_init = Some p" "bb_p p = enc_pf zero_pf"
    using from_init[OF put_records(1), of al zero_cf] from_init[OF put_records(2), of al zero_pf] assms by auto
  then show "charfmt_rec_size al = Some 20" "parafmt_rec_size al = Some 30" by (simp_all add: charfmt_rec_size_def parafmt_rec_size_def bb_len_def)
qed

lemma raw_facts:
  assumes "length (st_name s) \<le> 47" "0 \<notin> set (st_name s)"
  shows "raw_ok (raw_style s)" "put_style al (raw_style s) = put_style al s" "c_string 48 (st_name (raw_style s)) = st_name s"
proof -
  have n: "name_bytes (st_name s) = st_name s @ replicate (48 - length (st_name s)) 0" using assms(1) by (simp add: name_bytes_def)
  have l: "length (name_bytes (st_name s)) = 48" using n assms(1) by simp
  have "name_bytes (st_name s) ! 47 = 0" using n assms(1) by (simp add: nth_append)
  then show "raw_ok (raw_style s)" using l list_update_id[of "name_bytes (st_name s)" 47] by (simp add: raw_ok_def raw_style_def)
  have "name_bytes (name_bytes (st_name s)) = name_bytes (st_name s)" using l by (simp add: name_bytes_def[of "name_bytes (st_name s)"])
  then show "put_style al (raw_style s) = put_style al s" by (rule_tac ext) (simp add: put_style_def raw_style_def)
  have "48 - length (st_name s) = Suc (47 - length (st_name s))" using assms(1) by simp
  then have "takeWhile (\<lambda>c. c \<noteq> 0) (name_bytes (st_name s)) = st_name s" using n assms(2) by (auto simp: takeWhile_append)
  then show "c_string 48 (st_name (raw_style s)) = st_name s" using assms(1) by (simp add: c_string_def raw_style_def)
qed

lemma put_all_cong: "(\<And>x. x \<in> set xs \<Longrightarrow> put (f x) = put x) \<Longrightarrow> put_all put (List.map f xs) b = put_all put xs b"
  by (induction xs arbitrary: b) (simp_all cong: Option.bind_cong)

lemma appends_family:
  assumes "\<And>i. al i" "length (fam_name f) < 65536"
  shows "appends (put_family al f) (enc_fam f)"
proof -
  have u: "unat (of_nat (length (fam_name f)) :: u16) = length (fam_name f)" using assms(2) by (simp add: unat_of_nat)
  have "put_family al f = (\<lambda>b. bb_u16 al (of_nat (length (fam_name f))) b \<bind> bb_bytes al (fam_name f))"
    using u by (auto simp: put_family_def fam_name_def Let_def)
  then show ?thesis unfolding enc_fam_def by (simp only:) (intro appends_bind appends_u16 appends_bytes assms(1))
qed

lemma appends_families: "(\<And>i. al i) \<Longrightarrow> list_all (\<lambda>f. length (fam_name f) < 65536) fs \<Longrightarrow> appends (put_all (put_family al) fs) (concat (List.map enc_fam fs))"
proof (induction fs)
  case (Cons f fs)
  have "put_all (put_family al) (f # fs) = (\<lambda>b. put_family al f b \<bind> put_all (put_family al) fs)" by auto
  moreover have "appends (\<lambda>b. put_family al f b \<bind> put_all (put_family al) fs) (enc_fam f @ concat (List.map enc_fam fs))"
    by (rule appends_bind[OF appends_family Cons.IH]) (use Cons.prems in auto)
  ultimately show ?case by simp
next
  case Nil
  have "put_all (put_family al) [] = Some" by auto
  then show ?case by (simp add: appends_nil)
qed

lemma enc_doc_parts:
  "length (enc_pg (d_sections d ! 0)) \<le> length (enc_doc d)" "length (pay_dchf d) \<le> length (enc_doc d)" "length (pay_fams d) \<le> length (enc_doc d)"
  "length (pay_styl d) \<le> length (enc_doc d)" "length (pt_text (d_pt d)) \<le> length (enc_doc d)" "length (pay_crun d) \<le> length (enc_doc d)"
  "length (pay_prun d) \<le> length (enc_doc d)" "length (pay_sect d) \<le> length (enc_doc d)"
  by (simp_all add: enc_doc_def enc_chunk_def)

lemma ser_payloads:
  assumes "doc_inv d" "saveable d" "\<And>k i. al k i"
  shows "\<exists>c. ser_page al d = Some c \<and> \<not> bb_err c \<and> bb_p c = enc_pg (d_sections d ! 0)"
    "\<exists>c. ser_dchf al d = Some c \<and> \<not> bb_err c \<and> bb_p c = pay_dchf d"
    "\<exists>c. ser_fams al d = Some c \<and> \<not> bb_err c \<and> bb_p c = pay_fams d"
    "\<exists>c. ser_styl al d = Some c \<and> \<not> bb_err c \<and> bb_p c = pay_styl d"
    "\<exists>c. ser_text al d = Some c \<and> \<not> bb_err c \<and> bb_p c = pt_text (d_pt d)"
    "\<exists>c. ser_crun al d = Some c \<and> \<not> bb_err c \<and> bb_p c = pay_crun d"
    "\<exists>c. ser_prun al d = Some c \<and> \<not> bb_err c \<and> bb_p c = pay_prun d"
    "\<exists>c. ser_sect al d = Some c \<and> \<not> bb_err c \<and> bb_p c = pay_sect d"
proof -
  note I = doc_invD[OF assms(1)] and P = enc_doc_parts[of d]
  have sz: "length (enc_doc d) \<le> 2147483648" using assms(2) by (simp add: saveable_def)
  have S: "list_all (\<lambda>f. length (fam_name f) < 65536) (d_fam d)" "\<And>s. s \<in> set (d_styles d) \<Longrightarrow> length (st_name s) \<le> 47 \<and> 0 \<notin> set (st_name s)"
    using assms(2) by (auto simp: saveable_def list_all_iff)
  have z: "charfmt_rec_size (al k) = Some 20" "parafmt_rec_size (al k) = Some 30" for k by (rule rec_sizes, rule assms(3))+
  show "\<exists>c. ser_page al d = Some c \<and> \<not> bb_err c \<and> bb_p c = enc_pg (d_sections d ! 0)"
    using from_init[OF put_records(3), of "al 1" "d_sections d ! 0"] assms(3) I(10) by (simp add: ser_page_def)
  have "appends (\<lambda>b. bb_u16 (al 2) 20 b \<bind> put_charfmt (al 2) (d_def_cf d)) (pay_dchf d)"
    unfolding pay_dchf_def by (intro appends_bind appends_u16 put_records assms(3))
  from from_init[OF this] show "\<exists>c. ser_dchf al d = Some c \<and> \<not> bb_err c \<and> bb_p c = pay_dchf d" using P(2) sz by (simp add: ser_dchf_def z)
  have "appends (\<lambda>b. bb_u16 (al 3) (of_nat (length (d_fam d))) b \<bind> put_all (put_family (al 3)) (d_fam d)) (pay_fams d)"
    unfolding pay_fams_def by (intro appends_bind appends_u16 appends_families assms(3) S(1))
  from from_init[OF this] show "\<exists>c. ser_fams al d = Some c \<and> \<not> bb_err c \<and> bb_p c = pay_fams d" using P(3) sz by (simp add: ser_fams_def)
  have "list_all raw_ok (List.map raw_style (d_styles d))" using S(2) raw_facts(1) by (auto simp: list_all_iff)
  then have "appends (put_all (put_style (al 4)) (List.map raw_style (d_styles d))) (concat (List.map enc_style (List.map raw_style (d_styles d))))"
    by (intro stc.put_all_enc assms(3))
  moreover have "put_all (put_style (al 4)) (List.map raw_style (d_styles d)) = put_all (put_style (al 4)) (d_styles d)"
    by (rule ext, rule put_all_cong) (use S(2) raw_facts(2) in blast)
  ultimately have "appends (put_all (put_style (al 4)) (d_styles d)) (concat (List.map enc_style (List.map raw_style (d_styles d))))" by simp
  then have "appends (\<lambda>b. bb_u16 (al 4) (of_nat (length (d_styles d))) b \<bind> (\<lambda>b. bb_u16 (al 4) 20 b \<bind> (\<lambda>b. bb_u16 (al 4) 30 b \<bind>
      put_all (put_style (al 4)) (d_styles d)))) (pay_styl d)"
    unfolding pay_styl_def by (intro appends_bind appends_u16 assms(3))
  from from_init[OF this] show "\<exists>c. ser_styl al d = Some c \<and> \<not> bb_err c \<and> bb_p c = pay_styl d" using P(4) sz by (simp add: ser_styl_def z)
  have "pt_get_text (d_pt d) 0 (pt_total (d_pt d)) (pt_total (d_pt d)) = pt_text (d_pt d)" using pt_get_text_facts[OF I(1)] I(3) by simp
  then show "\<exists>c. ser_text al d = Some c \<and> \<not> bb_err c \<and> bb_p c = pt_text (d_pt d)"
    using from_init[OF appends_bytes, of "al 5" "pt_text (d_pt d)"] assms(3) P(5) sz I(3) by (auto simp: ser_text_def Let_def bb_init_def)
  have "appends (\<lambda>b. bb_u32 (al 6) (rl_n (d_cruns d)) b \<bind> (\<lambda>b. bb_u16 (al 6) 20 b \<bind>
      put_all (put_run (al 6) (put_charfmt (al 6))) (rl_runs (d_cruns d)))) (pay_crun d)"
    unfolding pay_crun_def by (intro appends_bind appends_u16 appends_u32 crc.put_all_enc assms(3)) (simp add: list_all_iff)
  from from_init[OF this] show "\<exists>c. ser_crun al d = Some c \<and> \<not> bb_err c \<and> bb_p c = pay_crun d" using P(6) sz by (simp add: ser_crun_def z)
  have "appends (\<lambda>b. bb_u32 (al 7) (rl_n (d_pruns d)) b \<bind> (\<lambda>b. bb_u16 (al 7) 30 b \<bind>
      put_all (put_run (al 7) (put_parafmt (al 7))) (rl_runs (d_pruns d)))) (pay_prun d)"
    unfolding pay_prun_def by (intro appends_bind appends_u16 appends_u32 prc.put_all_enc assms(3)) (simp add: list_all_iff)
  from from_init[OF this] show "\<exists>c. ser_prun al d = Some c \<and> \<not> bb_err c \<and> bb_p c = pay_prun d" using P(7) sz by (simp add: ser_prun_def z)
  have "appends (\<lambda>b. bb_u16 (al 8) 36 b \<bind> (\<lambda>b. bb_u32 (al 8) (of_nat (length (d_sections d))) b \<bind> (\<lambda>b. put_all (put_pagerec (al 8)) (d_sections d) b \<bind>
      (\<lambda>b. bb_u32 (al 8) (rl_n (d_sruns d)) b \<bind> put_all (put_run (al 8) (bb_u32 (al 8))) (rl_runs (d_sruns d)))))) (pay_sect d)"
    unfolding pay_sect_def by (intro appends_bind appends_u16 appends_u32 pgc.put_all_enc src.put_all_enc assms(3)) (simp_all add: list_all_iff)
  from from_init[OF this] show "\<exists>c. ser_sect al d = Some c \<and> \<not> bb_err c \<and> bb_p c = pay_sect d"
    using P(8) sz by (simp add: ser_sect_def pagerec_size_def)
qed

lemma serialize_facts:
  assumes "doc_inv d" "saveable d" "\<And>k i. al k i"
  shows "df_doc_serialize al d = Some (Inr (enc_doc d))"
proof -
  have sz: "length (enc_doc d) \<le> 2147483648" using assms(2) by (simp add: saveable_def)
  note Q = ser_payloads[where al = al, OF assms(1,2), OF assms(3)]
  from Q(1) obtain c1 where c1: "ser_page al d = Some c1" "bb_p c1 = enc_pg (d_sections d ! 0)" by (elim exE conjE)
  from Q(2) obtain c2 where c2: "ser_dchf al d = Some c2" "bb_p c2 = pay_dchf d" by (elim exE conjE)
  from Q(3) obtain c3 where c3: "ser_fams al d = Some c3" "bb_p c3 = pay_fams d" by (elim exE conjE)
  from Q(4) obtain c4 where c4: "ser_styl al d = Some c4" "bb_p c4 = pay_styl d" by (elim exE conjE)
  from Q(5) obtain c5 where c5: "ser_text al d = Some c5" "\<not> bb_err c5" "bb_p c5 = pt_text (d_pt d)" by (elim exE conjE)
  from Q(6) obtain c6 where c6: "ser_crun al d = Some c6" "bb_p c6 = pay_crun d" by (elim exE conjE)
  from Q(7) obtain c7 where c7: "ser_prun al d = Some c7" "bb_p c7 = pay_prun d" by (elim exE conjE)
  from Q(8) obtain c8 where c8: "ser_sect al d = Some c8" "bb_p c8 = pay_sect d" by (elim exE conjE)
  have "appends (\<lambda>b. bb_bytes (al 0) magic_DOBW b \<bind> (\<lambda>b. bb_u16 (al 0) 3 b \<bind> (\<lambda>b. bb_u16 (al 0) 0 b \<bind>
      (\<lambda>b. bb_chunk (al 0) tag_PAGE c1 b \<bind> (\<lambda>b. bb_chunk (al 0) tag_DCHF c2 b \<bind> (\<lambda>b. bb_chunk (al 0) tag_FAMS c3 b \<bind>
      (\<lambda>b. bb_chunk (al 0) tag_STYL c4 b \<bind> (\<lambda>b. bb_chunk (al 0) tag_TEXT c5 b \<bind> (\<lambda>b. bb_chunk (al 0) tag_CRUN c6 b \<bind>
      (\<lambda>b. bb_chunk (al 0) tag_PRUN c7 b \<bind> bb_chunk (al 0) tag_SECT c8)))))))))) (enc_doc d)"
    unfolding enc_doc_def c1(2)[symmetric] c2(2)[symmetric] c3(2)[symmetric] c4(2)[symmetric] c5(3)[symmetric] c6(2)[symmetric] c7(2)[symmetric] c8(2)[symmetric]
    by (intro appends_bind appends_bytes appends_u16 appends_chunk assms(3))
  from from_init[OF this sz] obtain b where
    b: "bb_bytes (al 0) magic_DOBW bb_init \<bind> (\<lambda>b. bb_u16 (al 0) 3 b \<bind> (\<lambda>b. bb_u16 (al 0) 0 b \<bind>
      (\<lambda>b. bb_chunk (al 0) tag_PAGE c1 b \<bind> (\<lambda>b. bb_chunk (al 0) tag_DCHF c2 b \<bind> (\<lambda>b. bb_chunk (al 0) tag_FAMS c3 b \<bind>
      (\<lambda>b. bb_chunk (al 0) tag_STYL c4 b \<bind> (\<lambda>b. bb_chunk (al 0) tag_TEXT c5 b \<bind> (\<lambda>b. bb_chunk (al 0) tag_CRUN c6 b \<bind>
      (\<lambda>b. bb_chunk (al 0) tag_PRUN c7 b \<bind> bb_chunk (al 0) tag_SECT c8))))))))) = Some b" "\<not> bb_err b" "bb_p b = enc_doc d" by blast
  have "df_doc_serialize al d = Some b \<bind> (\<lambda>b. Some (if bb_err b then Inl DD_ERR_NOMEM else Inr (bb_p b)))"
    unfolding b(1)[symmetric] df_doc_serialize_def c1(1) c2(1) c3(1) c4(1) c5(1) c6(1) c7(1) c8(1)
    using c5(2) by (simp add: Let_def)
  then show ?thesis using b(2,3) by simp
qed

section \<open>Loading it back\<close>

lemma load_chunk_at:
  assumes "at (ld_r s) (enc_chunk tag xs @ rest)" "length tag = 4"
    and "load_body al tag (of_nat (length xs)) (rd_pos (adv (8 + length xs) (ld_r s))) (s\<lparr>ld_r := adv 8 (ld_r s)\<rparr>) = Some s1"
    and "ld_r s1 = adv (8 + length xs) (ld_r s)"
  shows "load_loop al s = load_loop al s1"
proof -
  let ?r = "ld_r s"
  have a: "at ?r (tag @ enc_u32 (of_nat (length xs)) @ xs @ rest)" using assms(1) by (simp add: enc_chunk_def)
  have a1: "at (adv 4 ?r) (enc_u32 (of_nat (length xs)) @ xs @ rest)" using at_adv[OF a] assms(2) by simp
  have a2: "at (adv 8 ?r) (xs @ rest)" using at_adv[OF a1] by simp
  have e: "rd_pos (adv 8 ?r) + of_nat (length xs) = rd_pos (adv (8 + length xs) ?r)" by (simp add: adv_def add.assoc)
  have f: "\<not> rd_len (adv 8 ?r) < rd_pos (adv (8 + length xs) ?r)" using record_fits[OF a2, of "length xs"] e by simp
  have ne: "\<not> rd_err ?r" "\<not> rd_err (adv 8 ?r)" using a a2 by (simp_all add: at_def)
  have g: "rd_pos ?r + 8 \<le> rd_len ?r" using record_fits[OF a, of 8] assms(2) by simp
  have "s1\<lparr>ld_r := (ld_r s1)\<lparr>rd_pos := rd_pos (adv (8 + length xs) ?r)\<rparr>\<rparr> = s1" using assms(4) by (metis ld.surjective ld.update_convs(2) rd.surjective rd.update_convs(2))
  then have "load_chunk al s = Some (Inr s1)"
    using rd_bytes_at[OF a, of 4] assms(2,3) rd_u32_at[OF a1] ne f e by (simp add: load_chunk_def Let_def)
  then show ?thesis using g ne(1) by (subst load_loop.simps) simp
qed

lemma load_page_at:
  assumes a: "at (ld_r s) (enc_pg g @ rest)" and "d_sections (ld_d s) \<noteq> []" "\<not> ld_sect s" "fin = rd_pos (adv 36 (ld_r s))"
  shows "load_page fin s = Some (s\<lparr>ld_r := adv 36 (ld_r s), ld_d := (ld_d s)\<lparr>d_sections := (d_sections (ld_d s))[0 := g]\<rparr>\<rparr>)"
proof -
  let ?r = "ld_r s"
  let ?h = "enc_u32 (pg_column_gap g) @ rest"
  let ?g = "enc_u32 (pg_columns g) @ ?h"
  let ?f = "enc_u32 (pg_bg_color g) @ ?g"
  let ?e = "enc_u32 (pg_margin_bottom g) @ ?f"
  let ?d = "enc_u32 (pg_margin_top g) @ ?e"
  let ?c = "enc_u32 (pg_margin_right g) @ ?d"
  let ?b = "enc_u32 (pg_margin_left g) @ ?c"
  let ?a = "enc_u32 (pg_height g) @ ?b"
  have a0: "at ?r (enc_u32 (pg_width g) @ ?a)" using a by (simp add: enc_pg_def)
  have a1: "at (adv 4 ?r) ?a" using at_adv[OF a0] by simp
  have a2: "at (adv 8 ?r) ?b" using at_adv[OF a1] by simp
  have a3: "at (adv 12 ?r) ?c" using at_adv[OF a2] by simp
  have a4: "at (adv 16 ?r) ?d" using at_adv[OF a3] by simp
  have a5: "at (adv 20 ?r) ?e" using at_adv[OF a4] by simp
  have a6: "at (adv 24 ?r) ?f" using at_adv[OF a5] by simp
  have a7: "at (adv 28 ?r) ?g" using at_adv[OF a6] by simp
  have a8: "at (adv 32 ?r) ?h" using at_adv[OF a7] by simp
  have p: "rd_pos (adv k ?r) + 4 \<le> fin" if "k \<le> 32" for k
    using at_pos[OF a, of "k + 4"] at_pos[OF a, of 36] that assms(4) by (simp add: adv_def word_le_nat_alt add.assoc)
  show ?thesis
    using assms(2,3) p rd_u32_at[OF a0] rd_u32_at[OF a1] rd_u32_at[OF a2] rd_u32_at[OF a3] rd_u32_at[OF a4] rd_u32_at[OF a5] rd_u32_at[OF a6]
      rd_u32_at[OF a7] rd_u32_at[OF a8] by (simp add: load_page_def Let_def) (cases g; simp)
qed

lemma load_dchf_at:
  assumes a: "at (ld_r s) (pay_dchf d @ rest)"
  shows "load_dchf s = Some (s\<lparr>ld_r := adv 22 (ld_r s), ld_d := (ld_d s)\<lparr>d_def_cf := (d_def_cf d)\<lparr>cf_mask := ALL_CF\<rparr>\<rparr>\<rparr>)"
proof -
  have a0: "at (ld_r s) (enc_u16 20 @ enc_cf (d_def_cf d) @ rest)" using a by (simp add: pay_dchf_def)
  have a1: "at (adv 2 (ld_r s)) (enc_cf (d_def_cf d) @ rest)" using at_adv[OF a0] by simp
  show ?thesis using rd_u16_at[OF a0] get_charfmt_at[OF a1] by (simp add: load_dchf_def)
qed

lemma fams_loop_at:
  assumes "list_all (\<lambda>f. length (fam_name f) < 65536 \<and> 0 \<notin> set (fam_name f)) fs" "at (ld_r s) (concat (List.map enc_fam fs) @ rest)" "\<And>i. al i"
  shows "fams_loop al (length fs) s = Some (s\<lparr>ld_r := adv (length (concat (List.map enc_fam fs))) (ld_r s),
     ld_d := (ld_d s)\<lparr>d_fam := d_fam (ld_d s) @ List.map (\<lambda>f. Some (fam_name f)) fs\<rparr>, ld_n := ld_n s + 2 * length fs\<rparr>)"
  using assms(1,2)
proof (induction fs arbitrary: s)
  case (Cons f fs)
  let ?r = "ld_r s"
  let ?l = "of_nat (length (fam_name f)) :: u16"
  have f: "length (fam_name f) < 65536" "0 \<notin> set (fam_name f)" using Cons.prems(1) by simp_all
  have a: "at ?r (enc_u16 ?l @ fam_name f @ concat (List.map enc_fam fs) @ rest)" using Cons.prems(2) by (simp add: enc_fam_def[of f])
  have a1: "at (adv 2 ?r) (fam_name f @ concat (List.map enc_fam fs) @ rest)" using at_adv[OF a] by simp
  have a2: "at (adv (2 + length (fam_name f)) ?r) (concat (List.map enc_fam fs) @ rest)" using at_adv[OF a1] by simp
  have "unat ?l = length (fam_name f)" using f(1) by (simp add: unat_of_nat)
  then have c: "ucast ?l = (of_nat (length (fam_name f)) :: u32)" by (metis of_nat_unat)
  have u: "until_nul (fam_name f) = fam_name f" using f(2) by (auto simp: until_nul_def takeWhile_eq_all_conv)
  let ?s = "s\<lparr>ld_r := adv (2 + length (fam_name f)) ?r, ld_d := (ld_d s)\<lparr>d_fam := d_fam (ld_d s) @ [Some (fam_name f)]\<rparr>, ld_n := ld_n s + 2\<rparr>"
  have "fams_loop al (Suc (length fs)) s = fams_loop al (length fs) ?s"
    using rd_u16_at[OF a] rd_bytes_at[OF a1 c] u a assms(3) by (simp add: at_def)
  moreover have "fams_loop al (length fs) ?s = Some (?s\<lparr>ld_r := adv (length (concat (List.map enc_fam fs))) (ld_r ?s),
     ld_d := (ld_d ?s)\<lparr>d_fam := d_fam (ld_d ?s) @ List.map (\<lambda>f. Some (fam_name f)) fs\<rparr>, ld_n := ld_n ?s + 2 * length fs\<rparr>)"
    by (rule Cons.IH) (use Cons.prems(1) a2 in simp_all)
  ultimately show ?case by (simp add: enc_fam_def[of f])
qed simp

lemma load_fams_at:
  assumes "saveable d" "at (ld_r s) (pay_fams d @ rest)" "\<And>i. al i"
  shows "load_fams al s = Some (s\<lparr>ld_r := adv (length (pay_fams d)) (ld_r s),
     ld_d := (ld_d s)\<lparr>d_fam := List.map (\<lambda>f. Some (fam_name f)) (d_fam d)\<rparr>, ld_n := ld_n s + 2 * length (d_fam d)\<rparr>)"
proof -
  have S: "list_all (\<lambda>f. length (fam_name f) < 65536 \<and> 0 \<notin> set (fam_name f)) (d_fam d)" "length (d_fam d) < 65536"
    using assms(1) by (simp_all add: saveable_def)
  let ?c = "of_nat (length (d_fam d)) :: u16"
  have u: "unat ?c = length (d_fam d)" using S(2) by (simp add: unat_of_nat)
  have a: "at (ld_r s) (enc_u16 ?c @ concat (List.map enc_fam (d_fam d)) @ rest)" using assms(2) by (simp add: pay_fams_def)
  let ?s = "s\<lparr>ld_r := adv 2 (ld_r s), ld_d := (ld_d s)\<lparr>d_fam := []\<rparr>\<rparr>"
  have a1: "at (ld_r ?s) (concat (List.map enc_fam (d_fam d)) @ rest)" using at_adv[OF a] by simp
  show ?thesis using rd_u16_at[OF a] fams_loop_at[where al = al, OF S(1) a1, OF assms(3)] u by (simp add: load_fams_def pay_fams_def)
qed

lemma sint_style: "word_of_int (sint (w :: u16)) = w"
  by simp

lemma load_styl_at:
  assumes "saveable d" "at (ld_r s) (pay_styl d @ rest)" "\<And>i. al i"
  shows "load_styl al s =
    Some (s\<lparr>ld_r := adv (length (pay_styl d)) (ld_r s), ld_d := (ld_d s)\<lparr>d_styles := d_styles d\<rparr>, ld_n := ld_n s + length (d_styles d)\<rparr>)"
proof -
  have S: "\<And>x. x \<in> set (d_styles d) \<Longrightarrow> length (st_name x) \<le> 47 \<and> 0 \<notin> set (st_name x)" "length (d_styles d) < 65536"
    using assms(1) by (auto simp: saveable_def list_all_iff)
  let ?raw = "List.map raw_style (d_styles d)"
  let ?c = "of_nat (length (d_styles d)) :: u16"
  have u: "unat ?c = length ?raw" using S(2) by (simp add: unat_of_nat)
  have a: "at (ld_r s) (enc_u16 ?c @ enc_u16 20 @ enc_u16 30 @ concat (List.map enc_style ?raw) @ rest)" using assms(2) by (simp add: pay_styl_def)
  have a1: "at (adv 2 (ld_r s)) (enc_u16 20 @ enc_u16 30 @ concat (List.map enc_style ?raw) @ rest)" using at_adv[OF a] by simp
  have a2: "at (adv 4 (ld_r s)) (enc_u16 30 @ concat (List.map enc_style ?raw) @ rest)" using at_adv[OF a1] by simp
  let ?s = "s\<lparr>ld_r := adv 6 (ld_r s), ld_d := (ld_d s)\<lparr>d_styles := []\<rparr>\<rparr>"
  have a3: "at (ld_r ?s) (concat (List.map enc_style ?raw) @ rest)" using at_adv[OF a2] by simp
  have ok: "list_all raw_ok ?raw" using S(1) raw_facts(1) by (auto simp: list_all_iff)
  have st: "add_style True (?raw ! k) (d0\<lparr>d_styles := take k (d_styles d)\<rparr>) = Some (d0\<lparr>d_styles := take (Suc k) (d_styles d)\<rparr>)"
    if "k < length ?raw" for k d0
  proof -
    have k: "k < length (d_styles d)" using that by simp
    have "c_string 48 (st_name (raw_style (d_styles d ! k))) = st_name (d_styles d ! k)" using raw_facts(3) S(1) nth_mem[OF k] by blast
    then show ?thesis using k by (cases "d_styles d ! k") (simp add: add_style_def df_doc_style_define_def take_Suc_conv_app_nth raw_style_def)
  qed
  have "\<exists>d'. read_loop al (get_style 20 30) add_style (length ?raw) ?s =
      Some (?s\<lparr>ld_r := adv (length (concat (List.map enc_style ?raw))) (ld_r ?s), ld_d := d', ld_n := ld_n ?s + length ?raw\<rparr>) \<and>
      d' = (ld_d s)\<lparr>d_styles := take (length ?raw) (d_styles d)\<rparr>"
    by (rule stc.read_all[where P = "\<lambda>k d'. d' = (ld_d s)\<lparr>d_styles := take k (d_styles d)\<rparr>", OF ok a3 _ assms(3)]) (use st in auto)
  moreover have l: "length (pay_styl d) = 6 + length (concat (List.map enc_style ?raw))" by (simp add: pay_styl_def)
  ultimately show ?thesis
    using rd_u16_at[OF a] rd_u16_at[OF a1] rd_u16_at[OF a2] u unfolding l by (simp add: load_styl_def)
qed

lemma load_text_at:
  assumes "at (ld_r s) (t @ rest)" "\<And>i. al i" "d_pt (ld_d s) = pt_init" "length t \<le> 2147483648"
  shows "\<exists>pt. load_text al (of_nat (length t)) s =
      Some (s\<lparr>ld_r := adv (length t) (ld_r s), ld_d := (ld_d s)\<lparr>d_pt := pt\<rparr>, ld_n := (if t = [] then ld_n s else ld_n s + 2)\<rparr>) \<and>
    pt_inv pt \<and> pt_text pt = t"
proof (cases "t = []")
  case True
  have "\<not> rd_len (ld_r s) < rd_pos (ld_r s)" using record_fits[OF assms(1), of 0] by simp
  then have "load_text al 0 s = Some (s\<lparr>ld_r := ld_r s, ld_d := (ld_d s)\<lparr>d_pt := pt_init\<rparr>, ld_n := ld_n s\<rparr>)"
    using assms(3) by (simp add: load_text_def rd_skip_def Let_def)
  then show ?thesis using True pt_init_inv by (intro exI[of _ pt_init]) simp
next
  case False
  let ?n = "of_nat (length t) :: u32"
  have n: "unat ?n = length t" using assms(4) by (intro unat_of_nat_u32) simp
  then have nz: "?n \<noteq> 0" using False by (metis length_0_conv unat_0)
  have tk: "take (unat ?n) (drop (unat (rd_pos (ld_r s))) (rd_p (ld_r s))) = t" using assms(1) n by (simp add: at_def)
  have fit: "\<not> length (rd_p (ld_r s)) < unat (rd_pos (ld_r s)) + unat ?n" using at_length[OF assms(1)] n by simp
  from pt_set_original_facts[OF pt_init_inv(1), of t True True] assms(4) obtain pt r where
    p: "pt_set_original True True pt_init t = Some (pt, r)" "pt_inv pt" "if r = DD_OK then pt_text pt = t else r = DD_ERR_NOMEM \<and> pt_text pt = []" by auto
  have r: "r = DD_OK" using p(1) nz by (auto simp: pt_set_original_def Let_def pc_reserve_def pt_init_def grow_cap.simps split: if_splits)
  have sk: "rd_skip ?n (ld_r s) = adv (length t) (ld_r s)" using record_fits[OF assms(1), of "length t"] by (simp add: rd_skip_def adv_def)
  have al: "al (ld_n s) = True" "al (ld_n s + 1) = True" using assms(2) by blast+
  have "load_text al ?n s = Some (s\<lparr>ld_d := (ld_d s)\<lparr>d_pt := pt\<rparr>, ld_n := ld_n s + 2, ld_r := adv (length t) (ld_r s)\<rparr>)"
    unfolding load_text_def Let_def if_not_P[OF nz] if_not_P[OF fit] tk assms(3) using p(1) r sk al by simp
  moreover have "s\<lparr>ld_d := x, ld_n := y, ld_r := z\<rparr> = s\<lparr>ld_r := z, ld_d := x, ld_n := y\<rparr>" for x y z by (cases s) simp
  ultimately show ?thesis using p(2,3) r False by auto
qed

lemma rl_push_facts:
  assumes "length (rl_runs rl) < 2147483648" "length (rl_runs rl) \<le> unat (rl_cap rl)"
  shows "\<exists>c. rl_push True rl l p = Some (\<lparr>rl_runs = rl_runs rl @ [(l, p)], rl_cap = c\<rparr>, DD_OK) \<and> Suc (length (rl_runs rl)) \<le> unat c"
proof -
  have "unat (rl_n rl) = length (rl_runs rl)" unfolding rl_n_def using assms(1) by (intro unat_of_nat_u32) simp
  then have n: "unat (rl_n rl + 1) = Suc (length (rl_runs rl))" using assms(1) by (simp add: unat_add_u32)
  have "rl_n rl + 1 \<le> 0x80000000" using n assms(1) by (simp add: word_le_nat_alt)
  then obtain c r where c: "rl_reserve True rl (rl_n rl + 1) = Some (rl\<lparr>rl_cap := c\<rparr>, r)" "r = DD_OK \<Longrightarrow> rl_n rl + 1 \<le> c"
    using rl_reserve_facts by metis
  have r: "r = DD_OK" using c(1) by (auto simp: rl_reserve_def split: if_splits bind_splits)
  have "rl_push True rl l p = Some (\<lparr>rl_runs = rl_runs rl @ [(l, p)], rl_cap = c\<rparr>, DD_OK)" using c(1) r by (simp add: rl_push_def)
  then show ?thesis using c(2)[OF r] n by (auto simp: word_le_nat_alt)
qed

lemma load_crun_at:
  assumes "at (ld_r s) (pay_crun d @ rest)" "\<And>i. al i" "length (rl_runs (d_cruns d)) < 2147483648"
  shows "\<exists>c. load_crun al s = Some (s\<lparr>ld_r := adv (length (pay_crun d)) (ld_r s),
    ld_d := (ld_d s)\<lparr>d_cruns := \<lparr>rl_runs = rl_runs (d_cruns d), rl_cap = c\<rparr>\<rparr>, ld_n := ld_n s + length (rl_runs (d_cruns d)), ld_crun := True\<rparr>) \<and>
    length (rl_runs (d_cruns d)) \<le> unat c"
proof -
  let ?rs = "rl_runs (d_cruns d)"
  let ?es = "concat (List.map (\<lambda>r. enc_u32 (fst r) @ enc_cf (snd r)) ?rs)"
  have u: "unat (rl_n (d_cruns d)) = length ?rs" unfolding rl_n_def using assms(3) by (intro unat_of_nat_u32) simp
  have a: "at (ld_r s) (enc_u32 (rl_n (d_cruns d)) @ enc_u16 20 @ ?es @ rest)" using assms(1) by (simp add: pay_crun_def)
  have a1: "at (adv 4 (ld_r s)) (enc_u16 20 @ ?es @ rest)" using at_adv[OF a] by simp
  let ?s = "s\<lparr>ld_r := adv 6 (ld_r s), ld_d := (ld_d s)\<lparr>d_cruns := rl_init\<rparr>\<rparr>"
  let ?P = "\<lambda>k d'. \<exists>c. d' = (ld_d s)\<lparr>d_cruns := \<lparr>rl_runs = take k ?rs, rl_cap = c\<rparr>\<rparr> \<and> k \<le> unat c"
  have a2: "at (ld_r ?s) (?es @ rest)" using at_adv[OF a1] by simp
  have step: "\<exists>d'. add_crun True (?rs ! k) d0 = Some d' \<and> ?P (Suc k) d'" if k: "k < length ?rs" and p: "?P k d0" for k d0
  proof -
    from p obtain c where c: "d0 = (ld_d s)\<lparr>d_cruns := \<lparr>rl_runs = take k ?rs, rl_cap = c\<rparr>\<rparr>" "k \<le> unat c" by blast
    from rl_push_facts[of "\<lparr>rl_runs = take k ?rs, rl_cap = c\<rparr>" "fst (?rs ! k)" "snd (?rs ! k)"] c(2) k assms(3) obtain c' where
      "rl_push True \<lparr>rl_runs = take k ?rs, rl_cap = c\<rparr> (fst (?rs ! k)) (snd (?rs ! k)) = Some (\<lparr>rl_runs = take k ?rs @ [?rs ! k], rl_cap = c'\<rparr>, DD_OK)"
      "Suc k \<le> unat c'" by auto
    then show ?thesis using c(1) k by (auto simp: add_crun_def take_Suc_conv_app_nth)
  qed
  have "\<exists>d'. read_loop al (get_run (get_charfmt_sized 20)) add_crun (length ?rs) ?s =
      Some (?s\<lparr>ld_r := adv (length ?es) (ld_r ?s), ld_d := d', ld_n := ld_n ?s + length ?rs\<rparr>) \<and> ?P (length ?rs) d'"
  proof (rule crc.read_all[where P = ?P])
    show "at (ld_r ?s) (?es @ rest)" by (rule a2)
    show "?P 0 (ld_d ?s)" by (auto simp: rl_init_def)
  qed (use assms(2) step in \<open>auto simp: list_all_iff\<close>)
  moreover have "length (pay_crun d) = 6 + length ?es" by (simp add: pay_crun_def)
  ultimately show ?thesis using rd_u32_at[OF a] rd_u16_at[OF a1] u by (auto simp: load_crun_def)
qed

lemma load_prun_at:
  assumes "at (ld_r s) (pay_prun d @ rest)" "\<And>i. al i" "length (rl_runs (d_pruns d)) < 2147483648"
  shows "\<exists>c. load_prun al s = Some (s\<lparr>ld_r := adv (length (pay_prun d)) (ld_r s),
    ld_d := (ld_d s)\<lparr>d_pruns := \<lparr>rl_runs = rl_runs (d_pruns d), rl_cap = c\<rparr>\<rparr>, ld_n := ld_n s + length (rl_runs (d_pruns d)), ld_prun := True\<rparr>) \<and>
    length (rl_runs (d_pruns d)) \<le> unat c"
proof -
  let ?rs = "rl_runs (d_pruns d)"
  let ?es = "concat (List.map (\<lambda>r. enc_u32 (fst r) @ enc_pf (snd r)) ?rs)"
  have u: "unat (rl_n (d_pruns d)) = length ?rs" unfolding rl_n_def using assms(3) by (intro unat_of_nat_u32) simp
  have a: "at (ld_r s) (enc_u32 (rl_n (d_pruns d)) @ enc_u16 30 @ ?es @ rest)" using assms(1) by (simp add: pay_prun_def)
  have a1: "at (adv 4 (ld_r s)) (enc_u16 30 @ ?es @ rest)" using at_adv[OF a] by simp
  let ?s = "s\<lparr>ld_r := adv 6 (ld_r s), ld_d := (ld_d s)\<lparr>d_pruns := rl_init\<rparr>\<rparr>"
  let ?P = "\<lambda>k d'. \<exists>c. d' = (ld_d s)\<lparr>d_pruns := \<lparr>rl_runs = take k ?rs, rl_cap = c\<rparr>\<rparr> \<and> k \<le> unat c"
  have a2: "at (ld_r ?s) (?es @ rest)" using at_adv[OF a1] by simp
  have step: "\<exists>d'. add_prun True (?rs ! k) d0 = Some d' \<and> ?P (Suc k) d'" if k: "k < length ?rs" and p: "?P k d0" for k d0
  proof -
    from p obtain c where c: "d0 = (ld_d s)\<lparr>d_pruns := \<lparr>rl_runs = take k ?rs, rl_cap = c\<rparr>\<rparr>" "k \<le> unat c" by blast
    from rl_push_facts[of "\<lparr>rl_runs = take k ?rs, rl_cap = c\<rparr>" "fst (?rs ! k)" "snd (?rs ! k)"] c(2) k assms(3) obtain c' where
      "rl_push True \<lparr>rl_runs = take k ?rs, rl_cap = c\<rparr> (fst (?rs ! k)) (snd (?rs ! k)) = Some (\<lparr>rl_runs = take k ?rs @ [?rs ! k], rl_cap = c'\<rparr>, DD_OK)"
      "Suc k \<le> unat c'" by auto
    then show ?thesis using c(1) k by (auto simp: add_prun_def take_Suc_conv_app_nth)
  qed
  have "\<exists>d'. read_loop al (get_run (get_parafmt_sized 30)) add_prun (length ?rs) ?s =
      Some (?s\<lparr>ld_r := adv (length ?es) (ld_r ?s), ld_d := d', ld_n := ld_n ?s + length ?rs\<rparr>) \<and> ?P (length ?rs) d'"
  proof (rule prc.read_all[where P = ?P])
    show "at (ld_r ?s) (?es @ rest)" by (rule a2)
    show "?P 0 (ld_d ?s)" by (auto simp: rl_init_def)
  qed (use assms(2) step in \<open>auto simp: list_all_iff\<close>)
  moreover have "length (pay_prun d) = 6 + length ?es" by (simp add: pay_prun_def)
  ultimately show ?thesis using rd_u32_at[OF a] rd_u16_at[OF a1] u by (auto simp: load_prun_def)
qed

lemma load_sect_at:
  assumes "at (ld_r s) (pay_sect d @ rest)" "\<And>i. al i" "d_sections d \<noteq> []" "length (d_sections d) < 2147483648" "length (rl_runs (d_sruns d)) < 2147483648"
    and "\<forall>si\<in>payloads (rl_runs (d_sruns d)). unat si < length (d_sections d)"
  shows "\<exists>c. load_sect al s = Some (s\<lparr>ld_r := adv (length (pay_sect d)) (ld_r s),
    ld_d := (ld_d s)\<lparr>d_sections := d_sections d, d_sruns := \<lparr>rl_runs = rl_runs (d_sruns d), rl_cap = c\<rparr>\<rparr>,
    ld_n := ld_n s + length (d_sections d) + length (rl_runs (d_sruns d)), ld_sect := True\<rparr>) \<and> length (rl_runs (d_sruns d)) \<le> unat c"
proof -
  let ?ps = "d_sections d" and ?rs = "rl_runs (d_sruns d)"
  let ?ep = "concat (List.map enc_pg ?ps)" and ?es = "concat (List.map (\<lambda>r. enc_u32 (fst r) @ enc_u32 (snd r)) ?rs)"
  have u: "unat (rl_n (d_sruns d)) = length ?rs" "unat (of_nat (length ?ps) :: u32) = length ?ps"
    unfolding rl_n_def using assms(4,5) by (auto intro!: unat_of_nat_u32)
  have a: "at (ld_r s) (enc_u16 36 @ enc_u32 (of_nat (length ?ps)) @ ?ep @ enc_u32 (rl_n (d_sruns d)) @ ?es @ rest)" using assms(1) by (simp add: pay_sect_def)
  have a1: "at (adv 2 (ld_r s)) (enc_u32 (of_nat (length ?ps)) @ ?ep @ enc_u32 (rl_n (d_sruns d)) @ ?es @ rest)" using at_adv[OF a] by simp
  let ?s = "s\<lparr>ld_r := adv 6 (ld_r s), ld_d := (ld_d s)\<lparr>d_sections := []\<rparr>\<rparr>"
  have a2: "at (ld_r ?s) (?ep @ enc_u32 (rl_n (d_sruns d)) @ ?es @ rest)" using at_adv[OF a1] by simp
  have "\<exists>d'. read_loop al (get_pagerec_sized 36) add_section (length ?ps) ?s =
      Some (?s\<lparr>ld_r := adv (length ?ep) (ld_r ?s), ld_d := d', ld_n := ld_n ?s + length ?ps\<rparr>) \<and> d' = (ld_d s)\<lparr>d_sections := take (length ?ps) ?ps\<rparr>"
  proof (rule pgc.read_all[where P = "\<lambda>k d'. d' = (ld_d s)\<lparr>d_sections := take k ?ps\<rparr>"])
    show "at (ld_r ?s) (?ep @ enc_u32 (rl_n (d_sruns d)) @ ?es @ rest)" by (rule a2)
  qed (use assms(2) in \<open>auto simp: list_all_iff add_section_def sect_add_def take_Suc_conv_app_nth\<close>)
  then have l1: "read_loop al (get_pagerec_sized 36) add_section (length ?ps) ?s =
      Some (s\<lparr>ld_r := adv (6 + length ?ep) (ld_r s), ld_d := (ld_d s)\<lparr>d_sections := ?ps\<rparr>, ld_n := ld_n s + length ?ps\<rparr>)" by simp
  have a3: "at (adv (6 + length ?ep) (ld_r s)) (enc_u32 (rl_n (d_sruns d)) @ ?es @ rest)" using at_adv[OF a2] by simp
  let ?t = "s\<lparr>ld_r := adv (10 + length ?ep) (ld_r s), ld_d := (ld_d s)\<lparr>d_sections := ?ps, d_sruns := rl_init\<rparr>, ld_n := ld_n s + length ?ps\<rparr>"
  have a4: "at (ld_r ?t) (?es @ rest)" using at_adv[OF a3] by (simp add: add.commute[of _ 4])
  let ?P = "\<lambda>k d'. \<exists>c. d' = (ld_d s)\<lparr>d_sections := ?ps, d_sruns := \<lparr>rl_runs = take k ?rs, rl_cap = c\<rparr>\<rparr> \<and> k \<le> unat c"
  have step: "\<exists>d'. add_srun True (?rs ! k) d0 = Some d' \<and> ?P (Suc k) d'" if k: "k < length ?rs" and p: "?P k d0" for k d0
  proof -
    from p obtain c where c: "d0 = (ld_d s)\<lparr>d_sections := ?ps, d_sruns := \<lparr>rl_runs = take k ?rs, rl_cap = c\<rparr>\<rparr>" "k \<le> unat c" by blast
    from rl_push_facts[of "\<lparr>rl_runs = take k ?rs, rl_cap = c\<rparr>" "fst (?rs ! k)" "snd (?rs ! k)"] c(2) k assms(5) obtain c' where
      "rl_push True \<lparr>rl_runs = take k ?rs, rl_cap = c\<rparr> (fst (?rs ! k)) (snd (?rs ! k)) = Some (\<lparr>rl_runs = take k ?rs @ [?rs ! k], rl_cap = c'\<rparr>, DD_OK)"
      "Suc k \<le> unat c'" by auto
    moreover have "unat (snd (?rs ! k)) < length ?ps" using assms(6) payloads_sub(5)[OF k] by blast
    ultimately show ?thesis using c(1) k by (auto simp: add_srun_def take_Suc_conv_app_nth)
  qed
  have "\<exists>d'. read_loop al (get_run rd_u32) add_srun (length ?rs) ?t =
      Some (?t\<lparr>ld_r := adv (length ?es) (ld_r ?t), ld_d := d', ld_n := ld_n ?t + length ?rs\<rparr>) \<and> ?P (length ?rs) d'"
  proof (rule src.read_all[where P = ?P])
    show "at (ld_r ?t) (?es @ rest)" by (rule a4)
    show "?P 0 (ld_d ?t)" by (auto simp: rl_init_def)
  qed (use assms(2) step in \<open>auto simp: list_all_iff\<close>)
  then obtain c where l2: "read_loop al (get_run rd_u32) add_srun (length ?rs) ?t =
      Some (s\<lparr>ld_r := adv (10 + length ?ep + length ?es) (ld_r s), ld_d := (ld_d s)\<lparr>d_sections := ?ps, d_sruns := \<lparr>rl_runs = ?rs, rl_cap = c\<rparr>\<rparr>,
        ld_n := ld_n s + length ?ps + length ?rs\<rparr>)" "length ?rs \<le> unat c" by auto
  have sw: "s\<lparr>ld_n := n, ld_r := r, ld_d := x\<rparr> = s\<lparr>ld_r := r, ld_d := x, ld_n := n\<rparr>" for n r x by (cases s) simp
  have len: "length (pay_sect d) = 10 + length ?ep + length ?es" by (simp add: pay_sect_def)
  have r3: "rd_u32 (adv (6 + length ?ep) (ld_r s)) = Some (rl_n (d_sruns d), adv (10 + length ?ep) (ld_r s))"
    using rd_u32_at[OF a3] by (simp add: add.commute[of _ 4])
  have "load_sect al s = Some (s\<lparr>ld_r := adv (length (pay_sect d)) (ld_r s),
    ld_d := (ld_d s)\<lparr>d_sections := d_sections d, d_sruns := \<lparr>rl_runs = ?rs, rl_cap = c\<rparr>\<rparr>, ld_n := ld_n s + length ?ps + length ?rs, ld_sect := True\<rparr>)"
    unfolding load_sect_def len using rd_u16_at[OF a] rd_u32_at[OF a1] u l1 l2(1) r3 assms(3) by (simp add: Let_def sw)
  then show ?thesis using l2(2) by blast
qed

lemmas tag_defs = tag_PAGE_def tag_DCHF_def tag_FAMS_def tag_STYL_def tag_TEXT_def tag_CRUN_def tag_PRUN_def tag_SECT_def

text \<open>A chunk whose body is read to its end: the loop goes on behind it.\<close>

lemma chunk_general:
  assumes c: "at (ld_r s) (enc_chunk tag xs @ rest)" "length tag = 4"
    and body: "at (adv 8 (ld_r s)) (xs @ rest) \<Longrightarrow>
      \<exists>s1. load_body al tag (of_nat (length xs)) (rd_pos (adv (8 + length xs) (ld_r s))) (s\<lparr>ld_r := adv 8 (ld_r s)\<rparr>) = Some s1 \<and>
        ld_r s1 = adv (8 + length xs) (ld_r s) \<and> Q s1"
  shows "\<exists>s1. load_loop al s = load_loop al s1 \<and> at (ld_r s1) rest \<and> Q s1"
proof -
  have a: "at (adv 8 (ld_r s)) (xs @ rest)" using at_adv[of "ld_r s" "tag @ enc_u32 (of_nat (length xs))"] c by (simp add: enc_chunk_def)
  from body[OF this] obtain s1 where s1: "load_body al tag (of_nat (length xs)) (rd_pos (adv (8 + length xs) (ld_r s))) (s\<lparr>ld_r := adv 8 (ld_r s)\<rparr>) = Some s1"
    "ld_r s1 = adv (8 + length xs) (ld_r s)" "Q s1" by blast
  have "load_loop al s = load_loop al s1" by (rule load_chunk_at[OF c s1(1,2)])
  then show ?thesis using s1(2,3) at_adv[OF a] by auto
qed

lemma tag_lengths: "length tag_PAGE = 4" "length tag_DCHF = 4" "length tag_FAMS = 4" "length tag_STYL = 4" "length tag_TEXT = 4" "length tag_CRUN = 4"
    "length tag_PRUN = 4" "length tag_SECT = 4"
  by (simp_all add: tag_defs)

lemma load_body_tags:
  "load_body al tag_PAGE n fin s = load_page fin s" "load_body al tag_DCHF n fin s = load_dchf s" "load_body al tag_FAMS n fin s = load_fams al s"
  "load_body al tag_STYL n fin s = load_styl al s" "load_body al tag_TEXT n fin s = load_text al n s" "load_body al tag_CRUN n fin s = load_crun al s"
  "load_body al tag_PRUN n fin s = load_prun al s" "load_body al tag_SECT n fin s = load_sect al s"
  by (simp_all add: load_body_def tag_defs)

lemma chunk_page:
  assumes "at (ld_r s) (enc_chunk tag_PAGE (enc_pg g) @ rest)" "d_sections (ld_d s) \<noteq> []" "\<not> ld_sect s"
  shows "\<exists>s1. load_loop al s = load_loop al s1 \<and> at (ld_r s1) rest \<and> (ld_d s1 = (ld_d s)\<lparr>d_sections := (d_sections (ld_d s))[0 := g]\<rparr>)"
proof (rule chunk_general[OF assms(1) tag_lengths(1)], goal_cases)
  case 1
  then have a: "at (ld_r (s\<lparr>ld_r := adv 8 (ld_r s)\<rparr>)) (enc_pg g @ rest)" by simp
  show ?case using load_page_at[OF a, of "rd_pos (adv 44 (ld_r s))"] assms(2,3) by (simp add: load_body_tags)
qed

lemma chunk_dchf:
  assumes "at (ld_r s) (enc_chunk tag_DCHF (pay_dchf d) @ rest)"
  shows "\<exists>s1. load_loop al s = load_loop al s1 \<and> at (ld_r s1) rest \<and> (ld_d s1 = (ld_d s)\<lparr>d_def_cf := (d_def_cf d)\<lparr>cf_mask := ALL_CF\<rparr>\<rparr>)"
proof (rule chunk_general[OF assms tag_lengths(2)], goal_cases)
  case 1
  then have a: "at (ld_r (s\<lparr>ld_r := adv 8 (ld_r s)\<rparr>)) (pay_dchf d @ rest)" by simp
  have "length (pay_dchf d) = 22" by (simp add: pay_dchf_def)
  then show ?case using load_dchf_at[OF a] by (simp add: load_body_tags)
qed

lemma chunk_fams:
  assumes "at (ld_r s) (enc_chunk tag_FAMS (pay_fams d) @ rest)" "saveable d" "\<And>i. al i"
  shows "\<exists>s1. load_loop al s = load_loop al s1 \<and> at (ld_r s1) rest \<and> (ld_d s1 = (ld_d s)\<lparr>d_fam := List.map (\<lambda>f. Some (fam_name f)) (d_fam d)\<rparr>)"
proof (rule chunk_general[OF assms(1) tag_lengths(3)], goal_cases)
  case 1
  then have a: "at (ld_r (s\<lparr>ld_r := adv 8 (ld_r s)\<rparr>)) (pay_fams d @ rest)" by simp
  show ?case using load_fams_at[where al = al, OF assms(2) a, OF assms(3)] by (simp add: load_body_tags)
qed

lemma chunk_styl:
  assumes "at (ld_r s) (enc_chunk tag_STYL (pay_styl d) @ rest)" "saveable d" "\<And>i. al i"
  shows "\<exists>s1. load_loop al s = load_loop al s1 \<and> at (ld_r s1) rest \<and> (ld_d s1 = (ld_d s)\<lparr>d_styles := d_styles d\<rparr>)"
proof (rule chunk_general[OF assms(1) tag_lengths(4)], goal_cases)
  case 1
  then have a: "at (ld_r (s\<lparr>ld_r := adv 8 (ld_r s)\<rparr>)) (pay_styl d @ rest)" by simp
  show ?case using load_styl_at[where al = al, OF assms(2) a, OF assms(3)] by (simp add: load_body_tags)
qed

lemma chunk_text:
  assumes "at (ld_r s) (enc_chunk tag_TEXT t @ rest)" "\<And>i. al i" "d_pt (ld_d s) = pt_init" "length t \<le> 2147483648"
  shows "\<exists>s1. load_loop al s = load_loop al s1 \<and> at (ld_r s1) rest \<and> (\<exists>pt. ld_d s1 = (ld_d s)\<lparr>d_pt := pt\<rparr> \<and> pt_inv pt \<and> pt_text pt = t)"
proof (rule chunk_general[OF assms(1) tag_lengths(5)], goal_cases)
  case 1
  let ?s = "s\<lparr>ld_r := adv 8 (ld_r s)\<rparr>"
  have a: "at (ld_r ?s) (t @ rest)" "d_pt (ld_d ?s) = pt_init" using 1 assms(3) by simp_all
  from load_text_at[where al = al, OF a(1) assms(2) a(2) assms(4)] obtain pt where
    p: "load_text al (of_nat (length t)) ?s =
      Some (?s\<lparr>ld_r := adv (length t) (ld_r ?s), ld_d := (ld_d ?s)\<lparr>d_pt := pt\<rparr>, ld_n := (if t = [] then ld_n ?s else ld_n ?s + 2)\<rparr>)"
    "pt_inv pt" "pt_text pt = t" by (elim exE conjE)
  show ?case unfolding load_body_tags p(1) by (intro exI conjI, rule refl) (use p(2,3) in auto)
qed

lemma chunk_crun:
  assumes "at (ld_r s) (enc_chunk tag_CRUN (pay_crun d) @ rest)" "\<And>i. al i" "length (rl_runs (d_cruns d)) < 2147483648"
  shows "\<exists>s1. load_loop al s = load_loop al s1 \<and> at (ld_r s1) rest \<and>
    (\<exists>c. ld_d s1 = (ld_d s)\<lparr>d_cruns := \<lparr>rl_runs = rl_runs (d_cruns d), rl_cap = c\<rparr>\<rparr> \<and> ld_crun s1 \<and> length (rl_runs (d_cruns d)) \<le> unat c)"
proof (rule chunk_general[OF assms(1) tag_lengths(6)], goal_cases)
  case 1
  let ?s = "s\<lparr>ld_r := adv 8 (ld_r s)\<rparr>"
  have a: "at (ld_r ?s) (pay_crun d @ rest)" using 1 by simp
  from load_crun_at[where al = al, OF a assms(2,3)] obtain c where
    p: "load_crun al ?s = Some (?s\<lparr>ld_r := adv (length (pay_crun d)) (ld_r ?s),
      ld_d := (ld_d ?s)\<lparr>d_cruns := \<lparr>rl_runs = rl_runs (d_cruns d), rl_cap = c\<rparr>\<rparr>, ld_n := ld_n ?s + length (rl_runs (d_cruns d)), ld_crun := True\<rparr>)"
    "length (rl_runs (d_cruns d)) \<le> unat c" by (elim exE conjE)
  show ?case unfolding load_body_tags p(1) by (intro exI conjI, rule refl) (use p(2) in auto)
qed

lemma chunk_prun:
  assumes "at (ld_r s) (enc_chunk tag_PRUN (pay_prun d) @ rest)" "\<And>i. al i" "length (rl_runs (d_pruns d)) < 2147483648"
  shows "\<exists>s1. load_loop al s = load_loop al s1 \<and> at (ld_r s1) rest \<and>
    (\<exists>c. ld_d s1 = (ld_d s)\<lparr>d_pruns := \<lparr>rl_runs = rl_runs (d_pruns d), rl_cap = c\<rparr>\<rparr> \<and> ld_crun s1 = ld_crun s \<and> ld_prun s1 \<and>
      length (rl_runs (d_pruns d)) \<le> unat c)"
proof (rule chunk_general[OF assms(1) tag_lengths(7)], goal_cases)
  case 1
  let ?s = "s\<lparr>ld_r := adv 8 (ld_r s)\<rparr>"
  have a: "at (ld_r ?s) (pay_prun d @ rest)" using 1 by simp
  from load_prun_at[where al = al, OF a assms(2,3)] obtain c where
    p: "load_prun al ?s = Some (?s\<lparr>ld_r := adv (length (pay_prun d)) (ld_r ?s),
      ld_d := (ld_d ?s)\<lparr>d_pruns := \<lparr>rl_runs = rl_runs (d_pruns d), rl_cap = c\<rparr>\<rparr>, ld_n := ld_n ?s + length (rl_runs (d_pruns d)), ld_prun := True\<rparr>)"
    "length (rl_runs (d_pruns d)) \<le> unat c" by (elim exE conjE)
  show ?case unfolding load_body_tags p(1) by (intro exI conjI, rule refl) (use p(2) in auto)
qed

lemma chunk_sect:
  assumes "at (ld_r s) (enc_chunk tag_SECT (pay_sect d) @ rest)" "\<And>i. al i" "d_sections d \<noteq> []" "length (d_sections d) < 2147483648"
    and "length (rl_runs (d_sruns d)) < 2147483648" "\<forall>si\<in>payloads (rl_runs (d_sruns d)). unat si < length (d_sections d)"
  shows "\<exists>s1. load_loop al s = load_loop al s1 \<and> at (ld_r s1) rest \<and>
    (\<exists>c. ld_d s1 = (ld_d s)\<lparr>d_sections := d_sections d, d_sruns := \<lparr>rl_runs = rl_runs (d_sruns d), rl_cap = c\<rparr>\<rparr> \<and>
      ld_crun s1 = ld_crun s \<and> ld_prun s1 = ld_prun s \<and> ld_sect s1 \<and> length (rl_runs (d_sruns d)) \<le> unat c)"
proof (rule chunk_general[OF assms(1) tag_lengths(8)], goal_cases)
  case 1
  let ?s = "s\<lparr>ld_r := adv 8 (ld_r s)\<rparr>"
  have a: "at (ld_r ?s) (pay_sect d @ rest)" using 1 by simp
  from load_sect_at[where al = al, OF a assms(2-6)] obtain c where
    p: "load_sect al ?s = Some (?s\<lparr>ld_r := adv (length (pay_sect d)) (ld_r ?s),
      ld_d := (ld_d ?s)\<lparr>d_sections := d_sections d, d_sruns := \<lparr>rl_runs = rl_runs (d_sruns d), rl_cap = c\<rparr>\<rparr>,
      ld_n := ld_n ?s + length (d_sections d) + length (rl_runs (d_sruns d)), ld_sect := True\<rparr>)"
    "length (rl_runs (d_sruns d)) \<le> unat c" by (elim exE conjE)
  show ?case unfolding load_body_tags p(1) by (intro exI conjI, rule refl) (use p(2) in auto)
qed

lemma load_all:
  assumes "at (ld_r s) (enc_chunk tag_PAGE (enc_pg (d_sections d ! 0)) @ enc_chunk tag_DCHF (pay_dchf d) @ enc_chunk tag_FAMS (pay_fams d) @
      enc_chunk tag_STYL (pay_styl d) @ enc_chunk tag_TEXT (pt_text (d_pt d)) @ enc_chunk tag_CRUN (pay_crun d) @ enc_chunk tag_PRUN (pay_prun d) @
      enc_chunk tag_SECT (pay_sect d) @ [])"
    and "doc_inv d" "saveable d" "\<And>i. al i" "d_pt (ld_d s) = pt_init" "d_sections (ld_d s) \<noteq> []" "\<not> ld_sect s"
    and "length (d_sections d) < 2147483648" "length (rl_runs (d_cruns d)) < 2147483648" "length (rl_runs (d_pruns d)) < 2147483648"
    and "length (rl_runs (d_sruns d)) < 2147483648" "length (pt_text (d_pt d)) \<le> 2147483648"
  obtains s8 pt c1 c2 c3 where "load_loop al s = load_loop al s8" "at (ld_r s8) []" "ld_crun s8" "ld_prun s8" "ld_sect s8"
    "ld_d s8 = (ld_d s)\<lparr>d_pt := pt, d_cruns := \<lparr>rl_runs = rl_runs (d_cruns d), rl_cap = c1\<rparr>, d_pruns := \<lparr>rl_runs = rl_runs (d_pruns d), rl_cap = c2\<rparr>,
      d_def_cf := (d_def_cf d)\<lparr>cf_mask := ALL_CF\<rparr>, d_sruns := \<lparr>rl_runs = rl_runs (d_sruns d), rl_cap = c3\<rparr>, d_sections := d_sections d,
      d_styles := d_styles d, d_fam := List.map (\<lambda>f. Some (fam_name f)) (d_fam d)\<rparr>"
    "pt_inv pt" "pt_text pt = pt_text (d_pt d)" "length (rl_runs (d_cruns d)) \<le> unat c1" "length (rl_runs (d_pruns d)) \<le> unat c2"
    "length (rl_runs (d_sruns d)) \<le> unat c3"
proof -
  note I = doc_invD[OF assms(2)]
  have si: "\<forall>si\<in>payloads (rl_runs (d_sruns d)). unat si < length (d_sections d)" using I(11) by blast
  from chunk_page[OF assms(1,6,7), of al] obtain s1 where s1: "load_loop al s = load_loop al s1" "at (ld_r s1) (enc_chunk tag_DCHF (pay_dchf d) @
      enc_chunk tag_FAMS (pay_fams d) @ enc_chunk tag_STYL (pay_styl d) @ enc_chunk tag_TEXT (pt_text (d_pt d)) @ enc_chunk tag_CRUN (pay_crun d) @
      enc_chunk tag_PRUN (pay_prun d) @ enc_chunk tag_SECT (pay_sect d) @ [])" "ld_d s1 = (ld_d s)\<lparr>d_sections := (d_sections (ld_d s))[0 := d_sections d ! 0]\<rparr>"
    by (elim exE conjE)
  from chunk_dchf[OF s1(2), of al] obtain s2 where s2: "load_loop al s1 = load_loop al s2" "at (ld_r s2) (enc_chunk tag_FAMS (pay_fams d) @
      enc_chunk tag_STYL (pay_styl d) @ enc_chunk tag_TEXT (pt_text (d_pt d)) @ enc_chunk tag_CRUN (pay_crun d) @ enc_chunk tag_PRUN (pay_prun d) @
      enc_chunk tag_SECT (pay_sect d) @ [])" "ld_d s2 = (ld_d s1)\<lparr>d_def_cf := (d_def_cf d)\<lparr>cf_mask := ALL_CF\<rparr>\<rparr>" by (elim exE conjE)
  from chunk_fams[where al = al, OF s2(2) assms(3,4)] obtain s3 where s3: "load_loop al s2 = load_loop al s3" "at (ld_r s3) (enc_chunk tag_STYL (pay_styl d) @
      enc_chunk tag_TEXT (pt_text (d_pt d)) @ enc_chunk tag_CRUN (pay_crun d) @ enc_chunk tag_PRUN (pay_prun d) @ enc_chunk tag_SECT (pay_sect d) @ [])"
    "ld_d s3 = (ld_d s2)\<lparr>d_fam := List.map (\<lambda>f. Some (fam_name f)) (d_fam d)\<rparr>" by (elim exE conjE)
  from chunk_styl[where al = al, OF s3(2) assms(3,4)] obtain s4 where s4: "load_loop al s3 = load_loop al s4" "at (ld_r s4) (enc_chunk tag_TEXT (pt_text (d_pt d)) @
      enc_chunk tag_CRUN (pay_crun d) @ enc_chunk tag_PRUN (pay_prun d) @ enc_chunk tag_SECT (pay_sect d) @ [])"
    "ld_d s4 = (ld_d s3)\<lparr>d_styles := d_styles d\<rparr>" by (elim exE conjE)
  have p4: "d_pt (ld_d s4) = pt_init" using assms(5) s1(3) s2(3) s3(3) s4(3) by simp
  from chunk_text[where al = al, OF s4(2) assms(4) p4 assms(12)] obtain s5 pt where s5: "load_loop al s4 = load_loop al s5"
    "at (ld_r s5) (enc_chunk tag_CRUN (pay_crun d) @ enc_chunk tag_PRUN (pay_prun d) @ enc_chunk tag_SECT (pay_sect d) @ [])"
    "ld_d s5 = (ld_d s4)\<lparr>d_pt := pt\<rparr>" "pt_inv pt" "pt_text pt = pt_text (d_pt d)" by (elim exE conjE)
  from chunk_crun[where al = al, OF s5(2) assms(4,9)] obtain s6 c1 where s6: "load_loop al s5 = load_loop al s6"
    "at (ld_r s6) (enc_chunk tag_PRUN (pay_prun d) @ enc_chunk tag_SECT (pay_sect d) @ [])"
    "ld_d s6 = (ld_d s5)\<lparr>d_cruns := \<lparr>rl_runs = rl_runs (d_cruns d), rl_cap = c1\<rparr>\<rparr>" "ld_crun s6" "length (rl_runs (d_cruns d)) \<le> unat c1" by (elim exE conjE)
  from chunk_prun[where al = al, OF s6(2) assms(4,10)] obtain s7 c2 where s7: "load_loop al s6 = load_loop al s7" "at (ld_r s7) (enc_chunk tag_SECT (pay_sect d) @ [])"
    "ld_d s7 = (ld_d s6)\<lparr>d_pruns := \<lparr>rl_runs = rl_runs (d_pruns d), rl_cap = c2\<rparr>\<rparr>" "ld_crun s7 = ld_crun s6" "ld_prun s7"
    "length (rl_runs (d_pruns d)) \<le> unat c2" by (elim exE conjE)
  from chunk_sect[where al = al, OF s7(2) assms(4) I(10) assms(8,11) si] obtain s8 c3 where s8: "load_loop al s7 = load_loop al s8" "at (ld_r s8) []"
    "ld_d s8 = (ld_d s7)\<lparr>d_sections := d_sections d, d_sruns := \<lparr>rl_runs = rl_runs (d_sruns d), rl_cap = c3\<rparr>\<rparr>" "ld_crun s8 = ld_crun s7"
    "ld_prun s8 = ld_prun s7" "ld_sect s8" "length (rl_runs (d_sruns d)) \<le> unat c3" by (elim exE conjE)
  have "ld_d s8 = (ld_d s)\<lparr>d_pt := pt, d_cruns := \<lparr>rl_runs = rl_runs (d_cruns d), rl_cap = c1\<rparr>, d_pruns := \<lparr>rl_runs = rl_runs (d_pruns d), rl_cap = c2\<rparr>,
      d_def_cf := (d_def_cf d)\<lparr>cf_mask := ALL_CF\<rparr>, d_sruns := \<lparr>rl_runs = rl_runs (d_sruns d), rl_cap = c3\<rparr>, d_sections := d_sections d,
      d_styles := d_styles d, d_fam := List.map (\<lambda>f. Some (fam_name f)) (d_fam d)\<rparr>"
    unfolding s8(3) s7(3) s6(3) s5(3) s4(3) s3(3) s2(3) s1(3) by (cases "ld_d s") simp
  moreover have "load_loop al s = load_loop al s8" using s1(1) s2(1) s3(1) s4(1) s5(1) s6(1) s7(1) s8(1) by simp
  ultimately show thesis using that s8(2,4-7) s5(4,5) s6(4,5) s7(4-6) by blast
qed

lemma concat_length_ge: "(\<And>x. x \<in> set xs \<Longrightarrow> 1 \<le> length (f x)) \<Longrightarrow> length xs \<le> length (concat (List.map f xs))"
proof (induction xs)
  case (Cons x xs)
  have "1 \<le> length (f x)" "length xs \<le> length (concat (List.map f xs))" using Cons by auto
  then show ?case by simp
qed simp

lemma saveable_bounds:
  assumes "saveable d"
  shows "length (d_sections d) < 2147483648" "length (rl_runs (d_cruns d)) < 2147483648" "length (rl_runs (d_pruns d)) < 2147483648"
    "length (rl_runs (d_sruns d)) < 2147483648" "length (pt_text (d_pt d)) \<le> 2147483648"
proof -
  have sz: "length (enc_doc d) \<le> 2147483648" using assms by (simp add: saveable_def)
  note P = enc_doc_parts[of d]
  have "length (rl_runs (d_cruns d)) \<le> length (concat (List.map (\<lambda>r. enc_u32 (fst r) @ enc_cf (snd r)) (rl_runs (d_cruns d))))" by (rule concat_length_ge) simp
  then show "length (rl_runs (d_cruns d)) < 2147483648" using P(6) sz by (simp add: pay_crun_def)
  have "length (rl_runs (d_pruns d)) \<le> length (concat (List.map (\<lambda>r. enc_u32 (fst r) @ enc_pf (snd r)) (rl_runs (d_pruns d))))" by (rule concat_length_ge) simp
  then show "length (rl_runs (d_pruns d)) < 2147483648" using P(7) sz by (simp add: pay_prun_def)
  have "length (rl_runs (d_sruns d)) \<le> length (concat (List.map (\<lambda>r. enc_u32 (fst r) @ enc_u32 (snd r)) (rl_runs (d_sruns d))))"
    "length (d_sections d) \<le> length (concat (List.map enc_pg (d_sections d)))" by (rule concat_length_ge, simp)+
  then show "length (rl_runs (d_sruns d)) < 2147483648" "length (d_sections d) < 2147483648" using P(8) sz by (simp_all add: pay_sect_def)
  show "length (pt_text (d_pt d)) \<le> 2147483648" using P(5) sz by simp
qed

lemma rl_total_recap: "rl_total \<lparr>rl_runs = rl_runs rl, rl_cap = c\<rparr> = rl_total rl"
  by (simp add: rl_total_def)

lemma recap_ok: "runs_ok n rl \<Longrightarrow> length (rl_runs rl) \<le> unat c \<Longrightarrow> runs_ok n \<lparr>rl_runs = rl_runs rl, rl_cap = c\<rparr>"
  by (simp add: runs_ok_def rl_inv_def)

lemma load_header:
  assumes "length (enc_doc d) \<le> 2147483648" "\<And>i. al0 i"
  shows "\<exists>r. at r (drop 8 (enc_doc d)) \<and> df_doc_load al0 al (enc_doc d) =
    do { s \<leftarrow> load_loop al \<lparr>ld_d = doc0, ld_r = r, ld_crun = False, ld_prun = False, ld_sect = False, ld_n = 0\<rparr>;
         if rd_err (ld_r s) then Some (Inl DD_ERR_BADFILE) else do { d1 \<leftarrow> load_finish al s; Some (Inr d1) } }"
proof -
  let ?r = "\<lparr>rd_p = enc_doc d, rd_pos = 0, rd_err = False\<rparr>"
  have m: "length magic_DOBW = 4" by (simp add: magic_DOBW_def)
  have e: "enc_doc d = magic_DOBW @ enc_u16 3 @ enc_u16 0 @ drop 8 (enc_doc d)" using m by (simp add: enc_doc_def)
  have "at ?r (enc_doc d)" using assms(1) by (simp add: at_def)
  then have a: "at ?r (magic_DOBW @ enc_u16 3 @ enc_u16 0 @ drop 8 (enc_doc d))" using e by metis
  have a1: "at (adv 4 ?r) (enc_u16 3 @ enc_u16 0 @ drop 8 (enc_doc d))" using at_adv[OF a] m by simp
  have a2: "at (adv 6 ?r) (enc_u16 0 @ drop 8 (enc_doc d))" using at_adv[OF a1] by simp
  have a3: "at (adv 8 ?r) (drop 8 (enc_doc d))" using at_adv[OF a2] by simp
  have "al0 = (\<lambda>_. True)" using assms(2) by auto
  then have c: "df_doc_create al0 = Some (Some doc0)" using doc0_created by simp
  have n: "\<not> rd_err (adv 4 ?r)" by (simp add: adv_def)
  have b: "rd_bytes 4 ?r = Some (magic_DOBW, adv 4 ?r)" using rd_bytes_at[OF a, of 4] m by simp
  have "\<not> (3 :: u16) < 3" by simp
  then have "df_doc_load al0 al (enc_doc d) =
    do { s \<leftarrow> load_loop al \<lparr>ld_d = doc0, ld_r = adv 8 ?r, ld_crun = False, ld_prun = False, ld_sect = False, ld_n = 0\<rparr>;
         if rd_err (ld_r s) then Some (Inl DD_ERR_BADFILE) else do { d1 \<leftarrow> load_finish al s; Some (Inr d1) } }"
    using b n rd_u16_at[OF a1] rd_u16_at[OF a2] c by (simp add: df_doc_load_def)
  then show ?thesis using a3 by blast
qed

lemma load_saved:
  assumes "doc_inv d" "saveable d" "\<And>i. al0 i" "\<And>i. al i"
  shows "\<exists>d'. df_doc_load al0 al (enc_doc d) = Some (Inr d') \<and> doc_inv d' \<and> doc_content d' = doc_content d \<and> d_styles d' = d_styles d \<and>
    d_def_cf d' = (d_def_cf d)\<lparr>cf_mask := ALL_CF\<rparr> \<and> d_fam d' = List.map (\<lambda>f. Some (fam_name f)) (d_fam d) \<and> d_ustack d' = [] \<and> d_rstack d' = []"
proof -
  note I = doc_invD[OF assms(1)] and B = saveable_bounds[OF assms(2)]
  have sz: "length (enc_doc d) \<le> 2147483648" using assms(2) by (simp add: saveable_def)
  from load_header[where al = al and ?al0.0 = al0, OF sz assms(3)] obtain r where r: "at r (drop 8 (enc_doc d))" "df_doc_load al0 al (enc_doc d) =
    do { s \<leftarrow> load_loop al \<lparr>ld_d = doc0, ld_r = r, ld_crun = False, ld_prun = False, ld_sect = False, ld_n = 0\<rparr>;
         if rd_err (ld_r s) then Some (Inl DD_ERR_BADFILE) else do { d1 \<leftarrow> load_finish al s; Some (Inr d1) } }" by (elim exE conjE)
  let ?s = "\<lparr>ld_d = doc0, ld_r = r, ld_crun = False, ld_prun = False, ld_sect = False, ld_n = 0\<rparr>"
  have a: "at (ld_r ?s) (enc_chunk tag_PAGE (enc_pg (d_sections d ! 0)) @ enc_chunk tag_DCHF (pay_dchf d) @ enc_chunk tag_FAMS (pay_fams d) @
      enc_chunk tag_STYL (pay_styl d) @ enc_chunk tag_TEXT (pt_text (d_pt d)) @ enc_chunk tag_CRUN (pay_crun d) @ enc_chunk tag_PRUN (pay_prun d) @
      enc_chunk tag_SECT (pay_sect d) @ [])" using r(1) by (simp add: enc_doc_def magic_DOBW_def)
  have dp: "d_pt (ld_d ?s) = pt_init" "d_sections (ld_d ?s) \<noteq> []" "\<not> ld_sect ?s" by (simp_all add: doc0_def)
  obtain s8 pt c1 c2 c3 where l: "load_loop al ?s = load_loop al s8" "at (ld_r s8) []" "ld_crun s8" "ld_prun s8" "ld_sect s8"
    "ld_d s8 = (ld_d ?s)\<lparr>d_pt := pt, d_cruns := \<lparr>rl_runs = rl_runs (d_cruns d), rl_cap = c1\<rparr>, d_pruns := \<lparr>rl_runs = rl_runs (d_pruns d), rl_cap = c2\<rparr>,
      d_def_cf := (d_def_cf d)\<lparr>cf_mask := ALL_CF\<rparr>, d_sruns := \<lparr>rl_runs = rl_runs (d_sruns d), rl_cap = c3\<rparr>, d_sections := d_sections d,
      d_styles := d_styles d, d_fam := List.map (\<lambda>f. Some (fam_name f)) (d_fam d)\<rparr>"
    "pt_inv pt" "pt_text pt = pt_text (d_pt d)" "length (rl_runs (d_cruns d)) \<le> unat c1" "length (rl_runs (d_pruns d)) \<le> unat c2"
    "length (rl_runs (d_sruns d)) \<le> unat c3"
    by (rule load_all[where al = al, OF a assms(1,2,4) dp B]) blast
  have "unat (rd_pos (ld_r s8) + 8) = unat (rd_pos (ld_r s8)) + 8" using at_length[OF l(2)] l(2) by (simp add: at_def unat_add_u32)
  then have fin: "load_loop al s8 = Some s8" using at_length[OF l(2)] by (subst load_loop.simps) (simp add: word_le_nat_alt)
  have tot: "rl_total (d_cruns d) = pt_total pt" "rl_total (d_pruns d) = pt_total pt" "rl_total (d_sruns d) = pt_total pt"
    using rl_invD(5)[OF I(4)] rl_invD(5)[OF I(6)] rl_invD(5)[OF I(8)] I(5,7,9) pt_invD(3)[OF l(7)] l(8) by (simp_all add: word_unat_eq_iff)
  have ne: "rl_runs (d_cruns d) \<noteq> []" "rl_runs (d_pruns d) \<noteq> []" using rl_invD(3)[OF I(4)] rl_invD(3)[OF I(6)] by blast+
  have f: "load_finish al s8 = Some (ld_d s8)"
    using l(3-5) tot ne unfolding l(6) by (simp add: load_finish_def Let_def fix_total_def rl_total_recap l(6))
  have inv: "doc_inv (ld_d s8)"
  proof -
    have pl: "length (pt_pc pt) < 4294967296" using pt_invD(6)[OF l(7)] unat_lt_u32[of "pt_cap pt"] by linarith
    have st: "d_pt (ld_d s8) = pt" "d_ustack (ld_d s8) = []" "d_rstack (ld_d s8) = []" unfolding l(6) by (simp_all add: doc0_def)
    have R: "runs_ok (length (pt_text pt)) (d_cruns d)" "runs_ok (length (pt_text pt)) (d_pruns d)" "runs_ok (length (pt_text pt)) (d_sruns d)"
      using I(2) l(8) by (simp_all add: us_ok_now)
    have "us_ok (d_pt (ld_d s8)) (now (ld_d s8))"
      unfolding us_ok_now unfolding st(1) unfolding l(6)
      using pt_invD(1,3)[OF l(7)] pl recap_ok[OF R(1) l(9)] recap_ok[OF R(2) l(10)] recap_ok[OF R(3) l(11)] I(10,11) by simp
    then show ?thesis using st l(7) by (simp add: doc_inv_def)
  qed
  have "df_doc_load al0 al (enc_doc d) = Some (Inr (ld_d s8))" using r(2) l(1) fin f l(2) by (simp add: at_def)
  moreover have "doc_content (ld_d s8) = doc_content d" unfolding doc_content_simps l(6) using l(8) by simp
  ultimately show ?thesis using inv unfolding l(6) by (simp add: doc0_def)
qed

section \<open>Properties\<close>

text \<open>
  C16: Saving and loading is a round trip.  With memory at hand a well-formed document whose names and counts fit their fields is saved, and
  loading the bytes gives a well-formed document with the same text, the same format of every character and
  paragraph, the same sections, styles and family names, and the default format with all fields set; there is nothing to undo.
\<close>

theorem save_load_roundtrip:
  assumes "doc_inv d" "saveable d" "\<And>k i. al k i" "\<And>i. al0 i" "\<And>i. al1 i"
  shows "\<exists>data d'. df_doc_serialize al d = Some (Inr data) \<and> df_doc_load al0 al1 data = Some (Inr d') \<and> doc_inv d' \<and>
    doc_content d' = doc_content d \<and> d_styles d' = d_styles d \<and> d_def_cf d' = (d_def_cf d)\<lparr>cf_mask := ALL_CF\<rparr> \<and>
    (\<forall>i. df_doc_family_name d' i = df_doc_family_name d i) \<and> \<not> df_doc_can_undo d' \<and> \<not> df_doc_can_redo d'"
proof -
  have s: "df_doc_serialize al d = Some (Inr (enc_doc d))" by (rule serialize_facts[OF assms(1-3)])
  from load_saved[where al = al1 and ?al0.0 = al0, OF assms(1,2,4,5)] obtain d' where
    d': "df_doc_load al0 al1 (enc_doc d) = Some (Inr d')" "doc_inv d'" "doc_content d' = doc_content d" "d_styles d' = d_styles d"
      "d_def_cf d' = (d_def_cf d)\<lparr>cf_mask := ALL_CF\<rparr>" "d_fam d' = List.map (\<lambda>f. Some (fam_name f)) (d_fam d)" "d_ustack d' = []" "d_rstack d' = []"
    by (elim exE conjE)
  have "df_doc_family_name d' i = df_doc_family_name d i" for i using d'(6) by (simp add: df_doc_family_name_def fam_name_def)
  then show ?thesis using s d' by (auto simp: df_doc_can_undo_def df_doc_can_redo_def)
qed

lemma doc0_saveable: "saveable doc0"
  by (simp add: saveable_def doc0_def fam_name_def enc_doc_def enc_chunk_def tag_defs magic_DOBW_def pay_dchf_def pay_fams_def pay_styl_def
      pay_crun_def pay_prun_def pay_sect_def enc_fam_def enc_style_def raw_style_def name_bytes_def pt_init_inv(2))

theorem save_load_roundtrip_witness:
  "\<exists>data d'. df_doc_serialize (\<lambda>_ _. True) doc0 = Some (Inr data) \<and> df_doc_load (\<lambda>_. True) (\<lambda>_. True) data = Some (Inr d') \<and>
     d_styles d' = d_styles doc0 \<and> doc_content d' = doc_content doc0"
  using save_load_roundtrip[OF doc0_inv doc0_saveable, of "\<lambda>_ _. True" "\<lambda>_. True" "\<lambda>_. True"] by blast

text \<open>
  The end of a chunk is computed in 32 bits.  A chunk whose length leads back to its own start is read again and
  again: the loader never returns.
\<close>

lemma load_loop_stuck:
  assumes "rd_pos (ld_r s) + 8 \<le> rd_len (ld_r s)" "\<not> rd_err (ld_r s)" "load_chunk al s = Some (Inr s)"
  shows "load_loop al s = None"
proof -
  have "\<not> (al' = al \<and> s' = s)" if "load_loop al' s' = Some y" for al' s' y
  proof (rule load_loop.raw_induct[OF _ that, of "\<lambda>al' s' y. \<not> (al' = al \<and> s' = s)"])
    fix f al' s' y
    assume h: "\<And>al' s' y. f al' s' = Some y \<Longrightarrow> \<not> (al' = al \<and> s' = s)"
      "(if rd_pos (ld_r s') + 8 \<le> rd_len (ld_r s') \<and> \<not> rd_err (ld_r s')
        then load_chunk al' s' \<bind> (\<lambda>x. case x of Inl s1 \<Rightarrow> Some s1 | Inr s1 \<Rightarrow> f al' s1) else Some s') = Some y"
    show "\<not> (al' = al \<and> s' = s)"
    proof
      assume "al' = al \<and> s' = s"
      then show False using h assms by auto
    qed
  qed
  then show ?thesis by (cases "load_loop al s") auto
qed

theorem load_never_ends:
  "df_doc_load (\<lambda>_. True) al [68, 79, 66, 87, 3, 0, 0, 0, 88, 88, 88, 88, 0xF8, 0xFF, 0xFF, 0xFF] = None"
proof -
  let ?data = "[68, 79, 66, 87, 3, 0, 0, 0, 88, 88, 88, 88, 0xF8, 0xFF, 0xFF, 0xFF] :: u8 list"
  let ?r = "\<lparr>rd_p = ?data, rd_pos = 8, rd_err = False\<rparr>"
  let ?s = "\<lparr>ld_d = doc0, ld_r = ?r, ld_crun = False, ld_prun = False, ld_sect = False, ld_n = 0\<rparr>"
  have c: "load_chunk al ?s = Some (Inr ?s)"
    by (simp add: load_chunk_def rd_bytes_def rd_u32_def rd_u8_def rd_len_def Let_def load_body_def tag_defs rd_skip_def)
  have "load_loop al ?s = None" by (rule load_loop_stuck[OF _ _ c]) (simp_all add: rd_len_def)
  then show ?thesis using doc0_created by (simp add: df_doc_load_def rd_bytes_def rd_u16_def rd_u8_def rd_len_def magic_DOBW_def)
qed

text \<open>
  Only the text chunk passes a failed allocation on: without memory for the buffer of another chunk the chunk is
  written empty and saving still reports success.
\<close>

theorem save_drops_runs:
  "\<exists>data. df_doc_serialize (\<lambda>k _. k \<noteq> 6) doc0 = Some (Inr data)"
proof -
  have "(case df_doc_serialize (\<lambda>k _. k \<noteq> 6) doc0 of Some (Inr data) \<Rightarrow> True | _ \<Rightarrow> False)" by code_simp
  then show ?thesis by (auto split: option.splits sum.splits)
qed

end
