(* ===== verification/Spec2Isabelle.thy ===== *)
theory Spec2Isabelle
  imports Bitmap Pmm Paging Refcount Handle_Table Vregion Slab Registry Event_Group Timer Clock Futex Channel Docfile
begin

text \<open>
  \<^bold>\<open>MainDOB: a verification development of the kernel.\<close>

  MainDOB is a microkernel operating system for 32-bit x86 written in C.  The kernel
  (\<^verbatim>\<open>src/kernel\<close>) manages physical frames, page tables, kernel and user address space, threads and
  processes, and lets processes talk over IPC ports that are found through a name registry; drivers,
  file system and graphical interface are user processes.  This development models the part of the
  kernel that everything else rests on, and of the user side the library in which the word processor keeps its
  documents (\<^verbatim>\<open>src/libdobdoc\<close>), one theory per component, and proves what its callers rely on.

  \<^bold>\<open>How the code is modelled.\<close>  Unsigned integers are words of their width, so that additions
  wrap where the C code wraps.  A C structure is a record, the static variables of a file are
  one record, and every function is a definition that takes and returns it.  A function that can fail
  returns the code's own error value; a panic, a processor fault or a loop that does not end
  is None.  Arrays are lists; linked lists are lists where the code only walks them, and pointers in
  a store where the links themselves matter (\<^verbatim>\<open>Wait\<close>).  The body of a spin-locked section is one step.
  Where the order of steps of several processors matters there is a second model that
  interleaves the critical sections or single memory accesses (\<^verbatim>\<open>Registry\<close>, \<^verbatim>\<open>Tsc\<close>, \<^verbatim>\<open>Clock\<close>, \<^verbatim>\<open>Wait\<close>,
  \<^verbatim>\<open>Channel\<close>).  What
  a component gets from code outside its theory, the success of an allocation or of arming a timer,
  whether a process is alive, or the answers of the CMOS chip, is an argument of the
  definitions.  Log lines are left out.

  \<^bold>\<open>The theories.\<close>
  \<^item> \<^verbatim>\<open>Prelude\<close>: integer types, alignment and page arithmetic of \<^verbatim>\<open>lib/types.h\<close> and \<^verbatim>\<open>mm/pmm.h\<close>, and the
    lemmas on words, bits, scans and batches that the components share.
  \<^item> \<^verbatim>\<open>Bitmap\<close> (\<^verbatim>\<open>lib/bitmap.c\<close>): the slot bitmap; its searches find the lowest clear bit or run.
  \<^item> \<^verbatim>\<open>Pmm\<close> (\<^verbatim>\<open>mm/pmm.c\<close>): frames in two zones; an invariant ties bitmap, counters and hints together,
    allocation hands out only free frames, releases are checked, initialisation keeps
    everything that must not be handed out.
  \<^item> \<^verbatim>\<open>Paging\<close> (\<^verbatim>\<open>mm/paging.c\<close>): two-level page tables in physical memory with the recursive entry;
    mapping in one address space changes no other translation, and unmapping undoes mapping.
  \<^item> \<^verbatim>\<open>Kva\<close> and \<^verbatim>\<open>Slab\<close> (\<^verbatim>\<open>mm/kheap.c\<close>): the pages of the kernel heap and the objects on them.  \<^verbatim>\<open>Kva\<close> states what a
    source of pages promises as the locale \<^verbatim>\<open>page_source\<close> and interprets it on its own allocator; \<^verbatim>\<open>Slab\<close>
    shows that no object overlaps another, that \<^verbatim>\<open>kmalloc\<close> fails exactly when the page allocator refuses the pages it needs, and
    that \<^verbatim>\<open>kfree\<close> releases exactly its argument.
  \<^item> \<^verbatim>\<open>Vregion\<close> (\<^verbatim>\<open>mm/vregion.c\<close>): the regions of a process; first fit, exact insertion, page totals.
  \<^item> \<^verbatim>\<open>Refcount\<close> (\<^verbatim>\<open>krt/refcount.h\<close>) and \<^verbatim>\<open>Handle_Table\<close> (\<^verbatim>\<open>krt/handle_table.c\<close>): one teardown per object; a
    reference resolves as long as its object is in the table, and never to a later one.  The table's contract is the locale \<^verbatim>\<open>slot_table\<close>.
  \<^item> \<^verbatim>\<open>Registry\<close> (\<^verbatim>\<open>registry.c\<close>): service names.  Registration, lookup, waiting and the clean-up after
    a process, as atomic calls (the contract is the locale \<^verbatim>\<open>name_service\<close>) and interleaved.
  \<^item> \<^verbatim>\<open>Event_Group\<close> (\<^verbatim>\<open>sync/event_group.c\<close>): groups of 32 condition bits and the threads that wait for them.  Over any calls no waiter for
    set bits sleeps through its condition; for waiters on clear bits this needs that nobody resets the group or pulses bits already set,
    since the code has no waking pass there (\<^verbatim>\<open>event_reset_pulse_miss\<close>).
  \<^item> \<^verbatim>\<open>Timer\<close> (\<^verbatim>\<open>time/timer.c\<close>): the heap of deadlines refines an agenda, a partial map from timers to
    deadlines (locale \<^verbatim>\<open>deadline_queue\<close>); the drain of a tick ends and leaves nothing due.
  \<^item> \<^verbatim>\<open>Math64\<close> (\<^verbatim>\<open>lib/div64.c\<close>), \<^verbatim>\<open>Civil\<close> (\<^verbatim>\<open>time/civil.c\<close>), \<^verbatim>\<open>Tsc\<close> (\<^verbatim>\<open>arch/x86/tsc.c\<close>) and \<^verbatim>\<open>Clock\<close> (\<^verbatim>\<open>time/clock.c\<close>,
    \<^verbatim>\<open>time/rtc.c\<close>): division, calendar, cycle conversion, and the wall clock built on them.
  \<^item> \<^verbatim>\<open>Wait\<close> (\<^verbatim>\<open>proc/wait.c\<close> and the end of a wait in \<^verbatim>\<open>proc/scheduler.c\<close>): intrusive wait queues as
    pointers; they implement first-in first-out lists.  A waker on a detached chain loses nobody while no thread of the chain cancels or
    times out; \<^verbatim>\<open>wake_all_strands\<close> gives two runs in which one does and the rest of the chain is lost.
  \<^item> \<^verbatim>\<open>Futex\<close> (\<^verbatim>\<open>proc/futex.c\<close>): waiting on a word of user memory; the hashed buckets refine queues keyed by address space and
    address when no two addresses in use in a process collide.
  \<^item> \<^verbatim>\<open>Msg_Pool\<close>, \<^verbatim>\<open>Port\<close> and \<^verbatim>\<open>Channel\<close> (\<^verbatim>\<open>ipc/channel.c\<close>, \<^verbatim>\<open>ipc/port.c\<close>): message entries with their per-CPU magazines, ports with ids
    and generations, and posting, sending, receiving and replying.  No message entry has two holders, no stale binding reaches a new port, posted messages
    arrive once and in order, and the destruction of a port reaches everybody who waits on it and delivers every death notice.
  \<^item> \<^verbatim>\<open>Piece_Table\<close>, \<^verbatim>\<open>Runs\<close> and \<^verbatim>\<open>Document\<close> (\<^verbatim>\<open>libdobdoc\<close>: \<^verbatim>\<open>piecetable.c\<close>, \<^verbatim>\<open>runs.c\<close>, \<^verbatim>\<open>document.c\<close>): the text as pieces of
    two buffers refines a byte sequence, the attribute runs refine one payload per byte, and the document keeps both in step over every
    edit, undo and redo (undo and redo go on after a failed allocation in \<^verbatim>\<open>apply_state\<close>, so the statements about them ask for memory
    there; \<^verbatim>\<open>undo_without_memory\<close> shows what happens otherwise).  What an edit promises is the locale \<^verbatim>\<open>undoable_edit\<close>, interpreted on all of them.
  \<^item> \<^verbatim>\<open>Docfile\<close> (\<^verbatim>\<open>docfile.c\<close>): the file format.  The locale \<^verbatim>\<open>codec\<close> ties what is written for an entry to what is read; its interpretations on
    words, formats, styles, pages and runs give the round trip of a whole document.

  \<^bold>\<open>Bounds.\<close>  The statements carry the bounds under which the 32-bit arithmetic of the code does not wrap:
  heap windows below 131072 pages and requests below 536862720 bytes, fewer than \<open>2 ^ 32\<close> operations
  between taking and using a handle, cycle counts between two re-anchorings below \<open>2 ^ 31\<close>
  nanoseconds' worth, dates below \<open>2 ^ 48\<close> seconds, documents and files below 2 GB.  No model uses fuel except where the code itself
  counts its attempts (100000 polls and 8 readings of the CMOS chip); the walks along pointers are
  partial functions, shown to return under the representation invariant.

  \<^bold>\<open>Not modelled.\<close>  Context switches, interrupt entry and the programming of APIC, PIT, PCI and
  SMP start-up have the meaning the hardware gives them.  The scheduler's run queues, process and
  thread life cycle, shared memory, ELF loading and the system call layer (apart from the calls that post
  messages) are not modelled; the components above take what they need of them as arguments.  The user-space
  servers, drivers, graphical libraries and programs are outside the development, except for the document library.
\<close>

end
